(* ===== verification/Store_Prelude.thy ===== *)
theory Store_Prelude
  imports Main "HOL-Library.Word" "HOL-Library.Monad_Syntax"
begin

unbundle bit_operations_syntax

text \<open>
  The shared layer of the development: the machine types of the Rust sources, the
  three-way \<open>Ordering\<close> of \<^verbatim>\<open>std::cmp\<close>, results of fallible code as sums, numbers as
  little- and big-endian byte strings, the lexicographic order of byte slices, UTF-8
  well-formedness, and the generic lemmas on them that the components share.

  \<^item> \<open>u8\<close>, \<open>u32\<close>, \<open>u64\<close>, \<open>u128\<close> are words of that width; an \<open>i64\<close> is a 64-bit word read by
    \<open>sint\<close>; an \<open>f64\<close> is its 64 bits (the sources only move, compare and hash its bits).
  \<^item> \<open>usize\<close> is \<open>nat\<close>: the targets are 64-bit and every length is that of a buffer in
    memory, so no \<open>usize\<close> sum of the modelled code can overflow.
  \<^item> A \<open>Result<T, E>\<close> is \<open>E + T\<close>, with \<open>Inl\<close> the error.
\<close>

named_theorems codec_simps \<open>reading back what an encoder wrote\<close>
named_theorems cmp_simps \<open>three-way comparisons of encoded data\<close>

section \<open>Machine types\<close>

type_synonym byte = "8 word"
type_synonym u32 = "32 word"
type_synonym u64 = "64 word"
type_synonym i64 = "64 word"
type_synonym f64 = "64 word"
type_synonym u128 = "128 word"
type_synonym bytes = "byte list"

section \<open>Three-way comparison\<close>

datatype ordering = Less | Equal | Greater

fun reverse_ord :: "ordering \<Rightarrow> ordering" where
  "reverse_ord Less = Greater"
| "reverse_ord Equal = Equal"
| "reverse_ord Greater = Less"

definition ord_cmp :: "'a::linorder \<Rightarrow> 'a \<Rightarrow> ordering" where
  "ord_cmp a b = (if a < b then Less else if a = b then Equal else Greater)"

fun then_ord :: "ordering \<Rightarrow> ordering \<Rightarrow> ordering" where
  "then_ord Equal c = c"
| "then_ord Less c = Less"
| "then_ord Greater c = Greater"

text \<open>\<^verbatim>\<open><[T]>::cmp\<close>: element by element, a slice that runs out first is the smaller.\<close>

fun slice_cmp :: "'a::linorder list \<Rightarrow> 'a list \<Rightarrow> ordering" where
  "slice_cmp [] [] = Equal"
| "slice_cmp [] (_ # _) = Less"
| "slice_cmp (_ # _) [] = Greater"
| "slice_cmp (a # as) (b # bs) = (if a < b then Less else if b < a then Greater else slice_cmp as bs)"

lemma ord_cmp_simps [simp]:
  "ord_cmp a b = Less \<longleftrightarrow> a < b"
  "ord_cmp a b = Equal \<longleftrightarrow> a = b"
  "ord_cmp a b = Greater \<longleftrightarrow> b < a"
  by (auto simp: ord_cmp_def)

lemma ord_cmp_refl [simp]: "ord_cmp a a = Equal"
  by simp

lemma reverse_ord_cmp: "reverse_ord (ord_cmp a b) = ord_cmp b a"
  by (auto simp: ord_cmp_def)

lemma reverse_ord_iff [simp]:
  "reverse_ord c = Less \<longleftrightarrow> c = Greater"
  "reverse_ord c = Equal \<longleftrightarrow> c = Equal"
  "reverse_ord c = Greater \<longleftrightarrow> c = Less"
  by (cases c; simp)+

lemma then_ord_Equal2 [simp]: "then_ord c Equal = c"
  by (cases c) auto

lemma then_ord_eq_Equal [simp]: "then_ord c d = Equal \<longleftrightarrow> c = Equal \<and> d = Equal"
  by (cases c) auto

lemma ord_cmp_mono:
  assumes "\<And>x y. f x < f y \<longleftrightarrow> x < y"
  shows "ord_cmp (f a) (f b) = ord_cmp a b"
  using assms by (metis linorder_cases ord_cmp_def order.irrefl)

lemma slice_cmp_Cons_cmp: "slice_cmp (a # as) (b # bs) = then_ord (ord_cmp a b) (slice_cmp as bs)"
  by (auto simp: ord_cmp_def)

lemma slice_cmp_refl [simp]: "slice_cmp xs xs = Equal"
  by (induction xs) auto

lemma slice_cmp_eq_iff [simp]: "slice_cmp xs ys = Equal \<longleftrightarrow> xs = ys"
  by (induction xs ys rule: slice_cmp.induct) auto

lemma slice_cmp_reverse: "reverse_ord (slice_cmp xs ys) = slice_cmp ys xs"
  by (induction xs ys rule: slice_cmp.induct) auto

lemma slice_cmp_append_same [simp]: "slice_cmp (zs @ xs) (zs @ ys) = slice_cmp xs ys"
  by (induction zs) auto

lemma slice_cmp_append:
  "length xs = length ys \<Longrightarrow>
   slice_cmp (xs @ as) (ys @ bs) = then_ord (slice_cmp xs ys) (slice_cmp as bs)"
  by (induction xs ys rule: list_induct2) auto

lemma slice_cmp_less_trans:
  "slice_cmp xs ys = Less \<Longrightarrow> slice_cmp ys zs = Less \<Longrightarrow> slice_cmp xs zs = Less"
proof (induction xs arbitrary: ys zs)
  case Nil
  then show ?case by (cases ys; cases zs) auto
next
  case (Cons x xs)
  then show ?case by (cases ys; cases zs) (auto split: if_splits)
qed

lemma slice_cmp_Nil_right [simp]: "slice_cmp xs [] = (if xs = [] then Equal else Greater)"
  by (cases xs) auto

lemma slice_cmp_Nil_left [simp]: "slice_cmp [] xs = (if xs = [] then Equal else Less)"
  by (cases xs) auto

section \<open>Results\<close>

fun r_bind :: "'e + 'a \<Rightarrow> ('a \<Rightarrow> 'e + 'b) \<Rightarrow> 'e + 'b" where
  "r_bind (Inl e) f = Inl e"
| "r_bind (Inr a) f = f a"

definition ok_or :: "'e \<Rightarrow> 'a option \<Rightarrow> 'e + 'a" where
  "ok_or e x = (case x of None \<Rightarrow> Inl e | Some a \<Rightarrow> Inr a)"

definition is_ok :: "'e + 'a \<Rightarrow> bool" where
  "is_ok r = (case r of Inl _ \<Rightarrow> False | Inr _ \<Rightarrow> True)"

lemma ok_or_simps [simp]: "ok_or e None = Inl e" "ok_or e (Some a) = Inr a"
  by (auto simp: ok_or_def)

lemma is_ok_simps [simp]: "is_ok (Inr a)" "\<not> is_ok (Inl e)"
  by (auto simp: is_ok_def)

lemma case_unit_any: "(case u of () \<Rightarrow> x) = x"
  by (cases u) (simp only: unit.case)

lemma r_bind_eq_Inr: "r_bind r f = Inr b \<longleftrightarrow> (\<exists>a. r = Inr a \<and> f a = Inr b)"
  by (cases r) auto

lemma r_bind_eq_Inl: "r_bind r f = Inl e \<longleftrightarrow> r = Inl e \<or> (\<exists>a. r = Inr a \<and> f a = Inl e)"
  by (cases r) auto

lemma ok_or_eq_Inr [simp]: "ok_or e x = Inr a \<longleftrightarrow> x = Some a"
  by (cases x) auto

section \<open>Numbers as bytes\<close>

text \<open>
  \<open>be_bytes n v\<close> and \<open>le_bytes n v\<close> are the low \<open>n\<close> bytes of \<open>v\<close> (\<^verbatim>\<open>to_be_bytes\<close>,
  \<^verbatim>\<open>to_le_bytes\<close>); \<open>of_be\<close> and \<open>of_le\<close> are the numbers such bytes spell.
\<close>

fun be_bytes :: "nat \<Rightarrow> nat \<Rightarrow> bytes" where
  "be_bytes 0 v = []"
| "be_bytes (Suc n) v = be_bytes n (v div 256) @ [word_of_nat v]"

fun le_bytes :: "nat \<Rightarrow> nat \<Rightarrow> bytes" where
  "le_bytes 0 v = []"
| "le_bytes (Suc n) v = word_of_nat v # le_bytes n (v div 256)"

definition of_be :: "bytes \<Rightarrow> nat" where
  "of_be bs = foldl (\<lambda>v b. v * 256 + unat b) 0 bs"

fun of_le :: "bytes \<Rightarrow> nat" where
  "of_le [] = 0"
| "of_le (b # bs) = unat b + 256 * of_le bs"

lemma length_be_bytes [simp]: "length (be_bytes n v) = n"
  by (induction n arbitrary: v) auto

lemma length_le_bytes [simp]: "length (le_bytes n v) = n"
  by (induction n arbitrary: v) auto

lemma unat_byte_of_nat [simp]: "unat (word_of_nat v :: byte) = v mod 256"
  by (simp add: unat_of_nat)

lemma unat_byte_less: "unat (b :: byte) < 256"
  using unsigned_less [of b] by simp

lemma unat_u32_less: "unat (w :: u32) < 4294967296"
  using unsigned_less [of w, where 'a = nat] by simp

lemma unat_u64_less: "unat (w :: u64) < 18446744073709551616"
  using unsigned_less [of w, where 'a = nat] by simp

lemma sint_inj [simp]: "sint (a :: 'a::len word) = sint b \<longleftrightarrow> a = b"
  by (metis of_int_sint scast_id)

lemma of_be_append: "of_be (xs @ [b]) = of_be xs * 256 + unat b"
  by (simp add: of_be_def)

lemma of_be_Nil [simp]: "of_be [] = 0"
  by (simp add: of_be_def)

lemma of_be_be_bytes [simp]: "of_be (be_bytes n v) = v mod 256 ^ n"
proof (induction n arbitrary: v)
  case 0
  then show ?case by simp
next
  case (Suc n)
  have "v mod (256 * 256 ^ n) = 256 * (v div 256 mod 256 ^ n) + v mod 256"
    by (simp add: mod_mult2_eq)
  with Suc show ?case by (simp add: of_be_append mult.commute)
qed

lemma of_le_le_bytes [simp]: "of_le (le_bytes n v) = v mod 256 ^ n"
proof (induction n arbitrary: v)
  case 0
  then show ?case by simp
next
  case (Suc n)
  then show ?case by (simp add: mod_mult2_eq)
qed

lemma drop_be_bytes: "k \<le> n \<Longrightarrow> drop (n - k) (be_bytes n v) = be_bytes k v"
proof (induction k arbitrary: n v)
  case 0
  then show ?case by simp
next
  case (Suc k)
  then obtain m where n: "n = Suc m" by (cases n) auto
  with Suc show ?case by simp
qed

lemma of_be_bound: "of_be bs < 256 ^ length bs"
proof (induction bs rule: rev_induct)
  case Nil
  then show ?case by simp
next
  case (snoc b bs)
  have "unat b < 256" by (rule unat_byte_less)
  moreover from snoc have "Suc (of_be bs) * 256 \<le> 256 ^ length bs * 256" by simp
  ultimately show ?case by (simp add: of_be_append)
qed

lemma of_le_bound: "of_le bs < 256 ^ length bs"
proof (induction bs)
  case Nil
  then show ?case by simp
next
  case (Cons b bs)
  have "unat b < 256" by (rule unat_byte_less)
  moreover from Cons have "256 * Suc (of_le bs) \<le> 256 * 256 ^ length bs" by simp
  ultimately show ?case by simp
qed

lemma be_bytes_of_be [simp]: "length bs = n \<Longrightarrow> be_bytes n (of_be bs) = bs"
proof (induction n arbitrary: bs)
  case 0
  then show ?case by simp
next
  case (Suc n)
  then obtain b cs where bs: "bs = cs @ [b]" by (cases bs rule: rev_cases) auto
  have lt: "unat b < 256" by (rule unat_byte_less)
  have "unat (word_of_nat (of_be cs * 256 + unat b) :: byte) = unat b"
    using lt by (simp only: unat_byte_of_nat) simp
  then have "(word_of_nat (of_be cs * 256 + unat b) :: byte) = b"
    by (rule word_unat_eq_iff [THEN iffD2])
  moreover have "(of_be cs * 256 + unat b) div 256 = of_be cs" using lt by simp
  ultimately show ?case using Suc bs by (simp add: of_be_append)
qed

lemma le_bytes_of_le [simp]: "length bs = n \<Longrightarrow> le_bytes n (of_le bs) = bs"
proof (induction n arbitrary: bs)
  case 0
  then show ?case by simp
next
  case (Suc n)
  then obtain b cs where bs: "bs = b # cs" by (cases bs) auto
  have lt: "unat b < 256" by (rule unat_byte_less)
  have "unat (word_of_nat (unat b + 256 * of_le cs) :: byte) = unat b"
    using lt by (simp only: unat_byte_of_nat) simp
  then have "(word_of_nat (unat b + 256 * of_le cs) :: byte) = b"
    by (rule word_unat_eq_iff [THEN iffD2])
  moreover have "(unat b + 256 * of_le cs) div 256 = of_le cs" using lt by simp
  ultimately show ?case using Suc bs by simp
qed

text \<open>Big-endian bytes of one length order as the numbers do.\<close>

lemma slice_cmp_be_bytes [cmp_simps]:
  "a < 256 ^ n \<Longrightarrow> b < 256 ^ n \<Longrightarrow> slice_cmp (be_bytes n a) (be_bytes n b) = ord_cmp a b"
proof (induction n arbitrary: a b)
  case 0
  then show ?case by simp
next
  case (Suc n)
  have ab: "a div 256 < 256 ^ n" "b div 256 < 256 ^ n"
    using Suc.prems by (auto simp: less_mult_imp_div_less mult.commute)
  have byte: "ord_cmp (word_of_nat a :: byte) (word_of_nat b) = ord_cmp (a mod 256) (b mod 256)"
    by (auto simp: ord_cmp_def word_less_nat_alt word_unat_eq_iff)
  have "slice_cmp (be_bytes (Suc n) a) (be_bytes (Suc n) b)
      = then_ord (ord_cmp (a div 256) (b div 256)) (ord_cmp (a mod 256) (b mod 256))"
    using Suc.IH [OF ab] by (simp add: slice_cmp_append slice_cmp_Cons_cmp byte del: slice_cmp.simps(4))
  also have "\<dots> = ord_cmp a b"
  proof (cases "a div 256 = b div 256")
    case True
    then have "a < b \<longleftrightarrow> a mod 256 < b mod 256" "a = b \<longleftrightarrow> a mod 256 = b mod 256"
      using div_mult_mod_eq [of a 256] div_mult_mod_eq [of b 256] by linarith+
    with True show ?thesis by (simp add: ord_cmp_def)
  next
    case False
    then have "a < b \<longleftrightarrow> a div 256 < b div 256" "a \<noteq> b"
      by (metis div_le_mono linorder_not_less nle_le) (use False in blast)
    with False show ?thesis by (auto simp: ord_cmp_def)
  qed
  finally show ?case .
qed

section \<open>UTF-8\<close>

text \<open>
  \<^verbatim>\<open>std::str::from_utf8\<close>: the well-formed byte sequences of the Unicode standard (table
  3-7), which is what the standard library accepts. A \<open>String\<close> is such a byte string, and
  its order is that of its bytes.
\<close>

definition is_cont :: "byte \<Rightarrow> bool" where
  "is_cont b \<longleftrightarrow> 0x80 \<le> b \<and> b \<le> 0xBF"

fun utf8_valid :: "bytes \<Rightarrow> bool" where
  "utf8_valid [] = True"
| "utf8_valid (a # bs) =
    (if a < 0x80 then utf8_valid bs
     else if 0xC2 \<le> a \<and> a \<le> 0xDF then
       (case bs of b # cs \<Rightarrow> is_cont b \<and> utf8_valid cs | _ \<Rightarrow> False)
     else if 0xE0 \<le> a \<and> a \<le> 0xEF then
       (case bs of b # c # cs \<Rightarrow>
          (if a = 0xE0 then 0xA0 \<le> b \<and> b \<le> 0xBF
           else if a = 0xED then 0x80 \<le> b \<and> b \<le> 0x9F else is_cont b)
          \<and> is_cont c \<and> utf8_valid cs
        | _ \<Rightarrow> False)
     else if 0xF0 \<le> a \<and> a \<le> 0xF4 then
       (case bs of b # c # d # cs \<Rightarrow>
          (if a = 0xF0 then 0x90 \<le> b \<and> b \<le> 0xBF
           else if a = 0xF4 then 0x80 \<le> b \<and> b \<le> 0x8F else is_cont b)
          \<and> is_cont c \<and> is_cont d \<and> utf8_valid cs
        | _ \<Rightarrow> False)
     else False)"

section \<open>Slices\<close>

text \<open>\<^verbatim>\<open>bytes.get(from..to)\<close>: the bytes of a range that lies within the slice.\<close>

definition get_range :: "'a list \<Rightarrow> nat \<Rightarrow> nat \<Rightarrow> 'a list option" where
  "get_range bs from to = (if from \<le> to \<and> to \<le> length bs then Some (take (to - from) (drop from bs)) else None)"

definition get_at :: "'a list \<Rightarrow> nat \<Rightarrow> 'a option" where
  "get_at bs i = (if i < length bs then Some (bs ! i) else None)"

lemma length_get_range: "get_range bs f t = Some cs \<Longrightarrow> length cs = t - f"
  by (auto simp: get_range_def split: if_splits)

lemma get_range_append:
  "length xs = f \<Longrightarrow> length ys = t - f \<Longrightarrow> f \<le> t \<Longrightarrow> get_range (xs @ ys @ zs) f t = Some ys"
  by (simp add: get_range_def)

lemma get_at_append [simp]: "length xs = i \<Longrightarrow> get_at (xs @ y # zs) i = Some y"
  by (auto simp: get_at_def)

lemma get_at_0 [simp]: "get_at (x # xs) 0 = Some x" "get_at [] i = None"
  by (auto simp: get_at_def)

lemma get_at_Suc [simp]: "get_at (x # xs) (Suc i) = get_at xs i"
  by (auto simp: get_at_def)

text \<open>\<^verbatim>\<open>iter().position\<close>, \<^verbatim>\<open>split_at_checked\<close>, and \<^verbatim>\<open>buf[at..at + len].copy_from_slice(bs)\<close>.\<close>

fun position :: "('a \<Rightarrow> bool) \<Rightarrow> 'a list \<Rightarrow> nat option" where
  "position P [] = None"
| "position P (x # xs) = (if P x then Some 0 else map_option Suc (position P xs))"

definition split_at_checked :: "nat \<Rightarrow> 'a list \<Rightarrow> ('a list \<times> 'a list) option" where
  "split_at_checked n xs = (if n \<le> length xs then Some (take n xs, drop n xs) else None)"

definition put_range :: "'a list \<Rightarrow> nat \<Rightarrow> 'a list \<Rightarrow> 'a list" where
  "put_range buf at bs = take at buf @ bs @ drop (at + length bs) buf"

lemma position_Some:
  "position P xs = Some i \<Longrightarrow> i < length xs \<and> P (xs ! i) \<and> (\<forall>j < i. \<not> P (xs ! j))"
proof (induction xs arbitrary: i)
  case Nil
  then show ?case by simp
next
  case (Cons x xs)
  then show ?case by (auto split: if_splits simp: nth_Cons split: nat.splits)
qed

lemma position_None: "position P xs = None \<longleftrightarrow> (\<forall>x \<in> set xs. \<not> P x)"
  by (induction xs) auto

lemma position_append_hit:
  "(\<forall>x \<in> set xs. \<not> P x) \<Longrightarrow> P y \<Longrightarrow> position P (xs @ y # ys) = Some (length xs)"
  by (induction xs) auto

lemma split_at_checked_append [simp]: "length xs = n \<Longrightarrow> split_at_checked n (xs @ ys) = Some (xs, ys)"
  by (auto simp: split_at_checked_def)

lemma length_put_range [simp]: "at + length bs \<le> length buf \<Longrightarrow> length (put_range buf at bs) = length buf"
  by (simp add: put_range_def)

lemma take_put_range [simp]:
  "at + length bs \<le> length buf \<Longrightarrow> take (at + length bs) (put_range buf at bs) = take at buf @ bs"
  by (simp add: put_range_def)

section \<open>Significant bytes\<close>

text \<open>\<^verbatim>\<open>u64::leading_zeros\<close>.\<close>

fun bit_len :: "nat \<Rightarrow> nat" where
  "bit_len n = (if n = 0 then 0 else Suc (bit_len (n div 2)))"

declare bit_len.simps [simp del]

definition leading_zeros :: "u64 \<Rightarrow> nat" where
  "leading_zeros v = 64 - bit_len (unat v)"

lemma bit_len_upper: "n < 2 ^ bit_len n"
proof (induction n rule: bit_len.induct)
  case (1 n)
  show ?case
  proof (cases "n = 0")
    case True
    then show ?thesis by simp
  next
    case False
    with 1 have "n div 2 < 2 ^ bit_len (n div 2)" by blast
    then have "n < 2 * 2 ^ bit_len (n div 2)" by linarith
    with False show ?thesis by (subst bit_len.simps) simp
  qed
qed

lemma bit_len_lower: "0 < n \<Longrightarrow> 2 ^ (bit_len n - 1) \<le> n"
proof (induction n rule: bit_len.induct)
  case (1 n)
  show ?case
  proof (cases "n div 2 = 0")
    case True
    with 1(2) have "n = 1" by linarith
    then show ?thesis by (simp add: bit_len.simps)
  next
    case False
    with 1 have "2 ^ (bit_len (n div 2) - 1) \<le> n div 2" by simp
    moreover from False have "bit_len (n div 2) = Suc (bit_len (n div 2) - 1)"
      by (subst (1 2) bit_len.simps) simp
    moreover from 1(2) have "bit_len n = Suc (bit_len (n div 2))" by (subst bit_len.simps) simp
    ultimately have "bit_len n - 1 = Suc (bit_len (n div 2) - 1)" by simp
    then have "(2 :: nat) ^ (bit_len n - 1) = 2 * 2 ^ (bit_len (n div 2) - 1)" by simp
    with \<open>2 ^ (bit_len (n div 2) - 1) \<le> n div 2\<close> show ?thesis by linarith
  qed
qed

lemma bit_len_pos [simp]: "bit_len n = 0 \<longleftrightarrow> n = 0"
  by (subst bit_len.simps) simp

lemma bit_len_le: "n < 2 ^ k \<Longrightarrow> bit_len n \<le> k"
proof (cases "n = 0")
  case False
  assume "n < 2 ^ k"
  moreover have "2 ^ (bit_len n - 1) \<le> n" using bit_len_lower [of n] False by simp
  ultimately have "2 ^ (bit_len n - 1) < (2 :: nat) ^ k" by linarith
  then have "bit_len n - 1 < k" by (rule power_less_imp_less_exp [rotated]) simp
  then show ?thesis by simp
qed (simp add: bit_len.simps)

lemma bit_len_u64: "bit_len (unat (v :: u64)) \<le> 64"
  by (rule bit_len_le) (use unat_u64_less [of v] in simp)

section \<open>Word arithmetic\<close>

lemma odd_top:
  fixes x :: int
  assumes "0 \<le> x" and "x < 18446744073709551616"
  shows "odd (x div 9223372036854775808) \<longleftrightarrow> 9223372036854775808 \<le> x"
proof (cases "x < 9223372036854775808")
  case True
  with assms(1) have "x div 9223372036854775808 = 0" by (simp add: div_pos_pos_trivial)
  with True show ?thesis by simp
next
  case False
  then have "(x - 9223372036854775808) div 9223372036854775808 = 0"
    using assms(2) by (intro div_pos_pos_trivial) simp_all
  moreover have "x div 9223372036854775808 = ((x - 9223372036854775808) + 9223372036854775808) div 9223372036854775808"
    by simp
  ultimately have "x div 9223372036854775808 = 1" by (simp only: div_add_self2)
  with False show ?thesis by simp
qed

lemma uint_u64_range: "0 \<le> uint (i :: u64)" "uint (i :: u64) < 18446744073709551616"
  using unsigned_less [of i, where 'a = int] by simp_all

lemma unat_int_less: "unat (i :: u64) < k \<longleftrightarrow> uint i < int k"
  by (metis of_nat_less_iff of_nat_unat)

lemma sint_u64:
  "sint (i :: u64) = (if unat i < 9223372036854775808 then int (unat i) else int (unat i) - 18446744073709551616)"
proof -
  have "sint i = take_bit 64 (uint i) - 18446744073709551616 * of_bool (bit (uint i) 63)"
    by (simp add: sint_uint signed_take_bit_eq_take_bit_minus)
  moreover have "bit (uint i) 63 \<longleftrightarrow> 9223372036854775808 \<le> uint i"
    using odd_top [OF uint_u64_range] by (simp add: bit_iff_odd)
  moreover have "take_bit 64 (uint i) = uint i"
    using uint_u64_range [of i] by (simp add: take_bit_eq_mod)
  ultimately show ?thesis
    by (simp add: unat_int_less)
qed

lemma neg_mod_top:
  fixes u :: int
  assumes "0 < u" and "u \<le> 18446744073709551616"
  shows "(- u) mod 18446744073709551616 = 18446744073709551616 - u"
proof -
  have "(- u) mod 18446744073709551616 = (- u + 18446744073709551616) mod 18446744073709551616"
    by (simp only: mod_add_self2)
  also have "\<dots> = - u + 18446744073709551616" using assms by (intro mod_pos_pos_trivial) simp_all
  finally show ?thesis by simp
qed

lemma unat_of_uint: "uint (x :: u64) = int n \<Longrightarrow> unat x = n"
  by (metis of_nat_eq_iff of_nat_unat)

lemma unat_neg: "(i :: u64) \<noteq> 0 \<Longrightarrow> unat (- i) = 18446744073709551616 - unat i"
proof (rule unat_of_uint)
  assume "i \<noteq> 0"
  then have "0 < uint i" using uint_u64_range(1) [of i] by (metis order_le_less unsigned_eq_0_iff)
  then have "uint (- i) = 18446744073709551616 - uint i"
    using uint_u64_range [of i] by (simp add: uint_word_ariths neg_mod_top)
  then show "uint (- i) = int (18446744073709551616 - unat i)"
    using unat_u64_less [of i] by (simp add: of_nat_diff)
qed

lemma unat_compl: "unat (NOT (i :: u64)) = 18446744073709551615 - unat i"
proof (rule unat_of_uint)
  have "NOT i = - (i + 1)" by (simp add: not_eq_complement)
  moreover have "uint (- (i + 1)) = (- (uint i + 1)) mod 18446744073709551616"
    by (simp only: uint_word_ariths) (simp add: mod_minus_eq)
  ultimately have "uint (NOT i) = 18446744073709551615 - uint i"
    using uint_u64_range [of i] by (simp only: neg_mod_top)
  then show "uint (NOT i) = int (18446744073709551615 - unat i)"
    using unat_u64_less [of i] by (simp add: of_nat_diff)
qed

lemma be_bytes_mod: "be_bytes n (v mod 256 ^ n) = be_bytes n v"
  using be_bytes_of_be [of "be_bytes n v" n] by simp

lemma compl_mod:
  fixes m :: nat
  assumes "m < 256 ^ n" and "n \<le> 8"
  shows "(18446744073709551615 - m) mod 256 ^ n = 256 ^ n - 1 - m"
proof -
  define B q where "B = (256 :: nat) ^ n" and "q = (256 :: nat) ^ (8 - n)"
  have "q * B = 18446744073709551616"
    using assms(2) by (simp add: B_def q_def power_add [symmetric])
  moreover have "B \<le> q * B" by (simp add: q_def)
  moreover have "(q - 1) * B = q * B - B" by (simp add: diff_mult_distrib)
  ultimately have "18446744073709551615 - m = (q - 1) * B + (B - 1 - m)"
    using assms(1) unfolding B_def by linarith
  moreover have "((q - 1) * B + (B - 1 - m)) mod B = B - 1 - m"
    using assms(1) by (simp only: mod_mult_self3) (simp add: B_def)
  ultimately show ?thesis by (simp only: B_def)
qed

lemma unat_byte_plus: "unat base + n < 256 \<Longrightarrow> unat (base + word_of_nat n :: byte) = unat base + n"
  by (simp add: unat_word_ariths)

lemma unat_byte_minus: "n \<le> unat base \<Longrightarrow> unat (base - word_of_nat n :: byte) = unat base - n"
proof -
  assume n: "n \<le> unat base"
  have "unat base < 256" by (rule unat_byte_less)
  with n have "word_of_nat n \<le> base" by (simp add: word_le_nat_alt)
  with n \<open>unat base < 256\<close> show ?thesis by (simp add: unat_sub)
qed

lemma bit_top: "bit (push_bit 63 1 :: u64) n \<longleftrightarrow> n = 63"
  by (simp only: bit_push_bit_iff bit_1_iff) auto

lemma xor_top: "(x :: u64) XOR push_bit 63 1 = x + push_bit 63 1"
proof -
  define p where "p = (push_bit 63 1 :: u64)"
  have b: "bit p n \<longleftrightarrow> n = 63" for n by (simp only: p_def bit_top)
  have pp: "p + p = 0" by (simp add: p_def)
  show ?thesis
  proof (cases "bit x 63")
    case False
    then have "x AND p = 0" by (intro bit_word_eqI) (auto simp: bit_simps b)
    moreover have "x XOR p = x OR p" using False by (intro bit_word_eqI) (auto simp: bit_simps b)
    ultimately show ?thesis by (simp only: disjunctive_add_eq_or p_def [symmetric])
  next
    case True
    have "(x XOR p) AND p = 0" using True by (intro bit_word_eqI) (auto simp: bit_simps b)
    moreover have "(x XOR p) OR p = x" using True by (intro bit_word_eqI) (auto simp: bit_simps b)
    ultimately have "(x XOR p) + p = x" by (simp only: disjunctive_add_eq_or)
    then have "x + p = (x XOR p) + (p + p)" by (simp only: add.assoc [symmetric])
    then show ?thesis by (simp only: pp add_0_right p_def [symmetric])
  qed
qed

lemma unat_plus_top: "int (unat (x + push_bit 63 1 :: u64)) = sint x + 9223372036854775808"
proof -
  have p: "push_bit 63 (1 :: u64) = 9223372036854775808" by simp
  show ?thesis
  proof (cases "unat x < 9223372036854775808")
    case True
    then have "(unat x + 9223372036854775808) mod 18446744073709551616 = unat x + 9223372036854775808" by simp
    with True show ?thesis by (simp only: p sint_u64 unat_word_ariths) simp
  next
    case False
    have "(unat x + 9223372036854775808) mod 18446744073709551616
        = ((unat x - 9223372036854775808) + 18446744073709551616) mod 18446744073709551616"
      using False by (simp add: add.commute)
    also have "\<dots> = unat x - 9223372036854775808" using False unat_u64_less [of x] by (simp only: mod_add_self2) simp
    finally show ?thesis using False by (simp only: p sint_u64 unat_word_ariths) (simp add: of_nat_diff)
  qed
qed

end
