(* ===== verification/Value_Item.thy ===== *)
theory Value_Item
  imports Store_Prelude
begin

text \<open>
  The typed values of keys and rows (\<^verbatim>\<open>store/src/valueitem.rs\<close>): the enum, its equality,
  total order and hash, the self-describing byte form rows are kept in (\<open>write_to\<close> and the
  bounds-checked \<open>decode\<close>), and \<open>IndexKey\<close>, a sequence of values, with its own byte form.

  \<^verbatim>\<open>ValueItem\<close> and its borrowed twin \<^verbatim>\<open>ValueRef\<close> have the same variants and differ only in
  who owns a string's bytes; one datatype stands for both, so \<open>as_ref\<close> and \<open>to_owned\<close> are
  the identity. A string is its UTF-8 bytes; beside a string or blob is its reserved
  capacity. \<open>Arc<[ValueItem]>\<close> is a list.
\<close>

section \<open>Errors\<close>

text \<open>
  \<^verbatim>\<open>StoreError\<close>, variant by variant. \<open>'k\<close> is the type of ids (\<^verbatim>\<open>DBIdType\<close>, which is declared
  after this theory). The errors of other libraries (\<^verbatim>\<open>std::io\<close>, \<^verbatim>\<open>postcard\<close>) and the hex dump
  of a truncated value are dropped; of a message, the words that tell two errors of one
  variant apart are kept.
\<close>

datatype 'k store_error =
    IoError
  | SerializationError
  | FileError
  | BadRowNumber nat
  | PageCapacityError
  | LockOrderViolation string
  | LockTimeout string
  | EngineDegraded string
  | DuplicateKey 'k
  | KeyNotFound 'k
  | WriteConflict 'k
  | WriteConflictTransactionAborted 'k
  | TransactionAlreadyFinished
  | SnapshotTooOld string
  | TableNameInvalid nat nat
  | ReservedTableName string
  | UnknownError string
  | IndexEntryTooLarge nat nat nat
  | InvalidConfig string
  | DatabaseLocked string
  | DuplicateName string
  | MissingKey string
  | TupleTooLarge nat nat
  | RunPageIndexOutOfRange nat nat
  | TableNotFound string
  | PageTransientlyInconsistent nat
  | UnknownPageContentKind nat
  | DuplicatePageContentKind nat
  | InvalidPageMagic nat
  | PageChecksumMismatch nat
  | TruncatedValueItem
  | LogHeaderMismatch string
  | LogCorruption string
  | HeaderCorruption string
  | Corruption string

section \<open>Values\<close>

datatype value_item =
    Null
  | Integer i64
  | Double f64
  | Datetime u64
  | Str bytes u32
  | Blob bytes u32
  | Boolean bool

text \<open>\<^verbatim>\<open>ValueRef::write_to\<close>; its inner \<open>sized\<close> writes capacity, length, content and padding.\<close>

definition sized_bytes :: "u32 \<Rightarrow> bytes \<Rightarrow> bytes" where
  "sized_bytes cap content =
     le_bytes 4 (unat cap) @ le_bytes 4 (length content) @ content
     @ replicate (unat cap - length content) 0"

fun write_to :: "value_item \<Rightarrow> bytes" where
  "write_to Null = [0]"
| "write_to (Integer i) = 5 # le_bytes 8 (unat i)"
| "write_to (Double f) = 10 # le_bytes 8 (unat f)"
| "write_to (Datetime d) = 15 # le_bytes 8 (unat d)"
| "write_to (Str s cap) = 20 # sized_bytes cap s"
| "write_to (Blob b cap) = 25 # sized_bytes cap b"
| "write_to (Boolean b) = [30, if b then 1 else 0]"

text \<open>\<^verbatim>\<open>ValueRef::store_in\<close>: a string going where a string was keeps that one's buffer.\<close>

fun store_in :: "value_item \<Rightarrow> value_item \<Rightarrow> value_item" where
  "store_in (Str s c) (Str buffer capacity) = (let buffer = []; buffer = buffer @ s in Str buffer c)"
| "store_in v slot = v"

text \<open>\<^verbatim>\<open>db_hash\<close>: 32-bit FNV-1a over bytes, in a \<open>u64\<close>.\<close>

definition fnv_step :: "u64 \<Rightarrow> u64 \<Rightarrow> u64" where
  "fnv_step h x = ((h XOR x) * 0x01000193) AND 0xFFFFFFFF"

definition db_hash :: "bytes \<Rightarrow> u64" where
  "db_hash bs = foldl (\<lambda>h b. fnv_step h (ucast b)) 0x811C9DC5 bs"

fun value_hash :: "value_item \<Rightarrow> u64" where
  "value_hash Null = 0"
| "value_hash (Integer i) = i"
| "value_hash (Double f) = f"
| "value_hash (Datetime d) = d"
| "value_hash (Str s _) = db_hash s"
| "value_hash (Blob b _) = db_hash b"
| "value_hash (Boolean b) = (if b then 1 else 0)"

fun type_rank :: "value_item \<Rightarrow> nat" where
  "type_rank Null = 0"
| "type_rank (Boolean _) = 1"
| "type_rank (Integer _) = 2"
| "type_rank (Double _) = 3"
| "type_rank (Datetime _) = 4"
| "type_rank (Str _ _) = 5"
| "type_rank (Blob _ _) = 6"

text \<open>Reading: \<^verbatim>\<open>word::<N>\<close>, \<^verbatim>\<open>sized\<close>, \<^verbatim>\<open>try_decode\<close>, \<^verbatim>\<open>try_width\<close>.\<close>

definition word_at :: "nat \<Rightarrow> bytes \<Rightarrow> nat \<Rightarrow> bytes option" where
  "word_at n bs index = get_range bs index (index + n)"

definition sized_at :: "bytes \<Rightarrow> (u32 \<times> bytes \<times> nat) option" where
  "sized_at bs = do {
     cap \<leftarrow> word_at 4 bs 1;
     len \<leftarrow> word_at 4 bs 5;
     content \<leftarrow> get_range bs 9 (9 + of_le len);
     Some (word_of_nat (of_le cap), content, 9 + max (of_le len) (of_le cap)) }"

definition str_or_default :: "bytes \<Rightarrow> bytes" where
  "str_or_default bs = (if utf8_valid bs then bs else [])"

definition try_decode :: "bytes \<Rightarrow> (value_item \<times> nat) option" where
  "try_decode bs = do {
     tag \<leftarrow> get_at bs 0;
     if tag = 0 then Some (Null, 1)
     else if tag = 5 then do { w \<leftarrow> word_at 8 bs 1; Some (Integer (word_of_nat (of_le w)), 9) }
     else if tag = 10 then do { w \<leftarrow> word_at 8 bs 1; Some (Double (word_of_nat (of_le w)), 9) }
     else if tag = 15 then do { w \<leftarrow> word_at 8 bs 1; Some (Datetime (word_of_nat (of_le w)), 9) }
     else if tag = 20 then do { (cap, content, e) \<leftarrow> sized_at bs; Some (Str (str_or_default content) cap, e) }
     else if tag = 25 then do { (cap, content, e) \<leftarrow> sized_at bs; Some (Blob content cap, e) }
     else if tag = 30 then do { b \<leftarrow> get_at bs 1; Some (Boolean (b \<noteq> 0), 2) }
     else Some (Null, 1) }"

definition try_width :: "bytes \<Rightarrow> nat option" where
  "try_width bs = do {
     tag \<leftarrow> get_at bs 0;
     if tag = 5 \<or> tag = 10 \<or> tag = 15 then map_option (\<lambda>_. 9) (get_range bs 1 9)
     else if tag = 20 \<or> tag = 25 then do { (_, _, e) \<leftarrow> sized_at bs; Some e }
     else if tag = 30 then map_option (\<lambda>_. 2) (get_at bs 1)
     else Some 1 }"

definition decode_value :: "bytes \<Rightarrow> 'k store_error + (value_item \<times> nat)" where
  "decode_value bs = ok_or TruncatedValueItem (try_decode bs)"

definition value_width :: "bytes \<Rightarrow> 'k store_error + nat" where
  "value_width bs = ok_or TruncatedValueItem (try_width bs)"

text \<open>\<^verbatim>\<open>PartialEq for ValueRef\<close>: contents, not capacities; a double by its bits.\<close>

fun value_eq :: "value_item \<Rightarrow> value_item \<Rightarrow> bool" where
  "value_eq Null Null = True"
| "value_eq (Integer a) (Integer b) = (a = b)"
| "value_eq (Double a) (Double b) = (a = b)"
| "value_eq (Datetime a) (Datetime b) = (a = b)"
| "value_eq (Str a _) (Str b _) = (a = b)"
| "value_eq (Blob a _) (Blob b _) = (a = b)"
| "value_eq (Boolean a) (Boolean b) = (a = b)"
| "value_eq _ _ = False"

text \<open>
  \<^verbatim>\<open>f64::total_cmp\<close> as the standard library computes it: the bits as an \<open>i64\<close>, every bit but
  the sign flipped for a negative, compared as \<open>i64\<close>.
\<close>

definition total_key :: "f64 \<Rightarrow> i64" where
  "total_key b = b XOR drop_bit 1 (signed_drop_bit 63 b)"

definition total_cmp :: "f64 \<Rightarrow> f64 \<Rightarrow> ordering" where
  "total_cmp a b = ord_cmp (sint (total_key a)) (sint (total_key b))"

text \<open>\<^verbatim>\<open>Ord for ValueRef\<close>.\<close>

fun value_cmp :: "value_item \<Rightarrow> value_item \<Rightarrow> ordering" where
  "value_cmp (Integer a) (Integer b) = ord_cmp (sint a) (sint b)"
| "value_cmp (Double a) (Double b) = total_cmp a b"
| "value_cmp (Datetime a) (Datetime b) = ord_cmp a b"
| "value_cmp (Str a _) (Str b _) = slice_cmp a b"
| "value_cmp (Boolean a) (Boolean b) = ord_cmp a b"
| "value_cmp (Blob a _) (Blob b _) = slice_cmp a b"
| "value_cmp Null Null = Equal"
| "value_cmp a b = ord_cmp (type_rank a) (type_rank b)"

text \<open>\<^verbatim>\<open>ValueItem::validate\<close> and the per-type bounds and sizes.\<close>

fun validate :: "value_item \<Rightarrow> 'k store_error + unit" where
  "validate (Str s cap) =
     (if (word_of_nat (length s) :: u32) > cap then Inl (TupleTooLarge (length s) (unat cap)) else Inr ())"
| "validate (Blob b cap) =
     (if (word_of_nat (length b) :: u32) > cap then Inl (TupleTooLarge (length b) (unat cap)) else Inr ())"
| "validate _ = Inr ()"

fun lower_bound :: "value_item \<Rightarrow> value_item" where
  "lower_bound (Integer _) = Integer 0x8000000000000000"
| "lower_bound (Double _) = Double 0xFFFFFFFFFFFFFFFF"
| "lower_bound (Datetime _) = Datetime 0"
| "lower_bound (Str _ _) = Str [] 0"
| "lower_bound (Blob _ _) = Blob [] 0"
| "lower_bound (Boolean _) = Boolean False"
| "lower_bound Null = Null"

fun upper_bound :: "value_item \<Rightarrow> value_item option" where
  "upper_bound (Integer _) = Some (Integer 0x7FFFFFFFFFFFFFFF)"
| "upper_bound (Double _) = Some (Double 0x7FFFFFFFFFFFFFFF)"
| "upper_bound (Datetime _) = Some (Datetime 0xFFFFFFFFFFFFFFFF)"
| "upper_bound (Boolean _) = Some (Boolean True)"
| "upper_bound Null = Some Null"
| "upper_bound (Str _ _) = None"
| "upper_bound (Blob _ _) = None"

fun value_size :: "value_item \<Rightarrow> nat" where
  "value_size (Integer _) = 8 + 1"
| "value_size (Double _) = 8 + 1"
| "value_size (Datetime _) = 8 + 1"
| "value_size (Str _ cap) = unat cap + 4 * 2 + 1"
| "value_size (Blob _ cap) = unat cap + 4 * 2 + 1"
| "value_size (Boolean _) = 1 + 1"
| "value_size Null = 0 + 1"

fun size_of_empty :: "value_item \<Rightarrow> nat" where
  "size_of_empty (Integer _) = 8 + 1"
| "size_of_empty (Double _) = 8 + 1"
| "size_of_empty (Datetime _) = 8 + 1"
| "size_of_empty (Str _ _) = 4 * 2 + 1"
| "size_of_empty (Blob _ _) = 4 * 2 + 1"
| "size_of_empty (Boolean _) = 1 + 1"
| "size_of_empty Null = 0 + 1"

section \<open>Index keys\<close>

type_synonym index_key = "value_item list"

fun validate_all :: "value_item list \<Rightarrow> 'k store_error + unit" where
  "validate_all [] = Inr ()"
| "validate_all (d # ds) = r_bind (validate d) (\<lambda>_. validate_all ds)"

definition new_from :: "value_item list \<Rightarrow> 'k store_error + index_key" where
  "new_from data = r_bind (validate_all data) (\<lambda>_. Inr data)"

text \<open>\<^verbatim>\<open>new_from_buffer\<close> also leaves the caller's buffer empty: the second component.\<close>

definition new_from_buffer :: "value_item list \<Rightarrow> ('k store_error + index_key) \<times> value_item list" where
  "new_from_buffer buffer =
     (case validate_all buffer of Inl e \<Rightarrow> (Inl e, buffer) | Inr _ \<Rightarrow> (Inr buffer, []))"

definition key_size :: "index_key \<Rightarrow> nat" where
  "key_size k = 8 + sum_list (map value_size k)"

definition key_to_bytes :: "index_key \<Rightarrow> bytes" where
  "key_to_bytes k = le_bytes 8 (length k) @ concat (map write_to k)"

text \<open>\<^verbatim>\<open>ValueRefs\<close>: the buffer, where the next field starts, how many are left.\<close>

record value_refs =
  vr_bytes :: bytes
  vr_index :: nat
  vr_left :: nat

definition key_refs :: "bytes \<Rightarrow> 'k store_error + value_refs" where
  "key_refs bs = r_bind (ok_or TruncatedValueItem (get_range bs 0 8))
     (\<lambda>count. Inr \<lparr>vr_bytes = bs, vr_index = 8, vr_left = of_le count\<rparr>)"

definition vr_step ::
    "(bytes \<Rightarrow> 'k store_error + ('t \<times> nat)) \<Rightarrow> value_refs \<Rightarrow>
     ('k store_error + 't) option \<times> value_refs" where
  "vr_step rd r =
     (if vr_left r = 0 then (None, r)
      else let r = r\<lparr>vr_left := vr_left r - 1\<rparr> in
        case r_bind (ok_or TruncatedValueItem (get_range (vr_bytes r) (vr_index r) (length (vr_bytes r)))) rd of
          Inr (v, used) \<Rightarrow> (Some (Inr v), r\<lparr>vr_index := vr_index r + used\<rparr>)
        | Inl e \<Rightarrow> (Some (Inl e), r\<lparr>vr_left := 0\<rparr>))"

definition vr_next :: "value_refs \<Rightarrow> ('k store_error + value_item) option \<times> value_refs" where
  "vr_next = vr_step decode_value"

definition vr_skip :: "value_refs \<Rightarrow> ('k store_error + unit) option \<times> value_refs" where
  "vr_skip = vr_step (\<lambda>b. r_bind (value_width b) (\<lambda>w. Inr ((), w)))"

text \<open>The loop of \<^verbatim>\<open>IndexKey::from_bytes\<close> over its \<open>refs\<close>: it stops at the first error.\<close>

function vr_collect :: "value_refs \<Rightarrow> 'k store_error + value_item list" where
  "vr_collect r =
     (if vr_left r = 0 then Inr []
      else case vr_next r of
        (None, _) \<Rightarrow> Inr []
      | (Some (Inl e), _) \<Rightarrow> Inl e
      | (Some (Inr v), r') \<Rightarrow> r_bind (vr_collect r') (\<lambda>vs. Inr (v # vs)))"
  by pat_completeness auto
termination
  by (relation "measure vr_left")
     (auto simp: vr_next_def vr_step_def Let_def split: sum.splits prod.splits)

declare vr_collect.simps [simp del]

definition key_from_bytes :: "bytes \<Rightarrow> 'k store_error + index_key" where
  "key_from_bytes bs = r_bind (key_refs bs) (\<lambda>refs.
     r_bind (vr_collect refs) (\<lambda>data.
       Inr (case (new_from data :: 'k store_error + index_key) of Inr k \<Rightarrow> k | Inl _ \<Rightarrow> [Null])))"

definition hash_refs :: "value_item list \<Rightarrow> u64" where
  "hash_refs ds = foldl (\<lambda>h d. fnv_step h (value_hash d)) 0x811C9DC5 ds"

definition as_single_str :: "index_key \<Rightarrow> bytes option" where
  "as_single_str k = (case k of [Str s _] \<Rightarrow> Some s | _ \<Rightarrow> None)"

definition key_lower_bound :: "index_key \<Rightarrow> index_key" where
  "key_lower_bound k = map lower_bound k"

definition key_upper_bound :: "index_key \<Rightarrow> index_key option" where
  "key_upper_bound k = those (map upper_bound k)"

text \<open>\<^verbatim>\<open>PartialOrd for IndexKey\<close>: the common fields only.\<close>

fun key_partial_cmp :: "index_key \<Rightarrow> index_key \<Rightarrow> ordering" where
  "key_partial_cmp (l # ls) (r # rs) =
     (if value_cmp l r = Equal then key_partial_cmp ls rs else value_cmp l r)"
| "key_partial_cmp _ _ = Equal"

text \<open>
  What a value held in memory satisfies: a string is UTF-8, and no string or blob is longer
  than 4 GB (lengths are stored in a \<open>u32\<close>).
\<close>

fun value_wf :: "value_item \<Rightarrow> bool" where
  "value_wf (Str s cap) = (utf8_valid s \<and> length s < 2 ^ 32)"
| "value_wf (Blob b cap) = (length b < 2 ^ 32)"
| "value_wf _ = True"


section \<open>Decoding inverts writing\<close>

lemma length_sized_bytes [simp]: "length (sized_bytes cap c) = 8 + max (length c) (unat cap)"
  by (simp add: sized_bytes_def)

lemma get_range_Cons [simp]:
  "0 < f \<Longrightarrow> f \<le> t \<Longrightarrow> get_range (x # xs) f t = get_range xs (f - 1) (t - 1)"
  by (cases f; cases t) (auto simp: get_range_def)

lemma sized_at_written [codec_simps]:
  assumes "length c < 2 ^ 32"
  shows "sized_at (tag # sized_bytes cap c @ rest) = Some (cap, c, 9 + max (length c) (unat cap))"
proof -
  have cap: "unat cap mod 4294967296 = unat cap"
    using unat_u32_less [of cap] by simp
  have len: "length c mod 4294967296 = length c" using assms by simp
  show ?thesis
    by (simp add: sized_at_def word_at_def sized_bytes_def get_range_def cap len)
qed

lemma word_at_written [codec_simps]:
  "word_at 8 (tag # le_bytes 8 v @ rest) (Suc 0) = Some (le_bytes 8 v)"
  by (simp add: word_at_def get_range_def)

lemma u64_of_le [codec_simps]: "(word_of_nat (of_le (le_bytes 8 (unat (w :: u64)))) :: u64) = w"
proof -
  have "unat w mod 256 ^ 8 = unat w" using unat_u64_less [of w] by simp
  then show ?thesis by simp
qed

lemma try_decode_write_to:
  assumes "value_wf v"
  shows "try_decode (write_to v @ rest) = Some (v, length (write_to v))"
  using assms
  by (cases v) (simp_all add: try_decode_def codec_simps str_or_default_def del: of_le_le_bytes le_bytes.simps)

lemma try_width_eq_decode: "try_width bs = map_option snd (try_decode bs)"
  by (cases "get_at bs 0")
     (auto simp: try_width_def try_decode_def word_at_def Option.bind_map_option
           split: Option.bind_splits option.splits)

lemma length_write_to: "validate v = (Inr () :: 'k store_error + unit) \<Longrightarrow> value_wf v \<Longrightarrow>
  length (write_to v) = value_size v"
  by (cases v) (auto simp: word_less_nat_alt unat_of_nat split: if_splits)

section \<open>The order of values\<close>

lemma bit_total_key:
  "bit (total_key b) n = (bit b n \<noteq> (n < 63 \<and> bit b 63))"
proof (cases "n < 64")
  case True
  then show ?thesis
    by (auto simp: total_key_def bit_simps dest: bit_imp_le_length)
next
  case False
  then show ?thesis by (auto simp: total_key_def bit_simps dest: bit_imp_le_length)
qed

lemma total_key_involution: "total_key (total_key b) = b"
  by (rule bit_word_eqI) (auto simp: bit_total_key)

lemma total_key_inj: "total_key a = total_key b \<longleftrightarrow> a = b"
  by (metis total_key_involution)

lemma total_cmp_Equal [simp]: "total_cmp a b = Equal \<longleftrightarrow> a = b"
  by (simp add: total_cmp_def total_key_inj)

lemma value_cmp_Equal: "value_cmp a b = Equal \<longleftrightarrow> value_eq a b"
  by (cases a; cases b) auto

lemma value_cmp_reverse: "reverse_ord (value_cmp a b) = value_cmp b a"
  by (cases a; cases b) (auto simp: total_cmp_def reverse_ord_cmp slice_cmp_reverse)

lemma value_cmp_rank:
  "type_rank a \<noteq> type_rank b \<Longrightarrow> value_cmp a b = ord_cmp (type_rank a) (type_rank b)"
  by (cases a; cases b) simp_all

lemma value_cmp_less_rank: "value_cmp a b = Less \<Longrightarrow> type_rank a \<le> type_rank b"
  by (cases "type_rank a = type_rank b") (simp_all add: value_cmp_rank)

lemma value_cmp_less_trans_same:
  "type_rank a = type_rank b \<Longrightarrow> type_rank b = type_rank c \<Longrightarrow>
   value_cmp a b = Less \<Longrightarrow> value_cmp b c = Less \<Longrightarrow> value_cmp a c = Less"
  by (cases a; cases b; simp; cases c; simp add: total_cmp_def)
     (auto dest: slice_cmp_less_trans)

lemma value_cmp_less_trans:
  assumes "value_cmp a b = Less" and "value_cmp b c = Less"
  shows "value_cmp a c = Less"
proof (cases "type_rank a = type_rank c")
  case True
  with assms [THEN value_cmp_less_rank] have "type_rank a = type_rank b" "type_rank b = type_rank c"
    by simp_all
  with assms show ?thesis by (rule value_cmp_less_trans_same [rotated 2])
next
  case False
  with assms [THEN value_cmp_less_rank] show ?thesis by (simp add: value_cmp_rank)
qed

lemma value_eq_refl [simp]: "value_eq a a"
  by (cases a) auto

lemma value_eq_hash: "value_eq a b \<Longrightarrow> value_hash a = value_hash b"
  by (cases a; cases b) auto

lemma sint_i64_range: "- 9223372036854775808 \<le> sint (a :: i64)" "sint (a :: i64) \<le> 9223372036854775807"
  using sint_ge [of a] sint_lt [of a] by simp_all

lemma u64_le_max: "(x :: u64) \<le> 18446744073709551615"
  using unat_u64_less [of x] by (simp add: word_le_nat_alt)

lemma sint_total_key_bounds:
  "sint (total_key 0xFFFFFFFFFFFFFFFF) = - 9223372036854775808"
  "sint (total_key 0x7FFFFFFFFFFFFFFF) = 9223372036854775807"
  by (simp_all add: total_key_def mask_numeral)

text \<open>
  For every value \<open>w\<close> of the same type as \<open>v\<close>, \<open>lower_bound v\<close> is of that type and not above
  \<open>w\<close>; and \<open>upper_bound v\<close>, where the type has one, is of that type and not below \<open>w\<close>.
\<close>

theorem value_bounds_bound:
  "type_rank w = type_rank v \<Longrightarrow>
     type_rank (lower_bound v) = type_rank v \<and> value_cmp (lower_bound v) w \<noteq> Greater
     \<and> (\<forall>u. upper_bound v = Some u \<longrightarrow> type_rank u = type_rank v \<and> value_cmp w u \<noteq> Greater)"
  using sint_i64_range sint_i64_range [of "total_key a" for a] u64_le_max
  by (cases v; cases w)
     (auto simp: total_cmp_def sint_total_key_bounds not_less)

theorem value_bounds_bound_witness:
  "type_rank (lower_bound (Integer 7)) = type_rank (Integer 7)
   \<and> value_cmp (lower_bound (Integer 7)) (Integer 0xFFFFFFFFFFFFFFFB) \<noteq> Greater"
  using value_bounds_bound [of "Integer 0xFFFFFFFFFFFFFFFB" "Integer 7"] by simp

section \<open>Index keys round trip\<close>

lemma vr_next_written:
  assumes "value_wf v"
  shows "vr_next \<lparr>vr_bytes = pre @ write_to v @ rest, vr_index = length pre, vr_left = Suc n\<rparr>
    = (Some (Inr v :: 'k store_error + value_item), \<lparr>vr_bytes = pre @ write_to v @ rest, vr_index = length pre + length (write_to v), vr_left = n\<rparr>)"
  using try_decode_write_to [OF assms, of rest]
  by (simp add: vr_next_def vr_step_def get_range_def decode_value_def)

lemma vr_collect_written:
  "list_all value_wf vs \<Longrightarrow>
   vr_collect \<lparr>vr_bytes = pre @ concat (map write_to vs) @ rest, vr_index = length pre, vr_left = length vs\<rparr>
     = (Inr vs :: 'k store_error + value_item list)"
proof (induction vs arbitrary: pre)
  case Nil
  then show ?case by (subst vr_collect.simps) simp
next
  case (Cons v vs)
  from Cons.prems have wf: "value_wf v" by simp
  have "vr_collect \<lparr>vr_bytes = (pre @ write_to v) @ concat (map write_to vs) @ rest,
      vr_index = length (pre @ write_to v), vr_left = length vs\<rparr>
      = (Inr vs :: 'k store_error + value_item list)"
    using Cons.prems by (intro Cons.IH) simp
  then show ?case
    using vr_next_written [OF wf, of pre "concat (map write_to vs) @ rest" "length vs", where 'k = 'k]
    by (subst vr_collect.simps) simp
qed

lemma validate_all_iff:
  "validate_all vs = (Inr () :: 'k store_error + unit) \<longleftrightarrow> (\<forall>v \<in> set vs. validate v = (Inr () :: 'k store_error + unit))"
  by (induction vs) (auto simp: r_bind_eq_Inr)

text \<open>
  A row or index key whose values fit their reserved capacities reads back from its bytes as
  itself: \<open>from_bytes (to_bytes k) = Ok k\<close>, and the bytes number exactly \<open>k.size()\<close>.
\<close>

theorem index_key_bytes_roundtrip:
  assumes "list_all value_wf k" and "length k < 2 ^ 64"
    and "validate_all k = (Inr () :: 'k store_error + unit)"
  shows "(key_from_bytes (key_to_bytes k) :: 'k store_error + index_key) = Inr k
    \<and> length (key_to_bytes k) = key_size k"
proof -
  have count: "of_le (le_bytes 8 (length k)) = length k" using assms(2) by simp
  have refs: "(key_refs (key_to_bytes k) :: 'k store_error + value_refs)
      = Inr \<lparr>vr_bytes = key_to_bytes k, vr_index = 8, vr_left = length k\<rparr>"
    by (simp add: key_refs_def key_to_bytes_def get_range_def count del: of_le_le_bytes le_bytes.simps)
  have "(vr_collect \<lparr>vr_bytes = key_to_bytes k, vr_index = 8, vr_left = length k\<rparr> :: 'k store_error + index_key)
      = Inr k"
    using vr_collect_written [OF assms(1), of "le_bytes 8 (length k)" "[]"]
    by (simp add: key_to_bytes_def)
  with refs have "(key_from_bytes (key_to_bytes k) :: 'k store_error + index_key) = Inr k"
    by (simp add: key_from_bytes_def new_from_def assms(3))
  moreover have "sum_list (map (length \<circ> write_to) k) = sum_list (map value_size k)"
    using assms(1,3) by (intro arg_cong [where f = sum_list] map_cong)
      (auto simp: validate_all_iff list_all_iff intro: length_write_to)
  ultimately show ?thesis
    by (simp add: key_to_bytes_def key_size_def length_concat del: le_bytes.simps)
qed

theorem index_key_bytes_roundtrip_witness:
  "(key_from_bytes (key_to_bytes [Str [0x61, 0x62] 5, Integer 7, Null]) :: nat store_error + index_key)
      = Inr [Str [0x61, 0x62] 5, Integer 7, Null]
   \<and> length (key_to_bytes [Str [0x61, 0x62] 5, Integer 7, Null]) = key_size [Str [0x61, 0x62] 5, Integer 7, Null]"
  by (rule index_key_bytes_roundtrip) simp_all

end
