(* ===== verification/Key_Code.thy ===== *)
theory Key_Code
  imports Value_Item
begin

text \<open>
  Keys as bytes that order as the keys do (\<^verbatim>\<open>store/src/keycode.rs\<close>), and the ids they encode
  (\<^verbatim>\<open>DBIdType\<close> of \<^verbatim>\<open>store/src/tuple.rs\<close>).

  Key bytes are written to a \<open>Sink\<close>: a \<open>Vec\<close>, a \<open>KeyBuf\<close> (120 bytes in place, the heap past
  that), or the 16-byte \<open>Prefix\<close> a page keeps per slot, which drops what does not fit. A
  trait object is a record of its operations, so \<open>put_field\<close> and its helpers are written
  once over any sink, as in the source. The locale \<open>sink_laws\<close> says what a sink promises and
  carries the proofs; it is interpreted on all three.
\<close>

section \<open>Ids\<close>

datatype dbid = IntId u64 | Rec index_key

type_synonym serr = "dbid store_error"

text \<open>\<^verbatim>\<open>Ord for DBIdType\<close> on owned ids (the general \<^verbatim>\<open>IdRef::cmp\<close> is in \<open>Tuple_Wire\<close>).\<close>

fun rec_cmp :: "index_key \<Rightarrow> index_key \<Rightarrow> ordering" where
  "rec_cmp [] [] = Equal"
| "rec_cmp [] (_ # _) = Less"
| "rec_cmp (_ # _) [] = Greater"
| "rec_cmp (a # as) (b # bs) = (case value_cmp a b of Equal \<Rightarrow> rec_cmp as bs | decided \<Rightarrow> decided)"

fun dbid_cmp :: "dbid \<Rightarrow> dbid \<Rightarrow> ordering" where
  "dbid_cmp (Rec a) (Rec b) = rec_cmp a b"
| "dbid_cmp (IntId a) (IntId b) = ord_cmp a b"
| "dbid_cmp (Rec _) (IntId _) = Less"
| "dbid_cmp (IntId _) (Rec _) = Greater"

text \<open>The derived \<^verbatim>\<open>PartialEq\<close> of \<^verbatim>\<open>DBIdType\<close>, through that of \<^verbatim>\<open>IndexKey\<close>.\<close>

fun dbid_eq :: "dbid \<Rightarrow> dbid \<Rightarrow> bool" where
  "dbid_eq (IntId a) (IntId b) = (a = b)"
| "dbid_eq (Rec a) (Rec b) = list_all2 value_eq a b"
| "dbid_eq _ _ = False"

definition dbid_hashed :: "dbid \<Rightarrow> u64" where
  "dbid_hashed i = (case i of IntId n \<Rightarrow> n | Rec r \<Rightarrow> hash_refs r)"

section \<open>Sinks\<close>

record 's sink =
  sk_push :: "'s \<Rightarrow> byte \<Rightarrow> 's"
  sk_extend :: "'s \<Rightarrow> bytes \<Rightarrow> 's"

definition vec_sink :: "bytes sink" where
  "vec_sink = \<lparr>sk_push = (\<lambda>v b. v @ [b]), sk_extend = (\<lambda>v bs. v @ bs)\<rparr>"

record key_buf =
  kb_stack :: bytes
  kb_len :: nat
  kb_heap :: bytes

abbreviation (input) STACK :: nat where "STACK \<equiv> 120"

definition key_buf_new :: key_buf where
  "key_buf_new = \<lparr>kb_stack = replicate STACK 0, kb_len = 0, kb_heap = []\<rparr>"

definition key_buf_bytes :: "key_buf \<Rightarrow> bytes" where
  "key_buf_bytes k = (if kb_heap k = [] then take (kb_len k) (kb_stack k) else kb_heap k)"

definition key_buf_extend :: "key_buf \<Rightarrow> bytes \<Rightarrow> key_buf" where
  "key_buf_extend k bs =
     (if kb_heap k = [] \<and> kb_len k + length bs \<le> STACK
      then k\<lparr>kb_stack := put_range (kb_stack k) (kb_len k) bs, kb_len := kb_len k + length bs\<rparr>
      else let k = (if kb_heap k = [] then k\<lparr>kb_heap := take (kb_len k) (kb_stack k)\<rparr> else k)
           in k\<lparr>kb_heap := kb_heap k @ bs\<rparr>)"

definition key_buf_sink :: "key_buf sink" where
  "key_buf_sink = \<lparr>sk_push = (\<lambda>k b. key_buf_extend k [b]), sk_extend = key_buf_extend\<rparr>"

record prefix =
  px_bytes :: bytes
  px_len :: nat

definition prefix_new :: prefix where
  "prefix_new = \<lparr>px_bytes = replicate 16 0, px_len = 0\<rparr>"

definition prefix_push :: "prefix \<Rightarrow> byte \<Rightarrow> prefix" where
  "prefix_push p b =
     (if px_len p < length (px_bytes p)
      then p\<lparr>px_bytes := (px_bytes p)[px_len p := b], px_len := px_len p + 1\<rparr> else p)"

definition prefix_extend :: "prefix \<Rightarrow> bytes \<Rightarrow> prefix" where
  "prefix_extend p bs =
     (let n = min (length bs) (length (px_bytes p) - px_len p)
      in p\<lparr>px_bytes := put_range (px_bytes p) (px_len p) (take n bs), px_len := px_len p + n\<rparr>)"

definition prefix_sink :: "prefix sink" where
  "prefix_sink = \<lparr>sk_push = prefix_push, sk_extend = prefix_extend\<rparr>"

section \<open>Writing fields\<close>

abbreviation (input) REC :: byte where "REC \<equiv> 0x01"
abbreviation (input) NULL :: byte where "NULL \<equiv> 0x02"
abbreviation (input) FALSE :: byte where "FALSE \<equiv> 0x03"
abbreviation (input) TRUE :: byte where "TRUE \<equiv> 0x04"
abbreviation (input) INT_ZERO :: byte where "INT_ZERO \<equiv> 0x18"
abbreviation (input) DOUBLE :: byte where "DOUBLE \<equiv> 0x21"
abbreviation (input) DATETIME :: byte where "DATETIME \<equiv> 0x30"
abbreviation (input) STR_TAG :: byte where "STR_TAG \<equiv> 0x40"
abbreviation (input) BLOB_TAG :: byte where "BLOB_TAG \<equiv> 0x41"
abbreviation (input) ROW_ID :: byte where "ROW_ID \<equiv> 0xE0"
abbreviation (input) KEY_END :: byte where "KEY_END \<equiv> 0x00"
abbreviation (input) ESCAPED :: byte where "ESCAPED \<equiv> 0xFF"

definition significant :: "u64 \<Rightarrow> nat" where
  "significant v = 8 - leading_zeros v div 8"

definition put_unsigned :: "'s sink \<Rightarrow> 's \<Rightarrow> byte \<Rightarrow> u64 \<Rightarrow> 's" where
  "put_unsigned sk out base v =
     (let n = significant v;
          out = sk_push sk out (base + word_of_nat n)
      in sk_extend sk out (drop (8 - n) (be_bytes 8 (unat v))))"

text \<open>\<open>- v\<close> is \<^verbatim>\<open>unsigned_abs\<close> of a negative \<open>i64\<close>, \<open>NOT\<close> the complement \<^verbatim>\<open>!magnitude\<close>.\<close>

definition put_integer :: "'s sink \<Rightarrow> 's \<Rightarrow> i64 \<Rightarrow> 's" where
  "put_integer sk out v =
     (if 0 \<le> sint v then put_unsigned sk out INT_ZERO v
      else let magnitude = - v;
               n = significant magnitude;
               out = sk_push sk out (INT_ZERO - word_of_nat n)
           in sk_extend sk out (drop (8 - n) (be_bytes 8 (unat (NOT magnitude)))))"

function put_bytes_rest :: "'s sink \<Rightarrow> 's \<Rightarrow> bytes \<Rightarrow> 's" where
  "put_bytes_rest sk out rest =
     (case position (\<lambda>b. b = KEY_END) rest of
        Some zero \<Rightarrow>
          let out = sk_extend sk out (take (Suc zero) rest);
              out = sk_push sk out ESCAPED
          in put_bytes_rest sk out (drop (Suc zero) rest)
      | None \<Rightarrow> sk_push sk (sk_extend sk out rest) KEY_END)"
  by pat_completeness auto
termination
  by (relation "measure (\<lambda>(sk, out, rest). length rest)") (auto dest: position_Some)

declare put_bytes_rest.simps [simp del]

definition put_bytes :: "'s sink \<Rightarrow> 's \<Rightarrow> byte \<Rightarrow> bytes \<Rightarrow> 's" where
  "put_bytes sk out tag bs = put_bytes_rest sk (sk_push sk out tag) bs"

definition ordered_bits :: "f64 \<Rightarrow> u64" where
  "ordered_bits bits = (if drop_bit 63 bits = 0 then bits XOR push_bit 63 1 else NOT bits)"

fun put_field :: "'s sink \<Rightarrow> 's \<Rightarrow> value_item \<Rightarrow> 's" where
  "put_field sk out Null = sk_push sk out NULL"
| "put_field sk out (Boolean b) = sk_push sk out (if b then TRUE else FALSE)"
| "put_field sk out (Integer i) = put_integer sk out i"
| "put_field sk out (Double d) =
     (let out = sk_push sk out DOUBLE in sk_extend sk out (be_bytes 8 (unat (ordered_bits d))))"
| "put_field sk out (Datetime t) = put_unsigned sk out DATETIME t"
| "put_field sk out (Str s _) = put_bytes sk out STR_TAG s"
| "put_field sk out (Blob b _) = put_bytes sk out BLOB_TAG b"

definition encode_field :: "value_item \<Rightarrow> bytes \<Rightarrow> bytes" where
  "encode_field field out = put_field vec_sink out field"

definition encode_record :: "value_item list \<Rightarrow> bytes \<Rightarrow> bytes" where
  "encode_record fs out = foldl (\<lambda>out field. encode_field field out) (out @ [REC]) fs"

definition encode :: "dbid \<Rightarrow> bytes \<Rightarrow> bytes" where
  "encode i out = (case i of IntId n \<Rightarrow> put_unsigned vec_sink out ROW_ID n | Rec key \<Rightarrow> encode_record key out)"

definition stored :: "value_item list \<Rightarrow> key_buf" where
  "stored fs = foldl (put_field key_buf_sink) key_buf_new fs"

text \<open>\<^verbatim>\<open>stored_len\<close>: None for a key that is not storable.\<close>

fun field_stored_len :: "value_item \<Rightarrow> nat option" where
  "field_stored_len Null = Some 1"
| "field_stored_len (Boolean _) = Some 1"
| "field_stored_len (Integer i) = Some (1 + significant (if 0 \<le> sint i then i else - i))"
| "field_stored_len (Datetime t) = Some (1 + significant t)"
| "field_stored_len (Double _) = Some 9"
| "field_stored_len (Str s _) = (if KEY_END \<notin> set s then Some (length s + 2) else None)"
| "field_stored_len (Blob b _) = (if KEY_END \<notin> set b then Some (length b + 2) else None)"

fun stored_len_from :: "nat \<Rightarrow> value_item list \<Rightarrow> nat option" where
  "stored_len_from len [] = Some len"
| "stored_len_from len (f # fs) =
     (case field_stored_len f of None \<Rightarrow> None | Some n \<Rightarrow> stored_len_from (len + n) fs)"

definition stored_len :: "value_item list \<Rightarrow> nat option" where
  "stored_len fs = stored_len_from 0 fs"

definition stored_into :: "value_item list \<Rightarrow> bytes \<Rightarrow> bytes" where
  "stored_into fs out = foldl (put_field vec_sink) out fs"

fun holds_end :: "value_item \<Rightarrow> bool" where
  "holds_end (Str s _) = (KEY_END \<in> set s)"
| "holds_end (Blob b _) = (KEY_END \<in> set b)"
| "holds_end _ = False"

definition put_stored :: "value_item \<Rightarrow> bytes \<Rightarrow> bool \<times> bytes" where
  "put_stored field out = (if holds_end field then (False, out) else (True, put_field vec_sink out field))"

section \<open>Prefixes\<close>

definition prefix_u128 :: "prefix \<Rightarrow> u128" where
  "prefix_u128 p = word_of_nat (of_be (px_bytes p))"

definition row_id_prefix :: "u64 \<Rightarrow> u128" where
  "row_id_prefix n = prefix_u128 (put_unsigned prefix_sink prefix_new ROW_ID n)"

definition stored_prefix :: "bytes \<Rightarrow> u128" where
  "stored_prefix st =
     (let out = sk_push prefix_sink prefix_new REC in prefix_u128 (sk_extend prefix_sink out st))"

fun put_until_full :: "prefix \<Rightarrow> value_item list \<Rightarrow> prefix" where
  "put_until_full out [] = out"
| "put_until_full out (f # fs) =
     (if px_len out = length (px_bytes out) then out
      else put_until_full (put_field prefix_sink out f) fs)"

definition fields_prefix :: "value_item list \<Rightarrow> u128" where
  "fields_prefix fs = prefix_u128 (put_until_full (sk_push prefix_sink prefix_new REC) fs)"

definition prefix_order :: "u128 \<Rightarrow> u128 \<Rightarrow> ordering option" where
  "prefix_order a b =
     (if a \<noteq> b then Some (ord_cmp a b)
      else if (ucast (drop_bit 120 a) :: byte) \<ge> ROW_ID then Some Equal else None)"

definition has_prefix :: "bytes \<Rightarrow> bytes \<Rightarrow> bool" where
  "has_prefix key p \<longleftrightarrow>
     take (length p) key = p \<and> get_at key (length p) \<noteq> Some ESCAPED"

definition prefix_end :: "bytes \<Rightarrow> bytes \<Rightarrow> bytes" where
  "prefix_end p out = out @ p @ [ESCAPED]"

section \<open>Reading\<close>

datatype key_field =
    FNull | FBoolean bool | FInteger i64 | FDouble f64 | FDatetime u64 | FStr bytes | FBlob bytes

fun field_to_owned :: "key_field \<Rightarrow> value_item" where
  "field_to_owned FNull = Null"
| "field_to_owned (FBoolean b) = Boolean b"
| "field_to_owned (FInteger i) = Integer i"
| "field_to_owned (FDouble d) = Double d"
| "field_to_owned (FDatetime t) = Datetime t"
| "field_to_owned (FStr s) = Str s (word_of_nat (length s))"
| "field_to_owned (FBlob b) = Blob b (word_of_nat (length b))"

definition take_unsigned :: "bytes \<Rightarrow> nat \<Rightarrow> serr + (u64 \<times> bytes)" where
  "take_unsigned bs n =
     r_bind (ok_or (Corruption ''a number cut short'') (split_at_checked n bs))
       (\<lambda>(head, rest). Inr (word_of_nat (of_be (replicate (8 - n) 0 @ head)), rest))"

function take_bytes_loop :: "bytes \<Rightarrow> bytes \<Rightarrow> serr + (bytes \<times> bytes)" where
  "take_bytes_loop out rest =
     (case position (\<lambda>b. b = KEY_END) rest of
        None \<Rightarrow> Inl (Corruption ''a string or blob with no end'')
      | Some zero \<Rightarrow>
          let out = out @ take zero rest in
          if get_at rest (zero + 1) \<noteq> Some ESCAPED then Inr (out, drop (zero + 1) rest)
          else take_bytes_loop (out @ [KEY_END]) (drop (zero + 2) rest))"
  by pat_completeness auto
termination
  by (relation "measure (\<lambda>(out, rest). length rest)") (auto dest: position_Some)

declare take_bytes_loop.simps [simp del]

definition take_bytes :: "bytes \<Rightarrow> serr + (bytes \<times> bytes)" where
  "take_bytes bs =
     (case position (\<lambda>b. b = KEY_END) bs of
        None \<Rightarrow> Inl (Corruption ''a string or blob with no end'')
      | Some first \<Rightarrow>
          if get_at bs (first + 1) \<noteq> Some ESCAPED then Inr (take first bs, drop (first + 1) bs)
          else take_bytes_loop [] bs)"

definition unflip :: "u64 \<Rightarrow> f64" where
  "unflip ordered = (if drop_bit 63 ordered = 1 then ordered XOR push_bit 63 1 else NOT ordered)"

definition magnitude_of :: "nat \<Rightarrow> u64 \<Rightarrow> u64" where
  "magnitude_of n flipped =
     (let msk = (if n = 8 then 0xFFFFFFFFFFFFFFFF else push_bit (8 * n) 1 - 1) in NOT flipped AND msk)"

definition read_field :: "byte \<Rightarrow> bytes \<Rightarrow> serr + (key_field \<times> bytes)" where
  "read_field tag rest =
     (if tag = NULL then Inr (FNull, rest)
      else if tag = FALSE then Inr (FBoolean False, rest)
      else if tag = TRUE then Inr (FBoolean True, rest)
      else if tag = DOUBLE then
        r_bind (take_unsigned rest 8) (\<lambda>(ordered, rest). Inr (FDouble (unflip ordered), rest))
      else if tag = STR_TAG then
        r_bind (take_bytes rest) (\<lambda>(bs, rest).
          if utf8_valid bs then Inr (FStr bs, rest) else Inl (Corruption ''a string not UTF-8''))
      else if tag = BLOB_TAG then
        r_bind (take_bytes rest) (\<lambda>(bs, rest). Inr (FBlob bs, rest))
      else if INT_ZERO \<le> tag \<and> tag \<le> INT_ZERO + 8 then
        r_bind (take_unsigned rest (unat (tag - INT_ZERO))) (\<lambda>(v, rest).
          if v \<le> 0x7FFFFFFFFFFFFFFF then Inr (FInteger v, rest) else Inl (Corruption ''an integer past i64''))
      else if INT_ZERO - 8 \<le> tag \<and> tag < INT_ZERO then
        (let n = unat (INT_ZERO - tag) in
         r_bind (take_unsigned rest n) (\<lambda>(flipped, rest).
           let magnitude = magnitude_of n flipped in
           if magnitude > push_bit 63 1 then Inl (Corruption ''an integer below i64'')
           else Inr (FInteger (- magnitude), rest)))
      else if DATETIME \<le> tag \<and> tag \<le> DATETIME + 8 then
        r_bind (take_unsigned rest (unat (tag - DATETIME))) (\<lambda>(t, rest). Inr (FDatetime t, rest))
      else Inl (Corruption ''an unknown field tag''))"

datatype key = RowId u64 | Record bytes

definition read_key :: "bytes \<Rightarrow> serr + key" where
  "read_key bs =
     (case bs of
        tag # rest \<Rightarrow>
          if tag = REC then Inr (Record rest)
          else if ROW_ID \<le> tag \<and> tag \<le> ROW_ID + 8 then
            r_bind (take_unsigned rest (unat (tag - ROW_ID))) (\<lambda>(n, rest).
              if rest \<noteq> [] then Inl (Corruption ''bytes after a row id'') else Inr (RowId n))
          else Inl (Corruption ''no key kind'')
      | [] \<Rightarrow> Inl (Corruption ''no key kind''))"

text \<open>\<^verbatim>\<open>Fields\<close>, the iterator: its next item and what is left to read.\<close>

definition fields_next :: "bytes \<Rightarrow> ((serr + key_field) \<times> bytes) option" where
  "fields_next rest =
     (case rest of
        [] \<Rightarrow> None
      | tag # rest \<Rightarrow>
          (case read_field tag rest of
             Inr (field, rest) \<Rightarrow> Some (Inr field, rest)
           | Inl e \<Rightarrow> Some (Inl e, [])))"

text \<open>One field of a stored key and what follows it (\<open>checked\<close>: UTF-8 is taken for granted).\<close>

definition stored_unsigned :: "bytes \<Rightarrow> nat \<Rightarrow> (u64 \<times> bytes) option" where
  "stored_unsigned rest n = do {
     (head, rest) \<leftarrow> split_at_checked n rest;
     Some (foldl (\<lambda>v b. push_bit 8 v OR ucast b) 0 head, rest) }"

definition stored_field :: "byte \<Rightarrow> bytes \<Rightarrow> bool \<Rightarrow> (value_item \<times> bytes) option" where
  "stored_field tag rest checked =
     (if tag = NULL then Some (Null, rest)
      else if tag = FALSE then Some (Boolean False, rest)
      else if tag = TRUE then Some (Boolean True, rest)
      else if tag = DOUBLE then do {
        (ordered, rest) \<leftarrow> stored_unsigned rest 8;
        Some (Double (unflip ordered), rest) }
      else if tag = STR_TAG \<or> tag = BLOB_TAG then do {
        e \<leftarrow> position (\<lambda>b. b = KEY_END) rest;
        let content = take e rest; after = drop (e + 1) rest in
        if tag = BLOB_TAG then Some (Blob content (word_of_nat (length content)), after)
        else if checked then Some (Str content (word_of_nat (length content)), after)
        else if utf8_valid content then Some (Str content (word_of_nat (length content)), after)
        else None }
      else if INT_ZERO \<le> tag \<and> tag \<le> INT_ZERO + 8 then do {
        (v, rest) \<leftarrow> stored_unsigned rest (unat (tag - INT_ZERO));
        if v \<le> 0x7FFFFFFFFFFFFFFF then Some (Integer v, rest) else None }
      else if INT_ZERO - 8 \<le> tag \<and> tag < INT_ZERO then (let n = unat (INT_ZERO - tag) in do {
        (flipped, rest) \<leftarrow> stored_unsigned rest n;
        let magnitude = magnitude_of n flipped in
        if magnitude > push_bit 63 1 then None else Some (Integer (- magnitude), rest) })
      else if DATETIME \<le> tag \<and> tag \<le> DATETIME + 8 then do {
        (t, rest) \<leftarrow> stored_unsigned rest (unat (tag - DATETIME));
        Some (Datetime t, rest) }
      else None)"

lemma split_at_checked_shorter:
  "split_at_checked n xs = Some (a, b) \<Longrightarrow> length b \<le> length xs"
  by (auto simp: split_at_checked_def split: if_splits)

lemma take_unsigned_shorter: "take_unsigned bs n = Inr (v, rest) \<Longrightarrow> length rest \<le> length bs"
  by (auto simp: take_unsigned_def r_bind_eq_Inr dest: split_at_checked_shorter)

lemma take_bytes_loop_shorter: "take_bytes_loop out rest = Inr (bs, rest') \<Longrightarrow> length rest' \<le> length rest"
proof (induction out rest rule: take_bytes_loop.induct)
  case (1 out rest)
  from 1(2) obtain z where z: "position (\<lambda>b. b = KEY_END) rest = Some z"
    by (subst (asm) take_bytes_loop.simps) (auto split: option.splits)
  show ?case
  proof (cases "get_at rest (z + 1) = Some ESCAPED")
    case True
    with 1(2) z have "take_bytes_loop ((out @ take z rest) @ [KEY_END]) (drop (z + 2) rest) = Inr (bs, rest')"
      by (subst (asm) take_bytes_loop.simps) (simp add: Let_def)
    with 1(1) [OF z refl] True have "length rest' \<le> length (drop (z + 2) rest)" by simp
    then show ?thesis by simp
  next
    case False
    with 1(2) z show ?thesis by (subst (asm) take_bytes_loop.simps) (auto simp: Let_def)
  qed
qed

lemma take_bytes_shorter: "take_bytes bs = Inr (out, rest) \<Longrightarrow> length rest \<le> length bs"
  by (auto simp: take_bytes_def split: option.splits if_splits dest: take_bytes_loop_shorter)

lemma read_field_shorter: "read_field tag rest = Inr (f, rest') \<Longrightarrow> length rest' \<le> length rest"
  by (auto simp: read_field_def r_bind_eq_Inr Let_def split: if_splits
           dest: take_unsigned_shorter take_bytes_shorter)

lemma fields_next_shorter: "fields_next rest = Some (Inr f, rest') \<Longrightarrow> length rest' < length rest"
  by (auto simp: fields_next_def split: list.splits sum.splits dest: read_field_shorter)

lemma stored_unsigned_shorter: "stored_unsigned bs n = Some (v, rest) \<Longrightarrow> length rest \<le> length bs"
  by (auto simp: stored_unsigned_def split: Option.bind_splits dest: split_at_checked_shorter)

lemma stored_field_shorter: "stored_field tag rest c = Some (v, rest') \<Longrightarrow> length rest' \<le> length rest"
  by (auto simp: stored_field_def Let_def split: if_splits Option.bind_splits
           dest: stored_unsigned_shorter)

text \<open>\<^verbatim>\<open>decode\<close>: its \<open>collect\<close> over \<^verbatim>\<open>Fields\<close> stops at the first error.\<close>

function fields_collect :: "bytes \<Rightarrow> serr + value_item list" where
  "fields_collect rest =
     (case fields_next rest of
        None \<Rightarrow> Inr []
      | Some (Inl e, _) \<Rightarrow> Inl e
      | Some (Inr f, rest') \<Rightarrow> r_bind (fields_collect rest') (\<lambda>vs. Inr (field_to_owned f # vs)))"
  by pat_completeness auto
termination
  by (relation "measure length") (auto dest: fields_next_shorter)

declare fields_collect.simps [simp del]

definition decode :: "bytes \<Rightarrow> serr + dbid" where
  "decode bs = r_bind (read_key bs) (\<lambda>k.
     case k of
       RowId n \<Rightarrow> Inr (IntId n)
     | Record fs \<Rightarrow> r_bind (fields_collect fs) (\<lambda>values. r_bind (new_from values) (\<lambda>key. Inr (Rec key))))"

text \<open>\<^verbatim>\<open>StoredKey\<close>: \<open>check\<close> reads every field, \<open>values\<close> yields them until one does not read.\<close>

function stored_check :: "bytes \<Rightarrow> serr + unit" where
  "stored_check rest =
     (case rest of
        [] \<Rightarrow> Inr ()
      | tag # after \<Rightarrow>
          (case stored_field tag after False of
             None \<Rightarrow> Inl (Corruption ''a stored key'')
           | Some (_, rest') \<Rightarrow> stored_check rest'))"
  by pat_completeness auto
termination
  by (relation "measure length") (auto dest: stored_field_shorter)

declare stored_check.simps [simp del]

function stored_values :: "bool \<Rightarrow> bytes \<Rightarrow> value_item list" where
  "stored_values checked rest =
     (case rest of
        [] \<Rightarrow> []
      | tag # after \<Rightarrow>
          (case stored_field tag after checked of
             Some (v, rest') \<Rightarrow> v # stored_values checked rest'
           | None \<Rightarrow> []))"
  by pat_completeness auto
termination
  by (relation "measure (length \<circ> snd)") (auto dest: stored_field_shorter)

declare stored_values.simps [simp del]

definition stored_to_id :: "bytes \<Rightarrow> serr + dbid" where
  "stored_to_id bs = r_bind (stored_check bs) (\<lambda>_.
     r_bind (new_from (stored_values False bs)) (\<lambda>k. Inr (Rec k)))"

section \<open>The layout, in closed form\<close>

text \<open>
  What the sinks receive: \<open>field_bytes\<close> is the layout table at the head of
  \<^verbatim>\<open>keycode.rs\<close>; every writer is shown to produce it.
\<close>

fun escape :: "bytes \<Rightarrow> bytes" where
  "escape [] = []"
| "escape (b # bs) = (if b = KEY_END then [KEY_END, ESCAPED] else [b]) @ escape bs"

fun field_bytes :: "value_item \<Rightarrow> bytes" where
  "field_bytes Null = [NULL]"
| "field_bytes (Boolean b) = [if b then TRUE else FALSE]"
| "field_bytes (Integer i) =
     (if 0 \<le> sint i then (INT_ZERO + word_of_nat (significant i)) # be_bytes (significant i) (unat i)
      else (INT_ZERO - word_of_nat (significant (- i))) # be_bytes (significant (- i)) (unat (NOT (- i))))"
| "field_bytes (Double d) = DOUBLE # be_bytes 8 (unat (ordered_bits d))"
| "field_bytes (Datetime t) = (DATETIME + word_of_nat (significant t)) # be_bytes (significant t) (unat t)"
| "field_bytes (Str s _) = STR_TAG # escape s @ [KEY_END]"
| "field_bytes (Blob b _) = BLOB_TAG # escape b @ [KEY_END]"

definition rec_bytes :: "value_item list \<Rightarrow> bytes" where
  "rec_bytes fs = REC # concat (map field_bytes fs)"

fun key_bytes :: "dbid \<Rightarrow> bytes" where
  "key_bytes (IntId n) = (ROW_ID + word_of_nat (significant n)) # be_bytes (significant n) (unat n)"
| "key_bytes (Rec fs) = rec_bytes fs"

lemma significant_le [simp]: "significant v \<le> 8"
  by (simp add: significant_def)

lemma significant_drop: "drop (8 - significant v) (be_bytes 8 w) = be_bytes (significant v) w"
  by (rule drop_be_bytes) simp

lemma escape_no_end: "KEY_END \<notin> set bs \<Longrightarrow> escape bs = bs"
  by (induction bs) auto

lemma escape_take_drop:
  assumes "position (\<lambda>b. b = KEY_END) bs = Some z"
  shows "escape bs = take (Suc z) bs @ ESCAPED # escape (drop (Suc z) bs)"
  using assms by (induction bs arbitrary: z) (auto split: if_splits)

section \<open>What a sink promises\<close>

locale sink_laws =
  fixes sk :: "'s sink" and written :: "'s \<Rightarrow> bytes" and keep :: "bytes \<Rightarrow> bytes" and good :: "'s \<Rightarrow> bool"
  assumes good_push: "good s \<Longrightarrow> good (sk_push sk s b)"
    and good_extend: "good s \<Longrightarrow> good (sk_extend sk s bs)"
    and written_push: "good s \<Longrightarrow> written (sk_push sk s b) = keep (written s @ [b])"
    and written_extend: "good s \<Longrightarrow> written (sk_extend sk s bs) = keep (written s @ bs)"
    and keep_append: "keep (keep xs @ ys) = keep (xs @ ys)"
    and keep_written: "good s \<Longrightarrow> keep (written s) = written s"
begin

lemmas sink_simps = good_push good_extend written_push written_extend keep_append

lemma put_unsigned_written:
  "good s \<Longrightarrow> good (put_unsigned sk s base v)
    \<and> written (put_unsigned sk s base v)
      = keep (written s @ (base + word_of_nat (significant v)) # be_bytes (significant v) (unat v))"
  by (simp add: put_unsigned_def Let_def sink_simps significant_drop del: be_bytes.simps)

lemma put_bytes_rest_written:
  "good s \<Longrightarrow> good (put_bytes_rest sk s bs)
    \<and> written (put_bytes_rest sk s bs) = keep (written s @ escape bs @ [KEY_END])"
proof (induction bs arbitrary: s rule: length_induct)
  case (1 bs)
  show ?case
  proof (cases "position (\<lambda>b. b = KEY_END) bs")
    case None
    then have "escape bs = bs" by (intro escape_no_end) (auto simp: position_None)
    with None 1(2) show ?thesis
      by (subst (1 2) put_bytes_rest.simps) (simp add: sink_simps)
  next
    case (Some z)
    let ?s = "sk_push sk (sk_extend sk s (take (Suc z) bs)) ESCAPED"
    have good: "good ?s" using 1(2) by (simp add: sink_simps)
    have "length (drop (Suc z) bs) < length bs" using position_Some [OF Some] by auto
    with 1(1) good have "good (put_bytes_rest sk ?s (drop (Suc z) bs))
        \<and> written (put_bytes_rest sk ?s (drop (Suc z) bs))
          = keep (written ?s @ escape (drop (Suc z) bs) @ [KEY_END])"
      by blast
    moreover have "put_bytes_rest sk s bs = put_bytes_rest sk ?s (drop (Suc z) bs)"
      using Some by (subst put_bytes_rest.simps) (simp add: Let_def)
    moreover have "written ?s = keep (written s @ take (Suc z) bs @ [ESCAPED])"
      using 1(2) by (simp add: sink_simps)
    ultimately show ?thesis
      using escape_take_drop [OF Some] by (simp add: keep_append)
  qed
qed

lemma put_field_written:
  "good s \<Longrightarrow> good (put_field sk s v) \<and> written (put_field sk s v) = keep (written s @ field_bytes v)"
  by (cases v)
     (simp_all add: put_unsigned_written put_integer_def put_bytes_def put_bytes_rest_written
        Let_def sink_simps significant_drop del: be_bytes.simps)

lemma put_fields_written:
  "good s \<Longrightarrow> good (foldl (put_field sk) s fs)
    \<and> written (foldl (put_field sk) s fs) = keep (written s @ concat (map field_bytes fs))"
proof (induction fs arbitrary: s)
  case Nil
  then show ?case by (simp add: keep_written)
next
  case (Cons f fs)
  with put_field_written [of s f] show ?case by (simp add: keep_append)
qed

end

interpretation vec: sink_laws vec_sink "\<lambda>v. v" "\<lambda>bs. bs" "\<lambda>_. True"
  by unfold_locales (simp_all add: vec_sink_def)

definition key_buf_ok :: "key_buf \<Rightarrow> bool" where
  "key_buf_ok k \<longleftrightarrow> length (kb_stack k) = STACK \<and> kb_len k \<le> STACK"

lemma key_buf_extend_laws:
  "key_buf_ok k \<Longrightarrow> key_buf_ok (key_buf_extend k bs)
    \<and> key_buf_bytes (key_buf_extend k bs) = key_buf_bytes k @ bs"
  by (auto simp: key_buf_ok_def key_buf_extend_def key_buf_bytes_def Let_def)

interpretation kb: sink_laws key_buf_sink key_buf_bytes "\<lambda>bs. bs" key_buf_ok
  by unfold_locales (simp_all add: key_buf_sink_def key_buf_extend_laws)

definition prefix_ok :: "prefix \<Rightarrow> bool" where
  "prefix_ok p \<longleftrightarrow> length (px_bytes p) = 16 \<and> px_len p \<le> 16
     \<and> drop (px_len p) (px_bytes p) = replicate (16 - px_len p) 0"

definition prefix_written :: "prefix \<Rightarrow> bytes" where
  "prefix_written p = take (px_len p) (px_bytes p)"

lemma prefix_extend_laws:
  assumes "prefix_ok p"
  shows "prefix_ok (prefix_extend p bs)
    \<and> prefix_written (prefix_extend p bs) = take 16 (prefix_written p @ bs)"
proof -
  define n where "n = min (length bs) (16 - px_len p)"
  have len: "px_len p + n \<le> 16" and l16: "length (px_bytes p) = 16"
    using assms by (auto simp: n_def prefix_ok_def)
  have "drop (px_len p + n) (px_bytes p) = drop n (replicate (16 - px_len p) 0)"
    using assms by (metis drop_drop add.commute prefix_ok_def)
  moreover have "take 16 (take (px_len p) (px_bytes p) @ bs) = take (px_len p) (px_bytes p) @ take n bs"
    using len l16 by (auto simp: n_def min_def)
  ultimately show ?thesis
    using len l16 by (auto simp: prefix_extend_def prefix_ok_def prefix_written_def Let_def put_range_def n_def)
qed

lemma prefix_push_extend: "prefix_ok p \<Longrightarrow> prefix_push p b = prefix_extend p [b]"
proof (cases "px_len p < 16")
  case True
  assume "prefix_ok p"
  with True show ?thesis
    by (simp add: prefix_push_def prefix_extend_def prefix_ok_def put_range_def upd_conv_take_nth_drop)
next
  case False
  assume "prefix_ok p"
  with False show ?thesis
    by (simp add: prefix_push_def prefix_extend_def prefix_ok_def put_range_def)
qed

lemma take_prefix_written: "prefix_ok p \<Longrightarrow> take 16 (prefix_written p) = prefix_written p"
  by (simp add: prefix_written_def prefix_ok_def)

lemma take_take_append: "take n (take n xs @ ys) = take n (xs @ ys)"
  by (cases "n \<le> length xs") auto

interpretation px: sink_laws prefix_sink prefix_written "take 16" prefix_ok
  by unfold_locales
     (simp_all add: prefix_sink_def prefix_push_extend prefix_extend_laws take_prefix_written
        take_take_append del: take_append)

section \<open>Numbers order as their bytes\<close>

lemma power_256: "(256 :: nat) ^ k = 2 ^ (8 * k)"
  by (simp add: power_mult)

lemma significant_upper: "unat v < 256 ^ significant v"
proof -
  have "unat v < 2 ^ bit_len (unat v)" by (rule bit_len_upper)
  also have "\<dots> \<le> 2 ^ (8 * significant v)"
    using bit_len_u64 [of v] by (intro power_increasing) (auto simp: significant_def leading_zeros_def)
  finally show ?thesis by (simp add: power_256)
qed

lemma significant_0 [simp]: "significant 0 = 0"
  by (simp add: significant_def leading_zeros_def bit_len.simps)

lemma significant_lower: "0 < unat v \<Longrightarrow> 0 < significant v \<and> 256 ^ (significant v - 1) \<le> unat v"
proof -
  assume v: "0 < unat v"
  then have pos: "0 < bit_len (unat v)" by (metis bit_len_pos neq0_conv)
  then have "8 * (significant v - 1) \<le> bit_len (unat v) - 1"
    using bit_len_u64 [of v] by (auto simp: significant_def leading_zeros_def)
  then have "256 ^ (significant v - 1) \<le> (2 :: nat) ^ (bit_len (unat v) - 1)"
    unfolding power_256 by (intro power_increasing) simp_all
  also have "\<dots> \<le> unat v" using v by (rule bit_len_lower)
  finally show ?thesis
    using pos bit_len_u64 [of v] by (auto simp: significant_def leading_zeros_def)
qed

lemma significant_mono: "significant a < significant b \<Longrightarrow> unat a < unat b"
proof -
  assume lt: "significant a < significant b"
  then have "b \<noteq> 0" by (auto intro: ccontr)
  then have b: "256 ^ (significant b - 1) \<le> unat b" using significant_lower [of b] by (simp add: unat_gt_0)
  have "unat a < 256 ^ significant a" by (rule significant_upper)
  also have "\<dots> \<le> (256 :: nat) ^ (significant b - 1)" using lt by (intro power_increasing) simp_all
  finally show ?thesis using b by simp
qed

lemma unat_tag: "unat base + 8 < 256 \<Longrightarrow> unat (base + word_of_nat (significant v) :: byte) = unat base + significant v"
  using significant_le [of v] by (intro unat_byte_plus) linarith

lemma tag_less_iff:
  "unat base + 8 < 256 \<Longrightarrow>
   (base + word_of_nat (significant a) < (base + word_of_nat (significant b) :: byte)) \<longleftrightarrow> significant a < significant b"
  by (simp add: word_less_nat_alt unat_tag)

lemma unsigned_bytes_cmp [cmp_simps]:
  assumes "unat base + 8 < 256"
  shows "slice_cmp ((base + word_of_nat (significant a)) # be_bytes (significant a) (unat a) @ x)
      ((base + word_of_nat (significant b)) # be_bytes (significant b) (unat b) @ y)
    = then_ord (ord_cmp a b) (slice_cmp x y)"
proof (cases "significant a = significant b")
  case True
  have "ord_cmp (unat a) (unat b) = ord_cmp a b"
    by (simp add: ord_cmp_def word_less_nat_alt word_unat_eq_iff)
  with True significant_upper [of a] significant_upper [of b] show ?thesis
    by (simp add: slice_cmp_append slice_cmp_be_bytes)
next
  case False
  then consider "significant a < significant b" | "significant b < significant a" by linarith
  then show ?thesis
    using tag_less_iff [OF assms, of a b] tag_less_iff [OF assms, of b a]
    by cases (auto simp: ord_cmp_def word_less_nat_alt dest: significant_mono)
qed

text \<open>A negative integer's bytes: fewer significant bytes, and a smaller magnitude, come later.\<close>

lemma negative_bytes_cmp [cmp_simps]:
  "slice_cmp ((INT_ZERO - word_of_nat (significant a)) # be_bytes (significant a) (unat (NOT a)) @ x)
      ((INT_ZERO - word_of_nat (significant b)) # be_bytes (significant b) (unat (NOT b)) @ y)
    = then_ord (ord_cmp b a) (slice_cmp x y)"
proof (cases "significant a = significant b")
  case True
  define n where "n = significant a"
  have ab: "unat a < 256 ^ n" "unat b < 256 ^ n" "n \<le> 8"
    using True significant_upper [of a] significant_upper [of b] by (simp_all add: n_def)
  have *: "be_bytes n (unat (NOT c)) = be_bytes n (256 ^ n - 1 - unat c)" if "unat c < 256 ^ n" for c :: u64
    using compl_mod [OF that ab(3)] be_bytes_mod [of n "unat (NOT c)"] by (simp add: unat_compl)
  have "ord_cmp (256 ^ n - 1 - unat a) (256 ^ n - 1 - unat b) = ord_cmp b a"
    using ab(1,2) by (auto simp: ord_cmp_def word_less_nat_alt word_unat_eq_iff)
  with ab True * [OF ab(1)] * [OF ab(2)] show ?thesis
    by (simp add: slice_cmp_append slice_cmp_be_bytes n_def [symmetric])
next
  case False
  have tag: "unat (INT_ZERO - word_of_nat (significant c)) = 24 - significant c" for c
    by (subst unat_byte_minus) (simp_all add: order_trans [OF significant_le])
  have lt: "24 - significant c < 24 - significant d \<longleftrightarrow> significant d < significant c" for c d
    using significant_le [of c] significant_le [of d] by linarith
  from False consider "significant a < significant b" | "significant b < significant a" by linarith
  then show ?thesis
    by cases (auto simp: ord_cmp_def word_less_nat_alt tag lt dest: significant_mono)
qed

lemma sint_nonneg_iff: "0 \<le> sint (a :: i64) \<longleftrightarrow> unat a < 9223372036854775808"
  using unat_u64_less [of a] by (simp add: sint_u64 del: of_nat_unat)

lemma sint_cmp_nonneg:
  "0 \<le> sint a \<Longrightarrow> 0 \<le> sint b \<Longrightarrow> ord_cmp (sint a) (sint b) = ord_cmp a b" for a b :: i64
  by (simp add: ord_cmp_def word_less_nat_alt sint_nonneg_iff) (simp add: sint_u64 del: of_nat_unat)

lemma sint_cmp_neg:
  "sint a < 0 \<Longrightarrow> sint b < 0 \<Longrightarrow> ord_cmp (- b) (- a) = ord_cmp (sint a) (sint b)" for a b :: i64
proof -
  assume neg: "sint a < 0" "sint b < 0"
  then have ge: "9223372036854775808 \<le> unat a" "9223372036854775808 \<le> unat b"
    using sint_nonneg_iff [of a] sint_nonneg_iff [of b] by linarith+
  then have "a \<noteq> 0" "b \<noteq> 0" by auto
  then have "unat (- b) < unat (- a) \<longleftrightarrow> unat a < unat b"
    using unat_u64_less [of a] unat_u64_less [of b] by (simp add: unat_neg) linarith
  moreover have "sint a < sint b \<longleftrightarrow> unat a < unat b" using ge by (simp add: sint_u64 del: of_nat_unat)
  ultimately show ?thesis by (auto simp: ord_cmp_def word_less_nat_alt)
qed

lemma drop63_0: "drop_bit 63 (d :: u64) = 0 \<longleftrightarrow> \<not> bit d 63"
proof
  assume "drop_bit 63 d = 0"
  then have "\<not> bit (drop_bit 63 d) 0" by simp
  then show "\<not> bit d 63" by (simp add: bit_drop_bit_eq)
next
  assume "\<not> bit d 63"
  then have "\<not> bit d (63 + n)" for n
    by (cases n) (auto dest: bit_imp_le_length)
  then show "drop_bit 63 d = 0" by (intro bit_word_eqI) (simp add: bit_drop_bit_eq)
qed

lemma drop63_1: "drop_bit 63 (d :: u64) = 1 \<longleftrightarrow> bit d 63"
proof
  assume "drop_bit 63 d = 1"
  then have "bit (drop_bit 63 d) 0" by simp
  then show "bit d 63" by (simp add: bit_drop_bit_eq)
next
  assume "bit d 63"
  then have "bit d (63 + n) \<longleftrightarrow> n = 0" for n
    by (cases n) (auto dest: bit_imp_le_length)
  then show "drop_bit 63 d = 1" by (intro bit_word_eqI) (simp add: bit_drop_bit_eq bit_1_iff)
qed

lemma ordered_bits_total: "int (unat (ordered_bits d)) = sint (total_key d) + 9223372036854775808"
proof -
  have "ordered_bits d = total_key d XOR push_bit 63 1"
    by (rule bit_word_eqI)
       (auto simp: ordered_bits_def drop63_0 bit_total_key bit_xor_iff bit_not_iff bit_top simp del: push_bit_of_1)
  then show ?thesis by (simp only: xor_top unat_plus_top)
qed

lemma ordered_bits_cmp: "ord_cmp (unat (ordered_bits a)) (unat (ordered_bits b)) = total_cmp a b"
  using ordered_bits_total [of a] ordered_bits_total [of b]
  unfolding ord_cmp_def total_cmp_def by (simp del: of_nat_unat sint_inj)

section \<open>Fields order as their bytes\<close>

text \<open>
  What may follow a field in key bytes: nothing, another field's tag, or the single \<open>FF\<close> that
  ends a prefix range. A string's terminating \<open>00\<close> is then below an escaped \<open>00\<close>.
\<close>

definition tail_ok :: "bytes \<Rightarrow> bool" where
  "tail_ok x \<longleftrightarrow> x = [] \<or> x = [ESCAPED] \<or> hd x \<noteq> ESCAPED"

lemma byte_less_max: "(b :: byte) \<noteq> 255 \<Longrightarrow> b < 255"
proof -
  assume "b \<noteq> 255"
  then have "unat b \<noteq> 255" by (auto simp: word_unat_eq_iff)
  with unat_byte_less [of b] show ?thesis by (simp add: word_less_nat_alt)
qed

lemma byte_not_max_less: "\<not> 255 < (b :: byte)"
  using unat_byte_less [of b] by (simp add: word_less_nat_alt)

lemma byte_pos: "(b :: byte) \<noteq> 0 \<Longrightarrow> 0 < b"
  by (simp add: word_gt_0)

lemma escape_cmp [cmp_simps]:
  "tail_ok x \<Longrightarrow> tail_ok y \<Longrightarrow>
   slice_cmp (escape s @ KEY_END # x) (escape t @ KEY_END # y) = then_ord (slice_cmp s t) (slice_cmp x y)"
proof (induction s t rule: slice_cmp.induct)
  case (2 b bs)
  then show ?case
    by (cases x) (auto simp: tail_ok_def byte_pos dest: byte_less_max)
next
  case (3 a as)
  then show ?case
    by (cases y) (auto simp: tail_ok_def byte_pos byte_not_max_less dest: byte_less_max)
next
  case (4 a as b bs)
  then show ?case
    by (auto simp: byte_pos)
qed simp

text \<open>Tags: which leading byte each type of value has.\<close>

lemma tag_bounds [simp]:
  "unat (INT_ZERO + word_of_nat (significant v) :: byte) = 24 + significant v"
  "unat (DATETIME + word_of_nat (significant v) :: byte) = 48 + significant v"
  "unat (ROW_ID + word_of_nat (significant v) :: byte) = 224 + significant v"
  "unat (INT_ZERO - word_of_nat (significant v) :: byte) = 24 - significant v"
  using unat_tag [of INT_ZERO v] unat_tag [of DATETIME v] unat_tag [of ROW_ID v]
  by (simp_all add: unat_byte_minus order_trans [OF significant_le])

fun tag_range :: "value_item \<Rightarrow> nat \<times> nat" where
  "tag_range Null = (2, 2)"
| "tag_range (Boolean _) = (3, 4)"
| "tag_range (Integer _) = (16, 32)"
| "tag_range (Double _) = (33, 33)"
| "tag_range (Datetime _) = (48, 56)"
| "tag_range (Str _ _) = (64, 64)"
| "tag_range (Blob _ _) = (65, 65)"

lemma field_bytes_tag:
  "\<exists>t body. field_bytes v = t # body \<and> fst (tag_range v) \<le> unat t \<and> unat t \<le> snd (tag_range v)"
proof -
  have "16 \<le> 24 - significant w" for w using significant_le [of w] by linarith
  then show ?thesis by (cases v) auto
qed

lemma tag_range_rank: "type_rank a < type_rank b \<Longrightarrow> snd (tag_range a) < fst (tag_range b)"
  by (cases a; cases b) simp_all

lemma field_bytes_cmp_rank:
  assumes "type_rank a < type_rank b"
  shows "slice_cmp (field_bytes a @ x) (field_bytes b @ y) = Less"
proof -
  obtain t u body body' where *: "field_bytes a = t # body" "field_bytes b = u # body'"
      "unat t \<le> snd (tag_range a)" "fst (tag_range b) \<le> unat u"
    using field_bytes_tag [of a] field_bytes_tag [of b] by blast
  with tag_range_rank [OF assms] have "t < u" by (simp add: word_less_nat_alt)
  with * show ?thesis by simp
qed

lemma int_bytes_cmp_mixed:
  assumes "0 \<le> sint a" and "sint b < 0"
  shows "slice_cmp (field_bytes (Integer b) @ x) (field_bytes (Integer a) @ y) = Less"
proof -
  have "b \<noteq> 0" using assms(2) by auto
  then have "0 < unat (- b)" by (simp add: unat_gt_0)
  then have "0 < significant (- b)" using significant_lower by blast
  then have "INT_ZERO - word_of_nat (significant (- b)) < (INT_ZERO + word_of_nat (significant a) :: byte)"
    by (simp add: word_less_nat_alt)
  with assms show ?thesis by simp
qed

lemma field_bytes_cmp_int:
  "slice_cmp (field_bytes (Integer a) @ x) (field_bytes (Integer b) @ y)
     = then_ord (ord_cmp (sint a) (sint b)) (slice_cmp x y)"
proof -
  consider "0 \<le> sint a" "0 \<le> sint b" | "sint a < 0" "sint b < 0"
    | "0 \<le> sint a" "sint b < 0" | "sint a < 0" "0 \<le> sint b" by linarith
  then show ?thesis
  proof cases
    case 1
    then show ?thesis by (simp add: sint_cmp_nonneg unsigned_bytes_cmp del: slice_cmp.simps)
  next
    case 2
    then show ?thesis by (simp add: sint_cmp_neg negative_bytes_cmp del: slice_cmp.simps)
  next
    case 3
    then have "slice_cmp (field_bytes (Integer b) @ y) (field_bytes (Integer a) @ x) = Less"
      by (rule int_bytes_cmp_mixed)
    then have "slice_cmp (field_bytes (Integer a) @ x) (field_bytes (Integer b) @ y) = Greater"
      by (metis reverse_ord.simps(1) slice_cmp_reverse)
    moreover have "ord_cmp (sint a) (sint b) = Greater" using 3 by simp
    ultimately show ?thesis by (simp only: then_ord.simps)
  next
    case 4
    have "ord_cmp (sint a) (sint b) = Less" using 4 by simp
    with int_bytes_cmp_mixed [OF 4(2,1), of x y] show ?thesis by (simp only: then_ord.simps)
  qed
qed

lemma field_bytes_cmp_datetime:
  "slice_cmp (field_bytes (Datetime a) @ x) (field_bytes (Datetime b) @ y)
     = then_ord (ord_cmp a b) (slice_cmp x y)"
  using unsigned_bytes_cmp [of DATETIME a x b y] by (simp del: slice_cmp.simps)

lemma ord_cmp_bool [simp]: "ord_cmp False True = Less" "ord_cmp True False = Greater"
  by simp_all

lemma field_bytes_cmp_same:
  assumes "tail_ok x" and "tail_ok y" and "type_rank a = type_rank b"
  shows "slice_cmp (field_bytes a @ x) (field_bytes b @ y) = then_ord (value_cmp a b) (slice_cmp x y)"
  using assms
  by (cases a; cases b)
     (auto simp: escape_cmp slice_cmp_append slice_cmp_be_bytes unat_u64_less ordered_bits_cmp
           field_bytes_cmp_int field_bytes_cmp_datetime
           simp del: field_bytes.simps(3,5) be_bytes.simps)

lemma field_bytes_cmp [cmp_simps]:
  assumes "tail_ok x" and "tail_ok y"
  shows "slice_cmp (field_bytes a @ x) (field_bytes b @ y) = then_ord (value_cmp a b) (slice_cmp x y)"
proof -
  consider "type_rank a = type_rank b" | "type_rank a < type_rank b" | "type_rank b < type_rank a" by linarith
  then show ?thesis
  proof cases
    case 1
    with assms show ?thesis by (rule field_bytes_cmp_same)
  next
    case 2
    then show ?thesis using field_bytes_cmp_rank [OF 2, of x y] by (simp add: value_cmp_rank ord_cmp_def)
  next
    case 3
    have "slice_cmp (field_bytes b @ y) (field_bytes a @ x) = Less" using 3 by (rule field_bytes_cmp_rank)
    then have "slice_cmp (field_bytes a @ x) (field_bytes b @ y) = Greater"
      by (metis reverse_ord.simps(1) slice_cmp_reverse)
    with 3 show ?thesis by (simp add: value_cmp_rank ord_cmp_def)
  qed
qed

section \<open>Keys order as their bytes\<close>

lemma field_bytes_hd: "\<exists>t body. field_bytes v = t # body \<and> t \<noteq> ESCAPED \<and> t \<noteq> KEY_END"
proof -
  obtain t body where t: "field_bytes v = t # body" "fst (tag_range v) \<le> unat t" "unat t \<le> snd (tag_range v)"
    using field_bytes_tag [of v] by blast
  moreover have "0 < fst (tag_range v)" "snd (tag_range v) < 255" by (cases v; simp)+
  ultimately have "0 < unat t" "unat t < 255" by linarith+
  then have "t \<noteq> ESCAPED" "t \<noteq> KEY_END" by auto
  with t(1) show ?thesis by blast
qed

lemma field_bytes_not_Nil [simp]: "field_bytes v \<noteq> []"
  using field_bytes_hd [of v] by auto

lemma tail_ok_fields [simp]:
  "tail_ok (concat (map field_bytes fs))" "tail_ok (concat (map field_bytes fs) @ [ESCAPED])"
  using field_bytes_hd [of "hd fs"] by (cases fs; auto simp: tail_ok_def)+

lemma rec_cmp_then: "rec_cmp (a # as) (b # bs) = then_ord (value_cmp a b) (rec_cmp as bs)"
  by (cases "value_cmp a b") simp_all

lemma rec_fields_cmp: "slice_cmp (concat (map field_bytes as)) (concat (map field_bytes bs)) = rec_cmp as bs"
proof (induction as arbitrary: bs)
  case Nil
  show ?case by (cases bs) simp_all
next
  case (Cons a as)
  then show ?case
    by (cases bs) (simp_all add: field_bytes_cmp rec_cmp_then del: rec_cmp.simps(4) slice_cmp.simps)
qed

lemma encode_field_bytes: "encode_field v out = out @ field_bytes v"
  using vec.put_field_written [of out v] by (simp add: encode_field_def)

lemma encode_record_bytes: "encode_record fs out = out @ rec_bytes fs"
proof -
  have "foldl (\<lambda>out field. encode_field field out) o' fs = o' @ concat (map field_bytes fs)" for o'
    by (induction fs arbitrary: o') (simp_all add: encode_field_bytes)
  then show ?thesis by (simp add: encode_record_def rec_bytes_def)
qed

lemma encode_bytes: "encode i out = out @ key_bytes i"
  using vec.put_unsigned_written [of out ROW_ID]
  by (cases i) (simp_all add: encode_def encode_record_bytes del: be_bytes.simps)

lemma key_bytes_cmp: "slice_cmp (key_bytes a) (key_bytes b) = dbid_cmp a b"
proof (cases a; cases b)
  fix m n assume "a = IntId m" "b = IntId n"
  then show ?thesis using unsigned_bytes_cmp [of ROW_ID m "[]" n "[]"] by (simp del: slice_cmp.simps)
next
  fix fs n assume "a = Rec fs" "b = IntId n"
  then show ?thesis by (simp add: rec_bytes_def word_less_nat_alt)
next
  fix fs n assume "a = IntId n" "b = Rec fs"
  then show ?thesis by (simp add: rec_bytes_def word_less_nat_alt)
next
  fix as bs assume "a = Rec as" "b = Rec bs"
  then show ?thesis by (simp add: rec_bytes_def rec_fields_cmp)
qed

text \<open>
  C10. Key bytes order as the keys do: comparing the encodings of any two ids byte by byte gives
  exactly the order of the ids themselves, whatever types their fields have, whatever bytes
  their strings hold, and however long they are.
\<close>

theorem keycode_preserves_order:
  "slice_cmp (encode a []) (encode b []) = dbid_cmp a b"
  by (simp add: encode_bytes key_bytes_cmp)

section \<open>Prefixes of keys\<close>

lemma has_prefix_range:
  "has_prefix k p \<longleftrightarrow> slice_cmp p k \<noteq> Greater \<and> slice_cmp k (p @ [ESCAPED]) = Less"
proof (induction p arbitrary: k)
  case Nil
  show ?case
    by (cases k) (auto simp: has_prefix_def dest: byte_less_max split: if_splits)
next
  case (Cons b p)
  show ?case
  proof (cases k)
    case Nil
    then show ?thesis by (simp add: has_prefix_def)
  next
    case (Cons c k')
    then show ?thesis using Cons.IH [of k'] by (auto simp: has_prefix_def split: if_splits)
  qed
qed

lemma rec_prefix_cmp:
  "slice_cmp (concat (map field_bytes ps)) (concat (map field_bytes fs)) \<noteq> Greater
     \<and> slice_cmp (concat (map field_bytes fs)) (concat (map field_bytes ps) @ [ESCAPED]) = Less
   \<longleftrightarrow> length ps \<le> length fs \<and> list_all2 value_eq (take (length ps) fs) ps"
proof (induction ps arbitrary: fs)
  case Nil
  show ?case using field_bytes_hd [of "hd fs"] by (cases fs) (auto dest: byte_less_max)
next
  case (Cons p ps)
  show ?case
  proof (cases fs)
    case Nil
    then show ?thesis by simp
  next
    case (Cons f fs')
    have eq: "value_cmp p f = Equal \<longleftrightarrow> value_eq f p" "value_cmp f p = reverse_ord (value_cmp p f)"
      by (metis reverse_ord_iff(2) value_cmp_Equal value_cmp_reverse) (rule value_cmp_reverse [symmetric])
    show ?thesis
      using Cons.IH [of fs'] eq
      by (cases "value_cmp p f") (simp_all add: \<open>fs = f # fs'\<close> field_bytes_cmp del: slice_cmp.simps)
  qed
qed

text \<open>
  C12. The keys that begin with the fields of a record key \<open>p\<close> are exactly the keys whose bytes
  lie from \<open>p\<close>'s bytes up to, not including, \<open>prefix_end\<close> of them; and \<open>has_prefix\<close> decides
  it. (For a string that starts with a \<open>00\<close> byte, beginning with \<open>p\<close>'s bytes is not enough.)
\<close>

theorem has_prefix_iff_fields:
  "(has_prefix (encode_record fs []) (encode_record ps [])
      \<longleftrightarrow> length ps \<le> length fs \<and> list_all2 value_eq (take (length ps) fs) ps)
   \<and> (has_prefix (encode_record fs []) (encode_record ps [])
      \<longleftrightarrow> slice_cmp (encode_record ps []) (encode_record fs []) \<noteq> Greater
        \<and> slice_cmp (encode_record fs []) (prefix_end (encode_record ps []) []) = Less)"
  using rec_prefix_cmp [of ps fs]
  by (simp add: has_prefix_range encode_record_bytes rec_bytes_def prefix_end_def)

section \<open>The 16-byte prefix a page searches by\<close>

definition pad16 :: "bytes \<Rightarrow> bytes" where
  "pad16 bs = take 16 bs @ replicate (16 - length bs) 0"

lemma length_pad16 [simp]: "length (pad16 bs) = 16"
  by (simp add: pad16_def)

lemma prefix_ok_bytes: "prefix_ok p \<Longrightarrow> px_bytes p = pad16 (prefix_written p)"
  unfolding prefix_ok_def prefix_written_def pad16_def
  by (metis append_take_drop_id length_take min.absorb2 take_all_iff take_take)

lemma pad16_take [simp]: "pad16 (take 16 bs) = pad16 bs"
  by (simp add: pad16_def)

lemma prefix_new_ok [simp]: "prefix_ok prefix_new" "prefix_written prefix_new = []"
  by (simp_all add: prefix_ok_def prefix_new_def prefix_written_def)

definition u128_of :: "bytes \<Rightarrow> u128" where
  "u128_of bs = word_of_nat (of_be (pad16 bs))"

lemma prefix_u128_written:
  "prefix_ok p \<Longrightarrow> prefix_written p = take 16 bs \<Longrightarrow> prefix_u128 p = u128_of bs"
  using prefix_ok_bytes [of p] by (simp add: prefix_u128_def u128_of_def)

lemma row_id_prefix_u128: "row_id_prefix n = u128_of (key_bytes (IntId n))"
  using px.put_unsigned_written [of prefix_new ROW_ID n]
  by (simp add: row_id_prefix_def prefix_u128_written del: be_bytes.simps)

lemma px_push_REC: "prefix_ok (sk_push prefix_sink prefix_new REC)
    \<and> prefix_written (sk_push prefix_sink prefix_new REC) = [REC]"
  by (simp add: px.sink_simps)

lemma stored_prefix_u128: "stored_prefix st = u128_of (REC # st)"
  using px_push_REC px.written_extend [of "sk_push prefix_sink prefix_new REC" st]
  by (simp add: stored_prefix_def Let_def px.good_extend prefix_u128_written)

lemma put_until_full_written:
  "prefix_ok p \<Longrightarrow> prefix_ok (put_until_full p fs)
    \<and> prefix_written (put_until_full p fs) = take 16 (prefix_written p @ concat (map field_bytes fs))"
proof (induction fs arbitrary: p)
  case Nil
  then show ?case by (simp add: take_prefix_written)
next
  case (Cons f fs)
  show ?case
  proof (cases "px_len p = length (px_bytes p)")
    case True
    with Cons.prems have "length (prefix_written p) = 16" by (simp add: prefix_ok_def prefix_written_def)
    with True Cons.prems show ?thesis by simp
  next
    case False
    with Cons px.put_field_written [of p f] show ?thesis
      by (simp add: take_take_append del: take_append)
  qed
qed

lemma fields_prefix_u128: "fields_prefix fs = u128_of (rec_bytes fs)"
  using px_push_REC put_until_full_written [of "sk_push prefix_sink prefix_new REC" fs]
  by (simp add: fields_prefix_def rec_bytes_def prefix_u128_written)

lemma unat_u128_of: "unat (u128_of bs) = of_be (pad16 bs)"
proof -
  have "of_be (pad16 bs) < 256 ^ 16" using of_be_bound [of "pad16 bs"] by simp
  then show ?thesis by (simp add: u128_of_def unat_of_nat)
qed

lemma u128_of_cmp: "ord_cmp (u128_of a) (u128_of b) = slice_cmp (pad16 a) (pad16 b)"
proof -
  have *: "of_be (pad16 c) < 256 ^ 16" for c using of_be_bound [of "pad16 c"] by simp
  have "slice_cmp (pad16 a) (pad16 b) = ord_cmp (of_be (pad16 a)) (of_be (pad16 b))"
    using slice_cmp_be_bytes [OF * *, of a b] by (simp add: be_bytes_of_be del: be_bytes.simps)
  also have "\<dots> = ord_cmp (u128_of a) (u128_of b)"
    by (simp add: ord_cmp_def word_less_nat_alt word_unat_eq_iff unat_u128_of)
  finally show ?thesis ..
qed

lemma slice_cmp_pad:
  "slice_cmp (take n a @ replicate (n - length a) 0) (take n b @ replicate (n - length b) 0) \<noteq> Equal \<Longrightarrow>
   slice_cmp a b = slice_cmp (take n a @ replicate (n - length a) 0) (take n b @ replicate (n - length b) (0 :: byte))"
proof (induction n arbitrary: a b)
  case 0
  then show ?case by simp
next
  case (Suc n)
  show ?case
  proof (cases a; cases b)
    assume "a = []" "b = []"
    with Suc.prems show ?thesis by simp
  next
    fix y ys assume ab: "a = []" "b = y # ys"
    with Suc.prems Suc.IH [of "[]" ys] show ?thesis by (auto simp: word_gt_0 split: if_splits)
  next
    fix x xs assume ab: "a = x # xs" "b = []"
    with Suc.prems Suc.IH [of xs "[]"] show ?thesis by (auto simp: word_gt_0 split: if_splits)
  next
    fix x xs y ys assume ab: "a = x # xs" "b = y # ys"
    with Suc.prems Suc.IH [of xs ys] show ?thesis by auto
  qed
qed

definition order_prefix :: "dbid \<Rightarrow> u128" where
  "order_prefix i = (case i of Rec values \<Rightarrow> fields_prefix values | IntId n \<Rightarrow> row_id_prefix n)"

lemma order_prefix_u128: "order_prefix i = u128_of (key_bytes i)"
  by (cases i) (simp_all add: order_prefix_def fields_prefix_u128 row_id_prefix_u128 del: key_bytes.simps(1))

lemma u128_of_neq: "u128_of a \<noteq> u128_of b \<Longrightarrow> ord_cmp (u128_of a) (u128_of b) = slice_cmp a b"
  using slice_cmp_pad [of 16 a b] u128_of_cmp [of a b]
  by (metis ord_cmp_simps(2) pad16_def)

lemma of_be_Cons: "of_be (b # bs) = unat b * 256 ^ length bs + of_be bs"
proof (induction bs rule: rev_induct)
  case Nil
  then show ?case by (simp add: of_be_def)
next
  case (snoc c bs)
  have "of_be (b # bs @ [c]) = of_be (b # bs) * 256 + unat c"
    using of_be_append [of "b # bs" c] by simp
  with snoc show ?case by (simp add: of_be_append add_mult_distrib)
qed

lemma top_byte_u128_of: "(ucast (drop_bit 120 (u128_of bs)) :: byte) = hd (pad16 bs)"
proof -
  obtain x xs where p: "pad16 bs = x # xs" "length xs = 15"
    using length_pad16 [of bs] by (cases "pad16 bs") auto
  have "of_be xs < 256 ^ 15" using of_be_bound [of xs] p(2) by simp
  then have "of_be (x # xs) div 256 ^ 15 = unat x"
    by (simp add: of_be_Cons p(2) del: power_numeral)
  moreover have "unat (drop_bit 120 (u128_of bs)) = of_be (pad16 bs) div 256 ^ 15"
    by (simp add: drop_bit_eq_div unat_div_distrib unat_u128_of)
  ultimately have "unat (drop_bit 120 (u128_of bs)) = unat x" using p by simp
  then have "unat (ucast (drop_bit 120 (u128_of bs)) :: byte) = unat x"
    using unat_byte_less [of x] by (simp only: unsigned_ucast_eq take_bit_eq_mod) simp
  then show ?thesis by (simp add: p word_unat_eq_iff)
qed

lemma row_id_prefix_inj:
  assumes "u128_of (key_bytes (IntId m)) = u128_of (key_bytes (IntId n))"
  shows "m = n"
proof -
  have len: "length (key_bytes (IntId k)) \<le> 9" for k by simp
  have pad: "pad16 (key_bytes (IntId m)) = pad16 (key_bytes (IntId n))"
    using assms u128_of_cmp [of "key_bytes (IntId m)" "key_bytes (IntId n)"] by (metis ord_cmp_refl slice_cmp_eq_iff)
  then have "hd (pad16 (key_bytes (IntId m))) = hd (pad16 (key_bytes (IntId n)))" by simp
  then have "(ROW_ID + word_of_nat (significant m) :: byte) = ROW_ID + word_of_nat (significant n)"
    by (simp add: pad16_def)
  then have "significant m = significant n" by (metis add_left_cancel tag_bounds(3))
  with pad len have "key_bytes (IntId m) = key_bytes (IntId n)"
    by (simp add: pad16_def take_all order_trans [OF significant_le])
  then show ?thesis using key_bytes_cmp [of "IntId m" "IntId n"] by (metis dbid_cmp.simps(2) ord_cmp_simps(2) slice_cmp_refl)
qed

lemma prefix_order_exact:
  assumes c: "prefix_order (order_prefix a) (order_prefix b) = Some c"
  shows "dbid_cmp a b = c"
proof (cases "order_prefix a = order_prefix b")
  case False
  with c show ?thesis
    by (simp add: prefix_order_def order_prefix_u128 u128_of_neq key_bytes_cmp)
next
  case True
  with c have c: "c = Equal" and hd: "ROW_ID \<le> hd (pad16 (key_bytes a))" "ROW_ID \<le> hd (pad16 (key_bytes b))"
    by (simp_all add: prefix_order_def order_prefix_u128 top_byte_u128_of [symmetric] split: if_splits)
  then obtain m n where "a = IntId m" "b = IntId n"
    by (cases a; cases b) (simp_all add: rec_bytes_def pad16_def word_le_nat_alt)
  with True c show ?thesis using row_id_prefix_inj [of m n] by (simp add: order_prefix_u128)
qed

lemma row_id_byte: "ROW_ID \<le> (ROW_ID + word_of_nat (significant n) :: byte)"
  by (simp add: word_le_nat_alt)

text \<open>
  C13. The 16-byte prefix kept per slot never misleads a search: whenever \<open>prefix_order\<close> of two
  ids' prefixes gives an answer, that answer is the order of the ids. It leaves the order open
  exactly when it must: for two record ids whose key bytes do not differ in the first sixteen,
  shorter ones filled up with zeros. Row ids are always told apart.
\<close>

theorem prefix_order_sound:
  "(\<forall>c. prefix_order (order_prefix a) (order_prefix b) = Some c \<longrightarrow> dbid_cmp a b = c)
   \<and> (prefix_order (order_prefix a) (order_prefix b) = None \<longleftrightarrow>
        (\<exists>fs gs. a = Rec fs \<and> b = Rec gs) \<and> pad16 (key_bytes a) = pad16 (key_bytes b))"
proof (intro conjI allI impI iffI)
  have inj: "u128_of (key_bytes a) = u128_of (key_bytes b) \<longleftrightarrow> pad16 (key_bytes a) = pad16 (key_bytes b)"
    using u128_of_cmp [of "key_bytes a" "key_bytes b"] by (metis ord_cmp_simps(2) slice_cmp_refl ord_cmp_refl slice_cmp_eq_iff)
  assume "prefix_order (order_prefix a) (order_prefix b) = None"
  then have eq: "order_prefix a = order_prefix b" and low: "\<not> ROW_ID \<le> (ucast (drop_bit 120 (order_prefix a)) :: byte)"
    by (auto simp: prefix_order_def split: if_splits)
  from eq show same: "pad16 (key_bytes a) = pad16 (key_bytes b)" by (simp add: order_prefix_u128 inj)
  have "\<not> ROW_ID \<le> hd (pad16 (key_bytes a))" using low by (simp add: order_prefix_u128 top_byte_u128_of)
  moreover have "\<not> ROW_ID \<le> hd (pad16 (key_bytes b))" using calculation same by simp
  ultimately show "\<exists>fs gs. a = Rec fs \<and> b = Rec gs" by (cases a; cases b) (simp_all add: pad16_def row_id_byte)
next
  assume r: "(\<exists>fs gs. a = Rec fs \<and> b = Rec gs) \<and> pad16 (key_bytes a) = pad16 (key_bytes b)"
  then have "order_prefix a = order_prefix b" by (simp add: order_prefix_u128 u128_of_def)
  moreover have "\<not> ROW_ID \<le> hd (pad16 (key_bytes a))" using r by (auto simp: rec_bytes_def pad16_def word_le_nat_alt)
  ultimately show "prefix_order (order_prefix a) (order_prefix b) = None"
    using r by (auto simp: prefix_order_def order_prefix_u128 top_byte_u128_of)
qed (rule prefix_order_exact)

theorem prefix_order_sound_witness:
  "dbid_cmp (IntId 3) (IntId 5) = Less
   \<and> prefix_order (order_prefix (IntId 3)) (order_prefix (IntId 5)) \<noteq> None"
  using prefix_order_sound [of "IntId 3" "IntId 5"] by simp

section \<open>Reading keys back\<close>

text \<open>Reading drops a string's or blob's reserved capacity: it comes back as the length.\<close>

fun norm_cap :: "value_item \<Rightarrow> value_item" where
  "norm_cap (Str s _) = Str s (word_of_nat (length s))"
| "norm_cap (Blob b _) = Blob b (word_of_nat (length b))"
| "norm_cap v = v"

fun norm_id :: "dbid \<Rightarrow> dbid" where
  "norm_id (Rec fs) = Rec (map norm_cap fs)"
| "norm_id i = i"

fun id_wf :: "dbid \<Rightarrow> bool" where
  "id_wf (Rec fs) = list_all value_wf fs"
| "id_wf (IntId _) = True"

lemma validate_norm_cap: "validate (norm_cap v) = Inr ()"
  by (cases v) simp_all

lemma norm_cap_eq: "value_eq (norm_cap v) v"
  by (cases v) simp_all

lemma u64_be [codec_simps]: "(word_of_nat (of_be (be_bytes 8 (unat (w :: u64)))) :: u64) = w"
proof -
  have "unat w mod 256 ^ 8 = unat w" using unat_u64_less [of w] by simp
  then show ?thesis by (simp only: of_be_be_bytes) simp
qed

lemma of_be_zeros: "of_be (replicate k 0 @ bs) = of_be bs"
  by (induction k) (simp_all add: of_be_Cons)

lemma take_unsigned_bytes [codec_simps]:
  "v < 256 ^ n \<Longrightarrow> take_unsigned (be_bytes n v @ rest) n = Inr (word_of_nat v, rest)"
  by (simp add: take_unsigned_def of_be_zeros)

lemma stored_unsigned_fold:
  "length head \<le> 8 \<Longrightarrow> foldl (\<lambda>v b. push_bit 8 v OR ucast b) 0 head = (word_of_nat (of_be head) :: u64)"
proof (induction head rule: rev_induct)
  case Nil
  then show ?case by simp
next
  case (snoc b bs)
  have "(push_bit 8 w OR ucast b :: u64) = 256 * w + ucast b" for w :: u64
  proof -
    have "push_bit 8 w AND (ucast b :: u64) = 0"
      by (rule bit_word_eqI) (auto simp: bit_simps dest: bit_imp_le_length)
    then show ?thesis
      by (simp add: disjunctive_add_eq_or [symmetric] push_bit_eq_mult)
  qed
  then have "foldl (\<lambda>v b. push_bit 8 v OR ucast b) 0 (bs @ [b]) = 256 * word_of_nat (of_be bs) + (ucast b :: u64)"
    using snoc by simp
  also have "\<dots> = word_of_nat (of_be bs * 256 + unat b)"
    by (simp only: of_nat_add of_nat_mult of_nat_numeral of_nat_unat ucast_eq mult.commute)
  finally show ?case by (simp only: of_be_append)
qed

lemma stored_unsigned_bytes [codec_simps]:
  "v < 256 ^ n \<Longrightarrow> n \<le> 8 \<Longrightarrow> stored_unsigned (be_bytes n v @ rest) n = Some (word_of_nat v, rest)"
  by (simp add: stored_unsigned_def stored_unsigned_fold)

lemma unflip_ordered [codec_simps]: "unflip (ordered_bits d) = d"
proof (cases "bit d 63")
  case True
  then have "\<not> bit (NOT d) 63" by (simp add: bit_not_iff)
  with True show ?thesis by (simp add: ordered_bits_def unflip_def drop63_0 drop63_1)
next
  case False
  then have "bit (d XOR push_bit 63 1) 63" by (simp only: bit_xor_iff bit_top simp_thms)
  then have "unflip (d XOR push_bit 63 1) = (d XOR push_bit 63 1) XOR push_bit 63 1"
    by (simp only: unflip_def drop63_1 if_True)
  moreover have "ordered_bits d = d XOR push_bit 63 1"
    using False by (simp only: ordered_bits_def drop63_0 simp_thms if_True)
  ultimately show ?thesis by (simp only: xor.assoc xor_self_eq xor.right_neutral)
qed

text \<open>Negative integers: the complement bytes give the magnitude back.\<close>

lemma magnitude_of_take_bit: "n \<le> 8 \<Longrightarrow> magnitude_of n w = take_bit (8 * n) (NOT w)"
proof -
  assume n: "n \<le> 8"
  have "(if n = 8 then 0xFFFFFFFFFFFFFFFF else push_bit (8 * n) 1 - 1) = (mask (8 * n) :: u64)"
    by (auto simp: mask_eq_exp_minus_1 push_bit_of_1)
  then show ?thesis by (simp only: magnitude_of_def Let_def take_bit_eq_mask)
qed

lemma magnitude_written [codec_simps]:
  assumes "unat m < 256 ^ n" and "n \<le> 8"
  shows "magnitude_of n (word_of_nat (256 ^ n - 1 - unat m)) = m"
proof -
  define f where "f = 256 ^ n - 1 - unat m"
  have "(256 :: nat) ^ n \<le> 256 ^ 8" using assms(2) by (intro power_increasing) simp_all
  then have f: "f < 256 ^ n" "f < 18446744073709551616" using assms(1) by (auto simp: f_def)
  have "unat (word_of_nat f :: u64) = f" using f(2) by (simp add: unat_of_nat)
  then have "take_bit (8 * n) (unat (NOT (word_of_nat f) :: u64)) = (18446744073709551615 - f) mod 256 ^ n"
    by (simp only: unat_compl take_bit_eq_mod power_256)
  then have "unat (take_bit (8 * n) (NOT (word_of_nat f) :: u64)) = (18446744073709551615 - f) mod 256 ^ n"
    by (simp only: unsigned_take_bit_eq)
  also have "\<dots> = 256 ^ n - 1 - f" using f(1) assms(2) by (rule compl_mod)
  also have "\<dots> = unat m" using assms(1) by (simp add: f_def)
  finally show ?thesis
    using assms(2) by (simp only: magnitude_of_take_bit f_def [symmetric] word_unat_eq_iff)
qed

lemma be_bytes_compl:
  "be_bytes (significant m) (unat (NOT m)) = be_bytes (significant m) (256 ^ significant m - 1 - unat m)"
  using compl_mod [OF significant_upper significant_le, of m] be_bytes_mod [of "significant m" "unat (NOT m)"]
  by (simp add: unat_compl)

lemma neg_magnitude:
  assumes "sint (i :: i64) < 0"
  shows "- i \<le> push_bit 63 1" and "0 < significant (- i)"
proof -
  have "9223372036854775808 \<le> unat i" using assms sint_nonneg_iff [of i] by linarith
  moreover from this have "i \<noteq> 0" by auto
  ultimately show "- i \<le> push_bit 63 1"
    using unat_neg [of i] unat_u64_less [of i] by (simp add: word_le_nat_alt)
  have "0 < unat (- i)" using \<open>i \<noteq> 0\<close> by (simp add: unat_gt_0)
  then show "0 < significant (- i)" using significant_lower by blast
qed

lemma nonneg_le_max: "0 \<le> sint (i :: i64) \<Longrightarrow> i \<le> 0x7FFFFFFFFFFFFFFF"
  using sint_nonneg_iff [of i] by (simp add: word_le_nat_alt)

lemma take_bytes_loop_written:
  assumes "rest = [] \<or> hd rest \<noteq> ESCAPED"
  shows "take_bytes_loop out (escape bs @ KEY_END # rest) = Inr (out @ bs, rest)"
proof (induction bs arbitrary: out rule: length_induct)
  case (1 bs)
  show ?case
  proof (cases "position (\<lambda>b. b = KEY_END) bs")
    case None
    then have no: "\<forall>x \<in> set bs. x \<noteq> KEY_END" by (simp add: position_None)
    then have "escape bs = bs" by (intro escape_no_end) auto
    moreover have "position (\<lambda>b. b = KEY_END) (bs @ KEY_END # rest) = Some (length bs)"
      using no by (intro position_append_hit) auto
    moreover have "get_at (bs @ KEY_END # rest) (length bs + 1) \<noteq> Some ESCAPED"
      using assms by (cases rest) (auto simp: get_at_def nth_append)
    ultimately show ?thesis by (subst take_bytes_loop.simps) (simp add: Let_def)
  next
    case (Some z)
    define pre post where "pre = take z bs" and "post = drop (Suc z) bs"
    have z: "z < length bs" "bs ! z = KEY_END" "\<forall>x \<in> set pre. x \<noteq> KEY_END"
      using position_Some [OF Some] by (auto simp: pre_def in_set_conv_nth)
    have bs: "bs = pre @ KEY_END # post" using z(1,2) id_take_nth_drop [of z bs] by (simp add: pre_def post_def)
    have "escape bs = pre @ KEY_END # ESCAPED # escape post"
      using escape_take_drop [OF Some] z by (simp add: pre_def post_def take_Suc_conv_app_nth)
    moreover have "position (\<lambda>b. b = KEY_END) (pre @ KEY_END # ESCAPED # escape post @ KEY_END # rest) = Some (length pre)"
      using z(3) by (intro position_append_hit) auto
    moreover have "take_bytes_loop ((out @ pre) @ [KEY_END]) (escape post @ KEY_END # rest) = Inr (((out @ pre) @ [KEY_END]) @ post, rest)"
      using 1 bs by simp
    ultimately show ?thesis
      by (subst take_bytes_loop.simps) (simp add: Let_def get_at_def nth_append bs)
  qed
qed

lemma take_bytes_written [codec_simps]:
  assumes "rest = [] \<or> hd rest \<noteq> ESCAPED"
  shows "take_bytes (escape bs @ KEY_END # rest) = Inr (bs, rest)"
proof -
  have loop: "take_bytes_loop [] (escape bs @ KEY_END # rest) = Inr (bs, rest)"
    using take_bytes_loop_written [OF assms, of "[]" bs] by simp
  show ?thesis
    using loop by (subst (asm) take_bytes_loop.simps) (auto simp: take_bytes_def Let_def loop split: option.splits if_splits)
qed

text \<open>What follows a written field: nothing or another field.\<close>

definition next_ok :: "bytes \<Rightarrow> bool" where
  "next_ok rest \<longleftrightarrow> rest = [] \<or> hd rest \<noteq> ESCAPED"

lemma next_ok_fields [simp]: "next_ok (concat (map field_bytes fs))"
  using field_bytes_hd [of "hd fs"] by (cases fs) (auto simp: next_ok_def)

lemma unat_tag_minus:
  "24 \<le> unat (t :: byte) \<Longrightarrow> unat (t - INT_ZERO) = unat t - 24"
  "48 \<le> unat (t :: byte) \<Longrightarrow> unat (t - DATETIME) = unat t - 48"
  "unat (t :: byte) \<le> 24 \<Longrightarrow> unat (INT_ZERO - t) = 24 - unat t"
  by (simp_all add: unat_sub word_le_nat_alt)

lemmas tag_nat = word_unat_eq_iff word_le_nat_alt word_less_nat_alt unat_tag_minus

lemma read_field_cases:
  "24 \<le> unat t \<Longrightarrow> unat t \<le> 32 \<Longrightarrow> read_field t rest =
     r_bind (take_unsigned rest (unat t - 24)) (\<lambda>(v, rest).
       if v \<le> 0x7FFFFFFFFFFFFFFF then Inr (FInteger v, rest) else Inl (Corruption ''an integer past i64''))"
  "16 \<le> unat t \<Longrightarrow> unat t < 24 \<Longrightarrow> read_field t rest =
     r_bind (take_unsigned rest (24 - unat t)) (\<lambda>(flipped, rest).
       if magnitude_of (24 - unat t) flipped > push_bit 63 1 then Inl (Corruption ''an integer below i64'')
       else Inr (FInteger (- magnitude_of (24 - unat t) flipped), rest))"
  "48 \<le> unat t \<Longrightarrow> unat t \<le> 56 \<Longrightarrow> read_field t rest =
     r_bind (take_unsigned rest (unat t - 48)) (\<lambda>(t, rest). Inr (FDatetime t, rest))"
  by (simp_all add: read_field_def tag_nat Let_def)

lemma stored_field_cases:
  "24 \<le> unat t \<Longrightarrow> unat t \<le> 32 \<Longrightarrow> stored_field t rest c = do {
     (v, rest) \<leftarrow> stored_unsigned rest (unat t - 24);
     if v \<le> 0x7FFFFFFFFFFFFFFF then Some (Integer v, rest) else None }"
  "16 \<le> unat t \<Longrightarrow> unat t < 24 \<Longrightarrow> stored_field t rest c = do {
     (flipped, rest) \<leftarrow> stored_unsigned rest (24 - unat t);
     if magnitude_of (24 - unat t) flipped > push_bit 63 1 then None
     else Some (Integer (- magnitude_of (24 - unat t) flipped), rest) }"
  "48 \<le> unat t \<Longrightarrow> unat t \<le> 56 \<Longrightarrow> stored_field t rest c = do {
     (t, rest) \<leftarrow> stored_unsigned rest (unat t - 48);
     Some (Datetime t, rest) }"
  by (simp_all add: stored_field_def tag_nat Let_def)

lemma field_written_int:
  "\<exists>t body. field_bytes (Integer i) = t # body
     \<and> read_field t (body @ rest) = Inr (FInteger i, rest)
     \<and> stored_field t (body @ rest) c = Some (Integer i, rest)"
proof (cases "0 \<le> sint i")
  case True
  with nonneg_le_max [OF True] show ?thesis
    by (simp add: read_field_cases(1) stored_field_cases(1) significant_upper
        take_unsigned_bytes stored_unsigned_bytes)
next
  case False
  define m where "m = - i"
  define n where "n = significant m"
  have n: "n \<le> 8" "0 < n" "m \<le> push_bit 63 1" "unat m < 256 ^ n"
    using False neg_magnitude [of i] by (simp_all add: n_def m_def significant_upper not_le)
  define f where "f = 256 ^ n - 1 - unat m"
  have small: "f < 256 ^ n" using n(4) by (simp add: f_def)
  have mag: "magnitude_of n (word_of_nat f) = m" unfolding f_def using n(4,1) by (rule magnitude_written)
  have tag: "unat (INT_ZERO - word_of_nat n :: byte) = 24 - n" by (simp add: n_def)
  have t: "24 - (24 - n) = n" "16 \<le> 24 - n" "24 - n < 24" using n(1,2) by simp_all
  have "field_bytes (Integer i) = (INT_ZERO - word_of_nat n) # be_bytes n f"
    using False be_bytes_compl [of m] by (simp add: m_def n_def f_def)
  moreover have "read_field (INT_ZERO - word_of_nat n) (be_bytes n f @ rest) = Inr (FInteger i, rest)"
    using n(3) by (subst read_field_cases(2)) (simp_all add: tag t take_unsigned_bytes [OF small] mag, simp add: m_def)
  moreover have "stored_field (INT_ZERO - word_of_nat n) (be_bytes n f @ rest) c = Some (Integer i, rest)"
    using n(3) by (subst stored_field_cases(2)) (simp_all add: tag t stored_unsigned_bytes [OF small n(1)] mag, simp add: m_def)
  ultimately show ?thesis by blast
qed

lemma field_written_other:
  assumes "next_ok rest" and "value_wf v" and "type_rank v \<noteq> 2"
  shows "\<exists>t body f. field_bytes v = t # body
     \<and> read_field t (body @ rest) = Inr (f, rest) \<and> field_to_owned f = norm_cap v
     \<and> (\<not> holds_end v \<longrightarrow> stored_field t (body @ rest) c = Some (norm_cap v, rest))"
proof -
  have rest: "rest = [] \<or> hd rest \<noteq> ESCAPED" using assms(1) by (simp add: next_ok_def)
  have pos: "position (\<lambda>b. b = KEY_END) (s @ KEY_END # rest) = Some (length s)" if "KEY_END \<notin> set s" for s
    using that by (intro position_append_hit) auto
  have dt: "read_field (DATETIME + word_of_nat (significant t)) (be_bytes (significant t) (unat t) @ rest) = Inr (FDatetime t, rest)"
    "stored_field (DATETIME + word_of_nat (significant t)) (be_bytes (significant t) (unat t) @ rest) c = Some (Datetime t, rest)" for t
    by (simp_all add: read_field_cases(3) stored_field_cases(3) significant_upper take_unsigned_bytes stored_unsigned_bytes)
  have dbl: "take_unsigned (be_bytes 8 (unat (ordered_bits d)) @ rest) 8 = Inr (ordered_bits d, rest)"
    "stored_unsigned (be_bytes 8 (unat (ordered_bits d)) @ rest) 8 = Some (ordered_bits d, rest)" for d
    using unat_u64_less [of "ordered_bits d"] by (simp_all add: take_unsigned_bytes stored_unsigned_bytes)
  show ?thesis
  proof (cases "\<exists>t. v = Datetime t")
    case True
    with dt show ?thesis by auto
  next
    case False
    with assms(2,3) show ?thesis
      by (cases v)
         (auto simp: read_field_def stored_field_def take_bytes_written [OF rest] escape_no_end pos dbl
            unflip_ordered Let_def simp del: be_bytes.simps)
  qed
qed

lemma field_written:
  assumes "next_ok rest" and "value_wf v"
  shows "\<exists>t body f. field_bytes v = t # body
     \<and> read_field t (body @ rest) = Inr (f, rest) \<and> field_to_owned f = norm_cap v
     \<and> (\<not> holds_end v \<longrightarrow> stored_field t (body @ rest) c = Some (norm_cap v, rest))"
proof (cases "type_rank v = 2")
  case True
  then obtain i where "v = Integer i" by (cases v) simp_all
  with field_written_int [of i rest c] show ?thesis by fastforce
next
  case False
  with assms show ?thesis by (rule field_written_other)
qed

lemma fields_collect_written:
  "list_all value_wf fs \<Longrightarrow> fields_collect (concat (map field_bytes fs)) = Inr (map norm_cap fs)"
proof (induction fs)
  case Nil
  show ?case by (subst fields_collect.simps) (simp add: fields_next_def)
next
  case (Cons v fs)
  then have wf: "value_wf v" by simp
  obtain t body f where "field_bytes v = t # body"
      "read_field t (body @ concat (map field_bytes fs)) = Inr (f, concat (map field_bytes fs))"
      "field_to_owned f = norm_cap v"
    using field_written [OF next_ok_fields wf, where c = True] by blast
  with Cons show ?case by (subst fields_collect.simps) (simp add: fields_next_def)
qed

lemma stored_values_written:
  assumes "list_all value_wf fs" and "\<forall>f \<in> set fs. \<not> holds_end f"
  shows "stored_check (concat (map field_bytes fs)) = Inr ()
    \<and> stored_values c (concat (map field_bytes fs)) = map norm_cap fs"
  using assms
proof (induction fs)
  case Nil
  show ?case by (subst stored_check.simps, subst stored_values.simps) simp
next
  case (Cons v fs)
  then have ok: "next_ok (concat (map field_bytes fs))" "value_wf v" "\<not> holds_end v" by simp_all
  obtain t body where v: "field_bytes v = t # body" using field_bytes_hd by blast
  have "stored_field t (body @ concat (map field_bytes fs)) b = Some (norm_cap v, concat (map field_bytes fs))" for b
    using field_written [OF ok(1,2), where c = b] ok(3) v by auto
  with Cons v show ?case by (subst stored_check.simps, subst stored_values.simps) simp
qed

text \<open>
  C11. Decoding inverts encoding: for an id whose strings are UTF-8, \<open>decode\<close> of its key bytes is the
  id itself, but for a string's or blob's reserved capacity, which the key does not hold and
  which comes back as its length.
\<close>

theorem keycode_roundtrip:
  assumes "id_wf i"
  shows "decode (encode i []) = Inr (norm_id i)"
proof (cases i)
  case (IntId n)
  have tag: "ROW_ID \<le> t \<and> t \<le> ROW_ID + 8 \<and> unat (t - ROW_ID) = k \<and> t \<noteq> REC"
    if "unat t = 224 + k" "k \<le> 8" for t :: byte and k
    using that by (auto simp: word_le_nat_alt unat_sub)
  show ?thesis
    using tag [of "ROW_ID + word_of_nat (significant n)" "significant n"]
    by (simp add: IntId encode_bytes decode_def read_key_def
        take_unsigned_bytes [OF significant_upper, of n "[]", simplified])
next
  case (Rec fs)
  have "validate_all (map norm_cap fs) = (Inr () :: serr + unit)"
    by (simp add: validate_all_iff validate_norm_cap)
  with assms show ?thesis
    by (simp add: Rec encode_bytes rec_bytes_def decode_def read_key_def fields_collect_written new_from_def)
qed

theorem keycode_roundtrip_witness:
  "decode (encode (Rec [Str [0x61, 0, 0x62] 9, Integer 0xFFFFFFFFFFFFFFFE, Boolean True]) [])
     = Inr (Rec [Str [0x61, 0, 0x62] 3, Integer 0xFFFFFFFFFFFFFFFE, Boolean True])"
  using keycode_roundtrip [of "Rec [Str [0x61, 0, 0x62] 9, Integer 0xFFFFFFFFFFFFFFFE, Boolean True]"]
  by simp

section \<open>Stored keys\<close>

lemma stored_into_bytes: "stored_into fs out = out @ concat (map field_bytes fs)"
  using vec.put_fields_written [of out fs] by (simp add: stored_into_def)

lemma stored_bytes: "key_buf_bytes (stored fs) = concat (map field_bytes fs)"
proof -
  have "key_buf_ok key_buf_new" "key_buf_bytes key_buf_new = []"
    by (simp_all add: key_buf_ok_def key_buf_new_def key_buf_bytes_def)
  with kb.put_fields_written [of key_buf_new fs] show ?thesis by (simp add: stored_def)
qed

lemma field_stored_len_bytes:
  "field_stored_len v = (if holds_end v then None else Some (length (field_bytes v)))"
  by (cases v) (auto simp: escape_no_end)

lemma stored_len_from_bytes:
  "stored_len_from n fs =
     (if \<exists>f \<in> set fs. holds_end f then None else Some (n + length (concat (map field_bytes fs))))"
  by (induction fs arbitrary: n) (auto simp: field_stored_len_bytes)

lemma stored_len_bytes:
  "stored_len fs = (if \<exists>f \<in> set fs. holds_end f then None else Some (length (concat (map field_bytes fs))))"
  by (simp add: stored_len_def stored_len_from_bytes)

text \<open>
  A storable record key as a page keeps it: whichever of the two writers made the bytes
  (in place on the stack, or straight into the tuple), they are the same bytes, exactly
  \<open>stored_len\<close> of them; \<open>check\<close> accepts them; and they read back as the key's own fields,
  whether or not UTF-8 is checked again.
\<close>

theorem stored_key_roundtrip:
  assumes "stored_len fs = Some n" and "list_all value_wf fs"
  shows "key_buf_bytes (stored fs) = stored_into fs [] \<and> length (stored_into fs []) = n
    \<and> stored_check (stored_into fs []) = Inr ()
    \<and> stored_values c (stored_into fs []) = map norm_cap fs
    \<and> stored_to_id (stored_into fs []) = Inr (norm_id (Rec fs))"
proof -
  have "\<forall>f \<in> set fs. \<not> holds_end f" and n: "n = length (concat (map field_bytes fs))"
    using assms(1) by (auto simp: stored_len_bytes split: if_splits)
  with assms(2) have *: "stored_check (concat (map field_bytes fs)) = Inr ()"
      "stored_values b (concat (map field_bytes fs)) = map norm_cap fs" for b
    using stored_values_written by blast+
  moreover have "validate_all (map norm_cap fs) = (Inr () :: serr + unit)"
    by (simp add: validate_all_iff validate_norm_cap)
  ultimately show ?thesis
    by (simp add: stored_into_bytes stored_bytes n stored_to_id_def new_from_def)
qed

theorem stored_key_roundtrip_witness:
  "stored_to_id (stored_into [Str [0x61] 4, Datetime 300] []) = Inr (Rec [Str [0x61] 1, Datetime 300])"
proof -
  have "stored_len [Str [0x61] 4, Datetime 300] = Some (length (concat (map field_bytes [Str [0x61] 4, Datetime 300])))"
    by (subst stored_len_bytes) simp
  from stored_key_roundtrip [OF this] show ?thesis by simp
qed

end
