(* ===== verification/Tuple_Wire.thy ===== *)
theory Tuple_Wire
  imports Key_Code
begin

text \<open>
  Tuples and their encoded form: \<^verbatim>\<open>store/src/tuple.rs\<close> (the tuple, its size and its writer; an id
  lent from a page and how it compares) and \<^verbatim>\<open>store/src/wire.rs\<close> (reading an encoded tuple in
  place).

  The serializer behind serde (\<^verbatim>\<open>postcard\<close>, not part of the repository) is a parameter: a
  record of what it writes for each primitive, with \<open>postcard_rules\<close> the layout rules that
  \<^verbatim>\<open>wire.rs\<close> documents and relies on. The repository's own \<^verbatim>\<open>Serialize\<close> impls are written over
  it. \<^verbatim>\<open>TransactionId\<close> and \<^verbatim>\<open>LsnId\<close> are newtypes of \<^verbatim>\<open>u64\<close>; an \<^verbatim>\<open>Arc<[u8]>\<close> is its bytes; an
  iterator is the list it yields.
\<close>

unbundle bit_operations_syntax

section \<open>Varints\<close>

function put_varint :: "bytes \<Rightarrow> u64 \<Rightarrow> bytes" where
  "put_varint out v =
     (if v \<ge> 0x80 then put_varint (out @ [ucast v OR 0x80]) (drop_bit 7 v) else out @ [ucast v])"
  by pat_completeness auto
termination
  by (relation "measure (\<lambda>(_, v). unat v)")
     (auto simp: drop_bit_eq_div unat_div word_le_nat_alt)

declare put_varint.simps [simp del]

definition varint_len :: "u64 \<Rightarrow> nat" where
  "varint_len v = (64 - leading_zeros (v OR 1) + 6) div 7"

section \<open>What serde writes\<close>

record serializer =
  ser_u8 :: "byte \<Rightarrow> bytes"
  ser_u32 :: "u32 \<Rightarrow> bytes"
  ser_u64 :: "u64 \<Rightarrow> bytes"
  ser_i64 :: "i64 \<Rightarrow> bytes"
  ser_f64 :: "f64 \<Rightarrow> bytes"
  ser_bool :: "bool \<Rightarrow> bytes"
  ser_str :: "bytes \<Rightarrow> bytes"
  ser_bytes :: "bytes \<Rightarrow> bytes"
  ser_seq :: "bytes list \<Rightarrow> bytes"
  ser_tuple :: "bytes list \<Rightarrow> bytes"
  ser_fails :: "dbid \<Rightarrow> bool"

fun serialize_value :: "serializer \<Rightarrow> value_item \<Rightarrow> bytes" where
  "serialize_value S Null = ser_tuple S [ser_u8 S 0]"
| "serialize_value S (Integer v) = ser_tuple S [ser_u8 S 1, ser_i64 S v]"
| "serialize_value S (Double v) = ser_tuple S [ser_u8 S 2, ser_f64 S v]"
| "serialize_value S (Datetime v) = ser_tuple S [ser_u8 S 3, ser_u64 S v]"
| "serialize_value S (Str s cap) = ser_tuple S [ser_u8 S 4, ser_tuple S [ser_str S s, ser_u32 S cap]]"
| "serialize_value S (Blob b cap) =
     ser_tuple S [ser_u8 S 5, ser_tuple S [ser_seq S (map (ser_u8 S) b), ser_u32 S cap]]"
| "serialize_value S (Boolean v) = ser_tuple S [ser_u8 S 6, ser_bool S v]"

definition serialize_key :: "serializer \<Rightarrow> index_key \<Rightarrow> bytes" where
  "serialize_key S k = ser_seq S (map (serialize_value S) k)"

definition serialize_id :: "serializer \<Rightarrow> dbid \<Rightarrow> bytes" where
  "serialize_id S i =
     (case i of
        IntId v \<Rightarrow> ser_tuple S [ser_u8 S 0, ser_u64 S v]
      | Rec v \<Rightarrow>
          (if stored_len v \<noteq> None then ser_tuple S [ser_u8 S 2, ser_bytes S (key_buf_bytes (stored v))]
           else ser_tuple S [ser_u8 S 1, serialize_key S v]))"

text \<open>\<^verbatim>\<open>postcard::to_extend\<close> and \<^verbatim>\<open>postcard::experimental::serialized_size\<close> of an id.\<close>

definition to_extend :: "serializer \<Rightarrow> dbid \<Rightarrow> bytes \<Rightarrow> serr + bytes" where
  "to_extend S i out = (if ser_fails S i then Inl SerializationError else Inr (out @ serialize_id S i))"

definition serialized_size :: "serializer \<Rightarrow> dbid \<Rightarrow> serr + nat" where
  "serialized_size S i = (if ser_fails S i then Inl SerializationError else Inr (length (serialize_id S i)))"

text \<open>
  The layout rules of postcard, as \<^verbatim>\<open>wire.rs\<close> states them: a \<^verbatim>\<open>u8\<close> or \<^verbatim>\<open>bool\<close> is one byte; any
  other integer is a LEB128 varint, zigzagged if signed; an \<^verbatim>\<open>f64\<close> is its eight little-endian
  bytes; a string, byte string or sequence is a varint length then its contents; a tuple is
  its fields back to back.
\<close>

definition zigzag :: "i64 \<Rightarrow> u64" where
  "zigzag v = push_bit 1 v XOR (if sint v < 0 then NOT 0 else 0)"

definition postcard_rules :: "serializer \<Rightarrow> bool" where
  "postcard_rules S \<longleftrightarrow>
     (\<forall>b. ser_u8 S b = [b])
   \<and> (\<forall>b. ser_bool S b = [if b then 1 else 0])
   \<and> (\<forall>v. ser_u32 S v = put_varint [] (ucast v))
   \<and> (\<forall>v. ser_u64 S v = put_varint [] v)
   \<and> (\<forall>v. ser_i64 S v = put_varint [] (zigzag v))
   \<and> (\<forall>v. ser_f64 S v = le_bytes 8 (unat v))
   \<and> (\<forall>s. ser_str S s = put_varint [] (word_of_nat (length s)) @ s)
   \<and> (\<forall>s. ser_bytes S s = put_varint [] (word_of_nat (length s)) @ s)
   \<and> (\<forall>xs. ser_seq S xs = put_varint [] (word_of_nat (length xs)) @ concat xs)
   \<and> (\<forall>xs. ser_tuple S xs = concat xs)
   \<and> (\<forall>i. \<not> ser_fails S i)"

section \<open>Tuples\<close>

abbreviation (input) INDEXED :: byte where "INDEXED \<equiv> 1"
abbreviation (input) TOMBSTONED :: nat where "TOMBSTONED \<equiv> 2"

definition flag_index :: "byte \<Rightarrow> bool" where
  "flag_index flags \<longleftrightarrow> flags AND INDEXED = INDEXED"

definition flag_tombstoned :: "byte \<Rightarrow> bool" where
  "flag_tombstoned flags \<longleftrightarrow> flags AND push_bit TOMBSTONED 1 \<noteq> 0"

record tuple =
  t_id :: dbid
  t_txn_id :: "u64 option"
  t_pre_lsn :: "u64 option"
  t_data :: bytes
  t_flags :: byte
  t_serialized_size :: u64

definition tuple_default :: tuple where
  "tuple_default = \<lparr>t_id = IntId 0, t_txn_id = None, t_pre_lsn = None, t_data = [], t_flags = 0,
     t_serialized_size = 0\<rparr>"

definition option_len :: "u64 option \<Rightarrow> nat" where
  "option_len v = 1 + (case v of None \<Rightarrow> 0 | Some n \<Rightarrow> varint_len n)"

definition encoded_len :: "serializer \<Rightarrow> tuple \<Rightarrow> nat" where
  "encoded_len S t =
     (let idl = (case t_id t of
            IntId n \<Rightarrow> 1 + varint_len n
          | Rec k \<Rightarrow> (case stored_len k of
                Some len \<Rightarrow> 1 + varint_len (word_of_nat len) + len
              | None \<Rightarrow> (case serialized_size S (t_id t) of Inr n \<Rightarrow> n | Inl _ \<Rightarrow> 0)))
      in idl + option_len (t_txn_id t) + option_len (t_pre_lsn t)
         + varint_len (word_of_nat (length (t_data t))) + length (t_data t) + 1)"

definition new_with :: "serializer \<Rightarrow> dbid \<Rightarrow> bytes \<Rightarrow> u64 option \<Rightarrow> u64 option \<Rightarrow> tuple" where
  "new_with S i data txn pre =
     (let s = tuple_default\<lparr>t_id := i, t_data := data, t_txn_id := txn, t_pre_lsn := pre\<rparr>
      in s\<lparr>t_serialized_size := word_of_nat (encoded_len S s)\<rparr>)"

definition tuple_new :: "serializer \<Rightarrow> u64 \<Rightarrow> bytes \<Rightarrow> tuple" where
  "tuple_new S i data = new_with S (IntId i) data None None"

definition new_indexed :: "serializer \<Rightarrow> dbid \<Rightarrow> bytes \<Rightarrow> u64 option \<Rightarrow> tuple" where
  "new_indexed S i data txn = (let s = new_with S i data txn None in s\<lparr>t_flags := t_flags s OR INDEXED\<rparr>)"

definition put_option :: "bytes \<Rightarrow> u64 option \<Rightarrow> bytes" where
  "put_option out v = (case v of Some n \<Rightarrow> put_varint (out @ [1]) n | None \<Rightarrow> out @ [0])"

definition encode_into :: "serializer \<Rightarrow> tuple \<Rightarrow> bytes \<Rightarrow> serr + bytes" where
  "encode_into S t out =
     r_bind (case t_id t of
         IntId n \<Rightarrow> Inr (put_varint (out @ [0]) n)
       | Rec k \<Rightarrow> (case stored_len k of
             Some len \<Rightarrow> Inr (stored_into k (put_varint (out @ [2]) (word_of_nat len)))
           | None \<Rightarrow> to_extend S (t_id t) out))
       (\<lambda>out. let out = put_option (put_option out (t_txn_id t)) (t_pre_lsn t);
                  out = put_varint out (word_of_nat (length (t_data t))) @ t_data t
              in Inr (out @ [t_flags t]))"

definition tuple_is_index :: "tuple \<Rightarrow> bool" where
  "tuple_is_index t = flag_index (t_flags t)"

definition set_txn_id :: "u64 \<Rightarrow> tuple \<Rightarrow> tuple" where
  "set_txn_id i t = t\<lparr>t_txn_id := Some i, t_serialized_size := 0\<rparr>"

definition is_same_txn :: "tuple \<Rightarrow> u64 \<Rightarrow> bool" where
  "is_same_txn t i = (case t_txn_id t of Some j \<Rightarrow> j = i | None \<Rightarrow> False)"

definition set_pre_lsn :: "u64 \<Rightarrow> tuple \<Rightarrow> tuple" where
  "set_pre_lsn l t = t\<lparr>t_pre_lsn := Some l, t_serialized_size := 0\<rparr>"

definition set_pre_lsn_none :: "tuple \<Rightarrow> tuple" where
  "set_pre_lsn_none t = t\<lparr>t_pre_lsn := None, t_serialized_size := 0\<rparr>"

definition tombstone :: "tuple \<Rightarrow> tuple" where
  "tombstone t = t\<lparr>t_flags := t_flags t OR push_bit TOMBSTONED 1\<rparr>"

definition tuple_is_tombstoned :: "tuple \<Rightarrow> bool" where
  "tuple_is_tombstoned t = flag_tombstoned (t_flags t)"

definition clear_tombstone :: "tuple \<Rightarrow> tuple" where
  "clear_tombstone t = t\<lparr>t_flags := t_flags t AND NOT (push_bit TOMBSTONED 1)\<rparr>"

definition set_data :: "bytes \<Rightarrow> tuple \<Rightarrow> tuple" where
  "set_data d t = t\<lparr>t_data := d, t_serialized_size := 0\<rparr>"

definition tuple_size :: "serializer \<Rightarrow> tuple \<Rightarrow> u64" where
  "tuple_size S t = (if t_serialized_size t > 0 then t_serialized_size t else word_of_nat (encoded_len S t))"

section \<open>The reader\<close>

record reader =
  rd_bytes :: bytes
  rd_pos :: nat

definition rd_new :: "bytes \<Rightarrow> reader" where
  "rd_new bs = \<lparr>rd_bytes = bs, rd_pos = 0\<rparr>"

definition rd_take :: "reader \<Rightarrow> nat \<Rightarrow> (bytes \<times> reader) option" where
  "rd_take r n = do {
     e \<leftarrow> (if rd_pos r + n < 2 ^ 64 then Some (rd_pos r + n) else None);
     out \<leftarrow> get_range (rd_bytes r) (rd_pos r) e;
     Some (out, r\<lparr>rd_pos := e\<rparr>) }"

definition rd_byte :: "reader \<Rightarrow> (byte \<times> reader) option" where
  "rd_byte r = do {
     b \<leftarrow> get_at (rd_bytes r) (rd_pos r);
     Some (b, r\<lparr>rd_pos := rd_pos r + 1\<rparr>) }"

text \<open>The \<^verbatim>\<open>for\<close> loop of \<open>varint\<close>: \<open>shift\<close> goes 7, 14, ..., 63 (\<open>n\<close> of them are left).\<close>

fun rd_varint_loop :: "nat \<Rightarrow> nat \<Rightarrow> u64 \<Rightarrow> reader \<Rightarrow> (u64 \<times> reader) option" where
  "rd_varint_loop 0 shift out r = None"
| "rd_varint_loop (Suc n) shift out r = do {
     (b, r) \<leftarrow> rd_byte r;
     let out = out OR push_bit shift (ucast (b AND 0x7F)) in
     if b AND 0x80 = 0 then Some (out, r) else rd_varint_loop n (shift + 7) out r }"

definition rd_varint :: "reader \<Rightarrow> (u64 \<times> reader) option" where
  "rd_varint r = do {
     (b, r) \<leftarrow> rd_byte r;
     if b < 0x80 then Some (ucast b, r) else rd_varint_loop 9 7 (ucast (b AND 0x7F)) r }"

definition rd_signed :: "reader \<Rightarrow> (i64 \<times> reader) option" where
  "rd_signed r = do {
     (n, r) \<leftarrow> rd_varint r;
     Some (drop_bit 1 n XOR - (n AND 1), r) }"

definition rd_sized :: "reader \<Rightarrow> (bytes \<times> reader) option" where
  "rd_sized r = do {
     (n, r) \<leftarrow> rd_varint r;
     rd_take r (unat n) }"

definition rd_option :: "reader \<Rightarrow> (u64 option \<times> reader) option" where
  "rd_option r = do {
     (b, r) \<leftarrow> rd_byte r;
     if b = 0 then Some (None, r)
     else if b = 1 then do { (v, r) \<leftarrow> rd_varint r; Some (Some v, r) }
     else None }"

definition rd_value :: "bool \<Rightarrow> reader \<Rightarrow> (value_item \<times> reader) option" where
  "rd_value checked r = do {
     (tag, r) \<leftarrow> rd_byte r;
     if tag = 0 then Some (Null, r)
     else if tag = 1 then do { (v, r) \<leftarrow> rd_signed r; Some (Integer v, r) }
     else if tag = 2 then do { (b, r) \<leftarrow> rd_take r 8; Some (Double (word_of_nat (of_le b)), r) }
     else if tag = 3 then do { (v, r) \<leftarrow> rd_varint r; Some (Datetime v, r) }
     else if tag = 4 then do {
       (b, r) \<leftarrow> rd_sized r;
       s \<leftarrow> (if checked then Some b else if utf8_valid b then Some b else None);
       (cap, r) \<leftarrow> rd_varint r;
       Some (Str s (ucast cap), r) }
     else if tag = 5 then do {
       (b, r) \<leftarrow> rd_sized r;
       (cap, r) \<leftarrow> rd_varint r;
       Some (Blob b (ucast cap), r) }
     else if tag = 6 then do {
       (b, r) \<leftarrow> rd_byte r;
       if b = 0 then Some (Boolean False, r)
       else if b = 1 then Some (Boolean True, r)
       else None }
     else None }"

definition rd_skip_value :: "reader \<Rightarrow> reader option" where
  "rd_skip_value r = do {
     (tag, r) \<leftarrow> rd_byte r;
     if tag = 0 then Some r
     else if tag = 1 \<or> tag = 3 then do { (_, r) \<leftarrow> rd_varint r; Some r }
     else if tag = 2 then do { (_, r) \<leftarrow> rd_take r 8; Some r }
     else if tag = 4 \<or> tag = 5 then do {
       (_, r) \<leftarrow> rd_sized r;
       (_, r) \<leftarrow> rd_varint r;
       Some r }
     else if tag = 6 then do {
       (b, r) \<leftarrow> rd_byte r;
       if b > 1 then None else Some r }
     else None }"

fun rd_skip_values :: "nat \<Rightarrow> reader \<Rightarrow> reader option" where
  "rd_skip_values 0 r = Some r"
| "rd_skip_values (Suc n) r = do { r \<leftarrow> rd_skip_value r; rd_skip_values n r }"

section \<open>Ids and tuples read in place\<close>

record wire_key =
  wk_count :: nat
  wk_bytes :: bytes
  wk_checked :: bool

record stored_key =
  sb_bytes :: bytes
  sb_checked :: bool

datatype wire_id = WInt u64 | WRec wire_key | WStored stored_key

text \<open>The slice \<^verbatim>\<open>&self.bytes[start..self.pos]\<close> of \<open>id\<close> is in range: stepping only moves forward.\<close>

definition rd_id :: "reader \<Rightarrow> (wire_id \<times> reader) option" where
  "rd_id r = do {
     (tag, r) \<leftarrow> rd_byte r;
     if tag = 0 then do { (n, r) \<leftarrow> rd_varint r; Some (WInt n, r) }
     else if tag = 2 then do {
       (b, r) \<leftarrow> rd_sized r;
       Some (WStored \<lparr>sb_bytes = b, sb_checked = False\<rparr>, r) }
     else if tag = 1 then do {
       (count, r) \<leftarrow> rd_varint r;
       let start = rd_pos r in do {
         r \<leftarrow> rd_skip_values (unat count) r;
         Some (WRec \<lparr>wk_count = unat count, wk_bytes = take (rd_pos r - start) (drop start (rd_bytes r)),
                 wk_checked = False\<rparr>, r) } }
     else None }"

definition wire_assume_checked :: "wire_id \<Rightarrow> wire_id" where
  "wire_assume_checked i =
     (case i of
        WRec k \<Rightarrow> WRec (k\<lparr>wk_checked := True\<rparr>)
      | WStored k \<Rightarrow> WStored (k\<lparr>sb_checked := True\<rparr>)
      | WInt n \<Rightarrow> WInt n)"

definition same_bytes :: "wire_key \<Rightarrow> wire_key \<Rightarrow> bool" where
  "same_bytes a b \<longleftrightarrow> wk_count a = wk_count b \<and> wk_bytes a = wk_bytes b"

definition malformed :: serr where
  "malformed = UnknownError ''malformed tuple bytes''"

fun check_values :: "nat \<Rightarrow> reader \<Rightarrow> serr + unit" where
  "check_values 0 r = Inr ()"
| "check_values (Suc n) r = r_bind (ok_or malformed (rd_value False r)) (\<lambda>(_, r). check_values n r)"

definition wk_check :: "wire_key \<Rightarrow> serr + unit" where
  "wk_check k = check_values (wk_count k) (rd_new (wk_bytes k))"

text \<open>\<^verbatim>\<open>WireValues\<close>, run to its end: what it yields until none are left or one does not read.\<close>

fun wire_values_from :: "bool \<Rightarrow> nat \<Rightarrow> reader \<Rightarrow> value_item list" where
  "wire_values_from checked 0 r = []"
| "wire_values_from checked (Suc left) r =
     (case rd_value checked r of
        None \<Rightarrow> []
      | Some (v, r) \<Rightarrow> v # wire_values_from checked left r)"

definition wire_values :: "wire_key \<Rightarrow> value_item list" where
  "wire_values k = wire_values_from (wk_checked k) (wk_count k) (rd_new (wk_bytes k))"

record wire_tuple =
  wt_id :: wire_id
  wt_txn_id :: "u64 option"
  wt_pre_lsn :: "u64 option"
  wt_data :: bytes
  wt_flags :: byte

definition id_ending :: "bytes \<Rightarrow> nat \<Rightarrow> wire_id option" where
  "id_ending bs id_end = do {
     (tag, r) \<leftarrow> rd_byte (rd_new bs);
     if tag = 0 then do { (n, _) \<leftarrow> rd_varint r; Some (WInt n) }
     else if tag = 1 then do {
       (count, r) \<leftarrow> rd_varint r;
       b \<leftarrow> get_range bs (rd_pos r) id_end;
       Some (WRec \<lparr>wk_count = unat count, wk_bytes = b, wk_checked = False\<rparr>) }
     else if tag = 2 then do {
       (_, r) \<leftarrow> rd_varint r;
       b \<leftarrow> get_range bs (rd_pos r) id_end;
       Some (WStored \<lparr>sb_bytes = b, sb_checked = False\<rparr>) }
     else None }"

definition read_fields :: "bytes \<Rightarrow> nat \<Rightarrow> wire_tuple option" where
  "read_fields bs id_end = do {
     i \<leftarrow> id_ending bs id_end;
     (txn, r) \<leftarrow> rd_option \<lparr>rd_bytes = bs, rd_pos = id_end\<rparr>;
     (pre, r) \<leftarrow> rd_option r;
     (data, r) \<leftarrow> rd_sized r;
     (flags, r) \<leftarrow> rd_byte r;
     Some \<lparr>wt_id = i, wt_txn_id = txn, wt_pre_lsn = pre, wt_data = data, wt_flags = flags\<rparr> }"

definition read_after :: "bytes \<Rightarrow> nat \<Rightarrow> serr + wire_tuple" where
  "read_after bs e = ok_or malformed (read_fields bs e)"

definition tuple_id :: "bytes \<Rightarrow> serr + wire_id" where
  "tuple_id bs = ok_or malformed (map_option fst (rd_id (rd_new bs)))"

definition id_end :: "bytes \<Rightarrow> serr + nat" where
  "id_end bs = r_bind (ok_or malformed (rd_id (rd_new bs))) (\<lambda>(_, r). Inr (rd_pos r))"

definition wire_read :: "bytes \<Rightarrow> serr + wire_tuple" where
  "wire_read bs = r_bind (id_end bs) (read_after bs)"

definition tuple_id_ending :: "bytes \<Rightarrow> nat \<Rightarrow> serr + wire_id" where
  "tuple_id_ending bs e = ok_or malformed (id_ending bs e)"

section \<open>Lent ids\<close>

datatype id_ref = Owned dbid | Wire wire_id

definition as_int :: "id_ref \<Rightarrow> u64 option" where
  "as_int r = (case r of Owned (IntId i) \<Rightarrow> Some i | Wire (WInt i) \<Rightarrow> Some i | _ \<Rightarrow> None)"

definition key_values :: "id_ref \<Rightarrow> value_item list option" where
  "key_values r =
     (case r of
        Owned (Rec k) \<Rightarrow> Some k
      | Wire (WRec k) \<Rightarrow> Some (wire_values k)
      | Wire (WStored k) \<Rightarrow> Some (stored_values (sb_checked k) (sb_bytes k))
      | _ \<Rightarrow> None)"

definition stored_bytes_of :: "id_ref \<Rightarrow> bytes option" where
  "stored_bytes_of r = (case r of Wire (WStored k) \<Rightarrow> Some (sb_bytes k) | _ \<Rightarrow> None)"

definition id_to_owned :: "id_ref \<Rightarrow> dbid" where
  "id_to_owned r =
     (case r of
        Owned i \<Rightarrow> i
      | Wire (WInt i) \<Rightarrow> IntId i
      | Wire _ \<Rightarrow> Rec (case key_values r of None \<Rightarrow> [] | Some vs \<Rightarrow> vs))"

definition id_hashed :: "id_ref \<Rightarrow> u64" where
  "id_hashed r =
     (case key_values r of
        Some values \<Rightarrow> hash_refs values
      | None \<Rightarrow> (case as_int r of Some n \<Rightarrow> n | None \<Rightarrow> 0))"

text \<open>\<^verbatim>\<open>Option<u64>\<close> orders \<open>None\<close> first.\<close>

definition opt_cmp :: "u64 option \<Rightarrow> u64 option \<Rightarrow> ordering" where
  "opt_cmp a b =
     (case (a, b) of
        (None, None) \<Rightarrow> Equal
      | (None, Some _) \<Rightarrow> Less
      | (Some _, None) \<Rightarrow> Greater
      | (Some x, Some y) \<Rightarrow> ord_cmp x y)"

definition id_cmp :: "id_ref \<Rightarrow> id_ref \<Rightarrow> ordering" where
  "id_cmp a b =
     (case (stored_bytes_of a, stored_bytes_of b) of
        (Some x, Some y) \<Rightarrow> slice_cmp x y
      | _ \<Rightarrow>
        (case (key_values a, key_values b) of
           (Some x, Some y) \<Rightarrow> rec_cmp x y
         | (None, None) \<Rightarrow> opt_cmp (as_int a) (as_int b)
         | (Some _, None) \<Rightarrow> Less
         | (None, Some _) \<Rightarrow> Greater))"

definition eq_by_values :: "id_ref \<Rightarrow> id_ref \<Rightarrow> bool" where
  "eq_by_values a b =
     (case (key_values a, key_values b) of
        (Some x, Some y) \<Rightarrow> list_all2 value_eq x y
      | (None, None) \<Rightarrow> as_int a = as_int b
      | _ \<Rightarrow> False)"

definition id_eq :: "id_ref \<Rightarrow> id_ref \<Rightarrow> bool" where
  "id_eq a b =
     (case (a, b) of
        (Owned x, Owned y) \<Rightarrow> dbid_eq x y
      | (Wire (WRec x), Wire (WRec y)) \<Rightarrow> if same_bytes x y then True else eq_by_values a b
      | (Wire (WStored x), Wire (WStored y)) \<Rightarrow> sb_bytes x = sb_bytes y
      | _ \<Rightarrow> eq_by_values a b)"

text \<open>
  \<^verbatim>\<open>Probe\<close>: its \<^verbatim>\<open>OnceCell\<close> only caches \<open>probe_bytes\<close>, whose value depends on the id alone.
\<close>

definition probe_bytes :: "id_ref \<Rightarrow> bytes option" where
  "probe_bytes p =
     (case stored_bytes_of p of
        Some b \<Rightarrow> Some b
      | None \<Rightarrow>
        (case p of
           Owned (Rec k) \<Rightarrow> if stored_len k \<noteq> None then Some (key_buf_bytes (stored k)) else None
         | _ \<Rightarrow> None))"

definition cmp_slot :: "id_ref \<Rightarrow> id_ref \<Rightarrow> ordering" where
  "cmp_slot p slot =
     (case (stored_bytes_of slot, probe_bytes p) of
        (Some s, Some q) \<Rightarrow> slice_cmp s q
      | _ \<Rightarrow> id_cmp slot p)"

definition is_slot :: "id_ref \<Rightarrow> id_ref \<Rightarrow> bool" where
  "is_slot p slot =
     (case (stored_bytes_of slot, probe_bytes p) of
        (Some s, Some q) \<Rightarrow> s = q
      | _ \<Rightarrow> id_eq slot p)"

definition order_prefix_of :: "id_ref \<Rightarrow> u128" where
  "order_prefix_of r =
     (case stored_bytes_of r of
        Some st \<Rightarrow> stored_prefix st
      | None \<Rightarrow>
        (case key_values r of
           Some values \<Rightarrow> fields_prefix values
         | None \<Rightarrow> row_id_prefix (case as_int r of Some n \<Rightarrow> n | None \<Rightarrow> 0)))"

definition wire_into_owned :: "wire_tuple \<Rightarrow> tuple" where
  "wire_into_owned w = \<lparr>t_id = id_to_owned (Wire (wt_id w)), t_txn_id = wt_txn_id w,
     t_pre_lsn = wt_pre_lsn w, t_data = wt_data w, t_flags = wt_flags w, t_serialized_size = 0\<rparr>"

section \<open>Lent tuples\<close>

datatype tuple_ref = LentTuple tuple | LentWire wire_tuple

definition tr_id :: "tuple_ref \<Rightarrow> id_ref" where
  "tr_id r = (case r of LentTuple t \<Rightarrow> Owned (t_id t) | LentWire w \<Rightarrow> Wire (wt_id w))"

definition tr_data :: "tuple_ref \<Rightarrow> bytes" where
  "tr_data r = (case r of LentTuple t \<Rightarrow> t_data t | LentWire w \<Rightarrow> wt_data w)"

definition tr_flags :: "tuple_ref \<Rightarrow> byte" where
  "tr_flags r = (case r of LentTuple t \<Rightarrow> t_flags t | LentWire w \<Rightarrow> wt_flags w)"

definition tr_is_index :: "tuple_ref \<Rightarrow> bool" where
  "tr_is_index r = flag_index (tr_flags r)"

definition tr_is_tombstoned :: "tuple_ref \<Rightarrow> bool" where
  "tr_is_tombstoned r = flag_tombstoned (tr_flags r)"

definition tr_txn_id :: "tuple_ref \<Rightarrow> u64 option" where
  "tr_txn_id r = (case r of LentTuple t \<Rightarrow> t_txn_id t | LentWire w \<Rightarrow> wt_txn_id w)"

definition tr_pre_lsn :: "tuple_ref \<Rightarrow> u64 option" where
  "tr_pre_lsn r = (case r of LentTuple t \<Rightarrow> t_pre_lsn t | LentWire w \<Rightarrow> wt_pre_lsn w)"

definition tr_into_owned :: "tuple_ref \<Rightarrow> tuple" where
  "tr_into_owned r = (case r of LentTuple t \<Rightarrow> t | LentWire w \<Rightarrow> wire_into_owned w)"

section \<open>Varints round trip\<close>

lemma drop7_less: "v \<ge> 0x80 \<Longrightarrow> unat (drop_bit 7 (v :: u64)) < unat v"
  by (simp add: drop_bit_eq_div unat_div word_le_nat_alt)

lemma put_varint_append: "put_varint (a @ out) v = a @ put_varint out v"
proof (induction "unat v" arbitrary: v out rule: less_induct)
  case less
  have *: "v \<ge> 0x80 \<Longrightarrow> put_varint (a @ out @ [ucast v OR 0x80]) (drop_bit 7 v)
      = a @ put_varint (out @ [ucast v OR 0x80]) (drop_bit 7 v)"
    by (rule less) (rule drop7_less)
  show ?case by (subst (1 2) put_varint.simps) (simp add: *)
qed

lemma put_varint_out: "put_varint out v = out @ put_varint [] v"
  using put_varint_append [of out "[]" v] by simp

lemma put_varint_Cons:
  "put_varint [] v = (if v \<ge> 0x80 then (ucast v OR 0x80) # put_varint [] (drop_bit 7 v) else [ucast v])"
  using put_varint_out [of "[ucast v OR 0x80]" "drop_bit 7 v"] by (subst put_varint.simps) simp

lemma bit_len_shift: "0 < n div 2 ^ k \<Longrightarrow> bit_len n = k + bit_len (n div 2 ^ k)"
proof (induction k)
  case (Suc k)
  have *: "n div 2 ^ Suc k = n div 2 ^ k div 2" by (metis div_mult2_eq mult.commute power_Suc)
  have pos: "0 < n div 2 ^ k" using Suc.prems unfolding * by (meson div_le_dividend le_trans less_le_trans)
  then have "bit_len (n div 2 ^ k) = Suc (bit_len (n div 2 ^ Suc k))"
    unfolding * by (subst bit_len.simps) simp
  with Suc.IH [OF pos] show ?case by simp
qed simp

lemma unat_or_1: "unat ((v :: u64) OR 1) = unat v + of_bool (even (unat v))"
proof -
  have "unat (v OR 1) = unat v OR 1" by (simp only: unsigned_or_eq unsigned_1)
  then show ?thesis by (simp only: or_one_eq)
qed

lemma bit_len_even_up: "0 < n \<Longrightarrow> bit_len (n + of_bool (even n)) = bit_len n"
proof -
  assume "0 < n"
  moreover have "(n + of_bool (even n)) div 2 = n div 2" by simp
  ultimately show ?thesis by (subst (1 2) bit_len.simps) simp
qed

lemma varint_len_bits: "varint_len v = (bit_len (unat v + of_bool (even (unat v))) + 6) div 7"
  using bit_len_u64 [of "v OR 1"] by (simp add: varint_len_def leading_zeros_def unat_or_1)

lemma varint_len_step:
  assumes "v \<ge> 0x80"
  shows "varint_len v = Suc (varint_len (drop_bit 7 v))"
proof -
  have n: "0 < unat v" "0 < unat v div 2 ^ 7" using assms by (auto simp: word_le_nat_alt div_greater_zero_iff)
  have "bit_len (unat v) = 7 + bit_len (unat (drop_bit 7 v))"
    using bit_len_shift [OF n(2)] by (simp add: drop_bit_eq_div unat_div)
  moreover have "0 < unat (drop_bit 7 v)" using n(2) by (simp add: drop_bit_eq_div unat_div)
  ultimately show ?thesis using n(1) by (simp add: varint_len_bits bit_len_even_up)
qed

lemma length_put_varint: "length (put_varint [] v) = varint_len v"
proof (induction "unat v" arbitrary: v rule: less_induct)
  case less
  show ?case
  proof (cases "v \<ge> 0x80")
    case True
    with less [OF drop7_less] show ?thesis by (simp add: put_varint_Cons [of v] varint_len_step)
  next
    case False
    then have "unat v < 128" by (simp add: word_le_nat_alt)
    then have "unat v + of_bool (even (unat v)) < 2 ^ 7" by (cases "unat v = 127") auto
    from bit_len_le [OF this] have "bit_len (unat v + of_bool (even (unat v))) \<le> 7" .
    moreover have "bit_len (unat v + of_bool (even (unat v))) \<noteq> 0" by (cases "unat v = 0") simp_all
    ultimately have "varint_len v = 1" unfolding varint_len_bits by linarith
    with False show ?thesis by (simp add: put_varint_Cons [of v])
  qed
qed

text \<open>The bytes a reader has yet to read, and a reader that has stepped over \<open>n\<close> of them.\<close>

definition unread :: "reader \<Rightarrow> bytes" where
  "unread r = drop (rd_pos r) (rd_bytes r)"

definition adv :: "nat \<Rightarrow> reader \<Rightarrow> reader" where
  "adv n r = r\<lparr>rd_pos := rd_pos r + n\<rparr>"

lemma adv_simps [simp]:
  "adv m (adv n r) = adv (n + m) r" "adv 0 r = r" "rd_pos (adv n r) = rd_pos r + n"
  "rd_bytes (adv n r) = rd_bytes r"
  by (simp_all add: adv_def add.assoc)

lemma unread_adv [simp]: "unread (adv n r) = drop n (unread r)"
  by (simp add: unread_def adv_def add.commute)

lemma unread_new [simp]: "unread (rd_new bs) = bs"
  by (simp add: unread_def rd_new_def)

lemma rd_byte_written [codec_simps]: "unread r = b # rest \<Longrightarrow> rd_byte r = Some (b, adv 1 r)"
proof -
  assume r: "unread r = b # rest"
  then have "rd_pos r < length (rd_bytes r)" by (metis drop_all list.distinct(1) not_le unread_def)
  moreover from r this have "rd_bytes r ! rd_pos r = b" by (metis Cons_nth_drop_Suc list.inject unread_def)
  ultimately show ?thesis by (simp add: rd_byte_def get_at_def adv_def)
qed

lemma rd_take_written [codec_simps]:
  assumes "unread r = bs @ rest" and "length (rd_bytes r) < 2 ^ 64" and "n = length bs"
    and "rd_pos r \<le> length (rd_bytes r)"
  shows "rd_take r n = Some (bs, adv n r)"
proof -
  have "length (rd_bytes r) - rd_pos r = length (bs @ rest)" using assms(1) by (metis length_drop unread_def)
  then have "rd_pos r + n \<le> length (rd_bytes r)" using assms(3,4) by simp
  moreover have "take n (drop (rd_pos r) (rd_bytes r)) = bs" using assms(1,3) by (simp add: unread_def)
  ultimately show ?thesis using assms(2) by (simp add: rd_take_def get_range_def adv_def)
qed

definition rd_ok :: "reader \<Rightarrow> bool" where
  "rd_ok r \<longleftrightarrow> rd_pos r \<le> length (rd_bytes r) \<and> length (rd_bytes r) < 2 ^ 64"

text \<open>\<open>reads f x v\<close>: wherever a reader stands before the bytes \<open>x\<close>, \<open>f\<close> takes exactly them and yields \<open>v\<close>.\<close>

definition reads :: "(reader \<Rightarrow> ('a \<times> reader) option) \<Rightarrow> bytes \<Rightarrow> 'a \<Rightarrow> bool" where
  "reads f x v \<longleftrightarrow> (\<forall>r rest. rd_ok r \<longrightarrow> unread r = x @ rest \<longrightarrow> f r = Some (v, adv (length x) r))"

lemma readsD: "reads f x v \<Longrightarrow> rd_ok r \<Longrightarrow> unread r = x @ rest \<Longrightarrow> f r = Some (v, adv (length x) r)"
  by (simp add: reads_def)

lemma rd_ok_adv: "rd_ok r \<Longrightarrow> unread r = x @ rest \<Longrightarrow> rd_ok (adv (length x) r)"
proof -
  assume ok: "rd_ok r" and x: "unread r = x @ rest"
  have "length (rd_bytes r) - rd_pos r = length (x @ rest)" using x by (metis length_drop unread_def)
  then show ?thesis using ok unfolding rd_ok_def by (auto simp: adv_def)
qed

lemma reads_return [intro, simp]: "reads (\<lambda>r. Some (v, r)) [] v"
  by (simp add: reads_def)

lemma reads_bind [intro]:
  assumes "reads f x v" and "reads (g v) y w"
  shows "reads (\<lambda>r. Option.bind (f r) (\<lambda>(a, r'). g a r')) (x @ y) w"
  using assms rd_ok_adv [of _ x] by (fastforce simp: reads_def)

lemma reads_byte [intro, simp]: "reads rd_byte [b] b"
  by (auto simp: reads_def rd_byte_written)

lemma reads_take: "length x = n \<Longrightarrow> reads (\<lambda>r. rd_take r n) x x"
  by (auto simp: reads_def rd_ok_def rd_take_written)

lemma reads_tag: "reads (g b) x v \<Longrightarrow> reads (\<lambda>r. Option.bind (rd_byte r) (\<lambda>(a, r'). g a r')) (b # x) v"
  using reads_bind [OF reads_byte] by simp

lemma low7: "(b :: byte) AND 0x7F = take_bit 7 b" "bit (0x80 :: byte) n \<longleftrightarrow> n = 7"
proof -
  have "(0x7F :: byte) = mask 7" by (simp add: mask_eq_exp_minus_1)
  then show "b AND 0x7F = take_bit 7 b" by (simp add: take_bit_eq_mask)
  have "(0x80 :: byte) = 2 ^ 7" by simp
  then show "bit (0x80 :: byte) n \<longleftrightarrow> n = 7" by (simp only: bit_exp_iff) auto
qed

lemma small7: "unat (b :: byte) < 128 \<Longrightarrow> take_bit 7 b = b \<and> \<not> bit b 7"
proof -
  assume "unat b < 128"
  then have "take_bit 7 b = b" by (simp add: word_unat_eq_iff take_bit_eq_mod unat_mod)
  then show ?thesis by (metis bit_take_bit_iff less_irrefl)
qed

lemma varint_high:
  fixes v :: u64
  shows "(ucast v OR 0x80 :: byte) AND 0x80 \<noteq> 0" and "\<not> (ucast v OR 0x80 :: byte) < 0x80"
    and "(ucast ((ucast v OR 0x80 :: byte) AND 0x7F) :: u64) = take_bit 7 v"
proof -
  have "bit ((ucast v OR 0x80 :: byte) AND 0x80) 7" by (simp add: bit_and_iff bit_or_iff low7)
  then show "(ucast v OR 0x80 :: byte) AND 0x80 \<noteq> 0" by (metis bit_0_eq bot_apply bot_bool_def)
  have "bit (ucast v OR 0x80 :: byte) 7" by (simp add: bit_or_iff low7)
  then show "\<not> (ucast v OR 0x80 :: byte) < 0x80" using small7 by (auto simp: word_less_nat_alt)
  show "(ucast ((ucast v OR 0x80 :: byte) AND 0x7F) :: u64) = take_bit 7 v"
    by (rule bit_eqI) (auto simp: bit_simps low7)
qed

lemma varint_low:
  fixes v :: u64
  assumes "v < 0x80"
  shows "(ucast v :: byte) AND 0x80 = 0" and "(ucast v :: byte) < 0x80"
    and "(ucast ((ucast v :: byte) AND 0x7F) :: u64) = v" and "(ucast (ucast v :: byte) :: u64) = v"
proof -
  have n: "unat v < 128" using assms by (simp add: word_less_nat_alt)
  then have u: "unat (ucast v :: byte) = unat v" by (simp add: unsigned_ucast_eq take_bit_eq_mod)
  then show "(ucast v :: byte) < 0x80" using n by (simp add: word_less_nat_alt)
  show again: "(ucast (ucast v :: byte) :: u64) = v" using n u by (simp add: word_unat_eq_iff unsigned_ucast_eq take_bit_eq_mod unat_mod)
  have low: "take_bit 7 (ucast v :: byte) = ucast v" "\<not> bit (ucast v :: byte) 7"
    using small7 [of "ucast v"] n u by simp_all
  then show "(ucast ((ucast v :: byte) AND 0x7F) :: u64) = v" by (simp add: low7 again)
  show "(ucast v :: byte) AND 0x80 = 0" using low(2) low7(2) by (intro bit_word_eqI) (metis bit_and_iff bit_0_eq bot_apply bot_bool_def)
qed

lemma varint_loop_step:
  fixes v :: u64
  shows "(out OR push_bit s (take_bit 7 v)) OR push_bit (s + 7) (drop_bit 7 v) = out OR push_bit s v"
proof (rule bit_eqI)
  fix n
  have "n - s < 7 \<or> 7 + (n - (s + 7)) = n - s \<and> s + 7 \<le> n" by linarith
  then show "bit ((out OR push_bit s (take_bit 7 v)) OR push_bit (s + 7) (drop_bit 7 v)) n \<longleftrightarrow> bit (out OR push_bit s v) n"
    by (auto simp: bit_simps)
qed

lemma reads_varint_loop:
  assumes "0 < n" and "shift + 7 * n = 70" and "unat v * 2 ^ shift < 2 ^ 64"
  shows "reads (rd_varint_loop n shift out) (put_varint [] v) (out OR push_bit shift v)"
  using assms
proof (induction n arbitrary: shift v out)
  case (Suc n)
  show ?case
  proof (cases "v \<ge> 0x80")
    case True
    then have big: "128 \<le> unat v" by (simp add: word_le_nat_alt)
    have "n \<noteq> 0"
    proof
      assume "n = 0"
      with Suc.prems(2) have "shift = 63" by simp
      with Suc.prems(3) big show False by simp
    qed
    moreover have "unat (drop_bit 7 v) * 2 ^ (shift + 7) < 2 ^ 64"
    proof -
      have "unat v div 128 * 128 \<le> unat v" by simp
      then have "unat v div 128 * 128 * 2 ^ shift \<le> unat v * 2 ^ shift" by (rule mult_right_mono) simp
      then have "unat v div 128 * 2 ^ (shift + 7) \<le> unat v * 2 ^ shift"
        by (simp only: power_add mult.assoc mult.commute [of "2 ^ shift"]) simp
      then show ?thesis using Suc.prems(3) by (simp add: drop_bit_eq_div unat_div)
    qed
    ultimately have "reads (rd_varint_loop n (shift + 7) (out OR push_bit shift (take_bit 7 v)))
        (put_varint [] (drop_bit 7 v))
        ((out OR push_bit shift (take_bit 7 v)) OR push_bit (shift + 7) (drop_bit 7 v))"
      using Suc.prems(2) by (intro Suc.IH) simp_all
    then show ?thesis using True unfolding put_varint_Cons [of v]
      by (auto intro!: reads_tag simp: varint_high varint_loop_step Let_def)
  next
    case False
    then show ?thesis unfolding put_varint_Cons [of v]
      by (auto intro!: reads_tag simp: varint_low Let_def)
  qed
qed simp

lemma reads_varint [intro, simp]: "reads rd_varint (put_varint [] v) v"
proof (cases "v \<ge> 0x80")
  case True
  have "unat (drop_bit 7 v) * 2 ^ 7 < 2 ^ 64"
    using unat_u64_less [of v] by (simp add: drop_bit_eq_div unat_div)
  from reads_varint_loop [OF _ _ this, of 9 "take_bit 7 v"]
  have "reads (rd_varint_loop 9 7 (take_bit 7 v)) (put_varint [] (drop_bit 7 v)) v"
    using varint_loop_step [of 0 0 v] by (simp add: or.commute)
  then show ?thesis using True unfolding put_varint_Cons [of v] rd_varint_def [abs_def]
    by (auto intro!: reads_tag simp: varint_high)
next
  case False
  then show ?thesis unfolding put_varint_Cons [of v] rd_varint_def [abs_def]
    by (auto intro!: reads_tag simp: varint_low)
qed

section \<open>Values and ids read back\<close>

lemma bit_zigzag: "bit (zigzag v) n \<longleftrightarrow> n < 64 \<and> ((0 < n \<and> bit v (n - 1)) \<noteq> bit v 63)"
proof -
  have "sint v < 0 \<longleftrightarrow> bit v 63" using bit_last_iff [of v] by simp
  then show ?thesis
    by (cases "bit v 63") (auto simp: zigzag_def bit_xor_iff bit_push_bit_iff bit_not_iff
        simp del: push_bit_of_1 push_bit_Suc)
qed

lemma unzigzag: "drop_bit 1 (zigzag v) XOR - (zigzag v AND 1) = v"
proof -
  have low: "zigzag v AND 1 = (if bit v 63 then 1 else 0)"
    by (rule bit_eqI) (auto simp: bit_zigzag bit_and_iff bit_1_iff)
  show ?thesis unfolding low
  proof (rule bit_word_eqI)
    fix n assume "n < LENGTH(64)"
    then show "bit (drop_bit 1 (zigzag v) XOR - (if bit v 63 then 1 else 0)) n \<longleftrightarrow> bit v n"
      by (cases "n = 63") (auto simp: bit_zigzag bit_xor_iff bit_drop_bit_eq)
  qed
qed

lemma reads_signed: "reads rd_signed (put_varint [] (zigzag v)) v"
proof -
  have "reads (\<lambda>r. Option.bind (rd_varint r) (\<lambda>(n, r). Some (drop_bit 1 n XOR - (n AND 1), r)))
      (put_varint [] (zigzag v) @ []) v"
    by (rule reads_bind [OF reads_varint]) (simp only: unzigzag prod.case reads_return)
  then show ?thesis by (simp add: rd_signed_def [abs_def])
qed

lemma unat_len: "length bs < 2 ^ 64 \<Longrightarrow> unat (word_of_nat (length bs) :: u64) = length bs"
  by (simp add: unsigned_of_nat take_bit_nat_eq_self)

lemma reads_sized: "length bs < 2 ^ 64 \<Longrightarrow> reads rd_sized (put_varint [] (word_of_nat (length bs)) @ bs) bs"
  unfolding rd_sized_def [abs_def] by (rule reads_bind [OF reads_varint]) (simp add: unat_len reads_take)

lemma reads_option: "reads rd_option (put_option [] v) v"
proof (cases v)
  case None
  then show ?thesis unfolding rd_option_def [abs_def] put_option_def by (auto intro!: reads_tag)
next
  case (Some n)
  have "reads (\<lambda>r. Option.bind (rd_varint r) (\<lambda>(v, r). Some (Some v, r))) (put_varint [] n @ []) (Some n)"
    by (rule reads_bind [OF reads_varint]) simp
  then show ?thesis unfolding rd_option_def [abs_def] put_option_def
    by (auto intro!: reads_tag simp: Some put_varint_out [of "[1]"])
qed

text \<open>What postcard writes for a value, with its rules put in.\<close>

fun wire_bytes :: "value_item \<Rightarrow> bytes" where
  "wire_bytes Null = [0]"
| "wire_bytes (Integer v) = 1 # put_varint [] (zigzag v)"
| "wire_bytes (Double v) = 2 # le_bytes 8 (unat v)"
| "wire_bytes (Datetime v) = 3 # put_varint [] v"
| "wire_bytes (Str s cap) = 4 # put_varint [] (word_of_nat (length s)) @ s @ put_varint [] (ucast cap)"
| "wire_bytes (Blob s cap) = 5 # put_varint [] (word_of_nat (length s)) @ s @ put_varint [] (ucast cap)"
| "wire_bytes (Boolean b) = [6, if b then 1 else 0]"

lemma serialize_value_bytes: "postcard_rules S \<Longrightarrow> serialize_value S v = wire_bytes v"
proof -
  assume S: "postcard_rules S"
  then have "ser_u8 S = (\<lambda>b. [b])" by (auto simp: postcard_rules_def)
  with S show ?thesis by (cases v) (simp_all add: postcard_rules_def concat_map_singleton)
qed

fun value_fits :: "value_item \<Rightarrow> bool" where
  "value_fits (Str s _) \<longleftrightarrow> length s < 2 ^ 64"
| "value_fits (Blob s _) \<longleftrightarrow> length s < 2 ^ 64"
| "value_fits _ \<longleftrightarrow> True"

lemma ucast_up_down: "(ucast (ucast (k :: u32) :: u64) :: u32) = k"
  by (rule bit_word_eqI) (auto simp: bit_simps)

lemma reads_value:
  assumes "value_wf v" and "value_fits v"
  shows "reads (rd_value c) (wire_bytes v) v"
proof -
  have f64: "reads (\<lambda>r. Option.bind (rd_take r 8) (\<lambda>(b, r). Some (Double (word_of_nat (of_le b)), r))) (le_bytes 8 (unat d) @ []) (Double d)" for d
    by (rule reads_bind [OF reads_take]) (use unat_u64_less [of d] in simp_all)
  have int: "reads (\<lambda>r. Option.bind (rd_signed r) (\<lambda>(v, r). Some (Integer v, r))) (put_varint [] (zigzag i) @ []) (Integer i)" for i
    by (rule reads_bind [OF reads_signed]) simp
  have dt: "reads (\<lambda>r. Option.bind (rd_varint r) (\<lambda>(v, r). Some (Datetime v, r))) (put_varint [] t @ []) (Datetime t)" for t
    by (rule reads_bind [OF reads_varint]) simp
  have cap: "reads (\<lambda>r. Option.bind (rd_varint r) (\<lambda>(cap, r). Some (f (ucast cap), r))) (put_varint [] (ucast (k :: u32)) @ []) (f k)" for f :: "u32 \<Rightarrow> value_item" and k
    by (rule reads_bind [OF reads_varint]) (simp add: ucast_up_down)
  have sized: "reads (\<lambda>r. Option.bind (rd_sized r) (\<lambda>(b, r). g b r))
        (put_varint [] (word_of_nat (length s)) @ s @ x) w"
    if "length s < 2 ^ 64" "reads (g s) x w" for g s x w
    using reads_bind [where g = g, OF reads_sized [OF that(1)] that(2)] by simp
  show ?thesis
    unfolding rd_value_def [abs_def]
    using assms f64 int dt cap
    by (cases v) (auto intro!: reads_tag sized)
qed

lemma byte_gt_1: "(1 :: byte) < b \<longleftrightarrow> b \<noteq> 0 \<and> b \<noteq> 1"
  by (auto simp: word_less_nat_alt word_unat_eq_iff)

lemma rd_skip_value_eq: "rd_skip_value r = map_option snd (rd_value True r)"
proof (cases "rd_byte r")
  case None
  then show ?thesis by (simp add: rd_skip_value_def rd_value_def)
next
  case (Some p)
  then obtain tag r' where r: "rd_byte r = Some (tag, r')" by (cases p) simp
  consider "tag = 0" | "tag = 1" | "tag = 2" | "tag = 3" | "tag = 4" | "tag = 5" | "tag = 6"
    | "tag \<notin> {0, 1, 2, 3, 4, 5, 6}" by blast
  then show ?thesis
    by cases (auto simp: rd_skip_value_def rd_value_def rd_signed_def r byte_gt_1 split: Option.bind_splits)
qed

lemma rd_value_checked: "rd_value False r = Some x \<Longrightarrow> rd_value True r = Some x"
proof (cases "rd_byte r")
  case None
  then show "rd_value False r = Some x \<Longrightarrow> ?thesis" by (simp add: rd_value_def)
next
  case (Some p)
  then obtain tag r' where r: "rd_byte r = Some (tag, r')" by (cases p) simp
  show "rd_value False r = Some x \<Longrightarrow> ?thesis"
  proof (cases "tag = 4")
    case True
    with r show "rd_value False r = Some x \<Longrightarrow> ?thesis"
      by (auto simp: rd_value_def split: Option.bind_splits if_splits)
  next
    case False
    with r have "rd_value False r = rd_value True r" by (simp add: rd_value_def)
    then show "rd_value False r = Some x \<Longrightarrow> ?thesis" by simp
  qed
qed

lemma skip_values_written:
  assumes "list_all value_wf vs" and "list_all value_fits vs" and "rd_ok r"
    and "unread r = concat (map wire_bytes vs) @ rest"
  shows "rd_skip_values (length vs) r = Some (adv (length (concat (map wire_bytes vs))) r)"
  using assms
proof (induction vs arbitrary: r)
  case (Cons v vs)
  then have "rd_value True r = Some (v, adv (length (wire_bytes v)) r)"
    using readsD [OF reads_value [of v True], of r "concat (map wire_bytes vs) @ rest"] by simp
  moreover have "rd_ok (adv (length (wire_bytes v)) r)"
    using Cons.prems by (auto intro: rd_ok_adv)
  ultimately show ?case using Cons by (simp add: rd_skip_value_eq add.commute)
qed simp

lemma wire_values_written:
  assumes "list_all value_wf vs" and "list_all value_fits vs" and "rd_ok r"
    and "unread r = concat (map wire_bytes vs) @ rest"
  shows "wire_values_from c (length vs) r = vs \<and> check_values (length vs) r = Inr ()"
  using assms
proof (induction vs arbitrary: r)
  case (Cons v vs)
  then have "rd_value b r = Some (v, adv (length (wire_bytes v)) r)" for b
    using readsD [OF reads_value [of v b], of r "concat (map wire_bytes vs) @ rest"] by simp
  moreover have "rd_ok (adv (length (wire_bytes v)) r)"
    using Cons.prems by (auto intro: rd_ok_adv)
  ultimately show ?case using Cons by simp
qed simp

definition id_bytes :: "dbid \<Rightarrow> bytes" where
  "id_bytes i =
     (case i of
        IntId n \<Rightarrow> 0 # put_varint [] n
      | Rec k \<Rightarrow>
          (if stored_len k \<noteq> None
           then 2 # put_varint [] (word_of_nat (length (stored_into k []))) @ stored_into k []
           else 1 # put_varint [] (word_of_nat (length k)) @ concat (map wire_bytes k)))"

definition wire_form :: "dbid \<Rightarrow> wire_id" where
  "wire_form i =
     (case i of
        IntId n \<Rightarrow> WInt n
      | Rec k \<Rightarrow>
          (if stored_len k \<noteq> None then WStored \<lparr>sb_bytes = stored_into k [], sb_checked = False\<rparr>
           else WRec \<lparr>wk_count = length k, wk_bytes = concat (map wire_bytes k), wk_checked = False\<rparr>))"

definition tuple_bytes :: "tuple \<Rightarrow> bytes" where
  "tuple_bytes t = id_bytes (t_id t) @ put_option [] (t_txn_id t) @ put_option [] (t_pre_lsn t)
     @ (put_varint [] (word_of_nat (length (t_data t))) @ t_data t) @ [t_flags t]"

lemma put_option_out: "put_option out v = out @ put_option [] v"
  by (cases v) (simp_all add: put_option_def put_varint_out [of "out @ [1]"] put_varint_out [of "[1]"])

lemma stored_len_Some: "stored_len k = Some n \<Longrightarrow> n = length (stored_into k [])"
  by (simp add: stored_len_bytes stored_into_bytes split: if_splits)

lemma serialize_id_bytes:
  assumes "postcard_rules S"
  shows "serialize_id S i = id_bytes i"
proof (cases i)
  case (IntId n)
  with assms show ?thesis by (simp add: serialize_id_def id_bytes_def postcard_rules_def)
next
  case (Rec k)
  have "serialize_value S = wire_bytes" using assms by (intro ext) (rule serialize_value_bytes)
  with assms Rec show ?thesis
    by (simp add: serialize_id_def id_bytes_def serialize_key_def postcard_rules_def stored_bytes stored_into_bytes)
qed

lemma encode_into_bytes: "postcard_rules S \<Longrightarrow> encode_into S t out = Inr (out @ tuple_bytes t)"
proof -
  assume S: "postcard_rules S"
  have "(case t_id t of
         IntId n \<Rightarrow> Inr (put_varint (out @ [0]) n)
       | Rec k \<Rightarrow> (case stored_len k of
             Some len \<Rightarrow> Inr (stored_into k (put_varint (out @ [2]) (word_of_nat len)))
           | None \<Rightarrow> to_extend S (t_id t) out)) = (Inr (out @ id_bytes (t_id t)) :: serr + bytes)"
    using S serialize_id_bytes [OF S]
    by (auto simp: to_extend_def id_bytes_def postcard_rules_def put_varint_out [of "out @ _"] stored_into_bytes
        split: dbid.splits option.splits dest: stored_len_Some)
  then show ?thesis
    by (simp add: encode_into_def tuple_bytes_def Let_def put_varint_out [of "_ @ _"]
        put_option_out [of "put_option _ _"] put_option_out [of "_ @ _"])
qed

lemma option_len_bytes: "option_len v = length (put_option [] v)"
  by (cases v) (simp_all add: option_len_def put_option_def put_varint_out [of "[1]"] length_put_varint)

lemma encoded_len_bytes:
  assumes "postcard_rules S"
  shows "encoded_len S t = length (tuple_bytes t)"
proof -
  have "\<not> ser_fails S i" for i using assms by (simp add: postcard_rules_def)
  then have "(case t_id t of
            IntId n \<Rightarrow> 1 + varint_len n
          | Rec k \<Rightarrow> (case stored_len k of
                Some len \<Rightarrow> 1 + varint_len (word_of_nat len) + len
              | None \<Rightarrow> (case serialized_size S (t_id t) of Inr n \<Rightarrow> n | Inl _ \<Rightarrow> 0))) = length (id_bytes (t_id t))"
    by (auto simp: id_bytes_def serialized_size_def serialize_id_bytes [OF assms] length_put_varint
        split: dbid.splits option.splits dest: stored_len_Some)
  then show ?thesis
    by (simp add: encoded_len_def tuple_bytes_def option_len_bytes length_put_varint)
qed

lemma wire_bytes_ge: "1 \<le> length (wire_bytes v)" "value_wf v \<Longrightarrow> length (wire_bytes v) < 2 ^ 64 \<Longrightarrow> value_fits v"
  by (cases v; simp)+

lemma values_fit:
  "length (concat (map wire_bytes k)) < 2 ^ 64 \<Longrightarrow> list_all value_wf k \<Longrightarrow> list_all value_fits k \<and> length k < 2 ^ 64"
proof -
  have "length k \<le> length (concat (map wire_bytes k))"
  proof (induction k)
    case (Cons v k)
    then have "1 + length k \<le> length (wire_bytes v) + length (concat (map wire_bytes k))"
      using wire_bytes_ge(1) by (rule add_mono [rotated])
    then show ?case by simp
  qed simp
  moreover have "list_all value_fits k" if "length (concat (map wire_bytes k)) < 2 ^ 64" "list_all value_wf k"
    using that
  proof (induction k)
    case (Cons v k)
    with wire_bytes_ge(2) [of v] show ?case by simp
  qed simp
  ultimately show "length (concat (map wire_bytes k)) < 2 ^ 64 \<Longrightarrow> list_all value_wf k \<Longrightarrow> ?thesis" by simp
qed

lemma unread_take: "unread r = x @ rest \<Longrightarrow> take (length x) (drop (rd_pos r) (rd_bytes r)) = x"
  by (simp add: unread_def)

lemma reads_id:
  assumes "id_wf i" and "length (id_bytes i) < 2 ^ 64"
  shows "reads rd_id (id_bytes i) (wire_form i)"
proof (cases i)
  case (IntId n)
  have "reads (\<lambda>r. Option.bind (rd_varint r) (\<lambda>(n, r). Some (WInt n, r))) (put_varint [] n @ []) (WInt n)"
    by (rule reads_bind [OF reads_varint]) simp
  then show ?thesis unfolding rd_id_def [abs_def]
    by (auto intro!: reads_tag simp: IntId id_bytes_def wire_form_def)
next
  case (Rec k)
  show ?thesis
  proof (cases "stored_len k")
    case None
    have fit: "list_all value_wf k" "list_all value_fits k" "length k < 2 ^ 64"
      using assms Rec None values_fit [of k] by (simp_all add: id_bytes_def)
    define x where "x = concat (map wire_bytes k)"
    define form where "form = WRec \<lparr>wk_count = length k, wk_bytes = x, wk_checked = False\<rparr>"
    define key where "key = (\<lambda>(count :: u64) r. let start = rd_pos r in do {
         r \<leftarrow> rd_skip_values (unat count) r;
         Some (WRec \<lparr>wk_count = unat count, wk_bytes = take (rd_pos r - start) (drop start (rd_bytes r)),
                 wk_checked = False\<rparr>, r) })"
    have "reads (key (word_of_nat (length k))) x form"
      using skip_values_written [OF fit(1,2)] unread_take [where x = x]
      by (auto simp: reads_def key_def x_def form_def unat_len [OF fit(3)])
    then have "reads (\<lambda>r. Option.bind (rd_varint r) (\<lambda>(count, r). key count r)) (put_varint [] (word_of_nat (length k)) @ x) form"
      by (rule reads_bind [OF reads_varint])
    then show ?thesis unfolding rd_id_def [abs_def]
      by (auto intro!: reads_tag simp: Rec None id_bytes_def wire_form_def key_def x_def form_def)
  next
    case (Some n)
    have "length (stored_into k []) < 2 ^ 64" using assms(2) Rec Some by (simp add: id_bytes_def)
    then have "reads (\<lambda>r. Option.bind (rd_sized r) (\<lambda>(b, r). Some (WStored \<lparr>sb_bytes = b, sb_checked = False\<rparr>, r)))
       ((put_varint [] (word_of_nat (length (stored_into k []))) @ stored_into k []) @ []) (wire_form i)"
      by (rule reads_bind [OF reads_sized]) (simp add: wire_form_def Rec Some)
    then show ?thesis unfolding rd_id_def [abs_def]
      by (auto intro!: reads_tag simp: Rec Some id_bytes_def)
  qed
qed

lemma id_ending_written:
  assumes "id_wf i" and "length (id_bytes i @ rest) < 2 ^ 64"
  shows "id_ending (id_bytes i @ rest) (length (id_bytes i)) = Some (wire_form i)"
proof -
  define bs where "bs = id_bytes i @ rest"
  obtain tag body where id: "id_bytes i = tag # body"
    by (cases "id_bytes i") (auto simp: id_bytes_def split: dbid.splits if_splits)
  have b: "rd_byte (rd_new bs) = Some (tag, adv 1 (rd_new bs))"
    by (rule rd_byte_written [of _ _ "body @ rest"]) (simp add: bs_def id)
  have ok: "rd_ok (adv 1 (rd_new bs))" using assms(2) by (simp add: rd_ok_def rd_new_def bs_def id)
  have v: "rd_varint (adv 1 (rd_new bs)) = Some (n, adv (1 + length (put_varint [] n)) (rd_new bs))"
    if "body = put_varint [] n @ x" for n x
    using readsD [OF reads_varint ok, of n "x @ rest"] that by (simp add: bs_def id)
  have g: "get_range bs (Suc (length (put_varint [] n))) (length (id_bytes i)) = Some x"
    if "body = put_varint [] n @ x" for n :: u64 and x
    using that by (simp add: bs_def id get_range_def)
  show ?thesis
  proof (cases i)
    case (IntId n)
    with id have "tag = 0" "body = put_varint [] n @ []" by (auto simp: id_bytes_def)
    with b v [of n "[]"] show ?thesis
      unfolding bs_def [symmetric] by (simp add: id_ending_def wire_form_def IntId)
  next
    case (Rec k)
    show ?thesis
    proof (cases "stored_len k")
      case None
      with id Rec have t: "tag = 1" "body = put_varint [] (word_of_nat (length k)) @ concat (map wire_bytes k)"
        by (auto simp: id_bytes_def)
      have "length k < 2 ^ 64"
        using assms Rec None values_fit [of k] by (simp add: id_bytes_def)
      with b v [OF t(2)] g [OF t(2)] t(1) show ?thesis
        unfolding bs_def [symmetric]
        by (simp add: id_ending_def wire_form_def Rec None unat_len) (simp add: rd_new_def)
    next
      case (Some n)
      with id Rec have t: "tag = 2" "body = put_varint [] (word_of_nat (length (stored_into k []))) @ stored_into k []"
        by (auto simp: id_bytes_def)
      with b v [OF t(2)] g [OF t(2)] show ?thesis
        unfolding bs_def [symmetric]
        by (simp add: id_ending_def wire_form_def Rec Some) (simp add: rd_new_def)
    qed
  qed
qed

text \<open>The fields after the id, as one read.\<close>

definition rd_fields :: "reader \<Rightarrow> ((u64 option \<times> u64 option \<times> bytes \<times> byte) \<times> reader) option" where
  "rd_fields r = do {
     (txn, r) \<leftarrow> rd_option r;
     (pre, r) \<leftarrow> rd_option r;
     (data, r) \<leftarrow> rd_sized r;
     (flags, r) \<leftarrow> rd_byte r;
     Some ((txn, pre, data, flags), r) }"

lemma read_fields_rd_fields:
  "read_fields bs e = do {
     i \<leftarrow> id_ending bs e;
     ((txn, pre, data, flags), _) \<leftarrow> rd_fields \<lparr>rd_bytes = bs, rd_pos = e\<rparr>;
     Some \<lparr>wt_id = i, wt_txn_id = txn, wt_pre_lsn = pre, wt_data = data, wt_flags = flags\<rparr> }"
  by (auto simp: read_fields_def rd_fields_def split: Option.bind_splits)

lemma reads_fields:
  assumes "length data < 2 ^ 64"
  shows "reads rd_fields (put_option [] txn @ put_option [] pre
    @ (put_varint [] (word_of_nat (length data)) @ data) @ [flags]) (txn, pre, data, flags)"
proof -
  have "reads rd_fields (put_option [] txn @ put_option [] pre
    @ (put_varint [] (word_of_nat (length data)) @ data) @ [flags] @ []) (txn, pre, data, flags)"
    unfolding rd_fields_def [abs_def]
    by (intro reads_bind [OF reads_option] reads_bind [OF reads_sized [OF assms]] reads_bind [OF reads_byte] reads_return)
  then show ?thesis by simp
qed

lemma rd_fields_written:
  assumes "length (tuple_bytes t) < 2 ^ 64"
  shows "rd_fields \<lparr>rd_bytes = tuple_bytes t, rd_pos = length (id_bytes (t_id t))\<rparr>
    = Some ((t_txn_id t, t_pre_lsn t, t_data t, t_flags t),
        \<lparr>rd_bytes = tuple_bytes t, rd_pos = length (tuple_bytes t)\<rparr>)"
proof -
  have "length (t_data t) < 2 ^ 64" using assms by (simp add: tuple_bytes_def)
  moreover have "rd_ok \<lparr>rd_bytes = tuple_bytes t, rd_pos = length (id_bytes (t_id t))\<rparr>"
    using assms by (simp add: rd_ok_def tuple_bytes_def)
  ultimately show ?thesis
    using readsD [OF reads_fields, of "t_data t" _ "t_txn_id t" "t_pre_lsn t" "t_flags t" "[]"]
    by (simp add: unread_def tuple_bytes_def adv_def)
qed

lemma read_fields_written:
  assumes "id_wf (t_id t)" and "length (tuple_bytes t) < 2 ^ 64"
  shows "read_fields (tuple_bytes t) (length (id_bytes (t_id t))) = Some \<lparr>wt_id = wire_form (t_id t),
    wt_txn_id = t_txn_id t, wt_pre_lsn = t_pre_lsn t, wt_data = t_data t, wt_flags = t_flags t\<rparr>"
proof -
  have "id_ending (tuple_bytes t) (length (id_bytes (t_id t))) = Some (wire_form (t_id t))"
    using id_ending_written [OF assms(1)] assms(2) by (simp add: tuple_bytes_def)
  then show ?thesis by (simp add: read_fields_rd_fields rd_fields_written [OF assms(2)])
qed

text \<open>
  The id a reader of the bytes gets back: a key kept as keycode bytes comes back with its
  strings' and blobs' capacities at their lengths, any other id as it was.
\<close>

definition read_back_id :: "dbid \<Rightarrow> dbid" where
  "read_back_id i = (case i of Rec k \<Rightarrow> (if stored_len k \<noteq> None then norm_id i else i) | IntId _ \<Rightarrow> i)"

lemma wire_form_values:
  assumes "id_wf (Rec k)" and "length (id_bytes (Rec k)) < 2 ^ 64"
  shows "key_values (Wire (wire_form (Rec k))) = Some (if stored_len k \<noteq> None then map norm_cap k else k)"
proof (cases "stored_len k")
  case None
  have "list_all value_wf k" "list_all value_fits k"
    using assms None values_fit [of k] by (simp_all add: id_bytes_def)
  then have "wire_values_from False (length k) (rd_new (concat (map wire_bytes k))) = k"
    using wire_values_written [of k "rd_new (concat (map wire_bytes k))" "[]" False] assms(2) None
    by (simp add: rd_ok_def id_bytes_def) (simp add: rd_new_def)
  with None show ?thesis by (simp add: key_values_def wire_form_def wire_values_def)
next
  case (Some n)
  then have "\<forall>f \<in> set k. \<not> holds_end f" by (auto simp: stored_len_bytes split: if_splits)
  with Some assms(1) show ?thesis
    by (simp add: key_values_def wire_form_def stored_into_bytes stored_values_written)
qed

lemma wire_form_to_owned:
  "id_wf i \<Longrightarrow> length (id_bytes i) < 2 ^ 64 \<Longrightarrow> id_to_owned (Wire (wire_form i)) = read_back_id i"
proof (cases i)
  case (Rec k)
  have "id_to_owned (Wire (wire_form (Rec k)))
      = Rec (case key_values (Wire (wire_form (Rec k))) of None \<Rightarrow> [] | Some vs \<Rightarrow> vs)"
    by (simp add: id_to_owned_def wire_form_def)
  with Rec wire_form_values [of k]
  show "id_wf i \<Longrightarrow> length (id_bytes i) < 2 ^ 64 \<Longrightarrow> ?thesis" by (simp add: read_back_id_def)
qed (simp add: id_to_owned_def read_back_id_def wire_form_def)

lemma wire_read_written:
  assumes "id_wf (t_id t)" and "length (tuple_bytes t) < 2 ^ 64"
  shows "id_end (tuple_bytes t) = Inr (length (id_bytes (t_id t)))"
    and "wire_read (tuple_bytes t) = Inr \<lparr>wt_id = wire_form (t_id t),
      wt_txn_id = t_txn_id t, wt_pre_lsn = t_pre_lsn t, wt_data = t_data t, wt_flags = t_flags t\<rparr>"
proof -
  have ok: "rd_ok (rd_new (tuple_bytes t))" using assms(2) by (simp add: rd_ok_def rd_new_def)
  have "length (id_bytes (t_id t)) < 2 ^ 64" using assms(2) by (simp add: tuple_bytes_def)
  from readsD [OF reads_id [OF assms(1) this] ok]
  have "rd_id (rd_new (tuple_bytes t)) = Some (wire_form (t_id t), adv (length (id_bytes (t_id t))) (rd_new (tuple_bytes t)))"
    by (simp add: tuple_bytes_def)
  then show e: "id_end (tuple_bytes t) = Inr (length (id_bytes (t_id t)))"
    by (simp add: id_end_def) (simp add: rd_new_def)
  show "wire_read (tuple_bytes t) = Inr \<lparr>wt_id = wire_form (t_id t),
      wt_txn_id = t_txn_id t, wt_pre_lsn = t_pre_lsn t, wt_data = t_data t, wt_flags = t_flags t\<rparr>"
    using read_fields_written [OF assms] by (simp add: wire_read_def read_after_def e)
qed

text \<open>
  C14. A tuple reads back from its encoding: with postcard's layout rules, \<open>encode_into\<close> appends
  exactly \<open>encoded_len\<close> bytes, and reading those bytes in place gives back the tuple, every
  field of it (a stored key's capacities apart, see \<open>read_back_id\<close>).
\<close>

theorem tuple_encode_roundtrip:
  assumes "postcard_rules S" and "id_wf (t_id t)" and "encoded_len S t < 2 ^ 64"
  shows "\<exists>bs w. encode_into S t out = Inr (out @ bs) \<and> length bs = encoded_len S t
    \<and> wire_read bs = Inr w
    \<and> wire_into_owned w = t\<lparr>t_id := read_back_id (t_id t), t_serialized_size := 0\<rparr>"
proof -
  have len: "length (tuple_bytes t) < 2 ^ 64" using assms(3) by (simp add: encoded_len_bytes [OF assms(1)])
  then have "length (id_bytes (t_id t)) < 2 ^ 64" by (simp add: tuple_bytes_def)
  with wire_read_written(2) [OF assms(2) len] show ?thesis
    by (simp add: encode_into_bytes [OF assms(1)] encoded_len_bytes [OF assms(1)]
        wire_into_owned_def wire_form_to_owned [OF assms(2)])
qed

definition postcard :: serializer where
  "postcard = \<lparr>ser_u8 = (\<lambda>b. [b]), ser_u32 = (\<lambda>v. put_varint [] (ucast v)), ser_u64 = put_varint [],
     ser_i64 = (\<lambda>v. put_varint [] (zigzag v)), ser_f64 = (\<lambda>v. le_bytes 8 (unat v)),
     ser_bool = (\<lambda>b. [if b then 1 else 0]), ser_str = (\<lambda>s. put_varint [] (word_of_nat (length s)) @ s),
     ser_bytes = (\<lambda>s. put_varint [] (word_of_nat (length s)) @ s),
     ser_seq = (\<lambda>xs. put_varint [] (word_of_nat (length xs)) @ concat xs), ser_tuple = concat,
     ser_fails = (\<lambda>_. False)\<rparr>"

lemma postcard_ok: "postcard_rules postcard"
  by (simp add: postcard_rules_def postcard_def)

theorem tuple_encode_roundtrip_witness:
  "\<exists>bs w. encode_into postcard (new_with postcard (Rec [Str [0x61, 0] 4, Integer 7]) [1, 2] (Some 300) None) [] = Inr bs
    \<and> wire_read bs = Inr w \<and> t_data (wire_into_owned w) = [1, 2] \<and> t_txn_id (wire_into_owned w) = Some 300
    \<and> t_id (wire_into_owned w) = Rec [Str [0x61, 0] 4, Integer 7]"
proof -
  define t where "t = new_with postcard (Rec [Str [0x61, 0] 4, Integer 7]) [1, 2] (Some 300) None"
  have t: "t_id t = Rec [Str [0x61, 0] 4, Integer 7]" "t_data t = [1, 2]" "t_txn_id t = Some 300" "t_pre_lsn t = None"
    by (simp_all add: t_def new_with_def tuple_default_def Let_def)
  have none: "stored_len [Str [0x61, 0] 4, Integer 7] = None" by (simp add: stored_len_def)
  have "zigzag 7 = 14" by (simp add: zigzag_def)
  then have "encoded_len postcard t < 2 ^ 64"
    by (simp add: encoded_len_bytes [OF postcard_ok] tuple_bytes_def t id_bytes_def none put_option_def put_varint.simps)
  from tuple_encode_roundtrip [OF postcard_ok _ this, of "[]"] show ?thesis
    unfolding t_def [symmetric] by (auto simp: t read_back_id_def none)
qed

section \<open>A lent id is the id\<close>

text \<open>
  The forms in which a page or cursor lends the id \<open>i\<close>: owned, as a number, as the values of
  the older form, or as keycode bytes.
\<close>

definition lends :: "id_ref \<Rightarrow> dbid \<Rightarrow> bool" where
  "lends r i \<longleftrightarrow> id_wf i \<and>
     (case r of
        Owned j \<Rightarrow> j = i
      | Wire (WInt n) \<Rightarrow> i = IntId n
      | Wire (WRec k) \<Rightarrow> (\<exists>fs. i = Rec fs \<and> wk_count k = length fs
            \<and> wk_bytes k = concat (map wire_bytes fs) \<and> length (wk_bytes k) < 2 ^ 64)
      | Wire (WStored k) \<Rightarrow> (\<exists>fs. i = Rec fs \<and> stored_len fs \<noteq> None \<and> sb_bytes k = stored_into fs []))"

lemma lends_wire_form:
  "id_wf i \<Longrightarrow> length (id_bytes i) < 2 ^ 64 \<Longrightarrow> lends (Wire (wire_form i)) i"
  "id_wf i \<Longrightarrow> length (id_bytes i) < 2 ^ 64 \<Longrightarrow> lends (Wire (wire_assume_checked (wire_form i))) i"
  by (cases i; auto simp: lends_def wire_form_def wire_assume_checked_def id_bytes_def)+

lemma norm_cap_like [simp]:
  "value_cmp (norm_cap a) b = value_cmp a b" "value_cmp a (norm_cap b) = value_cmp a b"
  "value_eq (norm_cap a) b = value_eq a b" "value_eq a (norm_cap b) = value_eq a b"
  "value_hash (norm_cap a) = value_hash a" "field_bytes (norm_cap a) = field_bytes a"
  by (cases a; cases b; simp)+

lemma norm_keys_like [simp]:
  "rec_cmp (map norm_cap a) b = rec_cmp a b" "rec_cmp a (map norm_cap b) = rec_cmp a b"
  "list_all2 value_eq (map norm_cap a) b = list_all2 value_eq a b"
  "list_all2 value_eq a (map norm_cap b) = list_all2 value_eq a b"
  "hash_refs (map norm_cap a) = hash_refs a" "fields_prefix (map norm_cap a) = fields_prefix a"
  by (induction a b rule: rec_cmp.induct) 
     (simp_all add: list_all2_map1 list_all2_map2 hash_refs_def fields_prefix_u128 rec_bytes_def comp_def foldl_map split: ordering.splits)

lemma lent_values:
  assumes "lends r i"
  shows "case i of
      IntId n \<Rightarrow> key_values r = None \<and> as_int r = Some n \<and> stored_bytes_of r = None
    | Rec fs \<Rightarrow> (key_values r = Some fs \<or> key_values r = Some (map norm_cap fs)) \<and> as_int r = None
        \<and> (stored_bytes_of r = None \<or> stored_bytes_of r = Some (stored_into fs []) \<and> stored_len fs \<noteq> None)"
proof (cases r)
  case (Owned j)
  with assms show ?thesis by (auto simp: lends_def key_values_def as_int_def stored_bytes_of_def split: dbid.split)
next
  case (Wire w)
  show ?thesis
  proof (cases w)
    case (WInt n)
    with assms Wire show ?thesis by (simp add: lends_def key_values_def as_int_def stored_bytes_of_def)
  next
    case (WRec k)
    with assms Wire obtain fs where i: "i = Rec fs" "wk_count k = length fs" "list_all value_wf fs"
        "wk_bytes k = concat (map wire_bytes fs)" "length (wk_bytes k) < 2 ^ 64"
      by (auto simp: lends_def)
    moreover have "list_all value_fits fs" using values_fit [of fs] i by simp
    ultimately have "wire_values_from (wk_checked k) (length fs) (rd_new (wk_bytes k)) = fs"
      using wire_values_written [of fs "rd_new (wk_bytes k)" "[]" "wk_checked k"]
      by (simp add: rd_ok_def) (simp add: rd_new_def)
    with i Wire WRec show ?thesis by (simp add: key_values_def as_int_def stored_bytes_of_def wire_values_def)
  next
    case (WStored k)
    with assms Wire obtain fs where i: "i = Rec fs" "stored_len fs \<noteq> None" "list_all value_wf fs"
        "sb_bytes k = stored_into fs []"
      by (auto simp: lends_def)
    then have "\<forall>f \<in> set fs. \<not> holds_end f" by (auto simp: stored_len_bytes split: if_splits)
    with i Wire WStored show ?thesis
      by (simp add: key_values_def as_int_def stored_bytes_of_def stored_into_bytes stored_values_written)
  qed
qed

lemma stored_into_cmp: "slice_cmp (stored_into a []) (stored_into b []) = rec_cmp a b"
  by (simp add: stored_into_bytes rec_fields_cmp)

lemma rec_cmp_Equal: "rec_cmp a b = Equal \<longleftrightarrow> list_all2 value_eq a b"
  by (induction a b rule: rec_cmp.induct) (auto simp: value_cmp_Equal [symmetric] split: ordering.splits)

lemma stored_into_eq: "stored_into a [] = stored_into b [] \<longleftrightarrow> list_all2 value_eq a b"
  using stored_into_cmp [of a b] slice_cmp_eq_iff rec_cmp_Equal by metis

lemma id_cmp_lent: "lends a i \<Longrightarrow> lends b j \<Longrightarrow> id_cmp a b = dbid_cmp i j"
  using lent_values [of a i] lent_values [of b j]
  by (cases i; cases j) (auto simp: id_cmp_def opt_cmp_def stored_into_cmp)

lemma eq_by_values_lent: "lends a i \<Longrightarrow> lends b j \<Longrightarrow> eq_by_values a b = dbid_eq i j"
  using lent_values [of a i] lent_values [of b j] by (cases i; cases j) (auto simp: eq_by_values_def)

lemma same_bytes_lent:
  assumes "lends (Wire (WRec x)) i" and "lends (Wire (WRec y)) j" and "same_bytes x y"
  shows "dbid_eq i j"
proof -
  obtain a b where ij: "i = Rec a" "j = Rec b" "list_all value_wf a" "list_all value_wf b"
      "wk_count x = length a" "wk_count y = length b" "wk_bytes x = concat (map wire_bytes a)"
      "wk_bytes y = concat (map wire_bytes b)" "length (wk_bytes x) < 2 ^ 64"
    using assms(1,2) by (auto simp: lends_def)
  with assms(3) have len: "length a = length b" and bytes: "concat (map wire_bytes a) = concat (map wire_bytes b)"
    by (simp_all add: same_bytes_def)
  have ok: "rd_ok (rd_new (wk_bytes x))" using ij(9) by (simp add: rd_ok_def rd_new_def)
  have "wire_values_from True (length a) (rd_new (wk_bytes x)) = a"
    using wire_values_written [OF ij(3) _ ok, of "[]"] values_fit [of a] ij by simp
  moreover have "wire_values_from True (length b) (rd_new (wk_bytes x)) = b"
  proof -
    have "list_all value_fits b" using values_fit [of b] ij(4,7,9) unfolding bytes by simp
    moreover have "unread (rd_new (wk_bytes x)) = concat (map wire_bytes b) @ []" by (simp add: ij(7) bytes)
    ultimately show ?thesis using wire_values_written [OF ij(4) _ ok] by blast
  qed
  ultimately have "a = b" by (metis len)
  with ij(1,2) show ?thesis by (simp add: list_all2_refl)
qed

lemma id_eq_cases:
  "(\<exists>x y. a = Owned x \<and> b = Owned y) \<or> (\<exists>x y. a = Wire (WRec x) \<and> b = Wire (WRec y))
   \<or> (\<exists>x y. a = Wire (WStored x) \<and> b = Wire (WStored y)) \<or> id_eq a b = eq_by_values a b"
proof (cases a)
  case (Wire w)
  then show ?thesis by (cases b; cases w) (simp_all add: id_eq_def split: wire_id.split)
qed (cases b; simp add: id_eq_def)

lemma id_eq_lent:
  assumes "lends a i" and "lends b j"
  shows "id_eq a b = dbid_eq i j"
proof -
  consider x y where "a = Owned x" "b = Owned y" | x y where "a = Wire (WRec x)" "b = Wire (WRec y)"
    | x y where "a = Wire (WStored x)" "b = Wire (WStored y)" | "id_eq a b = eq_by_values a b"
    using id_eq_cases by blast
  then show ?thesis
  proof cases
    case 1
    with assms show ?thesis by (simp add: id_eq_def lends_def)
  next
    case 2
    with assms same_bytes_lent show ?thesis using eq_by_values_lent [OF assms] by (auto simp: id_eq_def)
  next
    case 3
    with assms obtain fs gs where "i = Rec fs" "j = Rec gs" "sb_bytes x = stored_into fs []" "sb_bytes y = stored_into gs []"
      by (auto simp: lends_def)
    with 3 show ?thesis by (simp add: id_eq_def stored_into_eq)
  qed (simp add: eq_by_values_lent [OF assms])
qed

lemma probe_bytes_lent:
  assumes "lends p i"
  shows "probe_bytes p = None \<or> (\<exists>fs. i = Rec fs \<and> probe_bytes p = Some (stored_into fs []))"
proof (cases p)
  case (Owned j)
  with assms show ?thesis
    by (cases i) (auto simp: lends_def probe_bytes_def stored_bytes_of_def stored_bytes stored_into_bytes)
next
  case (Wire w)
  with assms lent_values [OF assms] show ?thesis
    by (cases i) (auto simp: probe_bytes_def split: option.splits)
qed

lemma stored_into_prefix: "stored_prefix (stored_into fs []) = fields_prefix fs"
  by (simp add: stored_prefix_u128 fields_prefix_u128 rec_bytes_def stored_into_bytes)

lemma dbid_cmp_Equal: "dbid_cmp a b = Equal \<longleftrightarrow> dbid_eq a b"
  by (cases a; cases b) (auto simp: rec_cmp_Equal)

lemma order_prefix_lent: "lends a i \<Longrightarrow> order_prefix_of a = order_prefix i"
  using lent_values [of a i]
  by (cases i) (auto simp: order_prefix_of_def order_prefix_def stored_into_prefix)

lemma id_hashed_lent: "lends a i \<Longrightarrow> id_hashed a = dbid_hashed i"
  using lent_values [of a i] by (cases i) (auto simp: id_hashed_def dbid_hashed_def)

lemma probe_lent:
  assumes "lends a i" and "lends b j"
  shows "cmp_slot a b = dbid_cmp j i" and "is_slot a b \<longleftrightarrow> dbid_cmp j i = Equal"
proof -
  have "cmp_slot a b = dbid_cmp j i \<and> is_slot a b = dbid_eq j i"
  proof (cases "stored_bytes_of b = None \<or> probe_bytes a = None")
    case True
    then show ?thesis using id_cmp_lent [OF assms(2,1)] id_eq_lent [OF assms(2,1)]
      by (auto simp: cmp_slot_def is_slot_def split: option.splits)
  next
    case False
    then obtain fs gs where "i = Rec fs" "probe_bytes a = Some (stored_into fs [])"
        "j = Rec gs" "stored_bytes_of b = Some (stored_into gs [])"
      using probe_bytes_lent [OF assms(1)] lent_values [OF assms(2)] by (cases j) auto
    then show ?thesis by (simp add: cmp_slot_def is_slot_def stored_into_cmp stored_into_eq)
  qed
  then show "cmp_slot a b = dbid_cmp j i" and "is_slot a b \<longleftrightarrow> dbid_cmp j i = Equal"
    by (simp_all add: dbid_cmp_Equal)
qed

text \<open>
  C15. An id lent from a page behaves as the id: whatever the forms two ids are lent in (owned,
  a number, the older form's values, keycode bytes), they compare, equal, hash and prefix as
  the owned ids do, and a probe finds a slot to be before, at or after it exactly when the
  ids are, although these take byte-comparing shortcuts.
\<close>

theorem lent_ids_agree:
  assumes "lends a i" and "lends b j"
  shows "id_cmp a b = dbid_cmp i j \<and> id_eq a b = dbid_eq i j \<and> id_hashed a = dbid_hashed i
    \<and> order_prefix_of a = order_prefix i
    \<and> cmp_slot a b = dbid_cmp j i \<and> (is_slot a b \<longleftrightarrow> dbid_cmp j i = Equal)"
  using assms by (simp add: id_cmp_lent id_eq_lent id_hashed_lent order_prefix_lent probe_lent)

theorem lent_ids_agree_witness:
  "id_cmp (Wire (wire_form (Rec [Str [0x61] 9]))) (Owned (IntId 5)) = Less
   \<and> cmp_slot (Owned (Rec [Str [0x62] 1])) (Wire (wire_form (Rec [Str [0x61] 9]))) = Less"
proof -
  have a: "lends (Wire (wire_form (Rec [Str [0x61] 9]))) (Rec [Str [0x61] 9])"
    by (rule lends_wire_form) (simp_all add: id_bytes_def stored_len_def stored_into_bytes put_varint.simps)
  have "lends (Owned (IntId 5)) (IntId 5)" "lends (Owned (Rec [Str [0x62] 1])) (Rec [Str [0x62] 1])"
    by (simp_all add: lends_def)
  from lent_ids_agree [OF a this(1)] lent_ids_agree [OF this(2) a] show ?thesis by simp
qed

section \<open>Sizes and flags\<close>

definition size_ok :: "serializer \<Rightarrow> tuple \<Rightarrow> bool" where
  "size_ok S t \<longleftrightarrow> t_serialized_size t = 0 \<or> t_serialized_size t = word_of_nat (encoded_len S t)"

lemma tuple_size_exact: "size_ok S t \<Longrightarrow> tuple_size S t = word_of_nat (encoded_len S t)"
  by (auto simp: tuple_size_def size_ok_def word_gt_0)

lemma encoded_len_upd [simp]:
  "encoded_len S (t\<lparr>t_flags := f\<rparr>) = encoded_len S t"
  "encoded_len S (t\<lparr>t_serialized_size := n\<rparr>) = encoded_len S t"
  by (simp_all add: encoded_len_def cong: dbid.case_cong option.case_cong)

lemma flag_bit: "flag_tombstoned f \<longleftrightarrow> bit f 2" "flag_index f \<longleftrightarrow> bit f 0"
proof -
  have "f AND 1 = 1 \<longleftrightarrow> bit f 0" by (simp add: and_one_eq bit_0 odd_iff_mod_2_eq_one)
  then show "flag_index f \<longleftrightarrow> bit f 0" by (simp add: flag_index_def)
  have "f AND push_bit 2 1 = (if bit f 2 then push_bit 2 1 else 0)"
    by (rule bit_word_eqI) (auto simp: bit_and_iff bit_push_bit_iff bit_1_iff simp del: push_bit_of_1 push_bit_numeral)
  moreover have "(push_bit 2 1 :: byte) \<noteq> 0" by simp
  ultimately show "flag_tombstoned f \<longleftrightarrow> bit f 2" unfolding flag_tombstoned_def by (metis (full_types))
qed

lemma flag_bits:
  fixes f :: byte
  shows "flag_tombstoned (f OR push_bit 2 1)" and "\<not> flag_tombstoned (f AND NOT (push_bit 2 1))"
    and "flag_index (f OR push_bit 2 1) = flag_index f" and "flag_index (f AND NOT (push_bit 2 1)) = flag_index f"
    and "flag_tombstoned (f OR 1) = flag_tombstoned f" and "flag_index (f OR 1)"
  unfolding flag_bit bit_or_iff bit_and_iff bit_not_iff bit_push_bit_iff bit_1_iff by simp_all

lemma t_flags_upd: "t_flags (t\<lparr>t_flags := f\<rparr>) = f"
  by simp

lemma tombstone_flags:
  "tuple_is_tombstoned (tombstone t)" "\<not> tuple_is_tombstoned (clear_tombstone t)"
  "tuple_is_index (tombstone t) = tuple_is_index t" "tuple_is_index (clear_tombstone t) = tuple_is_index t"
  "tuple_is_index (new_indexed S i d x)"
  unfolding tuple_is_tombstoned_def tombstone_def clear_tombstone_def tuple_is_index_def new_indexed_def Let_def
  by (simp_all only: t_flags_upd flag_bits not_False_eq_True)

text \<open>
  Bit 2 of the flags is the tombstone's. Setting or clearing it leaves the other bits, and the
  other fields.
\<close>

lemma tombstone_frame:
  "\<forall>k. bit (t_flags (tombstone t)) k = (k = 2 \<or> bit (t_flags t) k)"
  "\<forall>k. bit (t_flags (clear_tombstone t)) k = (k \<noteq> 2 \<and> bit (t_flags t) k)"
  "(tombstone t)\<lparr>t_flags := t_flags t\<rparr> = t" "(clear_tombstone t)\<lparr>t_flags := t_flags t\<rparr> = t"
proof -
  have two: "bit (push_bit 2 1 :: byte) k \<longleftrightarrow> k = 2" for k
    by (auto simp: bit_push_bit_iff bit_1_iff simp del: push_bit_of_1 push_bit_numeral)
  show "\<forall>k. bit (t_flags (tombstone t)) k = (k = 2 \<or> bit (t_flags t) k)"
    unfolding tombstone_def t_flags_upd bit_or_iff two by blast
  have "bit (t_flags t) k \<Longrightarrow> k < 8" for k using bit_imp_le_length [of "t_flags t" k] by simp
  then show "\<forall>k. bit (t_flags (clear_tombstone t)) k = (k \<noteq> 2 \<and> bit (t_flags t) k)"
    unfolding clear_tombstone_def t_flags_upd bit_and_iff bit_not_iff two by (auto simp: possible_bit_word)
qed (simp_all add: tombstone_def clear_tombstone_def)

text \<open>
  C16. A tuple's size is always the exact length of its encoding, through every way of making
  or changing one: the cached size is either right or marked unknown, and a change that could
  alter the length clears it. \<open>tombstone\<close> and \<open>clear_tombstone\<close> set and clear one bit of the flags;
  every other bit and every other field (id, data, transaction, pre-image, cached size) is left
  as it was.
\<close>

theorem tuple_size_invariant:
  shows "size_ok S (new_with S i d x p) \<and> size_ok S (new_indexed S i d x)
    \<and> size_ok S (set_txn_id n t) \<and> size_ok S (set_pre_lsn n t) \<and> size_ok S (set_pre_lsn_none t)
    \<and> size_ok S (set_data d t) \<and> size_ok S (wire_into_owned w)
    \<and> size_ok S (tombstone t) = size_ok S t \<and> size_ok S (clear_tombstone t) = size_ok S t
    \<and> (size_ok S t \<and> encode_into S t [] = Inr bs \<and> postcard_rules S \<longrightarrow> tuple_size S t = word_of_nat (length bs))
    \<and> is_same_txn (set_txn_id n t) m = (n = m)
    \<and> tuple_is_tombstoned (tombstone t) \<and> \<not> tuple_is_tombstoned (clear_tombstone t)
    \<and> tuple_is_index (tombstone t) = tuple_is_index t \<and> tuple_is_index (clear_tombstone t) = tuple_is_index t
    \<and> tuple_is_index (new_indexed S i d x)
    \<and> (\<forall>k. bit (t_flags (tombstone t)) k = (k = 2 \<or> bit (t_flags t) k))
    \<and> (\<forall>k. bit (t_flags (clear_tombstone t)) k = (k \<noteq> 2 \<and> bit (t_flags t) k))
    \<and> (tombstone t)\<lparr>t_flags := t_flags t\<rparr> = t \<and> (clear_tombstone t)\<lparr>t_flags := t_flags t\<rparr> = t"
  unfolding conj_assoc [symmetric]
  by (intro conjI tombstone_flags tombstone_frame) (auto simp: size_ok_def new_with_def new_indexed_def Let_def set_txn_id_def set_pre_lsn_def set_pre_lsn_none_def
      set_data_def wire_into_owned_def is_same_txn_def
      tuple_size_exact encode_into_bytes encoded_len_bytes tombstone_def clear_tombstone_def)

theorem tuple_size_invariant_witness:
  "tuple_size postcard (set_txn_id 300 (tuple_new postcard 5 [1])) = 9"
proof -
  define t where "t = set_txn_id 300 (tuple_new postcard 5 [1])"
  have "size_ok postcard t" by (simp add: t_def size_ok_def set_txn_id_def)
  moreover have enc: "encode_into postcard t [] = Inr [0, 5, 1, 0xAC, 2, 0, 1, 1, 0]"
    by (simp add: encode_into_bytes [OF postcard_ok] tuple_bytes_def t_def set_txn_id_def tuple_new_def new_with_def
        tuple_default_def Let_def id_bytes_def put_option_def put_varint.simps word_le_nat_alt)
  ultimately have "tuple_size postcard t = word_of_nat (length ([0, 5, 1, 0xAC, 2, 0, 1, 1, 0] :: bytes))"
    using tuple_size_invariant [of postcard _ _ _ _ _ t _ "[0, 5, 1, 0xAC, 2, 0, 1, 1, 0]"] postcard_ok by blast
  then show ?thesis by (simp add: t_def)
qed

section \<open>Bytes cut short\<close>

text \<open>
  A read that stays within its bytes, and would be the same with more bytes after them.
\<close>

definition more :: "bytes \<Rightarrow> reader \<Rightarrow> reader" where
  "more x r = r\<lparr>rd_bytes := rd_bytes r @ x\<rparr>"

definition local_read :: "(reader \<Rightarrow> ('a \<times> reader) option) \<Rightarrow> bool" where
  "local_read f \<longleftrightarrow> (\<forall>r v r'. f r = Some (v, r') \<longrightarrow>
     rd_bytes r' = rd_bytes r \<and> rd_pos r \<le> rd_pos r' \<and>
     (rd_pos r \<le> length (rd_bytes r) \<longrightarrow> rd_pos r' \<le> length (rd_bytes r)) \<and>
     (\<forall>x. f (more x r) = Some (v, more x r')))"

lemma local_read_simple [intro, simp]:
  "local_read (\<lambda>r. None)" "local_read (\<lambda>r. Some (v, r))"
  by (simp_all add: local_read_def)

lemma local_read_if [intro]: "local_read f \<Longrightarrow> local_read g \<Longrightarrow> local_read (\<lambda>r. if c then f r else g r)"
  by (cases c) simp_all

lemma local_readD:
  assumes "local_read f" and "f r = Some (v, r')"
  shows "rd_bytes r' = rd_bytes r" and "rd_pos r \<le> rd_pos r'"
    and "rd_pos r \<le> length (rd_bytes r) \<Longrightarrow> rd_pos r' \<le> length (rd_bytes r)"
    and "f (more x r) = Some (v, more x r')"
  using assms by (auto simp: local_read_def)

lemma local_read_bind [intro]:
  assumes f: "local_read f" and g: "\<And>a. local_read (g a)"
  shows "local_read (\<lambda>r. Option.bind (f r) (\<lambda>(a, r'). g a r'))"
  unfolding local_read_def
proof (intro allI impI)
  fix r v r'
  assume "Option.bind (f r) (\<lambda>(a, r'). g a r') = Some (v, r')"
  then obtain a r1 where 1: "f r = Some (a, r1)" and 2: "g a r1 = Some (v, r')"
    by (auto split: Option.bind_splits)
  note F = local_readD [OF f 1] and G = local_readD [OF g 2]
  show "rd_bytes r' = rd_bytes r \<and> rd_pos r \<le> rd_pos r' \<and>
     (rd_pos r \<le> length (rd_bytes r) \<longrightarrow> rd_pos r' \<le> length (rd_bytes r)) \<and>
     (\<forall>x. Option.bind (f (more x r)) (\<lambda>(a, r'). g a r') = Some (v, more x r'))"
    using F(1-3) G(1-3) by (simp add: F(4) G(4))
qed

lemma local_byte [intro, simp]: "local_read rd_byte"
  by (auto simp: local_read_def rd_byte_def get_at_def more_def nth_append split: if_splits Option.bind_splits)

lemma local_take [intro, simp]: "local_read (\<lambda>r. rd_take r n)"
  by (auto simp: local_read_def rd_take_def get_range_def more_def split: if_splits Option.bind_splits)

lemma local_varint_loop [intro, simp]: "local_read (rd_varint_loop n s out)"
proof (induction n arbitrary: s out)
  case (Suc n)
  show ?case unfolding rd_varint_loop.simps [abs_def] Let_def
    by (intro local_read_bind local_read_if local_byte local_read_simple Suc)
qed (simp add: local_read_def)

lemma local_varint [intro, simp]: "local_read rd_varint"
  unfolding rd_varint_def [abs_def]
  by (intro local_read_bind local_read_if local_byte local_varint_loop local_take local_read_simple)

lemma local_sized [intro, simp]: "local_read rd_sized"
  unfolding rd_sized_def [abs_def]
  by (intro local_read_bind local_read_if local_byte local_varint_loop local_take local_read_simple local_varint)

lemma local_option [intro, simp]: "local_read rd_option"
  unfolding rd_option_def [abs_def] by (intro local_read_bind local_read_if) auto

lemma local_fields: "local_read rd_fields"
  unfolding rd_fields_def [abs_def] by (intro local_read_bind) auto


lemma local_value: "local_read (rd_value True)"
  unfolding rd_value_def [abs_def] rd_signed_def if_True bind.bind_lunit
  by (intro local_read_bind local_read_if local_byte local_take local_sized local_varint local_read_simple)

lemma local_skip_values:
  assumes "rd_skip_values n r = Some r'"
  shows "rd_bytes r' = rd_bytes r \<and> rd_pos r \<le> rd_pos r' \<and>
     (rd_pos r \<le> length (rd_bytes r) \<longrightarrow> rd_pos r' \<le> length (rd_bytes r)) \<and>
     rd_skip_values n (more x r) = Some (more x r')"
  using assms
proof (induction n arbitrary: r)
  case (Suc n)
  then obtain v r1 where 1: "rd_value True r = Some (v, r1)" and 2: "rd_skip_values n r1 = Some r'"
    by (auto simp: rd_skip_value_eq split: Option.bind_splits)
  note F = local_readD [OF local_value 1]
  show ?case using F(1-3) Suc.IH [OF 2] by (simp add: rd_skip_value_eq F(4))
qed simp

lemma local_id_pos:
  assumes "rd_id r = Some (i, r')" and "rd_pos r \<le> length (rd_bytes r)"
  shows "rd_pos r' \<le> length (rd_bytes r) \<and> (\<exists>j. rd_id (more x r) = Some (j, more x r'))"
proof -
  obtain tag r1 where b: "rd_byte r = Some (tag, r1)"
    using assms(1) by (auto simp: rd_id_def split: Option.bind_splits)
  note B = local_readD [OF local_byte b]
  consider n where "tag = 0" "rd_varint r1 = Some (n, r')" | c where "tag = 2" "rd_sized r1 = Some (c, r')"
    | count r2 where "tag = 1" "rd_varint r1 = Some (count, r2)" "rd_skip_values (unat count) r2 = Some r'"
    using assms(1) b by (auto simp: rd_id_def Let_def split: Option.bind_splits if_splits)
  then show ?thesis
  proof cases
    case 1
    note V = local_readD [OF local_varint 1(2)]
    show ?thesis using 1 B(1-3) V(1-3) assms(2) by (simp add: rd_id_def B(4) V(4))
  next
    case 2
    note V = local_readD [OF local_sized 2(2)]
    show ?thesis using 2 B(1-3) V(1-3) assms(2) by (simp add: rd_id_def B(4) V(4))
  next
    case 3
    note V = local_readD [OF local_varint 3(2)] and W = local_skip_values [OF 3(3)]
    show ?thesis using 3 B(1-3) V(1-3) W assms(2) by (simp add: rd_id_def B(4) V(4) Let_def)
  qed
qed

text \<open>
  An encoded tuple cut short anywhere is an error: reading any proper prefix of a tuple's
  encoding fails with the malformed-tuple error, and never with a wrong tuple.
\<close>

theorem truncated_tuple_rejected:
  assumes "postcard_rules S" and "id_wf (t_id t)" and "encode_into S t [] = Inr bs"
    and "length bs < 2 ^ 64" and "n < length bs"
  shows "wire_read (take n bs) = Inl malformed"
proof (rule ccontr)
  define b x where "b = take n bs" and "x = drop n bs"
  have bs: "bs = tuple_bytes t" using assms(3) by (simp add: encode_into_bytes [OF assms(1)])
  have len: "length (tuple_bytes t) < 2 ^ 64" using assms(4) by (simp add: bs)
  have more: "more x (rd_new b) = rd_new bs" "more x \<lparr>rd_bytes = b, rd_pos = e\<rparr> = \<lparr>rd_bytes = bs, rd_pos = e\<rparr>" for e
    by (simp_all add: more_def rd_new_def b_def x_def)
  assume "wire_read (take n bs) \<noteq> Inl malformed"
  then obtain i r1 v r2 where id: "rd_id (rd_new b) = Some (i, r1)"
      and fields: "rd_fields \<lparr>rd_bytes = b, rd_pos = rd_pos r1\<rparr> = Some (v, r2)"
    by (auto simp: wire_read_def id_end_def read_after_def read_fields_rd_fields ok_or_def b_def
        split: option.splits Option.bind_splits)
  have new: "rd_pos (rd_new b) \<le> length (rd_bytes (rd_new b))" "rd_bytes (rd_new b) = b" by (simp_all add: rd_new_def)
  obtain j where pos: "rd_pos r1 \<le> length b" and "rd_id (rd_new bs) = Some (j, more x r1)"
    using local_id_pos [OF id new(1), of x] unfolding more(1) new(2) by blast
  then have e: "rd_pos r1 = length (id_bytes (t_id t))"
    using wire_read_written(1) [OF assms(2) len] by (simp add: id_end_def bs more_def)
  note F = local_readD [OF local_fields fields]
  have "more x r2 = \<lparr>rd_bytes = bs, rd_pos = length bs\<rparr>"
    using F(4) [of x] rd_fields_written [OF len] by (simp add: more e bs)
  from arg_cong [OF this, of rd_pos] have "rd_pos r2 = length bs" by (simp add: more_def)
  moreover have "rd_pos r2 \<le> length b" using F(3) pos by simp
  ultimately show False using assms(5) by (simp add: b_def)
qed

theorem truncated_tuple_rejected_witness:
  "wire_read (take 2 [0, 5, 0, 0, 1, 1, 0]) = Inl malformed"
proof -
  have "encode_into postcard (tuple_new postcard 5 [1]) [] = Inr [0, 5, 0, 0, 1, 1, 0]"
    by (simp add: encode_into_bytes [OF postcard_ok] tuple_bytes_def tuple_new_def new_with_def
        tuple_default_def Let_def id_bytes_def put_option_def put_varint.simps word_le_nat_alt)
  from truncated_tuple_rejected [OF postcard_ok _ this, of 2] show ?thesis
    by (simp add: tuple_new_def new_with_def Let_def tuple_default_def)
qed

end
