(* ===== verification/Slotted_Page.thy ===== *)
theory Slotted_Page
  imports Tuple_Wire
begin

text \<open>
  The slotted page of \<^verbatim>\<open>store/src/pages/slotted.rs\<close>, at the level of its buffer: a header (slot
  count, declared capacity), a directory of \<open>{offset, len}\<close> entries growing from the front in
  key order, and the tuples' encoded bytes packed from the back.

  The buffer is a byte list and every operation reads and writes it as the code does; the
  in-memory fields beside it (\<open>heap_start\<close>, \<open>dead_heap_bytes\<close>, the slots' order prefixes and
  id ends) are kept as the code keeps them. An operation on \<^verbatim>\<open>&mut self\<close> returns its result and
  the page. Reads past the end of the buffer (a panic in the code) read what is there; the
  invariant \<open>holds\<close> shows that they do not happen. \<open>S\<close> is the serializer and \<open>de\<close> postcard's
  reader of a tuple (\<^verbatim>\<open>postcard::from_bytes::<Tuple>\<close>), both parameters.
\<close>

unbundle bit_operations_syntax

section \<open>The buffer\<close>

abbreviation (input) HEADER_BYTES :: nat where "HEADER_BYTES \<equiv> 8"
abbreviation (input) SLOT_COUNT_BYTES :: nat where "SLOT_COUNT_BYTES \<equiv> 4"
abbreviation (input) SLOT_ENTRY_BYTES :: nat where "SLOT_ENTRY_BYTES \<equiv> 8"

record slot_entry =
  se_offset :: u32
  se_len :: u32

definition slice :: "bytes \<Rightarrow> nat \<Rightarrow> nat \<Rightarrow> bytes" where
  "slice buf at n = take n (drop at buf)"

definition copy_within :: "bytes \<Rightarrow> nat \<Rightarrow> nat \<Rightarrow> nat \<Rightarrow> bytes" where
  "copy_within buf src n dst = put_range buf dst (slice buf src n)"

definition read_u32 :: "bytes \<Rightarrow> nat \<Rightarrow> u32" where
  "read_u32 buf at = word_of_nat (of_le (slice buf at 4))"

definition write_u32 :: "bytes \<Rightarrow> nat \<Rightarrow> u32 \<Rightarrow> bytes" where
  "write_u32 buf at v = put_range buf at (le_bytes 4 (unat v))"

definition dir_offset :: "nat \<Rightarrow> nat" where
  "dir_offset idx = HEADER_BYTES + idx * SLOT_ENTRY_BYTES"

definition slot_entry_at :: "bytes \<Rightarrow> nat \<Rightarrow> slot_entry" where
  "slot_entry_at buf idx = (let at = dir_offset idx in
     \<lparr>se_offset = read_u32 buf at, se_len = read_u32 buf (at + 4)\<rparr>)"

definition write_slot_entry_at :: "bytes \<Rightarrow> nat \<Rightarrow> slot_entry \<Rightarrow> bytes" where
  "write_slot_entry_at buf idx e = (let at = dir_offset idx in
     write_u32 (write_u32 buf at (se_offset e)) (at + 4) (se_len e))"

definition blank_buffer :: "nat \<Rightarrow> nat \<Rightarrow> bytes" where
  "blank_buffer n declared_capacity =
     (let buf = replicate (max n HEADER_BYTES) 0;
          buf = write_u32 buf 0 0
      in write_u32 buf SLOT_COUNT_BYTES (word_of_nat declared_capacity))"

record slotted_page =
  sp_buf :: bytes
  sp_heap_start :: nat
  sp_dead :: nat
  sp_prefixes :: "u128 list"
  sp_id_ends :: "u32 list"

definition page_new :: "nat \<Rightarrow> slotted_page" where
  "page_new capacity = (let buf = blank_buffer capacity capacity in
     \<lparr>sp_buf = buf, sp_heap_start = length buf, sp_dead = 0, sp_prefixes = [], sp_id_ends = []\<rparr>)"

definition slot_count :: "slotted_page \<Rightarrow> nat" where
  "slot_count p = unat (read_u32 (sp_buf p) 0)"

definition set_slot_count :: "nat \<Rightarrow> slotted_page \<Rightarrow> slotted_page" where
  "set_slot_count n p = p\<lparr>sp_buf := write_u32 (sp_buf p) 0 (word_of_nat n)\<rparr>"

definition declared_capacity :: "slotted_page \<Rightarrow> nat" where
  "declared_capacity p = unat (read_u32 (sp_buf p) SLOT_COUNT_BYTES)"

definition dir_end :: "slotted_page \<Rightarrow> nat" where
  "dir_end p = dir_offset (slot_count p)"

definition slot :: "slotted_page \<Rightarrow> nat \<Rightarrow> slot_entry" where
  "slot p idx = slot_entry_at (sp_buf p) idx"

definition set_slot :: "nat \<Rightarrow> slot_entry \<Rightarrow> slotted_page \<Rightarrow> slotted_page" where
  "set_slot idx e p = p\<lparr>sp_buf := write_slot_entry_at (sp_buf p) idx e\<rparr>"

definition entry_bytes :: "bytes \<Rightarrow> slot_entry \<Rightarrow> bytes" where
  "entry_bytes buf e = slice buf (unat (se_offset e)) (unat (se_len e))"

definition record_of :: "slotted_page \<Rightarrow> nat \<Rightarrow> bytes" where
  "record_of p idx = entry_bytes (sp_buf p) (slot p idx)"

section \<open>Reading a page in\<close>

definition check_id :: "wire_id \<Rightarrow> serr + unit" where
  "check_id i =
     (case i of
        WRec k \<Rightarrow> wk_check k
      | WStored k \<Rightarrow> stored_check (sb_bytes k)
      | WInt _ \<Rightarrow> Inr ())"

text \<open>The loop of \<open>from_bytes\<close> over the slots \<open>idxs\<close>.\<close>

fun load_slots :: "bytes \<Rightarrow> nat \<Rightarrow> nat list \<Rightarrow> nat \<Rightarrow> nat \<Rightarrow> u128 list \<Rightarrow> u32 list
    \<Rightarrow> serr + (nat \<times> nat \<times> u128 list \<times> u32 list)" where
  "load_slots buf dend [] heap_start live_bytes prefixes id_ends =
     Inr (heap_start, live_bytes, prefixes, id_ends)"
| "load_slots buf dend (idx # idxs) heap_start live_bytes prefixes id_ends =
     (let e = slot_entry_at buf idx; off = unat (se_offset e); len = unat (se_len e) in
      if off < dend \<or> off + len > length buf then Inl (UnknownError ''slot out of bounds'')
      else
        let record = slice buf off len in
        r_bind (id_end record) (\<lambda>end.
        r_bind (tuple_id_ending record end) (\<lambda>i.
        r_bind (check_id i) (\<lambda>_.
          load_slots buf dend idxs (min heap_start off) (live_bytes + len)
            (prefixes @ [order_prefix_of (Wire i)]) (id_ends @ [word_of_nat end])))))"

definition page_from_bytes :: "bytes \<Rightarrow> serr + slotted_page" where
  "page_from_bytes bs =
     (if length bs < HEADER_BYTES then Inl (UnknownError ''buffer too small'')
      else
        let n = unat (read_u32 bs 0); dend = dir_offset n in
        if dend > length bs then Inl (UnknownError ''slot directory exceeds buffer'')
        else r_bind (load_slots bs dend [0..<n] (length bs) 0 [] [])
          (\<lambda>(heap_start, live_bytes, prefixes, id_ends).
             Inr \<lparr>sp_buf = bs, sp_heap_start = heap_start, sp_dead = (length bs - heap_start) - live_bytes,
               sp_prefixes = prefixes, sp_id_ends = id_ends\<rparr>))"

section \<open>Finding\<close>

definition decode_at :: "(bytes \<Rightarrow> serr + tuple) \<Rightarrow> slotted_page \<Rightarrow> nat \<Rightarrow> serr + tuple" where
  "decode_at de p idx = de (record_of p idx)"

definition id_at :: "slotted_page \<Rightarrow> nat \<Rightarrow> serr + id_ref" where
  "id_at p idx =
     r_bind (tuple_id_ending (record_of p idx) (unat (sp_id_ends p ! idx)))
       (\<lambda>i. Inr (Wire (wire_assume_checked i)))"

text \<open>One probe of a binary search: the prefixes, and the slot's id only where they tie.\<close>

definition probe_slot :: "slotted_page \<Rightarrow> id_ref \<Rightarrow> nat \<Rightarrow> serr + ordering" where
  "probe_slot p i mid =
     (case prefix_order (sp_prefixes p ! mid) (order_prefix_of i) of
        Some ord \<Rightarrow> Inr ord
      | None \<Rightarrow> r_bind (id_at p mid) (\<lambda>cand. Inr (cmp_slot i cand)))"

function search_loop :: "slotted_page \<Rightarrow> id_ref \<Rightarrow> (ordering \<Rightarrow> bool) \<Rightarrow> nat \<Rightarrow> nat \<Rightarrow> serr + nat" where
  "search_loop p i past lo hi =
     (if lo < hi then
        let mid = lo + (hi - lo) div 2 in
        (case probe_slot p i mid of
           Inl e \<Rightarrow> Inl e
         | Inr ord \<Rightarrow> if past ord then search_loop p i past lo mid else search_loop p i past (mid + 1) hi)
      else Inr lo)"
  by pat_completeness auto
termination
  by (relation "measure (\<lambda>(_, _, _, lo, hi). hi - lo)") (auto simp: Let_def)

declare search_loop.simps [simp del]

definition search :: "slotted_page \<Rightarrow> id_ref \<Rightarrow> (ordering \<Rightarrow> bool) \<Rightarrow> serr + nat" where
  "search p i past = search_loop p i past 0 (length (sp_prefixes p))"

definition page_bound :: "slotted_page \<Rightarrow> dbid \<Rightarrow> bool \<Rightarrow> serr + nat" where
  "page_bound p i strict_greater =
     (if strict_greater then search p (Owned i) (\<lambda>ord. ord = Greater)
      else search p (Owned i) (\<lambda>ord. ord \<noteq> Less))"

definition page_lower_bound :: "slotted_page \<Rightarrow> dbid \<Rightarrow> serr + nat" where
  "page_lower_bound p i = page_bound p i False"

definition page_upper_bound :: "slotted_page \<Rightarrow> dbid \<Rightarrow> serr + nat" where
  "page_upper_bound p i = page_bound p i True"

definition after_last :: "slotted_page \<Rightarrow> dbid \<Rightarrow> serr + bool" where
  "after_last p i =
     (if length (sp_prefixes p) = 0 then Inr True
      else r_bind (probe_slot p (Owned i) (length (sp_prefixes p) - 1)) (\<lambda>ord. Inr (ord = Less)))"

fun find_exact_in :: "slotted_page \<Rightarrow> dbid \<Rightarrow> nat list \<Rightarrow> serr + nat option" where
  "find_exact_in p i [] = Inr None"
| "find_exact_in p i (idx # idxs) =
     r_bind (id_at p idx) (\<lambda>cand. if id_eq cand (Owned i) then Inr (Some idx) else find_exact_in p i idxs)"

text \<open>
  \<open>find_exact_ref\<close>: its binary search ends at a slot that is the id (\<open>Inl\<close>) or at a place
  (\<open>Inr\<close>), from which the run of tied slots is walked.
\<close>

function exact_loop :: "slotted_page \<Rightarrow> id_ref \<Rightarrow> nat \<Rightarrow> nat \<Rightarrow> serr + (nat + nat)" where
  "exact_loop p i lo hi =
     (if lo < hi then
        let mid = lo + (hi - lo) div 2 in
        (case prefix_order (sp_prefixes p ! mid) (order_prefix_of i) of
           Some Equal \<Rightarrow> Inr (Inl mid)
         | Some ord \<Rightarrow> if ord \<noteq> Less then exact_loop p i lo mid else exact_loop p i (mid + 1) hi
         | None \<Rightarrow>
             (case id_at p mid of
                Inl e \<Rightarrow> Inl e
              | Inr cand \<Rightarrow>
                  if is_slot i cand then Inr (Inl mid)
                  else if cmp_slot i cand \<noteq> Less then exact_loop p i lo mid
                  else exact_loop p i (mid + 1) hi))
      else Inr (Inr lo))"
  by pat_completeness auto
termination
  by (relation "measure (\<lambda>(_, _, lo, hi). hi - lo)") (auto simp: Let_def)

declare exact_loop.simps [simp del]

fun walk_run :: "slotted_page \<Rightarrow> id_ref \<Rightarrow> nat list \<Rightarrow> serr + nat option" where
  "walk_run p i [] = Inr None"
| "walk_run p i (idx # idxs) =
     (if prefix_order (sp_prefixes p ! idx) (order_prefix_of i) \<noteq> None then Inr None
      else r_bind (id_at p idx) (\<lambda>cand.
        if is_slot i cand then Inr (Some idx)
        else if cmp_slot i cand \<noteq> Equal then Inr None
        else walk_run p i idxs))"

definition find_exact_ref :: "slotted_page \<Rightarrow> id_ref \<Rightarrow> serr + nat option" where
  "find_exact_ref p i =
     r_bind (exact_loop p i 0 (length (sp_prefixes p))) (\<lambda>found.
       case found of
         Inl mid \<Rightarrow> Inr (Some mid)
       | Inr lo \<Rightarrow> walk_run p i [lo..<length (sp_prefixes p)])"

definition find_exact :: "slotted_page \<Rightarrow> dbid \<Rightarrow> serr + nat option" where
  "find_exact p i = find_exact_ref p (Owned i)"

section \<open>Room\<close>

definition contiguous_free :: "slotted_page \<Rightarrow> nat" where
  "contiguous_free p = sp_heap_start p - dir_end p"

definition fits_without_compaction :: "nat \<Rightarrow> slotted_page \<Rightarrow> bool" where
  "fits_without_compaction n p \<longleftrightarrow> contiguous_free p \<ge> SLOT_ENTRY_BYTES + n"

text \<open>The second loop of \<open>compact\<close>: every record, in slot order, below the last one written.\<close>

fun pack :: "(nat \<times> bytes) list \<Rightarrow> nat \<Rightarrow> bytes \<Rightarrow> nat \<times> bytes" where
  "pack [] cursor buf = (cursor, buf)"
| "pack ((idx, bs) # es) cursor buf =
     (let len = length bs; cursor = cursor - len;
          buf = put_range buf cursor bs;
          buf = write_slot_entry_at buf idx \<lparr>se_offset = word_of_nat cursor, se_len = word_of_nat len\<rparr>
      in pack es cursor buf)"

definition compact :: "slotted_page \<Rightarrow> slotted_page" where
  "compact p =
     (let entries = map (\<lambda>idx. (idx, record_of p idx)) [0..<slot_count p];
          (cursor, buf) = pack entries (length (sp_buf p)) (sp_buf p)
      in p\<lparr>sp_buf := buf, sp_heap_start := cursor, sp_dead := 0\<rparr>)"

definition grow_to_fit :: "nat \<Rightarrow> slotted_page \<Rightarrow> slotted_page" where
  "grow_to_fit n p =
     (let buf = blank_buffer (HEADER_BYTES + SLOT_ENTRY_BYTES + n) (declared_capacity p)
      in p\<lparr>sp_buf := buf, sp_heap_start := length buf, sp_dead := 0\<rparr>)"

definition shrink_to_normal :: "slotted_page \<Rightarrow> slotted_page" where
  "shrink_to_normal p =
     (if length (sp_buf p) = declared_capacity p then p
      else let buf = blank_buffer (declared_capacity p) (declared_capacity p)
           in p\<lparr>sp_buf := buf, sp_heap_start := length buf, sp_dead := 0\<rparr>)"

definition ensure_room :: "nat \<Rightarrow> slotted_page \<Rightarrow> (serr + unit) \<times> slotted_page" where
  "ensure_room n p =
     (if fits_without_compaction n p then (Inr (), p)
      else if slot_count p > 0 then
        let p = compact p in
        if fits_without_compaction n p then (Inr (), p) else (Inl PageCapacityError, p)
      else (Inr (), grow_to_fit n p))"

definition list_insert :: "nat \<Rightarrow> 'a \<Rightarrow> 'a list \<Rightarrow> 'a list" where
  "list_insert i x xs = take i xs @ x # drop i xs"

definition list_remove :: "nat \<Rightarrow> 'a list \<Rightarrow> 'a list" where
  "list_remove i xs = take i xs @ drop (Suc i) xs"

definition insert_at :: "nat \<Rightarrow> bytes \<Rightarrow> u128 \<Rightarrow> nat \<Rightarrow> slotted_page \<Rightarrow> slotted_page" where
  "insert_at idx encoded pre idend p =
     (let n = slot_count p; len = length encoded;
          shift_start = dir_offset idx; shift_len = (n - idx) * SLOT_ENTRY_BYTES;
          buf = (if shift_len > 0
                 then copy_within (sp_buf p) shift_start shift_len (shift_start + SLOT_ENTRY_BYTES) else sp_buf p);
          new_offset = sp_heap_start p - len;
          buf = put_range buf new_offset encoded;
          p = p\<lparr>sp_buf := buf, sp_heap_start := new_offset\<rparr>;
          p = set_slot idx \<lparr>se_offset = word_of_nat new_offset, se_len = word_of_nat len\<rparr> p;
          p = set_slot_count (n + 1) p
      in p\<lparr>sp_prefixes := list_insert idx pre (sp_prefixes p),
           sp_id_ends := list_insert idx (word_of_nat idend) (sp_id_ends p)\<rparr>)"

text \<open>The part of \<open>delete_slot\<close> after the tuple is decoded.\<close>

definition cut_slot :: "nat \<Rightarrow> slotted_page \<Rightarrow> slotted_page" where
  "cut_slot idx p =
     (let e = slot p idx; dead = sp_dead p + unat (se_len e); n = slot_count p;
          dst = dir_offset idx; src = dir_offset (idx + 1); len = (n - idx - 1) * SLOT_ENTRY_BYTES;
          p = p\<lparr>sp_dead := dead, sp_buf := (if len > 0 then copy_within (sp_buf p) src len dst else sp_buf p)\<rparr>;
          p = set_slot_count (n - 1) p
      in p\<lparr>sp_prefixes := list_remove idx (sp_prefixes p), sp_id_ends := list_remove idx (sp_id_ends p)\<rparr>)"

definition delete_slot :: "(bytes \<Rightarrow> serr + tuple) \<Rightarrow> nat \<Rightarrow> slotted_page \<Rightarrow> (serr + tuple) \<times> slotted_page" where
  "delete_slot de idx p =
     (case decode_at de p idx of
        Inl e \<Rightarrow> (Inl e, p)
      | Inr removed \<Rightarrow> (Inr removed, cut_slot idx p))"

section \<open>The page's operations\<close>

text \<open>\<^verbatim>\<open>impl PageTuple for SlottedPage\<close>.\<close>

definition page_count :: "slotted_page \<Rightarrow> serr + nat" where
  "page_count p = Inr (slot_count p)"

definition page_at :: "(bytes \<Rightarrow> serr + tuple) \<Rightarrow> slotted_page \<Rightarrow> nat \<Rightarrow> tuple option" where
  "page_at de p i = (if i < slot_count p then (case decode_at de p i of Inr t \<Rightarrow> Some t | Inl _ \<Rightarrow> None) else None)"

definition wt_assume_checked :: "wire_tuple \<Rightarrow> wire_tuple" where
  "wt_assume_checked w = w\<lparr>wt_id := wire_assume_checked (wt_id w)\<rparr>"

definition at_ref :: "slotted_page \<Rightarrow> nat \<Rightarrow> tuple_ref option" where
  "at_ref p i = do {
     idend \<leftarrow> get_at (sp_id_ends p) i;
     t \<leftarrow> read_fields (record_of p i) (unat idend);
     Some (LentWire (wt_assume_checked t)) }"

datatype 'a bnd = Included 'a | Excluded 'a | Unbounded

definition seek :: "slotted_page \<Rightarrow> dbid bnd \<Rightarrow> serr + nat" where
  "seek p lower =
     (case lower of
        Included k \<Rightarrow> page_lower_bound p k
      | Excluded k \<Rightarrow> page_upper_bound p k
      | Unbounded \<Rightarrow> Inr 0)"

definition add_place :: "slotted_page \<Rightarrow> dbid \<Rightarrow> serr + nat" where
  "add_place p i =
     r_bind (after_last p i) (\<lambda>after.
       if after then Inr (slot_count p)
       else
         r_bind (page_lower_bound p i) (\<lambda>lo.
         r_bind (page_upper_bound p i) (\<lambda>hi.
         r_bind (find_exact_in p i [lo..<hi]) (\<lambda>found.
           if found \<noteq> None then Inl (DuplicateKey i) else Inr lo))))"

definition page_add :: "serializer \<Rightarrow> tuple \<Rightarrow> slotted_page \<Rightarrow> (serr + unit) \<times> slotted_page" where
  "page_add S t p =
     (case add_place p (t_id t) of
        Inl e \<Rightarrow> (Inl e, p)
      | Inr lo \<Rightarrow>
        (case encode_into S t [] of
           Inl e \<Rightarrow> (Inl e, p)
         | Inr encoded \<Rightarrow>
           (case ensure_room (length encoded) p of
              (Inl e, p) \<Rightarrow> (Inl e, p)
            | (Inr _, p) \<Rightarrow>
              (case id_end encoded of
                 Inl e \<Rightarrow> (Inl e, p)
               | Inr e \<Rightarrow> (Inr (), insert_at lo encoded (order_prefix (t_id t)) e p)))))"

definition record_bytes :: "slotted_page \<Rightarrow> nat \<Rightarrow> bytes option" where
  "record_bytes p i = (if i < slot_count p then Some (record_of p i) else None)"

definition page_truncate :: "nat \<Rightarrow> slotted_page \<Rightarrow> (serr + unit) \<times> slotted_page" where
  "page_truncate n p =
     (let count = slot_count p in
      if n \<ge> count then (Inr (), p)
      else
        let dead = sum_list (map (\<lambda>i. unat (se_len (slot p i))) [n..<count]);
            p = set_slot_count n p
        in (Inr (), p\<lparr>sp_prefixes := take n (sp_prefixes p), sp_id_ends := take n (sp_id_ends p),
              sp_dead := sp_dead p + dead\<rparr>))"

definition append_encoded :: "bytes \<Rightarrow> slotted_page \<Rightarrow> (serr + unit) \<times> slotted_page" where
  "append_encoded encoded p =
     (case r_bind (id_end encoded) (\<lambda>e. r_bind (tuple_id_ending encoded e) (\<lambda>i. Inr (e, order_prefix_of (Wire i)))) of
        Inl e \<Rightarrow> (Inl e, p)
      | Inr (e, pre) \<Rightarrow>
        (case ensure_room (length encoded) p of
           (Inl err, p) \<Rightarrow> (Inl err, p)
         | (Inr _, p) \<Rightarrow> (Inr (), insert_at (slot_count p) encoded pre e p)))"

definition page_contains :: "slotted_page \<Rightarrow> dbid \<Rightarrow> serr + bool" where
  "page_contains p i = r_bind (find_exact p i) (\<lambda>found. Inr (found \<noteq> None))"

definition find_hinted_ref :: "slotted_page \<Rightarrow> id_ref \<Rightarrow> nat \<Rightarrow> serr + nat option" where
  "find_hinted_ref p i hint =
     (if hint < slot_count p then
        r_bind (id_at p hint) (\<lambda>cand. if id_eq cand i then Inr (Some hint) else find_exact_ref p i)
      else find_exact_ref p i)"

definition get_hinted :: "(bytes \<Rightarrow> serr + tuple) \<Rightarrow> slotted_page \<Rightarrow> dbid \<Rightarrow> nat \<Rightarrow> serr + (tuple \<times> nat) option" where
  "get_hinted de p i hint =
     r_bind (find_hinted_ref p (Owned i) hint) (\<lambda>found.
       case found of
         Some idx \<Rightarrow> r_bind (decode_at de p idx) (\<lambda>t. Inr (Some (t, idx)))
       | None \<Rightarrow> Inr None)"

definition page_get :: "(bytes \<Rightarrow> serr + tuple) \<Rightarrow> slotted_page \<Rightarrow> dbid \<Rightarrow> serr + tuple option" where
  "page_get de p i =
     r_bind (find_exact p i) (\<lambda>found.
       case found of
         Some idx \<Rightarrow> r_bind (decode_at de p idx) (\<lambda>t. Inr (Some t))
       | None \<Rightarrow> Inr None)"

text \<open>\<open>replace\<close>: in place when the new bytes fit the old span, else removed and added again.\<close>

definition replace_in_place ::
  "(bytes \<Rightarrow> serr + tuple) \<Rightarrow> nat \<Rightarrow> bytes \<Rightarrow> slotted_page \<Rightarrow> (serr + tuple) \<times> slotted_page" where
  "replace_in_place de idx encoded p =
     (let old_slot = slot p idx in
      case decode_at de p idx of
        Inl e \<Rightarrow> (Inl e, p)
      | Inr old \<Rightarrow>
          let off = unat (se_offset old_slot);
              p = p\<lparr>sp_buf := put_range (sp_buf p) off encoded,
                    sp_dead := sp_dead p + (unat (se_len old_slot) - length encoded)\<rparr>
          in (Inr old, set_slot idx \<lparr>se_offset = se_offset old_slot, se_len = word_of_nat (length encoded)\<rparr> p))"

definition replace_anew ::
  "(bytes \<Rightarrow> serr + tuple) \<Rightarrow> nat \<Rightarrow> dbid \<Rightarrow> bytes \<Rightarrow> slotted_page \<Rightarrow> (serr + tuple) \<times> slotted_page" where
  "replace_anew de idx i encoded p =
     (let max_reclaimable = contiguous_free p + sp_dead p + unat (se_len (slot p idx)) in
      if slot_count p > 1 \<and> max_reclaimable < length encoded then (Inl PageCapacityError, p)
      else
        (case delete_slot de idx p of
           (Inl e, p) \<Rightarrow> (Inl e, p)
         | (Inr old, p) \<Rightarrow>
           (case ensure_room (length encoded) p of
              (Inl e, p) \<Rightarrow> (Inl e, p)
            | (Inr _, p) \<Rightarrow>
              (case page_lower_bound p i of
                 Inl e \<Rightarrow> (Inl e, p)
               | Inr insert_idx \<Rightarrow>
                 (case id_end encoded of
                    Inl e \<Rightarrow> (Inl e, p)
                  | Inr e \<Rightarrow> (Inr old, insert_at insert_idx encoded (order_prefix i) e p))))))"

definition page_replace ::
  "serializer \<Rightarrow> (bytes \<Rightarrow> serr + tuple) \<Rightarrow> dbid \<Rightarrow> tuple \<Rightarrow> slotted_page \<Rightarrow> (serr + tuple) \<times> slotted_page" where
  "page_replace S de i t p =
     (case find_exact p i of
        Inl e \<Rightarrow> (Inl e, p)
      | Inr None \<Rightarrow> (Inl (KeyNotFound i), p)
      | Inr (Some idx) \<Rightarrow>
        (case encode_into S t [] of
           Inl e \<Rightarrow> (Inl e, p)
         | Inr encoded \<Rightarrow>
             if length encoded \<le> unat (se_len (slot p idx)) then replace_in_place de idx encoded p
             else replace_anew de idx i encoded p))"

definition page_remove :: "(bytes \<Rightarrow> serr + tuple) \<Rightarrow> dbid \<Rightarrow> slotted_page \<Rightarrow> (serr + tuple) \<times> slotted_page" where
  "page_remove de i p =
     (case find_exact p i of
        Inl e \<Rightarrow> (Inl e, p)
      | Inr None \<Rightarrow> (Inl (KeyNotFound i), p)
      | Inr (Some idx) \<Rightarrow>
        (case delete_slot de idx p of
           (Inl e, p) \<Rightarrow> (Inl e, p)
         | (Inr removed, p) \<Rightarrow> (Inr removed, if slot_count p = 0 then shrink_to_normal p else p)))"

fun collect_values :: "(bytes \<Rightarrow> serr + tuple) \<Rightarrow> slotted_page \<Rightarrow> nat list \<Rightarrow> serr + tuple list" where
  "collect_values de p [] = Inr []"
| "collect_values de p (i # is) =
     r_bind (decode_at de p i) (\<lambda>t. r_bind (collect_values de p is) (\<lambda>ts. Inr (t # ts)))"

definition page_values :: "(bytes \<Rightarrow> serr + tuple) \<Rightarrow> slotted_page \<Rightarrow> serr + tuple list" where
  "page_values de p = collect_values de p [0..<slot_count p]"

fun collect_keys :: "slotted_page \<Rightarrow> nat list \<Rightarrow> serr + u64 list" where
  "collect_keys p [] = Inr []"
| "collect_keys p (i # is) =
     r_bind (id_at p i) (\<lambda>k. r_bind (collect_keys p is) (\<lambda>ks. Inr (id_hashed k # ks)))"

definition page_keys :: "slotted_page \<Rightarrow> serr + u64 list" where
  "page_keys p = collect_keys p [0..<slot_count p]"

definition page_to_bytes :: "slotted_page \<Rightarrow> serr + bytes" where
  "page_to_bytes p = Inr (sp_buf p)"

definition page_clear :: "slotted_page \<Rightarrow> (serr + unit) \<times> slotted_page" where
  "page_clear p =
     (let buf = blank_buffer (declared_capacity p) (declared_capacity p)
      in (Inr (), p\<lparr>sp_buf := buf, sp_heap_start := length buf, sp_dead := 0, sp_prefixes := [], sp_id_ends := []\<rparr>))"

definition page_first :: "(bytes \<Rightarrow> serr + tuple) \<Rightarrow> slotted_page \<Rightarrow> serr + tuple option" where
  "page_first de p = (if slot_count p = 0 then Inr None else r_bind (decode_at de p 0) (\<lambda>t. Inr (Some t)))"

definition page_last :: "(bytes \<Rightarrow> serr + tuple) \<Rightarrow> slotted_page \<Rightarrow> serr + tuple option" where
  "page_last de p =
     (let n = slot_count p in if n = 0 then Inr None else r_bind (decode_at de p (n - 1)) (\<lambda>t. Inr (Some t)))"

definition page_successor :: "(bytes \<Rightarrow> serr + tuple) \<Rightarrow> slotted_page \<Rightarrow> dbid \<Rightarrow> serr + tuple option" where
  "page_successor de p i =
     r_bind (page_upper_bound p i) (\<lambda>idx.
       if idx < slot_count p then r_bind (decode_at de p idx) (\<lambda>t. Inr (Some t)) else Inr None)"

section \<open>Slices of a written buffer\<close>

lemma length_slice [simp]: "at + n \<le> length buf \<Longrightarrow> length (slice buf at n) = n"
  by (simp add: slice_def)

lemma slice_put_out:
  "at + length bs \<le> length buf \<Longrightarrow> off + n \<le> at \<or> at + length bs \<le> off \<Longrightarrow>
   slice (put_range buf at bs) off n = slice buf off n"
  by (auto simp: slice_def put_range_def min_def drop_take add.commute)

lemma slice_put_in:
  "at + length bs \<le> length buf \<Longrightarrow> at \<le> off \<Longrightarrow> off + n \<le> at + length bs \<Longrightarrow>
   slice (put_range buf at bs) off n = slice bs (off - at) n"
  by (simp add: slice_def put_range_def)

lemma slice_all [simp]: "slice bs 0 (length bs) = bs"
  by (simp add: slice_def)

lemma slice_put_same: "at + length bs \<le> length buf \<Longrightarrow> slice (put_range buf at bs) at (length bs) = bs"
  by (simp add: slice_put_in)

lemma slice_slice: "k + m \<le> n \<Longrightarrow> slice (slice buf at n) k m = slice buf (at + k) m"
  by (simp add: slice_def drop_take min_def add.commute)

lemma put_range_twice:
  "at + length a + length b \<le> length buf \<Longrightarrow>
   put_range (put_range buf at a) (at + length a) b = put_range buf at (a @ b)"
  by (simp add: put_range_def ac_simps)

lemma length_write_u32 [simp]: "at + 4 \<le> length buf \<Longrightarrow> length (write_u32 buf at v) = length buf"
  by (simp add: write_u32_def)

lemma read_write_u32 [simp]: "at + 4 \<le> length buf \<Longrightarrow> read_u32 (write_u32 buf at v) at = v"
  using slice_put_same [of at "le_bytes 4 (unat v)" buf] unat_u32_less [of v]
  by (simp add: read_u32_def write_u32_def)

lemma read_u32_cong: "slice a i 4 = slice b j 4 \<Longrightarrow> read_u32 a i = read_u32 b j"
  by (simp add: read_u32_def)

definition slot_bytes :: "slot_entry \<Rightarrow> bytes" where
  "slot_bytes e = le_bytes 4 (unat (se_offset e)) @ le_bytes 4 (unat (se_len e))"

lemma length_slot_bytes [simp]: "length (slot_bytes e) = 8"
  by (simp add: slot_bytes_def)

lemma write_slot_bytes:
  "dir_offset (Suc idx) \<le> length buf \<Longrightarrow> write_slot_entry_at buf idx e = put_range buf (dir_offset idx) (slot_bytes e)"
  using put_range_twice [of "dir_offset idx" "le_bytes 4 (unat (se_offset e))" "le_bytes 4 (unat (se_len e))" buf]
  by (simp add: write_slot_entry_at_def write_u32_def slot_bytes_def dir_offset_def)

lemma slot_entry_cong:
  "slice a (dir_offset i) 8 = slice b (dir_offset j) 8 \<Longrightarrow> slot_entry_at a i = slot_entry_at b j"
proof -
  assume eq: "slice a (dir_offset i) 8 = slice b (dir_offset j) 8"
  have "slice a (dir_offset i) 4 = slice b (dir_offset j) 4"
    using arg_cong [OF eq, of "\<lambda>x. slice x 0 4"] by (simp add: slice_slice)
  moreover have "slice a (dir_offset i + 4) 4 = slice b (dir_offset j + 4) 4"
    using arg_cong [OF eq, of "\<lambda>x. slice x 4 4"] by (simp add: slice_slice)
  ultimately show ?thesis by (simp add: slot_entry_at_def Let_def read_u32_def)
qed

lemma slot_entry_read:
  "slice buf (dir_offset i) 8 = slot_bytes e \<Longrightarrow> slot_entry_at buf i = e"
proof -
  assume eq: "slice buf (dir_offset i) 8 = slot_bytes e"
  have "slice buf (dir_offset i) 4 = le_bytes 4 (unat (se_offset e))"
    using arg_cong [OF eq, of "\<lambda>x. slice x 0 4"] by (simp add: slice_slice) (simp add: slice_def slot_bytes_def)
  moreover have "slice buf (dir_offset i + 4) 4 = le_bytes 4 (unat (se_len e))"
    using arg_cong [OF eq, of "\<lambda>x. slice x 4 4"] by (simp add: slice_slice) (simp add: slice_def slot_bytes_def)
  ultimately show ?thesis
    using unat_u32_less [of "se_offset e"] unat_u32_less [of "se_len e"]
    by (simp add: slot_entry_at_def Let_def read_u32_def)
qed

lemma dir_offset_mono: "i < j \<Longrightarrow> dir_offset i + 8 \<le> dir_offset j"
  by (simp add: dir_offset_def)

lemma dir_offset_simps [simp]: "dir_offset (Suc i) = dir_offset i + 8" "8 \<le> dir_offset i" "dir_offset 0 = 8"
  by (simp_all add: dir_offset_def)

lemma slot_after_write:
  assumes "dir_offset (Suc i) \<le> length buf"
  shows "slot_entry_at (write_slot_entry_at buf i e) j = (if j = i then e else slot_entry_at buf j)"
proof (cases "j = i")
  case True
  with assms slice_put_same [of "dir_offset i" "slot_bytes e" buf] show ?thesis
    by (simp add: write_slot_bytes slot_entry_read)
next
  case False
  then have "dir_offset j + 8 \<le> dir_offset i \<or> dir_offset i + 8 \<le> dir_offset j"
    using dir_offset_mono [of i j] dir_offset_mono [of j i] by linarith
  with assms False show ?thesis by (auto simp: write_slot_bytes intro!: slot_entry_cong slice_put_out)
qed

lemma slice_slot_write:
  "dir_offset (Suc i) \<le> length buf \<Longrightarrow> off + n \<le> dir_offset i \<or> dir_offset (Suc i) \<le> off \<Longrightarrow>
   slice (write_slot_entry_at buf i e) off n = slice buf off n"
  by (auto simp: write_slot_bytes intro!: slice_put_out)

lemma length_slot_write [simp]:
  "dir_offset (Suc i) \<le> length buf \<Longrightarrow> length (write_slot_entry_at buf i e) = length buf"
  by (simp add: write_slot_bytes)

lemma unat_u32_of_nat: "n < 2 ^ 32 \<Longrightarrow> unat (word_of_nat n :: u32) = n"
  by (simp add: unsigned_of_nat take_bit_nat_eq_self)

section \<open>The layout invariant\<close>

definition recs :: "slotted_page \<Rightarrow> bytes list" where
  "recs p = map (record_of p) [0..<slot_count p]"

definition off_of :: "slotted_page \<Rightarrow> nat \<Rightarrow> nat" where
  "off_of p i = unat (se_offset (slot p i))"

definition len_of :: "slotted_page \<Rightarrow> nat \<Rightarrow> nat" where
  "len_of p i = unat (se_len (slot p i))"

definition live :: "slotted_page \<Rightarrow> nat" where
  "live p = length (concat (recs p))"

text \<open>
  The directory ends before the heap begins; every slot's bytes are in the heap and overlap no
  other's; every byte of the heap is live or counted dead; the in-memory arrays are in step
  with the directory.
\<close>

definition layout :: "slotted_page \<Rightarrow> bool" where
  "layout p \<longleftrightarrow>
     length (sp_buf p) < 2 ^ 32 \<and> dir_end p \<le> sp_heap_start p \<and> sp_heap_start p \<le> length (sp_buf p)
   \<and> (\<forall>i < slot_count p. sp_heap_start p \<le> off_of p i \<and> off_of p i + len_of p i \<le> length (sp_buf p))
   \<and> (\<forall>i j. i < j \<longrightarrow> j < slot_count p \<longrightarrow> off_of p i + len_of p i \<le> off_of p j \<or> off_of p j + len_of p j \<le> off_of p i)
   \<and> sp_dead p + live p + sp_heap_start p = length (sp_buf p)
   \<and> length (sp_prefixes p) = slot_count p \<and> length (sp_id_ends p) = slot_count p"

lemma record_of_slice: "record_of p i = slice (sp_buf p) (off_of p i) (len_of p i)"
  by (simp add: record_of_def entry_bytes_def off_of_def len_of_def)

lemma length_recs [simp]: "length (recs p) = slot_count p"
  by (simp add: recs_def)

lemma recs_nth [simp]: "i < slot_count p \<Longrightarrow> recs p ! i = record_of p i"
  by (simp add: recs_def)

lemma layoutD:
  assumes "layout p"
  shows "length (sp_buf p) < 4294967296" "dir_end p \<le> sp_heap_start p" "sp_heap_start p \<le> length (sp_buf p)"
    "dir_offset (slot_count p) \<le> sp_heap_start p"
    "sp_dead p + live p + sp_heap_start p = length (sp_buf p)"
    "length (sp_prefixes p) = slot_count p" "length (sp_id_ends p) = slot_count p"
    "\<And>i. i < slot_count p \<Longrightarrow> sp_heap_start p \<le> off_of p i"
    "\<And>i. i < slot_count p \<Longrightarrow> off_of p i + len_of p i \<le> length (sp_buf p)"
    "\<And>i. i < slot_count p \<Longrightarrow> length (record_of p i) = len_of p i"
    "\<And>i j. i \<noteq> j \<Longrightarrow> i < slot_count p \<Longrightarrow> j < slot_count p \<Longrightarrow>
       off_of p i + len_of p i \<le> off_of p j \<or> off_of p j + len_of p j \<le> off_of p i"
proof -
  fix i j assume "i \<noteq> j" "i < slot_count p" "j < slot_count p"
  with assms show "off_of p i + len_of p i \<le> off_of p j \<or> off_of p j + len_of p j \<le> off_of p i"
    unfolding layout_def by (metis nat_neq_iff)
qed (use assms in \<open>auto simp: layout_def dir_end_def record_of_slice\<close>)

section \<open>Compaction\<close>

lemma concat_upt_Suc: "k \<le> i \<Longrightarrow> length (concat (map r [k..<Suc i])) = length (concat (map r [k..<i])) + length (r i)"
  by simp

lemma concat_upt_Cons: "k < n \<Longrightarrow> length (concat (map r [k..<n])) = length (r k) + length (concat (map r [Suc k..<n]))"
  by (simp add: upt_conv_Cons)

lemma concat_upt_mono:
  assumes "i \<le> n"
  shows "length (concat (map r [k..<i])) \<le> length (concat (map r [k..<n]))"
proof (cases "k \<le> i")
  case True
  with assms have "[k..<n] = [k..<i] @ [i..<n]" by (metis le_iff_add upt_add_eq_append)
  then show ?thesis by simp
qed simp

definition packed :: "(nat \<Rightarrow> bytes) \<Rightarrow> nat \<Rightarrow> nat \<Rightarrow> nat \<Rightarrow> bytes \<Rightarrow> bytes \<Rightarrow> bool" where
  "packed r k n c buf buf' \<longleftrightarrow>
     length buf' = length buf \<and> slice buf' 0 8 = slice buf 0 8
   \<and> (\<forall>off m. c \<le> off \<longrightarrow> slice buf' off m = slice buf off m)
   \<and> (\<forall>i < k. slot_entry_at buf' i = slot_entry_at buf i)
   \<and> (\<forall>i. k \<le> i \<longrightarrow> i < n \<longrightarrow>
        unat (se_offset (slot_entry_at buf' i)) = c - length (concat (map r [k..<Suc i]))
      \<and> unat (se_len (slot_entry_at buf' i)) = length (r i)
      \<and> slice buf' (c - length (concat (map r [k..<Suc i]))) (length (r i)) = r i)"

lemma pack_spec:
  assumes "dir_offset n + length (concat (map r [k..<n])) \<le> c" and "c \<le> length buf" and "length buf < 2 ^ 32"
  shows "\<exists>buf'. pack (map (\<lambda>i. (i, r i)) [k..<n]) c buf = (c - length (concat (map r [k..<n])), buf')
     \<and> packed r k n c buf buf'"
  using assms
proof (induction "n - k" arbitrary: k c buf)
  case 0
  then show ?case by (simp add: packed_def)
next
  case (Suc d)
  then have kn: "k < n" by simp
  define c1 buf1 e buf2 where "c1 = c - length (r k)" and "buf1 = put_range buf c1 (r k)"
    and "e = \<lparr>se_offset = word_of_nat c1, se_len = word_of_nat (length (r k))\<rparr>"
    and "buf2 = write_slot_entry_at buf1 k e"
  note cc = concat_upt_Cons [OF kn, of r]
  have fit: "c1 + length (r k) = c" "dir_offset n + length (concat (map r [Suc k..<n])) \<le> c1"
    using Suc.prems(1) cc by (simp_all add: c1_def)
  have dk: "dir_offset (Suc k) \<le> dir_offset n" "dir_offset (Suc k) \<le> c1"
    using dir_offset_mono [OF kn] fit by simp_all
  have len1: "length buf1 = length buf" using fit Suc.prems(2) by (simp add: buf1_def)
  have len2: "length buf2 = length buf" using len1 dk Suc.prems(2) fit by (simp add: buf2_def)
  have small: "c1 < 2 ^ 32" "length (r k) < 2 ^ 32" using fit Suc.prems(2,3) by simp_all
  have in1: "dir_offset (Suc k) \<le> length buf1" using dk fit Suc.prems(2) len1 by simp
  have slice2: "slice buf2 off m = slice buf1 off m" if "off + m \<le> dir_offset k \<or> dir_offset (Suc k) \<le> off" for off m
    unfolding buf2_def by (rule slice_slot_write [OF in1 that])
  have slice1: "slice buf1 off m = slice buf off m" if "off + m \<le> c1 \<or> c \<le> off" for off m
    unfolding buf1_def using that fit Suc.prems(2) by (intro slice_put_out) auto
  have ek: "slot_entry_at buf2 k = e" by (simp add: buf2_def slot_after_write [OF in1])
  have ei: "slot_entry_at buf2 i = slot_entry_at buf i" if "i < k" for i
  proof -
    have "slot_entry_at buf2 i = slot_entry_at buf1 i" using that by (simp add: buf2_def slot_after_write [OF in1])
    also have "\<dots> = slot_entry_at buf i"
      by (rule slot_entry_cong, rule slice1) (use that dir_offset_mono [OF that] dk in simp)
    finally show ?thesis .
  qed
  have rk: "slice buf2 c1 (length (r k)) = r k"
    using slice2 [of c1] dk slice_put_same [of c1 "r k" buf] fit Suc.prems(2) by (simp add: buf1_def)
  obtain buf' where p: "pack (map (\<lambda>i. (i, r i)) [Suc k..<n]) c1 buf2 = (c1 - length (concat (map r [Suc k..<n])), buf')"
      and ok: "packed r (Suc k) n c1 buf2 buf'"
  proof -
    have "d = n - Suc k" "c1 \<le> length buf2" "length buf2 < 2 ^ 32" using Suc.hyps(2) fit Suc.prems len2 by simp_all
    from Suc.hyps(1) [OF this(1) fit(2) this(2,3)] show thesis using that by blast
  qed
  have "pack (map (\<lambda>i. (i, r i)) [k..<n]) c buf = (c - length (concat (map r [k..<n])), buf')"
    using kn p cc by (simp add: upt_conv_Cons Let_def c1_def buf1_def e_def buf2_def)
  moreover have "packed r k n c buf buf'"
    unfolding packed_def
  proof (intro conjI allI impI)
    show "length buf' = length buf" using ok len2 by (simp add: packed_def)
    show "slice buf' 0 8 = slice buf 0 8"
      using ok slice2 [of 0 8] slice1 [of 0 8] dk by (simp add: packed_def)
    show "slice buf' off m = slice buf off m" if "c \<le> off" for off m
      using ok that slice2 [of off m] slice1 [of off m] dk fit by (simp add: packed_def)
    show "slot_entry_at buf' i = slot_entry_at buf i" if "i < k" for i
      using ok ei [OF that] that by (simp add: packed_def)
    fix i assume i: "k \<le> i" "i < n"
    have "unat (se_offset (slot_entry_at buf' i)) = c - length (concat (map r [k..<Suc i]))
        \<and> unat (se_len (slot_entry_at buf' i)) = length (r i)
        \<and> slice buf' (c - length (concat (map r [k..<Suc i]))) (length (r i)) = r i"
    proof (cases "i = k")
      case True
      have "slot_entry_at buf' k = e" "slice buf' c1 (length (r k)) = r k"
        using ok ek rk by (simp_all add: packed_def)
      with True small show ?thesis by (simp add: e_def unat_u32_of_nat) (simp add: c1_def)
    next
      case False
      with i have "c - length (concat (map r [k..<Suc i])) = c1 - length (concat (map r [Suc k..<Suc i]))"
        using concat_upt_Cons [of k "Suc i" r] by (simp only: c1_def diff_diff_left)
      with ok i False show ?thesis by (simp add: packed_def del: upt_Suc)
    qed
    then show "unat (se_offset (slot_entry_at buf' i)) = c - length (concat (map r [k..<Suc i]))"
      and "unat (se_len (slot_entry_at buf' i)) = length (r i)"
      and "slice buf' (c - length (concat (map r [k..<Suc i]))) (length (r i)) = r i" by blast+
  qed
  ultimately show ?case by blast
qed

lemma layoutI:
  assumes "length (sp_buf p) < 2 ^ 32" "dir_offset (slot_count p) \<le> sp_heap_start p"
    and "\<And>i. i < slot_count p \<Longrightarrow> sp_heap_start p \<le> off_of p i \<and> off_of p i + len_of p i \<le> length (sp_buf p)"
    and "\<And>i j. i < j \<Longrightarrow> j < slot_count p \<Longrightarrow> off_of p i + len_of p i \<le> off_of p j \<or> off_of p j + len_of p j \<le> off_of p i"
    and "sp_dead p + live p + sp_heap_start p = length (sp_buf p)"
    and "length (sp_prefixes p) = slot_count p" "length (sp_id_ends p) = slot_count p"
  shows "layout p"
  using assms by (auto simp: layout_def dir_end_def)

lemma live_recs: "live p = length (concat (map (record_of p) [0..<slot_count p]))"
  by (simp add: live_def recs_def)

lemma compact_layout:
  assumes "layout p"
  shows "layout (compact p)" and "recs (compact p) = recs p" and "slot_count (compact p) = slot_count p"
    and "declared_capacity (compact p) = declared_capacity p" and "length (sp_buf (compact p)) = length (sp_buf p)"
    and "sp_dead (compact p) = 0" and "sp_heap_start (compact p) = length (sp_buf p) - live p"
    and "sp_prefixes (compact p) = sp_prefixes p" and "sp_id_ends (compact p) = sp_id_ends p"
proof -
  note D = layoutD [OF assms]
  define n r where "n = slot_count p" and "r = record_of p"
  have lv: "length (concat (map r [0..<n])) = live p" by (simp add: live_recs n_def r_def)
  have room: "dir_offset n + live p \<le> length (sp_buf p)" using D(4,5) by (simp add: n_def)
  then obtain buf' where pk: "pack (map (\<lambda>i. (i, r i)) [0..<n]) (length (sp_buf p)) (sp_buf p) = (length (sp_buf p) - live p, buf')"
      and ok: "packed r 0 n (length (sp_buf p)) (sp_buf p) buf'"
    using pack_spec [of n r 0 "length (sp_buf p)" "sp_buf p"] D(1) by (auto simp: lv)
  have q: "compact p = p\<lparr>sp_buf := buf', sp_heap_start := length (sp_buf p) - live p, sp_dead := 0\<rparr>"
    using pk by (simp add: compact_def n_def r_def)
  have hdr: "slice buf' 0 8 = slice (sp_buf p) 0 8" and len: "length buf' = length (sp_buf p)"
    using ok by (simp_all add: packed_def)
  have "slice buf' 0 4 = slice (sp_buf p) 0 4" "slice buf' 4 4 = slice (sp_buf p) 4 4"
    using arg_cong [OF hdr, of "\<lambda>x. slice x 0 4"] arg_cong [OF hdr, of "\<lambda>x. slice x 4 4"] by (simp_all add: slice_slice)
  then show sc: "slot_count (compact p) = slot_count p" and dc: "declared_capacity (compact p) = declared_capacity p"
    by (simp_all add: q slot_count_def declared_capacity_def read_u32_def)
  show "length (sp_buf (compact p)) = length (sp_buf p)" "sp_dead (compact p) = 0"
    "sp_heap_start (compact p) = length (sp_buf p) - live p"
    "sp_prefixes (compact p) = sp_prefixes p" "sp_id_ends (compact p) = sp_id_ends p" by (simp_all add: q len)
  have L: "length (concat (map r [0..<Suc i])) \<le> live p" if "i < n" for i
    using concat_upt_mono [of "Suc i" n r 0] that by (simp add: lv del: upt_Suc)
  have at: "off_of (compact p) i = length (sp_buf p) - length (concat (map r [0..<Suc i]))"
      "len_of (compact p) i = length (r i)" "record_of (compact p) i = r i" if "i < n" for i
    using ok that
    by (simp_all add: packed_def q off_of_def len_of_def slot_def record_of_def entry_bytes_def del: upt_Suc)
  show recs: "recs (compact p) = recs p" using at(3) sc by (auto simp: recs_def n_def r_def)
  show "layout (compact p)"
  proof (rule layoutI)
    fix i assume "i < slot_count (compact p)"
    then have i: "i < n" by (simp add: sc n_def)
    with L [OF i] at [OF i] concat_upt_Suc [of 0 i r] room
    show "sp_heap_start (compact p) \<le> off_of (compact p) i \<and> off_of (compact p) i + len_of (compact p) i \<le> length (sp_buf (compact p))"
      by (simp add: q len del: upt_Suc)
  next
    fix i j assume ij: "i < j" "j < slot_count (compact p)"
    then have j: "j < n" by (simp add: sc n_def)
    have "length (concat (map r [0..<Suc i])) \<le> length (concat (map r [0..<j]))"
      using concat_upt_mono [of "Suc i" j r 0] ij by simp
    then have "off_of (compact p) j + len_of (compact p) j \<le> off_of (compact p) i"
      using at [OF j] at(1) [of i] ij L [OF j] j concat_upt_Suc [of 0 j r] room by (simp del: upt_Suc)
    then show "off_of (compact p) i + len_of (compact p) i \<le> off_of (compact p) j \<or> off_of (compact p) j + len_of (compact p) j \<le> off_of (compact p) i"
      by simp
  next
    have "live (compact p) = live p" using recs by (simp add: live_def)
    then show "sp_dead (compact p) + live (compact p) + sp_heap_start (compact p) = length (sp_buf (compact p))"
      using room by (simp add: q len)
  qed (use D room sc in \<open>simp_all add: q len n_def\<close>)
qed

section \<open>Inserting and deleting a slot\<close>

lemma nth_list_insert:
  "i \<le> length xs \<Longrightarrow> j \<le> length xs \<Longrightarrow>
   list_insert i x xs ! j = (if j < i then xs ! j else if j = i then x else xs ! (j - 1))"
  by (auto simp: list_insert_def nth_append nth_Cons')

lemma length_list_insert [simp]: "length (list_insert i x xs) = Suc (length xs)"
  by (simp add: list_insert_def)

lemma nth_list_remove:
  "i < length xs \<Longrightarrow> Suc j < length xs \<Longrightarrow> list_remove i xs ! j = (if j < i then xs ! j else xs ! Suc j)"
  by (auto simp: list_remove_def nth_append min_def)

lemma length_list_remove [simp]: "i < length xs \<Longrightarrow> length (list_remove i xs) = length xs - 1"
  by (simp add: list_remove_def)

lemma length_concat_insert: "length (concat (list_insert i x xs)) = length x + length (concat xs)"
proof -
  have "length (concat (list_insert i x xs)) = length x + length (concat (take i xs @ drop i xs))"
    unfolding list_insert_def by (simp del: append_take_drop_id)
  then show ?thesis by simp
qed

lemma length_concat_remove:
  assumes "i < length xs"
  shows "length (concat (list_remove i xs)) + length (xs ! i) = length (concat xs)"
proof -
  have "concat xs = concat (take i xs @ xs ! i # drop (Suc i) xs)" using id_take_nth_drop [OF assms] by simp
  then show ?thesis by (simp add: list_remove_def)
qed

lemma u32_count: "dir_offset n \<le> m \<Longrightarrow> m < 4294967296 \<Longrightarrow> unat (word_of_nat n :: u32) = n"
  by (rule unat_u32_of_nat) (simp add: dir_offset_def)

lemma insert_at_layout:
  fixes pre :: u128 and e :: nat
  assumes lay: "layout p" and idx: "idx \<le> slot_count p" and room: "8 + length enc \<le> contiguous_free p"
  defines "q \<equiv> insert_at idx enc pre e p"
  shows "layout q" and "recs q = list_insert idx enc (recs p)" and "slot_count q = Suc (slot_count p)"
    and "declared_capacity q = declared_capacity p" and "length (sp_buf q) = length (sp_buf p)"
    and "sp_prefixes q = list_insert idx pre (sp_prefixes p)"
    and "sp_id_ends q = list_insert idx (word_of_nat e) (sp_id_ends p)"
proof -
  note D = layoutD [OF lay]
  define n h where "n = slot_count p" and "h = sp_heap_start p - length enc"
  have h: "dir_offset (Suc n) \<le> h" "h + length enc = sp_heap_start p"
    using room D(4) by (simp_all add: contiguous_free_def dir_end_def n_def h_def)
  have hb: "sp_heap_start p \<le> length (sp_buf p)" "length (sp_buf p) < 4294967296" using D by simp_all
  define b1 where "b1 = (if (n - idx) * 8 > 0 then copy_within (sp_buf p) (dir_offset idx) ((n - idx) * 8) (dir_offset idx + 8) else sp_buf p)"
  define b2 where "b2 = put_range b1 h enc"
  define se where "se = \<lparr>se_offset = word_of_nat h :: u32, se_len = word_of_nat (length enc)\<rparr>"
  define b3 where "b3 = write_slot_entry_at b2 idx se"
  define b4 where "b4 = write_u32 b3 0 (word_of_nat (n + 1))"
  have q: "q = p\<lparr>sp_buf := b4, sp_heap_start := h, sp_prefixes := list_insert idx pre (sp_prefixes p),
      sp_id_ends := list_insert idx (word_of_nat e) (sp_id_ends p)\<rparr>"
    by (simp add: q_def insert_at_def Let_def set_slot_def set_slot_count_def b4_def b3_def b2_def b1_def se_def h_def n_def)
  have dirs: "dir_offset idx + 8 + (n - idx) * 8 = dir_offset (Suc n)" "dir_offset (Suc idx) \<le> dir_offset (Suc n)"
    using idx by (auto simp: dir_offset_def n_def)
  define sh where "sh = slice (sp_buf p) (dir_offset idx) ((n - idx) * 8)"
  have sh: "length sh = (n - idx) * 8" using dirs h hb by (simp add: sh_def)
  have b1: "b1 = put_range (sp_buf p) (dir_offset idx + 8) sh"
  proof (cases "(n - idx) * 8 > 0")
    case True
    then show ?thesis by (simp add: b1_def copy_within_def sh_def)
  next
    case False
    then have "n - idx = 0" by simp
    then show ?thesis by (simp add: b1_def sh_def slice_def put_range_def)
  qed
  have in1: "dir_offset idx + 8 + length sh \<le> length (sp_buf p)" using dirs h hb sh by simp
  have l1: "length b1 = length (sp_buf p)" using in1 by (simp add: b1)
  have l2: "length b2 = length (sp_buf p)" using h hb l1 by (simp add: b2_def)
  have in3: "dir_offset (Suc idx) \<le> length b2" using dirs h hb l2 by simp
  have l3: "length b3 = length (sp_buf p)" using in3 l2 by (simp add: b3_def)
  have l8: "8 \<le> length (sp_buf p)" using in1 by (simp add: dir_offset_def)
  have l4: "length b4 = length (sp_buf p)" using l3 l8 by (simp add: b4_def)
  have s4: "slice b4 off m = slice b3 off m" if "4 \<le> off" for off m
    unfolding b4_def write_u32_def using that l3 l8 by (intro slice_put_out) simp_all
  have heap: "slice b4 off m = slice (sp_buf p) off m" if "sp_heap_start p \<le> off" for off m
  proof -
    have "slice b4 off m = slice b3 off m" using s4 that h by (simp add: dir_offset_def)
    also have "\<dots> = slice b2 off m" unfolding b3_def using that h dirs in3 by (intro slice_slot_write) simp_all
    also have "\<dots> = slice b1 off m" unfolding b2_def using that h hb l1 by (intro slice_put_out) simp_all
    also have "\<dots> = slice (sp_buf p) off m" unfolding b1 using that h dirs sh in1 by (intro slice_put_out) simp_all
    finally show ?thesis .
  qed
  have new: "slice b4 h (length enc) = enc"
  proof -
    have "slice b4 h (length enc) = slice b3 h (length enc)" using s4 h by (simp add: dir_offset_def)
    also have "\<dots> = slice b2 h (length enc)" unfolding b3_def using h dirs in3 by (intro slice_slot_write) simp_all
    also have "\<dots> = enc" unfolding b2_def using h hb l1 by (intro slice_put_same) simp
    finally show ?thesis .
  qed
  have slot: "slot_entry_at b4 j = (if j < idx then slot p j else if j = idx then se else slot p (j - 1))" if "j < Suc n" for j
  proof -
    have dj: "dir_offset j + 8 \<le> dir_offset (Suc n)" using that dir_offset_mono [of j "Suc n"] by simp
    have 1: "slot_entry_at b4 j = slot_entry_at b3 j" by (rule slot_entry_cong, rule s4) (simp add: dir_offset_def)
    have 2: "slot_entry_at b3 j = (if j = idx then se else slot_entry_at b2 j)"
      unfolding b3_def by (rule slot_after_write [OF in3])
    have 3: "slot_entry_at b2 j = slot_entry_at b1 j"
      unfolding b2_def using dj h hb l1 by (intro slot_entry_cong slice_put_out) simp_all
    have 4: "slot_entry_at b1 j = slot p j" if "j < idx"
      unfolding b1 slot_def using dir_offset_mono [OF that] in1 by (intro slot_entry_cong slice_put_out) simp_all
    have 5: "slot_entry_at b1 j = slot p (j - 1)" if "idx < j"
    proof -
      have o: "dir_offset j = dir_offset idx + 8 + (j - 1 - idx) * 8" "dir_offset (j - 1) = dir_offset idx + (j - 1 - idx) * 8"
        using that by (auto simp: dir_offset_def diff_mult_distrib)
      have lt: "(j - 1 - idx) * 8 + 8 \<le> (n - idx) * 8" using that \<open>j < Suc n\<close> by (simp add: diff_mult_distrib)
      have "slice b1 (dir_offset j) 8 = slice sh ((j - 1 - idx) * 8) 8"
        unfolding b1 using o(1) lt sh in1 by (subst slice_put_in) simp_all
      also have "\<dots> = slice (sp_buf p) (dir_offset (j - 1)) 8" unfolding sh_def o(2) using lt by (rule slice_slice)
      finally show ?thesis unfolding slot_def by (rule slot_entry_cong)
    qed
    show ?thesis using 1 2 3 4 5 by auto
  qed
  have "Suc n < 4294967296" using h hb by (simp add: dir_offset_def)
  then have "read_u32 b4 0 = word_of_nat (Suc n)" "unat (word_of_nat (Suc n) :: u32) = Suc n"
    using l3 l8 by (simp_all add: b4_def unat_u32_of_nat del: of_nat_Suc)
  then show sc: "slot_count q = Suc (slot_count p)" by (simp add: q slot_count_def n_def [unfolded slot_count_def, symmetric])
  show "declared_capacity q = declared_capacity p"
  proof -
    have "slice b4 4 4 = slice b3 4 4" by (rule s4) simp
    also have "\<dots> = slice b2 4 4" unfolding b3_def using in3 by (intro slice_slot_write) simp_all
    also have "\<dots> = slice b1 4 4" unfolding b2_def using h hb l1 by (intro slice_put_out) (simp_all add: dir_offset_def)
    also have "\<dots> = slice (sp_buf p) 4 4" unfolding b1 using in1 by (intro slice_put_out) (simp_all add: dir_offset_def)
    finally show ?thesis by (simp add: q declared_capacity_def read_u32_def)
  qed
  show "length (sp_buf q) = length (sp_buf p)" "sp_prefixes q = list_insert idx pre (sp_prefixes p)"
    "sp_id_ends q = list_insert idx (word_of_nat e) (sp_id_ends p)" by (simp_all add: q l4)
  have sm: "h < 2 ^ 32" "length enc < 2 ^ 32" using h hb by simp_all
  have at: "off_of q j = (if j < idx then off_of p j else if j = idx then h else off_of p (j - 1))"
      "len_of q j = (if j < idx then len_of p j else if j = idx then length enc else len_of p (j - 1))" if "j < Suc n" for j
    using slot [OF that] sm by (simp_all add: off_of_def len_of_def slot_def q se_def unat_u32_of_nat)
  have rec: "record_of q j = (if j < idx then record_of p j else if j = idx then enc else record_of p (j - 1))" if "j < Suc n" for j
  proof -
    consider "j < idx" | "j = idx" | "idx < j" by linarith
    then show ?thesis
    proof cases
      case 1
      with at [OF that] heap D(8) [of j] idx show ?thesis by (simp add: record_of_slice q n_def)
    next
      case 2
      with at [OF that] new show ?thesis by (simp add: record_of_slice q)
    next
      case 3
      with at [OF that] heap D(8) [of "j - 1"] that show ?thesis by (simp add: record_of_slice q n_def)
    qed
  qed
  show recs: "recs q = list_insert idx enc (recs p)"
  proof (rule nth_equalityI)
    fix j assume "j < length (recs q)"
    then have j: "j < Suc n" by (simp add: sc n_def)
    then show "recs q ! j = list_insert idx enc (recs p) ! j"
      using idx rec [OF j] by (auto simp: sc n_def nth_list_insert)
  qed (simp add: sc)
  have live: "live q = live p + length enc" by (simp add: live_def recs length_concat_insert)
  show "layout q"
  proof (rule layoutI)
    fix i assume "i < slot_count q"
    then have i: "i < Suc n" by (simp add: sc n_def)
    have hq: "sp_heap_start q = h" "length (sp_buf q) = length (sp_buf p)" by (simp_all add: q l4)
    consider "i < idx" | "i = idx" | "idx < i" by linarith
    then show "sp_heap_start q \<le> off_of q i \<and> off_of q i + len_of q i \<le> length (sp_buf q)"
    proof cases
      case 1
      with at [OF i] D(8,9) [of i] h hb idx show ?thesis by (simp add: hq n_def)
    next
      case 2
      with at [OF i] h hb show ?thesis by (simp add: hq)
    next
      case 3
      with i have "i - 1 < slot_count p" by (simp add: n_def)
      with at [OF i] D(8,9) [OF this] 3 h hb show ?thesis by (simp add: hq)
    qed
  next
    fix i j assume "i < j" "j < slot_count q"
    then have ij: "i < Suc n" "j < Suc n" "i < j" by (simp_all add: sc n_def)
    consider "i = idx" | "j = idx" | "i \<noteq> idx" "j \<noteq> idx" by blast
    then show "off_of q i + len_of q i \<le> off_of q j \<or> off_of q j + len_of q j \<le> off_of q i"
    proof cases
      case 1
      with ij h D(8) [of "j - 1"] show ?thesis by (simp add: at n_def)
    next
      case 2
      with ij h D(8) [of i] show ?thesis by (simp add: at n_def)
    next
      case 3
      define f where "f k = (if k < idx then k else k - 1)" for k
      have "f i \<noteq> f j" "f i < slot_count p" "f j < slot_count p"
        using 3 ij idx by (auto simp: f_def n_def)
      from D(11) [OF this] show ?thesis using 3 ij by (auto simp: at f_def split: if_splits)
    qed
  qed (use D live h l4 sc in \<open>simp_all add: q n_def\<close>)
qed

lemma cut_slot_layout:
  assumes lay: "layout p" and idx: "idx < slot_count p"
  defines "q \<equiv> cut_slot idx p"
  shows "layout q" and "recs q = list_remove idx (recs p)" and "slot_count q = slot_count p - 1"
    and "declared_capacity q = declared_capacity p" and "length (sp_buf q) = length (sp_buf p)"
    and "sp_prefixes q = list_remove idx (sp_prefixes p)" and "sp_id_ends q = list_remove idx (sp_id_ends p)"
    and "sp_heap_start q = sp_heap_start p" and "sp_dead q = sp_dead p + len_of p idx"
proof -
  note D = layoutD [OF lay]
  define n where "n = slot_count p"
  have hb: "dir_offset n \<le> sp_heap_start p" "sp_heap_start p \<le> length (sp_buf p)" "length (sp_buf p) < 4294967296"
    using D by (simp_all add: n_def)
  define sh where "sh = slice (sp_buf p) (dir_offset (Suc idx)) ((n - idx - 1) * 8)"
  define b1 where "b1 = put_range (sp_buf p) (dir_offset idx) sh"
  define b2 where "b2 = write_u32 b1 0 (word_of_nat (n - 1))"
  have dirs: "dir_offset (Suc idx) + (n - idx - 1) * 8 = dir_offset n"
    using idx by (auto simp: dir_offset_def n_def)
  have sh: "length sh = (n - idx - 1) * 8" using dirs hb by (simp add: sh_def)
  have moved: "(if (n - idx - 1) * 8 > 0 then copy_within (sp_buf p) (dir_offset (idx + 1)) ((n - idx - 1) * 8) (dir_offset idx) else sp_buf p) = b1"
  proof (cases "(n - idx - 1) * 8 > 0")
    case True
    then show ?thesis by (simp add: b1_def copy_within_def sh_def)
  next
    case False
    then have "n - idx - 1 = 0" by simp
    then show ?thesis unfolding b1_def sh_def by (simp add: slice_def put_range_def)
  qed
  have q: "q = p\<lparr>sp_dead := sp_dead p + len_of p idx, sp_buf := b2,
      sp_prefixes := list_remove idx (sp_prefixes p), sp_id_ends := list_remove idx (sp_id_ends p)\<rparr>"
    unfolding q_def cut_slot_def Let_def n_def [symmetric] moved by (simp add: set_slot_count_def b2_def len_of_def)
  have in1: "dir_offset idx + length sh + 8 \<le> length (sp_buf p)" using dirs hb sh by simp
  have l1: "length b1 = length (sp_buf p)" using in1 by (simp add: b1_def)
  have l8: "8 \<le> length (sp_buf p)" using in1 by (simp add: dir_offset_def)
  have l2: "length b2 = length (sp_buf p)" using l1 l8 by (simp add: b2_def)
  have s2: "slice b2 off m = slice b1 off m" if "4 \<le> off" for off m
    unfolding b2_def write_u32_def using that l1 l8 by (intro slice_put_out) simp_all
  have s1: "slice b1 off m = slice (sp_buf p) off m" if "dir_offset n \<le> off \<or> off + m \<le> dir_offset idx" for off m
    unfolding b1_def using that dirs sh in1 by (intro slice_put_out) auto
  have slot: "slot q j = slot p (if j < idx then j else Suc j)" if "Suc j < n" for j
  proof -
    have 1: "slot q j = slot_entry_at b1 j"
      unfolding slot_def q by (simp, rule slot_entry_cong, rule s2) (simp add: dir_offset_def)
    show ?thesis
    proof (cases "j < idx")
      case True
      with dir_offset_mono [OF True] s1 show ?thesis
        unfolding 1 by (simp add: slot_def) (intro slot_entry_cong s1, simp)
    next
      case False
      then have o: "dir_offset j = dir_offset idx + (j - idx) * 8" "dir_offset (Suc j) = dir_offset (Suc idx) + (j - idx) * 8"
        by (auto simp: dir_offset_def diff_mult_distrib)
      have lt: "(j - idx) * 8 + 8 \<le> (n - idx - 1) * 8" using that False by (simp add: diff_mult_distrib)
      have "slice b1 (dir_offset j) 8 = slice sh ((j - idx) * 8) 8"
        unfolding b1_def o(1) using lt sh in1 by (subst slice_put_in) simp_all
      also have "\<dots> = slice (sp_buf p) (dir_offset (Suc j)) 8" unfolding sh_def o(2) using lt by (rule slice_slice)
      finally have "slot_entry_at b1 j = slot_entry_at (sp_buf p) (Suc j)" by (rule slot_entry_cong)
      with False show ?thesis unfolding 1 by (simp add: slot_def)
    qed
  qed
  have "read_u32 b2 0 = word_of_nat (n - 1)" "unat (word_of_nat (n - 1) :: u32) = n - 1"
    using l1 l8 hb by (auto simp: b2_def dir_offset_def intro!: unat_u32_of_nat)
  then show sc: "slot_count q = slot_count p - 1" by (simp add: q slot_count_def n_def [unfolded slot_count_def, symmetric])
  show "declared_capacity q = declared_capacity p"
    using s2 [of 4 4] s1 [of 4 4] by (simp add: q declared_capacity_def read_u32_def dir_offset_def)
  show "length (sp_buf q) = length (sp_buf p)" "sp_prefixes q = list_remove idx (sp_prefixes p)"
    "sp_id_ends q = list_remove idx (sp_id_ends p)" "sp_heap_start q = sp_heap_start p"
    "sp_dead q = sp_dead p + len_of p idx" by (simp_all add: q l2)
  define f where "f j = (if j < idx then j else Suc j)" for j
  have at: "off_of q j = off_of p (f j)" "len_of q j = len_of p (f j)" "f j < n" if "Suc j < n" for j
    using slot [OF that] that by (simp_all add: off_of_def len_of_def f_def)
  have rec: "record_of q j = record_of p (f j)" if "Suc j < n" for j
    using at [OF that] D(8) [of "f j"] hb s2 [of "off_of p (f j)"] s1 [of "off_of p (f j)"]
    by (simp add: record_of_slice q n_def dir_offset_def)
  show recs: "recs q = list_remove idx (recs p)"
  proof (rule nth_equalityI)
    fix j assume "j < length (recs q)"
    then have j: "Suc j < n" by (simp add: sc n_def)
    then show "recs q ! j = list_remove idx (recs p) ! j"
      using idx rec [OF j] by (auto simp: sc n_def nth_list_remove f_def)
  qed (use idx in \<open>simp add: sc\<close>)
  have live: "live q + len_of p idx = live p"
    using length_concat_remove [of idx "recs p"] idx D(10) [OF idx] by (simp add: live_def recs)
  show "layout q"
  proof (rule layoutI)
    fix i assume "i < slot_count q"
    then have i: "Suc i < n" by (simp add: sc n_def)
    then show "sp_heap_start q \<le> off_of q i \<and> off_of q i + len_of q i \<le> length (sp_buf q)"
      using at [OF i] D(8,9) [of "f i"] by (simp add: q l2 n_def)
  next
    fix i j assume "i < j" "j < slot_count q"
    then have ij: "Suc i < n" "Suc j < n" "i < j" by (simp_all add: sc n_def)
    then have "f i \<noteq> f j" by (auto simp: f_def)
    then show "off_of q i + len_of q i \<le> off_of q j \<or> off_of q j + len_of q j \<le> off_of q i"
      using D(11) [of "f i" "f j"] at [OF ij(1)] at [OF ij(2)] by (simp add: n_def)
  next
    show "dir_offset (slot_count q) \<le> sp_heap_start q" using hb(1) unfolding sc by (simp add: q dir_offset_def n_def)
  qed (use D live l2 sc idx in \<open>simp_all add: q\<close>)
qed

section \<open>Blank pages, overwriting and truncating\<close>

lemma blank_buffer_props:
  assumes "cap < 2 ^ 32"
  shows "length (blank_buffer n cap) = max n 8" and "read_u32 (blank_buffer n cap) 0 = 0"
    and "read_u32 (blank_buffer n cap) 4 = word_of_nat cap"
proof -
  define b0 b1 where "b0 = (replicate (max n 8) 0 :: bytes)" and "b1 = write_u32 b0 0 0"
  have b: "blank_buffer n cap = write_u32 b1 4 (word_of_nat cap)" by (simp add: blank_buffer_def Let_def b1_def b0_def)
  have l0: "length b0 = max n 8" by (simp add: b0_def)
  then have l1: "length b1 = max n 8" by (simp add: b1_def)
  then show "length (blank_buffer n cap) = max n 8" "read_u32 (blank_buffer n cap) 4 = word_of_nat cap" by (simp_all add: b)
  have "slice (blank_buffer n cap) 0 4 = slice b1 0 4"
    unfolding b write_u32_def [of b1] using l1 by (intro slice_put_out) simp_all
  then have "read_u32 (blank_buffer n cap) 0 = read_u32 b1 0" by (rule read_u32_cong)
  then show "read_u32 (blank_buffer n cap) 0 = 0" using l0 by (simp add: b1_def)
qed

lemma empty_layout:
  assumes "sp_buf p = blank_buffer n cap" and "cap < 2 ^ 32" and "n < 2 ^ 32"
    and "sp_heap_start p = length (sp_buf p)" and "sp_dead p = 0" and "sp_prefixes p = []" and "sp_id_ends p = []"
  shows "layout p" and "recs p = []" and "slot_count p = 0" and "declared_capacity p = cap"
    and "length (sp_buf p) = max n 8"
proof -
  note B = blank_buffer_props [OF assms(2), of n]
  show sc: "slot_count p = 0" and "declared_capacity p = cap" and len: "length (sp_buf p) = max n 8"
    using assms(1,2) B by (simp_all add: slot_count_def declared_capacity_def unat_u32_of_nat)
  then show recs: "recs p = []" by (simp add: recs_def)
  show "layout p"
    by (rule layoutI) (use assms sc len recs in \<open>auto simp: live_def\<close>)
qed

lemma overwrite_layout:
  assumes lay: "layout p" and idx: "idx < slot_count p" and fits: "length enc \<le> len_of p idx"
  defines "q \<equiv> set_slot idx \<lparr>se_offset = se_offset (slot p idx), se_len = word_of_nat (length enc)\<rparr>
    (p\<lparr>sp_buf := put_range (sp_buf p) (off_of p idx) enc, sp_dead := sp_dead p + (len_of p idx - length enc)\<rparr>)"
  shows "layout q" and "recs q = (recs p)[idx := enc]" and "slot_count q = slot_count p"
    and "declared_capacity q = declared_capacity p" and "length (sp_buf q) = length (sp_buf p)"
    and "sp_prefixes q = sp_prefixes p" and "sp_id_ends q = sp_id_ends p"
proof -
  note D = layoutD [OF lay]
  define n where "n = slot_count p"
  define se where "se = \<lparr>se_offset = se_offset (slot p idx), se_len = word_of_nat (length enc)\<rparr>"
  define b1 b2 where "b1 = put_range (sp_buf p) (off_of p idx) enc" and "b2 = write_slot_entry_at b1 idx se"
  have q: "q = p\<lparr>sp_buf := b2, sp_dead := sp_dead p + (len_of p idx - length enc)\<rparr>"
    by (simp add: q_def set_slot_def b2_def b1_def se_def)
  have io: "off_of p idx + length enc \<le> length (sp_buf p)" using D(9) [OF idx] fits by simp
  have di: "dir_offset (Suc j) \<le> sp_heap_start p" if "j < n" for j
    using D(4) dir_offset_mono [OF that] by (simp add: n_def)
  have l1: "length b1 = length (sp_buf p)" using io by (simp add: b1_def)
  have in1: "dir_offset (Suc idx) \<le> length b1" using di [of idx] idx D(3) l1 by (simp add: n_def)
  have l2: "length b2 = length (sp_buf p)" using in1 l1 by (simp add: b2_def)
  have s2: "slice b2 off m = slice b1 off m" if "off + m \<le> 8 \<or> sp_heap_start p \<le> off" for off m
    unfolding b2_def
  proof (rule slice_slot_write [OF in1])
    show "off + m \<le> dir_offset idx \<or> dir_offset (Suc idx) \<le> off"
      using that di [of idx] idx by (auto simp: n_def dir_offset_def)
  qed
  have s1: "slice b1 off m = slice (sp_buf p) off m" if "off + m \<le> off_of p idx \<or> off_of p idx + length enc \<le> off" for off m
    unfolding b1_def using that io by (intro slice_put_out) simp_all
  have heap: "sp_heap_start p \<le> off_of p idx" using D(8) [OF idx] .
  have hdr: "slice b2 off m = slice (sp_buf p) off m" if "off + m \<le> 8" for off m
    using that s2 [of off m] s1 [of off m] heap di [of idx] idx by (simp add: n_def dir_offset_def)
  show sc: "slot_count q = slot_count p" "declared_capacity q = declared_capacity p"
    using hdr [of 0 4] hdr [of 4 4] by (simp_all add: q slot_count_def declared_capacity_def read_u32_def)
  show "length (sp_buf q) = length (sp_buf p)" "sp_prefixes q = sp_prefixes p" "sp_id_ends q = sp_id_ends p"
    by (simp_all add: q l2)
  have "length enc < 2 ^ 32" using io D(1) by simp
  then have slot: "off_of q j = off_of p j" "len_of q j = (if j = idx then length enc else len_of p j)" if "j < n" for j
  proof -
    have "slot_entry_at b1 j = slot p j" unfolding slot_def
      using di [OF that] heap by (intro slot_entry_cong s1) simp
    moreover have "slot q j = slot_entry_at b2 j" by (simp add: q slot_def)
    ultimately have "slot q j = (if j = idx then se else slot p j)" by (simp add: b2_def slot_after_write [OF in1])
    with \<open>length enc < 2 ^ 32\<close> show "off_of q j = off_of p j" "len_of q j = (if j = idx then length enc else len_of p j)"
      by (simp_all add: off_of_def len_of_def se_def unat_u32_of_nat)
  qed
  have rec: "record_of q j = (if j = idx then enc else record_of p j)" if "j < n" for j
  proof (cases "j = idx")
    case True
    have "slice b2 (off_of p idx) (length enc) = enc"
      using s2 [of "off_of p idx" "length enc"] heap slice_put_same [OF io] by (simp add: b1_def)
    with True slot [OF that] show ?thesis by (simp add: record_of_slice q)
  next
    case False
    have "off_of p j + len_of p j \<le> off_of p idx \<or> off_of p idx + length enc \<le> off_of p j"
      using D(11) [OF False _ idx] that fits by (auto simp: n_def)
    then have "slice b2 (off_of p j) (len_of p j) = slice (sp_buf p) (off_of p j) (len_of p j)"
      using s2 [of "off_of p j"] s1 D(8) [of j] that by (simp add: n_def)
    with False slot [OF that] show ?thesis by (simp add: record_of_slice q)
  qed
  show recs: "recs q = (recs p)[idx := enc]"
    by (rule nth_equalityI) (use rec sc idx in \<open>auto simp: n_def nth_list_update\<close>)
  have live: "live q + (len_of p idx - length enc) = live p"
  proof -
    have "length (concat ((recs p)[idx := enc])) + len_of p idx = live p + length enc"
    proof -
      have "concat (recs p) = concat (take idx (recs p)) @ record_of p idx @ concat (drop (Suc idx) (recs p))"
        using id_take_nth_drop [of idx "recs p"] idx by (metis concat.simps(2) concat_append length_recs recs_nth)
      then show ?thesis using D(10) [OF idx] idx by (simp add: live_def upd_conv_take_nth_drop)
    qed
    with fits show ?thesis by (simp add: live_def recs)
  qed
  show "layout q"
  proof (rule layoutI)
    fix i assume "i < slot_count q"
    then have i: "i < n" by (simp add: sc n_def)
    then show "sp_heap_start q \<le> off_of q i \<and> off_of q i + len_of q i \<le> length (sp_buf q)"
      using slot [OF i] D(8,9) [of i] fits by (auto simp: q l2 n_def)
  next
    fix i j assume "i < j" "j < slot_count q"
    then have ij: "i < n" "j < n" "i \<noteq> j" by (simp_all add: sc n_def)
    then show "off_of q i + len_of q i \<le> off_of q j \<or> off_of q j + len_of q j \<le> off_of q i"
      using D(11) [OF ij(3)] fits by (auto simp: slot n_def)
  qed (use D live l2 sc in \<open>simp_all add: q\<close>)
qed

lemma truncate_layout:
  assumes lay: "layout p" and n: "n < slot_count p"
  defines "q \<equiv> snd (page_truncate n p)"
  shows "layout q" and "recs q = take n (recs p)" and "slot_count q = n"
    and "declared_capacity q = declared_capacity p" and "length (sp_buf q) = length (sp_buf p)"
    and "sp_prefixes q = take n (sp_prefixes p)" and "sp_id_ends q = take n (sp_id_ends p)"
proof -
  note D = layoutD [OF lay]
  define dead where "dead = sum_list (map (len_of p) [n..<slot_count p])"
  define b where "b = write_u32 (sp_buf p) 0 (word_of_nat n)"
  have q: "q = p\<lparr>sp_buf := b, sp_prefixes := take n (sp_prefixes p), sp_id_ends := take n (sp_id_ends p),
      sp_dead := sp_dead p + dead\<rparr>"
    using n by (simp add: q_def page_truncate_def Let_def set_slot_count_def b_def dead_def len_of_def [abs_def])
  have l8: "8 \<le> length (sp_buf p)" using D(3,4) by (simp add: dir_offset_def)
  have lb: "length b = length (sp_buf p)" using l8 by (simp add: b_def)
  have s: "slice b off m = slice (sp_buf p) off m" if "4 \<le> off" for off m
    unfolding b_def write_u32_def using that l8 by (intro slice_put_out) simp_all
  have "n < 2 ^ 32" using n D(1,3,4) by (simp add: dir_offset_def)
  then show sc: "slot_count q = n" using l8 by (simp add: q slot_count_def b_def unat_u32_of_nat)
  show "declared_capacity q = declared_capacity p" using s [of 4 4] by (simp add: q declared_capacity_def read_u32_def)
  show "length (sp_buf q) = length (sp_buf p)" "sp_prefixes q = take n (sp_prefixes p)"
    "sp_id_ends q = take n (sp_id_ends p)" by (simp_all add: q lb)
  have slot: "slot q j = slot p j" for j
    unfolding slot_def q by (simp, rule slot_entry_cong, rule s) (simp add: dir_offset_def)
  then have at: "off_of q j = off_of p j" "len_of q j = len_of p j" for j by (simp_all add: off_of_def len_of_def)
  have rec: "record_of q j = record_of p j" if "j < slot_count p" for j
    using s D(4) D(8) [OF that] by (simp add: record_of_slice at) (simp add: q dir_offset_def)
  show recs: "recs q = take n (recs p)"
    by (rule nth_equalityI) (use rec sc n in auto)
  have "live q + dead = live p"
  proof -
    have "dead = length (concat (drop n (recs p)))"
    proof -
      have "drop n (recs p) = map (record_of p) [n..<slot_count p]" by (simp add: recs_def drop_map)
      moreover have "map (length \<circ> record_of p) [n..<slot_count p] = map (len_of p) [n..<slot_count p]" using D(10) by simp
      ultimately show ?thesis by (simp only: dead_def length_concat map_map)
    qed
    moreover have "live p = length (concat (take n (recs p))) + length (concat (drop n (recs p)))"
      unfolding live_def by (metis append_take_drop_id concat_append length_append)
    ultimately show ?thesis by (simp add: live_def recs)
  qed
  moreover have "dir_offset n \<le> sp_heap_start p" using D(4) dir_offset_mono [OF n] by simp
  ultimately show "layout q"
    by (intro layoutI) (use D(1,3,5,6,7) D(8) D(9) D(11) n sc lb at in \<open>simp_all add: q\<close>)
qed

section \<open>Making room\<close>

lemma ensure_room_spec:
  assumes lay: "layout p" and m: "m + 16 < 2 ^ 32" and er: "ensure_room m p = (res, q)"
  shows "layout q" and "recs q = recs p" and "slot_count q = slot_count p"
    and "declared_capacity q = declared_capacity p" and "sp_prefixes q = sp_prefixes p" and "sp_id_ends q = sp_id_ends p"
    and "res = Inr () \<Longrightarrow> 8 + m \<le> contiguous_free q"
    and "slot_count p > 0 \<Longrightarrow> length (sp_buf q) = length (sp_buf p)"
    and "res = (if slot_count p = 0 \<or> dir_offset (slot_count p) + 8 + live p + m \<le> length (sp_buf p)
           then Inr () else Inl PageCapacityError)"
proof -
  note D = layoutD [OF lay]
  note C = compact_layout [OF lay]
  have free: "contiguous_free p + live p + dir_offset (slot_count p) \<le> length (sp_buf p)"
    using D(4,5) by (simp add: contiguous_free_def dir_end_def)
  have freec: "contiguous_free (compact p) = length (sp_buf p) - live p - dir_offset (slot_count p)"
    using C by (simp add: contiguous_free_def dir_end_def)
  consider (fits) "8 + m \<le> contiguous_free p" "res = Inr ()" "q = p"
    | (compacts) "0 < slot_count p" "8 + m \<le> contiguous_free (compact p)" "res = Inr ()" "q = compact p"
    | (full) "0 < slot_count p" "\<not> 8 + m \<le> contiguous_free (compact p)" "res = Inl PageCapacityError" "q = compact p"
    | (grows) "slot_count p = 0" "res = Inr ()" "q = grow_to_fit m p"
  proof -
    have "(res, q) = (if 8 + m \<le> contiguous_free p then (Inr (), p)
        else if 0 < slot_count p then
          (if 8 + m \<le> contiguous_free (compact p) then (Inr (), compact p) else (Inl PageCapacityError, compact p))
        else (Inr (), grow_to_fit m p))"
      using er unfolding ensure_room_def fits_without_compaction_def Let_def by (rule sym)
    note eq = this
    show thesis
    proof (cases "8 + m \<le> contiguous_free p")
      case True
      with eq show thesis by (intro that(1)) simp_all
    next
      case no: False
      show thesis
      proof (cases "slot_count p = 0")
        case True
        with eq no show thesis by (intro that(4)) simp_all
      next
        case False
        with eq no show thesis by (cases "8 + m \<le> contiguous_free (compact p)") (intro that(2,3); simp)+
      qed
    qed
  qed
  then have "layout q \<and> recs q = recs p \<and> slot_count q = slot_count p \<and> declared_capacity q = declared_capacity p
    \<and> sp_prefixes q = sp_prefixes p \<and> sp_id_ends q = sp_id_ends p \<and> (res = Inr () \<longrightarrow> 8 + m \<le> contiguous_free q)
    \<and> (slot_count p > 0 \<longrightarrow> length (sp_buf q) = length (sp_buf p))
    \<and> res = (if slot_count p = 0 \<or> dir_offset (slot_count p) + 8 + live p + m \<le> length (sp_buf p)
           then Inr () else Inl PageCapacityError)"
  proof cases
    case fits
    with lay free show ?thesis by simp
  next
    case compacts
    with C freec show ?thesis by simp
  next
    case full
    with C freec show ?thesis by simp
  next
    case grows
    then have rp: "recs p = []" "sp_prefixes p = []" "sp_id_ends p = []" using D(6,7) by (simp_all add: recs_def)
    have dc: "declared_capacity p < 2 ^ 32" using unat_u32_less by (simp add: declared_capacity_def)
    have "sp_buf q = blank_buffer (16 + m) (declared_capacity p)" "sp_heap_start q = length (sp_buf q)" "sp_dead q = 0"
        "sp_prefixes q = []" "sp_id_ends q = []"
      using rp by (simp_all add: grows(3) grow_to_fit_def Let_def)
    note E = empty_layout [OF this(1) dc _ this(2-5)]
    have "8 + m \<le> contiguous_free q"
      using E m \<open>sp_heap_start q = length (sp_buf q)\<close> by (simp add: contiguous_free_def dir_end_def)
    with E m rp grows(1,2) \<open>sp_prefixes q = []\<close> \<open>sp_id_ends q = []\<close> show ?thesis by simp
  qed
  then show "layout q" and "recs q = recs p" and "slot_count q = slot_count p"
    and "declared_capacity q = declared_capacity p" and "sp_prefixes q = sp_prefixes p" and "sp_id_ends q = sp_id_ends p"
    and "res = Inr () \<Longrightarrow> 8 + m \<le> contiguous_free q"
    and "slot_count p > 0 \<Longrightarrow> length (sp_buf q) = length (sp_buf p)"
    and "res = (if slot_count p = 0 \<or> dir_offset (slot_count p) + 8 + live p + m \<le> length (sp_buf p)
           then Inr () else Inl PageCapacityError)" by blast+
qed

end
