(* ===== verification/Slotted_Spec.thy ===== *)
theory Slotted_Spec
  imports Slotted_Page
begin

text \<open>
  What a slotted page promises (the \<^verbatim>\<open>PageTuple\<close> contract of \<^verbatim>\<open>store/src/pages/mod.rs\<close>), and that
  the page of \<open>Slotted_Page\<close> keeps it. A page \<open>holds\<close> a list of tuples sorted by id; finding,
  adding, replacing and removing are stated on that list. The contract is the locale
  \<open>tuple_page\<close>, interpreted on the slotted page; its clients' facts are proved in it once.
\<close>

section \<open>The order of ids\<close>

lemma dbid_cmp_slice: "dbid_cmp a b = slice_cmp (key_bytes a) (key_bytes b)"
  by (simp add: key_bytes_cmp)

lemma dbid_cmp_flip: "dbid_cmp b a = reverse_ord (dbid_cmp a b)"
  by (simp add: dbid_cmp_slice slice_cmp_reverse)

lemma dbid_cmp_refl [simp]: "dbid_cmp a a = Equal"
  by (simp add: dbid_cmp_slice)

lemma dbid_less_trans: "dbid_cmp a b = Less \<Longrightarrow> dbid_cmp b c = Less \<Longrightarrow> dbid_cmp a c = Less"
  unfolding dbid_cmp_slice by (rule slice_cmp_less_trans)

lemma dbid_equal_cong:
  "dbid_cmp a b = Equal \<Longrightarrow> dbid_cmp a c = dbid_cmp b c"
  "dbid_cmp a b = Equal \<Longrightarrow> dbid_cmp c a = dbid_cmp c b"
  unfolding dbid_cmp_slice by simp_all

lemma dbid_mono:
  assumes "dbid_cmp a b = Less"
  shows "dbid_cmp a c \<noteq> Less \<Longrightarrow> dbid_cmp b c = Greater" and "dbid_cmp b c = Less \<Longrightarrow> dbid_cmp a c = Less"
    and "dbid_cmp b c = Equal \<Longrightarrow> dbid_cmp a c = Less"
proof -
  show 1: "dbid_cmp b c = Less \<Longrightarrow> dbid_cmp a c = Less" using dbid_less_trans [OF assms] .
  show 2: "dbid_cmp b c = Equal \<Longrightarrow> dbid_cmp a c = Less" using dbid_equal_cong(2) [of b c a] assms by simp
  show "dbid_cmp a c \<noteq> Less \<Longrightarrow> dbid_cmp b c = Greater" using 1 2 by (cases "dbid_cmp b c") auto
qed

section \<open>What a page holds\<close>

definition sorted_ids :: "tuple list \<Rightarrow> bool" where
  "sorted_ids ts \<longleftrightarrow> sorted_wrt (\<lambda>a b. dbid_cmp (t_id a) (t_id b) = Less) ts"

definition id_len :: "tuple \<Rightarrow> nat" where
  "id_len t = length (id_bytes (t_id t))"

definition holds :: "slotted_page \<Rightarrow> tuple list \<Rightarrow> bool" where
  "holds p ts \<longleftrightarrow> layout p \<and> recs p = map tuple_bytes ts
     \<and> sp_prefixes p = map (\<lambda>t. order_prefix (t_id t)) ts
     \<and> sp_id_ends p = map (\<lambda>t. word_of_nat (id_len t)) ts
     \<and> (\<forall>t \<in> set ts. id_wf (t_id t)) \<and> sorted_ids ts"

definition at_key :: "tuple list \<Rightarrow> dbid \<Rightarrow> nat \<Rightarrow> ordering" where
  "at_key ts j i = dbid_cmp (t_id (ts ! i)) j"

lemma holds_count: "holds p ts \<Longrightarrow> slot_count p = length ts \<and> length (sp_prefixes p) = length ts"
  unfolding holds_def by (metis length_map length_recs)

lemma holds_nth:
  assumes "holds p ts" and "i < length ts"
  shows "record_of p i = tuple_bytes (ts ! i)" and "sp_prefixes p ! i = order_prefix (t_id (ts ! i))"
    and "unat (sp_id_ends p ! i) = id_len (ts ! i)" and "id_wf (t_id (ts ! i))"
    and "length (tuple_bytes (ts ! i)) < 2 ^ 32" and "len_of p i = length (tuple_bytes (ts ! i))"
proof -
  have n: "slot_count p = length ts" using holds_count [OF assms(1)] by simp
  have lay: "layout p" using assms(1) by (simp add: holds_def)
  note D = layoutD [OF lay]
  show rec: "record_of p i = tuple_bytes (ts ! i)"
    using assms n recs_nth [of i p] by (simp add: holds_def)
  show "sp_prefixes p ! i = order_prefix (t_id (ts ! i))" "id_wf (t_id (ts ! i))" using assms by (simp_all add: holds_def)
  show len: "len_of p i = length (tuple_bytes (ts ! i))" using D(10) [of i] n assms(2) rec by simp
  show small: "length (tuple_bytes (ts ! i)) < 2 ^ 32" using D(9) [of i] D(1) n assms(2) len by simp
  then have "id_len (ts ! i) < 2 ^ 32" by (simp add: tuple_bytes_def id_len_def)
  then show "unat (sp_id_ends p ! i) = id_len (ts ! i)" using assms by (simp add: holds_def unat_u32_of_nat)
qed

lemma id_at_lends:
  assumes "holds p ts" and "i < length ts"
  shows "\<exists>r. id_at p i = Inr r \<and> lends r (t_id (ts ! i))"
proof -
  note N = holds_nth [OF assms]
  have "length (id_bytes (t_id (ts ! i))) < 2 ^ 64" using N(5) by (simp add: tuple_bytes_def)
  then have "lends (Wire (wire_assume_checked (wire_form (t_id (ts ! i))))) (t_id (ts ! i))"
    using N(4) by (intro lends_wire_form)
  moreover have "id_ending (tuple_bytes (ts ! i)) (id_len (ts ! i)) = Some (wire_form (t_id (ts ! i)))"
    using id_ending_written [OF N(4)] N(5) by (simp add: tuple_bytes_def id_len_def)
  ultimately show ?thesis by (simp add: id_at_def N(1,3) tuple_id_ending_def)
qed

lemma probe_slot_cmp:
  assumes "holds p ts" and "i < length ts" and "lends a j"
  shows "probe_slot p a i = Inr (at_key ts j i)"
proof (cases "prefix_order (sp_prefixes p ! i) (order_prefix_of a)")
  case None
  obtain r where "id_at p i = Inr r" "lends r (t_id (ts ! i))" using id_at_lends [OF assms(1,2)] by blast
  with None probe_lent(1) [OF assms(3)] show ?thesis by (simp add: probe_slot_def at_key_def)
next
  case (Some c)
  then have "dbid_cmp (t_id (ts ! i)) j = c"
    using prefix_order_exact by (simp add: holds_nth(2) [OF assms(1,2)] order_prefix_lent [OF assms(3)])
  with Some show ?thesis by (simp add: probe_slot_def at_key_def)
qed

lemma at_key_mono:
  assumes "sorted_ids ts" and "i < k" and "k < length ts"
  shows "at_key ts j i \<noteq> Less \<Longrightarrow> at_key ts j k = Greater" and "at_key ts j k \<noteq> Greater \<Longrightarrow> at_key ts j i = Less"
proof -
  have "dbid_cmp (t_id (ts ! i)) (t_id (ts ! k)) = Less"
    using assms sorted_wrt_nth_less by (fastforce simp: sorted_ids_def)
  note M = dbid_mono [OF this, of j, folded at_key_def]
  show "at_key ts j i \<noteq> Less \<Longrightarrow> at_key ts j k = Greater" by (rule M(1))
  show "at_key ts j k \<noteq> Greater \<Longrightarrow> at_key ts j i = Less" using M(2,3) by (cases "at_key ts j k") auto
qed

section \<open>Binary search\<close>

definition upward :: "(ordering \<Rightarrow> bool) \<Rightarrow> bool" where
  "upward past \<longleftrightarrow> past Greater \<and> \<not> past Less"

lemma past_mono:
  assumes "sorted_ids ts" and "upward past" and "i \<le> k" and "k < length ts"
  shows "past (at_key ts j i) \<Longrightarrow> past (at_key ts j k)"
proof (cases "i = k")
  case False
  then have "i < k" using assms(3) by simp
  moreover assume "past (at_key ts j i)"
  ultimately show ?thesis
    using at_key_mono(1) [OF assms(1) _ assms(4), of i j] assms(2) by (metis upward_def)
qed simp

lemma search_loop_spec:
  assumes h: "holds p ts" and a: "lends a j" and up: "upward past"
  shows "hi \<le> length ts \<Longrightarrow> lo \<le> hi \<Longrightarrow>
    \<exists>r. search_loop p a past lo hi = Inr r \<and> lo \<le> r \<and> r \<le> hi
      \<and> (\<forall>i. lo \<le> i \<longrightarrow> i < r \<longrightarrow> \<not> past (at_key ts j i)) \<and> (\<forall>i. r \<le> i \<longrightarrow> i < hi \<longrightarrow> past (at_key ts j i))"
proof (induction "hi - lo" arbitrary: lo hi rule: less_induct)
  case less
  have sorted: "sorted_ids ts" using h by (simp add: holds_def)
  show ?case
  proof (cases "lo < hi")
    case False
    with less.prems show ?thesis by (subst search_loop.simps) auto
  next
    case True
    define mid where "mid = lo + (hi - lo) div 2"
    have mid: "lo \<le> mid" "mid < hi" using True by (simp_all add: mid_def)
    have probe: "probe_slot p a mid = Inr (at_key ts j mid)"
      using probe_slot_cmp [OF h _ a] mid less.prems by simp
    show ?thesis
    proof (cases "past (at_key ts j mid)")
      case True
      have eq: "search_loop p a past lo hi = search_loop p a past lo mid"
        using \<open>lo < hi\<close> True probe by (subst search_loop.simps) (simp add: Let_def mid_def)
      obtain r where "search_loop p a past lo mid = Inr r" "lo \<le> r" "r \<le> mid"
          "\<forall>i. lo \<le> i \<longrightarrow> i < r \<longrightarrow> \<not> past (at_key ts j i)" "\<forall>i. r \<le> i \<longrightarrow> i < mid \<longrightarrow> past (at_key ts j i)"
        using less.hyps [OF diff_less_mono [OF mid(2,1)]] mid less.prems by auto
      moreover have "past (at_key ts j i)" if "mid \<le> i" "i < hi" for i
        using past_mono [OF sorted up that(1) _ True] that(2) less.prems by simp
      ultimately show ?thesis unfolding eq using mid by (intro exI [of _ r]) (auto simp: not_le)
    next
      case False
      have eq: "search_loop p a past lo hi = search_loop p a past (mid + 1) hi"
        using \<open>lo < hi\<close> False probe by (subst search_loop.simps) (simp add: Let_def mid_def)
      obtain r where "search_loop p a past (mid + 1) hi = Inr r" "mid + 1 \<le> r" "r \<le> hi"
          "\<forall>i. mid + 1 \<le> i \<longrightarrow> i < r \<longrightarrow> \<not> past (at_key ts j i)" "\<forall>i. r \<le> i \<longrightarrow> i < hi \<longrightarrow> past (at_key ts j i)"
      proof -
        have "hi - (mid + 1) < hi - lo" using mid by simp
        from less.hyps [OF this] mid less.prems show thesis using that by auto
      qed
      moreover have "\<not> past (at_key ts j i)" if "i \<le> mid" for i
        using past_mono [OF sorted up that] False mid less.prems by auto
      ultimately show ?thesis unfolding eq using mid by (intro exI [of _ r]) (auto, metis not_less_eq_eq)
    qed
  qed
qed

lemma search_spec:
  assumes "holds p ts" and "lends a j" and "upward past"
  shows "\<exists>r. search p a past = Inr r \<and> r \<le> length ts
    \<and> (\<forall>i < r. \<not> past (at_key ts j i)) \<and> (\<forall>i. r \<le> i \<longrightarrow> i < length ts \<longrightarrow> past (at_key ts j i))"
  using search_loop_spec [OF assms, of "length ts" 0] holds_count [OF assms(1)] by (simp add: search_def)

lemma lends_owned: "id_wf j \<Longrightarrow> lends (Owned j) j"
  by (simp add: lends_def)

text \<open>How many of the page's ids are below \<open>j\<close>, and how many are not above it.\<close>

definition below :: "tuple list \<Rightarrow> dbid \<Rightarrow> nat" where
  "below ts j = length (filter (\<lambda>t. dbid_cmp (t_id t) j = Less) ts)"

definition upto_key :: "tuple list \<Rightarrow> dbid \<Rightarrow> nat" where
  "upto_key ts j = length (filter (\<lambda>t. dbid_cmp (t_id t) j \<noteq> Greater) ts)"

lemma filter_split_at:
  assumes "r \<le> length ts" and "\<forall>i < r. P (ts ! i)" and "\<forall>i. r \<le> i \<longrightarrow> i < length ts \<longrightarrow> \<not> P (ts ! i)"
  shows "filter P ts = take r ts"
proof -
  have "filter P (take r ts) = take r ts" using assms(1,2) by (auto simp: filter_id_conv in_set_conv_nth)
  moreover have "filter P (drop r ts) = []"
    using assms(1,3) by (auto simp: filter_empty_conv in_set_conv_nth)
  ultimately show ?thesis by (metis append_Nil2 append_take_drop_id filter_append)
qed

lemma lower_bound_below:
  assumes "holds p ts" and "id_wf j"
  shows "page_lower_bound p j = Inr (below ts j)"
proof -
  obtain r where r: "search p (Owned j) (\<lambda>ord. ord \<noteq> Less) = Inr r" "r \<le> length ts"
      "\<forall>i < r. at_key ts j i = Less" "\<forall>i. r \<le> i \<longrightarrow> i < length ts \<longrightarrow> at_key ts j i \<noteq> Less"
    using search_spec [OF assms(1) lends_owned [OF assms(2)], of "\<lambda>ord. ord \<noteq> Less"] by (auto simp: upward_def)
  then have "filter (\<lambda>t. dbid_cmp (t_id t) j = Less) ts = take r ts"
    by (intro filter_split_at) (auto simp: at_key_def)
  with r show ?thesis by (simp add: page_lower_bound_def page_bound_def below_def)
qed

lemma upper_bound_upto:
  assumes "holds p ts" and "id_wf j"
  shows "page_upper_bound p j = Inr (upto_key ts j)"
proof -
  obtain r where r: "search p (Owned j) (\<lambda>ord. ord = Greater) = Inr r" "r \<le> length ts"
      "\<forall>i < r. at_key ts j i \<noteq> Greater" "\<forall>i. r \<le> i \<longrightarrow> i < length ts \<longrightarrow> at_key ts j i = Greater"
    using search_spec [OF assms(1) lends_owned [OF assms(2)], of "\<lambda>ord. ord = Greater"] by (auto simp: upward_def)
  then have "filter (\<lambda>t. dbid_cmp (t_id t) j \<noteq> Greater) ts = take r ts"
    by (intro filter_split_at) (auto simp: at_key_def)
  with r show ?thesis by (simp add: page_upper_bound_def page_bound_def upto_key_def)
qed

section \<open>Exact search\<close>

text \<open>The place of \<open>j\<close>, if the page has it; there is one at most.\<close>

definition found_at :: "tuple list \<Rightarrow> dbid \<Rightarrow> nat option" where
  "found_at ts j = position (\<lambda>t. dbid_cmp (t_id t) j = Equal) ts"

lemma found_atI:
  assumes "sorted_ids ts" and "i < length ts" and "at_key ts j i = Equal"
  shows "found_at ts j = Some i"
proof (cases "found_at ts j")
  case None
  with assms(2,3) show ?thesis by (auto simp: found_at_def position_None at_key_def)
next
  case (Some k)
  then have k: "k < length ts" "at_key ts j k = Equal" using position_Some by (fastforce simp: found_at_def at_key_def)+
  then have "k = i"
    using at_key_mono(1) [OF assms(1), of i k j] at_key_mono(1) [OF assms(1), of k i j] assms(2,3)
    by (cases i k rule: linorder_cases) auto
  with Some show ?thesis by simp
qed

lemma found_at_None: "found_at ts j = None \<longleftrightarrow> (\<forall>i < length ts. at_key ts j i \<noteq> Equal)"
  by (auto simp: found_at_def position_None at_key_def all_set_conv_all_nth)

lemma found_atD: "found_at ts j = Some i \<Longrightarrow> i < length ts \<and> at_key ts j i = Equal"
  using position_Some by (fastforce simp: found_at_def at_key_def)

lemma probe_slot_cases:
  assumes "holds p ts" and "i < length ts" and "lends a j"
  shows "(\<exists>c. prefix_order (sp_prefixes p ! i) (order_prefix_of a) = Some c \<and> at_key ts j i = c)
    \<or> prefix_order (sp_prefixes p ! i) (order_prefix_of a) = None
      \<and> (\<exists>r. id_at p i = Inr r \<and> cmp_slot a r = at_key ts j i \<and> (is_slot a r \<longleftrightarrow> at_key ts j i = Equal))"
proof (cases "prefix_order (sp_prefixes p ! i) (order_prefix_of a)")
  case None
  obtain r where "id_at p i = Inr r" "lends r (t_id (ts ! i))" using id_at_lends [OF assms(1,2)] by blast
  with None probe_lent [OF assms(3)] show ?thesis by (simp add: at_key_def)
next
  case (Some c)
  then have "dbid_cmp (t_id (ts ! i)) j = c"
    using prefix_order_exact by (simp add: holds_nth(2) [OF assms(1,2)] order_prefix_lent [OF assms(3)])
  with Some show ?thesis by (simp add: at_key_def)
qed

lemma exact_loop_step:
  assumes "holds p ts" and "lends a j" and "lo < hi" and "hi \<le> length ts"
  defines "mid \<equiv> lo + (hi - lo) div 2"
  shows "exact_loop p a lo hi =
    (case at_key ts j mid of Equal \<Rightarrow> Inr (Inl mid) | Greater \<Rightarrow> exact_loop p a lo mid | Less \<Rightarrow> exact_loop p a (mid + 1) hi)"
proof -
  have "mid < length ts" using assms(3,4) by (simp add: mid_def)
  from probe_slot_cases [OF assms(1) this assms(2)] show ?thesis
    using assms(3) by (subst exact_loop.simps) (auto simp: Let_def mid_def [symmetric] split: ordering.splits)
qed

lemma exact_loop_spec:
  assumes h: "holds p ts" and a: "lends a j"
  shows "hi \<le> length ts \<Longrightarrow> lo \<le> hi \<Longrightarrow> (\<forall>i < lo. at_key ts j i = Less) \<Longrightarrow>
    (\<forall>i. hi \<le> i \<longrightarrow> i < length ts \<longrightarrow> at_key ts j i = Greater) \<Longrightarrow>
    (\<exists>i. exact_loop p a lo hi = Inr (Inl i) \<and> i < length ts \<and> at_key ts j i = Equal)
    \<or> (\<exists>r. exact_loop p a lo hi = Inr (Inr r) \<and> (\<forall>i < r. at_key ts j i = Less)
         \<and> (\<forall>i. r \<le> i \<longrightarrow> i < length ts \<longrightarrow> at_key ts j i = Greater))"
proof (induction "hi - lo" arbitrary: lo hi rule: less_induct)
  case less
  have sorted: "sorted_ids ts" using h by (simp add: holds_def)
  show ?case
  proof (cases "lo < hi")
    case False
    with less.prems show ?thesis by (subst exact_loop.simps, subst (2) exact_loop.simps) auto
  next
    case True
    define mid where "mid = lo + (hi - lo) div 2"
    have mid: "lo \<le> mid" "mid < hi" using True by (simp_all add: mid_def)
    have ml: "mid < length ts" using mid less.prems(1) by simp
    note step = exact_loop_step [OF h a True less.prems(1), folded mid_def]
    show ?thesis
    proof (cases "at_key ts j mid")
      case Less
      have "at_key ts j i = Less" if "i < mid + 1" for i
        using at_key_mono(2) [OF sorted _ ml, of i j] Less that by (cases "i = mid") auto
      moreover have "hi - (mid + 1) < hi - lo" using mid by simp
      ultimately show ?thesis using less.hyps [of hi "mid + 1"] less.prems mid by (simp add: step Less)
    next
      case Equal
      with ml show ?thesis by (simp add: step)
    next
      case Greater
      have "at_key ts j i = Greater" if "mid \<le> i" "i < length ts" for i
        using at_key_mono(1) [OF sorted _ that(2), of mid j] Greater that by (cases "i = mid") auto
      with less.hyps [OF diff_less_mono [OF mid(2,1)]] less.prems mid show ?thesis by (simp add: step Greater)
    qed
  qed
qed

lemma find_exact_ref_found:
  assumes "holds p ts" and "lends a j"
  shows "find_exact_ref p a = Inr (found_at ts j)"
proof -
  have sorted: "sorted_ids ts" and n: "length (sp_prefixes p) = length ts"
    using assms(1) holds_count [OF assms(1)] by (simp_all add: holds_def)
  consider (hit) i where "exact_loop p a 0 (length ts) = Inr (Inl i)" "i < length ts" "at_key ts j i = Equal"
    | (miss) r where "exact_loop p a 0 (length ts) = Inr (Inr r)" "\<forall>i < r. at_key ts j i = Less"
        "\<forall>i. r \<le> i \<longrightarrow> i < length ts \<longrightarrow> at_key ts j i = Greater"
    using exact_loop_spec [OF assms, of "length ts" 0] by auto
  then show ?thesis
  proof cases
    case hit
    with found_atI [OF sorted hit(2,3)] show ?thesis by (simp add: find_exact_ref_def n)
  next
    case miss
    have "found_at ts j = None" unfolding found_at_None
      by (metis miss(2,3) not_le ordering.distinct(1,5))
    moreover have "walk_run p a [r..<length ts] = Inr None"
    proof (cases "r < length ts")
      case True
      then have "at_key ts j r = Greater" using miss(3) by simp
      with True probe_slot_cases [OF assms(1) True assms(2)] show ?thesis
        by (auto simp: upt_conv_Cons)
    qed simp
    ultimately show ?thesis using miss(1) by (simp add: find_exact_ref_def n)
  qed
qed

lemma find_exact_found: "holds p ts \<Longrightarrow> id_wf j \<Longrightarrow> find_exact p j = Inr (found_at ts j)"
  by (simp add: find_exact_def find_exact_ref_found lends_owned)

section \<open>Adding\<close>

text \<open>What postcard reads back from a tuple's encoding: the tuple.\<close>

definition read_back :: "tuple \<Rightarrow> tuple" where
  "read_back t = t\<lparr>t_id := read_back_id (t_id t), t_serialized_size := 0\<rparr>"

definition postcard_reads :: "serializer \<Rightarrow> (bytes \<Rightarrow> serr + tuple) \<Rightarrow> bool" where
  "postcard_reads S de \<longleftrightarrow>
     (\<forall>t bs. id_wf (t_id t) \<longrightarrow> encode_into S t [] = Inr bs \<longrightarrow> length bs < 2 ^ 64 \<longrightarrow> de bs = Inr (read_back t))"

definition tuple_fits :: "tuple \<Rightarrow> bool" where
  "tuple_fits t \<longleftrightarrow> id_wf (t_id t) \<and> length (tuple_bytes t) + 16 < 2 ^ 32"

lemma decode_at_read:
  assumes "holds p ts" and "i < length ts" and "postcard_rules S" and "postcard_reads S de"
  shows "decode_at de p i = Inr (read_back (ts ! i))"
proof -
  note N = holds_nth [OF assms(1,2)]
  have "encode_into S (ts ! i) [] = Inr (tuple_bytes (ts ! i))" by (simp add: encode_into_bytes [OF assms(3)])
  with assms(4) N show ?thesis by (simp add: decode_at_def postcard_reads_def)
qed

lemma find_exact_in_find:
  assumes "holds p ts" and "id_wf j" and "\<forall>i \<in> set idxs. i < length ts"
  shows "find_exact_in p j idxs = Inr (find (\<lambda>i. at_key ts j i = Equal) idxs)"
  using assms(3)
proof (induction idxs)
  case (Cons i idxs)
  obtain r where r: "id_at p i = Inr r" "lends r (t_id (ts ! i))" using id_at_lends [OF assms(1)] Cons.prems by auto
  have "id_eq r (Owned j) \<longleftrightarrow> at_key ts j i = Equal"
    using id_eq_lent [OF r(2) lends_owned [OF assms(2)]] by (simp add: at_key_def dbid_cmp_Equal)
  with Cons r(1) show ?case by simp
qed simp

lemma below_at:
  assumes "sorted_ids ts"
  shows "take (below ts j) ts = filter (\<lambda>t. dbid_cmp (t_id t) j = Less) ts"
    and "below ts j \<le> length ts"
    and "i < length ts \<Longrightarrow> (i < below ts j \<longleftrightarrow> at_key ts j i = Less)"
proof -
  define P :: "tuple \<Rightarrow> bool" where "P t \<longleftrightarrow> dbid_cmp (t_id t) j = Less" for t
  have tw: "takeWhile P ts = filter P ts"
    using assms
  proof (induction ts)
    case (Cons t ts)
    show ?case
    proof (cases "P t")
      case False
      have "\<not> P u" if "u \<in> set ts" for u
        using Cons.prems that False dbid_less_trans [of "t_id t" "t_id u" j] by (auto simp: sorted_ids_def P_def)
      with False show ?thesis by (auto simp: filter_empty_conv)
    qed (use Cons in \<open>simp add: sorted_ids_def\<close>)
  qed simp
  then have b: "below ts j = length (takeWhile P ts)" by (simp add: below_def P_def [abs_def])
  show take: "take (below ts j) ts = filter (\<lambda>t. dbid_cmp (t_id t) j = Less) ts"
    using tw takeWhile_eq_take [of P ts] unfolding b P_def [abs_def] by simp
  show "below ts j \<le> length ts" by (simp add: below_def)
  show "i < below ts j \<longleftrightarrow> at_key ts j i = Less" if "i < length ts"
  proof
    assume "i < below ts j"
    then show "at_key ts j i = Less" using nth_mem [of i "takeWhile P ts"] set_takeWhileD [of _ P ts] takeWhile_nth [of i P ts]
      by (auto simp: b at_key_def P_def)
  next
    assume less: "at_key ts j i = Less"
    show "i < below ts j"
    proof (rule ccontr)
      assume "\<not> i < below ts j"
      then have le: "below ts j \<le> i" by simp
      then have lt: "below ts j < length ts" using that by simp
      then have "\<not> P (ts ! below ts j)" using nth_length_takeWhile [of P ts] by (simp add: b)
      then have "at_key ts j (below ts j) \<noteq> Less" by (simp add: P_def at_key_def)
      with less le have "below ts j < i" by (metis le_neq_implies_less)
      from at_key_mono(1) [OF assms this that] \<open>at_key ts j (below ts j) \<noteq> Less\<close> less show False by simp
    qed
  qed
qed

lemma found_in_run:
  assumes "sorted_ids ts" and "found_at ts j = Some i"
  shows "i = below ts j" and "Suc i = upto_key ts j"
proof -
  have i: "i < length ts" "at_key ts j i = Equal" using found_atD [OF assms(2)] by simp_all
  have same: "k < below ts j \<longleftrightarrow> k < i" if "k < length ts" for k
    using below_at(3) [OF assms(1) that, of j] at_key_mono [OF assms(1), of k i j] at_key_mono [OF assms(1), of i k j] i that
    by (cases k i rule: linorder_cases) auto
  show "i = below ts j" using same [of i] same [of "below ts j"] i(1) by (cases i "below ts j" rule: linorder_cases) auto
  have "filter (\<lambda>t. dbid_cmp (t_id t) j \<noteq> Greater) ts = take (Suc i) ts"
  proof (rule filter_split_at)
    show "\<forall>k < Suc i. dbid_cmp (t_id (ts ! k)) j \<noteq> Greater"
      using at_key_mono(2) [OF assms(1) _ i(1), of _ j] i(2) by (auto simp: less_Suc_eq at_key_def)
    show "\<forall>k. Suc i \<le> k \<longrightarrow> k < length ts \<longrightarrow> \<not> dbid_cmp (t_id (ts ! k)) j \<noteq> Greater"
      using at_key_mono(1) [OF assms(1), of i _ j] i(2) by (auto simp: at_key_def)
  qed (use i in simp)
  then show "Suc i = upto_key ts j" using i(1) by (simp add: upto_key_def)
qed

lemma add_place_spec:
  assumes h: "holds p ts" and j: "id_wf j"
  shows "add_place p j = (if found_at ts j = None then Inr (below ts j) else Inl (DuplicateKey j))"
proof -
  have sorted: "sorted_ids ts" and n: "slot_count p = length ts" "length (sp_prefixes p) = length ts"
    using h holds_count [OF h] by (simp_all add: holds_def)
  show ?thesis
  proof (cases "ts = []")
    case True
    then show ?thesis using n by (simp add: add_place_def after_last_def found_at_def below_def)
  next
    case False
    define l where "l = length ts - 1"
    have l: "l < length ts" using False by (simp add: l_def)
    have after: "after_last p j = Inr (at_key ts j l = Less)"
      using probe_slot_cmp [OF h l lends_owned [OF j]] False by (simp add: after_last_def n l_def)
    show ?thesis
    proof (cases "at_key ts j l = Less")
      case True
      have less: "at_key ts j i = Less" if "i < length ts" for i
        using at_key_mono(2) [OF sorted _ l, of i j] True that by (cases "i = l") (auto simp: l_def)
      then have "found_at ts j = None" by (simp add: found_at_None)
      moreover have "below ts j = length ts"
        using below_at(2) [OF sorted, of j] below_at(3) [OF sorted l, of j] True by (simp add: l_def)
      ultimately show ?thesis by (simp add: add_place_def after True n)
    next
      case notafter: False
      have up: "upto_key ts j \<le> length ts" by (simp add: upto_key_def)
      have fe: "find_exact_in p j [below ts j..<upto_key ts j]
          = Inr (find (\<lambda>i. at_key ts j i = Equal) [below ts j..<upto_key ts j])"
        by (rule find_exact_in_find [OF h j]) (use up in auto)
      show ?thesis
      proof (cases "found_at ts j")
        case None
        then have "find (\<lambda>i. at_key ts j i = Equal) [below ts j..<upto_key ts j] = None"
          using up by (auto simp: find_None_iff found_at_None)
        with None show ?thesis
          by (simp add: add_place_def after notafter lower_bound_below [OF h j] upper_bound_upto [OF h j] fe)
      next
        case (Some i)
        note r = found_in_run [OF sorted Some]
        have "[below ts j..<upto_key ts j] = [i]" by (simp add: r [symmetric])
        then have "find (\<lambda>i. at_key ts j i = Equal) [below ts j..<upto_key ts j] = Some i"
          using found_atD [OF Some] by simp
        with Some show ?thesis
          by (simp add: add_place_def after notafter lower_bound_below [OF h j] upper_bound_upto [OF h j] fe)
      qed
    qed
  qed
qed

text \<open>The abstract page: a list of tuples in ascending order of their ids.\<close>

definition ins_tuple :: "tuple \<Rightarrow> tuple list \<Rightarrow> tuple list" where
  "ins_tuple t ts = filter (\<lambda>u. dbid_cmp (t_id u) (t_id t) = Less) ts
     @ t # filter (\<lambda>u. dbid_cmp (t_id u) (t_id t) = Greater) ts"

lemma sorted_ins_tuple: "sorted_ids ts \<Longrightarrow> sorted_ids (ins_tuple t ts)"
proof -
  assume "sorted_ids ts"
  moreover have g: "dbid_cmp (t_id t) (t_id b) = Less" if "dbid_cmp (t_id b) (t_id t) = Greater" for b :: tuple
    using dbid_cmp_flip [of "t_id t" "t_id b"] that by simp
  moreover have "dbid_cmp (t_id a) (t_id b) = Less"
    if "dbid_cmp (t_id a) (t_id t) = Less" "dbid_cmp (t_id b) (t_id t) = Greater" for a b :: tuple
    using dbid_less_trans [OF that(1) g [OF that(2)]] .
  ultimately show ?thesis
    by (auto simp: sorted_ids_def ins_tuple_def sorted_wrt_append sorted_wrt_filter)
qed

lemma drop_below:
  assumes "sorted_ids ts" and "found_at ts j = None"
  shows "drop (below ts j) ts = filter (\<lambda>t. dbid_cmp (t_id t) j = Greater) ts"
proof -
  have none: "filter (\<lambda>t. dbid_cmp (t_id t) j = Greater) (take (below ts j) ts) = []"
    unfolding below_at(1) [OF assms(1)] by (simp add: filter_empty_conv)
  have all: "\<forall>t \<in> set (drop (below ts j) ts). dbid_cmp (t_id t) j = Greater"
  proof
    fix t assume "t \<in> set (drop (below ts j) ts)"
    then obtain k where "k < length ts - below ts j" "t = ts ! (below ts j + k)" by (auto simp: in_set_conv_nth)
    then obtain i where i: "below ts j \<le> i" "i < length ts" "t = ts ! i" by (metis add.commute le_add1 less_diff_conv)
    then have "at_key ts j i \<noteq> Less" "at_key ts j i \<noteq> Equal"
      using below_at(3) [OF assms(1), of i j] assms(2) by (auto simp: found_at_None)
    with i(3) show "dbid_cmp (t_id t) j = Greater" by (cases "at_key ts j i") (simp_all add: at_key_def)
  qed
  have "filter (\<lambda>t. dbid_cmp (t_id t) j = Greater) (take (below ts j) ts)
      @ filter (\<lambda>t. dbid_cmp (t_id t) j = Greater) (drop (below ts j) ts) = filter (\<lambda>t. dbid_cmp (t_id t) j = Greater) ts"
    by (simp only: filter_append [symmetric] append_take_drop_id)
  then show ?thesis unfolding none filter_True [OF all] append_Nil .
qed

lemma insert_below:
  "sorted_ids ts \<Longrightarrow> found_at ts (t_id t) = None \<Longrightarrow> list_insert (below ts (t_id t)) t ts = ins_tuple t ts"
  by (simp add: list_insert_def below_at(1) drop_below ins_tuple_def)

lemma map_list_insert: "map f (list_insert i x xs) = list_insert i (f x) (map f xs)"
  by (simp add: list_insert_def take_map drop_map)

lemma map_list_remove: "map f (list_remove i xs) = list_remove i (map f xs)"
  by (simp add: list_remove_def take_map drop_map)

lemma id_end_written: "tuple_fits t \<Longrightarrow> id_end (tuple_bytes t) = Inr (id_len t)"
  by (simp add: tuple_fits_def wire_read_written(1) id_len_def)

lemma holds_layout: "holds p ts \<Longrightarrow> layout p" "holds p ts \<Longrightarrow> sorted_ids ts"
  by (simp_all add: holds_def)

lemma holds_insert:
  assumes "holds p ts" and "i \<le> length ts" and "8 + length (tuple_bytes t) \<le> contiguous_free p"
    and "tuple_fits t" and "sorted_ids (list_insert i t ts)"
  shows "holds (insert_at i (tuple_bytes t) (order_prefix (t_id t)) (id_len t) p) (list_insert i t ts)"
proof -
  have "i \<le> slot_count p" using assms(2) holds_count [OF assms(1)] by simp
  note I = insert_at_layout [OF holds_layout(1) [OF assms(1)] this assms(3), of "order_prefix (t_id t)" "id_len t"]
  have "set (list_insert i t ts) \<subseteq> insert t (set ts)" by (auto simp: list_insert_def dest: in_set_takeD in_set_dropD)
  with assms I show ?thesis by (auto simp: holds_def map_list_insert tuple_fits_def)
qed

text \<open>A page with as many entries as a list of tuples needs.\<close>

definition has_room :: "slotted_page \<Rightarrow> tuple list \<Rightarrow> bool" where
  "has_room p ts \<longleftrightarrow> length ts = 1 \<or> dir_offset (length ts) + length (concat (map tuple_bytes ts)) \<le> length (sp_buf p)"

lemma live_holds: "holds p ts \<Longrightarrow> live p = length (concat (map tuple_bytes ts))"
  by (simp add: holds_def live_def)

lemma ensure_room_holds:
  assumes "holds p ts" and "tuple_fits t" and "ensure_room (length (tuple_bytes t)) p = (res, q)"
  shows "holds q ts" and "res = Inr () \<Longrightarrow> 8 + length (tuple_bytes t) \<le> contiguous_free q"
    and "res = (if has_room p (t # ts) then Inr () else Inl PageCapacityError)"
    and "declared_capacity q = declared_capacity p"
proof -
  have "length (tuple_bytes t) + 16 < 2 ^ 32" using assms(2) by (simp add: tuple_fits_def)
  note R = ensure_room_spec [OF holds_layout(1) [OF assms(1)] this assms(3)]
  show "holds q ts" using assms(1) R by (simp add: holds_def)
  show "res = Inr () \<Longrightarrow> 8 + length (tuple_bytes t) \<le> contiguous_free q" by (rule R(7))
  show "declared_capacity q = declared_capacity p" by (rule R(4))
  show "res = (if has_room p (t # ts) then Inr () else Inl PageCapacityError)"
    unfolding R(9) using holds_count [OF assms(1)] live_holds [OF assms(1)] by (simp add: has_room_def add.assoc add.commute)
qed

lemma page_add_spec:
  assumes h: "holds p ts" and S: "postcard_rules S" and t: "tuple_fits t"
  shows "\<exists>q. page_add S t p =
      (if found_at ts (t_id t) \<noteq> None then (Inl (DuplicateKey (t_id t)), q)
       else if has_room p (t # ts) then (Inr (), q) else (Inl PageCapacityError, q))
    \<and> holds q (if found_at ts (t_id t) = None \<and> has_room p (t # ts) then ins_tuple t ts else ts)"
proof -
  have j: "id_wf (t_id t)" using t by (simp add: tuple_fits_def)
  note place = add_place_spec [OF h j]
  show ?thesis
  proof (cases "found_at ts (t_id t)")
    case (Some i)
    with place h show ?thesis by (simp add: page_add_def)
  next
    case None
    obtain res q where er: "ensure_room (length (tuple_bytes t)) p = (res, q)" by fastforce
    note R = ensure_room_holds [OF h t er]
    show ?thesis
    proof (cases "has_room p (t # ts)")
      case True
      define i where "i = below ts (t_id t)"
      have "holds (insert_at i (tuple_bytes t) (order_prefix (t_id t)) (id_len t) q) (list_insert i t ts)"
        using R True t below_at(2) [OF holds_layout(2) [OF h]] insert_below [OF holds_layout(2) [OF h] None]
          sorted_ins_tuple [OF holds_layout(2) [OF h]]
        by (intro holds_insert) (simp_all add: i_def)
      with None True R(3) er place insert_below [OF holds_layout(2) [OF h] None] show ?thesis
        by (simp add: page_add_def encode_into_bytes [OF S] id_end_written [OF t] i_def)
    next
      case False
      with None R er place show ?thesis by (simp add: page_add_def encode_into_bytes [OF S])
    qed
  qed
qed

section \<open>Removing and replacing\<close>

lemma sorted_list_remove: "sorted_ids ts \<Longrightarrow> sorted_ids (list_remove i ts)"
  unfolding sorted_ids_def list_remove_def
  by (auto simp: sorted_wrt_append sorted_wrt_take sorted_wrt_drop dest: sorted_wrt_append [THEN iffD1, of _ "take i ts" "drop i ts", simplified]
      in_set_dropD set_drop_subset_set_drop [THEN subsetD, of i "Suc i", simplified])

lemma set_list_remove: "set (list_remove i ts) \<subseteq> set ts"
  by (auto simp: list_remove_def dest: in_set_takeD in_set_dropD)

lemma holds_cut:
  assumes "holds p ts" and "i < length ts"
  shows "holds (cut_slot i p) (list_remove i ts)" and "declared_capacity (cut_slot i p) = declared_capacity p"
    and "length (sp_buf (cut_slot i p)) = length (sp_buf p)"
proof -
  have i: "i < slot_count p" using assms holds_count [OF assms(1)] by simp
  note C = cut_slot_layout [OF holds_layout(1) [OF assms(1)] i]
  show "holds (cut_slot i p) (list_remove i ts)"
    using assms(1) C sorted_list_remove set_list_remove [of i ts] by (auto simp: holds_def map_list_remove)
  show "declared_capacity (cut_slot i p) = declared_capacity p" "length (sp_buf (cut_slot i p)) = length (sp_buf p)"
    using C by simp_all
qed

lemma holds_shrink:
  assumes "holds p []"
  shows "holds (shrink_to_normal p) []" and "declared_capacity (shrink_to_normal p) = declared_capacity p"
proof -
  have dc: "declared_capacity p < 2 ^ 32" using unat_u32_less by (simp add: declared_capacity_def)
  have e: "sp_prefixes p = []" "sp_id_ends p = []" using assms by (simp_all add: holds_def)
  have "holds (shrink_to_normal p) [] \<and> declared_capacity (shrink_to_normal p) = declared_capacity p"
  proof (cases "length (sp_buf p) = declared_capacity p")
    case False
    define q where "q = shrink_to_normal p"
    have "sp_buf q = blank_buffer (declared_capacity p) (declared_capacity p)" "sp_heap_start q = length (sp_buf q)"
        "sp_dead q = 0" "sp_prefixes q = []" "sp_id_ends q = []"
      using False e by (simp_all add: q_def shrink_to_normal_def Let_def)
    note E = empty_layout [OF this(1) dc dc this(2-5)]
    then show ?thesis unfolding q_def [symmetric] using \<open>sp_prefixes q = []\<close> \<open>sp_id_ends q = []\<close>
      by (simp add: holds_def sorted_ids_def)
  qed (use assms in \<open>simp add: shrink_to_normal_def\<close>)
  then show "holds (shrink_to_normal p) []" and "declared_capacity (shrink_to_normal p) = declared_capacity p" by simp_all
qed

lemma page_remove_spec:
  assumes h: "holds p ts" and j: "id_wf j" and S: "postcard_rules S" and de: "postcard_reads S de"
  shows "\<exists>q. page_remove de j p =
      (case found_at ts j of None \<Rightarrow> (Inl (KeyNotFound j), q) | Some i \<Rightarrow> (Inr (read_back (ts ! i)), q))
    \<and> holds q (case found_at ts j of None \<Rightarrow> ts | Some i \<Rightarrow> list_remove i ts)
    \<and> declared_capacity q = declared_capacity p"
proof (cases "found_at ts j")
  case None
  then show ?thesis using h by (simp add: page_remove_def find_exact_found [OF h j])
next
  case (Some i)
  then have i: "i < length ts" using found_atD by blast
  define q where "q = cut_slot i p"
  note C = holds_cut [OF h i, folded q_def]
  have "delete_slot de i p = (Inr (read_back (ts ! i)), q)"
    by (simp add: delete_slot_def decode_at_read [OF h i S de] q_def)
  moreover have "list_remove i ts = []" if "slot_count q = 0"
    using holds_count [OF C(1)] that by (metis length_0_conv)
  ultimately show ?thesis
    using Some C holds_shrink [of q] by (auto simp: page_remove_def find_exact_found [OF h j])
qed

lemma insert_remove_update: "i < length ts \<Longrightarrow> list_insert i t (list_remove i ts) = ts[i := t]"
  by (simp add: list_insert_def list_remove_def upd_conv_take_nth_drop)

lemma sorted_update:
  assumes "sorted_ids ts" and "i < length ts" and "dbid_cmp (t_id t) (t_id (ts ! i)) = Equal"
  shows "sorted_ids (ts[i := t])"
  unfolding sorted_ids_def sorted_wrt_iff_nth_less
proof (intro allI impI)
  fix a b assume ab: "a < b" "b < length (ts[i := t])"
  then have "dbid_cmp (t_id (ts ! a)) (t_id (ts ! b)) = Less"
    using assms(1) by (simp add: sorted_ids_def sorted_wrt_iff_nth_less)
  with ab assms(2,3) show "dbid_cmp (t_id (ts[i := t] ! a)) (t_id (ts[i := t] ! b)) = Less"
    using dbid_equal_cong [OF assms(3)] by (auto simp: nth_list_update)
qed

lemma order_prefix_Equal: "dbid_cmp a b = Equal \<Longrightarrow> order_prefix a = order_prefix b"
  by (simp add: dbid_cmp_slice order_prefix_u128)

lemma below_removed:
  assumes "sorted_ids ts" and "found_at ts j = Some i"
  shows "below (list_remove i ts) j = i" and "found_at (list_remove i ts) j = None"
proof -
  have i: "i < length ts" "at_key ts j i = Equal" using found_atD [OF assms(2)] by simp_all
  have less: "dbid_cmp (t_id t) j = Less" if "t \<in> set (take i ts)" for t
    using that i at_key_mono(2) [OF assms(1) _ i(1), of _ j] by (auto simp: in_set_conv_nth at_key_def)
  have greater: "dbid_cmp (t_id t) j = Greater" if "t \<in> set (drop (Suc i) ts)" for t
    using that i at_key_mono(1) [OF assms(1), of i _ j] by (auto simp: in_set_conv_nth at_key_def)
  show "below (list_remove i ts) j = i"
    using less greater i(1) by (simp add: below_def list_remove_def filter_True filter_False)
  show "found_at (list_remove i ts) j = None"
    using less greater by (auto simp: found_at_def position_None list_remove_def)
qed

text \<open>What \<open>replace\<close> needs of the new tuple: that it has the id it replaces.\<close>

definition replaces :: "tuple list \<Rightarrow> dbid \<Rightarrow> tuple \<Rightarrow> nat \<Rightarrow> bool" where
  "replaces ts j t i \<longleftrightarrow> found_at ts j = Some i \<and> dbid_cmp (t_id t) (t_id (ts ! i)) = Equal"

text \<open>The page with the cached end of the id of slot \<open>i\<close> brought up to date.\<close>

definition with_id_end :: "nat \<Rightarrow> tuple \<Rightarrow> slotted_page \<Rightarrow> slotted_page" where
  "with_id_end i t p = p\<lparr>sp_id_ends := (sp_id_ends p)[i := word_of_nat (id_len t)]\<rparr>"

lemma with_id_end_simps [simp]:
  "recs (with_id_end i t p) = recs p" "layout (with_id_end i t p) = layout p"
  "sp_prefixes (with_id_end i t p) = sp_prefixes p" "sp_id_ends (with_id_end i t p) = (sp_id_ends p)[i := word_of_nat (id_len t)]"
proof -
  have s: "slot_count (with_id_end i t p) = slot_count p" "off_of (with_id_end i t p) = off_of p" "len_of (with_id_end i t p) = len_of p"
    "slot (with_id_end i t p) = slot p" "sp_buf (with_id_end i t p) = sp_buf p" "sp_heap_start (with_id_end i t p) = sp_heap_start p"
    "sp_dead (with_id_end i t p) = sp_dead p"
    by (simp_all add: with_id_end_def slot_count_def off_of_def len_of_def slot_def fun_eq_iff)
  then show recs: "recs (with_id_end i t p) = recs p" by (simp add: recs_def record_of_slice)
  show "sp_prefixes (with_id_end i t p) = sp_prefixes p" "sp_id_ends (with_id_end i t p) = (sp_id_ends p)[i := word_of_nat (id_len t)]"
    by (simp_all add: with_id_end_def)
  then show "layout (with_id_end i t p) = layout p" using s recs by (simp add: layout_def live_def dir_end_def)
qed

lemma with_id_end_same:
  "sp_id_ends p = map (\<lambda>t. word_of_nat (id_len t)) ts \<Longrightarrow> i < length ts \<Longrightarrow> id_len t = id_len (ts ! i) \<Longrightarrow> with_id_end i t p = p"
  using list_update_id [of "sp_id_ends p" i] by (simp add: with_id_end_def)

lemma replaces_cmp:
  assumes "replaces ts j t i"
  shows "dbid_cmp (t_id t) j = Equal" and "i < length ts"
  using assms found_atD [of ts j i] dbid_equal_cong(1) [of "t_id t" "t_id (ts ! i)" j]
  by (auto simp: replaces_def at_key_def)

lemma map_update_same: "i < length ts \<Longrightarrow> f t = f (ts ! i) \<Longrightarrow> map f (ts[i := t]) = map f ts"
  by (simp add: map_update) (metis length_map list_update_id nth_map)

lemma holds_overwrite:
  assumes h: "holds p ts" and r: "replaces ts j t i" and t: "tuple_fits t" and S: "postcard_rules S"
    and de: "postcard_reads S de" and len: "length (tuple_bytes t) \<le> length (tuple_bytes (ts ! i))"
  shows "\<exists>q. replace_in_place de i (tuple_bytes t) p = (Inr (read_back (ts ! i)), q) \<and> sp_id_ends q = sp_id_ends p
    \<and> holds (with_id_end i t q) (ts[i := t]) \<and> (id_len t = id_len (ts ! i) \<longrightarrow> holds q (ts[i := t]))"
proof -
  have i: "i < length ts" "i < slot_count p" using replaces_cmp [OF r] holds_count [OF h] by simp_all
  have fits: "length (tuple_bytes t) \<le> len_of p i" using len holds_nth(6) [OF h i(1)] by simp
  note O = overwrite_layout [OF holds_layout(1) [OF h] i(2) fits]
  define q where "q = set_slot i \<lparr>se_offset = se_offset (slot p i), se_len = word_of_nat (length (tuple_bytes t))\<rparr>
    (p\<lparr>sp_buf := put_range (sp_buf p) (off_of p i) (tuple_bytes t), sp_dead := sp_dead p + (len_of p i - length (tuple_bytes t))\<rparr>)"
  have "replace_in_place de i (tuple_bytes t) p = (Inr (read_back (ts ! i)), q)"
    by (simp add: replace_in_place_def Let_def decode_at_read [OF h i(1) S de] q_def off_of_def len_of_def)
  moreover have ends: "sp_id_ends q = sp_id_ends p" using O(7) by (simp add: q_def)
  moreover have held: "holds (with_id_end i t q) (ts[i := t])"
    unfolding holds_def with_id_end_simps
  proof (intro conjI)
    have same: "order_prefix (t_id t) = order_prefix (t_id (ts ! i))" using r by (auto simp: replaces_def order_prefix_Equal)
    show "layout q" "recs q = map tuple_bytes (ts[i := t])" using O h by (simp_all add: q_def holds_def map_update)
    show "sp_prefixes q = map (\<lambda>t. order_prefix (t_id t)) (ts[i := t])"
      using O(6) h i(1) same by (simp add: q_def holds_def map_update_same)
    show "(sp_id_ends q)[i := word_of_nat (id_len t)] = map (\<lambda>t. word_of_nat (id_len t)) (ts[i := t])"
      using ends h by (simp add: holds_def map_update)
    show "\<forall>u \<in> set (ts[i := t]). id_wf (t_id u)"
      using h t set_update_subset_insert [of ts i t] by (auto simp: holds_def tuple_fits_def)
    show "sorted_ids (ts[i := t])" using h r i by (intro sorted_update) (auto simp: holds_def replaces_def)
  qed
  moreover have "holds q (ts[i := t])" if "id_len t = id_len (ts ! i)"
  proof -
    have "with_id_end i t q = q" using with_id_end_same [of q ts i t] ends h that i(1) by (simp add: holds_def)
    then show ?thesis using held by simp
  qed
  ultimately show ?thesis by blast
qed

lemma concat_update:
  "i < length ts \<Longrightarrow> length (concat (map tuple_bytes (ts[i := t]))) = length (tuple_bytes t) + length (concat (map tuple_bytes (list_remove i ts)))"
  by (simp add: list_remove_def upd_conv_take_nth_drop)

lemma holds_anew:
  assumes h: "holds p ts" and j: "id_wf j" and r: "replaces ts j t i" and t: "tuple_fits t" and S: "postcard_rules S"
    and de: "postcard_reads S de"
  shows "if has_room p (ts[i := t])
    then \<exists>q. replace_anew de i j (tuple_bytes t) p = (Inr (read_back (ts ! i)), q) \<and> holds q (ts[i := t])
    else replace_anew de i j (tuple_bytes t) p = (Inl PageCapacityError, p)"
proof -
  have f: "found_at ts j = Some i" using r by (simp add: replaces_def)
  have i: "i < length ts" "slot_count p = length ts" using replaces_cmp [OF r] holds_count [OF h] by simp_all
  note D = layoutD [OF holds_layout(1) [OF h]]
  have old: "length (tuple_bytes (ts ! i)) + length (concat (map tuple_bytes (list_remove i ts))) = live p"
    using concat_update [OF i(1), of "ts ! i"] by (simp add: live_holds [OF h])
  have free: "contiguous_free p + sp_dead p + live p + dir_offset (length ts) = length (sp_buf p)"
    using D(4,5) i(2) by (simp add: contiguous_free_def dir_end_def)
  have guard: "(slot_count p > 1 \<and> contiguous_free p + sp_dead p + unat (se_len (slot p i)) < length (tuple_bytes t))
      \<longleftrightarrow> \<not> has_room p (ts[i := t])"
    using free old i holds_nth(6) [OF h i(1)] concat_update [OF i(1), of t]
    by (auto simp: has_room_def len_of_def)
  show ?thesis
  proof (cases "has_room p (ts[i := t])")
    case False
    with guard show ?thesis by (simp add: replace_anew_def Let_def)
  next
    case True
    define p1 where "p1 = cut_slot i p"
    note C = holds_cut [OF h i(1), folded p1_def]
    have del: "delete_slot de i p = (Inr (read_back (ts ! i)), p1)"
      by (simp add: delete_slot_def decode_at_read [OF h i(1) S de] p1_def)
    obtain res p2 where er: "ensure_room (length (tuple_bytes t)) p1 = (res, p2)" by fastforce
    note R = ensure_room_holds [OF C(1) t er]
    have "dir_offset (length ts - 1) + 8 = dir_offset (length ts)" using i(1) by (simp add: dir_offset_def)
    then have "has_room p1 (t # list_remove i ts)"
      using True concat_update [OF i(1), of t] C(3) i(1) by (auto simp: has_room_def)
    with R(3) have res: "res = Inr ()" by simp
    have lb: "page_lower_bound p2 j = Inr i"
      using lower_bound_below [OF R(1) j] below_removed(1) [OF holds_layout(2) [OF h] f] by simp
    have "holds (insert_at i (tuple_bytes t) (order_prefix (t_id t)) (id_len t) p2) (ts[i := t])"
      using holds_insert [OF R(1) _ R(2) t, of i] res i insert_remove_update [OF i(1), of t]
        sorted_update [OF holds_layout(2) [OF h] i(1), of t] r
      by (simp add: replaces_def)
    moreover have "order_prefix j = order_prefix (t_id t)"
      using order_prefix_Equal [OF replaces_cmp(1) [OF r]] by simp
    ultimately show ?thesis using True guard del er res lb id_end_written [OF t]
      by (simp add: replace_anew_def Let_def)
  qed
qed

lemma page_replace_spec:
  assumes h: "holds p ts" and j: "id_wf j" and r: "replaces ts j t i" and t: "tuple_fits t" and S: "postcard_rules S"
    and de: "postcard_reads S de"
  shows "if length (tuple_bytes t) \<le> length (tuple_bytes (ts ! i))
    then \<exists>q. page_replace S de j t p = (Inr (read_back (ts ! i)), q) \<and> sp_id_ends q = sp_id_ends p
      \<and> holds (with_id_end i t q) (ts[i := t]) \<and> (id_len t = id_len (ts ! i) \<longrightarrow> holds q (ts[i := t]))
    else if has_room p (ts[i := t])
    then \<exists>q. page_replace S de j t p = (Inr (read_back (ts ! i)), q) \<and> holds q (ts[i := t])
    else page_replace S de j t p = (Inl PageCapacityError, p)"
proof -
  have f: "found_at ts j = Some i" using r by (simp add: replaces_def)
  have i: "i < length ts" using replaces_cmp [OF r] by simp
  have len: "unat (se_len (slot p i)) = length (tuple_bytes (ts ! i))" using holds_nth(6) [OF h i] by (simp add: len_of_def)
  show ?thesis
    using holds_overwrite [OF h r t S de] holds_anew [OF h j r t S de]
    by (cases "length (tuple_bytes t) \<le> length (tuple_bytes (ts ! i))")
       (simp_all add: page_replace_def find_exact_found [OF h j] f encode_into_bytes [OF S] len)
qed

section \<open>Reading\<close>

lemma page_get_spec:
  assumes "holds p ts" and "id_wf j" and "postcard_rules S" and "postcard_reads S de"
  shows "page_get de p j = Inr (map_option (\<lambda>i. read_back (ts ! i)) (found_at ts j))"
  using found_atD [of ts j] decode_at_read [OF assms(1) _ assms(3,4)]
  by (auto simp: page_get_def find_exact_found [OF assms(1,2)] split: option.splits)

lemma collect_values_read:
  assumes "holds p ts" and "postcard_rules S" and "postcard_reads S de"
  shows "\<forall>i \<in> set is. i < length ts \<Longrightarrow> collect_values de p is = Inr (map (\<lambda>i. read_back (ts ! i)) is)"
  by (induction "is") (simp_all add: decode_at_read [OF assms(1) _ assms(2,3)])

lemma page_values_spec:
  assumes "holds p ts" and "postcard_rules S" and "postcard_reads S de"
  shows "page_values de p = Inr (map read_back ts)"
proof -
  have "map (\<lambda>i. read_back (ts ! i)) [0..<length ts] = map read_back ts" by (rule nth_equalityI) simp_all
  then show ?thesis using collect_values_read [OF assms, of "[0..<length ts]"] holds_count [OF assms(1)]
    by (simp add: page_values_def)
qed

lemma page_successor_spec:
  assumes h: "holds p ts" and j: "id_wf j" and S: "postcard_rules S" and de: "postcard_reads S de"
  shows "page_successor de p j = Inr (map_option read_back (find (\<lambda>t. dbid_cmp (t_id t) j = Greater) ts))"
proof -
  define r where "r = upto_key ts j"
  obtain r' where r': "search p (Owned j) (\<lambda>ord. ord = Greater) = Inr r'" "r' \<le> length ts"
      "\<forall>i < r'. at_key ts j i \<noteq> Greater" "\<forall>i. r' \<le> i \<longrightarrow> i < length ts \<longrightarrow> at_key ts j i = Greater"
    using search_spec [OF h lends_owned [OF j], of "\<lambda>ord. ord = Greater"] by (auto simp: upward_def)
  then have eq: "r' = r" using upper_bound_upto [OF h j] by (simp add: page_upper_bound_def page_bound_def r_def)
  have "find (\<lambda>t. dbid_cmp (t_id t) j = Greater) ts = (if r < length ts then Some (ts ! r) else None)"
  proof (cases "r < length ts")
    case True
    then have "find (\<lambda>t. dbid_cmp (t_id t) j = Greater) ts = Some (ts ! r)"
      unfolding find_Some_iff using r' by (intro exI [of _ r]) (auto simp: eq at_key_def)
    with True show ?thesis by simp
  next
    case False
    then have "find (\<lambda>t. dbid_cmp (t_id t) j = Greater) ts = None"
      unfolding find_None_iff using r' by (auto simp: eq at_key_def in_set_conv_nth)
    with False show ?thesis by simp
  qed
  then show ?thesis
    using decode_at_read [OF h _ S de] holds_count [OF h]
    by (simp add: page_successor_def upper_bound_upto [OF h j] r_def [symmetric])
qed

lemma at_ref_spec:
  assumes h: "holds p ts" and i: "i < length ts"
  shows "\<exists>r. at_ref p i = Some r \<and> lends (tr_id r) (t_id (ts ! i)) \<and> tr_data r = t_data (ts ! i)
    \<and> tr_txn_id r = t_txn_id (ts ! i) \<and> tr_pre_lsn r = t_pre_lsn (ts ! i) \<and> tr_flags r = t_flags (ts ! i)"
proof -
  note N = holds_nth [OF h i]
  have "read_fields (record_of p i) (id_len (ts ! i)) = Some \<lparr>wt_id = wire_form (t_id (ts ! i)),
      wt_txn_id = t_txn_id (ts ! i), wt_pre_lsn = t_pre_lsn (ts ! i), wt_data = t_data (ts ! i), wt_flags = t_flags (ts ! i)\<rparr>"
    using read_fields_written [OF N(4)] N(1,5) by (simp add: id_len_def)
  moreover have "get_at (sp_id_ends p) i = Some (sp_id_ends p ! i)" using h i by (simp add: get_at_def holds_def)
  moreover have "length (id_bytes (t_id (ts ! i))) < 2 ^ 64" using N(5) by (simp add: tuple_bytes_def)
  ultimately show ?thesis
    using N(3) lends_wire_form(2) [OF N(4)]
    by (simp add: at_ref_def wt_assume_checked_def tr_id_def tr_data_def tr_txn_id_def tr_pre_lsn_def tr_flags_def)
qed

lemma find_hinted_spec:
  assumes h: "holds p ts" and a: "lends a j"
  shows "find_hinted_ref p a hint = Inr (found_at ts j)"
proof (cases "hint < length ts")
  case True
  obtain r where r: "id_at p hint = Inr r" "lends r (t_id (ts ! hint))" using id_at_lends [OF h True] by blast
  have "id_eq r a \<longleftrightarrow> at_key ts j hint = Equal" using id_eq_lent [OF r(2) a] by (simp add: at_key_def dbid_cmp_Equal)
  with True r(1) found_atI [OF holds_layout(2) [OF h] True] find_exact_ref_found [OF h a] holds_count [OF h]
  show ?thesis by (simp add: find_hinted_ref_def)
qed (use find_exact_ref_found [OF h a] holds_count [OF h] in \<open>simp add: find_hinted_ref_def\<close>)

section \<open>Truncating, appending, reloading\<close>

lemma page_truncate_spec:
  assumes "holds p ts"
  shows "fst (page_truncate n p) = Inr ()" and "holds (snd (page_truncate n p)) (take n ts)"
proof -
  show "fst (page_truncate n p) = Inr ()" by (simp add: page_truncate_def Let_def)
  show "holds (snd (page_truncate n p)) (take n ts)"
  proof (cases "n < slot_count p")
    case True
    note T = truncate_layout [OF holds_layout(1) [OF assms] True]
    have "sorted_ids (take n ts)" using holds_layout(2) [OF assms] by (simp add: sorted_ids_def sorted_wrt_take)
    with T assms show ?thesis by (auto simp: holds_def take_map dest: in_set_takeD)
  next
    case False
    then show ?thesis using assms holds_count [OF assms] by (simp add: page_truncate_def)
  qed
qed

lemma page_append_spec:
  assumes h: "holds p ts" and t: "tuple_fits t" and last: "\<forall>u \<in> set ts. dbid_cmp (t_id u) (t_id t) = Less"
  shows "\<exists>q. append_encoded (tuple_bytes t) p = ((if has_room p (t # ts) then Inr () else Inl PageCapacityError), q)
    \<and> holds q (if has_room p (t # ts) then ts @ [t] else ts)"
proof -
  have wf: "id_wf (t_id t)" and len: "length (tuple_bytes t) < 2 ^ 64" using t by (simp_all add: tuple_fits_def)
  have "tuple_id_ending (tuple_bytes t) (id_len t) = Inr (wire_form (t_id t))"
    using id_ending_written [OF wf] len by (simp add: tuple_id_ending_def tuple_bytes_def id_len_def)
  moreover have "order_prefix_of (Wire (wire_form (t_id t))) = order_prefix (t_id t)"
    using lends_wire_form(1) [OF wf] len by (intro order_prefix_lent) (simp add: tuple_bytes_def)
  ultimately have ids: "r_bind (id_end (tuple_bytes t)) (\<lambda>e. r_bind (tuple_id_ending (tuple_bytes t) e)
      (\<lambda>i. Inr (e, order_prefix_of (Wire i)))) = Inr (id_len t, order_prefix (t_id t))"
    by (simp add: id_end_written [OF t])
  obtain res q where er: "ensure_room (length (tuple_bytes t)) p = (res, q)" by fastforce
  note R = ensure_room_holds [OF h t er]
  have all: "list_insert (length ts) t ts = ts @ [t]" by (simp add: list_insert_def)
  have "sorted_ids (ts @ [t])" using holds_layout(2) [OF h] last by (simp add: sorted_ids_def sorted_wrt_append)
  then have "holds (insert_at (length ts) (tuple_bytes t) (order_prefix (t_id t)) (id_len t) q) (ts @ [t])"
    if "res = Inr ()" using holds_insert [OF R(1) order_refl R(2) t] that by (simp add: all)
  then show ?thesis using R(1,3) er ids holds_count [OF R(1)] by (auto simp: append_encoded_def)
qed

lemma check_id_written:
  assumes "id_wf i" and "length (id_bytes i) < 2 ^ 64"
  shows "check_id (wire_form i) = Inr ()"
proof (cases i)
  case (Rec k)
  show ?thesis
  proof (cases "stored_len k")
    case None
    have "list_all value_wf k" "list_all value_fits k" using assms Rec None values_fit [of k] by (simp_all add: id_bytes_def)
    then have "check_values (length k) (rd_new (concat (map wire_bytes k))) = Inr ()"
      using wire_values_written [of k "rd_new (concat (map wire_bytes k))" "[]"] assms(2) Rec None
      by (simp add: rd_ok_def id_bytes_def) (simp add: rd_new_def)
    with Rec None show ?thesis by (simp add: check_id_def wire_form_def wk_check_def)
  next
    case (Some n)
    then have "\<forall>f \<in> set k. \<not> holds_end f" by (auto simp: stored_len_bytes split: if_splits)
    with Some Rec assms(1) show ?thesis
      by (simp add: check_id_def wire_form_def stored_into_bytes stored_values_written)
  qed
qed (simp add: check_id_def wire_form_def)

lemma load_slots_spec:
  assumes h: "holds p ts"
  shows "\<forall>i \<in> set idxs. i < length ts \<Longrightarrow>
    load_slots (sp_buf p) (dir_end p) idxs hs lv pre ie = Inr (foldl min hs (map (off_of p) idxs),
      lv + sum_list (map (len_of p) idxs), pre @ map (\<lambda>i. order_prefix (t_id (ts ! i))) idxs,
      ie @ map (\<lambda>i. word_of_nat (id_len (ts ! i))) idxs)"
proof (induction idxs arbitrary: hs lv pre ie)
  case (Cons i idxs)
  then have i: "i < length ts" by simp
  note D = layoutD [OF holds_layout(1) [OF h]] and N = holds_nth [OF h i]
  have n: "i < slot_count p" using i holds_count [OF h] by simp
  have bounds: "\<not> (off_of p i < dir_end p \<or> off_of p i + len_of p i > length (sp_buf p))"
    using D(8) [OF n] D(9) [OF n] D(2) by simp
  have rec: "slice (sp_buf p) (off_of p i) (len_of p i) = tuple_bytes (ts ! i)" using N(1) by (simp add: record_of_slice)
  have small: "length (tuple_bytes (ts ! i)) < 2 ^ 64" "length (id_bytes (t_id (ts ! i))) < 2 ^ 64"
    using N(5) by (simp_all add: tuple_bytes_def)
  have e: "id_end (tuple_bytes (ts ! i)) = Inr (id_len (ts ! i))"
    using wire_read_written(1) [OF N(4) small(1)] by (simp add: id_len_def)
  have w: "tuple_id_ending (tuple_bytes (ts ! i)) (id_len (ts ! i)) = Inr (wire_form (t_id (ts ! i)))"
    using id_ending_written [OF N(4)] small(1) by (simp add: tuple_id_ending_def tuple_bytes_def id_len_def)
  have "order_prefix_of (Wire (wire_form (t_id (ts ! i)))) = order_prefix (t_id (ts ! i))"
    by (rule order_prefix_lent [OF lends_wire_form(1) [OF N(4) small(2)]])
  with Cons bounds rec e w check_id_written [OF N(4) small(2)] show ?case
    by (simp add: Let_def off_of_def [symmetric] len_of_def [symmetric] slot_def [symmetric])
qed simp

lemma foldl_min_props:
  fixes x :: nat
  shows "foldl min x ys \<le> x" and "y \<in> set ys \<Longrightarrow> foldl min x ys \<le> y" and "\<lbrakk>k \<le> x; \<forall>y \<in> set ys. k \<le> y\<rbrakk> \<Longrightarrow> k \<le> foldl min x ys"
proof (induction ys arbitrary: x)
  case (Cons z ys)
  { case 1 show ?case using Cons.IH(1) [of "min x z"] by simp }
  { case 2 then show ?case using Cons.IH(1) [of "min x z"] Cons.IH(2) [of "min x z"] by auto }
  { case 3 then show ?case using Cons.IH(3) [of "min x z"] by simp }
qed simp_all

text \<open>Disjoint stretches of a region take no more than the region.\<close>

lemma disjoint_stretches:
  fixes start len :: "nat \<Rightarrow> nat"
  assumes "\<And>i. i < n \<Longrightarrow> h \<le> start i \<and> start i + len i \<le> b"
    and "\<And>i j. i < n \<Longrightarrow> j < n \<Longrightarrow> i \<noteq> j \<Longrightarrow> start i + len i \<le> start j \<or> start j + len j \<le> start i"
  shows "(\<Sum>i < n. len i) \<le> b - h"
proof -
  have "(\<Sum>i < n. len i) = (\<Sum>i < n. card {start i..<start i + len i})" by simp
  also have "\<dots> = card (\<Union>i < n. {start i..<start i + len i})"
  proof (rule card_UN_disjoint [symmetric])
    show "\<forall>i \<in> {..<n}. \<forall>j \<in> {..<n}. i \<noteq> j \<longrightarrow> {start i..<start i + len i} \<inter> {start j..<start j + len j} = {}"
      using assms(2) by fastforce
  qed simp_all
  also have "\<dots> \<le> card {h..<b}"
    by (rule card_mono) (use assms(1) in \<open>auto, (meson le_trans, meson less_le_trans)?\<close>)
  finally show ?thesis by simp
qed

lemma page_reload_spec:
  assumes h: "holds p ts"
  shows "\<exists>q. page_from_bytes (sp_buf p) = Inr q \<and> holds q ts \<and> sp_buf q = sp_buf p"
proof -
  note D = layoutD [OF holds_layout(1) [OF h]]
  have n: "slot_count p = length ts" using holds_count [OF h] by simp
  define hs where "hs = foldl min (length (sp_buf p)) (map (off_of p) [0..<length ts])"
  define q where "q = \<lparr>sp_buf = sp_buf p, sp_heap_start = hs, sp_dead = length (sp_buf p) - hs - live p,
      sp_prefixes = sp_prefixes p, sp_id_ends = sp_id_ends p\<rparr>"
  have lens: "sum_list (map (len_of p) [0..<length ts]) = live p"
    using D(10) n by (simp add: live_recs length_concat comp_def) (metis (mono_tags, lifting) atLeastLessThan_iff map_eq_conv set_upt)
  have arr: "map (\<lambda>i. order_prefix (t_id (ts ! i))) [0..<length ts] = sp_prefixes p"
      "map (\<lambda>i. word_of_nat (id_len (ts ! i))) [0..<length ts] = sp_id_ends p"
    using h by (auto simp: holds_def intro!: nth_equalityI)
  have hs: "hs \<le> length (sp_buf p)" "sp_heap_start p \<le> hs" "\<And>i. i < length ts \<Longrightarrow> hs \<le> off_of p i"
    unfolding hs_def using D(3) D(8) n by (auto intro: foldl_min_props(1,2) intro!: foldl_min_props(3))
  have len8: "8 \<le> length (sp_buf p)" "dir_offset (length ts) \<le> length (sp_buf p)" using D(3,4) n by (simp_all add: dir_offset_def)
  have "page_from_bytes (sp_buf p) = Inr q"
    using load_slots_spec [OF h, of "[0..<length ts]" "length (sp_buf p)" 0 "[]" "[]"] len8 n lens arr
    by (simp add: page_from_bytes_def Let_def q_def hs_def [symmetric] slot_count_def [symmetric] dir_end_def)
  moreover have "holds q ts"
  proof -
    have same: "slot_count q = slot_count p" "slot q i = slot p i" "record_of q i = record_of p i" for i
      by (simp_all add: q_def slot_count_def slot_def record_of_def)
    then have recs: "recs q = recs p" by (simp add: recs_def)
    have at: "off_of q i = off_of p i" "len_of q i = len_of p i" for i using same by (simp_all add: off_of_def len_of_def)
    have "(\<Sum>i < length ts. len_of p i) \<le> length (sp_buf p) - hs"
      using hs D(9,11) n by (intro disjoint_stretches [of _ _ "off_of p"]) auto
    then have "live p \<le> length (sp_buf p) - hs" unfolding lens [symmetric] by (simp add: sum_list_sum_nth atLeast0LessThan)
    then have "sp_dead q + live q + sp_heap_start q = length (sp_buf q)" using hs(1) recs by (simp add: q_def live_def)
    then have "layout q" using D hs n by (intro layoutI) (simp_all add: same at, simp_all add: q_def)
    with h recs show ?thesis by (simp add: holds_def q_def)
  qed
  ultimately show ?thesis by (auto simp: q_def)
qed

section \<open>The contract of a page\<close>

text \<open>The tuple with id \<open>j\<close>, if the sorted list has it.\<close>

definition lookup :: "tuple list \<Rightarrow> dbid \<Rightarrow> tuple option" where
  "lookup ts j = map_option (\<lambda>i. ts ! i) (found_at ts j)"

lemma lookup_Some:
  assumes "sorted_ids ts"
  shows "lookup ts j = Some t \<longleftrightarrow> t \<in> set ts \<and> dbid_cmp (t_id t) j = Equal"
proof
  assume "lookup ts j = Some t"
  then obtain i where "found_at ts j = Some i" "t = ts ! i" by (auto simp: lookup_def)
  with found_atD [of ts j i] show "t \<in> set ts \<and> dbid_cmp (t_id t) j = Equal" by (simp add: at_key_def)
next
  assume "t \<in> set ts \<and> dbid_cmp (t_id t) j = Equal"
  then obtain i where "i < length ts" "at_key ts j i = Equal" "t = ts ! i" by (auto simp: in_set_conv_nth at_key_def)
  with found_atI [OF assms, of i j] show "lookup ts j = Some t" by (simp add: lookup_def)
qed

lemma lookup_None: "lookup ts j = None \<longleftrightarrow> (\<forall>t \<in> set ts. dbid_cmp (t_id t) j \<noteq> Equal)"
  by (auto simp: lookup_def found_at_None at_key_def all_set_conv_all_nth)

lemma lookup_cong:
  assumes "sorted_ids ts" and "sorted_ids us" and "\<And>t. dbid_cmp (t_id t) j = Equal \<Longrightarrow> t \<in> set ts \<longleftrightarrow> t \<in> set us"
  shows "lookup ts j = lookup us j"
  by (rule option.expand, metis lookup_None assms(3)) (metis lookup_Some [OF assms(1)] lookup_Some [OF assms(2)] assms(3) option.collapse option.sel)

lemma set_ins_tuple: "lookup ts (t_id t) = None \<Longrightarrow> set (ins_tuple t ts) = insert t (set ts)"
proof -
  assume "lookup ts (t_id t) = None"
  then have "dbid_cmp (t_id u) (t_id t) = Less \<or> dbid_cmp (t_id u) (t_id t) = Greater" if "u \<in> set ts" for u
    using that by (cases "dbid_cmp (t_id u) (t_id t)") (auto simp: lookup_None)
  then show ?thesis by (auto simp: ins_tuple_def)
qed

definition del_id :: "dbid \<Rightarrow> tuple list \<Rightarrow> tuple list" where
  "del_id j ts = filter (\<lambda>t. dbid_cmp (t_id t) j \<noteq> Equal) ts"

lemma remove_found:
  assumes "sorted_ids ts" and "found_at ts j = Some i"
  shows "list_remove i ts = del_id j ts"
proof -
  have i: "i < length ts" "dbid_cmp (t_id (ts ! i)) j = Equal" using found_atD [OF assms(2)] by (simp_all add: at_key_def)
  have "dbid_cmp (t_id t) j \<noteq> Equal" if "t \<in> set (list_remove i ts)" for t
    using below_removed(2) [OF assms] that by (auto simp: found_at_def position_None)
  then have "filter (\<lambda>t. dbid_cmp (t_id t) j \<noteq> Equal) (list_remove i ts) = list_remove i ts" by (simp add: filter_True)
  moreover have "del_id j ts = filter (\<lambda>t. dbid_cmp (t_id t) j \<noteq> Equal) (list_remove i ts)"
    unfolding del_id_def list_remove_def by (subst id_take_nth_drop [OF i(1)]) (simp add: i(2))
  ultimately show ?thesis by simp
qed

lemma sorted_del_id: "sorted_ids ts \<Longrightarrow> sorted_ids (del_id j ts)"
  by (simp add: sorted_ids_def del_id_def sorted_wrt_filter)

locale tuple_page =
  fixes pg_holds :: "'p \<Rightarrow> tuple list \<Rightarrow> bool"
    and pg_add :: "tuple \<Rightarrow> 'p \<Rightarrow> (serr + unit) \<times> 'p"
    and pg_remove :: "dbid \<Rightarrow> 'p \<Rightarrow> (serr + tuple) \<times> 'p"
    and pg_get :: "'p \<Rightarrow> dbid \<Rightarrow> serr + tuple option"
    and pg_values :: "'p \<Rightarrow> serr + tuple list"
  assumes law_sorted: "pg_holds p ts \<Longrightarrow> sorted_ids ts"
    and law_get: "pg_holds p ts \<Longrightarrow> id_wf j \<Longrightarrow> pg_get p j = Inr (map_option read_back (lookup ts j))"
    and law_values: "pg_holds p ts \<Longrightarrow> pg_values p = Inr (map read_back ts)"
    and law_add_new: "pg_holds p ts \<Longrightarrow> tuple_fits t \<Longrightarrow> lookup ts (t_id t) = None \<Longrightarrow>
      (\<exists>q. pg_add t p = (Inr (), q) \<and> pg_holds q (ins_tuple t ts))
      \<or> (\<exists>q. pg_add t p = (Inl PageCapacityError, q) \<and> pg_holds q ts)"
    and law_add_dup: "pg_holds p ts \<Longrightarrow> tuple_fits t \<Longrightarrow> lookup ts (t_id t) = Some u \<Longrightarrow>
      \<exists>q. pg_add t p = (Inl (DuplicateKey (t_id t)), q) \<and> pg_holds q ts"
    and law_remove: "pg_holds p ts \<Longrightarrow> id_wf j \<Longrightarrow> lookup ts j = Some u \<Longrightarrow>
      \<exists>q. pg_remove j p = (Inr (read_back u), q) \<and> pg_holds q (del_id j ts)"
    and law_remove_none: "pg_holds p ts \<Longrightarrow> id_wf j \<Longrightarrow> lookup ts j = None \<Longrightarrow>
      \<exists>q. pg_remove j p = (Inl (KeyNotFound j), q) \<and> pg_holds q ts"
begin

lemma add_cases:
  assumes "pg_holds p ts" and "tuple_fits t" and "pg_add t p = (r, q)"
  shows "r = Inr () \<and> lookup ts (t_id t) = None \<and> pg_holds q (ins_tuple t ts)
    \<or> r = Inl PageCapacityError \<and> lookup ts (t_id t) = None \<and> pg_holds q ts
    \<or> r = Inl (DuplicateKey (t_id t)) \<and> lookup ts (t_id t) \<noteq> None \<and> pg_holds q ts"
  using law_add_new [OF assms(1,2)] law_add_dup [OF assms(1,2)] assms(3)
  by (cases "lookup ts (t_id t)") fastforce+

lemma get_after_add:
  assumes h: "pg_holds p ts" and t: "tuple_fits t" and a: "pg_add t p = (Inr (), q)"
  shows "pg_get q (t_id t) = Inr (Some (read_back t))"
    and "id_wf j \<Longrightarrow> dbid_cmp (t_id t) j \<noteq> Equal \<Longrightarrow> pg_get q j = pg_get p j"
proof -
  have new: "lookup ts (t_id t) = None" and hq: "pg_holds q (ins_tuple t ts)" using add_cases [OF h t a] by auto
  have "lookup (ins_tuple t ts) (t_id t) = Some t"
    by (simp add: lookup_Some [OF law_sorted [OF hq]] set_ins_tuple [OF new])
  then show "pg_get q (t_id t) = Inr (Some (read_back t))" using law_get [OF hq] t by (simp add: tuple_fits_def)
  assume j: "id_wf j" "dbid_cmp (t_id t) j \<noteq> Equal"
  have "lookup (ins_tuple t ts) j = lookup ts j"
    by (rule lookup_cong [OF law_sorted [OF hq] law_sorted [OF h]]) (use j(2) set_ins_tuple [OF new] in auto)
  then show "pg_get q j = pg_get p j" using law_get [OF hq j(1)] law_get [OF h j(1)] by simp
qed

lemma failed_add_keeps:
  assumes h: "pg_holds p ts" and t: "tuple_fits t" and a: "pg_add t p = (Inl e, q)"
  shows "pg_values q = pg_values p" and "id_wf j \<Longrightarrow> pg_get q j = pg_get p j"
proof -
  have "pg_holds q ts" using add_cases [OF h t a] by auto
  then show "pg_values q = pg_values p" and "id_wf j \<Longrightarrow> pg_get q j = pg_get p j"
    using h law_values law_get by auto
qed

lemma get_after_remove:
  assumes h: "pg_holds p ts" and j: "id_wf j" and r: "pg_remove j p = (Inr u, q)"
  shows "pg_get p j = Inr (Some u)" and "pg_get q j = Inr None"
    and "id_wf k \<Longrightarrow> dbid_cmp k j \<noteq> Equal \<Longrightarrow> pg_get q k = pg_get p k"
proof -
  obtain v where v: "lookup ts j = Some v" "u = read_back v" and hq: "pg_holds q (del_id j ts)"
    using law_remove [OF h j] law_remove_none [OF h j] r by (cases "lookup ts j") fastforce+
  show "pg_get p j = Inr (Some u)" using law_get [OF h j] v by simp
  have "lookup (del_id j ts) j = None" by (simp add: lookup_None del_id_def)
  then show "pg_get q j = Inr None" using law_get [OF hq j] by simp
  assume k: "id_wf k" "dbid_cmp k j \<noteq> Equal"
  have "lookup (del_id j ts) k = lookup ts k"
  proof (rule lookup_cong [OF law_sorted [OF hq] law_sorted [OF h]])
    fix t :: tuple assume "dbid_cmp (t_id t) k = Equal"
    then have "dbid_cmp (t_id t) j \<noteq> Equal" using dbid_equal_cong(1) [of "t_id t" k j] k(2) by simp
    then show "t \<in> set (del_id j ts) \<longleftrightarrow> t \<in> set ts" by (simp add: del_id_def)
  qed
  then show "pg_get q k = pg_get p k" using law_get [OF hq k(1)] law_get [OF h k(1)] by simp
qed

lemma remove_undoes_add:
  assumes h: "pg_holds p ts" and t: "tuple_fits t" and a: "pg_add t p = (Inr (), q)"
  shows "\<exists>q'. pg_remove (t_id t) q = (Inr (read_back t), q') \<and> pg_values q' = pg_values p"
proof -
  have new: "lookup ts (t_id t) = None" and hq: "pg_holds q (ins_tuple t ts)" using add_cases [OF h t a] by auto
  have wf: "id_wf (t_id t)" using t by (simp add: tuple_fits_def)
  have "lookup (ins_tuple t ts) (t_id t) = Some t"
    by (simp add: lookup_Some [OF law_sorted [OF hq]] set_ins_tuple [OF new])
  then obtain q' where q': "pg_remove (t_id t) q = (Inr (read_back t), q')" "pg_holds q' (del_id (t_id t) (ins_tuple t ts))"
    using law_remove [OF hq wf] by blast
  have "del_id (t_id t) (ins_tuple t ts) = ts"
  proof -
    have "found_at ts (t_id t) = None" using new by (simp add: lookup_def)
    then have "ts = filter (\<lambda>u. dbid_cmp (t_id u) (t_id t) = Less) ts @ filter (\<lambda>u. dbid_cmp (t_id u) (t_id t) = Greater) ts"
      using below_at(1) [OF law_sorted [OF h], of "t_id t"] drop_below [OF law_sorted [OF h]] append_take_drop_id [of "below ts (t_id t)" ts]
      by simp
    moreover have "del_id (t_id t) (ins_tuple t ts) = filter (\<lambda>u. dbid_cmp (t_id u) (t_id t) = Less) ts @ filter (\<lambda>u. dbid_cmp (t_id u) (t_id t) = Greater) ts"
      by (simp add: del_id_def ins_tuple_def) (metis (mono_tags, lifting) filter_cong ordering.distinct(1,5))
    ultimately show ?thesis by simp
  qed
  with q' law_values [OF h] law_values [of q'] show ?thesis by auto
qed

end

section \<open>The slotted page keeps the contract\<close>

text \<open>Postcard, as the page uses it: a serializer and a reader that agree.\<close>

locale postcard_codec =
  fixes S :: serializer and de :: "bytes \<Rightarrow> serr + tuple"
  assumes rules: "postcard_rules S" and reads_back: "postcard_reads S de"

sublocale postcard_codec \<subseteq> slotted: tuple_page holds "page_add S" "page_remove de" "page_get de" "page_values de"
proof unfold_locales
  fix p ts j and t u :: tuple
  assume h: "holds p ts"
  show "sorted_ids ts" using h by (rule holds_layout(2))
  show "page_values de p = Inr (map read_back ts)" using h rules reads_back by (rule page_values_spec)
  show "id_wf j \<Longrightarrow> page_get de p j = Inr (map_option read_back (lookup ts j))"
    using page_get_spec [OF h _ rules reads_back] by (simp add: lookup_def option.map_comp comp_def)
  show "tuple_fits t \<Longrightarrow> lookup ts (t_id t) = None \<Longrightarrow>
      (\<exists>q. page_add S t p = (Inr (), q) \<and> holds q (ins_tuple t ts))
      \<or> (\<exists>q. page_add S t p = (Inl PageCapacityError, q) \<and> holds q ts)"
    using page_add_spec [OF h rules, of t] by (cases "has_room p (t # ts)") (auto simp: lookup_def)
  show "tuple_fits t \<Longrightarrow> lookup ts (t_id t) = Some u \<Longrightarrow>
      \<exists>q. page_add S t p = (Inl (DuplicateKey (t_id t)), q) \<and> holds q ts"
    using page_add_spec [OF h rules, of t] by (auto simp: lookup_def)
  show "id_wf j \<Longrightarrow> lookup ts j = Some u \<Longrightarrow> \<exists>q. page_remove de j p = (Inr (read_back u), q) \<and> holds q (del_id j ts)"
    using page_remove_spec [OF h _ rules reads_back, of j] remove_found [OF holds_layout(2) [OF h], of j]
    by (auto simp: lookup_def)
  show "id_wf j \<Longrightarrow> lookup ts j = None \<Longrightarrow> \<exists>q. page_remove de j p = (Inl (KeyNotFound j), q) \<and> holds q ts"
    using page_remove_spec [OF h _ rules reads_back, of j] by (auto simp: lookup_def)
qed

context postcard_codec
begin

lemmas slotted_get_after_add = slotted.get_after_add
lemmas slotted_get_after_remove = slotted.get_after_remove
lemmas slotted_remove_undoes_add = slotted.remove_undoes_add

end

text \<open>The codec whose reader is the in-place reader of \<open>Tuple_Wire\<close>.\<close>

definition postcard_de :: "bytes \<Rightarrow> serr + tuple" where
  "postcard_de bs = r_bind (wire_read bs) (\<lambda>w. Inr (wire_into_owned w))"

lemma postcard_de_reads: "postcard_reads postcard postcard_de"
  unfolding postcard_reads_def
proof (intro allI impI)
  fix t bs assume t: "id_wf (t_id t)" "encode_into postcard t [] = Inr bs" "length bs < 2 ^ 64"
  then have bs: "bs = tuple_bytes t" by (simp add: encode_into_bytes [OF postcard_ok])
  have "length (id_bytes (t_id t)) < 2 ^ 64" using t(3) by (simp add: bs tuple_bytes_def)
  with wire_read_written(2) [OF t(1)] t(3) show "postcard_de bs = Inr (read_back t)"
    by (simp add: bs postcard_de_def wire_into_owned_def read_back_def wire_form_to_owned [OF t(1)])
qed

interpretation pc: postcard_codec postcard postcard_de
  by unfold_locales (rule postcard_ok, rule postcard_de_reads)

lemma holds_new:
  assumes "cap < 2 ^ 32"
  shows "holds (page_new cap) []"
proof -
  define p where "p = page_new cap"
  have "sp_buf p = blank_buffer cap cap" "sp_heap_start p = length (sp_buf p)" "sp_dead p = 0"
    "sp_prefixes p = []" "sp_id_ends p = []" by (simp_all add: p_def page_new_def Let_def)
  note E = empty_layout [OF this(1) assms assms this(2-5)]
  then show ?thesis using \<open>sp_prefixes p = []\<close> \<open>sp_id_ends p = []\<close>
    by (simp add: p_def [symmetric] holds_def sorted_ids_def)
qed

text \<open>
  C17. Adding to a page: an id already there is refused with \<open>DuplicateKey\<close>, a tuple for which
  there is no room even after compaction with \<open>PageCapacityError\<close>, and in both cases the page
  holds what it held; otherwise the tuple is inserted in id order and every other tuple kept.
  The buffer invariant (no overlap, every heap byte live or counted dead, arrays in step) is
  part of \<open>holds\<close> and is kept in every case.
\<close>

theorem page_add_refines:
  assumes "holds p ts" and "postcard_rules S" and "tuple_fits t"
  shows "\<exists>r q. page_add S t p = (r, q) \<and>
    (if lookup ts (t_id t) \<noteq> None then r = Inl (DuplicateKey (t_id t)) \<and> holds q ts
     else if has_room p (t # ts) then r = Inr () \<and> holds q (ins_tuple t ts)
     else r = Inl PageCapacityError \<and> holds q ts)"
  using page_add_spec [OF assms]
  by (cases "found_at ts (t_id t)"; cases "has_room p (t # ts)") (auto simp: lookup_def)

theorem page_add_refines_witness:
  "\<exists>q. page_add postcard (tuple_new postcard 5 [1]) (page_new 64) = (Inr (), q) \<and> holds q [tuple_new postcard 5 [1]]"
proof -
  have "tuple_fits (tuple_new postcard 5 [1])"
    by (simp add: tuple_fits_def tuple_bytes_def tuple_new_def new_with_def Let_def tuple_default_def id_bytes_def
        put_option_def put_varint.simps word_le_nat_alt)
  from page_add_refines [OF holds_new [of 64] postcard_ok this] show ?thesis
    by (simp add: lookup_def found_at_def has_room_def ins_tuple_def)
qed

text \<open>
  C18. Replacing a tuple by one with the same id: when the new bytes fit the old span, or would
  fit the page after compaction, or the page holds nothing else, the old tuple is returned and
  the new one takes its place, every other tuple kept; otherwise the answer is
  \<open>PageCapacityError\<close> and the page is not changed at all, not even compacted. An entry is
  never lost. One thing is not kept up: an overwrite in the old span leaves the cached end of
  the id, so that when the new tuple stores the id in another number of bytes (an id once stored
  in the older form) that one entry of \<open>id_ends\<close> is the old id's, all else being right; when the id
  takes as many bytes as before, nothing is amiss.
\<close>

theorem page_replace_atomic:
  assumes "holds p ts" and "id_wf j" and "replaces ts j t i" and "tuple_fits t"
    and "postcard_rules S" and "postcard_reads S de"
  shows "if length (tuple_bytes t) \<le> length (tuple_bytes (ts ! i))
    then \<exists>q. page_replace S de j t p = (Inr (read_back (ts ! i)), q) \<and> sp_id_ends q = sp_id_ends p
      \<and> holds (with_id_end i t q) (ts[i := t]) \<and> (id_len t = id_len (ts ! i) \<longrightarrow> holds q (ts[i := t]))
    else if has_room p (ts[i := t])
    then \<exists>q. page_replace S de j t p = (Inr (read_back (ts ! i)), q) \<and> holds q (ts[i := t])
    else page_replace S de j t p = (Inl PageCapacityError, p)"
  using assms by (rule page_replace_spec)

definition sample :: "bytes \<Rightarrow> tuple" where
  "sample data = tuple_new postcard 5 data"

lemma sample_bytes: "length data < 128 \<Longrightarrow> tuple_bytes (sample data) = [0, 5, 0, 0, word_of_nat (length data)] @ data @ [0]"
proof -
  assume len: "length data < 128"
  then have "(word_of_nat (length data) :: u64) < 0x80" by (simp add: word_less_nat_alt unsigned_of_nat take_bit_nat_eq_self)
  then have "\<not> 0x80 \<le> (word_of_nat (length data) :: u64)" by simp
  then have "put_varint [] (word_of_nat (length data)) = [word_of_nat (length data)]"
    using len by (subst put_varint.simps) (simp add: word_unat_eq_iff unsigned_ucast_eq unsigned_of_nat take_bit_nat_eq_self)
  then show ?thesis
    by (simp add: sample_def tuple_bytes_def tuple_new_def new_with_def Let_def tuple_default_def id_bytes_def
        put_option_def put_varint.simps [of _ 5])
qed

lemma sample_fits: "length data < 128 \<Longrightarrow> tuple_fits (sample data)"
  by (simp add: tuple_fits_def sample_bytes) (simp add: sample_def tuple_new_def new_with_def Let_def tuple_default_def)

lemma sample_id [simp]: "t_id (sample data) = IntId 5"
  by (simp add: sample_def tuple_new_def new_with_def Let_def tuple_default_def)

lemma sample_page: "\<exists>p. holds p [sample [1]]"
  using page_add_spec [OF holds_new [of 64] postcard_ok sample_fits [of "[1]"]]
  by (auto simp: found_at_def has_room_def ins_tuple_def)

theorem page_replace_atomic_witness:
  "\<exists>p q. holds p [sample [1]] \<and> page_replace postcard postcard_de (IntId 5) (sample [2, 3]) p = (Inr (read_back (sample [1])), q)
    \<and> holds q [sample [2, 3]]"
proof -
  obtain p where h: "holds p [sample [1]]" using sample_page by blast
  have "replaces [sample [1]] (IntId 5) (sample [2, 3]) 0"
    by (simp add: replaces_def found_at_def)
  from page_replace_atomic [OF h _ this sample_fits postcard_ok postcard_de_reads] h show ?thesis
    by (auto simp: has_room_def sample_bytes)
qed

text \<open>
  C19. A lookup finds what was added and nothing that was removed: after a successful \<open>add\<close> the
  tuple is found under its id and every other id as before; after a successful \<open>remove\<close> the id
  is gone, the removed tuple is what a lookup found before, and every other id is as before.
\<close>

theorem page_get_after_update:
  assumes "holds p ts" and "postcard_rules S" and "postcard_reads S de"
  shows "(\<forall>t q. tuple_fits t \<and> page_add S t p = (Inr (), q) \<longrightarrow>
      page_get de q (t_id t) = Inr (Some (read_back t))
      \<and> (\<forall>j. id_wf j \<and> dbid_cmp (t_id t) j \<noteq> Equal \<longrightarrow> page_get de q j = page_get de p j))
    \<and> (\<forall>j u q. id_wf j \<and> page_remove de j p = (Inr u, q) \<longrightarrow>
      page_get de p j = Inr (Some u) \<and> page_get de q j = Inr None
      \<and> (\<forall>k. id_wf k \<and> dbid_cmp k j \<noteq> Equal \<longrightarrow> page_get de q k = page_get de p k))"
proof -
  have pc: "postcard_codec S de" using assms(2,3) by (rule postcard_codec.intro)
  show ?thesis
    using postcard_codec.slotted_get_after_add [OF pc assms(1)] postcard_codec.slotted_get_after_remove [OF pc assms(1)]
    by blast
qed


theorem page_get_after_update_witness:
  "\<exists>q. page_add postcard (sample [1]) (page_new 64) = (Inr (), q)
    \<and> page_get postcard_de q (IntId 5) = Inr (Some (read_back (sample [1])))"
proof -
  have "holds (page_new 64) []" by (rule holds_new) simp
  moreover obtain q where "page_add postcard (sample [1]) (page_new 64) = (Inr (), q)"
    using page_add_spec [OF holds_new [of 64] postcard_ok sample_fits [of "[1]"]]
    by (auto simp: found_at_def has_room_def)
  ultimately show ?thesis
    using page_get_after_update [OF _ postcard_ok postcard_de_reads, of "page_new 64" "[]"] sample_fits [of "[1]"] by fastforce
qed

text \<open>
  C20. A page survives being written out and read in: reading the buffer of a page gives a page
  with the same buffer holding the same tuples, with its free-space accounting right again.
\<close>

theorem page_bytes_roundtrip:
  assumes "holds p ts"
  shows "\<exists>bs q. page_to_bytes p = Inr bs \<and> page_from_bytes bs = Inr q \<and> sp_buf q = bs \<and> holds q ts"
  using page_reload_spec [OF assms] by (auto simp: page_to_bytes_def)

theorem page_bytes_roundtrip_witness:
  "\<exists>p bs q. holds p [sample [1]] \<and> page_to_bytes p = Inr bs \<and> page_from_bytes bs = Inr q \<and> holds q [sample [1]]"
  using sample_page page_bytes_roundtrip [of _ "[sample [1]]"] by blast

text \<open>
  C21. Searching a page, by 16-byte prefixes with the ids read only on a tie, finds exactly what
  a scan of the sorted tuples would: \<open>find_exact\<close> and a hinted find (from any hint) the tuple
  with the id, \<open>seek\<close> the number of tuples before the bound, \<open>successor\<close> the first tuple past an
  id; and every search ends without an error.
\<close>

theorem page_search_exact:
  assumes "holds p ts" and "id_wf j" and "postcard_rules S" and "postcard_reads S de"
  shows "find_exact p j = Inr (position (\<lambda>t. dbid_cmp (t_id t) j = Equal) ts)
    \<and> find_hinted_ref p (Owned j) hint = find_exact p j
    \<and> seek p (Included j) = Inr (length (filter (\<lambda>t. dbid_cmp (t_id t) j = Less) ts))
    \<and> seek p (Excluded j) = Inr (length (filter (\<lambda>t. dbid_cmp (t_id t) j \<noteq> Greater) ts))
    \<and> page_successor de p j = Inr (map_option read_back (find (\<lambda>t. dbid_cmp (t_id t) j = Greater) ts))"
  using find_exact_found [OF assms(1,2)] find_hinted_spec [OF assms(1) lends_owned [OF assms(2)]]
    lower_bound_below [OF assms(1,2)] upper_bound_upto [OF assms(1,2)] page_successor_spec [OF assms]
  by (simp add: seek_def found_at_def below_def upto_key_def)

theorem page_search_exact_witness:
  "\<exists>p. holds p [sample [1]] \<and> find_exact p (IntId 5) = Inr (Some 0) \<and> find_hinted_ref p (Owned (IntId 5)) 3 = Inr (Some 0)
    \<and> seek p (Included (IntId 5)) = Inr 0 \<and> seek p (Excluded (IntId 5)) = Inr 1"
proof -
  obtain p where p: "holds p [sample [1]]" using sample_page by blast
  from page_search_exact [OF this _ postcard_ok postcard_de_reads, of "IntId 5" 3] show ?thesis
    by (intro exI [of _ p]) (simp add: p)
qed

text \<open>
  Truncating keeps the first tuples and appending encoded bytes past the last id adds that
  tuple, as a page split uses them; appending fails only for want of room, changing nothing.
\<close>

theorem page_truncate_append:
  assumes "holds p ts" and "tuple_fits t" and "\<forall>u \<in> set ts. dbid_cmp (t_id u) (t_id t) = Less"
  shows "fst (page_truncate n p) = Inr () \<and> holds (snd (page_truncate n p)) (take n ts)
    \<and> (\<exists>q. append_encoded (tuple_bytes t) p = ((if has_room p (t # ts) then Inr () else Inl PageCapacityError), q)
          \<and> holds q (if has_room p (t # ts) then ts @ [t] else ts))"
  using page_truncate_spec [OF assms(1)] page_append_spec [OF assms] by simp

theorem page_truncate_append_witness:
  "\<exists>q. append_encoded (tuple_bytes (sample [1])) (page_new 64) = (Inr (), q) \<and> holds q [sample [1]]"
  using page_truncate_append [OF holds_new [of 64] sample_fits [of "[1]"]] by (simp add: has_room_def)

end
