(* ===== verification/Kv_Map.thy ===== *)
theory Kv_Map
  imports Store_Prelude "HOL-Library.AList"
begin

text \<open>
  The keyed containers of the storage engine: an ordered map (the \<open>BTreeMap\<close> of the standard
  library, as a list of pairs ascending by key) and \<open>ShardedMap\<close> of \<open>utils/shardedmap.rs\<close>, a
  vector of hash maps of which a key's hash chooses one. The locale \<open>kv_map\<close> is what their
  clients rely on; both are shown to provide it.
\<close>

section \<open>The interface\<close>

locale kv_map =
  fixes wf :: "'m \<Rightarrow> bool"
    and get :: "'m \<Rightarrow> 'k \<Rightarrow> 'v option"
    and put :: "'k \<Rightarrow> 'v \<Rightarrow> 'm \<Rightarrow> 'm"
    and del :: "'k \<Rightarrow> 'm \<Rightarrow> 'm"
  assumes wf_put: "wf m \<Longrightarrow> wf (put k v m)"
    and wf_del: "wf m \<Longrightarrow> wf (del k m)"
    and get_put: "wf m \<Longrightarrow> get (put k v m) j = (if j = k then Some v else get m j)"
    and get_del: "wf m \<Longrightarrow> get (del k m) j = (if j = k then None else get m j)"
begin

definition alter :: "'k \<Rightarrow> ('v option \<Rightarrow> 'v option) \<Rightarrow> 'm \<Rightarrow> 'm" where
  "alter k f m = (case f (get m k) of None \<Rightarrow> del k m | Some v \<Rightarrow> put k v m)"

lemma wf_alter: "wf m \<Longrightarrow> wf (alter k f m)"
  by (simp add: alter_def wf_put wf_del split: option.split)

lemma get_alter: "wf m \<Longrightarrow> get (alter k f m) j = (if j = k then f (get m k) else get m j)"
  by (simp add: alter_def get_put get_del split: option.split)

lemma put_put_get: "wf m \<Longrightarrow> get (put k v (put k w m)) = get (put k v m)"
  by (rule ext) (simp add: get_put wf_put)

lemma put_commutes: "wf m \<Longrightarrow> k \<noteq> l \<Longrightarrow> get (put k v (put l w m)) = get (put l w (put k v m))"
  by (rule ext) (simp add: get_put wf_put)

lemma del_put_get: "wf m \<Longrightarrow> get m k = None \<Longrightarrow> get (del k (put k v m)) = get m"
  by (rule ext) (simp add: get_put get_del wf_put)

end

section \<open>An ordered map\<close>

type_synonym ('k, 'v) btree_map = "('k \<times> 'v) list"

definition bt_wf :: "('k::linorder, 'v) btree_map \<Rightarrow> bool" where
  "bt_wf m = sorted_wrt (<) (map fst m)"

abbreviation bt_get :: "('k, 'v) btree_map \<Rightarrow> 'k \<Rightarrow> 'v option" where
  "bt_get \<equiv> map_of"

fun bt_insert :: "'k::linorder \<Rightarrow> 'v \<Rightarrow> ('k, 'v) btree_map \<Rightarrow> ('k, 'v) btree_map" where
  "bt_insert k v [] = [(k, v)]"
| "bt_insert k v ((j, w) # m) =
     (if k < j then (k, v) # (j, w) # m
      else if k = j then (k, v) # m
      else (j, w) # bt_insert k v m)"

definition bt_remove :: "'k \<Rightarrow> ('k, 'v) btree_map \<Rightarrow> ('k, 'v) btree_map" where
  "bt_remove k m = filter (\<lambda>(j, _). j \<noteq> k) m"

definition bt_retain :: "('k \<Rightarrow> 'v \<Rightarrow> bool) \<Rightarrow> ('k, 'v) btree_map \<Rightarrow> ('k, 'v) btree_map" where
  "bt_retain keep m = filter (\<lambda>(j, w). keep j w) m"

definition bt_find :: "('v \<Rightarrow> bool) \<Rightarrow> ('k, 'v) btree_map \<Rightarrow> 'k option" where
  "bt_find q m = map_option fst (find (\<lambda>(_, w). q w) m)"

lemma bt_wf_Nil [simp]: "bt_wf []"
  by (simp add: bt_wf_def)

lemma bt_insert_keys: "fst ` set (bt_insert k v m) = insert k (fst ` set m)"
  by (induction k v m rule: bt_insert.induct) auto

lemma bt_wf_insert [simp]: "bt_wf m \<Longrightarrow> bt_wf (bt_insert k v m)"
  unfolding bt_wf_def
proof (induction k v m rule: bt_insert.induct)
  case (2 k v j w m)
  moreover have "\<forall>x \<in> fst ` set (bt_insert k v m). x = k \<or> x \<in> fst ` set m"
    by (simp add: bt_insert_keys)
  ultimately show ?case by (fastforce simp: not_less)
qed simp

lemma bt_wf_filter: "bt_wf m \<Longrightarrow> bt_wf (filter q m)"
  by (induction m) (auto simp: bt_wf_def)

lemma bt_wf_remove [simp]: "bt_wf m \<Longrightarrow> bt_wf (bt_remove k m)"
  by (simp add: bt_remove_def bt_wf_filter)

lemma bt_wf_retain [simp]: "bt_wf m \<Longrightarrow> bt_wf (bt_retain keep m)"
  by (simp add: bt_retain_def bt_wf_filter)

lemma bt_get_insert [simp]: "bt_get (bt_insert k v m) j = (if j = k then Some v else bt_get m j)"
  by (induction k v m rule: bt_insert.induct) auto

lemma bt_get_remove [simp]: "bt_get (bt_remove k m) j = (if j = k then None else bt_get m j)"
  by (induction m) (auto simp: bt_remove_def)

lemma bt_wf_distinct: "bt_wf m \<Longrightarrow> distinct (map fst m)"
  by (induction m) (auto simp: bt_wf_def)

lemma bt_get_mem: "bt_wf m \<Longrightarrow> bt_get m k = Some v \<longleftrightarrow> (k, v) \<in> set m"
  by (simp add: bt_wf_distinct)

lemma bt_get_retain:
  assumes "bt_wf m"
  shows "bt_get (bt_retain keep m) k =
    (case bt_get m k of None \<Rightarrow> None | Some v \<Rightarrow> if keep k v then Some v else None)"
proof -
  have "distinct (map fst m)" using assms by (rule bt_wf_distinct)
  then show ?thesis
    by (induction m) (auto simp: bt_retain_def map_of_eq_None_iff image_iff split: option.splits)
qed

text \<open>The first entry in key order is the one with the least key.\<close>

lemma bt_find_None: "bt_wf m \<Longrightarrow> bt_find q m = None \<longleftrightarrow> (\<forall>k v. bt_get m k = Some v \<longrightarrow> \<not> q v)"
  by (auto simp: bt_find_def find_None_iff bt_get_mem)

lemma bt_find_Some:
  assumes "bt_wf m" "bt_find q m = Some k"
  shows "\<exists>v. bt_get m k = Some v \<and> q v" and "bt_get m j = Some w \<Longrightarrow> q w \<Longrightarrow> k \<le> j"
proof -
  have "(\<exists>v. (k, v) \<in> set m \<and> q v) \<and> (\<forall>j w. (j, w) \<in> set m \<and> q w \<longrightarrow> k \<le> j)"
    using assms by (induction m) (force simp: bt_find_def bt_wf_def split: if_splits)+
  then show "\<exists>v. bt_get m k = Some v \<and> q v" and "bt_get m j = Some w \<Longrightarrow> q w \<Longrightarrow> k \<le> j"
    using assms(1) by (auto simp: bt_get_mem)
qed

interpretation bt: kv_map bt_wf bt_get bt_insert bt_remove
  by unfold_locales simp_all

section \<open>The sharded map\<close>

text \<open>
  A shard is a hash map, of which only lookup, insertion, removal and length are used; its
  entries are a list of pairs with distinct keys. \<open>hash\<close> stands for the key's hash.
\<close>

record ('k, 'v) sharded_map =
  sm_shards :: "('k \<times> 'v) list list"

definition sm_new :: "nat \<Rightarrow> ('k, 'v) sharded_map" where
  "sm_new shard_count = \<lparr>sm_shards = replicate (max shard_count 1) []\<rparr>"

definition shard_for :: "('k \<Rightarrow> u64) \<Rightarrow> ('k, 'v) sharded_map \<Rightarrow> 'k \<Rightarrow> nat" where
  "shard_for hash m k = unat (hash k) mod length (sm_shards m)"

definition sm_shard :: "('k \<Rightarrow> u64) \<Rightarrow> ('k, 'v) sharded_map \<Rightarrow> 'k \<Rightarrow> ('k \<times> 'v) list" where
  "sm_shard hash m k = sm_shards m ! shard_for hash m k"

definition sm_store :: "('k \<Rightarrow> u64) \<Rightarrow> 'k \<Rightarrow> ('k \<times> 'v) list \<Rightarrow> ('k, 'v) sharded_map \<Rightarrow> ('k, 'v) sharded_map" where
  "sm_store hash k es m = m\<lparr>sm_shards := (sm_shards m)[shard_for hash m k := es]\<rparr>"

definition sm_insert :: "('k \<Rightarrow> u64) \<Rightarrow> 'k \<Rightarrow> 'v \<Rightarrow> ('k, 'v) sharded_map \<Rightarrow> 'v option \<times> ('k, 'v) sharded_map" where
  "sm_insert hash k v m =
     (map_of (sm_shard hash m k) k, sm_store hash k (AList.update k v (sm_shard hash m k)) m)"

definition sm_remove :: "('k \<Rightarrow> u64) \<Rightarrow> 'k \<Rightarrow> ('k, 'v) sharded_map \<Rightarrow> 'v option \<times> ('k, 'v) sharded_map" where
  "sm_remove hash k m =
     (map_of (sm_shard hash m k) k, sm_store hash k (AList.delete k (sm_shard hash m k)) m)"

definition sm_get :: "('k \<Rightarrow> u64) \<Rightarrow> ('k, 'v) sharded_map \<Rightarrow> 'k \<Rightarrow> 'v option" where
  "sm_get hash m k = map_of (sm_shard hash m k) k"

definition sm_with_entry_or_default ::
    "('k \<Rightarrow> u64) \<Rightarrow> 'v \<Rightarrow> 'k \<Rightarrow> ('v \<Rightarrow> 'v) \<Rightarrow> ('k, 'v) sharded_map \<Rightarrow> ('k, 'v) sharded_map" where
  "sm_with_entry_or_default hash d k f m =
     (let es = sm_shard hash m k; v = (case map_of es k of Some v \<Rightarrow> v | None \<Rightarrow> d)
      in sm_store hash k (AList.update k (f v) es) m)"

definition sm_get_or_insert_with ::
    "('k \<Rightarrow> u64) \<Rightarrow> 'k \<Rightarrow> (unit \<Rightarrow> 'v) \<Rightarrow> ('k, 'v) sharded_map \<Rightarrow> 'v \<times> ('k, 'v) sharded_map" where
  "sm_get_or_insert_with hash k mk m =
     (case map_of (sm_shard hash m k) k of
        Some existing \<Rightarrow> (existing, m)
      | None \<Rightarrow> let v = mk () in (v, sm_store hash k (AList.update k v (sm_shard hash m k)) m))"

definition sm_len :: "('k, 'v) sharded_map \<Rightarrow> nat" where
  "sm_len m = sum_list (map length (sm_shards m))"

definition sm_contains_key :: "('k \<Rightarrow> u64) \<Rightarrow> ('k, 'v) sharded_map \<Rightarrow> 'k \<Rightarrow> bool" where
  "sm_contains_key hash m k = (map_of (sm_shard hash m k) k \<noteq> None)"

definition sm_with :: "('k \<Rightarrow> u64) \<Rightarrow> ('k, 'v) sharded_map \<Rightarrow> 'k \<Rightarrow> ('v option \<Rightarrow> 'r) \<Rightarrow> 'r" where
  "sm_with hash m k f = f (map_of (sm_shard hash m k) k)"

text \<open>Every entry is in the shard its key hashes to, once.\<close>

definition sm_wf :: "('k \<Rightarrow> u64) \<Rightarrow> ('k, 'v) sharded_map \<Rightarrow> bool" where
  "sm_wf hash m = (sm_shards m \<noteq> [] \<and> (\<forall>i < length (sm_shards m).
     distinct (map fst (sm_shards m ! i)) \<and> (\<forall>k \<in> fst ` set (sm_shards m ! i). shard_for hash m k = i)))"

lemma sm_wf_new [simp]: "sm_wf hash (sm_new n)"
  by (simp add: sm_wf_def sm_new_def)

lemma shard_for_less: "sm_wf hash m \<Longrightarrow> shard_for hash m k < length (sm_shards m)"
  by (simp add: sm_wf_def shard_for_def)

lemma shard_for_store [simp]: "shard_for hash (sm_store hash k es m) j = shard_for hash m j"
  by (simp add: shard_for_def sm_store_def)

lemma sm_shard_store:
  "sm_wf hash m \<Longrightarrow> sm_shard hash (sm_store hash k es m) j =
    (if shard_for hash m j = shard_for hash m k then es else sm_shard hash m j)"
  using shard_for_less [of hash m k] by (simp add: sm_shard_def) (simp add: sm_store_def)

lemma sm_wf_store:
  assumes "sm_wf hash m" "distinct (map fst es)" "fst ` set es \<subseteq> insert k (fst ` set (sm_shard hash m k))"
  shows "sm_wf hash (sm_store hash k es m)"
proof -
  have "\<forall>j \<in> fst ` set es. shard_for hash m j = shard_for hash m k"
    using assms shard_for_less [OF assms(1), of k] by (force simp: sm_wf_def sm_shard_def)
  then show ?thesis
    using assms by (auto simp: sm_wf_def nth_list_update sm_store_def shard_for_def)
qed

lemma sm_shard_distinct: "sm_wf hash m \<Longrightarrow> distinct (map fst (sm_shard hash m k))"
  using shard_for_less [of hash m k] by (simp add: sm_wf_def sm_shard_def)

lemma sm_shard_same: "shard_for hash m j = shard_for hash m k \<Longrightarrow> sm_shard hash m j = sm_shard hash m k"
  by (simp add: sm_shard_def)

lemma sm_wf_update: "sm_wf hash m \<Longrightarrow> sm_wf hash (sm_store hash k (AList.update k v (sm_shard hash m k)) m)"
  by (rule sm_wf_store) (auto simp: distinct_update sm_shard_distinct dom_update)

lemma sm_wf_delete: "sm_wf hash m \<Longrightarrow> sm_wf hash (sm_store hash k (AList.delete k (sm_shard hash m k)) m)"
  by (rule sm_wf_store) (use dom_delete_subset [of k "sm_shard hash m k"] in
    \<open>auto intro: distinct_delete sm_shard_distinct\<close>)

lemma sm_get_update:
  "sm_wf hash m \<Longrightarrow> sm_get hash (sm_store hash k (AList.update k v (sm_shard hash m k)) m) = (sm_get hash m)(k \<mapsto> v)"
  by (rule ext) (auto simp: sm_get_def sm_shard_store update_conv' dest: sm_shard_same)

lemma sm_get_delete:
  "sm_wf hash m \<Longrightarrow> sm_get hash (sm_store hash k (AList.delete k (sm_shard hash m k)) m) = (sm_get hash m)(k := None)"
  by (rule ext) (auto simp: sm_get_def sm_shard_store delete_conv' dest: sm_shard_same)

interpretation sm: kv_map "sm_wf hash" "sm_get hash" "\<lambda>k v m. snd (sm_insert hash k v m)"
    "\<lambda>k m. snd (sm_remove hash k m)" for hash :: "'k \<Rightarrow> u64"
  by unfold_locales
    (simp_all add: sm_insert_def sm_remove_def sm_wf_update sm_wf_delete sm_get_update sm_get_delete)

text \<open>The keys of a sharded map are the keys of its shards, no key in two of them.\<close>

lemma sm_get_in_shard:
  assumes "sm_wf hash m" "i < length (sm_shards m)" "(k, v) \<in> set (sm_shards m ! i)"
  shows "sm_get hash m k = Some v" and "shard_for hash m k = i"
proof -
  show i: "shard_for hash m k = i" using assms by (force simp: sm_wf_def)
  show "sm_get hash m k = Some v"
    using assms i sm_shard_distinct [OF assms(1), of k] by (simp add: sm_get_def sm_shard_def)
qed

lemma sm_dom: "sm_wf hash m \<Longrightarrow> dom (sm_get hash m) = (\<Union>i < length (sm_shards m). fst ` set (sm_shards m ! i))"
proof (rule set_eqI, rule iffI)
  fix k assume wf: "sm_wf hash m" and "k \<in> dom (sm_get hash m)"
  then obtain v where "(k, v) \<in> set (sm_shards m ! shard_for hash m k)"
    unfolding sm_get_def sm_shard_def by (blast dest: map_of_SomeD)
  then show "k \<in> (\<Union>i < length (sm_shards m). fst ` set (sm_shards m ! i))"
    using shard_for_less [OF wf, of k] by force
qed (use sm_get_in_shard(1) in fastforce)

lemma card_disjoint_lists:
  assumes "\<And>i. i < length xss \<Longrightarrow> distinct (map fst (xss ! i))"
    and "\<And>i j k. i < length xss \<Longrightarrow> j < length xss \<Longrightarrow> k \<in> fst ` set (xss ! i) \<Longrightarrow> k \<in> fst ` set (xss ! j) \<Longrightarrow> i = j"
  shows "card (\<Union>i < length xss. fst ` set (xss ! i)) = sum_list (map length xss)"
proof -
  have one: "card (fst ` set (xss ! i)) = length (xss ! i)" if "i < length xss" for i
    using assms(1) [OF that] by (metis distinct_card length_map list.set_map)
  have "card (\<Union>i < length xss. fst ` set (xss ! i)) = (\<Sum>i < length xss. card (fst ` set (xss ! i)))"
    using assms(2) by (intro card_UN_disjoint) blast+
  also have "\<dots> = (\<Sum>i < length xss. length (xss ! i))" using one by simp
  also have "\<dots> = sum_list (map length xss)" by (simp add: sum_list_sum_nth atLeast0LessThan)
  finally show ?thesis .
qed

lemma sm_len_dom: "sm_wf hash m \<Longrightarrow> sm_len m = card (dom (sm_get hash m))"
  unfolding sm_dom sm_len_def
proof (rule card_disjoint_lists [symmetric])
  fix i j k assume wf: "sm_wf hash m" and i: "i < length (sm_shards m)" and j: "j < length (sm_shards m)"
    and "k \<in> fst ` set (sm_shards m ! i)" "k \<in> fst ` set (sm_shards m ! j)"
  then obtain v w where "(k, v) \<in> set (sm_shards m ! i)" "(k, w) \<in> set (sm_shards m ! j)" by auto
  then show "i = j" using sm_get_in_shard(2) [OF wf i] sm_get_in_shard(2) [OF wf j] by blast
qed (simp add: sm_wf_def)

text \<open>
  C22. A sharded map is a map: whatever the hash and the number of shards, every operation acts
  on the lookup function as the map operation it is named for, returns the value that was there,
  keeps every entry in the shard it belongs to, and the length is the number of keys.
\<close>

theorem sharded_map_refines_map:
  assumes "sm_wf hash m"
  shows "fst (sm_insert hash k v m) = sm_get hash m k
    \<and> sm_get hash (snd (sm_insert hash k v m)) = (sm_get hash m)(k \<mapsto> v) \<and> sm_wf hash (snd (sm_insert hash k v m))
    \<and> fst (sm_remove hash k m) = sm_get hash m k
    \<and> sm_get hash (snd (sm_remove hash k m)) = (sm_get hash m)(k := None) \<and> sm_wf hash (snd (sm_remove hash k m))
    \<and> sm_get hash (sm_with_entry_or_default hash d k f m)
        = (sm_get hash m)(k \<mapsto> f (case sm_get hash m k of Some w \<Rightarrow> w | None \<Rightarrow> d))
    \<and> sm_wf hash (sm_with_entry_or_default hash d k f m)
    \<and> fst (sm_get_or_insert_with hash k mk m) = (case sm_get hash m k of Some w \<Rightarrow> w | None \<Rightarrow> mk ())
    \<and> sm_get hash (snd (sm_get_or_insert_with hash k mk m))
        = (sm_get hash m)(k \<mapsto> fst (sm_get_or_insert_with hash k mk m))
    \<and> sm_wf hash (snd (sm_get_or_insert_with hash k mk m))
    \<and> sm_len m = card (dom (sm_get hash m))
    \<and> sm_contains_key hash m k = (k \<in> dom (sm_get hash m)) \<and> sm_with hash m k g = g (sm_get hash m k)"
  using assms
  by (auto simp: sm_insert_def sm_remove_def sm_with_entry_or_default_def sm_get_or_insert_with_def Let_def
      sm_wf_update sm_wf_delete sm_get_update sm_get_delete sm_len_dom sm_contains_key_def sm_with_def
      sm_get_def [symmetric] split: option.splits)

theorem sharded_map_refines_map_witness:
  "sm_get id (snd (sm_insert id 5 ''b'' (snd (sm_insert id 21 ''a'' (sm_new 16))))) = [21 :: u64 \<mapsto> ''a'', 5 \<mapsto> ''b'']"
proof -
  let ?one = "snd (sm_insert (id :: u64 \<Rightarrow> u64) 21 ''a'' (sm_new 16))"
  have new: "sm_wf (id :: u64 \<Rightarrow> u64) (sm_new 16)" by simp
  have one: "sm_get id ?one = (sm_get id (sm_new 16))(21 \<mapsto> ''a'')" and wf: "sm_wf id ?one"
    using sharded_map_refines_map [OF new, of 21 "''a''"] by blast+
  have "sm_get id (snd (sm_insert id 5 ''b'' ?one)) = (sm_get id ?one)(5 \<mapsto> ''b'')"
    using sharded_map_refines_map [OF wf, of 5 "''b''"] by blast
  moreover have "sm_get (id :: u64 \<Rightarrow> u64) (sm_new 16 :: (u64, string) sharded_map) = (\<lambda>_. None)"
    by (rule ext) (simp add: sm_get_def sm_shard_def sm_new_def shard_for_def)
  ultimately show ?thesis by (simp only: one)
qed

end
