(* ===== verification/Txn_Manager.thy ===== *)
theory Txn_Manager
  imports Kv_Map Key_Code
begin

text \<open>
  Transactions: the one counter of \<open>logger.rs\<close> (\<open>LsnClock\<close>) that record numbers, transaction
  ids and commit timestamps are drawn from, and the transaction table of \<open>txn.rs\<close>
  (\<open>TransactionManager\<close>, \<open>Snapshot\<close>). Every operation of the manager that changes its state
  holds the lock on the table from beginning to end, so each is one function on the state; the
  two loops that wait on other threads (\<open>is_visible\<close> and the clock's waits) read a sequence of
  states.

  A snapshot is shared: the table and every scan that holds it see one \<open>active\<close> flag. So the
  snapshots live in a store of their own, \<open>tm_arcs\<close>, and the table maps a transaction to the
  place of its snapshot there.
\<close>

section \<open>The clock\<close>

record lsn_clock =
  lc_counter :: u64
  lc_last_written :: u64
  lc_queued :: u64
  lc_synced :: u64

definition clock_default :: lsn_clock where
  "clock_default = \<lparr>lc_counter = 1, lc_last_written = 0, lc_queued = 0, lc_synced = 0\<rparr>"

definition next_lsn :: "lsn_clock \<Rightarrow> u64 \<times> lsn_clock" where
  "next_lsn c = (lc_counter c, c\<lparr>lc_counter := lc_counter c + 1\<rparr>)"

definition next_value :: "lsn_clock \<Rightarrow> u64" where
  "next_value c = lc_counter c"

definition last_written :: "lsn_clock \<Rightarrow> u64" where
  "last_written c = lc_last_written c"

definition nothing_pending :: "lsn_clock \<Rightarrow> bool" where
  "nothing_pending c = (lc_synced c \<ge> lc_queued c)"

definition mark_written :: "u64 \<Rightarrow> lsn_clock \<Rightarrow> lsn_clock" where
  "mark_written lsn c = c\<lparr>lc_last_written := max (lc_last_written c) lsn\<rparr>"

definition is_durable :: "lsn_clock \<Rightarrow> u64 \<Rightarrow> bool" where
  "is_durable c lsn = (lc_last_written c \<ge> lsn)"

definition advance_counter_past :: "u64 \<Rightarrow> lsn_clock \<Rightarrow> lsn_clock" where
  "advance_counter_past lsn c = c\<lparr>lc_counter := max (lc_counter c) (lsn + 1)\<rparr>"

definition seed :: "u64 \<Rightarrow> lsn_clock \<Rightarrow> lsn_clock" where
  "seed n c =
     (let n' = max n 1
      in mark_written (n' - 1) (c\<lparr>lc_counter := max (lc_counter c) n'\<rparr>))"

text \<open>
  The two waits poll the clock as other threads advance it: \<open>cs i\<close> is what the \<open>i\<close>-th look
  reads. Not returning is the value None.
\<close>

partial_function (option) wait_until_durable :: "(nat \<Rightarrow> lsn_clock) \<Rightarrow> nat \<Rightarrow> u64 \<Rightarrow> unit option" where
  "wait_until_durable cs i lsn = (if is_durable (cs i) lsn then Some () else wait_until_durable cs (i + 1) lsn)"

partial_function (option) wait_until_synced :: "(nat \<Rightarrow> lsn_clock) \<Rightarrow> nat \<Rightarrow> u64 \<Rightarrow> unit option" where
  "wait_until_synced cs i ticket =
     (if lc_synced (cs i) \<ge> ticket then Some () else wait_until_synced cs (i + 1) ticket)"

section \<open>The transaction table\<close>

datatype conflict_policy = ContinueOnConflict | AbortOnConflict

type_synonym txn_id = u64

datatype txn_state =
  Active conflict_policy
| Aborting
| Committed u64
| Committing u64 conflict_policy
| Aborted u64

fun is_active_state :: "txn_state \<Rightarrow> bool" where
  "is_active_state (Active _) = True"
| "is_active_state _ = False"

record snapshot =
  sn_reader :: txn_id
  sn_unfinished :: "txn_id list"
  sn_committing :: "txn_id list"
  sn_active :: bool

record txn_mgr =
  tm_clock :: lsn_clock
  tm_states :: "(txn_id, txn_state) btree_map"
  tm_arcs :: "txn_id \<rightharpoonup> snapshot"
  tm_snapshots :: "txn_id \<rightharpoonup> txn_id"

text \<open>The standard library's binary search of a sorted slice: whether the value is in it.\<close>

function bs_loop :: "'a::linorder list \<Rightarrow> 'a \<Rightarrow> nat \<Rightarrow> nat \<Rightarrow> bool" where
  "bs_loop xs x lo hi =
     (if lo < hi \<and> hi \<le> length xs then
        let mid = lo + (hi - lo) div 2 in
        if xs ! mid = x then True
        else if xs ! mid < x then bs_loop xs x (mid + 1) hi
        else bs_loop xs x lo mid
      else False)"
  by pat_completeness auto
termination by (relation "measure (\<lambda>(xs, x, lo, hi). hi - lo)") auto

declare bs_loop.simps [simp del]

definition binary_search :: "'a::linorder list \<Rightarrow> 'a \<Rightarrow> bool" where
  "binary_search xs x = bs_loop xs x 0 (length xs)"

definition sees :: "snapshot \<Rightarrow> txn_id \<Rightarrow> bool option" where
  "sees s writer =
     (if writer = sn_reader s then Some True
      else if writer > sn_reader s \<or> binary_search (sn_unfinished s) writer then Some False
      else if binary_search (sn_committing s) writer then None
      else Some True)"

definition tm_new :: "lsn_clock \<Rightarrow> txn_mgr" where
  "tm_new c = \<lparr>tm_clock = c, tm_states = [], tm_arcs = Map.empty, tm_snapshots = Map.empty\<rparr>"

definition state_of :: "txn_mgr \<Rightarrow> txn_id \<Rightarrow> txn_state option" where
  "state_of m t = bt_get (tm_states m) t"

definition put_state :: "txn_id \<Rightarrow> txn_state \<Rightarrow> txn_mgr \<Rightarrow> txn_mgr" where
  "put_state t s m = m\<lparr>tm_states := bt_insert t s (tm_states m)\<rparr>"

definition drop_state :: "txn_id \<Rightarrow> txn_mgr \<Rightarrow> txn_mgr" where
  "drop_state t m = m\<lparr>tm_states := bt_remove t (tm_states m)\<rparr>"

definition mint :: "txn_mgr \<Rightarrow> u64 \<times> txn_mgr" where
  "mint m = (let (n, c) = next_lsn (tm_clock m) in (n, m\<lparr>tm_clock := c\<rparr>))"

definition active_count :: "txn_mgr \<Rightarrow> nat" where
  "active_count m = length (filter (\<lambda>(_, s). is_active_state s) (tm_states m))"

definition aborting_count :: "txn_mgr \<Rightarrow> nat" where
  "aborting_count m = length (filter (\<lambda>(_, s). s = Aborting) (tm_states m))"

definition committed_retained :: "txn_mgr \<Rightarrow> nat" where
  "committed_retained m = length (filter (\<lambda>(_, s). case s of Committed _ \<Rightarrow> True | _ \<Rightarrow> False) (tm_states m))"

definition oldest_in_flight :: "txn_mgr \<Rightarrow> u64 option" where
  "oldest_in_flight m =
     bt_find (\<lambda>s. case s of Active _ \<Rightarrow> True | Committing _ _ \<Rightarrow> True | Aborting \<Rightarrow> True | _ \<Rightarrow> False) (tm_states m)"

definition oldest_active :: "txn_mgr \<Rightarrow> u64 option" where
  "oldest_active m = bt_find is_active_state (tm_states m)"

definition horizon :: "txn_mgr \<Rightarrow> u64" where
  "horizon m =
     (case bt_find is_active_state (tm_states m) of Some t \<Rightarrow> t | None \<Rightarrow> next_value (tm_clock m))"

definition get_active_transactions :: "txn_mgr \<Rightarrow> txn_id set" where
  "get_active_transactions m = set (map fst (filter (\<lambda>(_, s). is_active_state s) (tm_states m)))"

definition create_transaction :: "conflict_policy \<Rightarrow> txn_mgr \<Rightarrow> (serr + txn_id) \<times> txn_mgr" where
  "create_transaction policy m =
     (let (t, m1) = mint m;
          unfinished = map fst (filter (\<lambda>(_, s). case s of Committed _ \<Rightarrow> False | Committing _ _ \<Rightarrow> False | _ \<Rightarrow> True) (tm_states m1));
          committing = map fst (filter (\<lambda>(_, s). case s of Committing _ _ \<Rightarrow> True | _ \<Rightarrow> False) (tm_states m1));
          m2 = put_state t (Active policy) m1;
          snap = \<lparr>sn_reader = t, sn_unfinished = unfinished, sn_committing = committing, sn_active = True\<rparr>
      in (Inr t, m2\<lparr>tm_arcs := (tm_arcs m2)(t \<mapsto> snap), tm_snapshots := (tm_snapshots m2)(t \<mapsto> t)\<rparr>))"

definition take_snapshot :: "txn_mgr \<Rightarrow> txn_id \<Rightarrow> snapshot option" where
  "take_snapshot m t =
     (case tm_snapshots m t of
        None \<Rightarrow> None
      | Some a \<Rightarrow> (case tm_arcs m a of
            None \<Rightarrow> None
          | Some s \<Rightarrow> if sn_active s then Some s else None))"

definition set_active :: "txn_id \<Rightarrow> bool \<Rightarrow> bool \<Rightarrow> txn_mgr \<Rightarrow> txn_mgr" where
  "set_active t active for_good m =
     (let m1 = (case tm_snapshots m t of
                  None \<Rightarrow> m
                | Some a \<Rightarrow> m\<lparr>tm_arcs := (tm_arcs m)(a := map_option (\<lambda>s. s\<lparr>sn_active := active\<rparr>) (tm_arcs m a))\<rparr>)
      in if for_good then m1\<lparr>tm_snapshots := (tm_snapshots m1)(t := None)\<rparr> else m1)"

definition is_transaction_active :: "txn_mgr \<Rightarrow> txn_id \<Rightarrow> bool" where
  "is_transaction_active m t = (case state_of m t of Some (Active _) \<Rightarrow> True | _ \<Rightarrow> False)"

definition conflict_policy_of :: "txn_mgr \<Rightarrow> txn_id \<Rightarrow> conflict_policy" where
  "conflict_policy_of m t = (case state_of m t of Some (Active p) \<Rightarrow> p | _ \<Rightarrow> ContinueOnConflict)"

definition is_committed :: "txn_mgr \<Rightarrow> txn_id \<Rightarrow> bool" where
  "is_committed m t = (case state_of m t of None \<Rightarrow> True | Some (Committed _) \<Rightarrow> True | _ \<Rightarrow> False)"

text \<open>One turn of \<open>is_visible\<close>'s loop; None is the turn that yields and looks again.\<close>

definition visible_now :: "txn_mgr \<Rightarrow> txn_id \<Rightarrow> txn_id \<Rightarrow> bool option" where
  "visible_now m writer reader =
     (if writer = reader then Some True
      else case state_of m writer of
        None \<Rightarrow> Some True
      | Some (Committed commit_ts) \<Rightarrow> Some (commit_ts < reader)
      | Some (Committing commit_ts _) \<Rightarrow> if commit_ts > reader then Some False else None
      | Some _ \<Rightarrow> Some False)"

partial_function (option) is_visible :: "(nat \<Rightarrow> txn_mgr) \<Rightarrow> nat \<Rightarrow> txn_id \<Rightarrow> txn_id \<Rightarrow> bool option" where
  "is_visible ms i writer reader =
     (case visible_now (ms i) writer reader of
        Some b \<Rightarrow> Some b
      | None \<Rightarrow> is_visible ms (i + 1) writer reader)"

definition conflicts :: "txn_mgr \<Rightarrow> txn_id \<Rightarrow> txn_id \<Rightarrow> bool" where
  "conflicts m writer me =
     (if writer = me then False
      else case state_of m writer of
        None \<Rightarrow> False
      | Some (Committed commit_ts) \<Rightarrow> commit_ts > me
      | Some _ \<Rightarrow> True)"

definition begin_commit :: "txn_id \<Rightarrow> txn_mgr \<Rightarrow> (serr + u64) \<times> txn_mgr" where
  "begin_commit t m =
     (case state_of m t of
        Some (Active policy) \<Rightarrow>
          let (commit_ts, m1) = mint m
          in (Inr commit_ts, set_active t False False (put_state t (Committing commit_ts policy) m1))
      | _ \<Rightarrow> (Inl TransactionAlreadyFinished, m))"

definition finish_commit :: "txn_id \<Rightarrow> bool \<Rightarrow> txn_mgr \<Rightarrow> txn_mgr" where
  "finish_commit t logged m =
     (case state_of m t of
        Some (Committing commit_ts policy) \<Rightarrow>
          set_active t (\<not> logged) logged (put_state t (if logged then Committed commit_ts else Active policy) m)
      | _ \<Rightarrow> m)"

definition txn_commit :: "txn_id \<Rightarrow> u64 \<Rightarrow> txn_mgr \<Rightarrow> (serr + unit) \<times> txn_mgr" where
  "txn_commit t commit_ts m =
     (case state_of m t of
        Some (Active _) \<Rightarrow> (Inr (), set_active t False True (put_state t (Committed commit_ts) m))
      | _ \<Rightarrow> (Inl TransactionAlreadyFinished, m))"

definition prune_keeps :: "u64 option \<Rightarrow> txn_state \<Rightarrow> bool" where
  "prune_keeps h s =
     (case s of
        Committed commit_ts \<Rightarrow> (case h of Some h \<Rightarrow> commit_ts \<ge> h | None \<Rightarrow> False)
      | Aborted at \<Rightarrow> (case h of Some h \<Rightarrow> h < at | None \<Rightarrow> False)
      | _ \<Rightarrow> True)"

definition prune_committed :: "txn_mgr \<Rightarrow> txn_id list \<times> txn_mgr" where
  "prune_committed m =
     (let h = bt_find is_active_state (tm_states m)
      in (map fst (filter (\<lambda>(_, s). (case s of Aborted _ \<Rightarrow> \<not> prune_keeps h s | _ \<Rightarrow> False)) (tm_states m)),
          m\<lparr>tm_states := bt_retain (\<lambda>_. prune_keeps h) (tm_states m)\<rparr>))"

definition txn_abort :: "txn_id \<Rightarrow> txn_mgr \<Rightarrow> (serr + unit) \<times> txn_mgr" where
  "txn_abort t m =
     (case state_of m t of
        Some (Active _) \<Rightarrow> (Inr (), set_active t False True (put_state t Aborting m))
      | _ \<Rightarrow> (Inl TransactionAlreadyFinished, m))"

definition finish_rolled_back :: "txn_id \<Rightarrow> txn_mgr \<Rightarrow> txn_mgr" where
  "finish_rolled_back t m = set_active t False True (drop_state t m)"

definition end_read_only :: "txn_id \<Rightarrow> txn_mgr \<Rightarrow> bool \<times> txn_mgr" where
  "end_read_only t m =
     (case state_of m t of
        Some (Active _) \<Rightarrow> (True, set_active t False True (drop_state t m))
      | _ \<Rightarrow> (False, m))"

definition abort_complete :: "txn_id \<Rightarrow> bool \<Rightarrow> txn_mgr \<Rightarrow> bool \<times> txn_mgr" where
  "abort_complete t wrote m =
     (let readers = (\<exists>(j, s) \<in> set (tm_states m). j \<noteq> t \<and> is_active_state s)
      in if wrote \<and> readers \<and> state_of m t \<noteq> None
         then (False, put_state t (Aborted (next_value (tm_clock m))) m)
         else (True, set_active t False True (drop_state t m)))"

definition aborting_ids :: "txn_mgr \<Rightarrow> txn_id list" where
  "aborting_ids m = map fst (filter (\<lambda>(_, s). s = Aborting) (tm_states m))"

definition txn_rollback :: "txn_id \<Rightarrow> txn_mgr \<Rightarrow> (serr + unit) \<times> txn_mgr" where
  "txn_rollback t m = txn_abort t m"

text \<open>The bookkeeping-only sink: a commit draws its timestamp, then marks the transaction.\<close>

definition sink_commit_id :: "txn_id \<Rightarrow> txn_mgr \<Rightarrow> (serr + unit) \<times> txn_mgr" where
  "sink_commit_id t m = (let (ts, m1) = mint m in txn_commit t ts m1)"

definition sink_abort_id :: "txn_id \<Rightarrow> txn_mgr \<Rightarrow> (serr + unit) \<times> txn_mgr" where
  "sink_abort_id t m = txn_abort t m"

section \<open>What each operation changes\<close>

abbreviation counter_of :: "txn_mgr \<Rightarrow> u64" where
  "counter_of m \<equiv> lc_counter (tm_clock m)"

named_theorems tm_simps \<open>the observable parts of a transaction manager after an elementary change\<close>

lemma mint_simps [tm_simps]:
  "fst (mint m) = counter_of m" "counter_of (snd (mint m)) = counter_of m + 1"
  "tm_states (snd (mint m)) = tm_states m" "tm_arcs (snd (mint m)) = tm_arcs m"
  "tm_snapshots (snd (mint m)) = tm_snapshots m" "state_of (snd (mint m)) t = state_of m t"
  by (simp_all add: mint_def next_lsn_def state_of_def)

lemma put_state_simps [tm_simps]:
  "tm_clock (put_state t s m) = tm_clock m" "tm_arcs (put_state t s m) = tm_arcs m"
  "tm_snapshots (put_state t s m) = tm_snapshots m"
  "state_of (put_state t s m) j = (if j = t then Some s else state_of m j)"
  "bt_wf (tm_states m) \<Longrightarrow> bt_wf (tm_states (put_state t s m))"
  by (simp_all add: put_state_def state_of_def)

lemma drop_state_simps [tm_simps]:
  "tm_clock (drop_state t m) = tm_clock m" "tm_arcs (drop_state t m) = tm_arcs m"
  "tm_snapshots (drop_state t m) = tm_snapshots m"
  "state_of (drop_state t m) j = (if j = t then None else state_of m j)"
  "bt_wf (tm_states m) \<Longrightarrow> bt_wf (tm_states (drop_state t m))"
  by (simp_all add: drop_state_def state_of_def)

lemma set_active_simps [tm_simps]:
  "tm_clock (set_active t a g m) = tm_clock m" "tm_states (set_active t a g m) = tm_states m"
  "state_of (set_active t a g m) j = state_of m j"
  "tm_snapshots (set_active t a g m) = (if g then (tm_snapshots m)(t := None) else tm_snapshots m)"
  by (simp_all add: set_active_def state_of_def Let_def split: option.split)

lemma set_active_arcs:
  "tm_arcs (set_active t a g m) =
    (case tm_snapshots m t of None \<Rightarrow> tm_arcs m
     | Some x \<Rightarrow> (tm_arcs m)(x := map_option (\<lambda>s. s\<lparr>sn_active := a\<rparr>) (tm_arcs m x)))"
  by (simp add: set_active_def Let_def split: option.split)

lemma active_iff: "is_transaction_active m t \<longleftrightarrow> (\<exists>p. state_of m t = Some (Active p))"
  by (simp add: is_transaction_active_def split: option.split txn_state.split)

lemma is_active_state_iff: "is_active_state s \<longleftrightarrow> (\<exists>p. s = Active p)"
  by (cases s) auto

lemma active_simps [tm_simps]:
  "is_transaction_active (put_state t s m) j = (if j = t then is_active_state s else is_transaction_active m j)"
  "is_transaction_active (drop_state t m) j = (j \<noteq> t \<and> is_transaction_active m j)"
  "is_transaction_active (set_active t a g m) j = is_transaction_active m j"
  "is_transaction_active (snd (mint m)) j = is_transaction_active m j"
  by (simp_all add: active_iff is_active_state_iff tm_simps)

section \<open>The table's invariant\<close>

text \<open>A transaction whose snapshot is registered: running, or partway through its commit.\<close>

fun in_progress :: "txn_state \<Rightarrow> bool" where
  "in_progress (Active _) = True"
| "in_progress (Committing _ _) = True"
| "in_progress _ = False"

text \<open>The timestamps in a state are after the transaction began and already drawn.\<close>

fun stamps :: "txn_id \<Rightarrow> u64 \<Rightarrow> txn_state \<Rightarrow> bool" where
  "stamps t n (Committed ts) = (t < ts \<and> ts < n)"
| "stamps t n (Committing ts _) = (t < ts \<and> ts < n)"
| "stamps t n (Aborted at) = (t < at \<and> at \<le> n)"
| "stamps _ _ _ = True"

definition snap_wf :: "txn_mgr \<Rightarrow> txn_id \<Rightarrow> snapshot \<Rightarrow> bool" where
  "snap_wf m t sn = (t < counter_of m \<and> sn_reader sn = t \<and> sn_active sn = is_transaction_active m t
     \<and> sorted_wrt (<) (sn_unfinished sn) \<and> sorted_wrt (<) (sn_committing sn)
     \<and> (\<forall>x \<in> set (sn_unfinished sn) \<union> set (sn_committing sn). x < t))"

definition tm_wf :: "txn_mgr \<Rightarrow> bool" where
  "tm_wf m = (bt_wf (tm_states m)
     \<and> (\<forall>t s. state_of m t = Some s \<longrightarrow> t < counter_of m \<and> stamps t (counter_of m) s \<and> tm_arcs m t \<noteq> None)
     \<and> (\<forall>t. tm_snapshots m t = (case state_of m t of Some s \<Rightarrow> if in_progress s then Some t else None | None \<Rightarrow> None))
     \<and> (\<forall>t sn. tm_arcs m t = Some sn \<longrightarrow> snap_wf m t sn))"

lemma tm_wf_new: "tm_wf (tm_new c)"
  by (simp add: tm_wf_def tm_new_def state_of_def)

lemma tm_wfD:
  assumes "tm_wf m"
  shows "bt_wf (tm_states m)"
    and "state_of m t = Some s \<Longrightarrow> t < counter_of m"
    and "state_of m t = Some s \<Longrightarrow> stamps t (counter_of m) s"
    and "state_of m t = Some s \<Longrightarrow> tm_arcs m t \<noteq> None"
    and "tm_snapshots m t = (case state_of m t of Some s \<Rightarrow> if in_progress s then Some t else None | None \<Rightarrow> None)"
    and "tm_arcs m t = Some sn \<Longrightarrow> snap_wf m t sn"
  using assms by (simp_all add: tm_wf_def)

lemma is_active_state_in_progress: "is_active_state s \<Longrightarrow> in_progress s"
  by (cases s) auto

text \<open>The elementary moves that keep it: a transaction changes state, or is forgotten.\<close>

lemma tm_wf_move:
  assumes wf: "tm_wf m" and "state_of m t = Some s0" "in_progress s0" and "stamps t (counter_of m) s"
  shows "tm_wf (set_active t (is_active_state s) (\<not> in_progress s) (put_state t s m))"
proof -
  let ?m = "set_active t (is_active_state s) (\<not> in_progress s) (put_state t s m)"
  have arcs: "tm_arcs ?m = (tm_arcs m)(t := map_option (\<lambda>x. x\<lparr>sn_active := is_active_state s\<rparr>) (tm_arcs m t))"
    using assms tm_wfD(5) [OF wf, of t] by (simp add: set_active_arcs tm_simps)
  have "snap_wf ?m j sn" if "tm_arcs ?m j = Some sn" for j sn
    using that tm_wfD(6) [OF wf, of j] by (auto simp: arcs snap_wf_def tm_simps split: if_splits)
  then show ?thesis
    using assms unfolding tm_wf_def
    by (auto simp: tm_simps arcs tm_wfD(5) [OF wf])
qed

lemma tm_wf_drop:
  assumes wf: "tm_wf m"
  shows "tm_wf (set_active t False True (drop_state t m))"
proof -
  let ?m = "set_active t False True (drop_state t m)"
  have arcs: "tm_arcs ?m j = (if j = t \<and> tm_snapshots m t \<noteq> None
      then map_option (\<lambda>x. x\<lparr>sn_active := False\<rparr>) (tm_arcs m t) else tm_arcs m j)" for j
    using tm_wfD(5) [OF wf, of t]
    by (auto simp: set_active_arcs tm_simps split: option.splits if_splits)
  have "snap_wf ?m j sn" if "tm_arcs ?m j = Some sn" for j sn
    using that tm_wfD(5,6) [OF wf, of j]
    by (auto simp: arcs snap_wf_def tm_simps active_iff split: if_splits)
  then show ?thesis
    using wf unfolding tm_wf_def by (auto simp: tm_simps arcs)
qed

lemma tm_wf_park:
  assumes wf: "tm_wf m" and "state_of m t = Some s0" "\<not> in_progress s0" "\<not> in_progress s" "stamps t (counter_of m) s"
  shows "tm_wf (put_state t s m)"
proof -
  have "snap_wf (put_state t s m) j sn" if "tm_arcs m j = Some sn" for j sn
    using tm_wfD(6) [OF wf that] assms is_active_state_in_progress
    by (auto simp: snap_wf_def tm_simps active_iff is_active_state_iff)
  then show ?thesis
    using assms unfolding tm_wf_def by (auto simp: tm_simps)
qed

lemma stamps_mono: "stamps t n s \<Longrightarrow> n \<le> n' \<Longrightarrow> stamps t n' s"
  by (cases s) auto

text \<open>The counter's last value: a draw from any other makes it larger.\<close>

abbreviation (input) U64_MAX :: u64 where "U64_MAX \<equiv> - 1"

lemma inc_less: "n \<noteq> U64_MAX \<Longrightarrow> n < n + 1"
  using unatSuc [of n] max_word_wrap [of n] by (metis add.commute lessI word_less_nat_alt)

lemma tm_wf_mint: "tm_wf m \<Longrightarrow> counter_of m \<noteq> U64_MAX \<Longrightarrow> tm_wf (snd (mint m))"
  using inc_less [of "counter_of m"] unfolding tm_wf_def snap_wf_def
  by (auto simp: tm_simps intro: stamps_mono less_trans dest: order_less_imp_le) (blast intro: less_trans)

lemma tm_wf_begin_commit: "tm_wf m \<Longrightarrow> counter_of m \<noteq> U64_MAX \<Longrightarrow> tm_wf (snd (begin_commit t m))"
proof (cases "is_transaction_active m t")
  case True
  assume wf: "tm_wf m" and room: "counter_of m \<noteq> U64_MAX"
  from True obtain p where p: "state_of m t = Some (Active p)" by (auto simp: active_iff)
  then have "state_of (snd (mint m)) t = Some (Active p)" by (simp add: tm_simps)
  from tm_wf_move [OF tm_wf_mint [OF wf room] this, of "Committing (counter_of m) p"] show ?thesis
    using p tm_wfD(2) [OF wf p] inc_less [OF room] by (simp add: begin_commit_def split_beta tm_simps)
qed (auto simp: begin_commit_def active_iff split: option.split txn_state.split)

lemma tm_wf_finish_commit: "tm_wf m \<Longrightarrow> tm_wf (finish_commit t logged m)"
  using tm_wf_move [of m t _ "Committed _"] tm_wf_move [of m t _ "Active _"] tm_wfD(3) [of m t]
  by (cases "state_of m t"; cases "the (state_of m t)"; cases logged) (auto simp: finish_commit_def)

lemma tm_wf_txn_commit: "tm_wf m \<Longrightarrow> t < ts \<Longrightarrow> ts < counter_of m \<Longrightarrow> tm_wf (snd (txn_commit t ts m))"
  using tm_wf_move [of m t _ "Committed ts"] by (auto simp: txn_commit_def split: option.split txn_state.split)

lemma tm_wf_txn_abort: "tm_wf m \<Longrightarrow> tm_wf (snd (txn_abort t m))"
  using tm_wf_move [of m t _ Aborting] by (auto simp: txn_abort_def split: option.split txn_state.split)

lemma tm_wf_finish_rolled_back: "tm_wf m \<Longrightarrow> tm_wf (finish_rolled_back t m)"
  by (simp add: finish_rolled_back_def tm_wf_drop)

lemma tm_wf_end_read_only: "tm_wf m \<Longrightarrow> tm_wf (snd (end_read_only t m))"
  by (auto simp: end_read_only_def tm_wf_drop split: option.split txn_state.split)

lemma tm_wf_abort_complete:
  assumes wf: "tm_wf m" and "\<And>s. state_of m t = Some s \<Longrightarrow> \<not> in_progress s"
  shows "tm_wf (snd (abort_complete t wrote m))"
  using assms tm_wf_park [OF wf, of t _ "Aborted (counter_of m)"] tm_wf_drop [OF wf] tm_wfD(2) [OF wf]
  by (auto simp: abort_complete_def Let_def next_value_def)

lemma prune_state_of:
  "tm_wf m \<Longrightarrow> state_of (snd (prune_committed m)) t =
    (case state_of m t of None \<Rightarrow> None
     | Some s \<Rightarrow> if prune_keeps (bt_find is_active_state (tm_states m)) s then Some s else None)"
  by (simp add: prune_committed_def Let_def state_of_def bt_get_retain tm_wfD(1))

lemma prune_simps [tm_simps]:
  "tm_clock (snd (prune_committed m)) = tm_clock m" "tm_arcs (snd (prune_committed m)) = tm_arcs m"
  "tm_snapshots (snd (prune_committed m)) = tm_snapshots m"
  by (simp_all add: prune_committed_def Let_def)

lemma prune_keeps_in_progress: "in_progress s \<Longrightarrow> prune_keeps h s"
  by (cases s) (auto simp: prune_keeps_def)

lemma prune_active: "tm_wf m \<Longrightarrow> is_transaction_active (snd (prune_committed m)) t = is_transaction_active m t"
  by (auto simp: active_iff prune_state_of prune_keeps_def split: option.split)

lemma tm_wf_prune: assumes wf: "tm_wf m" shows "tm_wf (snd (prune_committed m))"
proof -
  have "bt_wf (tm_states (snd (prune_committed m)))"
    using tm_wfD(1) [OF wf] by (simp add: prune_committed_def Let_def)
  moreover have "snap_wf (snd (prune_committed m)) t sn" if "tm_arcs m t = Some sn" for t sn
    using tm_wfD(6) [OF wf that] by (simp add: snap_wf_def tm_simps prune_active wf)
  ultimately show ?thesis
    using tm_wfD(2,3,4,5) [OF wf] prune_keeps_in_progress unfolding tm_wf_def
    by (auto simp: tm_simps prune_state_of [OF wf] split: option.splits)
qed

lemma create_transaction_simps [tm_simps]:
  "fst (create_transaction p m) = Inr (counter_of m)"
  "counter_of (snd (create_transaction p m)) = counter_of m + 1"
  "state_of (snd (create_transaction p m)) t = (if t = counter_of m then Some (Active p) else state_of m t)"
  "tm_snapshots (snd (create_transaction p m)) = (tm_snapshots m)(counter_of m \<mapsto> counter_of m)"
  by (simp_all add: create_transaction_def split_beta Let_def tm_simps) (simp_all add: state_of_def put_state_def tm_simps)

lemma create_transaction_states:
  "tm_states (snd (create_transaction p m)) = bt_insert (counter_of m) (Active p) (tm_states m)"
  by (simp add: create_transaction_def split_beta Let_def tm_simps put_state_def)

definition first_snapshot :: "txn_mgr \<Rightarrow> snapshot" where
  "first_snapshot m = \<lparr>sn_reader = counter_of m,
     sn_unfinished = map fst (filter (\<lambda>(_, s). case s of Committed _ \<Rightarrow> False | Committing _ _ \<Rightarrow> False | _ \<Rightarrow> True) (tm_states m)),
     sn_committing = map fst (filter (\<lambda>(_, s). case s of Committing _ _ \<Rightarrow> True | _ \<Rightarrow> False) (tm_states m)),
     sn_active = True\<rparr>"

lemma create_transaction_arcs:
  "tm_arcs (snd (create_transaction p m)) = (tm_arcs m)(counter_of m \<mapsto> first_snapshot m)"
  by (simp add: create_transaction_def first_snapshot_def split_beta Let_def tm_simps)

lemma bt_wf_map_filter: "bt_wf m \<Longrightarrow> sorted_wrt (<) (map fst (filter q m))"
  using bt_wf_filter [of m q] by (simp add: bt_wf_def)

lemma bt_keys_where: "bt_wf m \<Longrightarrow> t \<in> set (map fst (filter (\<lambda>(_, s). q s) m)) \<longleftrightarrow> (\<exists>s. bt_get m t = Some s \<and> q s)"
  unfolding bt_get_mem by force

lemma first_snapshot_mem:
  assumes "tm_wf m"
  shows "t \<in> set (sn_unfinished (first_snapshot m)) \<longleftrightarrow>
      (\<exists>s. state_of m t = Some s \<and> (case s of Committed _ \<Rightarrow> False | Committing _ _ \<Rightarrow> False | _ \<Rightarrow> True))"
    and "t \<in> set (sn_committing (first_snapshot m)) \<longleftrightarrow> (\<exists>ts p. state_of m t = Some (Committing ts p))"
proof -
  have "(\<exists>s. state_of m t = Some s \<and> (case s of Committing _ _ \<Rightarrow> True | _ \<Rightarrow> False))
      \<longleftrightarrow> (\<exists>ts p. state_of m t = Some (Committing ts p))"
    by (cases "state_of m t"; cases "the (state_of m t)") auto
  then show "t \<in> set (sn_unfinished (first_snapshot m)) \<longleftrightarrow>
      (\<exists>s. state_of m t = Some s \<and> (case s of Committed _ \<Rightarrow> False | Committing _ _ \<Rightarrow> False | _ \<Rightarrow> True))"
    and "t \<in> set (sn_committing (first_snapshot m)) \<longleftrightarrow> (\<exists>ts p. state_of m t = Some (Committing ts p))"
    unfolding first_snapshot_def snapshot.simps bt_keys_where [OF tm_wfD(1) [OF assms]] state_of_def by simp_all
qed

lemma tm_wf_create:
  assumes wf: "tm_wf m" and room: "counter_of m \<noteq> U64_MAX"
  shows "tm_wf (snd (create_transaction p m))"
proof -
  let ?n = "counter_of m" and ?m = "snd (create_transaction p m)"
  have new: "state_of m ?n = None" using tm_wfD(2) [OF wf, of ?n] by (cases "state_of m ?n") auto
  have "snap_wf ?m t sn" if "tm_arcs ?m t = Some sn" for t sn
  proof (cases "t = ?n")
    case True
    with that have sn: "sn = first_snapshot m" by (simp add: create_transaction_arcs)
    have "\<forall>x \<in> set (sn_unfinished sn) \<union> set (sn_committing sn). x < ?n"
      using tm_wfD(2) [OF wf] by (auto simp: sn first_snapshot_mem [OF wf])
    then show ?thesis
      using True bt_wf_map_filter [OF tm_wfD(1) [OF wf]] inc_less [OF room]
      by (simp add: snap_wf_def sn tm_simps active_iff) (simp add: first_snapshot_def)
  next
    case False
    with that tm_wfD(6) [OF wf, of t sn] inc_less [OF room] show ?thesis
      by (auto simp: snap_wf_def create_transaction_arcs tm_simps active_iff)
  qed
  then show ?thesis
    using wf inc_less [OF room] stamps_mono [of _ ?n _ "?n + 1"] unfolding tm_wf_def
    by (auto simp: tm_simps create_transaction_states create_transaction_arcs) (blast intro: less_trans)
qed

section \<open>The steps of the manager\<close>

text \<open>
  One step is one operation of the manager, run under its lock. What the manager cannot know of
  a transaction is a parameter: which ones write nothing (only those end by a plain \<open>commit\<close>,
  \<open>end_read_only\<close> or \<open>finish_rolled_back\<close>), which are rolled back, and of which the
  Commit record may fail to be queued. The timestamp of a plain commit was drawn by the caller
  before (so it is no transaction's id). A draw needs the counter to be short of its last value, \<open>2^64 - 1\<close>.
\<close>

record fates =
  reads_only :: "txn_id set"
  rolled_back :: "txn_id set"
  unlogged :: "txn_id set"

inductive tm_step :: "fates \<Rightarrow> txn_mgr \<Rightarrow> txn_mgr \<Rightarrow> bool" for \<phi> :: fates where
  step_create: "counter_of m \<noteq> U64_MAX \<Longrightarrow> tm_step \<phi> m (snd (create_transaction p m))"
| step_mint: "counter_of m \<noteq> U64_MAX \<Longrightarrow> tm_step \<phi> m (snd (mint m))"
| step_begin_commit: "counter_of m \<noteq> U64_MAX \<Longrightarrow> tm_step \<phi> m (snd (begin_commit t m))"
| step_finish_commit: "logged \<or> t \<in> unlogged \<phi> \<Longrightarrow> tm_step \<phi> m (finish_commit t logged m)"
| step_commit:
    "t \<in> reads_only \<phi> \<Longrightarrow> t < ts \<Longrightarrow> ts < counter_of m \<Longrightarrow> tm_arcs m ts = None \<Longrightarrow> tm_step \<phi> m (snd (txn_commit t ts m))"
| step_abort: "t \<in> rolled_back \<phi> \<Longrightarrow> tm_step \<phi> m (snd (txn_abort t m))"
| step_end_read_only: "t \<in> reads_only \<phi> \<Longrightarrow> tm_step \<phi> m (snd (end_read_only t m))"
| step_finish_rolled_back: "t \<in> reads_only \<phi> \<Longrightarrow> tm_step \<phi> m (finish_rolled_back t m)"
| step_abort_complete:
    "wrote \<or> t \<in> reads_only \<phi> \<Longrightarrow> state_of m t \<in> {None, Some Aborting} \<union> range (Some \<circ> Aborted) \<Longrightarrow>
     tm_step \<phi> m (snd (abort_complete t wrote m))"
| step_prune: "tm_step \<phi> m (snd (prune_committed m))"

inductive tm_reach :: "fates \<Rightarrow> txn_mgr \<Rightarrow> bool" for \<phi> :: fates where
  reach_new: "tm_reach \<phi> (tm_new c)"
| reach_step: "tm_reach \<phi> m \<Longrightarrow> tm_step \<phi> m m' \<Longrightarrow> tm_reach \<phi> m'"

lemma tm_step_wf: "tm_step \<phi> m m' \<Longrightarrow> tm_wf m \<Longrightarrow> tm_wf m'"
proof (induction rule: tm_step.induct)
  case (step_abort_complete wrote t m)
  then have "\<And>s. state_of m t = Some s \<Longrightarrow> \<not> in_progress s" by auto
  with step_abort_complete.prems show ?case by (rule tm_wf_abort_complete)
qed (simp_all add: tm_wf_create tm_wf_mint tm_wf_begin_commit tm_wf_finish_commit tm_wf_txn_commit
    tm_wf_txn_abort tm_wf_end_read_only tm_wf_finish_rolled_back tm_wf_prune)

lemma tm_reach_wf: "tm_reach \<phi> m \<Longrightarrow> tm_wf m"
  by (induction rule: tm_reach.induct) (auto simp: tm_wf_new dest: tm_step_wf)

text \<open>How a step can change the state of one transaction.\<close>

inductive moves :: "fates \<Rightarrow> txn_mgr \<Rightarrow> txn_id \<Rightarrow> txn_state option \<Rightarrow> txn_state option \<Rightarrow> bool" for \<phi> m t where
  stays: "moves \<phi> m t s s"
| starts: "t = counter_of m \<Longrightarrow> moves \<phi> m t None (Some (Active p))"
| to_committing: "moves \<phi> m t (Some (Active p)) (Some (Committing (counter_of m) p))"
| to_committed: "moves \<phi> m t (Some (Committing ts p)) (Some (Committed ts))"
| back_to_active: "t \<in> unlogged \<phi> \<Longrightarrow> moves \<phi> m t (Some (Committing ts p)) (Some (Active p))"
| read_only_ends: "t \<in> reads_only \<phi> \<Longrightarrow> (\<And>x. s' = Some x \<Longrightarrow> \<exists>ts. x = Committed ts \<and> tm_arcs m ts = None) \<Longrightarrow> moves \<phi> m t s s'"
| to_aborting: "t \<in> rolled_back \<phi> \<Longrightarrow> moves \<phi> m t (Some (Active p)) (Some Aborting)"
| to_aborted: "s \<in> {Some Aborting} \<union> range (Some \<circ> Aborted) \<Longrightarrow> moves \<phi> m t s (Some (Aborted (counter_of m)))"
| gone: "s \<in> {Some Aborting} \<union> range (Some \<circ> Aborted) \<Longrightarrow> (\<And>r. is_transaction_active m r \<Longrightarrow> r = t) \<Longrightarrow> moves \<phi> m t s None"
| forgotten: "(\<And>r. is_transaction_active m r \<Longrightarrow> ts < r) \<Longrightarrow> moves \<phi> m t (Some (Committed ts)) None"
| aborted_forgotten: "(\<And>r. is_transaction_active m r \<Longrightarrow> at \<le> r) \<Longrightarrow> moves \<phi> m t (Some (Aborted at)) None"

lemma readers_iff:
  "tm_wf m \<Longrightarrow> (\<exists>(j, s) \<in> set (tm_states m). j \<noteq> t \<and> is_active_state s) \<longleftrightarrow> (\<exists>r. is_transaction_active m r \<and> r \<noteq> t)"
  unfolding active_iff state_of_def bt_get_mem [OF tm_wfD(1)] is_active_state_iff by blast

lemma oldest_active_le:
  assumes "tm_wf m"
  shows "bt_find is_active_state (tm_states m) = Some h \<Longrightarrow> is_transaction_active m r \<Longrightarrow> h \<le> r"
    and "bt_find is_active_state (tm_states m) = None \<Longrightarrow> \<not> is_transaction_active m r"
  using bt_find_Some(2) [OF tm_wfD(1) [OF assms]] bt_find_None [OF tm_wfD(1) [OF assms]]
  by (auto simp: active_iff state_of_def is_active_state_iff)

lemma tm_step_moves: "tm_step \<phi> m m' \<Longrightarrow> tm_wf m \<Longrightarrow> moves \<phi> m t (state_of m t) (state_of m' t)"
proof (induction rule: tm_step.induct)
  case (step_create m p)
  have "state_of m (counter_of m) = None"
    using tm_wfD(2) [OF step_create.prems, of "counter_of m"] by (cases "state_of m (counter_of m)") auto
  then show ?case by (auto simp: tm_simps intro: moves.intros)
next
  case (step_prune m)
  let ?h = "bt_find is_active_state (tm_states m)"
  note old = oldest_active_le [OF step_prune.prems]
  show ?case
  proof (cases "state_of m t")
    case (Some s)
    then show ?thesis
      using old by (cases s; cases ?h)
        (fastforce simp: prune_state_of [OF step_prune.prems] prune_keeps_def not_le not_less intro: moves.intros)+
  qed (simp add: prune_state_of [OF step_prune.prems] moves.stays)
next
  case (step_abort_complete wrote u m)
  then show ?case
    by (cases "u = t") (auto simp: abort_complete_def readers_iff Let_def tm_simps next_value_def intro: moves.intros)
qed (auto simp: tm_simps begin_commit_def finish_commit_def txn_commit_def txn_abort_def end_read_only_def
    finish_rolled_back_def split_beta intro: moves.intros split: option.split txn_state.split)

section \<open>Visibility\<close>

lemma bs_loop_mem:
  "sorted_wrt (<) xs \<Longrightarrow> hi \<le> length xs \<Longrightarrow> bs_loop xs x lo hi \<longleftrightarrow> (\<exists>i. lo \<le> i \<and> i < hi \<and> xs ! i = x)"
proof (induction xs x lo hi rule: bs_loop.induct)
  case (1 xs x lo hi)
  show ?case
  proof (cases "lo < hi")
    case True
    define mid where "mid = lo + (hi - lo) div 2"
    have mid: "lo \<le> mid" "mid < hi" using True by (auto simp: mid_def)
    note ord = sorted_wrt_nth_less [OF 1(3)]
    consider "xs ! mid = x" | "xs ! mid < x" | "x < xs ! mid" by fastforce
    then show ?thesis
    proof cases
      case 1
      then show ?thesis using mid "1.prems" by (subst bs_loop.simps) (auto simp: mid_def [symmetric])
    next
      case 2
      then have "xs ! i \<noteq> x" if "i \<le> mid" for i
        using that mid "1.prems"(2) ord [of i mid] by (cases "i = mid") auto
      then have "(\<exists>i. lo \<le> i \<and> i < hi \<and> xs ! i = x) \<longleftrightarrow> (\<exists>i. mid + 1 \<le> i \<and> i < hi \<and> xs ! i = x)"
        using mid(1) by (metis Suc_eq_plus1 le_trans not_less_eq_eq Suc_leD)
      with 2 mid "1.IH"(1) [OF _ mid_def] "1.prems" show ?thesis
        by (subst bs_loop.simps) (auto simp: mid_def [symmetric])
    next
      case 3
      then have "xs ! i \<noteq> x" if "mid \<le> i" "i < hi" for i
        using that mid "1.prems"(2) ord [of mid i] by (cases "i = mid") auto
      then have "(\<exists>i. lo \<le> i \<and> i < hi \<and> xs ! i = x) \<longleftrightarrow> (\<exists>i. lo \<le> i \<and> i < mid \<and> xs ! i = x)"
        using mid(2) by (metis not_less order_less_trans)
      with 3 mid "1.IH"(2) [OF _ mid_def] "1.prems" show ?thesis
        by (subst bs_loop.simps) (auto simp: mid_def [symmetric])
    qed
  qed (subst bs_loop.simps, auto)
qed

lemma binary_search_mem: "sorted_wrt (<) xs \<Longrightarrow> binary_search xs x \<longleftrightarrow> x \<in> set xs"
  by (auto simp: binary_search_def bs_loop_mem in_set_conv_nth)

lemma sees_snap:
  assumes "snap_wf m t sn"
  shows "sees sn w = (if w = t then Some True else if t < w \<or> w \<in> set (sn_unfinished sn) then Some False
    else if w \<in> set (sn_committing sn) then None else Some True)"
  using assms by (simp add: sees_def snap_wf_def binary_search_mem)

text \<open>
  What a reader has been told of a writer does not change while the reader runs, unless the
  writer was rolled back and is forgotten.
\<close>

lemma visible_stable:
  assumes wf: "tm_wf m" and step: "tm_step \<phi> m m'" and r: "is_transaction_active m r"
    and w: "tm_arcs m w \<noteq> None" "w \<notin> reads_only \<phi>" and now: "visible_now m w r = Some b"
  shows "visible_now m' w r = Some b \<or> (\<not> b \<and> (\<exists>at. state_of m w = Some (Aborted at)) \<and> state_of m' w = None)"
proof (cases "w = r")
  case False
  from r obtain p where "state_of m r = Some (Active p)" by (auto simp: active_iff)
  then have rc: "r < counter_of m" by (rule tm_wfD(2) [OF wf])
  have wc: "w < counter_of m" using w(1) tm_wfD(6) [OF wf, of w] by (auto simp: snap_wf_def)
  from tm_step_moves [OF step wf, of w] show ?thesis
    using r rc wc w(2) False now by cases (auto simp: visible_now_def split: if_splits txn_state.splits option.splits)
qed (use now in \<open>simp add: visible_now_def\<close>)

lemma snapshot_stable:
  assumes wf: "tm_wf m" and step: "tm_step \<phi> m m'" and "tm_arcs m' r = Some sn'"
  shows "(r = counter_of m \<and> sn' = first_snapshot m \<and> is_transaction_active m' r)
    \<or> (\<exists>sn. tm_arcs m r = Some sn \<and> sees sn' = sees sn)"
proof -
  have upd: "sees (sn\<lparr>sn_active := a\<rparr>) = sees sn" for sn a by (rule ext) (simp add: sees_def)
  from step assms(3) show ?thesis
  proof cases
    case (step_create p)
    then show ?thesis using assms(3) by (auto simp: create_transaction_arcs active_iff tm_simps split: if_splits)
  qed (auto simp: tm_simps begin_commit_def finish_commit_def txn_commit_def txn_abort_def end_read_only_def
      finish_rolled_back_def abort_complete_def split_beta set_active_arcs upd Let_def
      split: option.splits txn_state.splits if_splits)
qed

text \<open>Every running reader's snapshot that decides about \<open>w\<close> decides as the table does.\<close>

definition agrees :: "txn_id set \<Rightarrow> txn_mgr \<Rightarrow> txn_id \<Rightarrow> bool" where
  "agrees F m w = (\<forall>r sn b. is_transaction_active m r \<and> r \<notin> F \<and> tm_arcs m r = Some sn \<and> sees sn w = Some b
     \<longrightarrow> visible_now m w r = Some b)"

definition agree :: "fates \<Rightarrow> txn_mgr \<Rightarrow> bool" where
  "agree \<phi> m = (\<forall>w. tm_arcs m w \<noteq> None \<and> w \<notin> reads_only \<phi> \<longrightarrow>
     agrees (unlogged \<phi>) m w \<or> (w \<in> rolled_back \<phi> \<and> state_of m w = None))"

definition aborts_are_fated :: "fates \<Rightarrow> txn_mgr \<Rightarrow> bool" where
  "aborts_are_fated \<phi> m = (\<forall>t s. state_of m t = Some s \<and> s \<in> insert Aborting (range Aborted) \<longrightarrow>
     t \<in> rolled_back \<phi> \<union> reads_only \<phi>)"

lemma aborts_are_fated_step:
  "tm_step \<phi> m m' \<Longrightarrow> tm_wf m \<Longrightarrow> aborts_are_fated \<phi> m \<Longrightarrow> aborts_are_fated \<phi> m'"
  unfolding aborts_are_fated_def
proof (intro allI impI)
  fix t s assume step: "tm_step \<phi> m m'" and wf: "tm_wf m"
    and IH: "\<forall>t s. state_of m t = Some s \<and> s \<in> insert Aborting (range Aborted) \<longrightarrow> t \<in> rolled_back \<phi> \<union> reads_only \<phi>"
    and s: "state_of m' t = Some s \<and> s \<in> insert Aborting (range Aborted)"
  from tm_step_moves [OF step wf, of t] show "t \<in> rolled_back \<phi> \<union> reads_only \<phi>"
    using IH s by cases auto
qed

lemma first_snapshot_agrees:
  assumes wf: "tm_wf m" and room: "counter_of m \<noteq> U64_MAX" and "sees (first_snapshot m) w = Some b"
    and "tm_arcs m w \<noteq> None"
  shows "visible_now (snd (create_transaction p m)) w (counter_of m) = Some b"
proof -
  have wc: "w < counter_of m" using assms(4) tm_wfD(6) [OF wf, of w] by (auto simp: snap_wf_def)
  have "snap_wf (snd (create_transaction p m)) (counter_of m) (first_snapshot m)"
    using tm_wfD(6) [OF tm_wf_create [OF wf room]] by (simp add: create_transaction_arcs)
  from assms(3) [unfolded sees_snap [OF this]] show ?thesis
    using wc tm_wfD(3) [OF wf, of w] by (cases "state_of m w"; cases "the (state_of m w)")
      (auto simp: first_snapshot_mem [OF wf] visible_now_def tm_simps split: if_splits)
qed

lemma new_arc_create:
  assumes "tm_step \<phi> m m'" "tm_arcs m r = None" "tm_arcs m' r \<noteq> None"
  shows "\<exists>p. m' = snd (create_transaction p m) \<and> counter_of m \<noteq> U64_MAX"
  using assms
  by cases (auto simp: tm_simps begin_commit_def finish_commit_def txn_commit_def txn_abort_def end_read_only_def
      finish_rolled_back_def abort_complete_def split_beta set_active_arcs Let_def
      split: option.splits txn_state.splits if_splits)

lemma active_before:
  assumes "tm_step \<phi> m m'" "tm_wf m" "tm_arcs m r \<noteq> None" "r \<notin> unlogged \<phi>" "is_transaction_active m' r"
  shows "is_transaction_active m r"
proof -
  have "r < counter_of m" using assms(3) tm_wfD(6) [OF assms(2), of r] by (auto simp: snap_wf_def)
  with tm_step_moves [OF assms(1,2), of r] assms(4,5) show ?thesis by cases (fastforce simp: active_iff)+
qed

lemma began_less: "tm_wf m \<Longrightarrow> tm_arcs m t \<noteq> None \<Longrightarrow> t < counter_of m"
  using tm_wfD(6) [of m t] by (auto simp: snap_wf_def)

text \<open>
  A step keeps the agreement about a writer: the one exception is a transaction rolled back, whose
  entry the step drops.
\<close>

lemma agrees_step:
  assumes step: "tm_step \<phi> m m'" and wf: "tm_wf m" and IH: "tm_arcs m w \<noteq> None \<Longrightarrow> agrees (unlogged \<phi>) m w"
    and w: "tm_arcs m' w \<noteq> None" "w \<notin> reads_only \<phi>"
    and kept: "\<not> ((\<exists>at. state_of m w = Some (Aborted at)) \<and> state_of m' w = None)"
  shows "agrees (unlogged \<phi>) m' w"
  unfolding agrees_def
proof (intro allI impI, elim conjE)
  fix r sn' b
  assume r: "is_transaction_active m' r" "r \<notin> unlogged \<phi>" and sn': "tm_arcs m' r = Some sn'" and b: "sees sn' w = Some b"
  note wf' = tm_step_wf [OF step wf]
  note sees' = sees_snap [OF tm_wfD(6) [OF wf' sn']]
  consider (own) "w = r" | (new_reader) "w \<noteq> r" "tm_arcs m r = None" | (new_writer) sn where "w \<noteq> r" "tm_arcs m r = Some sn" "tm_arcs m w = None"
    | (old) sn where "w \<noteq> r" "tm_arcs m r = Some sn" "tm_arcs m w \<noteq> None"
    by (cases "tm_arcs m r") auto
  then show "visible_now m' w r = Some b"
  proof cases
    case own
    then show ?thesis using b sees' by (simp add: visible_now_def)
  next
    case new_reader
    with snapshot_stable [OF wf step sn'] have new: "r = counter_of m" "sn' = first_snapshot m" by auto
    obtain p where p: "m' = snd (create_transaction p m)" "counter_of m \<noteq> U64_MAX"
      using new_arc_create [OF step new_reader(2)] sn' by auto
    with w(1) new new_reader have "tm_arcs m w \<noteq> None" by (auto simp: create_transaction_arcs)
    with first_snapshot_agrees [OF wf] b new p show ?thesis by blast
  next
    case new_writer
    obtain sw where "tm_arcs m' w = Some sw" using w by auto
    with snapshot_stable [OF wf step this] new_writer have "w = counter_of m" "is_transaction_active m' w" by auto
    then show ?thesis
      using began_less [OF wf, of r] new_writer b sees' by (auto simp: visible_now_def active_iff)
  next
    case old
    then have "tm_arcs m r \<noteq> None" by simp
    then have rc: "r < counter_of m" by (rule began_less [OF wf])
    with snapshot_stable [OF wf step sn'] old have same: "sees sn' = sees sn" by auto
    have act: "is_transaction_active m r" using active_before [OF step wf \<open>tm_arcs m r \<noteq> None\<close> r(2,1)] .
    have "visible_now m w r = Some b"
      using IH [OF old(3)] act r(2) old(2) b same by (simp add: agrees_def)
    from visible_stable [OF wf step act old(3) w(2) this] kept show ?thesis by blast
  qed
qed

lemma agree_step:
  assumes step: "tm_step \<phi> m m'" and wf: "tm_wf m" and fated: "aborts_are_fated \<phi> m" and IH: "agree \<phi> m"
  shows "agree \<phi> m'"
  unfolding agree_def
proof (intro allI impI, elim conjE)
  fix w assume w: "tm_arcs m' w \<noteq> None" "w \<notin> reads_only \<phi>"
  show "agrees (unlogged \<phi>) m' w \<or> (w \<in> rolled_back \<phi> \<and> state_of m' w = None)"
  proof (cases "tm_arcs m w \<noteq> None \<and> w \<in> rolled_back \<phi> \<and> state_of m w = None")
    case True
    then have "w < counter_of m" "state_of m w = None" using began_less [OF wf, of w] by auto
    with tm_step_moves [OF step wf, of w] w(2) have "state_of m' w = None" by cases auto
    with True show ?thesis by simp
  next
    case False
    with IH w have ag: "tm_arcs m w \<noteq> None \<Longrightarrow> agrees (unlogged \<phi>) m w" by (auto simp: agree_def)
    show ?thesis
    proof (cases "(\<exists>at. state_of m w = Some (Aborted at)) \<and> state_of m' w = None")
      case True
      with fated w(2) show ?thesis by (fastforce simp: aborts_are_fated_def)
    qed (use agrees_step [OF step wf ag w] in blast)
  qed
qed

lemma tm_reach_agree: "tm_reach \<phi> m \<Longrightarrow> agree \<phi> m"
proof (induction rule: tm_reach.induct)
  case (reach_new c)
  then show ?case by (simp add: agree_def active_iff tm_new_def state_of_def)
next
  case (reach_step m m')
  have "aborts_are_fated \<phi> m" using reach_step.hyps(1)
  proof (induction rule: tm_reach.induct)
    case (reach_new c)
    then show ?case by (simp add: aborts_are_fated_def tm_new_def state_of_def)
  qed (use aborts_are_fated_step tm_reach_wf in blast)
  with reach_step tm_reach_wf agree_step show ?case by blast
qed

section \<open>Runs\<close>

lemma tm_run_wf: "(tm_step \<phi>)\<^sup>*\<^sup>* m m' \<Longrightarrow> tm_wf m \<Longrightarrow> tm_wf m'"
  by (induction rule: rtranclp_induct) (auto dest: tm_step_wf)

lemma tm_run_reach: "(tm_step \<phi>)\<^sup>*\<^sup>* m m' \<Longrightarrow> tm_reach \<phi> m \<Longrightarrow> tm_reach \<phi> m'"
  by (induction rule: rtranclp_induct) (auto intro: reach_step)

lemma tm_step_arcs_grow: "tm_step \<phi> m m' \<Longrightarrow> tm_arcs m t \<noteq> None \<Longrightarrow> tm_arcs m' t \<noteq> None"
  by (induction rule: tm_step.induct)
    (auto simp: tm_simps create_transaction_arcs begin_commit_def finish_commit_def txn_commit_def txn_abort_def
      end_read_only_def finish_rolled_back_def abort_complete_def split_beta set_active_arcs Let_def
      split: option.splits txn_state.splits if_splits)

lemma active_began: "tm_wf m \<Longrightarrow> is_transaction_active m r \<Longrightarrow> tm_arcs m r \<noteq> None"
  using tm_wfD(4) by (fastforce simp: active_iff)

text \<open>An entry once dropped stays so: ids are never given again.\<close>

lemma forgotten_stays:
  assumes "tm_step \<phi> m m'" and wf: "tm_wf m" and t: "state_of m t = None" "t < counter_of m"
  shows "state_of m' t = None"
  using assms(1)
proof cases
  case step_prune
  then show ?thesis using prune_state_of [OF wf] t by simp
qed (use t in \<open>auto simp: tm_simps begin_commit_def finish_commit_def txn_commit_def txn_abort_def end_read_only_def
    finish_rolled_back_def abort_complete_def split_beta Let_def split: option.splits txn_state.splits if_splits\<close>)

lemma visible_stable_run:
  assumes "(tm_step \<phi>)\<^sup>*\<^sup>* m m'" and wf: "tm_wf m" and fated: "aborts_are_fated \<phi> m"
    and r: "is_transaction_active m r" "r \<notin> unlogged \<phi>"
    and w: "tm_arcs m w \<noteq> None" "w \<notin> reads_only \<phi>" and now: "visible_now m w r = Some b"
  shows "is_transaction_active m' r \<Longrightarrow> visible_now m' w r = Some b \<or> (\<not> b \<and> w \<in> rolled_back \<phi> \<and> state_of m' w = None)"
    and "aborts_are_fated \<phi> m'" and "tm_arcs m' w \<noteq> None" and "tm_arcs m' r \<noteq> None"
  using assms(1)
proof (induction rule: rtranclp_induct)
  case base
  { case 1 show ?case using now by simp }
  { case 2 show ?case using fated . }
  { case 3 show ?case using w(1) . }
  { case 4 show ?case using active_began [OF wf r(1)] . }
next
  case (step y z)
  note wfy = tm_run_wf [OF step(1) wf]
  { case 1
    from active_before [OF step(2) wfy step.IH(4) r(2) 1] have act: "is_transaction_active y r" .
    from step.IH(1) [OF act] show ?case
    proof
      assume "visible_now y w r = Some b"
      from visible_stable [OF wfy step(2) act step.IH(3) w(2) this] w(2) step.IH(2) show ?case
        by (auto simp: aborts_are_fated_def)
    next
      assume "\<not> b \<and> w \<in> rolled_back \<phi> \<and> state_of y w = None"
      then show ?case using forgotten_stays [OF step(2) wfy _ began_less [OF wfy step.IH(3)]] by simp
    qed }
  { case 2 show ?case by (rule aborts_are_fated_step [OF step(2) wfy step.IH(2)]) }
  { case 3 show ?case by (rule tm_step_arcs_grow [OF step(2) step.IH(3)]) }
  { case 4 show ?case by (rule tm_step_arcs_grow [OF step(2) step.IH(4)]) }
qed

lemma tm_reach_fated: "tm_reach \<phi> m \<Longrightarrow> aborts_are_fated \<phi> m"
proof (induction rule: tm_reach.induct)
  case (reach_new c)
  then show ?case by (simp add: aborts_are_fated_def tm_new_def state_of_def)
qed (use aborts_are_fated_step tm_reach_wf in blast)

text \<open>No commit timestamp is the id of a transaction.\<close>

definition stamps_apart :: "txn_mgr \<Rightarrow> bool" where
  "stamps_apart m = (\<forall>t ts p. state_of m t = Some (Committed ts) \<or> state_of m t = Some (Committing ts p) \<longrightarrow> tm_arcs m ts = None)"

lemma tm_step_arcs_same:
  "tm_step \<phi> m m' \<Longrightarrow> t \<noteq> counter_of m \<Longrightarrow> tm_arcs m t = None \<Longrightarrow> tm_arcs m' t = None"
  by (induction rule: tm_step.induct)
    (auto simp: tm_simps create_transaction_arcs begin_commit_def finish_commit_def txn_commit_def txn_abort_def
      end_read_only_def finish_rolled_back_def abort_complete_def split_beta set_active_arcs Let_def
      split: option.splits txn_state.splits if_splits)

lemma counter_unused: "tm_wf m \<Longrightarrow> tm_arcs m (counter_of m) = None"
  using tm_wfD(6) [of m "counter_of m"] by (cases "tm_arcs m (counter_of m)") (auto simp: snap_wf_def)

lemma stamps_apart_step:
  assumes step: "tm_step \<phi> m m'" and wf: "tm_wf m" and IH: "stamps_apart m"
  shows "stamps_apart m'"
  unfolding stamps_apart_def
proof (intro allI impI)
  fix t ts p assume new: "state_of m' t = Some (Committed ts) \<or> state_of m' t = Some (Committing ts p)"
  show "tm_arcs m' ts = None"
  proof (cases "ts = counter_of m")
    case False
    have "tm_arcs m ts = None"
      using tm_step_moves [OF step wf, of t] new IH False by cases (auto simp: stamps_apart_def)
    with tm_step_arcs_same [OF step False] show ?thesis by simp
  next
    case True
    show ?thesis
    proof (cases "\<exists>p. m' = snd (create_transaction p m)")
      case True
      with new \<open>ts = counter_of m\<close> tm_wfD(3) [OF wf, of t] show ?thesis
        by (auto simp: tm_simps split: if_splits)
    next
      case False
      with step have "tm_arcs m' ts = None \<or> tm_arcs m ts \<noteq> None"
        by cases (auto simp: tm_simps begin_commit_def finish_commit_def txn_commit_def txn_abort_def
            end_read_only_def finish_rolled_back_def abort_complete_def split_beta set_active_arcs Let_def
            split: option.splits txn_state.splits if_splits)
      with True counter_unused [OF wf] show ?thesis by simp
    qed
  qed
qed

lemma tm_reach_stamps_apart: "tm_reach \<phi> m \<Longrightarrow> stamps_apart m"
proof (induction rule: tm_reach.induct)
  case (reach_new c)
  then show ?case by (simp add: stamps_apart_def tm_new_def state_of_def)
qed (use stamps_apart_step tm_reach_wf in blast)

lemma horizon_le:
  assumes "tm_wf m" "is_transaction_active m r"
  shows "horizon m \<le> r"
  using oldest_active_le [OF assms(1)] assms(2) by (auto simp: horizon_def split: option.split)

lemma horizon_le_counter: assumes "tm_wf m" shows "horizon m \<le> counter_of m"
  using bt_find_Some(1) [OF tm_wfD(1) [OF assms]] tm_wfD(2) [OF assms]
  by (fastforce simp: horizon_def next_value_def state_of_def less_imp_le split: option.split)

lemma counter_mono: "tm_step \<phi> m m' \<Longrightarrow> counter_of m \<le> counter_of m'"
  by (induction rule: tm_step.induct)
    (auto simp: tm_simps begin_commit_def finish_commit_def txn_commit_def txn_abort_def end_read_only_def
      finish_rolled_back_def abort_complete_def split_beta Let_def less_imp_le inc_less split: option.split txn_state.split)

lemma horizon_holds_run:
  assumes "(tm_step \<phi>)\<^sup>*\<^sup>* m m'" and wf: "tm_wf m"
  shows "h \<le> counter_of m \<Longrightarrow> \<forall>r. is_transaction_active m r \<and> r \<notin> unlogged \<phi> \<longrightarrow> h \<le> r \<Longrightarrow>
    h \<le> counter_of m' \<and> (\<forall>r. is_transaction_active m' r \<and> r \<notin> unlogged \<phi> \<longrightarrow> h \<le> r)"
  using assms(1)
proof (induction rule: rtranclp_induct)
  case (step y z)
  note wfy = tm_run_wf [OF step(1) wf]
  have "h \<le> r" if act: "is_transaction_active z r" and "r \<notin> unlogged \<phi>" for r
  proof (cases "tm_arcs y r")
    case None
    obtain sn where "tm_arcs z r = Some sn"
      using active_began [OF tm_step_wf [OF step(2) wfy] act] by auto
    from snapshot_stable [OF wfy step(2) this] None step.IH step.prems show ?thesis by auto
  next
    case (Some sn)
    then show ?thesis using active_before [OF step(2) wfy _ \<open>r \<notin> unlogged \<phi>\<close> act] \<open>r \<notin> unlogged \<phi>\<close> step.IH step.prems by simp
  qed
  then show ?case using step counter_mono [OF step(2)] by auto
qed auto

lemma is_visible_at:
  assumes "visible_now (ms (i + n)) w r = Some b" "\<And>k. k < n \<Longrightarrow> visible_now (ms (i + k)) w r = None"
  shows "is_visible ms i w r = Some b"
  using assms
proof (induction n arbitrary: i)
  case (Suc n)
  have "is_visible ms (i + 1) w r = Some b"
    using Suc.prems(1) Suc.prems(2) [of "Suc _"] by (intro Suc.IH) simp_all
  moreover have "visible_now (ms i) w r = None" using Suc.prems(2) [of 0] by simp
  ultimately show ?case by (subst is_visible.simps) simp
qed (subst is_visible.simps, simp)

lemma is_visible_returns_at:
  assumes "visible_now (ms (i + n)) w r \<noteq> None"
  shows "\<exists>k \<le> n. is_visible ms i w r = visible_now (ms (i + k)) w r \<and> is_visible ms i w r \<noteq> None"
proof -
  define k where "k = (LEAST k. visible_now (ms (i + k)) w r \<noteq> None)"
  have "visible_now (ms (i + k)) w r \<noteq> None" "k \<le> n"
    using LeastI [of "\<lambda>k. visible_now (ms (i + k)) w r \<noteq> None" n] Least_le [of "\<lambda>k. visible_now (ms (i + k)) w r \<noteq> None" n]
      assms by (simp_all add: k_def)
  moreover have "visible_now (ms (i + j)) w r = None" if "j < k" for j
    using not_less_Least [of j "\<lambda>k. visible_now (ms (i + k)) w r \<noteq> None"] that by (simp add: k_def)
  ultimately show ?thesis using is_visible_at [of ms i k w r] by fastforce
qed

lemma take_snapshot_iff:
  assumes wf: "tm_wf m"
  shows "take_snapshot m r = Some sn \<longleftrightarrow> is_transaction_active m r \<and> tm_arcs m r = Some sn"
proof (cases "is_transaction_active m r")
  case True
  then obtain p where p: "state_of m r = Some (Active p)" by (auto simp: active_iff)
  then obtain s where s: "tm_arcs m r = Some s" using tm_wfD(4) [OF wf] by blast
  have "sn_active s" using tm_wfD(6) [OF wf s] True by (simp add: snap_wf_def)
  with p s True show ?thesis using tm_wfD(5) [OF wf, of r] by (simp add: take_snapshot_def)
next
  case False
  then show ?thesis
    using tm_wfD(5,6) [OF wf, of r] by (fastforce simp: take_snapshot_def snap_wf_def split: option.splits if_splits)
qed

lemma run_segment: "\<forall>k. (tm_step \<phi>)\<^sup>*\<^sup>* (ms k) (ms (k + 1)) \<Longrightarrow> (tm_step \<phi>)\<^sup>*\<^sup>* (ms a) (ms (a + d))"
  for d :: nat
proof (induction d)
  case (Suc d)
  then show ?case using Suc.prems [rule_format, of "a + d"] by (simp add: rtranclp_trans [of _ "ms a" "ms (a + d)"])
qed simp

lemma began_run: "(tm_step \<phi>)\<^sup>*\<^sup>* m m' \<Longrightarrow> tm_arcs m t \<noteq> None \<Longrightarrow> tm_arcs m' t \<noteq> None"
  by (induction rule: rtranclp_induct) (use tm_step_arcs_grow in auto)

lemma active_before_run:
  "(tm_step \<phi>)\<^sup>*\<^sup>* m m' \<Longrightarrow> is_transaction_active m' r \<Longrightarrow> tm_wf m \<Longrightarrow> tm_arcs m r \<noteq> None \<Longrightarrow> r \<notin> unlogged \<phi>
   \<Longrightarrow> is_transaction_active m r"
proof (induction rule: converse_rtranclp_induct)
  case (step y x)
  then show ?case
    using active_before [OF step(1)] tm_step_wf [OF step(1)] tm_step_arcs_grow [OF step(1)] by blast
qed

section \<open>Properties\<close>

text \<open>A small table to apply them to: transactions 1 and 2 began, and 1 is committing at 3.\<close>

definition mgr_two :: txn_mgr where
  "mgr_two = snd (create_transaction ContinueOnConflict (snd (create_transaction ContinueOnConflict (tm_new clock_default))))"

definition mgr_committing :: txn_mgr where
  "mgr_committing = snd (begin_commit 1 mgr_two)"

definition no_fates :: fates where
  "no_fates = \<lparr>reads_only = {}, rolled_back = {}, unlogged = {}\<rparr>"

lemma counter_new: "counter_of (tm_new clock_default) = 1"
  by (simp add: tm_new_def clock_default_def)

lemma mgr_two_reach: "tm_reach \<phi> mgr_two"
  unfolding mgr_two_def
  by (rule reach_step [OF reach_step [OF reach_new]]; rule step_create) (simp_all add: tm_simps counter_new)

lemma mgr_two_simps:
  "counter_of mgr_two = 3" "state_of mgr_two t = (if t = 2 \<or> t = 1 then Some (Active ContinueOnConflict) else None)"
  "tm_arcs mgr_two 1 \<noteq> None" "tm_arcs mgr_two 2 \<noteq> None"
  by (simp_all add: mgr_two_def tm_simps counter_new create_transaction_arcs) (simp add: state_of_def tm_new_def)

lemma mgr_committing_reach: "tm_reach \<phi> mgr_committing"
  unfolding mgr_committing_def by (intro reach_step [OF mgr_two_reach] step_begin_commit) (simp add: mgr_two_simps)

lemma mgr_committing_simps:
  "counter_of mgr_committing = 4"
  "state_of mgr_committing t = (if t = 1 then Some (Committing 3 ContinueOnConflict)
     else if t = 2 then Some (Active ContinueOnConflict) else None)"
  "tm_arcs mgr_committing 1 \<noteq> None" "tm_arcs mgr_committing 2 \<noteq> None"
proof -
  have "tm_step no_fates mgr_two mgr_committing"
    unfolding mgr_committing_def by (rule step_begin_commit) (simp add: mgr_two_simps)
  from tm_step_arcs_grow [OF this] show "tm_arcs mgr_committing 1 \<noteq> None" "tm_arcs mgr_committing 2 \<noteq> None"
    using mgr_two_simps by blast+
qed (simp_all add: mgr_committing_def begin_commit_def mgr_two_simps split_beta tm_simps)

text \<open>
  C23. The lock-free answer of a snapshot is the table's: for a running reader whose commit never
  failed to be queued, whenever \<open>sees\<close> decides whether a transaction that wrote is visible, the
  transaction table says the same at that moment, however long ago the snapshot was taken. The
  exception is a transaction rolled back whose versions are gone and whose entry is dropped: the
  snapshot goes on calling it unseen, and the table, which takes a missing entry for a
  commit, does not. (A transaction that only read left no version anyone asks about.)
\<close>

theorem snapshot_sees_as_table:
  assumes "tm_reach \<phi> m" and "take_snapshot m r = Some sn" and "r \<notin> unlogged \<phi>"
    and "tm_arcs m w \<noteq> None" and "w \<notin> reads_only \<phi>"
  shows "(sees sn w = Some True \<longrightarrow> visible_now m w r = Some True)
    \<and> (sees sn w = Some False \<longrightarrow> visible_now m w r = Some False \<or> (w \<in> rolled_back \<phi> \<and> state_of m w = None))"
proof -
  have "is_transaction_active m r" "tm_arcs m r = Some sn"
    using assms(2) take_snapshot_iff [OF tm_reach_wf [OF assms(1)]] by auto
  moreover have "agrees (unlogged \<phi>) m w \<or> (w \<in> rolled_back \<phi> \<and> state_of m w = None)"
    using tm_reach_agree [OF assms(1)] assms(4,5) by (simp add: agree_def)
  moreover have "state_of m w = None \<Longrightarrow> visible_now m w r = Some True" by (simp add: visible_now_def)
  ultimately show ?thesis using assms(3) unfolding agrees_def by blast
qed

theorem snapshot_sees_as_table_witness:
  "\<exists>sn. take_snapshot mgr_committing 2 = Some sn \<and> sees sn 1 = Some False \<and> visible_now mgr_committing 1 2 = Some False"
proof -
  have sn: "take_snapshot mgr_committing 2 = Some \<lparr>sn_reader = 2, sn_unfinished = [1], sn_committing = [], sn_active = True\<rparr>"
    (is "_ = Some ?sn") by code_simp
  have "sees ?sn 1 = Some False" by code_simp
  with snapshot_sees_as_table [OF mgr_committing_reach sn, of no_fates 1] sn mgr_committing_simps show ?thesis
    by (auto simp: no_fates_def)
qed

text \<open>
  C24. One snapshot, one answer: while a reader runs whose commit never failed to be queued, what
  the table answers about a transaction that wrote does not change, through any number of steps of
  any transactions - commits, aborts, forgetting. The only change there can be is from unseen to
  seen, for a transaction that was rolled back, at the moment its entry is dropped; its versions
  are gone by then. A commit never changes an answer.
\<close>

theorem visibility_is_stable:
  assumes "tm_reach \<phi> m" and "(tm_step \<phi>)\<^sup>*\<^sup>* m m'" and "is_transaction_active m r" and "is_transaction_active m' r"
    and "r \<notin> unlogged \<phi>" and "tm_arcs m w \<noteq> None" and "w \<notin> reads_only \<phi>"
    and "visible_now m w r = Some b"
  shows "visible_now m' w r = Some b \<or> (\<not> b \<and> w \<in> rolled_back \<phi> \<and> state_of m' w = None)"
  using visible_stable_run(1) [OF assms(2) tm_reach_wf [OF assms(1)] tm_reach_fated [OF assms(1)] assms(3,5,6,7,8,4)] .

theorem visibility_is_stable_witness:
  "visible_now (snd (prune_committed (finish_commit 1 True mgr_committing))) 1 2 = Some False"
proof -
  have "(tm_step no_fates)\<^sup>*\<^sup>* mgr_committing (snd (prune_committed (finish_commit 1 True mgr_committing)))"
    using step_finish_commit [of True 1 no_fates mgr_committing] step_prune [of no_fates "finish_commit 1 True mgr_committing"]
    by simp
  moreover have "is_transaction_active (snd (prune_committed (finish_commit 1 True mgr_committing))) 2"
    "is_transaction_active mgr_committing 2" "visible_now mgr_committing 1 2 = Some False"
    by (code_simp, code_simp, code_simp)
  ultimately show ?thesis
    using visibility_is_stable [OF mgr_committing_reach, of no_fates _ 2 1 False] mgr_committing_simps
    by (simp add: no_fates_def)
qed

text \<open>
  The wait in \<open>is_visible\<close> ends: along any run of the manager, once the writer's commit has
  been finished (its state is no longer Committing at some later look), the call returns, with
  the answer every later look of a still running reader would give.
\<close>

theorem is_visible_returns:
  assumes "tm_reach \<phi> (ms i)" and "\<forall>k. (tm_step \<phi>)\<^sup>*\<^sup>* (ms k) (ms (k + 1))"
    and "\<forall>ts p. state_of (ms (i + n)) w \<noteq> Some (Committing ts p)"
    and "r \<notin> unlogged \<phi>" and "tm_arcs (ms i) w \<noteq> None" and "w \<notin> reads_only \<phi> \<union> rolled_back \<phi>"
    and "is_transaction_active (ms i) r"
  shows "\<exists>b. is_visible ms i w r = Some b
    \<and> (\<forall>j \<ge> i + n. is_transaction_active (ms j) r \<longrightarrow> visible_now (ms j) w r = Some b)"
proof -
  note run = run_segment [OF assms(2)]
  have "visible_now (ms (i + n)) w r \<noteq> None"
    using assms(3) by (auto simp: visible_now_def split: option.splits txn_state.splits)
  then obtain k where k: "k \<le> n" "is_visible ms i w r = visible_now (ms (i + k)) w r" "is_visible ms i w r \<noteq> None"
    using is_visible_returns_at [of ms i n w r] by blast
  then obtain b where b: "visible_now (ms (i + k)) w r = Some b" by auto
  have reach: "tm_reach \<phi> (ms (i + k))" using tm_run_reach [OF run assms(1)] .
  note wf = tm_reach_wf [OF reach]
  have began: "tm_arcs (ms (i + k)) w \<noteq> None" "tm_arcs (ms (i + k)) r \<noteq> None"
    using began_run [OF run] assms(5) active_began [OF tm_reach_wf [OF assms(1)] assms(7)] by blast+
  have "visible_now (ms j) w r = Some b" if j: "j \<ge> i + n" and act: "is_transaction_active (ms j) r" for j
  proof -
    obtain d where "j = (i + k) + d" using j k(1) by (metis add_le_cancel_left le_Suc_ex le_trans)
    then have rest: "(tm_step \<phi>)\<^sup>*\<^sup>* (ms (i + k)) (ms j)" using run by simp
    have "is_transaction_active (ms (i + k)) r" using active_before_run [OF rest act wf began(2) assms(4)] .
    from visible_stable_run(1) [OF rest wf tm_reach_fated [OF reach] this assms(4) began(1) _ b act] assms(6) show ?thesis by blast
  qed
  then show ?thesis using k b by auto
qed

theorem is_visible_returns_witness:
  "is_visible (\<lambda>k. if k = 0 then mgr_committing else finish_commit 1 True mgr_committing) 0 1 2 = Some False"
proof -
  let ?ms = "\<lambda>k :: nat. if k = 0 then mgr_committing else finish_commit 1 True mgr_committing"
  have "(tm_step no_fates)\<^sup>*\<^sup>* (?ms k) (?ms (k + 1))" for k
    by (auto intro: step_finish_commit)
  moreover have "\<forall>ts p. state_of (?ms (0 + 1)) 1 \<noteq> Some (Committing ts p)"
    by (simp add: finish_commit_def mgr_committing_simps tm_simps)
  moreover have "is_transaction_active (?ms 0) 2" by (simp add: active_iff mgr_committing_simps)
  ultimately obtain b where "is_visible ?ms 0 1 2 = Some b"
      "\<forall>j \<ge> 1. is_transaction_active (?ms j) 2 \<longrightarrow> visible_now (?ms j) 1 2 = Some b"
    using is_visible_returns [of no_fates ?ms 0 1 1 2] mgr_committing_reach mgr_committing_simps(3)
    by (auto simp: no_fates_def)
  moreover have "is_transaction_active (?ms 1) 2" "visible_now (?ms 1) 1 2 = Some False"
    by (simp_all add: active_iff visible_now_def finish_commit_def mgr_committing_simps tm_simps)
  ultimately show ?thesis by (metis order_refl)
qed

text \<open>
  C25. First committer wins: a row version written by \<open>w\<close> may be overwritten by a transaction
  exactly when that transaction sees it, so a write never builds on a version its snapshot does
  not show; in particular every writer still in flight is a conflict.
\<close>

theorem conflict_iff_unseen:
  assumes "tm_reach \<phi> m" and "tm_arcs m me \<noteq> None"
  shows "conflicts m w me \<longleftrightarrow> visible_now m w me \<noteq> Some True"
proof -
  have "ts \<noteq> me" if "state_of m w = Some (Committed ts)" for ts
    using tm_reach_stamps_apart [OF assms(1)] assms(2) that by (auto simp: stamps_apart_def)
  then show ?thesis
    by (auto simp: conflicts_def visible_now_def neq_iff split: option.split txn_state.split)
qed

theorem conflict_iff_unseen_witness:
  "conflicts mgr_committing 1 2 \<and> \<not> conflicts mgr_committing 2 2"
  using conflict_iff_unseen [OF mgr_committing_reach mgr_committing_simps(4), of 1]
    conflict_iff_unseen [OF mgr_committing_reach mgr_committing_simps(4), of 2]
  by (simp add: visible_now_def mgr_committing_simps)

text \<open>
  C26. The retention horizon stays a bound: a horizon read at any moment is at most the id of
  every transaction running then or at any later moment (whose commit never failed to be
  queued), so a version committed below it is visible to each of them for good; and what
  \<open>prune_committed\<close> forgets, every running reader saw already.
\<close>

theorem horizon_is_safe:
  assumes "tm_reach \<phi> m" and "(tm_step \<phi>)\<^sup>*\<^sup>* m m'" and "is_transaction_active m' r" and "r \<notin> unlogged \<phi>"
  shows "horizon m \<le> r
    \<and> (state_of m' w = Some (Committed ts) \<and> ts < horizon m \<longrightarrow> visible_now m' w r = Some True)
    \<and> (state_of m' w = Some (Committed ts) \<and> state_of (snd (prune_committed m')) w = None \<longrightarrow> visible_now m' w r = Some True)"
proof -
  note wf = tm_reach_wf [OF assms(1)] and wf' = tm_run_wf [OF assms(2) tm_reach_wf [OF assms(1)]]
  have le: "horizon m \<le> r"
    using horizon_holds_run [OF assms(2) wf horizon_le_counter [OF wf]] horizon_le [OF wf] assms(3,4) by blast
  have "ts < r" if "state_of m' w = Some (Committed ts)" "state_of (snd (prune_committed m')) w = None"
    using that oldest_active_le [OF wf'] assms(3)
    by (fastforce simp: prune_state_of [OF wf'] prune_keeps_def split: option.splits if_splits)
  with le show ?thesis by (auto simp: visible_now_def)
qed

theorem horizon_is_safe_witness: "horizon mgr_two \<le> 2"
  using horizon_is_safe [OF mgr_two_reach [of no_fates] rtranclp.rtrancl_refl, of 2]
  by (simp add: active_iff mgr_two_simps no_fates_def)

text \<open>
  C27. The table and the snapshots stay in step: in every reachable state a transaction has a
  snapshot to read with exactly while it is running, every snapshot ever handed out says active
  exactly while its transaction is, ids and timestamps in the table have all been drawn from the
  counter and a transaction's timestamp is later than its id.
\<close>

theorem manager_invariant:
  assumes "tm_reach \<phi> m"
  shows "(take_snapshot m t \<noteq> None \<longleftrightarrow> is_transaction_active m t)
    \<and> (\<forall>sn. tm_arcs m t = Some sn \<longrightarrow> sn_reader sn = t \<and> sn_active sn = is_transaction_active m t)
    \<and> (\<forall>s. state_of m t = Some s \<longrightarrow> t < counter_of m \<and> tm_arcs m t \<noteq> None)
    \<and> (\<forall>ts. state_of m t = Some (Committed ts) \<longrightarrow> t < ts \<and> ts < counter_of m)
    \<and> (\<forall>x. oldest_in_flight m = Some x \<and> is_transaction_active m t \<longrightarrow> x \<le> t)"
proof -
  note wf = tm_reach_wf [OF assms]
  have "x \<le> t" if "oldest_in_flight m = Some x" "is_transaction_active m t" for x
    using that bt_find_Some(2) [OF tm_wfD(1) [OF wf]] by (force simp: oldest_in_flight_def active_iff state_of_def)
  moreover have "take_snapshot m t \<noteq> None \<longleftrightarrow> is_transaction_active m t"
    using take_snapshot_iff [OF wf, of t] active_began [OF wf, of t] by auto
  ultimately show ?thesis
    using tm_wfD(2,3,4) [OF wf, of t] tm_wfD(6) [OF wf, of t] by (fastforce simp: snap_wf_def)
qed

theorem manager_invariant_witness: "take_snapshot mgr_committing 2 \<noteq> None \<and> take_snapshot mgr_committing 1 = None"
  using manager_invariant [OF mgr_committing_reach, of 2] manager_invariant [OF mgr_committing_reach, of 1]
  by (auto simp: active_iff mgr_committing_simps)

text \<open>
  C39. A commit that fails to be queued undoes what the snapshot promised: the table counts only
  running transactions when it forgets committed ones, not one partway through its commit. If
  that one then runs again, a transaction that committed meanwhile, which its snapshot does not
  show, is visible by the table and no conflict: the reader can overwrite a version it never saw.
\<close>

theorem failed_commit_forgets_snapshot:
  defines "m1 \<equiv> snd (begin_commit 2 (finish_commit 1 True mgr_committing))"
  defines "m2 \<equiv> finish_commit 2 False (snd (prune_committed m1))"
  shows "tm_reach (no_fates\<lparr>unlogged := {2}\<rparr>) m2 \<and> is_transaction_active m2 2
    \<and> map_option (\<lambda>sn. sees sn 1) (take_snapshot m2 2) = Some (Some False)
    \<and> visible_now m2 1 2 = Some True \<and> \<not> conflicts m2 1 2"
proof -
  let ?\<phi> = "no_fates\<lparr>unlogged := {2}\<rparr>"
  have "counter_of (finish_commit 1 True mgr_committing) = 4"
    by (simp add: finish_commit_def mgr_committing_simps tm_simps)
  then have "tm_reach ?\<phi> m1"
    unfolding m1_def by (intro reach_step [OF reach_step [OF mgr_committing_reach step_finish_commit] step_begin_commit]) simp_all
  then have "tm_reach ?\<phi> m2"
    unfolding m2_def by (intro reach_step [OF reach_step [OF _ step_prune] step_finish_commit]) simp_all
  moreover have "is_transaction_active m2 2" "visible_now m2 1 2 = Some True" "\<not> conflicts m2 1 2"
    "map_option (\<lambda>sn. sees sn 1) (take_snapshot m2 2) = Some (Some False)"
    unfolding m2_def m1_def by code_simp+
  ultimately show ?thesis by blast
qed

text \<open>
  The clock only moves forward: after recovery advances it past a number or seeds it, the
  next number drawn is beyond that one and never below what was next before, seeding makes every
  number below the floor durable, and a wait for a durable number returns once the watermark
  has passed it.
\<close>

theorem clock_moves_forward:
  assumes "lsn \<noteq> U64_MAX"
  shows "lsn < fst (next_lsn (advance_counter_past lsn c)) \<and> next_value c \<le> fst (next_lsn (advance_counter_past lsn c))
    \<and> n \<le> fst (next_lsn (seed n c)) \<and> next_value c \<le> fst (next_lsn (seed n c))
    \<and> (x < n \<longrightarrow> is_durable (seed n c) x) \<and> last_written c \<le> last_written (seed n c)
    \<and> (is_durable (cs (i + d)) x \<longrightarrow> wait_until_durable cs i x = Some ())"
proof -
  have "is_durable (cs (i + d)) x \<Longrightarrow> wait_until_durable cs i x = Some ()"
  proof (induction d arbitrary: i)
    case 0
    then show ?case by (subst wait_until_durable.simps) simp
  next
    case (Suc d)
    then show ?case using Suc.IH [of "i + 1"] by (subst wait_until_durable.simps) simp
  qed
  moreover have "is_durable (seed n c) x" if "x < n"
  proof -
    have "1 \<le> n" using that by (metis word_gt_0 inc_le add_0 le_less_trans word_zero_le)
    moreover have "x \<le> n - 1" using that \<open>1 \<le> n\<close> by (simp add: word_le_nat_alt word_less_nat_alt unat_sub)
    ultimately show ?thesis by (auto simp: is_durable_def seed_def mark_written_def Let_def max_def)
  qed
  ultimately show ?thesis
    using inc_less [OF assms]
    by (auto simp: next_lsn_def next_value_def advance_counter_past_def seed_def mark_written_def last_written_def Let_def
        max_def not_le intro: less_le_trans)
qed

theorem clock_moves_forward_witness: "7 < fst (next_lsn (advance_counter_past 7 clock_default))"
  using clock_moves_forward [of 7 clock_default] by simp

end
