(* ===== verification/Version_Store.thy ===== *)
theory Version_Store
  imports Txn_Manager Tuple_Wire
begin

text \<open>
  The in-memory version store of \<open>version.rs\<close>: the pre-images older readers walk back to, each
  transaction's writes for its rollback, and the two queues the retention horizon drains. The
  logged operations it records are those of \<open>logger.rs\<close>.

  A transaction's writes are kept in the source as one buffer of postcard bytes that is only
  appended to and read back whole; here the buffer is the list of writes it encodes. The two
  sharded maps are maps (\<open>Kv_Map\<close> shows that a sharded map is one). Giving memory back
  (\<open>shrink\<close>) changes no entry and is left out.
\<close>

type_synonym table_id = u64
type_synonym lsn = u64

section \<open>Logged operations\<close>

record op_record =
  rc_table :: table_id
  rc_tuple :: tuple
  rc_data_page :: "u64 option"

datatype operation =
  Add txn_id op_record
| Mod txn_id op_record op_record
| Del txn_id op_record
| Commit txn_id
| Rollback txn_id
| Sequence string u64 bool
| Purge txn_id table_id dbid

section \<open>The store\<close>

record tombstone_rec =
  tb_commit_ts :: u64
  tb_table :: table_id
  tb_key :: dbid
  tb_txn :: txn_id

datatype undo = Remove table_id dbid | Restore table_id tuple

record pre_image =
  pi_table :: table_id
  pi_tuple :: tuple
  pi_deleted :: bool

datatype written = Inserted table_id dbid | Replaced lsn

record write_log =
  wl_writes :: "written list"
  wl_count :: nat

definition wl_default :: write_log where
  "wl_default = \<lparr>wl_writes = [], wl_count = 0\<rparr>"

definition wl_push :: "written \<Rightarrow> write_log \<Rightarrow> write_log" where
  "wl_push w l = l\<lparr>wl_writes := wl_writes l @ [w], wl_count := wl_count l + 1\<rparr>"

definition wl_retain :: "(written \<Rightarrow> bool) \<Rightarrow> write_log \<Rightarrow> write_log" where
  "wl_retain keep l = fold wl_push (filter keep (wl_writes l)) wl_default"

record version_store =
  vs_pre_images :: "lsn \<rightharpoonup> pre_image"
  vs_by_txn :: "txn_id \<rightharpoonup> write_log"
  vs_committed :: "(u64 \<times> txn_id \<times> nat) list"
  vs_retained :: u64
  vs_tombstones :: "tombstone_rec list"

record vacuumed =
  va_transactions_forgotten :: nat
  va_records_discarded :: nat
  va_tombstones :: "tombstone_rec list"

definition vs_new :: version_store where
  "vs_new = \<lparr>vs_pre_images = Map.empty, vs_by_txn = Map.empty, vs_committed = [], vs_retained = 0, vs_tombstones = []\<rparr>"

definition keep_pre_image :: "lsn \<Rightarrow> table_id \<Rightarrow> tuple \<Rightarrow> bool \<Rightarrow> version_store \<Rightarrow> version_store" where
  "keep_pre_image l tid t deleted v =
     v\<lparr>vs_pre_images := (vs_pre_images v)(l \<mapsto> \<lparr>pi_table = tid, pi_tuple = t, pi_deleted = deleted\<rparr>)\<rparr>"

definition log_write :: "txn_id \<Rightarrow> written \<Rightarrow> version_store \<Rightarrow> version_store" where
  "log_write t w v =
     v\<lparr>vs_by_txn := (vs_by_txn v)(t \<mapsto> wl_push w (case vs_by_txn v t of Some l \<Rightarrow> l | None \<Rightarrow> wl_default))\<rparr>"

fun vs_insert :: "lsn \<Rightarrow> operation \<Rightarrow> version_store \<Rightarrow> version_store" where
  "vs_insert l (Add t post) v = log_write t (Inserted (rc_table post) (t_id (rc_tuple post))) v"
| "vs_insert l (Mod t pre post) v = log_write t (Replaced l) (keep_pre_image l (rc_table pre) (rc_tuple pre) False v)"
| "vs_insert l (Del t pre) v = log_write t (Replaced l) (keep_pre_image l (rc_table pre) (rc_tuple pre) True v)"
| "vs_insert l _ v = v"

definition vs_find :: "version_store \<Rightarrow> lsn \<Rightarrow> tuple option" where
  "vs_find v l = map_option pi_tuple (vs_pre_images v l)"

definition writes_of :: "version_store \<Rightarrow> txn_id \<Rightarrow> written list" where
  "writes_of v t = (case vs_by_txn v t of Some l \<Rightarrow> wl_writes l | None \<Rightarrow> [])"

fun undo_write :: "version_store \<Rightarrow> written \<Rightarrow> undo option" where
  "undo_write v (Inserted tid k) = Some (Remove tid k)"
| "undo_write v (Replaced l) = map_option (\<lambda>p. Restore (pi_table p) (pi_tuple p)) (vs_pre_images v l)"

definition undo_of :: "version_store \<Rightarrow> txn_id \<Rightarrow> undo list" where
  "undo_of v t = List.map_filter (undo_write v) (writes_of v t)"

definition has_writes :: "version_store \<Rightarrow> txn_id \<Rightarrow> bool" where
  "has_writes v t = (vs_by_txn v t \<noteq> None)"

fun replaced_lsn :: "written \<Rightarrow> lsn option" where
  "replaced_lsn (Replaced l) = Some l"
| "replaced_lsn (Inserted _ _) = None"

definition drop_pre_images :: "written list \<Rightarrow> (lsn \<rightharpoonup> pre_image) \<Rightarrow> lsn \<rightharpoonup> pre_image" where
  "drop_pre_images ws pis = fold (\<lambda>w f. case w of Replaced l \<Rightarrow> f(l := None) | Inserted _ _ \<Rightarrow> f) ws pis"

definition discard :: "txn_id \<Rightarrow> version_store \<Rightarrow> nat \<times> version_store" where
  "discard t v =
     (case vs_by_txn v t of
        None \<Rightarrow> (0, v)
      | Some l \<Rightarrow> (wl_count l, v\<lparr>vs_by_txn := (vs_by_txn v)(t := None),
            vs_pre_images := drop_pre_images (wl_writes l) (vs_pre_images v)\<rparr>))"

definition tombstone_for :: "version_store \<Rightarrow> txn_id \<Rightarrow> u64 \<Rightarrow> lsn \<Rightarrow> tombstone_rec option" where
  "tombstone_for v t commit_ts l =
     (case vs_pre_images v l of
        Some p \<Rightarrow> if pi_deleted p
          then Some \<lparr>tb_commit_ts = commit_ts, tb_table = pi_table p, tb_key = t_id (pi_tuple p), tb_txn = t\<rparr>
          else None
      | None \<Rightarrow> None)"

definition mark_committed :: "txn_id \<Rightarrow> u64 \<Rightarrow> version_store \<Rightarrow> version_store" where
  "mark_committed t commit_ts v =
     (let lsns = List.map_filter replaced_lsn (writes_of v t) in
      case vs_by_txn v t of
        None \<Rightarrow> v
      | Some l \<Rightarrow>
          let ts = List.map_filter (tombstone_for v t commit_ts) lsns;
              v1 = (if lsns = [] then v\<lparr>vs_by_txn := (vs_by_txn v)(t := None)\<rparr>
                    else v\<lparr>vs_by_txn := (vs_by_txn v)(t \<mapsto> wl_retain (\<lambda>w. replaced_lsn w \<noteq> None) l),
                      vs_retained := vs_retained v + word_of_nat (length lsns),
                      vs_committed := vs_committed v @ [(commit_ts, t, length lsns)]\<rparr>)
          in v1\<lparr>vs_tombstones := vs_tombstones v1 @ ts\<rparr>)"

definition reclaimable :: "u64 option \<Rightarrow> u64 \<Rightarrow> bool" where
  "reclaimable h commit_ts = (case h of Some h \<Rightarrow> commit_ts < h | None \<Rightarrow> True)"

definition vacuum_one :: "u64 \<times> txn_id \<times> nat \<Rightarrow> vacuumed \<times> version_store \<Rightarrow> vacuumed \<times> version_store" where
  "vacuum_one e s =
     (case e of (_, t, kept) \<Rightarrow>
        let (n, v) = discard t (snd s)
        in ((fst s)\<lparr>va_records_discarded := va_records_discarded (fst s) + n,
              va_transactions_forgotten := va_transactions_forgotten (fst s) + 1\<rparr>,
            v\<lparr>vs_retained := vs_retained v - word_of_nat kept\<rparr>))"

definition vacuum :: "u64 option \<Rightarrow> version_store \<Rightarrow> vacuumed \<times> version_store" where
  "vacuum h v =
     (let (done, keep) = partition (\<lambda>e. reclaimable h (fst e)) (vs_committed v);
          (out, v1) = fold vacuum_one done
            (\<lparr>va_transactions_forgotten = 0, va_records_discarded = 0, va_tombstones = []\<rparr>, v\<lparr>vs_committed := keep\<rparr>);
          (gone, left) = partition (\<lambda>t. reclaimable h (tb_commit_ts t)) (vs_tombstones v1)
      in (out\<lparr>va_tombstones := gone\<rparr>, v1\<lparr>vs_tombstones := left\<rparr>))"

definition requeue_tombstones :: "tombstone_rec list \<Rightarrow> version_store \<Rightarrow> version_store" where
  "requeue_tombstones ts v = v\<lparr>vs_tombstones := vs_tombstones v @ ts\<rparr>"

definition retained_len :: "version_store \<Rightarrow> u64" where
  "retained_len v = vs_retained v"

definition committed_pending :: "version_store \<Rightarrow> nat" where
  "committed_pending v = length (vs_committed v)"

definition tombstones_pending :: "version_store \<Rightarrow> nat" where
  "tombstones_pending v = length (vs_tombstones v)"

section \<open>What each operation changes\<close>

named_theorems vs_simps \<open>the observable parts of a version store after an operation\<close>

lemma fold_wl_push: "wl_writes (fold wl_push ws l) = wl_writes l @ ws" "wl_count (fold wl_push ws l) = wl_count l + length ws"
  by (induction ws arbitrary: l) (simp_all add: wl_push_def)

lemma wl_retain_simps:
  "wl_writes (wl_retain keep l) = filter keep (wl_writes l)" "wl_count (wl_retain keep l) = length (filter keep (wl_writes l))"
  by (simp_all add: wl_retain_def fold_wl_push wl_default_def)

lemma log_write_simps [vs_simps]:
  "vs_pre_images (log_write t w v) = vs_pre_images v" "vs_committed (log_write t w v) = vs_committed v"
  "vs_tombstones (log_write t w v) = vs_tombstones v" "vs_retained (log_write t w v) = vs_retained v"
  "writes_of (log_write t w v) u = (if u = t then writes_of v t @ [w] else writes_of v u)"
  "has_writes (log_write t w v) u = (u = t \<or> has_writes v u)"
  by (simp_all add: log_write_def writes_of_def has_writes_def wl_push_def wl_default_def split: option.split)

lemma keep_pre_image_simps [vs_simps]:
  "vs_pre_images (keep_pre_image l tid t d v) = (vs_pre_images v)(l \<mapsto> \<lparr>pi_table = tid, pi_tuple = t, pi_deleted = d\<rparr>)"
  "vs_committed (keep_pre_image l tid t d v) = vs_committed v" "vs_tombstones (keep_pre_image l tid t d v) = vs_tombstones v"
  "vs_retained (keep_pre_image l tid t d v) = vs_retained v"
  "writes_of (keep_pre_image l tid t d v) u = writes_of v u" "has_writes (keep_pre_image l tid t d v) u = has_writes v u"
  by (simp_all add: keep_pre_image_def writes_of_def has_writes_def)

lemma drop_pre_images_at:
  "drop_pre_images ws pis l = (if Replaced l \<in> set ws then None else pis l)"
  unfolding drop_pre_images_def by (induction ws arbitrary: pis) (auto split: written.split)

lemma discard_simps [vs_simps]:
  "vs_pre_images (snd (discard t v)) l = (if Replaced l \<in> set (writes_of v t) then None else vs_pre_images v l)"
  "writes_of (snd (discard t v)) u = (if u = t then [] else writes_of v u)"
  "has_writes (snd (discard t v)) u = (u \<noteq> t \<and> has_writes v u)"
  "vs_committed (snd (discard t v)) = vs_committed v" "vs_tombstones (snd (discard t v)) = vs_tombstones v"
  "vs_retained (snd (discard t v)) = vs_retained v"
  by (auto simp: discard_def writes_of_def has_writes_def drop_pre_images_at split: option.split)

lemma mark_committed_simps [vs_simps]:
  "vs_pre_images (mark_committed t ts v) = vs_pre_images v"
  "writes_of (mark_committed t ts v) u =
     (if u = t then filter (\<lambda>w. replaced_lsn w \<noteq> None) (writes_of v t) else writes_of v u)"
  "vs_committed (mark_committed t ts v) = vs_committed v @
     (case List.map_filter replaced_lsn (writes_of v t) of [] \<Rightarrow> [] | ls \<Rightarrow> [(ts, t, length ls)])"
  "vs_tombstones (mark_committed t ts v) =
     vs_tombstones v @ List.map_filter (tombstone_for v t ts) (List.map_filter replaced_lsn (writes_of v t))"
  "vs_retained (mark_committed t ts v) = vs_retained v + word_of_nat (length (List.map_filter replaced_lsn (writes_of v t)))"
proof -
  have nil: "List.map_filter replaced_lsn ws = [] \<longleftrightarrow> filter (\<lambda>w. replaced_lsn w \<noteq> None) ws = []" for ws
    by (induction ws) (auto simp: List.map_filter_def)
  note d = mark_committed_def Let_def writes_of_def
  show "vs_pre_images (mark_committed t ts v) = vs_pre_images v"
    by (simp add: d split: option.split)
  show "writes_of (mark_committed t ts v) u =
     (if u = t then filter (\<lambda>w. replaced_lsn w \<noteq> None) (writes_of v t) else writes_of v u)"
    by (simp add: d wl_retain_simps nil split: option.split)
  show "vs_committed (mark_committed t ts v) = vs_committed v @
     (case List.map_filter replaced_lsn (writes_of v t) of [] \<Rightarrow> [] | ls \<Rightarrow> [(ts, t, length ls)])"
    by (simp add: d map_filter_simps split: option.split list.split)
  show "vs_tombstones (mark_committed t ts v) =
     vs_tombstones v @ List.map_filter (tombstone_for v t ts) (List.map_filter replaced_lsn (writes_of v t))"
    by (simp add: d map_filter_simps split: option.split)
  show "vs_retained (mark_committed t ts v) = vs_retained v + word_of_nat (length (List.map_filter replaced_lsn (writes_of v t)))"
    by (simp add: d map_filter_simps split: option.split)
qed

lemma vacuum_one_simps:
  "snd (vacuum_one e s) = (snd (discard (fst (snd e)) (snd s)))\<lparr>vs_retained := vs_retained (snd s) - word_of_nat (snd (snd e))\<rparr>"
  by (cases e) (simp add: vacuum_one_def split_beta Let_def vs_simps)

lemma has_writes_more [vs_simps]:
  "u \<noteq> t \<Longrightarrow> has_writes (mark_committed t ts v) u = has_writes v u"
  "has_writes (mark_committed t ts v) u \<Longrightarrow> has_writes v u"
  "has_writes (snd (vacuum_one e s)) u = (u \<noteq> fst (snd e) \<and> has_writes (snd s) u)"
  "has_writes (v\<lparr>vs_retained := x\<rparr>) t = has_writes v t" "has_writes (v\<lparr>vs_committed := c\<rparr>) t = has_writes v t"
  "has_writes (v\<lparr>vs_tombstones := ts'\<rparr>) t = has_writes v t"
  by (auto simp: mark_committed_def Let_def has_writes_def vacuum_one_simps discard_def split: option.splits if_splits)

lemma vacuum_fold_has_writes: "has_writes (snd (fold vacuum_one es s)) u = (u \<notin> (fst \<circ> snd) ` set es \<and> has_writes (snd s) u)"
  by (induction es arbitrary: s) (auto simp: has_writes_more)

lemma writes_of_upd [vs_simps]:
  "writes_of (v\<lparr>vs_retained := x\<rparr>) t = writes_of v t" "writes_of (v\<lparr>vs_committed := c\<rparr>) t = writes_of v t"
  "writes_of (v\<lparr>vs_tombstones := ts\<rparr>) t = writes_of v t"
  by (simp_all add: writes_of_def)

lemma vacuum_fold [vs_simps]:
  "vs_pre_images (snd (fold vacuum_one es s)) l =
     (if \<exists>e \<in> set es. Replaced l \<in> set (writes_of (snd s) (fst (snd e))) then None else vs_pre_images (snd s) l)"
  "writes_of (snd (fold vacuum_one es s)) t = (if t \<in> (fst \<circ> snd) ` set es then [] else writes_of (snd s) t)"
  "vs_committed (snd (fold vacuum_one es s)) = vs_committed (snd s)"
  "vs_tombstones (snd (fold vacuum_one es s)) = vs_tombstones (snd s)"
  "vs_retained (snd (fold vacuum_one es s)) = vs_retained (snd s) - word_of_nat (sum_list (map (snd \<circ> snd) es))"
  "va_transactions_forgotten (fst (fold vacuum_one es s)) = va_transactions_forgotten (fst s) + length es"
proof (induction es arbitrary: s)
  case (Cons e es)
  { case 1 show ?case by (auto simp: Cons.IH vacuum_one_simps vs_simps) }
  { case 2 show ?case by (simp add: Cons.IH vacuum_one_simps vs_simps) }
  { case 3 show ?case by (simp add: Cons.IH vacuum_one_simps vs_simps) }
  { case 4 show ?case by (simp add: Cons.IH vacuum_one_simps vs_simps) }
  { case 5 show ?case by (simp add: Cons.IH vacuum_one_simps vs_simps) }
  { case 6 show ?case by (simp add: Cons.IH) (simp add: vacuum_one_def split_beta Let_def) }
qed simp_all

definition settled_entries :: "u64 option \<Rightarrow> version_store \<Rightarrow> (u64 \<times> txn_id \<times> nat) list" where
  "settled_entries h v = filter (\<lambda>e. reclaimable h (fst e)) (vs_committed v)"

lemma vacuum_simps [vs_simps]:
  "vs_pre_images (snd (vacuum h v)) l =
     (if \<exists>e \<in> set (settled_entries h v). Replaced l \<in> set (writes_of v (fst (snd e))) then None else vs_pre_images v l)"
  "writes_of (snd (vacuum h v)) t = (if t \<in> (fst \<circ> snd) ` set (settled_entries h v) then [] else writes_of v t)"
  "vs_committed (snd (vacuum h v)) = filter (\<lambda>e. \<not> reclaimable h (fst e)) (vs_committed v)"
  "vs_tombstones (snd (vacuum h v)) = filter (\<lambda>t. \<not> reclaimable h (tb_commit_ts t)) (vs_tombstones v)"
  "vs_retained (snd (vacuum h v)) = vs_retained v - word_of_nat (sum_list (map (snd \<circ> snd) (settled_entries h v)))"
  "va_tombstones (fst (vacuum h v)) = filter (\<lambda>t. reclaimable h (tb_commit_ts t)) (vs_tombstones v)"
  "va_transactions_forgotten (fst (vacuum h v)) = length (settled_entries h v)"
  by (auto simp: vacuum_def settled_entries_def split_beta Let_def vs_simps comp_def)

lemma vacuum_has_writes: "has_writes (snd (vacuum h v)) u = (u \<notin> (fst \<circ> snd) ` set (settled_entries h v) \<and> has_writes v u)"
  by (simp add: vacuum_def settled_entries_def split_beta Let_def vs_simps vacuum_fold_has_writes)

section \<open>Properties\<close>

text \<open>
  The accounting of the store: the counter of retained pre-images is what the queue of
  committed transactions says, each entry counts the pre-images its transaction keeps, no
  transaction is queued twice and no pre-image belongs to two transactions.
\<close>

definition owns :: "version_store \<Rightarrow> txn_id \<Rightarrow> lsn \<Rightarrow> bool" where
  "owns v t l = (Replaced l \<in> set (writes_of v t))"

definition entry_wf :: "version_store \<Rightarrow> u64 \<times> txn_id \<times> nat \<Rightarrow> bool" where
  "entry_wf v e = (case e of (_, t, n) \<Rightarrow> n = length (writes_of v t) \<and> n > 0
     \<and> (\<forall>w \<in> set (writes_of v t). replaced_lsn w \<noteq> None))"

definition one_owner :: "version_store \<Rightarrow> bool" where
  "one_owner v = (\<forall>t t' l. owns v t l \<longrightarrow> owns v t' l \<longrightarrow> t = t')"

definition vs_wf :: "version_store \<Rightarrow> bool" where
  "vs_wf v = (vs_retained v = word_of_nat (sum_list (map (snd \<circ> snd) (vs_committed v)))
     \<and> distinct (map (fst \<circ> snd) (vs_committed v)) \<and> list_all (entry_wf v) (vs_committed v) \<and> one_owner v
     \<and> (\<forall>t. distinct (List.map_filter replaced_lsn (writes_of v t)))
     \<and> (\<forall>t l. owns v t l \<longrightarrow> vs_pre_images v l \<noteq> None))"

lemma vs_wf_new: "vs_wf vs_new"
  by (simp add: vs_wf_def vs_new_def owns_def one_owner_def writes_of_def List.map_filter_def)

lemma vs_wfI:
  assumes "vs_retained v = word_of_nat (sum_list (map (snd \<circ> snd) (vs_committed v)))"
    and "distinct (map (fst \<circ> snd) (vs_committed v))"
    and "\<And>ts t n. (ts, t, n) \<in> set (vs_committed v) \<Longrightarrow> entry_wf v (ts, t, n)"
    and "\<And>t t' l. owns v t l \<Longrightarrow> owns v t' l \<Longrightarrow> t = t'"
    and "\<And>t. distinct (List.map_filter replaced_lsn (writes_of v t))"
    and "\<And>t l. owns v t l \<Longrightarrow> vs_pre_images v l \<noteq> None"
  shows "vs_wf v"
  using assms(1,2,5,6) assms(3) assms(4) unfolding vs_wf_def one_owner_def list_all_iff by force

lemma vs_wfD:
  assumes "vs_wf v"
  shows "vs_retained v = word_of_nat (sum_list (map (snd \<circ> snd) (vs_committed v)))"
    and "distinct (map (fst \<circ> snd) (vs_committed v))"
    and "(ts, t, n) \<in> set (vs_committed v) \<Longrightarrow> entry_wf v (ts, t, n)"
    and "distinct (List.map_filter replaced_lsn (writes_of v t))"
    and "owns v t l \<Longrightarrow> vs_pre_images v l \<noteq> None"
  using assms by (auto simp: vs_wf_def list_all_iff)

lemma vs_wf_owner: "vs_wf v \<Longrightarrow> owns v t l \<Longrightarrow> owns v t' l \<Longrightarrow> t = t'"
  unfolding vs_wf_def one_owner_def by blast

lemma entry_wf_cong: "writes_of v t = writes_of v' t \<Longrightarrow> entry_wf v (ts, t, n) = entry_wf v' (ts, t, n)"
  by (simp add: entry_wf_def)

definition queued_txn :: "version_store \<Rightarrow> txn_id \<Rightarrow> bool" where
  "queued_txn v t = (\<exists>ts n. (ts, t, n) \<in> set (vs_committed v))"

definition fresh_lsn :: "version_store \<Rightarrow> lsn \<Rightarrow> bool" where
  "fresh_lsn v l = (vs_pre_images v l = None \<and> (\<forall>t. \<not> owns v t l))"

lemma map_filter_append_one: "List.map_filter f (xs @ [x]) = List.map_filter f xs @ (case f x of None \<Rightarrow> [] | Some y \<Rightarrow> [y])"
  by (simp add: List.map_filter_def split: option.split)

lemma map_filter_set: "set (List.map_filter f xs) = {y. \<exists>x \<in> set xs. f x = Some y}"
  by (force simp: List.map_filter_def)

lemma replaced_lsn_Some [simp]: "replaced_lsn w = Some l \<longleftrightarrow> w = Replaced l"
  by (cases w) auto

lemma owned_lsns: "l \<in> set (List.map_filter replaced_lsn (writes_of v t)) \<longleftrightarrow> owns v t l"
  by (auto simp: map_filter_set owns_def)

lemma vs_wf_log_insert:
  assumes wf: "vs_wf v" and "\<not> queued_txn v t"
  shows "vs_wf (log_write t (Inserted tid k) v)"
proof -
  let ?v = "log_write t (Inserted tid k) v"
  have owns: "owns ?v u l = owns v u l" for u l by (auto simp: owns_def vs_simps)
  show ?thesis
  proof (rule vs_wfI)
    fix ts u n assume e: "(ts, u, n) \<in> set (vs_committed ?v)"
    then have "u \<noteq> t" using assms(2) by (auto simp: queued_txn_def vs_simps)
    with vs_wfD(3) [OF wf] e show "entry_wf ?v (ts, u, n)" by (simp add: entry_wf_def vs_simps)
  qed (use vs_wfD(1,2,4,5) [OF wf] vs_wf_owner [OF wf] in \<open>simp_all add: vs_simps owns map_filter_append_one\<close>)
qed

lemma vs_wf_log_replace:
  assumes wf: "vs_wf v" and "\<not> queued_txn v t" and fresh: "fresh_lsn v l"
  shows "vs_wf (log_write t (Replaced l) (keep_pre_image l tid x d v))"
proof -
  let ?v = "log_write t (Replaced l) (keep_pre_image l tid x d v)"
  have owns: "owns ?v u k \<longleftrightarrow> owns v u k \<or> (u = t \<and> k = l)" for u k by (auto simp: owns_def vs_simps)
  show ?thesis
  proof (rule vs_wfI)
    fix ts u n assume e: "(ts, u, n) \<in> set (vs_committed ?v)"
    then have "u \<noteq> t" using assms(2) by (auto simp: queued_txn_def vs_simps)
    with vs_wfD(3) [OF wf] e show "entry_wf ?v (ts, u, n)" by (simp add: entry_wf_def vs_simps)
  next
    fix u u' k assume "owns ?v u k" "owns ?v u' k"
    then show "u = u'" using vs_wf_owner [OF wf, of u k u'] fresh by (auto simp: owns fresh_lsn_def)
  next
    fix u show "distinct (List.map_filter replaced_lsn (writes_of ?v u))"
      using vs_wfD(4) [OF wf] fresh by (simp add: vs_simps map_filter_append_one owned_lsns fresh_lsn_def)
  qed (use vs_wfD(1,2,5) [OF wf] in \<open>auto simp: vs_simps owns\<close>)
qed

lemma vs_wf_discard:
  assumes wf: "vs_wf v" and "\<not> queued_txn v t"
  shows "vs_wf (snd (discard t v))"
proof -
  let ?v = "snd (discard t v)"
  have owns: "owns ?v u k \<longleftrightarrow> u \<noteq> t \<and> owns v u k" for u k by (auto simp: owns_def vs_simps)
  show ?thesis
  proof (rule vs_wfI)
    fix ts u n assume e: "(ts, u, n) \<in> set (vs_committed ?v)"
    then have "u \<noteq> t" using assms(2) by (auto simp: queued_txn_def vs_simps)
    with vs_wfD(3) [OF wf] e show "entry_wf ?v (ts, u, n)" by (simp add: entry_wf_def vs_simps)
  next
    fix u u' k assume "owns ?v u k" "owns ?v u' k"
    then show "u = u'" using vs_wf_owner [OF wf, of u k u'] by (simp add: owns)
  next
    fix u k assume o: "owns ?v u k"
    then have "\<not> owns v t k" using vs_wf_owner [OF wf, of u k t] by (auto simp: owns)
    with o vs_wfD(5) [OF wf, of u k] show "vs_pre_images ?v k \<noteq> None" by (auto simp: vs_simps owns owns_def split: if_splits)
  qed (use vs_wfD(1,2,4) [OF wf] in \<open>simp_all add: vs_simps List.map_filter_def\<close>)
qed

lemma map_filter_kept: "List.map_filter f (filter (\<lambda>w. f w \<noteq> None) ws) = List.map_filter f ws"
  by (induction ws) (auto simp: List.map_filter_def)

lemma length_map_filter: "length (List.map_filter f ws) = length (filter (\<lambda>w. f w \<noteq> None) ws)"
  by (induction ws) (auto simp: List.map_filter_def)

lemma vs_wf_mark_committed:
  assumes wf: "vs_wf v" and "\<not> queued_txn v t"
  shows "vs_wf (mark_committed t ts v)"
proof -
  let ?v = "mark_committed t ts v" and ?ls = "List.map_filter replaced_lsn (writes_of v t)"
  have owns: "owns ?v u k = owns v u k" for u k by (auto simp: owns_def vs_simps)
  have new: "t \<notin> (fst \<circ> snd) ` set (vs_committed v)" using assms(2) by (force simp: queued_txn_def)
  have lsns: "List.map_filter replaced_lsn (writes_of ?v u) = List.map_filter replaced_lsn (writes_of v u)" for u
    using map_filter_kept [of replaced_lsn "writes_of v t"] by (simp add: vs_simps)
  have q: "vs_committed ?v = vs_committed v @ (if ?ls = [] then [] else [(ts, t, length ?ls)])"
    by (simp add: vs_simps split: list.split)
  show ?thesis
  proof (rule vs_wfI)
    show "vs_retained ?v = word_of_nat (sum_list (map (snd \<circ> snd) (vs_committed ?v)))"
      unfolding q using vs_wfD(1) [OF wf] by (simp add: vs_simps)
    show "distinct (map (fst \<circ> snd) (vs_committed ?v))" using vs_wfD(2) [OF wf] new by (auto simp: q)
    show "entry_wf ?v (x, u, n)" if e: "(x, u, n) \<in> set (vs_committed ?v)" for x u n
    proof (cases "u = t")
      case True
      then have "(x, u, n) = (ts, t, length ?ls)" "?ls \<noteq> []" using e new by (force simp: q split: if_splits)+
      then show ?thesis using length_map_filter [of replaced_lsn "writes_of v t"] by (auto simp: entry_wf_def vs_simps)
    next
      case False
      then have "(x, u, n) \<in> set (vs_committed v)" using e by (auto simp: q split: if_splits)
      then show ?thesis using False vs_wfD(3) [OF wf] by (simp add: entry_wf_def vs_simps)
    qed
    show "u = u'" if "owns ?v u k" "owns ?v u' k" for u u' k
      using that vs_wf_owner [OF wf, of u k u'] by (simp add: owns)
  qed (use vs_wfD(4,5) [OF wf] in \<open>simp_all only: owns lsns mark_committed_simps(1) not_False_eq_True\<close>)
qed

lemma sum_list_filter_split:
  "sum_list (map f xs) = sum_list (map f (filter p xs)) + sum_list (map f (filter (\<lambda>x. \<not> p x) xs))" for f :: "'a \<Rightarrow> nat"
  by (induction xs) auto

lemma vs_wf_vacuum:
  assumes wf: "vs_wf v"
  shows "vs_wf (snd (vacuum h v))"
proof -
  let ?v = "snd (vacuum h v)" and ?d = "settled_entries h v"
  have owns: "owns ?v u k \<longleftrightarrow> u \<notin> (fst \<circ> snd) ` set ?d \<and> owns v u k" for u k by (auto simp: owns_def vs_simps)
  show ?thesis
  proof (rule vs_wfI)
    show "vs_retained ?v = word_of_nat (sum_list (map (snd \<circ> snd) (vs_committed ?v)))"
      using vs_wfD(1) [OF wf] sum_list_filter_split [of "snd \<circ> snd" "vs_committed v" "\<lambda>e. reclaimable h (fst e)"]
      by (simp add: vs_simps settled_entries_def)
    show "distinct (map (fst \<circ> snd) (vs_committed ?v))"
      using vs_wfD(2) [OF wf] by (simp add: vs_simps distinct_map_filter)
    show "entry_wf ?v (x, u, n)" if e: "(x, u, n) \<in> set (vs_committed ?v)" for x u n
    proof -
      from e have mem: "(x, u, n) \<in> set (vs_committed v)" "\<not> reclaimable h x" by (auto simp: vs_simps)
      have "u \<notin> (fst \<circ> snd) ` set ?d"
      proof
        assume "u \<in> (fst \<circ> snd) ` set ?d"
        then obtain f where f: "f \<in> set (vs_committed v)" "reclaimable h (fst f)" "(fst \<circ> snd) f = (fst \<circ> snd) (x, u, n)"
          by (auto simp: settled_entries_def)
        have "inj_on (fst \<circ> snd) (set (vs_committed v))" using vs_wfD(2) [OF wf] by (simp only: distinct_map)
        from inj_onD [OF this f(3) f(1) mem(1)] f(2) mem(2) show False by simp
      qed
      then show ?thesis using vs_wfD(3) [OF wf mem(1)] by (auto simp: entry_wf_def vs_simps)
    qed
    show "u = u'" if "owns ?v u k" "owns ?v u' k" for u u' k
      using that vs_wf_owner [OF wf, of u k u'] by (simp add: owns)
    show "vs_pre_images ?v k \<noteq> None" if o: "owns ?v u k" for u k
    proof -
      have "\<not> owns v (fst (snd e)) k" if "e \<in> set ?d" for e
        using o vs_wf_owner [OF wf, of u k "fst (snd e)"] that by (auto simp: owns)
      then show ?thesis using o vs_wfD(5) [OF wf, of u k] by (auto simp: vs_simps owns owns_def split: if_splits)
    qed
  qed (use vs_wfD(4) [OF wf] in \<open>simp add: vs_simps List.map_filter_def\<close>)
qed

lemma undo_write_cong: "(\<And>l. w = Replaced l \<Longrightarrow> vs_pre_images v l = vs_pre_images v' l) \<Longrightarrow> undo_write v w = undo_write v' w"
  by (cases w) auto

lemma undo_of_cong:
  assumes "writes_of v' t = writes_of v t" "\<And>l. owns v t l \<Longrightarrow> vs_pre_images v' l = vs_pre_images v l"
  shows "undo_of v' t = undo_of v t"
proof -
  have "undo_write v' w = undo_write v w" if "w \<in> set (writes_of v t)" for w
    using assms(2) that by (intro undo_write_cong) (auto simp: owns_def)
  then show ?thesis unfolding undo_of_def assms(1) by (simp add: List.map_filter_def cong: filter_cong)
qed

text \<open>
  What a write records is what its rollback will need: recording an insert, update or delete
  under a fresh number appends to the transaction's undo the removal of the new row, or the
  restoring of exactly the version replaced; the version is found under that number; every other
  transaction's undo and every other version are as before.
\<close>

definition undo_entry :: "operation \<Rightarrow> undo list" where
  "undo_entry op =
     (case op of
        Add _ post \<Rightarrow> [Remove (rc_table post) (t_id (rc_tuple post))]
      | Mod _ pre _ \<Rightarrow> [Restore (rc_table pre) (rc_tuple pre)]
      | Del _ pre \<Rightarrow> [Restore (rc_table pre) (rc_tuple pre)]
      | _ \<Rightarrow> [])"

definition writer_of :: "operation \<Rightarrow> txn_id option" where
  "writer_of op = (case op of Add t _ \<Rightarrow> Some t | Mod t _ _ \<Rightarrow> Some t | Del t _ \<Rightarrow> Some t | _ \<Rightarrow> None)"

theorem write_is_undone:
  assumes "fresh_lsn v l"
  shows "undo_of (vs_insert l op v) t = undo_of v t @ (if writer_of op = Some t then undo_entry op else [])
    \<and> (has_writes (vs_insert l op v) t \<longleftrightarrow> has_writes v t \<or> writer_of op = Some t)
    \<and> (k \<noteq> l \<longrightarrow> vs_find (vs_insert l op v) k = vs_find v k)
    \<and> vs_find (vs_insert l op v) l =
        (case op of Mod _ pre _ \<Rightarrow> Some (rc_tuple pre) | Del _ pre \<Rightarrow> Some (rc_tuple pre) | _ \<Rightarrow> None)"
proof -
  have keep: "undo_of (keep_pre_image l tid x d v) u = undo_of v u" for tid x d u
    using assms by (intro undo_of_cong) (auto simp: vs_simps fresh_lsn_def)
  have log: "undo_of (log_write u w v') t = undo_of v' t @ (if u = t then (case undo_write v' w of None \<Rightarrow> [] | Some x \<Rightarrow> [x]) else [])"
    for u w v'
  proof -
    have "undo_write (log_write u w v') = undo_write v'" by (rule ext, rule undo_write_cong) (simp add: vs_simps)
    then show ?thesis by (simp add: undo_of_def vs_simps map_filter_append_one)
  qed
  show ?thesis
    using assms by (cases op) (auto simp: log keep vs_simps undo_entry_def writer_of_def vs_find_def fresh_lsn_def)
qed

theorem write_is_undone_witness:
  "undo_of (vs_insert 9 (Del 4 \<lparr>rc_table = 1, rc_tuple = tuple_default, rc_data_page = None\<rparr>) vs_new) 4
    = [Restore 1 tuple_default]"
proof -
  have "fresh_lsn vs_new 9" by (simp add: fresh_lsn_def vs_new_def owns_def writes_of_def)
  from write_is_undone [OF this, of "Del 4 \<lparr>rc_table = 1, rc_tuple = tuple_default, rc_data_page = None\<rparr>" 4]
  show ?thesis by (simp add: undo_of_def undo_entry_def writer_of_def) (simp add: vs_new_def writes_of_def List.map_filter_def)
qed

text \<open>
  C28. Vacuuming to a horizon discards exactly the pre-images of the transactions committed below
  it: every pre-image of another transaction is still found; the tombstones handed back are those
  of transactions committed below the horizon, in order, the rest stay queued; and the counter of
  retained pre-images, which the engine's limit is checked against, remains the number kept by
  the transactions still queued.
\<close>

theorem vacuum_retention:
  assumes "vs_wf v" and "vacuum (Some h) v = (out, v')"
  shows "vs_wf v'
    \<and> (\<forall>ts t n l. (ts, t, n) \<in> set (vs_committed v) \<and> owns v t l \<and> ts < h \<longrightarrow> vs_find v' l = None)
    \<and> (\<forall>l. (\<forall>ts t n. (ts, t, n) \<in> set (vs_committed v) \<and> owns v t l \<longrightarrow> h \<le> ts) \<longrightarrow> vs_find v' l = vs_find v l)
    \<and> va_tombstones out = filter (\<lambda>b. tb_commit_ts b < h) (vs_tombstones v)
    \<and> vs_tombstones v' = filter (\<lambda>b. h \<le> tb_commit_ts b) (vs_tombstones v)
    \<and> vs_committed v' = filter (\<lambda>e. h \<le> fst e) (vs_committed v)
    \<and> retained_len v' = word_of_nat (\<Sum>(ts, t, n) \<leftarrow> vs_committed v'. length (writes_of v' t))"
proof -
  have v': "v' = snd (vacuum (Some h) v)" and out: "out = fst (vacuum (Some h) v)" using assms(2) by simp_all
  have wf': "vs_wf v'" using vs_wf_vacuum [OF assms(1)] by (simp add: v')
  have "map (snd \<circ> snd) (vs_committed v') = map (\<lambda>(ts, t, n). length (writes_of v' t)) (vs_committed v')"
    using vs_wfD(3) [OF wf'] by (auto simp: entry_wf_def)
  then have "retained_len v' = word_of_nat (\<Sum>(ts, t, n) \<leftarrow> vs_committed v'. length (writes_of v' t))"
    using vs_wfD(1) [OF wf'] by (simp only: retained_len_def)
  moreover have "vs_find v' l = None" if "(ts, t, n) \<in> set (vs_committed v)" "owns v t l" "ts < h" for ts t n l
    using that by (force simp: v' vs_find_def vs_simps settled_entries_def reclaimable_def owns_def)
  moreover have "vs_find v' l = vs_find v l"
    if "\<forall>ts t n. (ts, t, n) \<in> set (vs_committed v) \<and> owns v t l \<longrightarrow> h \<le> ts" for l
    using that by (force simp: v' vs_find_def vs_simps settled_entries_def reclaimable_def owns_def)
  ultimately show ?thesis
    using wf' by (auto simp: out v' vs_simps reclaimable_def not_less)
qed

theorem vacuum_retention_witness:
  "vs_tombstones (snd (vacuum (Some 5) (vs_new\<lparr>vs_tombstones := [\<lparr>tb_commit_ts = 7, tb_table = 1, tb_key = IntId 1, tb_txn = 2\<rparr>]\<rparr>)))
    = [\<lparr>tb_commit_ts = 7, tb_table = 1, tb_key = IntId 1, tb_txn = 2\<rparr>]"
proof -
  let ?v = "vs_new\<lparr>vs_tombstones := [\<lparr>tb_commit_ts = 7, tb_table = 1, tb_key = IntId 1, tb_txn = 2\<rparr>]\<rparr>"
  have "vs_wf ?v" by (simp add: vs_wf_def vs_new_def owns_def one_owner_def writes_of_def List.map_filter_def)
  from vacuum_retention [OF this surjective_pairing, of 5] show ?thesis by simp
qed

end
