(* ===== verification/Wal_Log.thy ===== *)
theory Wal_Log
  imports Version_Store
begin

text \<open>
  The write-ahead log as bytes: \<^verbatim>\<open>store/src/logger.rs\<close> (the header of a log file, the framing of
  its records, the scan recovery makes of a log that a crash may have cut anywhere) and the
  checksum of \<^verbatim>\<open>store/src/page.rs\<close>.

  What postcard makes of a record's payload is a parameter: \<open>dec\<close> stands for
  \<^verbatim>\<open>from_bytes::<LogRecord>\<close> on a payload. Messages of errors are shortened to their kind.
\<close>

unbundle bit_operations_syntax

type_synonym u16 = "16 word"

section \<open>Checksums and frames\<close>

definition fnv1a_32 :: "bytes \<Rightarrow> u32" where
  "fnv1a_32 bs = fold (\<lambda>b h. (h XOR ucast b) * 0x01000193) bs 0x811c9dc5"

abbreviation (input) FRAME_HEADER_LEN :: nat where "FRAME_HEADER_LEN \<equiv> 8"

definition frame_record :: "bytes \<Rightarrow> bytes" where
  "frame_record payload = le_bytes 4 (length payload) @ le_bytes 4 (unat (fnv1a_32 payload)) @ payload"

text \<open>The two numbers of a frame's header, at \<open>pos\<close>; \<^verbatim>\<open>payload.len() as u32\<close> above keeps the low 32 bits.\<close>

definition frame_len :: "bytes \<Rightarrow> nat \<Rightarrow> nat" where
  "frame_len buf pos = of_le (take 4 (drop pos buf))"

definition frame_sum :: "bytes \<Rightarrow> nat \<Rightarrow> u32" where
  "frame_sum buf pos = word_of_nat (of_le (take 4 (drop (pos + 4) buf)))"

definition frame_is_complete_and_valid :: "bytes \<Rightarrow> bool" where
  "frame_is_complete_and_valid buf =
     (if length buf < FRAME_HEADER_LEN then False
      else let len = frame_len buf 0; checksum = frame_sum buf 0 in
        if length buf - FRAME_HEADER_LEN < len then False
        else fnv1a_32 (take len (drop FRAME_HEADER_LEN buf)) = checksum)"

section \<open>The header of a log file\<close>

abbreviation (input) LOG_MAGIC :: bytes where "LOG_MAGIC \<equiv> [0x53, 0x71, 0x57, 0x4c]"
abbreviation (input) CURRENT_LOG_VERSION :: u16 where "CURRENT_LOG_VERSION \<equiv> 2"
abbreviation (input) LOG_HEADER_PREFIX_LEN :: nat where "LOG_HEADER_PREFIX_LEN \<equiv> 6"
abbreviation (input) LOG_HEADER_V2_LEN :: nat where "LOG_HEADER_V2_LEN \<equiv> 14"

definition unreadable_v1_wal :: serr where
  "unreadable_v1_wal = LogHeaderMismatch ''version 1''"

definition log_header_len :: "u16 \<Rightarrow> serr + nat" where
  "log_header_len version =
     (if version = 1 then Inl unreadable_v1_wal
      else if version = 2 then Inr LOG_HEADER_V2_LEN
      else Inl (LogHeaderMismatch ''version''))"

definition peek_log_prefix :: "bytes \<Rightarrow> serr + (bytes \<times> u16)" where
  "peek_log_prefix bs =
     (case get_range bs 0 LOG_HEADER_PREFIX_LEN of
        None \<Rightarrow> Inl (LogHeaderMismatch ''short'')
      | Some prefix \<Rightarrow> Inr (take 4 prefix, word_of_nat (of_le (take 2 (drop 4 prefix)))))"

record log_header =
  lh_magic :: bytes
  lh_version :: u16
  lh_page_size :: u64

text \<open>The header's layout: every field at a fixed width, little end first, in the order declared.\<close>

definition log_header_bytes :: "log_header \<Rightarrow> bytes" where
  "log_header_bytes h = lh_magic h @ le_bytes 2 (unat (lh_version h)) @ le_bytes 8 (unat (lh_page_size h))"

definition write_log_header :: "u64 \<Rightarrow> bytes" where
  "write_log_header page_size = log_header_bytes \<lparr>lh_magic = LOG_MAGIC, lh_version = CURRENT_LOG_VERSION, lh_page_size = page_size\<rparr>"

record validated_log_header =
  vh_version :: u16
  vh_bytes :: bytes

text \<open>Reading past the end of the file is an error of the file.\<close>

definition read_exact :: "bytes \<Rightarrow> nat \<Rightarrow> serr + bytes" where
  "read_exact file n = ok_or IoError (get_range file 0 n)"

definition read_and_validate_log_header :: "bytes \<Rightarrow> u64 \<Rightarrow> serr + validated_log_header" where
  "read_and_validate_log_header file expected_page_size =
     r_bind (read_exact file LOG_HEADER_PREFIX_LEN) (\<lambda>prefix.
     r_bind (peek_log_prefix prefix) (\<lambda>(magic, version).
       let problems = (if magic \<noteq> LOG_MAGIC then [''magic''] else []) in
       case log_header_len version of
         Inl (LogHeaderMismatch msg) \<Rightarrow> Inl (LogHeaderMismatch (concat (problems @ [msg])))
       | Inl other \<Rightarrow> Inl other
       | Inr header_len \<Rightarrow>
           r_bind (read_exact file header_len) (\<lambda>bs.
             let page_size = (word_of_nat (of_le (take 8 (drop 6 bs))) :: u64);
                 problems = problems @ (if page_size \<noteq> expected_page_size then [''page_size''] else [])
             in if problems \<noteq> [] then Inl (LogHeaderMismatch (concat problems))
                else Inr \<lparr>vh_version = version, vh_bytes = bs\<rparr>)))"

definition header_len_of :: "bytes \<Rightarrow> serr + nat" where
  "header_len_of bs = r_bind (peek_log_prefix bs) (\<lambda>(_, version). log_header_len version)"

section \<open>The scan\<close>

definition unsupported_version :: "string \<Rightarrow> serr" where
  "unsupported_version type_name = Corruption (type_name @ '' version'')"

definition decode_log_record :: "(bytes \<Rightarrow> serr + 'r) \<Rightarrow> u16 \<Rightarrow> bytes \<Rightarrow> serr + 'r" where
  "decode_log_record dec version payload =
     (if version = 1 then Inl unreadable_v1_wal
      else if version = 2 then dec payload
      else Inl (unsupported_version ''WAL record''))"

text \<open>The loop of \<^verbatim>\<open>scan_log\<close>, from \<open>pos\<close> with what it has read so far. None: it never ends.\<close>

partial_function (option) scan_loop ::
    "(bytes \<Rightarrow> serr + 'r) \<Rightarrow> u16 \<Rightarrow> bytes \<Rightarrow> nat \<Rightarrow> 'r list \<Rightarrow> (serr + 'r list) option" where
  "scan_loop dec version buf pos records =
     (if length buf - pos < FRAME_HEADER_LEN then Some (Inr records)
      else let len = frame_len buf pos; checksum = frame_sum buf pos; payload_start = pos + FRAME_HEADER_LEN in
        if length buf - payload_start < len then Some (Inr records)
        else let payload = take len (drop payload_start buf) in
          if fnv1a_32 payload \<noteq> checksum then
            (if frame_is_complete_and_valid (drop (payload_start + len) buf) then Some (Inl (LogCorruption ''checksum mismatch''))
             else Some (Inr records))
          else (case decode_log_record dec version payload of
                  Inl e \<Rightarrow> Some (Inl e)
                | Inr r \<Rightarrow> scan_loop dec version buf (payload_start + len) (records @ [r])))"

declare scan_loop.simps [code]

definition scan_log :: "(bytes \<Rightarrow> serr + 'r) \<Rightarrow> u16 \<Rightarrow> bytes \<Rightarrow> (serr + 'r list) option" where
  "scan_log dec version buf = scan_loop dec version buf 0 []"

partial_function (option) trailing_loop :: "bytes \<Rightarrow> nat \<Rightarrow> nat option" where
  "trailing_loop body pos =
     (if length body - pos < FRAME_HEADER_LEN then Some (length body - pos)
      else let len = frame_len body pos; checksum = frame_sum body pos; payload_start = pos + FRAME_HEADER_LEN in
        if length body - payload_start < len then Some (length body - pos)
        else if fnv1a_32 (take len (drop payload_start body)) \<noteq> checksum then Some (length body - pos)
        else trailing_loop body (payload_start + len))"

declare trailing_loop.simps [code]

definition trailing_unscanned_bytes :: "bytes \<Rightarrow> nat option" where
  "trailing_unscanned_bytes body = trailing_loop body 0"

section \<open>Frames read back\<close>

lemma length_frame [simp]: "length (frame_record p) = 8 + length p"
  by (simp add: frame_record_def)

lemma frame_fields:
  assumes "drop pos buf = frame_record p @ rest" "length p < 2 ^ 32"
  shows "frame_len buf pos = length p" "frame_sum buf pos = fnv1a_32 p"
    "take (length p) (drop (pos + 8) buf) = p" "drop (pos + 8 + length p) buf = rest"
proof -
  have d: "drop (pos + n) buf = drop n (frame_record p @ rest)" for n
    using assms(1) by (metis add.commute drop_drop)
  show "frame_len buf pos = length p"
    using assms by (simp add: frame_len_def frame_record_def)
  have "unat (fnv1a_32 p) mod 2 ^ 32 = unat (fnv1a_32 p)" using unat_u32_less [of "fnv1a_32 p"] by simp
  then show "frame_sum buf pos = fnv1a_32 p"
    unfolding frame_sum_def d by (simp add: frame_record_def)
  show "take (length p) (drop (pos + 8) buf) = p" unfolding d by (simp add: frame_record_def)
  show "drop (pos + 8 + length p) buf = rest" unfolding add.assoc d by (simp add: frame_record_def)
qed

text \<open>A buffer that is too short for a frame, or for the payload its header announces.\<close>

definition torn :: "bytes \<Rightarrow> bool" where
  "torn buf = (length buf < 8 \<or> length buf - 8 < frame_len buf 0)"

lemma drop_fields: "frame_len buf pos = frame_len (drop pos buf) 0" "frame_sum buf pos = frame_sum (drop pos buf) 0"
  by (simp_all add: frame_len_def frame_sum_def add.commute)

lemma scan_torn:
  "torn (drop pos buf) \<Longrightarrow> scan_loop dec version buf pos rs = Some (Inr rs)"
  by (subst scan_loop.simps) (auto simp: torn_def drop_fields(1) [of buf pos] Let_def)

lemma trailing_torn: "torn (drop pos buf) \<Longrightarrow> trailing_loop buf pos = Some (length buf - pos)"
  by (subst trailing_loop.simps) (auto simp: torn_def drop_fields(1) [of buf pos] Let_def)

lemma scan_frame:
  assumes "drop pos buf = frame_record p @ rest" "length p < 2 ^ 32"
  shows "scan_loop dec version buf pos rs = (case decode_log_record dec version p of
      Inl e \<Rightarrow> Some (Inl e) | Inr r \<Rightarrow> scan_loop dec version buf (pos + length (frame_record p)) (rs @ [r]))"
    and "trailing_loop buf pos = trailing_loop buf (pos + length (frame_record p))"
proof -
  have l: "length buf - pos = 8 + length p + length rest"
    using arg_cong [OF assms(1), of length] by simp
  then have l': "length buf - (pos + 8) = length p + length rest" by simp
  note f = frame_fields [OF assms]
  show "scan_loop dec version buf pos rs = (case decode_log_record dec version p of
      Inl e \<Rightarrow> Some (Inl e) | Inr r \<Rightarrow> scan_loop dec version buf (pos + length (frame_record p)) (rs @ [r]))"
    by (subst scan_loop.simps) (use l l' in \<open>simp add: f Let_def algebra_simps split: sum.split\<close>)
  show "trailing_loop buf pos = trailing_loop buf (pos + length (frame_record p))"
    by (subst trailing_loop.simps) (use l l' in \<open>simp add: f Let_def algebra_simps\<close>)
qed

lemma drop_frame: "drop pos buf = frame_record p @ rest \<Longrightarrow> drop (pos + length (frame_record p)) buf = rest"
  by (metis add.commute append_eq_conv_conj drop_drop)

lemma scan_frames:
  assumes "drop pos buf = concat (map frame_record ps) @ rest" "\<forall>p \<in> set ps. length p < 2 ^ 32"
    and "list_all2 (\<lambda>p r. decode_log_record dec version p = Inr r) ps xs"
  shows "scan_loop dec version buf pos rs = scan_loop dec version buf (pos + length (concat (map frame_record ps))) (rs @ xs)
     \<and> trailing_loop buf pos = trailing_loop buf (pos + length (concat (map frame_record ps)))"
  using assms
proof (induction ps arbitrary: pos rs xs)
  case (Cons p ps)
  obtain x ys where xs: "xs = x # ys" "decode_log_record dec version p = Inr x" "list_all2 (\<lambda>p r. decode_log_record dec version p = Inr r) ps ys"
    using Cons.prems(3) by (cases xs) auto
  have here: "drop pos buf = frame_record p @ concat (map frame_record ps) @ rest" using Cons.prems(1) by simp
  have after: "drop (pos + length (frame_record p)) buf = concat (map frame_record ps) @ rest"
    by (rule drop_frame [OF here])
  note f = scan_frame(1) [OF here, of dec version rs] scan_frame(2) [OF here] and IH = Cons.IH [OF after _ xs(3), of "rs @ [x]"]
  show ?case using f IH Cons.prems(2) xs by (simp add: algebra_simps)
qed simp

text \<open>A cut frame is torn.\<close>

lemma torn_take:
  assumes "length p < 2 ^ 32" "n < length (frame_record p)"
  shows "torn (take n (frame_record p))"
proof (cases "n < 8")
  case False
  have "frame_len (take n (frame_record p)) 0 = length p"
    using assms False by (simp add: frame_len_def frame_record_def min_def)
  then show ?thesis using assms False by (simp add: torn_def)
qed (simp add: torn_def)

text \<open>The records that lie whole within the first \<open>n\<close> bytes of a log.\<close>

fun whole :: "nat \<Rightarrow> bytes list \<Rightarrow> bytes list" where
  "whole n [] = []"
| "whole n (p # ps) = (if length (frame_record p) \<le> n then p # whole (n - length (frame_record p)) ps else [])"

lemma take_whole:
  assumes "\<forall>p \<in> set ps. length p < 2 ^ 32"
  shows "\<exists>tail. take n (concat (map frame_record ps)) = concat (map frame_record (whole n ps)) @ tail \<and> torn tail"
  using assms
proof (induction ps arbitrary: n)
  case (Cons p ps)
  show ?case
  proof (cases "length (frame_record p) \<le> n")
    case True
    obtain tail where "take (n - length (frame_record p)) (concat (map frame_record ps))
        = concat (map frame_record (whole (n - length (frame_record p)) ps)) @ tail" "torn tail"
      using Cons.IH [of "n - length (frame_record p)"] Cons.prems by auto
    with True show ?thesis by auto
  next
    case False
    have "take n (concat (map frame_record (p # ps))) = take n (frame_record p)" using False by simp
    then show ?thesis using torn_take [of p n] False Cons.prems by auto
  qed
qed (simp add: torn_def)

lemma whole_prefix: "\<exists>k. whole n ps = take k ps"
proof (induction n ps rule: whole.induct)
  case (2 n p ps)
  show ?case
  proof (cases "length (frame_record p) \<le> n")
    case True
    then obtain k where "whole (n - length (frame_record p)) ps = take k ps" using 2 by blast
    with True have "whole n (p # ps) = take (Suc k) (p # ps)" by simp
    then show ?thesis by blast
  next
    case False
    then have "whole n (p # ps) = take 0 (p # ps)" by simp
    then show ?thesis by blast
  qed
qed simp

lemma whole_all: "length (concat (map frame_record ps)) \<le> n \<Longrightarrow> whole n ps = ps"
  by (induction n ps rule: whole.induct) auto

text \<open>
  C29. A log survives being cut. Write records one after the other, each with its length and its
  checksum, and let a crash keep any first part of the bytes: the scan reads back exactly the
  records that lie whole in that part, a prefix of those written, and never fails. With every
  byte kept, that is all of them.
\<close>

theorem torn_log_scans_to_prefix:
  assumes "\<forall>r \<in> set rs. length (enc r) < 2 ^ 32" and "\<forall>r \<in> set rs. dec (enc r) = Inr r"
  shows "\<exists>k. scan_log dec 2 (take n (concat (map (frame_record \<circ> enc) rs))) = Some (Inr (take k rs))
     \<and> map enc (take k rs) = whole n (map enc rs)
     \<and> (length (concat (map (frame_record \<circ> enc) rs)) \<le> n \<longrightarrow> take k rs = rs)"
proof -
  let ?log = "concat (map frame_record (map enc rs))"
  obtain k where k: "whole n (map enc rs) = take k (map enc rs)" using whole_prefix by blast
  obtain tail where tail: "take n ?log = concat (map frame_record (take k (map enc rs))) @ tail" "torn tail"
    using take_whole [of "map enc rs" n] assms(1) k by auto
  have dec: "list_all2 (\<lambda>p r. decode_log_record dec 2 p = Inr r) (take k (map enc rs)) (take k rs)"
    using assms(2) by (auto simp: list_all2_conv_all_nth decode_log_record_def)
  have short: "\<forall>p \<in> set (take k (map enc rs)). length p < 2 ^ 32" using assms(1) by (auto dest!: in_set_takeD)
  have "scan_log dec 2 (take n ?log) = Some (Inr (take k rs))"
    unfolding scan_log_def using scan_frames [of 0 "take n ?log", OF _ short dec, of tail "[]"] tail
    by (simp add: scan_torn)
  moreover have "take k rs = rs" if "length ?log \<le> n"
  proof -
    have "take k (map enc rs) = map enc rs" using whole_all [OF that] k by simp
    then have "length rs \<le> k" by (metis length_map take_all_iff)
    then show ?thesis by simp
  qed
  ultimately show ?thesis using k by (auto simp: take_map)
qed

theorem torn_log_scans_to_prefix_witness:
  "\<exists>k. scan_log Inr 2 (take 20 (concat (map (frame_record \<circ> id) [[1, 2], [3 :: byte], [4]]))) = Some (Inr (take k [[1, 2], [3], [4]]))
     \<and> map id (take k [[1, 2], [3 :: byte], [4]]) = [[1, 2], [3]]"
proof -
  have "whole 20 [[1, 2], [3 :: byte], [4]] = [[1, 2], [3]]" by simp
  then show ?thesis
    using torn_log_scans_to_prefix [of "[[1, 2], [3 :: byte], [4]]" id "Inr :: bytes \<Rightarrow> serr + bytes" 20] by auto
qed

section \<open>What any bytes scan to\<close>

lemma le_take [simp]: "n \<le> length (xs :: bytes) \<Longrightarrow> le_bytes n (of_le (take n xs)) = take n xs"
  by (rule le_bytes_of_le) simp

lemma unat_word_le: "length (xs :: bytes) = 4 \<Longrightarrow> unat (word_of_nat (of_le xs) :: u32) = of_le xs"
  using of_le_bound [of xs] by (simp add: unat_of_nat take_bit_nat_eq_self)

lemma frame_split: "8 \<le> length buf \<Longrightarrow> buf = take 4 buf @ take 4 (drop 4 buf) @ drop 8 buf"
  by (metis append_take_drop_id drop_drop numeral_Bit0 numeral_plus_numeral semiring_norm(2))

text \<open>A complete, valid frame is the frame of its payload.\<close>

lemma valid_frame:
  "frame_is_complete_and_valid buf \<longleftrightarrow> (\<exists>p rest. buf = frame_record p @ rest \<and> length p < 2 ^ 32)"
proof
  assume v: "frame_is_complete_and_valid buf"
  then have l: "8 \<le> length buf" "frame_len buf 0 \<le> length buf - 8"
    and sum: "fnv1a_32 (take (frame_len buf 0) (drop 8 buf)) = frame_sum buf 0"
    by (auto simp: frame_is_complete_and_valid_def Let_def split: if_splits)
  let ?p = "take (frame_len buf 0) (drop 8 buf)"
  have len: "length ?p = of_le (take 4 buf)" using l by (simp add: frame_len_def)
  have fs: "unat (fnv1a_32 ?p) = of_le (take 4 (drop 4 buf))"
    using sum l(1) by (simp add: frame_sum_def unat_word_le)
  have "frame_record ?p = take 4 buf @ take 4 (drop 4 buf) @ ?p"
    using l(1) unfolding frame_record_def len fs by simp
  then have "buf = frame_record ?p @ drop (frame_len buf 0) (drop 8 buf)"
    using frame_split [OF l(1)] by (metis append.assoc append_take_drop_id)
  moreover have "length ?p < 2 ^ 32" using of_le_bound [of "take 4 buf"] l(1) len by simp
  ultimately show "\<exists>p rest. buf = frame_record p @ rest \<and> length p < 2 ^ 32" by blast
next
  assume "\<exists>p rest. buf = frame_record p @ rest \<and> length p < 2 ^ 32"
  then obtain p rest where p: "buf = frame_record p @ rest" "length p < 2 ^ 32" by blast
  then show "frame_is_complete_and_valid buf"
    using frame_fields [of 0 buf p rest] by (simp add: frame_is_complete_and_valid_def)
qed

text \<open>A frame with its length right, its checksum wrong, and a good frame after it.\<close>

definition corrupt_inside :: "bytes \<Rightarrow> bool" where
  "corrupt_inside buf = (\<not> torn buf \<and> \<not> frame_is_complete_and_valid buf
     \<and> frame_is_complete_and_valid (drop (8 + frame_len buf 0) buf))"

lemma scan_invalid:
  assumes "\<not> frame_is_complete_and_valid (drop pos buf)"
  shows "scan_loop dec version buf pos rs =
      Some (if corrupt_inside (drop pos buf) then Inl (LogCorruption ''checksum mismatch'') else Inr rs)"
    and "trailing_loop buf pos = Some (length buf - pos)"
proof -
  have eq: "drop (pos + 8 + n) buf = drop (8 + n) (drop pos buf)" "drop (pos + 8) buf = drop 8 (drop pos buf)" for n
    by (simp_all add: ac_simps)
  have bad: "torn (drop pos buf) \<or> fnv1a_32 (take (frame_len buf pos) (drop (pos + 8) buf)) \<noteq> frame_sum buf pos"
    using assms unfolding frame_is_complete_and_valid_def torn_def eq drop_fields [of buf pos] by (simp add: Let_def split: if_splits)
  show "scan_loop dec version buf pos rs =
      Some (if corrupt_inside (drop pos buf) then Inl (LogCorruption ''checksum mismatch'') else Inr rs)"
  proof (cases "torn (drop pos buf)")
    case False
    then have "\<not> length buf - pos < 8" "\<not> length buf - (pos + 8) < frame_len buf pos"
      by (simp_all add: torn_def drop_fields(1) [of buf pos])
    then show ?thesis using False bad assms
      by (subst scan_loop.simps) (simp add: corrupt_inside_def Let_def eq drop_fields(1) [of buf pos])
  qed (simp add: scan_torn corrupt_inside_def)
  show "trailing_loop buf pos = Some (length buf - pos)"
  proof (cases "torn (drop pos buf)")
    case False
    then show ?thesis using bad by (subst trailing_loop.simps) (simp add: Let_def)
  qed (rule trailing_torn)
qed

text \<open>How a scan ends at \<open>tail\<close>, having read \<open>rs\<close>; \<open>trailing\<close> is what is said to be left.\<close>

definition ends_as :: "(bytes \<Rightarrow> serr + 'r) \<Rightarrow> 'r list \<Rightarrow> bytes \<Rightarrow> nat option \<Rightarrow> serr + 'r list \<Rightarrow> bool" where
  "ends_as dec rs tail trailing r = (case r of
     Inr out \<Rightarrow> out = rs \<and> \<not> frame_is_complete_and_valid tail \<and> \<not> corrupt_inside tail \<and> trailing = Some (length tail)
   | Inl e \<Rightarrow> (\<exists>p rest. tail = frame_record p @ rest \<and> dec p = Inl e)
       \<or> (corrupt_inside tail \<and> e = LogCorruption ''checksum mismatch''))"

lemma scan_loop_ends:
  "\<exists>r ps xs tail. scan_loop dec version buf pos rs = Some r \<and> drop pos buf = concat (map frame_record ps) @ tail
     \<and> map (decode_log_record dec version) ps = map Inr xs
     \<and> ends_as (decode_log_record dec version) (rs @ xs) tail (trailing_loop buf pos) r"
proof (induction "length buf - pos" arbitrary: pos rs rule: less_induct)
  case less
  show ?case
  proof (cases "frame_is_complete_and_valid (drop pos buf)")
    case False
    then have "ends_as (decode_log_record dec version) rs (drop pos buf) (trailing_loop buf pos)
        (if corrupt_inside (drop pos buf) then Inl (LogCorruption ''checksum mismatch'') else Inr rs)"
      by (simp add: ends_as_def scan_invalid(2) [OF False])
    then show ?thesis
      using scan_invalid(1) [OF False, of dec version rs] by (metis append_Nil append_Nil2 concat.simps(1) list.map_disc_iff)
  next
    case True
    then obtain p rest where p: "drop pos buf = frame_record p @ rest" "length p < 2 ^ 32"
      unfolding valid_frame by blast
    note f = scan_frame(1) [OF p, of dec version rs] scan_frame(2) [OF p]
    show ?thesis
    proof (cases "decode_log_record dec version p")
      case (Inl e)
      have "scan_loop dec version buf pos rs = Some (Inl e)"
        "ends_as (decode_log_record dec version) (rs @ []) (drop pos buf) (trailing_loop buf pos) (Inl e)"
        using Inl p(1) f(1) by (auto simp: ends_as_def)
      then show ?thesis by (metis append_Nil concat.simps(1) list.map_disc_iff)
    next
      case (Inr x)
      let ?pos = "pos + length (frame_record p)"
      have "length buf - ?pos < length buf - pos" using arg_cong [OF p(1), of length] by simp
      from less.hyps [OF this, of "rs @ [x]"] obtain r ps xs tail where
        r: "scan_loop dec version buf ?pos (rs @ [x]) = Some r" "drop ?pos buf = concat (map frame_record ps) @ tail"
          "map (decode_log_record dec version) ps = map Inr xs"
          "ends_as (decode_log_record dec version) ((rs @ [x]) @ xs) tail (trailing_loop buf ?pos) r" by blast
      have "drop pos buf = concat (map frame_record (p # ps)) @ tail"
        using p(1) r(2) drop_frame [OF p(1)] by simp
      moreover have "map (decode_log_record dec version) (p # ps) = map Inr (x # xs)" using r(3) Inr by simp
      moreover have "ends_as (decode_log_record dec version) (rs @ x # xs) tail (trailing_loop buf pos) r"
        using r(4) f(2) by simp
      moreover have "scan_loop dec version buf pos rs = Some r" using r(1) f(1) Inr by simp
      ultimately show ?thesis by blast
    qed
  qed
qed

text \<open>
  C30. The scan ends on every buffer, and says what it read: the bytes are whole frames, one after
  the other, and a rest. If it returns records they are those of the frames, the rest begins with
  no complete valid frame and is as long as \<^verbatim>\<open>trailing_unscanned_bytes\<close> tells, and nothing valid
  follows a frame it dropped. If it returns an error, either a frame with a right checksum does
  not decode, or a frame with a wrong checksum is followed by a complete and valid one.
\<close>

theorem scan_log_ends:
  "\<exists>r ps rs tail. scan_log dec version buf = Some r \<and> buf = concat (map frame_record ps) @ tail
     \<and> map (decode_log_record dec version) ps = map Inr rs
     \<and> ends_as (decode_log_record dec version) rs tail (trailing_unscanned_bytes buf) r"
  using scan_loop_ends [of dec version buf 0 "[]"]
  unfolding scan_log_def trailing_unscanned_bytes_def drop_0 append_Nil .

lemma scan_to_tail:
  assumes "\<forall>p \<in> set ps. length p < 2 ^ 32" and "map dec ps = map Inr rs" and "\<not> frame_is_complete_and_valid tail"
  shows "scan_log dec 2 (concat (map frame_record ps) @ tail) =
    Some (if corrupt_inside tail then Inl (LogCorruption ''checksum mismatch'') else Inr rs)"
proof -
  let ?buf = "concat (map frame_record ps) @ tail"
  have dec: "list_all2 (\<lambda>p r. decode_log_record dec 2 p = Inr r) ps rs"
    using assms(2) by (auto simp: list_all2_conv_all_nth decode_log_record_def list_eq_iff_nth_eq)
  show ?thesis
    using scan_frames [of 0 ?buf, OF _ assms(1) dec, of tail "[]"]
      scan_invalid(1) [of "length (concat (map frame_record ps))" ?buf dec 2 rs] assms(3)
    by (simp add: scan_log_def)
qed

text \<open>
  C31. Damage to a record inside the log is reported: bytes changed so that its checksum no longer
  holds, its length field left as it was, with a good record right after it, make the scan fail
  with \<^verbatim>\<open>LogCorruption\<close>, whatever stands before (records that decode) and behind. Damage to
  the length field can only be noticed while the length lies within the log: one that points past
  the end is taken for a torn tail, and the scan ends there without an error, giving the records before it
  and none of those behind.
\<close>

theorem damage_inside_is_reported:
  assumes "\<forall>p \<in> set ps. length p < 2 ^ 32" and "map dec ps = map Inr rs"
  shows "(\<forall>bad chk p rest. length bad < 2 ^ 32 \<and> chk \<noteq> fnv1a_32 bad \<and> length p < 2 ^ 32 \<longrightarrow>
      scan_log dec 2 (concat (map frame_record ps) @ le_bytes 4 (length bad) @ le_bytes 4 (unat chk) @ bad @ frame_record p @ rest)
        = Some (Inl (LogCorruption ''checksum mismatch'')))
    \<and> (\<forall>len chk rest. len < 2 ^ 32 \<and> length rest < len \<longrightarrow>
      scan_log dec 2 (concat (map frame_record ps) @ le_bytes 4 len @ le_bytes 4 (unat (chk :: u32)) @ rest) = Some (Inr rs))"
proof (intro conjI allI impI)
  fix bad chk and p rest :: bytes assume h: "length bad < 2 ^ 32 \<and> chk \<noteq> fnv1a_32 bad \<and> length p < 2 ^ 32"
  let ?tail = "le_bytes 4 (length bad) @ le_bytes 4 (unat chk) @ bad @ frame_record p @ rest"
  have len: "frame_len ?tail 0 = length bad" using h by (simp add: frame_len_def)
  have sum: "frame_sum ?tail 0 = chk" using unat_u32_less [of chk] by (simp add: frame_sum_def)
  have "\<not> torn ?tail" unfolding torn_def len by simp
  moreover have inv: "\<not> frame_is_complete_and_valid ?tail"
    unfolding frame_is_complete_and_valid_def Let_def len sum using h by auto
  moreover have "frame_is_complete_and_valid (drop (8 + frame_len ?tail 0) ?tail)"
    unfolding len valid_frame using h by auto
  ultimately have "corrupt_inside ?tail" unfolding corrupt_inside_def by blast
  then show "scan_log dec 2 (concat (map frame_record ps) @ ?tail) = Some (Inl (LogCorruption ''checksum mismatch''))"
    using scan_to_tail [OF assms inv] by simp
next
  fix len and chk :: u32 and rest :: bytes assume h: "len < 2 ^ 32 \<and> length rest < len"
  let ?tail = "le_bytes 4 len @ le_bytes 4 (unat chk) @ rest"
  have len: "frame_len ?tail 0 = len" using h by (simp add: frame_len_def)
  have "\<not> frame_is_complete_and_valid ?tail" "\<not> corrupt_inside ?tail"
    unfolding frame_is_complete_and_valid_def corrupt_inside_def torn_def Let_def len using h by simp_all
  then show "scan_log dec 2 (concat (map frame_record ps) @ ?tail) = Some (Inr rs)" using scan_to_tail [OF assms] by simp
qed

theorem damage_inside_is_reported_witness:
  "scan_log Inr 2 (frame_record [1] @ le_bytes 4 1 @ le_bytes 4 7 @ [2] @ frame_record [3] @ []) = Some (Inl (LogCorruption ''checksum mismatch'') :: serr + bytes list)
    \<and> scan_log Inr 2 (frame_record [1] @ le_bytes 4 100 @ le_bytes 4 7 @ [2] @ frame_record [3]) = Some (Inr [[1]] :: serr + bytes list)"
proof -
  have "(7 :: u32) \<noteq> fnv1a_32 [2]" by (simp add: fnv1a_32_def)
  note d = damage_inside_is_reported [of "[[1]]" "Inr :: bytes \<Rightarrow> serr + bytes" "[[1]]"]
  have "scan_log Inr 2 (concat (map frame_record [[1]]) @ le_bytes 4 (length ([2] :: bytes)) @ le_bytes 4 (unat (7 :: u32)) @ [2] @ frame_record [3] @ [])
      = Some (Inl (LogCorruption ''checksum mismatch'') :: serr + bytes list)"
    by (rule d [THEN conjunct1, rule_format]) (simp_all add: \<open>7 \<noteq> fnv1a_32 [2]\<close>)
  moreover have "scan_log Inr 2 (concat (map frame_record [[1]]) @ le_bytes 4 100 @ le_bytes 4 (unat (7 :: u32)) @ [2] @ frame_record [3])
      = Some (Inr [[1]] :: serr + bytes list)"
    by (rule d [THEN conjunct2, rule_format]) (simp_all add: frame_record_def)
  ultimately show ?thesis by simp
qed

end
