(* ===== verification/Mvcc_Db.thy ===== *)
theory Mvcc_Db
  imports Version_Store
begin

text \<open>
  The transactional core of the database (\<open>db.rs\<close>): reading a row by walking back to the version
  a snapshot sees, inserting, updating and removing rows, committing, rolling back, and the
  maintenance pass that forgets and reclaims. The rows of all tables are one map from a table and
  a key (its key bytes) to the tuple on the page: what \<open>BPlusTree::write_version\<close> gives its caller,
  who decides under the leaf's lock what becomes of the row. The tree's own pages are not modelled;
  an error it or the log may return after the decision is an argument of the operation.
\<close>

section \<open>State\<close>

type_synonym row_key = "table_id \<times> bytes"

definition row_key :: "table_id \<Rightarrow> dbid \<Rightarrow> row_key" where
  "row_key tid i = (tid, encode i [])"

record db =
  db_tm :: txn_mgr
  db_vs :: version_store
  db_rows :: "row_key \<rightharpoonup> tuple"
  db_tables :: "table_id \<rightharpoonup> u64 option"
  db_log :: "(lsn \<times> operation) list"
  db_degraded :: "string option"
  db_forced :: "txn_id \<rightharpoonup> string"
  db_attempts :: "txn_id \<rightharpoonup> nat"

definition draw :: "db \<Rightarrow> lsn \<times> db" where
  "draw d = (let (n, m) = mint (db_tm d) in (n, d\<lparr>db_tm := m\<rparr>))"

definition refuse_if_degraded :: "db \<Rightarrow> serr + unit" where
  "refuse_if_degraded d = (case db_degraded d of Some reason \<Rightarrow> Inl (EngineDegraded reason) | None \<Rightarrow> Inr ())"

definition require_active :: "txn_id \<Rightarrow> db \<Rightarrow> (serr + unit) \<times> db" where
  "require_active t d =
     (if is_transaction_active (db_tm d) t then (Inr (), d)
      else case db_forced d t of
        Some reason \<Rightarrow> (Inl (SnapshotTooOld reason), d\<lparr>db_forced := (db_forced d)(t := None)\<rparr>)
      | None \<Rightarrow> (Inl TransactionAlreadyFinished, d))"

definition table_by_id :: "table_id \<Rightarrow> db \<Rightarrow> serr + u64 option" where
  "table_by_id tid d = (case db_tables d tid of Some b \<Rightarrow> Inr b | None \<Rightarrow> Inl (TableNotFound ''table''))"

definition table_by_id_or_dropped :: "table_id \<Rightarrow> db \<Rightarrow> serr + u64 option option" where
  "table_by_id_or_dropped tid d =
     (case table_by_id tid d of
        Inr b \<Rightarrow> Inr (Some b)
      | Inl (TableNotFound _) \<Rightarrow> Inr None
      | Inl e \<Rightarrow> Inl e)"

text \<open>\<open>check_fits\<close>: the budget is that of a tree with its rows in its leaves, None for one with data pages.\<close>

definition PRE_LSN_GROWTH :: u64 where
  "PRE_LSN_GROWTH = 10"

definition check_fits :: "serializer \<Rightarrow> u64 option \<Rightarrow> tuple \<Rightarrow> serr + unit" where
  "check_fits S budget t =
     (case budget of
        Some b \<Rightarrow> if tuple_size S t + PRE_LSN_GROWTH > b
          then Inl (TupleTooLarge (unat (tuple_size S t + PRE_LSN_GROWTH)) (unat b)) else Inr ()
      | None \<Rightarrow> Inr ())"

section \<open>Reading\<close>

datatype walk = Itself | Ancestor tuple | NoAncestor | MissingUndoRecord

datatype visible = VisItself | VisAncestor tuple | VisNot

text \<open>
  The walk back asks for every version whether its writer is visible; an answer None is one that
  is still being waited for, and the walk has no value then.
\<close>

partial_function (option) walk_from :: "(txn_id \<Rightarrow> bool option) \<Rightarrow> version_store \<Rightarrow> lsn option \<Rightarrow> walk option" where
  "walk_from vis v pre =
     (case pre of
        None \<Rightarrow> Some NoAncestor
      | Some l \<Rightarrow> (case vs_find v l of
            None \<Rightarrow> Some MissingUndoRecord
          | Some t \<Rightarrow> (case t_txn_id t of
                None \<Rightarrow> Some NoAncestor
              | Some w \<Rightarrow> (case vis w of
                    None \<Rightarrow> None
                  | Some b \<Rightarrow> if b then Some (Ancestor t) else walk_from vis v (t_pre_lsn t)))))"

definition walk_back :: "(txn_id \<Rightarrow> bool option) \<Rightarrow> version_store \<Rightarrow> tuple \<Rightarrow> (serr + walk) option" where
  "walk_back vis v t =
     (case t_txn_id t of
        None \<Rightarrow> Some (Inl (Corruption ''tuple has no txn_id''))
      | Some w \<Rightarrow> (case vis w of
            None \<Rightarrow> None
          | Some True \<Rightarrow> Some (Inr Itself)
          | Some False \<Rightarrow> map_option Inr (walk_from vis v (t_pre_lsn t))))"

text \<open>What a reader is told of a writer: by its snapshot, else by the table.\<close>

definition reader_sees :: "db \<Rightarrow> snapshot \<Rightarrow> txn_id \<Rightarrow> bool option" where
  "reader_sees d sn w = (case sees sn w of Some b \<Rightarrow> Some b | None \<Rightarrow> visible_now (db_tm d) w (sn_reader sn))"

definition visible_version :: "db \<Rightarrow> tuple \<Rightarrow> snapshot \<Rightarrow> (serr + visible) option" where
  "visible_version d t sn =
     (case walk_back (reader_sees d sn) (db_vs d) t of
        None \<Rightarrow> None
      | Some (Inl e) \<Rightarrow> Some (Inl e)
      | Some (Inr Itself) \<Rightarrow> Some (Inr (if tuple_is_tombstoned t then VisNot else VisItself))
      | Some (Inr (Ancestor a)) \<Rightarrow> Some (Inr (if tuple_is_tombstoned a then VisNot else VisAncestor a))
      | Some (Inr NoAncestor) \<Rightarrow> Some (Inr VisNot)
      | Some (Inr MissingUndoRecord) \<Rightarrow> Some (Inl (Corruption ''version record missing'')))"

definition db_snapshot :: "txn_id \<Rightarrow> db \<Rightarrow> (serr + snapshot) \<times> db" where
  "db_snapshot t d =
     (case take_snapshot (db_tm d) t of
        Some s \<Rightarrow> (Inr s, d)
      | None \<Rightarrow> (case require_active t d of
            (Inl e, d1) \<Rightarrow> (Inl e, d1)
          | (Inr (), d1) \<Rightarrow> (Inl TransactionAlreadyFinished, d1)))"

definition check_snapshot :: "snapshot \<Rightarrow> db \<Rightarrow> (serr + unit) \<times> db" where
  "check_snapshot s d =
     (if sn_active s then (Inr (), d)
      else case require_active (sn_reader s) d of
        (Inl e, d1) \<Rightarrow> (Inl e, d1)
      | (Inr (), d1) \<Rightarrow> (Inl TransactionAlreadyFinished, d1))"

definition find_row :: "table_id \<Rightarrow> dbid \<Rightarrow> snapshot \<Rightarrow> db \<Rightarrow> (serr + tuple option) option" where
  "find_row tid i s d =
     (case db_rows d (row_key tid i) of
        None \<Rightarrow> Some (Inr None)
      | Some row \<Rightarrow> (case visible_version d row s of
            None \<Rightarrow> None
          | Some (Inl e) \<Rightarrow> Some (Inl e)
          | Some (Inr VisItself) \<Rightarrow> Some (Inr (Some row))
          | Some (Inr (VisAncestor a)) \<Rightarrow> Some (Inr (Some a))
          | Some (Inr VisNot) \<Rightarrow> Some (Inr None)))"

definition find_in :: "table_id \<Rightarrow> dbid \<Rightarrow> snapshot \<Rightarrow> db \<Rightarrow> ((serr + tuple option) \<times> db) option" where
  "find_in tid i s d =
     (case check_snapshot s d of
        (Inl e, d1) \<Rightarrow> Some (Inl e, d1)
      | (Inr (), d1) \<Rightarrow> (case table_by_id tid d1 of
            Inl e \<Rightarrow> Some (Inl e, d1)
          | Inr _ \<Rightarrow> map_option (\<lambda>r. (r, d1)) (find_row tid i s d1)))"

definition find_as :: "table_id \<Rightarrow> dbid \<Rightarrow> txn_id \<Rightarrow> db \<Rightarrow> ((serr + tuple option) \<times> db) option" where
  "find_as tid i t d =
     (case db_snapshot t d of
        (Inl e, d1) \<Rightarrow> Some (Inl e, d1)
      | (Inr s, d1) \<Rightarrow> find_in tid i s d1)"

text \<open>\<open>resolve_visible\<close> with the write path's question, and the write-conflict test.\<close>

definition find_last_committed :: "tuple \<Rightarrow> db \<Rightarrow> (serr + tuple option) option" where
  "find_last_committed t d =
     (case walk_back (\<lambda>w. Some (is_committed (db_tm d) w)) (db_vs d) t of
        None \<Rightarrow> None
      | Some (Inl e) \<Rightarrow> Some (Inl e)
      | Some (Inr Itself) \<Rightarrow> Some (Inr (Some t))
      | Some (Inr (Ancestor a)) \<Rightarrow> Some (Inr (Some a))
      | Some (Inr NoAncestor) \<Rightarrow> Some (Inr None)
      | Some (Inr MissingUndoRecord) \<Rightarrow> Some (Inr None))"

definition check_write_conflict :: "tuple \<Rightarrow> txn_id \<Rightarrow> db \<Rightarrow> serr + unit" where
  "check_write_conflict current t d =
     (case t_txn_id current of
        None \<Rightarrow> Inl (UnknownError ''panic: tuple must carry a txn_id'')
      | Some w \<Rightarrow> if conflicts (db_tm d) w t then Inl (WriteConflict (t_id current)) else Inr ())"

section \<open>Writing\<close>

datatype decision = Insert tuple | Replace tuple | Delete | Skip

datatype write_result = WInserted | WReplaced tuple | WDeleted "tuple option" | WSkipped

text \<open>
  The one write path: \<open>decide\<close> is called once with the row under the key and may record and log;
  \<open>tree_err\<close> is an error the tree returns when it carries the decision out. The number the pages
  are stamped with has no part here.
\<close>

definition write_version ::
    "table_id \<Rightarrow> dbid \<Rightarrow> serr option \<Rightarrow> (tuple option \<Rightarrow> db \<Rightarrow> (serr + decision) \<times> db) \<Rightarrow> db \<Rightarrow> (serr + write_result) \<times> db" where
  "write_version tid i tree_err decide d =
     (let k = row_key tid i; cur = db_rows d k; (r, d1) = decide cur d in
      case r of
        Inl e \<Rightarrow> (Inl e, d1)
      | Inr Skip \<Rightarrow> (Inr WSkipped, d1)
      | Inr (Insert new) \<Rightarrow>
          if cur \<noteq> None then (Inl (DuplicateKey i), d1)
          else (case tree_err of Some e \<Rightarrow> (Inl e, d1)
                | None \<Rightarrow> (Inr WInserted, d1\<lparr>db_rows := (db_rows d1)(k \<mapsto> new)\<rparr>))
      | Inr (Replace new) \<Rightarrow>
          (case cur of
             None \<Rightarrow> (Inl (KeyNotFound i), d1)
           | Some c \<Rightarrow> (case tree_err of Some e \<Rightarrow> (Inl e, d1)
                | None \<Rightarrow> (Inr (WReplaced c), d1\<lparr>db_rows := (db_rows d1)(k \<mapsto> new)\<rparr>)))
      | Inr Delete \<Rightarrow>
          (case tree_err of Some e \<Rightarrow> (Inl e, d1)
           | None \<Rightarrow> (Inr (WDeleted cur), d1\<lparr>db_rows := (db_rows d1)(k := None)\<rparr>)))"

text \<open>Version record first, then the log, which may refuse (\<open>log_err\<close>).\<close>

definition record_and_log :: "lsn \<Rightarrow> operation \<Rightarrow> serr option \<Rightarrow> decision \<Rightarrow> db \<Rightarrow> (serr + decision) \<times> db" where
  "record_and_log l op log_err dec d =
     (let d1 = d\<lparr>db_vs := vs_insert l op (db_vs d)\<rparr> in
      case log_err of
        Some e \<Rightarrow> (Inl e, d1)
      | None \<Rightarrow> (Inr dec, d1\<lparr>db_log := db_log d1 @ [(l, op)]\<rparr>))"

definition new_record :: "table_id \<Rightarrow> tuple \<Rightarrow> op_record" where
  "new_record tid t = \<lparr>rc_table = tid, rc_tuple = t, rc_data_page = None\<rparr>"

definition insert_decision ::
    "table_id \<Rightarrow> tuple \<Rightarrow> txn_id \<Rightarrow> lsn \<Rightarrow> serr option \<Rightarrow> tuple option \<Rightarrow> db \<Rightarrow> (serr + decision) \<times> db" where
  "insert_decision tid tup t l log_err current d =
     (case current of
        None \<Rightarrow> record_and_log l (Add t (new_record tid tup)) log_err (Insert tup) d
      | Some cur \<Rightarrow>
          if tuple_is_tombstoned cur then
            (case check_write_conflict cur t d of
               Inl e \<Rightarrow> (Inl e, d)
             | Inr () \<Rightarrow>
                 let revived = clear_tombstone (set_data (t_data tup) (set_pre_lsn l (set_txn_id t cur)))
                 in record_and_log l (Mod t (new_record tid cur) (new_record tid revived)) log_err (Replace revived) d)
          else (Inl (DuplicateKey (t_id tup)), d))"

text \<open>The version an update or a delete builds on: its own, or the last committed one.\<close>

definition base_version :: "txn_id \<Rightarrow> dbid \<Rightarrow> tuple option \<Rightarrow> db \<Rightarrow> (serr + tuple) option" where
  "base_version t i current d =
     (case current of
        None \<Rightarrow> Some (Inl (KeyNotFound i))
      | Some cur \<Rightarrow> (case check_write_conflict cur t d of
            Inl e \<Rightarrow> Some (Inl e)
          | Inr () \<Rightarrow>
              (case (if t_txn_id cur = Some t then Some (Inr (Some cur)) else find_last_committed cur d) of
                 None \<Rightarrow> None
               | Some (Inl e) \<Rightarrow> Some (Inl e)
               | Some (Inr None) \<Rightarrow> Some (Inl (KeyNotFound i))
               | Some (Inr (Some old)) \<Rightarrow>
                   if tuple_is_tombstoned old then Some (Inl (KeyNotFound i)) else Some (Inr old))))"

definition update_decision ::
    "table_id \<Rightarrow> tuple \<Rightarrow> txn_id \<Rightarrow> lsn \<Rightarrow> serr option \<Rightarrow> serr + tuple \<Rightarrow> db \<Rightarrow> (serr + decision) \<times> db" where
  "update_decision tid new_tuple t l log_err base d =
     (case base of
        Inl e \<Rightarrow> (Inl e, d)
      | Inr old \<Rightarrow>
          let updated = set_data (t_data new_tuple) (set_pre_lsn l (set_txn_id t old))
          in record_and_log l (Mod t (new_record tid old) (new_record tid updated)) log_err (Replace updated) d)"

definition remove_decision ::
    "table_id \<Rightarrow> txn_id \<Rightarrow> lsn \<Rightarrow> serr option \<Rightarrow> serr + tuple \<Rightarrow> db \<Rightarrow> (serr + decision) \<times> db" where
  "remove_decision tid t l log_err base d =
     (case base of
        Inl e \<Rightarrow> (Inl e, d)
      | Inr old \<Rightarrow>
          let tombstoned = set_pre_lsn l (tombstone (set_txn_id t old))
          in record_and_log l (Del t (new_record tid old)) log_err (Replace tombstoned) d)"

section \<open>Rolling back\<close>

text \<open>
  What can go wrong around an operation: the log refuses its record or the Rollback or Purge
  record, the tree fails to carry out the write, or to revert one.
\<close>

record faults =
  fl_log :: "serr option"
  fl_tree :: "serr option"
  fl_revert :: "undo \<Rightarrow> serr option"
  fl_rollback :: "serr option"

definition no_faults :: faults where
  "no_faults = \<lparr>fl_log = None, fl_tree = None, fl_revert = (\<lambda>_. None), fl_rollback = None\<rparr>"

definition log_new :: "serr option \<Rightarrow> operation \<Rightarrow> db \<Rightarrow> (serr + unit) \<times> db" where
  "log_new err op d =
     (let (l, d1) = draw d in
      case err of Some e \<Rightarrow> (Inl e, d1) | None \<Rightarrow> (Inr (), d1\<lparr>db_log := db_log d1 @ [(l, op)]\<rparr>))"

definition update_if_txn :: "serr option \<Rightarrow> table_id \<Rightarrow> tuple \<Rightarrow> txn_id \<Rightarrow> db \<Rightarrow> (serr + tuple option) \<times> db" where
  "update_if_txn err tid tup expect d =
     (let d0 = snd (draw d) in
      case write_version tid (t_id tup) err
          (\<lambda>cur d. (Inr (case cur of Some c \<Rightarrow> if is_same_txn c expect then Replace tup else Skip | None \<Rightarrow> Skip), d)) d0 of
        (Inl e, d1) \<Rightarrow> (Inl e, d1)
      | (Inr (WReplaced old), d1) \<Rightarrow> (Inr (Some old), d1)
      | (Inr _, d1) \<Rightarrow> (Inr None, d1))"

definition remove_if_txn :: "serr option \<Rightarrow> table_id \<Rightarrow> dbid \<Rightarrow> txn_id \<Rightarrow> db \<Rightarrow> (serr + tuple option) \<times> db" where
  "remove_if_txn err tid i expect d =
     (let d0 = snd (draw d) in
      case write_version tid i err
          (\<lambda>cur d. (Inr (case cur of Some c \<Rightarrow> if is_same_txn c expect then Delete else Skip | None \<Rightarrow> Delete), d)) d0 of
        (Inl e, d1) \<Rightarrow> (Inl e, d1)
      | (Inr (WDeleted old), d1) \<Rightarrow> (Inr old, d1)
      | (Inr _, d1) \<Rightarrow> (Inr None, d1))"

definition revert_one :: "serr option \<Rightarrow> undo \<Rightarrow> txn_id \<Rightarrow> db \<Rightarrow> (serr + unit) \<times> db" where
  "revert_one err u t d =
     (case u of
        Remove tid key \<Rightarrow>
          (case table_by_id_or_dropped tid d of
             Inl e \<Rightarrow> (Inl e, d)
           | Inr None \<Rightarrow> (Inr (), d)
           | Inr (Some _) \<Rightarrow> (let (r, d1) = remove_if_txn err tid key t d in (map_sum id (\<lambda>_. ()) r, d1)))
      | Restore tid pre \<Rightarrow>
          (case table_by_id_or_dropped tid d of
             Inl e \<Rightarrow> (Inl e, d)
           | Inr None \<Rightarrow> (Inr (), d)
           | Inr (Some _) \<Rightarrow> (let (r, d1) = update_if_txn err tid pre t d in (map_sum id (\<lambda>_. ()) r, d1))))"

fun revert_list :: "(undo \<Rightarrow> serr option) \<Rightarrow> undo list \<Rightarrow> txn_id \<Rightarrow> db \<Rightarrow> (serr + unit) \<times> db" where
  "revert_list errs [] t d = (Inr (), d)"
| "revert_list errs (u # us) t d =
     (case revert_one (errs u) u t d of
        (Inl e, d1) \<Rightarrow> (Inl e, d1)
      | (Inr (), d1) \<Rightarrow> revert_list errs us t d1)"

definition revert :: "(undo \<Rightarrow> serr option) \<Rightarrow> txn_id \<Rightarrow> db \<Rightarrow> (serr + unit) \<times> db" where
  "revert errs t d = revert_list errs (rev (undo_of (db_vs d) t)) t d"

definition complete_abort :: "txn_id \<Rightarrow> bool \<Rightarrow> db \<Rightarrow> db" where
  "complete_abort t wrote d =
     (let (forgotten, m) = abort_complete t wrote (db_tm d); d1 = d\<lparr>db_tm := m\<rparr>
      in if forgotten then d1\<lparr>db_vs := snd (discard t (db_vs d1))\<rparr> else d1)"

definition finish_abort :: "faults \<Rightarrow> txn_id \<Rightarrow> db \<Rightarrow> (serr + unit) \<times> db" where
  "finish_abort \<omega> t d =
     (let wrote = has_writes (db_vs d) t in
      case revert (fl_revert \<omega>) t d of
        (Inl e, d1) \<Rightarrow> (Inl e, d1)
      | (Inr (), d1) \<Rightarrow>
          (case (if wrote then log_new (fl_rollback \<omega>) (Rollback t) d1 else (Inr (), d1)) of
             (Inl e, d2) \<Rightarrow> (Inl e, d2)
           | (Inr (), d2) \<Rightarrow> (Inr (), complete_abort t wrote d2)))"

definition db_abort :: "faults \<Rightarrow> txn_id \<Rightarrow> db \<Rightarrow> (serr + unit) \<times> db" where
  "db_abort \<omega> t d =
     (if \<not> has_writes (db_vs d) t \<and> fst (end_read_only t (db_tm d))
      then (Inr (), d\<lparr>db_tm := snd (end_read_only t (db_tm d))\<rparr>)
      else case txn_abort t (db_tm d) of
        (Inr (), m) \<Rightarrow> finish_abort \<omega> t (d\<lparr>db_tm := m\<rparr>)
      | (Inl TransactionAlreadyFinished, m) \<Rightarrow> (Inr (), d\<lparr>db_tm := m, db_forced := (db_forced d)(t := None)\<rparr>)
      | (Inl e, m) \<Rightarrow> (Inl e, d\<lparr>db_tm := m\<rparr>))"

section \<open>The operations\<close>

definition begin_txn :: "conflict_policy \<Rightarrow> db \<Rightarrow> (serr + txn_id) \<times> db" where
  "begin_txn policy d = (let (r, m) = create_transaction policy (db_tm d) in (r, d\<lparr>db_tm := m\<rparr>))"

definition after_write :: "faults \<Rightarrow> (serr + 'a) \<Rightarrow> txn_id \<Rightarrow> db \<Rightarrow> (serr + 'a) \<times> db" where
  "after_write \<omega> result t d =
     (case result of
        Inl (WriteConflict key) \<Rightarrow>
          if conflict_policy_of (db_tm d) t = AbortOnConflict then
            (case db_abort \<omega> t d of
               (Inl e, d1) \<Rightarrow> (Inl e, d1)
             | (Inr (), d1) \<Rightarrow> (Inl (WriteConflictTransactionAborted key), d1))
          else (result, d)
      | Inl (LockTimeout _) \<Rightarrow> (result, snd (db_abort \<omega> t d))
      | Inl (LockOrderViolation _) \<Rightarrow> (result, snd (db_abort \<omega> t d))
      | _ \<Rightarrow> (result, d))"

definition write_with_policy ::
    "faults \<Rightarrow> table_id \<Rightarrow> dbid \<Rightarrow> txn_id \<Rightarrow> (tuple option \<Rightarrow> db \<Rightarrow> (serr + decision) \<times> db) \<Rightarrow> db \<Rightarrow> (serr + write_result) \<times> db" where
  "write_with_policy \<omega> tid i t decide d =
     (case refuse_if_degraded d of
        Inl e \<Rightarrow> (Inl e, d)
      | Inr () \<Rightarrow> (let (r, d1) = write_version tid i (fl_tree \<omega>) decide d in after_write \<omega> r t d1))"

definition stamped :: "txn_id \<Rightarrow> tuple \<Rightarrow> tuple" where
  "stamped t tup = clear_tombstone (set_pre_lsn_none (set_txn_id t tup))"

definition db_insert :: "serializer \<Rightarrow> faults \<Rightarrow> table_id \<Rightarrow> tuple \<Rightarrow> txn_id \<Rightarrow> db \<Rightarrow> (serr + unit) \<times> db" where
  "db_insert S \<omega> tid tuple t d =
     (case require_active t d of
        (Inl e, d1) \<Rightarrow> (Inl e, d1)
      | (Inr (), d1) \<Rightarrow>
          (let tup = stamped t tuple in
           case table_by_id tid d1 of
             Inl e \<Rightarrow> (Inl e, d1)
           | Inr budget \<Rightarrow> (case check_fits S budget tup of
                 Inl e \<Rightarrow> (Inl e, d1)
               | Inr () \<Rightarrow>
                   (let (l, d2) = draw d1;
                        (r, d3) = write_with_policy \<omega> tid (t_id tup) t (insert_decision tid tup t l (fl_log \<omega>)) d2
                    in (map_sum id (\<lambda>_. ()) r, d3)))))"

definition db_update :: "serializer \<Rightarrow> faults \<Rightarrow> table_id \<Rightarrow> tuple \<Rightarrow> txn_id \<Rightarrow> db \<Rightarrow> ((serr + unit) \<times> db) option" where
  "db_update S \<omega> tid new_tuple t d =
     (case require_active t d of
        (Inl e, d1) \<Rightarrow> Some (Inl e, d1)
      | (Inr (), d1) \<Rightarrow>
          (case table_by_id tid d1 of
             Inl e \<Rightarrow> Some (Inl e, d1)
           | Inr budget \<Rightarrow> (case check_fits S budget (set_txn_id t new_tuple) of
                 Inl e \<Rightarrow> Some (Inl e, d1)
               | Inr () \<Rightarrow>
                   (let i = t_id new_tuple; (l, d2) = draw d1 in
                    case base_version t i (db_rows d2 (row_key tid i)) d2 of
                      None \<Rightarrow> None
                    | Some base \<Rightarrow>
                        (let (r, d3) = write_with_policy \<omega> tid i t (\<lambda>_. update_decision tid new_tuple t l (fl_log \<omega>) base) d2
                         in Some (map_sum id (\<lambda>_. ()) r, d3))))))"

definition db_remove :: "faults \<Rightarrow> table_id \<Rightarrow> dbid \<Rightarrow> txn_id \<Rightarrow> db \<Rightarrow> ((serr + tuple) \<times> db) option" where
  "db_remove \<omega> tid i t d =
     (case require_active t d of
        (Inl e, d1) \<Rightarrow> Some (Inl e, d1)
      | (Inr (), d1) \<Rightarrow>
          (case table_by_id tid d1 of
             Inl e \<Rightarrow> Some (Inl e, d1)
           | Inr _ \<Rightarrow>
               (let (l, d2) = draw d1 in
                case base_version t i (db_rows d2 (row_key tid i)) d2 of
                  None \<Rightarrow> None
                | Some base \<Rightarrow>
                    (let (r, d3) = write_with_policy \<omega> tid i t (\<lambda>_. remove_decision tid t l (fl_log \<omega>) base) d2
                     in Some (case r of
                          Inl e \<Rightarrow> Inl e
                        | Inr (WReplaced old) \<Rightarrow> Inr old
                        | Inr _ \<Rightarrow> Inl (KeyNotFound i), d3)))))"

definition commit_id_with :: "serr option \<Rightarrow> txn_id \<Rightarrow> db \<Rightarrow> (serr + unit) \<times> db" where
  "commit_id_with log_err t d =
     (case refuse_if_degraded d of
        Inl e \<Rightarrow> (Inl e, d)
      | Inr () \<Rightarrow> (case require_active t d of
            (Inl e, d1) \<Rightarrow> (Inl e, d1)
          | (Inr (), d1) \<Rightarrow>
              if \<not> has_writes (db_vs d1) t then
                (let (ts, d2) = draw d1; (r, m) = txn_commit t ts (db_tm d2) in (r, d2\<lparr>db_tm := m\<rparr>))
              else
                (case begin_commit t (db_tm d1) of
                   (Inl e, m) \<Rightarrow> (Inl e, d1\<lparr>db_tm := m\<rparr>)
                 | (Inr ts, m) \<Rightarrow>
                     (let d2 = d1\<lparr>db_tm := finish_commit t (log_err = None) m\<rparr> in
                      case log_err of
                        Some e \<Rightarrow> (Inl e, d2)
                      | None \<Rightarrow> (Inr (), d2\<lparr>db_vs := mark_committed t ts (db_vs d2), db_log := db_log d2 @ [(ts, Commit t)]\<rparr>)))))"

section \<open>The maintenance pass\<close>

abbreviation (input) ABORT_RETRY_BUDGET :: nat where "ABORT_RETRY_BUDGET \<equiv> 3"

definition enter_degraded :: "string \<Rightarrow> db \<Rightarrow> db" where
  "enter_degraded reason d = (if db_degraded d = None then d\<lparr>db_degraded := Some reason\<rparr> else d)"

definition retry_abort :: "faults \<Rightarrow> txn_id \<Rightarrow> db \<Rightarrow> db" where
  "retry_abort \<omega> t d =
     (case finish_abort \<omega> t d of
        (Inr (), d1) \<Rightarrow> d1\<lparr>db_attempts := (db_attempts d1)(t := None)\<rparr>
      | (Inl _, d1) \<Rightarrow>
          (let n = (case db_attempts d1 t of Some n \<Rightarrow> n | None \<Rightarrow> 0) + 1;
               d2 = d1\<lparr>db_attempts := (db_attempts d1)(t \<mapsto> n)\<rparr>
           in if n \<ge> ABORT_RETRY_BUDGET then enter_degraded ''abort failed'' d2 else d2))"

definition prune_and_discard :: "db \<Rightarrow> db" where
  "prune_and_discard d =
     (let (aborted, m) = prune_committed (db_tm d)
      in d\<lparr>db_tm := m, db_vs := fold (\<lambda>t v. snd (discard t v)) aborted (db_vs d)\<rparr>)"

definition vacuum_to :: "u64 \<Rightarrow> db \<Rightarrow> tombstone_rec list \<times> db" where
  "vacuum_to h d = (let (out, v) = vacuum (Some h) (db_vs d) in (va_tombstones out, d\<lparr>db_vs := v\<rparr>))"

definition purge :: "faults \<Rightarrow> tombstone_rec \<Rightarrow> db \<Rightarrow> (serr + unit) \<times> db" where
  "purge \<omega> b d =
     (case table_by_id_or_dropped (tb_table b) d of
        Inl e \<Rightarrow> (Inl e, d)
      | Inr None \<Rightarrow> (Inr (), d)
      | Inr (Some _) \<Rightarrow>
          (let (r, d1) = write_version (tb_table b) (tb_key b) (fl_tree \<omega>)
               (\<lambda>cur d.
                  if (case cur of Some c \<Rightarrow> tuple_is_tombstoned c \<and> is_same_txn c (tb_txn b) | None \<Rightarrow> True) then
                    (case log_new (fl_log \<omega>) (Purge (tb_txn b) (tb_table b) (tb_key b)) d of
                       (Inl e, d) \<Rightarrow> (Inl e, d)
                     | (Inr (), d) \<Rightarrow> (Inr Delete, d))
                  else (Inr Skip, d)) (snd (draw d))
           in (map_sum id (\<lambda>_. ()) r, d1)))"

fun purge_all :: "(tombstone_rec \<Rightarrow> faults) \<Rightarrow> tombstone_rec list \<Rightarrow> db \<Rightarrow> tombstone_rec list \<times> db" where
  "purge_all \<omega>s [] d = ([], d)"
| "purge_all \<omega>s (b # bs) d =
     (case purge (\<omega>s b) b d of
        (Inr (), d1) \<Rightarrow> purge_all \<omega>s bs d1
      | (Inl _, d1) \<Rightarrow> (let (retry, d2) = purge_all \<omega>s bs d1 in (b # retry, d2)))"

definition reclaim_pass :: "(tombstone_rec \<Rightarrow> faults) \<Rightarrow> db \<Rightarrow> db" where
  "reclaim_pass \<omega>s d =
     (let h = horizon (db_tm d);
          d1 = prune_and_discard d;
          (bs, d2) = vacuum_to h d1;
          (retry, d3) = purge_all \<omega>s bs d2
      in d3\<lparr>db_vs := requeue_tombstones retry (db_vs d3)\<rparr>)"

text \<open>
  What long-lived transactions pin is capped: past a cap the oldest running one is aborted, with a
  reason its owner is told. The bytes of log retained, whether a checkpoint is due and the error
  one may end in come from the log and the buffer pool.
\<close>

record snapshot_limits =
  sl_max_retained_wal_bytes :: u64
  sl_max_version_records :: u64

definition enforce_snapshot_limits :: "snapshot_limits \<Rightarrow> u64 \<Rightarrow> faults \<Rightarrow> serr option \<Rightarrow> db \<Rightarrow> (serr + unit) \<times> db" where
  "enforce_snapshot_limits limits wal \<omega> checkpoint_err d =
     (let records = retained_len (db_vs d);
          oldest_wrote = (case oldest_active (db_tm d) of Some t \<Rightarrow> has_writes (db_vs d) t | None \<Rightarrow> False);
          over = (if wal > sl_max_retained_wal_bytes limits \<and> \<not> oldest_wrote then Some ''retained WAL exceeds the cap''
                  else if records > sl_max_version_records limits then Some ''retained version records exceed the cap''
                  else None)
      in case over of
           None \<Rightarrow> (Inr (), d)
         | Some why \<Rightarrow> (case oldest_active (db_tm d) of
               None \<Rightarrow> (Inr (), d)
             | Some t \<Rightarrow> (case db_abort \<omega> t (d\<lparr>db_forced := (db_forced d)(t \<mapsto> why)\<rparr>) of
                   (Inl e, d1) \<Rightarrow> (Inl e, d1)
                 | (Inr (), d1) \<Rightarrow> (case checkpoint_err of Some e \<Rightarrow> (Inl e, d1) | None \<Rightarrow> (Inr (), d1)))))"

definition maintenance_pass ::
    "(txn_id \<Rightarrow> faults) \<Rightarrow> (tombstone_rec \<Rightarrow> faults) \<Rightarrow> bool \<Rightarrow> serr option \<Rightarrow> snapshot_limits \<Rightarrow> u64 \<Rightarrow> db \<Rightarrow> (serr + unit) \<times> db" where
  "maintenance_pass \<omega>a \<omega>s checkpoint_due checkpoint_err limits wal d =
     (let d1 = reclaim_pass \<omega>s (fold (\<lambda>t. retry_abort (\<omega>a t) t) (aborting_ids (db_tm d)) d);
          \<omega> = (case oldest_active (db_tm d1) of Some t \<Rightarrow> \<omega>a t | None \<Rightarrow> no_faults)
      in case (if checkpoint_due then checkpoint_err else None) of
           Some e \<Rightarrow> (Inl e, d1)
         | None \<Rightarrow> enforce_snapshot_limits limits wal \<omega> checkpoint_err d1)"

end
