(* ===== verification/Mvcc_Inv.thy ===== *)
theory Mvcc_Inv
  imports Mvcc_Db
begin

text \<open>
  Snapshot isolation. The operations of \<open>Mvcc_Db\<close> are taken apart into the steps other threads
  can come between - drawing a number, writing one row under its leaf's lock, the two halves of a
  commit and the marking of its versions, the flip to aborting and the revert, and the stages of
  the maintenance pass - and every interleaving of them is shown to keep one invariant: from
  every row, the chain of versions leads to what each running reader should see, with nothing it
  needs discarded. What a reader finds under a key then never changes while it runs, except by
  its own writes.
\<close>

section \<open>Looking up one row\<close>

definition unless_tombstone :: "tuple \<Rightarrow> tuple option" where
  "unless_tombstone t = (if tuple_is_tombstoned t then None else Some t)"

definition look :: "(txn_id \<Rightarrow> bool option) \<Rightarrow> version_store \<Rightarrow> tuple \<Rightarrow> (serr + tuple option) option" where
  "look vis v t =
     (case walk_back vis v t of
        None \<Rightarrow> None
      | Some (Inl e) \<Rightarrow> Some (Inl e)
      | Some (Inr Itself) \<Rightarrow> Some (Inr (unless_tombstone t))
      | Some (Inr (Ancestor a)) \<Rightarrow> Some (Inr (unless_tombstone a))
      | Some (Inr NoAncestor) \<Rightarrow> Some (Inr None)
      | Some (Inr MissingUndoRecord) \<Rightarrow> Some (Inl (Corruption ''version record missing'')))"

definition look_row :: "(txn_id \<Rightarrow> bool option) \<Rightarrow> version_store \<Rightarrow> tuple option \<Rightarrow> (serr + tuple option) option" where
  "look_row vis v row = (case row of None \<Rightarrow> Some (Inr None) | Some t \<Rightarrow> look vis v t)"

lemma find_row_look: "find_row tid i s d = look_row (reader_sees d s) (db_vs d) (db_rows d (row_key tid i))"
  by (simp add: find_row_def look_row_def look_def visible_version_def unless_tombstone_def
      split: option.split sum.split walk.split visible.split)

lemma look_itself: "t_txn_id t = Some w \<Longrightarrow> vis w = Some True \<Longrightarrow> look vis v t = Some (Inr (unless_tombstone t))"
  by (simp add: look_def walk_back_def)

lemma look_waits: "t_txn_id t = Some w \<Longrightarrow> vis w = None \<Longrightarrow> look vis v t = None"
  by (simp add: look_def walk_back_def)

lemma look_end: "t_txn_id t = Some w \<Longrightarrow> vis w = Some False \<Longrightarrow> t_pre_lsn t = None \<Longrightarrow> look vis v t = Some (Inr None)"
  by (simp add: look_def walk_back_def walk_from.simps)

lemma walk_from_not_itself: "walk_from vis v pre = Some x \<Longrightarrow> x \<noteq> Itself"
  by (rule walk_from.raw_induct [where P = "\<lambda>_ _ _ y. y \<noteq> Itself"]) (auto split: option.splits if_splits)

lemma look_link:
  assumes "t_txn_id t = Some w" "vis w = Some False" "t_pre_lsn t = Some l" "vs_pre_images v l = Some p"
    "t_txn_id (pi_tuple p) = Some w'"
  shows "look vis v t = look vis v (pi_tuple p)"
proof (cases "vis w'")
  case None
  then show ?thesis
    using assms by (simp add: look_def walk_back_def walk_from.simps [of _ _ "Some l"] vs_find_def)
next
  case (Some b)
  then show ?thesis
    using assms walk_from_not_itself [of vis v "t_pre_lsn (pi_tuple p)"]
    by (cases b) (auto simp: look_def walk_back_def walk_from.simps [of _ _ "Some l"] vs_find_def split: option.split walk.split)
qed

section \<open>Chains of versions\<close>

text \<open>A writer whose version every running reader sees, and will.\<close>

definition settled :: "txn_id set \<Rightarrow> txn_mgr \<Rightarrow> txn_id \<Rightarrow> bool" where
  "settled F m w = (state_of m w = None
     \<or> (\<exists>ts. state_of m w = Some (Committed ts) \<and> (\<forall>r. is_transaction_active m r \<and> r \<notin> F \<longrightarrow> ts < r)))"

text \<open>A writer a version may have: it began, is not already reverted, and every reader's snapshot is right about it.\<close>

definition writer_ok :: "txn_id set \<Rightarrow> txn_mgr \<Rightarrow> version_store \<Rightarrow> txn_id \<Rightarrow> bool" where
  "writer_ok F m v w = (tm_arcs m w \<noteq> None \<and> agrees F m w \<and> (\<forall>at. state_of m w \<noteq> Some (Aborted at))
     \<and> (\<not> is_committed m w \<longrightarrow> has_writes v w))"

inductive chain :: "txn_id set \<Rightarrow> txn_mgr \<Rightarrow> version_store \<Rightarrow> lsn set \<Rightarrow> row_key \<Rightarrow> tuple \<Rightarrow> bool"
  for F m v U k where
  chain_end:
    "t_txn_id t = Some w \<Longrightarrow> writer_ok F m v w \<Longrightarrow> encode (t_id t) [] = snd k \<Longrightarrow> t_pre_lsn t = None \<Longrightarrow> chain F m v U k t"
| chain_gone:
    "t_txn_id t = Some w \<Longrightarrow> writer_ok F m v w \<Longrightarrow> encode (t_id t) [] = snd k \<Longrightarrow> t_pre_lsn t = Some l \<Longrightarrow> l \<in> U \<Longrightarrow>
     vs_pre_images v l = None \<Longrightarrow> settled F m w \<Longrightarrow> chain F m v U k t"
| chain_link:
    "t_txn_id t = Some w \<Longrightarrow> writer_ok F m v w \<Longrightarrow> encode (t_id t) [] = snd k \<Longrightarrow> t_pre_lsn t = Some l \<Longrightarrow> l \<in> U \<Longrightarrow>
     vs_pre_images v l = Some p \<Longrightarrow> owns v w l \<Longrightarrow> pi_table p = fst k \<Longrightarrow> t_txn_id (pi_tuple p) = Some w' \<Longrightarrow>
     w' = w \<or> is_committed m w' \<Longrightarrow> chain F m v U k (pi_tuple p) \<Longrightarrow> chain F m v U k t"

inductive_cases chain_linkE: "chain F m v U k t"

lemma chain_writer: "chain F m v U k t \<Longrightarrow> \<exists>w. t_txn_id t = Some w \<and> writer_ok F m v w"
  by (erule chain.cases) auto

lemma chain_key: "chain F m v U k t \<Longrightarrow> encode (t_id t) [] = snd k"
  by (erule chain.cases) auto

text \<open>
  Chains survive a change of table and store that keeps writers, committed and settled ones, and
  takes away only pre-images that settled writers own; a transaction \<open>x\<close> still in flight that
  wrote none of the chain's versions may do as it likes.
\<close>

lemma chain_mono:
  assumes "chain F m v U k t" and "t_txn_id t = Some w0" and "w0 \<notin> X" and X: "\<And>x. x \<in> X \<Longrightarrow> \<not> is_committed m x"
    and wr: "\<And>w. w \<notin> X \<Longrightarrow> writer_ok F m v w \<Longrightarrow> writer_ok F m' v' w"
    and com: "\<And>w. w \<notin> X \<Longrightarrow> writer_ok F m v w \<Longrightarrow> is_committed m w \<Longrightarrow> is_committed m' w"
    and set: "\<And>w. w \<notin> X \<Longrightarrow> writer_ok F m v w \<Longrightarrow> settled F m w \<Longrightarrow> settled F m' w"
    and pis: "\<And>w l p. w \<notin> X \<Longrightarrow> writer_ok F m v w \<Longrightarrow> owns v w l \<Longrightarrow> vs_pre_images v l = Some p \<Longrightarrow>
      (vs_pre_images v' l = Some p \<and> owns v' w l) \<or> (vs_pre_images v' l = None \<and> settled F m' w)"
    and gone: "\<And>l. l \<in> U \<Longrightarrow> vs_pre_images v l = None \<Longrightarrow> vs_pre_images v' l = None" and U: "U \<subseteq> U'"
  shows "chain F m' v' U' k t"
  using assms(1,2,3)
proof (induction arbitrary: w0 rule: chain.induct)
  case (chain_end t w)
  then show ?case by (auto intro: chain.chain_end wr)
next
  case (chain_gone t w l)
  then show ?case using U by (auto intro!: chain.chain_gone wr set gone)
next
  case (chain_link t w l p w')
  then have w: "w \<notin> X" "w0 = w" by auto
  have "w' \<notin> X" using chain_link.hyps w(1) X by auto
  then have rest: "chain F m' v' U' k (pi_tuple p)" using chain_link.IH chain_link.hyps by blast
  obtain "writer_ok F m v w'" using chain_writer [OF chain_link.hyps(11)] chain_link.hyps by auto
  with \<open>w' \<notin> X\<close> chain_link.hyps com have "w' = w \<or> is_committed m' w'" by blast
  with pis [OF w(1) chain_link.hyps(2,7,6)] chain_link.hyps w rest wr [OF w(1) chain_link.hyps(2)] U
  show ?case by (auto intro: chain.chain_link chain.chain_gone)
qed

text \<open>What a reader may be told: \<open>True\<close> of a settled writer, and of no writer nothing.\<close>

lemma settled_visible:
  "settled F m w \<Longrightarrow> is_transaction_active m r \<Longrightarrow> r \<notin> F \<Longrightarrow> visible_now m w r = Some True"
  by (auto simp: settled_def visible_now_def)

lemma look_stable:
  assumes "chain F m v U k t" and "t_txn_id t = Some w0" and "w0 \<notin> X" and X: "\<And>x. x \<in> X \<Longrightarrow> \<not> is_committed m x"
    and vis: "\<And>w b. w \<notin> X \<Longrightarrow> writer_ok F m v w \<Longrightarrow> vis w = Some b \<Longrightarrow> vis' w = Some b"
    and set: "\<And>w. settled F m w \<Longrightarrow> vis w = Some True" "\<And>w. settled F m' w \<Longrightarrow> vis' w = Some True"
    and pis: "\<And>w l p. w \<notin> X \<Longrightarrow> writer_ok F m v w \<Longrightarrow> owns v w l \<Longrightarrow> vs_pre_images v l = Some p \<Longrightarrow>
      vs_pre_images v' l = Some p \<or> settled F m' w"
  shows "look vis v t = Some x \<Longrightarrow> look vis' v' t = Some x"
  using assms(1,2,3)
proof (induction arbitrary: w0 rule: chain.induct)
  case (chain_end t w)
  then show ?case
    using vis [of w] by (cases "vis w"; cases "the (vis w)") (auto simp: look_itself look_waits look_end)
next
  case (chain_gone t w l)
  then show ?case using vis [of w] set(1) [of w] by (simp add: look_itself)
next
  case (chain_link t w l p w')
  then have w: "w \<notin> X" "w0 = w" by auto
  have "w' \<notin> X" using chain_link.hyps w(1) X by auto
  show ?case
  proof (cases "vis w")
    case None
    with chain_link show ?thesis by (simp add: look_waits)
  next
    case (Some b)
    note vis' = vis [OF w(1) chain_link.hyps(2) Some]
    show ?thesis
    proof (cases b)
      case True
      with Some vis' chain_link show ?thesis by (simp add: look_itself)
    next
      case False
      have "\<not> settled F m' w" using set(2) [of w] vis' False by auto
      then have p': "vs_pre_images v' l = Some p" using pis [OF w(1) chain_link.hyps(2,7,6)] by blast
      have "look vis v (pi_tuple p) = Some x"
        using chain_link.prems(1) look_link [of t w vis l v p w'] chain_link.hyps Some False by simp
      then have "look vis' v' (pi_tuple p) = Some x" using chain_link.IH chain_link.hyps(9) \<open>w' \<notin> X\<close> by blast
      then show ?thesis using look_link [of t w vis' l v' p w'] chain_link.hyps p' vis' False by simp
    qed
  qed
qed

text \<open>For a chain, a reader's snapshot and the table give one answer.\<close>

definition seen_by :: "txn_mgr \<Rightarrow> txn_id \<Rightarrow> txn_id \<Rightarrow> bool option" where
  "seen_by m r w = visible_now m w r"

lemma reader_sees_table:
  assumes "writer_ok F (db_tm d) v w" "is_transaction_active (db_tm d) r" "r \<notin> F" "tm_arcs (db_tm d) r = Some sn" "sn_reader sn = r"
  shows "reader_sees d sn w = seen_by (db_tm d) r w"
  using assms by (auto simp: reader_sees_def seen_by_def writer_ok_def agrees_def split: option.split)

lemma look_cong:
  assumes "chain F m v U k t" and vis: "\<And>w. writer_ok F m v w \<Longrightarrow> vis' w = vis w"
    and set: "\<And>w. settled F m w \<Longrightarrow> vis w = Some True"
  shows "look vis' v t = look vis v t"
  using assms(1)
proof (induction rule: chain.induct)
  case (chain_end t w)
  then show ?case
    using vis [of w] by (cases "vis w"; cases "the (vis w)") (auto simp: look_itself look_waits look_end)
next
  case (chain_gone t w l)
  then show ?case using vis [of w] set [of w] by (simp add: look_itself)
next
  case (chain_link t w l p w')
  have "look vis' v t = look vis v t" if "vis w = Some False"
    using that chain_link.IH look_link [of t w vis l v p w'] look_link [of t w vis' l v p w'] chain_link.hyps vis [of w]
    by simp
  then show ?case
    using chain_link.hyps vis [of w] by (cases "vis w"; cases "the (vis w)") (auto simp: look_itself look_waits)
qed

text \<open>A look never fails, and it waits only for a writer partway through its commit.\<close>

lemma look_returns:
  assumes "chain F m v U k t" and r: "is_transaction_active m r" "r \<notin> F"
  shows "look (seen_by m r) v t = None \<or> (\<exists>x. look (seen_by m r) v t = Some (Inr x))"
    and "(\<And>w. writer_ok F m v w \<Longrightarrow> seen_by m r w \<noteq> None) \<Longrightarrow> look (seen_by m r) v t \<noteq> None"
  using assms(1)
proof (induction rule: chain.induct)
  case (chain_end t w)
  { case 1 show ?case using chain_end
      by (cases "seen_by m r w"; cases "the (seen_by m r w)") (auto simp: look_itself look_waits look_end) }
  { case 2 show ?case using chain_end 2 [of w]
      by (cases "seen_by m r w"; cases "the (seen_by m r w)") (auto simp: look_itself look_end) }
next
  case (chain_gone t w l)
  then have "look (seen_by m r) v t = Some (Inr (unless_tombstone t))"
    using settled_visible [OF _ r, of w] by (simp add: look_itself seen_by_def)
  { case 1 show ?case using \<open>look _ _ t = _\<close> by simp }
  { case 2 show ?case using \<open>look _ _ t = _\<close> by simp }
next
  case (chain_link t w l p w')
  have link: "look (seen_by m r) v t = look (seen_by m r) v (pi_tuple p)" if "seen_by m r w = Some False"
    using that look_link [of t w "seen_by m r" l v p w'] chain_link.hyps by simp
  { case 1 show ?case using chain_link.IH(1) link chain_link.hyps
      by (cases "seen_by m r w"; cases "the (seen_by m r w)") (auto simp: look_itself look_waits) }
  { case 2 show ?case using chain_link.IH(2) [OF 2] link chain_link.hyps 2 [of w]
      by (cases "seen_by m r w"; cases "the (seen_by m r w)") (auto simp: look_itself) }
qed

section \<open>What a step of the table keeps of a writer\<close>

definition fate_of :: "txn_id set \<Rightarrow> txn_id \<Rightarrow> fates" where
  "fate_of F w = \<lparr>reads_only = - {w}, rolled_back = UNIV, unlogged = F\<rparr>"

definition keeps :: "txn_id set \<Rightarrow> txn_mgr \<Rightarrow> txn_mgr \<Rightarrow> txn_id \<Rightarrow> bool" where
  "keeps F m m' w = (tm_arcs m' w \<noteq> None \<and> (is_committed m w \<longrightarrow> state_of m' w \<in> {None, state_of m w})
     \<and> (settled F m w \<longrightarrow> settled F m' w) \<and> (agrees F m w \<longrightarrow> agrees F m' w)
     \<and> (\<forall>r b. is_transaction_active m r \<and> visible_now m w r = Some b \<longrightarrow> visible_now m' w r = Some b))"

lemma new_active:
  assumes "tm_step \<phi> m m'" "tm_wf m" "is_transaction_active m' r" "r \<notin> unlogged \<phi>"
  shows "is_transaction_active m r \<or> r = counter_of m"
proof (cases "tm_arcs m r")
  case None
  obtain sn where "tm_arcs m' r = Some sn" using active_began [OF tm_step_wf [OF assms(1,2)] assms(3)] by auto
  from snapshot_stable [OF assms(2,1) this] None show ?thesis by auto
next
  case (Some sn)
  then show ?thesis using active_before [OF assms(1,2) _ assms(4,3)] by simp
qed

lemma settled_step:
  assumes step: "tm_step (fate_of F w) m m'" and wf: "tm_wf m" and w: "tm_arcs m w \<noteq> None" and set: "settled F m w"
  shows "settled F m' w"
proof -
  have wc: "w < counter_of m" using began_less [OF wf w] .
  consider (none) "state_of m w = None"
    | (com) ts where "state_of m w = Some (Committed ts)" "\<forall>r. is_transaction_active m r \<and> r \<notin> F \<longrightarrow> ts < r"
    using set by (auto simp: settled_def)
  then show ?thesis
  proof cases
    case none
    with tm_step_moves [OF step wf, of w] wc have "state_of m' w = None" by cases (auto simp: fate_of_def)
    then show ?thesis by (simp add: settled_def)
  next
    case com
    have tsc: "ts < counter_of m" using tm_wfD(3) [OF wf com(1)] by simp
    have "ts < r" if "is_transaction_active m' r" "r \<notin> F" for r
      using new_active [OF step wf that(1)] that(2) com(2) tsc by (auto simp: fate_of_def)
    moreover have "state_of m' w = None \<or> state_of m' w = Some (Committed ts)"
      using tm_step_moves [OF step wf, of w] com(1) by cases (auto simp: fate_of_def)
    ultimately show ?thesis by (auto simp: settled_def)
  qed
qed

lemma committed_step:
  assumes step: "tm_step (fate_of F w) m m'" and wf: "tm_wf m" and w: "tm_arcs m w \<noteq> None" and "is_committed m w"
  shows "state_of m' w \<in> {None, state_of m w}"
  using tm_step_moves [OF step wf, of w] began_less [OF wf w] assms(4)
  by cases (auto simp: is_committed_def fate_of_def)

lemma keeps_committed: "keeps F m m' w \<Longrightarrow> is_committed m w \<Longrightarrow> is_committed m' w"
  by (auto simp: keeps_def is_committed_def split: option.splits)

lemma keeps_step:
  assumes step: "tm_step (fate_of F w) m m'" and wf: "tm_wf m" and w: "tm_arcs m w \<noteq> None"
    and live: "\<And>at. state_of m w \<noteq> Some (Aborted at)"
  shows "keeps F m m' w"
proof -
  have "agrees F m w \<Longrightarrow> agrees F m' w"
    using agrees_step [OF step wf _ tm_step_arcs_grow [OF step w]] live by (auto simp: fate_of_def)
  moreover have "visible_now m' w r = Some b" if "is_transaction_active m r" "visible_now m w r = Some b" for r b
    using visible_stable [OF wf step that(1) w _ that(2)] live by (auto simp: fate_of_def)
  ultimately show ?thesis
    using tm_step_arcs_grow [OF step w] settled_step [OF step wf w] committed_step [OF step wf w] by (auto simp: keeps_def)
qed

text \<open>Drawing numbers changes nothing but the counter.\<close>

definition quiet :: "txn_mgr \<Rightarrow> txn_mgr \<Rightarrow> bool" where
  "quiet m m' = (tm_wf m' \<and> tm_states m' = tm_states m \<and> tm_arcs m' = tm_arcs m \<and> counter_of m \<le> counter_of m')"

lemma quiet_simps:
  assumes "quiet m m'"
  shows "state_of m' t = state_of m t" "is_transaction_active m' t = is_transaction_active m t"
    "is_committed m' t = is_committed m t" "settled F m' t = settled F m t" "visible_now m' t r = visible_now m t r"
    "agrees F m' t = agrees F m t" "horizon m' = horizon m \<or> horizon m' = counter_of m'"
  using assms
  by (auto simp: quiet_def state_of_def is_transaction_active_def is_committed_def settled_def visible_now_def agrees_def
      horizon_def next_value_def split: option.split)

lemma keeps_quiet: "quiet m m' \<Longrightarrow> tm_arcs m w \<noteq> None \<Longrightarrow> keeps F m m' w"
  by (simp add: keeps_def quiet_simps) (simp add: quiet_def)

lemma quiet_refl: "tm_wf m \<Longrightarrow> quiet m m"
  by (simp add: quiet_def)

lemma quiet_mint: "tm_wf m \<Longrightarrow> counter_of m \<noteq> U64_MAX \<Longrightarrow> quiet m (snd (mint m))"
  using inc_less [of "counter_of m"] by (simp add: quiet_def tm_wf_mint tm_simps)

lemma quiet_trans: "quiet m m' \<Longrightarrow> quiet m' m'' \<Longrightarrow> quiet m m''"
  by (auto simp: quiet_def)

section \<open>A transaction's undo\<close>

text \<open>
  A recorded write makes a version; it is idle for a version of a key if it is about another key,
  or about that key and replaced just that version (as one that was recorded and then failed did).
\<close>

definition pre_key :: "pre_image \<Rightarrow> row_key" where
  "pre_key p = row_key (pi_table p) (t_id (pi_tuple p))"

fun idle :: "version_store \<Rightarrow> written \<Rightarrow> row_key \<Rightarrow> tuple \<Rightarrow> bool" where
  "idle v (Inserted tid i) k row = (row_key tid i \<noteq> k)"
| "idle v (Replaced l) k row = (\<forall>p. vs_pre_images v l = Some p \<and> pre_key p = k \<longrightarrow> pi_tuple p = row)"

fun makes :: "version_store \<Rightarrow> written \<Rightarrow> row_key \<Rightarrow> tuple \<Rightarrow> bool" where
  "makes v (Inserted tid i) k row = (row_key tid i = k \<and> t_pre_lsn row = None)"
| "makes v (Replaced l) k row = (t_pre_lsn row = Some l \<and> (\<exists>p. vs_pre_images v l = Some p \<and> pre_key p = k))"

text \<open>The write that made a version, among the first \<open>n\<close>: those after it are idle.\<close>

definition made_by :: "version_store \<Rightarrow> written list \<Rightarrow> nat \<Rightarrow> row_key \<Rightarrow> tuple \<Rightarrow> bool" where
  "made_by v ws n k row = (\<exists>j < n. makes v (ws ! j) k row \<and> (\<forall>j'. j < j' \<and> j' < n \<longrightarrow> idle v (ws ! j') k row))"

definition undo_ok :: "version_store \<Rightarrow> (row_key \<rightharpoonup> tuple) \<Rightarrow> txn_id \<Rightarrow> bool" where
  "undo_ok v rows t = ((\<forall>k row. rows k = Some row \<and> t_txn_id row = Some t \<longrightarrow>
       made_by v (writes_of v t) (length (writes_of v t)) k row)
     \<and> (\<forall>i < length (writes_of v t). \<forall>l. writes_of v t ! i = Replaced l \<longrightarrow>
          (\<exists>p. vs_pre_images v l = Some p
             \<and> (t_txn_id (pi_tuple p) = Some t \<longrightarrow> made_by v (writes_of v t) i (pre_key p) (pi_tuple p)))))"

section \<open>The world and its invariant\<close>

text \<open>
  Beside the database, what its threads hold: the numbers drawn for writes not yet made, the
  horizon the maintenance thread has read, the commits whose versions are not yet marked (with
  their timestamps), and the tombstones being purged.
\<close>

record world =
  w_db :: db
  w_pool :: "lsn set"
  w_horizon :: "u64 option"
  w_marking :: "txn_id \<rightharpoonup> u64"
  w_purging :: "tombstone_rec list"

abbreviation w_tm :: "world \<Rightarrow> txn_mgr" where "w_tm w \<equiv> db_tm (w_db w)"
abbreviation w_vs :: "world \<Rightarrow> version_store" where "w_vs w \<equiv> db_vs (w_db w)"
abbreviation w_rows :: "world \<Rightarrow> row_key \<Rightarrow> tuple option" where "w_rows w \<equiv> db_rows (w_db w)"

definition spent :: "world \<Rightarrow> lsn set" where
  "spent w = {l. l < counter_of (w_tm w)} - w_pool w"

definition in_flight :: "txn_mgr \<Rightarrow> txn_id \<Rightarrow> bool" where
  "in_flight m t = (\<not> is_committed m t \<and> (\<forall>at. state_of m t \<noteq> Some (Aborted at)))"

definition ended :: "txn_mgr \<Rightarrow> txn_id \<Rightarrow> u64 \<Rightarrow> bool" where
  "ended m t ts = (tm_arcs m t \<noteq> None \<and> ts < counter_of m \<and> state_of m t \<in> {None, Some (Committed ts)})"

definition before_readers :: "txn_id set \<Rightarrow> txn_mgr \<Rightarrow> u64 \<Rightarrow> bool" where
  "before_readers F m ts = (\<forall>r. is_transaction_active m r \<and> r \<notin> F \<longrightarrow> ts < r)"

definition winv :: "txn_id set \<Rightarrow> world \<Rightarrow> bool" where
  "winv F w = (tm_wf (w_tm w) \<and> vs_wf (w_vs w)
     \<and> (\<forall>k t. w_rows w k = Some t \<longrightarrow> db_tables (w_db w) (fst k) \<noteq> None \<and> chain F (w_tm w) (w_vs w) (spent w) k t)
     \<and> (\<forall>t. has_writes (w_vs w) t \<longrightarrow> tm_arcs (w_tm w) t \<noteq> None)
     \<and> (\<forall>t. in_flight (w_tm w) t \<longrightarrow> undo_ok (w_vs w) (w_rows w) t)
     \<and> (\<forall>ts t n. (ts, t, n) \<in> set (vs_committed (w_vs w)) \<longrightarrow> ended (w_tm w) t ts)
     \<and> (\<forall>t ts. w_marking w t = Some ts \<longrightarrow> ended (w_tm w) t ts \<and> \<not> queued_txn (w_vs w) t)
     \<and> (\<forall>b \<in> set (vs_tombstones (w_vs w)) \<union> set (w_purging w). ended (w_tm w) (tb_txn b) (tb_commit_ts b))
     \<and> (\<forall>b \<in> set (w_purging w). before_readers F (w_tm w) (tb_commit_ts b))
     \<and> (\<forall>h. w_horizon w = Some h \<longrightarrow> h \<le> counter_of (w_tm w) \<and> (\<forall>r. is_transaction_active (w_tm w) r \<and> r \<notin> F \<longrightarrow> h \<le> r))
     \<and> (\<forall>l. vs_pre_images (w_vs w) l \<noteq> None \<or> (\<exists>t. owns (w_vs w) t l) \<longrightarrow> l \<in> spent w)
     \<and> (\<forall>l \<in> w_pool w. l < counter_of (w_tm w))
     \<and> (\<forall>t. in_flight (w_tm w) t \<longrightarrow> agrees F (w_tm w) t))"

lemma invD:
  assumes "winv F w"
  shows "tm_wf (w_tm w)" and "vs_wf (w_vs w)"
    and "w_rows w k = Some t \<Longrightarrow> db_tables (w_db w) (fst k) \<noteq> None"
    and "w_rows w k = Some t \<Longrightarrow> chain F (w_tm w) (w_vs w) (spent w) k t"
    and "has_writes (w_vs w) x \<Longrightarrow> tm_arcs (w_tm w) x \<noteq> None"
    and "in_flight (w_tm w) x \<Longrightarrow> undo_ok (w_vs w) (w_rows w) x"
    and "(ts, x, n) \<in> set (vs_committed (w_vs w)) \<Longrightarrow> ended (w_tm w) x ts"
    and "w_marking w x = Some ts \<Longrightarrow> ended (w_tm w) x ts" and "w_marking w x = Some ts \<Longrightarrow> \<not> queued_txn (w_vs w) x"
    and "b \<in> set (vs_tombstones (w_vs w)) \<union> set (w_purging w) \<Longrightarrow> ended (w_tm w) (tb_txn b) (tb_commit_ts b)"
    and "b \<in> set (w_purging w) \<Longrightarrow> before_readers F (w_tm w) (tb_commit_ts b)"
    and "w_horizon w = Some h \<Longrightarrow> h \<le> counter_of (w_tm w)"
    and "w_horizon w = Some h \<Longrightarrow> is_transaction_active (w_tm w) r \<Longrightarrow> r \<notin> F \<Longrightarrow> h \<le> r"
    and "vs_pre_images (w_vs w) l \<noteq> None \<Longrightarrow> l \<in> spent w" and "owns (w_vs w) x l \<Longrightarrow> l \<in> spent w"
    and "l \<in> w_pool w \<Longrightarrow> l < counter_of (w_tm w)" and "in_flight (w_tm w) x \<Longrightarrow> agrees F (w_tm w) x"
  using assms unfolding winv_def by blast+

lemma invI:
  assumes "tm_wf (w_tm w)" and "vs_wf (w_vs w)"
    and "\<And>k t. w_rows w k = Some t \<Longrightarrow> db_tables (w_db w) (fst k) \<noteq> None"
    and "\<And>k t. w_rows w k = Some t \<Longrightarrow> chain F (w_tm w) (w_vs w) (spent w) k t"
    and "\<And>x. has_writes (w_vs w) x \<Longrightarrow> tm_arcs (w_tm w) x \<noteq> None"
    and "\<And>x. in_flight (w_tm w) x \<Longrightarrow> undo_ok (w_vs w) (w_rows w) x"
    and "\<And>ts x n. (ts, x, n) \<in> set (vs_committed (w_vs w)) \<Longrightarrow> ended (w_tm w) x ts"
    and "\<And>x ts. w_marking w x = Some ts \<Longrightarrow> ended (w_tm w) x ts \<and> \<not> queued_txn (w_vs w) x"
    and "\<And>b. b \<in> set (vs_tombstones (w_vs w)) \<union> set (w_purging w) \<Longrightarrow> ended (w_tm w) (tb_txn b) (tb_commit_ts b)"
    and "\<And>b. b \<in> set (w_purging w) \<Longrightarrow> before_readers F (w_tm w) (tb_commit_ts b)"
    and "\<And>h. w_horizon w = Some h \<Longrightarrow> h \<le> counter_of (w_tm w)"
    and "\<And>h r. w_horizon w = Some h \<Longrightarrow> is_transaction_active (w_tm w) r \<Longrightarrow> r \<notin> F \<Longrightarrow> h \<le> r"
    and "\<And>l. vs_pre_images (w_vs w) l \<noteq> None \<Longrightarrow> l \<in> spent w" and "\<And>x l. owns (w_vs w) x l \<Longrightarrow> l \<in> spent w"
    and "\<And>l. l \<in> w_pool w \<Longrightarrow> l < counter_of (w_tm w)"
    and "\<And>x. in_flight (w_tm w) x \<Longrightarrow> agrees F (w_tm w) x"
  shows "winv F w"
  using assms unfolding winv_def by (intro conjI allI impI ballI) (blast+)

definition view :: "world \<Rightarrow> txn_id \<Rightarrow> row_key \<Rightarrow> (serr + tuple option) option" where
  "view w r k = look_row (seen_by (w_tm w) r) (w_vs w) (w_rows w k)"

text \<open>What a table that moves on must keep for the rest to stay as it is.\<close>

definition table_moves :: "txn_id set \<Rightarrow> txn_id set \<Rightarrow> txn_mgr \<Rightarrow> txn_mgr \<Rightarrow> (txn_id \<Rightarrow> bool) \<Rightarrow> bool" where
  "table_moves F X m m' wrote = (tm_wf m' \<and> counter_of m \<le> counter_of m' \<and> (\<forall>t. tm_arcs m t \<noteq> None \<longrightarrow> tm_arcs m' t \<noteq> None)
     \<and> (\<forall>r. is_transaction_active m' r \<and> r \<notin> F \<longrightarrow> is_transaction_active m r \<or> counter_of m \<le> r)
     \<and> (\<forall>x. x \<notin> X \<and> tm_arcs m x \<noteq> None \<and> (\<forall>at. state_of m x \<noteq> Some (Aborted at)) \<and> (is_committed m x \<or> wrote x) \<longrightarrow>
          keeps F m m' x \<and> (\<forall>at. state_of m' x \<noteq> Some (Aborted at)))
     \<and> (\<forall>t. in_flight m' t \<and> wrote t \<longrightarrow> in_flight m t)
     \<and> ((\<forall>t. in_flight m t \<longrightarrow> agrees F m t) \<longrightarrow> (\<forall>t. in_flight m' t \<longrightarrow> agrees F m' t)))"

lemma table_movesD:
  assumes "table_moves F X m m' wrote"
  shows "tm_wf m'" and "counter_of m \<le> counter_of m'"
    and "is_transaction_active m' r \<Longrightarrow> r \<notin> F \<Longrightarrow> is_transaction_active m r \<or> counter_of m \<le> r"
    and "x \<notin> X \<Longrightarrow> tm_arcs m x \<noteq> None \<Longrightarrow> (\<And>at. state_of m x \<noteq> Some (Aborted at)) \<Longrightarrow> is_committed m x \<or> wrote x \<Longrightarrow> keeps F m m' x"
    and "x \<notin> X \<Longrightarrow> tm_arcs m x \<noteq> None \<Longrightarrow> (\<And>at. state_of m x \<noteq> Some (Aborted at)) \<Longrightarrow> is_committed m x \<or> wrote x \<Longrightarrow>
      state_of m' x \<noteq> Some (Aborted at)"
    and "in_flight m' t \<Longrightarrow> wrote t \<Longrightarrow> in_flight m t" and "tm_arcs m t \<noteq> None \<Longrightarrow> tm_arcs m' t \<noteq> None"
    and "(\<And>t. in_flight m t \<Longrightarrow> agrees F m t) \<Longrightarrow> in_flight m' x \<Longrightarrow> agrees F m' x"
  using assms unfolding table_moves_def by blast+

lemma table_moves_writer:
  assumes "table_moves F X m m' (has_writes v)" "x \<notin> X" "writer_ok F m v x"
  shows "keeps F m m' x" "state_of m' x \<noteq> Some (Aborted at)"
  using assms table_movesD(4,5) [OF assms(1,2)] by (auto simp: writer_ok_def)

lemma table_moves_ended:
  assumes mv: "table_moves F X m m' wrote" and e: "ended m t ts" and X: "\<And>x. x \<in> X \<Longrightarrow> \<not> is_committed m x"
  shows "ended m' t ts"
proof -
  have c: "is_committed m t" using e by (auto simp: ended_def is_committed_def)
  then have "keeps F m m' t"
    using e X by (intro table_movesD(4) [OF mv]) (auto simp: ended_def)
  with c e table_movesD(2) [OF mv] show ?thesis by (auto simp: keeps_def ended_def)
qed

lemma table_moves_before:
  assumes "table_moves F X m m' wrote" "before_readers F m ts" "ts < counter_of m"
  shows "before_readers F m' ts"
  using assms table_movesD(3) [OF assms(1)] unfolding before_readers_def by (meson less_le_trans)

text \<open>And what a version store that moves on must keep, but for the transactions of \<open>X\<close>.\<close>

definition store_moves :: "txn_id set \<Rightarrow> txn_id set \<Rightarrow> txn_mgr \<Rightarrow> version_store \<Rightarrow> version_store \<Rightarrow> lsn set \<Rightarrow> bool" where
  "store_moves F X m' v v' U = (
     (\<forall>x l p. x \<notin> X \<and> owns v x l \<and> vs_pre_images v l = Some p \<longrightarrow>
        (vs_pre_images v' l = Some p \<and> owns v' x l) \<or> (vs_pre_images v' l = None \<and> settled F m' x))
     \<and> (\<forall>x. x \<notin> X \<and> has_writes v x \<and> \<not> is_committed m' x \<longrightarrow> has_writes v' x)
     \<and> (\<forall>l \<in> U. vs_pre_images v l = None \<longrightarrow> vs_pre_images v' l = None))"

lemma store_movesD:
  assumes "store_moves F X m' v v' U"
  shows "x \<notin> X \<Longrightarrow> owns v x l \<Longrightarrow> vs_pre_images v l = Some p \<Longrightarrow>
        (vs_pre_images v' l = Some p \<and> owns v' x l) \<or> (vs_pre_images v' l = None \<and> settled F m' x)"
    and "x \<notin> X \<Longrightarrow> has_writes v x \<Longrightarrow> \<not> is_committed m' x \<Longrightarrow> has_writes v' x"
    and "l \<in> U \<Longrightarrow> vs_pre_images v l = None \<Longrightarrow> vs_pre_images v' l = None"
  using assms unfolding store_moves_def by blast+

lemma store_moves_refl: "store_moves F X m' v v U"
  by (simp add: store_moves_def)

lemma chain_carry:
  assumes "chain F m v U k t" and "t_txn_id t = Some w0" and "w0 \<notin> X" and X: "\<And>x. x \<in> X \<Longrightarrow> \<not> is_committed m x"
    and mv: "table_moves F X m m' (has_writes v)" and sm: "store_moves F X m' v v' U" and "U \<subseteq> U'"
  shows "chain F m' v' U' k t"
proof (rule chain_mono [OF assms(1,2,3) X])
  fix x assume x: "x \<notin> X" "writer_ok F m v x"
  note kp = table_moves_writer [OF mv x]
  have "\<not> is_committed m' x \<Longrightarrow> has_writes v' x"
    using store_movesD(2) [OF sm x(1)] x(2) keeps_committed [OF kp(1)] by (auto simp: writer_ok_def)
  then show "writer_ok F m' v' x" using kp x(2) by (auto simp: writer_ok_def keeps_def)
  show "is_committed m x \<Longrightarrow> is_committed m' x" using keeps_committed [OF kp(1)] .
  show "settled F m x \<Longrightarrow> settled F m' x" using kp(1) by (simp add: keeps_def)
  show "owns v x l \<Longrightarrow> vs_pre_images v l = Some p \<Longrightarrow>
      (vs_pre_images v' l = Some p \<and> owns v' x l) \<or> (vs_pre_images v' l = None \<and> settled F m' x)" for l p
    using store_movesD(1) [OF sm x(1)] by blast
qed (use store_movesD(3) [OF sm] assms(7) in auto)

lemma look_carry:
  assumes "chain F m v U k t" and "t_txn_id t = Some w0" and "w0 \<notin> X" and X: "\<And>x. x \<in> X \<Longrightarrow> \<not> is_committed m x"
    and mv: "table_moves F X m m' (has_writes v)" and sm: "store_moves F X m' v v' U"
    and r: "is_transaction_active m r" "is_transaction_active m' r" "r \<notin> F" and look: "look (seen_by m r) v t = Some x"
  shows "look (seen_by m' r) v' t = Some x"
proof (rule look_stable [OF assms(1,2,3) X _ _ _ _ look, where m' = m'])
  fix x assume x: "x \<notin> X" "writer_ok F m v x"
  show "seen_by m r x = Some b \<Longrightarrow> seen_by m' r x = Some b" for b
    using table_moves_writer(1) [OF mv x] r(1) by (auto simp: keeps_def seen_by_def)
  show "owns v x l \<Longrightarrow> vs_pre_images v l = Some p \<Longrightarrow> vs_pre_images v' l = Some p \<or> settled F m' x" for l p
    using store_movesD(1) [OF sm x(1)] by blast
qed (use settled_visible [OF _ r(1,3)] settled_visible [OF _ r(2,3)] in \<open>simp_all add: seen_by_def\<close>)

lemma chain_head: "chain F m v U k t \<Longrightarrow> \<exists>w. t_txn_id t = Some w \<and> writer_ok F m v w"
  by (rule chain_writer)

text \<open>The undo of a transaction depends on its own writes and pre-images, and on its rows.\<close>

lemma made_by_cong:
  assumes "\<And>l. Replaced l \<in> set ws \<Longrightarrow> vs_pre_images v' l = vs_pre_images v l" and "n \<le> length ws"
  shows "made_by v' ws n k row = made_by v ws n k row"
proof -
  have "idle v' x k row = idle v x k row" "makes v' x k row = makes v x k row" if "x \<in> set ws" for x
    using assms(1) that by (cases x; auto)+
  then have "\<And>j. j < n \<Longrightarrow> idle v' (ws ! j) k row = idle v (ws ! j) k row" "\<And>j. j < n \<Longrightarrow> makes v' (ws ! j) k row = makes v (ws ! j) k row"
    using assms(2) by auto
  then show ?thesis unfolding made_by_def by (auto cong: conj_cong)
qed

lemma undo_ok_cong:
  assumes "writes_of v' t = writes_of v t" and pis: "\<And>l. owns v t l \<Longrightarrow> vs_pre_images v' l = vs_pre_images v l"
    and rows: "\<And>k row. rows' k = Some row \<Longrightarrow> t_txn_id row = Some t \<Longrightarrow> rows k = Some row"
    and "undo_ok v rows t"
  shows "undo_ok v' rows' t"
proof -
  have cong: "made_by v' (writes_of v t) n k row = made_by v (writes_of v t) n k row" if "n \<le> length (writes_of v t)" for n k row
    using made_by_cong [of "writes_of v t" v' v n] pis that by (auto simp: owns_def)
  have "vs_pre_images v' l = vs_pre_images v l" if "i < length (writes_of v t)" "writes_of v t ! i = Replaced l" for i l
    using pis [of l] that by (metis nth_mem owns_def)
  then show ?thesis
    using assms(4) rows unfolding undo_ok_def assms(1) by (auto simp: cong)
qed

text \<open>Steps that leave the rows alone.\<close>

lemma no_writes_undo_ok:
  assumes rows: "\<And>k row. rows k = Some row \<Longrightarrow> chain F m v U k row" and "in_flight m t" "\<not> has_writes v t"
  shows "undo_ok v rows t"
proof -
  have "t_txn_id row \<noteq> Some t" if "rows k = Some row" for k row
    using chain_head [OF rows [OF that]] assms(2,3) by (auto simp: writer_ok_def in_flight_def)
  moreover have "writes_of v t = []" using assms(3) by (simp add: has_writes_def writes_of_def)
  ultimately show ?thesis by (auto simp: undo_ok_def)
qed

lemma inv_move:
  assumes inv: "winv F w" and mv: "table_moves F X (w_tm w) (w_tm w') (has_writes (w_vs w))"
    and sm: "store_moves F X (w_tm w') (w_vs w) (w_vs w') (spent w)"
    and X: "\<And>x. x \<in> X \<Longrightarrow> \<not> is_committed (w_tm w) x" "\<And>x k t. x \<in> X \<Longrightarrow> w_rows w k = Some t \<Longrightarrow> t_txn_id t \<noteq> Some x"
      "\<And>x. x \<in> X \<Longrightarrow> \<not> in_flight (w_tm w') x"
    and same: "w_rows w' = w_rows w" "db_tables (w_db w') = db_tables (w_db w)"
    and vs: "vs_wf (w_vs w')" "\<And>x. has_writes (w_vs w') x \<Longrightarrow> has_writes (w_vs w) x"
      "\<And>l. vs_pre_images (w_vs w') l \<noteq> None \<Longrightarrow> vs_pre_images (w_vs w) l \<noteq> None"
      "\<And>x l. owns (w_vs w') x l \<Longrightarrow> owns (w_vs w) x l"
    and und: "\<And>x. x \<notin> X \<Longrightarrow> in_flight (w_tm w') x \<Longrightarrow> has_writes (w_vs w') x \<Longrightarrow> writes_of (w_vs w') x = writes_of (w_vs w) x"
      "\<And>x l. x \<notin> X \<Longrightarrow> in_flight (w_tm w') x \<Longrightarrow> owns (w_vs w) x l \<Longrightarrow> vs_pre_images (w_vs w') l = vs_pre_images (w_vs w) l"
    and pool: "spent w \<subseteq> spent w'" "\<And>l. l \<in> w_pool w' \<Longrightarrow> l < counter_of (w_tm w')"
    and queue: "\<And>ts x n. (ts, x, n) \<in> set (vs_committed (w_vs w')) \<Longrightarrow> ended (w_tm w') x ts"
    and mark: "\<And>t ts. w_marking w' t = Some ts \<Longrightarrow> ended (w_tm w') t ts \<and> \<not> queued_txn (w_vs w') t"
    and tombs: "\<And>b. b \<in> set (vs_tombstones (w_vs w')) \<union> set (w_purging w') \<Longrightarrow> ended (w_tm w') (tb_txn b) (tb_commit_ts b)"
      "\<And>b. b \<in> set (w_purging w') \<Longrightarrow> before_readers F (w_tm w') (tb_commit_ts b)"
    and hor: "\<And>h. w_horizon w' = Some h \<Longrightarrow> w_horizon w = Some h \<or>
      (h \<le> counter_of (w_tm w') \<and> (\<forall>r. is_transaction_active (w_tm w') r \<and> r \<notin> F \<longrightarrow> h \<le> r))"
  shows "winv F w'"
proof -
  have chain: "chain F (w_tm w') (w_vs w') (spent w') k t" if "w_rows w k = Some t" for k t
  proof -
    note ch = invD(4) [OF inv that]
    obtain w0 where "t_txn_id t = Some w0" using chain_head [OF ch] by auto
    then show ?thesis using chain_carry [OF ch _ _ X(1) mv sm pool(1)] X(2) that by blast
  qed
  have undo: "undo_ok (w_vs w') (w_rows w) x" if fl: "in_flight (w_tm w') x" for x
  proof (cases "has_writes (w_vs w') x")
    case True
    have x: "x \<notin> X" using X(3) fl by blast
    have "undo_ok (w_vs w) (w_rows w) x"
      using table_movesD(6) [OF mv fl vs(2) [OF True]] invD(6) [OF inv] by blast
    then show ?thesis
      by (rule undo_ok_cong [OF und(1) [OF x fl True] und(2) [OF x fl], rotated 2])
  next
    case False
    show ?thesis by (rule no_writes_undo_ok [OF _ fl False]) (rule chain)
  qed
  have reach: "h \<le> r" if "is_transaction_active (w_tm w') r" "r \<notin> F" "w_horizon w = Some h" for r h
    using table_movesD(3) [OF mv that(1,2)] invD(12,13) [OF inv that(3)] that by (meson order.trans)
  have low: "w_horizon w = Some h \<Longrightarrow> h \<le> counter_of (w_tm w')" for h
    using table_movesD(2) [OF mv] invD(12) [OF inv, of h] by (meson order.trans)
  show ?thesis
  proof (rule invI, unfold same)
    show "tm_wf (w_tm w')" using table_movesD(1) [OF mv] .
    show "tm_arcs (w_tm w') x \<noteq> None" if "has_writes (w_vs w') x" for x
      using table_movesD(7) [OF mv invD(5) [OF inv vs(2) [OF that]]] .
    show "h \<le> counter_of (w_tm w')" if "w_horizon w' = Some h" for h using hor [OF that] low by blast
    show "h \<le> r" if "w_horizon w' = Some h" "is_transaction_active (w_tm w') r" "r \<notin> F" for h r
      using hor [OF that(1)] reach [OF that(2,3)] that by blast
    show "l \<in> spent w'" if "vs_pre_images (w_vs w') l \<noteq> None" for l using invD(14) [OF inv vs(3) [OF that]] pool(1) by blast
    show "l \<in> spent w'" if "owns (w_vs w') x l" for x l using invD(15) [OF inv vs(4) [OF that]] pool(1) by blast
    show "agrees F (w_tm w') x" if "in_flight (w_tm w') x" for x using table_movesD(8) [OF mv invD(17) [OF inv] that] .
  qed (fact vs(1) invD(3) [OF inv] chain undo queue mark tombs pool(2))+
qed

text \<open>Steps of the table alone.\<close>

lemma inv_tm:
  assumes inv: "winv F w" and mv: "table_moves F {} (w_tm w) (w_tm w') (has_writes (w_vs w))"
    and same: "w_vs w' = w_vs w" "w_rows w' = w_rows w" "db_tables (w_db w') = db_tables (w_db w)" "w_purging w' = w_purging w"
    and pool: "spent w \<subseteq> spent w'" "\<And>l. l \<in> w_pool w' \<Longrightarrow> l < counter_of (w_tm w')"
    and mark: "\<And>t ts. w_marking w' t = Some ts \<Longrightarrow> w_marking w t = Some ts \<or> (ended (w_tm w') t ts \<and> \<not> queued_txn (w_vs w) t)"
    and hor: "\<And>h. w_horizon w' = Some h \<Longrightarrow> w_horizon w = Some h \<or>
      (h \<le> counter_of (w_tm w') \<and> (\<forall>r. is_transaction_active (w_tm w') r \<and> r \<notin> F \<longrightarrow> h \<le> r))"
  shows "winv F w'"
proof (rule inv_move [OF inv mv])
  note endd = table_moves_ended [OF mv]
  show "before_readers F (w_tm w') (tb_commit_ts b)" if "b \<in> set (w_purging w')" for b
    using table_moves_before [OF mv invD(11) [OF inv, of b]] invD(10) [OF inv, of b] that same by (simp add: ended_def)
  show "ended (w_tm w') x ts \<and> \<not> queued_txn (w_vs w') x" if "w_marking w' x = Some ts" for x ts
    using mark [OF that] endd [OF invD(8) [OF inv]] invD(9) [OF inv] same(1) by auto
  show "ended (w_tm w') x ts" if "(ts, x, n) \<in> set (vs_committed (w_vs w'))" for ts x n
    using endd [OF invD(7) [OF inv]] that same(1) by simp
  show "ended (w_tm w') (tb_txn b) (tb_commit_ts b)" if "b \<in> set (vs_tombstones (w_vs w')) \<union> set (w_purging w')" for b
    using endd [OF invD(10) [OF inv]] that same by simp
  show "\<And>h. w_horizon w' = Some h \<Longrightarrow> w_horizon w = Some h \<or>
      (h \<le> counter_of (w_tm w') \<and> (\<forall>r. is_transaction_active (w_tm w') r \<and> r \<notin> F \<longrightarrow> h \<le> r))" by (fact hor)
qed (use invD(2) [OF inv] same pool in \<open>simp_all add: store_moves_refl\<close>)

lemma view_move:
  assumes inv: "winv F w" and mv: "table_moves F X (w_tm w) (w_tm w') (has_writes (w_vs w))"
    and sm: "store_moves F X (w_tm w') (w_vs w) (w_vs w') (spent w)"
    and X: "\<And>x. x \<in> X \<Longrightarrow> \<not> is_committed (w_tm w) x" "\<And>x k t. x \<in> X \<Longrightarrow> w_rows w k = Some t \<Longrightarrow> t_txn_id t \<noteq> Some x"
    and same: "w_rows w' k = w_rows w k"
    and r: "is_transaction_active (w_tm w) r" "is_transaction_active (w_tm w') r" "r \<notin> F" and view: "view w r k = Some x"
  shows "view w' r k = Some x"
proof (cases "w_rows w k")
  case (Some t)
  note ch = invD(4) [OF inv Some]
  obtain w0 where w0: "t_txn_id t = Some w0" using chain_head [OF ch] by auto
  then have "w0 \<notin> X" using X(2) Some by blast
  from look_carry [OF ch w0 this X(1) mv sm r] view Some show ?thesis by (simp add: view_def same look_row_def)
qed (use view in \<open>simp add: view_def same look_row_def\<close>)

text \<open>How a step of the manager gives a move of the table.\<close>

lemma in_flight_before:
  assumes "tm_step (fate_of F x) m m'" "tm_wf m" "in_flight m' x" "tm_arcs m x \<noteq> None"
  shows "in_flight m x"
  using tm_step_moves [OF assms(1,2), of x] began_less [OF assms(2,4)] assms(3)
  by cases (auto simp: in_flight_def is_committed_def fate_of_def)

lemma in_flight_began: "tm_wf m \<Longrightarrow> in_flight m x \<Longrightarrow> tm_arcs m x \<noteq> None"
  using tm_wfD(4) [of m x] by (auto simp: in_flight_def is_committed_def split: option.splits)

lemma table_moves_step_but:
  assumes wf: "tm_wf m"
    and step: "\<And>x. x \<notin> X \<Longrightarrow> is_committed m x \<or> wrote x \<or> in_flight m' x \<Longrightarrow> tm_step (fate_of F x) m m'"
    and any: "tm_step \<lparr>reads_only = UNIV, rolled_back = UNIV, unlogged = F\<rparr> m m'"
    and ab: "\<And>x at. x \<notin> X \<Longrightarrow> state_of m' x = Some (Aborted at) \<Longrightarrow> \<exists>at. state_of m x = Some (Aborted at)"
    and wrote: "\<And>x. wrote x \<Longrightarrow> tm_arcs m x \<noteq> None" and X: "\<And>x. x \<in> X \<Longrightarrow> \<not> in_flight m' x"
  shows "table_moves F X m m' wrote"
  unfolding table_moves_def
proof (intro conjI allI impI)
  show wf': "tm_wf m'" using tm_step_wf [OF any wf] .
  show "counter_of m \<le> counter_of m'" using counter_mono [OF any] .
  show "tm_arcs m' t \<noteq> None" if "tm_arcs m t \<noteq> None" for t using tm_step_arcs_grow [OF any that] .
  show "is_transaction_active m r \<or> counter_of m \<le> r" if "is_transaction_active m' r \<and> r \<notin> F" for r
    using new_active [OF any wf, of r] that by auto
  show "in_flight m t" if "in_flight m' t \<and> wrote t" for t
    using in_flight_before [OF step wf] that wrote X by blast
  show "agrees F m' t" if all: "\<forall>t. in_flight m t \<longrightarrow> agrees F m t" and t: "in_flight m' t" for t
  proof -
    have st: "tm_step (fate_of F t) m m'" using step t X by blast
    have "tm_arcs m t \<noteq> None \<Longrightarrow> agrees F m t" using in_flight_before [OF st wf t] all by blast
    moreover have "state_of m' t \<noteq> None" using t by (cases "state_of m' t") (auto simp: in_flight_def is_committed_def)
    ultimately show ?thesis
      using agrees_step [OF st wf _ in_flight_began [OF wf' t]] by (simp add: fate_of_def)
  qed
  fix x assume x: "x \<notin> X \<and> tm_arcs m x \<noteq> None \<and> (\<forall>at. state_of m x \<noteq> Some (Aborted at)) \<and> (is_committed m x \<or> wrote x)"
  then show "keeps F m m' x" using keeps_step [OF step wf] by blast
  show "state_of m' x \<noteq> Some (Aborted at)" for at using ab [of x at] x by blast
qed

lemma table_moves_step:
  assumes "tm_wf m" "\<And>x. is_committed m x \<or> wrote x \<or> in_flight m' x \<Longrightarrow> tm_step (fate_of F x) m m'"
    "tm_step \<lparr>reads_only = UNIV, rolled_back = UNIV, unlogged = F\<rparr> m m'"
    "\<And>x at. state_of m' x = Some (Aborted at) \<Longrightarrow> \<exists>at. state_of m x = Some (Aborted at)" "\<And>x. wrote x \<Longrightarrow> tm_arcs m x \<noteq> None"
  shows "table_moves F {} m m' wrote"
  by (rule table_moves_step_but [OF assms(1) _ assms(3) _ assms(5)]) (use assms(2,4) in blast)+

lemma table_moves_quiet:
  assumes "quiet m m'"
  shows "table_moves F {} m m' wrote"
  using assms keeps_quiet [OF assms]
  by (auto simp: table_moves_def quiet_simps [OF assms] in_flight_def) (simp_all add: quiet_def)

end
