(* ===== verification/Mvcc_Steps.thy ===== *)
theory Mvcc_Steps
  imports Mvcc_Inv
begin

text \<open>
  The steps of the transactional core, and that each keeps the invariant of \<open>Mvcc_Inv\<close> and what
  every running reader finds.
\<close>

section \<open>The steps\<close>

definition with_tm :: "txn_mgr \<Rightarrow> world \<Rightarrow> world" where
  "with_tm m w = w\<lparr>w_db := (w_db w)\<lparr>db_tm := m\<rparr>\<rparr>"

definition with_vs :: "version_store \<Rightarrow> world \<Rightarrow> world" where
  "with_vs v w = w\<lparr>w_db := (w_db w)\<lparr>db_vs := v\<rparr>\<rparr>"

definition with_db :: "db \<Rightarrow> world \<Rightarrow> world" where
  "with_db d w = w\<lparr>w_db := d\<rparr>"

definition with_log :: "lsn \<times> operation \<Rightarrow> world \<Rightarrow> world" where
  "with_log r w = w\<lparr>w_db := (w_db w)\<lparr>db_log := db_log (w_db w) @ [r]\<rparr>\<rparr>"

text \<open>Room for \<open>n\<close> more draws from the counter.\<close>

definition room :: "nat \<Rightarrow> world \<Rightarrow> bool" where
  "room n w = (unat (counter_of (w_tm w)) + n < 2 ^ 64)"

text \<open>
  Each step carries the transaction that writes in it, if one does. A number drawn for a write
  stays in the pool until the write is made. A write is made by a running transaction; a failing
  log or tree (\<open>log_err\<close>, \<open>tree_err\<close>) can end it after its version is recorded. The set \<open>F\<close> is
  of the transactions whose Commit record may fail to be queued; a commit goes through when the
  record was, between its two halves. Sequences append their records, too. A revert is one step, without
  an error of the tree; the record after it may fail.
\<close>

inductive db_step :: "txn_id set \<Rightarrow> txn_id option \<Rightarrow> world \<Rightarrow> world \<Rightarrow> bool" for F where
  d_begin: "room 1 w \<Longrightarrow> db_step F None w (with_db (snd (begin_txn p (w_db w))) w)"
| d_draw: "room 1 w \<Longrightarrow> db_step F None w (with_db (snd (draw (w_db w))) w)"
| d_reserve: "room 1 w \<Longrightarrow>
    db_step F None w ((with_db (snd (draw (w_db w))) w)\<lparr>w_pool := insert (fst (draw (w_db w))) (w_pool w)\<rparr>)"
| d_insert: "l \<in> w_pool w \<Longrightarrow> is_transaction_active (w_tm w) t \<Longrightarrow> db_tables (w_db w) tid \<noteq> None \<Longrightarrow> tup = stamped t tuple \<Longrightarrow>
    db_step F (Some t) w ((with_db (snd (write_version tid (t_id tup) tree_err (insert_decision tid tup t l log_err) (w_db w))) w)
      \<lparr>w_pool := w_pool w - {l}\<rparr>)"
| d_update: "l \<in> w_pool w \<Longrightarrow> is_transaction_active (w_tm w) t \<Longrightarrow> db_tables (w_db w) tid \<noteq> None \<Longrightarrow>
    base_version t i (w_rows w (row_key tid i)) (w_db w) = Some base \<Longrightarrow>
    db_step F (Some t) w ((with_db (snd (write_version tid i tree_err (\<lambda>_. update_decision tid new t l log_err base) (w_db w))) w)
      \<lparr>w_pool := w_pool w - {l}\<rparr>)"
| d_remove: "l \<in> w_pool w \<Longrightarrow> is_transaction_active (w_tm w) t \<Longrightarrow> db_tables (w_db w) tid \<noteq> None \<Longrightarrow>
    base_version t i (w_rows w (row_key tid i)) (w_db w) = Some base \<Longrightarrow>
    db_step F (Some t) w ((with_db (snd (write_version tid i tree_err (\<lambda>_. remove_decision tid t l log_err base) (w_db w))) w)
      \<lparr>w_pool := w_pool w - {l}\<rparr>)"
| d_begin_commit: "room 1 w \<Longrightarrow> has_writes (w_vs w) t \<Longrightarrow> db_step F None w (with_tm (snd (begin_commit t (w_tm w))) w)"
| d_finish_commit: "(if logged then (ts, Commit t) \<in> set (db_log (w_db w)) else t \<in> F \<and> (ts, Commit t) \<notin> set (db_log (w_db w))) \<Longrightarrow> state_of (w_tm w) t = Some (Committing ts p) \<Longrightarrow>
    db_step F None w ((with_tm (finish_commit t logged (w_tm w)) w)
      \<lparr>w_marking := (if logged then (w_marking w)(t \<mapsto> ts) else w_marking w)\<rparr>)"
| d_mark: "w_marking w t = Some ts \<Longrightarrow>
    db_step F None w ((with_vs (mark_committed t ts (w_vs w)) w)\<lparr>w_marking := (w_marking w)(t := None)\<rparr>)"
| d_commit_read_only: "\<not> has_writes (w_vs w) t \<Longrightarrow> t < ts \<Longrightarrow> ts < counter_of (w_tm w) \<Longrightarrow> tm_arcs (w_tm w) ts = None \<Longrightarrow>
    db_step F None w (with_tm (snd (txn_commit t ts (w_tm w))) w)"
| d_end_read_only: "\<not> has_writes (w_vs w) t \<Longrightarrow> db_step F None w (with_tm (snd (end_read_only t (w_tm w))) w)"
| d_abort: "db_step F None w (with_tm (snd (txn_abort t (w_tm w))) w)"
| d_finish_abort: "state_of (w_tm w) t = Some Aborting \<Longrightarrow> fl_revert \<omega> = (\<lambda>_. None) \<Longrightarrow>
    room (length (writes_of (w_vs w) t) + 1) w \<Longrightarrow>
    db_step F None w (with_db (snd (finish_abort \<omega> t (w_db w))) w)"
| d_horizon: "db_step F None w (w\<lparr>w_horizon := Some (horizon (w_tm w))\<rparr>)"
| d_prune: "db_step F None w (with_db (prune_and_discard (w_db w)) w)"
| d_vacuum: "w_horizon w = Some h \<Longrightarrow>
    db_step F None w ((with_db (snd (vacuum_to h (w_db w))) w)\<lparr>w_purging := w_purging w @ fst (vacuum_to h (w_db w))\<rparr>)"
| d_purge: "w_purging w = b # bs \<Longrightarrow> room 2 w \<Longrightarrow> purge \<omega> b (w_db w) = (r, d) \<Longrightarrow>
    db_step F None w ((with_db (d\<lparr>db_vs := requeue_tombstones (case r of Inl _ \<Rightarrow> [b] | Inr _ \<Rightarrow> []) (db_vs d)\<rparr>) w)\<lparr>w_purging := bs\<rparr>)"
| d_log_commit: "state_of (w_tm w) t = Some (Committing ts p) \<Longrightarrow> db_step F None w (with_log (ts, Commit t) w)"
| d_log_sequence: "l < counter_of (w_tm w) \<Longrightarrow> db_step F None w (with_log (l, Sequence name h dropped) w)"
| d_other: "db_step F None w (w\<lparr>w_db := (w_db w)\<lparr>db_degraded := dg, db_forced := fd, db_attempts := at\<rparr>\<rparr>)"

lemma with_simps [simp]:
  "w_tm (with_tm m w) = m" "w_vs (with_tm m w) = w_vs w" "w_rows (with_tm m w) = w_rows w"
  "db_tables (w_db (with_tm m w)) = db_tables (w_db w)" "w_pool (with_tm m w) = w_pool w"
  "w_marking (with_tm m w) = w_marking w" "w_purging (with_tm m w) = w_purging w" "w_horizon (with_tm m w) = w_horizon w"
  "w_db (with_db d w) = d" "w_pool (with_db d w) = w_pool w" "w_marking (with_db d w) = w_marking w"
  "w_purging (with_db d w) = w_purging w" "w_horizon (with_db d w) = w_horizon w"
  "w_tm (with_vs v w) = w_tm w" "w_vs (with_vs v w) = v" "w_rows (with_vs v w) = w_rows w"
  "db_tables (w_db (with_vs v w)) = db_tables (w_db w)" "w_pool (with_vs v w) = w_pool w"
  "w_marking (with_vs v w) = w_marking w" "w_purging (with_vs v w) = w_purging w" "w_horizon (with_vs v w) = w_horizon w"
  "w_tm (with_log r w) = w_tm w" "w_vs (with_log r w) = w_vs w" "w_rows (with_log r w) = w_rows w"
  "db_tables (w_db (with_log r w)) = db_tables (w_db w)" "db_log (w_db (with_log r w)) = db_log (w_db w) @ [r]"
  by (simp_all add: with_tm_def with_db_def with_vs_def with_log_def)

lemma draw_simps [simp]:
  "fst (draw d) = counter_of (db_tm d)" "db_tm (snd (draw d)) = snd (mint (db_tm d))" "db_vs (snd (draw d)) = db_vs d"
  "db_rows (snd (draw d)) = db_rows d" "db_tables (snd (draw d)) = db_tables d"
  by (simp_all add: draw_def split_beta mint_simps)

lemma begin_txn_simps [simp]:
  "db_tm (snd (begin_txn p d)) = snd (create_transaction p (db_tm d))" "db_vs (snd (begin_txn p d)) = db_vs d"
  "db_rows (snd (begin_txn p d)) = db_rows d" "db_tables (snd (begin_txn p d)) = db_tables d"
  by (simp_all add: begin_txn_def split_beta)

lemma room_counter: "room n w \<Longrightarrow> n > 0 \<Longrightarrow> counter_of (w_tm w) \<noteq> U64_MAX"
  by (auto simp: room_def unsigned_minus_1_eq_mask mask_eq_exp_minus_1)

section \<open>Steps of the transaction table\<close>

text \<open>What a step has to keep: the invariant, the tables, who runs, and what the running ones find.\<close>

definition goes_on :: "txn_id set \<Rightarrow> world \<Rightarrow> world \<Rightarrow> bool" where
  "goes_on F w w' = (db_tables (w_db w') = db_tables (w_db w) \<and> counter_of (w_tm w) \<le> counter_of (w_tm w')
     \<and> (\<forall>r. is_transaction_active (w_tm w') r \<and> r \<notin> F \<longrightarrow> is_transaction_active (w_tm w) r \<or> counter_of (w_tm w) \<le> r))"

lemma goes_on_moves:
  "table_moves F X (w_tm w) (w_tm w') wrote \<Longrightarrow> db_tables (w_db w') = db_tables (w_db w) \<Longrightarrow> goes_on F w w'"
  unfolding goes_on_def using table_movesD(2,3) by blast

lemma goes_on_refl: "w_tm w' = w_tm w \<Longrightarrow> db_tables (w_db w') = db_tables (w_db w) \<Longrightarrow> goes_on F w w'"
  by (simp add: goes_on_def)

definition step_ok :: "txn_id set \<Rightarrow> txn_id option \<Rightarrow> world \<Rightarrow> world \<Rightarrow> bool" where
  "step_ok F a w w' = (winv F w' \<and> goes_on F w w' \<and> (\<forall>r k x. is_transaction_active (w_tm w) r \<and> is_transaction_active (w_tm w') r \<and> r \<notin> F
     \<and> a \<noteq> Some r \<and> view w r k = Some x \<longrightarrow> view w' r k = Some x))"

lemma step_ok_tm:
  assumes inv: "winv F w" and mv: "table_moves F {} (w_tm w) (w_tm w') (has_writes (w_vs w))"
    and same: "w_vs w' = w_vs w" "w_rows w' = w_rows w" "db_tables (w_db w') = db_tables (w_db w)" "w_purging w' = w_purging w"
    and pool: "spent w \<subseteq> spent w'" "\<And>l. l \<in> w_pool w' \<Longrightarrow> l < counter_of (w_tm w')"
    and mark: "\<And>t ts. w_marking w' t = Some ts \<Longrightarrow> w_marking w t = Some ts \<or> (ended (w_tm w') t ts \<and> \<not> queued_txn (w_vs w) t)"
    and hor: "\<And>h. w_horizon w' = Some h \<Longrightarrow> w_horizon w = Some h \<or>
      (h \<le> counter_of (w_tm w') \<and> (\<forall>r. is_transaction_active (w_tm w') r \<and> r \<notin> F \<longrightarrow> h \<le> r))"
  shows "step_ok F a w w'"
proof -
  have "view w' r k = Some x"
    if "is_transaction_active (w_tm w) r" "is_transaction_active (w_tm w') r" "r \<notin> F" "view w r k = Some x" for r k x
    by (rule view_move [OF inv mv _ _ _ _ that]) (simp_all add: same store_moves_refl)
  then show ?thesis using inv_tm [OF assms] goes_on_moves [OF mv same(3)] by (simp add: step_ok_def)
qed

lemma step_ok_tm_only:
  assumes "winv F w" and "table_moves F {} (w_tm w) m' (has_writes (w_vs w))"
  shows "step_ok F a w (with_tm m' w)"
proof (rule step_ok_tm [OF assms(1)])
  show "spent w \<subseteq> spent (with_tm m' w)" using table_movesD(2) [OF assms(2)] by (auto simp: spent_def)
  show "l < counter_of (w_tm (with_tm m' w))" if "l \<in> w_pool (with_tm m' w)" for l
    using invD(16) [OF assms(1), of l] table_movesD(2) [OF assms(2)] that by simp
qed (use assms in simp_all)

abbreviation any_fate :: "txn_id set \<Rightarrow> fates" where
  "any_fate F \<equiv> \<lparr>reads_only = UNIV, rolled_back = UNIV, unlogged = F\<rparr>"

lemma moves_uniform:
  assumes "tm_wf m" "\<And>x. wrote x \<Longrightarrow> tm_arcs m x \<noteq> None"
    and step: "\<And>\<phi>. rolled_back \<phi> = UNIV \<Longrightarrow> unlogged \<phi> = F \<Longrightarrow> tm_step \<phi> m m'"
    and ab: "\<And>x at. state_of m' x = Some (Aborted at) \<Longrightarrow> \<exists>at. state_of m x = Some (Aborted at)"
  shows "table_moves F {} m m' wrote"
  by (rule table_moves_step [OF assms(1) _ _ ab assms(2)]) (simp_all add: step fate_of_def)

lemma moves_create:
  assumes "tm_wf m" "\<And>x. wrote x \<Longrightarrow> tm_arcs m x \<noteq> None" "counter_of m \<noteq> U64_MAX"
  shows "table_moves F {} m (snd (create_transaction p m)) wrote"
  by (rule moves_uniform [OF assms(1,2) step_create [OF assms(3)]]) (auto simp: tm_simps split: if_splits)

lemma moves_begin_commit:
  assumes "tm_wf m" "\<And>x. wrote x \<Longrightarrow> tm_arcs m x \<noteq> None" "counter_of m \<noteq> U64_MAX"
  shows "table_moves F {} m (snd (begin_commit t m)) wrote"
  by (rule moves_uniform [OF assms(1,2) step_begin_commit [OF assms(3)]])
    (auto simp: begin_commit_def tm_simps split_beta split: if_splits option.splits txn_state.splits)

lemma moves_finish_commit:
  assumes "tm_wf m" "\<And>x. wrote x \<Longrightarrow> tm_arcs m x \<noteq> None" "logged \<or> t \<in> F"
  shows "table_moves F {} m (finish_commit t logged m) wrote"
  by (rule moves_uniform [OF assms(1,2) step_finish_commit])
    (use assms(3) in \<open>auto simp: finish_commit_def tm_simps split: if_splits option.splits txn_state.splits\<close>)

lemma moves_abort:
  assumes "tm_wf m" "\<And>x. wrote x \<Longrightarrow> tm_arcs m x \<noteq> None"
  shows "table_moves F {} m (snd (txn_abort t m)) wrote"
  by (rule moves_uniform [OF assms(1,2) step_abort])
    (auto simp: txn_abort_def tm_simps split: if_splits option.splits txn_state.splits)

lemma moves_commit_read_only:
  assumes wf: "tm_wf m" and w: "\<And>x. wrote x \<Longrightarrow> tm_arcs m x \<noteq> None"
    and t: "\<not> wrote t" "t < ts" "ts < counter_of m" "tm_arcs m ts = None"
  shows "table_moves F {} m (snd (txn_commit t ts m)) wrote"
proof (cases "is_transaction_active m t")
  case True
  then obtain p where p: "state_of m t = Some (Active p)" by (auto simp: active_iff)
  show ?thesis
  proof (rule table_moves_step [OF wf _ _ _ w])
    fix x assume "is_committed m x \<or> wrote x \<or> in_flight (snd (txn_commit t ts m)) x"
    then have "x \<noteq> t" using p t(1) by (auto simp: is_committed_def txn_commit_def in_flight_def tm_simps)
    then show "tm_step (fate_of F x) m (snd (txn_commit t ts m))" using t by (auto intro: step_commit simp: fate_of_def)
  next
    show "tm_step (any_fate F) m (snd (txn_commit t ts m))" using t by (auto intro: step_commit)
  qed (use p in \<open>auto simp: txn_commit_def tm_simps split: if_splits\<close>)
next
  case False
  then have "snd (txn_commit t ts m) = m" by (auto simp: txn_commit_def active_iff split: option.split txn_state.split)
  then show ?thesis using table_moves_quiet [OF quiet_refl [OF wf]] by simp
qed

lemma moves_end_read_only:
  assumes wf: "tm_wf m" and w: "\<And>x. wrote x \<Longrightarrow> tm_arcs m x \<noteq> None" and t: "\<not> wrote t"
  shows "table_moves F {} m (snd (end_read_only t m)) wrote"
proof (cases "is_transaction_active m t")
  case True
  then obtain p where p: "state_of m t = Some (Active p)" by (auto simp: active_iff)
  show ?thesis
  proof (rule table_moves_step [OF wf _ _ _ w])
    fix x assume "is_committed m x \<or> wrote x \<or> in_flight (snd (end_read_only t m)) x"
    then have "x \<noteq> t" using p t by (auto simp: is_committed_def end_read_only_def in_flight_def tm_simps)
    then show "tm_step (fate_of F x) m (snd (end_read_only t m))" by (auto intro: step_end_read_only simp: fate_of_def)
  next
    show "tm_step (any_fate F) m (snd (end_read_only t m))" by (auto intro: step_end_read_only)
  qed (use p in \<open>auto simp: end_read_only_def tm_simps split: if_splits\<close>)
next
  case False
  then have "snd (end_read_only t m) = m" by (auto simp: end_read_only_def active_iff split: option.split txn_state.split)
  then show ?thesis using table_moves_quiet [OF quiet_refl [OF wf]] by simp
qed

lemma moves_prune:
  assumes "tm_wf m" "\<And>x. wrote x \<Longrightarrow> tm_arcs m x \<noteq> None"
  shows "table_moves F {} m (snd (prune_committed m)) wrote"
  by (rule moves_uniform [OF assms(1,2) step_prune]) (auto simp: prune_state_of [OF assms(1)] split: option.splits if_splits)

lemma counter_stays: "winv F w \<Longrightarrow> l \<in> w_pool w \<Longrightarrow> counter_of (w_tm w) \<le> c \<Longrightarrow> l < c"
  using invD(16) [of F w l] by simp

lemma wrote_began: "winv F w \<Longrightarrow> has_writes (w_vs w) x \<Longrightarrow> tm_arcs (w_tm w) x \<noteq> None"
  by (rule invD(5))

lemma counter_steps: "room 1 w \<Longrightarrow> counter_of (w_tm w) < counter_of (w_tm w) + 1"
  using inc_less [OF room_counter [of 1 w]] by simp

lemma ok_begin:
  assumes inv: "winv F w" and r: "room 1 w"
  shows "step_ok F a w (with_db (snd (begin_txn p (w_db w))) w)"
proof (rule step_ok_tm [OF inv])
  note mv = moves_create [OF invD(1) [OF inv] wrote_began [OF inv] room_counter [OF r]]
  show "table_moves F {} (w_tm w) (w_tm (with_db (snd (begin_txn p (w_db w))) w)) (has_writes (w_vs w))"
    using mv by simp
qed (use counter_steps [OF r] invD(16) [OF inv] in \<open>auto simp: spent_def tm_simps dest: less_trans\<close>)

lemma quiet_draw: "winv F w \<Longrightarrow> room 1 w \<Longrightarrow> quiet (w_tm w) (snd (mint (w_tm w)))"
  by (rule quiet_mint) (auto simp: invD(1) dest: room_counter)

lemma ok_draw:
  assumes inv: "winv F w" and r: "room 1 w"
  shows "step_ok F a w (with_db (snd (draw (w_db w))) w)"
  by (rule step_ok_tm [OF inv]) (use counter_steps [OF r] invD(16) [OF inv] table_moves_quiet [OF quiet_draw [OF inv r]] in
      \<open>auto simp: spent_def tm_simps dest: less_trans\<close>)

lemma ok_reserve:
  assumes inv: "winv F w" and r: "room 1 w"
  shows "step_ok F a w ((with_db (snd (draw (w_db w))) w)\<lparr>w_pool := insert (fst (draw (w_db w))) (w_pool w)\<rparr>)"
  by (rule step_ok_tm [OF inv]) (use counter_steps [OF r] invD(16) [OF inv] table_moves_quiet [OF quiet_draw [OF inv r]] in
      \<open>auto simp: spent_def tm_simps with_db_def dest: less_trans\<close>)

lemma ok_begin_commit:
  assumes inv: "winv F w" and r: "room 1 w"
  shows "step_ok F a w (with_tm (snd (begin_commit t (w_tm w))) w)"
  by (rule step_ok_tm_only [OF inv moves_begin_commit [OF invD(1) [OF inv] wrote_began [OF inv] room_counter [OF r]]]) simp_all

lemma ok_commit_read_only:
  assumes inv: "winv F w" and t: "\<not> has_writes (w_vs w) t" "t < ts" "ts < counter_of (w_tm w)" "tm_arcs (w_tm w) ts = None"
  shows "step_ok F a w (with_tm (snd (txn_commit t ts (w_tm w))) w)"
  using moves_commit_read_only [where wrote = "has_writes (w_vs w)", OF invD(1) [OF inv] wrote_began [OF inv] t]
  by (rule step_ok_tm_only [OF inv])

lemma ok_end_read_only:
  assumes inv: "winv F w" and t: "\<not> has_writes (w_vs w) t"
  shows "step_ok F a w (with_tm (snd (end_read_only t (w_tm w))) w)"
  using moves_end_read_only [where wrote = "has_writes (w_vs w)", OF invD(1) [OF inv] wrote_began [OF inv] t]
  by (rule step_ok_tm_only [OF inv])

lemma ok_abort:
  assumes inv: "winv F w"
  shows "step_ok F a w (with_tm (snd (txn_abort t (w_tm w))) w)"
  by (rule step_ok_tm_only [OF inv moves_abort [OF invD(1) [OF inv] wrote_began [OF inv]]])

lemma ended_committed: "ended m t ts \<Longrightarrow> is_committed m t"
  by (auto simp: ended_def is_committed_def)

lemma not_queued: "winv F w \<Longrightarrow> \<not> is_committed (w_tm w) t \<Longrightarrow> \<not> queued_txn (w_vs w) t"
  using invD(7) [of F w] by (auto simp: queued_txn_def dest: ended_committed)

lemma ok_finish_commit:
  assumes inv: "winv F w" and "logged \<or> t \<in> F" and st: "state_of (w_tm w) t = Some (Committing ts p)"
  shows "step_ok F a w ((with_tm (finish_commit t logged (w_tm w)) w)
      \<lparr>w_marking := (if logged then (w_marking w)(t \<mapsto> ts) else w_marking w)\<rparr>)" (is "step_ok F a w ?w")
proof (rule step_ok_tm [OF inv])
  let ?m = "finish_commit t logged (w_tm w)"
  have m: "w_tm ?w = ?m" by (simp add: with_tm_def)
  show mv: "table_moves F {} (w_tm w) (w_tm ?w) (has_writes (w_vs w))"
    unfolding m by (rule moves_finish_commit [OF invD(1) [OF inv] wrote_began [OF inv] assms(2)])
  have c: "counter_of ?m = counter_of (w_tm w)" by (simp add: finish_commit_def st tm_simps)
  have "ended ?m t ts" if logged
    using that st tm_wfD(3,4) [OF invD(1) [OF inv] st] table_movesD(7) [OF mv, of t]
    by (auto simp: ended_def m c) (simp_all add: finish_commit_def tm_simps)
  moreover have "\<not> queued_txn (w_vs w) t"
    using not_queued [OF inv] st by (simp add: is_committed_def)
  ultimately show "w_marking ?w x = Some s \<Longrightarrow> w_marking w x = Some s \<or> (ended (w_tm ?w) x s \<and> \<not> queued_txn (w_vs w) x)" for x s
    unfolding m by (auto split: if_splits)
  show "spent w \<subseteq> spent ?w" unfolding spent_def m c by (simp add: with_tm_def)
  show "l < counter_of (w_tm ?w)" if "l \<in> w_pool ?w" for l
    using invD(16) [OF inv, of l] that unfolding m c by simp
qed (simp_all add: with_tm_def)

lemma ok_horizon:
  assumes inv: "winv F w"
  shows "step_ok F a w (w\<lparr>w_horizon := Some (horizon (w_tm w))\<rparr>)"
  by (rule step_ok_tm [OF inv]) (use table_moves_quiet [OF quiet_refl [OF invD(1) [OF inv]]] invD(16) [OF inv] in
      \<open>auto simp: spent_def intro: horizon_le horizon_le_counter invD(1) [OF inv]\<close>)

lemma ok_other:
  assumes inv: "winv F w"
  shows "step_ok F a w (w\<lparr>w_db := (w_db w)\<lparr>db_degraded := dg, db_forced := fd, db_attempts := at\<rparr>\<rparr>)" "step_ok F a w (with_log r w)"
  by (rule step_ok_tm [OF inv], use table_moves_quiet [OF quiet_refl [OF invD(1) [OF inv]]] invD(16) [OF inv] in
      \<open>auto simp: spent_def with_log_def\<close>)+

section \<open>Steps of the version store\<close>

lemma step_ok_store:
  assumes inv: "winv F w" and mv: "table_moves F X (w_tm w) (w_tm w') (has_writes (w_vs w))"
    and sm: "store_moves F X (w_tm w') (w_vs w) (w_vs w') (spent w)"
    and X: "\<And>x. x \<in> X \<Longrightarrow> \<not> is_committed (w_tm w) x" "\<And>x k t. x \<in> X \<Longrightarrow> w_rows w k = Some t \<Longrightarrow> t_txn_id t \<noteq> Some x"
    and same: "w_rows w' = w_rows w" "db_tables (w_db w') = db_tables (w_db w)" and inv': "winv F w'"
  shows "step_ok F a w w'"
proof -
  have "view w' r k = Some x"
    if "is_transaction_active (w_tm w) r" "is_transaction_active (w_tm w') r" "r \<notin> F" "view w r k = Some x" for r k x
    by (rule view_move [OF inv mv sm X _ that]) (simp_all add: same)
  with inv' goes_on_moves [OF mv same(2)] show ?thesis by (simp add: step_ok_def)
qed

lemma ok_mark:
  assumes inv: "winv F w" and mark: "w_marking w t = Some ts"
  shows "step_ok F a w ((with_vs (mark_committed t ts (w_vs w)) w)\<lparr>w_marking := (w_marking w)(t := None)\<rparr>)"
    (is "step_ok F a w ?w")
proof -
  let ?v = "mark_committed t ts (w_vs w)"
  note endt = invD(8) [OF inv mark] and nq = invD(9) [OF inv mark]
  have tm: "w_tm ?w = w_tm w" and vs: "w_vs ?w = ?v" by (simp_all add: with_vs_def)
  have com: "is_committed (w_tm w) t" using endt by (rule ended_committed)
  have owns: "owns ?v x l = owns (w_vs w) x l" for x l by (auto simp: owns_def vs_simps)
  have queue: "e \<in> set (vs_committed ?v) \<Longrightarrow> e \<in> set (vs_committed (w_vs w)) \<or> (\<exists>n. e = (ts, t, n))" for e
    by (auto simp: vs_simps split: list.splits)
  have mv: "table_moves F {} (w_tm w) (w_tm ?w) (has_writes (w_vs w))"
    unfolding tm by (rule table_moves_quiet [OF quiet_refl [OF invD(1) [OF inv]]])
  have hw: "has_writes ?v x" if "has_writes (w_vs w) x" "\<not> is_committed (w_tm w) x" for x
    using has_writes_more(1) [of x t] that com by metis
  have sm: "store_moves F {} (w_tm ?w) (w_vs w) (w_vs ?w) (spent w)"
    unfolding tm vs store_moves_def using hw by (simp add: owns vs_simps)
  have "winv F ?w"
  proof (rule inv_move [OF inv mv sm])
    show "vs_wf (w_vs ?w)" unfolding vs by (rule vs_wf_mark_committed [OF invD(2) [OF inv] nq])
    show "has_writes (w_vs w) x" if "has_writes (w_vs ?w) x" for x using that unfolding vs by (rule has_writes_more(2))
    show "writes_of (w_vs ?w) x = writes_of (w_vs w) x" if "in_flight (w_tm ?w) x" for x
      using that com unfolding vs tm by (auto simp: vs_simps in_flight_def)
    show "ended (w_tm ?w) x s" if "(s, x, n) \<in> set (vs_committed (w_vs ?w))" for s x n
      using queue [of "(s, x, n)"] that invD(7) [OF inv] endt unfolding tm vs by auto
    show "ended (w_tm ?w) x s \<and> \<not> queued_txn (w_vs ?w) x" if "w_marking ?w x = Some s" for x s
    proof -
      have x: "x \<noteq> t" "w_marking w x = Some s" using that by (auto split: if_splits)
      then show ?thesis using invD(8,9) [OF inv x(2)] queue [of "(_, x, _)"] unfolding tm vs queued_txn_def by blast
    qed
    show "ended (w_tm ?w) (tb_txn b) (tb_commit_ts b)" if "b \<in> set (vs_tombstones (w_vs ?w)) \<union> set (w_purging ?w)" for b
      using that invD(10) [OF inv, of b] endt unfolding tm vs
      by (auto simp: vs_simps map_filter_set tombstone_for_def with_vs_def split: option.splits if_splits)
    show "before_readers F (w_tm ?w) (tb_commit_ts b)" if "b \<in> set (w_purging ?w)" for b
      using that invD(11) [OF inv, of b] by (simp add: with_vs_def)
  qed (use invD(16) [OF inv] in \<open>auto simp: with_vs_def owns vs_simps spent_def\<close>)
  then show ?thesis by (rule step_ok_store [OF inv mv sm _ _ _ _, rotated -1]) (simp_all add: with_vs_def)
qed

lemma ended_settled: "ended m t ts \<Longrightarrow> before_readers F m ts \<Longrightarrow> settled F m t"
  by (auto simp: ended_def before_readers_def settled_def)

lemma horizon_before_readers: "winv F w \<Longrightarrow> w_horizon w = Some h \<Longrightarrow> ts < h \<Longrightarrow> before_readers F (w_tm w) ts"
  unfolding before_readers_def by (meson invD(13) less_le_trans)

lemma vacuum_to_simps [simp]:
  "db_tm (snd (vacuum_to h d)) = db_tm d" "db_vs (snd (vacuum_to h d)) = snd (vacuum (Some h) (db_vs d))"
  "db_rows (snd (vacuum_to h d)) = db_rows d" "db_tables (snd (vacuum_to h d)) = db_tables d"
  "fst (vacuum_to h d) = va_tombstones (fst (vacuum (Some h) (db_vs d)))"
  by (simp_all add: vacuum_to_def split_beta)

lemma owns_vacuum: "owns (snd (vacuum h v)) x l \<longleftrightarrow> x \<notin> (fst \<circ> snd) ` set (settled_entries h v) \<and> owns v x l"
  by (auto simp: owns_def vs_simps)

lemma ok_vacuum:
  assumes inv: "winv F w" and h: "w_horizon w = Some h"
  shows "step_ok F a w ((with_db (snd (vacuum_to h (w_db w))) w)\<lparr>w_purging := w_purging w @ fst (vacuum_to h (w_db w))\<rparr>)"
    (is "step_ok F a w ?w")
proof -
  let ?v = "snd (vacuum (Some h) (w_vs w))" and ?d = "(fst \<circ> snd) ` set (settled_entries (Some h) (w_vs w))"
  have w: "w_tm ?w = w_tm w" "w_vs ?w = ?v" "w_rows ?w = w_rows w" "db_tables (w_db ?w) = db_tables (w_db w)"
    "w_pool ?w = w_pool w" "w_marking ?w = w_marking w" "w_horizon ?w = w_horizon w" "spent ?w = spent w"
    "w_purging ?w = w_purging w @ va_tombstones (fst (vacuum (Some h) (w_vs w)))"
    by (simp_all add: with_db_def spent_def)
  have over: "settled F (w_tm w) x \<and> is_committed (w_tm w) x" if d: "x \<in> ?d" for x
  proof -
    obtain ts n where e: "(ts, x, n) \<in> set (vs_committed (w_vs w))" "ts < h"
      using d by (auto simp: settled_entries_def reclaimable_def)
    show ?thesis
      using ended_settled [OF invD(7) [OF inv e(1)] horizon_before_readers [OF inv h e(2)]] ended_committed [OF invD(7) [OF inv e(1)]] by simp
  qed
  have pis: "vs_pre_images ?v l = (if \<exists>x \<in> ?d. owns (w_vs w) x l then None else vs_pre_images (w_vs w) l)" for l
    by (auto simp: vs_simps owns_def)
  have kept: "vs_pre_images ?v l = vs_pre_images (w_vs w) l" if "owns (w_vs w) x l" "x \<notin> ?d" for x l
  proof -
    have "\<not> owns (w_vs w) y l" if "y \<in> ?d" for y
      using vs_wf_owner [OF invD(2) [OF inv] \<open>owns (w_vs w) x l\<close>, of y] \<open>x \<notin> ?d\<close> that by metis
    then show ?thesis unfolding pis by simp
  qed
  have mv: "table_moves F {} (w_tm w) (w_tm ?w) (has_writes (w_vs w))"
    unfolding w by (rule table_moves_quiet [OF quiet_refl [OF invD(1) [OF inv]]])
  have sm: "store_moves F {} (w_tm ?w) (w_vs w) (w_vs ?w) (spent w)"
    unfolding w store_moves_def
  proof (intro conjI allI impI ballI)
    fix x l p assume o: "x \<notin> {} \<and> owns (w_vs w) x l \<and> vs_pre_images (w_vs w) l = Some p"
    show "vs_pre_images ?v l = Some p \<and> owns ?v x l \<or> vs_pre_images ?v l = None \<and> settled F (w_tm w) x"
      using o over [of x] kept [of x l] by (cases "x \<in> ?d") (auto simp: owns_vacuum pis)
  qed (use over in \<open>auto simp: vacuum_has_writes pis\<close>)
  have "winv F ?w"
  proof (rule inv_move [OF inv mv sm], unfold w)
    show "vs_wf ?v" by (rule vs_wf_vacuum [OF invD(2) [OF inv]])
    show "vs_pre_images ?v l = vs_pre_images (w_vs w) l" if "in_flight (w_tm w) x" "owns (w_vs w) x l" for x l
      using kept [OF that(2)] over [of x] that(1) by (auto simp: in_flight_def)
    show "writes_of ?v x = writes_of (w_vs w) x" if "in_flight (w_tm w) x" for x
      using over [of x] that by (auto simp: in_flight_def vs_simps)
    show "ended (w_tm w) x ts \<and> \<not> queued_txn ?v x" if "w_marking w x = Some ts" for x ts
      using invD(8,9) [OF inv that] by (auto simp: queued_txn_def vs_simps)
    show "ended (w_tm w) (tb_txn b) (tb_commit_ts b)"
      if "b \<in> set (vs_tombstones ?v) \<union> set (w_purging w @ va_tombstones (fst (vacuum (Some h) (w_vs w))))" for b
      using that invD(10) [OF inv, of b] by (auto simp: vs_simps)
    show "before_readers F (w_tm w) (tb_commit_ts b)"
      if "b \<in> set (w_purging w @ va_tombstones (fst (vacuum (Some h) (w_vs w))))" for b
      using that invD(11) [OF inv, of b] horizon_before_readers [OF inv h, of "tb_commit_ts b"] by (auto simp: vs_simps reclaimable_def)
    show "ended (w_tm w) x ts" if "(ts, x, n) \<in> set (vs_committed ?v)" for ts x n
      using that invD(7) [OF inv] by (auto simp: vs_simps)
  qed (use invD(16) [OF inv] in \<open>auto simp: vacuum_has_writes pis owns_vacuum split: if_splits\<close>)
  then show ?thesis by (rule step_ok_store [OF inv mv sm _ _ _ _, rotated -1]) (simp_all add: w)
qed

lemma table_moves_weaken: "table_moves F {} m m' wrote \<Longrightarrow> table_moves F X m m' wrote"
  by (auto simp: table_moves_def)

lemma discard_all:
  fixes ts :: "txn_id list"
  defines "all \<equiv> \<lambda>v. fold (\<lambda>t v. snd (discard t v)) ts v"
  shows "vs_pre_images (all v) l = (if \<exists>t \<in> set ts. owns v t l then None else vs_pre_images v l)"
    "writes_of (all v) x = (if x \<in> set ts then [] else writes_of v x)"
    "has_writes (all v) x \<longleftrightarrow> x \<notin> set ts \<and> has_writes v x"
    "vs_committed (all v) = vs_committed v" "vs_tombstones (all v) = vs_tombstones v"
  unfolding all_def by (induction ts arbitrary: v) (auto simp: vs_simps owns_def)

lemma vs_wf_discard_all:
  "vs_wf v \<Longrightarrow> (\<And>t. t \<in> set ts \<Longrightarrow> \<not> queued_txn v t) \<Longrightarrow> vs_wf (fold (\<lambda>t v. snd (discard t v)) ts v)"
  by (induction ts arbitrary: v) (auto simp: vs_wf_discard queued_txn_def vs_simps)

text \<open>Forgetting transactions \<open>X\<close> no row is of any more, and the writes of some of them.\<close>

lemma ok_discard:
  assumes inv: "winv F w" and mv: "table_moves F X (w_tm w) (w_tm w') (has_writes (w_vs w))"
    and sub: "set ts \<subseteq> X" and ts: "\<And>x. x \<in> X \<Longrightarrow> \<not> is_committed (w_tm w) x" "\<And>x k t. x \<in> X \<Longrightarrow> w_rows w k = Some t \<Longrightarrow> t_txn_id t \<noteq> Some x"
      "\<And>x. x \<in> X \<Longrightarrow> \<not> in_flight (w_tm w') x"
    and vs: "w_vs w' = fold (\<lambda>t v. snd (discard t v)) ts (w_vs w)"
    and same: "w_rows w' = w_rows w" "db_tables (w_db w') = db_tables (w_db w)" "w_pool w' = w_pool w"
      "w_marking w' = w_marking w" "w_horizon w' = w_horizon w" "w_purging w' = w_purging w"
  shows "step_ok F a w w'"
proof -
  let ?v = "fold (\<lambda>t v. snd (discard t v)) ts (w_vs w)"
  have owns: "owns ?v x l \<longleftrightarrow> x \<notin> set ts \<and> owns (w_vs w) x l" for x l by (auto simp: owns_def discard_all)
  have kept: "vs_pre_images ?v l = vs_pre_images (w_vs w) l" if "owns (w_vs w) x l" "x \<notin> X" for x l
    using vs_wf_owner [OF invD(2) [OF inv] that(1)] that(2) sub by (auto simp: discard_all)
  have sm: "store_moves F X (w_tm w') (w_vs w) (w_vs w') (spent w)"
    unfolding vs store_moves_def
  proof (intro conjI allI impI ballI)
    fix x l p assume o: "x \<notin> X \<and> owns (w_vs w) x l \<and> vs_pre_images (w_vs w) l = Some p"
    then show "vs_pre_images ?v l = Some p \<and> owns ?v x l \<or> vs_pre_images ?v l = None \<and> settled F (w_tm w') x"
      using kept [of x l] sub by (auto simp: owns)
  qed (use sub in \<open>auto simp: discard_all(1,3)\<close>)
  have sp: "spent w \<subseteq> spent w'" using table_movesD(2) [OF mv] by (auto simp: spent_def same)
  note endd = table_moves_ended [OF mv _ ts(1)]
  have "winv F w'"
  proof (rule inv_move [OF inv mv sm ts same(1,2)], unfold vs same)
    show "vs_wf ?v" by (rule vs_wf_discard_all [OF invD(2) [OF inv] not_queued [OF inv ts(1) [OF subsetD [OF sub]]]])
    show "vs_pre_images ?v l = vs_pre_images (w_vs w) l" if "x \<notin> X" "owns (w_vs w) x l" for x l
      using kept that by blast
    show "l < counter_of (w_tm w')" if "l \<in> w_pool w" for l
      using invD(16) [OF inv that] table_movesD(2) [OF mv] by simp
    show "ended (w_tm w') x s \<and> \<not> queued_txn ?v x" if "w_marking w x = Some s" for x s
      using endd [OF invD(8) [OF inv that]] invD(9) [OF inv that] by (simp add: queued_txn_def discard_all)
    show "ended (w_tm w') x s" if "(s, x, n) \<in> set (vs_committed ?v)" for x s n
      using endd [OF invD(7) [OF inv]] that by (simp add: discard_all)
    show "ended (w_tm w') (tb_txn b) (tb_commit_ts b)" if "b \<in> set (vs_tombstones ?v) \<union> set (w_purging w)" for b
      using endd [OF invD(10) [OF inv]] that by (simp add: discard_all)
    show "before_readers F (w_tm w') (tb_commit_ts b)" if "b \<in> set (w_purging w)" for b
      using table_moves_before [OF mv invD(11) [OF inv that]] invD(10) [OF inv, of b] that by (simp add: ended_def)
  qed (use sp sub in \<open>auto simp: discard_all owns split: if_splits\<close>)
  then show ?thesis by (intro step_ok_store [OF inv mv sm _ _ same(1,2)] ts(1,2))
qed

lemma prune_aborted:
  assumes "tm_wf m" "t \<in> set (fst (prune_committed m))"
  shows "\<exists>at. state_of m t = Some (Aborted at)" "state_of (snd (prune_committed m)) t = None"
proof -
  let ?h = "bt_find is_active_state (tm_states m)"
  obtain s where s: "(t, s) \<in> set (tm_states m)" "case s of Aborted _ \<Rightarrow> \<not> prune_keeps ?h s | _ \<Rightarrow> False"
    using assms(2) by (auto simp: prune_committed_def Let_def)
  then have st: "state_of m t = Some s" using tm_wfD(1) [OF assms(1)] by (simp add: state_of_def bt_get_mem)
  with s show "\<exists>at. state_of m t = Some (Aborted at)" by (cases s) auto
  from st s show "state_of (snd (prune_committed m)) t = None" by (cases s) (auto simp: prune_state_of [OF assms(1)])
qed

lemma ok_prune:
  assumes inv: "winv F w"
  shows "step_ok F a w (with_db (prune_and_discard (w_db w)) w)"
proof (rule ok_discard [OF inv, where ts = "fst (prune_committed (w_tm w))" and X = "set (fst (prune_committed (w_tm w)))"])
  let ?w = "with_db (prune_and_discard (w_db w)) w" and ?m = "snd (prune_committed (w_tm w))"
  have m: "w_tm ?w = ?m" by (simp add: prune_and_discard_def split_beta)
  note ab = prune_aborted [OF invD(1) [OF inv]]
  show "table_moves F (set (fst (prune_committed (w_tm w)))) (w_tm w) (w_tm ?w) (has_writes (w_vs w))"
    unfolding m by (rule table_moves_weaken [OF moves_prune [OF invD(1) [OF inv] wrote_began [OF inv]]])
  fix x assume x: "x \<in> set (fst (prune_committed (w_tm w)))"
  show "\<not> is_committed (w_tm w) x" using ab(1) [OF x] by (auto simp: is_committed_def)
  show "t_txn_id t \<noteq> Some x" if "w_rows w k = Some t" for k t
    using chain_writer [OF invD(4) [OF inv that]] ab(1) [OF x] by (auto simp: writer_ok_def)
  show "\<not> in_flight (w_tm ?w) x" using ab(2) [OF x] unfolding m by (simp add: in_flight_def is_committed_def)
qed (simp_all add: prune_and_discard_def split_beta)

end
