(* ===== verification/Mvcc_Writes.thy ===== *)
theory Mvcc_Writes
  imports Mvcc_Steps
begin

text \<open>
  The steps that write rows: inserting, updating and removing one, reverting those of an aborted
  transaction, and purging a tombstone.
\<close>

section \<open>Recording a version\<close>

lemma made_by_append:
  "n \<le> length ws \<Longrightarrow> made_by v (ws @ [e]) n k row = made_by v ws n k row"
  by (auto simp: made_by_def nth_append)

lemma made_by_last:
  assumes "(made_by v ws (length ws) k row \<and> idle v e k row) \<or> makes v e k row"
  shows "made_by v (ws @ [e]) (Suc (length ws)) k row"
  using assms
proof
  assume "made_by v ws (length ws) k row \<and> idle v e k row"
  then obtain j where "j < length ws" "makes v (ws ! j) k row" "\<forall>j'. j < j' \<and> j' < length ws \<longrightarrow> idle v (ws ! j') k row" "idle v e k row"
    by (auto simp: made_by_def)
  then show ?thesis unfolding made_by_def by (intro exI [of _ j]) (auto simp: nth_append less_Suc_eq)
next
  assume "makes v e k row"
  then show ?thesis unfolding made_by_def by (intro exI [of _ "length ws"]) (auto simp: nth_append)
qed

lemma undo_ok_log:
  assumes old: "undo_ok v rows t" and ws: "writes_of v' t = writes_of v t @ [e]"
    and pis: "\<And>l. owns v t l \<Longrightarrow> vs_pre_images v' l = vs_pre_images v l"
    and rows: "\<And>k row. rows' k = Some row \<Longrightarrow> t_txn_id row = Some t \<Longrightarrow> (rows k = Some row \<and> idle v' e k row) \<or> makes v' e k row"
    and e: "\<And>l. e = Replaced l \<Longrightarrow> \<exists>p. vs_pre_images v' l = Some p
      \<and> (t_txn_id (pi_tuple p) = Some t \<longrightarrow> rows (pre_key p) = Some (pi_tuple p))"
  shows "undo_ok v' rows' t"
proof -
  let ?ws = "writes_of v t"
  have cong: "made_by v' ?ws n k row = made_by v ?ws n k row" if "n \<le> length ?ws" for n k row
    using made_by_cong [of ?ws v' v n] pis that by (auto simp: owns_def)
  have was: "made_by v' ?ws (length ?ws) k row" if "rows k = Some row" "t_txn_id row = Some t" for k row
    using old that unfolding undo_ok_def cong [OF order_refl] by blast
  have "made_by v' (?ws @ [e]) (Suc (length ?ws)) k row" if "rows' k = Some row" "t_txn_id row = Some t" for k row
    by (rule made_by_last) (use rows [OF that] was that in blast)
  moreover have "\<exists>p. vs_pre_images v' l = Some p
      \<and> (t_txn_id (pi_tuple p) = Some t \<longrightarrow> made_by v' (?ws @ [e]) i (pre_key p) (pi_tuple p))"
    if i: "i < Suc (length ?ws)" "(?ws @ [e]) ! i = Replaced l" for i l
  proof (cases "i = length ?ws")
    case True
    then obtain p where "vs_pre_images v' l = Some p" "t_txn_id (pi_tuple p) = Some t \<longrightarrow> rows (pre_key p) = Some (pi_tuple p)"
      using e [of l] i by auto
    with was show ?thesis by (auto simp: True made_by_append)
  next
    case False
    with i have l: "i < length ?ws" "?ws ! i = Replaced l" by (auto simp: nth_append)
    then have "owns v t l" by (metis nth_mem owns_def)
    with l old pis show ?thesis by (auto simp: undo_ok_def made_by_append cong)
  qed
  ultimately show ?thesis unfolding undo_ok_def ws by simp
qed

text \<open>
  A write of \<open>t\<close> under the key \<open>k\<close>, with the number \<open>l\<close>: what is recorded, and the version written.
\<close>

definition recorded :: "txn_id \<Rightarrow> lsn \<Rightarrow> row_key \<Rightarrow> dbid \<Rightarrow> bool \<Rightarrow> tuple option \<Rightarrow> version_store \<Rightarrow> version_store" where
  "recorded t l k i del cur v =
     (case cur of
        None \<Rightarrow> log_write t (Inserted (fst k) i) v
      | Some c \<Rightarrow> log_write t (Replaced l) (keep_pre_image l (fst k) c del v))"

definition version_of :: "txn_id \<Rightarrow> lsn \<Rightarrow> row_key \<Rightarrow> tuple option \<Rightarrow> tuple \<Rightarrow> bool" where
  "version_of t l k cur new = (t_txn_id new = Some t \<and> encode (t_id new) [] = snd k \<and> t_pre_lsn new = map_option (\<lambda>_. l) cur)"

text \<open>A row \<open>t\<close> may write over: one of its own, or a committed one.\<close>

definition free_for :: "txn_mgr \<Rightarrow> txn_id \<Rightarrow> tuple option \<Rightarrow> bool" where
  "free_for m t cur = (\<forall>c. cur = Some c \<longrightarrow> (\<exists>x. t_txn_id c = Some x \<and> (x = t \<or> is_committed m x)))"

lemma recorded_simps:
  "vs_committed (recorded t l k i del cur v) = vs_committed v" "vs_tombstones (recorded t l k i del cur v) = vs_tombstones v"
  "has_writes (recorded t l k i del cur v) x \<longleftrightarrow> x = t \<or> has_writes v x"
  "writes_of (recorded t l k i del cur v) x =
     (if x = t then writes_of v x @ [if cur = None then Inserted (fst k) i else Replaced l] else writes_of v x)"
  "l' \<noteq> l \<Longrightarrow> vs_pre_images (recorded t l k i del cur v) l' = vs_pre_images v l'"
  "vs_pre_images (recorded t l k i del (Some c) v) l = Some \<lparr>pi_table = fst k, pi_tuple = c, pi_deleted = del\<rparr>"
  by (auto simp: recorded_def vs_simps split: option.split)

lemma recorded_owns:
  "owns (recorded t l k i del cur v) x l' \<longleftrightarrow> owns v x l' \<or> (x = t \<and> cur \<noteq> None \<and> l' = l)"
  by (auto simp: owns_def recorded_simps)

text \<open>The invariant after a write, whether or not the row was put in place.\<close>

lemma seen_by_active: "is_transaction_active m t \<Longrightarrow> r \<noteq> t \<Longrightarrow> seen_by m r t = Some False"
  by (auto simp: seen_by_def visible_now_def active_iff)

lemma active_in_flight: "is_transaction_active m t \<Longrightarrow> in_flight m t"
  by (auto simp: in_flight_def is_committed_def active_iff)

lemma unspent:
  assumes inv: "winv F w" and "l \<in> w_pool w"
  shows "fresh_lsn (w_vs w) l" "l \<notin> spent w"
proof -
  show "l \<notin> spent w" using assms(2) by (simp add: spent_def)
  then show "fresh_lsn (w_vs w) l" using invD(14,15) [OF inv] by (fastforce simp: fresh_lsn_def)
qed

definition writes :: "txn_id \<Rightarrow> lsn \<Rightarrow> row_key \<Rightarrow> dbid \<Rightarrow> world \<Rightarrow> world \<Rightarrow> bool" where
  "writes t l k i w w' = (
     w_tm w' = w_tm w \<and> db_tables (w_db w') = db_tables (w_db w) \<and> w_pool w' = w_pool w - {l} \<and> w_marking w' = w_marking w
     \<and> w_horizon w' = w_horizon w \<and> w_purging w' = w_purging w \<and> row_key (fst k) i = k \<and> db_tables (w_db w) (fst k) \<noteq> None
     \<and> free_for (w_tm w) t (w_rows w k) \<and> (\<exists>del. w_vs w' = recorded t l k i del (w_rows w k) (w_vs w))
     \<and> (w_rows w' = w_rows w \<or> (\<exists>new. w_rows w' = (w_rows w)(k \<mapsto> new) \<and> version_of t l k (w_rows w k) new)))"

lemma writesD:
  assumes "writes t l k i w w'"
  shows "w_tm w' = w_tm w" "db_tables (w_db w') = db_tables (w_db w)" "w_pool w' = w_pool w - {l}" "w_marking w' = w_marking w"
    "w_horizon w' = w_horizon w" "w_purging w' = w_purging w" "row_key (fst k) i = k" "db_tables (w_db w) (fst k) \<noteq> None"
    "free_for (w_tm w) t (w_rows w k)" "\<exists>del. w_vs w' = recorded t l k i del (w_rows w k) (w_vs w)"
    "w_rows w' = w_rows w \<or> (\<exists>new. w_rows w' = (w_rows w)(k \<mapsto> new) \<and> version_of t l k (w_rows w k) new)"
  using assms by (simp_all add: writes_def)

lemma writes_moves:
  assumes inv: "winv F w" and l: "l \<in> w_pool w" and wr: "writes t l k i w w'"
  shows "table_moves F {} (w_tm w) (w_tm w') (has_writes (w_vs w))"
    "store_moves F {} (w_tm w') (w_vs w) (w_vs w') (spent w)" "spent w \<subseteq> spent w'" "l \<in> spent w'"
    "owns (w_vs w) x l' \<Longrightarrow> vs_pre_images (w_vs w') l' = vs_pre_images (w_vs w) l'"
proof -
  obtain del where v': "w_vs w' = recorded t l k i del (w_rows w k) (w_vs w)" using writesD(10) [OF wr] by blast
  show "table_moves F {} (w_tm w) (w_tm w') (has_writes (w_vs w))"
    unfolding writesD(1) [OF wr] by (rule table_moves_quiet [OF quiet_refl [OF invD(1) [OF inv]]])
  have ne: "l' \<noteq> l" if "l' \<in> spent w" for l' using unspent(2) [OF inv l] that by blast
  show kept: "vs_pre_images (w_vs w') l' = vs_pre_images (w_vs w) l'" if "owns (w_vs w) x l'" for x l'
    unfolding v' using ne [OF invD(15) [OF inv that]] by (rule recorded_simps(5))
  show "store_moves F {} (w_tm w') (w_vs w) (w_vs w') (spent w)"
    unfolding store_moves_def using kept recorded_simps(5) [OF ne] by (auto simp: v' recorded_owns recorded_simps(3))
  show "spent w \<subseteq> spent w'" "l \<in> spent w'" using invD(16) [OF inv l] by (auto simp: spent_def writesD(1,3) [OF wr])
qed

lemma writes_chain:
  assumes inv: "winv F w" and l: "l \<in> w_pool w" and act: "is_transaction_active (w_tm w) t" and wr: "writes t l k i w w'"
    and new: "version_of t l k (w_rows w k) new"
  shows "chain F (w_tm w') (w_vs w') (spent w') k new"
proof -
  obtain del where v': "w_vs w' = recorded t l k i del (w_rows w k) (w_vs w)" using writesD(10) [OF wr] by blast
  note mv = writes_moves [OF inv l wr]
  have ok: "writer_ok F (w_tm w') (w_vs w') t"
    using active_began [OF invD(1) [OF inv] act] invD(17) [OF inv active_in_flight [OF act]] active_in_flight [OF act]
    by (simp add: writer_ok_def writesD(1) [OF wr] v' recorded_simps in_flight_def)
  show ?thesis
  proof (cases "w_rows w k")
    case None
    with new ok show ?thesis by (auto simp: version_of_def intro: chain_end)
  next
    case (Some c)
    note ch = invD(4) [OF inv Some]
    obtain x where x: "t_txn_id c = Some x" "x = t \<or> is_committed (w_tm w) x"
      using writesD(9) [OF wr] Some by (auto simp: free_for_def)
    have "chain F (w_tm w') (w_vs w') (spent w') k c" using chain_carry [OF ch x(1) _ _ mv(1,2,3)] by simp
    moreover have "vs_pre_images (w_vs w') l = Some \<lparr>pi_table = fst k, pi_tuple = c, pi_deleted = del\<rparr>"
      unfolding v' Some by (rule recorded_simps(6))
    moreover have "owns (w_vs w') t l" by (simp add: v' Some recorded_owns)
    ultimately show ?thesis
      using new ok mv(4) x writesD(1) [OF wr] Some by (auto simp: version_of_def intro: chain_link)
  qed
qed

lemma row_pre_key:
  assumes "winv F w" "w_rows w k = Some c"
  shows "pre_key \<lparr>pi_table = fst k, pi_tuple = c, pi_deleted = del\<rparr> = k"
  using chain_key [OF invD(4) [OF assms]] by (simp add: pre_key_def row_key_def)

lemma writes_undo:
  assumes inv: "winv F w" and l: "l \<in> w_pool w" and act: "is_transaction_active (w_tm w) t" and wr: "writes t l k i w w'"
    and x: "in_flight (w_tm w) x"
  shows "undo_ok (w_vs w') (w_rows w') x"
proof -
  obtain del where v': "w_vs w' = recorded t l k i del (w_rows w k) (w_vs w)" using writesD(10) [OF wr] by blast
  note kept = writes_moves(5) [OF inv l wr]
  have rows: "w_rows w j = Some row \<or> (x = t \<and> j = k \<and> version_of t l k (w_rows w k) row)"
    if "w_rows w' j = Some row" "t_txn_id row = Some x" for j row
    using writesD(11) [OF wr] that by (auto simp: version_of_def split: if_splits)
  show ?thesis
  proof (cases "x = t")
    case False
    show ?thesis
      by (rule undo_ok_cong [OF _ kept _ invD(6) [OF inv x]]) (use rows False in \<open>auto simp: v' recorded_simps\<close>)
  next
    case True
    let ?e = "if w_rows w k = None then Inserted (fst k) i else Replaced l"
    have img: "w_rows w k = Some c \<Longrightarrow> vs_pre_images (w_vs w') l = Some \<lparr>pi_table = fst k, pi_tuple = c, pi_deleted = del\<rparr>" for c
      by (simp add: v' recorded_simps)
    have idle: "idle (w_vs w') ?e j row" if "w_rows w j = Some row" for j row
    proof (cases "w_rows w k")
      case None
      then show ?thesis using writesD(7) [OF wr] that by auto
    next
      case (Some c)
      then show ?thesis using that img [OF Some] row_pre_key [OF inv Some, of del] by auto
    qed
    have makes: "makes (w_vs w') ?e k row" if "version_of t l k (w_rows w k) row" for row
    proof (cases "w_rows w k")
      case None
      then show ?thesis using writesD(7) [OF wr] that by (auto simp: version_of_def)
    next
      case (Some c)
      then show ?thesis using that img [OF Some] row_pre_key [OF inv Some, of del] by (auto simp: version_of_def)
    qed
    have e: "\<exists>p. vs_pre_images (w_vs w') l' = Some p \<and> w_rows w (pre_key p) = Some (pi_tuple p)" if "?e = Replaced l'" for l'
    proof -
      obtain c where c: "w_rows w k = Some c" "l' = l" using \<open>?e = Replaced l'\<close> by (cases "w_rows w k") auto
      then show ?thesis using img [OF c(1)] row_pre_key [OF inv c(1), of del] by simp
    qed
    show ?thesis
    proof (rule undo_ok_log [OF invD(6) [OF inv x] _ kept])
      show "writes_of (w_vs w') x = writes_of (w_vs w) x @ [?e]" unfolding v' recorded_simps True by simp
      show "w_rows w j = Some row \<and> idle (w_vs w') ?e j row \<or> makes (w_vs w') ?e j row"
        if "w_rows w' j = Some row" "t_txn_id row = Some x" for j row
        using rows [OF that] idle [of j row] makes [of row] by blast
    qed (assumption, drule e, blast)
  qed
qed

lemma inv_writes:
  assumes inv: "winv F w" and l: "l \<in> w_pool w" and act: "is_transaction_active (w_tm w) t" and wr: "writes t l k i w w'"
  shows "winv F w'"
proof -
  obtain del where v': "w_vs w' = recorded t l k i del (w_rows w k) (w_vs w)" using writesD(10) [OF wr] by blast
  note mv = writes_moves [OF inv l wr] and same = writesD(1,2,4,5,6) [OF wr]
  have nq: "\<not> queued_txn (w_vs w) t"
    using not_queued [OF inv] active_in_flight [OF act] by (simp add: in_flight_def)
  have rows: "w_rows w j = Some row \<or> (j = k \<and> version_of t l k (w_rows w k) row)" if "w_rows w' j = Some row" for j row
    using writesD(11) [OF wr] that by (auto split: if_splits)
  show ?thesis
  proof (rule invI, unfold same)
    show "vs_wf (w_vs w')"
      unfolding v' recorded_def using vs_wf_log_insert [OF invD(2) [OF inv] nq] vs_wf_log_replace [OF invD(2) [OF inv] nq unspent(1) [OF inv l]]
      by (simp split: option.split)
    show "db_tables (w_db w) (fst j) \<noteq> None" if "w_rows w' j = Some row" for j row
      using rows [OF that] invD(3) [OF inv] writesD(8) [OF wr] by blast
    show "chain F (w_tm w) (w_vs w') (spent w') j row" if j: "w_rows w' j = Some row" for j row
    proof (cases "w_rows w j = Some row")
      case True
      note ch = invD(4) [OF inv True]
      obtain x where "t_txn_id row = Some x" using chain_head [OF ch] by blast
      from chain_carry [OF ch this _ _ mv(1,2,3)] show ?thesis by (simp add: same)
    next
      case False
      then show ?thesis using rows [OF j] writes_chain [OF inv l act wr] by (auto simp: same)
    qed
    show "tm_arcs (w_tm w) x \<noteq> None" if "has_writes (w_vs w') x" for x
      using that invD(5) [OF inv] active_began [OF invD(1) [OF inv] act] by (auto simp: v' recorded_simps)
    show "undo_ok (w_vs w') (w_rows w') x" if "in_flight (w_tm w) x" for x by (rule writes_undo [OF inv l act wr that])
    show "l' \<in> spent w'" if "vs_pre_images (w_vs w') l' \<noteq> None" for l'
      using that invD(14) [OF inv] recorded_simps(5) [of l' l] mv(3,4) unfolding v' by (cases "l' = l") auto
    show "l' \<in> spent w'" if "owns (w_vs w') x l'" for x l'
      using that invD(15) [OF inv] mv(3,4) by (auto simp: v' recorded_owns)
    show "ended (w_tm w) x ts \<and> \<not> queued_txn (w_vs w') x" if "w_marking w x = Some ts" for x ts
      using invD(8,9) [OF inv that] by (simp add: queued_txn_def v' recorded_simps)
    show "ended (w_tm w) x ts" if "(ts, x, n) \<in> set (vs_committed (w_vs w'))" for ts x n
      using invD(7) [OF inv] that by (simp add: v' recorded_simps)
    show "ended (w_tm w) (tb_txn b) (tb_commit_ts b)" if "b \<in> set (vs_tombstones (w_vs w')) \<union> set (w_purging w)" for b
      using invD(10) [OF inv] that by (simp add: v' recorded_simps)
    show "l' < counter_of (w_tm w)" if "l' \<in> w_pool w'" for l' using invD(16) [OF inv] that writesD(3) [OF wr] by simp
  qed (fact invD(1,11,12,13,17) [OF inv])+
qed

lemma ok_writes:
  assumes inv: "winv F w" and l: "l \<in> w_pool w" and act: "is_transaction_active (w_tm w) t" and wr: "writes t l k i w w'"
  shows "step_ok F (Some t) w w'"
proof -
  note mv = writes_moves [OF inv l wr]
  have "view w' r j = Some x"
    if r: "is_transaction_active (w_tm w) r" "is_transaction_active (w_tm w') r" "r \<notin> F" and ne: "r \<noteq> t" and view: "view w r j = Some x"
    for r j x
  proof (cases "w_rows w' j = w_rows w j")
    case True
    then show ?thesis by (intro view_move [OF inv mv(1,2) _ _ _ r view]) simp_all
  next
    case False
    then obtain new where new: "j = k" "w_rows w' k = Some new" "version_of t l k (w_rows w k) new"
      using writesD(11) [OF wr] by (auto split: if_splits)
    have unseen: "seen_by (w_tm w') r t = Some False" using seen_by_active [OF act ne] by (simp add: writesD(1) [OF wr])
    show ?thesis
    proof (cases "w_rows w k")
      case None
      then have "look (seen_by (w_tm w') r) (w_vs w') new = Some (Inr None)"
        using new(3) unseen by (intro look_end [of new t]) (simp_all add: version_of_def)
      then show ?thesis using view new None by (simp add: view_def look_row_def)
    next
      case (Some c)
      obtain y where y: "t_txn_id c = Some y" using chain_head [OF invD(4) [OF inv Some]] by blast
      have "look (seen_by (w_tm w) r) (w_vs w) c = Some x" using view Some new(1) by (simp add: view_def look_row_def)
      then have "look (seen_by (w_tm w') r) (w_vs w') c = Some x"
        using look_carry [OF invD(4) [OF inv Some] y _ _ mv(1,2) r] by simp
      moreover obtain del where "w_vs w' = recorded t l k i del (w_rows w k) (w_vs w)" using writesD(10) [OF wr] by blast
      then have "vs_pre_images (w_vs w') l = Some \<lparr>pi_table = fst k, pi_tuple = c, pi_deleted = del\<rparr>" by (simp add: Some recorded_simps)
      ultimately show ?thesis
        using look_link [of new t "seen_by (w_tm w') r" l "w_vs w'"] unseen new y Some by (simp add: view_def look_row_def version_of_def)
    qed
  qed
  then show ?thesis using inv_writes [OF assms] goes_on_refl [OF writesD(1,2) [OF wr]] by (auto simp: step_ok_def)
qed

section \<open>The three writes\<close>

lemma ok_unwritten:
  assumes inv: "winv F w" and "l \<in> w_pool w"
  shows "step_ok F a w (w\<lparr>w_pool := w_pool w - {l}\<rparr>)"
  by (rule step_ok_tm [OF inv]) (use table_moves_quiet [OF quiet_refl [OF invD(1) [OF inv]]] invD(16) [OF inv] in \<open>auto simp: spent_def\<close>)

lemma not_conflicts: "\<not> conflicts m x t \<Longrightarrow> x = t \<or> is_committed m x"
  by (auto simp: conflicts_def is_committed_def split: if_splits option.splits txn_state.splits)

lemma no_write_conflict: "check_write_conflict c t d = Inr () \<Longrightarrow> free_for (db_tm d) t (Some c)"
  by (auto simp: check_write_conflict_def free_for_def split: option.splits if_splits dest: not_conflicts)

text \<open>An update or delete builds on the row itself.\<close>

lemma base_version_current:
  assumes "base_version t i cur d = Some (Inr old)"
  shows "cur = Some old" "free_for (db_tm d) t cur" "\<not> tuple_is_tombstoned old"
proof -
  obtain c where c: "cur = Some c" "check_write_conflict c t d = Inr ()"
    using assms by (auto simp: base_version_def split: option.splits sum.splits)
  note free = no_write_conflict [OF c(2)]
  have "find_last_committed c d = Some (Inr (Some c))" if "t_txn_id c \<noteq> Some t"
    using free that by (auto simp: free_for_def find_last_committed_def walk_back_def)
  then have "base_version t i cur d = Some (if tuple_is_tombstoned c then Inl (KeyNotFound i) else Inr c)"
    unfolding base_version_def c option.case sum.case unit.case by (cases "t_txn_id c = Some t") simp_all
  then show "cur = Some old" "\<not> tuple_is_tombstoned old" using assms c(1) by (simp_all split: if_splits)
  show "free_for (db_tm d) t cur" using free c(1) by simp
qed

definition db_writes :: "txn_id \<Rightarrow> lsn \<Rightarrow> row_key \<Rightarrow> dbid \<Rightarrow> db \<Rightarrow> db \<Rightarrow> bool" where
  "db_writes t l k i d d' = (db_tm d' = db_tm d \<and> db_tables d' = db_tables d \<and> free_for (db_tm d) t (db_rows d k)
     \<and> (\<exists>del. db_vs d' = recorded t l k i del (db_rows d k) (db_vs d))
     \<and> (db_rows d' = db_rows d \<or> (\<exists>new. db_rows d' = (db_rows d)(k \<mapsto> new) \<and> version_of t l k (db_rows d k) new)))"

lemma ok_db_writes:
  assumes inv: "winv F w" and l: "l \<in> w_pool w" and act: "is_transaction_active (w_tm w) t" and tab: "db_tables (w_db w) tid \<noteq> None"
    and d': "d' = w_db w \<or> db_writes t l (row_key tid i) i (w_db w) d'"
  shows "step_ok F (Some t) w ((with_db d' w)\<lparr>w_pool := w_pool w - {l}\<rparr>)"
  using d'
proof
  assume "d' = w_db w"
  then have "(with_db d' w)\<lparr>w_pool := w_pool w - {l}\<rparr> = w\<lparr>w_pool := w_pool w - {l}\<rparr>" by (simp add: with_db_def)
  then show ?thesis using ok_unwritten [OF inv l] by simp
next
  assume d': "db_writes t l (row_key tid i) i (w_db w) d'"
  have "writes t l (row_key tid i) i w ((with_db d' w)\<lparr>w_pool := w_pool w - {l}\<rparr>)"
    using d' tab unfolding writes_def db_writes_def by (simp add: with_db_def row_key_def)
  then show ?thesis by (rule ok_writes [OF inv l act])
qed

lemma tuple_edits [simp]:
  "t_id (set_data x c) = t_id c" "t_id (set_pre_lsn n c) = t_id c" "t_id (set_txn_id t c) = t_id c" "t_id (clear_tombstone c) = t_id c"
  "t_id (tombstone c) = t_id c" "t_id (set_pre_lsn_none c) = t_id c"
  "t_txn_id (set_data x c) = t_txn_id c" "t_txn_id (set_pre_lsn n c) = t_txn_id c" "t_txn_id (set_txn_id t c) = Some t"
  "t_txn_id (clear_tombstone c) = t_txn_id c" "t_txn_id (tombstone c) = t_txn_id c" "t_txn_id (set_pre_lsn_none c) = t_txn_id c"
  "t_pre_lsn (set_data x c) = t_pre_lsn c" "t_pre_lsn (set_pre_lsn n c) = Some n" "t_pre_lsn (clear_tombstone c) = t_pre_lsn c"
  "t_pre_lsn (tombstone c) = t_pre_lsn c" "t_pre_lsn (set_pre_lsn_none c) = None"
  by (simp_all add: set_data_def set_pre_lsn_def set_txn_id_def clear_tombstone_def tombstone_def set_pre_lsn_none_def)

lemma write_recorded:
  assumes "decide (db_rows d (row_key tid i)) d = record_and_log l op log_err dec d"
    and "dec = Insert new \<and> db_rows d (row_key tid i) = None \<or> dec = Replace new \<and> db_rows d (row_key tid i) \<noteq> None"
    and d': "d' = snd (write_version tid i tree_err decide d)"
  shows "db_tm d' = db_tm d" "db_tables d' = db_tables d" "db_vs d' = vs_insert l op (db_vs d)"
    "db_rows d' = db_rows d \<or> db_rows d' = (db_rows d)(row_key tid i \<mapsto> new)"
  using assms(1,2) unfolding d' write_version_def
  by (cases log_err; cases tree_err; auto simp: record_and_log_def Let_def)+

lemma write_refused: "decide (db_rows d (row_key tid i)) d = (Inl e, d) \<Longrightarrow> snd (write_version tid i tree_err decide d) = d"
  by (simp add: write_version_def)

lemma db_writesI:
  assumes "decide (db_rows d (row_key tid i)) d = record_and_log l op log_err dec d"
    and "dec = Insert new \<and> db_rows d (row_key tid i) = None \<or> dec = Replace new \<and> db_rows d (row_key tid i) \<noteq> None"
    and "free_for (db_tm d) t (db_rows d (row_key tid i))" "version_of t l (row_key tid i) (db_rows d (row_key tid i)) new"
    and "vs_insert l op (db_vs d) = recorded t l (row_key tid i) i del (db_rows d (row_key tid i)) (db_vs d)"
  shows "db_writes t l (row_key tid i) i d (snd (write_version tid i tree_err decide d))"
  using write_recorded [where decide = decide and tree_err = tree_err, OF assms(1,2) refl] assms(3,4,5)
  unfolding db_writes_def by (metis (no_types))

lemma insert_writes:
  assumes tup: "t_txn_id tup = Some t" "t_pre_lsn tup = None"
    and key: "\<And>c. db_rows d (row_key tid (t_id tup)) = Some c \<Longrightarrow> encode (t_id c) [] = encode (t_id tup) []"
    and d': "d' = snd (write_version tid (t_id tup) tree_err (insert_decision tid tup t l log_err) d)"
  shows "d' = d \<or> db_writes t l (row_key tid (t_id tup)) (t_id tup) d d'"
proof (cases "db_rows d (row_key tid (t_id tup))")
  case None
  then have "db_writes t l (row_key tid (t_id tup)) (t_id tup) d d'"
    unfolding d' using tup
    by (intro db_writesI [where new = tup]) (auto simp: insert_decision_def new_record_def recorded_def free_for_def version_of_def row_key_def)
  then show ?thesis by simp
next
  case (Some c)
  let ?new = "clear_tombstone (set_data (t_data tup) (set_pre_lsn l (set_txn_id t c)))"
  show ?thesis
  proof (cases "tuple_is_tombstoned c \<and> check_write_conflict c t d = Inr ()")
    case True
    then have "insert_decision tid tup t l log_err (Some c) d =
        record_and_log l (Mod t (new_record tid c) (new_record tid ?new)) log_err (Replace ?new) d"
      unfolding insert_decision_def option.case by (elim conjE) (simp only: if_True sum.case unit.case Let_def)
    then have "db_writes t l (row_key tid (t_id tup)) (t_id tup) d d'"
      unfolding d' using True no_write_conflict [of c t d] key [OF Some] Some
      by (intro db_writesI [where new = ?new and del = False and dec = "Replace ?new"
            and op = "Mod t (new_record tid c) (new_record tid ?new)" and log_err = log_err])
        (simp_all add: new_record_def recorded_def version_of_def row_key_def)
    then show ?thesis by simp
  next
    case False
    then have "\<exists>e. insert_decision tid tup t l log_err (Some c) d = (Inl e, d)"
      by (cases "check_write_conflict c t d") (auto simp: insert_decision_def)
    then show ?thesis using write_refused [of "insert_decision tid tup t l log_err" d] Some unfolding d' by fastforce
  qed
qed

lemma base_writes:
  assumes base: "base_version t i (db_rows d (row_key tid i)) d = Some base"
    and key: "\<And>c. db_rows d (row_key tid i) = Some c \<Longrightarrow> encode (t_id c) [] = encode i []"
    and dec: "\<And>old. base = Inr old \<Longrightarrow> \<exists>op new. dec d = record_and_log l op log_err (Replace new) d
      \<and> (\<exists>post. op = Mod t (new_record tid old) post \<or> op = Del t (new_record tid old))
      \<and> t_txn_id new = Some t \<and> t_id new = t_id old \<and> t_pre_lsn new = Some l"
    and err: "\<And>e. base = Inl e \<Longrightarrow> dec d = (Inl e, d)"
    and d': "d' = snd (write_version tid i tree_err (\<lambda>_. dec) d)"
  shows "d' = d \<or> db_writes t l (row_key tid i) i d d'"
proof (cases base)
  case (Inl e)
  then show ?thesis using err [OF Inl] write_refused [of "\<lambda>_. dec"] by (simp add: d')
next
  case (Inr old)
  note cur = base_version_current [OF base [unfolded Inr]]
  obtain op new post where dec': "dec d = record_and_log l op log_err (Replace new) d"
    "op = Mod t (new_record tid old) post \<or> op = Del t (new_record tid old)"
    "t_txn_id new = Some t" "t_id new = t_id old" "t_pre_lsn new = Some l" using dec [OF Inr] by blast
  have "\<exists>del. vs_insert l op (db_vs d) = recorded t l (row_key tid i) i del (Some old) (db_vs d)"
    using dec'(2) by (auto simp: new_record_def recorded_def row_key_def)
  then obtain del where v: "vs_insert l op (db_vs d) = recorded t l (row_key tid i) i del (Some old) (db_vs d)" by blast
  have "db_writes t l (row_key tid i) i d d'"
    unfolding d' by (rule db_writesI [where new = new and decide = "\<lambda>_. dec", OF dec'(1)])
      (use cur dec' key [OF cur(1)] v in \<open>simp_all add: version_of_def row_key_def\<close>)
  then show ?thesis by simp
qed

lemma row_id:
  assumes "winv F w" "w_rows w (row_key tid i) = Some c"
  shows "encode (t_id c) [] = encode i []"
  using chain_key [OF invD(4) [OF assms]] by (simp add: row_key_def)

lemma ok_insert:
  assumes inv: "winv F w" and "l \<in> w_pool w" "is_transaction_active (w_tm w) t" "db_tables (w_db w) tid \<noteq> None" "tup = stamped t tuple"
  shows "step_ok F (Some t) w
    ((with_db (snd (write_version tid (t_id tup) tree_err (insert_decision tid tup t l log_err) (w_db w))) w)\<lparr>w_pool := w_pool w - {l}\<rparr>)"
  by (rule ok_db_writes [OF inv assms(2-4) insert_writes [OF _ _ _ refl]])
    (use assms(5) row_id [OF inv] in \<open>auto simp: stamped_def\<close>)

lemma ok_update:
  assumes inv: "winv F w" and "l \<in> w_pool w" "is_transaction_active (w_tm w) t" "db_tables (w_db w) tid \<noteq> None"
    and base: "base_version t i (w_rows w (row_key tid i)) (w_db w) = Some base"
  shows "step_ok F (Some t) w
    ((with_db (snd (write_version tid i tree_err (\<lambda>_. update_decision tid new t l log_err base) (w_db w))) w)\<lparr>w_pool := w_pool w - {l}\<rparr>)"
  by (rule ok_db_writes [OF inv assms(2-4) base_writes [OF base row_id [OF inv] _ _ refl]])
    (auto simp: update_decision_def Let_def intro!: exI)

lemma ok_remove:
  assumes inv: "winv F w" and "l \<in> w_pool w" "is_transaction_active (w_tm w) t" "db_tables (w_db w) tid \<noteq> None"
    and base: "base_version t i (w_rows w (row_key tid i)) (w_db w) = Some base"
  shows "step_ok F (Some t) w
    ((with_db (snd (write_version tid i tree_err (\<lambda>_. remove_decision tid t l log_err base) (w_db w))) w)\<lparr>w_pool := w_pool w - {l}\<rparr>)"
  by (rule ok_db_writes [OF inv assms(2-4) base_writes [OF base row_id [OF inv] _ _ refl]])
    (auto simp: remove_decision_def Let_def intro!: exI)

end
