(* ===== verification/Mvcc_Revert.thy ===== *)
theory Mvcc_Revert
  imports Mvcc_Writes
begin

text \<open>
  Reverting an aborted transaction, newest write first, and purging a tombstone: that the rows end
  up without a version of the transaction, and that no reader can tell.
\<close>

declare case_unit_any [simp]

section \<open>Undoing one write\<close>

lemma is_same_txn_iff: "is_same_txn c t \<longleftrightarrow> t_txn_id c = Some t"
  by (simp add: is_same_txn_def split: option.split)

fun undo_row :: "version_store \<Rightarrow> txn_id \<Rightarrow> written \<Rightarrow> (row_key \<rightharpoonup> tuple) \<Rightarrow> row_key \<rightharpoonup> tuple" where
  "undo_row v t (Inserted tid i) rows =
     (if \<exists>c. rows (row_key tid i) = Some c \<and> t_txn_id c = Some t then rows(row_key tid i := None) else rows)"
| "undo_row v t (Replaced l) rows =
     (case vs_pre_images v l of
        None \<Rightarrow> rows
      | Some p \<Rightarrow> if \<exists>c. rows (pre_key p) = Some c \<and> t_txn_id c = Some t then rows(pre_key p \<mapsto> pi_tuple p) else rows)"

text \<open>The rows \<open>R\<close> once all but the first \<open>n\<close> writes of \<open>t\<close> are undone.\<close>

definition reverted :: "txn_id set \<Rightarrow> world \<Rightarrow> txn_id \<Rightarrow> nat \<Rightarrow> (row_key \<rightharpoonup> tuple) \<Rightarrow> bool" where
  "reverted F w t n R = (
     (\<forall>k row. R k = Some row \<longrightarrow> db_tables (w_db w) (fst k) \<noteq> None \<and> chain F (w_tm w) (w_vs w) (spent w) k row
        \<and> (t_txn_id row = Some t \<longrightarrow> made_by (w_vs w) (writes_of (w_vs w) t) n k row)
        \<and> (\<forall>x. t_txn_id row = Some x \<and> x \<noteq> t \<and> \<not> is_committed (w_tm w) x \<longrightarrow> w_rows w k = Some row))
     \<and> (\<forall>r k. is_transaction_active (w_tm w) r \<longrightarrow>
          look_row (seen_by (w_tm w) r) (w_vs w) (R k) = look_row (seen_by (w_tm w) r) (w_vs w) (w_rows w k)))"

lemma revertedD:
  assumes "reverted F w t n R"
  shows "R k = Some row \<Longrightarrow> db_tables (w_db w) (fst k) \<noteq> None"
    "R k = Some row \<Longrightarrow> chain F (w_tm w) (w_vs w) (spent w) k row"
    "R k = Some row \<Longrightarrow> t_txn_id row = Some t \<Longrightarrow> made_by (w_vs w) (writes_of (w_vs w) t) n k row"
    "R k = Some row \<Longrightarrow> t_txn_id row = Some x \<Longrightarrow> x \<noteq> t \<Longrightarrow> \<not> is_committed (w_tm w) x \<Longrightarrow> w_rows w k = Some row"
    "is_transaction_active (w_tm w) r \<Longrightarrow>
      look_row (seen_by (w_tm w) r) (w_vs w) (R k) = look_row (seen_by (w_tm w) r) (w_vs w) (w_rows w k)"
  using assms unfolding reverted_def by blast+

lemma reverted_start: "winv F w \<Longrightarrow> in_flight (w_tm w) t \<Longrightarrow> reverted F w t (length (writes_of (w_vs w) t)) (w_rows w)"
  unfolding reverted_def using invD(3,4,6) [of F w] unfolding undo_ok_def by blast

lemma made_by_Suc:
  assumes "made_by v ws (Suc n) k row"
  shows "makes v (ws ! n) k row \<or> (made_by v ws n k row \<and> idle v (ws ! n) k row)"
proof -
  obtain j where j: "j < Suc n" "makes v (ws ! j) k row" "\<forall>j'. j < j' \<and> j' < Suc n \<longrightarrow> idle v (ws ! j') k row"
    using assms by (auto simp: made_by_def)
  show ?thesis
  proof (cases "j = n")
    case False
    then have "j < n" using j(1) by simp
    then show ?thesis using j unfolding made_by_def by (auto intro!: exI [of _ j])
  qed (use j in simp)
qed

lemma aborting_unseen: "state_of m t = Some Aborting \<Longrightarrow> is_transaction_active m r \<Longrightarrow> seen_by m r t = Some False"
  by (auto simp: seen_by_def visible_now_def active_iff)

text \<open>A version of \<open>t\<close> made by a replacing write links to the pre-image of that write.\<close>

lemma chain_made:
  assumes "chain F m v U k row" "t_pre_lsn row = Some l" "vs_pre_images v l = Some p" "t_txn_id row = Some t"
  shows "chain F m v U k (pi_tuple p)" "pi_table p = fst k"
    "\<exists>x. t_txn_id (pi_tuple p) = Some x \<and> (x = t \<or> is_committed m x)"
  using assms by (auto elim: chain.cases)

lemma reverted_undo:
  assumes inv: "winv F w" and t: "state_of (w_tm w) t = Some Aborting" and n: "n < length (writes_of (w_vs w) t)"
    and R: "reverted F w t (Suc n) R"
  shows "reverted F w t n (undo_row (w_vs w) t (writes_of (w_vs w) t ! n) R)"
proof -
  let ?v = "w_vs w" and ?ws = "writes_of (w_vs w) t" and ?m = "w_tm w"
  have fl: "in_flight ?m t" using t by (simp add: in_flight_def is_committed_def)
  have undo: "undo_ok ?v (w_rows w) t" by (rule invD(6) [OF inv fl])
  have by_t: "makes ?v (?ws ! n) k row \<or> (made_by ?v ?ws n k row \<and> idle ?v (?ws ! n) k row)"
    if "R k = Some row" "t_txn_id row = Some t" for k row
    using made_by_Suc [OF revertedD(3) [OF R that]] .
  show ?thesis
  proof (cases "?ws ! n")
    case (Inserted tid i)
    let ?R = "undo_row ?v t (?ws ! n) R" and ?k = "row_key tid i"
    have R': "?R k = (if k = ?k \<and> (\<exists>c. R ?k = Some c \<and> t_txn_id c = Some t) then None else R k)" for k
      by (auto simp: Inserted)
    have sub: "R k = Some row" if "?R k = Some row" for k row using that by (simp add: R' split: if_splits)
    have made: "made_by ?v ?ws n k row" if r: "?R k = Some row" and rt: "t_txn_id row = Some t" for k row
    proof -
      have "k \<noteq> ?k" using r rt sub [OF r] by (auto simp: R' split: if_splits)
      then show ?thesis using by_t [OF sub [OF r] rt] by (auto simp: Inserted)
    qed
    have look: "look_row (seen_by ?m r) ?v (?R k) = look_row (seen_by ?m r) ?v (R k)" if r: "is_transaction_active ?m r" for r k
    proof (cases "?R k = R k")
      case False
      then obtain c where c: "k = ?k" "?R k = None" "R ?k = Some c" "t_txn_id c = Some t" by (auto simp: R' split: if_splits)
      have "t_pre_lsn c = None" using by_t [OF c(3,4)] by (auto simp: Inserted)
      then have "look (seen_by ?m r) ?v c = Some (Inr None)" using look_end [of c t "seen_by ?m r"] c(4) aborting_unseen [OF t r] by simp
      then show ?thesis using c by (simp add: look_row_def)
    qed simp
    show ?thesis
      unfolding reverted_def using revertedD(1,2,4) [OF R sub] made look revertedD(5) [OF R] by simp
  next
    case (Replaced l)
    let ?R = "undo_row ?v t (?ws ! n) R"
    obtain p where p: "vs_pre_images ?v l = Some p"
      and old: "t_txn_id (pi_tuple p) = Some t \<Longrightarrow> made_by ?v ?ws n (pre_key p) (pi_tuple p)"
      using undo n Replaced unfolding undo_ok_def by blast
    let ?k = "pre_key p"
    have R': "?R k = (if k = ?k \<and> (\<exists>c. R ?k = Some c \<and> t_txn_id c = Some t) then Some (pi_tuple p) else R k)" for k
      by (auto simp: Replaced p)
    have pre: "(row = pi_tuple p \<and> k = ?k \<and> (\<exists>c. R ?k = Some c \<and> t_txn_id c = Some t)) \<or> (R k = Some row \<and> (k \<noteq> ?k \<or> t_txn_id row \<noteq> Some t))"
      if "?R k = Some row" for k row
      using that by (auto simp: R' split: if_splits)
    have here: "c = pi_tuple p \<or> (t_pre_lsn c = Some l \<and> chain F ?m ?v (spent w) ?k (pi_tuple p)
        \<and> (\<exists>x. t_txn_id (pi_tuple p) = Some x \<and> (x = t \<or> is_committed ?m x)))" if c: "R ?k = Some c" "t_txn_id c = Some t" for c
      using by_t [OF c] chain_made [OF revertedD(2) [OF R c(1)] _ p c(2)] p by (auto simp: Replaced)
    have row: "chain F ?m ?v (spent w) k row \<and> db_tables (w_db w) (fst k) \<noteq> None" if r: "?R k = Some row" for k row
      using pre [OF r] here revertedD(1,2) [OF R] by blast
    have made: "made_by ?v ?ws n k row" if r: "?R k = Some row" and rt: "t_txn_id row = Some t" for k row
      using pre [OF r] old by_t [of k row] rt p by (auto simp: Replaced)
    have others: "w_rows w k = Some row"
      if r: "?R k = Some row" and x: "t_txn_id row = Some x" "x \<noteq> t" "\<not> is_committed ?m x" for k row x
      using pre [OF r] here revertedD(4) [OF R _ x] x by fastforce
    have look: "look_row (seen_by ?m r) ?v (?R k) = look_row (seen_by ?m r) ?v (R k)" if r: "is_transaction_active ?m r" for r k
    proof (cases "?R k = R k")
      case False
      then obtain c where c: "k = ?k" "?R k = Some (pi_tuple p)" "R ?k = Some c" "t_txn_id c = Some t" "c \<noteq> pi_tuple p"
        by (auto simp: R' split: if_splits)
      then obtain x where "t_pre_lsn c = Some l" "t_txn_id (pi_tuple p) = Some x" using here [OF c(3,4)] by blast
      then have "look (seen_by ?m r) ?v c = look (seen_by ?m r) ?v (pi_tuple p)"
        using look_link [OF c(4), of "seen_by ?m r"] aborting_unseen [OF t r] p by simp
      then show ?thesis using c by (simp add: look_row_def)
    qed simp
    show ?thesis
      unfolding reverted_def using row made others look revertedD(5) [OF R] by simp
  qed
qed

section \<open>The revert loop\<close>

definition drawn :: "nat \<Rightarrow> txn_mgr \<Rightarrow> txn_mgr \<Rightarrow> bool" where
  "drawn n m m' = (quiet m m' \<and> unat (counter_of m') \<le> unat (counter_of m) + n)"

lemma drawn_refl: "tm_wf m \<Longrightarrow> drawn n m m"
  by (simp add: drawn_def quiet_refl)

lemma drawn_mint:
  assumes "tm_wf m" "unat (counter_of m) + 1 < 2 ^ 64"
  shows "drawn (Suc n) m (snd (mint m))"
proof -
  have ne: "counter_of m \<noteq> U64_MAX" using assms(2) by (auto simp: unsigned_minus_1_eq_mask mask_eq_exp_minus_1)
  have "unat (counter_of m + 1) \<le> unat (counter_of m) + 1" by (simp add: unat_word_ariths)
  then show ?thesis using quiet_mint [OF assms(1) ne] by (simp add: drawn_def tm_simps)
qed

lemma drawn_trans: "drawn a m m' \<Longrightarrow> drawn b m' m'' \<Longrightarrow> drawn (a + b) m m''"
  by (auto simp: drawn_def intro: quiet_trans)

lemma drawn_wf: "drawn n m m' \<Longrightarrow> tm_wf m'"
  by (simp add: drawn_def quiet_def)

lemma table_by_id_or_dropped_eq: "table_by_id_or_dropped tid d = Inr (db_tables d tid)"
  by (simp add: table_by_id_or_dropped_def table_by_id_def split: option.split)

lemma revert_one_row:
  assumes u: "undo_write (db_vs d) e = Some u" and tab: "\<And>k row. db_rows d k = Some row \<Longrightarrow> db_tables d (fst k) \<noteq> None"
  shows "\<exists>d'. revert_one None u t d = (Inr (), d') \<and> db_rows d' = undo_row (db_vs d) t e (db_rows d) \<and> db_vs d' = db_vs d
    \<and> db_tables d' = db_tables d \<and> (db_tm d' = db_tm d \<or> db_tm d' = snd (mint (db_tm d)))"
proof (cases e)
  case (Inserted tid i)
  then have u': "u = Remove tid i" using u by simp
  show ?thesis
  proof (cases "db_tables d tid")
    case None
    then have "db_rows d (row_key tid i) = None" using tab [of "row_key tid i"] by (cases "db_rows d (row_key tid i)") (auto simp: row_key_def)
    then show ?thesis using None by (simp add: u' revert_one_def table_by_id_or_dropped_eq Inserted)
  next
    case (Some b)
    then show ?thesis
      by (cases "db_rows d (row_key tid i)")
        (auto simp: u' revert_one_def table_by_id_or_dropped_eq Inserted remove_if_txn_def write_version_def Let_def is_same_txn_iff)
  qed
next
  case (Replaced l)
  then obtain p where p: "vs_pre_images (db_vs d) l = Some p" and u': "u = Restore (pi_table p) (pi_tuple p)" using u by auto
  show ?thesis
  proof (cases "db_tables d (pi_table p)")
    case None
    then have "db_rows d (pre_key p) = None" using tab [of "pre_key p"] by (cases "db_rows d (pre_key p)") (auto simp: row_key_def pre_key_def)
    then show ?thesis using None by (simp add: u' revert_one_def table_by_id_or_dropped_eq Replaced p)
  next
    case (Some b)
    then show ?thesis
      by (cases "db_rows d (pre_key p)")
        (auto simp: u' revert_one_def table_by_id_or_dropped_eq Replaced p update_if_txn_def write_version_def Let_def is_same_txn_iff pre_key_def)
  qed
qed

lemma revert_loop:
  assumes inv: "winv F w" and t: "state_of (w_tm w) t = Some Aborting" and n: "n \<le> length (writes_of (w_vs w) t)"
    and R: "reverted F w t n (db_rows d)" and d: "db_vs d = w_vs w" "db_tables d = db_tables (w_db w)"
    and m: "tm_wf (db_tm d)" "unat (counter_of (db_tm d)) + n < 2 ^ 64"
  shows "\<exists>d'. revert_list (\<lambda>_. None) (rev (List.map_filter (undo_write (w_vs w)) (take n (writes_of (w_vs w) t)))) t d = (Inr (), d')
    \<and> reverted F w t 0 (db_rows d') \<and> db_vs d' = w_vs w \<and> db_tables d' = db_tables (w_db w) \<and> drawn n (db_tm d) (db_tm d')"
  using n R d m
proof (induction n arbitrary: d)
  case 0
  then show ?case by (simp add: drawn_refl List.map_filter_def)
next
  case (Suc n)
  let ?v = "w_vs w" and ?ws = "writes_of (w_vs w) t"
  have n: "n < length ?ws" using Suc.prems(1) by simp
  have fl: "in_flight (w_tm w) t" using t by (simp add: in_flight_def is_committed_def)
  have "\<exists>u. undo_write ?v (?ws ! n) = Some u"
    using invD(6) [OF inv fl] n unfolding undo_ok_def by (cases "?ws ! n") fastforce+
  then obtain u where u: "undo_write ?v (?ws ! n) = Some u" by blast
  then have us: "rev (List.map_filter (undo_write ?v) (take (Suc n) ?ws)) = u # rev (List.map_filter (undo_write ?v) (take n ?ws))"
    using n by (simp add: take_Suc_conv_app_nth map_filter_append_one)
  obtain d1 where d1: "revert_one None u t d = (Inr (), d1)" "db_rows d1 = undo_row ?v t (?ws ! n) (db_rows d)" "db_vs d1 = ?v"
    "db_tables d1 = db_tables (w_db w)" "db_tm d1 = db_tm d \<or> db_tm d1 = snd (mint (db_tm d))"
    using revert_one_row [of d "?ws ! n" u t] u revertedD(1) [OF Suc.prems(2)] Suc.prems(3,4) by auto
  have dr: "drawn 1 (db_tm d) (db_tm d1)"
    using d1(5) drawn_refl [OF Suc.prems(5), of 1] drawn_mint [OF Suc.prems(5), of 0] Suc.prems(6) by auto
  have "reverted F w t n (db_rows d1)" unfolding d1(2) by (rule reverted_undo [OF inv t n Suc.prems(2)])
  from Suc.IH [OF less_imp_le [OF n] this d1(3,4) drawn_wf [OF dr]] dr Suc.prems(6)
  obtain d' where "revert_list (\<lambda>_. None) (rev (List.map_filter (undo_write ?v) (take n ?ws))) t d1 = (Inr (), d')"
    "reverted F w t 0 (db_rows d')" "db_vs d' = ?v" "db_tables d' = db_tables (w_db w)" "drawn n (db_tm d1) (db_tm d')"
    by (auto simp: drawn_def)
  then show ?case unfolding us using d1(1) drawn_trans [OF dr, of n "db_tm d'"] by simp
qed

lemma revert_ends:
  assumes inv: "winv F w" and t: "state_of (w_tm w) t = Some Aborting" and room: "room (length (writes_of (w_vs w) t)) w"
  shows "\<exists>d'. revert (\<lambda>_. None) t (w_db w) = (Inr (), d') \<and> reverted F w t 0 (db_rows d') \<and> db_vs d' = w_vs w
    \<and> db_tables d' = db_tables (w_db w) \<and> drawn (length (writes_of (w_vs w) t)) (w_tm w) (db_tm d')"
proof -
  have "in_flight (w_tm w) t" using t by (simp add: in_flight_def is_committed_def)
  from revert_loop [OF inv t order_refl reverted_start [OF inv this] refl refl invD(1) [OF inv]] room
  show ?thesis by (simp add: revert_def undo_of_def room_def)
qed

section \<open>Finishing an abort\<close>

lemma step_ok_trans:
  assumes "step_ok F a w w1" "step_ok F a w1 w2"
    and "\<And>r. is_transaction_active (w_tm w) r \<Longrightarrow> is_transaction_active (w_tm w2) r \<Longrightarrow> is_transaction_active (w_tm w1) r"
  shows "step_ok F a w w2"
proof -
  have "goes_on F w w1" "goes_on F w1 w2" using assms(1,2) by (simp_all add: step_ok_def)
  then have "goes_on F w w2" unfolding goes_on_def by (auto dest: order.trans)
  with assms show ?thesis unfolding step_ok_def by blast
qed

lemma ok_quiet:
  assumes inv: "winv F w" and q: "quiet (w_tm w) (w_tm w')"
    and same: "w_vs w' = w_vs w" "w_rows w' = w_rows w" "db_tables (w_db w') = db_tables (w_db w)" "w_purging w' = w_purging w"
      "w_pool w' = w_pool w" "w_marking w' = w_marking w" "w_horizon w' = w_horizon w"
  shows "step_ok F a w w'"
proof (rule step_ok_tm [OF inv table_moves_quiet [OF q] same(1-4)], unfold same)
  have c: "counter_of (w_tm w) \<le> counter_of (w_tm w')" using q by (simp add: quiet_def)
  then show "spent w \<subseteq> spent w'" by (auto simp: spent_def same)
  show "l < counter_of (w_tm w')" if "l \<in> w_pool w" for l using invD(16) [OF inv that] c by simp
qed simp_all

lemma ok_rows:
  assumes inv: "winv F w"
    and rows: "\<And>k row. R k = Some row \<Longrightarrow> db_tables (w_db w) (fst k) \<noteq> None \<and> chain F (w_tm w) (w_vs w) (spent w) k row"
    and own: "\<And>k row x. R k = Some row \<Longrightarrow> t_txn_id row = Some x \<Longrightarrow> in_flight (w_tm w) x \<Longrightarrow> w_rows w k = Some row"
    and look: "\<And>r k. is_transaction_active (w_tm w) r \<Longrightarrow> r \<notin> F \<Longrightarrow>
      look_row (seen_by (w_tm w) r) (w_vs w) (R k) = look_row (seen_by (w_tm w) r) (w_vs w) (w_rows w k)"
  shows "step_ok F a w (w\<lparr>w_db := (w_db w)\<lparr>db_rows := R\<rparr>\<rparr>)" (is "step_ok F a w ?w")
proof -
  have sel: "w_tm ?w = w_tm w" "w_vs ?w = w_vs w" "w_rows ?w = R" "db_tables (w_db ?w) = db_tables (w_db w)" "w_pool ?w = w_pool w"
    "w_marking ?w = w_marking w" "w_horizon ?w = w_horizon w" "w_purging ?w = w_purging w" "spent ?w = spent w"
    by (simp_all add: spent_def)
  have undo: "undo_ok (w_vs w) R x" if "in_flight (w_tm w) x" for x
    by (rule undo_ok_cong [OF refl refl _ invD(6) [OF inv that]]) (use own that in blast)
  have "winv F ?w"
  proof (rule invI, unfold sel)
    show "ended (w_tm w) x ts \<and> \<not> queued_txn (w_vs w) x" if "w_marking w x = Some ts" for x ts using invD(8,9) [OF inv that] by simp
    show "db_tables (w_db w) (fst k) \<noteq> None" "chain F (w_tm w) (w_vs w) (spent w) k row" if "R k = Some row" for k row
      using rows [OF that] by simp_all
  qed (fact undo invD(1,2,5,7,10,11,12,13,14,15,16,17) [OF inv])+
  then show ?thesis using look goes_on_refl [OF sel(1,4)] by (auto simp: step_ok_def view_def)
qed

lemma ok_rows_quiet:
  assumes inv: "winv F w" and q: "quiet (w_tm w) (db_tm d)" and same: "db_vs d = w_vs w" "db_tables d = db_tables (w_db w)"
    and rows: "\<And>k row. db_rows d k = Some row \<Longrightarrow> db_tables (w_db w) (fst k) \<noteq> None \<and> chain F (w_tm w) (w_vs w) (spent w) k row"
    and own: "\<And>k row x. db_rows d k = Some row \<Longrightarrow> t_txn_id row = Some x \<Longrightarrow> in_flight (w_tm w) x \<Longrightarrow> w_rows w k = Some row"
    and look: "\<And>r k. is_transaction_active (w_tm w) r \<Longrightarrow> r \<notin> F \<Longrightarrow>
      look_row (seen_by (w_tm w) r) (w_vs w) (db_rows d k) = look_row (seen_by (w_tm w) r) (w_vs w) (w_rows w k)"
  shows "step_ok F a w (with_db d w)"
proof -
  let ?w = "w\<lparr>w_db := (w_db w)\<lparr>db_rows := db_rows d\<rparr>\<rparr>"
  have st: "step_ok F a w ?w" by (rule ok_rows [OF inv rows own look])
  then have "winv F ?w" by (simp add: step_ok_def)
  then have "step_ok F a ?w (with_db d w)" by (rule ok_quiet) (use q same in simp_all)
  with st show ?thesis by (rule step_ok_trans) simp
qed

lemma moves_abort_complete:
  assumes wf: "tm_wf m" and w: "\<And>x. wrote x \<Longrightarrow> tm_arcs m x \<noteq> None" and t: "state_of m t = Some Aborting"
  shows "table_moves F {t} m (snd (abort_complete t b m)) wrote" "\<not> in_flight (snd (abort_complete t b m)) t"
proof -
  show nf: "\<not> in_flight (snd (abort_complete t b m)) t"
    by (auto simp: abort_complete_def Let_def in_flight_def is_committed_def tm_simps)
  show "table_moves F {t} m (snd (abort_complete t b m)) wrote"
  proof (rule table_moves_step_but [OF wf _ _ _ w])
    show "tm_step (fate_of F x) m (snd (abort_complete t b m))" if "x \<notin> {t}" for x
      using that t by (intro step_abort_complete) (auto simp: fate_of_def)
    show "tm_step (any_fate F) m (snd (abort_complete t b m))" using t by (intro step_abort_complete) auto
  qed (use nf in \<open>auto simp: abort_complete_def Let_def tm_simps split: if_splits\<close>)
qed

lemma ok_complete_abort:
  assumes inv: "winv F w" and t: "state_of (w_tm w) t = Some Aborting" and rows: "\<And>k row. w_rows w k = Some row \<Longrightarrow> t_txn_id row \<noteq> Some t"
  shows "step_ok F a w (with_db (complete_abort t b (w_db w)) w)"
proof (rule ok_discard [OF inv, where X = "{t}" and ts = "if fst (abort_complete t b (w_tm w)) then [t] else []"])
  note mv = moves_abort_complete [where wrote = "has_writes (w_vs w)" and b = b, OF invD(1) [OF inv] wrote_began [OF inv] t]
  have m: "w_tm (with_db (complete_abort t b (w_db w)) w) = snd (abort_complete t b (w_tm w))"
    by (simp add: complete_abort_def split_beta Let_def)
  show "table_moves F {t} (w_tm w) (w_tm (with_db (complete_abort t b (w_db w)) w)) (has_writes (w_vs w))" unfolding m by (rule mv(1))
  show "\<not> in_flight (w_tm (with_db (complete_abort t b (w_db w)) w)) x" if "x \<in> {t}" for x using mv(2) that unfolding m by simp
qed (use t rows in \<open>auto simp: is_committed_def complete_abort_def split_beta Let_def\<close>)

lemma log_new_simps:
  "db_tm (snd (log_new err op d)) = snd (mint (db_tm d))" "db_vs (snd (log_new err op d)) = db_vs d"
  "db_rows (snd (log_new err op d)) = db_rows d" "db_tables (snd (log_new err op d)) = db_tables d"
  by (simp_all add: log_new_def split_beta Let_def split: option.split)

text \<open>How an abort ends: the table has drawn numbers and may have ended \<open>t\<close>, and no row is of \<open>t\<close>.\<close>

lemma finish_abort_ends:
  assumes inv: "winv F w" and t: "state_of (w_tm w) t = Some Aborting" and \<omega>: "fl_revert \<omega> = (\<lambda>_. None)"
    and room: "room (length (writes_of (w_vs w) t) + 1) w"
  shows "\<exists>m b. quiet (w_tm w) m \<and> db_tm (snd (finish_abort \<omega> t (w_db w))) \<in> {m, snd (abort_complete t b m)}"
    and "db_rows (snd (finish_abort \<omega> t (w_db w))) k = Some row \<Longrightarrow> t_txn_id row \<noteq> Some t"
    and "fl_rollback \<omega> = None \<Longrightarrow> fst (finish_abort \<omega> t (w_db w)) = Inr ()"
proof -
  obtain d1 where d1: "revert (\<lambda>_. None) t (w_db w) = (Inr (), d1)" "drawn (length (writes_of (w_vs w) t)) (w_tm w) (db_tm d1)"
    "reverted F w t 0 (db_rows d1)"
    using revert_ends [OF inv t] room by (auto simp: room_def)
  have q: "quiet (w_tm w) (snd (mint (db_tm d1)))"
    using drawn_mint [OF drawn_wf [OF d1(2)], of 0] d1(2) room by (auto simp: drawn_def room_def intro: quiet_trans)
  obtain e d2 where l: "log_new (fl_rollback \<omega>) (Rollback t) d1 = (e, d2)" by fastforce
  then have d2: "db_tm d2 = snd (mint (db_tm d1))" "db_rows d2 = db_rows d1" "fl_rollback \<omega> = None \<Longrightarrow> e = Inr ()"
    using log_new_simps [of "fl_rollback \<omega>" "Rollback t" d1] by (auto simp: log_new_def split_beta Let_def split: option.splits)
  have ca: "db_tm (complete_abort t b d) = snd (abort_complete t b (db_tm d))" "db_rows (complete_abort t b d) = db_rows d" for b d
    by (simp_all add: complete_abort_def split_beta Let_def)
  show "\<exists>m b. quiet (w_tm w) m \<and> db_tm (snd (finish_abort \<omega> t (w_db w))) \<in> {m, snd (abort_complete t b m)}"
    using d1(1,2) d2(1) q \<omega> l ca drawn_def by (cases e; cases "has_writes (w_vs w) t") (auto simp: finish_abort_def)
  have "db_rows (snd (finish_abort \<omega> t (w_db w))) = db_rows d1"
    using d1(1) d2(2) \<omega> l ca by (cases e; cases "has_writes (w_vs w) t") (auto simp: finish_abort_def)
  then show "db_rows (snd (finish_abort \<omega> t (w_db w))) k = Some row \<Longrightarrow> t_txn_id row \<noteq> Some t"
    using revertedD(3) [OF d1(3), of k row] by (auto simp: made_by_def)
  show "fl_rollback \<omega> = None \<Longrightarrow> fst (finish_abort \<omega> t (w_db w)) = Inr ()"
    using d1(1) d2(3) \<omega> l by (cases "has_writes (w_vs w) t") (auto simp: finish_abort_def)
qed

lemma ok_finish_abort:
  assumes inv: "winv F w" and t: "state_of (w_tm w) t = Some Aborting" and \<omega>: "fl_revert \<omega> = (\<lambda>_. None)"
    and room: "room (length (writes_of (w_vs w) t) + 1) w"
  shows "step_ok F a w (with_db (snd (finish_abort \<omega> t (w_db w))) w)"
proof -
  let ?n = "length (writes_of (w_vs w) t)"
  obtain d1 where d1: "revert (\<lambda>_. None) t (w_db w) = (Inr (), d1)" "reverted F w t 0 (db_rows d1)" "db_vs d1 = w_vs w"
    "db_tables d1 = db_tables (w_db w)" "drawn ?n (w_tm w) (db_tm d1)"
    using revert_ends [OF inv t] room by (auto simp: room_def)
  have quiet_log: "quiet (w_tm w) (snd (mint (db_tm d1)))"
    using drawn_mint [OF drawn_wf [OF d1(5)], of 0] d1(5) room by (auto simp: drawn_def room_def intro: quiet_trans)
  have no_t: "t_txn_id row \<noteq> Some t" if "db_rows d1 k = Some row" for k row
    using revertedD(3) [OF d1(2) that] by (auto simp: made_by_def)
  have st: "step_ok F a w (with_db d w)"
    if d: "quiet (w_tm w) (db_tm d)" "db_vs d = db_vs d1" "db_rows d = db_rows d1" "db_tables d = db_tables d1" for d
  proof (rule ok_rows_quiet [OF inv d(1)])
    show "w_rows w k = Some row" if "db_rows d k = Some row" "t_txn_id row = Some x" "in_flight (w_tm w) x" for k row x
      using that no_t [of k row] revertedD(4) [OF d1(2), of k row x] d(3) by (auto simp: in_flight_def)
  qed (use d d1(3,4) revertedD(1,2,5) [OF d1(2)] in auto)
  have complete: "step_ok F a w (with_db (complete_abort t b d) w)"
    if d: "quiet (w_tm w) (db_tm d)" "db_vs d = db_vs d1" "db_rows d = db_rows d1" "db_tables d = db_tables d1" for d b
  proof (rule step_ok_trans [OF st [OF d]])
    have "winv F (with_db d w)" using st [OF d] by (simp add: step_ok_def)
    then have "step_ok F a (with_db d w) (with_db (complete_abort t b (w_db (with_db d w))) (with_db d w))"
      by (rule ok_complete_abort) (use t no_t d quiet_simps(1) [OF d(1)] in auto)
    then show "step_ok F a (with_db d w) (with_db (complete_abort t b d) w)" by (simp add: with_db_def)
    show "is_transaction_active (w_tm (with_db d w)) r" if "is_transaction_active (w_tm w) r" for r
      using that quiet_simps(2) [OF d(1)] by simp
  qed
  have q1: "quiet (w_tm w) (db_tm d1)" using d1(5) by (simp add: drawn_def)
  show ?thesis
  proof (cases "has_writes (w_vs w) t")
    case False
    then show ?thesis using complete [OF q1] d1(1) \<omega> by (simp add: finish_abort_def)
  next
    case True
    let ?l = "log_new (fl_rollback \<omega>) (Rollback t) d1"
    obtain e d2 where l: "?l = (e, d2)" by fastforce
    then have d2: "db_tm d2 = snd (mint (db_tm d1))" "db_vs d2 = db_vs d1" "db_rows d2 = db_rows d1" "db_tables d2 = db_tables d1"
      using log_new_simps [of "fl_rollback \<omega>" "Rollback t" d1] by simp_all
    have "snd (finish_abort \<omega> t (w_db w)) = d2 \<or> snd (finish_abort \<omega> t (w_db w)) = complete_abort t True d2"
      using d1(1) \<omega> True l by (cases e) (simp_all add: finish_abort_def)
    then show ?thesis using st [of d2] complete [of d2 True] quiet_log d2 by auto
  qed
qed

section \<open>Purging a tombstone\<close>

lemma purge_cases:
  assumes "purge \<omega> b d = (r, d')"
  shows "db_vs d' = db_vs d" "db_tables d' = db_tables d"
    "db_tm d' \<in> {db_tm d, snd (mint (db_tm d)), snd (mint (snd (mint (db_tm d))))}"
    "db_rows d' = db_rows d \<or> (\<exists>c. db_rows d (row_key (tb_table b) (tb_key b)) = Some c \<and> tuple_is_tombstoned c \<and> t_txn_id c = Some (tb_txn b)
       \<and> db_rows d' = (db_rows d)(row_key (tb_table b) (tb_key b) := None))"
    "db_log d' = db_log d \<or> (db_log d' = db_log d @ [(counter_of (db_tm d) + 1, Purge (tb_txn b) (tb_table b) (tb_key b))]
       \<and> db_tm d' = snd (mint (snd (mint (db_tm d)))))"
proof -
  define d0 where "d0 = snd (draw d)"
  obtain e d1 where l: "log_new (fl_log \<omega>) (Purge (tb_txn b) (tb_table b) (tb_key b)) d0 = (e, d1)" by fastforce
  note d1 = log_new_simps [of "fl_log \<omega>" "Purge (tb_txn b) (tb_table b) (tb_key b)" d0, unfolded l snd_conv]
  have log: "db_log d1 = db_log d \<or> db_log d1 = db_log d @ [(counter_of (db_tm d) + 1, Purge (tb_txn b) (tb_table b) (tb_key b))]" "db_log d0 = db_log d"
    using l by (auto simp: log_new_def d0_def draw_def split_beta Let_def mint_simps tm_simps split: option.splits)
  let ?k = "row_key (tb_table b) (tb_key b)"
  let ?ok = "case db_rows d ?k of Some c \<Rightarrow> tuple_is_tombstoned c \<and> is_same_txn c (tb_txn b) | None \<Rightarrow> True"
  have rows0: "db_rows d0 = db_rows d" by (simp add: d0_def)
  have "d' \<in> {d, d0, d1} \<or> (d' = d1\<lparr>db_rows := (db_rows d1)(?k := None)\<rparr> \<and> ?ok)"
  proof (cases "db_tables d (tb_table b)")
    case None
    then show ?thesis using assms by (simp add: purge_def table_by_id_or_dropped_eq)
  next
    case (Some x)
    note p = assms [unfolded purge_def table_by_id_or_dropped_eq Some sum.case option.case write_version_def Let_def d0_def [symmetric] rows0 l]
    show ?thesis
    proof (cases ?ok)
      case False
      then show ?thesis using p by simp
    next
      case True
      then show ?thesis using p by (cases e; cases "fl_tree \<omega>") simp_all
    qed
  qed
  moreover have "?ok \<Longrightarrow> db_rows d ?k = None \<or> (\<exists>c. db_rows d ?k = Some c \<and> tuple_is_tombstoned c \<and> t_txn_id c = Some (tb_txn b))"
    by (simp add: is_same_txn_iff split: option.splits)
  ultimately have "d' \<in> {d, d0, d1} \<or> (d' = d1\<lparr>db_rows := (db_rows d1)(?k := None)\<rparr> \<and>
      (db_rows d ?k = None \<or> (\<exists>c. db_rows d ?k = Some c \<and> tuple_is_tombstoned c \<and> t_txn_id c = Some (tb_txn b))))" by blast
  then show "db_vs d' = db_vs d" "db_tables d' = db_tables d"
    "db_tm d' \<in> {db_tm d, snd (mint (db_tm d)), snd (mint (snd (mint (db_tm d))))}"
    "db_rows d' = db_rows d \<or> (\<exists>c. db_rows d ?k = Some c \<and> tuple_is_tombstoned c \<and> t_txn_id c = Some (tb_txn b)
       \<and> db_rows d' = (db_rows d)(?k := None))"
    "db_log d' = db_log d \<or> (db_log d' = db_log d @ [(counter_of (db_tm d) + 1, Purge (tb_txn b) (tb_table b) (tb_key b))]
       \<and> db_tm d' = snd (mint (snd (mint (db_tm d)))))"
    using d1 log by (auto simp: d0_def fun_upd_idem)
qed

lemma requeue_simps:
  "vs_pre_images (requeue_tombstones ts v) = vs_pre_images v" "vs_committed (requeue_tombstones ts v) = vs_committed v"
  "writes_of (requeue_tombstones ts v) x = writes_of v x" "has_writes (requeue_tombstones ts v) x = has_writes v x"
  "owns (requeue_tombstones ts v) x l = owns v x l" "vs_tombstones (requeue_tombstones ts v) = vs_tombstones v @ ts"
  "vs_retained (requeue_tombstones ts v) = vs_retained v"
  "entry_wf (requeue_tombstones ts v) = entry_wf v"
  by (simp_all add: requeue_tombstones_def writes_of_def has_writes_def owns_def entry_wf_def fun_eq_iff)

lemma ok_requeue:
  assumes inv: "winv F w" and ts: "set ts \<subseteq> set (w_purging w)" "set bs \<subseteq> set (w_purging w)"
  shows "step_ok F a w ((with_vs (requeue_tombstones ts (w_vs w)) w)\<lparr>w_purging := bs\<rparr>)" (is "step_ok F a w ?w")
proof -
  let ?v = "requeue_tombstones ts (w_vs w)"
  have sel: "w_tm ?w = w_tm w" "w_vs ?w = ?v" "w_rows ?w = w_rows w" "db_tables (w_db ?w) = db_tables (w_db w)" "w_pool ?w = w_pool w"
    "w_marking ?w = w_marking w" "w_horizon ?w = w_horizon w" "w_purging ?w = bs" "spent ?w = spent w"
    by (simp_all add: spent_def with_vs_def)
  have mv: "table_moves F {} (w_tm w) (w_tm ?w) (has_writes (w_vs w))"
    unfolding sel by (rule table_moves_quiet [OF quiet_refl [OF invD(1) [OF inv]]])
  have sm: "store_moves F {} (w_tm ?w) (w_vs w) (w_vs ?w) (spent w)"
    unfolding sel by (simp add: store_moves_def requeue_simps)
  have "winv F ?w"
  proof (rule inv_move [OF inv mv sm], unfold sel)
    show "vs_wf ?v" using invD(2) [OF inv] by (simp add: vs_wf_def one_owner_def requeue_simps)
    show "ended (w_tm w) x s \<and> \<not> queued_txn ?v x" if "w_marking w x = Some s" for x s
      using invD(8,9) [OF inv that] by (simp add: queued_txn_def requeue_simps)
    show "ended (w_tm w) (tb_txn b) (tb_commit_ts b)" if "b \<in> set (vs_tombstones ?v) \<union> set bs" for b
      using that ts by (intro invD(10) [OF inv]) (auto simp: requeue_simps)
    show "before_readers F (w_tm w) (tb_commit_ts b)" if "b \<in> set bs" for b using that ts by (intro invD(11) [OF inv]) auto
    show "ended (w_tm w) x s" if "(s, x, n) \<in> set (vs_committed ?v)" for s x n
      using invD(7) [OF inv] that by (simp add: requeue_simps)
  qed (use invD(16) [OF inv] in \<open>simp_all add: requeue_simps\<close>)
  then show ?thesis by (rule step_ok_store [OF inv mv sm _ _ _ _, rotated -1]) (simp_all add: sel)
qed

lemma ok_purge:
  assumes inv: "winv F w" and b: "w_purging w = b # bs" and room: "room 2 w" and p: "purge \<omega> b (w_db w) = (r, d)"
  shows "step_ok F a w
    ((with_db (d\<lparr>db_vs := requeue_tombstones (case r of Inl _ \<Rightarrow> [b] | Inr _ \<Rightarrow> []) (db_vs d)\<rparr>) w)\<lparr>w_purging := bs\<rparr>)"
proof -
  note pc = purge_cases [OF p]
  let ?k = "row_key (tb_table b) (tb_key b)" and ?ts = "case r of Inl _ \<Rightarrow> [b] | Inr _ \<Rightarrow> []"
  have wf: "tm_wf (w_tm w)" by (rule invD(1) [OF inv])
  have q1: "drawn 1 (w_tm w) (snd (mint (w_tm w)))" using drawn_mint [OF wf, of 0] room by (simp add: room_def)
  have q2: "drawn 1 (snd (mint (w_tm w))) (snd (mint (snd (mint (w_tm w)))))"
    using drawn_mint [OF drawn_wf [OF q1], of 0] q1 room by (simp add: room_def drawn_def)
  have q: "quiet (w_tm w) (db_tm d)"
    using pc(3) quiet_refl [OF wf] q1 drawn_trans [OF q1 q2] by (auto simp: drawn_def)
  have set: "settled F (w_tm w) (tb_txn b)"
    using ended_settled [OF invD(10) [OF inv, of b] invD(11) [OF inv, of b]] b by simp
  have sub: "w_rows w k = Some row" if "db_rows d k = Some row" for k row
    using pc(4) that by (auto split: if_splits)
  have st: "step_ok F a w (with_db d w)"
  proof (rule ok_rows_quiet [OF inv q pc(1,2)])
    show "look_row (seen_by (w_tm w) x) (w_vs w) (db_rows d k) = look_row (seen_by (w_tm w) x) (w_vs w) (w_rows w k)"
      if x: "is_transaction_active (w_tm w) x" "x \<notin> F" for x k
    proof (cases "db_rows d k = w_rows w k")
      case False
      then obtain c where c: "k = ?k" "db_rows d k = None" "w_rows w ?k = Some c" "tuple_is_tombstoned c" "t_txn_id c = Some (tb_txn b)"
        using pc(4) by (auto split: if_splits)
      then show ?thesis
        using look_itself [of c "tb_txn b" "seen_by (w_tm w) x"] settled_visible [OF set x]
        by (simp add: look_row_def unless_tombstone_def seen_by_def)
    qed simp
  qed (use sub invD(3,4) [OF inv] in blast)+
  have "winv F (with_db d w)" using st by (simp add: step_ok_def)
  then have "step_ok F a (with_db d w) ((with_vs (requeue_tombstones ?ts (w_vs (with_db d w))) (with_db d w))\<lparr>w_purging := bs\<rparr>)"
    by (rule ok_requeue) (use b in \<open>auto split: sum.splits\<close>)
  then show ?thesis
    by (intro step_ok_trans [OF st]) (use quiet_simps(2) [OF q] in \<open>simp_all add: with_vs_def with_db_def\<close>)
qed

section \<open>Every step\<close>

lemma step_keeps:
  assumes "db_step F a w w'" "winv F w"
  shows "step_ok F a w w'"
  using assms(1)
proof (cases rule: db_step.cases)
  case d_begin
  show ?thesis unfolding d_begin(1,2) by (rule ok_begin [OF assms(2)]) (use d_begin in simp_all)
next
  case d_draw
  show ?thesis unfolding d_draw(1,2) by (rule ok_draw [OF assms(2)]) (use d_draw in simp_all)
next
  case d_reserve
  show ?thesis unfolding d_reserve(1,2) by (rule ok_reserve [OF assms(2)]) (use d_reserve in simp_all)
next
  case d_insert
  show ?thesis unfolding d_insert(1,2) by (rule ok_insert [OF assms(2)]) (use d_insert in simp_all)
next
  case d_update
  show ?thesis unfolding d_update(1,2) by (rule ok_update [OF assms(2)]) (use d_update in simp_all)
next
  case d_remove
  show ?thesis unfolding d_remove(1,2) by (rule ok_remove [OF assms(2)]) (use d_remove in simp_all)
next
  case d_begin_commit
  show ?thesis unfolding d_begin_commit(1,2) by (rule ok_begin_commit [OF assms(2)]) (use d_begin_commit in simp_all)
next
  case d_finish_commit
  show ?thesis unfolding d_finish_commit(1,2)
    by (rule ok_finish_commit [OF assms(2)]) (use d_finish_commit in \<open>simp_all split: if_splits\<close>)
next
  case d_mark
  show ?thesis unfolding d_mark(1,2) by (rule ok_mark [OF assms(2)]) (use d_mark in simp_all)
next
  case d_commit_read_only
  show ?thesis unfolding d_commit_read_only(1,2) by (rule ok_commit_read_only [OF assms(2)]) (use d_commit_read_only in simp_all)
next
  case d_end_read_only
  show ?thesis unfolding d_end_read_only(1,2) by (rule ok_end_read_only [OF assms(2)]) (use d_end_read_only in simp_all)
next
  case d_abort
  show ?thesis unfolding d_abort by (rule ok_abort [OF assms(2)])
next
  case d_finish_abort
  show ?thesis unfolding d_finish_abort(1,2) by (rule ok_finish_abort [OF assms(2)]) (use d_finish_abort in simp_all)
next
  case d_horizon
  show ?thesis unfolding d_horizon by (rule ok_horizon [OF assms(2)])
next
  case d_prune
  show ?thesis unfolding d_prune by (rule ok_prune [OF assms(2)])
next
  case d_vacuum
  show ?thesis unfolding d_vacuum(1,2) by (rule ok_vacuum [OF assms(2)]) (use d_vacuum in simp_all)
next
  case d_purge
  show ?thesis unfolding d_purge(1,2) by (rule ok_purge [OF assms(2)]) (use d_purge in simp_all)
next
  case d_log_commit
  show ?thesis unfolding d_log_commit(1,2) by (rule ok_other(2) [OF assms(2)])
next
  case d_log_sequence
  show ?thesis unfolding d_log_sequence(1,2) by (rule ok_other(2) [OF assms(2)])
next
  case d_other
  show ?thesis unfolding d_other by (rule ok_other(1) [OF assms(2)])
qed

end
