(* ===== verification/Mvcc_Isolation.thy ===== *)
theory Mvcc_Isolation
  imports Mvcc_Revert
begin

text \<open>
  What the transactional core promises its clients: runs of the steps of \<open>Mvcc_Steps\<close> from an
  empty database, in any interleaving, and the theorems on reading, writing, aborting and
  beginning in the states they reach.
\<close>

section \<open>Runs\<close>

definition new_db :: "(table_id \<rightharpoonup> u64 option) \<Rightarrow> lsn_clock \<Rightarrow> db" where
  "new_db tabs c = \<lparr>db_tm = tm_new c, db_vs = vs_new, db_rows = Map.empty, db_tables = tabs, db_log = [], db_degraded = None,
     db_forced = Map.empty, db_attempts = Map.empty\<rparr>"

definition new_world :: "(table_id \<rightharpoonup> u64 option) \<Rightarrow> lsn_clock \<Rightarrow> world" where
  "new_world tabs c = \<lparr>w_db = new_db tabs c, w_pool = {}, w_horizon = None, w_marking = Map.empty, w_purging = []\<rparr>"

text \<open>A run, with the writers of its steps.\<close>

inductive db_run :: "txn_id set \<Rightarrow> txn_id option list \<Rightarrow> world \<Rightarrow> world \<Rightarrow> bool" for F where
  run_here: "db_run F [] w w"
| run_step: "db_run F as w w' \<Longrightarrow> db_step F a w' w'' \<Longrightarrow> db_run F (as @ [a]) w w''"

definition db_reach :: "txn_id set \<Rightarrow> world \<Rightarrow> bool" where
  "db_reach F w = (\<exists>tabs c as. db_run F as (new_world tabs c) w)"

lemma run_trans: "db_run F bs w' w'' \<Longrightarrow> db_run F as w w' \<Longrightarrow> db_run F (as @ bs) w w''"
proof (induction rule: db_run.induct)
  case (run_step bs w' w1 a w'')
  from db_run.run_step [OF run_step.IH [OF run_step.prems] run_step.hyps(2)] show ?case by simp
qed simp

lemma reach_run: "db_reach F w \<Longrightarrow> db_run F as w w' \<Longrightarrow> db_reach F w'"
  unfolding db_reach_def using run_trans by blast

lemma winv_new: "winv F (new_world tabs c)"
  using tm_wf_new [of c] vs_wf_new
  by (intro invI) (auto simp: new_world_def new_db_def undo_ok_def in_flight_def is_committed_def
      has_writes_def vs_new_def owns_def writes_of_def tm_new_def state_of_def)

lemma run_inv: "db_run F as w w' \<Longrightarrow> winv F w \<Longrightarrow> winv F w' \<and> goes_on F w w'"
proof (induction rule: db_run.induct)
  case (run_here w)
  then show ?case by (simp add: goes_on_def)
next
  case (run_step as w w' a w'')
  then have "step_ok F a w' w''" by (blast intro: step_keeps)
  then show ?case using run_step unfolding step_ok_def goes_on_def by (auto dest: order.trans)
qed

lemma reach_inv: "db_reach F w \<Longrightarrow> winv F w"
  unfolding db_reach_def using run_inv [OF _ winv_new] by blast

lemma active_bound: "winv F w \<Longrightarrow> is_transaction_active (w_tm w) r \<Longrightarrow> r < counter_of (w_tm w)"
  using tm_wfD(2) [OF invD(1)] by (auto simp: active_iff)

lemma run_view:
  assumes "db_run F as w w'" "winv F w" "is_transaction_active (w_tm w) r" "is_transaction_active (w_tm w') r" "r \<notin> F" "Some r \<notin> set as"
    and "view w r k = Some x"
  shows "view w' r k = Some x"
  using assms
proof (induction rule: db_run.induct)
  case (run_step as w w' a w'')
  have inv': "winv F w'" and on: "goes_on F w w'" using run_inv [OF run_step.hyps(1) run_step.prems(1)] by simp_all
  have ok: "step_ok F a w' w''" by (rule step_keeps [OF run_step.hyps(2) inv'])
  have "r < counter_of (w_tm w')" using active_bound [OF run_step.prems(1,2)] on unfolding goes_on_def by (meson less_le_trans)
  then have act: "is_transaction_active (w_tm w') r"
    using ok run_step.prems(3,4) unfolding step_ok_def goes_on_def by (meson leD)
  then have "view w' r k = Some x" using run_step by simp
  with ok act run_step.prems show ?case unfolding step_ok_def by (metis in_set_conv_decomp)
qed

section \<open>Reading as a running transaction\<close>

lemma snapshot_of:
  assumes "tm_wf m" "is_transaction_active m r"
  shows "\<exists>sn. take_snapshot m r = Some sn \<and> tm_arcs m r = Some sn \<and> sn_reader sn = r \<and> sn_active sn"
proof -
  obtain sn where sn: "tm_arcs m r = Some sn" using active_began [OF assms] by auto
  obtain p where "state_of m r = Some (Active p)" using assms(2) by (auto simp: active_iff)
  then show ?thesis using tm_wfD(5) [OF assms(1), of r] tm_wfD(6) [OF assms(1) sn] assms(2) sn
    by (auto simp: take_snapshot_def snap_wf_def)
qed

lemma find_as_view:
  assumes inv: "winv F w" and r: "is_transaction_active (w_tm w) r" "r \<notin> F"
  shows "find_as tid i r (w_db w) = (if db_tables (w_db w) tid = None then Some (Inl (TableNotFound ''table''), w_db w)
    else map_option (\<lambda>x. (x, w_db w)) (view w r (row_key tid i)))"
proof -
  obtain sn where sn: "take_snapshot (w_tm w) r = Some sn" "tm_arcs (w_tm w) r = Some sn" "sn_reader sn = r" "sn_active sn"
    using snapshot_of [OF invD(1) [OF inv] r(1)] by blast
  have "look_row (reader_sees (w_db w) sn) (w_vs w) (w_rows w k) = view w r k" for k
  proof (cases "w_rows w k")
    case (Some t)
    have "look (reader_sees (w_db w) sn) (w_vs w) t = look (seen_by (w_tm w) r) (w_vs w) t"
      by (rule look_cong [OF invD(4) [OF inv Some]])
        (use reader_sees_table [OF _ r sn(2,3)] settled_visible [OF _ r] in \<open>auto simp: seen_by_def\<close>)
    with Some show ?thesis by (simp add: view_def look_row_def)
  qed (simp add: view_def look_row_def)
  then show ?thesis
    using sn by (auto simp: find_as_def db_snapshot_def find_in_def check_snapshot_def table_by_id_def find_row_look split: option.split)
qed

text \<open>
  C1. Snapshot isolation. In every state a database can reach, through any interleaving of
  transactions beginning, writing, committing and aborting, of failing writes, and of the
  maintenance thread forgetting, discarding and purging: once a running transaction has found a
  row (or its absence) under a key, every later read of that key while it runs finds the same,
  unless the transaction itself wrote. (Transactions of \<open>F\<close> are those with a commit whose record
  could not be queued.)
\<close>

theorem snapshot_isolation:
  assumes "db_reach F w" and "db_run F as w w'" and "is_transaction_active (w_tm w) r" and "is_transaction_active (w_tm w') r"
    and "r \<notin> F" and "Some r \<notin> set as" and "find_as tid i r (w_db w) = Some (x, d)"
  shows "d = w_db w \<and> find_as tid i r (w_db w') = Some (x, w_db w')"
proof -
  have inv: "winv F w" by (rule reach_inv [OF assms(1)])
  have inv': "winv F w'" and tab: "db_tables (w_db w') = db_tables (w_db w)"
    using run_inv [OF assms(2) inv] by (simp_all add: goes_on_def)
  show ?thesis
    using assms(7) run_view [OF assms(2) inv assms(3-6)]
    unfolding find_as_view [OF inv assms(3,5)] find_as_view [OF inv' assms(4,5)] tab by (auto split: if_splits)
qed

text \<open>
  C5. A read succeeds and ends: under a running transaction a lookup is never answered with a
  missing version or another error, however much has been vacuumed, and it waits for nothing but
  a writer between the two halves of a commit that precedes the reader.
\<close>

theorem reads_succeed:
  assumes "db_reach F w" and "is_transaction_active (w_tm w) r" and "r \<notin> F" and "db_tables (w_db w) tid \<noteq> None"
    and "\<forall>t ts p. state_of (w_tm w) t = Some (Committing ts p) \<longrightarrow> r < ts"
  shows "\<exists>row. find_as tid i r (w_db w) = Some (Inr row, w_db w)"
proof -
  have inv: "winv F w" by (rule reach_inv [OF assms(1)])
  have waits: "seen_by (w_tm w) r x \<noteq> None" for x
    using assms(5) by (auto simp: seen_by_def visible_now_def split: option.split txn_state.split)
  have "\<exists>row. view w r k = Some (Inr row)" for k
  proof (cases "w_rows w k")
    case (Some t)
    then show ?thesis
      using look_returns [OF invD(4) [OF inv Some] assms(2,3)] waits by (auto simp: view_def look_row_def)
  qed (simp add: view_def look_row_def)
  then show ?thesis using find_as_view [OF inv assms(2,3)] assms(4) by (metis (no_types) option.simps(9))
qed

text \<open>
  Transactions not yet begun have not failed to commit either: of those the set \<open>F\<close> names, the run
  so far rests on none.
\<close>

lemma step_begun:
  assumes "db_step F a w w'" and "winv F w" and "F \<inter> {t. t < counter_of (w_tm w)} \<subseteq> G"
  shows "db_step G a w w'"
  using assms(1)
proof (cases rule: db_step.cases)
  case (d_finish_commit logged ts t p)
  then have "t < counter_of (w_tm w)" using tm_wfD(2) [OF invD(1) [OF assms(2)]] by blast
  then show ?thesis
    unfolding d_finish_commit(1,2) using d_finish_commit(3,4) assms(3) by (intro db_step.d_finish_commit) (auto split: if_splits)
qed (blast intro: db_step.intros)+

lemma run_begun:
  "db_run F as w w' \<Longrightarrow> winv F w \<Longrightarrow> F \<inter> {t. t < counter_of (w_tm w')} \<subseteq> G \<Longrightarrow> db_run G as w w'"
proof (induction arbitrary: rule: db_run.induct)
  case (run_step as w w' a w'')
  have inv': "winv F w'" using run_inv [OF run_step.hyps(1) run_step.prems(1)] by simp
  have "counter_of (w_tm w') \<le> counter_of (w_tm w'')"
    using step_keeps [OF run_step.hyps(2) inv'] by (simp add: step_ok_def goes_on_def)
  then have G: "F \<inter> {t. t < counter_of (w_tm w')} \<subseteq> G" using run_step.prems(2) by fastforce
  show ?case by (rule db_run.run_step [OF run_step.IH [OF run_step.prems(1) G] step_begun [OF run_step.hyps(2) inv' G]])
qed (rule db_run.run_here)

lemma reach_begun: "db_reach F w \<Longrightarrow> db_reach (F \<inter> {t. t < counter_of (w_tm w)}) w"
  unfolding db_reach_def using run_begun [OF _ winv_new] by blast

definition last_committed :: "row_key \<Rightarrow> db \<Rightarrow> tuple option" where
  "last_committed k d =
     (case db_rows d k of
        None \<Rightarrow> None
      | Some row \<Rightarrow> (case find_last_committed row d of
            Some (Inr (Some v)) \<Rightarrow> if tuple_is_tombstoned v then None else Some v
          | _ \<Rightarrow> None))"

text \<open>What the transaction just begun is told of the others: nothing yet of one between the halves of its commit.\<close>

definition told_at_begin :: "txn_mgr \<Rightarrow> txn_id \<Rightarrow> bool option" where
  "told_at_begin m x = (case state_of m x of Some (Committing _ _) \<Rightarrow> None | _ \<Rightarrow> Some (is_committed m x))"

text \<open>
  Going back from the newest version under a key, past those of transactions that run or are being
  aborted, the first one left is of a transaction between the two halves of its commit.
\<close>

definition half_committed :: "row_key \<Rightarrow> db \<Rightarrow> bool" where
  "half_committed k d =
     (case db_rows d k of
        None \<Rightarrow> False
      | Some row \<Rightarrow> walk_back (told_at_begin (db_tm d)) (db_vs d) row = None)"

lemma look_last_committed:
  assumes "look (\<lambda>x. Some (is_committed (db_tm d) x)) (db_vs d) t = Some (Inr x)"
  shows "x = (case find_last_committed t d of Some (Inr (Some v)) \<Rightarrow> if tuple_is_tombstoned v then None else Some v | _ \<Rightarrow> None)"
  using assms by (auto simp: look_def find_last_committed_def unless_tombstone_def split: option.splits sum.splits walk.splits)

lemma look_None: "look vis v t = None \<longleftrightarrow> walk_back vis v t = None"
  by (simp add: look_def split: option.split sum.split walk.split)

lemma look_told:
  assumes ch: "chain F m v U k t" and "db_tm d = m" "db_vs d = v" and y: "look (told_at_begin m) v t = Some (Inr y)"
  shows "y = (case find_last_committed t d of Some (Inr (Some v)) \<Rightarrow> if tuple_is_tombstoned v then None else Some v | _ \<Rightarrow> None)"
proof -
  have set: "settled F m x \<Longrightarrow> told_at_begin m x = Some True" for x by (auto simp: settled_def is_committed_def told_at_begin_def)
  obtain x0 where "t_txn_id t = Some x0" using chain_writer [OF ch] by blast
  then have "look (\<lambda>x. Some (is_committed m x)) v t = Some (Inr y)"
    by (rule look_stable [OF ch, where X = "{}" and m' = m, OF _ _ _ _ set _ _ y])
      (auto simp: told_at_begin_def settled_def is_committed_def split: option.splits txn_state.splits)
  then show ?thesis using look_last_committed [of d t y] assms(2,3) by simp
qed

lemma begin_view:
  assumes inv: "winv F w" and room: "room 1 w" and d: "d = snd (begin_txn p (w_db w))" and r: "r = counter_of (w_tm w)" "r \<notin> F"
  shows "view (with_db d w) r k = (if half_committed k (w_db w) then None else Some (Inr (last_committed k (w_db w))))"
proof (cases "w_rows w k")
  case None
  then show ?thesis by (simp add: view_def look_row_def last_committed_def half_committed_def d)
next
  case (Some t)
  note ch = invD(4) [OF inv Some]
  have st: "state_of (db_tm d) x = (if x = r then Some (Active p) else state_of (w_tm w) x)" for x by (simp add: d r tm_simps)
  have vis: "seen_by (w_tm (with_db d w)) r x = told_at_begin (w_tm w) x" if "x \<noteq> r" for x
    using that tm_wfD(3) [OF invD(1) [OF inv], of x] r
    by (auto simp: told_at_begin_def seen_by_def visible_now_def is_committed_def st split: option.split txn_state.split)
  have began: "writer_ok F (w_tm w) (w_vs w) x \<Longrightarrow> x \<noteq> r" for x
    using began_less [OF invD(1) [OF inv], of x] r by (auto simp: writer_ok_def)
  have look: "look (seen_by (w_tm (with_db d w)) r) (w_vs w) t = look (told_at_begin (w_tm w)) (w_vs w) t"
    by (rule look_cong [OF ch vis [OF began]]) (auto simp: settled_def is_committed_def told_at_begin_def)
  have "winv F (with_db d w)" using ok_begin [OF inv room, of None p] by (simp add: step_ok_def d)
  then have "chain F (w_tm (with_db d w)) (w_vs w) (spent (with_db d w)) k t" using invD(4) [of F "with_db d w" k t] Some by (simp add: d)
  from look_returns(1) [OF this _ r(2)] look st
  consider "look (told_at_begin (w_tm w)) (w_vs w) t = None" | y where "look (told_at_begin (w_tm w)) (w_vs w) t = Some (Inr y)"
    by (fastforce simp: active_iff)
  then show ?thesis
  proof cases
    case 1
    then show ?thesis using Some look by (simp add: view_def look_row_def half_committed_def look_None d)
  next
    case 2
    then have "walk_back (told_at_begin (w_tm w)) (w_vs w) t \<noteq> None" using look_None [of "told_at_begin (w_tm w)" "w_vs w" t] by simp
    then show ?thesis
      using Some look 2 look_told [OF ch refl refl 2] by (simp add: view_def look_row_def half_committed_def last_committed_def d)
  qed
qed

text \<open>
  C6. What a transaction sees when it begins is the last committed state: for every key, the
  newest version whose writer has committed, unless that is a tombstone. The one exception is a key
  whose next older version, past those of running transactions, is of a transaction between the
  two halves of its commit: the read waits for that commit to be decided.
\<close>

theorem begins_at_last_commit:
  assumes "db_reach F w" and "room 1 w" and "begin_txn p (w_db w) = (res, d)" and "db_tables (w_db w) tid \<noteq> None"
  shows "\<exists>r. res = Inr r \<and> find_as tid i r d =
    (if half_committed (row_key tid i) (w_db w) then None else Some (Inr (last_committed (row_key tid i) (w_db w)), d))"
proof -
  let ?r = "counter_of (w_tm w)" and ?F = "F \<inter> {t. t < counter_of (w_tm w)}"
  have inv: "winv ?F w" by (rule reach_inv [OF reach_begun [OF assms(1)]])
  have d: "d = snd (begin_txn p (w_db w))" and res: "res = Inr ?r"
    using assms(3) by (simp_all add: begin_txn_def create_transaction_def split_beta Let_def tm_simps)
  have inv': "winv ?F (with_db d w)" using ok_begin [OF inv assms(2), of None p] by (simp add: step_ok_def d)
  have r: "is_transaction_active (w_tm (with_db d w)) ?r" "?r \<notin> ?F" by (simp_all add: active_iff d tm_simps)
  show ?thesis
    using find_as_view [OF inv' r, of tid i] begin_view [OF inv assms(2) d refl r(2)] assms(4) res by (simp add: d)
qed

section \<open>Writing\<close>

text \<open>No commit timestamp is ever the id of a transaction, so a row is no conflict exactly if it is seen.\<close>

lemma stamps_apart_quiet: "quiet m m' \<Longrightarrow> stamps_apart m \<Longrightarrow> stamps_apart m'"
  by (simp add: stamps_apart_def quiet_simps) (simp add: quiet_def)

lemma quiet_room: "winv F w \<Longrightarrow> room n w \<Longrightarrow> n > 0 \<Longrightarrow> quiet (w_tm w) (snd (mint (w_tm w)))"
  by (rule quiet_mint) (simp_all add: invD(1) room_counter)

lemma write_version_tm:
  assumes "db_tm (snd (decide (db_rows d (row_key tid i)) d)) = db_tm d"
  shows "db_tm (snd (write_version tid i tree_err decide d)) = db_tm d"
proof -
  obtain r d1 where d1: "decide (db_rows d (row_key tid i)) d = (r, d1)" by fastforce
  then show ?thesis using assms by (auto simp: write_version_def Let_def split: sum.split decision.split option.split)
qed

lemma record_and_log_tm [simp]: "db_tm (snd (record_and_log l op log_err dec d)) = db_tm d"
  by (simp add: record_and_log_def Let_def split: option.split)

lemma decision_tm [simp]:
  "db_tm (snd (insert_decision tid tup t l log_err cur d)) = db_tm d"
  "db_tm (snd (update_decision tid new t l log_err base d)) = db_tm d"
  "db_tm (snd (remove_decision tid t l log_err base d)) = db_tm d"
  by (simp_all add: insert_decision_def update_decision_def remove_decision_def Let_def split: option.split sum.split)

lemma stamps_apart_db_step:
  assumes "db_step F a w w'" and inv: "winv F w" and st: "stamps_apart (w_tm w)"
  shows "stamps_apart (w_tm w')"
proof -
  note wf = invD(1) [OF inv]
  have by_step: "tm_step (any_fate F) (w_tm w) m \<Longrightarrow> stamps_apart m" for m using stamps_apart_step wf st by blast
  note quiet = stamps_apart_quiet [OF _ st]
  from assms(1) show ?thesis
  proof (cases rule: db_step.cases)
    case (d_begin p)
    then show ?thesis using by_step [OF step_create [OF room_counter]] by simp
  next
    case d_draw
    then show ?thesis using quiet [OF quiet_draw [OF inv]] by simp
  next
    case d_reserve
    then show ?thesis using quiet [OF quiet_draw [OF inv]] by (simp add: with_db_def)
  next
    case (d_begin_commit t)
    then show ?thesis using by_step [OF step_begin_commit [OF room_counter]] by simp
  next
    case (d_finish_commit logged ts t p)
    then show ?thesis using by_step [OF step_finish_commit] by (simp add: with_tm_def split: if_splits)
  next
    case (d_commit_read_only t ts)
    then show ?thesis using by_step [OF step_commit, of t ts] by simp
  next
    case (d_end_read_only t)
    then show ?thesis using by_step [OF step_end_read_only, of t] by simp
  next
    case (d_abort t)
    then show ?thesis using by_step [OF step_abort, of t] by simp
  next
    case (d_finish_abort t \<omega>)
    obtain m b where m: "quiet (w_tm w) m" "w_tm w' \<in> {m, snd (abort_complete t b m)}"
      using finish_abort_ends(1) [OF inv d_finish_abort(3-5)] d_finish_abort(2) by auto
    have "tm_step (any_fate F) m (snd (abort_complete t b m))"
      using d_finish_abort(3) quiet_simps(1) [OF m(1)] by (intro step_abort_complete) simp_all
    then show ?thesis using m quiet [OF m(1)] stamps_apart_step by (auto simp: quiet_def)
  next
    case d_prune
    then show ?thesis using by_step [OF step_prune] by (simp add: prune_and_discard_def split_beta)
  next
    case (d_purge b bs \<omega> r d)
    have q1: "drawn 1 (w_tm w) (snd (mint (w_tm w)))" using drawn_mint [OF wf, of 0] d_purge by (simp add: room_def)
    have q2: "drawn 1 (snd (mint (w_tm w))) (snd (mint (snd (mint (w_tm w)))))"
      using drawn_mint [OF drawn_wf [OF q1], of 0] q1 d_purge by (simp add: room_def drawn_def)
    show ?thesis
      using purge_cases(3) [OF d_purge(5)] st quiet q1 drawn_trans [OF q1 q2] d_purge(2) by (auto simp: drawn_def with_db_def)
  next
    case (d_insert l t tid tup tuple tree_err log_err)
    show ?thesis unfolding d_insert(2) using st by (simp add: with_db_def write_version_tm)
  next
    case (d_update l t tid i base tree_err new log_err)
    show ?thesis unfolding d_update(2) using st by (simp add: with_db_def write_version_tm)
  next
    case (d_remove l t tid i base tree_err log_err)
    show ?thesis unfolding d_remove(2) using st by (simp add: with_db_def write_version_tm)
  qed (use st in \<open>simp_all add: with_vs_def with_db_def\<close>)
qed

lemma run_stamps: "db_run F as w w' \<Longrightarrow> winv F w \<Longrightarrow> stamps_apart (w_tm w) \<Longrightarrow> stamps_apart (w_tm w')"
  by (induction rule: db_run.induct) (use stamps_apart_db_step run_inv in blast)+

lemma reach_stamps: "db_reach F w \<Longrightarrow> stamps_apart (w_tm w)"
  unfolding db_reach_def using run_stamps [OF _ winv_new]
  by (fastforce simp: new_world_def new_db_def stamps_apart_def tm_new_def state_of_def)

text \<open>A row without conflict is the version the writer sees.\<close>

lemma free_row_seen:
  assumes inv: "winv F w" and st: "stamps_apart (w_tm w)" and t: "is_transaction_active (w_tm w) t"
    and row: "w_rows w k = Some c" "check_write_conflict c t d = Inr ()" "db_tm d = w_tm w"
  shows "view w t k = Some (Inr (unless_tombstone c))"
proof -
  obtain x where x: "t_txn_id c = Some x" "\<not> conflicts (w_tm w) x t"
    using row(2,3) by (auto simp: check_write_conflict_def split: option.splits if_splits)
  have "ts \<noteq> t" if "state_of (w_tm w) x = Some (Committed ts)" for ts
    using st that active_began [OF invD(1) [OF inv] t] by (auto simp: stamps_apart_def)
  then have "seen_by (w_tm w) t x = Some True"
    using x(2) by (auto simp: seen_by_def visible_now_def conflicts_def split: option.splits txn_state.splits if_splits)
  then show ?thesis using look_itself [OF x(1)] row(1) by (simp add: view_def look_row_def)
qed

text \<open>A write that returns has gone through.\<close>

lemma after_write_ok: "after_write \<omega> r t d = (Inr x, d') \<Longrightarrow> r = Inr x \<and> d' = d"
  by (auto simp: after_write_def split: sum.splits store_error.splits prod.splits if_splits)

lemma write_with_policy_ok:
  "write_with_policy \<omega> tid i t decide d = (Inr x, d') \<Longrightarrow> write_version tid i (fl_tree \<omega>) decide d = (Inr x, d')"
  by (cases "write_version tid i (fl_tree \<omega>) decide d")
    (auto simp: write_with_policy_def split: sum.splits dest!: after_write_ok)

lemma write_version_ok:
  assumes "write_version tid i tree_err decide d = (Inr x, d')"
    and "decide (db_rows d (row_key tid i)) d = record_and_log l op log_err dec d" "dec = Insert new \<or> dec = Replace new"
  shows "db_rows d' = (db_rows d)(row_key tid i \<mapsto> new)" "dec = Replace new \<Longrightarrow> db_rows d (row_key tid i) = Some old \<Longrightarrow> x = WReplaced old"
  using assms by (cases log_err; auto simp: write_version_def record_and_log_def Let_def split: if_splits option.splits)+

lemma require_active_ok: "require_active t d = (Inr u, d') \<Longrightarrow> is_transaction_active (db_tm d) t \<and> d' = d"
  by (auto simp: require_active_def split: if_splits option.splits)

lemma base_version_free: "base_version t i (Some c) d = Some (Inr old) \<Longrightarrow> check_write_conflict c t d = Inr ()"
  by (auto simp: base_version_def split: sum.splits)

text \<open>The world once a number is drawn for a write.\<close>

definition drawn_for_write :: "world \<Rightarrow> world" where
  "drawn_for_write w = (with_db (snd (draw (w_db w))) w)\<lparr>w_pool := insert (fst (draw (w_db w))) (w_pool w)\<rparr>"

lemma drawn_for_write:
  assumes inv: "winv F w" and r: "room 1 w" and t: "is_transaction_active (w_tm w) t"
  shows "winv F (drawn_for_write w)" "counter_of (w_tm w) \<in> w_pool (drawn_for_write w)"
    "is_transaction_active (w_tm (drawn_for_write w)) t" "w_db (drawn_for_write w) = snd (draw (w_db w))"
    "stamps_apart (w_tm w) \<Longrightarrow> stamps_apart (w_tm (drawn_for_write w))"
    "t \<notin> F \<Longrightarrow> view w t k = Some x \<Longrightarrow> view (drawn_for_write w) t k = Some x"
    "t \<notin> F \<Longrightarrow> view (drawn_for_write w) t k = Some x \<Longrightarrow> view w t k = Some x"
proof -
  have ok: "step_ok F None w (drawn_for_write w)" unfolding drawn_for_write_def by (rule ok_reserve [OF inv r])
  have q: "quiet (w_tm w) (snd (mint (w_tm w)))" by (rule quiet_draw [OF inv r])
  have vis: "seen_by (snd (mint (w_tm w))) t = seen_by (w_tm w) t" by (simp add: seen_by_def fun_eq_iff quiet_simps [OF q])
  have same: "view (drawn_for_write w) t k = view w t k" by (simp add: view_def drawn_for_write_def vis)
  show "winv F (drawn_for_write w)" using ok by (simp add: step_ok_def)
  show "is_transaction_active (w_tm (drawn_for_write w)) t" using quiet_simps(2) [OF q] t by (simp add: drawn_for_write_def)
  show "stamps_apart (w_tm w) \<Longrightarrow> stamps_apart (w_tm (drawn_for_write w))"
    using stamps_apart_quiet [OF q] by (simp add: drawn_for_write_def)
  show "view w t k = Some x \<Longrightarrow> view (drawn_for_write w) t k = Some x"
    "view (drawn_for_write w) t k = Some x \<Longrightarrow> view w t k = Some x" by (simp_all add: same)
qed (simp_all add: drawn_for_write_def)

text \<open>What is under the key after a write that went through is what its writer finds.\<close>

lemma written_found:
  assumes ok: "step_ok F (Some t) w w'" and act: "is_transaction_active (w_tm w') t" "t \<notin> F" and tab: "db_tables (w_db w') tid \<noteq> None"
    and row: "w_rows w' (row_key tid i) = Some new" "t_txn_id new = Some t"
  shows "find_as tid i t (w_db w') = Some (Inr (unless_tombstone new), w_db w')"
proof -
  have "view w' t (row_key tid i) = Some (Inr (unless_tombstone new))"
    using look_itself [OF row(2), of "seen_by (w_tm w') t"] row(1) by (simp add: view_def look_row_def seen_by_def visible_now_def)
  moreover have "winv F w'" using ok by (simp add: step_ok_def)
  ultimately show ?thesis using find_as_view [OF _ act] tab by simp
qed

lemma require_active_active: "is_transaction_active (db_tm d) t \<Longrightarrow> require_active t d = (Inr (), d)"
  by (simp add: require_active_def)

lemma policy_wrote:
  "map_sum id (\<lambda>_. ()) (fst (write_with_policy \<omega> tid i t decide d)) = Inr () \<Longrightarrow>
   \<exists>x. write_version tid i (fl_tree \<omega>) decide d = (Inr x, snd (write_with_policy \<omega> tid i t decide d))"
  by (cases "write_with_policy \<omega> tid i t decide d"; cases "fst (write_with_policy \<omega> tid i t decide d)")
    (auto dest: write_with_policy_ok)

lemma db_update_ok:
  assumes "db_update S \<omega> tid new t d = Some (Inr (), d')"
  shows "is_transaction_active (db_tm d) t" "db_tables d tid \<noteq> None"
    "\<exists>base x. base_version t (t_id new) (db_rows d (row_key tid (t_id new))) (snd (draw d)) = Some base
      \<and> write_version tid (t_id new) (fl_tree \<omega>) (\<lambda>_. update_decision tid new t (counter_of (db_tm d)) (fl_log \<omega>) base) (snd (draw d)) = (Inr x, d')"
proof -
  show act: "is_transaction_active (db_tm d) t" and "db_tables d tid \<noteq> None"
    using assms by (auto simp: db_update_def table_by_id_def split: prod.splits sum.splits option.splits dest!: require_active_ok)
  show "\<exists>base x. base_version t (t_id new) (db_rows d (row_key tid (t_id new))) (snd (draw d)) = Some base
      \<and> write_version tid (t_id new) (fl_tree \<omega>) (\<lambda>_. update_decision tid new t (counter_of (db_tm d)) (fl_log \<omega>) base) (snd (draw d)) = (Inr x, d')"
    using assms unfolding db_update_def require_active_active [OF act] prod.case sum.case
    by (auto simp: Let_def split_beta split: sum.splits option.splits dest: policy_wrote)
qed

lemma db_remove_ok:
  assumes "db_remove \<omega> tid i t d = Some (Inr old, d')"
  shows "is_transaction_active (db_tm d) t" "db_tables d tid \<noteq> None"
    "\<exists>base. base_version t i (db_rows d (row_key tid i)) (snd (draw d)) = Some base
      \<and> write_version tid i (fl_tree \<omega>) (\<lambda>_. remove_decision tid t (counter_of (db_tm d)) (fl_log \<omega>) base) (snd (draw d)) = (Inr (WReplaced old), d')"
proof -
  show act: "is_transaction_active (db_tm d) t" and "db_tables d tid \<noteq> None"
    using assms by (auto simp: db_remove_def table_by_id_def split: prod.splits sum.splits option.splits dest!: require_active_ok)
  show "\<exists>base. base_version t i (db_rows d (row_key tid i)) (snd (draw d)) = Some base
      \<and> write_version tid i (fl_tree \<omega>) (\<lambda>_. remove_decision tid t (counter_of (db_tm d)) (fl_log \<omega>) base) (snd (draw d)) = (Inr (WReplaced old), d')"
    using assms unfolding db_remove_def require_active_active [OF act] prod.case sum.case
    by (auto simp: Let_def split_beta split: sum.splits option.splits write_result.splits intro!: write_with_policy_ok prod_eqI)
qed

lemma db_insert_ok:
  assumes "db_insert S \<omega> tid tuple t d = (Inr (), d')"
  shows "is_transaction_active (db_tm d) t" "db_tables d tid \<noteq> None"
    "\<exists>x. write_version tid (t_id tuple) (fl_tree \<omega>) (insert_decision tid (stamped t tuple) t (counter_of (db_tm d)) (fl_log \<omega>)) (snd (draw d)) = (Inr x, d')"
proof -
  show act: "is_transaction_active (db_tm d) t" and "db_tables d tid \<noteq> None"
    using assms by (auto simp: db_insert_def Let_def table_by_id_def split: prod.splits sum.splits option.splits dest!: require_active_ok)
  show "\<exists>x. write_version tid (t_id tuple) (fl_tree \<omega>) (insert_decision tid (stamped t tuple) t (counter_of (db_tm d)) (fl_log \<omega>)) (snd (draw d)) = (Inr x, d')"
    using assms unfolding db_insert_def require_active_active [OF act] prod.case sum.case
    by (auto simp: Let_def split_beta stamped_def split: sum.splits dest: policy_wrote)
qed

lemma row_seen_before:
  assumes inv: "winv F w" and st: "stamps_apart (w_tm w)" and r: "room 1 w" and t: "is_transaction_active (w_tm w) t" "t \<notin> F"
    and tab: "db_tables (w_db w) tid \<noteq> None"
    and row: "w_rows w (row_key tid i) = Some c" "check_write_conflict c t (snd (draw (w_db w))) = Inr ()"
  shows "find_as tid i t (w_db w) = Some (Inr (unless_tombstone c), w_db w)"
proof -
  note w = drawn_for_write [OF inv r t(1)]
  have "view (drawn_for_write w) t (row_key tid i) = Some (Inr (unless_tombstone c))"
    by (rule free_row_seen [OF w(1) w(5) [OF st] w(3) _ row(2)]) (simp_all add: w(4) row(1))
  from w(7) [OF t(2) this] show ?thesis using find_as_view [OF inv t] tab by simp
qed

lemma set_flags [simp]:
  "tuple_is_tombstoned (set_data x c) = tuple_is_tombstoned c" "tuple_is_tombstoned (set_pre_lsn n c) = tuple_is_tombstoned c"
  "tuple_is_tombstoned (set_txn_id t c) = tuple_is_tombstoned c" "tuple_is_tombstoned (set_pre_lsn_none c) = tuple_is_tombstoned c"
  by (simp_all add: tuple_is_tombstoned_def set_data_def set_pre_lsn_def set_txn_id_def set_pre_lsn_none_def)

lemma replace_found:
  fixes w
  defines "w0 \<equiv> drawn_for_write w" and "l \<equiv> counter_of (w_tm w)"
  assumes inv: "winv F w" "stamps_apart (w_tm w)" and r: "room 1 w" and t: "is_transaction_active (w_tm w) t" "t \<notin> F"
    and tab: "db_tables (w_db w) tid \<noteq> None"
    and base: "base_version t i (w_rows w (row_key tid i)) (snd (draw (w_db w))) = Some base"
    and wr: "write_version tid i tree_err (\<lambda>_. dec base) (snd (draw (w_db w))) = (Inr x, d')"
    and dec: "\<And>e d. dec (Inl e) d = (Inl e, d)" "\<And>old d. dec (Inr old) d = record_and_log l (op old) log_err (Replace (new old)) d"
    and new: "\<And>old. t_txn_id (new old) = Some t"
    and step: "step_ok F (Some t) w0 ((with_db d' w0)\<lparr>w_pool := w_pool w0 - {l}\<rparr>)"
  shows "\<exists>old. x = WReplaced old \<and> \<not> tuple_is_tombstoned old \<and> find_as tid i t (w_db w) = Some (Inr (Some old), w_db w)
    \<and> find_as tid i t d' = Some (Inr (unless_tombstone (new old)), d')"
proof -
  note w = drawn_for_write [OF inv(1) r t(1), folded w0_def]
  obtain old where old: "base = Inr old" using wr by (cases base) (auto simp: write_version_def dec)
  note cur = base_version_current [OF base [unfolded old]]
  have before: "find_as tid i t (w_db w) = Some (Inr (Some old), w_db w)"
    using row_seen_before [OF inv r t tab, of i old] cur(1,3) base_version_free [of t i old _ old] base
    by (simp add: old unless_tombstone_def)
  have rows: "db_rows d' = (w_rows w)(row_key tid i \<mapsto> new old)" and x: "x = WReplaced old"
    using write_version_ok [OF wr, of l "op old" log_err "Replace (new old)" "new old"] cur(1) by (simp_all add: old dec)
  have tm: "db_tm d' = w_tm w0"
    using arg_cong [OF wr, of snd] write_version_tm [of "\<lambda>_. dec base"] by (auto simp: old dec w(4))
  have "find_as tid i t d' = Some (Inr (unless_tombstone (new old)), d')"
    using written_found [OF step, of tid i "new old"] rows w(3) t(2) tm step tab new
    by (simp add: step_ok_def goes_on_def w(4) with_db_def)
  then show ?thesis using before cur(3) x by blast
qed

lemma db_update_found:
  assumes reach: "db_reach F w" and t: "t \<notin> F" and r: "room 1 w" and up: "db_update S \<omega> tid new t (w_db w) = Some (Inr (), d')"
  shows "\<exists>old. find_as tid (t_id new) t (w_db w) = Some (Inr (Some old), w_db w)
    \<and> find_as tid (t_id new) t d' = Some (Inr (Some (set_data (t_data new) (set_pre_lsn (counter_of (w_tm w)) (set_txn_id t old)))), d')"
proof -
  let ?l = "counter_of (w_tm w)" and ?w = "drawn_for_write w"
  have inv: "winv F w" and st: "stamps_apart (w_tm w)" using reach_inv reach_stamps reach by auto
  note ok = db_update_ok [OF up]
  note w = drawn_for_write [OF inv r ok(1)]
  obtain base x where base: "base_version t (t_id new) (w_rows w (row_key tid (t_id new))) (snd (draw (w_db w))) = Some base"
    and wr: "write_version tid (t_id new) (fl_tree \<omega>) (\<lambda>_. update_decision tid new t ?l (fl_log \<omega>) base) (snd (draw (w_db w))) = (Inr x, d')"
    using ok(3) by blast
  have step: "step_ok F (Some t) ?w ((with_db d' ?w)\<lparr>w_pool := w_pool ?w - {?l}\<rparr>)"
    using ok_update [OF w(1,2,3), of tid "t_id new" base "fl_tree \<omega>" new "fl_log \<omega>"] ok(2) base wr by (simp add: w(4))
  obtain old where "find_as tid (t_id new) t (w_db w) = Some (Inr (Some old), w_db w)" "\<not> tuple_is_tombstoned old"
    "find_as tid (t_id new) t d' = Some (Inr (unless_tombstone (set_data (t_data new) (set_pre_lsn ?l (set_txn_id t old)))), d')"
    using replace_found [OF inv st r ok(1) t ok(2) base, where dec = "update_decision tid new t ?l (fl_log \<omega>)" and d' = d' and log_err = "fl_log \<omega>"
        and op = "\<lambda>old. Mod t (new_record tid old) (new_record tid (set_data (t_data new) (set_pre_lsn ?l (set_txn_id t old))))"
        and new = "\<lambda>old. set_data (t_data new) (set_pre_lsn ?l (set_txn_id t old))", OF wr _ _ _ step]
    by (auto simp: update_decision_def Let_def)
  then show ?thesis by (auto simp: unless_tombstone_def)
qed

lemma db_remove_found:
  assumes reach: "db_reach F w" and t: "t \<notin> F" and r: "room 1 w" and rm: "db_remove \<omega> tid i t (w_db w) = Some (Inr old, d')"
  shows "find_as tid i t (w_db w) = Some (Inr (Some old), w_db w) \<and> find_as tid i t d' = Some (Inr None, d')"
proof -
  let ?l = "counter_of (w_tm w)" and ?w = "drawn_for_write w"
  have inv: "winv F w" and st: "stamps_apart (w_tm w)" using reach_inv reach_stamps reach by auto
  note ok = db_remove_ok [OF rm]
  note w = drawn_for_write [OF inv r ok(1)]
  obtain base where base: "base_version t i (w_rows w (row_key tid i)) (snd (draw (w_db w))) = Some base"
    and wr: "write_version tid i (fl_tree \<omega>) (\<lambda>_. remove_decision tid t ?l (fl_log \<omega>) base) (snd (draw (w_db w))) = (Inr (WReplaced old), d')"
    using ok(3) by blast
  have step: "step_ok F (Some t) ?w ((with_db d' ?w)\<lparr>w_pool := w_pool ?w - {?l}\<rparr>)"
    using ok_remove [OF w(1,2,3), of tid i base "fl_tree \<omega>" "fl_log \<omega>"] ok(2) base wr by (simp add: w(4))
  have dead: "tuple_is_tombstoned (tombstone c)" for c :: tuple
    by (simp add: tuple_is_tombstoned_def tombstone_def flag_tombstoned_def bit_simps)
  show ?thesis
    using replace_found [OF inv st r ok(1) t ok(2) base, where dec = "remove_decision tid t ?l (fl_log \<omega>)" and d' = d' and log_err = "fl_log \<omega>"
        and op = "\<lambda>old. Del t (new_record tid old)" and new = "\<lambda>old. set_pre_lsn ?l (tombstone (set_txn_id t old))", OF wr _ _ _ step]
    by (auto simp: remove_decision_def Let_def unless_tombstone_def dead)
qed

lemma db_insert_found:
  assumes reach: "db_reach F w" and t: "t \<notin> F" and r: "room 1 w" and ins: "db_insert S \<omega> tid tuple t (w_db w) = (Inr (), d')"
  shows "find_as tid (t_id tuple) t (w_db w) = Some (Inr None, w_db w)
    \<and> (\<exists>v. find_as tid (t_id tuple) t d' = Some (Inr (Some v), d') \<and> t_data v = t_data tuple \<and> t_txn_id v = Some t)"
proof -
  let ?l = "counter_of (w_tm w)" and ?w = "drawn_for_write w" and ?tup = "stamped t tuple" and ?k = "row_key tid (t_id tuple)"
  let ?dec = "insert_decision tid ?tup t ?l (fl_log \<omega>)"
  have inv: "winv F w" and st: "stamps_apart (w_tm w)" using reach_inv reach_stamps reach by auto
  note ok = db_insert_ok [OF ins]
  note w = drawn_for_write [OF inv r ok(1)]
  have id: "t_id ?tup = t_id tuple" by (simp add: stamped_def)
  obtain x where wr: "write_version tid (t_id tuple) (fl_tree \<omega>) ?dec (snd (draw (w_db w))) = (Inr x, d')" using ok(3) by blast
  have step: "step_ok F (Some t) ?w ((with_db d' ?w)\<lparr>w_pool := w_pool ?w - {?l}\<rparr>)"
    using ok_insert [OF w(1,2,3), of tid ?tup tuple "fl_tree \<omega>" "fl_log \<omega>"] ok(2) wr by (simp add: w(4) id)
  have tm: "db_tm d' = w_tm ?w" using arg_cong [OF wr, of snd] write_version_tm [of ?dec] by (auto simp: w(4))
  have after: "find_as tid (t_id tuple) t d' = Some (Inr (unless_tombstone v), d')"
    if "db_rows d' = (w_rows w)(?k \<mapsto> v)" "t_txn_id v = Some t" for v
    using written_found [OF step, of tid "t_id tuple" v] that w(3) t tm step ok(2) by (simp add: step_ok_def goes_on_def w(4) with_db_def)
  have alive: "\<not> tuple_is_tombstoned (clear_tombstone c)" for c by (rule tombstone_flags(2))
  show ?thesis
  proof (cases "w_rows w ?k")
    case None
    have "db_rows d' = (w_rows w)(?k \<mapsto> ?tup)"
      using write_version_ok(1) [OF wr, where dec = "Insert ?tup" and new = ?tup] None by (simp add: insert_decision_def)
    then show ?thesis
      using after [of ?tup] find_as_view [OF inv ok(1) t] None ok(2) alive
      by (auto simp: stamped_def view_def look_row_def unless_tombstone_def) (simp add: clear_tombstone_def set_pre_lsn_none_def set_txn_id_def)
  next
    case (Some c)
    let ?new = "clear_tombstone (set_data (t_data ?tup) (set_pre_lsn ?l (set_txn_id t c)))"
    have "\<exists>y. check_write_conflict c t (snd (draw (w_db w))) = Inr y" "tuple_is_tombstoned c"
      using wr Some by (auto simp: write_version_def insert_decision_def split: if_splits sum.splits)
    then have free: "check_write_conflict c t (snd (draw (w_db w))) = Inr ()" "tuple_is_tombstoned c" by simp_all
    have dec: "?dec (Some c) (snd (draw (w_db w))) = record_and_log ?l (Mod t (new_record tid c) (new_record tid ?new)) (fl_log \<omega>) (Replace ?new) (snd (draw (w_db w)))"
      by (simp only: insert_decision_def option.case free if_True sum.case unit.case Let_def)
    have "db_rows d' = (w_rows w)(?k \<mapsto> ?new)"
      using write_version_ok(1) [OF wr, where dec = "Replace ?new" and new = ?new] Some dec by simp
    then show ?thesis
      using after [of ?new] row_seen_before [OF inv st r ok(1) t ok(2) Some free(1)] free(2) alive
      by (auto simp: unless_tombstone_def) (simp add: clear_tombstone_def set_data_def stamped_def set_pre_lsn_none_def set_txn_id_def)
  qed
qed

text \<open>
  C2. A write builds on exactly the version its transaction sees, and its transaction sees it from
  then on: an insert goes through only where the transaction found no row, an update or delete
  only over the row it found, which a delete returns; afterwards it finds the inserted data, the
  found row with the new data, or nothing. So no update is lost: whatever another transaction
  committed in between is a conflict, never overwritten unseen.
\<close>

theorem writes_build_on_what_is_seen:
  assumes "db_reach F w" and "t \<notin> F" and "room 1 w"
  shows "(db_insert S \<omega> tid tuple t (w_db w) = (Inr (), d) \<longrightarrow>
      find_as tid (t_id tuple) t (w_db w) = Some (Inr None, w_db w)
      \<and> (\<exists>v. find_as tid (t_id tuple) t d = Some (Inr (Some v), d) \<and> t_data v = t_data tuple \<and> t_txn_id v = Some t))
    \<and> (db_update S \<omega> tid tuple t (w_db w) = Some (Inr (), d) \<longrightarrow>
      (\<exists>old. find_as tid (t_id tuple) t (w_db w) = Some (Inr (Some old), w_db w)
        \<and> find_as tid (t_id tuple) t d =
          Some (Inr (Some (set_data (t_data tuple) (set_pre_lsn (counter_of (w_tm w)) (set_txn_id t old)))), d)))
    \<and> (db_remove \<omega> tid i t (w_db w) = Some (Inr old, d) \<longrightarrow>
      find_as tid i t (w_db w) = Some (Inr (Some old), w_db w) \<and> find_as tid i t d = Some (Inr None, d))"
  using db_insert_found [OF assms] db_update_found [OF assms] db_remove_found [OF assms] by (intro conjI impI) blast+

section \<open>Aborting\<close>

lemma reader_keeps:
  assumes inv: "winv F w" and ok: "step_ok F None w w'" and r: "is_transaction_active (w_tm w) r" "is_transaction_active (w_tm w') r" "r \<notin> F"
    and find: "find_as tid i r (w_db w) = Some (x, w_db w)"
  shows "find_as tid i r (w_db w') = Some (x, w_db w')"
proof -
  have "winv F w'" "db_tables (w_db w') = db_tables (w_db w)" "\<And>k x. view w r k = Some x \<Longrightarrow> view w' r k = Some x"
    using ok r unfolding step_ok_def goes_on_def by blast+
  then show ?thesis
    using find find_as_view [OF inv r(1,3), of tid i] find_as_view [OF _ r(2,3), of tid i] by (auto split: if_splits)
qed

lemma row_needs_writes:
  assumes inv: "winv F w" and "w_rows w k = Some row" "t_txn_id row = Some t" "\<not> is_committed (w_tm w) t"
  shows "has_writes (w_vs w) t"
  using chain_writer [OF invD(4) [OF inv assms(2)]] assms(3,4) by (auto simp: writer_ok_def)

text \<open>
  C3. An abort undoes a transaction without a trace: when the trees fail no revert, it ends
  (reporting only a Rollback record that could not be logged), no row is a version of the
  transaction any more, and every other running reader finds under each key what it found before.
\<close>

theorem abort_erases:
  assumes "db_reach F w" and "is_transaction_active (w_tm w) t" and "fl_revert \<omega> = (\<lambda>_. None)"
    and "room (length (writes_of (w_vs w) t) + 1) w" and "db_abort \<omega> t (w_db w) = (res, d)"
  shows "(fl_rollback \<omega> = None \<longrightarrow> res = Inr ()) \<and> (\<forall>k row. db_rows d k = Some row \<longrightarrow> t_txn_id row \<noteq> Some t)
    \<and> (\<forall>r x tid i. r \<noteq> t \<and> r \<notin> F \<and> is_transaction_active (w_tm w) r \<and> find_as tid i r (w_db w) = Some (x, w_db w) \<longrightarrow>
        find_as tid i r d = Some (x, d))"
proof -
  have inv: "winv F w" by (rule reach_inv [OF assms(1)])
  obtain p where p: "state_of (w_tm w) t = Some (Active p)" using assms(2) by (auto simp: active_iff)
  have run: "\<not> is_committed (w_tm w) t" by (simp add: is_committed_def p)
  show ?thesis
  proof (cases "has_writes (w_vs w) t")
    case False
    let ?m = "snd (end_read_only t (w_tm w))"
    have e: "fst (end_read_only t (w_tm w))" and st: "\<And>x. x \<noteq> t \<Longrightarrow> state_of ?m x = state_of (w_tm w) x"
      by (simp_all add: end_read_only_def p tm_simps)
    have d: "res = Inr ()" "d = w_db (with_tm ?m w)" using assms(5) e False by (auto simp: db_abort_def with_tm_def)
    have ok: "step_ok F None w (with_tm ?m w)" by (rule ok_end_read_only [OF inv False])
    have "t_txn_id row \<noteq> Some t" if "w_rows w k = Some row" for k row using row_needs_writes [OF inv that _ run] False by blast
    then show ?thesis using d reader_keeps [OF inv ok] st by (simp add: active_iff)
  next
    case True
    let ?m = "snd (txn_abort t (w_tm w))" and ?w = "with_tm (snd (txn_abort t (w_tm w))) w"
    have st: "\<And>x. state_of ?m x = (if x = t then Some Aborting else state_of (w_tm w) x)"
      by (simp_all add: txn_abort_def p tm_simps)
    have ok1: "step_ok F None w ?w" by (rule ok_abort [OF inv])
    have inv1: "winv F ?w" using ok1 by (simp add: step_ok_def)
    have c: "counter_of ?m = counter_of (w_tm w)" by (simp add: txn_abort_def p tm_simps)
    have ab: "state_of (w_tm ?w) t = Some Aborting" and room: "room (length (writes_of (w_vs ?w) t) + 1) ?w"
      using st assms(4) c by (simp_all add: room_def)
    have fin: "finish_abort \<omega> t (w_db ?w) = (res, d)"
      using assms(5) True by (simp add: db_abort_def with_tm_def txn_abort_def p)
    note ends = finish_abort_ends [OF inv1 ab assms(3) room, unfolded fin fst_conv snd_conv]
    have ok2: "step_ok F None ?w (with_db d ?w)" using ok_finish_abort [OF inv1 ab assms(3) room] fin by simp
    have act1: "is_transaction_active (w_tm ?w) r" if "is_transaction_active (w_tm w) r" "r \<noteq> t" for r using that st by (simp add: active_iff)
    have act2: "is_transaction_active (db_tm d) r" if r: "is_transaction_active (w_tm w) r" "r \<noteq> t" for r
    proof -
      obtain m b where mb: "quiet (w_tm ?w) m" "db_tm d \<in> {m, snd (abort_complete t b m)}" using ends(1) by blast
      then have "state_of (db_tm d) r = state_of (w_tm ?w) r"
        using r(2) quiet_simps(1) [OF mb(1)] by (auto simp: abort_complete_def Let_def tm_simps)
      then show ?thesis using act1 [OF r] by (simp add: active_iff)
    qed
    have "find_as tid i r d = Some (x, d)"
      if r: "r \<noteq> t" "r \<notin> F" "is_transaction_active (w_tm w) r" "find_as tid i r (w_db w) = Some (x, w_db w)" for r x tid i
      using reader_keeps [OF inv1 ok2 act1 [OF r(3,1)] _ r(2) reader_keeps [OF inv ok1 r(3) act1 [OF r(3,1)] r(2,4)]] act2 [OF r(3,1)] by simp
    then show ?thesis using ends(2,3) by blast
  qed
qed

section \<open>A database with two transactions\<close>

definition demo_two :: world where
  "demo_two = with_db (snd (begin_txn ContinueOnConflict (snd (begin_txn ContinueOnConflict (new_db [1 \<mapsto> None] clock_default)))))
     (new_world [1 \<mapsto> None] clock_default)"

definition demo_row :: tuple where
  "demo_row = tuple_default\<lparr>t_id := IntId 7, t_data := [42]\<rparr>"

text \<open>The second has inserted a row.\<close>

definition demo_written :: world where
  "demo_written = (with_db (snd (write_version 1 (t_id (stamped 2 demo_row)) None
       (insert_decision 1 (stamped 2 demo_row) 2 3 None) (w_db (drawn_for_write demo_two)))) (drawn_for_write demo_two))
     \<lparr>w_pool := w_pool (drawn_for_write demo_two) - {3}\<rparr>"

lemma demo_two_simps:
  "w_tm demo_two = mgr_two" "w_vs demo_two = vs_new" "w_rows demo_two k = None" "db_tables (w_db demo_two) = [1 \<mapsto> None]"
  "w_pool demo_two = {}"
  by (simp_all add: demo_two_def mgr_two_def new_db_def new_world_def)

lemma demo_two_reach: "db_reach F demo_two"
proof -
  let ?w0 = "new_world [1 \<mapsto> None] clock_default" and ?open = "\<lambda>w. with_db (snd (begin_txn ContinueOnConflict (w_db w))) w"
  have "db_run F ([] @ [None]) ?w0 (?open ?w0)"
    by (intro run_step [OF run_here] d_begin) (simp add: room_def new_world_def new_db_def counter_new)
  then have "db_run F (([] @ [None]) @ [None]) ?w0 (?open (?open ?w0))"
    by (rule run_step) (intro d_begin, simp add: room_def new_world_def new_db_def counter_new tm_simps)
  moreover have "?open (?open ?w0) = demo_two" by (simp add: demo_two_def with_db_def new_world_def)
  ultimately show ?thesis unfolding db_reach_def by metis
qed

lemma demo_written_run: "db_run F [None, Some 2] demo_two demo_written"
proof -
  have "db_run F ([] @ [None]) demo_two (drawn_for_write demo_two)"
    unfolding drawn_for_write_def by (intro run_step [OF run_here] d_reserve) (simp add: room_def demo_two_simps mgr_two_simps)
  moreover have "db_step F (Some 2) (drawn_for_write demo_two) demo_written"
    unfolding demo_written_def
    by (rule d_insert) (simp_all add: drawn_for_write_def demo_two_simps mgr_two_simps active_iff tm_simps)
  ultimately have "db_run F (([] @ [None]) @ [Some 2]) demo_two demo_written" by (rule run_step)
  then show ?thesis by simp
qed

lemma demo_written_simps: "w_tm demo_written = snd (mint mgr_two)"
  by (simp add: demo_written_def with_db_def write_version_tm drawn_for_write_def demo_two_simps)

lemma demo_written_tables: "db_tables (w_db demo_written) = [1 \<mapsto> None]"
  using run_inv [OF demo_written_run reach_inv [OF demo_two_reach], of "{}"] by (simp add: goes_on_def demo_two_simps)

lemma demo_written_writes: "length (writes_of (w_vs demo_written) 2) = 1"
  by (simp add: demo_written_def with_db_def write_version_def insert_decision_def record_and_log_def Let_def drawn_for_write_def
      demo_two_simps vs_simps) (simp add: writes_of_def vs_new_def)

theorem snapshot_isolation_witness:
  "find_as 1 (IntId 7) 1 (w_db demo_written) = Some (Inr None, w_db demo_written)"
proof -
  have a1: "is_transaction_active (w_tm demo_two) 1" by (simp add: active_iff demo_two_simps mgr_two_simps)
  have a2: "is_transaction_active (w_tm demo_written) 1" by (simp add: active_iff demo_written_simps tm_simps mgr_two_simps)
  have "find_as 1 (IntId 7) 1 (w_db demo_two) = Some (Inr None, w_db demo_two)"
    using find_as_view [OF reach_inv [OF demo_two_reach] a1, of "{}"] by (simp add: demo_two_simps view_def look_row_def)
  from snapshot_isolation [OF demo_two_reach demo_written_run a1 a2, of "{}", OF _ _ this] show ?thesis by simp
qed

theorem reads_succeed_witness: "\<exists>row. find_as 1 (IntId 7) 2 (w_db demo_two) = Some (Inr row, w_db demo_two)"
  by (rule reads_succeed [of "{}"]) (simp_all add: demo_two_reach demo_two_simps active_iff mgr_two_simps)

text \<open>Its Commit is logged, and finished.\<close>

definition demo_committing :: world where
  "demo_committing = with_log (4, Commit 2) (with_tm (snd (begin_commit 2 (w_tm demo_written))) demo_written)"

definition demo_finished :: world where
  "demo_finished = (with_tm (finish_commit 2 True (w_tm demo_committing)) demo_committing)\<lparr>w_marking := (w_marking demo_committing)(2 \<mapsto> 4)\<rparr>"

lemma demo_committing_tm:
  "counter_of (w_tm demo_committing) = 5"
  "state_of (w_tm demo_committing) t = (if t = 1 then Some (Active ContinueOnConflict) else if t = 2 then Some (Committing 4 ContinueOnConflict) else None)"
  by (simp_all add: demo_committing_def begin_commit_def demo_written_simps split_beta tm_simps mgr_two_simps)

lemma demo_committing_reach: "db_reach F demo_committing"
proof -
  let ?w = "with_tm (snd (begin_commit 2 (w_tm demo_written))) demo_written"
  have "has_writes (w_vs demo_written) 2" using demo_written_writes by (auto simp: has_writes_def writes_of_def split: option.splits)
  then have "db_step F None demo_written ?w"
    by (intro d_begin_commit) (simp_all add: room_def demo_written_simps tm_simps mgr_two_simps)
  moreover have "db_step F None ?w demo_committing"
    unfolding demo_committing_def
    by (rule d_log_commit) (simp add: begin_commit_def demo_written_simps split_beta tm_simps mgr_two_simps)
  ultimately have "db_run F (([] @ [None]) @ [None]) demo_written demo_committing" by (intro run_step [OF run_step [OF run_here]])
  then show ?thesis by (rule reach_run [OF reach_run [OF demo_two_reach demo_written_run]])
qed

lemma demo_finished_reach: "db_reach F demo_finished"
proof -
  have "db_step F None demo_committing demo_finished"
    using d_finish_commit [of True 4 2 demo_committing F ContinueOnConflict] demo_committing_tm(2) [of 2]
    by (simp add: demo_finished_def) (simp add: demo_committing_def)
  then show ?thesis using reach_run [OF demo_committing_reach run_step [OF run_here]] by blast
qed

lemma demo_written_row: "w_rows demo_written (row_key 1 (IntId 7)) = Some (stamped 2 demo_row)"
  by (simp add: demo_written_def with_db_def write_version_def insert_decision_def record_and_log_def Let_def drawn_for_write_def
      demo_two_simps) (simp add: stamped_def clear_tombstone_def set_pre_lsn_none_def set_txn_id_def demo_row_def)

text \<open>The row is waited for between the halves of its commit, and found after.\<close>

theorem begins_at_last_commit_witness:
  "(\<exists>r d. begin_txn AbortOnConflict (w_db demo_committing) = (Inr r, d) \<and> find_as 1 (IntId 7) r d = None)
    \<and> (\<exists>r d. begin_txn AbortOnConflict (w_db demo_finished) = (Inr r, d) \<and> find_as 1 (IntId 7) r d = Some (Inr (Some (stamped 2 demo_row)), d))"
proof
  let ?k = "row_key 1 (IntId 7)"
  have row: "w_rows demo_committing ?k = Some (stamped 2 demo_row)" "w_rows demo_finished ?k = Some (stamped 2 demo_row)"
    "db_tables (w_db demo_committing) = [1 \<mapsto> None]" "db_tables (w_db demo_finished) = [1 \<mapsto> None]"
    by (simp_all add: demo_finished_def demo_committing_def demo_written_row demo_written_tables)
  have x: "t_txn_id (stamped 2 demo_row) = Some 2" "\<not> tuple_is_tombstoned (stamped 2 demo_row)"
    by (simp_all add: stamped_def tombstone_flags)
  have fin: "counter_of (w_tm demo_finished) = 5" "state_of (w_tm demo_finished) 2 = Some (Committed 4)"
    by (simp_all add: demo_finished_def finish_commit_def demo_committing_tm tm_simps)
  have "half_committed ?k (w_db demo_committing)"
    by (simp add: half_committed_def told_at_begin_def row walk_back_def x demo_committing_tm)
  then show "\<exists>r d. begin_txn AbortOnConflict (w_db demo_committing) = (Inr r, d) \<and> find_as 1 (IntId 7) r d = None"
    using begins_at_last_commit [of "{}" demo_committing AbortOnConflict _ _ 1 "IntId 7", OF demo_committing_reach _ surjective_pairing]
    by (auto simp: room_def demo_committing_tm row prod_eq_iff)
  have "\<not> half_committed ?k (w_db demo_finished)" "last_committed ?k (w_db demo_finished) = Some (stamped 2 demo_row)"
    by (simp_all add: half_committed_def told_at_begin_def last_committed_def find_last_committed_def row walk_back_def x fin is_committed_def)
  then show "\<exists>r d. begin_txn AbortOnConflict (w_db demo_finished) = (Inr r, d) \<and> find_as 1 (IntId 7) r d = Some (Inr (Some (stamped 2 demo_row)), d)"
    using begins_at_last_commit [of "{}" demo_finished AbortOnConflict _ _ 1 "IntId 7", OF demo_finished_reach _ surjective_pairing]
    by (auto simp: room_def fin row prod_eq_iff)
qed

theorem abort_erases_witness:
  "fst (db_abort no_faults 2 (w_db demo_written)) = Inr ()
    \<and> map_option t_txn_id (db_rows (snd (db_abort no_faults 2 (w_db demo_written))) (row_key 1 (IntId 7))) \<noteq> Some (Some 2)
    \<and> find_as 1 (IntId 7) 1 (snd (db_abort no_faults 2 (w_db demo_written))) =
        Some (Inr None, snd (db_abort no_faults 2 (w_db demo_written)))"
proof -
  have a1: "is_transaction_active (w_tm demo_two) 1" by (simp add: active_iff demo_two_simps mgr_two_simps)
  have act: "is_transaction_active (w_tm demo_written) 1" "is_transaction_active (w_tm demo_written) 2"
    by (simp_all add: active_iff demo_written_simps tm_simps mgr_two_simps)
  have reach: "db_reach {} demo_written" by (rule reach_run [OF demo_two_reach demo_written_run])
  have "view demo_two 1 (row_key 1 (IntId 7)) = Some (Inr None)" by (simp add: view_def look_row_def demo_two_simps)
  from run_view [where F = "{}", OF demo_written_run reach_inv [OF demo_two_reach] a1 act(1) _ _ this]
  have "view demo_written 1 (row_key 1 (IntId 7)) = Some (Inr None)" by simp
  then have find: "find_as 1 (IntId 7) 1 (w_db demo_written) = Some (Inr None, w_db demo_written)"
    using find_as_view [OF reach_inv [OF reach] act(1)] by (simp add: demo_written_tables)
  have room: "room (length (writes_of (w_vs demo_written) 2) + 1) demo_written"
    by (simp add: room_def demo_written_simps demo_written_writes tm_simps mgr_two_simps)
  have nf: "fl_revert no_faults = (\<lambda>_. None)" "fl_rollback no_faults = None" by (simp_all add: no_faults_def)
  from abort_erases [OF reach act(2) nf(1) room surjective_pairing] act(1) find nf(2) show ?thesis by fastforce
qed

theorem writes_build_on_what_is_seen_witness:
  "\<exists>v. find_as 1 (IntId 7) 2 (snd (db_insert postcard no_faults 1 demo_row 2 (w_db demo_two))) =
    Some (Inr (Some v), snd (db_insert postcard no_faults 1 demo_row 2 (w_db demo_two))) \<and> t_data v = [42]"
proof -
  have "fst (db_insert postcard no_faults 1 demo_row 2 (w_db demo_two)) = Inr ()"
    by (simp add: db_insert_def require_active_active active_iff demo_two_simps mgr_two_simps table_by_id_def check_fits_def Let_def
        split_beta write_with_policy_def refuse_if_degraded_def write_version_def insert_decision_def record_and_log_def no_faults_def
        after_write_def) (simp add: demo_two_def new_db_def begin_txn_def split_beta draw_def
        write_version_def insert_decision_def record_and_log_def after_write_def Let_def)
  then have "db_insert postcard no_faults 1 demo_row 2 (w_db demo_two) = (Inr (), snd (db_insert postcard no_faults 1 demo_row 2 (w_db demo_two)))"
    by (simp add: prod_eq_iff)
  moreover have "room 1 demo_two" by (simp add: room_def demo_two_simps mgr_two_simps)
  ultimately have "\<exists>v. find_as 1 (t_id demo_row) 2 (snd (db_insert postcard no_faults 1 demo_row 2 (w_db demo_two))) =
      Some (Inr (Some v), snd (db_insert postcard no_faults 1 demo_row 2 (w_db demo_two))) \<and> t_data v = t_data demo_row"
    using writes_build_on_what_is_seen [of "{}" demo_two 2 postcard no_faults 1 demo_row "snd (db_insert postcard no_faults 1 demo_row 2 (w_db demo_two))",
        OF demo_two_reach] by blast
  then show ?thesis by (simp add: demo_row_def)
qed

section \<open>A write after an abort\<close>

text \<open>A transaction that is forgotten is seen by every transaction that begins from then on.\<close>

definition unnoticed :: "txn_id \<Rightarrow> txn_id \<Rightarrow> txn_mgr \<Rightarrow> bool" where
  "unnoticed t c m = (tm_wf m \<and> state_of m t = None \<and> t < c \<and> c \<le> counter_of m
     \<and> (\<forall>r sn. c \<le> r \<and> tm_arcs m r = Some sn \<longrightarrow> sees sn t = Some True))"

lemma first_snapshot_sees:
  assumes wf: "tm_wf m" and room: "counter_of m \<noteq> U64_MAX" and t: "state_of m t = None" "t < counter_of m"
  shows "sees (first_snapshot m) t = Some True"
proof -
  have "snap_wf (snd (create_transaction p m)) (counter_of m) (first_snapshot m)" for p
    using tm_wfD(6) [OF tm_wf_create [OF wf room]] by (simp add: create_transaction_arcs)
  from sees_snap [OF this, of t] show ?thesis using t by (auto simp: first_snapshot_mem [OF wf])
qed

lemma unnoticed_step:
  assumes "tm_step \<phi> m m'" and "unnoticed t c m"
  shows "unnoticed t c m'"
proof -
  have wf: "tm_wf m" and st: "state_of m t = None" and t: "t < c" "c \<le> counter_of m"
    and sn: "\<And>r sn. c \<le> r \<Longrightarrow> tm_arcs m r = Some sn \<Longrightarrow> sees sn t = Some True"
    using assms(2) by (auto simp: unnoticed_def)
  have tc: "t < counter_of m" using t by simp
  have "sees sn' t = Some True" if r: "c \<le> r" and arc: "tm_arcs m' r = Some sn'" for r sn'
  proof (cases "tm_arcs m r")
    case None
    obtain p where p: "m' = snd (create_transaction p m)" "counter_of m \<noteq> U64_MAX"
      using new_arc_create [OF assms(1) None] arc by auto
    then have "sn' = first_snapshot m" using arc None by (auto simp: create_transaction_arcs split: if_splits)
    then show ?thesis using first_snapshot_sees [OF wf p(2) st tc] by simp
  next
    case (Some sn)
    have "r < counter_of m" using began_less [OF wf] Some by simp
    then show ?thesis using snapshot_stable [OF wf assms(1) arc] sn [OF r] Some by auto
  qed
  moreover have "counter_of m \<le> counter_of m'" using counter_mono [OF assms(1)] .
  ultimately show ?thesis
    using tm_step_wf [OF assms(1) wf] forgotten_stays [OF assms(1) wf st tc] t by (auto simp: unnoticed_def)
qed

lemma unnoticed_run: "(tm_step \<phi>)\<^sup>*\<^sup>* m m' \<Longrightarrow> unnoticed t c m \<Longrightarrow> unnoticed t c m'"
  by (induction rule: rtranclp_induct) (auto intro: unnoticed_step)

lemma unnoticed_found:
  assumes "unnoticed t c (db_tm d)" and r: "is_transaction_active (db_tm d) r" "c \<le> r"
    and row: "db_rows d (row_key tid i) = Some v" "t_txn_id v = Some t" "\<not> tuple_is_tombstoned v" and "db_tables d tid \<noteq> None"
  shows "find_as tid i r d = Some (Inr (Some v), d)"
proof -
  obtain sn where sn: "take_snapshot (db_tm d) r = Some sn" "tm_arcs (db_tm d) r = Some sn" "sn_active sn"
    using snapshot_of [OF _ r(1)] assms(1) by (auto simp: unnoticed_def)
  then have "sees sn t = Some True" using assms(1) r(2) by (auto simp: unnoticed_def)
  then have "visible_version d v sn = Some (Inr VisItself)"
    using row by (simp add: visible_version_def walk_back_def reader_sees_def)
  then show ?thesis using sn row assms(7) by (auto simp: find_as_def db_snapshot_def find_in_def check_snapshot_def table_by_id_def find_row_def)
qed

lemma db_abort_read_only:
  "\<not> has_writes (db_vs d) t \<Longrightarrow> fst (end_read_only t (db_tm d)) \<Longrightarrow>
   db_abort \<omega> t d = (Inr (), d\<lparr>db_tm := snd (end_read_only t (db_tm d))\<rparr>)"
  by (simp add: db_abort_def)

lemma enforce_aborts_oldest:
  assumes "oldest_active (db_tm d) = Some t" and "\<not> has_writes (db_vs d) t" and "sl_max_retained_wal_bytes limits < wal"
    and "is_transaction_active (db_tm d) t"
  shows "enforce_snapshot_limits limits wal \<omega> None d = (Inr (), d\<lparr>db_forced := (db_forced d)(t \<mapsto> ''retained WAL exceeds the cap''),
    db_tm := snd (end_read_only t (db_tm d))\<rparr>)"
proof -
  have "fst (end_read_only t (db_tm d))" using assms(4) by (auto simp: end_read_only_def active_iff)
  then show ?thesis using assms(1-3) by (simp add: enforce_snapshot_limits_def Let_def db_abort_read_only)
qed

text \<open>
  C40. A write can outlive its transaction. A transaction is checked to be running when its insert
  starts, not under the leaf's lock where the row is written. Take any reachable state in which the
  oldest running transaction has written nothing yet and starts to insert a row under a free key:
  if the maintenance thread aborts it between the check and the write, because the retained log is
  over its cap, nothing is undone, as nothing was written; the insert then goes through under the
  id of a transaction that is forgotten, which counts as committed. Its owner is told on commit
  that the transaction was aborted; but every transaction that begins later, however the
  transaction table has moved on, finds the row as long as nobody writes it again.
\<close>

theorem late_write_survives_abort:
  assumes "db_reach F w" and "room 1 w" and "oldest_active (w_tm w) = Some t" and "\<not> has_writes (w_vs w) t"
    and "w_rows w (row_key tid (t_id tup)) = None" and "db_tables (w_db w) tid \<noteq> None" and "db_degraded (w_db w) = None"
    and "sl_max_retained_wal_bytes limits < wal" and "draw (w_db w) = (l, d0)"
    and "enforce_snapshot_limits limits wal \<omega> None d0 = (res, d1)"
    and "write_version tid (t_id tup) None (insert_decision tid (stamped t tup) t l None) d1 = (res', d2)"
  shows "fst (require_active t (w_db w)) = Inr () \<and> res = Inr () \<and> \<not> is_transaction_active (db_tm d1) t \<and> res' = Inr WInserted
    \<and> fst (commit_id_with None t d2) = Inl (SnapshotTooOld ''retained WAL exceeds the cap'')
    \<and> (\<forall>\<phi> m r. (tm_step \<phi>)\<^sup>*\<^sup>* (db_tm d2) m \<and> counter_of (db_tm d2) \<le> r \<and> is_transaction_active m r \<longrightarrow>
         find_as tid (t_id tup) r (d2\<lparr>db_tm := m\<rparr>) = Some (Inr (Some (stamped t tup)), d2\<lparr>db_tm := m\<rparr>))"
proof -
  have wf: "tm_wf (w_tm w)" by (rule invD(1) [OF reach_inv [OF assms(1)]])
  have d0: "d0 = snd (draw (w_db w))" using assms(9) by simp
  have tm0: "db_tm d0 = snd (mint (w_tm w))" and same: "db_vs d0 = w_vs w" "db_rows d0 = w_rows w" "db_tables d0 = db_tables (w_db w)"
    by (simp_all add: d0)
  have wf0: "tm_wf (db_tm d0)" using tm_wf_mint [OF wf room_counter [OF assms(2)]] by (simp add: tm0)
  have old: "oldest_active (db_tm d0) = Some t" using assms(3) by (simp add: oldest_active_def tm0 tm_simps)
  obtain s where s: "state_of (w_tm w) t = Some s" "is_active_state s"
    using bt_find_Some(1) [OF tm_wfD(1) [OF wf]] assms(3) by (auto simp: oldest_active_def state_of_def)
  then have act: "is_transaction_active (w_tm w) t" "is_transaction_active (db_tm d0) t"
    by (auto simp: active_iff is_active_state_iff tm0 tm_simps)
  have d1: "res = Inr ()" "d1 = d0\<lparr>db_forced := (db_forced d0)(t \<mapsto> ''retained WAL exceeds the cap''), db_tm := snd (end_read_only t (db_tm d0))\<rparr>"
    using enforce_aborts_oldest [OF old _ assms(8) act(2), of \<omega>] assms(4,10) by (simp_all add: same)
  let ?m = "snd (end_read_only t (db_tm d0))"
  have gone: "state_of ?m t = None" "counter_of ?m = counter_of (db_tm d0)" "\<not> is_transaction_active ?m t"
    using act(2) by (auto simp: end_read_only_def active_iff tm_simps split: option.splits txn_state.splits)
  have "tm_wf ?m" by (rule tm_wf_end_read_only [OF wf0])
  moreover have "t < counter_of ?m" using tm_wfD(2) [OF wf0] act(2) gone(2) by (auto simp: active_iff)
  moreover have "tm_arcs ?m r = None" if "counter_of ?m \<le> r" for r using that began_less [OF \<open>tm_wf ?m\<close>, of r] by (cases "tm_arcs ?m r") auto
  ultimately have un: "unnoticed t (counter_of ?m) ?m" using gone(1) by (auto simp: unnoticed_def)
  have d2: "res' = Inr WInserted" "db_tm d2 = ?m" "db_rows d2 = (w_rows w)(row_key tid (t_id tup) \<mapsto> stamped t tup)"
      "db_tables d2 = db_tables (w_db w)" "db_degraded d2 = db_degraded d0" "db_forced d2 t = Some ''retained WAL exceeds the cap''"
    using assms(5,11) by (auto simp: write_version_def insert_decision_def record_and_log_def Let_def d1(2) same)
  have "db_degraded d0 = None" using assms(7) by (simp add: d0 draw_def split_beta)
  then have "fst (commit_id_with None t d2) = Inl (SnapshotTooOld ''retained WAL exceeds the cap'')"
    using gone(3) d2 by (simp add: commit_id_with_def refuse_if_degraded_def require_active_def)
  moreover have "find_as tid (t_id tup) r (d2\<lparr>db_tm := m\<rparr>) = Some (Inr (Some (stamped t tup)), d2\<lparr>db_tm := m\<rparr>)"
    if "(tm_step \<phi>)\<^sup>*\<^sup>* (db_tm d2) m" "counter_of (db_tm d2) \<le> r" "is_transaction_active m r" for \<phi> m r
    by (rule unnoticed_found [of t "counter_of ?m"])
      (use that d2 unnoticed_run [OF that(1)] un assms(6) in \<open>simp_all add: stamped_def tombstone_flags\<close>)
  ultimately show ?thesis using act(1) d1 gone(3) d2(1) by (auto simp: require_active_def)
qed

definition late_aborted :: db where
  "late_aborted = snd (enforce_snapshot_limits \<lparr>sl_max_retained_wal_bytes = 0, sl_max_version_records = 1000\<rparr> 1 no_faults None
     (snd (draw (w_db demo_two))))"

definition late_written :: db where
  "late_written = snd (write_version 1 (t_id demo_row) None (insert_decision 1 (stamped 1 demo_row) 1 3 None) late_aborted)"

theorem late_write_survives_abort_witness:
  "\<not> is_transaction_active (db_tm late_aborted) 1
    \<and> fst (commit_id_with None 1 late_written) = Inl (SnapshotTooOld ''retained WAL exceeds the cap'')
    \<and> find_as 1 (IntId 7) 4 (snd (begin_txn ContinueOnConflict late_written)) =
        Some (Inr (Some (stamped 1 demo_row)), snd (begin_txn ContinueOnConflict late_written))"
proof -
  let ?limits = "\<lparr>sl_max_retained_wal_bytes = 0, sl_max_version_records = 1000\<rparr>"
  define d0 where "d0 = snd (draw (w_db demo_two))"
  have d0: "draw (w_db demo_two) = (3, d0)"
    using draw_simps(1) [of "w_db demo_two"] by (simp add: d0_def prod_eq_iff demo_two_simps mgr_two_simps)
  obtain res d1 where d1: "enforce_snapshot_limits ?limits 1 no_faults None d0 = (res, d1)" by fastforce
  obtain res' d2 where d2: "write_version 1 (t_id demo_row) None (insert_decision 1 (stamped 1 demo_row) 1 3 None) d1 = (res', d2)" by fastforce
  have late: "late_aborted = d1" "late_written = d2" using d1 d2 by (simp_all add: late_written_def late_aborted_def d0_def)
  have old: "oldest_active (w_tm demo_two) = Some 1" unfolding demo_two_simps by code_simp
  have id: "t_id demo_row = IntId 7" by (simp add: demo_row_def)
  have "db_degraded (w_db demo_two) = None" by (simp add: demo_two_def new_db_def begin_txn_def split_beta)
  moreover have "\<not> has_writes (w_vs demo_two) 1" by (simp add: demo_two_simps has_writes_def vs_new_def)
  ultimately have r: "\<not> is_transaction_active (db_tm d1) 1"
      "fst (commit_id_with None 1 d2) = Inl (SnapshotTooOld ''retained WAL exceeds the cap'')"
      "\<And>\<phi> m r. (tm_step \<phi>)\<^sup>*\<^sup>* (db_tm d2) m \<Longrightarrow> counter_of (db_tm d2) \<le> r \<Longrightarrow> is_transaction_active m r \<Longrightarrow>
         find_as 1 (t_id demo_row) r (d2\<lparr>db_tm := m\<rparr>) = Some (Inr (Some (stamped 1 demo_row)), d2\<lparr>db_tm := m\<rparr>)"
    using late_write_survives_abort [where F = "{}" and w = demo_two, OF demo_two_reach _ old _ _ _ _ _ d0 d1 d2]
    by (auto simp: room_def demo_two_simps mgr_two_simps)
  have tm0: "db_tm d0 = snd (mint mgr_two)" "db_vs d0 = vs_new" using d0 draw_simps(2,3) [of "w_db demo_two"] by (simp_all add: demo_two_simps)
  have "oldest_active (db_tm d0) = Some 1" using old by (simp add: tm0 demo_two_simps oldest_active_def tm_simps)
  moreover have "is_transaction_active (db_tm d0) 1" by (simp add: tm0 active_iff tm_simps mgr_two_simps)
  ultimately have "db_tm d1 = snd (end_read_only 1 (snd (mint mgr_two)))"
    using enforce_aborts_oldest [of d0 1 ?limits 1 no_faults] d1 by (simp add: tm0 has_writes_def vs_new_def)
  moreover have "db_tm d2 = db_tm d1" using arg_cong [OF d2, of "\<lambda>x. db_tm (snd x)"] by (simp add: write_version_tm)
  ultimately have four: "counter_of (db_tm d2) = 4" by (simp add: end_read_only_def tm_simps mgr_two_simps)
  then have "counter_of (db_tm d2) \<noteq> U64_MAX" by simp
  then have "tm_step no_fates (db_tm d2) (snd (create_transaction ContinueOnConflict (db_tm d2)))" by (rule step_create)
  moreover have "is_transaction_active (snd (create_transaction ContinueOnConflict (db_tm d2))) (counter_of (db_tm d2))"
    by (simp add: active_iff tm_simps)
  ultimately have "find_as 1 (IntId 7) (counter_of (db_tm d2)) (snd (begin_txn ContinueOnConflict d2)) =
      Some (Inr (Some (stamped 1 demo_row)), snd (begin_txn ContinueOnConflict d2))"
    using r(3) [of no_fates, OF r_into_rtranclp] by (simp add: id begin_txn_def split_beta)
  with r(1,2) show ?thesis by (simp add: late four)
qed

end
