(* ===== verification/Generator.thy ===== *)
theory Generator
  imports Version_Store "HOL-Library.Multiset"
begin

text \<open>
  Named sequences, \<^verbatim>\<open>store/src/generator.rs\<close>: values are handed out from a chunk whose end a log
  record covers, and recovery raises every sequence past the marks it finds in the log.

  The generator's logger is the log it appends its \<^verbatim>\<open>Sequence\<close> records to, in the order they are
  queued; \<open>log_err\<close> is the error a queue refuses a record with. The calls are not atomic: making a
  sequence looks the name up, logs, and inserts it; removing one takes it out and logs; handing out
  a value takes it, logs a new mark if it has to, and raises the mark. Other callers may run
  between any two of these.
\<close>

section \<open>Sequences\<close>

abbreviation (input) SEQUENCE_CHUNK :: u64 where "SEQUENCE_CHUNK \<equiv> 32"

record seq =
  sq_next :: u64
  sq_logged_high :: u64

record generator =
  gn_gens :: "string \<rightharpoonup> seq"
  gn_logger :: "operation list option"

definition gn_new :: generator where
  "gn_new = \<lparr>gn_gens = Map.empty, gn_logger = None\<rparr>"

definition attach_logger :: "operation list \<Rightarrow> generator \<Rightarrow> generator" where
  "attach_logger lg g = g\<lparr>gn_logger := Some lg\<rparr>"

definition detach_logger :: "generator \<Rightarrow> generator" where
  "detach_logger g = g\<lparr>gn_logger := None\<rparr>"

definition gn_log :: "serr option \<Rightarrow> string \<Rightarrow> u64 \<Rightarrow> bool \<Rightarrow> generator \<Rightarrow> (serr + unit) \<times> generator" where
  "gn_log log_err name high_water dropped g =
     (case gn_logger g of
        None \<Rightarrow> (Inr (), g)
      | Some lg \<Rightarrow> (case log_err of
            Some e \<Rightarrow> (Inl e, g)
          | None \<Rightarrow> (Inr (), g\<lparr>gn_logger := Some (lg @ [Sequence name high_water dropped])\<rparr>)))"

definition put_seq :: "string \<Rightarrow> u64 \<Rightarrow> generator \<Rightarrow> generator" where
  "put_seq name v g = g\<lparr>gn_gens := (gn_gens g)(name \<mapsto> \<lparr>sq_next = v, sq_logged_high = v\<rparr>)\<rparr>"

definition create_check :: "string \<Rightarrow> generator \<Rightarrow> serr + unit" where
  "create_check name g = (if gn_gens g name \<noteq> None then Inl (DuplicateName name) else Inr ())"

definition create_generator :: "serr option \<Rightarrow> string \<Rightarrow> u64 option \<Rightarrow> generator \<Rightarrow> (serr + unit) \<times> generator" where
  "create_generator log_err name start g =
     (let start = (case start of Some s \<Rightarrow> s | None \<Rightarrow> 0) in
      case create_check name g of
        Inl e \<Rightarrow> (Inl e, g)
      | Inr () \<Rightarrow> (case gn_log log_err name start False g of
             (Inl e, g1) \<Rightarrow> (Inl e, g1)
           | (Inr (), g1) \<Rightarrow> (Inr (), put_seq name start g1)))"

definition take_out :: "string \<Rightarrow> generator \<Rightarrow> bool \<times> generator" where
  "take_out name g = (gn_gens g name \<noteq> None, g\<lparr>gn_gens := (gn_gens g)(name := None)\<rparr>)"

definition remove_generator :: "serr option \<Rightarrow> string \<Rightarrow> generator \<Rightarrow> (serr + unit) \<times> generator" where
  "remove_generator log_err name g =
     (case take_out name g of (found, g1) \<Rightarrow> if found then gn_log log_err name 0 True g1 else (Inr (), g1))"

definition ensure_at_least :: "string \<Rightarrow> u64 \<Rightarrow> generator \<Rightarrow> generator" where
  "ensure_at_least name at_least g =
     (case gn_gens g name of
        Some s \<Rightarrow> g\<lparr>gn_gens := (gn_gens g)(name \<mapsto>
          \<lparr>sq_next = max (sq_next s) at_least, sq_logged_high = max (sq_logged_high s) at_least\<rparr>)\<rparr>
      | None \<Rightarrow> put_seq name at_least g)"

definition remove_unlogged :: "string \<Rightarrow> generator \<Rightarrow> generator" where
  "remove_unlogged name g = g\<lparr>gn_gens := (gn_gens g)(name := None)\<rparr>"

text \<open>
  The parts of \<^verbatim>\<open>gen_key\<close>: take a value, then read the mark, both under the lock of the map for
  reading (so that the sequence is still there); if the value is not below it, log a new mark, then
  raise the mark.
\<close>

definition gen_next :: "string \<Rightarrow> generator \<Rightarrow> (serr + u64) \<times> generator" where
  "gen_next name g =
     (case gn_gens g name of
        None \<Rightarrow> (Inl (MissingKey name), g)
      | Some s \<Rightarrow> (Inr (sq_next s), g\<lparr>gn_gens := (gn_gens g)(name \<mapsto> s\<lparr>sq_next := sq_next s + 1\<rparr>)\<rparr>))"

definition gen_mark :: "string \<Rightarrow> generator \<Rightarrow> u64" where
  "gen_mark name g = (case gn_gens g name of Some s \<Rightarrow> sq_logged_high s | None \<Rightarrow> 0)"

definition gen_take :: "string \<Rightarrow> generator \<Rightarrow> (serr + u64 \<times> u64) \<times> generator" where
  "gen_take name g =
     (case gen_next name g of
        (Inl e, g1) \<Rightarrow> (Inl e, g1)
      | (Inr v, g1) \<Rightarrow> (Inr (v, gen_mark name g1), g1))"

definition cover_log :: "serr option \<Rightarrow> string \<Rightarrow> u64 \<Rightarrow> generator \<Rightarrow> (serr + unit) \<times> generator" where
  "cover_log log_err name v g = gn_log log_err name (v + SEQUENCE_CHUNK) False g"

definition cover_raise :: "string \<Rightarrow> u64 \<Rightarrow> generator \<Rightarrow> generator" where
  "cover_raise name v g =
     (case gn_gens g name of
        Some s \<Rightarrow> g\<lparr>gn_gens := (gn_gens g)(name \<mapsto> s\<lparr>sq_logged_high := max (sq_logged_high s) (v + SEQUENCE_CHUNK)\<rparr>)\<rparr>
      | None \<Rightarrow> g)"

definition gen_cover :: "serr option \<Rightarrow> string \<Rightarrow> u64 \<Rightarrow> u64 \<Rightarrow> generator \<Rightarrow> (serr + u64) \<times> generator" where
  "gen_cover log_err name v high g =
     (if v \<ge> high then
        (case cover_log log_err name v g of
           (Inl e, g1) \<Rightarrow> (Inl e, g1)
         | (Inr (), g1) \<Rightarrow> (Inr v, cover_raise name v g1))
      else (Inr v, g))"

definition gen_key :: "serr option \<Rightarrow> string \<Rightarrow> generator \<Rightarrow> (serr + u64) \<times> generator" where
  "gen_key log_err name g =
     (case gen_take name g of
        (Inl e, g1) \<Rightarrow> (Inl e, g1)
      | (Inr (v, high), g1) \<Rightarrow> gen_cover log_err name v high g1)"

text \<open>\<^verbatim>\<open>get_values\<close> lists the map in no particular order: here it is the map of next values.\<close>

definition get_values :: "generator \<Rightarrow> (string \<rightharpoonup> u64)" where
  "get_values g = map_option sq_next \<circ> gn_gens g"

definition set_values :: "(string \<times> u64) list \<Rightarrow> generator \<Rightarrow> generator" where
  "set_values values g = fold (\<lambda>(k, v). ensure_at_least k v) values g"

text \<open>What recovery does for a record of the log: the Sequence arm of its first pass.\<close>

fun replay_sequence :: "operation \<Rightarrow> generator \<Rightarrow> generator" where
  "replay_sequence (Sequence name high_water dropped) g =
     (if dropped then remove_unlogged name g else ensure_at_least name high_water g)"
| "replay_sequence _ g = g"

definition replay_sequences :: "operation list \<Rightarrow> generator \<Rightarrow> generator" where
  "replay_sequences ops g = fold replay_sequence ops g"

section \<open>Interleaved callers\<close>

declare case_unit_any [simp]

text \<open>
  A value being handed out, or handed out: by which making of its sequence, the position in the log
  from which a removal of the sequence would matter to it, the value, and the mark that was read with it.
\<close>

record gen_call =
  gc_name :: string
  gc_life :: nat
  gc_since :: nat
  gc_value :: u64
  gc_high :: u64

text \<open>
  The callers: those that make a sequence and have looked the name up, or logged too; those that
  have taken one out and not logged that; values taken by callers that hold the map's lock still,
  those with the mark read, and those whose new mark is logged; and the values handed out so far, each with the length the log had when it was. Two counts go along with
  them: how often each sequence was put in, and the length of the log when it was put in last
  while no value of that name was on its way.
\<close>

record gen_run =
  gr_gen :: generator
  gr_checked :: "(string \<times> u64) list"
  gr_logged :: "(string \<times> u64) list"
  gr_removing :: "string list"
  gr_holding :: "gen_call list"
  gr_taken :: "gen_call list"
  gr_marked :: "gen_call list"
  gr_out :: "(gen_call \<times> nat) list"
  gr_life :: "string \<Rightarrow> nat"
  gr_since :: "string \<Rightarrow> nat"

definition the_log :: "generator \<Rightarrow> operation list" where
  "the_log g = (case gn_logger g of Some lg \<Rightarrow> lg | None \<Rightarrow> [])"

definition on_the_way :: "string \<Rightarrow> gen_run \<Rightarrow> bool" where
  "on_the_way name s = (\<exists>c \<in> set (gr_holding s @ gr_taken s @ gr_marked s). gc_name c = name)"

text \<open>
  Other components append their records to the same log. A sequence is never run to within a
  chunk of the end of its numbers. A record that is refused ends its call with the error. The map is
  changed only while no caller holds it for reading.
\<close>

inductive gen_step :: "gen_run \<Rightarrow> gen_run \<Rightarrow> bool" where
  g_check: "create_check name (gr_gen s) = Inr () \<Longrightarrow> gen_step s (s\<lparr>gr_checked := (name, start) # gr_checked s\<rparr>)"
| g_create_log: "(name, start) \<in> set (gr_checked s) \<Longrightarrow> gn_log log_err name start False (gr_gen s) = (r, g) \<Longrightarrow>
    gen_step s (s\<lparr>gr_gen := g, gr_checked := remove1 (name, start) (gr_checked s),
      gr_logged := (case r of Inr _ \<Rightarrow> (name, start) # gr_logged s | Inl _ \<Rightarrow> gr_logged s)\<rparr>)"
| g_put: "(name, start) \<in> set (gr_logged s) \<Longrightarrow> gr_holding s = [] \<Longrightarrow>
    gen_step s (s\<lparr>gr_gen := put_seq name start (gr_gen s), gr_logged := remove1 (name, start) (gr_logged s),
      gr_life := (gr_life s)(name := gr_life s name + 1),
      gr_since := (if on_the_way name s then gr_since s else (gr_since s)(name := length (the_log (gr_gen s))))\<rparr>)"
| g_take_out: "take_out name (gr_gen s) = (found, g) \<Longrightarrow> gr_holding s = [] \<Longrightarrow>
    gen_step s (s\<lparr>gr_gen := g, gr_removing := (if found then name # gr_removing s else gr_removing s)\<rparr>)"
| g_remove_log: "name \<in> set (gr_removing s) \<Longrightarrow> gn_log log_err name 0 True (gr_gen s) = (r, g) \<Longrightarrow>
    gen_step s (s\<lparr>gr_gen := g, gr_removing := remove1 name (gr_removing s)\<rparr>)"
| g_take: "gen_next name (gr_gen s) = (Inr v, g) \<Longrightarrow> unat v + 32 < 2 ^ 64 \<Longrightarrow>
    gen_step s (s\<lparr>gr_gen := g, gr_holding := \<lparr>gc_name = name, gc_life = gr_life s name, gc_since = gr_since s name,
      gc_value = v, gc_high = 0\<rparr> # gr_holding s\<rparr>)"
| g_read: "c \<in> set (gr_holding s) \<Longrightarrow>
    gen_step s (s\<lparr>gr_holding := remove1 c (gr_holding s), gr_taken := c\<lparr>gc_high := gen_mark (gc_name c) (gr_gen s)\<rparr> # gr_taken s\<rparr>)"
| g_below: "c \<in> set (gr_taken s) \<Longrightarrow> gc_value c < gc_high c \<Longrightarrow>
    gen_step s (s\<lparr>gr_taken := remove1 c (gr_taken s), gr_out := (c, length (the_log (gr_gen s))) # gr_out s\<rparr>)"
| g_mark: "c \<in> set (gr_taken s) \<Longrightarrow> gc_high c \<le> gc_value c \<Longrightarrow> cover_log log_err (gc_name c) (gc_value c) (gr_gen s) = (r, g) \<Longrightarrow>
    gen_step s (s\<lparr>gr_gen := g, gr_taken := remove1 c (gr_taken s),
      gr_marked := (case r of Inr _ \<Rightarrow> c # gr_marked s | Inl _ \<Rightarrow> gr_marked s)\<rparr>)"
| g_raise: "c \<in> set (gr_marked s) \<Longrightarrow>
    gen_step s (s\<lparr>gr_gen := cover_raise (gc_name c) (gc_value c) (gr_gen s), gr_marked := remove1 c (gr_marked s),
      gr_out := (c, length (the_log (gr_gen s))) # gr_out s\<rparr>)"
| g_other: "\<forall>name h dropped. op \<noteq> Sequence name h dropped \<Longrightarrow>
    gen_step s (s\<lparr>gr_gen := attach_logger (the_log (gr_gen s) @ [op]) (gr_gen s)\<rparr>)"

definition gen_start :: gen_run where
  "gen_start = \<lparr>gr_gen = attach_logger [] gn_new, gr_checked = [], gr_logged = [], gr_removing = [], gr_holding = [], gr_taken = [],
     gr_marked = [], gr_out = [], gr_life = (\<lambda>_. 0), gr_since = (\<lambda>_. 0)\<rparr>"

text \<open>A mark at or above \<open>h\<close>, in the log from position \<open>k\<close> on.\<close>

definition covered :: "operation list \<Rightarrow> nat \<Rightarrow> string \<Rightarrow> u64 \<Rightarrow> bool" where
  "covered lg k name h = (\<exists>hw \<ge> h. Sequence name hw False \<in> set (drop k lg))"

lemma covered_more: "covered lg k name h \<Longrightarrow> covered (lg @ xs) k name h"
  by (auto simp: covered_def)

lemma covered_take: "covered (take m lg) k name h \<Longrightarrow> covered (take m (lg @ xs)) k name h"
  by (auto simp: covered_def)

lemma covered_new: "k \<le> length lg \<Longrightarrow> covered (lg @ [Sequence name h False]) k name h"
  by (auto simp: covered_def)

text \<open>
  What holds of a call: its sequence was not made again while it was on its way from the position it
  goes by; the present making of the sequence is past its value; and the mark it read or logged is covered.
\<close>

definition past :: "gen_run \<Rightarrow> gen_call \<Rightarrow> bool" where
  "past s c = (1 \<le> gc_life c \<and> gc_life c \<le> gr_life s (gc_name c)
     \<and> (\<forall>q. gc_life c = gr_life s (gc_name c) \<and> gn_gens (gr_gen s) (gc_name c) = Some q \<longrightarrow> gc_value c < sq_next q))"

definition holding_ok :: "gen_run \<Rightarrow> operation list \<Rightarrow> gen_call \<Rightarrow> bool" where
  "holding_ok s lg c = (past s c \<and> gc_since c = gr_since s (gc_name c) \<and> unat (gc_value c) + 32 < 2 ^ 64
     \<and> (\<exists>q. gn_gens (gr_gen s) (gc_name c) = Some q
          \<and> (sq_logged_high q \<le> gc_value c \<or> covered lg (gc_since c) (gc_name c) (sq_logged_high q))))"

definition taken_ok :: "gen_run \<Rightarrow> operation list \<Rightarrow> gen_call \<Rightarrow> bool" where
  "taken_ok s lg c = (past s c \<and> gc_since c = gr_since s (gc_name c) \<and> unat (gc_value c) + 32 < 2 ^ 64
     \<and> (gc_high c \<le> gc_value c \<or> covered lg (gc_since c) (gc_name c) (gc_high c)))"

definition marked_ok :: "gen_run \<Rightarrow> operation list \<Rightarrow> gen_call \<Rightarrow> bool" where
  "marked_ok s lg c = (past s c \<and> gc_since c = gr_since s (gc_name c) \<and> unat (gc_value c) + 32 < 2 ^ 64
     \<and> covered lg (gc_since c) (gc_name c) (gc_value c + 32))"

definition out_ok :: "gen_run \<Rightarrow> operation list \<Rightarrow> gen_call \<times> nat \<Rightarrow> bool" where
  "out_ok s lg x = (past s (fst x) \<and> (\<exists>h > gc_value (fst x). covered (take (snd x) lg) (gc_since (fst x)) (gc_name (fst x)) h))"

definition seq_ok :: "gen_run \<Rightarrow> operation list \<Rightarrow> string \<Rightarrow> bool" where
  "seq_ok s lg name = (gr_since s name \<le> length lg \<and> (\<forall>q. gn_gens (gr_gen s) name = Some q \<longrightarrow>
     1 \<le> gr_life s name \<and> (sq_logged_high q \<le> sq_next q \<or> covered lg (gr_since s name) name (sq_logged_high q))))"

definition value_of :: "gen_call \<Rightarrow> string \<times> nat \<times> u64" where
  "value_of c = (gc_name c, gc_life c, gc_value c)"

definition values_so_far :: "gen_run \<Rightarrow> (string \<times> nat \<times> u64) list" where
  "values_so_far s = map value_of (gr_holding s @ gr_taken s @ gr_marked s @ map fst (gr_out s))"

definition gen_ok :: "gen_run \<Rightarrow> operation list \<Rightarrow> bool" where
  "gen_ok s lg = (list_all (holding_ok s lg) (gr_holding s) \<and> list_all (taken_ok s lg) (gr_taken s) \<and> list_all (marked_ok s lg) (gr_marked s) \<and> list_all (out_ok s lg) (gr_out s)
     \<and> (\<forall>name. seq_ok s lg name) \<and> distinct (values_so_far s))"

definition gen_inv :: "gen_run \<Rightarrow> bool" where
  "gen_inv s = (\<exists>lg. gn_logger (gr_gen s) = Some lg \<and> gen_ok s lg)"

lemma gen_inv_start: "gen_inv gen_start"
  by (simp add: gen_inv_def gen_ok_def gen_start_def attach_logger_def gn_new_def seq_ok_def values_so_far_def)

text \<open>Steps only go onward: lives grow, and within one the next value does.\<close>

definition onward :: "gen_run \<Rightarrow> gen_run \<Rightarrow> bool" where
  "onward s s' = ((\<forall>n. gr_life s n \<le> gr_life s' n) \<and> (\<forall>n q'. gn_gens (gr_gen s') n = Some q' \<and> gr_life s' n = gr_life s n \<longrightarrow>
     (\<exists>q. gn_gens (gr_gen s) n = Some q \<and> sq_next q \<le> sq_next q')))"

lemma past_onward:
  assumes "onward s s'" and "past s c"
  shows "past s' c"
proof -
  have life: "gc_life c \<le> gr_life s' (gc_name c)" using assms unfolding onward_def past_def by (meson order.trans)
  have "gc_value c < sq_next q'" if l: "gc_life c = gr_life s' (gc_name c)" and q': "gn_gens (gr_gen s') (gc_name c) = Some q'" for q'
  proof -
    have "gr_life s (gc_name c) = gr_life s' (gc_name c)" using assms l unfolding onward_def past_def by (metis antisym)
    moreover from this obtain q where "gn_gens (gr_gen s) (gc_name c) = Some q" "sq_next q \<le> sq_next q'"
      using assms(1) q' unfolding onward_def by metis
    ultimately show ?thesis using assms(2) l unfolding past_def by (metis less_le_trans)
  qed
  with life assms(2) show ?thesis by (simp add: past_def)
qed

lemma calls_onward:
  assumes "onward s s'"
  shows "gr_since s' (gc_name c) = gr_since s (gc_name c) \<Longrightarrow> taken_ok s lg c \<Longrightarrow> taken_ok s' (lg @ xs) c"
    and "gr_since s' (gc_name c) = gr_since s (gc_name c) \<Longrightarrow> marked_ok s lg c \<Longrightarrow> marked_ok s' (lg @ xs) c"
    and "out_ok s lg x \<Longrightarrow> out_ok s' (lg @ xs) x"
  using past_onward [OF assms] covered_more covered_take
  by (auto simp: taken_ok_def marked_ok_def out_ok_def)

lemma holding_onward:
  assumes "onward s s'" and "holding_ok s lg c" and n: "n = gc_name c" "gr_since s' n = gr_since s n"
    and gens: "\<And>q. gn_gens (gr_gen s) n = Some q \<Longrightarrow>
      \<exists>q'. gn_gens (gr_gen s') n = Some q' \<and> (sq_logged_high q' = sq_logged_high q \<or> covered (lg @ xs) (gr_since s n) n (sq_logged_high q'))"
  shows "holding_ok s' (lg @ xs) c"
proof -
  obtain q where q: "gn_gens (gr_gen s) n = Some q" "sq_logged_high q \<le> gc_value c \<or> covered lg (gc_since c) n (sq_logged_high q)"
    and c: "past s c" "gc_since c = gr_since s n" "unat (gc_value c) + 32 < 2 ^ 64"
    using assms(2) unfolding holding_ok_def n(1) by blast
  obtain q' where "gn_gens (gr_gen s') n = Some q'" "sq_logged_high q' = sq_logged_high q \<or> covered (lg @ xs) (gr_since s n) n (sq_logged_high q')"
    using gens [OF q(1)] by blast
  with q(2) have "\<exists>q'. gn_gens (gr_gen s') n = Some q' \<and> (sq_logged_high q' \<le> gc_value c \<or> covered (lg @ xs) (gc_since c) n (sq_logged_high q'))"
    using covered_more [of lg "gc_since c" n] c(2) by metis
  then show ?thesis using c n past_onward [OF assms(1) c(1)] by (simp add: holding_ok_def)
qed

lemma seq_onward:
  "seq_ok s lg n \<Longrightarrow> gn_gens (gr_gen s') n = gn_gens (gr_gen s) n \<Longrightarrow> gr_life s' n = gr_life s n \<Longrightarrow> gr_since s' n = gr_since s n \<Longrightarrow>
   seq_ok s' (lg @ xs) n"
  using covered_more by (auto simp: seq_ok_def)

lemma distinct_submset:
  assumes "mset xs \<subseteq># mset ys" and "distinct ys"
  shows "distinct xs"
proof -
  obtain zs where "mset zs = mset ys - mset xs" using ex_mset by blast
  then have "mset ys = mset (xs @ zs)" using assms(1) by simp
  then show ?thesis using mset_eq_imp_distinct_iff [of ys "xs @ zs"] assms(2) by simp
qed

lemma gen_okD:
  assumes "gen_ok s lg"
  shows "c \<in> set (gr_taken s) \<Longrightarrow> taken_ok s lg c" and "c \<in> set (gr_marked s) \<Longrightarrow> marked_ok s lg c"
    and "x \<in> set (gr_out s) \<Longrightarrow> out_ok s lg x" and "seq_ok s lg n" and "distinct (values_so_far s)"
    and "c \<in> set (gr_holding s) \<Longrightarrow> holding_ok s lg c"
  using assms by (auto simp: gen_ok_def list_all_iff)

text \<open>What a step has to show: of the calls and values it adds, of the sequence it touches, and that no value comes twice.\<close>

lemma gen_ok_step:
  assumes "gen_ok s lg" and on: "onward s s'"
    and since: "\<And>c. c \<in> set (gr_taken s) \<union> set (gr_marked s) \<Longrightarrow> gr_since s' (gc_name c) = gr_since s (gc_name c)"
    and hold: "\<And>c. c \<in> set (gr_holding s') \<Longrightarrow> holding_ok s' (lg @ xs) c"
    and "\<And>c. c \<in> set (gr_taken s') \<Longrightarrow> c \<in> set (gr_taken s) \<or> taken_ok s' (lg @ xs) c"
    and "\<And>c. c \<in> set (gr_marked s') \<Longrightarrow> c \<in> set (gr_marked s) \<or> marked_ok s' (lg @ xs) c"
    and "\<And>x. x \<in> set (gr_out s') \<Longrightarrow> x \<in> set (gr_out s) \<or> out_ok s' (lg @ xs) x"
    and seqs: "\<And>n. n \<noteq> name \<Longrightarrow> gn_gens (gr_gen s') n = gn_gens (gr_gen s) n \<and> gr_life s' n = gr_life s n \<and> gr_since s' n = gr_since s n"
    and "seq_ok s' (lg @ xs) name"
    and "mset (values_so_far s') \<subseteq># mset (values_so_far s) \<or> distinct (values_so_far s')"
  shows "gen_ok s' (lg @ xs)"
proof -
  note ok = gen_okD [OF assms(1)]
  have "taken_ok s' (lg @ xs) c" if "c \<in> set (gr_taken s')" for c
    using assms(5) [OF that] calls_onward(1) [OF on since] ok(1) by blast
  moreover have "marked_ok s' (lg @ xs) c" if "c \<in> set (gr_marked s')" for c
    using assms(6) [OF that] calls_onward(2) [OF on since] ok(2) by blast
  moreover have "out_ok s' (lg @ xs) x" if "x \<in> set (gr_out s')" for x
    using assms(7) [OF that] calls_onward(3) [OF on] ok(3) by blast
  moreover have "seq_ok s' (lg @ xs) n" for n using assms(9) seq_onward [OF ok(4)] seqs by (cases "n = name") auto
  moreover have "distinct (values_so_far s')"
    using assms(10) ok(5) distinct_submset by blast
  ultimately show ?thesis using hold by (simp add: gen_ok_def list_all_iff)
qed

lemma log_cases:
  assumes "gn_log err name h dropped g = (r, g')" and "gn_logger g = Some lg"
  shows "(\<exists>e. r = Inl e \<and> g' = g) \<or> (r = Inr () \<and> gn_logger g' = Some (lg @ [Sequence name h dropped]) \<and> gn_gens g' = gn_gens g)"
  using assms by (auto simp: gn_log_def split: option.splits)

lemma onward_same: "gn_gens (gr_gen s') = gn_gens (gr_gen s) \<Longrightarrow> gr_life s' = gr_life s \<Longrightarrow> onward s s'"
  by (simp add: onward_def)

lemma gen_ok_log:
  assumes "gen_ok s lg" and same: "gn_gens (gr_gen s') = gn_gens (gr_gen s)" "gr_life s' = gr_life s" "gr_since s' = gr_since s"
    and hold: "set (gr_holding s') \<subseteq> set (gr_holding s)"
    and "\<And>c. c \<in> set (gr_taken s') \<Longrightarrow> c \<in> set (gr_taken s) \<or> taken_ok s' (lg @ xs) c"
    and "\<And>c. c \<in> set (gr_marked s') \<Longrightarrow> c \<in> set (gr_marked s) \<or> marked_ok s' (lg @ xs) c"
    and "\<And>x. x \<in> set (gr_out s') \<Longrightarrow> x \<in> set (gr_out s) \<or> out_ok s' (lg @ xs) x"
    and "mset (values_so_far s') \<subseteq># mset (values_so_far s)"
  shows "gen_ok s' (lg @ xs)"
proof (rule gen_ok_step [OF assms(1) onward_same [OF same(1,2)]])
  show "holding_ok s' (lg @ xs) c" if "c \<in> set (gr_holding s')" for c
    by (rule holding_onward [OF onward_same [OF same(1,2)] gen_okD(6) [OF assms(1)] refl]) (use that hold same in auto)
qed (use assms seq_onward [OF gen_okD(4) [OF assms(1)] _ _ _, of s'] in auto)

lemma values_so_far_move:
  "c \<in> set xs \<Longrightarrow> add_mset (value_of c) (mset (map value_of (remove1 c xs))) = mset (map value_of xs)"
  by (simp add: image_mset_add_mset [symmetric] del: image_mset_add_mset)

lemma values_so_far_drop: "c \<in> set xs \<Longrightarrow> mset (map value_of (remove1 c xs)) \<subseteq># mset (map value_of xs)"
  unfolding values_so_far_move [symmetric] by (simp del: mset_map)

lemma in_remove1: "c \<in> set (remove1 x xs) \<Longrightarrow> c \<in> set xs"
  using set_remove1_subset by fastforce

lemma ok_put:
  assumes ok: "gen_ok s lg" and lg: "gn_logger (gr_gen s) = Some lg" and free: "gr_holding s = []"
    and s': "s' = s\<lparr>gr_gen := put_seq name start (gr_gen s), gr_logged := xs, gr_life := (gr_life s)(name := gr_life s name + 1),
      gr_since := (if on_the_way name s then gr_since s else (gr_since s)(name := length (the_log (gr_gen s))))\<rparr>"
  shows "gen_ok s' (lg @ [])"
proof (rule gen_ok_step [OF ok, where name = name])
  show "onward s s'" by (auto simp: s' onward_def put_seq_def)
  show "gr_since s' (gc_name c) = gr_since s (gc_name c)" if "c \<in> set (gr_taken s) \<union> set (gr_marked s)" for c
    using that by (auto simp: s' on_the_way_def)
  show "seq_ok s' (lg @ []) name"
    using gen_okD(4) [OF ok, of name] lg by (simp add: seq_ok_def s' put_seq_def the_log_def)
qed (simp_all add: s' free put_seq_def values_so_far_def)

lemma ok_take:
  assumes ok: "gen_ok s lg" and t: "gen_next name (gr_gen s) = (Inr v, g)" "unat v + 32 < 2 ^ 64"
    and s': "s' = s\<lparr>gr_gen := g, gr_holding := \<lparr>gc_name = name, gc_life = gr_life s name, gc_since = gr_since s name,
      gc_value = v, gc_high = 0\<rparr> # gr_holding s\<rparr>"
  shows "gen_ok s' (lg @ [])"
proof -
  obtain q where q: "gn_gens (gr_gen s) name = Some q" "v = sq_next q"
      "g = (gr_gen s)\<lparr>gn_gens := (gn_gens (gr_gen s))(name \<mapsto> q\<lparr>sq_next := v + 1\<rparr>)\<rparr>"
    using t(1) by (auto simp: gen_next_def split: option.splits)
  have up: "v < v + 1" using t(2) by (simp add: word_less_nat_alt unat_word_ariths)
  have sq: "1 \<le> gr_life s name" "sq_logged_high q \<le> v \<or> covered lg (gr_since s name) name (sq_logged_high q)" "gr_since s name \<le> length lg"
    using gen_okD(4) [OF ok, of name] q by (auto simp: seq_ok_def)
  have on: "onward s s'" using up q by (auto simp: s' onward_def)
  show ?thesis
  proof (rule gen_ok_step [OF ok on, where name = name])
    let ?c = "\<lparr>gc_name = name, gc_life = gr_life s name, gc_since = gr_since s name, gc_value = v, gc_high = 0\<rparr>"
    have "holding_ok s' (lg @ []) ?c" using sq up t(2) q by (auto simp: s' holding_ok_def past_def)
    moreover have "holding_ok s' (lg @ []) c" if "c \<in> set (gr_holding s)" for c
      by (rule holding_onward [OF on gen_okD(6) [OF ok that] refl]) (use q(1) in \<open>auto simp: s' q(3)\<close>)
    ultimately show "holding_ok s' (lg @ []) c" if "c \<in> set (gr_holding s')" for c using that by (auto simp: s')
    show "seq_ok s' (lg @ []) name" using sq up q by (auto simp: seq_ok_def s')
    have "past s c \<Longrightarrow> value_of c \<noteq> (name, gr_life s name, v)" for c using q by (auto simp: past_def value_of_def)
    then have "(name, gr_life s name, v) \<notin> set (values_so_far s)"
      using gen_okD(1-3,6) [OF ok] by (fastforce simp: values_so_far_def holding_ok_def taken_ok_def marked_ok_def out_ok_def)
    then show "mset (values_so_far s') \<subseteq># mset (values_so_far s) \<or> distinct (values_so_far s')"
      using gen_okD(5) [OF ok] by (simp add: values_so_far_def s' value_of_def)
  qed (simp_all add: s' q)
qed

lemma ok_read:
  assumes ok: "gen_ok s lg" and c: "c \<in> set (gr_holding s)"
    and s': "s' = s\<lparr>gr_holding := remove1 c (gr_holding s), gr_taken := c\<lparr>gc_high := gen_mark (gc_name c) (gr_gen s)\<rparr> # gr_taken s\<rparr>"
  shows "gen_ok s' (lg @ [])"
proof (rule gen_ok_log [OF ok])
  let ?c = "c\<lparr>gc_high := gen_mark (gc_name c) (gr_gen s)\<rparr>"
  have "taken_ok s' (lg @ []) ?c"
    using gen_okD(6) [OF ok c] by (auto simp: holding_ok_def taken_ok_def past_def gen_mark_def s')
  then show "d \<in> set (gr_taken s) \<or> taken_ok s' (lg @ []) d" if "d \<in> set (gr_taken s')" for d
    using that by (auto simp: s')
  have "value_of ?c = value_of c" by (simp add: value_of_def)
  then show "mset (values_so_far s') \<subseteq># mset (values_so_far s)"
    using values_so_far_move [OF c] by (simp add: values_so_far_def s' del: mset_map)
qed (auto simp: s' dest: in_remove1)

lemma ok_raise:
  assumes ok: "gen_ok s lg" and lg: "gn_logger (gr_gen s) = Some lg" and c: "c \<in> set (gr_marked s)"
    and s': "s' = s\<lparr>gr_gen := cover_raise (gc_name c) (gc_value c) (gr_gen s), gr_marked := remove1 c (gr_marked s),
      gr_out := (c, length (the_log (gr_gen s))) # gr_out s\<rparr>"
  shows "gen_ok s' (lg @ [])"
proof -
  have m: "past s c" "gc_since c = gr_since s (gc_name c)" "unat (gc_value c) + 32 < 2 ^ 64" "covered lg (gc_since c) (gc_name c) (gc_value c + 32)"
    using gen_okD(2) [OF ok c] unfolding marked_ok_def by blast+
  have up: "gc_value c < gc_value c + 32" using m(3) by (simp add: word_less_nat_alt unat_word_ariths)
  have on: "onward s s'" by (auto simp: s' onward_def cover_raise_def split: option.split)
  show ?thesis
  proof (rule gen_ok_step [OF ok on, where name = "gc_name c"])
    show "holding_ok s' (lg @ []) d" if "d \<in> set (gr_holding s')" for d
      by (rule holding_onward [OF on gen_okD(6) [OF ok] refl])
        (use that m(2,4) in \<open>auto simp: s' cover_raise_def max_def split: option.split\<close>)
    show "x \<in> set (gr_out s) \<or> out_ok s' (lg @ []) x" if "x \<in> set (gr_out s')" for x
      using that up m(4) past_onward [OF on m(1)] lg by (auto simp: s' out_ok_def the_log_def)
    show "seq_ok s' (lg @ []) (gc_name c)"
      using gen_okD(4) [OF ok, of "gc_name c"] m(2,4) by (auto simp: seq_ok_def s' cover_raise_def max_def split: option.splits if_splits)
    show "mset (values_so_far s') \<subseteq># mset (values_so_far s) \<or> distinct (values_so_far s')"
      using values_so_far_move [OF c] by (simp add: values_so_far_def s' del: mset_map)
  qed (auto simp: s' cover_raise_def dest: in_remove1 split: option.split)
qed

lemma ok_below:
  assumes ok: "gen_ok s lg" and lg: "gn_logger (gr_gen s) = Some lg" and c: "c \<in> set (gr_taken s)" "gc_value c < gc_high c"
    and s': "s' = s\<lparr>gr_taken := remove1 c (gr_taken s), gr_out := (c, length (the_log (gr_gen s))) # gr_out s\<rparr>"
  shows "gen_ok s' (lg @ [])"
proof (rule gen_ok_log [OF ok])
  have "past s c" "covered lg (gc_since c) (gc_name c) (gc_high c)"
    using gen_okD(1) [OF ok c(1)] c(2) by (auto simp: taken_ok_def)
  moreover from this have "past s' c" by (simp add: s' past_def)
  ultimately have out: "out_ok s' (lg @ []) (c, length (the_log (gr_gen s)))"
    using c(2) lg unfolding out_ok_def fst_conv snd_conv by (intro conjI exI [of _ "gc_high c"]) (simp_all add: the_log_def)
  show "x \<in> set (gr_out s) \<or> out_ok s' (lg @ []) x" if "x \<in> set (gr_out s')" for x
  proof -
    have "x = (c, length (the_log (gr_gen s))) \<or> x \<in> set (gr_out s)" using that by (simp add: s')
    then show ?thesis using out by blast
  qed
  show "mset (values_so_far s') \<subseteq># mset (values_so_far s)" using values_so_far_move [OF c(1)] by (simp add: values_so_far_def s' del: mset_map)
qed (auto simp: s' dest: in_remove1)

lemma ok_new_mark:
  assumes ok: "gen_ok s lg" and lg: "gn_logger (gr_gen s) = Some lg" and c: "c \<in> set (gr_taken s)"
    and log: "cover_log log_err (gc_name c) (gc_value c) (gr_gen s) = (r, g)"
    and s': "s' = s\<lparr>gr_gen := g, gr_taken := remove1 c (gr_taken s), gr_marked := (case r of Inr _ \<Rightarrow> c # gr_marked s | Inl _ \<Rightarrow> gr_marked s)\<rparr>"
  shows "\<exists>xs. gen_ok s' (lg @ xs) \<and> gn_logger (gr_gen s') = Some (lg @ xs)"
proof -
  have t: "past s c" "gc_since c = gr_since s (gc_name c)" "unat (gc_value c) + 32 < 2 ^ 64"
    using gen_okD(1) [OF ok c] unfolding taken_ok_def by blast+
  have k: "gc_since c \<le> length lg" using gen_okD(4) [OF ok, of "gc_name c"] t(2) by (simp add: seq_ok_def)
  consider e where "r = Inl e" "g = gr_gen s"
    | "r = Inr ()" "gn_logger g = Some (lg @ [Sequence (gc_name c) (gc_value c + 32) False])" "gn_gens g = gn_gens (gr_gen s)"
    using log_cases [OF log [unfolded cover_log_def] lg] by blast
  then show ?thesis
  proof cases
    case 1
    have "gen_ok s' (lg @ [])"
      by (rule gen_ok_log [OF ok])
        (use values_so_far_drop [OF c] in \<open>auto simp: s' 1 lg values_so_far_def simp del: mset_map dest: in_remove1\<close>)
    then show ?thesis by (intro exI [of _ "[]"]) (simp add: s' 1 lg)
  next
    case 2
    have "gen_ok s' (lg @ [Sequence (gc_name c) (gc_value c + 32) False])"
    proof (rule gen_ok_log [OF ok])
      show "d \<in> set (gr_marked s) \<or> marked_ok s' (lg @ [Sequence (gc_name c) (gc_value c + 32) False]) d" if "d \<in> set (gr_marked s')" for d
        using that t k 2 covered_new [OF k, of "gc_name c" "gc_value c + 32"] by (auto simp: s' marked_ok_def past_def)
      show "mset (values_so_far s') \<subseteq># mset (values_so_far s)"
        using values_so_far_move [OF c] by (simp add: values_so_far_def s' 2 del: mset_map)
    qed (auto simp: s' 2 dest: in_remove1)
    then show ?thesis using 2 by (auto simp: s')
  qed
qed

lemma gen_step_keeps:
  assumes "gen_step s s'" and "gen_inv s"
  shows "gen_inv s'"
proof -
  obtain lg where lg: "gn_logger (gr_gen s) = Some lg" and ok: "gen_ok s lg" using assms(2) by (auto simp: gen_inv_def)
  have inv: "gen_inv s'" if "gen_ok s' (lg @ xs)" "gn_logger (gr_gen s') = Some (lg @ xs)" for xs using that by (auto simp: gen_inv_def)
  note log_ok = gen_ok_log [OF ok, of s']
  from assms(1) show ?thesis
  proof cases
    case (g_check name start)
    show ?thesis by (rule inv [of "[]"], rule log_ok) (simp_all add: g_check lg values_so_far_def)
  next
    case (g_create_log name start log_err r g)
    obtain xs where xs: "gn_logger g = Some (lg @ xs)" "gn_gens g = gn_gens (gr_gen s)" using log_cases [OF g_create_log(3) lg] lg by (metis append_Nil2)
    show ?thesis by (rule inv [of xs], rule log_ok) (simp_all add: g_create_log(1) xs values_so_far_def)
  next
    case (g_put name start)
    show ?thesis by (rule inv [OF ok_put [OF ok lg g_put(3,1)]]) (simp add: g_put(1) lg put_seq_def)
  next
    case (g_take_out name found g)
    have g: "gn_logger g = Some lg" "gn_gens g = (gn_gens (gr_gen s))(name := None)" using g_take_out(2) lg by (auto simp: take_out_def)
    have "gen_ok s' (lg @ [])"
      by (rule gen_ok_step [OF ok, where name = name])
        (use gen_okD(4) [OF ok, of name] in \<open>auto simp: g_take_out(1,3) g onward_def seq_ok_def values_so_far_def split: if_splits\<close>)
    then show ?thesis by (rule inv) (simp add: g_take_out(1) g)
  next
    case (g_remove_log name log_err r g)
    obtain xs where xs: "gn_logger g = Some (lg @ xs)" "gn_gens g = gn_gens (gr_gen s)" using log_cases [OF g_remove_log(3) lg] lg by (metis append_Nil2)
    show ?thesis by (rule inv [of xs], rule log_ok) (simp_all add: g_remove_log(1) xs values_so_far_def)
  next
    case (g_take name v g)
    have "gn_logger g = Some lg" using g_take(2) lg by (auto simp: gen_next_def split: option.splits)
    then show ?thesis by (intro inv [OF ok_take [OF ok g_take(2,3,1)]]) (simp add: g_take(1))
  next
    case (g_read c)
    show ?thesis by (rule inv [OF ok_read [OF ok g_read(2,1)]]) (simp add: g_read(1) lg)
  next
    case (g_below c)
    show ?thesis by (rule inv [OF ok_below [OF ok lg g_below(2,3,1)]]) (simp add: g_below(1) lg)
  next
    case (g_mark c log_err r g)
    then show ?thesis using ok_new_mark [OF ok lg g_mark(2,4,1)] inv by blast
  next
    case (g_raise c)
    show ?thesis by (rule inv [OF ok_raise [OF ok lg g_raise(2,1)]]) (simp add: g_raise(1) lg cover_raise_def split: option.split)
  next
    case (g_other op)
    show ?thesis by (rule inv [of "[op]"], rule log_ok) (simp_all add: g_other(1) attach_logger_def the_log_def lg values_so_far_def)
  qed
qed

section \<open>Recovery\<close>

lemma replay_keeps_up:
  assumes "\<And>h. Sequence name h True \<notin> set ops" "gn_gens g name = Some q"
  shows "\<exists>q'. gn_gens (replay_sequences ops g) name = Some q' \<and> sq_next q \<le> sq_next q'"
  using assms
proof (induction ops arbitrary: g q)
  case (Cons op ops)
  have "\<exists>q'. gn_gens (replay_sequence op g) name = Some q' \<and> sq_next q \<le> sq_next q'"
    using Cons.prems by (cases op) (auto simp: remove_unlogged_def ensure_at_least_def put_seq_def split: option.splits)
  then obtain q1 where q1: "gn_gens (replay_sequence op g) name = Some q1" "sq_next q \<le> sq_next q1" by blast
  have "\<And>h. Sequence name h True \<notin> set ops" using Cons.prems(1) by simp
  from Cons.IH [OF this q1(1)] q1(2) show ?case by (auto simp: replay_sequences_def)
qed (simp add: replay_sequences_def)

lemma replay_covers:
  assumes "\<And>h. Sequence name h True \<notin> set ops" "Sequence name hw False \<in> set ops"
  shows "\<exists>q. gn_gens (replay_sequences ops g) name = Some q \<and> hw \<le> sq_next q"
proof -
  obtain xs ys where ops: "ops = xs @ Sequence name hw False # ys" using assms(2) by (meson split_list)
  let ?g = "replay_sequence (Sequence name hw False) (replay_sequences xs g)"
  have "\<exists>q. gn_gens ?g name = Some q \<and> hw \<le> sq_next q"
    by (auto simp: ensure_at_least_def put_seq_def split: option.split)
  then obtain q where q: "gn_gens ?g name = Some q" "hw \<le> sq_next q" by blast
  have "\<And>h. Sequence name h True \<notin> set ys" using assms(1) ops by simp
  from replay_keeps_up [OF this q(1)] q(2) show ?thesis by (auto simp: ops replay_sequences_def)
qed

text \<open>
  C32. A sequence never repeats a value, across crashes too. Whatever calls run at once and
  however their parts interleave - sequences being made, removed and made again, values being
  taken, logged and returned, the rest of the log - all values handed out by one making of a
  sequence are different. For each of them, recovery from any first part of the log that reaches
  the point where it was handed out leaves its sequence beyond it, whatever values a checkpoint had kept, as
  long as that part has no removal of the sequence from the point on where it was made (if
  values of an earlier making were still on their way then, from where that one was). A sequence
  removed and made again starts anew.
\<close>

theorem sequences_never_repeat:
  assumes "gen_step\<^sup>*\<^sup>* gen_start s"
  shows "distinct (map (\<lambda>(c, _). (gc_name c, gc_life c, gc_value c)) (gr_out s))
    \<and> (\<forall>(c, m) \<in> set (gr_out s). 1 \<le> gc_life c \<and> gc_life c \<le> gr_life s (gc_name c)
       \<and> (\<forall>n \<ge> m. \<forall>kept. (\<forall>h. Sequence (gc_name c) h True \<notin> set (drop (gc_since c) (take n (the_log (gr_gen s))))) \<longrightarrow>
         (\<exists>q. gn_gens (replay_sequences (take n (the_log (gr_gen s))) (set_values kept gn_new)) (gc_name c) = Some q \<and> gc_value c < sq_next q)))"
proof -
  have inv: "gen_inv s" using assms by (induction rule: rtranclp_induct) (auto intro: gen_inv_start gen_step_keeps)
  then obtain lg where lg: "gn_logger (gr_gen s) = Some lg" and ok: "gen_ok s lg" by (auto simp: gen_inv_def)
  have eq: "(\<lambda>(c, _). (gc_name c, gc_life c, gc_value c)) = value_of \<circ> fst" by (auto simp: fun_eq_iff value_of_def)
  have "distinct (map (\<lambda>(c, _). (gc_name c, gc_life c, gc_value c)) (gr_out s))"
    using gen_okD(5) [OF ok] unfolding eq by (simp add: values_so_far_def)
  moreover have "\<exists>q. gn_gens (replay_sequences (take n lg) g) (gc_name c) = Some q \<and> gc_value c < sq_next q"
    if out: "(c, m) \<in> set (gr_out s)" and n: "m \<le> n" and kept: "\<forall>h. Sequence (gc_name c) h True \<notin> set (drop (gc_since c) (take n lg))" for c m n g
  proof -
    obtain h hw where h: "gc_value c < h" "h \<le> hw" "Sequence (gc_name c) hw False \<in> set (drop (gc_since c) (take m lg))"
      using gen_okD(3) [OF ok out] by (auto simp: out_ok_def covered_def)
    have "take n lg = take m lg @ take (n - m) (drop m lg)" using n by (metis le_add_diff_inverse take_add)
    with h(3) have "Sequence (gc_name c) hw False \<in> set (drop (gc_since c) (take n lg))" by auto
    from replay_covers [OF _ this, of "replay_sequences (take (gc_since c) (take n lg)) g"] kept obtain q where
      q: "gn_gens (replay_sequences (drop (gc_since c) (take n lg)) (replay_sequences (take (gc_since c) (take n lg)) g)) (gc_name c) = Some q" "hw \<le> sq_next q"
      by blast
    have "replay_sequences (drop (gc_since c) (take n lg)) (replay_sequences (take (gc_since c) (take n lg)) g) = replay_sequences (take n lg) g"
      unfolding replay_sequences_def by (metis append_take_drop_id comp_apply fold_append)
    then show ?thesis using q h by auto
  qed
  moreover have "1 \<le> gc_life c \<and> gc_life c \<le> gr_life s (gc_name c)" if "(c, m) \<in> set (gr_out s)" for c m
    using gen_okD(3) [OF ok that] by (auto simp: out_ok_def past_def)
  ultimately show ?thesis using lg by (auto simp: the_log_def)
qed

section \<open>Runs of calls\<close>

definition call_of :: "nat \<Rightarrow> nat \<Rightarrow> u64 \<Rightarrow> gen_call" where
  "call_of life since v = \<lparr>gc_name = ''s'', gc_life = life, gc_since = since, gc_value = v, gc_high = v\<rparr>"

text \<open>One sequence, with no value on its way and no removal.\<close>

definition lone :: "seq option \<Rightarrow> operation list \<Rightarrow> u64 list \<Rightarrow> u64 list \<Rightarrow> (gen_call \<times> nat) list \<Rightarrow> nat \<Rightarrow> nat \<Rightarrow> gen_run" where
  "lone q lg checked logged out life since =
     \<lparr>gr_gen = \<lparr>gn_gens = Map.empty(''s'' := q), gn_logger = Some lg\<rparr>, gr_checked = map (Pair ''s'') checked,
       gr_logged = map (Pair ''s'') logged, gr_removing = [], gr_holding = [], gr_taken = [], gr_marked = [], gr_out = out,
       gr_life = (\<lambda>_. 0)(''s'' := life), gr_since = (\<lambda>_. 0)(''s'' := since)\<rparr>"

lemma lone_start: "gen_start = lone None [] [] [] [] 0 0"
  by (simp add: gen_start_def lone_def attach_logger_def gn_new_def fun_eq_iff)

lemma lone_check: "gen_step (lone None lg cs ls out life since) (lone None lg (v # cs) ls out life since)"
  using g_check [of "''s''" "lone None lg cs ls out life since" v] by (simp add: lone_def create_check_def)

lemma lone_log: "gen_step (lone q lg (v # cs) ls out life since) (lone q (lg @ [Sequence ''s'' v False]) cs (v # ls) out life since)"
  using g_create_log [of "''s''" v "lone q lg (v # cs) ls out life since" None "Inr ()"] by (simp add: lone_def gn_log_def)

lemma lone_put:
  "life' = life + 1 \<Longrightarrow> since' = length lg \<Longrightarrow>
   gen_step (lone q lg cs (v # ls) out life since) (lone (Some \<lparr>sq_next = v, sq_logged_high = v\<rparr>) lg cs ls out life' since')"
  using g_put [of "''s''" v "lone q lg cs (v # ls) out life since"] by (simp add: lone_def put_seq_def on_the_way_def the_log_def)

lemma lone_value:
  assumes "unat v + 32 < 2 ^ 64" and "v' = v + 1" and "h = v + 32" and "m = length lg + 1"
  shows "gen_step\<^sup>*\<^sup>* (lone (Some \<lparr>sq_next = v, sq_logged_high = v\<rparr>) lg cs ls out life since)
    (lone (Some \<lparr>sq_next = v', sq_logged_high = h\<rparr>) (lg @ [Sequence ''s'' h False]) cs ls ((call_of life since v, m) # out) life since)"
    (is "gen_step\<^sup>*\<^sup>* ?s0 ?s3")
proof -
  let ?c = "call_of life since v" and ?s1 = "lone (Some \<lparr>sq_next = v', sq_logged_high = v\<rparr>) lg cs ls out life since"
    and ?s2 = "lone (Some \<lparr>sq_next = v', sq_logged_high = v\<rparr>) (lg @ [Sequence ''s'' h False]) cs ls out life since"
  have h: "max v h = h" using assms(1,3) by (simp add: word_le_nat_alt unat_word_ariths)
  have "gen_step ?s0 (?s1\<lparr>gr_holding := [?c\<lparr>gc_high := 0\<rparr>]\<rparr>)"
    using g_take [of "''s''" ?s0 v] assms(1,2) by (simp add: gen_next_def call_of_def lone_def)
  moreover have "gen_step (?s1\<lparr>gr_holding := [?c\<lparr>gc_high := 0\<rparr>]\<rparr>) (?s1\<lparr>gr_taken := [?c]\<rparr>)"
    using g_read [of "?c\<lparr>gc_high := 0\<rparr>" "?s1\<lparr>gr_holding := [?c\<lparr>gc_high := 0\<rparr>]\<rparr>"] by (simp add: gen_mark_def call_of_def lone_def)
  moreover have "gen_step (?s1\<lparr>gr_taken := [?c]\<rparr>) (?s2\<lparr>gr_marked := [?c]\<rparr>)"
    using g_mark [of ?c "?s1\<lparr>gr_taken := [?c]\<rparr>" None "Inr ()"] assms(3) by (simp add: cover_log_def gn_log_def call_of_def lone_def)
  moreover have "gen_step (?s2\<lparr>gr_marked := [?c]\<rparr>) ?s3"
    using g_raise [of ?c "?s2\<lparr>gr_marked := [?c]\<rparr>"] h assms(3,4) by (simp add: cover_raise_def the_log_def call_of_def lone_def)
  ultimately show ?thesis by (meson converse_rtranclp_into_rtranclp rtranclp.rtrancl_refl)
qed

lemma gen_demo_reached:
  "gen_step\<^sup>*\<^sup>* gen_start (lone (Some \<lparr>sq_next = 6, sq_logged_high = 37\<rparr>) [Sequence ''s'' 5 False, Sequence ''s'' 37 False] [] [] [(call_of 1 1 5, 2)] 1 1)"
proof -
  have "gen_step gen_start (lone None [] [5] [] [] 0 0)" "gen_step (lone None [] [5] [] [] 0 0) (lone None [Sequence ''s'' 5 False] [] [5] [] 0 0)"
    using lone_check [of "[]" "[]" "[]" "[]" 0 0 5] lone_log [of None "[]" 5 "[]" "[]" "[]" 0 0] by (simp_all add: lone_start)
  moreover have "gen_step (lone None [Sequence ''s'' 5 False] [] [5] [] 0 0) (lone (Some \<lparr>sq_next = 5, sq_logged_high = 5\<rparr>) [Sequence ''s'' 5 False] [] [] [] 1 1)"
    by (rule lone_put) simp_all
  moreover have "gen_step\<^sup>*\<^sup>* (lone (Some \<lparr>sq_next = 5, sq_logged_high = 5\<rparr>) [Sequence ''s'' 5 False] [] [] [] 1 1)
      (lone (Some \<lparr>sq_next = 6, sq_logged_high = 37\<rparr>) ([Sequence ''s'' 5 False] @ [Sequence ''s'' 37 False]) [] [] [(call_of 1 1 5, 2)] 1 1)"
    by (rule lone_value) simp_all
  ultimately show ?thesis unfolding append.simps by (meson converse_rtranclp_into_rtranclp)
qed

theorem sequences_never_repeat_witness:
  "\<exists>q. gn_gens (replay_sequences [Sequence ''s'' 5 False, Sequence ''s'' 37 False] (set_values [(''s'', 3)] gn_new)) ''s'' = Some q \<and> 5 < sq_next q"
proof -
  have "take 2 [Sequence ''s'' 5 False, Sequence ''s'' 37 False] = [Sequence ''s'' 5 False, Sequence ''s'' 37 False]" by simp
  then show ?thesis using sequences_never_repeat [OF gen_demo_reached] by (fastforce simp: lone_def the_log_def call_of_def)
qed


end
