(* ===== verification/Recovery.thy ===== *)
theory Recovery
  imports Mvcc_Inv Generator
begin

text \<open>
  Replaying a log on opening a database: \<^verbatim>\<open>process_log\<close> of \<^verbatim>\<open>store/src/db.rs\<close> with the conditional
  writes of \<^verbatim>\<open>store/src/tables/bplustree.rs\<close> it is made of, and what is under a key once it is done.

  A record of the log is its number with its operation, as in the log of \<open>Mvcc_Db\<close>. As there,
  the rows of the trees are one map, and \<open>errs\<close> gives for a record the error a tree returns on
  applying it, if it does.
\<close>

section \<open>Applying a record again\<close>

definition already_applied :: "tuple \<Rightarrow> tuple \<Rightarrow> bool" where
  "already_applied current redo = (t_data current = t_data redo
     \<and> tuple_is_tombstoned current = tuple_is_tombstoned redo \<and> t_txn_id current = t_txn_id redo)"

text \<open>The page the source returns is found again when nothing was inserted, which needs an entry.\<close>

definition insert_if_needed :: "serr option \<Rightarrow> table_id \<Rightarrow> tuple \<Rightarrow> db \<Rightarrow> (serr + unit) \<times> db" where
  "insert_if_needed err tid tup d =
     (case write_version tid (t_id tup) err
         (\<lambda>cur d. (Inr (case cur of
             None \<Rightarrow> Insert tup
           | Some c \<Rightarrow> if already_applied c tup then Skip else Replace tup), d)) (snd (draw d)) of
        (Inl e, d1) \<Rightarrow> (Inl e, d1)
      | (Inr WInserted, d1) \<Rightarrow> (Inr (), d1)
      | (Inr _, d1) \<Rightarrow> (if db_rows d1 (row_key tid (t_id tup)) = None then Inl (KeyNotFound (t_id tup)) else Inr (), d1))"

definition update_if_needed :: "serr option \<Rightarrow> table_id \<Rightarrow> tuple \<Rightarrow> db \<Rightarrow> (serr + unit) \<times> db" where
  "update_if_needed err tid tup d =
     (let (r, d1) = write_version tid (t_id tup) err
         (\<lambda>cur d. (Inr (case cur of
             Some c \<Rightarrow> if already_applied c tup then Skip else Replace tup
           | None \<Rightarrow> Skip), d)) (snd (draw d))
      in (map_sum id (\<lambda>_. ()) r, d1))"

definition purge_if_still_tombstone :: "serr option \<Rightarrow> table_id \<Rightarrow> dbid \<Rightarrow> txn_id \<Rightarrow> db \<Rightarrow> (serr + unit) \<times> db" where
  "purge_if_still_tombstone err tid key t d =
     (let (r, d1) = write_version tid key err
         (\<lambda>cur d. (Inr (case cur of
             Some c \<Rightarrow> if tuple_is_tombstoned c \<and> is_same_txn c t then Delete else Skip
           | None \<Rightarrow> Delete), d)) (snd (draw d))
      in (map_sum id (\<lambda>_. ()) r, d1))"

section \<open>The three passes\<close>

type_synonym log_entry = "lsn \<times> operation"

definition bump :: "u64 \<Rightarrow> u64 option \<Rightarrow> u64 option" where
  "bump v m = Some (case m of None \<Rightarrow> v | Some x \<Rightarrow> max x v)"

record analysis =
  an_committed :: "txn_id set"
  an_max_lsn :: "u64 option"
  an_generator :: generator

definition analyse_one :: "log_entry \<Rightarrow> analysis \<Rightarrow> analysis" where
  "analyse_one r a =
     (let a1 = a\<lparr>an_max_lsn := bump (fst r) (an_max_lsn a)\<rparr>;
          seen = (\<lambda>t. a1\<lparr>an_max_lsn := bump t (an_max_lsn a1)\<rparr>)
      in case snd r of
           Add t _ \<Rightarrow> seen t
         | Mod t _ _ \<Rightarrow> seen t
         | Del t _ \<Rightarrow> seen t
         | Commit t \<Rightarrow> (seen t)\<lparr>an_committed := insert t (an_committed a)\<rparr>
         | Rollback t \<Rightarrow> seen t
         | Purge t _ _ \<Rightarrow> seen t
         | Sequence _ _ _ \<Rightarrow> a1\<lparr>an_generator := replay_sequence (snd r) (an_generator a)\<rparr>)"

definition analyse :: "log_entry list \<Rightarrow> generator \<Rightarrow> analysis" where
  "analyse recs g = fold analyse_one recs \<lparr>an_committed = {}, an_max_lsn = None, an_generator = g\<rparr>"

text \<open>The transaction of a record that the second and the third pass look at.\<close>

fun data_txn :: "operation \<Rightarrow> txn_id option" where
  "data_txn (Add t _) = Some t"
| "data_txn (Mod t _ _) = Some t"
| "data_txn (Del t _) = Some t"
| "data_txn _ = None"

text \<open>The tombstone a delete is redone as.\<close>

definition redo_tombstone :: "lsn \<Rightarrow> txn_id \<Rightarrow> tuple \<Rightarrow> tuple" where
  "redo_tombstone l t pre = tombstone (set_pre_lsn l (set_txn_id t pre))"

definition if_table :: "table_id \<Rightarrow> (db \<Rightarrow> (serr + unit) \<times> db) \<Rightarrow> db \<Rightarrow> (serr + unit) \<times> db" where
  "if_table tid f d =
     (case table_by_id_or_dropped tid d of
        Inl e \<Rightarrow> (Inl e, d)
      | Inr None \<Rightarrow> (Inr (), d)
      | Inr (Some _) \<Rightarrow> f d)"

definition redo_one :: "(log_entry \<Rightarrow> serr option) \<Rightarrow> txn_id set \<Rightarrow> log_entry \<Rightarrow> db \<Rightarrow> (serr + unit) \<times> db" where
  "redo_one errs committed r d =
     (case data_txn (snd r) of
        None \<Rightarrow> (Inr (), d)
      | Some t \<Rightarrow>
          if t \<notin> committed then (Inr (), d)
          else case snd r of
            Add _ post \<Rightarrow> if_table (rc_table post) (insert_if_needed (errs r) (rc_table post) (rc_tuple post)) d
          | Mod _ _ post \<Rightarrow> if_table (rc_table post) (update_if_needed (errs r) (rc_table post) (rc_tuple post)) d
          | Del t pre \<Rightarrow> if_table (rc_table pre) (update_if_needed (errs r) (rc_table pre) (redo_tombstone (fst r) t (rc_tuple pre))) d
          | Purge t tid key \<Rightarrow> if_table tid (purge_if_still_tombstone (errs r) tid key t) d
          | _ \<Rightarrow> (Inr (), d))"

definition undo_one :: "(log_entry \<Rightarrow> serr option) \<Rightarrow> txn_id set \<Rightarrow> log_entry \<Rightarrow> db \<Rightarrow> (serr + unit) \<times> db" where
  "undo_one errs committed r d =
     (case data_txn (snd r) of
        None \<Rightarrow> (Inr (), d)
      | Some t \<Rightarrow>
          if t \<in> committed then (Inr (), d)
          else case snd r of
            Add _ post \<Rightarrow> revert_one (errs r) (Remove (rc_table post) (t_id (rc_tuple post))) t d
          | Mod _ pre _ \<Rightarrow> revert_one (errs r) (Restore (rc_table pre) (rc_tuple pre)) t d
          | Del _ pre \<Rightarrow> revert_one (errs r) (Restore (rc_table pre) (rc_tuple pre)) t d
          | _ \<Rightarrow> (Inr (), d))"

text \<open>A pass stops at the first error.\<close>

fun pass :: "(log_entry \<Rightarrow> db \<Rightarrow> (serr + unit) \<times> db) \<Rightarrow> log_entry list \<Rightarrow> db \<Rightarrow> (serr + unit) \<times> db" where
  "pass f [] d = (Inr (), d)"
| "pass f (r # rs) d = (case f r d of (Inl e, d1) \<Rightarrow> (Inl e, d1) | (Inr (), d1) \<Rightarrow> pass f rs d1)"

definition on_clock :: "(lsn_clock \<Rightarrow> lsn_clock) \<Rightarrow> db \<Rightarrow> db" where
  "on_clock f d = d\<lparr>db_tm := (db_tm d)\<lparr>tm_clock := f (tm_clock (db_tm d))\<rparr>\<rparr>"

definition process_log ::
    "(log_entry \<Rightarrow> serr option) \<Rightarrow> (log_entry \<Rightarrow> serr option) \<Rightarrow> log_entry list \<Rightarrow> generator \<Rightarrow> db \<Rightarrow> (serr + nat) \<times> generator \<times> db" where
  "process_log redo_errs undo_errs recs g d =
     (let a = analyse recs g in
      case pass (redo_one redo_errs (an_committed a)) recs d of
        (Inl e, d1) \<Rightarrow> (Inl e, an_generator a, d1)
      | (Inr (), d1) \<Rightarrow> (case pass (undo_one undo_errs (an_committed a)) (rev recs) d1 of
            (Inl e, d2) \<Rightarrow> (Inl e, an_generator a, d2)
          | (Inr (), d2) \<Rightarrow>
              (let d3 = (case an_max_lsn a of Some l \<Rightarrow> on_clock (advance_counter_past l) d2 | None \<Rightarrow> d2);
                   d4 = on_clock (\<lambda>c. mark_written (if next_value c = 0 then 0 else next_value c - 1) c) d3
               in (Inr (length recs), an_generator a, d4))))"

text \<open>Opening keeps the records from the header's floor on; the counter starts at the one it kept.\<close>

definition replayed :: "u64 \<Rightarrow> log_entry list \<Rightarrow> log_entry list" where
  "replayed floor recs = filter (\<lambda>r. fst r \<ge> floor) recs"

definition retention_floor :: "db \<Rightarrow> u64" where
  "retention_floor d =
     (let counter = next_value (tm_clock (db_tm d)) in
      case oldest_in_flight (db_tm d) of Some t \<Rightarrow> min t counter | None \<Rightarrow> counter)"

section \<open>What the steps do to the rows\<close>

text \<open>The steps of a replay change the rows and draw numbers, nothing else.\<close>

definition on_rows :: "(row_key \<rightharpoonup> tuple) \<Rightarrow> db \<Rightarrow> db \<Rightarrow> bool" where
  "on_rows rows d d' = (db_rows d' = rows \<and> db_tables d' = db_tables d \<and> db_vs d' = db_vs d \<and> db_log d' = db_log d
     \<and> tm_states (db_tm d') = tm_states (db_tm d) \<and> tm_arcs (db_tm d') = tm_arcs (db_tm d)
     \<and> tm_snapshots (db_tm d') = tm_snapshots (db_tm d))"

lemma on_rows_refl [simp]: "on_rows rows d d \<longleftrightarrow> rows = db_rows d"
  by (auto simp: on_rows_def)

lemma on_rows_trans: "on_rows rows d d' \<Longrightarrow> on_rows rows' d' d'' \<Longrightarrow> on_rows rows' d d''"
  by (simp add: on_rows_def)

lemma on_rows_draw: "on_rows rows (snd (draw d)) d' = on_rows rows d d'"
  by (simp add: on_rows_def draw_def mint_def next_lsn_def split_beta Let_def)

text \<open>The rows after a decision is carried out, and a write that only decides.\<close>

definition carried_out :: "decision \<Rightarrow> row_key \<Rightarrow> (row_key \<rightharpoonup> tuple) \<Rightarrow> (row_key \<rightharpoonup> tuple)" where
  "carried_out dec k rows = (case dec of
     Insert x \<Rightarrow> rows(k \<mapsto> x) | Replace x \<Rightarrow> rows(k \<mapsto> x) | Delete \<Rightarrow> rows(k := None) | Skip \<Rightarrow> rows)"

definition applies :: "decision \<Rightarrow> tuple option \<Rightarrow> bool" where
  "applies dec cur = (case dec of Insert _ \<Rightarrow> cur = None | Replace _ \<Rightarrow> cur \<noteq> None | _ \<Rightarrow> True)"

lemma drawn_write:
  assumes "applies (dec (db_rows d (row_key tid i))) (db_rows d (row_key tid i))"
  shows "\<exists>r d'. write_version tid i None (\<lambda>cur d. (Inr (dec cur), d)) (snd (draw d)) = (Inr r, d')
    \<and> on_rows (carried_out (dec (db_rows d (row_key tid i))) (row_key tid i) (db_rows d)) d d'"
proof -
  have "db_rows (snd (draw d)) = db_rows d" by (simp add: draw_def split_beta)
  then show ?thesis
    unfolding on_rows_draw [symmetric, of _ d]
    by (cases "dec (db_rows d (row_key tid i))"; cases "db_rows d (row_key tid i)")
      (use assms in \<open>auto simp: applies_def write_version_def on_rows_def carried_out_def\<close>)
qed

text \<open>The row a redo leaves: the one there if it is the same, else the new one.\<close>

definition redone :: "tuple option \<Rightarrow> tuple \<Rightarrow> tuple" where
  "redone cur tup = (case cur of Some c \<Rightarrow> if already_applied c tup then c else tup | None \<Rightarrow> tup)"

lemma already_applied_refl [simp]: "already_applied t t"
  by (simp add: already_applied_def)

lemma redone_applied [simp]: "already_applied (redone cur tup) tup"
  by (simp add: redone_def split: option.split)

lemma insert_if_needed_rows:
  "\<exists>d'. insert_if_needed None tid tup d = (Inr (), d')
     \<and> on_rows ((db_rows d)(row_key tid (t_id tup) \<mapsto> redone (db_rows d (row_key tid (t_id tup))) tup)) d d'"
proof -
  let ?k = "row_key tid (t_id tup)"
  let ?dec = "\<lambda>cur. case cur of None \<Rightarrow> Insert tup | Some c \<Rightarrow> if already_applied c tup then Skip else Replace tup"
  have fits: "applies (?dec (db_rows d (row_key tid (t_id tup)))) (db_rows d (row_key tid (t_id tup)))" by (simp add: applies_def split: option.split)
  obtain r d' where w: "write_version tid (t_id tup) None (\<lambda>cur d. (Inr (?dec cur), d)) (snd (draw d)) = (Inr r, d')"
    "on_rows (carried_out (?dec (db_rows d ?k)) ?k (db_rows d)) d d'"
    using drawn_write [where dec = ?dec, OF fits] by blast
  have rows: "on_rows ((db_rows d)(?k \<mapsto> redone (db_rows d ?k) tup)) d d'"
    using w(2) by (auto simp: carried_out_def redone_def fun_upd_idem split: option.splits if_splits)
  then have "db_rows d' ?k \<noteq> None" by (simp add: on_rows_def)
  then show ?thesis using w(1) rows unfolding insert_if_needed_def by (cases r) auto
qed

lemma update_if_needed_rows:
  "\<exists>d'. update_if_needed None tid tup d = (Inr (), d')
     \<and> on_rows (if db_rows d (row_key tid (t_id tup)) = None then db_rows d
         else (db_rows d)(row_key tid (t_id tup) \<mapsto> redone (db_rows d (row_key tid (t_id tup))) tup)) d d'"
proof -
  let ?dec = "\<lambda>cur. case cur of Some c \<Rightarrow> if already_applied c tup then Skip else Replace tup | None \<Rightarrow> Skip"
  have fits: "applies (?dec (db_rows d (row_key tid (t_id tup)))) (db_rows d (row_key tid (t_id tup)))" by (simp add: applies_def split: option.split)
  show ?thesis
    using drawn_write [where dec = ?dec, OF fits]
    by (fastforce simp: update_if_needed_def carried_out_def redone_def fun_upd_idem split: option.splits if_splits)
qed

text \<open>Reverting one write, where the table is still there.\<close>

lemma revert_restore_rows:
  assumes "db_tables d tid \<noteq> None"
  shows "\<exists>d'. revert_one None (Restore tid pre) t d = (Inr (), d')
     \<and> on_rows (case db_rows d (row_key tid (t_id pre)) of
          Some c \<Rightarrow> if is_same_txn c t then (db_rows d)(row_key tid (t_id pre) \<mapsto> pre) else db_rows d
        | None \<Rightarrow> db_rows d) d d'"
proof -
  let ?dec = "\<lambda>cur. case cur of Some c \<Rightarrow> if is_same_txn c t then Replace pre else Skip | None \<Rightarrow> Skip"
  have fits: "applies (?dec (db_rows d (row_key tid (t_id pre)))) (db_rows d (row_key tid (t_id pre)))" by (simp add: applies_def split: option.split)
  obtain r d' where "write_version tid (t_id pre) None (\<lambda>cur d. (Inr (?dec cur), d)) (snd (draw d)) = (Inr r, d')"
    "on_rows (carried_out (?dec (db_rows d (row_key tid (t_id pre)))) (row_key tid (t_id pre)) (db_rows d)) d d'"
    using drawn_write [where dec = ?dec, OF fits] by blast
  then show ?thesis using assms
    by (cases r) (auto simp: revert_one_def table_by_id_or_dropped_def table_by_id_def update_if_txn_def carried_out_def
        split: option.splits if_splits)
qed

lemma revert_remove_rows:
  assumes "db_tables d tid \<noteq> None"
  shows "\<exists>d'. revert_one None (Remove tid i) t d = (Inr (), d')
     \<and> on_rows (case db_rows d (row_key tid i) of
          Some c \<Rightarrow> if is_same_txn c t then (db_rows d)(row_key tid i := None) else db_rows d
        | None \<Rightarrow> db_rows d) d d'"
proof -
  let ?dec = "\<lambda>cur. case cur of Some c \<Rightarrow> if is_same_txn c t then Delete else Skip | None \<Rightarrow> Delete"
  have fits: "applies (?dec (db_rows d (row_key tid i))) (db_rows d (row_key tid i))" by (simp add: applies_def split: option.split)
  obtain r d' where "write_version tid i None (\<lambda>cur d. (Inr (?dec cur), d)) (snd (draw d)) = (Inr r, d')"
    "on_rows (carried_out (?dec (db_rows d (row_key tid i))) (row_key tid i) (db_rows d)) d d'"
    using drawn_write [where dec = ?dec, OF fits] by blast
  then show ?thesis using assms
    by (cases r) (auto simp: revert_one_def table_by_id_or_dropped_def table_by_id_def remove_if_txn_def carried_out_def fun_upd_idem
        split: option.splits if_splits)
qed

section \<open>What a log says of a key\<close>

definition record_key :: "op_record \<Rightarrow> row_key" where
  "record_key rc = row_key (rc_table rc) (t_id (rc_tuple rc))"

text \<open>The row a record leaves under its key, with its writer.\<close>

definition posts :: "log_entry \<Rightarrow> (row_key \<times> txn_id \<times> tuple) option" where
  "posts r = (case snd r of
     Add t post \<Rightarrow> Some (record_key post, t, rc_tuple post)
   | Mod t _ post \<Rightarrow> Some (record_key post, t, rc_tuple post)
   | Del t pre \<Rightarrow> Some (record_key pre, t, redo_tombstone (fst r) t (rc_tuple pre))
   | _ \<Rightarrow> None)"

definition posted :: "log_entry list \<Rightarrow> row_key \<Rightarrow> txn_id \<Rightarrow> tuple \<Rightarrow> bool" where
  "posted L k w v = (\<exists>r \<in> set L. posts r = Some (k, w, v))"

definition commits :: "log_entry list \<Rightarrow> txn_id set" where
  "commits L = {t. \<exists>l. (l, Commit t) \<in> set L}"

text \<open>The last row a transaction of \<open>C\<close> left under a key.\<close>

fun logged_row :: "txn_id set \<Rightarrow> log_entry list \<Rightarrow> row_key \<Rightarrow> tuple option" where
  "logged_row C [] k = None"
| "logged_row C (r # rs) k = (case logged_row C rs k of
     Some v \<Rightarrow> Some v
   | None \<Rightarrow> (case posts r of Some (k', w, v) \<Rightarrow> if k' = k \<and> w \<in> C then Some v else None | None \<Rightarrow> None))"

text \<open>
  A log makes sense when every row it leaves carries its writer, and every row it replaces was
  left by a record before, of the same transaction or of one whose Commit is before, too.
\<close>

definition builds_on :: "log_entry list \<Rightarrow> txn_id \<Rightarrow> op_record \<Rightarrow> bool" where
  "builds_on P t pre = (\<exists>w. posted P (record_key pre) w (rc_tuple pre) \<and> (w = t \<or> w \<in> commits P))"

definition entry_ok :: "log_entry list \<Rightarrow> log_entry \<Rightarrow> bool" where
  "entry_ok P r = (case snd r of
     Add t post \<Rightarrow> t_txn_id (rc_tuple post) = Some t
   | Mod t pre post \<Rightarrow> t_txn_id (rc_tuple post) = Some t \<and> record_key post = record_key pre \<and> builds_on P t pre
   | Del t pre \<Rightarrow> builds_on P t pre
   | _ \<Rightarrow> True)"

fun log_wf :: "log_entry list \<Rightarrow> log_entry list \<Rightarrow> bool" where
  "log_wf P [] = True"
| "log_wf P (r # rs) = (entry_ok P r \<and> log_wf (P @ [r]) rs)"

lemma log_wf_append: "log_wf P (xs @ ys) \<longleftrightarrow> log_wf P xs \<and> log_wf (P @ xs) ys"
  by (induction xs arbitrary: P) auto

lemma commits_simps [simp]:
  "commits [] = {}" "commits (P @ Q) = commits P \<union> commits Q" "commits (r # P) = (case snd r of Commit t \<Rightarrow> {t} | _ \<Rightarrow> {}) \<union> commits P"
  by (cases r, auto simp: commits_def split: operation.splits)+

lemma posted_simps [simp]:
  "posted [] k w v = False" "posted (P @ Q) k w v = (posted P k w v \<or> posted Q k w v)"
  "posted (r # P) k w v = (posts r = Some (k, w, v) \<or> posted P k w v)"
  by (auto simp: posted_def)

lemma logged_row_snoc:
  "logged_row C (P @ [r]) k = (case posts r of
     Some (k', w, v) \<Rightarrow> if k' = k \<and> w \<in> C then Some v else logged_row C P k
   | None \<Rightarrow> logged_row C P k)"
  by (induction P) (auto split: option.split)

lemma logged_row_None: "logged_row C P k = None \<longleftrightarrow> (\<forall>w \<in> C. \<forall>v. \<not> posted P k w v)"
  by (induction P) (auto split: option.splits if_splits)

lemma logged_row_Some: "logged_row C P k = Some v \<Longrightarrow> \<exists>w \<in> C. posted P k w v"
  by (induction P) (auto split: option.splits if_splits)

lemma posts_txn: "posts r = Some (k, w, v) \<Longrightarrow> data_txn (snd r) = Some w"
  by (cases "snd r") (auto simp: posts_def)

lemma posts_none: "posts r = None \<longleftrightarrow> data_txn (snd r) = None"
  by (cases "snd r") (auto simp: posts_def)

lemma redo_tombstone_simps [simp]:
  "t_id (redo_tombstone l t v) = t_id v" "t_txn_id (redo_tombstone l t v) = Some t" "tuple_is_tombstoned (redo_tombstone l t v)"
  by (simp_all add: redo_tombstone_def tombstone_def set_pre_lsn_def set_txn_id_def tuple_is_tombstoned_def flag_bit bit_simps)

lemma entry_writer: "entry_ok P r \<Longrightarrow> posts r = Some (k, w, v) \<Longrightarrow> t_txn_id v = Some w"
  by (auto simp: entry_ok_def posts_def split: operation.splits)

lemma log_wf_writer:
  assumes "log_wf P L" "posted L k w v"
  shows "t_txn_id v = Some w"
  using assms by (induction L arbitrary: P) (auto dest: entry_writer)

lemma fst_row_key [simp]: "fst (row_key tid i) = tid" "fst (record_key rc) = rc_table rc"
  by (simp_all add: row_key_def record_key_def)

lemma if_table_cases:
  "if_table tid f d = (if db_tables d tid = None then (Inr (), d) else f d)"
  by (simp add: if_table_def table_by_id_or_dropped_def table_by_id_def split: option.split)

section \<open>The second pass\<close>

text \<open>With a first part of the log redone: the last committed row of that part, or the row that was on disk.\<close>

definition redo_inv :: "txn_id set \<Rightarrow> (table_id \<Rightarrow> bool) \<Rightarrow> (row_key \<rightharpoonup> tuple) \<Rightarrow> log_entry list \<Rightarrow> (row_key \<rightharpoonup> tuple) \<Rightarrow> bool" where
  "redo_inv C tab disk P rows = (\<forall>k. tab (fst k) \<longrightarrow> (case logged_row C P k of
     Some v \<Rightarrow> \<exists>c. rows k = Some c \<and> already_applied c v | None \<Rightarrow> rows k = disk k))"

abbreviation (input) has_table :: "db \<Rightarrow> table_id \<Rightarrow> bool" where "has_table d tid \<equiv> db_tables d tid \<noteq> None"

lemma redo_invD:
  assumes "redo_inv C tab disk P rows" "tab (fst k)"
  shows "logged_row C P k = Some v \<Longrightarrow> \<exists>c. rows k = Some c \<and> already_applied c v"
    and "logged_row C P k = None \<Longrightarrow> rows k = disk k"
  using assms(1) [unfolded redo_inv_def, rule_format, OF assms(2)] by simp_all

lemma redo_invI:
  assumes "\<And>k v. tab (fst k) \<Longrightarrow> logged_row C P k = Some v \<Longrightarrow> \<exists>c. rows k = Some c \<and> already_applied c v"
    and "\<And>k. tab (fst k) \<Longrightarrow> logged_row C P k = None \<Longrightarrow> rows k = disk k"
  shows "redo_inv C tab disk P rows"
  unfolding redo_inv_def using assms by (simp split: option.split)

lemma redo_inv_skip:
  assumes inv: "redo_inv C tab disk P rows" and skip: "\<And>k w v. posts r = Some (k, w, v) \<Longrightarrow> w \<notin> C \<or> \<not> tab (fst k)"
  shows "redo_inv C tab disk (P @ [r]) rows"
proof -
  have same: "logged_row C (P @ [r]) k = logged_row C P k" if "tab (fst k)" for k
    using skip that by (fastforce simp: logged_row_snoc split: option.split)
  show ?thesis using redo_invD [OF inv] by (intro redo_invI) (simp_all add: same)
qed

lemma redo_inv_write:
  assumes inv: "redo_inv C tab disk P rows" and p: "posts r = Some (k, w, v)" "w \<in> C" "already_applied c v"
  shows "redo_inv C tab disk (P @ [r]) (rows(k \<mapsto> c))"
proof -
  have row: "logged_row C (P @ [r]) k' = (if k' = k then Some v else logged_row C P k')" for k'
    using p by (auto simp: logged_row_snoc)
  show ?thesis using redo_invD [OF inv] p(3) by (intro redo_invI) (auto simp: row split: if_splits)
qed

lemma builds_on_present:
  assumes "redo_inv C tab disk P rows" "builds_on P t pre" "t \<in> C" "commits P \<subseteq> C" "tab (rc_table pre)"
  shows "rows (record_key pre) \<noteq> None"
proof -
  obtain w where "w \<in> C" "posted P (record_key pre) w (rc_tuple pre)" using assms(2-4) by (auto simp: builds_on_def)
  then obtain v where "logged_row C P (record_key pre) = Some v" using logged_row_None [of C P "record_key pre"] by auto
  then show ?thesis using redo_invD(1) [OF assms(1), of "record_key pre"] assms(5) by auto
qed

text \<open>Redoing a record of a committed transaction leaves its row under its key.\<close>

lemma redo_writes:
  assumes inv: "redo_inv C (has_table d) disk P (db_rows d)" and ok: "entry_ok P r" and C: "commits P \<subseteq> C"
    and p: "posts r = Some (k, w, v)" "w \<in> C" "has_table d (fst k)"
  shows "\<exists>d' c. redo_one (\<lambda>_. None) C r d = (Inr (), d') \<and> on_rows ((db_rows d)(k \<mapsto> c)) d d' \<and> already_applied c v"
proof (cases "snd r")
  case (Add t post)
  then have *: "k = record_key post" "w = t" "v = rc_tuple post" using p(1) by (simp_all add: posts_def)
  then have "redo_one (\<lambda>_. None) C r d = insert_if_needed None (rc_table post) v d"
    using Add p by (auto simp: redo_one_def if_table_cases)
  then show ?thesis
    using insert_if_needed_rows [of "rc_table post" v d] redone_applied * by (fastforce simp: record_key_def)
next
  case (Mod t pre post)
  then have *: "k = record_key post" "w = t" "v = rc_tuple post" "record_key post = record_key pre" "builds_on P t pre"
    using p(1) ok by (simp_all add: posts_def entry_ok_def)
  have tab: "rc_table post = rc_table pre" using *(4) by (metis fst_row_key(2))
  then have "db_rows d k \<noteq> None" using builds_on_present [OF inv *(5) _ C] p(2,3) * by simp
  moreover have "redo_one (\<lambda>_. None) C r d = update_if_needed None (rc_table post) v d"
    using Mod p * tab by (auto simp: redo_one_def if_table_cases)
  ultimately show ?thesis
    using update_if_needed_rows [of "rc_table post" v d] redone_applied * by (fastforce simp: record_key_def)
next
  case (Del t pre)
  then have *: "k = record_key pre" "w = t" "v = redo_tombstone (fst r) t (rc_tuple pre)" "builds_on P t pre"
    using p(1) ok by (auto simp: posts_def entry_ok_def)
  then have "db_rows d k \<noteq> None" using builds_on_present [OF inv *(4) _ C] p(2,3) by simp
  moreover have "redo_one (\<lambda>_. None) C r d = update_if_needed None (rc_table pre) v d"
    using Del p * by (auto simp: redo_one_def if_table_cases)
  ultimately show ?thesis
    using update_if_needed_rows [of "rc_table pre" v d] redone_applied * by (fastforce simp: record_key_def)
qed (use p(1) in \<open>simp_all add: posts_def\<close>)

lemma redo_step:
  assumes inv: "redo_inv C (has_table d) disk P (db_rows d)" and ok: "entry_ok P r" and C: "commits P \<subseteq> C"
  shows "\<exists>d'. redo_one (\<lambda>_. None) C r d = (Inr (), d') \<and> on_rows (db_rows d') d d' \<and> redo_inv C (has_table d) disk (P @ [r]) (db_rows d')"
proof (cases "posts r")
  case None
  then have "redo_one (\<lambda>_. None) C r d = (Inr (), d)" by (simp add: redo_one_def posts_none)
  then show ?thesis using redo_inv_skip [OF inv, of r] None by simp
next
  case (Some p)
  obtain k w v where p: "posts r = Some (k, w, v)" using Some by (cases p) auto
  note t = posts_txn [OF p]
  show ?thesis
  proof (cases "w \<in> C \<and> has_table d (fst k)")
    case False
    have "redo_one (\<lambda>_. None) C r d = (Inr (), d)"
      using False p t by (cases "snd r") (auto simp: redo_one_def posts_def if_table_cases)
    then show ?thesis using redo_inv_skip [OF inv, of r] False p by simp
  next
    case True
    then obtain d' c where d': "redo_one (\<lambda>_. None) C r d = (Inr (), d')" "on_rows ((db_rows d)(k \<mapsto> c)) d d'" "already_applied c v"
      using redo_writes [OF inv ok C p] by blast
    have "redo_inv C (has_table d) disk (P @ [r]) ((db_rows d)(k \<mapsto> c))" using redo_inv_write [OF inv p _ d'(3)] True by blast
    with d' show ?thesis by (auto simp: on_rows_def)
  qed
qed

lemma redo_pass:
  assumes "redo_inv C (has_table d) disk P (db_rows d)" "log_wf P L" "commits (P @ L) \<subseteq> C"
  shows "\<exists>d'. pass (redo_one (\<lambda>_. None) C) L d = (Inr (), d') \<and> on_rows (db_rows d') d d' \<and> redo_inv C (has_table d) disk (P @ L) (db_rows d')"
  using assms
proof (induction L arbitrary: P d)
  case (Cons r L)
  have ok: "entry_ok P r" "commits P \<subseteq> C" using Cons.prems(2,3) by auto
  obtain d1 where d1: "redo_one (\<lambda>_. None) C r d = (Inr (), d1)" "on_rows (db_rows d1) d d1" "redo_inv C (has_table d) disk (P @ [r]) (db_rows d1)"
    using redo_step [OF Cons.prems(1) ok] by blast
  have "has_table d1 = has_table d" using d1(2) by (simp add: on_rows_def)
  then obtain d' where d': "pass (redo_one (\<lambda>_. None) C) L d1 = (Inr (), d')" "on_rows (db_rows d') d1 d'"
      "redo_inv C (has_table d) disk ((P @ [r]) @ L) (db_rows d')"
    using Cons.IH [of d1 "P @ [r]"] Cons.prems(2,3) d1(3) by auto
  have "pass (redo_one (\<lambda>_. None) C) (r # L) d = (Inr (), d')" using d1(1) d'(1) by simp
  moreover note on_rows_trans [OF d1(2) d'(2)]
  ultimately show ?case using d'(3) by auto
qed simp

section \<open>The third pass\<close>

text \<open>
  With all but a first part \<open>P\<close> of the log undone: a committed row stays; under a key with no
  committed row there is nothing, or a row some record of \<open>P\<close> left.
\<close>

definition undo_inv :: "txn_id set \<Rightarrow> (table_id \<Rightarrow> bool) \<Rightarrow> log_entry list \<Rightarrow> log_entry list \<Rightarrow> (row_key \<rightharpoonup> tuple) \<Rightarrow> bool" where
  "undo_inv C tab L P rows = (\<forall>k. tab (fst k) \<longrightarrow> (case logged_row C L k of
     Some v \<Rightarrow> \<exists>c. rows k = Some c \<and> already_applied c v
   | None \<Rightarrow> (\<forall>c. rows k = Some c \<longrightarrow> (\<exists>w. posted P k w c))))"

lemma undo_invD:
  assumes "undo_inv C tab L P rows" "tab (fst k)"
  shows "logged_row C L k = Some v \<Longrightarrow> \<exists>c. rows k = Some c \<and> already_applied c v"
    and "logged_row C L k = None \<Longrightarrow> rows k = Some c \<Longrightarrow> \<exists>w. posted P k w c"
  using assms(1) [unfolded undo_inv_def, rule_format, OF assms(2)] by simp_all

lemma undo_invI:
  assumes "\<And>k v. tab (fst k) \<Longrightarrow> logged_row C L k = Some v \<Longrightarrow> \<exists>c. rows k = Some c \<and> already_applied c v"
    and "\<And>k c. tab (fst k) \<Longrightarrow> logged_row C L k = None \<Longrightarrow> rows k = Some c \<Longrightarrow> \<exists>w. posted P k w c"
  shows "undo_inv C tab L P rows"
  unfolding undo_inv_def using assms by (simp split: option.split)

text \<open>The row a record is undone to, for a row of its own transaction.\<close>

definition undone :: "log_entry \<Rightarrow> tuple option" where
  "undone r = (case snd r of Mod _ pre _ \<Rightarrow> Some (rc_tuple pre) | Del _ pre \<Rightarrow> Some (rc_tuple pre) | _ \<Rightarrow> None)"

lemma undo_one_rows:
  assumes "posts r = Some (k, w, v)" "entry_ok P r" "w \<notin> C" "has_table d (fst k)"
  shows "\<exists>d'. undo_one (\<lambda>_. None) C r d = (Inr (), d')
    \<and> on_rows (if (\<exists>c. db_rows d k = Some c \<and> t_txn_id c = Some w) then (db_rows d)(k := undone r) else db_rows d) d d'"
proof (cases "snd r")
  case (Add t post)
  then have *: "k = row_key (rc_table post) (t_id (rc_tuple post))" "w = t" "undone r = None"
    using assms(1) by (auto simp: posts_def record_key_def undone_def)
  then show ?thesis
    using revert_remove_rows [of d "rc_table post" "t_id (rc_tuple post)" t] Add assms(3,4)
    by (auto simp: undo_one_def is_same_txn_def split: option.splits if_splits)
next
  case (Mod t pre post)
  then have *: "k = row_key (rc_table pre) (t_id (rc_tuple pre))" "w = t" "undone r = Some (rc_tuple pre)"
    using assms(1,2) by (auto simp: posts_def entry_ok_def record_key_def undone_def)
  then show ?thesis
    using revert_restore_rows [of d "rc_table pre" "rc_tuple pre" t] Mod assms(3,4)
    by (auto simp: undo_one_def is_same_txn_def split: option.splits if_splits)
next
  case (Del t pre)
  then have *: "k = row_key (rc_table pre) (t_id (rc_tuple pre))" "w = t" "undone r = Some (rc_tuple pre)"
    using assms(1,2) by (auto simp: posts_def record_key_def undone_def)
  then show ?thesis
    using revert_restore_rows [of d "rc_table pre" "rc_tuple pre" t] Del assms(3,4)
    by (auto simp: undo_one_def is_same_txn_def split: option.splits if_splits)
qed (use assms(1) in \<open>simp_all add: posts_def\<close>)

lemma revert_dropped:
  "db_tables d tid = None \<Longrightarrow> revert_one err (Remove tid i) t d = (Inr (), d)"
  "db_tables d tid = None \<Longrightarrow> revert_one err (Restore tid pre) t d = (Inr (), d)"
  by (simp_all add: revert_one_def table_by_id_or_dropped_def table_by_id_def)

lemma undo_one_skip:
  assumes "\<And>k w v. posts r = Some (k, w, v) \<Longrightarrow> w \<in> C \<or> \<not> has_table d (fst k)" "entry_ok P r"
  shows "undo_one (\<lambda>_. None) C r d = (Inr (), d)"
proof (cases "snd r")
  case (Add t post)
  then show ?thesis using assms(1) by (auto simp: posts_def undo_one_def revert_dropped)
next
  case (Mod t pre post)
  then have "record_key post = record_key pre" using assms(2) by (simp add: entry_ok_def)
  then show ?thesis using Mod assms(1) by (auto simp: posts_def undo_one_def revert_dropped)
next
  case (Del t pre)
  then show ?thesis using assms(1) by (auto simp: posts_def undo_one_def revert_dropped)
qed (simp_all add: undo_one_def)

lemma undone_posted: "entry_ok P r \<Longrightarrow> posts r = Some (k, w, v) \<Longrightarrow> undone r = Some c \<Longrightarrow> \<exists>w. posted P k w c"
  by (auto simp: entry_ok_def posts_def undone_def builds_on_def split: operation.splits)

lemma undo_step:
  assumes inv: "undo_inv C (has_table d) L (P @ [r]) (db_rows d)" and wf: "entry_ok P r"
    and writers: "\<And>k w v. posted L k w v \<Longrightarrow> t_txn_id v = Some w" and sub: "set (P @ [r]) \<subseteq> set L"
  shows "\<exists>d'. undo_one (\<lambda>_. None) C r d = (Inr (), d') \<and> on_rows (db_rows d') d d' \<and> undo_inv C (has_table d) L P (db_rows d')"
proof (cases "\<exists>k w v. posts r = Some (k, w, v) \<and> w \<notin> C \<and> has_table d (fst k)")
  case False
  then have d': "undo_one (\<lambda>_. None) C r d = (Inr (), d)" using undo_one_skip [of r C d P] wf by blast
  have "undo_inv C (has_table d) L P (db_rows d)"
  proof (rule undo_invI)
    fix k c assume k: "has_table d (fst k)" "logged_row C L k = None" "db_rows d k = Some c"
    then obtain w where w: "posted (P @ [r]) k w c" using undo_invD(2) [OF inv] by blast
    have "posts r \<noteq> Some (k, w, c)"
    proof
      assume r: "posts r = Some (k, w, c)"
      then have "w \<in> C" using False k(1) by blast
      moreover have "posted L k w c" using r sub by (auto simp: posted_def)
      ultimately show False using k(2) logged_row_None by blast
    qed
    then show "\<exists>w. posted P k w c" using w by auto
  qed (use undo_invD(1) [OF inv] in blast)
  with d' show ?thesis by auto
next
  case True
  then obtain k w v where p: "posts r = Some (k, w, v)" "w \<notin> C" "has_table d (fst k)" by blast
  let ?mine = "\<exists>c. db_rows d k = Some c \<and> t_txn_id c = Some w"
  obtain d' where d': "undo_one (\<lambda>_. None) C r d = (Inr (), d')" "on_rows (if ?mine then (db_rows d)(k := undone r) else db_rows d) d d'"
    using undo_one_rows [OF p(1) wf p(2,3)] by blast
  have rows: "db_rows d' = (if ?mine then (db_rows d)(k := undone r) else db_rows d)" using d'(2) by (simp add: on_rows_def)
  have v: "posted L k w v" using p(1) sub by (auto simp: posted_def)
  have "undo_inv C (has_table d) L P (db_rows d')"
  proof (rule undo_invI)
    fix k' v' assume k': "has_table d (fst k')" "logged_row C L k' = Some v'"
    then obtain c where c: "db_rows d k' = Some c" "already_applied c v'" using undo_invD(1) [OF inv] by blast
    obtain w' where "w' \<in> C" "posted L k' w' v'" using logged_row_Some [OF k'(2)] by blast
    then have "t_txn_id c \<noteq> Some w" using writers [of k' w' v'] c(2) p(2) by (auto simp: already_applied_def)
    then show "\<exists>c. db_rows d' k' = Some c \<and> already_applied c v'" using c rows by auto
  next
    fix k' c assume k': "has_table d (fst k')" "logged_row C L k' = None" "db_rows d' k' = Some c"
    show "\<exists>w. posted P k' w c"
    proof (cases "k' = k \<and> ?mine")
      case True
      then have "undone r = Some c" using k'(3) rows by simp
      then show ?thesis using undone_posted [OF wf p(1)] True by blast
    next
      case False
      then have row: "db_rows d k' = Some c" using k'(3) rows by (auto split: if_splits)
      then obtain w' where w': "posted (P @ [r]) k' w' c" using undo_invD(2) [OF inv k'(1,2)] by blast
      then have "posts r = Some (k', w', c) \<Longrightarrow> False" using False row p(1) writers [OF v] by auto
      then show ?thesis using w' by auto
    qed
  qed
  with d' rows show ?thesis by (auto simp: on_rows_def)
qed

lemma undo_pass:
  assumes "undo_inv C (has_table d) L P (db_rows d)" "log_wf [] P"
    and "\<And>k w v. posted L k w v \<Longrightarrow> t_txn_id v = Some w" "set P \<subseteq> set L"
  shows "\<exists>d'. pass (undo_one (\<lambda>_. None) C) (rev P) d = (Inr (), d') \<and> on_rows (db_rows d') d d' \<and> undo_inv C (has_table d) L [] (db_rows d')"
  using assms
proof (induction P arbitrary: d rule: rev_induct)
  case (snoc r P)
  have ok: "entry_ok P r" "log_wf [] P" using snoc.prems(2) by (simp_all add: log_wf_append)
  obtain d1 where d1: "undo_one (\<lambda>_. None) C r d = (Inr (), d1)" "on_rows (db_rows d1) d d1" "undo_inv C (has_table d) L P (db_rows d1)"
    using undo_step [OF snoc.prems(1) ok(1)] snoc.prems(3,4) by blast
  have "has_table d1 = has_table d" using d1(2) by (simp add: on_rows_def)
  then obtain d' where d': "pass (undo_one (\<lambda>_. None) C) (rev P) d1 = (Inr (), d')" "on_rows (db_rows d') d1 d'"
      "undo_inv C (has_table d) L [] (db_rows d')"
    using snoc.IH [of d1] ok(2) snoc.prems(3,4) d1(3) by auto
  have "pass (undo_one (\<lambda>_. None) C) (rev (P @ [r])) d = (Inr (), d')" using d1(1) d'(1) by simp
  then show ?case using d'(3) on_rows_trans [OF d1(2) d'(2)] by blast
qed simp

section \<open>The whole replay\<close>

lemma analyse_one_simps:
  "an_committed (analyse_one r a) = (case snd r of Commit t \<Rightarrow> {t} | _ \<Rightarrow> {}) \<union> an_committed a"
  "an_generator (analyse_one r a) = replay_sequence (snd r) (an_generator a)"
  by (simp_all add: analyse_one_def Let_def split: operation.split)

lemma analyse_fold:
  "an_committed (fold analyse_one recs a) = commits recs \<union> an_committed a"
  "an_generator (fold analyse_one recs a) = replay_sequences (map snd recs) (an_generator a)"
  by (induction recs arbitrary: a) (auto simp: analyse_one_simps replay_sequences_def)

lemma analyse_simps [simp]:
  "an_committed (analyse recs g) = commits recs" "an_generator (analyse recs g) = replay_sequences (map snd recs) g"
  by (simp_all add: analyse_def analyse_fold)

text \<open>The numbers of a record: its own and its transaction's.\<close>

fun op_txn :: "operation \<Rightarrow> txn_id option" where
  "op_txn (Sequence _ _ _) = None"
| "op_txn (Add t _) = Some t"
| "op_txn (Mod t _ _) = Some t"
| "op_txn (Del t _) = Some t"
| "op_txn (Commit t) = Some t"
| "op_txn (Rollback t) = Some t"
| "op_txn (Purge t _ _) = Some t"

definition numbers_of :: "log_entry \<Rightarrow> u64 set" where
  "numbers_of r = insert (fst r) (set_option (op_txn (snd r)))"

definition numbers :: "log_entry list \<Rightarrow> u64 set" where
  "numbers L = (\<Union>r \<in> set L. numbers_of r)"

lemma bump_some: "bump v m = Some x \<longleftrightarrow> x = (case m of None \<Rightarrow> v | Some y \<Rightarrow> max y v)"
  by (auto simp: bump_def)

lemma analyse_one_max:
  "\<exists>x. an_max_lsn (analyse_one r a) = Some x \<and> (\<forall>n \<in> numbers_of r \<union> set_option (an_max_lsn a). n \<le> x)
     \<and> x \<in> numbers_of r \<union> set_option (an_max_lsn a)"
  by (cases "snd r"; cases "an_max_lsn a") (auto simp: analyse_one_def bump_def numbers_of_def max_def)

lemma analyse_fold_max:
  "case an_max_lsn (fold analyse_one recs a) of
     Some x \<Rightarrow> (\<forall>n \<in> numbers recs \<union> set_option (an_max_lsn a). n \<le> x) \<and> x \<in> numbers recs \<union> set_option (an_max_lsn a)
   | None \<Rightarrow> recs = [] \<and> an_max_lsn a = None"
proof (induction recs arbitrary: a)
  case Nil
  then show ?case by (simp add: numbers_def split: option.split)
next
  case (Cons r recs)
  obtain y where y: "an_max_lsn (analyse_one r a) = Some y" "\<forall>n \<in> numbers_of r \<union> set_option (an_max_lsn a). n \<le> y"
      "y \<in> numbers_of r \<union> set_option (an_max_lsn a)"
    using analyse_one_max by blast
  have "numbers (r # recs) = numbers_of r \<union> numbers recs" by (simp add: numbers_def)
  then show ?case using Cons.IH [of "analyse_one r a"] y by (auto split: option.splits intro: order.trans)
qed

lemma analyse_max:
  "case an_max_lsn (analyse recs g) of Some x \<Rightarrow> (\<forall>n \<in> numbers recs. n \<le> x) \<and> x \<in> numbers recs | None \<Rightarrow> recs = []"
  using analyse_fold_max [of recs "\<lparr>an_committed = {}, an_max_lsn = None, an_generator = g\<rparr>"] by (simp add: analyse_def split: option.splits)

text \<open>The row found under a key once a log is replayed.\<close>

definition recovered :: "log_entry list \<Rightarrow> row_key \<Rightarrow> tuple option \<Rightarrow> bool" where
  "recovered L k row = (case logged_row (commits L) L k of
     Some v \<Rightarrow> \<exists>c. row = Some c \<and> already_applied c v | None \<Rightarrow> row = None)"

lemma process_log_rows:
  assumes wf: "log_wf [] L" and disk: "\<And>k v. has_table d (fst k) \<Longrightarrow> db_rows d k = Some v \<Longrightarrow> \<exists>w. posted L k w v"
  obtains d' d2 f where "process_log (\<lambda>_. None) (\<lambda>_. None) L g d = (Inr (length L), replay_sequences (map snd L) g, d')"
    "on_rows (db_rows d2) d d2" "\<And>k. has_table d (fst k) \<Longrightarrow> recovered L k (db_rows d2 k)"
    "d' = on_clock f (case an_max_lsn (analyse L g) of Some l \<Rightarrow> on_clock (advance_counter_past l) d2 | None \<Rightarrow> d2)"
    "\<And>c. lc_counter (f c) = lc_counter c"
proof -
  let ?C = "commits L"
  have "redo_inv ?C (has_table d) (db_rows d) [] (db_rows d)" by (simp add: redo_inv_def)
  from redo_pass [OF this wf] obtain d1 where d1: "pass (redo_one (\<lambda>_. None) ?C) L d = (Inr (), d1)" "on_rows (db_rows d1) d d1"
      "redo_inv ?C (has_table d) (db_rows d) L (db_rows d1)" by auto
  have tabs: "has_table d1 = has_table d" using d1(2) by (simp add: on_rows_def)
  have "undo_inv ?C (has_table d) L L (db_rows d1)"
    using redo_invD [OF d1(3)] disk by (intro undo_invI) auto
  then obtain d2 where d2: "pass (undo_one (\<lambda>_. None) ?C) (rev L) d1 = (Inr (), d2)" "on_rows (db_rows d2) d1 d2"
      "undo_inv ?C (has_table d) L [] (db_rows d2)"
    using undo_pass [of ?C d1 L L] wf log_wf_writer [OF wf] tabs by auto
  have "recovered L k (db_rows d2 k)" if "has_table d (fst k)" for k
    using undo_invD [OF d2(3) that] unfolding recovered_def
    by (cases "logged_row ?C L k"; cases "db_rows d2 k") simp_all
  moreover have "on_rows (db_rows d2) d d2" by (rule on_rows_trans [OF d1(2) d2(2)])
  moreover have "lc_counter (mark_written x c) = lc_counter c" for x c by (simp add: mark_written_def)
  moreover have "process_log (\<lambda>_. None) (\<lambda>_. None) L g d = (Inr (length L), replay_sequences (map snd L) g,
      on_clock (\<lambda>c. mark_written (if next_value c = 0 then 0 else next_value c - 1) c)
        (case an_max_lsn (analyse L g) of Some l \<Rightarrow> on_clock (advance_counter_past l) d2 | None \<Rightarrow> d2))"
    using d1(1) d2(1) by (simp add: process_log_def Let_def)
  ultimately show thesis using that by blast
qed

text \<open>Whoever begins first after the replay sees every row there is.\<close>

lemma first_reader_sees:
  assumes "tm_states (db_tm d) = []" "begin_txn p d = (res, d')" "db_tables d tid \<noteq> None"
    and "\<And>c. db_rows d (row_key tid i) = Some c \<Longrightarrow> \<exists>w. t_txn_id c = Some w \<and> w < counter_of (db_tm d)"
  shows "res = Inr (counter_of (db_tm d))
    \<and> find_as tid i (counter_of (db_tm d)) d' = Some (Inr (Option.bind (db_rows d (row_key tid i)) unless_tombstone), d')"
proof -
  let ?r = "counter_of (db_tm d)"
  have d': "d' = d\<lparr>db_tm := snd (create_transaction p (db_tm d))\<rparr>" and res: "res = Inr ?r"
    using assms(2) by (simp_all add: begin_txn_def split_beta create_transaction_def Let_def tm_simps)
  let ?sn = "first_snapshot (db_tm d)"
  have sn: "take_snapshot (db_tm d') ?r = Some ?sn"
    by (simp add: d' take_snapshot_def create_transaction_def Let_def split_beta tm_simps first_snapshot_def)
  have "reader_sees d' ?sn w = Some True" if "w < ?r" for w
    using that leD [OF less_imp_le [OF that]] assms(1) by (simp add: reader_sees_def sees_def first_snapshot_def binary_search_def bs_loop.simps)
  then have "find_row tid i ?sn d' = Some (Inr (Option.bind (db_rows d (row_key tid i)) unless_tombstone))"
    using assms(4) look_itself [of _ _ "reader_sees d' ?sn" "db_vs d'"]
    by (cases "db_rows d (row_key tid i)") (auto simp: find_row_look look_row_def d')
  moreover have "sn_active ?sn" by (simp add: first_snapshot_def)
  ultimately show ?thesis
    using sn assms(3) res by (simp add: find_as_def db_snapshot_def find_in_def check_snapshot_def table_by_id_def d' split: option.split)
qed

text \<open>What a reader is to find under a key: the data of the last committed row, unless that is a tombstone.\<close>

definition logged_data :: "log_entry list \<Rightarrow> row_key \<Rightarrow> bytes option" where
  "logged_data L k = map_option t_data (Option.bind (logged_row (commits L) L k) unless_tombstone)"

lemma recovered_data: "recovered L k row \<Longrightarrow> map_option t_data (Option.bind row unless_tombstone) = logged_data L k"
  by (auto simp: recovered_def logged_data_def unless_tombstone_def already_applied_def split: option.splits)

lemma posts_number: "posts r = Some (k, w, v) \<Longrightarrow> w \<in> numbers_of r"
  by (cases "snd r") (auto simp: posts_def numbers_of_def)

lemma posted_number: "posted L k w v \<Longrightarrow> w \<in> numbers L"
  unfolding posted_def numbers_def using posts_number by blast

lemma recovered_reads:
  assumes wf: "log_wf [] L" and disk: "\<And>k v. has_table d (fst k) \<Longrightarrow> db_rows d k = Some v \<Longrightarrow> \<exists>w. posted L k w v"
    and fresh: "tm_states (db_tm d) = []" and top: "U64_MAX \<notin> numbers L" and tab: "has_table d tid"
  shows "\<exists>d' d'' r x. process_log (\<lambda>_. None) (\<lambda>_. None) L g d = (Inr (length L), replay_sequences (map snd L) g, d')
    \<and> begin_txn p d' = (Inr r, d'') \<and> find_as tid i r d'' = Some (Inr x, d'') \<and> map_option t_data x = logged_data L (row_key tid i)"
proof -
  let ?k = "row_key tid i"
  obtain d' d2 f where p: "process_log (\<lambda>_. None) (\<lambda>_. None) L g d = (Inr (length L), replay_sequences (map snd L) g, d')"
    and d2: "on_rows (db_rows d2) d d2" "\<And>k. has_table d (fst k) \<Longrightarrow> recovered L k (db_rows d2 k)"
    and d': "d' = on_clock f (case an_max_lsn (analyse L g) of Some l \<Rightarrow> on_clock (advance_counter_past l) d2 | None \<Rightarrow> d2)"
      "\<And>c. lc_counter (f c) = lc_counter c"
    using process_log_rows [OF wf disk, where g = g] by blast
  have row: "recovered L ?k (db_rows d2 ?k)" using d2(2) [of ?k] tab by simp
  have same: "tm_states (db_tm d') = []" "db_rows d' = db_rows d2" "db_tables d' = db_tables d"
    using d2(1) fresh by (simp_all add: d'(1) on_rows_def on_clock_def split: option.split)
  have "w < counter_of (db_tm d')" if w: "w \<in> numbers L" for w
  proof -
    obtain m where m: "an_max_lsn (analyse L g) = Some m" "w \<le> m" "m \<in> numbers L"
      using analyse_max [of L g] w by (cases "an_max_lsn (analyse L g)") (auto simp: numbers_def)
    then have "m < m + 1" using top inc_less [of m] by auto
    with m show ?thesis by (auto simp: d' on_clock_def advance_counter_past_def less_max_iff_disj)
  qed
  moreover have "\<exists>w \<in> numbers L. t_txn_id c = Some w" if c: "db_rows d' ?k = Some c" for c
  proof -
    obtain v where v: "logged_row (commits L) L ?k = Some v" "already_applied c v"
      using row c same(2) by (auto simp: recovered_def split: option.splits)
    obtain w where w: "posted L ?k w v" using logged_row_Some [OF v(1)] by blast
    then show ?thesis using posted_number [OF w] log_wf_writer [OF wf w] v(2) by (auto simp: already_applied_def)
  qed
  ultimately have writers: "\<exists>w. t_txn_id c = Some w \<and> w < counter_of (db_tm d')" if "db_rows d' ?k = Some c" for c
    using that by blast
  obtain res d'' where b: "begin_txn p d' = (res, d'')" by fastforce
  show ?thesis
    using p b first_reader_sees [OF same(1) b _ writers] recovered_data [OF row] tab same by auto
qed

end
