(* ===== verification/Crash_Recovery.thy ===== *)
theory Crash_Recovery
  imports Mvcc_Isolation Recovery
begin

text \<open>
  Crashes: what the log of a running database says of its rows, in every state the steps of
  \<open>Mvcc_Steps\<close> reach, and that recovery from any first part of that log, with the rows of that part
  or older on disk, brings back what was committed in it and nothing else.
\<close>

section \<open>The log of a running database\<close>

abbreviation w_log :: "world \<Rightarrow> log_entry list" where
  "w_log w \<equiv> db_log (w_db w)"

text \<open>
  The log makes sense; every row, and every version a transaction would put back, was left by a
  record; and of those only the rows of transactions in flight lack a Commit.
\<close>

definition linv :: "world \<Rightarrow> bool" where
  "linv w = (log_wf [] (w_log w)
     \<and> (\<forall>k row. w_rows w k = Some row \<longrightarrow> (\<exists>x. posted (w_log w) k x row \<and> (in_flight (w_tm w) x \<or> x \<in> commits (w_log w))))
     \<and> (\<forall>t l p. owns (w_vs w) t l \<and> vs_pre_images (w_vs w) l = Some p \<longrightarrow>
          (\<exists>x. posted (w_log w) (pre_key p) x (pi_tuple p) \<and> (x = t \<or> x \<in> commits (w_log w))))
     \<and> (\<forall>n \<in> numbers (w_log w). n < counter_of (w_tm w)))"

lemma linvD:
  assumes "linv w"
  shows "log_wf [] (w_log w)"
    and "w_rows w k = Some row \<Longrightarrow> \<exists>x. posted (w_log w) k x row \<and> (in_flight (w_tm w) x \<or> x \<in> commits (w_log w))"
    and "owns (w_vs w) t l \<Longrightarrow> vs_pre_images (w_vs w) l = Some p \<Longrightarrow>
      \<exists>x. posted (w_log w) (pre_key p) x (pi_tuple p) \<and> (x = t \<or> x \<in> commits (w_log w))"
    and "n \<in> numbers (w_log w) \<Longrightarrow> n < counter_of (w_tm w)"
  using assms unfolding linv_def by blast+

lemma in_flight_iff:
  "in_flight m x \<longleftrightarrow> (\<exists>p. state_of m x = Some (Active p)) \<or> (\<exists>ts p. state_of m x = Some (Committing ts p)) \<or> state_of m x = Some Aborting"
  by (auto simp: in_flight_def is_committed_def split: option.splits txn_state.splits)

lemma log_wf_plain: "(\<And>r. r \<in> set xs \<Longrightarrow> data_txn (snd r) = None) \<Longrightarrow> log_wf P xs"
proof (induction xs arbitrary: P)
  case (Cons r xs)
  then have "data_txn (snd r) = None" by simp
  then have "entry_ok P r" by (cases "snd r") (simp_all add: entry_ok_def)
  with Cons show ?case by simp
qed simp

lemma numbers_append [simp]: "numbers (P @ Q) = numbers P \<union> numbers Q"
  by (simp add: numbers_def)

text \<open>
  Steps that write no row: rows and pre-images only go, records are appended, and whoever wrote
  stays in flight or has its Commit logged.
\<close>

lemma linv_move:
  assumes inv: "winv F w" and l: "linv w" and log: "w_log w' = w_log w @ xs" "\<And>r. r \<in> set xs \<Longrightarrow> data_txn (snd r) = None"
    and nums: "\<And>n. n \<in> numbers xs \<Longrightarrow> n < counter_of (w_tm w')" "counter_of (w_tm w) \<le> counter_of (w_tm w')"
    and rows: "\<And>k row. w_rows w' k = Some row \<Longrightarrow> w_rows w k = Some row"
    and flight: "\<And>x. in_flight (w_tm w) x \<Longrightarrow> has_writes (w_vs w) x \<Longrightarrow> in_flight (w_tm w') x \<or> x \<in> commits (w_log w')"
    and pis: "\<And>t l p. owns (w_vs w') t l \<Longrightarrow> vs_pre_images (w_vs w') l = Some p \<Longrightarrow> owns (w_vs w) t l \<and> vs_pre_images (w_vs w) l = Some p"
  shows "linv w'"
  unfolding linv_def
proof (intro conjI allI impI ballI)
  show "log_wf [] (w_log w')" using linvD(1) [OF l] log_wf_plain log(2) by (simp add: log(1) log_wf_append)
  show "n < counter_of (w_tm w')" if "n \<in> numbers (w_log w')" for n
    using that nums linvD(4) [OF l, of n] by (auto simp: log(1) intro: less_le_trans)
  show "\<exists>x. posted (w_log w') (pre_key p) x (pi_tuple p) \<and> (x = t \<or> x \<in> commits (w_log w'))"
    if "owns (w_vs w') t l \<and> vs_pre_images (w_vs w') l = Some p" for t l p
    using linvD(3) [OF assms(2), of t l p] pis that by (auto simp: log(1))
  fix k row assume row: "w_rows w' k = Some row"
  obtain x where x: "posted (w_log w) k x row" "in_flight (w_tm w) x \<or> x \<in> commits (w_log w)" using linvD(2) [OF l rows [OF row]] by blast
  have "has_writes (w_vs w) x" if "in_flight (w_tm w) x"
    using chain_writer [OF invD(4) [OF inv rows [OF row]]] log_wf_writer [OF linvD(1) [OF l] x(1)] that
    by (auto simp: writer_ok_def in_flight_def)
  then show "\<exists>x. posted (w_log w') k x row \<and> (in_flight (w_tm w') x \<or> x \<in> commits (w_log w'))"
    using x flight [of x] by (auto simp: log(1))
qed

text \<open>In particular, steps of the table alone.\<close>

lemma linv_tm:
  assumes "winv F w" "linv w" "w_log w' = w_log w" "w_rows w' = w_rows w" "w_vs w' = w_vs w" "counter_of (w_tm w) \<le> counter_of (w_tm w')"
    and "\<And>x. in_flight (w_tm w) x \<Longrightarrow> has_writes (w_vs w) x \<Longrightarrow> in_flight (w_tm w') x \<or> x \<in> commits (w_log w)"
  shows "linv w'"
  by (rule linv_move [OF assms(1,2), where xs = "[]"]) (use assms in \<open>auto simp: numbers_def\<close>)

section \<open>Writes\<close>

text \<open>A row written over is known to the log, and its writer may be built on.\<close>

lemma row_builds_on:
  assumes inv: "winv F w" and l: "linv w" and row: "w_rows w (row_key tid i) = Some c" and free: "free_for (w_tm w) t (Some c)"
  shows "builds_on (w_log w) t (new_record tid c)" "record_key (new_record tid c) = row_key tid i"
proof -
  show key: "record_key (new_record tid c) = row_key tid i"
    using row_id [OF inv row] by (simp add: record_key_def new_record_def row_key_def)
  obtain x where x: "posted (w_log w) (row_key tid i) x c" "in_flight (w_tm w) x \<or> x \<in> commits (w_log w)" using linvD(2) [OF l row] by blast
  have "t_txn_id c = Some x" using log_wf_writer [OF linvD(1) [OF l] x(1)] .
  then have "x = t \<or> x \<in> commits (w_log w)" using free x(2) by (auto simp: free_for_def in_flight_def)
  then show "builds_on (w_log w) t (new_record tid c)" using x(1) key by (auto simp: builds_on_def new_record_def)
qed

lemma write_logged:
  assumes "decide (db_rows d (row_key tid i)) d = record_and_log l op log_err dec d"
    and "dec = Insert new \<and> db_rows d (row_key tid i) = None \<or> dec = Replace new \<and> db_rows d (row_key tid i) \<noteq> None"
    and d': "d' = snd (write_version tid i tree_err decide d)"
  shows "(db_log d' = db_log d \<and> db_rows d' = db_rows d)
    \<or> (db_log d' = db_log d @ [(l, op)] \<and> (db_rows d' = db_rows d \<or> db_rows d' = (db_rows d)(row_key tid i \<mapsto> new)))"
  using assms(1,2) unfolding d' write_version_def
  by (cases log_err; cases tree_err; auto simp: record_and_log_def Let_def)

text \<open>What a write may do to the log, the rows and the store.\<close>

definition log_writes :: "txn_id \<Rightarrow> lsn \<Rightarrow> row_key \<Rightarrow> db \<Rightarrow> db \<Rightarrow> bool" where
  "log_writes t l k d d' = (
     (\<forall>x j p. owns (db_vs d') x j \<and> vs_pre_images (db_vs d') j = Some p \<longrightarrow>
        (owns (db_vs d) x j \<and> vs_pre_images (db_vs d) j = Some p) \<or> (x = t \<and> db_rows d k = Some (pi_tuple p) \<and> pre_key p = k))
     \<and> ((db_log d' = db_log d \<and> db_rows d' = db_rows d)
        \<or> (\<exists>op new. db_log d' = db_log d @ [(l, op)] \<and> op_txn op = Some t \<and> posts (l, op) = Some (k, t, new) \<and> entry_ok (db_log d) (l, op)
             \<and> (db_rows d' = db_rows d \<or> db_rows d' = (db_rows d)(k \<mapsto> new)))))"

lemma log_writes_refl: "log_writes t l k d d"
  by (simp add: log_writes_def)

lemma log_writesI:
  assumes dec: "decide (db_rows d (row_key tid i)) d = record_and_log l op log_err dec d"
      "dec = Insert new \<and> db_rows d (row_key tid i) = None \<or> dec = Replace new \<and> db_rows d (row_key tid i) \<noteq> None"
    and op: "op_txn op = Some t" "posts (l, op) = Some (row_key tid i, t, new)" "entry_ok (db_log d) (l, op)"
    and vs: "vs_insert l op (db_vs d) = recorded t l (row_key tid i) i del (db_rows d (row_key tid i)) (db_vs d)"
    and key: "\<And>c. db_rows d (row_key tid i) = Some c \<Longrightarrow> encode (t_id c) [] = encode i []" and fresh: "fresh_lsn (db_vs d) l"
  shows "log_writes t l (row_key tid i) d (snd (write_version tid i tree_err decide d))"
proof -
  let ?k = "row_key tid i" and ?d = "snd (write_version tid i tree_err decide d)"
  have v: "db_vs ?d = recorded t l ?k i del (db_rows d ?k) (db_vs d)"
    using write_recorded(3) [where decide = decide and tree_err = tree_err, OF dec refl] vs by simp
  have "(owns (db_vs d) x j \<and> vs_pre_images (db_vs d) j = Some p) \<or> (x = t \<and> db_rows d ?k = Some (pi_tuple p) \<and> pre_key p = ?k)"
    if o: "owns (db_vs ?d) x j" "vs_pre_images (db_vs ?d) j = Some p" for x j p
  proof (cases "j = l")
    case True
    then obtain c where "db_rows d ?k = Some c" "x = t"
      using o(1) fresh by (auto simp: v recorded_owns fresh_lsn_def)
    then show ?thesis using o(2) True key [of c] by (auto simp: v recorded_simps pre_key_def row_key_def)
  qed (use o in \<open>simp add: v recorded_owns recorded_simps\<close>)
  moreover have "(db_log ?d = db_log d \<and> db_rows ?d = db_rows d)
    \<or> (db_log ?d = db_log d @ [(l, op)] \<and> (db_rows ?d = db_rows d \<or> db_rows ?d = (db_rows d)(?k \<mapsto> new)))"
    by (rule write_logged [where decide = decide, OF dec refl])
  ultimately show ?thesis using op unfolding log_writes_def by blast
qed

lemma linv_write:
  assumes inv: "winv F w" and l: "linv w" and act: "is_transaction_active (w_tm w) t" and pool: "n \<in> w_pool w"
    and d': "log_writes t n k (w_db w) d'" "db_tm d' = w_tm w" and free: "free_for (w_tm w) t (w_rows w k)"
    and w': "w_db w' = d'"
  shows "linv w'"
proof -
  have built: "\<exists>x. posted (w_log w) k x c \<and> (x = t \<or> x \<in> commits (w_log w))" if c: "w_rows w k = Some c" for c
  proof -
    obtain x where x: "posted (w_log w) k x c" "in_flight (w_tm w) x \<or> x \<in> commits (w_log w)" using linvD(2) [OF l c] by blast
    have "t_txn_id c = Some x" using log_wf_writer [OF linvD(1) [OF l] x(1)] .
    then show ?thesis using free x c by (auto simp: free_for_def in_flight_def)
  qed
  have pis: "\<exists>x. posted (w_log w) (pre_key p) x (pi_tuple p) \<and> (x = u \<or> x \<in> commits (w_log w))"
    if "owns (w_vs w') u j" "vs_pre_images (w_vs w') j = Some p" for u j p
    using d'(1) that linvD(3) [OF l, of u j p] built [of "pi_tuple p"] unfolding log_writes_def w' by blast
  have t: "t < counter_of (w_tm w)" "n < counter_of (w_tm w)" using active_bound [OF inv act] invD(16) [OF inv pool] by auto
  consider (none) "db_log d' = w_log w" "db_rows d' = w_rows w"
    | (one) op new where "db_log d' = w_log w @ [(n, op)]" "op_txn op = Some t" "posts (n, op) = Some (k, t, new)" "entry_ok (w_log w) (n, op)"
        "db_rows d' = w_rows w \<or> db_rows d' = (w_rows w)(k \<mapsto> new)"
    using d'(1) unfolding log_writes_def by blast
  then show ?thesis
  proof cases
    case none
    then show ?thesis using l pis unfolding linv_def w' d'(2) none by blast
  next
    case one
    have log: "w_log w' = w_log w @ [(n, op)]" using one(1) w' by simp
    have new: "posted (w_log w') k t new" using one(3) by (simp add: log)
    show ?thesis unfolding linv_def
    proof (intro conjI allI impI ballI)
      show "log_wf [] (w_log w')" using linvD(1) [OF l] one(4) by (simp add: log log_wf_append)
      have nums: "numbers (w_log w') = insert n (insert t (numbers (w_log w)))"
        unfolding log numbers_append using one(2) by (auto simp: numbers_def numbers_of_def)
      show "m < counter_of (w_tm w')" if "m \<in> numbers (w_log w')" for m
        using that linvD(4) [OF l, of m] t unfolding nums by (auto simp: w' d'(2))
      show "\<exists>x. posted (w_log w') (pre_key p) x (pi_tuple p) \<and> (x = u \<or> x \<in> commits (w_log w'))"
        if "owns (w_vs w') u j \<and> vs_pre_images (w_vs w') j = Some p" for u j p
        using pis [of u j p] that by (auto simp: log)
      show "\<exists>x. posted (w_log w') j x row \<and> (in_flight (w_tm w') x \<or> x \<in> commits (w_log w'))" if r: "w_rows w' j = Some row" for j row
      proof (cases "w_rows w j = Some row")
        case True
        from linvD(2) [OF l True] show ?thesis unfolding log by (auto simp: w' d'(2))
      next
        case False
        then have "j = k" "row = new" using r one(5) w' by (auto split: if_splits)
        then show ?thesis using new active_in_flight [OF act] d'(2) w' by auto
      qed
    qed
  qed
qed

text \<open>The row a delete leaves is the tombstone its record is redone as.\<close>

lemma live_tombstone: "set_pre_lsn l (tombstone (set_txn_id t old)) = redo_tombstone l t old"
  by (simp add: redo_tombstone_def set_pre_lsn_def tombstone_def set_txn_id_def)

lemma linv_insert:
  assumes inv: "winv F w" and l: "linv w" and st: "n \<in> w_pool w" "is_transaction_active (w_tm w) t" and tup: "tup = stamped t tuple"
    and w': "w_db w' = snd (write_version tid (t_id tup) tree_err (insert_decision tid tup t n log_err) (w_db w))"
  shows "linv w'"
proof -
  let ?k = "row_key tid (t_id tup)"
  have tx: "t_txn_id tup = Some t" by (simp add: tup stamped_def)
  note fresh = unspent(1) [OF inv st(1)] and key = row_id [OF inv, of tid "t_id tup"]
  have tm: "db_tm (w_db w') = w_tm w" unfolding w' by (rule write_version_tm) simp
  show ?thesis
  proof (cases "w_rows w ?k")
    case None
    have "log_writes t n ?k (w_db w) (w_db w')" unfolding w'
      by (rule log_writesI [where op = "Add t (new_record tid tup)" and new = tup and dec = "Insert tup" and del = False])
        (use None tx fresh in \<open>simp_all add: insert_decision_def posts_def entry_ok_def record_key_def new_record_def recorded_def row_key_def\<close>)
    then show ?thesis by (rule linv_write [OF inv l st(2,1) _ tm _ refl]) (simp add: None free_for_def)
  next
    case (Some c)
    let ?new = "clear_tombstone (set_data (t_data tup) (set_pre_lsn n (set_txn_id t c)))"
    show ?thesis
    proof (cases "tuple_is_tombstoned c \<and> check_write_conflict c t (w_db w) = Inr ()")
      case True
      have free: "free_for (w_tm w) t (Some c)" using no_write_conflict True by blast
      note b = row_builds_on [OF inv l Some free]
      have key': "record_key (new_record tid ?new) = ?k" using b(2) by (simp add: record_key_def new_record_def)
      have dec: "insert_decision tid tup t n log_err (w_rows w ?k) (w_db w) =
          record_and_log n (Mod t (new_record tid c) (new_record tid ?new)) log_err (Replace ?new) (w_db w)"
        using True Some unfolding insert_decision_def by (elim conjE) (simp add: Let_def)
      have "log_writes t n ?k (w_db w) (w_db w')" unfolding w'
        by (rule log_writesI [where decide = "insert_decision tid tup t n log_err" and new = ?new and del = False, OF dec])
          (use Some key fresh b key' in \<open>simp_all add: posts_def entry_ok_def\<close>, simp_all add: new_record_def recorded_def row_key_def)
      then show ?thesis by (rule linv_write [OF inv l st(2,1) _ tm _ refl]) (simp add: Some free)
    next
      case False
      then have "\<exists>e. insert_decision tid tup t n log_err (Some c) (w_db w) = (Inl e, w_db w)"
        by (cases "check_write_conflict c t (w_db w)") (auto simp: insert_decision_def)
      then have "w_db w' = w_db w" using write_refused [of "insert_decision tid tup t n log_err" "w_db w"] Some unfolding w' by fastforce
      then show ?thesis using l by (simp add: linv_def)
    qed
  qed
qed

text \<open>Updates and deletes build on the row there is.\<close>

lemma linv_base:
  assumes inv: "winv F w" and l: "linv w" and st: "n \<in> w_pool w" "is_transaction_active (w_tm w) t"
    and base: "base_version t i (w_rows w (row_key tid i)) (w_db w) = Some base"
    and dec: "\<And>old. base = Inr old \<Longrightarrow> \<exists>op new. dec (w_db w) = record_and_log n op log_err (Replace new) (w_db w)
      \<and> (op = Mod t (new_record tid old) (new_record tid new) \<or> op = Del t (new_record tid old) \<and> new = redo_tombstone n t old)
      \<and> t_txn_id new = Some t \<and> t_id new = t_id old"
    and err: "\<And>e. base = Inl e \<Longrightarrow> dec (w_db w) = (Inl e, w_db w)" and tm: "db_tm (snd (dec (w_db w))) = w_tm w"
    and w': "w_db w' = snd (write_version tid i tree_err (\<lambda>_. dec) (w_db w))"
  shows "linv w'"
proof (cases base)
  case (Inl e)
  then have "w_db w' = w_db w" using err [OF Inl] write_refused [of "\<lambda>_. dec"] by (simp add: w')
  then show ?thesis using l by (simp add: linv_def)
next
  case (Inr old)
  let ?k = "row_key tid i"
  note cur = base_version_current [OF base [unfolded Inr]]
  have free: "free_for (w_tm w) t (Some old)" using cur by simp
  note b = row_builds_on [OF inv l cur(1) free]
  obtain op new where op: "dec (w_db w) = record_and_log n op log_err (Replace new) (w_db w)"
    "op = Mod t (new_record tid old) (new_record tid new) \<or> op = Del t (new_record tid old) \<and> new = redo_tombstone n t old"
    "t_txn_id new = Some t" "t_id new = t_id old" using dec [OF Inr] by blast
  have rk: "record_key (new_record tid new) = ?k" using b(2) op(4) by (simp add: record_key_def new_record_def)
  have tup: "rc_tuple (new_record tid x) = x" for x by (simp add: new_record_def)
  obtain del where vs: "vs_insert n op (w_vs w) = recorded t n ?k i del (Some old) (w_vs w)"
    using op(2) by (auto simp: new_record_def recorded_def row_key_def)
  have "log_writes t n ?k (w_db w) (w_db w')" unfolding w'
    by (rule log_writesI [where decide = "\<lambda>_. dec" and new = new and del = del, OF op(1)])
      (use cur(1) row_id [OF inv, of tid i] unspent(1) [OF inv st(1)] b rk op(2,3) vs in \<open>auto simp: posts_def entry_ok_def tup\<close>)
  moreover have "db_tm (w_db w') = w_tm w" unfolding w' by (rule write_version_tm) (rule tm)
  ultimately show ?thesis by (rule linv_write [OF inv l st(2,1) _ _ _ refl]) (use cur free in simp)
qed

lemma linv_update:
  assumes "winv F w" "linv w" "n \<in> w_pool w" "is_transaction_active (w_tm w) t"
    and "base_version t i (w_rows w (row_key tid i)) (w_db w) = Some base"
    and "w_db w' = snd (write_version tid i tree_err (\<lambda>_. update_decision tid new t n log_err base) (w_db w))"
  shows "linv w'"
  by (rule linv_base [OF assms(1-5) _ _ _ assms(6)]) (auto simp: update_decision_def Let_def split: sum.split intro!: exI)

lemma linv_remove:
  assumes "winv F w" "linv w" "n \<in> w_pool w" "is_transaction_active (w_tm w) t"
    and "base_version t i (w_rows w (row_key tid i)) (w_db w) = Some base"
    and "w_db w' = snd (write_version tid i tree_err (\<lambda>_. remove_decision tid t n log_err base) (w_db w))"
  shows "linv w'"
  by (rule linv_base [OF assms(1-5) _ _ _ assms(6)]) (auto simp: remove_decision_def Let_def live_tombstone split: sum.split intro!: exI)

section \<open>Aborts\<close>

lemma revert_one_known:
  "\<exists>d'. revert_one None u t d = (Inr (), d') \<and> on_rows (db_rows d') d d'
     \<and> (\<forall>k row. db_rows d' k = Some row \<longrightarrow> db_rows d k = Some row \<or> (\<exists>tid. u = Restore tid row \<and> k = row_key tid (t_id row)))"
proof (cases u)
  case (Remove tid i)
  show ?thesis
  proof (cases "db_tables d tid")
    case None
    then show ?thesis using Remove revert_dropped(1) by simp
  next
    case (Some b)
    then show ?thesis
      using revert_remove_rows [of d tid i t] Remove by (auto simp: on_rows_def split: option.splits if_splits)
  qed
next
  case (Restore tid pre)
  show ?thesis
  proof (cases "db_tables d tid")
    case None
    then show ?thesis using Restore revert_dropped(2) by simp
  next
    case (Some b)
    then show ?thesis
      using revert_restore_rows [of d tid pre t] Restore by (auto simp: on_rows_def split: option.splits if_splits)
  qed
qed

lemma revert_list_known:
  "\<exists>d'. revert_list (\<lambda>_. None) us t d = (Inr (), d') \<and> on_rows (db_rows d') d d'
     \<and> (\<forall>k row. db_rows d' k = Some row \<longrightarrow> db_rows d k = Some row \<or> (\<exists>tid. Restore tid row \<in> set us \<and> k = row_key tid (t_id row)))"
proof (induction us arbitrary: d)
  case (Cons u us)
  obtain d1 where d1: "revert_one None u t d = (Inr (), d1)" "on_rows (db_rows d1) d d1"
    "\<And>k row. db_rows d1 k = Some row \<Longrightarrow> db_rows d k = Some row \<or> (\<exists>tid. u = Restore tid row \<and> k = row_key tid (t_id row))"
    using revert_one_known [of u t d] by blast
  obtain d' where d': "revert_list (\<lambda>_. None) us t d1 = (Inr (), d')" "on_rows (db_rows d') d1 d'"
    "\<And>k row. db_rows d' k = Some row \<Longrightarrow> db_rows d1 k = Some row \<or> (\<exists>tid. Restore tid row \<in> set us \<and> k = row_key tid (t_id row))"
    using Cons.IH [of d1] by blast
  have "revert_list (\<lambda>_. None) (u # us) t d = (Inr (), d')" using d1(1) d'(1) by simp
  moreover have "db_rows d k = Some row \<or> (\<exists>tid. Restore tid row \<in> set (u # us) \<and> k = row_key tid (t_id row))"
    if "db_rows d' k = Some row" for k row
    using d'(3) [OF that] d1(3) [of k row] by auto
  ultimately show ?case using on_rows_trans [OF d1(2) d'(2)] by blast
qed simp

lemma undo_restores:
  assumes "Restore tid pre \<in> set (undo_of v t)"
  shows "\<exists>l p. owns v t l \<and> vs_pre_images v l = Some p \<and> pre_key p = row_key tid (t_id pre) \<and> pi_tuple p = pre"
proof -
  obtain e where e: "e \<in> set (writes_of v t)" "undo_write v e = Some (Restore tid pre)"
    using assms by (auto simp: undo_of_def map_filter_set)
  obtain l where l: "e = Replaced l" using e(2) by (cases e) simp_all
  then have "owns v t l" using e(1) by (simp add: owns_def)
  then show ?thesis using e(2) l by (auto simp: pre_key_def)
qed

text \<open>What an aborted transaction's end leaves: the log, but for its own record; rows that were there or that it had replaced.\<close>

lemma finish_abort_log:
  assumes "fl_revert \<omega> = (\<lambda>_. None)" and d': "d' = snd (finish_abort \<omega> t d)"
  shows "db_rows d' k = Some row \<Longrightarrow> db_rows d k = Some row \<or> (\<exists>tid. Restore tid row \<in> set (undo_of (db_vs d) t) \<and> k = row_key tid (t_id row))"
    and "db_log d' = db_log d \<or> (\<exists>n. db_log d' = db_log d @ [(n, Rollback t)])"
    and "db_vs d' \<in> {db_vs d, snd (discard t (db_vs d))}"
proof -
  obtain d1 where d1: "revert (\<lambda>_. None) t d = (Inr (), d1)" "on_rows (db_rows d1) d d1"
    "\<And>k row. db_rows d1 k = Some row \<Longrightarrow> db_rows d k = Some row \<or> (\<exists>tid. Restore tid row \<in> set (undo_of (db_vs d) t) \<and> k = row_key tid (t_id row))"
    using revert_list_known [of "rev (undo_of (db_vs d) t)" t d] by (auto simp: revert_def)
  obtain e d2 where l: "log_new (fl_rollback \<omega>) (Rollback t) d1 = (e, d2)" by fastforce
  have d2: "db_rows d2 = db_rows d1" "db_vs d2 = db_vs d1" "db_log d2 = db_log d1 \<or> (\<exists>n. db_log d2 = db_log d1 @ [(n, Rollback t)])"
    using l log_new_simps [of "fl_rollback \<omega>" "Rollback t" d1]
    by (auto simp: log_new_def draw_def split_beta Let_def split: option.splits)
  have ca: "db_rows (complete_abort t b x) = db_rows x" "db_log (complete_abort t b x) = db_log x"
      "db_vs (complete_abort t b x) \<in> {db_vs x, snd (discard t (db_vs x))}" for b x
    by (simp_all add: complete_abort_def split_beta Let_def)
  have "d' \<in> {d2, complete_abort t True d2, complete_abort t False d1}"
    using d1(1) l assms by (cases e; cases "has_writes (db_vs d) t") (auto simp: finish_abort_def)
  then show "db_rows d' k = Some row \<Longrightarrow> db_rows d k = Some row \<or> (\<exists>tid. Restore tid row \<in> set (undo_of (db_vs d) t) \<and> k = row_key tid (t_id row))"
    and "db_log d' = db_log d \<or> (\<exists>n. db_log d' = db_log d @ [(n, Rollback t)])"
    and "db_vs d' \<in> {db_vs d, snd (discard t (db_vs d))}"
    using d1(2) d1(3) [of k row] d2 ca [of True d2] ca [of False d1] by (auto simp: on_rows_def)
qed

lemma discard_fewer:
  "owns (snd (discard t v)) x l \<Longrightarrow> vs_pre_images (snd (discard t v)) l = Some p \<Longrightarrow> owns v x l \<and> vs_pre_images v l = Some p"
  by (auto simp: owns_def vs_simps split: if_splits)

lemma abort_complete_counter: "counter_of (snd (abort_complete t b m)) = counter_of m"
  by (simp add: abort_complete_def Let_def tm_simps)

lemma finish_abort_number:
  assumes inv: "winv F w" and t: "state_of (w_tm w) t = Some Aborting" and \<omega>: "fl_revert \<omega> = (\<lambda>_. None)"
    and room: "room (length (writes_of (w_vs w) t) + 1) w"
    and log: "db_log (snd (finish_abort \<omega> t (w_db w))) = w_log w @ [(n, Rollback t)]"
  shows "n < counter_of (db_tm (snd (finish_abort \<omega> t (w_db w))))"
proof -
  obtain d1 where d1: "revert (\<lambda>_. None) t (w_db w) = (Inr (), d1)" "drawn (length (writes_of (w_vs w) t)) (w_tm w) (db_tm d1)"
    using revert_ends [OF inv t] room by (auto simp: room_def)
  have same: "db_log d1 = w_log w"
    using revert_list_known [of "rev (undo_of (w_vs w) t)" t "w_db w"] d1(1) by (auto simp: revert_def on_rows_def)
  have "unat (counter_of (db_tm d1)) + 1 < 2 ^ 64" using d1(2) room by (simp add: drawn_def room_def)
  then have less: "counter_of (db_tm d1) < counter_of (db_tm d1) + 1" by (simp add: word_less_nat_alt unat_word_ariths)
  obtain e d2 where l: "log_new (fl_rollback \<omega>) (Rollback t) d1 = (e, d2)" by fastforce
  have d2: "db_tm d2 = snd (mint (db_tm d1))" "db_log d2 = w_log w \<or> (e = Inr () \<and> db_log d2 = w_log w @ [(counter_of (db_tm d1), Rollback t)])"
    using l log_new_simps [of "fl_rollback \<omega>" "Rollback t" d1] same
    by (auto simp: log_new_def draw_def split_beta Let_def mint_simps split: option.splits)
  have ca: "counter_of (db_tm (complete_abort t b x)) = counter_of (db_tm x)" "db_log (complete_abort t b x) = db_log x" for b x
    by (simp_all add: complete_abort_def split_beta Let_def abort_complete_counter)
  have "snd (finish_abort \<omega> t (w_db w)) \<in> {d2, complete_abort t True d2, complete_abort t False d1}"
    using d1(1) l \<omega> by (cases e; cases "has_writes (w_vs w) t") (auto simp: finish_abort_def)
  then show ?thesis using log d2 ca [of True d2] ca [of False d1] same less by (auto simp: mint_simps tm_simps)
qed

lemma linv_finish_abort:
  assumes inv: "winv F w" and l: "linv w" and t: "state_of (w_tm w) t = Some Aborting" and \<omega>: "fl_revert \<omega> = (\<lambda>_. None)"
    and room: "room (length (writes_of (w_vs w) t) + 1) w"
  shows "linv (with_db (snd (finish_abort \<omega> t (w_db w))) w)" (is "linv ?w")
proof -
  let ?d = "snd (finish_abort \<omega> t (w_db w))"
  note fl = finish_abort_log [OF \<omega> refl, of t "w_db w"] and ends = finish_abort_ends [OF inv t \<omega> room]
  obtain m b where m: "quiet (w_tm w) m" "db_tm ?d \<in> {m, snd (abort_complete t b m)}" using ends(1) by blast
  have st: "state_of (db_tm ?d) x = state_of (w_tm w) x" if "x \<noteq> t" for x
    using m(2) that quiet_simps(1) [OF m(1), of x] by (auto simp: abort_complete_def Let_def tm_simps)
  have c: "counter_of (w_tm w) \<le> counter_of (db_tm ?d)" using m by (auto simp: quiet_def abort_complete_counter)
  obtain xs where xs: "db_log ?d = w_log w @ xs" "xs = [] \<or> (\<exists>n. xs = [(n, Rollback t)] \<and> n < counter_of (db_tm ?d))"
    using fl(2) finish_abort_number [OF inv t \<omega> room] by fastforce
  have tn: "t < counter_of (w_tm w)" using tm_wfD(2) [OF invD(1) [OF inv] t] .
  show ?thesis unfolding linv_def
  proof (intro conjI allI impI ballI)
    show "log_wf [] (w_log ?w)"
      using linvD(1) [OF l] xs by (auto simp: log_wf_append intro!: log_wf_plain)
    show "n < counter_of (w_tm ?w)" if "n \<in> numbers (w_log ?w)" for n
      using that xs linvD(4) [OF l, of n] c tn by (auto simp: numbers_def numbers_of_def intro: less_le_trans)
    show "\<exists>x. posted (w_log ?w) (pre_key p) x (pi_tuple p) \<and> (x = u \<or> x \<in> commits (w_log ?w))"
      if "owns (w_vs ?w) u j \<and> vs_pre_images (w_vs ?w) j = Some p" for u j p
    proof -
      have "owns (w_vs w) u j" "vs_pre_images (w_vs w) j = Some p" using that fl(3) discard_fewer [of t "w_vs w" u j p] by auto
      from linvD(3) [OF l this] show ?thesis using xs(1) by auto
    qed
    fix k row assume row: "w_rows ?w k = Some row"
    then have row': "db_rows ?d k = Some row" by simp
    have nt: "t_txn_id row \<noteq> Some t" by (rule ends(2) [OF row'])
    have "\<exists>x. posted (w_log w) k x row \<and> (in_flight (w_tm w) x \<or> x = t \<or> x \<in> commits (w_log w))"
      using fl(1) [OF row']
    proof
      assume "\<exists>tid. Restore tid row \<in> set (undo_of (db_vs (w_db w)) t) \<and> k = row_key tid (t_id row)"
      then obtain j p where "owns (w_vs w) t j" "vs_pre_images (w_vs w) j = Some p" "pre_key p = k" "pi_tuple p = row"
        using undo_restores by blast
      then show ?thesis using linvD(3) [OF l] by blast
    qed (use linvD(2) [OF l] in blast)
    then obtain x where x: "posted (w_log w) k x row" "in_flight (w_tm w) x \<or> x = t \<or> x \<in> commits (w_log w)" by blast
    have "x \<noteq> t" using log_wf_writer [OF linvD(1) [OF l] x(1)] nt by blast
    then have "in_flight (db_tm ?d) x = in_flight (w_tm w) x" using st [of x] by (simp add: in_flight_iff)
    then show "\<exists>x. posted (w_log ?w) k x row \<and> (in_flight (w_tm ?w) x \<or> x \<in> commits (w_log ?w))"
      using x \<open>x \<noteq> t\<close> xs(1) by auto
  qed
qed

section \<open>Every step\<close>

lemma linv_purge:
  assumes inv: "winv F w" and l: "linv w" and b: "w_purging w = b # bs" and room: "room 2 w" and p: "purge \<omega> b (w_db w) = (r, d)"
  shows "linv ((with_db (d\<lparr>db_vs := requeue_tombstones ts (db_vs d)\<rparr>) w)\<lparr>w_purging := bs\<rparr>)" (is "linv ?w")
proof -
  note pc = purge_cases [OF p]
  have wf: "tm_wf (w_tm w)" by (rule invD(1) [OF inv])
  have q1: "drawn 1 (w_tm w) (snd (mint (w_tm w)))" using drawn_mint [OF wf, of 0] room by (simp add: room_def)
  have q2: "drawn 1 (snd (mint (w_tm w))) (snd (mint (snd (mint (w_tm w)))))"
    using drawn_mint [OF drawn_wf [OF q1], of 0] q1 room by (simp add: room_def drawn_def)
  have q: "quiet (w_tm w) (db_tm d)"
    using pc(3) q1 drawn_trans [OF q1 q2] quiet_refl [OF wf] by (auto simp: drawn_def)
  have t: "tb_txn b < counter_of (w_tm w)"
    using invD(10) [OF inv, of b] b by (auto simp: ended_def intro!: began_less [OF wf])
  have up: "counter_of (w_tm w) + 1 < counter_of (w_tm w) + 1 + 1"
    using room by (simp add: room_def word_less_nat_alt unat_word_ariths)
  obtain xs where xs: "db_log d = w_log w @ xs"
      "xs = [] \<or> (xs = [(counter_of (w_tm w) + 1, Purge (tb_txn b) (tb_table b) (tb_key b))] \<and> counter_of (db_tm d) = counter_of (w_tm w) + 1 + 1)"
    using pc(5) by (auto simp: mint_simps tm_simps)
  show ?thesis
  proof (rule linv_move [OF inv l, where xs = xs])
    show "n < counter_of (w_tm ?w)" if "n \<in> numbers xs" for n
      using that xs(2) up t q by (auto simp: numbers_def numbers_of_def quiet_def with_db_def intro: less_le_trans)
    show "in_flight (w_tm ?w) x \<or> x \<in> commits (w_log ?w)" if "in_flight (w_tm w) x" for x
      using that quiet_simps(1) [OF q, of x] by (simp add: in_flight_iff with_db_def)
  qed (use xs pc(1,4) q in \<open>auto simp: with_db_def quiet_def requeue_simps split: if_splits\<close>)
qed

lemma vacuum_fewer:
  "owns (snd (vacuum h v)) x l \<Longrightarrow> vs_pre_images (snd (vacuum h v)) l = Some p \<Longrightarrow> owns v x l \<and> vs_pre_images v l = Some p"
  by (auto simp: owns_def vs_simps split: if_splits)

lemma discard_all_fewer:
  "owns (fold (\<lambda>t v. snd (discard t v)) ts v) x l \<Longrightarrow> vs_pre_images (fold (\<lambda>t v. snd (discard t v)) ts v) l = Some p \<Longrightarrow>
   owns v x l \<and> vs_pre_images v l = Some p"
  unfolding owns_def discard_all by (auto split: if_splits)

lemma linv_step:
  assumes step: "db_step F a w w'" and inv: "winv F w" and l: "linv w"
  shows "linv w'"
proof -
  note wf = invD(1) [OF inv]
  have on: "counter_of (w_tm w) \<le> counter_of (w_tm w')"
    using step_keeps [OF step inv] by (simp add: step_ok_def goes_on_def)
  from step show ?thesis
  proof (cases rule: db_step.cases)
    case (d_begin p)
    show ?thesis by (rule linv_tm [OF inv l]) (use d_begin on in \<open>auto simp: in_flight_iff tm_simps begin_txn_def split_beta\<close>)
  next
    case d_draw
    show ?thesis by (rule linv_tm [OF inv l]) (use d_draw on in \<open>auto simp: in_flight_iff tm_simps draw_def split_beta mint_simps\<close>)
  next
    case d_reserve
    show ?thesis by (rule linv_tm [OF inv l]) (use d_reserve on in \<open>auto simp: in_flight_iff tm_simps with_db_def draw_def split_beta mint_simps\<close>)
  next
    case (d_insert n t tid tup tuple tree_err log_err)
    show ?thesis by (rule linv_insert [OF inv l d_insert(3,4,6)]) (use d_insert(2) in \<open>simp add: with_db_def\<close>)
  next
    case (d_update n t tid i base tree_err new log_err)
    show ?thesis by (rule linv_update [OF inv l d_update(3,4,6)]) (use d_update(2) in \<open>simp add: with_db_def\<close>)
  next
    case (d_remove n t tid i base tree_err log_err)
    show ?thesis by (rule linv_remove [OF inv l d_remove(3,4,6)]) (use d_remove(2) in \<open>simp add: with_db_def\<close>)
  next
    case (d_begin_commit t)
    show ?thesis by (rule linv_tm [OF inv l])
      (use d_begin_commit on in \<open>auto simp: in_flight_iff with_tm_def begin_commit_def tm_simps split_beta split: option.splits txn_state.splits if_splits\<close>)
  next
    case (d_finish_commit logged ts t p)
    have "t \<in> commits (w_log w)" if logged using d_finish_commit(3) that by (auto simp: commits_def)
    then show ?thesis by (intro linv_tm [OF inv l])
      (use d_finish_commit(2,4) on in \<open>auto simp: in_flight_iff with_tm_def finish_commit_def tm_simps split: if_splits\<close>)
  next
    case (d_mark t ts)
    show ?thesis by (rule linv_move [OF inv l, where xs = "[]"])
      (use d_mark in \<open>auto simp: with_vs_def owns_def vs_simps numbers_def split: if_splits\<close>)
  next
    case (d_commit_read_only t ts)
    show ?thesis by (rule linv_tm [OF inv l])
      (use d_commit_read_only on in \<open>auto simp: in_flight_iff with_tm_def txn_commit_def tm_simps split: option.splits txn_state.splits if_splits\<close>)
  next
    case (d_end_read_only t)
    show ?thesis by (rule linv_tm [OF inv l])
      (use d_end_read_only on in \<open>auto simp: in_flight_iff with_tm_def end_read_only_def tm_simps split: option.splits txn_state.splits if_splits\<close>)
  next
    case (d_abort t)
    show ?thesis by (rule linv_tm [OF inv l])
      (use d_abort on in \<open>auto simp: in_flight_iff with_tm_def txn_abort_def tm_simps split: option.splits txn_state.splits if_splits\<close>)
  next
    case (d_finish_abort t \<omega>)
    show ?thesis unfolding d_finish_abort(2) by (rule linv_finish_abort [OF inv l d_finish_abort(3-5)])
  next
    case d_horizon
    show ?thesis using l unfolding d_horizon linv_def by simp
  next
    case d_prune
    show ?thesis
    proof (rule linv_move [OF inv l, where xs = "[]"])
      show "in_flight (w_tm w') x \<or> x \<in> commits (w_log w')" if "in_flight (w_tm w) x" for x
        using that d_prune by (auto simp: in_flight_iff prune_and_discard_def split_beta prune_state_of [OF wf] prune_keeps_def)
    qed (use d_prune on discard_all_fewer in \<open>auto simp: prune_and_discard_def split_beta numbers_def\<close>)
  next
    case (d_vacuum h)
    show ?thesis
      by (rule linv_move [OF inv l, where xs = "[]"])
        (use d_vacuum vacuum_fewer [of "Some h" "w_vs w"] in \<open>auto simp: with_db_def vacuum_to_def split_beta numbers_def\<close>)
  next
    case (d_purge b bs \<omega> r d)
    show ?thesis unfolding d_purge(2) by (rule linv_purge [OF inv l d_purge(3-5)])
  next
    case (d_log_commit t ts p)
    have "ts < counter_of (w_tm w)" "t < counter_of (w_tm w)"
      using tm_wfD(2,3) [OF wf d_log_commit(3)] by auto
    then show ?thesis
      by (intro linv_move [OF inv l, where xs = "[(ts, Commit t)]"]) (use d_log_commit in \<open>auto simp: numbers_def numbers_of_def\<close>)
  next
    case (d_log_sequence n name h dropped)
    then show ?thesis
      by (intro linv_move [OF inv l, where xs = "[(n, Sequence name h dropped)]"]) (auto simp: numbers_def numbers_of_def)
  next
    case (d_other dg fd at)
    show ?thesis using l unfolding d_other linv_def by simp
  qed
qed

section \<open>Crash and recovery\<close>

text \<open>A log is only appended to.\<close>

lemma write_log_grows:
  assumes "\<exists>xs. db_log (snd (decide (db_rows d (row_key tid i)) d)) = db_log d @ xs"
  shows "\<exists>xs. db_log (snd (write_version tid i tree_err decide d)) = db_log d @ xs"
proof -
  obtain r d1 where d1: "decide (db_rows d (row_key tid i)) d = (r, d1)" by fastforce
  then show ?thesis using assms by (auto simp: write_version_def Let_def split: sum.split decision.split option.split)
qed

lemma decision_log_grows:
  "\<exists>xs. db_log (snd (insert_decision tid tup t l log_err cur d)) = db_log d @ xs"
  "\<exists>xs. db_log (snd (update_decision tid new t l log_err base d)) = db_log d @ xs"
  "\<exists>xs. db_log (snd (remove_decision tid t l log_err base d)) = db_log d @ xs"
  by (simp_all add: insert_decision_def update_decision_def remove_decision_def record_and_log_def Let_def split: option.split sum.split)

lemma step_log_grows:
  assumes "db_step F a w w'"
  shows "\<exists>xs. w_log w' = w_log w @ xs"
  using assms
proof (cases rule: db_step.cases)
  case (d_insert n t tid tup tuple tree_err log_err)
  then show ?thesis using write_log_grows [where decide = "insert_decision tid tup t n log_err", OF decision_log_grows(1)] by (simp add: with_db_def)
next
  case (d_update n t tid i base tree_err new log_err)
  then show ?thesis using write_log_grows [where decide = "\<lambda>_. update_decision tid new t n log_err base", OF decision_log_grows(2)]
    by (simp add: with_db_def)
next
  case (d_remove n t tid i base tree_err log_err)
  then show ?thesis using write_log_grows [where decide = "\<lambda>_. remove_decision tid t n log_err base", OF decision_log_grows(3)]
    by (simp add: with_db_def)
next
  case (d_finish_abort t \<omega>)
  then show ?thesis using finish_abort_log(2) [OF d_finish_abort(4) refl, of t "w_db w"] by auto
next
  case (d_purge b bs \<omega> r d)
  then show ?thesis using purge_cases(5) [OF d_purge(5)] by (auto simp: with_db_def)
qed (simp_all add: with_tm_def with_vs_def with_db_def begin_txn_def draw_def split_beta prune_and_discard_def vacuum_to_def)

lemma run_log_grows: "db_run F as w w' \<Longrightarrow> \<exists>xs. w_log w' = w_log w @ xs"
proof (induction rule: db_run.induct)
  case (run_step as w w' a w'')
  then show ?case using step_log_grows [OF run_step.hyps(2)] by auto
qed simp

lemma linv_new: "linv (new_world tabs c)"
  by (simp add: linv_def new_world_def new_db_def numbers_def vs_new_def)

lemma run_linv: "db_run F as w w' \<Longrightarrow> winv F w \<Longrightarrow> linv w \<Longrightarrow> linv w'"
proof (induction rule: db_run.induct)
  case (run_step as w w' a w'')
  then show ?case using linv_step [OF run_step.hyps(2)] run_inv by blast
qed simp

lemma reach_linv: "db_reach F w \<Longrightarrow> linv w"
  unfolding db_reach_def using run_linv [OF _ winv_new linv_new] by blast

text \<open>
  What a crash leaves: the first \<open>n\<close> records of the log, and under every key nothing or a row that
  stood there at some earlier time, when the log was not yet longer than what is left of it. (A
  page is written only when the records of its changes are on disk.)
\<close>

definition crash_leaves :: "txn_id set \<Rightarrow> world \<Rightarrow> nat \<Rightarrow> (row_key \<rightharpoonup> tuple) \<Rightarrow> bool" where
  "crash_leaves F w n disk = (\<forall>k v. disk k = Some v \<longrightarrow>
     (\<exists>w1 as. db_reach F w1 \<and> db_run F as w1 w \<and> length (w_log w1) \<le> n \<and> w_rows w1 k = Some v))"

definition reopened :: "world \<Rightarrow> lsn_clock \<Rightarrow> (row_key \<rightharpoonup> tuple) \<Rightarrow> db" where
  "reopened w c disk = (new_db (db_tables (w_db w)) c)\<lparr>db_rows := disk\<rparr>"

lemma crash_rows_logged:
  assumes "crash_leaves F w n disk" "disk k = Some v"
  shows "\<exists>x. posted (take n (w_log w)) k x v"
proof -
  obtain w1 as where w1: "db_reach F w1" "db_run F as w1 w" "length (w_log w1) \<le> n" "w_rows w1 k = Some v"
    using assms unfolding crash_leaves_def by blast
  obtain x where x: "posted (w_log w1) k x v" using linvD(2) [OF reach_linv [OF w1(1)] w1(4)] by blast
  obtain xs where "w_log w = w_log w1 @ xs" using run_log_grows [OF w1(2)] by blast
  then show ?thesis using x w1(3) by auto
qed

text \<open>
  C4. Crash recovery. Stop a database in any state it can reach; keep any first part of its log,
  and under each key no row or one that stood there while the log was within that part: rows of
  running, aborted, old or later overwritten transactions alike. Then replaying the log succeeds,
  a transaction can begin, and it finds under every key the data of the last write, in the log, of
  a transaction whose Commit is in the log, and nothing where there is none or that write is a
  delete. Atomicity and durability: all of a transaction or nothing of it, according to its
  Commit record.
\<close>

theorem crash_recovery:
  assumes "db_reach F w" and "crash_leaves F w n disk" and "db_tables (w_db w) tid \<noteq> None"
  shows "\<exists>d' d'' r x. process_log (\<lambda>_. None) (\<lambda>_. None) (take n (w_log w)) g (reopened w c disk)
      = (Inr (length (take n (w_log w))), replay_sequences (map snd (take n (w_log w))) g, d')
    \<and> begin_txn p d' = (Inr r, d'') \<and> find_as tid i r d'' = Some (Inr x, d'')
    \<and> map_option t_data x = logged_data (take n (w_log w)) (row_key tid i)"
proof (rule recovered_reads)
  note l = reach_linv [OF assms(1)]
  show "log_wf [] (take n (w_log w))"
    using linvD(1) [OF l] log_wf_append [of "[]" "take n (w_log w)" "drop n (w_log w)"] by simp
  show "tm_states (db_tm (reopened w c disk)) = []" by (simp add: reopened_def new_db_def tm_new_def)
  show "db_tables (reopened w c disk) tid \<noteq> None" using assms(3) by (simp add: reopened_def new_db_def)
  show "\<exists>x. posted (take n (w_log w)) k x v" if "db_rows (reopened w c disk) k = Some v" for k v
    using that crash_rows_logged [OF assms(2)] by (simp add: reopened_def)
  have "x \<noteq> U64_MAX" if "x \<in> numbers (take n (w_log w))" for x
  proof -
    have "x \<in> numbers (w_log w)"
      using UnI1 [OF that, of "numbers (drop n (w_log w))"] unfolding numbers_append [symmetric] append_take_drop_id .
    then have "x < counter_of (w_tm w)" by (rule linvD(4) [OF l])
    then show ?thesis using word_order.extremum leD by metis
  qed
  then show "U64_MAX \<notin> numbers (take n (w_log w))" by blast
qed

text \<open>Its witness: a row, the Commit of its writer, and a crash before anything but the log is on disk.\<close>

lemma demo_written_log: "w_log demo_written = [(3, Add 2 (new_record 1 (stamped 2 demo_row)))]"
  by (simp add: demo_written_def with_db_def write_version_def insert_decision_def record_and_log_def Let_def drawn_for_write_def
      demo_two_simps vs_simps) (simp add: demo_two_def with_db_def new_db_def begin_txn_def draw_def split_beta)

theorem crash_recovery_witness:
  "\<exists>d' d'' r x. process_log (\<lambda>_. None) (\<lambda>_. None) (take 2 (w_log demo_committing)) gn_new (reopened demo_committing clock_default Map.empty)
      = (Inr (length (take 2 (w_log demo_committing))), replay_sequences (map snd (take 2 (w_log demo_committing))) gn_new, d')
    \<and> begin_txn AbortOnConflict d' = (Inr r, d'') \<and> find_as 1 (IntId 7) r d'' = Some (Inr x, d'') \<and> map_option t_data x = Some [42]"
proof -
  have log: "w_log demo_committing = [(3, Add 2 (new_record 1 (stamped 2 demo_row))), (4, Commit 2)]"
    by (simp add: demo_committing_def demo_written_log) (simp add: with_tm_def demo_written_log)
  then have "logged_data (take 2 (w_log demo_committing)) (row_key 1 (IntId 7)) = Some [42]"
    by (simp add: logged_data_def commits_def posts_def record_key_def new_record_def row_key_def unless_tombstone_def stamped_def tombstone_flags)
      (simp add: clear_tombstone_def set_pre_lsn_none_def set_txn_id_def demo_row_def)
  moreover have "crash_leaves {} demo_committing 2 Map.empty" by (simp add: crash_leaves_def)
  moreover have "db_tables (w_db demo_committing) 1 \<noteq> None" by (simp add: demo_committing_def demo_written_tables)
  ultimately show ?thesis
    using crash_recovery [OF demo_committing_reach, of "{}" 2 Map.empty 1 gn_new clock_default AbortOnConflict "IntId 7"] by simp
qed

end
