(* ===== verification/Float64.thy ===== *)
theory Float64
  imports Key_Code
begin

text \<open>
  Rust's \<^verbatim>\<open>f64\<close>, on its 64 bits: the number it stands for, the comparisons \<^verbatim>\<open>==\<close> and \<^verbatim>\<open>partial_cmp\<close>,
  rounding to an integer, the casts to and from \<^verbatim>\<open>i64\<close>, and arithmetic. This is the part of the
  language the SQL layer's numbers rest on.

  A double that is no NaN stands for an integer multiple of \<open>2 ^ -1074\<close>; that multiple, an \<open>int\<close>, is
  its value here. The infinities get the number their bits would be with one more exponent, which
  is beyond every finite one.
\<close>

section \<open>The number of a double\<close>

abbreviation (input) F64_SIGN :: nat where "F64_SIGN \<equiv> 2 ^ 63"
abbreviation (input) F64_INF :: nat where "F64_INF \<equiv> 2047 * 2 ^ 52"

definition f64_unit :: nat where
  "f64_unit = 2 ^ 1074"

definition f64_neg_bit :: "f64 \<Rightarrow> bool" where
  "f64_neg_bit b = (F64_SIGN \<le> unat b)"

definition f64_low :: "f64 \<Rightarrow> nat" where
  "f64_low b = unat b mod F64_SIGN"

definition f64_is_nan :: "f64 \<Rightarrow> bool" where
  "f64_is_nan b = (F64_INF < f64_low b)"

definition f64_finite :: "f64 \<Rightarrow> bool" where
  "f64_finite b = (f64_low b < F64_INF)"

text \<open>The bits below the sign, exponent and fraction, as a multiple of the unit.\<close>

definition f64_mag :: "nat \<Rightarrow> nat" where
  "f64_mag n = (if n < 2 ^ 52 then n else (2 ^ 52 + n mod 2 ^ 52) * 2 ^ (n div 2 ^ 52 - 1))"

definition f64_val :: "f64 \<Rightarrow> int" where
  "f64_val b = (if f64_neg_bit b then - int (f64_mag (f64_low b)) else int (f64_mag (f64_low b)))"

definition f64_make :: "bool \<Rightarrow> nat \<Rightarrow> f64" where
  "f64_make neg n = word_of_nat ((if neg then F64_SIGN else 0) + n)"

section \<open>Comparing\<close>

definition f64_partial_cmp :: "f64 \<Rightarrow> f64 \<Rightarrow> ordering option" where
  "f64_partial_cmp a b = (if f64_is_nan a \<or> f64_is_nan b then None else Some (ord_cmp (f64_val a) (f64_val b)))"

definition f64_eq :: "f64 \<Rightarrow> f64 \<Rightarrow> bool" where
  "f64_eq a b = (f64_partial_cmp a b = Some Equal)"

definition f64_lt :: "f64 \<Rightarrow> f64 \<Rightarrow> bool" where
  "f64_lt a b = (f64_partial_cmp a b = Some Less)"

definition f64_le :: "f64 \<Rightarrow> f64 \<Rightarrow> bool" where
  "f64_le a b = (f64_lt a b \<or> f64_eq a b)"

section \<open>Integers\<close>

text \<open>
  \<^verbatim>\<open>trunc\<close>, \<^verbatim>\<open>floor\<close> and \<^verbatim>\<open>ceil\<close> of a finite double, as the integer they are; \<^verbatim>\<open>fract() == 0.0\<close>, which
  fails for the infinities and NaN (their fraction is NaN).
\<close>

definition f64_trunc :: "f64 \<Rightarrow> int" where
  "f64_trunc b = (if f64_neg_bit b then - int (f64_mag (f64_low b) div f64_unit) else int (f64_mag (f64_low b) div f64_unit))"

definition f64_floor :: "f64 \<Rightarrow> int" where
  "f64_floor b = f64_val b div int f64_unit"

definition f64_ceil :: "f64 \<Rightarrow> int" where
  "f64_ceil b = - (- f64_val b div int f64_unit)"

definition f64_whole :: "f64 \<Rightarrow> bool" where
  "f64_whole b = (f64_finite b \<and> f64_mag (f64_low b) mod f64_unit = 0)"

text \<open>\<^verbatim>\<open>as i64\<close> keeps to the range.\<close>

definition saturate_i64 :: "int \<Rightarrow> i64" where
  "saturate_i64 x = word_of_int (max (- (2 ^ 63)) (min (2 ^ 63 - 1) x))"

definition f64_as_i64 :: "f64 \<Rightarrow> i64" where
  "f64_as_i64 b = (if f64_is_nan b then 0 else saturate_i64 (f64_trunc b))"

text \<open>
  The double nearest to \<open>n / d\<close> units, ties to the even one: with \<open>s\<close> bits more than the 53 a double
  keeps, the quotient is rounded to a multiple of \<open>2 ^ s\<close>, and a carry runs into the exponent by
  itself.
\<close>

definition round_quot :: "nat \<Rightarrow> nat \<Rightarrow> nat" where
  "round_quot n d = (let q = n div d; r = n mod d in if 2 * r < d \<or> (2 * r = d \<and> even q) then q else q + 1)"

definition f64_round :: "bool \<Rightarrow> nat \<Rightarrow> nat \<Rightarrow> f64" where
  "f64_round neg n d =
     (let s = bit_len (n div d) - 53
      in f64_make neg (min F64_INF (round_quot n (d * 2 ^ s) + s * 2 ^ 52)))"

definition f64_of_i64 :: "i64 \<Rightarrow> f64" where
  "f64_of_i64 i = f64_round (sint i < 0) (nat \<bar>sint i\<bar> * f64_unit) 1"

section \<open>Arithmetic\<close>

text \<open>A NaN that arithmetic makes is the quiet one; Rust does not say which it is.\<close>

abbreviation (input) F64_NAN :: f64 where "F64_NAN \<equiv> 0x7FF8000000000000"

definition f64_neg :: "f64 \<Rightarrow> f64" where
  "f64_neg b = b XOR push_bit 63 1"

definition f64_add :: "f64 \<Rightarrow> f64 \<Rightarrow> f64" where
  "f64_add a b =
     (if f64_is_nan a \<or> f64_is_nan b then F64_NAN
      else if \<not> f64_finite a then (if \<not> f64_finite b \<and> f64_neg_bit a \<noteq> f64_neg_bit b then F64_NAN else a)
      else if \<not> f64_finite b then b
      else let v = f64_val a + f64_val b
           in if v = 0 then f64_make (f64_neg_bit a \<and> f64_neg_bit b) 0 else f64_round (v < 0) (nat \<bar>v\<bar>) 1)"

definition f64_sub :: "f64 \<Rightarrow> f64 \<Rightarrow> f64" where
  "f64_sub a b = (if f64_is_nan b then F64_NAN else f64_add a (f64_neg b))"

definition f64_mul :: "f64 \<Rightarrow> f64 \<Rightarrow> f64" where
  "f64_mul a b =
     (let neg = (f64_neg_bit a \<noteq> f64_neg_bit b) in
      if f64_is_nan a \<or> f64_is_nan b then F64_NAN
      else if \<not> f64_finite a \<or> \<not> f64_finite b then
        (if f64_val a = 0 \<or> f64_val b = 0 then F64_NAN else f64_make neg F64_INF)
      else f64_round neg (f64_mag (f64_low a) * f64_mag (f64_low b)) f64_unit)"

definition f64_div :: "f64 \<Rightarrow> f64 \<Rightarrow> f64" where
  "f64_div a b =
     (let neg = (f64_neg_bit a \<noteq> f64_neg_bit b) in
      if f64_is_nan a \<or> f64_is_nan b then F64_NAN
      else if \<not> f64_finite a then (if f64_finite b then f64_make neg F64_INF else F64_NAN)
      else if \<not> f64_finite b then f64_make neg 0
      else if f64_val b = 0 then (if f64_val a = 0 then F64_NAN else f64_make neg F64_INF)
      else f64_round neg (f64_mag (f64_low a) * f64_unit) (f64_mag (f64_low b)))"

definition f64_rem :: "f64 \<Rightarrow> f64 \<Rightarrow> f64" where
  "f64_rem a b =
     (if f64_is_nan a \<or> f64_is_nan b \<or> \<not> f64_finite a \<or> f64_val b = 0 then F64_NAN
      else if \<not> f64_finite b then a
      else f64_round (f64_neg_bit a) (f64_mag (f64_low a) mod f64_mag (f64_low b)) 1)"

section \<open>The value is the order of the bits\<close>

lemma f64_mag_Suc: "f64_mag n < f64_mag (Suc n)"
proof -
  obtain p where p: "p = (2 :: nat) ^ 52" by blast
  then have p0: "0 < p" by simp
  have mag: "f64_mag x = (if x < p then x else (p + x mod p) * 2 ^ (x div p - 1))" for x
    by (simp only: f64_mag_def p)
  obtain e f where n: "n = e * p + f" and f: "f < p" using p0 by (metis div_mult_mod_eq mod_less_divisor)
  have here: "n div p = e" "n mod p = f" using n f by simp_all
  show ?thesis
  proof (cases "Suc f < p")
    case True
    then have "Suc n div p = e" "Suc n mod p = Suc f" using div_mult_self1 [of p "Suc f" e] mod_mult_self1 [of "Suc f" e p] n p0 by (simp_all add: ac_simps)
    moreover have "Suc n < p \<longleftrightarrow> n < p" using n True by (cases e) auto
    ultimately show ?thesis using here by (simp add: mag)
  next
    case False
    then have "Suc n = Suc e * p" using n f by simp
    then have s: "Suc n div p = Suc e" "Suc n mod p = 0" "\<not> Suc n < p" using p0 by simp_all
    show ?thesis
    proof (cases e)
      case 0
      then show ?thesis using n f s by (simp add: mag)
    next
      case (Suc k)
      then have "f64_mag n = (p + f) * 2 ^ k" using n here by (simp add: mag)
      also have "\<dots> < (p + p) * 2 ^ k" using f by simp
      also have "\<dots> = f64_mag (Suc n)" using s Suc by (simp add: mag)
      finally show ?thesis .
    qed
  qed
qed

lemma f64_mag_less [simp]: "f64_mag m < f64_mag n \<longleftrightarrow> m < n"
  by (rule strict_mono_less) (simp add: strict_mono_Suc_iff f64_mag_Suc)

lemma f64_mag_eq [simp]: "f64_mag m = f64_mag n \<longleftrightarrow> m = n"
  by (metis f64_mag_less less_irrefl linorder_neqE_nat)

lemma f64_mag_0 [simp]: "f64_mag n = 0 \<longleftrightarrow> n = 0"
  using f64_mag_eq [of n 0] by (simp add: f64_mag_def)

lemma unat_f64: "unat b = (if f64_neg_bit b then F64_SIGN else 0) + f64_low b"
  using unat_u64_less [of b] by (auto simp: f64_neg_bit_def f64_low_def not_le mod_if)

lemma f64_low_less: "f64_low b < F64_SIGN"
  by (simp add: f64_low_def)

lemma f64_make_parts:
  assumes "n < F64_SIGN"
  shows "f64_neg_bit (f64_make neg n) = neg" "f64_low (f64_make neg n) = n"
proof -
  have "unat (f64_make neg n) = (if neg then F64_SIGN else 0) + n"
    unfolding f64_make_def unat_of_nat using assms by auto
  then show "f64_neg_bit (f64_make neg n) = neg" "f64_low (f64_make neg n) = n"
    using assms by (auto simp: f64_neg_bit_def f64_low_def)
qed

lemma f64_eqI: "f64_neg_bit a = f64_neg_bit b \<Longrightarrow> f64_low a = f64_low b \<Longrightarrow> a = b"
  by (metis unat_f64 word_unat_eq_iff)

text \<open>The key \<^verbatim>\<open>total_cmp\<close> compares: the bits below the sign, counted down for a negative double.\<close>

lemma sint_total_key: "sint (total_key b) = (if f64_neg_bit b then - int (f64_low b) - 1 else int (f64_low b))"
proof -
  have sgn: "drop_bit 63 b = 0 \<longleftrightarrow> \<not> f64_neg_bit b"
  proof -
    have "unat (drop_bit 63 b) = unat b div 9223372036854775808" by (simp add: drop_bit_eq_div unat_div)
    then show ?thesis using unat_u64_less [of b] by (auto simp: f64_neg_bit_def unat_eq_0 [symmetric] div_eq_0_iff simp del: unat_eq_0)
  qed
  have "sint (total_key b) = int (unat (ordered_bits b)) - 9223372036854775808" using ordered_bits_total [of b] by simp
  also have "\<dots> = (if f64_neg_bit b then - int (f64_low b) - 1 else int (f64_low b))"
    using unat_f64 [of b] f64_low_less [of b] unat_compl [of b] sgn xor_top [of b] unat_plus_top [of b]
    by (auto simp: ordered_bits_def sint_u64 uint_nat of_nat_diff simp del: of_nat_unat)
  finally show ?thesis .
qed


lemma f64_val_0 [simp]: "f64_val b = 0 \<longleftrightarrow> f64_low b = 0"
  by (simp add: f64_val_def)

lemma f64_val_eqD: "f64_val a = f64_val b \<Longrightarrow> a = b \<or> (f64_low a = 0 \<and> f64_low b = 0)"
  by (auto simp: f64_val_def intro: f64_eqI split: if_splits) (metis f64_mag_0 neg_equal_iff_equal neg_0_equal_iff_equal of_nat_0_eq_iff
      neg_eq_iff_add_eq_0 of_nat_add add_is_0)+

text \<open>\<^verbatim>\<open>total_cmp\<close> orders by value, and the negative zero before the positive one.\<close>

lemma total_cmp_Less:
  "total_cmp a b = Less \<longleftrightarrow> f64_val a < f64_val b \<or> (f64_low a = 0 \<and> f64_low b = 0 \<and> f64_neg_bit a \<and> \<not> f64_neg_bit b)"
proof -
  have mixed: "- int (f64_mag m) < int (f64_mag n) \<longleftrightarrow> \<not> (m = 0 \<and> n = 0)" for m n
    using f64_mag_0 [of m] f64_mag_0 [of n] by linarith
  show ?thesis unfolding total_cmp_def sint_total_key f64_val_def
    by (cases "f64_neg_bit a"; cases "f64_neg_bit b"; simp add: mixed) auto
qed

section \<open>Integers as doubles\<close>

lemma f64_mag_scaled:
  assumes "s = 0 \<and> m \<le> 2 ^ 53 \<or> 2 ^ 52 \<le> m \<and> m \<le> 2 ^ 53"
  shows "f64_mag (m + s * 2 ^ 52) = m * 2 ^ s"
proof -
  obtain p where p: "p = (2 :: nat) ^ 52" by blast
  then have p0: "0 < p" by simp
  have p2: "2 ^ 53 = 2 * p" by (simp add: p)
  have mag: "f64_mag x = (if x < p then x else (p + x mod p) * 2 ^ (x div p - 1))" for x
    by (simp only: f64_mag_def p)
  have "s = 0 \<and> m \<le> 2 * p \<or> p \<le> m \<and> m \<le> 2 * p" using assms by (simp only: p2 p)
  then consider "s = 0" "m < p" | "p \<le> m" "m < 2 * p" | "m = 2 * p" by linarith
  then have "f64_mag (m + s * p) = m * 2 ^ s"
  proof cases
    case 2
    then obtain f where f: "m = p + f" "f < p" by (metis le_Suc_ex add_less_cancel_left mult_2)
    then have "m + s * p = f + Suc s * p" by simp
    then have "(m + s * p) div p = Suc s" "(m + s * p) mod p = f" using f(2) p0 by (simp_all only: div_mult_self1 mod_mult_self1) simp_all
    then show ?thesis using f 2 by (simp add: mag)
  next
    case 3
    then have "m + s * p = (s + 2) * p" by simp
    then have "(m + s * p) div p = s + 2" "(m + s * p) mod p = 0" using p0 by simp_all
    then show ?thesis using 3 p0 by (simp add: mag)
  qed (simp add: mag)
  then show ?thesis by (simp only: p)
qed

lemma bit_len_shift_left: "0 < m \<Longrightarrow> bit_len (m * 2 ^ j) = bit_len m + j"
proof (induction j)
  case (Suc j)
  have "bit_len (m * 2 ^ Suc j) = Suc (bit_len (m * 2 ^ j))" using Suc.prems by (subst bit_len.simps) simp
  then show ?case using Suc by simp
qed simp

text \<open>Rounding is exact where 53 bits are enough.\<close>

lemma f64_round_exact:
  assumes m: "0 < m" "m < 2 ^ 53" and n: "m * 2 ^ j < f64_mag F64_INF"
  shows "\<not> f64_is_nan (f64_round neg (m * 2 ^ j) 1)" "f64_val (f64_round neg (m * 2 ^ j) 1) = (if neg then - int (m * 2 ^ j) else int (m * 2 ^ j))"
proof -
  let ?n = "m * 2 ^ j"
  define s where "s = bit_len ?n - 53"
  have len: "bit_len ?n = bit_len m + j" by (rule bit_len_shift_left [OF m(1)])
  have "bit_len m \<le> 53" by (rule bit_len_le) (use m(2) in simp)
  then have s: "s \<le> j" using len by (simp add: s_def)
  then have q: "?n = (m * 2 ^ (j - s)) * 2 ^ s" by (simp flip: power_add)
  then have r: "round_quot ?n (2 ^ s) = m * 2 ^ (j - s)" unfolding round_quot_def q by (simp del: mult_cancel1)
  have up: "m * 2 ^ (j - s) < 2 ^ (bit_len m + (j - s))" using bit_len_upper [of m] by (simp add: power_add)
  have lo: "2 ^ (bit_len m - 1) * 2 ^ (j - s) \<le> m * 2 ^ (j - s)" using bit_len_lower [OF m(1)] by simp
  have "s = 0 \<and> m * 2 ^ (j - s) \<le> 2 ^ 53 \<or> 2 ^ 52 \<le> m * 2 ^ (j - s) \<and> m * 2 ^ (j - s) \<le> 2 ^ 53"
  proof (cases "s = 0")
    case True
    then have "bit_len m + j \<le> 53" using len by (simp add: s_def)
    then have "(2 :: nat) ^ (bit_len m + (j - s)) \<le> 2 ^ 53" using True by (intro power_increasing) simp_all
    then show ?thesis using up True by simp
  next
    case False
    then have "bit_len m + (j - s) = 53" using len s by (simp add: s_def)
    moreover obtain l where "bit_len m = Suc l" using m(1) bit_len_upper [of m] by (cases "bit_len m") auto
    ultimately have "bit_len m - 1 + (j - s) = 52" by simp
    then have "(2 :: nat) ^ 52 = 2 ^ (bit_len m - 1) * 2 ^ (j - s)" by (metis power_add)
    then show ?thesis using up lo \<open>bit_len m + (j - s) = 53\<close> by simp
  qed
  then have mag: "f64_mag (m * 2 ^ (j - s) + s * 2 ^ 52) = ?n" using f64_mag_scaled q by metis
  then have small: "m * 2 ^ (j - s) + s * 2 ^ 52 < F64_INF" using n f64_mag_less by metis
  have low: "f64_round neg ?n 1 = f64_make neg (m * 2 ^ (j - s) + s * 2 ^ 52)"
    using small r unfolding f64_round_def s_def [symmetric] div_by_1 mult_1 by (simp add: s_def [symmetric])
  have "m * 2 ^ (j - s) + s * 2 ^ 52 < F64_SIGN" using small by simp
  note parts = f64_make_parts [OF this]
  show "\<not> f64_is_nan (f64_round neg ?n 1)" using small unfolding low f64_is_nan_def parts by simp
  show "f64_val (f64_round neg ?n 1) = (if neg then - int ?n else int ?n)" unfolding low f64_val_def parts mag ..
qed

lemma f64_of_i64_exact:
  assumes "\<bar>sint i\<bar> \<le> 2 ^ 53"
  shows "\<not> f64_is_nan (f64_of_i64 i)" "f64_val (f64_of_i64 i) = sint i * int f64_unit"
proof -
  let ?k = "nat \<bar>sint i\<bar>"
  have inf: "f64_mag F64_INF = 2 ^ 2098" by (simp add: f64_mag_def)
  have "\<exists>m j. 0 < m \<and> m < 2 ^ 53 \<and> ?k * f64_unit = m * 2 ^ j \<and> j \<le> 1075" if "?k \<noteq> 0"
  proof (cases "?k = 2 ^ 53")
    case True
    then have "?k * f64_unit = 2 ^ 52 * 2 ^ 1075" unfolding True f64_unit_def by simp
    moreover have "(0 :: nat) < 2 ^ 52" "(2 :: nat) ^ 52 < 2 ^ 53" "(1075 :: nat) \<le> 1075" by simp_all
    ultimately show ?thesis by blast
  next
    case False
    then have "?k < 2 ^ 53" using assms by simp
    moreover have "0 < ?k" "(1074 :: nat) \<le> 1075" using that by simp_all
    moreover have "?k * f64_unit = ?k * 2 ^ 1074" by (simp only: f64_unit_def)
    ultimately show ?thesis by blast
  qed
  then consider "?k = 0" | m j where "0 < m" "m < 2 ^ 53" "?k * f64_unit = m * 2 ^ j" "j \<le> 1075" by blast
  then have "\<not> f64_is_nan (f64_of_i64 i) \<and> f64_val (f64_of_i64 i) = sint i * int f64_unit"
  proof cases
    case 1
    have b0: "bit_len 0 = 0" by (subst bit_len.simps) simp
    have "f64_of_i64 i = 0" using 1 by (simp add: b0 f64_of_i64_def f64_round_def round_quot_def f64_make_def)
    then show ?thesis using 1 by (simp add: f64_is_nan_def f64_low_def f64_val_def f64_mag_def)
  next
    case (2 m j)
    have "m * 2 ^ j < 2 ^ 53 * 2 ^ j" using 2(2) by simp
    also have "\<dots> \<le> 2 ^ 53 * 2 ^ 1075" using 2(4) by (intro mult_left_mono power_increasing) simp_all
    also have "\<dots> \<le> f64_mag F64_INF" unfolding inf by simp
    finally have "m * 2 ^ j < f64_mag F64_INF" .
    note ex = f64_round_exact [OF 2(1,2) this, of "sint i < 0"]
    have "int (?k * f64_unit) = \<bar>sint i\<bar> * int f64_unit" by simp
    then show ?thesis using ex unfolding f64_of_i64_def 2(3) [symmetric] by (auto split: if_splits)
  qed
  then show "\<not> f64_is_nan (f64_of_i64 i)" "f64_val (f64_of_i64 i) = sint i * int f64_unit" by blast+
qed


section \<open>Rounding to integers\<close>

lemma saturate_id: "- (2 ^ 63) \<le> x \<Longrightarrow> x < 2 ^ 63 \<Longrightarrow> sint (saturate_i64 x) = x"
  by (simp add: saturate_i64_def signed_of_int signed_take_bit_int_eq_self)

lemma f64_unit_pos [simp]: "0 < f64_unit"
  by (simp add: f64_unit_def)

lemma f64_unit_nonzero [simp]: "f64_unit \<noteq> 0"
  by (simp add: f64_unit_def)

text \<open>Truncation is the integer next to the number on the side of zero.\<close>

lemma f64_trunc_val: "f64_trunc b = (if f64_val b < 0 then - (- f64_val b div int f64_unit) else f64_val b div int f64_unit)"
  proof -
  have "0 < f64_mag (f64_low b) \<or> f64_mag (f64_low b) = 0" by blast
  then show ?thesis by (auto simp: f64_trunc_def f64_val_def zdiv_int simp del: f64_mag_0)
qed

lemma f64_trunc_bounds:
  "0 \<le> f64_val b \<Longrightarrow> f64_trunc b * int f64_unit \<le> f64_val b \<and> f64_val b < (f64_trunc b + 1) * int f64_unit"
  "f64_val b < 0 \<Longrightarrow> (f64_trunc b - 1) * int f64_unit < f64_val b \<and> f64_val b \<le> f64_trunc b * int f64_unit"
proof -
  have "x div int f64_unit * int f64_unit \<le> x \<and> x < (x div int f64_unit + 1) * int f64_unit" for x
    using pos_mod_sign [of "int f64_unit" x] pos_mod_bound [of "int f64_unit" x] div_mult_mod_eq [of x "int f64_unit"] f64_unit_pos
    unfolding distrib_right of_nat_0_less_iff by linarith
  from this [of "f64_val b"] this [of "- f64_val b"]
  show "0 \<le> f64_val b \<Longrightarrow> f64_trunc b * int f64_unit \<le> f64_val b \<and> f64_val b < (f64_trunc b + 1) * int f64_unit"
    "f64_val b < 0 \<Longrightarrow> (f64_trunc b - 1) * int f64_unit < f64_val b \<and> f64_val b \<le> f64_trunc b * int f64_unit"
    by (auto simp: f64_trunc_val algebra_simps)
qed

lemma f64_neg_parts: "f64_neg_bit (f64_neg b) \<longleftrightarrow> \<not> f64_neg_bit b" "f64_low (f64_neg b) = f64_low b"
proof -
  have "int (unat (f64_neg b)) = sint b + 9223372036854775808" unfolding f64_neg_def xor_top by (rule unat_plus_top)
  then have u: "unat (f64_neg b) = (if f64_neg_bit b then 0 else F64_SIGN) + f64_low b"
    using unat_f64 [of b] f64_low_less [of b] by (auto simp: sint_u64 simp del: of_nat_unat split: if_splits)
  then show "f64_neg_bit (f64_neg b) \<longleftrightarrow> \<not> f64_neg_bit b" "f64_low (f64_neg b) = f64_low b"
    using f64_low_less [of b] by (simp_all add: f64_neg_bit_def [of "f64_neg b"] f64_low_def [of "f64_neg b"])
qed

lemma f64_neg_val [simp]: "f64_val (f64_neg b) = - f64_val b" "f64_is_nan (f64_neg b) = f64_is_nan b"
  by (simp_all add: f64_val_def f64_is_nan_def f64_neg_parts)

lemma f64_cmp_iff:
  assumes "\<not> f64_is_nan a" "\<not> f64_is_nan b"
  shows "f64_lt a b \<longleftrightarrow> f64_val a < f64_val b" "f64_eq a b \<longleftrightarrow> f64_val a = f64_val b" "f64_le a b \<longleftrightarrow> f64_val a \<le> f64_val b"
  using assms by (auto simp: f64_lt_def f64_eq_def f64_le_def f64_partial_cmp_def)

text \<open>A whole double is its truncation; an integer multiple of the unit is whole.\<close>

lemma f64_whole_val: "f64_whole d \<Longrightarrow> f64_val d = f64_trunc d * int f64_unit"
proof -
  assume "f64_whole d"
  then have "f64_mag (f64_low d) = f64_mag (f64_low d) div f64_unit * f64_unit" by (auto simp: f64_whole_def)
  then have "int (f64_mag (f64_low d)) = int (f64_mag (f64_low d) div f64_unit) * int f64_unit" by (metis of_nat_mult)
  then show ?thesis by (simp add: f64_val_def f64_trunc_def)
qed

lemma f64_trunc_unique: "f64_val d = x * int f64_unit \<Longrightarrow> f64_trunc d = x"
  using nonzero_mult_div_cancel_right [of "int f64_unit" "- x"] f64_unit_pos by (simp add: f64_trunc_val)

lemma f64_wholeI: "f64_val d = x * int f64_unit \<Longrightarrow> f64_finite d \<Longrightarrow> f64_whole d"
proof -
  assume v: "f64_val d = x * int f64_unit" and f: "f64_finite d"
  have "int f64_unit dvd f64_val d" by (simp add: v)
  then have "int f64_unit dvd int (f64_mag (f64_low d))" by (simp add: f64_val_def del: int_dvd_int_iff split: if_splits)
  then show ?thesis using f by (simp add: f64_whole_def)
qed

lemma f64_infinite: "\<not> f64_finite d \<Longrightarrow> \<not> f64_is_nan d \<Longrightarrow> 2 ^ 64 * int f64_unit \<le> \<bar>f64_val d\<bar>"
proof -
  assume "\<not> f64_finite d" "\<not> f64_is_nan d"
  then have "f64_low d = F64_INF" by (simp add: f64_finite_def f64_is_nan_def)
  moreover have "f64_mag F64_INF = 2 ^ 1024 * f64_unit" by (simp add: f64_mag_def f64_unit_def)
  ultimately have "int (f64_mag (f64_low d)) = 2 ^ 1024 * int f64_unit" by (simp only: of_nat_mult of_nat_power of_nat_numeral)
  moreover have "(2 :: int) ^ 64 * int f64_unit \<le> 2 ^ 1024 * int f64_unit" by (intro mult_right_mono power_increasing) simp_all
  ultimately show ?thesis unfolding f64_val_def by simp
qed

text \<open>Beyond 53 bits a double has no fraction.\<close>

lemma f64_big_whole:
  assumes "f64_finite d" "2 ^ 53 * f64_unit \<le> f64_mag (f64_low d)"
  shows "f64_whole d"
proof -
  obtain p where p: "p = (2 :: nat) ^ 52" by blast
  have mag: "f64_mag x = (if x < p then x else (p + x mod p) * 2 ^ (x div p - 1))" for x
    by (simp only: f64_mag_def p)
  have p2: "(2 :: nat) ^ 53 = 2 * p" by (simp add: p)
  let ?n = "f64_low d"
  have big: "2 * p * f64_unit \<le> f64_mag ?n" using assms(2) by (simp only: p2)
  have u1: "1 \<le> f64_unit" by (simp add: Suc_le_eq)
  have "0 < p" by (simp add: p)
  have "2 * p * 1 \<le> 2 * p * f64_unit" using u1 by (rule mult_le_mono2)
  then have "2 * p \<le> f64_mag ?n" using big by linarith
  then have n: "\<not> ?n < p" using \<open>0 < p\<close> by (auto simp: mag)
  have e: "1074 \<le> ?n div p - 1"
  proof (rule ccontr)
    assume "\<not> 1074 \<le> ?n div p - 1"
    then have "(2 :: nat) ^ (?n div p - 1) \<le> 2 ^ 1073" by (intro power_increasing) simp_all
    then have "(p + ?n mod p) * 2 ^ (?n div p - 1) \<le> (p + ?n mod p) * 2 ^ 1073" by (rule mult_le_mono2)
    then have "f64_mag ?n \<le> (p + ?n mod p) * 2 ^ 1073" using n by (simp only: mag if_False)
    also have "\<dots> < (p + p) * 2 ^ 1073" using \<open>0 < p\<close> by (intro mult_strict_right_mono) simp_all
    also have "\<dots> = p * f64_unit" by (simp add: f64_unit_def)
    finally show False using big by simp
  qed
  then have "f64_unit dvd 2 ^ (?n div p - 1)" unfolding f64_unit_def by (rule le_imp_power_dvd)
  then have "f64_unit dvd (p + ?n mod p) * 2 ^ (?n div p - 1)" by (rule dvd_mult)
  then have "f64_unit dvd f64_mag ?n" using n by (simp only: mag if_False)
  then show ?thesis using assms(1) by (simp add: f64_whole_def)
qed

end
