(* ===== verification/Sql_Eval.thy ===== *)
theory Sql_Eval
  imports Float64
begin

text \<open>
  The SQL layer's expressions: comparing numbers of different types (\<^verbatim>\<open>squeal-sql/src/numeric.rs\<close>),
  operators with NULL (\<^verbatim>\<open>plan/eval.rs\<close>), the scalar functions (\<^verbatim>\<open>plan/funcs.rs\<close>), the answers of
  subqueries (\<^verbatim>\<open>plan/subquery.rs\<close>), and the rewritings a plan makes: folding constants, binding
  parameters, moving an expression to a narrower row.

  Aggregates, which carry state from row to row, are not expressions here. A call's arguments are
  those of \<^verbatim>\<open>FuncArgs::Field\<close>; the constructors of the calls refuse the wildcard. A panic of the
  code is the error \<open>panic\<close>. Case mapping and the printing of values (\<^verbatim>\<open>to_uppercase\<close>, \<^verbatim>\<open>to_lowercase\<close>,
  \<^verbatim>\<open>Display\<close>) are parameters.
\<close>

section \<open>Errors and operators\<close>

text \<open>Of \<^verbatim>\<open>SchemaError\<close>, what these files return; of a message, the words that tell two errors apart.\<close>

datatype schema_error =
    InternalSchemaError string
  | InvalidOperationOnOperand string string
  | UnknownFunction string
  | UserError string

abbreviation (input) panic :: schema_error where "panic \<equiv> InternalSchemaError ''panic''"

datatype unary_op = UnPlus | UnMinus | UnNot

datatype binary_op =
    Plus | Minus | Multiply | Divide | Modulo | Concat
  | Eq | NotEq | Lt | LtEq | Gt | GtEq | And | Or

fun unary_name :: "unary_op \<Rightarrow> string" where
  "unary_name UnPlus = ''Plus''"
| "unary_name UnMinus = ''Minus''"
| "unary_name UnNot = ''Not''"

fun op_name :: "binary_op \<Rightarrow> string" where
  "op_name Plus = ''Plus''"
| "op_name Minus = ''Minus''"
| "op_name Multiply = ''Multiply''"
| "op_name Divide = ''Divide''"
| "op_name Modulo = ''Modulo''"
| "op_name Concat = ''Concat''"
| "op_name Eq = ''Eq''"
| "op_name NotEq = ''NotEq''"
| "op_name Lt = ''Lt''"
| "op_name LtEq = ''LtEq''"
| "op_name Gt = ''Gt''"
| "op_name GtEq = ''GtEq''"
| "op_name And = ''And''"
| "op_name Or = ''Or''"

section \<open>Numbers of two types\<close>

definition TWO_63 :: f64 where
  "TWO_63 = 0x43E0000000000000"

definition cmp_int_double :: "i64 \<Rightarrow> f64 \<Rightarrow> ordering option" where
  "cmp_int_double i d =
     (if f64_is_nan d then None
      else if f64_le TWO_63 d then Some Less
      else if f64_lt d (f64_neg TWO_63) then Some Greater
      else let t = f64_trunc d in
        Some (case ord_cmp (sint i) (sint (saturate_i64 t)) of
          Equal \<Rightarrow> ord_cmp 0 (f64_val d - t * int f64_unit)
        | other \<Rightarrow> other))"

fun cmp_mixed :: "value_item \<Rightarrow> value_item \<Rightarrow> ordering option option" where
  "cmp_mixed (Integer i) (Double d) = Some (cmp_int_double i d)"
| "cmp_mixed (Double d) (Integer i) = Some (map_option reverse_ord (cmp_int_double i d))"
| "cmp_mixed _ _ = None"

definition hash_normalized :: "value_item \<Rightarrow> value_item option" where
  "hash_normalized v =
     (case v of
        Double d \<Rightarrow> if f64_whole d \<and> f64_le (f64_neg TWO_63) d \<and> f64_lt d TWO_63 then Some (Integer (f64_as_i64 d)) else None
      | _ \<Rightarrow> None)"

section \<open>Operators on values\<close>

text \<open>\<^verbatim>\<open>-d\<close> on an integer wraps; built with overflow checks it panics on the least one.\<close>

fun unary :: "value_item \<Rightarrow> unary_op \<Rightarrow> schema_error + value_item" where
  "unary (Blob _ _) op = Inl (InvalidOperationOnOperand (unary_name op) '' blob/string/date'')"
| "unary (Str _ _) op = Inl (InvalidOperationOnOperand (unary_name op) '' blob/string/date'')"
| "unary (Datetime _) op = Inl (InvalidOperationOnOperand (unary_name op) '' blob/string/date'')"
| "unary (Boolean b) op =
     (if op = UnNot then Inr (Boolean (\<not> b)) else Inl (InvalidOperationOnOperand (unary_name op) ''boolean''))"
| "unary (Double d) op =
     (if op = UnMinus then Inr (Double (f64_neg d)) else if op = UnPlus then Inr (Double d)
      else Inl (InvalidOperationOnOperand ''not'' ''double''))"
| "unary (Integer d) op =
     (if op = UnMinus then Inr (Integer (- d)) else if op = UnPlus then Inr (Integer d)
      else Inl (InvalidOperationOnOperand ''not'' ''integer''))"
| "unary Null op = Inr Null"

text \<open>\<^verbatim>\<open>i64::checked_add\<close> and the like, and \<^verbatim>\<open>checked_div\<close> and \<^verbatim>\<open>checked_rem\<close>, which round to zero.\<close>

definition checked :: "int \<Rightarrow> i64 option" where
  "checked x = (if - (2 ^ 63) \<le> x \<and> x < 2 ^ 63 then Some (word_of_int x) else None)"

definition quot_to_zero :: "int \<Rightarrow> int \<Rightarrow> int" where
  "quot_to_zero a b = sgn a * sgn b * (\<bar>a\<bar> div \<bar>b\<bar>)"

fun int_op :: "binary_op \<Rightarrow> i64 \<Rightarrow> i64 \<Rightarrow> i64 option" where
  "int_op Plus a b = checked (sint a + sint b)"
| "int_op Minus a b = checked (sint a - sint b)"
| "int_op Multiply a b = checked (sint a * sint b)"
| "int_op Divide a b = (if b = 0 then None else checked (quot_to_zero (sint a) (sint b)))"
| "int_op Modulo a b = (if b = 0 \<or> checked (quot_to_zero (sint a) (sint b)) = None then None
     else checked (sint a - quot_to_zero (sint a) (sint b) * sint b))"
| "int_op _ a b = None"

fun float_op :: "binary_op \<Rightarrow> f64 \<Rightarrow> f64 \<Rightarrow> f64" where
  "float_op Plus = f64_add"
| "float_op Minus = f64_sub"
| "float_op Multiply = f64_mul"
| "float_op Divide = f64_div"
| "float_op Modulo = f64_rem"
| "float_op _ = (\<lambda>a b. a)"

definition numeric :: "value_item \<Rightarrow> value_item \<Rightarrow> binary_op \<Rightarrow> string \<Rightarrow> schema_error + value_item" where
  "numeric lhs rhs op int_err =
     (case (lhs, rhs) of
        (Integer a, Integer b) \<Rightarrow> (case int_op op a b of
            Some x \<Rightarrow> Inr (Integer x) | None \<Rightarrow> Inl (InvalidOperationOnOperand (op_name op) int_err))
      | (Double a, Double b) \<Rightarrow> Inr (Double (float_op op a b))
      | (Integer a, Double b) \<Rightarrow> Inr (Double (float_op op (f64_of_i64 a) b))
      | (Double a, Integer b) \<Rightarrow> Inr (Double (float_op op a (f64_of_i64 b)))
      | _ \<Rightarrow> Inl (InvalidOperationOnOperand (op_name op) ''non-numeric operand''))"

fun type_name :: "value_item \<Rightarrow> string" where
  "type_name Null = ''null''"
| "type_name (Integer _) = ''integer''"
| "type_name (Double _) = ''double''"
| "type_name (Datetime _) = ''datetime''"
| "type_name (Str _ _) = ''string''"
| "type_name (Blob _ _) = ''blob''"
| "type_name (Boolean _) = ''boolean''"

definition same_type :: "value_item \<Rightarrow> value_item \<Rightarrow> binary_op \<Rightarrow> schema_error + unit" where
  "same_type lhs rhs op =
     (if type_rank lhs = type_rank rhs then Inr ()
      else Inl (InvalidOperationOnOperand (op_name op)
        (''cannot compare different data types ('' @ type_name lhs @ '' and '' @ type_name rhs @ '')'')))"

definition values_equal :: "value_item \<Rightarrow> value_item \<Rightarrow> binary_op \<Rightarrow> schema_error + bool" where
  "values_equal lhs rhs op =
     (case cmp_mixed lhs rhs of
        Some ord \<Rightarrow> Inr (ord = Some Equal)
      | None \<Rightarrow> r_bind (same_type lhs rhs op) (\<lambda>_. Inr (case (lhs, rhs) of
            (Double a, Double b) \<Rightarrow> f64_eq a b
          | (Str a _, Str b _) \<Rightarrow> a = b
          | (Blob a _, Blob b _) \<Rightarrow> a = b
          | _ \<Rightarrow> value_eq lhs rhs)))"

definition sql_compare :: "value_item \<Rightarrow> value_item \<Rightarrow> binary_op \<Rightarrow> schema_error + ordering" where
  "sql_compare lhs rhs op =
     (case cmp_mixed lhs rhs of
        Some ord \<Rightarrow> ok_or (InvalidOperationOnOperand (op_name op) ''NaN'') ord
      | None \<Rightarrow> r_bind (same_type lhs rhs op) (\<lambda>_. case (lhs, rhs) of
            (Integer a, Integer b) \<Rightarrow> Inr (ord_cmp (sint a) (sint b))
          | (Datetime a, Datetime b) \<Rightarrow> Inr (ord_cmp a b)
          | (Str a _, Str b _) \<Rightarrow> Inr (slice_cmp a b)
          | (Boolean a, Boolean b) \<Rightarrow> Inr (ord_cmp a b)
          | (Double a, Double b) \<Rightarrow> ok_or (InvalidOperationOnOperand (op_name op) ''NaN'') (f64_partial_cmp a b)
          | _ \<Rightarrow> Inl (InvalidOperationOnOperand (op_name op) ''mismatched or unorderable operand types'')))"

text \<open>The truth value of an operand of AND and OR, \<open>None\<close> for NULL.\<close>

definition truth :: "binary_op \<Rightarrow> value_item \<Rightarrow> schema_error + bool option" where
  "truth op v =
     (case v of
        Boolean b \<Rightarrow> Inr (Some b)
      | Null \<Rightarrow> Inr None
      | _ \<Rightarrow> Inl (InvalidOperationOnOperand (op_name op) ''non-boolean operand''))"

definition logic :: "value_item \<Rightarrow> value_item \<Rightarrow> binary_op \<Rightarrow> schema_error + value_item" where
  "logic lhs rhs op =
     r_bind (truth op lhs) (\<lambda>l. r_bind (truth op rhs) (\<lambda>r.
       let decisive = (op = Or) in
       Inr (if l = Some decisive \<or> r = Some decisive then Boolean decisive
            else if l = None \<or> r = None then Null
            else Boolean (\<not> decisive))))"

definition as_bool :: "(ordering \<Rightarrow> bool) \<Rightarrow> schema_error + ordering \<Rightarrow> schema_error + value_item" where
  "as_bool f r = r_bind r (\<lambda>c. Inr (Boolean (f c)))"

definition binary :: "value_item \<Rightarrow> value_item \<Rightarrow> binary_op \<Rightarrow> schema_error + value_item" where
  "binary lhs rhs op =
     (if op = And \<or> op = Or then logic lhs rhs op
      else if lhs = Null \<or> rhs = Null then Inr Null
      else case op of
          Plus \<Rightarrow> numeric lhs rhs op ''integer overflow''
        | Minus \<Rightarrow> numeric lhs rhs op ''integer overflow''
        | Multiply \<Rightarrow> numeric lhs rhs op ''integer overflow''
        | Divide \<Rightarrow> numeric lhs rhs op ''division by zero''
        | Modulo \<Rightarrow> numeric lhs rhs op ''division by zero''
        | Concat \<Rightarrow> (case (lhs, rhs) of
              (Str a _, Str b _) \<Rightarrow> (let s = a @ b in Inr (Str s (word_of_nat (length s))))
            | _ \<Rightarrow> Inl (InvalidOperationOnOperand (op_name op) ''non-string operand''))
        | Eq \<Rightarrow> r_bind (values_equal lhs rhs op) (\<lambda>b. Inr (Boolean b))
        | NotEq \<Rightarrow> r_bind (values_equal lhs rhs op) (\<lambda>b. Inr (Boolean (\<not> b)))
        | Lt \<Rightarrow> as_bool (\<lambda>c. c = Less) (sql_compare lhs rhs op)
        | LtEq \<Rightarrow> as_bool (\<lambda>c. c \<noteq> Greater) (sql_compare lhs rhs op)
        | Gt \<Rightarrow> as_bool (\<lambda>c. c = Greater) (sql_compare lhs rhs op)
        | GtEq \<Rightarrow> as_bool (\<lambda>c. c \<noteq> Less) (sql_compare lhs rhs op)
        | _ \<Rightarrow> logic lhs rhs op)"

section \<open>Functions\<close>

text \<open>A string's characters, as code points.\<close>

fun utf8_chars :: "bytes \<Rightarrow> nat list" where
  "utf8_chars [] = []"
| "utf8_chars (a # bs) =
     (if a < 0x80 then unat a # utf8_chars bs
      else if a < 0xE0 then
        (case bs of b # cs \<Rightarrow> (unat a mod 32 * 64 + unat b mod 64) # utf8_chars cs | _ \<Rightarrow> [])
      else if a < 0xF0 then
        (case bs of b # c # cs \<Rightarrow> (unat a mod 16 * 4096 + unat b mod 64 * 64 + unat c mod 64) # utf8_chars cs | _ \<Rightarrow> [])
      else
        (case bs of b # c # d # cs \<Rightarrow>
           (unat a mod 8 * 262144 + unat b mod 64 * 4096 + unat c mod 64 * 64 + unat d mod 64) # utf8_chars cs
         | _ \<Rightarrow> []))"

abbreviation (input) PERCENT :: nat where "PERCENT \<equiv> 37"
abbreviation (input) UNDERSCORE :: nat where "UNDERSCORE \<equiv> 95"

text \<open>The loop of \<^verbatim>\<open>like_matches\<close>; it ends on every text and pattern (\<open>like_matches_spec\<close>).\<close>

partial_function (option) like_loop :: "nat list \<Rightarrow> nat list \<Rightarrow> nat \<Rightarrow> nat \<Rightarrow> (nat \<times> nat) option \<Rightarrow> bool option" where
  "like_loop t p ti pi star =
     (if ti < length t then
        if pi < length p \<and> (p ! pi = UNDERSCORE \<or> (p ! pi \<noteq> PERCENT \<and> p ! pi = t ! ti)) then
          like_loop t p (ti + 1) (pi + 1) star
        else if pi < length p \<and> p ! pi = PERCENT then
          like_loop t p ti (pi + 1) (Some (pi, ti))
        else (case star of
            Some (sp, st) \<Rightarrow> like_loop t p (st + 1) (sp + 1) (Some (sp, st + 1))
          | None \<Rightarrow> Some False)
      else Some (\<forall>c \<in> set (drop pi p). c = PERCENT))"

definition like_matches :: "nat list \<Rightarrow> nat list \<Rightarrow> bool option" where
  "like_matches t p = like_loop t p 0 0 None"

text \<open>What the standard library does to text.\<close>

record text_env =
  te_upper :: "bytes \<Rightarrow> bytes"
  te_lower :: "bytes \<Rightarrow> bytes"
  te_display :: "value_item \<Rightarrow> bytes"

datatype scalar_kind = Coalesce | Like bool bool | Case bool bool

datatype func_obj = Upper | Lower | ConcatFn | Scalar scalar_kind | Abs | IsNull | IsNotNull

text \<open>The checks of the calls' constructors on the number of arguments.\<close>

definition func_arity_ok :: "func_obj \<Rightarrow> nat \<Rightarrow> bool" where
  "func_arity_ok f n =
     (case f of
        ConcatFn \<Rightarrow> 2 \<le> n
      | Scalar Coalesce \<Rightarrow> n \<noteq> 0
      | Scalar (Like _ _) \<Rightarrow> n = 2
      | Scalar (Case operand otherwise) \<Rightarrow>
          (let pairs = n - of_bool operand - of_bool otherwise in 2 \<le> pairs \<and> even pairs)
      | _ \<Rightarrow> n = 1)"

definition str_value :: "bytes \<Rightarrow> value_item" where
  "str_value s = Str s (word_of_nat (length s))"

fun concat_loop :: "text_env \<Rightarrow> (schema_error + value_item) list \<Rightarrow> bytes \<Rightarrow> schema_error + value_item" where
  "concat_loop T [] out = Inr (str_value out)"
| "concat_loop T (r # rs) out =
     r_bind r (\<lambda>v. case v of
         Null \<Rightarrow> Inr Null
       | Str s _ \<Rightarrow> concat_loop T rs (out @ s)
       | other \<Rightarrow> concat_loop T rs (out @ te_display T other))"

fun all_ok :: "('e + 'a) list \<Rightarrow> 'e + 'a list" where
  "all_ok [] = Inr []"
| "all_ok (r # rs) = r_bind r (\<lambda>v. r_bind (all_ok rs) (\<lambda>vs. Inr (v # vs)))"

fun case_loop :: "value_item option \<Rightarrow> value_item list \<Rightarrow> value_item option \<Rightarrow> schema_error + value_item" where
  "case_loop subject (cond # val # rest) otherwise =
     r_bind (case subject of Some s \<Rightarrow> binary s cond Eq | None \<Rightarrow> Inr cond) (\<lambda>hit.
       if value_eq hit (Boolean True) then Inr val else case_loop subject rest otherwise)"
| "case_loop subject [cond] otherwise =
     r_bind (case subject of Some s \<Rightarrow> binary s cond Eq | None \<Rightarrow> Inr cond) (\<lambda>hit.
       if value_eq hit (Boolean True) then Inl panic else Inr (case otherwise of Some v \<Rightarrow> v | None \<Rightarrow> Null))"
| "case_loop subject [] otherwise = Inr (case otherwise of Some v \<Rightarrow> v | None \<Rightarrow> Null)"

fun scalar_call :: "text_env \<Rightarrow> scalar_kind \<Rightarrow> value_item list \<Rightarrow> schema_error + value_item" where
  "scalar_call T Coalesce vs = Inr (case find (\<lambda>v. \<not> value_eq v Null) vs of Some v \<Rightarrow> v | None \<Rightarrow> Null)"
| "scalar_call T (Like negated insensitive) vs =
     (case vs of
        a # b # _ \<Rightarrow>
          (if a = Null \<or> b = Null then Inr Null
           else case (a, b) of
              (Str t _, Str p _) \<Rightarrow>
                (let hit = (if insensitive then like_matches (utf8_chars (te_lower T t)) (utf8_chars (te_lower T p))
                            else like_matches (utf8_chars t) (utf8_chars p))
                 in Inr (Boolean ((hit = Some True) \<noteq> negated)))
            | _ \<Rightarrow> Inl (InvalidOperationOnOperand ''like'' ''LIKE compares strings''))
      | _ \<Rightarrow> Inl panic)"
| "scalar_call T (Case operand otherwise) vs =
     (let subject = (if operand then (case vs of v # _ \<Rightarrow> Some v | [] \<Rightarrow> None) else None);
          rest = (if operand then tl vs else vs);
          else_value = (if otherwise \<and> rest \<noteq> [] then Some (last rest) else None);
          rest = (if otherwise then butlast rest else rest)
      in case_loop subject rest else_value)"

text \<open>The calls of one argument, on its value.\<close>

fun unary_call :: "text_env \<Rightarrow> func_obj \<Rightarrow> value_item \<Rightarrow> schema_error + value_item" where
  "unary_call T Upper v =
     (case v of Str s _ \<Rightarrow> Inr (str_value (te_upper T s)) | Null \<Rightarrow> Inr Null
      | _ \<Rightarrow> Inl (InvalidOperationOnOperand ''upper'' ''non-string operand''))"
| "unary_call T Lower v =
     (case v of Str s _ \<Rightarrow> Inr (str_value (te_lower T s)) | Null \<Rightarrow> Inr Null
      | _ \<Rightarrow> Inl (InvalidOperationOnOperand ''lower'' ''non-string operand''))"
| "unary_call T Abs v =
     (case v of
        Integer i \<Rightarrow> (case checked \<bar>sint i\<bar> of
            Some x \<Rightarrow> Inr (Integer x) | None \<Rightarrow> Inl (InvalidOperationOnOperand ''abs'' ''out of range''))
      | Double d \<Rightarrow> Inr (Double (if f64_neg_bit d then f64_neg d else d))
      | Null \<Rightarrow> Inr Null
      | _ \<Rightarrow> Inl (InvalidOperationOnOperand ''abs'' ''''))"
| "unary_call T IsNull v = Inr (Boolean (value_eq v Null))"
| "unary_call T IsNotNull v = Inr (Boolean (\<not> value_eq v Null))"
| "unary_call T _ v = Inl panic"

text \<open>\<^verbatim>\<open>FuncTrait::eval\<close> on what the arguments evaluate to.\<close>

fun call :: "text_env \<Rightarrow> func_obj \<Rightarrow> (schema_error + value_item) list \<Rightarrow> schema_error + value_item" where
  "call T ConcatFn rs = concat_loop T rs []"
| "call T (Scalar k) rs = r_bind (all_ok rs) (scalar_call T k)"
| "call T f rs = (case rs of r # _ \<Rightarrow> r_bind r (unary_call T f) | [] \<Rightarrow> Inl panic)"

section \<open>Subqueries\<close>

datatype subquery_kind = Exists | In | ScalarValue

record group =
  gp_values :: "value_item list"
  gp_has_null :: bool
  gp_value :: "value_item option"

text \<open>A map from keys to groups, as the list of its entries; keys are equal when their values are.\<close>

record subquery_data =
  sd_kind :: subquery_kind
  sd_in_lhs :: bool
  sd_groups :: "(value_item list \<times> group) list"

definition normalize :: "value_item \<Rightarrow> value_item" where
  "normalize v =
     (case v of
        Double d \<Rightarrow>
          if f64_whole d \<and> f64_le (f64_of_i64 0x8000000000000000) d \<and> f64_lt d (f64_of_i64 0x7FFFFFFFFFFFFFFF)
          then Integer (f64_as_i64 d) else v
      | _ \<Rightarrow> v)"

definition group_of :: "subquery_data \<Rightarrow> value_item list \<Rightarrow> group option" where
  "group_of s key = map_option snd (find (\<lambda>(k, _). list_all2 value_eq k key) (sd_groups s))"

definition answer :: "subquery_data \<Rightarrow> value_item list \<Rightarrow> value_item" where
  "answer s operands =
     (let n = of_bool (sd_in_lhs s);
          key = drop n operands;
          operands = take n operands;
          group = (if Null \<in> set key then None else group_of s (map normalize key))
      in case sd_kind s of
           Exists \<Rightarrow> Boolean (group \<noteq> None)
         | ScalarValue \<Rightarrow> (case Option.bind group gp_value of Some v \<Rightarrow> v | None \<Rightarrow> Null)
         | In \<Rightarrow> (case group of
               None \<Rightarrow> Boolean False
             | Some g \<Rightarrow>
                 (let v = (if operands = [] then Null else last operands)
                  in if v = Null then Null
                     else if \<exists>x \<in> set (gp_values g). value_eq x (normalize v) then Boolean True
                     else if gp_has_null g then Null
                     else Boolean False)))"

section \<open>Expressions\<close>

datatype eval_expr =
    ENone
  | Literal value_item
  | Value nat
  | Unary unary_op eval_expr
  | Binary eval_expr binary_op eval_expr
  | Function func_obj "eval_expr list"
  | Subquery subquery_data "eval_expr list"
  | Param nat

definition unbound :: schema_error where
  "unbound = InternalSchemaError ''a parameter slot was read before its value was bound''"

fun eval :: "text_env \<Rightarrow> value_item list \<Rightarrow> eval_expr \<Rightarrow> schema_error + value_item" where
  "eval T row (Literal v) = Inr v"
| "eval T row (Value pos) = (if pos < length row then Inr (row ! pos) else Inl panic)"
| "eval T row (Unary op field) = r_bind (eval T row field) (\<lambda>v. unary v op)"
| "eval T row (Binary lhs op rhs) =
     r_bind (eval T row lhs) (\<lambda>l. r_bind (eval T row rhs) (\<lambda>r. binary l r op))"
| "eval T row (Function f args) = call T f (map (eval T row) args)"
| "eval T row (Param _) = Inl unbound"
| "eval T row (Subquery s operands) = r_bind (all_ok (map (eval T row) operands)) (\<lambda>vs. Inr (answer s vs))"
| "eval T row ENone = Inr Null"

fun column_positions :: "eval_expr \<Rightarrow> nat list" where
  "column_positions (Value i) = [i]"
| "column_positions (Unary op field) = column_positions field"
| "column_positions (Binary lhs op rhs) = column_positions lhs @ column_positions rhs"
| "column_positions (Function f args) = concat (map column_positions args)"
| "column_positions (Subquery s operands) = concat (map column_positions operands)"
| "column_positions _ = []"

fun has_param :: "eval_expr \<Rightarrow> bool" where
  "has_param (Param _) = True"
| "has_param (Unary op field) = has_param field"
| "has_param (Binary lhs op rhs) = (has_param lhs \<or> has_param rhs)"
| "has_param (Function f args) = (\<exists>e \<in> set args. has_param e)"
| "has_param (Subquery s operands) = (\<exists>e \<in> set operands. has_param e)"
| "has_param _ = False"

fun all_some :: "'a option list \<Rightarrow> 'a list option" where
  "all_some [] = Some []"
| "all_some (x # xs) = Option.bind x (\<lambda>y. map_option ((#) y) (all_some xs))"

fun shifted :: "nat \<Rightarrow> eval_expr \<Rightarrow> eval_expr option" where
  "shifted offset ENone = Some ENone"
| "shifted offset (Literal v) = Some (Literal v)"
| "shifted offset (Param i) = Some (Param i)"
| "shifted offset (Value i) = (if offset \<le> i then Some (Value (i - offset)) else None)"
| "shifted offset (Unary op field) = map_option (Unary op) (shifted offset field)"
| "shifted offset (Binary lhs op rhs) =
     Option.bind (shifted offset lhs) (\<lambda>l. map_option (Binary l op) (shifted offset rhs))"
| "shifted offset (Function f args) = None"
| "shifted offset (Subquery s operands) = map_option (Subquery s) (all_some (map (shifted offset) operands))"

fun folded :: "eval_expr \<Rightarrow> eval_expr" where
  "folded (Unary op (Literal v)) = (case unary v op of Inr x \<Rightarrow> Literal x | Inl _ \<Rightarrow> Unary op (Literal v))"
| "folded (Binary (Literal a) op (Literal b)) =
     (case binary a b op of Inr x \<Rightarrow> Literal x | Inl _ \<Rightarrow> Binary (Literal a) op (Literal b))"
| "folded e = e"

definition param_value :: "value_item list \<Rightarrow> nat \<Rightarrow> schema_error + value_item" where
  "param_value params i = (if i < length params then Inr (params ! i) else Inl (InternalSchemaError ''no value for parameter slot''))"

fun bind_params :: "value_item list \<Rightarrow> eval_expr \<Rightarrow> schema_error + eval_expr" where
  "bind_params params (Param i) = r_bind (param_value params i) (\<lambda>v. Inr (Literal v))"
| "bind_params params (Unary op field) = r_bind (bind_params params field) (\<lambda>f. Inr (folded (Unary op f)))"
| "bind_params params (Binary lhs op rhs) =
     r_bind (bind_params params lhs) (\<lambda>l. r_bind (bind_params params rhs) (\<lambda>r. Inr (folded (Binary l op r))))"
| "bind_params params (Function f args) = r_bind (all_ok (map (bind_params params) args)) (\<lambda>as. Inr (Function f as))"
| "bind_params params (Subquery s operands) = r_bind (all_ok (map (bind_params params) operands)) (\<lambda>es. Inr (Subquery s es))"
| "bind_params params e = Inr e"

section \<open>Comparing is exact\<close>

lemma TWO_63_val: "f64_val TWO_63 = 2 ^ 63 * int f64_unit" "\<not> f64_is_nan TWO_63"
  by (simp_all add: TWO_63_def f64_val_def f64_neg_bit_def f64_low_def f64_mag_def f64_unit_def f64_is_nan_def)

lemma sint_i64_bounds: "- (2 ^ 63) \<le> sint (i :: i64)" "sint (i :: i64) < 2 ^ 63"
  using sint_i64_range [of i] by simp_all

text \<open>An integer against a number between two integers.\<close>

lemma scaled_less_iff:
  "x * int f64_unit < y * int f64_unit \<longleftrightarrow> x < y" "x * int f64_unit = y * int f64_unit \<longleftrightarrow> x = y"
  "x * int f64_unit \<le> y * int f64_unit \<longleftrightarrow> x \<le> y"
  using f64_unit_pos by (simp_all del: f64_unit_pos)

lemma f64_trunc_range:
  assumes "\<not> f64_le TWO_63 d" "\<not> f64_lt d (f64_neg TWO_63)" "\<not> f64_is_nan d"
  shows "- (2 ^ 63) \<le> f64_trunc d" "f64_trunc d < 2 ^ 63"
proof -
  have v: "- (2 ^ 63) * int f64_unit \<le> f64_val d" "f64_val d < 2 ^ 63 * int f64_unit"
    using assms by (simp_all add: f64_cmp_iff TWO_63_val)
  have "- (2 ^ 63) \<le> f64_trunc d \<and> f64_trunc d < 2 ^ 63"
  proof (cases "0 \<le> f64_val d")
    case True
    then have "f64_trunc d * int f64_unit < 2 ^ 63 * int f64_unit" using v f64_trunc_bounds(1) [of d] by linarith
    moreover have "0 \<le> f64_trunc d" using True by (simp add: f64_trunc_val pos_imp_zdiv_nonneg_iff)
    ultimately show ?thesis unfolding scaled_less_iff by simp
  next
    case False
    then have "- (2 ^ 63) * int f64_unit \<le> f64_trunc d * int f64_unit" using v f64_trunc_bounds(2) [of d] by linarith
    moreover have "f64_trunc d \<le> 0" using False by (simp add: f64_trunc_val pos_imp_zdiv_nonneg_iff)
    ultimately show ?thesis unfolding scaled_less_iff by simp
  qed
  then show "- (2 ^ 63) \<le> f64_trunc d" "f64_trunc d < 2 ^ 63" by simp_all
qed

lemma between_scaled:
  assumes "x * int f64_unit \<le> v" "v < (x + 1) * int f64_unit"
  shows "i < x \<Longrightarrow> i * int f64_unit < v" "x < i \<Longrightarrow> v < i * int f64_unit"
proof -
  have mono: "a \<le> b \<Longrightarrow> a * int f64_unit \<le> b * int f64_unit" for a b by (simp add: mult_right_mono)
  show "i < x \<Longrightarrow> i * int f64_unit < v" using assms(1) scaled_less_iff(1) [of i x] by linarith
  show "x < i \<Longrightarrow> v < i * int f64_unit" using assms(2) mono [of "x + 1" i] by linarith
qed

lemma trunc_cmp:
  assumes "x \<noteq> f64_trunc d"
  shows "x < f64_trunc d \<longleftrightarrow> x * int f64_unit < f64_val d" "f64_trunc d < x \<longleftrightarrow> f64_val d < x * int f64_unit"
proof -
  let ?t = "f64_trunc d"
  have "(x < ?t \<longrightarrow> x * int f64_unit < f64_val d) \<and> (?t < x \<longrightarrow> f64_val d < x * int f64_unit)"
  proof (cases "0 \<le> f64_val d")
    case True
    then show ?thesis using between_scaled [of ?t "f64_val d" x] f64_trunc_bounds(1) [OF True] by blast
  next
    case False
    then have "- ?t * int f64_unit \<le> - f64_val d" "- f64_val d < (- ?t + 1) * int f64_unit"
      using f64_trunc_bounds(2) [of d] by (simp_all add: algebra_simps)
    from between_scaled [OF this, of "- x"] show ?thesis by simp
  qed
  then show "x < ?t \<longleftrightarrow> x * int f64_unit < f64_val d" "?t < x \<longleftrightarrow> f64_val d < x * int f64_unit" using assms by linarith+
qed

lemma cmp_int_double_exact:
  assumes nan: "\<not> f64_is_nan d"
  shows "cmp_int_double i d = Some (ord_cmp (sint i * int f64_unit) (f64_val d))"
proof -
  consider (big) "f64_le TWO_63 d" | (small) "\<not> f64_le TWO_63 d" "f64_lt d (f64_neg TWO_63)"
    | (range) "\<not> f64_le TWO_63 d" "\<not> f64_lt d (f64_neg TWO_63)" by blast
  then show ?thesis
  proof cases
    case big
    then have "2 ^ 63 * int f64_unit \<le> f64_val d" using nan by (simp add: f64_cmp_iff TWO_63_val)
    moreover have "sint i * int f64_unit < 2 ^ 63 * int f64_unit" unfolding scaled_less_iff by (rule sint_i64_bounds)
    ultimately have "sint i * int f64_unit < f64_val d" by linarith
    then show ?thesis using big nan by (simp add: cmp_int_double_def ord_cmp_def)
  next
    case small
    then have "f64_val d < - (2 ^ 63) * int f64_unit" using nan by (simp add: f64_cmp_iff TWO_63_val)
    moreover have "- (2 ^ 63) * int f64_unit \<le> sint i * int f64_unit"
      unfolding scaled_less_iff by (rule sint_i64_bounds)
    ultimately have "f64_val d < sint i * int f64_unit" by linarith
    then show ?thesis using small nan by (simp add: cmp_int_double_def ord_cmp_def)
  next
    case range
    let ?t = "f64_trunc d"
    have t: "sint (saturate_i64 ?t) = ?t" by (rule saturate_id) (use f64_trunc_range [OF range nan] in simp_all)
    have "(case ord_cmp (sint i) ?t of Equal \<Rightarrow> ord_cmp 0 (f64_val d - ?t * int f64_unit) | other \<Rightarrow> other)
        = ord_cmp (sint i * int f64_unit) (f64_val d)"
    proof (cases "sint i = ?t")
      case True
      then show ?thesis by (auto simp: ord_cmp_def)
    next
      case False
      then show ?thesis using trunc_cmp [OF False] by (auto simp: ord_cmp_def)
    qed
    then show ?thesis using range nan t by (simp add: cmp_int_double_def Let_def)
  qed
qed

text \<open>What a value is hashed as, in a join or in the rows of a subquery.\<close>

definition hash_key :: "value_item \<Rightarrow> value_item" where
  "hash_key v = (case hash_normalized v of Some x \<Rightarrow> x | None \<Rightarrow> v)"

lemma f64_nan_not_whole: "f64_whole d \<Longrightarrow> \<not> f64_is_nan d"
  by (auto simp: f64_whole_def f64_finite_def f64_is_nan_def)

lemma hash_key_double:
  "hash_key (Double d) = (if f64_whole d \<and> f64_le (f64_neg TWO_63) d \<and> f64_lt d TWO_63 then Integer (f64_as_i64 d) else Double d)"
  by (simp add: hash_key_def hash_normalized_def)

lemma hash_key_whole:
  assumes "f64_whole d" "f64_le (f64_neg TWO_63) d" "f64_lt d TWO_63"
  shows "f64_val d = sint (f64_as_i64 d) * int f64_unit"
proof -
  have nan: "\<not> f64_is_nan d" by (rule f64_nan_not_whole [OF assms(1)])
  have "\<not> f64_le TWO_63 d" "\<not> f64_lt d (f64_neg TWO_63)" using assms(2,3) nan by (simp_all add: f64_cmp_iff TWO_63_val)
  from f64_trunc_range [OF this nan] show ?thesis using f64_whole_val [OF assms(1)] nan by (simp add: f64_as_i64_def saturate_id)
qed

lemma hash_key_int: "hash_key (Double d) = Integer i \<longleftrightarrow> \<not> f64_is_nan d \<and> sint i * int f64_unit = f64_val d"
proof (intro iffI conjI)
  assume k: "hash_key (Double d) = Integer i"
  then have d: "f64_whole d" "f64_le (f64_neg TWO_63) d" "f64_lt d TWO_63" "i = f64_as_i64 d"
    by (simp_all add: hash_key_double split: if_splits)
  show "\<not> f64_is_nan d" by (rule f64_nan_not_whole [OF d(1)])
  show "sint i * int f64_unit = f64_val d" using hash_key_whole [OF d(1-3)] d(4) by simp
next
  assume v: "\<not> f64_is_nan d \<and> sint i * int f64_unit = f64_val d"
  have b: "- (2 ^ 63) * int f64_unit \<le> f64_val d" "f64_val d < 2 ^ 63 * int f64_unit"
    using v sint_i64_bounds [of i] scaled_less_iff(3) [of "- (2 ^ 63)" "sint i"] scaled_less_iff(1) [of "sint i" "2 ^ 63"] by simp_all
  have "f64_finite d"
  proof (rule ccontr)
    assume "\<not> f64_finite d"
    from f64_infinite [OF this] v have "2 ^ 64 * int f64_unit \<le> \<bar>f64_val d\<bar>" by simp
    then show False using b f64_unit_pos by (simp add: abs_if del: f64_unit_pos split: if_splits)
  qed
  then have w: "f64_whole d" using v f64_wholeI [of d "sint i"] by simp
  have r: "f64_le (f64_neg TWO_63) d" "f64_lt d TWO_63" using b v by (simp_all add: f64_cmp_iff TWO_63_val)
  have "f64_as_i64 d = i" using hash_key_whole [OF w r] v by simp
  then show "hash_key (Double d) = Integer i" using w r by (simp add: hash_key_double)
qed

lemma hash_key_double_eq:
  "value_eq (hash_key (Double a)) (hash_key (Double b)) \<longleftrightarrow> f64_eq a b \<or> (a = b \<and> f64_is_nan a)"
proof -
  have zero: "hash_key (Double d) = Integer 0" if "f64_low d = 0" for d
    unfolding hash_key_int using that by (simp add: f64_is_nan_def)
  have cases: "hash_key (Double d) = Double d \<or> (\<exists>i. hash_key (Double d) = Integer i)" for d by (simp add: hash_key_double)
  consider i where "hash_key (Double a) = Integer i" | "hash_key (Double a) = Double a" using cases by blast
  then show ?thesis
  proof cases
    case (1 i)
    then have a: "\<not> f64_is_nan a" "sint i * int f64_unit = f64_val a" using hash_key_int by blast+
    have "value_eq (Integer i) (hash_key (Double b)) \<longleftrightarrow> hash_key (Double b) = Integer i" using cases [of b] by auto
    then show ?thesis using 1 a hash_key_int [of b i] by (auto simp: f64_eq_def f64_partial_cmp_def)
  next
    case 2
    have "f64_eq a b \<Longrightarrow> a = b" using f64_val_eqD [of a b] zero [of a] 2 by (auto simp: f64_eq_def f64_partial_cmp_def split: if_splits)
    moreover have "f64_eq a a \<or> f64_is_nan a" by (simp add: f64_eq_def f64_partial_cmp_def)
    ultimately show ?thesis using 2 cases [of b] by (auto simp: hash_key_double split: if_splits)
  qed
qed

lemma hash_key_plain: "(\<forall>d. v \<noteq> Double d) \<Longrightarrow> hash_key v = v"
  by (cases v) (simp_all add: hash_key_def hash_normalized_def)

text \<open>The number a value is, in units of the least positive double; infinities lie beyond all other doubles.\<close>

fun number_of :: "value_item \<Rightarrow> int option" where
  "number_of (Integer i) = Some (sint i * int f64_unit)"
| "number_of (Double d) = (if f64_is_nan d then None else Some (f64_val d))"
| "number_of _ = None"

fun is_nan :: "value_item \<Rightarrow> bool" where
  "is_nan (Double d) = f64_is_nan d"
| "is_nan _ = False"

lemma cmp_int_double_nan: "f64_is_nan d \<Longrightarrow> cmp_int_double i d = None"
  by (simp add: cmp_int_double_def)

lemma ord_cmp_scaled: "ord_cmp (x * int f64_unit) (y * int f64_unit) = ord_cmp x y"
  using f64_unit_pos by (simp add: ord_cmp_def)

lemma reverse_ord_eq: "reverse_ord c = Equal \<longleftrightarrow> c = Equal"
  by (cases c) simp_all

lemma compare_numbers:
  "number_of a = Some x \<Longrightarrow> number_of b = Some y \<Longrightarrow> sql_compare a b op = Inr (ord_cmp x y)"
  by (cases a; cases b)
    (auto simp: sql_compare_def same_type_def ok_or_def cmp_int_double_exact reverse_ord_cmp f64_partial_cmp_def ord_cmp_scaled split: if_splits)

lemma compare_equal: "sql_compare a b op = Inr c \<Longrightarrow> values_equal a b op' = Inr (c = Equal)"
  by (cases a; cases b)
    (auto simp: sql_compare_def values_equal_def same_type_def ok_or_def f64_eq_def reverse_ord_eq split: option.splits)

lemma equal_hash:
  assumes "a \<noteq> Null" and "b \<noteq> Null"
  shows "values_equal a b op = Inr True \<longleftrightarrow> value_eq (hash_key a) (hash_key b) \<and> \<not> is_nan a"
proof -
  have mixed: "cmp_int_double j x = Some Equal \<longleftrightarrow> hash_key (Double x) = Integer j" for j x
    unfolding hash_key_int by (cases "f64_is_nan x") (simp_all add: cmp_int_double_exact cmp_int_double_nan)
  have int: "hash_key (Integer j) = Integer j" for j by (simp add: hash_key_plain)
  have int_eq: "value_eq (Integer j) (hash_key (Double x)) \<longleftrightarrow> hash_key (Double x) = Integer j"
    "value_eq (hash_key (Double x)) (Integer j) \<longleftrightarrow> hash_key (Double x) = Integer j" for j x
    by (auto simp: hash_key_double)
  have other: "\<not> value_eq v (hash_key (Double x)) \<and> \<not> value_eq (hash_key (Double x)) v" if "type_rank v \<notin> {2, 3}" for v x
    using that by (cases v) (simp_all add: hash_key_double)
  have dd: "f64_eq x y \<longleftrightarrow> value_eq (hash_key (Double x)) (hash_key (Double y)) \<and> \<not> f64_is_nan x" for x y
    unfolding hash_key_double_eq by (auto simp: f64_eq_def f64_partial_cmp_def)
  show ?thesis
    using assms hash_key_int
    by (cases a; cases b) (auto simp: values_equal_def same_type_def mixed int int_eq dd hash_key_plain other)
qed

text \<open>
  C34. Numbers compare by value, across the types. Two numbers, integers or doubles in any
  combination, compare as the numbers they are, with no rounding and the two zeros as one; the
  orders and \<^verbatim>\<open>=\<close> agree: whenever two values of any type can be ordered, they are equal for \<^verbatim>\<open>=\<close>
  exactly when neither comes first. A NaN is ordered with no number and equal to none. Two values
  are equal for \<^verbatim>\<open>=\<close> exactly when they hash to the same value, so that a hash join and a filter agree
  (a NaN apart, which equals nothing, itself included).
\<close>

theorem numbers_compare_exactly:
  assumes "a \<noteq> Null" and "b \<noteq> Null"
  shows "(\<forall>x y. number_of a = Some x \<and> number_of b = Some y \<longrightarrow> sql_compare a b op = Inr (ord_cmp x y))
    \<and> (\<forall>c. sql_compare a b op = Inr c \<longrightarrow> values_equal a b op = Inr (c = Equal))
    \<and> (is_nan a \<and> (is_nan b \<or> number_of b \<noteq> None) \<or> is_nan b \<and> number_of a \<noteq> None \<longrightarrow>
         sql_compare a b op = Inl (InvalidOperationOnOperand (op_name op) ''NaN'') \<and> values_equal a b op = Inr False)
    \<and> (values_equal a b op = Inr True \<longleftrightarrow> value_eq (hash_key a) (hash_key b) \<and> \<not> is_nan a)"
proof (intro conjI)
  show "is_nan a \<and> (is_nan b \<or> number_of b \<noteq> None) \<or> is_nan b \<and> number_of a \<noteq> None \<longrightarrow>
      sql_compare a b op = Inl (InvalidOperationOnOperand (op_name op) ''NaN'') \<and> values_equal a b op = Inr False"
    by (cases a; cases b)
      (simp_all add: sql_compare_def values_equal_def same_type_def ok_or_def cmp_int_double_nan f64_partial_cmp_def f64_eq_def)
qed (use compare_numbers compare_equal equal_hash [OF assms] in blast)+

section \<open>Rewriting keeps values\<close>

text \<open>Parameters replaced by their values and nothing else done; the slots an expression reads.\<close>

fun subst_params :: "value_item list \<Rightarrow> eval_expr \<Rightarrow> eval_expr" where
  "subst_params params (Param i) = (if i < length params then Literal (params ! i) else Param i)"
| "subst_params params (Unary op field) = Unary op (subst_params params field)"
| "subst_params params (Binary lhs op rhs) = Binary (subst_params params lhs) op (subst_params params rhs)"
| "subst_params params (Function f args) = Function f (map (subst_params params) args)"
| "subst_params params (Subquery s operands) = Subquery s (map (subst_params params) operands)"
| "subst_params params e = e"

fun param_slots :: "eval_expr \<Rightarrow> nat set" where
  "param_slots (Param i) = {i}"
| "param_slots (Unary op field) = param_slots field"
| "param_slots (Binary lhs op rhs) = param_slots lhs \<union> param_slots rhs"
| "param_slots (Function f args) = (\<Union>e \<in> set args. param_slots e)"
| "param_slots (Subquery s operands) = (\<Union>e \<in> set operands. param_slots e)"
| "param_slots e = {}"

lemma all_ok_iff: "all_ok rs = Inr vs \<longleftrightarrow> list_all2 (\<lambda>r v. r = Inr v) rs vs"
  by (induction rs arbitrary: vs) (auto simp: r_bind_eq_Inr list_all2_Cons1)

lemma all_ok_exists: "(\<exists>vs. all_ok rs = Inr vs) \<longleftrightarrow> (\<forall>r \<in> set rs. \<exists>v. r = Inr v)"
  unfolding all_ok_iff by (induction rs) (auto simp: list_all2_Cons1)

lemma all_some_iff: "all_some xs = Some ys \<longleftrightarrow> list_all2 (\<lambda>x y. x = Some y) xs ys"
  by (induction xs arbitrary: ys) (auto simp: list_all2_Cons1 bind_eq_Some_conv)

lemma list_all2_map_eq: "list_all2 P (map f xs) ys \<Longrightarrow> (\<And>x y. x \<in> set xs \<Longrightarrow> P (f x) y \<Longrightarrow> g x = h y) \<Longrightarrow> map g xs = map h ys"
  by (induction xs arbitrary: ys) (auto simp: list_all2_Cons1)

lemma list_all2_map_set: "list_all2 P (map f xs) ys \<Longrightarrow> y \<in> set ys \<Longrightarrow> \<exists>x \<in> set xs. P (f x) y"
  by (induction xs arbitrary: ys) (auto simp: list_all2_Cons1, blast)

lemma eval_folded: "eval T row (folded e) = eval T row e"
  by (cases e rule: folded.cases) (auto split: sum.split)

lemma has_param_folded: "has_param (folded e) \<Longrightarrow> has_param e"
  by (cases e rule: folded.cases) (auto split: sum.splits)

lemma has_param_slots: "has_param e \<longleftrightarrow> param_slots e \<noteq> {}"
  by (induction e) auto

lemma bind_params_succeeds: "(\<exists>e'. bind_params ps e = Inr e') \<longleftrightarrow> (\<forall>i \<in> param_slots e. i < length ps)"
proof (induction e)
  case (Function f args)
  have "(\<exists>e'. bind_params ps (Function f args) = Inr e') \<longleftrightarrow> (\<exists>vs. all_ok (map (bind_params ps) args) = Inr vs)"
    by (auto simp: r_bind_eq_Inr)
  then show ?case unfolding all_ok_exists using Function by auto
next
  case (Subquery s args)
  have "(\<exists>e'. bind_params ps (Subquery s args) = Inr e') \<longleftrightarrow> (\<exists>vs. all_ok (map (bind_params ps) args) = Inr vs)"
    by (auto simp: r_bind_eq_Inr)
  then show ?case unfolding all_ok_exists using Subquery by auto
qed (auto simp: r_bind_eq_Inr param_value_def)

lemma bound_args:
  assumes "list_all2 (\<lambda>r v. r = Inr v) (map (bind_params ps) args) as"
    and "\<And>a a'. a \<in> set args \<Longrightarrow> bind_params ps a = Inr a' \<Longrightarrow> eval T row a' = eval T row (subst_params ps a) \<and> \<not> has_param a'"
  shows "map (eval T row) as = map (\<lambda>a. eval T row (subst_params ps a)) args \<and> (\<forall>a \<in> set as. \<not> has_param a)"
  using list_all2_map_eq [OF assms(1), of "\<lambda>a. eval T row (subst_params ps a)" "eval T row"] list_all2_map_set [OF assms(1)] assms(2)
  by metis

lemma bind_params_eval: "bind_params ps e = Inr e' \<Longrightarrow> eval T row e' = eval T row (subst_params ps e) \<and> \<not> has_param e'"
proof (induction e arbitrary: e')
  case (Unary op e)
  then show ?case using has_param_folded by (fastforce simp: r_bind_eq_Inr eval_folded)
next
  case (Binary l op r)
  then obtain l' r' where b: "bind_params ps l = Inr l'" "bind_params ps r = Inr r'" "e' = folded (Binary l' op r')"
    by (auto simp: r_bind_eq_Inr)
  show ?case using Binary.IH(1) [OF b(1)] Binary.IH(2) [OF b(2)] has_param_folded [of "Binary l' op r'"]
    by (auto simp: b(3) eval_folded)
next
  case (Function f args)
  then obtain as where as: "list_all2 (\<lambda>r v. r = Inr v) (map (bind_params ps) args) as" "e' = Function f as"
    by (auto simp: r_bind_eq_Inr all_ok_iff)
  from bound_args [OF as(1) Function.IH] show ?case by (simp add: as(2) comp_def)
next
  case (Subquery s args)
  then obtain as where as: "list_all2 (\<lambda>r v. r = Inr v) (map (bind_params ps) args) as" "e' = Subquery s as"
    by (auto simp: r_bind_eq_Inr all_ok_iff)
  from bound_args [OF as(1) Subquery.IH] show ?case by (simp add: as(2) comp_def)
qed (auto simp: r_bind_eq_Inr param_value_def split: if_splits)

lemma shifted_eval: "shifted (length pre) e = Some e' \<Longrightarrow> eval T row e' = eval T (pre @ row) e"
proof (induction e arbitrary: e')
  case (Subquery s args)
  then obtain as where as: "list_all2 (\<lambda>x y. x = Some y) (map (shifted (length pre)) args) as" "e' = Subquery s as"
    by (auto simp: all_some_iff)
  have "map (eval T (pre @ row)) args = map (eval T row) as"
    by (rule list_all2_map_eq [OF as(1)]) (use Subquery.IH in auto)
  then show ?case by (simp add: as(2))
qed (fastforce simp: nth_append bind_eq_Some_conv split: if_splits)+

lemma eval_reads:
  assumes "length row = length row'" "\<forall>i \<in> set (column_positions e). row ! i = row' ! i"
  shows "eval T row e = eval T row' e"
  using assms(2)
proof (induction e)
  case (Function f args)
  then have "map (eval T row) args = map (eval T row') args" by auto
  then show ?case by (simp only: eval.simps)
next
  case (Subquery s args)
  then have "map (eval T row) args = map (eval T row') args" by auto
  then show ?case by (simp only: eval.simps)
qed (use assms(1) in auto)

text \<open>
  C35. The rewritings of a plan keep what an expression evaluates to, errors included. Folding
  constants changes no value; binding succeeds exactly when every slot has a value, leaves no slot
  and gives what the expression with the values written in would; a copy moved to a row without the
  first columns reads there what the original reads; and only the columns listed are ever read.
\<close>

theorem rewriting_keeps_values:
  "eval T row (folded e) = eval T row e
    \<and> ((\<exists>b. bind_params ps e = Inr b) \<longleftrightarrow> (\<forall>i \<in> param_slots e. i < length ps))
    \<and> (\<forall>b. bind_params ps e = Inr b \<longrightarrow> eval T row b = eval T row (subst_params ps e) \<and> \<not> has_param b)
    \<and> (\<forall>b. shifted (length pre) e = Some b \<longrightarrow> eval T row b = eval T (pre @ row) e)
    \<and> (\<forall>other. length other = length row \<and> (\<forall>i \<in> set (column_positions e). other ! i = row ! i) \<longrightarrow> eval T other e = eval T row e)"
proof (intro conjI [OF eval_folded] conjI [OF bind_params_succeeds] conjI allI impI)
  fix b assume "bind_params ps e = Inr b"
  note b = bind_params_eval [OF this, of T row]
  show "eval T row b = eval T row (subst_params ps e)" "\<not> has_param b" using b by simp_all
next
  fix b assume "shifted (length pre) e = Some b"
  then show "eval T row b = eval T (pre @ row) e" by (rule shifted_eval)
next
  fix other assume "length other = length row \<and> (\<forall>i \<in> set (column_positions e). other ! i = row ! i)"
  then show "eval T other e = eval T row e" by (intro eval_reads) simp_all
qed

definition plain_text :: text_env where
  "plain_text = \<lparr>te_upper = id, te_lower = id, te_display = (\<lambda>_. [])\<rparr>"

theorem rewriting_keeps_values_witness:
  "\<exists>b. bind_params [Integer 10, Integer 7] (Binary (Value 2) Lt (Binary (Param 0) Plus (Param 1))) = Inr b
    \<and> eval plain_text [Null, Null, Integer 5] b = Inr (Boolean True)"
proof -
  let ?e = "Binary (Value 2) Lt (Binary (Param 0) Plus (Param 1))" and ?row = "[Null, Null, Integer 5]"
  note r = rewriting_keeps_values [of plain_text ?row ?e "[Integer 10, Integer 7]" "[]"]
  have "eval plain_text ?row (subst_params [Integer 10, Integer 7] ?e) = Inr (Boolean True)"
    by (simp add: binary_def numeric_def checked_def sql_compare_def same_type_def as_bool_def)
  moreover have "\<forall>i \<in> param_slots ?e. i < length [Integer 10, Integer 7]" by simp
  ultimately show ?thesis using r by metis
qed

theorem numbers_compare_exactly_witness:
  "sql_compare (Integer 9007199254740993) (Double 0x4340000000000000) Lt = Inr Greater
    \<and> sql_compare (Double 0x8000000000000000) (Double 0) Lt = Inr Equal \<and> values_equal (Double 0x8000000000000000) (Double 0) Lt = Inr True
    \<and> values_equal (Integer 1) (Double 0x3FF0000000000000) Eq = Inr True"
proof -
  have one: "hash_key (Double 0x3FF0000000000000) = Integer 1"
    by (simp add: hash_key_int f64_is_nan_def f64_low_def f64_val_def f64_neg_bit_def f64_mag_def f64_unit_def)
  have big: "number_of (Double 0x4340000000000000) = Some (9007199254740992 * int f64_unit)"
    "number_of (Integer 9007199254740993) = Some (9007199254740993 * int f64_unit)"
    by (simp_all add: f64_is_nan_def f64_low_def f64_val_def f64_neg_bit_def f64_mag_def f64_unit_def)
  have zero: "number_of (Double 0x8000000000000000) = Some 0" "number_of (Double 0) = Some 0"
    by (simp_all add: f64_is_nan_def f64_low_def f64_val_def f64_neg_bit_def f64_mag_def)
  have "sql_compare (Integer 9007199254740993) (Double 0x4340000000000000) Lt = Inr Greater"
    using numbers_compare_exactly [of "Integer 9007199254740993" "Double 0x4340000000000000" Lt] big by (simp add: ord_cmp_def del: number_of.simps)
  moreover have "sql_compare (Double 0x8000000000000000) (Double 0) Lt = Inr Equal \<and> values_equal (Double 0x8000000000000000) (Double 0) Lt = Inr True"
    using numbers_compare_exactly [of "Double 0x8000000000000000" "Double 0" Lt] zero by (simp add: ord_cmp_def del: number_of.simps)
  moreover have "values_equal (Integer 1) (Double 0x3FF0000000000000) Eq = Inr True"
    using numbers_compare_exactly [of "Integer 1" "Double 0x3FF0000000000000" Eq] by (simp add: one hash_key_plain)
  ultimately show ?thesis by blast
qed

end
