(* ===== verification/Sql_Like.thy ===== *)
theory Sql_Like
  imports Sql_Eval
begin

text \<open>
  LIKE: the loop with its one point to go back to (\<^verbatim>\<open>like_matches\<close> in \<^verbatim>\<open>plan/funcs.rs\<close>) ends, and answers
  what the pattern means.
\<close>

fun like_spec :: "nat list \<Rightarrow> nat list \<Rightarrow> bool" where
  "like_spec t [] = (t = [])"
| "like_spec t (c # p) =
     (if c = PERCENT then \<exists>n \<le> length t. like_spec (drop n t) p
      else case t of [] \<Rightarrow> False | x # t' \<Rightarrow> (c = UNDERSCORE \<or> c = x) \<and> like_spec t' p)"

section \<open>What a pattern means, at positions\<close>

abbreviation (input) at :: "nat list \<Rightarrow> nat list \<Rightarrow> nat \<Rightarrow> nat \<Rightarrow> bool" where
  "at t p i j \<equiv> like_spec (drop i t) (drop j p)"

lemma at_end: "length p \<le> j \<Longrightarrow> at t p i j \<longleftrightarrow> length t \<le> i"
  by auto

lemma at_plain:
  assumes "j < length p" "p ! j \<noteq> PERCENT"
  shows "at t p i j \<longleftrightarrow> i < length t \<and> (p ! j = UNDERSCORE \<or> p ! j = t ! i) \<and> at t p (Suc i) (Suc j)"
  using assms by (cases "i < length t") (auto simp: Cons_nth_drop_Suc [symmetric, of j p] Cons_nth_drop_Suc [symmetric, of i t])

lemma at_percent:
  assumes "j < length p" "p ! j = PERCENT"
  shows "at t p i j \<longleftrightarrow> (\<exists>n \<ge> i. n \<le> max i (length t) \<and> at t p n (Suc j))"
proof
  have p: "drop j p = PERCENT # drop (Suc j) p" using assms by (metis Cons_nth_drop_Suc)
  show "\<exists>n \<ge> i. n \<le> max i (length t) \<and> at t p n (Suc j)" if a: "at t p i j"
  proof -
    obtain n where "n \<le> length t - i" "at t p (i + n) (Suc j)" using a by (auto simp: p add.commute)
    then show ?thesis by (intro exI [of _ "i + n"]) auto
  qed
  show "at t p i j" if a: "\<exists>n \<ge> i. n \<le> max i (length t) \<and> at t p n (Suc j)"
  proof -
    obtain n where n: "i \<le> n" "n \<le> max i (length t)" "at t p n (Suc j)" using a by blast
    then have "n - i \<le> length (drop i t)" "at t p (i + (n - i)) (Suc j)" by auto
    then show ?thesis unfolding p by (auto simp: add.commute)
  qed
qed

lemma ex_from: "(i :: nat) \<le> L \<Longrightarrow> (\<exists>n \<ge> i. n \<le> L \<and> Q n) \<longleftrightarrow> Q i \<or> (\<exists>n \<ge> Suc i. n \<le> L \<and> Q n)"
  by (metis Suc_leD Suc_leI le_neq_implies_less order_refl)

lemma at_percent_step:
  assumes "j < length p" "p ! j = PERCENT" "i < length t"
  shows "at t p i j \<longleftrightarrow> at t p i (Suc j) \<or> at t p (Suc i) j"
proof -
  have "(\<exists>n \<ge> i. n \<le> length t \<and> at t p n (Suc j)) \<longleftrightarrow> at t p i (Suc j) \<or> (\<exists>n \<ge> Suc i. n \<le> length t \<and> at t p n (Suc j))"
    using assms(3) by (intro ex_from) simp
  then show ?thesis using at_percent [OF assms(1,2)] assms(3) by (simp add: max_def)
qed

lemma at_percent_later:
  assumes "j < length p" "p ! j = PERCENT" "at t p k j" "i \<le> k" "k \<le> length t"
  shows "at t p i j"
proof -
  obtain n where "k \<le> n" "n \<le> max k (length t)" "at t p n (Suc j)" using at_percent [OF assms(1,2)] assms(3) by blast
  then show ?thesis unfolding at_percent [OF assms(1,2)] using assms(4,5) by (intro exI [of _ n]) auto
qed

text \<open>A stretch of the pattern with no percent sign takes as many characters as it is long.\<close>

lemma at_plain_stretch:
  assumes "j + m \<le> length p" "\<forall>x < m. p ! (j + x) \<noteq> PERCENT" "at t p i j" "i \<le> length t"
  shows "i + m \<le> length t \<and> at t p (i + m) (j + m)"
  using assms
proof (induction m arbitrary: i j)
  case (Suc m)
  have "j < length p" "p ! j \<noteq> PERCENT" using Suc.prems(1) Suc.prems(2) [rule_format, of 0] by simp_all
  with Suc.prems(3) have s: "i < length t" "at t p (Suc i) (Suc j)" using at_plain by blast+
  have "\<forall>x < m. p ! (Suc j + x) \<noteq> PERCENT"
  proof (intro allI impI)
    fix x assume "x < m"
    then show "p ! (Suc j + x) \<noteq> PERCENT" using Suc.prems(2) [rule_format, of "Suc x"] by simp
  qed
  from Suc.IH [OF _ this s(2)] show ?case using Suc.prems(1) s(1) by simp
qed simp

section \<open>The loop\<close>

text \<open>
  The state of the loop: the pattern from the last percent sign on has been laid at \<open>st\<close> and fits so
  far. The text matches if the rest does from here, or if it does with that sign taking one
  character more.
\<close>

definition like_state :: "nat list \<Rightarrow> nat list \<Rightarrow> nat \<Rightarrow> nat \<Rightarrow> (nat \<times> nat) option \<Rightarrow> bool" where
  "like_state t p ti pi star = (ti \<le> length t \<and> pi \<le> length p \<and> (case star of
     None \<Rightarrow> True
   | Some (sp, st) \<Rightarrow> sp < pi \<and> p ! sp = PERCENT \<and> ti = st + (pi - Suc sp) \<and> (\<forall>x < pi - Suc sp. p ! (Suc sp + x) \<noteq> PERCENT)))"

definition like_rest :: "nat list \<Rightarrow> nat list \<Rightarrow> nat \<Rightarrow> nat \<Rightarrow> (nat \<times> nat) option \<Rightarrow> bool" where
  "like_rest t p ti pi star = (at t p ti pi \<or> (case star of None \<Rightarrow> False | Some (sp, st) \<Rightarrow> st < length t \<and> at t p (Suc st) sp))"

text \<open>Reaching a second percent sign, the first need not be tried again.\<close>

lemma like_star_subsumed:
  assumes "like_state t p ti pi (Some (sp, st))" "pi < length p" "p ! pi = PERCENT" "st < length t" "at t p (Suc st) sp"
  shows "at t p ti pi"
proof -
  have s: "sp < pi" "p ! sp = PERCENT" "ti = st + (pi - Suc sp)" "\<forall>x < pi - Suc sp. p ! (Suc sp + x) \<noteq> PERCENT"
    using assms(1) by (simp_all add: like_state_def)
  obtain n where n: "Suc st \<le> n" "n \<le> length t" "at t p n (Suc sp)"
    using at_percent [of sp p "Suc st" t] assms(2,4,5) s(1,2) by auto
  have "n + (pi - Suc sp) \<le> length t \<and> at t p (n + (pi - Suc sp)) (Suc sp + (pi - Suc sp))"
    by (rule at_plain_stretch) (use s assms(2) n in auto)
  then show ?thesis using at_percent_later [OF assms(2,3), where k = "n + (pi - Suc sp)"] s n by simp
qed

text \<open>At the end of the text there is no room for the stretch one character later.\<close>

lemma like_star_end:
  assumes "like_state t p (length t) pi (Some (sp, st))" "st < length t"
  shows "\<not> at t p (Suc st) sp"
proof
  assume "at t p (Suc st) sp"
  moreover have s: "sp < pi" "pi \<le> length p" "p ! sp = PERCENT" "length t = st + (pi - Suc sp)" "\<forall>x < pi - Suc sp. p ! (Suc sp + x) \<noteq> PERCENT"
    using assms(1) by (simp_all add: like_state_def)
  ultimately obtain n where n: "Suc st \<le> n" "n \<le> length t" "at t p n (Suc sp)"
    using at_percent [of sp p "Suc st" t] assms(2) by auto
  have "n + (pi - Suc sp) \<le> length t \<and> at t p (n + (pi - Suc sp)) (Suc sp + (pi - Suc sp))"
    by (rule at_plain_stretch) (use s n in auto)
  then show False using s(4) n(1) by simp
qed

lemma at_text_end: "length t \<le> i \<Longrightarrow> at t p i j \<longleftrightarrow> (\<forall>c \<in> set (drop j p). c = PERCENT)"
proof -
  have "like_spec [] q \<longleftrightarrow> (\<forall>c \<in> set q. c = PERCENT)" for q by (induction q) auto
  then show "length t \<le> i \<Longrightarrow> ?thesis" by simp
qed

lemma like_rest_miss:
  assumes "like_state t p ti pi (Some (sp, st))" "ti < length t" "\<not> at t p ti pi"
  shows "like_rest t p ti pi (Some (sp, st)) = like_rest t p (Suc st) (Suc sp) (Some (sp, Suc st))"
    and "like_state t p (Suc st) (Suc sp) (Some (sp, Suc st))"
proof -
  have s: "sp < pi" "pi \<le> length p" "p ! sp = PERCENT" using assms(1) by (simp_all add: like_state_def)
  have st: "st < length t" using assms(1,2) unfolding like_state_def by auto
  show "like_state t p (Suc st) (Suc sp) (Some (sp, Suc st))" using s st by (simp add: like_state_def)
  have "at t p (Suc st) sp \<longleftrightarrow> at t p (Suc st) (Suc sp) \<or> (Suc st < length t \<and> at t p (Suc (Suc st)) sp)"
  proof (cases "Suc st < length t")
    case True
    then show ?thesis using at_percent_step [of sp p "Suc st" t] s by simp
  next
    case False
    then have "Suc st = length t" using st by simp
    then show ?thesis using at_percent [of sp p "Suc st" t] s by (auto simp: le_antisym)
  qed
  then show "like_rest t p ti pi (Some (sp, st)) = like_rest t p (Suc st) (Suc sp) (Some (sp, Suc st))"
    using assms(3) st by (simp add: like_rest_def)
qed

lemma like_state_hit:
  assumes "like_state t p ti pi star" "ti < length t" "pi < length p" "p ! pi \<noteq> PERCENT"
  shows "like_state t p (Suc ti) (Suc pi) star"
proof (cases star)
  case (Some x)
  obtain sp st where x: "x = (sp, st)" by fastforce
  have "p ! (Suc sp + k) \<noteq> PERCENT" if "k < Suc pi - Suc sp" for k
    using assms(1,4) that by (cases "k = pi - Suc sp") (auto simp: like_state_def Some x)
  then show ?thesis using assms by (auto simp: like_state_def Some x)
qed (use assms in \<open>simp add: like_state_def\<close>)

definition like_measure :: "nat list \<Rightarrow> nat list \<Rightarrow> nat \<Rightarrow> (nat \<times> nat) option \<Rightarrow> nat \<times> nat \<times> nat" where
  "like_measure t p ti star =
     (case star of None \<Rightarrow> (length p + 1, length t + 1, length t - ti) | Some (sp, st) \<Rightarrow> (length p - sp, length t - st, length t - ti))"

lemma like_loop_spec: "like_state t p ti pi star \<Longrightarrow> like_loop t p ti pi star = Some (like_rest t p ti pi star)"
proof (induction "like_measure t p ti star" arbitrary: ti pi star rule: wf_induct_rule [OF wf_lex_prod [OF wf_less wf_lex_prod [OF wf_less wf_less]]])
  case 1
  note IH = 1(1) and inv = 1(2)
  have le: "ti \<le> length t" "pi \<le> length p" using inv by (simp_all add: like_state_def)
  consider (last) "ti = length t"
    | (hit) "ti < length t" "pi < length p" "p ! pi \<noteq> PERCENT" "p ! pi = UNDERSCORE \<or> p ! pi = t ! ti"
    | (star) "ti < length t" "pi < length p" "p ! pi = PERCENT"
    | (miss) "ti < length t" "pi < length p \<longrightarrow> p ! pi \<noteq> PERCENT \<and> p ! pi \<noteq> UNDERSCORE \<and> p ! pi \<noteq> t ! ti"
    using le(1) by (cases "ti < length t") fastforce+
  then show ?case
  proof cases
    case last
    then have "like_rest t p ti pi star \<longleftrightarrow> at t p ti pi"
      using inv like_star_end [of t p pi] by (auto simp: like_rest_def split: option.splits)
    then show ?thesis using last at_text_end [of t ti pi p] by (subst like_loop.simps) simp
  next
    case hit
    have "like_state t p (Suc ti) (Suc pi) star"
      by (rule like_state_hit [OF inv hit(1-3)])
    then have "like_loop t p (Suc ti) (Suc pi) star = Some (like_rest t p (Suc ti) (Suc pi) star)"
      by (intro IH) (use hit in \<open>auto simp: like_measure_def split: option.splits\<close>)
    moreover have "like_rest t p (Suc ti) (Suc pi) star = like_rest t p ti pi star"
      using at_plain [OF hit(2,3), of ti t] hit by (simp add: like_rest_def)
    ultimately show ?thesis using hit by (subst like_loop.simps) auto
  next
    case star
    have "like_state t p ti (Suc pi) (Some (pi, ti))" using star by (simp add: like_state_def)
    then have "like_loop t p ti (Suc pi) (Some (pi, ti)) = Some (like_rest t p ti (Suc pi) (Some (pi, ti)))"
      by (intro IH) (use star inv in \<open>auto simp: like_measure_def like_state_def split: option.splits\<close>)
    moreover have "like_rest t p ti (Suc pi) (Some (pi, ti)) = like_rest t p ti pi star"
      using at_percent_step [OF star(2,3,1)] like_star_subsumed [OF _ star(2,3)] inv star(1)
      by (auto simp: like_rest_def split: option.splits)
    ultimately show ?thesis using star by (subst like_loop.simps) auto
  next
    case miss
    have no: "\<not> at t p ti pi" using miss le(2) at_plain [of pi p ti t] by (cases "pi < length p") auto
    show ?thesis
    proof (cases star)
      case None
      then show ?thesis using miss no by (subst like_loop.simps) (auto simp: like_rest_def)
    next
      case (Some x)
      obtain sp st where x: "star = Some (sp, st)" using Some by (cases x) simp
      note m = like_rest_miss [OF inv [unfolded x] miss(1) no]
      have "like_loop t p (Suc st) (Suc sp) (Some (sp, Suc st)) = Some (like_rest t p (Suc st) (Suc sp) (Some (sp, Suc st)))"
        by (rule IH [OF _ m(2)]) (use inv miss(1) x in \<open>auto simp: like_measure_def like_state_def\<close>)
      then show ?thesis using miss m(1) x by (subst like_loop.simps) auto
    qed
  qed
qed

text \<open>
  C36. LIKE. On every text and pattern the loop of \<^verbatim>\<open>like_matches\<close> ends, and its answer is what the
  pattern means: a percent sign stands for any run of characters, none included, an underscore for
  one, every other character for itself. Going back to the last percent sign only is enough.
\<close>

theorem like_matches_spec: "like_matches t p = Some (like_spec t p)"
  using like_loop_spec [of t p 0 0 None] by (simp add: like_matches_def like_state_def like_rest_def)

end
