(* ===== verification/Key_Range.thy ===== *)
theory Key_Range
  imports Slotted_Page
begin

text \<open>
  Ranges of keys and their scan (\<^verbatim>\<open>store/src/cursor.rs\<close>): where a key lies relative to a range, where a
  scan starts, and the loop of \<^verbatim>\<open>RangeCursor::next_ref\<close> over the entries of a tree in key order. An
  entry is any value with a key; visibility and the leaves' pages are other components.
\<close>

section \<open>Ranges\<close>

record key_range =
  kr_prefix :: "value_item list"
  kr_lower :: "value_item bnd"
  kr_upper :: "value_item bnd"

definition prefix_range :: "value_item list \<Rightarrow> key_range" where
  "prefix_range p = \<lparr>kr_prefix = p, kr_lower = Unbounded, kr_upper = Unbounded\<rparr>"

fun below_lower :: "value_item bnd \<Rightarrow> value_item \<Rightarrow> bool" where
  "below_lower (Included lo) v = (value_cmp v lo = Less)"
| "below_lower (Excluded lo) v = (value_cmp v lo \<noteq> Greater)"
| "below_lower Unbounded v = False"

fun above_upper :: "value_item bnd \<Rightarrow> value_item \<Rightarrow> bool" where
  "above_upper (Included hi) v = (value_cmp v hi = Greater)"
| "above_upper (Excluded hi) v = (value_cmp v hi \<noteq> Less)"
| "above_upper Unbounded v = False"

definition bounds_position :: "value_item bnd \<Rightarrow> value_item bnd \<Rightarrow> value_item list \<Rightarrow> ordering" where
  "bounds_position lower upper values =
     (case values of
        [] \<Rightarrow> if lower = Unbounded \<and> upper = Unbounded then Equal else Greater
      | v # _ \<Rightarrow> if below_lower lower v then Less else if above_upper upper v then Greater else Equal)"

fun position_from :: "value_item list \<Rightarrow> value_item bnd \<Rightarrow> value_item bnd \<Rightarrow> value_item list \<Rightarrow> ordering" where
  "position_from [] lower upper values = bounds_position lower upper values"
| "position_from (p # ps) lower upper [] = Greater"
| "position_from (p # ps) lower upper (v # vs) =
     (case value_cmp v p of Equal \<Rightarrow> position_from ps lower upper vs | other \<Rightarrow> other)"

definition range_position :: "key_range \<Rightarrow> value_item list \<Rightarrow> ordering" where
  "range_position r values = position_from (kr_prefix r) (kr_lower r) (kr_upper r) values"

text \<open>
  The key a scan of a tree with \<open>len\<close> key fields starts at, and the error for too many fields. The values
  of a range are taken to be within their capacity, as those of stored keys are: the check of
  \<^verbatim>\<open>IndexKey::new_from\<close>, which refuses others, is left out.
\<close>

definition range_start :: "nat option \<Rightarrow> key_range \<Rightarrow> 'k store_error + value_item list bnd" where
  "range_start key_fields r =
     (case key_fields of
        None \<Rightarrow> Inr Unbounded
      | Some len \<Rightarrow>
          (let full = kr_prefix r @ (case kr_lower r of Included v \<Rightarrow> [v] | Excluded v \<Rightarrow> [v] | Unbounded \<Rightarrow> [])
           in if length full > len then Inl (UnknownError ''key range needs more fields than the key has'')
              else Inr (Included (full @ replicate (len - length full) Null))))"

section \<open>Scanning\<close>

text \<open>The entries from a starting key on.\<close>

definition entries_from :: "('a \<Rightarrow> value_item list) \<Rightarrow> value_item list bnd \<Rightarrow> 'a list \<Rightarrow> 'a list" where
  "entries_from key start xs =
     (case start of
        Included k \<Rightarrow> dropWhile (\<lambda>e. rec_cmp (key e) k = Less) xs
      | Excluded k \<Rightarrow> dropWhile (\<lambda>e. rec_cmp (key e) k \<noteq> Greater) xs
      | Unbounded \<Rightarrow> xs)"

fun scan_one :: "('a \<Rightarrow> value_item list) \<Rightarrow> key_range \<Rightarrow> 'a list \<Rightarrow> 'a list" where
  "scan_one key r [] = []"
| "scan_one key r (e # es) =
     (case range_position r (key e) of
        Less \<Rightarrow> scan_one key r es
      | Equal \<Rightarrow> e # scan_one key r es
      | Greater \<Rightarrow> [])"

text \<open>One range after the other; the number of key fields is that of any entry.\<close>

fun key_range_scan :: "('a \<Rightarrow> value_item list) \<Rightarrow> key_range list \<Rightarrow> 'a list \<Rightarrow> 'k store_error + 'a list" where
  "key_range_scan key [] xs = Inr []"
| "key_range_scan key (r # rs) xs =
     r_bind (range_start (case xs of [] \<Rightarrow> None | e # _ \<Rightarrow> Some (length (key e))) r) (\<lambda>start.
       r_bind (key_range_scan key rs xs) (\<lambda>more. Inr (scan_one key r (entries_from key start xs) @ more)))"

section \<open>Three-way comparisons\<close>

text \<open>What \<^verbatim>\<open>Ord\<close> asks of a comparison, and lists in its order.\<close>

locale three_way =
  fixes cmp :: "'a \<Rightarrow> 'a \<Rightarrow> ordering"
  assumes flip: "reverse_ord (cmp a b) = cmp b a"
    and less_trans: "cmp a b = Less \<Longrightarrow> cmp b c = Less \<Longrightarrow> cmp a c = Less"
    and equal_left: "cmp a b = Equal \<Longrightarrow> cmp a c = cmp b c"
begin

lemma refl: "cmp a a = Equal"
  by (metis flip ordering.distinct(3) reverse_ord.simps(1,3) ordering.exhaust)

lemma equal_sym: "cmp a b = Equal \<longleftrightarrow> cmp b a = Equal"
  by (metis flip reverse_ord_iff(2))

lemma greater_iff: "cmp a b = Greater \<longleftrightarrow> cmp b a = Less"
  by (metis flip reverse_ord_iff(1))

lemma equal_right: "cmp a b = Equal \<Longrightarrow> cmp c a = cmp c b"
  by (metis equal_left flip)

lemma not_both: "cmp a b = Less \<Longrightarrow> cmp b a \<noteq> Less"
  by (metis flip ordering.distinct(3) reverse_ord.simps(1))

lemma le_less_trans: "cmp a b \<noteq> Greater \<Longrightarrow> cmp b c = Less \<Longrightarrow> cmp a c = Less"
  by (metis equal_left less_trans ordering.exhaust)

lemma less_le_trans: "cmp a b = Less \<Longrightarrow> cmp b c \<noteq> Greater \<Longrightarrow> cmp a c = Less"
  by (metis equal_right less_trans ordering.exhaust)

lemma le_trans: "cmp a b \<noteq> Greater \<Longrightarrow> cmp b c \<noteq> Greater \<Longrightarrow> cmp a c \<noteq> Greater"
  by (metis equal_left less_le_trans ordering.distinct(3) ordering.exhaust)

lemma not_less: "cmp a b \<noteq> Less \<longleftrightarrow> cmp b a \<noteq> Greater"
  by (metis greater_iff)

text \<open>A list in strictly ascending order is determined by its elements.\<close>

abbreviation ascending :: "'a list \<Rightarrow> bool" where
  "ascending \<equiv> sorted_wrt (\<lambda>a b. cmp a b = Less)"

lemma ascending_unique: "sorted_wrt (\<lambda>a b. cmp (f a) (f b) = Less) xs \<Longrightarrow> sorted_wrt (\<lambda>a b. cmp (f a) (f b) = Less) ys \<Longrightarrow> set xs = set ys \<Longrightarrow> xs = ys"
proof (induction xs arbitrary: ys)
  case (Cons x xs)
  then obtain y ys' where ys: "ys = y # ys'" by (cases ys) auto
  have "x = y"
  proof (rule ccontr)
    assume "x \<noteq> y"
    then have "x \<in> set ys'" "y \<in> set xs" using Cons.prems(3) by (auto simp: ys)
    then show False using Cons.prems(1,2) not_both [of "f x" "f y"] by (simp add: ys)
  qed
  moreover have "x \<notin> set xs" "y \<notin> set ys'" using Cons.prems(1,2) refl by (auto simp: ys)
  ultimately show ?case using Cons.IH [of ys'] Cons.prems by (simp add: ys) (metis insert_ident)
qed simp

text \<open>Selecting by one condition after the other, each past the one before, is selecting by any of them.\<close>

lemma concat_filters:
  assumes xs: "sorted_wrt (\<lambda>a b. cmp (f a) (f b) = Less) xs"
    and ps: "sorted_wrt (\<lambda>P Q. \<forall>a b. P (f a) \<longrightarrow> Q (f b) \<longrightarrow> cmp (f a) (f b) = Less) Ps"
  shows "concat (map (\<lambda>P. filter (\<lambda>x. P (f x)) xs) Ps) = filter (\<lambda>x. \<exists>P \<in> set Ps. P (f x)) xs"
proof (rule ascending_unique)
  show "sorted_wrt (\<lambda>a b. cmp (f a) (f b) = Less) (concat (map (\<lambda>P. filter (\<lambda>x. P (f x)) xs) Ps))"
    using ps xs by (induction Ps) (auto simp: sorted_wrt_append sorted_wrt_filter)
  show "sorted_wrt (\<lambda>a b. cmp (f a) (f b) = Less) (filter (\<lambda>x. \<exists>P \<in> set Ps. P (f x)) xs)"
    using xs by (rule sorted_wrt_filter)
qed auto

end

interpretation val: three_way value_cmp
proof
  show "value_cmp a b = Equal \<Longrightarrow> value_cmp a c = value_cmp b c" for a b c
    by (cases a; cases b; simp; cases c; simp)
qed (rule value_cmp_reverse, rule value_cmp_less_trans, assumption+)

lemma rec_cmp_slice: "rec_cmp a b = slice_cmp (concat (map field_bytes a)) (concat (map field_bytes b))"
  by (simp add: rec_fields_cmp)

interpretation rec: three_way rec_cmp
proof
  show "reverse_ord (rec_cmp a b) = rec_cmp b a" for a b unfolding rec_cmp_slice by (rule slice_cmp_reverse)
  show "rec_cmp a b = Less \<Longrightarrow> rec_cmp b c = Less \<Longrightarrow> rec_cmp a c = Less" for a b c
    unfolding rec_cmp_slice by (rule slice_cmp_less_trans)
  show "rec_cmp a b = Equal \<Longrightarrow> rec_cmp a c = rec_cmp b c" for a b c
    unfolding rec_cmp_slice slice_cmp_eq_iff by simp
qed

section \<open>Where keys lie\<close>

text \<open>Along keys in ascending order a position only grows.\<close>

lemma below_lower_mono: "value_cmp a b \<noteq> Greater \<Longrightarrow> below_lower l b \<Longrightarrow> below_lower l a"
  by (cases l) (auto intro: val.le_less_trans dest: val.le_trans)

lemma above_upper_mono: "value_cmp a b \<noteq> Greater \<Longrightarrow> above_upper u a \<Longrightarrow> above_upper u b"
  by (cases u) (simp_all, metis val.greater_iff val.less_le_trans, metis val.le_less_trans)

lemma position_mono:
  assumes "length a = length b" "rec_cmp a b \<noteq> Greater"
  shows "(position_from p lo up a = Greater \<longrightarrow> position_from p lo up b = Greater)
    \<and> (position_from p lo up b = Less \<longrightarrow> position_from p lo up a = Less)"
  using assms
proof (induction p lo up a arbitrary: b rule: position_from.induct)
  case (1 lo up a)
  show ?case
  proof (cases a)
    case Nil
    then show ?thesis using 1 by simp
  next
    case (Cons x xs)
    then obtain y ys where b: "b = y # ys" using 1 by (cases b) auto
    have "value_cmp x y \<noteq> Greater" using 1(2) by (auto simp: Cons b split: ordering.splits)
    then show ?thesis using below_lower_mono above_upper_mono by (auto simp: bounds_position_def Cons b)
  qed
next
  case (2 p ps lo up)
  then show ?case by simp
next
  case (3 p ps lo up v vs)
  then obtain y ys where b: "b = y # ys" by (cases b) auto
  show ?case
  proof (cases "value_cmp v y")
    case Equal
    then have "value_cmp v p = value_cmp y p" by (rule val.equal_left)
    moreover have "rec_cmp vs ys \<noteq> Greater" "length vs = length ys" using 3(2,3) Equal by (simp_all add: b)
    ultimately show ?thesis using 3(1) by (cases "value_cmp y p") (simp_all add: b)
  next
    case Less
    have "value_cmp y p = Greater" if "value_cmp v p \<noteq> Less"
      using val.le_less_trans [of p v y] that Less val.not_less val.greater_iff by metis
    then show ?thesis by (cases "value_cmp v p"; cases "value_cmp y p") (simp_all add: b)
  next
    case Greater
    then show ?thesis using 3(3) by (simp add: b)
  qed
qed

text \<open>Every key before the starting one lies before the range: NULL, with which the starting key is filled up, is the least value.\<close>

lemma not_below_null: "value_cmp v Null \<noteq> Less"
  by (cases v) simp_all

lemma rec_not_below_nulls: "length k = n \<Longrightarrow> rec_cmp k (replicate n Null) \<noteq> Less"
proof (induction k arbitrary: n)
  case (Cons v k)
  then show ?case using not_below_null [of v] by (cases n; cases "value_cmp v Null") auto
qed simp

lemma before_start:
  assumes "rec_cmp k (p @ (case lo of Included v \<Rightarrow> [v] | Excluded v \<Rightarrow> [v] | Unbounded \<Rightarrow> []) @ replicate n Null) = Less"
    and "length k = length (p @ (case lo of Included v \<Rightarrow> [v] | Excluded v \<Rightarrow> [v] | Unbounded \<Rightarrow> [])) + n"
  shows "position_from p lo up k = Less"
  using assms
proof (induction p arbitrary: k)
  case Nil
  have head: "value_cmp v x = Less" if "k = v # k'" "rec_cmp k (x # replicate n Null) = Less" "length k = Suc n" for v x k'
    using that rec_not_below_nulls [of k' n] by (auto split: ordering.splits)
  show ?case
  proof (cases lo)
    case (Included x)
    then obtain v k' where k: "k = v # k'" using Nil by (cases k) auto
    show ?thesis using head [OF k, of x] Nil by (simp add: bounds_position_def Included k)
  next
    case (Excluded x)
    then obtain v k' where k: "k = v # k'" using Nil by (cases k) auto
    show ?thesis using head [OF k, of x] Nil by (simp add: bounds_position_def Excluded k)
  next
    case Unbounded
    then show ?thesis using Nil rec_not_below_nulls [of k n] by simp
  qed
next
  case (Cons x p)
  then obtain v k' where k: "k = v # k'" by (cases k) auto
  show ?case using Cons.IH [of k'] Cons.prems by (auto simp: k split: ordering.splits)
qed

section \<open>A scan reads its range\<close>

lemma scan_one_filter:
  assumes "sorted_wrt (\<lambda>a b. rec_cmp (key a) (key b) = Less) xs" "\<forall>x \<in> set xs. length (key x) = n"
  shows "scan_one key r xs = filter (\<lambda>x. range_position r (key x) = Equal) xs"
  using assms
proof (induction xs)
  case (Cons x xs)
  have "range_position r (key y) = Greater" if "range_position r (key x) = Greater" "y \<in> set xs" for y
    using that Cons.prems position_mono [of "key x" "key y"] by (auto simp: range_position_def)
  then have "filter (\<lambda>x. range_position r (key x) = Equal) xs = []" if "range_position r (key x) = Greater"
    using that by (simp add: filter_empty_conv)
  then show ?case using Cons by (cases "range_position r (key x)") simp_all
qed simp

definition fits_key :: "nat \<Rightarrow> key_range \<Rightarrow> bool" where
  "fits_key n r = (length (kr_prefix r) + (case kr_lower r of Unbounded \<Rightarrow> 0 | _ \<Rightarrow> 1) \<le> n)"

lemma scan_from_start:
  assumes "sorted_wrt (\<lambda>a b. rec_cmp (key a) (key b) = Less) xs" "\<forall>x \<in> set xs. length (key x) = n" "fits_key n r"
  shows "\<exists>start. range_start (case xs of [] \<Rightarrow> None | e # _ \<Rightarrow> Some (length (key e))) r = Inr start
    \<and> scan_one key r (entries_from key start xs) = filter (\<lambda>x. range_position r (key x) = Equal) xs"
proof (cases xs)
  case Nil
  then show ?thesis by (simp add: range_start_def entries_from_def)
next
  case (Cons e es)
  let ?lo = "case kr_lower r of Included v \<Rightarrow> [v] | Excluded v \<Rightarrow> [v] | Unbounded \<Rightarrow> []"
  let ?full = "kr_prefix r @ ?lo"
  let ?start = "?full @ replicate (n - length ?full) Null" and ?before = "\<lambda>e. rec_cmp (key e) (?full @ replicate (n - length ?full) Null) = Less"
  have len: "length ?full \<le> n" using assms(3) by (simp add: fits_key_def split: bnd.splits)
  have start: "range_start (Some n) r = Inr (Included ?start)" using len by (simp add: range_start_def Let_def)
  have none: "range_position r (key x) = Less" if "x \<in> set xs" "?before x" for x
    unfolding range_position_def by (rule before_start [where n = "n - length ?full"]) (use that assms(2) len in auto)
  have "filter (\<lambda>x. range_position r (key x) = Equal) (takeWhile ?before xs) = []"
    using none by (auto simp: filter_empty_conv dest: set_takeWhileD)
  then have "filter (\<lambda>x. range_position r (key x) = Equal) xs = filter (\<lambda>x. range_position r (key x) = Equal) (dropWhile ?before xs)"
    by (metis append_Nil filter_append takeWhile_dropWhile_id)
  moreover have "scan_one key r (dropWhile ?before xs) = filter (\<lambda>x. range_position r (key x) = Equal) (dropWhile ?before xs)"
    using assms(1,2) by (intro scan_one_filter [where n = n]) (auto simp: sorted_wrt_drop dropWhile_eq_drop dest: in_set_dropD)
  moreover have "(case xs of [] \<Rightarrow> None | e # _ \<Rightarrow> Some (length (key e))) = Some n" using assms(2) Cons by simp
  ultimately show ?thesis unfolding entries_from_def using start by (intro exI [of _ "Included ?start"]) (simp only: bnd.case)
qed

lemma key_range_scan_filter:
  assumes "sorted_wrt (\<lambda>a b. rec_cmp (key a) (key b) = Less) xs" "\<forall>x \<in> set xs. length (key x) = n" "\<forall>r \<in> set rs. fits_key n r"
  shows "(key_range_scan key rs xs :: 'k store_error + _) = Inr (concat (map (\<lambda>r. filter (\<lambda>x. range_position r (key x) = Equal) xs) rs))"
  using assms(3)
proof (induction rs)
  case (Cons r rs)
  obtain start where "(range_start (case xs of [] \<Rightarrow> None | e # _ \<Rightarrow> Some (length (key e))) r :: 'k store_error + _) = Inr start"
      "scan_one key r (entries_from key start xs) = filter (\<lambda>x. range_position r (key x) = Equal) xs"
    using scan_from_start [OF assms(1,2), of r] Cons.prems by auto
  then show ?case using Cons by simp
qed simp

end
