(* ===== verification/Sarg.thy ===== *)
theory Sarg
  imports Sql_Eval Key_Range
begin

text \<open>
  Turning the conditions of a WHERE clause into seeks of an index (\<^verbatim>\<open>squeal-sql/src/plan/sarg.rs\<close>): the
  values of a column a condition allows, the ranges of keys several of them allow, and that reading
  those ranges is filtering by the conditions.
\<close>

section \<open>The values of a column\<close>

datatype data_type = TInteger | TDouble | TDatetime | TStr u32 | TBlob u32 | TNull | TUnsupported | TBoolean

record column_range =
  cr_lower :: "value_item bnd"
  cr_upper :: "value_item bnd"

definition range_contains :: "column_range \<Rightarrow> value_item \<Rightarrow> bool" where
  "range_contains r v =
     ((case cr_lower r of Included lo \<Rightarrow> value_cmp v lo \<noteq> Less | Excluded lo \<Rightarrow> value_cmp v lo = Greater | Unbounded \<Rightarrow> True)
      \<and> (case cr_upper r of Included hi \<Rightarrow> value_cmp v hi \<noteq> Greater | Excluded hi \<Rightarrow> value_cmp v hi = Less | Unbounded \<Rightarrow> True))"

definition equal_value :: "column_range \<Rightarrow> value_item option" where
  "equal_value r =
     (case (cr_lower r, cr_upper r) of
        (Included a, Included b) \<Rightarrow> if value_cmp a b = Equal then Some a else None
      | _ \<Rightarrow> None)"

fun bnd_value :: "'a bnd \<Rightarrow> 'a option" where
  "bnd_value (Included x) = Some x"
| "bnd_value (Excluded x) = Some x"
| "bnd_value Unbounded = None"

definition tighter :: "value_item bnd \<Rightarrow> value_item bnd \<Rightarrow> ordering \<Rightarrow> value_item bnd" where
  "tighter a b wins =
     (case (bnd_value a, bnd_value b) of
        (None, _) \<Rightarrow> b
      | (_, None) \<Rightarrow> a
      | (Some va, Some vb) \<Rightarrow>
          if value_cmp va vb = Equal then (case a of Excluded _ \<Rightarrow> a | _ \<Rightarrow> b)
          else if value_cmp va vb = wins then a else b)"

definition range_intersect :: "column_range \<Rightarrow> column_range \<Rightarrow> column_range" where
  "range_intersect a b =
     \<lparr>cr_lower = tighter (cr_lower a) (cr_lower b) Greater, cr_upper = tighter (cr_upper a) (cr_upper b) Less\<rparr>"

text \<open>\<^verbatim>\<open>is_empty\<close>, on the bounds of a range of keys.\<close>

definition is_empty :: "key_range \<Rightarrow> bool" where
  "is_empty r =
     (case (kr_lower r, kr_upper r) of
        (Included lo, Included hi) \<Rightarrow> value_cmp lo hi = Greater
      | (lower, upper) \<Rightarrow> (case (bnd_value lower, bnd_value upper) of
            (Some lo, Some hi) \<Rightarrow> value_cmp lo hi \<noteq> Less
          | _ \<Rightarrow> False))"

datatype column_set = Points "value_item list" | Range column_range

text \<open>\<^verbatim>\<open>sort\<close> is stable, and \<^verbatim>\<open>dedup_by\<close> keeps the first of equal neighbours.\<close>

fun insert_value :: "value_item \<Rightarrow> value_item list \<Rightarrow> value_item list" where
  "insert_value x [] = [x]"
| "insert_value x (y # ys) = (if value_cmp x y = Greater then y # insert_value x ys else x # y # ys)"

definition sort_values :: "value_item list \<Rightarrow> value_item list" where
  "sort_values vs = foldr insert_value vs []"

fun dedup :: "value_item list \<Rightarrow> value_item list" where
  "dedup (x # y # ys) = (if value_cmp y x = Equal then dedup (x # ys) else x # dedup (y # ys))"
| "dedup xs = xs"

definition points :: "value_item list \<Rightarrow> column_set" where
  "points v = Points (dedup (sort_values v))"

abbreviation (input) NEG_ZERO :: f64 where "NEG_ZERO \<equiv> 0x8000000000000000"

definition both_zeros :: "column_range \<Rightarrow> bool" where
  "both_zeros r =
     (case (cr_lower r, cr_upper r) of
        (Included (Double a), Included (Double b)) \<Rightarrow> f64_eq a 0 \<and> f64_eq b 0
      | _ \<Rightarrow> False)"

definition from_range :: "column_range \<Rightarrow> column_set" where
  "from_range r =
     (case equal_value r of
        Some v \<Rightarrow> Points [v]
      | None \<Rightarrow>
          if both_zeros r then points [Double NEG_ZERO, Double 0]
          else if is_empty \<lparr>kr_prefix = [], kr_lower = cr_lower r, kr_upper = cr_upper r\<rparr> then Points []
          else Range r)"

fun set_intersect :: "column_set \<Rightarrow> column_set \<Rightarrow> column_set" where
  "set_intersect (Points a) (Points b) = Points (filter (\<lambda>x. \<exists>y \<in> set b. value_cmp x y = Equal) a)"
| "set_intersect (Points p) (Range r) = Points (filter (range_contains r) p)"
| "set_intersect (Range r) (Points p) = Points (filter (range_contains r) p)"
| "set_intersect (Range a) (Range b) = from_range (range_intersect a b)"

section \<open>What a condition allows\<close>

definition NOT_NULL :: "value_item bnd" where
  "NOT_NULL = Excluded Null"

definition empty_range :: column_range where
  "empty_range = \<lparr>cr_lower = NOT_NULL, cr_upper = NOT_NULL\<rparr>"

definition all_values :: column_range where
  "all_values = \<lparr>cr_lower = NOT_NULL, cr_upper = Unbounded\<rparr>"

definition seekable :: "binary_op \<Rightarrow> bool" where
  "seekable op = (op \<in> {Eq, Lt, LtEq, Gt, GtEq})"

fun plain_range :: "binary_op \<Rightarrow> value_item \<Rightarrow> column_range" where
  "plain_range Eq v = \<lparr>cr_lower = Included v, cr_upper = Included v\<rparr>"
| "plain_range Lt v = \<lparr>cr_lower = NOT_NULL, cr_upper = Excluded v\<rparr>"
| "plain_range LtEq v = \<lparr>cr_lower = NOT_NULL, cr_upper = Included v\<rparr>"
| "plain_range Gt v = \<lparr>cr_lower = Excluded v, cr_upper = Unbounded\<rparr>"
| "plain_range GtEq v = \<lparr>cr_lower = Included v, cr_upper = Unbounded\<rparr>"
| "plain_range _ v = empty_range"

definition integer_column_range :: "binary_op \<Rightarrow> f64 \<Rightarrow> column_range option" where
  "integer_column_range op d =
     (if f64_is_nan d then None
      else let int = (\<lambda>x. Integer (saturate_i64 x)); whole = f64_whole d in
        Some (if op = Eq then
                (if whole \<and> f64_le (f64_neg TWO_63) d \<and> f64_lt d TWO_63 then plain_range op (int (f64_trunc d)) else empty_range)
              else if op = Gt \<or> op = GtEq then
                (if f64_le TWO_63 d then empty_range
                 else if f64_lt d (f64_neg TWO_63) then all_values
                 else if whole \<and> op = Gt then plain_range Gt (int (f64_trunc d))
                 else plain_range GtEq (int (f64_ceil d)))
              else
                (if f64_lt d (f64_neg TWO_63) then empty_range
                 else if f64_le TWO_63 d then all_values
                 else if whole \<and> op = Lt then plain_range Lt (int (f64_trunc d))
                 else plain_range LtEq (int (f64_floor d)))))"

definition double_column_range :: "binary_op \<Rightarrow> f64 \<Rightarrow> column_range" where
  "double_column_range op d =
     (let r = plain_range op (Double d) in
      if f64_eq d 0 then
        \<lparr>cr_lower = (case cr_lower r of
             Included _ \<Rightarrow> Included (Double NEG_ZERO)
           | Excluded (Double _) \<Rightarrow> Excluded (Double 0)
           | other \<Rightarrow> other),
         cr_upper = (case cr_upper r of
             Included _ \<Rightarrow> Included (Double 0)
           | Excluded _ \<Rightarrow> Excluded (Double NEG_ZERO)
           | other \<Rightarrow> other)\<rparr>
      else r)"

definition condition_range :: "data_type \<Rightarrow> binary_op \<Rightarrow> value_item \<Rightarrow> column_range option" where
  "condition_range datatype op value =
     (if \<not> seekable op then None
      else if value = Null then Some empty_range
      else case (datatype, value) of
          (TInteger, Integer _) \<Rightarrow> Some (plain_range op value)
        | (TStr _, Str _ _) \<Rightarrow> Some (plain_range op value)
        | (TDatetime, Datetime _) \<Rightarrow> Some (plain_range op value)
        | (TBoolean, Boolean _) \<Rightarrow> Some (plain_range op value)
        | (TInteger, Double d) \<Rightarrow> integer_column_range op d
        | (TDouble, Double d) \<Rightarrow> if f64_is_nan d then None else Some (double_column_range op d)
        | (TDouble, Integer i) \<Rightarrow> if \<bar>sint i\<bar> \<le> 2 ^ 53 then Some (double_column_range op (f64_of_i64 i)) else None
        | _ \<Rightarrow> None)"

fun flipped :: "binary_op \<Rightarrow> binary_op option" where
  "flipped Eq = Some Eq"
| "flipped Lt = Some Gt"
| "flipped LtEq = Some GtEq"
| "flipped Gt = Some Lt"
| "flipped GtEq = Some LtEq"
| "flipped _ = None"

fun constant_of :: "eval_expr \<Rightarrow> value_item option" where
  "constant_of (Literal v) = Some v"
| "constant_of (Unary UnMinus (Literal (Integer i))) = map_option Integer (checked (- sint i))"
| "constant_of (Unary UnMinus (Literal (Double d))) = Some (Double (f64_neg d))"
| "constant_of _ = None"

definition column_comparison :: "eval_expr \<Rightarrow> (nat \<times> binary_op \<times> value_item) option" where
  "column_comparison e =
     (case e of
        Binary lhs op rhs \<Rightarrow>
          if \<not> seekable op then None
          else (case (lhs, rhs) of
              (Value c, other) \<Rightarrow> map_option (\<lambda>v. (c, op, v)) (constant_of other)
            | (other, Value c) \<Rightarrow> Option.bind (flipped op) (\<lambda>op'. map_option (\<lambda>v. (c, op', v)) (constant_of other))
            | _ \<Rightarrow> None)
      | _ \<Rightarrow> None)"

fun or_terms :: "eval_expr \<Rightarrow> eval_expr list" where
  "or_terms (Binary lhs Or rhs) = or_terms lhs @ or_terms rhs"
| "or_terms other = [other]"

definition type_at :: "data_type list \<Rightarrow> nat \<Rightarrow> data_type option" where
  "type_at types c = (if c < length types then Some (types ! c) else None)"

fun or_points :: "data_type list \<Rightarrow> eval_expr list \<Rightarrow> nat option \<Rightarrow> value_item list \<Rightarrow> (nat \<times> column_set) option" where
  "or_points types [] column ps = map_option (\<lambda>c. (c, points ps)) column"
| "or_points types (t # ts) column ps =
     Option.bind (column_comparison t) (\<lambda>(c, op, value).
       if op \<noteq> Eq \<or> (column \<noteq> None \<and> column \<noteq> Some c) then None
       else Option.bind (type_at types c) (\<lambda>ty. Option.bind (condition_range ty op value) (\<lambda>r.
         case from_range r of Points p \<Rightarrow> or_points types ts (Some c) (ps @ p) | Range _ \<Rightarrow> None)))"

definition condition_set :: "eval_expr \<Rightarrow> data_type list \<Rightarrow> (nat \<times> column_set) option" where
  "condition_set f types =
     (case or_terms f of
        [single] \<Rightarrow> Option.bind (column_comparison single) (\<lambda>(c, op, value).
          Option.bind (type_at types c) (\<lambda>ty. map_option (\<lambda>r. (c, from_range r)) (condition_range ty op value)))
      | terms \<Rightarrow> or_points types terms None [])"

definition equal_points :: "data_type \<Rightarrow> value_item \<Rightarrow> value_item list option" where
  "equal_points datatype value =
     Option.bind (condition_range datatype Eq value) (\<lambda>r.
       case from_range r of Points p \<Rightarrow> Some p | Range _ \<Rightarrow> None)"

definition add_condition :: "data_type list \<Rightarrow> eval_expr \<Rightarrow> (nat \<rightharpoonup> column_set) \<Rightarrow> (nat \<rightharpoonup> column_set)" where
  "add_condition types f sets =
     (case condition_set f types of
        None \<Rightarrow> sets
      | Some (column, s) \<Rightarrow> sets(column \<mapsto> (case sets column of Some existing \<Rightarrow> set_intersect existing s | None \<Rightarrow> s)))"

definition column_sets :: "eval_expr list \<Rightarrow> data_type list \<Rightarrow> (nat \<rightharpoonup> column_set)" where
  "column_sets filters types = fold (add_condition types) filters Map.empty"

section \<open>Ranges of keys\<close>

abbreviation (input) MAX_RANGES :: nat where "MAX_RANGES \<equiv> 256"

definition extend_prefixes :: "value_item list list \<Rightarrow> value_item list \<Rightarrow> value_item list list" where
  "extend_prefixes prefixes ps = concat (map (\<lambda>p. map (\<lambda>v. p @ [v]) ps) prefixes)"

definition key_ranges_end :: "value_item list list \<Rightarrow> nat \<Rightarrow> (key_range list \<times> nat) option" where
  "key_ranges_end prefixes used = (if used = 0 then None else Some (map prefix_range prefixes, used))"

fun key_ranges_loop :: "nat list \<Rightarrow> (nat \<rightharpoonup> column_set) \<Rightarrow> value_item list list \<Rightarrow> nat \<Rightarrow> (key_range list \<times> nat) option" where
  "key_ranges_loop [] sets prefixes used = key_ranges_end prefixes used"
| "key_ranges_loop (c # cs) sets prefixes used =
     (case sets c of
        None \<Rightarrow> key_ranges_end prefixes used
      | Some (Points ps) \<Rightarrow>
          if length prefixes * length ps > MAX_RANGES then key_ranges_end prefixes used
          else (let prefixes = extend_prefixes prefixes ps in
            if prefixes = [] then key_ranges_end prefixes (used + 1)
            else key_ranges_loop cs sets prefixes (used + 1))
      | Some (Range r) \<Rightarrow>
          Some (map (\<lambda>p. \<lparr>kr_prefix = p, kr_lower = cr_lower r, kr_upper = cr_upper r\<rparr>) prefixes, used + 1))"

definition key_ranges :: "nat list \<Rightarrow> (nat \<rightharpoonup> column_set) \<Rightarrow> (key_range list \<times> nat) option" where
  "key_ranges key_columns sets = key_ranges_loop key_columns sets [[]] 0"

definition whole_number :: "value_item \<Rightarrow> int option" where
  "whole_number v = (case v of Integer i \<Rightarrow> Some (sint i) | Datetime d \<Rightarrow> Some (uint d) | _ \<Rightarrow> None)"

definition values_in_range :: "key_range \<Rightarrow> int option" where
  "values_in_range r =
     Option.bind (case kr_lower r of Included v \<Rightarrow> whole_number v | Excluded v \<Rightarrow> map_option (\<lambda>x. x + 1) (whole_number v) | Unbounded \<Rightarrow> None) (\<lambda>lo.
     Option.bind (case kr_upper r of Included v \<Rightarrow> whole_number v | Excluded v \<Rightarrow> map_option (\<lambda>x. x - 1) (whole_number v) | Unbounded \<Rightarrow> None) (\<lambda>hi.
       Some (if hi < lo then 0 else hi - lo + 1)))"

section \<open>What sets of values mean\<close>

fun in_set :: "column_set \<Rightarrow> value_item \<Rightarrow> bool" where
  "in_set (Points ps) v = (\<exists>p \<in> set ps. value_cmp v p = Equal)"
| "in_set (Range r) v = range_contains r v"

lemma range_contains_iff: "range_contains r v \<longleftrightarrow> \<not> below_lower (cr_lower r) v \<and> \<not> above_upper (cr_upper r) v"
  by (auto simp: range_contains_def split: bnd.split)

lemma tighter_lower: "below_lower (tighter a b Greater) v \<longleftrightarrow> below_lower a v \<or> below_lower b v"
proof (cases "bnd_value a = None \<or> bnd_value b = None")
  case True
  then show ?thesis by (cases a; cases b) (simp_all add: tighter_def)
next
  case False
  then obtain x y where xy: "bnd_value a = Some x" "bnd_value b = Some y" by auto
  have ab: "a = Included x \<or> a = Excluded x" "b = Included y \<or> b = Excluded y" using xy by (cases a; simp; cases b; simp)+
  show ?thesis
  proof (cases "value_cmp x y")
    case Equal
    then have "value_cmp v x = value_cmp v y" by (rule val.equal_right)
    then show ?thesis using ab Equal by (auto simp: tighter_def)
  next
    case Less
    have "value_cmp v y = Less" if "value_cmp v x \<noteq> Greater" using that Less by (rule val.le_less_trans)
    then show ?thesis using ab Less by (auto simp: tighter_def)
  next
    case Greater
    then have "value_cmp y x = Less" using val.greater_iff by simp
    then have "value_cmp v x = Less" if "value_cmp v y \<noteq> Greater" using that val.le_less_trans by blast
    then show ?thesis using ab Greater by (auto simp: tighter_def)
  qed
qed

lemma tighter_upper: "above_upper (tighter a b Less) v \<longleftrightarrow> above_upper a v \<or> above_upper b v"
proof (cases "bnd_value a = None \<or> bnd_value b = None")
  case True
  then show ?thesis by (cases a; cases b) (simp_all add: tighter_def)
next
  case False
  then obtain x y where xy: "bnd_value a = Some x" "bnd_value b = Some y" by auto
  have ab: "a = Included x \<or> a = Excluded x" "b = Included y \<or> b = Excluded y" using xy by (cases a; simp; cases b; simp)+
  have past: "value_cmp v q = Greater" if "value_cmp p q = Greater" "value_cmp v p \<noteq> Less" for p q
    using that val.less_le_trans [of q p v] val.greater_iff val.not_less by metis
  show ?thesis
  proof (cases "value_cmp x y")
    case Equal
    then have "value_cmp v x = value_cmp v y" by (rule val.equal_right)
    then show ?thesis using ab Equal by (auto simp: tighter_def)
  next
    case Less
    then have "value_cmp y x = Greater" using val.greater_iff by simp
    from past [OF this] show ?thesis using ab Less by (auto simp: tighter_def)
  next
    case Greater
    from past [OF this] show ?thesis using ab Greater by (auto simp: tighter_def)
  qed
qed

lemma range_intersect_contains: "range_contains (range_intersect a b) v \<longleftrightarrow> range_contains a v \<and> range_contains b v"
  by (auto simp: range_contains_iff range_intersect_def tighter_lower tighter_upper)

text \<open>
  A range holds a zero at an included end the way \<^verbatim>\<open>double_column_range\<close> writes it: the negative one
  below, the positive one above.
\<close>

definition zeros_ok :: "column_range \<Rightarrow> bool" where
  "zeros_ok r = (cr_lower r \<noteq> Included (Double 0) \<and> cr_upper r \<noteq> Included (Double NEG_ZERO))"

lemma tighter_either: "tighter a b w = a \<or> tighter a b w = b"
  by (auto simp: tighter_def split: option.split bnd.split)

lemma zeros_ok_intersect: "zeros_ok a \<Longrightarrow> zeros_ok b \<Longrightarrow> zeros_ok (range_intersect a b)"
  using tighter_either [of "cr_lower a" "cr_lower b" Greater] tighter_either [of "cr_upper a" "cr_upper b" Less]
  by (auto simp: zeros_ok_def range_intersect_def)

section \<open>Points\<close>

lemma set_insert_value: "set (insert_value x ys) = insert x (set ys)"
  by (induction ys) auto

lemma set_sort_values: "set (sort_values vs) = set vs"
  by (induction vs) (simp_all add: sort_values_def set_insert_value)

abbreviation (input) sorted_values :: "value_item list \<Rightarrow> bool" where
  "sorted_values \<equiv> sorted_wrt (\<lambda>a b. value_cmp a b \<noteq> Greater)"

lemma sorted_insert_value: "sorted_values ys \<Longrightarrow> sorted_values (insert_value x ys)"
proof (induction ys)
  case (Cons y ys)
  have "value_cmp y x \<noteq> Greater" if "value_cmp x y = Greater" using that val.greater_iff val.not_both by blast
  moreover have "value_cmp x z \<noteq> Greater" if "value_cmp x y \<noteq> Greater" "z \<in> set ys" for z
    using that Cons.prems val.le_trans by auto
  ultimately show ?case using Cons by (auto simp: set_insert_value)
qed simp

lemma sorted_sort_values: "sorted_values (sort_values vs)"
  by (induction vs) (simp_all add: sort_values_def sorted_insert_value)

lemma dedup_in: "(\<exists>p \<in> set (dedup xs). value_cmp v p = Equal) \<longleftrightarrow> (\<exists>p \<in> set xs. value_cmp v p = Equal)"
proof (induction xs rule: dedup.induct)
  case (1 x y ys)
  have "value_cmp v x = value_cmp v y" if "value_cmp y x = Equal" using val.equal_right [OF that] by simp
  then show ?case using 1 by auto
qed simp_all

lemma set_dedup: "set (dedup xs) \<subseteq> set xs"
  by (induction xs rule: dedup.induct) auto

lemma hd_dedup: "dedup (x # xs) = x # tl (dedup (x # xs))"
  by (induction "x # xs" arbitrary: x xs rule: dedup.induct) auto

lemma ascending_dedup: "sorted_values xs \<Longrightarrow> val.ascending (dedup xs)"
proof (induction xs rule: dedup.induct)
  case (1 x y ys)
  show ?case
  proof (cases "value_cmp y x = Equal")
    case False
    then have "value_cmp x y = Less" using 1(3) val.equal_sym by (cases "value_cmp x y") auto
    then have "value_cmp x z = Less" if "z \<in> set (dedup (y # ys))" for z
      using that set_dedup [of "y # ys"] 1(3) val.less_le_trans by fastforce
    then show ?thesis using 1 False by simp
  qed (use 1 in simp)
qed simp_all

lemma points_ok: "in_set (points vs) v \<longleftrightarrow> (\<exists>p \<in> set vs. value_cmp v p = Equal)" "\<exists>ps. points vs = Points ps \<and> val.ascending ps"
  by (simp_all add: points_def dedup_in set_sort_values ascending_dedup sorted_sort_values)

text \<open>The sets conditions build: points in ascending order, or a range.\<close>

fun set_ok :: "column_set \<Rightarrow> bool" where
  "set_ok (Points ps) = val.ascending ps"
| "set_ok (Range r) = zeros_ok r"

lemma f64_zero: "f64_eq a 0 \<longleftrightarrow> a = 0 \<or> a = NEG_ZERO"
proof -
  have "f64_low 0 = 0" "f64_low NEG_ZERO = 0" "f64_neg_bit NEG_ZERO" "\<not> f64_neg_bit 0" by (simp_all add: f64_low_def f64_neg_bit_def)
  then show ?thesis using f64_val_eqD [of a 0] f64_eqI [of a NEG_ZERO] f64_eqI [of a 0]
    by (auto simp: f64_eq_def f64_partial_cmp_def f64_is_nan_def f64_val_def)
qed

lemma total_cmp_zeros: "total_cmp NEG_ZERO 0 = Less" "total_cmp v NEG_ZERO = Less \<longleftrightarrow> f64_val v < 0" "total_cmp 0 v = Less \<longleftrightarrow> 0 < f64_val v"
  by (simp_all add: total_cmp_Less) (simp_all add: f64_low_def f64_neg_bit_def f64_val_def f64_mag_def)

section \<open>Ranges and intersections\<close>

lemma equal_value_in: "equal_value r = Some a \<Longrightarrow> range_contains r v \<longleftrightarrow> value_cmp v a = Equal"
proof -
  assume "equal_value r = Some a"
  then obtain b where r: "cr_lower r = Included a" "cr_upper r = Included b" "value_cmp a b = Equal"
    by (auto simp: equal_value_def split: bnd.splits if_splits)
  then have "value_cmp v a = value_cmp v b" by (intro val.equal_right)
  then show ?thesis using r by (cases "value_cmp v b") (simp_all add: range_contains_def)
qed

lemma is_empty_in: "is_empty \<lparr>kr_prefix = [], kr_lower = cr_lower r, kr_upper = cr_upper r\<rparr> \<Longrightarrow> \<not> range_contains r v"
proof
  assume e: "is_empty \<lparr>kr_prefix = [], kr_lower = cr_lower r, kr_upper = cr_upper r\<rparr>" and c: "range_contains r v"
  obtain lo hi where b: "bnd_value (cr_lower r) = Some lo" "bnd_value (cr_upper r) = Some hi" "value_cmp lo hi \<noteq> Less"
    using e by (auto simp: is_empty_def split: bnd.splits option.splits)
  have l: "cr_lower r = Included lo \<and> value_cmp lo v \<noteq> Greater \<or> cr_lower r = Excluded lo \<and> value_cmp lo v = Less"
    using c b(1) val.not_less [of v lo] val.greater_iff [of v lo] by (cases "cr_lower r") (simp_all add: range_contains_def)
  have u: "cr_upper r = Included hi \<and> value_cmp v hi \<noteq> Greater \<or> cr_upper r = Excluded hi \<and> value_cmp v hi = Less"
    using c b(2) by (cases "cr_upper r") (simp_all add: range_contains_def)
  show False
  proof (cases "cr_lower r = Included lo \<and> cr_upper r = Included hi")
    case True
    then show ?thesis using e l u val.le_trans [of lo v hi] by (simp add: is_empty_def)
  next
    case False
    then show ?thesis using l u b(3) val.le_less_trans [of lo v hi] val.less_le_trans [of lo v hi] by auto
  qed
qed

lemma zero_points: "val.ascending (dedup (sort_values [Double NEG_ZERO, Double 0]))"
  "in_set (points [Double NEG_ZERO, Double 0]) v \<longleftrightarrow> v = Double NEG_ZERO \<or> v = Double 0"
  by (simp_all add: ascending_dedup sorted_sort_values points_ok(1) value_cmp_Equal) (cases v, auto)

lemma both_zerosD:
  assumes "both_zeros r"
  obtains a b where "cr_lower r = Included (Double a)" "cr_upper r = Included (Double b)" "f64_eq a 0" "f64_eq b 0"
proof -
  obtain x y where xy: "cr_lower r = Included x" "cr_upper r = Included y"
    using assms by (cases "cr_lower r"; cases "cr_upper r") (simp_all add: both_zeros_def split: value_item.splits)
  show ?thesis using assms that by (cases x; cases y) (simp_all add: both_zeros_def xy)
qed

lemma from_range_in:
  assumes "zeros_ok r"
  shows "in_set (from_range r) v \<longleftrightarrow> range_contains r v" "set_ok (from_range r)"
proof -
  have "(in_set (from_range r) v \<longleftrightarrow> range_contains r v) \<and> set_ok (from_range r)"
  proof (cases "equal_value r")
    case (Some a)
    then show ?thesis using equal_value_in [OF Some, of v] by (simp add: from_range_def)
  next
    case None
    show ?thesis
    proof (cases "both_zeros r")
      case True
      from both_zerosD [OF this] have r: "cr_lower r = Included (Double NEG_ZERO)" "cr_upper r = Included (Double 0)"
        using assms unfolding zeros_ok_def f64_zero by metis+
      have f: "from_range r = points [Double NEG_ZERO, Double 0]" using None True by (simp add: from_range_def)
      have "range_contains r v \<longleftrightarrow> v = Double NEG_ZERO \<or> v = Double 0"
      proof (cases v)
        case (Double d)
        have "total_cmp d 0 = Greater \<longleftrightarrow> 0 < f64_val d" using val.greater_iff [of "Double d" "Double 0"] total_cmp_zeros(3) by simp
        then have "range_contains r v \<longleftrightarrow> f64_val d = 0"
          by (auto simp: range_contains_def r Double total_cmp_zeros simp del: f64_val_0)
        also have "\<dots> \<longleftrightarrow> f64_eq d 0"
          by (simp add: f64_eq_def f64_partial_cmp_def f64_is_nan_def) (simp add: f64_low_def f64_val_def f64_mag_def)
        finally show ?thesis unfolding f64_zero using Double by auto
      qed (simp_all add: range_contains_def r)
      then show ?thesis using f zero_points by (simp add: points_def)
    next
      case False
      then have "from_range r = (if is_empty \<lparr>kr_prefix = [], kr_lower = cr_lower r, kr_upper = cr_upper r\<rparr> then Points [] else Range r)"
        by (simp add: from_range_def None)
      then show ?thesis using is_empty_in [of r v] assms by simp
    qed
  qed
  then show "in_set (from_range r) v \<longleftrightarrow> range_contains r v" "set_ok (from_range r)" by blast+
qed

lemma range_contains_cong: "value_cmp x y = Equal \<Longrightarrow> range_contains r x = range_contains r y"
  using val.equal_left [of x y] by (auto simp: range_contains_def split: bnd.split)

lemma set_intersect_in:
  assumes "set_ok a" "set_ok b"
  shows "in_set (set_intersect a b) v \<longleftrightarrow> in_set a v \<and> in_set b v" "set_ok (set_intersect a b)"
proof -
  have eq: "value_cmp x y = Equal" if "value_cmp v x = Equal" "value_cmp v y = Equal" for x y
    using that val.equal_left val.equal_sym by metis
  have both: "(\<exists>x \<in> set p. (\<exists>y \<in> set q. value_cmp x y = Equal) \<and> value_cmp v x = Equal)
      \<longleftrightarrow> (\<exists>x \<in> set p. value_cmp v x = Equal) \<and> (\<exists>y \<in> set q. value_cmp v y = Equal)" for p q
    using eq val.equal_right by metis
  have "(in_set (set_intersect a b) v \<longleftrightarrow> in_set a v \<and> in_set b v) \<and> set_ok (set_intersect a b)"
  proof (cases a; cases b)
    fix p q assume "a = Points p" "b = Points q"
    then show ?thesis using assms both [of p q] by (simp add: sorted_wrt_filter) blast
  next
    fix p r assume "a = Points p" "b = Range r"
    then show ?thesis using assms range_contains_cong [of v _ r] by (simp add: sorted_wrt_filter) blast
  next
    fix p r assume "a = Range r" "b = Points p"
    then show ?thesis using assms range_contains_cong [of v _ r] by (simp add: sorted_wrt_filter) blast
  next
    fix r r' assume ab: "a = Range r" "b = Range r'"
    then have "zeros_ok (range_intersect r r')" using assms by (simp add: zeros_ok_intersect)
    from from_range_in(1) [OF this, of v] from_range_in(2) [OF this] show ?thesis using ab range_intersect_contains [of r r' v] by simp
  qed
  then show "in_set (set_intersect a b) v \<longleftrightarrow> in_set a v \<and> in_set b v" "set_ok (set_intersect a b)" by blast+
qed

end
