(* ===== verification/Sarg_Exact.thy ===== *)
theory Sarg_Exact
  imports Sarg
begin

text \<open>
  The set \<^verbatim>\<open>condition_set\<close> makes of a condition holds exactly the values the evaluator's condition is
  true of: for plain comparisons, for an integer column against a double, for a double column with
  its two zeros, and for an OR of equalities. A NaN in the column is the exception: the evaluator
  refuses to order it, and the ranges of a double column may hold it.
\<close>

section \<open>Comparing with a constant\<close>

fun op_test :: "binary_op \<Rightarrow> ordering \<Rightarrow> bool" where
  "op_test Eq c = (c = Equal)"
| "op_test Lt c = (c = Less)"
| "op_test LtEq c = (c \<noteq> Greater)"
| "op_test Gt c = (c = Greater)"
| "op_test GtEq c = (c \<noteq> Less)"
| "op_test _ c = False"

text \<open>A value a column of the type stores, and the NaNs.\<close>

fun fits_type :: "data_type \<Rightarrow> value_item \<Rightarrow> bool" where
  "fits_type t Null = True"
| "fits_type TInteger (Integer _) = True"
| "fits_type TDouble (Double _) = True"
| "fits_type TDatetime (Datetime _) = True"
| "fits_type (TStr _) (Str _ _) = True"
| "fits_type (TBlob _) (Blob _ _) = True"
| "fits_type TBoolean (Boolean _) = True"
| "fits_type _ _ = False"

fun nan_value :: "value_item \<Rightarrow> bool" where
  "nan_value (Double d) = f64_is_nan d"
| "nan_value _ = False"

lemma seekable_cases:
  assumes "seekable op"
  obtains "op = Eq" | "op = Lt" | "op = LtEq" | "op = Gt" | "op = GtEq"
  using assms by (auto simp: seekable_def)

lemma binary_test:
  assumes "seekable op" "v \<noteq> Null" "c \<noteq> Null"
    and "sql_compare v c op = Inr ord" "values_equal v c op = Inr (ord = Equal)"
  shows "binary v c op = Inr (Boolean (op_test op ord))"
  using assms(1) by (cases rule: seekable_cases) (use assms in \<open>simp_all add: binary_def as_bool_def\<close>)

lemma plain_range_in:
  assumes "seekable op" "c \<noteq> Null"
  shows "range_contains (plain_range op c) v \<longleftrightarrow> v \<noteq> Null \<and> op_test op (value_cmp v c)"
proof -
  have null: "value_cmp v Null = Greater \<longleftrightarrow> v \<noteq> Null" for v by (cases v) simp_all
  have low: "value_cmp Null c = Less" using assms(2) by (cases c) simp_all
  show ?thesis using assms(1)
    by (cases rule: seekable_cases) (use low in \<open>cases "value_cmp v c"; force simp: range_contains_def NOT_NULL_def null\<close>)+
qed

lemma empty_range_in: "\<not> range_contains empty_range v"
  by (cases v) (simp_all add: range_contains_def empty_range_def NOT_NULL_def)

lemma all_values_in: "range_contains all_values v \<longleftrightarrow> v \<noteq> Null"
  by (cases v) (simp_all add: range_contains_def all_values_def NOT_NULL_def)

section \<open>An integer column against a double\<close>

lemma compare_int_double:
  assumes "\<not> f64_is_nan d"
  shows "sql_compare (Integer i) (Double d) op = Inr (ord_cmp (sint i * int f64_unit) (f64_val d))"
    "values_equal (Integer i) (Double d) op = Inr (ord_cmp (sint i * int f64_unit) (f64_val d) = Equal)"
    "sql_compare (Double d) (Integer i) op = Inr (ord_cmp (f64_val d) (sint i * int f64_unit))"
    "values_equal (Double d) (Integer i) op = Inr (ord_cmp (f64_val d) (sint i * int f64_unit) = Equal)"
  using assms by (auto simp: sql_compare_def values_equal_def cmp_int_double_exact reverse_ord_cmp ok_or_def)

lemma f64_in_range:
  assumes "\<not> f64_is_nan d" "\<not> f64_le TWO_63 d" "\<not> f64_lt d (f64_neg TWO_63)"
  shows "- (2 ^ 63) * int f64_unit \<le> f64_val d" "f64_val d < 2 ^ 63 * int f64_unit" "f64_finite d"
proof -
  show v: "- (2 ^ 63) * int f64_unit \<le> f64_val d" "f64_val d < 2 ^ 63 * int f64_unit"
    using assms by (simp_all add: f64_cmp_iff TWO_63_val)
  have "(2 :: int) ^ 63 * int f64_unit < 2 ^ 64 * int f64_unit" unfolding scaled_less_iff by simp
  then show "f64_finite d" using v f64_infinite [of d] assms(1) by linarith
qed

lemma f64_floor_iff: "x \<le> f64_floor d \<longleftrightarrow> x * int f64_unit \<le> f64_val d"
proof -
  have "x \<le> y div u \<longleftrightarrow> x * u \<le> y" if "0 < u" for u y :: int
  proof
    assume "x \<le> y div u"
    then have "x * u \<le> y div u * u" using that by (simp add: mult_right_mono)
    also have "\<dots> \<le> y" using that by (metis div_mult_mod_eq le_add_same_cancel1 pos_mod_sign)
    finally show "x * u \<le> y" .
  next
    assume "x * u \<le> y"
    then show "x \<le> y div u" using that by (metis nonzero_mult_div_cancel_right less_irrefl zdiv_mono1)
  qed
  then show ?thesis by (simp add: f64_floor_def)
qed

lemma f64_ceil_iff: "f64_ceil d \<le> x \<longleftrightarrow> f64_val d \<le> x * int f64_unit"
  using f64_floor_iff [of "- x" "f64_neg d"] by (auto simp: f64_floor_def f64_ceil_def)

lemma f64_not_whole: "\<not> f64_whole d \<Longrightarrow> f64_finite d \<Longrightarrow> f64_val d \<noteq> x * int f64_unit"
  using f64_wholeI by blast

lemma f64_whole_ceil: "f64_whole d \<Longrightarrow> f64_ceil d = f64_trunc d"
  by (rule order.antisym) (simp_all add: f64_ceil_iff f64_whole_val, metis f64_ceil_iff f64_whole_val scaled_less_iff(3) order_refl)

lemma f64_ints_in_range:
  assumes "\<not> f64_is_nan d" "\<not> f64_le TWO_63 d" "\<not> f64_lt d (f64_neg TWO_63)"
  shows "sint (saturate_i64 (f64_trunc d)) = f64_trunc d" "sint (saturate_i64 (f64_floor d)) = f64_floor d"
    "sint (saturate_i64 (f64_ceil d)) = f64_ceil d"
proof -
  note v = f64_in_range [OF assms]
  show "sint (saturate_i64 (f64_trunc d)) = f64_trunc d"
    by (rule saturate_id) (use f64_trunc_range [OF assms(2,3,1)] in simp_all)
  have "\<not> 2 ^ 63 \<le> f64_floor d" "- (2 ^ 63) \<le> f64_floor d" unfolding f64_floor_iff using v by linarith+
  then show "sint (saturate_i64 (f64_floor d)) = f64_floor d" by (intro saturate_id) linarith+
  have "f64_ceil d < 2 ^ 63"
  proof (cases "f64_whole d")
    case True
    then show ?thesis using f64_trunc_range [OF assms(2,3,1)] by (simp add: f64_whole_ceil)
  next
    case False
    then have "f64_mag (f64_low d) < 2 ^ 53 * f64_unit" using f64_big_whole [OF v(3)] by (meson not_le)
    then have "int (f64_mag (f64_low d)) < 2 ^ 53 * int f64_unit"
      by (metis of_nat_less_iff of_nat_mult of_nat_numeral of_nat_power)
    then have "f64_val d \<le> 2 ^ 53 * int f64_unit" by (simp add: f64_val_def)
    then have "f64_ceil d \<le> 2 ^ 53" by (simp only: f64_ceil_iff)
    then show ?thesis by simp
  qed
  moreover have "- (2 ^ 63) \<le> f64_ceil d"
  proof (rule ccontr)
    assume "\<not> - (2 ^ 63) \<le> f64_ceil d"
    then have "f64_ceil d \<le> - (2 ^ 63) - 1" by linarith
    then have "f64_val d \<le> (- (2 ^ 63) - 1) * int f64_unit" by (simp only: f64_ceil_iff)
    moreover have "(- (2 ^ 63) - 1) * int f64_unit < - (2 ^ 63) * int f64_unit" unfolding scaled_less_iff by simp
    ultimately show False using v(1) by linarith
  qed
  ultimately show "sint (saturate_i64 (f64_ceil d)) = f64_ceil d" by (intro saturate_id)
qed

lemma integer_column_range_in:
  assumes "seekable op" "integer_column_range op d = Some r"
  shows "range_contains r (Integer i) \<longleftrightarrow> op_test op (ord_cmp (sint i * int f64_unit) (f64_val d))"
proof -
  let ?x = "sint i" and ?u = "int f64_unit" and ?v = "f64_val d"
  have nan: "\<not> f64_is_nan d" using assms(2) by (auto simp: integer_column_range_def)
  note r = assms(2) [unfolded integer_column_range_def, simplified nan Let_def if_False option.inject, symmetric]
  have x: "- (2 ^ 63) * ?u \<le> ?x * ?u" "?x * ?u < 2 ^ 63 * ?u"
    unfolding scaled_less_iff by (rule sint_i64_bounds)+
  have cmp: "f64_le TWO_63 d \<longleftrightarrow> 2 ^ 63 * ?u \<le> ?v" "f64_lt d (f64_neg TWO_63) \<longleftrightarrow> ?v < - (2 ^ 63) * ?u"
    using nan by (simp_all add: f64_cmp_iff TWO_63_val)
  have big: "?x * ?u < ?v" if "f64_le TWO_63 d" using that x unfolding cmp by linarith
  have small: "?v < ?x * ?u" if "f64_lt d (f64_neg TWO_63)" using that x unfolding cmp by linarith
  have excl: "\<not> (f64_le TWO_63 d \<and> f64_lt d (f64_neg TWO_63))" using big small by (meson less_asym)
  have plain: "range_contains (plain_range op (Integer y)) (Integer i) \<longleftrightarrow> op_test op (ord_cmp ?x (sint y))" if "seekable op" for op y
    using plain_range_in [OF that] by simp
  show ?thesis
  proof (cases "f64_le TWO_63 d \<or> f64_lt d (f64_neg TWO_63)")
    case True
    have eq: "\<not> (f64_le (f64_neg TWO_63) d \<and> f64_lt d TWO_63)" using True nan by (auto simp: f64_cmp_iff TWO_63_val)
    show ?thesis
    proof (cases "f64_le TWO_63 d")
      case le: True
      then have "ord_cmp (?x * ?u) ?v = Less" using big by simp
      then show ?thesis using excl eq le
        by (cases rule: seekable_cases [OF assms(1)]) (auto simp: r empty_range_in all_values_in)
    next
      case le: False
      then have lt: "f64_lt d (f64_neg TWO_63)" using True by blast
      then have "ord_cmp (?x * ?u) ?v = Greater" using small by simp
      then show ?thesis using lt le eq
        by (cases rule: seekable_cases [OF assms(1)]) (auto simp: r empty_range_in all_values_in)
    qed
  next
    case False
    then have in_range: "\<not> f64_le TWO_63 d" "\<not> f64_lt d (f64_neg TWO_63)" by blast+
    then have cond: "f64_le (f64_neg TWO_63) d" "f64_lt d TWO_63" using nan by (simp_all add: f64_cmp_iff TWO_63_val)
    note ints = f64_ints_in_range [OF nan in_range]
    have fin: "f64_finite d" by (rule f64_in_range [OF nan in_range])
    show ?thesis
    proof (cases "f64_whole d")
      case True
      have v: "?v = f64_trunc d * ?u" by (rule f64_whole_val [OF True])
      have "op_test op (ord_cmp (?x * ?u) ?v) \<longleftrightarrow> op_test op (ord_cmp ?x (f64_trunc d))" for op
        unfolding v by (cases op) (simp_all add: scaled_less_iff del: mult_less_cancel_right mult_cancel_right)
      moreover have "f64_floor d = f64_trunc d" using f64_floor_iff [of _ d] unfolding v scaled_less_iff by (metis order.antisym order_refl)
      ultimately show ?thesis
        by (cases rule: seekable_cases [OF assms(1)]) (use True in_range cond ints f64_whole_ceil [OF True] in \<open>simp_all add: r plain seekable_def del: plain_range.simps\<close>)
    next
      case nw: False
      have ne: "?v \<noteq> ?x * ?u" by (rule f64_not_whole [OF nw fin])
      have "?x < f64_ceil d \<longleftrightarrow> ?x * ?u < ?v" "f64_floor d < ?x \<longleftrightarrow> ?v < ?x * ?u"
        using f64_ceil_iff [of d ?x] f64_floor_iff [of ?x d] by linarith+
      then show ?thesis
        by (cases rule: seekable_cases [OF assms(1)])
          (use nw ne in_range cond ints in \<open>auto simp: r plain seekable_def empty_range_in simp del: plain_range.simps\<close>)
    qed
  qed
qed

lemma integer_column_range_shape:
  assumes "seekable op" "integer_column_range op d = Some r"
  shows "r = empty_range \<or> r = all_values \<or> (\<exists>op' i. seekable op' \<and> r = plain_range op' (Integer i))"
  by (cases rule: seekable_cases [OF assms(1)])
    (use assms(2) in \<open>auto simp: integer_column_range_def Let_def seekable_def split: if_splits\<close>)

section \<open>A double column\<close>

lemma compare_doubles:
  assumes "\<not> f64_is_nan a" "\<not> f64_is_nan b"
  shows "sql_compare (Double a) (Double b) op = Inr (ord_cmp (f64_val a) (f64_val b))"
    "values_equal (Double a) (Double b) op = Inr (ord_cmp (f64_val a) (f64_val b) = Equal)"
  using assms f64_cmp_iff(2) [OF assms]
  by (simp_all add: sql_compare_def values_equal_def same_type_def f64_partial_cmp_def ok_or_def)

lemma total_cmp_val:
  assumes "f64_low b \<noteq> 0"
  shows "total_cmp a b = ord_cmp (f64_val a) (f64_val b)"
proof -
  have "total_cmp a b = Less \<longleftrightarrow> f64_val a < f64_val b" using assms by (simp add: total_cmp_Less)
  moreover have "total_cmp a b = Greater \<longleftrightarrow> f64_val b < f64_val a"
    using val.greater_iff [of "Double a" "Double b"] assms by (simp add: total_cmp_Less)
  ultimately show ?thesis by (metis ord_cmp_simps ordering.exhaust)
qed

lemma total_cmp_zeros': "total_cmp v 0 = Greater \<longleftrightarrow> 0 < f64_val v"
  using val.greater_iff [of "Double v" "Double 0"] total_cmp_zeros(3) by simp

lemma double_column_range_in:
  assumes "seekable op" "\<not> f64_is_nan d"
  shows "range_contains (double_column_range op d) (Double e) \<longleftrightarrow> op_test op (ord_cmp (f64_val e) (f64_val d))"
    "\<not> range_contains (double_column_range op d) Null" "zeros_ok (double_column_range op d)"
proof -
  have "(range_contains (double_column_range op d) (Double e) \<longleftrightarrow> op_test op (ord_cmp (f64_val e) (f64_val d)))
    \<and> \<not> range_contains (double_column_range op d) Null \<and> zeros_ok (double_column_range op d)"
  proof (cases "f64_eq d 0")
    case True
    then have v: "f64_val d = 0" unfolding f64_zero by (auto simp: f64_low_def)
    show ?thesis using assms(1)
      by (cases rule: seekable_cases)
        (auto simp: v double_column_range_def True range_contains_def NOT_NULL_def total_cmp_zeros total_cmp_zeros' zeros_ok_def
          simp del: f64_val_0)
  next
    case False
    have low: "f64_low d \<noteq> 0"
    proof
      assume "f64_low d = 0"
      then have "f64_eq d 0" by (simp add: f64_eq_def f64_partial_cmp_def f64_is_nan_def f64_val_def) (simp add: f64_low_def)
      then show False using False by blast
    qed
    have "d \<noteq> 0" "d \<noteq> NEG_ZERO" using False unfolding f64_zero by blast+
    then have "zeros_ok (plain_range op (Double d))" by (cases op) (simp_all add: zeros_ok_def NOT_NULL_def empty_range_def)
    then show ?thesis using plain_range_in [OF assms(1), of "Double d"] False
      by (simp add: double_column_range_def total_cmp_val [OF low])
  qed
  then show "range_contains (double_column_range op d) (Double e) \<longleftrightarrow> op_test op (ord_cmp (f64_val e) (f64_val d))"
    "\<not> range_contains (double_column_range op d) Null" "zeros_ok (double_column_range op d)" by blast+
qed

lemma nan_unequal:
  assumes "f64_is_nan e" "seekable op" "c = Double d \<or> c = Integer i"
  shows "binary (Double e) c op \<noteq> Inr (Boolean True)"
  by (cases rule: seekable_cases [OF assms(2)])
    (use assms(1,3) in \<open>auto simp: binary_def values_equal_def sql_compare_def same_type_def as_bool_def ok_or_def f64_eq_def
      f64_partial_cmp_def cmp_int_double_def\<close>)

section \<open>A condition's range\<close>

lemma plain_zeros_ok: "(\<And>d. c \<noteq> Double d) \<Longrightarrow> zeros_ok (plain_range op c)"
  by (cases op) (simp_all add: zeros_ok_def NOT_NULL_def empty_range_def)

lemma binary_null: "seekable op \<Longrightarrow> v = Null \<or> c = Null \<Longrightarrow> binary v c op = Inr Null"
  by (auto simp: binary_def seekable_def)

text \<open>The value and the constant have one type, and it has an order of its own.\<close>

lemma condition_range_plain:
  assumes "seekable op" "v \<noteq> Null" "c \<noteq> Null" "type_rank v = type_rank c" "\<And>d. v \<noteq> Double d" "\<And>b n. v \<noteq> Blob b n"
  shows "binary v c op = Inr (Boolean True) \<longleftrightarrow> range_contains (plain_range op c) v"
proof -
  have "sql_compare v c op = Inr (value_cmp v c)" "values_equal v c op = Inr (value_cmp v c = Equal)"
    using assms(2-) by (cases v; cases c; simp add: sql_compare_def values_equal_def same_type_def)+
  from binary_test [OF assms(1-3) this] show ?thesis using assms(2) by (simp add: plain_range_in [OF assms(1,3)])
qed

lemma condition_range_cases:
  assumes "condition_range ty op c = Some r" "c \<noteq> Null"
  obtains (plain) "r = plain_range op c" "fits_type ty c" "ty \<noteq> TDouble" "\<forall>n. ty \<noteq> TBlob n"
    | (mixed) d where "ty = TInteger" "c = Double d" "integer_column_range op d = Some r"
    | (double) d where "ty = TDouble" "c = Double d" "\<not> f64_is_nan d" "r = double_column_range op d"
    | (int) i where "ty = TDouble" "c = Integer i" "\<bar>sint i\<bar> \<le> 2 ^ 53" "r = double_column_range op (f64_of_i64 i)"
  using assms by (cases ty; cases c) (simp_all add: condition_range_def split: if_splits)

lemma fits_type_shape:
  assumes "fits_type ty v" "v \<noteq> Null"
  shows "ty = TInteger \<Longrightarrow> \<exists>i. v = Integer i" "ty = TDouble \<Longrightarrow> \<exists>d. v = Double d"
    "ty \<noteq> TDouble \<Longrightarrow> v \<noteq> Double d" "\<forall>n. ty \<noteq> TBlob n \<Longrightarrow> v \<noteq> Blob b m"
  using assms by (cases v; cases ty; simp)+

lemma fits_type_rank: "fits_type ty v \<Longrightarrow> fits_type ty c \<Longrightarrow> v \<noteq> Null \<Longrightarrow> c \<noteq> Null \<Longrightarrow> type_rank v = type_rank c"
  by (cases ty; cases v; simp; cases c; simp)

lemma condition_range_exact:
  assumes r: "condition_range ty op c = Some r" and v: "fits_type ty v"
  shows "zeros_ok r" "binary v c op = Inr (Boolean True) \<longleftrightarrow> range_contains r v \<and> \<not> nan_value v"
proof -
  have op: "seekable op" using r by (auto simp: condition_range_def split: if_splits)
  have "zeros_ok r \<and> (binary v c op = Inr (Boolean True) \<longleftrightarrow> range_contains r v \<and> \<not> nan_value v)"
  proof (cases "c = Null")
    case True
    then have "r = empty_range" using r op by (simp add: condition_range_def)
    then show ?thesis using binary_null [OF op, of v c] True empty_range_in by (simp add: zeros_ok_def empty_range_def NOT_NULL_def)
  next
    case c: False
    from r c show ?thesis
    proof (cases rule: condition_range_cases)
      case plain
      have z: "zeros_ok r" using plain fits_type_shape(3) [OF plain(2) c] by (simp add: plain_zeros_ok)
      show ?thesis
      proof (cases "v = Null")
        case False
        note s = fits_type_shape(3,4) [OF v False]
        have "\<not> nan_value v" using s(1) [OF plain(3)] by (cases v) auto
        then show ?thesis
          using condition_range_plain [OF op False c fits_type_rank [OF v plain(2) False c] s(1) [OF plain(3)] s(2) [OF plain(4)]] z
          by (simp add: plain(1))
      qed (use z in \<open>simp add: plain(1) binary_null [OF op] plain_range_in [OF op c]\<close>)
    next
      case (mixed d)
      have z: "zeros_ok r" "\<not> range_contains r Null"
        using integer_column_range_shape [OF op mixed(3)] plain_range_in plain_zeros_ok empty_range_in all_values_in
        by (auto simp: zeros_ok_def empty_range_def all_values_def NOT_NULL_def)
      have nan: "\<not> f64_is_nan d" using mixed(3) by (auto simp: integer_column_range_def)
      show ?thesis
      proof (cases "v = Null")
        case False
        then obtain i where i: "v = Integer i" using fits_type_shape(1) [OF v] mixed(1) by blast
        show ?thesis
          using binary_test [OF op _ _ compare_int_double(1,2) [OF nan]] integer_column_range_in [OF op mixed(3)] z
          by (simp add: i mixed(2))
      qed (use z binary_null [OF op] in simp)
    next
      case (double d)
      note d = double_column_range_in [OF op double(3)]
      show ?thesis
      proof (cases "v = Null")
        case False
        then obtain e where e: "v = Double e" using fits_type_shape(2) [OF v] double(1) by blast
        show ?thesis
        proof (cases "f64_is_nan e")
          case True
          then show ?thesis using nan_unequal [OF True op] d by (simp add: e double)
        next
          case nan: False
          then show ?thesis using binary_test [OF op _ _ compare_doubles [OF nan double(3)]] d by (simp add: e double)
        qed
      qed (use d binary_null [OF op] double in simp)
    next
      case (int i)
      note x = f64_of_i64_exact [OF int(3)]
      note d = double_column_range_in [OF op x(1)]
      show ?thesis
      proof (cases "v = Null")
        case False
        then obtain e where e: "v = Double e" using fits_type_shape(2) [OF v] int(1) by blast
        show ?thesis
        proof (cases "f64_is_nan e")
          case True
          then show ?thesis using nan_unequal [OF True op] d by (simp add: e int)
        next
          case nan: False
          then show ?thesis using binary_test [OF op _ _ compare_int_double(3,4) [OF nan]] d by (simp add: e int x(2))
        qed
      qed (use d binary_null [OF op] int in simp)
    qed
  qed
  then show "zeros_ok r" "binary v c op = Inr (Boolean True) \<longleftrightarrow> range_contains r v \<and> \<not> nan_value v" by blast+
qed

end
