(* ===== verification/Sarg_Seek.thy ===== *)
theory Sarg_Seek
  imports Sarg_Exact
begin

text \<open>
  Seeking is filtering: the ranges of keys that \<^verbatim>\<open>key_ranges\<close> makes of the conditions on the columns of
  a key, scanned one after the other, yield exactly the rows all those conditions are true of, in
  key order and each once.
\<close>

section \<open>What a condition evaluates to\<close>

lemma constant_of_eval: "constant_of e = Some c \<Longrightarrow> eval T row e = Inr c"
proof (induction e rule: constant_of.induct)
  case (2 i)
  then show ?case by (auto simp: checked_def split: if_splits)
qed auto

lemma reverse_ord_twice [simp]: "reverse_ord (reverse_ord x) = x"
  by (cases x) simp_all

lemma sql_compare_flip: "sql_compare c v op = Inr x \<Longrightarrow> sql_compare v c op' = Inr (reverse_ord x)"
proof -
  have dbl: "f64_partial_cmp a b = Some x \<Longrightarrow> f64_partial_cmp b a = Some (reverse_ord x)" for a b
    by (auto simp: f64_partial_cmp_def reverse_ord_cmp split: if_splits)
  have ok: "ok_or e z = Inr x \<longleftrightarrow> z = Some x" for e :: schema_error and z and x :: ordering by (cases z) simp_all
  assume "sql_compare c v op = Inr x"
  then show ?thesis
    by (cases c; cases v) (auto simp: sql_compare_def same_type_def ok reverse_ord_cmp slice_cmp_reverse dest: dbl)
qed

lemma values_equal_flip: "values_equal c v op = Inr b \<longleftrightarrow> values_equal v c op' = Inr b"
proof -
  have eq: "map_option reverse_ord z = Some Equal \<longleftrightarrow> z = Some Equal" for z by (cases z; cases "the z") simp_all
  have dbl: "f64_eq x y \<longleftrightarrow> f64_eq y x" for x y by (auto simp: f64_eq_def f64_partial_cmp_def)
  show ?thesis by (cases c; cases v) (auto simp: values_equal_def same_type_def eq dbl)
qed

lemma binary_flip:
  assumes "flipped op = Some op'"
  shows "binary c v op = Inr (Boolean True) \<longleftrightarrow> binary v c op' = Inr (Boolean True)"
proof -
  have cmp: "as_bool f (sql_compare c v op) = Inr (Boolean True) \<longleftrightarrow> (\<exists>x. sql_compare c v op = Inr x \<and> f x)" for c v op f
    by (cases "sql_compare c v op") (simp_all add: as_bool_def)
  have eq: "r_bind (values_equal c v op) (\<lambda>b. Inr (Boolean b)) = Inr (Boolean True) \<longleftrightarrow> values_equal c v op = Inr True" for c v op
    by (cases "values_equal c v op") simp_all
  have ex: "(\<exists>x. sql_compare c v op = Inr x \<and> f x) \<longleftrightarrow> (\<exists>x. sql_compare v c op' = Inr x \<and> f (reverse_ord x))" for f op op'
    using sql_compare_flip [of c v op _ op'] sql_compare_flip [of v c op' _ op] by (metis reverse_ord_twice)
  have rev: "reverse_ord x = Less \<longleftrightarrow> x = Greater" "reverse_ord x = Greater \<longleftrightarrow> x = Less" for x by (cases x; simp)+
  show ?thesis
    using assms ex [of Lt "\<lambda>x. x = Less" Gt] ex [of LtEq "\<lambda>x. x \<noteq> Greater" GtEq] ex [of Gt "\<lambda>x. x = Greater" Lt] ex [of GtEq "\<lambda>x. x \<noteq> Less" LtEq]
    by (cases op) (simp_all add: binary_def cmp eq rev values_equal_flip [of c v Eq _ Eq] disj_commute)
qed

lemma column_comparison_eval:
  assumes "column_comparison e = Some (c, op, value)" "c < length row"
  shows "seekable op" "eval T row e = Inr (Boolean True) \<longleftrightarrow> binary (row ! c) value op = Inr (Boolean True)"
proof -
  obtain l o' r where e: "e = Binary l o' r" and s: "seekable o'" using assms(1) by (auto simp: column_comparison_def split: eval_expr.splits if_splits)
  have flip: "flipped o' = Some op \<Longrightarrow> seekable op" using s by (cases o') (auto simp: seekable_def)
  consider (left) "l = Value c" "op = o'" "constant_of r = Some value"
    | (right) "r = Value c" "flipped o' = Some op" "constant_of l = Some value"
    using assms(1) s by (auto simp: e column_comparison_def bind_eq_Some_conv split: eval_expr.splits option.splits)
  then have "seekable op \<and> (eval T row e = Inr (Boolean True) \<longleftrightarrow> binary (row ! c) value op = Inr (Boolean True))"
  proof cases
    case left
    then show ?thesis using assms(2) s constant_of_eval [OF left(3)] by (simp add: e)
  next
    case right
    then show ?thesis using assms(2) flip binary_flip [OF right(2)] constant_of_eval [OF right(3)] by (simp add: e)
  qed
  then show "seekable op" "eval T row e = Inr (Boolean True) \<longleftrightarrow> binary (row ! c) value op = Inr (Boolean True)" by blast+
qed

section \<open>An OR of equalities\<close>

definition truth_value :: "value_item \<Rightarrow> bool" where
  "truth_value x = (x = Null \<or> x = Boolean True \<or> x = Boolean False)"

lemma one_term: "\<exists>x. r = Inr x \<and> truth_value x \<Longrightarrow> \<exists>x. r = Inr x \<and> truth_value x \<and> (x = b \<longleftrightarrow> r = Inr b)"
  by auto

lemma or_terms_eval:
  assumes "\<forall>t \<in> set (or_terms e). \<exists>x. eval T row t = Inr x \<and> truth_value x"
  shows "\<exists>x. eval T row e = Inr x \<and> truth_value x \<and> (x = Boolean True \<longleftrightarrow> (\<exists>t \<in> set (or_terms e). eval T row t = Inr (Boolean True)))"
  using assms
proof (induction e rule: or_terms.induct)
  case (1 l r)
  obtain x where x: "eval T row l = Inr x" "truth_value x" "x = Boolean True \<longleftrightarrow> (\<exists>t \<in> set (or_terms l). eval T row t = Inr (Boolean True))"
    using 1 by auto
  obtain y where y: "eval T row r = Inr y" "truth_value y" "y = Boolean True \<longleftrightarrow> (\<exists>t \<in> set (or_terms r). eval T row t = Inr (Boolean True))"
    using 1 by auto
  define z where "z = (if x = Boolean True \<or> y = Boolean True then Boolean True else if x = Null \<or> y = Null then Null else Boolean False)"
  have "eval T row (Binary l Or r) = Inr z"
    using x(2) y(2) by (auto simp: x(1) y(1) z_def binary_def logic_def truth_def truth_value_def)
  moreover have "truth_value z" "z = Boolean True \<longleftrightarrow> x = Boolean True \<or> y = Boolean True" by (simp_all add: z_def truth_value_def)
  ultimately show ?case using x(3) y(3) by auto
qed (simp_all del: eval.simps, (erule one_term)+)

lemma equality_truth_value:
  assumes "condition_range ty Eq c = Some r" "fits_type ty v"
  shows "\<exists>x. binary v c Eq = Inr x \<and> truth_value x" "\<exists>x. binary c v Eq = Inr x \<and> truth_value x"
proof -
  have "(\<exists>x. binary v c Eq = Inr x \<and> truth_value x) \<and> (\<exists>x. binary c v Eq = Inr x \<and> truth_value x)"
  proof (cases "v = Null \<or> c = Null")
    case True
    then show ?thesis by (auto simp: binary_def truth_value_def)
  next
    case False
    then have n: "v \<noteq> Null" "c \<noteq> Null" by blast+
    have "type_rank v = type_rank c \<or> (\<exists>i d. v = Integer i \<and> c = Double d) \<or> (\<exists>i d. v = Double d \<and> c = Integer i)"
      using assms(1) n(2)
    proof (cases rule: condition_range_cases)
      case plain
      then show ?thesis using fits_type_rank [OF assms(2) plain(2) n] by blast
    qed (use fits_type_shape(1,2) [OF assms(2) n(1)] in auto)
    then have "(\<exists>b. values_equal v c Eq = Inr b) \<and> (\<exists>b. values_equal c v Eq = Inr b)"
      by (cases v; cases c) (auto simp: values_equal_def same_type_def)
    then show ?thesis using False by (auto simp: binary_def truth_value_def)
  qed
  then show "\<exists>x. binary v c Eq = Inr x \<and> truth_value x" "\<exists>x. binary c v Eq = Inr x \<and> truth_value x" by blast+
qed

lemma column_equality_eval:
  assumes "column_comparison t = Some (c, Eq, value)" "c < length row" "condition_range ty Eq value = Some r" "fits_type ty (row ! c)"
  shows "\<exists>x. eval T row t = Inr x \<and> truth_value x"
proof -
  have flip: "flipped o' = Some Eq \<Longrightarrow> o' = Eq" for o' by (cases o') simp_all
  obtain l o' r where t: "t = Binary l o' r" and "seekable o'"
    using assms(1) by (auto simp: column_comparison_def split: eval_expr.splits if_splits)
  then consider "l = Value c" "o' = Eq" "constant_of r = Some value" | "r = Value c" "o' = Eq" "constant_of l = Some value"
    using assms(1) flip by (auto simp: t column_comparison_def bind_eq_Some_conv split: eval_expr.splits option.splits)
  then show ?thesis using equality_truth_value [OF assms(3,4)] assms(2) by cases (auto simp: t constant_of_eval)
qed

text \<open>The points collected from the terms so far, and those of the terms to come.\<close>

lemma or_points_exact:
  assumes "or_points types ts column ps = Some (c, s)" "\<And>c. c < length types \<Longrightarrow> fits_type (types ! c) (row ! c)"
    and "length row = length types"
  shows "set_ok s \<and> (column \<noteq> None \<longrightarrow> column = Some c) \<and> (ts \<noteq> [] \<longrightarrow> c < length types)
    \<and> (\<forall>t \<in> set ts. \<exists>x. eval T row t = Inr x \<and> truth_value x)
    \<and> (in_set s (row ! c) \<and> \<not> nan_value (row ! c) \<longleftrightarrow>
        \<not> nan_value (row ! c) \<and> (\<exists>p \<in> set ps. value_cmp (row ! c) p = Equal) \<or> (\<exists>t \<in> set ts. eval T row t = Inr (Boolean True)))"
  using assms(1)
proof (induction ts arbitrary: column ps)
  case Nil
  then have "column = Some c" "s = points ps" by auto
  then show ?case using points_ok [of ps] by auto
next
  case (Cons t ts)
  obtain c' w ty r where t: "column_comparison t = Some (c', Eq, w)" "column = None \<or> column = Some c'"
      "type_at types c' = Some ty" "condition_range ty Eq w = Some r"
      "(case from_range r of Points p \<Rightarrow> or_points types ts (Some c') (ps @ p) | Range _ \<Rightarrow> None) = Some (c, s)"
    using Cons.prems by (auto simp: bind_eq_Some_conv split: if_split_asm)
  then obtain p where p: "from_range r = Points p" "or_points types ts (Some c') (ps @ p) = Some (c, s)"
    by (cases "from_range r") simp_all
  note IH = Cons.IH [OF p(2)]
  have c: "c' = c" using IH by blast
  have ty: "c < length types" "types ! c = ty" using t(3) by (auto simp: type_at_def c split: if_splits)
  have fit: "fits_type ty (row ! c)" using assms(2) [OF ty(1)] by (simp add: ty)
  have len: "c < length row" using ty assms(3) by simp
  note exact = condition_range_exact [OF t(4) fit]
  have "eval T row t = Inr (Boolean True) \<longleftrightarrow> (\<exists>q \<in> set p. value_cmp (row ! c) q = Equal) \<and> \<not> nan_value (row ! c)"
    using column_comparison_eval(2) [OF t(1) [unfolded c] len] exact(2) from_range_in(1) [OF exact(1), of "row ! c"] p(1) by simp
  moreover have "\<exists>x. eval T row t = Inr x \<and> truth_value x"
    by (rule column_equality_eval [OF t(1) [unfolded c] len t(4) fit])
  ultimately show ?case using IH t(2) ty(1) c by auto
qed

section \<open>The set of a condition\<close>

definition row_fits :: "data_type list \<Rightarrow> value_item list \<Rightarrow> bool" where
  "row_fits types row = list_all2 fits_type types row"

lemma or_terms_nonempty: "or_terms e \<noteq> []"
  by (induction e rule: or_terms.induct) simp_all

lemma or_terms_single: "or_terms e = [t] \<Longrightarrow> t = e"
  using or_terms_nonempty by (cases e rule: or_terms.cases) (auto simp: append_eq_Cons_conv)

lemma condition_set_exact:
  assumes "condition_set f types = Some (c, s)" "row_fits types row"
  shows "c < length types" "set_ok s" "eval T row f = Inr (Boolean True) \<longleftrightarrow> in_set s (row ! c) \<and> \<not> nan_value (row ! c)"
proof -
  have len: "length row = length types" and fit: "\<And>c. c < length types \<Longrightarrow> fits_type (types ! c) (row ! c)"
    using assms(2) by (auto simp: row_fits_def list_all2_conv_all_nth)
  have "c < length types \<and> set_ok s \<and> (eval T row f = Inr (Boolean True) \<longleftrightarrow> in_set s (row ! c) \<and> \<not> nan_value (row ! c))"
  proof (cases "\<exists>t. or_terms f = [t]")
    case True
    then have "or_terms f = [f]" using or_terms_single by blast
    then obtain op w ty r where t: "column_comparison f = Some (c, op, w)" "type_at types c = Some ty"
        "condition_range ty op w = Some r" "s = from_range r"
      using assms(1) by (auto simp: condition_set_def bind_eq_Some_conv)
    have ty: "c < length types" "types ! c = ty" using t(2) by (auto simp: type_at_def split: if_splits)
    have fits: "fits_type ty (row ! c)" using fit [OF ty(1)] by (simp add: ty)
    note exact = condition_range_exact [OF t(3) fits]
    show ?thesis
      using column_comparison_eval(2) [OF t(1), of row T] ty(1) len exact(2) from_range_in(1) [OF exact(1), of "row ! c"]
        from_range_in(2) [OF exact(1)] by (simp add: t(4))
  next
    case False
    then have "or_points types (or_terms f) None [] = Some (c, s)"
      using assms(1) by (auto simp: condition_set_def split: list.splits)
    note P = or_points_exact [OF this fit len, of T]
    from P have "\<forall>t \<in> set (or_terms f). \<exists>x. eval T row t = Inr x \<and> truth_value x" by blast
    from or_terms_eval [OF this] P or_terms_nonempty [of f] show ?thesis by auto
  qed
  then show "c < length types" "set_ok s" "eval T row f = Inr (Boolean True) \<longleftrightarrow> in_set s (row ! c) \<and> \<not> nan_value (row ! c)"
    by blast+
qed

lemma condition_set_ok: "condition_set f types = Some (c, s) \<Longrightarrow> set_ok s"
  by (erule condition_set_exact(2) [where row = "replicate (length types) Null"]) (simp add: row_fits_def list_all2_conv_all_nth)

text \<open>The filters a column's set is made of.\<close>

definition limits :: "data_type list \<Rightarrow> nat \<Rightarrow> eval_expr \<Rightarrow> bool" where
  "limits types c f = (case condition_set f types of Some (c', s) \<Rightarrow> c' = c | None \<Rightarrow> False)"

lemma column_sets_snoc: "column_sets (fs @ [f]) types = add_condition types f (column_sets fs types)"
  by (simp add: column_sets_def)

lemma column_sets_ok: "column_sets fs types c = Some s \<Longrightarrow> set_ok s"
proof (induction fs arbitrary: s rule: rev_induct)
  case (snoc f fs)
  show ?case
  proof (cases "condition_set f types")
    case (Some p)
    then show ?thesis using snoc.prems snoc.IH condition_set_ok [of f types] set_intersect_in(2)
      by (auto simp: column_sets_snoc add_condition_def split: if_splits option.splits prod.splits)
  qed (use snoc in \<open>simp add: column_sets_snoc add_condition_def\<close>)
qed (simp add: column_sets_def)

lemma column_sets_exact:
  assumes "row_fits types row"
  shows "(column_sets fs types c = None \<longrightarrow> (\<forall>f \<in> set fs. \<not> limits types c f))
    \<and> (\<forall>s. column_sets fs types c = Some s \<longrightarrow>
        (in_set s (row ! c) \<and> \<not> nan_value (row ! c) \<longleftrightarrow> (\<forall>f \<in> set fs. limits types c f \<longrightarrow> eval T row f = Inr (Boolean True)))
        \<and> (\<exists>f \<in> set fs. limits types c f))"
proof (induction fs rule: rev_induct)
  case (snoc f fs)
  show ?case
  proof (cases "limits types c f")
    case False
    then have "column_sets (fs @ [f]) types c = column_sets fs types c"
      by (auto simp: column_sets_snoc add_condition_def limits_def split: option.splits)
    then show ?thesis using snoc False by auto
  next
    case True
    then obtain s where s: "condition_set f types = Some (c, s)" by (auto simp: limits_def split: option.splits)
    note f = condition_set_exact(2,3) [OF s assms]
    show ?thesis
    proof (cases "column_sets fs types c")
      case None
      then have "column_sets (fs @ [f]) types c = Some s" by (simp add: column_sets_snoc add_condition_def s)
      then show ?thesis using snoc None True f(2) by auto
    next
      case (Some s')
      then have "column_sets (fs @ [f]) types c = Some (set_intersect s' s)" by (simp add: column_sets_snoc add_condition_def s)
      then show ?thesis using snoc Some True f(2) set_intersect_in(1) [OF column_sets_ok [OF Some] f(1)] by auto
    qed
  qed
qed (simp add: column_sets_def)

section \<open>Keys under prefixes\<close>

fun starts :: "value_item list \<Rightarrow> value_item list \<Rightarrow> bool" where
  "starts [] k = True"
| "starts (p # ps) [] = False"
| "starts (p # ps) (v # vs) = (value_cmp v p = Equal \<and> starts ps vs)"

lemma position_starts: "position_from p lo up k = Equal \<longleftrightarrow> starts p k \<and> bounds_position lo up (drop (length p) k) = Equal"
  by (induction p lo up k rule: position_from.induct) (auto split: ordering.splits)

lemma starts_snoc: "starts (p @ [v]) k \<longleftrightarrow> starts p k \<and> length p < length k \<and> value_cmp (k ! length p) v = Equal"
  by (induction p k rule: starts.induct) (auto simp: neq_Nil_conv, (case_tac k; simp)+)

lemma starts_less:
  "length p = length q \<Longrightarrow> rec_cmp p q = Less \<Longrightarrow> starts p k \<Longrightarrow> starts q l \<Longrightarrow> rec_cmp k l = Less"
proof (induction p q arbitrary: k l rule: list_induct2')
  case (4 x p y q)
  obtain v k' w l' where kl: "k = v # k'" "l = w # l'" using 4(4,5) by (cases k; cases l) auto
  have "value_cmp v x = Equal" "value_cmp w y = Equal" using 4(4,5) by (simp_all add: kl)
  then have "value_cmp v w = value_cmp x y" using val.equal_left val.equal_right by metis
  then show ?case using 4 by (cases "value_cmp x y") (simp_all add: kl)
qed simp_all

lemma rec_cmp_snoc_less:
  "length p = length q \<Longrightarrow> rec_cmp p q = Less \<Longrightarrow> rec_cmp (p @ [v]) (q @ [w]) = Less"
  "value_cmp v w = Less \<Longrightarrow> rec_cmp (p @ [v]) (p @ [w]) = Less"
proof -
  show "length p = length q \<Longrightarrow> rec_cmp p q = Less \<Longrightarrow> rec_cmp (p @ [v]) (q @ [w]) = Less"
    by (induction p q rule: list_induct2') (auto split: ordering.splits)
  show "value_cmp v w = Less \<Longrightarrow> rec_cmp (p @ [v]) (p @ [w]) = Less"
    by (induction p) (simp_all add: val.refl)
qed

definition ascending_prefixes :: "nat \<Rightarrow> value_item list list \<Rightarrow> bool" where
  "ascending_prefixes n ps = ((\<forall>p \<in> set ps. length p = n) \<and> rec.ascending ps)"

lemma extend_prefixes_ascending:
  assumes "ascending_prefixes n ps" "val.ascending vs"
  shows "ascending_prefixes (Suc n) (extend_prefixes ps vs)"
  using assms(1)
proof (induction ps)
  case (Cons p ps)
  have "rec.ascending (map (\<lambda>v. p @ [v]) vs)" using assms(2) by (simp add: sorted_wrt_map sorted_wrt_mono_rel [OF rec_cmp_snoc_less(2)])
  moreover have "rec_cmp (p @ [v]) (q @ [w]) = Less" if "q \<in> set ps" for q v w
    using Cons.prems that by (intro rec_cmp_snoc_less(1)) (auto simp: ascending_prefixes_def)
  ultimately show ?case using Cons by (auto simp: ascending_prefixes_def extend_prefixes_def sorted_wrt_append)
qed (simp add: ascending_prefixes_def extend_prefixes_def)

lemma extend_prefixes_starts:
  assumes "ascending_prefixes n ps" "n < length k"
  shows "(\<exists>p \<in> set (extend_prefixes ps vs). starts p k) \<longleftrightarrow> (\<exists>p \<in> set ps. starts p k) \<and> in_set (Points vs) (k ! n)"
  using assms by (auto simp: extend_prefixes_def starts_snoc ascending_prefixes_def)

section \<open>The ranges of a key\<close>

text \<open>Ranges that follow one another: every key in one is below every key in a later one.\<close>

definition apart :: "key_range list \<Rightarrow> bool" where
  "apart rs = sorted_wrt (\<lambda>r r'. \<forall>k l. range_position r k = Equal \<longrightarrow> range_position r' l = Equal \<longrightarrow> rec_cmp k l = Less) rs"

lemma prefixes_apart:
  assumes "ascending_prefixes n ps"
  shows "apart (map (\<lambda>p. \<lparr>kr_prefix = p, kr_lower = lo, kr_upper = up\<rparr>) ps)"
proof -
  have less: "rec_cmp k l = Less"
    if "p \<in> set ps" "q \<in> set ps" "rec_cmp p q = Less" "position_from p lo up k = Equal" "position_from q lo up l = Equal" for p q k l
  proof -
    have "length p = length q" using assms that(1,2) by (simp add: ascending_prefixes_def)
    then show ?thesis using that(3-5) unfolding position_starts by (blast intro: starts_less)
  qed
  have "rec.ascending ps" using assms by (simp add: ascending_prefixes_def)
  then have "sorted_wrt (\<lambda>p q. \<forall>k l. position_from p lo up k = Equal \<longrightarrow> position_from q lo up l = Equal \<longrightarrow> rec_cmp k l = Less) ps"
    by (rule sorted_wrt_mono_rel [rotated]) (use less in blast)
  then show ?thesis by (simp add: apart_def sorted_wrt_map range_position_def)
qed

lemma prefix_ranges:
  assumes "ascending_prefixes n ps"
  shows "apart (map prefix_range ps)" "\<forall>r \<in> set (map prefix_range ps). fits_key n r"
    "(\<exists>r \<in> set (map prefix_range ps). range_position r k = Equal) \<longleftrightarrow> (\<exists>p \<in> set ps. starts p k)"
proof -
  have eq: "prefix_range = (\<lambda>p. \<lparr>kr_prefix = p, kr_lower = Unbounded, kr_upper = Unbounded\<rparr>)"
    by (simp add: prefix_range_def fun_eq_iff)
  show "apart (map prefix_range ps)" unfolding eq by (rule prefixes_apart [OF assms])
  show "\<forall>r \<in> set (map prefix_range ps). fits_key n r"
    using assms by (simp add: fits_key_def prefix_range_def ascending_prefixes_def)
  have "bounds_position Unbounded Unbounded vs = Equal" for vs by (cases vs) (simp_all add: bounds_position_def)
  then show "(\<exists>r \<in> set (map prefix_range ps). range_position r k = Equal) \<longleftrightarrow> (\<exists>p \<in> set ps. starts p k)"
    by (simp add: prefix_range_def range_position_def position_starts)
qed

lemma column_ranges:
  assumes "ascending_prefixes n ps"
  shows "\<forall>x \<in> set (map (\<lambda>p. \<lparr>kr_prefix = p, kr_lower = cr_lower r, kr_upper = cr_upper r\<rparr>) ps). fits_key (Suc n) x"
    "n < length k \<Longrightarrow> (\<exists>x \<in> set (map (\<lambda>p. \<lparr>kr_prefix = p, kr_lower = cr_lower r, kr_upper = cr_upper r\<rparr>) ps). range_position x k = Equal)
      \<longleftrightarrow> (\<exists>p \<in> set ps. starts p k) \<and> range_contains r (k ! n)"
proof -
  show "\<forall>x \<in> set (map (\<lambda>p. \<lparr>kr_prefix = p, kr_lower = cr_lower r, kr_upper = cr_upper r\<rparr>) ps). fits_key (Suc n) x"
    using assms by (auto simp: fits_key_def ascending_prefixes_def split: bnd.split)
  assume n: "n < length k"
  have "bounds_position (cr_lower r) (cr_upper r) (drop n k) = Equal \<longleftrightarrow> range_contains r (k ! n)"
    by (simp add: bounds_position_def range_contains_iff Cons_nth_drop_Suc [OF n, symmetric])
  then have "position_from p (cr_lower r) (cr_upper r) k = Equal \<longleftrightarrow> starts p k \<and> range_contains r (k ! n)" if "p \<in> set ps" for p
    using assms that by (simp add: position_starts ascending_prefixes_def)
  then show "(\<exists>x \<in> set (map (\<lambda>p. \<lparr>kr_prefix = p, kr_lower = cr_lower r, kr_upper = cr_upper r\<rparr>) ps). range_position x k = Equal)
      \<longleftrightarrow> (\<exists>p \<in> set ps. starts p k) \<and> range_contains r (k ! n)"
    by (auto simp: range_position_def)
qed

text \<open>
  The loop over the columns of a key, from column \<open>used\<close> on: the ranges it returns hold the keys that
  start with one of the prefixes and are in the sets of the columns up to \<open>m\<close>.
\<close>

definition covers :: "(nat \<rightharpoonup> column_set) \<Rightarrow> nat list \<Rightarrow> value_item list \<Rightarrow> bool" where
  "covers sets cs vs = list_all2 (\<lambda>c v. \<exists>s. sets c = Some s \<and> in_set s v) cs vs"

lemma covers_Cons: "n < length k \<Longrightarrow> covers sets (c # cs) (take (Suc m) (drop n k))
    \<longleftrightarrow> (\<exists>s. sets c = Some s \<and> in_set s (k ! n)) \<and> covers sets cs (take m (drop (Suc n) k))"
  by (simp add: covers_def Cons_nth_drop_Suc [symmetric])

definition loop_spec :: "(nat \<rightharpoonup> column_set) \<Rightarrow> nat list \<Rightarrow> value_item list list \<Rightarrow> nat \<Rightarrow> key_range list \<Rightarrow> nat \<Rightarrow> bool" where
  "loop_spec sets cs ps n rs m =
     (n \<le> m \<and> m \<le> n + length cs \<and> (\<forall>c \<in> set (take (m - n) cs). sets c \<noteq> None) \<and> apart rs \<and> (\<forall>r \<in> set rs. fits_key m r)
      \<and> (\<forall>k. n + length cs \<le> length k \<longrightarrow>
           ((\<exists>r \<in> set rs. range_position r k = Equal)
            \<longleftrightarrow> (\<exists>p \<in> set ps. starts p k) \<and> covers sets (take (m - n) cs) (take (m - n) (drop n k)))))"

lemma loop_spec_end: "ascending_prefixes n ps \<Longrightarrow> loop_spec sets cs ps n (map prefix_range ps) n"
  using prefix_ranges [of n ps] by (simp add: loop_spec_def covers_def)

lemma loop_spec_step:
  assumes "loop_spec sets cs (extend_prefixes ps vs) (Suc n) rs m" "sets c = Some (Points vs)" "ascending_prefixes n ps"
  shows "loop_spec sets (c # cs) ps n rs m"
proof -
  have m: "Suc n \<le> m" "m \<le> Suc n + length cs" "apart rs" "\<forall>r \<in> set rs. fits_key m r" "\<forall>c \<in> set (take (m - Suc n) cs). sets c \<noteq> None"
    using assms(1) by (auto simp: loop_spec_def)
  have d: "m - n = Suc (m - Suc n)" using m(1) by simp
  have "(\<exists>r \<in> set rs. range_position r k = Equal)
      \<longleftrightarrow> (\<exists>p \<in> set ps. starts p k) \<and> covers sets (take (m - n) (c # cs)) (take (m - n) (drop n k))"
    if "n + length (c # cs) \<le> length k" for k
  proof -
    have n: "n < length k" using that by simp
    have "Suc n + length cs \<le> length k" using that by simp
    then have "(\<exists>r \<in> set rs. range_position r k = Equal) \<longleftrightarrow> (\<exists>p \<in> set (extend_prefixes ps vs). starts p k)
        \<and> covers sets (take (m - Suc n) cs) (take (m - Suc n) (drop (Suc n) k))"
      using assms(1) unfolding loop_spec_def by blast
    then show ?thesis
      unfolding extend_prefixes_starts [OF assms(3) n] d take_Suc_Cons covers_Cons [OF n] using assms(2) by auto
  qed
  moreover have "\<forall>c' \<in> set (take (m - n) (c # cs)). sets c' \<noteq> None" unfolding d using m(5) assms(2) by simp
  ultimately show ?thesis using m by (simp add: loop_spec_def)
qed

lemma key_ranges_loop_spec:
  assumes "key_ranges_loop cs sets ps n = Some (rs, m)" "ascending_prefixes n ps" "\<And>c s. sets c = Some s \<Longrightarrow> set_ok s"
  shows "loop_spec sets cs ps n rs m"
  using assms(1,2)
proof (induction cs arbitrary: ps n)
  case Nil
  then show ?case by (auto simp: key_ranges_end_def loop_spec_end split: if_splits)
next
  case (Cons c cs)
  have stop: ?case if "key_ranges_end ps n = Some (rs, m)"
    using that Cons.prems(2) by (auto simp: key_ranges_end_def loop_spec_end split: if_splits)
  show ?case
  proof (cases "sets c")
    case None
    then show ?thesis using Cons.prems stop by simp
  next
    case (Some s)
    show ?thesis
    proof (cases s)
      case (Points vs)
      have asc: "ascending_prefixes (Suc n) (extend_prefixes ps vs)"
        by (rule extend_prefixes_ascending [OF Cons.prems(2)]) (use assms(3) [OF Some] Points in simp)
      have step: ?thesis if "loop_spec sets cs (extend_prefixes ps vs) (Suc n) rs m"
        by (rule loop_spec_step [OF that, of c]) (use Some Points Cons.prems(2) in simp_all)
      show ?thesis
      proof (cases "length ps * length vs > MAX_RANGES")
        case True
        then show ?thesis using Cons.prems stop by (simp add: Some Points)
      next
        case few: False
        show ?thesis
        proof (cases "extend_prefixes ps vs = []")
          case True
          then have "rs = map prefix_range (extend_prefixes ps vs)" "m = Suc n"
            using Cons.prems(1) few by (simp_all add: Some Points key_ranges_end_def)
          then show ?thesis using loop_spec_end [OF asc] by (intro step) simp
        next
          case False
          then have "key_ranges_loop cs sets (extend_prefixes ps vs) (Suc n) = Some (rs, m)"
            using Cons.prems(1) few by (simp add: Some Points Let_def)
          then show ?thesis by (intro step Cons.IH asc)
        qed
      qed
    next
      case (Range r)
      then have rs: "rs = map (\<lambda>p. \<lparr>kr_prefix = p, kr_lower = cr_lower r, kr_upper = cr_upper r\<rparr>) ps" "m = Suc n"
        using Cons.prems(1) by (simp_all add: Some)
      have "(\<exists>x \<in> set rs. range_position x k = Equal)
          \<longleftrightarrow> (\<exists>p \<in> set ps. starts p k) \<and> covers sets (take (m - n) (c # cs)) (take (m - n) (drop n k))"
        if "n + length (c # cs) \<le> length k" for k
      proof -
        have n: "n < length k" using that by simp
        have d: "m - n = Suc 0" by (simp add: rs(2))
        show ?thesis unfolding d take_Suc_Cons covers_Cons [OF n] rs(1) column_ranges(2) [OF Cons.prems(2) n]
          by (simp add: Some Range covers_def)
      qed
      then show ?thesis using prefixes_apart [OF Cons.prems(2)] column_ranges(1) [OF Cons.prems(2), of r] rs Some by (simp add: loop_spec_def)
    qed
  qed
qed

section \<open>Seeking\<close>

text \<open>The rows of an index: each fits the columns' types, and its key begins with the key columns' values.\<close>

definition indexed :: "data_type list \<Rightarrow> nat list \<Rightarrow> nat \<Rightarrow> ('a \<Rightarrow> value_item list) \<Rightarrow> ('a \<Rightarrow> value_item list) \<Rightarrow> 'a list \<Rightarrow> bool" where
  "indexed types cols n key row xs =
     (length cols \<le> n \<and> sorted_wrt (\<lambda>a b. rec_cmp (key a) (key b) = Less) xs
      \<and> (\<forall>x \<in> set xs. row_fits types (row x) \<and> length (key x) = n \<and> take (length cols) (key x) = map ((!) (row x)) cols))"

text \<open>The condition a seek enforces: all filters that limit one of the key columns it uses.\<close>

definition enforced :: "text_env \<Rightarrow> data_type list \<Rightarrow> eval_expr list \<Rightarrow> nat list \<Rightarrow> value_item list \<Rightarrow> bool" where
  "enforced T types filters used_cols row =
     (\<forall>f \<in> set filters. (\<exists>c \<in> set used_cols. limits types c f) \<longrightarrow> eval T row f = Inr (Boolean True))"

lemma key_ranges_scan:
  assumes "key_ranges cols (column_sets filters types) = Some (ranges, used)" "indexed types cols n key row xs"
  shows "(key_range_scan key ranges xs :: 'k store_error + _) =
    Inr (filter (\<lambda>x. covers (column_sets filters types) (take used cols) (map ((!) (row x)) (take used cols))) xs)"
proof -
  let ?sets = "column_sets filters types"
  have "ascending_prefixes 0 [[]]" by (simp add: ascending_prefixes_def)
  then have spec: "loop_spec ?sets cols [[]] 0 ranges used"
    using key_ranges_loop_spec [OF assms(1) [unfolded key_ranges_def]] column_sets_ok by blast
  have xs: "length cols \<le> n" "sorted_wrt (\<lambda>a b. rec_cmp (key a) (key b) = Less) xs" "\<forall>x \<in> set xs. length (key x) = n"
    "\<And>x. x \<in> set xs \<Longrightarrow> take (length cols) (key x) = map ((!) (row x)) cols"
    using assms(2) by (auto simp: indexed_def)
  have used: "used \<le> length cols" "apart ranges" "\<forall>r \<in> set ranges. fits_key used r" using spec by (auto simp: loop_spec_def)
  have fits: "\<forall>r \<in> set ranges. fits_key n r" using used(1,3) xs(1) by (auto simp: fits_key_def)
  let ?Ps = "map (\<lambda>r k. range_position r k = Equal) ranges"
  have "sorted_wrt (\<lambda>P Q. \<forall>a b. P (key a) \<longrightarrow> Q (key b) \<longrightarrow> rec_cmp (key a) (key b) = Less) ?Ps"
    using used(2) unfolding apart_def sorted_wrt_map by (rule sorted_wrt_mono_rel [rotated]) blast
  from rec.concat_filters [OF xs(2) this]
  have "concat (map (\<lambda>r. filter (\<lambda>x. range_position r (key x) = Equal) xs) ranges)
      = filter (\<lambda>x. \<exists>r \<in> set ranges. range_position r (key x) = Equal) xs" by (simp add: comp_def)
  also have "\<dots> = filter (\<lambda>x. covers ?sets (take used cols) (map ((!) (row x)) (take used cols))) xs"
  proof (rule filter_cong)
    fix x assume x: "x \<in> set xs"
    have "take used (key x) = take used (take (length cols) (key x))" using used(1) by (simp add: min_def)
    also have "\<dots> = map ((!) (row x)) (take used cols)" by (simp add: xs(4) [OF x] take_map)
    finally have k: "take used (key x) = map ((!) (row x)) (take used cols)" .
    have "length cols \<le> length (key x)" using xs(1,3) x by simp
    then show "(\<exists>r \<in> set ranges. range_position r (key x) = Equal) \<longleftrightarrow> covers ?sets (take used cols) (map ((!) (row x)) (take used cols))"
      using spec by (simp add: loop_spec_def k)
  qed simp
  finally show ?thesis using key_range_scan_filter [OF xs(2,3) fits] by simp
qed

lemma covers_enforced:
  assumes "row_fits types row" "key_ranges cols (column_sets filters types) = Some (ranges, used)"
  shows "enforced T types filters (take used cols) row \<Longrightarrow> covers (column_sets filters types) (take used cols) (map ((!) row) (take used cols))"
    "covers (column_sets filters types) (take used cols) (map ((!) row) (take used cols)) \<Longrightarrow>
      \<forall>c \<in> set (take used cols). \<not> nan_value (row ! c) \<Longrightarrow> enforced T types filters (take used cols) row"
proof -
  have "ascending_prefixes 0 [[]]" by (simp add: ascending_prefixes_def)
  then have "loop_spec (column_sets filters types) cols [[]] 0 ranges used"
    using key_ranges_loop_spec [OF assms(2) [unfolded key_ranges_def]] column_sets_ok by blast
  then have some: "\<exists>s. column_sets filters types c = Some s" if "c \<in> set (take used cols)" for c
    using that by (simp add: loop_spec_def)
  note exact = column_sets_exact [OF assms(1), of filters _ T]
  have cov: "covers (column_sets filters types) (take used cols) (map ((!) row) (take used cols))
      \<longleftrightarrow> (\<forall>c \<in> set (take used cols). \<exists>s. column_sets filters types c = Some s \<and> in_set s (row ! c))"
    by (simp add: covers_def list_all2_map2 list_all2_same)
  show "enforced T types filters (take used cols) row \<Longrightarrow> covers (column_sets filters types) (take used cols) (map ((!) row) (take used cols))"
    unfolding cov enforced_def using some exact by metis
  show "covers (column_sets filters types) (take used cols) (map ((!) row) (take used cols)) \<Longrightarrow>
      \<forall>c \<in> set (take used cols). \<not> nan_value (row ! c) \<Longrightarrow> enforced T types filters (take used cols) row"
    unfolding cov enforced_def using exact by metis
qed

text \<open>
  C33. Seeking is filtering. Let a WHERE clause's conditions give ranges of the keys of an index, on the
  first \<open>used\<close> of its columns. Scanning the ranges one after the other never fails and returns rows in
  key order, each once: every row that all conditions on those columns evaluate to true of, whatever
  their form (integers against doubles, both zeros, OR of equalities), and no other row, except that
  a row with a NaN in one of those columns may come along.
\<close>

theorem seek_is_filter:
  assumes "key_ranges cols (column_sets filters types) = Some (ranges, used)" "indexed types cols n key row xs"
  shows "\<exists>P. (key_range_scan key ranges xs :: 'k store_error + _) = Inr (filter P xs)
    \<and> (\<forall>x \<in> set xs. (enforced T types filters (take used cols) (row x) \<longrightarrow> P x)
        \<and> (P x \<longrightarrow> enforced T types filters (take used cols) (row x) \<or> (\<exists>c \<in> set (take used cols). nan_value (row x ! c))))"
proof (intro exI conjI ballI impI)
  fix x assume "x \<in> set xs"
  then have fits: "row_fits types (row x)" using assms(2) by (simp add: indexed_def)
  let ?P = "\<lambda>x. covers (column_sets filters types) (take used cols) (map ((!) (row x)) (take used cols))"
  show "enforced T types filters (take used cols) (row x) \<Longrightarrow> ?P x" by (rule covers_enforced(1) [OF fits assms(1)])
  show "?P x \<Longrightarrow> enforced T types filters (take used cols) (row x) \<or> (\<exists>c \<in> set (take used cols). nan_value (row x ! c))"
    using covers_enforced(2) [OF fits assms(1)] by blast
qed (rule key_ranges_scan [OF assms])

text \<open>\<open>WHERE (a = 2 OR 4 = a) AND b > 1\<close>, with an index on \<open>(a, b)\<close>.\<close>

definition sample_filters :: "eval_expr list" where
  "sample_filters =
     [Binary (Binary (Value 0) Eq (Literal (Integer 2))) Or (Binary (Literal (Integer 4)) Eq (Value 0)),
      Binary (Value 1) Gt (Literal (Integer 1))]"

definition sample_ranges :: "key_range list" where
  "sample_ranges =
     [\<lparr>kr_prefix = [Integer 2], kr_lower = Excluded (Integer 1), kr_upper = Unbounded\<rparr>,
      \<lparr>kr_prefix = [Integer 4], kr_lower = Excluded (Integer 1), kr_upper = Unbounded\<rparr>]"

definition sample_rows :: "value_item list list" where
  "sample_rows = [[Integer 1, Integer 5], [Integer 2, Integer 0], [Integer 2, Integer 7], [Integer 4, Integer 3]]"

lemma sample_key_ranges: "key_ranges [0, 1] (column_sets sample_filters [TInteger, TInteger]) = Some (sample_ranges, 2)"
  by (simp add: key_ranges_def column_sets_def sample_filters_def sample_ranges_def add_condition_def condition_set_def column_comparison_def
      type_at_def condition_range_def seekable_def from_range_def equal_value_def points_def sort_values_def both_zeros_def is_empty_def
      extend_prefixes_def)

lemma sample_indexed: "indexed [TInteger, TInteger] [0, 1] 2 (\<lambda>x. x) (\<lambda>x. x) sample_rows"
  by (simp add: indexed_def sample_rows_def row_fits_def ord_cmp_def)

theorem seek_is_filter_witness:
  "\<exists>P. (key_range_scan (\<lambda>x. x) sample_ranges sample_rows :: nat store_error + _) = Inr (filter P sample_rows)
    \<and> P [Integer 2, Integer 7] \<and> P [Integer 4, Integer 3] \<and> \<not> P [Integer 1, Integer 5] \<and> \<not> P [Integer 2, Integer 0]"
proof -
  let ?T = "\<lparr>te_upper = id, te_lower = id, te_display = \<lambda>_. []\<rparr>"
  have cols: "take 2 [0, 1 :: nat] = [0, 1]" by simp
  have e: "enforced ?T [TInteger, TInteger] sample_filters [0, 1] row \<longleftrightarrow> (\<forall>f \<in> set sample_filters. eval ?T row f = Inr (Boolean True))" for row
    by (auto simp: enforced_def limits_def sample_filters_def condition_set_def column_comparison_def
        type_at_def condition_range_def seekable_def from_range_def equal_value_def both_zeros_def is_empty_def)
  note E = sample_filters_def binary_def values_equal_def same_type_def sql_compare_def as_bool_def logic_def truth_def ord_cmp_def
  let ?ok = "enforced ?T [TInteger, TInteger] sample_filters [0, 1]"
  have en: "?ok [Integer 2, Integer 7]" "?ok [Integer 4, Integer 3]" "\<not> ?ok [Integer 1, Integer 5]" "\<not> ?ok [Integer 2, Integer 0]"
    unfolding e by (simp_all add: E)
  from seek_is_filter [OF sample_key_ranges sample_indexed, where T = ?T and 'k = nat]
  obtain P where P: "(key_range_scan (\<lambda>x. x) sample_ranges sample_rows :: nat store_error + _) = Inr (filter P sample_rows)"
      "\<forall>x \<in> set sample_rows. (enforced ?T [TInteger, TInteger] sample_filters [0, 1] x \<longrightarrow> P x)
        \<and> (P x \<longrightarrow> enforced ?T [TInteger, TInteger] sample_filters [0, 1] x \<or> (\<exists>c \<in> set [0, 1]. nan_value (x ! c)))"
    unfolding cols by blast
  have "P [Integer 2, Integer 7] \<and> P [Integer 4, Integer 3] \<and> \<not> P [Integer 1, Integer 5] \<and> \<not> P [Integer 2, Integer 0]"
    using P(2) en by (simp add: sample_rows_def)
  then show ?thesis using P(1) by blast
qed

text \<open>
  C38. The exception is real: with \<open>WHERE x > 5\<close> on an index of a double column, the seek returns the row
  whose \<open>x\<close> is a NaN, although the evaluator answers the condition there with an error; and a plan
  drops the conditions its seek enforces (\<^verbatim>\<open>push_filters\<close> of \<^verbatim>\<open>plan/logical.rs\<close>).
\<close>

theorem seek_keeps_nan:
  "let f = Binary (Value 0) Gt (Literal (Double 0x4014000000000000)); xs = [[Double 0x7FF8000000000000]]
   in \<exists>ranges. key_ranges [0] (column_sets [f] [TDouble]) = Some (ranges, 1) \<and> indexed [TDouble] [0] 1 (\<lambda>x. x) (\<lambda>x. x) xs
     \<and> limits [TDouble] 0 f \<and> (key_range_scan (\<lambda>x. x) ranges xs :: 'k store_error + _) = Inr xs
     \<and> eval T (hd xs) f = Inl (InvalidOperationOnOperand ''Gt'' ''NaN'')"
proof -
  let ?five = "0x4014000000000000 :: f64" and ?nan = "0x7FF8000000000000 :: f64"
  let ?f = "Binary (Value 0) Gt (Literal (Double ?five))"
  let ?r = "\<lparr>kr_prefix = [], kr_lower = Excluded (Double ?five), kr_upper = Unbounded\<rparr>"
  have five: "\<not> f64_is_nan ?five" "f64_low ?five \<noteq> 0" by (simp_all add: f64_is_nan_def f64_low_def)
  have nan: "f64_is_nan ?nan" by (simp add: f64_is_nan_def f64_low_def)
  have zero: "\<not> f64_eq ?five 0" unfolding f64_zero by simp
  have gt: "total_cmp ?nan ?five = Greater" by (simp add: total_cmp_def total_key_def)
  have set: "condition_set ?f [TDouble] = Some (0, Range \<lparr>cr_lower = Excluded (Double ?five), cr_upper = Unbounded\<rparr>)"
    by (simp add: condition_set_def column_comparison_def type_at_def condition_range_def seekable_def five
        double_column_range_def zero from_range_def equal_value_def both_zeros_def is_empty_def)
  then have "key_ranges [0] (column_sets [?f] [TDouble]) = Some ([?r], 1)" "limits [TDouble] 0 ?f"
    by (simp_all add: column_sets_def add_condition_def key_ranges_def limits_def)
  moreover have "(key_range_scan (\<lambda>x. x) [?r] [[Double ?nan]] :: 'k store_error + _) = Inr [[Double ?nan]]"
    by (simp add: range_start_def entries_from_def range_position_def bounds_position_def gt)
  moreover have "eval T [Double ?nan] ?f = Inl (InvalidOperationOnOperand ''Gt'' ''NaN'')"
    by (simp add: binary_def as_bool_def sql_compare_def same_type_def f64_partial_cmp_def nan)
  moreover have "indexed [TDouble] [0] 1 (\<lambda>x. x) (\<lambda>x. x) [[Double ?nan]]" by (simp add: indexed_def row_fits_def)
  ultimately show ?thesis by auto
qed

end
