(* ===== verification/Btree.thy ===== *)
theory Btree
  imports Mvcc_Db Key_Range
begin

text \<open>
  The index pages of a table's tree (\<^verbatim>\<open>store/src/tables/bplustree.rs\<close>): routing to a leaf, the descent
  of a writer that splits full pages on its way down, and the write of a row into its leaf, for a
  tree that keeps its rows in its leaves. A page is linked to its right sibling and bounded by its
  high key (a B-link tree), so that readers who take no locks find their way around splits.

  A page's content is the list of its entries in key order, which is what the operations of
  \<open>Slotted_Spec\<close> make of its bytes; its used size is counted from the sizes of the entries. The
  pages a tree has are a map from page numbers; a page is written as a whole
  (\<^verbatim>\<open>write_locked_page_with_lsn\<close>), and which number a new page gets is a parameter.
\<close>

section \<open>Pages\<close>

text \<open>
  An entry of an inner page leads to a page. An entry of a leaf is a row, the tuple itself: the trees
  modelled are those with \<^verbatim>\<open>rows_in_leaves\<close>.
\<close>

datatype node = Inner nat | Leaf tuple

type_synonym entry = "dbid \<times> node"

record index_page =
  ip_inner :: bool
  ip_leaf :: bool
  ip_next :: nat
  ip_high :: "dbid option"
  ip_entries :: "entry list"
  ip_record_size :: "nat option"

text \<open>
  What a tree is made with, and what it takes from elsewhere: the size of an entry, how the buffer pool
  numbers a new page, and whether a page's bytes have room to replace an entry by another
  (\<open>Slotted_Page\<close>; adding one needs only what \<^verbatim>\<open>can_store\<close> counts).
\<close>

record btree_cfg =
  bc_size :: "entry \<Rightarrow> nat"
  bc_overhead :: nat
  bc_usable :: nat
  bc_nodes_per_page :: nat
  bc_count_cap :: "nat option"
  bc_leaf_budget :: nat
  bc_inner_budget :: nat
  bc_alloc :: "(nat \<rightharpoonup> index_page) \<Rightarrow> nat"
  bc_takes :: "entry \<Rightarrow> index_page \<Rightarrow> bool"

abbreviation (input) FULL_SLACK :: nat where "FULL_SLACK \<equiv> 16"
abbreviation (input) MAX_ID :: dbid where "MAX_ID \<equiv> IntId 0xFFFFFFFFFFFFFFFF"

abbreviation (input) id_less :: "dbid \<Rightarrow> dbid \<Rightarrow> bool" where "id_less a b \<equiv> dbid_cmp a b = Less"
abbreviation (input) id_le :: "dbid \<Rightarrow> dbid \<Rightarrow> bool" where "id_le a b \<equiv> dbid_cmp a b \<noteq> Greater"

definition used_data_size :: "btree_cfg \<Rightarrow> index_page \<Rightarrow> nat" where
  "used_data_size C p = sum_list (map (\<lambda>e. bc_size C e + bc_overhead C) (ip_entries p))"

definition can_store :: "btree_cfg \<Rightarrow> entry \<Rightarrow> index_page \<Rightarrow> bool" where
  "can_store C e p =
     (used_data_size C p = 0 \<or> used_data_size C p + bc_size C e + bc_overhead C \<le> bc_usable C)"

definition too_large :: "btree_cfg \<Rightarrow> entry \<Rightarrow> index_page \<Rightarrow> bool" where
  "too_large C e p = (case ip_record_size p of Some n \<Rightarrow> n < bc_size C e | None \<Rightarrow> False)"

definition find_entry :: "dbid \<Rightarrow> entry list \<Rightarrow> node option" where
  "find_entry i es = map_option snd (find (\<lambda>e. dbid_cmp (fst e) i = Equal) es)"

definition put_entry :: "entry \<Rightarrow> entry list \<Rightarrow> entry list" where
  "put_entry e es =
     takeWhile (\<lambda>x. id_less (fst x) (fst e)) es @ e # dropWhile (\<lambda>x. id_less (fst x) (fst e)) es"

definition add_tuple :: "btree_cfg \<Rightarrow> entry \<Rightarrow> index_page \<Rightarrow> serr + index_page" where
  "add_tuple C e p =
     (if too_large C e p then Inl (TupleTooLarge (bc_size C e) (the (ip_record_size p)))
      else if \<not> can_store C e p then Inl PageCapacityError
      else if find_entry (fst e) (ip_entries p) \<noteq> None then Inl (DuplicateKey (fst e))
      else Inr (p\<lparr>ip_entries := put_entry e (ip_entries p)\<rparr>))"

definition replace_tuple :: "btree_cfg \<Rightarrow> dbid \<Rightarrow> node \<Rightarrow> index_page \<Rightarrow> serr + (node \<times> index_page)" where
  "replace_tuple C i v p =
     (if too_large C (i, v) p then Inl (TupleTooLarge (bc_size C (i, v)) (the (ip_record_size p)))
      else case find_entry i (ip_entries p) of
          None \<Rightarrow> Inl (KeyNotFound i)
        | Some old \<Rightarrow>
            if \<not> bc_takes C (i, v) p then Inl PageCapacityError
            else Inr (old, p\<lparr>ip_entries := map (\<lambda>e. if dbid_cmp (fst e) i = Equal then (i, v) else e) (ip_entries p)\<rparr>))"

definition remove_tuple :: "dbid \<Rightarrow> index_page \<Rightarrow> serr + (node \<times> index_page)" where
  "remove_tuple i p =
     (case find_entry i (ip_entries p) of
        None \<Rightarrow> Inl (KeyNotFound i)
      | Some old \<Rightarrow> Inr (old, p\<lparr>ip_entries := filter (\<lambda>e. dbid_cmp (fst e) i \<noteq> Equal) (ip_entries p)\<rparr>))"

text \<open>\<^verbatim>\<open>append_encoded\<close>, one entry after the other.\<close>

fun copy_records :: "btree_cfg \<Rightarrow> entry list \<Rightarrow> index_page \<Rightarrow> serr + index_page" where
  "copy_records C [] p = Inr p"
| "copy_records C (e # es) p =
     (if too_large C e p then Inl (TupleTooLarge (bc_size C e) (the (ip_record_size p)))
      else if \<not> can_store C e p then Inl PageCapacityError
      else copy_records C es (p\<lparr>ip_entries := ip_entries p @ [e]\<rparr>))"

definition successor_or_last :: "dbid \<Rightarrow> entry list \<Rightarrow> entry option" where
  "successor_or_last i es =
     (let pos = min (length (takeWhile (\<lambda>e. id_le (fst e) i) es)) (length es - 1)
      in if pos < length es then Some (es ! pos) else None)"

section \<open>When and where a page splits\<close>

definition is_full_for :: "btree_cfg \<Rightarrow> nat option \<Rightarrow> index_page \<Rightarrow> bool" where
  "is_full_for C room p =
     (if ip_leaf p then
        used_data_size C p + (case room of Some r \<Rightarrow> r | None \<Rightarrow> bc_leaf_budget C) + bc_overhead C + FULL_SLACK > bc_usable C
      else
        (case bc_count_cap C of Some cap \<Rightarrow> cap - 1 \<le> length (ip_entries p) | None \<Rightarrow> False)
        \<or> used_data_size C p
            + (case ip_record_size p of Some n \<Rightarrow> n | None \<Rightarrow> bc_usable C div max (bc_nodes_per_page C) 1)
            + bc_overhead C + FULL_SLACK > bc_usable C)"

text \<open>The first cut that leaves at least half the bytes on the left.\<close>

fun byte_midpoint :: "nat list \<Rightarrow> nat \<Rightarrow> nat \<Rightarrow> nat \<Rightarrow> nat option" where
  "byte_midpoint [] bytes left i = None"
| "byte_midpoint (s # sizes) bytes left i =
     (let left = left + s in if bytes \<le> 2 * left then Some (i + 1) else byte_midpoint sizes bytes left (i + 1))"

text \<open>\<open>None\<close> is a panic: no entries at all, or \<^verbatim>\<open>clamp\<close> between 1 and 0.\<close>

definition split_point_of :: "nat list \<Rightarrow> bool \<Rightarrow> dbid \<Rightarrow> (nat \<Rightarrow> dbid) \<Rightarrow> nat option" where
  "split_point_of sizes is_inner incoming_id key_at =
     (let n = length sizes;
          is_rightmost_append =
            (if is_inner then n < 2 \<or> id_le (key_at (n - 2)) incoming_id else id_less (key_at (n - 1)) incoming_id)
      in if n = 0 then None
         else if is_rightmost_append then Some (n - 1)
         else if n = 1 then None
         else let mid = (case byte_midpoint sizes (sum_list sizes) 0 0 of Some m \<Rightarrow> m | None \<Rightarrow> n - 1)
              in Some (max 1 (min mid (n - 1))))"

abbreviation (input) tree_panic :: serr where "tree_panic \<equiv> UnknownError ''panic''"

text \<open>The separator and the two halves.\<close>

definition split_entries :: "btree_cfg \<Rightarrow> dbid \<Rightarrow> index_page \<Rightarrow> serr + (dbid \<times> entry list \<times> entry list)" where
  "split_entries C incoming_id p =
     (let es = ip_entries p in
      case split_point_of (map (bc_size C) es) (ip_inner p) incoming_id (\<lambda>i. fst (es ! i)) of
        None \<Rightarrow> Inl tree_panic
      | Some mid \<Rightarrow>
          if ip_inner p \<and> mid = 0 then Inl tree_panic
          else Inr (fst (es ! (if ip_inner p then mid - 1 else mid)), take mid es, drop mid es))"

definition sibling_page :: "index_page \<Rightarrow> index_page" where
  "sibling_page p =
     \<lparr>ip_inner = ip_inner p, ip_leaf = \<not> ip_inner p, ip_next = 0, ip_high = None, ip_entries = [], ip_record_size = ip_record_size p\<rparr>"

definition blank_page :: "index_page \<Rightarrow> index_page" where
  "blank_page p =
     \<lparr>ip_inner = False, ip_leaf = False, ip_next = 0, ip_high = None, ip_entries = [], ip_record_size = ip_record_size p\<rparr>"

text \<open>A page and its new sibling after the split: the separator, the page itself, the sibling.\<close>

definition split_off :: "btree_cfg \<Rightarrow> dbid \<Rightarrow> nat \<Rightarrow> index_page \<Rightarrow> serr + (dbid \<times> index_page \<times> index_page)" where
  "split_off C incoming_id new_id p =
     r_bind (split_entries C incoming_id p) (\<lambda>(separator, kept, moved).
       r_bind (copy_records C moved ((sibling_page p)\<lparr>ip_next := ip_next p, ip_high := ip_high p\<rparr>)) (\<lambda>new.
         Inr (separator, p\<lparr>ip_next := new_id, ip_high := Some separator, ip_entries := kept\<rparr>, new)))"

definition new_root :: "btree_cfg \<Rightarrow> dbid \<Rightarrow> nat \<Rightarrow> nat \<Rightarrow> index_page \<Rightarrow> serr + index_page" where
  "new_root C separator left right p =
     r_bind (add_tuple C (separator, Inner left)
         (p\<lparr>ip_leaf := False, ip_inner := True, ip_entries := [], ip_record_size := Some (bc_inner_budget C)\<rparr>))
       (add_tuple C (MAX_ID, Inner right))"

text \<open>The two halves of a root that splits: the separator, the left and the right page.\<close>

definition split_halves :: "btree_cfg \<Rightarrow> dbid \<Rightarrow> nat \<Rightarrow> index_page \<Rightarrow> serr + (dbid \<times> index_page \<times> index_page)" where
  "split_halves C incoming_id right_id p =
     r_bind (split_entries C incoming_id p) (\<lambda>(separator, low, high).
       r_bind (copy_records C low ((sibling_page p)\<lparr>ip_next := right_id, ip_high := Some separator\<rparr>)) (\<lambda>left.
         r_bind (copy_records C high ((sibling_page p)\<lparr>ip_next := ip_next p, ip_high := ip_high p\<rparr>)) (\<lambda>right.
           Inr (separator, left, right))))"

section \<open>Trees\<close>

record btree =
  bt_pages :: "nat \<rightharpoonup> index_page"
  bt_root :: nat

definition get_page :: "btree \<Rightarrow> nat \<Rightarrow> serr + index_page" where
  "get_page T p = ok_or (UnknownError ''no such page'') (bt_pages T p)"

definition write_page :: "nat \<Rightarrow> index_page \<Rightarrow> btree \<Rightarrow> btree" where
  "write_page p pg T = T\<lparr>bt_pages := (bt_pages T)(p \<mapsto> pg)\<rparr>"

definition alloc_sibling_index_page :: "btree_cfg \<Rightarrow> index_page \<Rightarrow> btree \<Rightarrow> nat \<times> btree" where
  "alloc_sibling_index_page C p T = (let n = bc_alloc C (bt_pages T) in (n, write_page n (blank_page p) T))"

definition split_non_root_page :: "btree_cfg \<Rightarrow> dbid \<Rightarrow> nat \<Rightarrow> index_page \<Rightarrow> btree \<Rightarrow> (serr + (dbid \<times> nat)) \<times> btree" where
  "split_non_root_page C incoming_id page_id p T =
     (case split_entries C incoming_id p of
        Inl e \<Rightarrow> (Inl e, T)
      | Inr _ \<Rightarrow>
          let (new_id, T1) = alloc_sibling_index_page C p T in
          case split_off C incoming_id new_id p of
            Inl e \<Rightarrow> (Inl e, T1)
          | Inr (separator, current, new) \<Rightarrow> (Inr (separator, new_id), write_page page_id current (write_page new_id new T1)))"

definition split_root_page :: "btree_cfg \<Rightarrow> dbid \<Rightarrow> nat option \<Rightarrow> index_page \<Rightarrow> btree \<Rightarrow> (serr + unit) \<times> btree" where
  "split_root_page C incoming_id room p T =
     (if \<not> is_full_for C room p then (Inr (), T)
      else case split_entries C incoming_id p of Inl e \<Rightarrow> (Inl e, T) | Inr _ \<Rightarrow>
        let (left_id, T1) = alloc_sibling_index_page C p T; (right_id, T2) = alloc_sibling_index_page C p T1 in
        case split_halves C incoming_id right_id p of
          Inl e \<Rightarrow> (Inl e, T2)
        | Inr (separator, left, right) \<Rightarrow>
            (let T3 = write_page right_id right (write_page left_id left T2) in
             case new_root C separator left_id right_id p of
               Inl e \<Rightarrow> (Inl e, T3)
             | Inr root \<Rightarrow> (Inr (), write_page (bt_root T) root T3)))"

definition new_tree :: "btree_cfg \<Rightarrow> nat \<Rightarrow> btree" where
  "new_tree C root =
     \<lparr>bt_pages = [root \<mapsto> \<lparr>ip_inner = False, ip_leaf = True, ip_next = 0, ip_high = None, ip_entries = [],
        ip_record_size = Some (bc_leaf_budget C)\<rparr>], bt_root = root\<rparr>"

section \<open>Reading\<close>

text \<open>The loop of \<^verbatim>\<open>route_to_leaf_id\<close>: one page read at a time. \<open>route_step\<close> is what one page says.\<close>

datatype route = Arrived | Go nat | Corrupt

definition route_step :: "dbid \<Rightarrow> index_page \<Rightarrow> route" where
  "route_step i p =
     (if (case ip_high p of Some h \<Rightarrow> id_le h i \<and> ip_next p \<noteq> 0 | None \<Rightarrow> False) then Go (ip_next p)
      else if \<not> ip_inner p then Arrived
      else case successor_or_last i (ip_entries p) of
          None \<Rightarrow> Arrived
        | Some (_, Inner c) \<Rightarrow> Go c
        | Some (_, Leaf _) \<Rightarrow> Corrupt)"

partial_function (option) route_to_leaf_id :: "btree \<Rightarrow> dbid \<Rightarrow> nat \<Rightarrow> (serr + (nat \<times> index_page)) option" where
  [code]: "route_to_leaf_id T i current =
     (case get_page T current of
        Inl e \<Rightarrow> Some (Inl e)
      | Inr p \<Rightarrow> (case route_step i p of
            Arrived \<Rightarrow> Some (Inr (current, p))
          | Go next \<Rightarrow> route_to_leaf_id T i next
          | Corrupt \<Rightarrow> Some (Inl (Corruption ''expected an inner routing entry''))))"

definition row_at :: "dbid \<Rightarrow> index_page \<Rightarrow> tuple option" where
  "row_at i p = (case find_entry i (ip_entries p) of Some (Leaf t) \<Rightarrow> Some t | _ \<Rightarrow> None)"

definition tree_find :: "btree \<Rightarrow> dbid \<Rightarrow> (serr + tuple option) option" where
  "tree_find T i = map_option (\<lambda>r. r_bind r (\<lambda>(_, p). Inr (row_at i p))) (route_to_leaf_id T i (bt_root T))"

partial_function (option) first_leaf_of :: "btree \<Rightarrow> nat \<Rightarrow> (serr + (nat \<times> index_page)) option" where
  [code]: "first_leaf_of T current =
     (case get_page T current of
        Inl e \<Rightarrow> Some (Inl e)
      | Inr p \<Rightarrow>
          if \<not> ip_inner p then Some (Inr (current, p))
          else (case ip_entries p of
              [] \<Rightarrow> Some (Inr (current, p))
            | (_, Inner c) # _ \<Rightarrow> first_leaf_of T c
            | (_, Leaf _) # _ \<Rightarrow> Some (Inl (Corruption ''expected an inner routing entry''))))"

definition next_leaf_page :: "btree \<Rightarrow> index_page \<Rightarrow> serr + index_page option" where
  "next_leaf_page T p = (if ip_next p \<noteq> 0 then r_bind (get_page T (ip_next p)) (\<lambda>q. Inr (Some q)) else Inr None)"

section \<open>Writing\<close>

datatype split_outcome = Split dbid nat | NoSplitNeeded

definition split_if_needed :: "btree_cfg \<Rightarrow> dbid \<Rightarrow> nat option \<Rightarrow> nat \<Rightarrow> btree \<Rightarrow> (serr + split_outcome) \<times> btree" where
  "split_if_needed C i room page_id T =
     (case get_page T page_id of
        Inl e \<Rightarrow> (Inl e, T)
      | Inr p \<Rightarrow>
          if is_full_for C room p then
            if page_id = bt_root T then (Inl (UnknownError ''Trying to split root in the wrong place''), T)
            else (case split_non_root_page C i page_id p T of
                (Inl e, T') \<Rightarrow> (Inl e, T')
              | (Inr (separator, sibling), T') \<Rightarrow> (Inr (Split separator sibling), T'))
          else (Inr NoSplitNeeded, T))"

text \<open>The parent's entry for a page that split: the old entry leads to the sibling, a new one to the page.\<close>

definition route_split :: "btree_cfg \<Rightarrow> dbid \<Rightarrow> dbid \<Rightarrow> nat \<Rightarrow> nat \<Rightarrow> index_page \<Rightarrow> serr + index_page" where
  "route_split C i separator p sibling parent =
     (case successor_or_last i (ip_entries parent) of
        None \<Rightarrow> Inl (Corruption ''inner node has no entries'')
      | Some (routed, _) \<Rightarrow>
          r_bind (replace_tuple C routed (Inner sibling) parent) (\<lambda>(_, q). add_tuple C (separator, Inner p) q))"

partial_function (option) descend_for_write ::
    "btree_cfg \<Rightarrow> dbid \<Rightarrow> nat option \<Rightarrow> nat \<Rightarrow> btree \<Rightarrow> ((serr + nat) \<times> btree) option" where
  [code]: "descend_for_write C i room start T =
     (case get_page T start of
        Inl e \<Rightarrow> Some (Inl e, T)
      | Inr p \<Rightarrow>
          if ip_leaf p then
            if is_full_for C room p then
              if start = bt_root T then
                (case split_root_page C i room p T of
                   (Inl e, T') \<Rightarrow> Some (Inl e, T')
                 | (Inr _, T') \<Rightarrow> descend_for_write C i room start T')
              else Some (Inl PageCapacityError, T)
            else Some (Inr start, T)
          else if \<not> ip_inner p then Some (Inl (Corruption ''page is flagged neither a leaf nor an inner node''), T)
          else if ip_entries p = [] then Some (Inl (Corruption ''inner page has no routing entries''), T)
          else if is_full_for C None p then Some (Inl PageCapacityError, T)
          else (case successor_or_last i (ip_entries p) of
              None \<Rightarrow> Some (Inl (Corruption ''inner node has no entries''), T)
            | Some (_, Leaf _) \<Rightarrow> Some (Inl (Corruption ''expected an inner routing entry''), T)
            | Some (_, Inner c) \<Rightarrow>
                (case split_if_needed C i room c T of
                   (Inl e, T') \<Rightarrow> Some (Inl e, T')
                 | (Inr NoSplitNeeded, T') \<Rightarrow> descend_for_write C i room c T'
                 | (Inr (Split separator sibling), T') \<Rightarrow>
                     (case route_split C i separator c sibling p of
                        Inl e \<Rightarrow> Some (Inl e, T')
                      | Inr p' \<Rightarrow>
                          descend_for_write C i room (if id_less i separator then c else sibling) (write_page start p' T')))))"

text \<open>
  The optimistic part of \<^verbatim>\<open>leaf_for_write\<close>: the leaf routed to is locked and checked again, following its
  right siblings. \<open>Inr None\<close> is a page that is no leaf any more, on which the code tries again.
\<close>

partial_function (option) revalidate :: "btree \<Rightarrow> dbid \<Rightarrow> nat \<Rightarrow> (serr + (nat \<times> index_page) option) option" where
  [code]: "revalidate T i page_id =
     (case get_page T page_id of
        Inl e \<Rightarrow> Some (Inl e)
      | Inr p \<Rightarrow>
          if \<not> ip_leaf p then Some (Inr None)
          else if (case ip_high p of Some h \<Rightarrow> id_le h i \<and> ip_next p \<noteq> 0 | None \<Rightarrow> False) then revalidate T i (ip_next p)
          else Some (Inr (Some (page_id, p))))"

fun optimistic :: "nat \<Rightarrow> btree_cfg \<Rightarrow> entry \<Rightarrow> nat option \<Rightarrow> btree \<Rightarrow> (serr + nat option) option" where
  "optimistic 0 C probe room T = Some (Inr None)"
| "optimistic (Suc n) C probe room T =
     Option.bind (route_to_leaf_id T (fst probe) (bt_root T)) (\<lambda>r.
       case r of
         Inl e \<Rightarrow> Some (Inl e)
       | Inr (leaf_id, _) \<Rightarrow>
           Option.bind (revalidate T (fst probe) leaf_id) (\<lambda>r.
             case r of
               Inl e \<Rightarrow> Some (Inl e)
             | Inr None \<Rightarrow> optimistic n C probe room T
             | Inr (Some (page_id, p)) \<Rightarrow>
                 Some (Inr (if \<not> is_full_for C room p \<and> can_store C probe p then Some page_id else None))))"

fun descend_retrying :: "nat \<Rightarrow> btree_cfg \<Rightarrow> dbid \<Rightarrow> nat option \<Rightarrow> btree \<Rightarrow> ((serr + nat) \<times> btree) option" where
  "descend_retrying retries C i room T =
     (case get_page T (bt_root T) of
        Inl e \<Rightarrow> Some (Inl e, T)
      | Inr p \<Rightarrow>
          (case (if is_full_for C room p then split_root_page C i room p T else (Inr (), T)) of
             (Inl e, T1) \<Rightarrow> Some (Inl e, T1)
           | (Inr _, T1) \<Rightarrow>
               Option.bind (descend_for_write C i room (bt_root T1) T1) (\<lambda>(r, T2).
                 case (r, retries) of
                   (Inl PageCapacityError, Suc n) \<Rightarrow> descend_retrying n C i room T2
                 | _ \<Rightarrow> Some (r, T2))))"

definition leaf_for_write :: "btree_cfg \<Rightarrow> entry \<Rightarrow> nat option \<Rightarrow> btree \<Rightarrow> ((serr + nat) \<times> btree) option" where
  "leaf_for_write C probe room T =
     Option.bind (optimistic 4 C probe room T) (\<lambda>r.
       case r of
         Inl e \<Rightarrow> Some (Inl e, T)
       | Inr (Some leaf) \<Rightarrow> Some (Inr leaf, T)
       | Inr None \<Rightarrow> descend_retrying 16 C (fst probe) room T)"

definition apply_in_leaf :: "btree_cfg \<Rightarrow> dbid \<Rightarrow> bool \<Rightarrow> decision \<Rightarrow> index_page \<Rightarrow> serr + (write_result \<times> index_page)" where
  "apply_in_leaf C i present decision leaf =
     (case decision of
        Skip \<Rightarrow> Inr (WSkipped, leaf)
      | Insert new \<Rightarrow>
          if present then Inl (DuplicateKey i) else r_bind (add_tuple C (t_id new, Leaf new) leaf) (\<lambda>q. Inr (WInserted, q))
      | Replace new \<Rightarrow>
          if \<not> present then Inl (KeyNotFound i)
          else r_bind (replace_tuple C i (Leaf new) leaf) (\<lambda>(old, q).
            case old of Leaf t \<Rightarrow> Inr (WReplaced t, q) | Inner _ \<Rightarrow> Inl tree_panic)
      | Delete \<Rightarrow>
          if \<not> present then Inr (WDeleted None, leaf)
          else r_bind (remove_tuple i leaf) (\<lambda>(old, q).
            case old of Leaf t \<Rightarrow> Inr (WDeleted (Some t), q) | Inner _ \<Rightarrow> Inl tree_panic))"

text \<open>The loop of \<^verbatim>\<open>write_in_leaf\<close> that finds a leaf with room for the next version of its own row.\<close>

partial_function (option) leaf_with_room ::
    "btree_cfg \<Rightarrow> entry \<Rightarrow> nat option \<Rightarrow> nat \<Rightarrow> btree \<Rightarrow> ((serr + (nat \<times> index_page)) \<times> btree) option" where
  [code]: "leaf_with_room C probe room asked T =
     Option.bind (leaf_for_write C probe (Some asked) T) (\<lambda>(r, T1).
       case r_bind r (\<lambda>leaf. r_bind (get_page T1 leaf) (\<lambda>p. Inr (leaf, p))) of
         Inl e \<Rightarrow> Some (Inl e, T1)
       | Inr (leaf, p) \<Rightarrow>
           (case (room, row_at (fst probe) p) of
              (None, Some cur) \<Rightarrow>
                (let need = bc_size C (t_id cur, Leaf cur) + 10 + 4 in
                 if asked < need \<and> is_full_for C (Some need) p then leaf_with_room C probe room need T1
                 else Some (Inr (leaf, p), T1))
            | _ \<Rightarrow> Some (Inr (leaf, p), T1)))"

definition write_in_leaf ::
    "btree_cfg \<Rightarrow> entry \<Rightarrow> nat option \<Rightarrow> (tuple option \<Rightarrow> serr + decision) \<Rightarrow> btree \<Rightarrow> ((serr + write_result) \<times> btree) option" where
  "write_in_leaf C probe room decide T =
     Option.bind (leaf_with_room C probe room (case room of Some r \<Rightarrow> r | None \<Rightarrow> 0) T) (\<lambda>(r, T1).
       case r of
         Inl e \<Rightarrow> Some (Inl e, T1)
       | Inr (leaf, p) \<Rightarrow>
           (let current = row_at (fst probe) p in
            case r_bind (decide current) (\<lambda>d. apply_in_leaf C (fst probe) (current \<noteq> None) d p) of
              Inl e \<Rightarrow> Some (Inl e, T1)
            | Inr (WSkipped, _) \<Rightarrow> Some (Inr WSkipped, T1)
            | Inr (w, q) \<Rightarrow> Some (Inr w, write_page leaf q T1)))"

end
