(* ===== verification/Btree_Inv.thy ===== *)
theory Btree_Inv
  imports Btree
begin

text \<open>
  What keeps a tree in order while its pages are split one write at a time. Each page that is linked
  into the tree has a least key, which never changes, and a level; a page's range reaches from its
  least key to its high key, where its right sibling's begins. The children of an inner page begin
  where its entries say, and may end earlier while one of them has split and its parent has not yet
  been told.
\<close>

section \<open>Order of ids\<close>

lemma dbid_cmp_bytes: "dbid_cmp a b = slice_cmp (key_bytes a) (key_bytes b)"
  by (simp add: key_bytes_cmp)

interpretation ids: three_way dbid_cmp
proof
  show "reverse_ord (dbid_cmp a b) = dbid_cmp b a" for a b unfolding dbid_cmp_bytes by (rule slice_cmp_reverse)
  show "dbid_cmp a b = Less \<Longrightarrow> dbid_cmp b c = Less \<Longrightarrow> dbid_cmp a c = Less" for a b c
    unfolding dbid_cmp_bytes by (rule slice_cmp_less_trans)
  show "dbid_cmp a b = Equal \<Longrightarrow> dbid_cmp a c = dbid_cmp b c" for a b c
    unfolding dbid_cmp_bytes slice_cmp_eq_iff by simp
qed

text \<open>Bounds: no lower bound is below every id, no upper bound above.\<close>

definition from_low :: "dbid option \<Rightarrow> dbid \<Rightarrow> bool" where
  "from_low low i = (case low of None \<Rightarrow> True | Some l \<Rightarrow> id_le l i)"

definition low_less :: "dbid option \<Rightarrow> dbid \<Rightarrow> bool" where
  "low_less low i = (case low of None \<Rightarrow> True | Some l \<Rightarrow> id_less l i)"

definition to_high :: "dbid option \<Rightarrow> dbid \<Rightarrow> bool" where
  "to_high high i = (case high of None \<Rightarrow> True | Some h \<Rightarrow> id_less i h)"

definition high_le :: "dbid option \<Rightarrow> dbid \<Rightarrow> bool" where
  "high_le high k = (case high of None \<Rightarrow> k = MAX_ID | Some h \<Rightarrow> id_le h k)"

definition high_low :: "dbid option \<Rightarrow> dbid option \<Rightarrow> bool" where
  "high_low high low = (case (high, low) of (Some h, Some l) \<Rightarrow> id_le h l | _ \<Rightarrow> False)"

lemma low_less_from: "low_less low i \<Longrightarrow> from_low low i"
  by (auto simp: low_less_def from_low_def split: option.splits)

lemma low_less_trans: "low_less low i \<Longrightarrow> id_le i j \<Longrightarrow> low_less low j"
  by (auto simp: low_less_def split: option.splits intro: ids.less_le_trans)

lemma from_low_trans: "from_low low i \<Longrightarrow> id_le i j \<Longrightarrow> from_low low j"
  by (auto simp: from_low_def split: option.splits dest: ids.le_trans)

section \<open>Pages in order\<close>

text \<open>
  The entries of an inner page of level \<open>n\<close>: each leads to a linked page one level down that begins
  where the entry before ends, and ends no later than its own key.
\<close>

fun routes :: "(nat \<rightharpoonup> dbid option) \<Rightarrow> (nat \<Rightarrow> nat) \<Rightarrow> (nat \<Rightarrow> dbid option) \<Rightarrow> nat \<Rightarrow> dbid option \<Rightarrow> entry list \<Rightarrow> bool" where
  "routes L lv hi n low [] = True"
| "routes L lv hi n low ((k, v) # es) =
     ((\<exists>c. v = Inner c \<and> L c = Some low \<and> Suc (lv c) = n \<and> high_le (hi c) k) \<and> low_less low k \<and> routes L lv hi n (Some k) es)"

definition link_ok :: "(nat \<rightharpoonup> dbid option) \<Rightarrow> (nat \<Rightarrow> nat) \<Rightarrow> nat \<Rightarrow> dbid option \<Rightarrow> index_page \<Rightarrow> bool" where
  "link_ok L lv n low pg =
     (case ip_high pg of
        None \<Rightarrow> ip_next pg = 0
      | Some h \<Rightarrow> low_less low h \<and> L (ip_next pg) = Some (Some h) \<and> lv (ip_next pg) = n)"

definition leaf_ok :: "dbid option \<Rightarrow> index_page \<Rightarrow> bool" where
  "leaf_ok low pg =
     (sorted_wrt (\<lambda>a b. id_less (fst a) (fst b)) (ip_entries pg)
      \<and> (\<forall>e \<in> set (ip_entries pg). from_low low (fst e) \<and> to_high (ip_high pg) (fst e) \<and> (\<exists>t. snd e = Leaf t)))"

definition inner_ok :: "(nat \<rightharpoonup> dbid option) \<Rightarrow> (nat \<Rightarrow> nat) \<Rightarrow> (nat \<Rightarrow> dbid option) \<Rightarrow> nat \<Rightarrow> dbid option \<Rightarrow> index_page \<Rightarrow> bool" where
  "inner_ok L lv hi n low pg =
     (ip_entries pg \<noteq> [] \<and> routes L lv hi n low (ip_entries pg)
      \<and> fst (last (ip_entries pg)) = (case ip_high pg of None \<Rightarrow> MAX_ID | Some h \<Rightarrow> h))"

definition page_ok :: "(nat \<rightharpoonup> dbid option) \<Rightarrow> (nat \<Rightarrow> nat) \<Rightarrow> (nat \<Rightarrow> dbid option) \<Rightarrow> nat \<Rightarrow> dbid option \<Rightarrow> index_page \<Rightarrow> bool" where
  "page_ok L lv hi n low pg =
     (link_ok L lv n low pg \<and> ip_leaf pg = (\<not> ip_inner pg)
      \<and> (if ip_inner pg then inner_ok L lv hi n low pg else n = 0 \<and> leaf_ok low pg))"

definition high_of :: "(nat \<rightharpoonup> index_page) \<Rightarrow> nat \<Rightarrow> dbid option" where
  "high_of pages p = (case pages p of Some pg \<Rightarrow> ip_high pg | None \<Rightarrow> None)"

definition pages_apart :: "(nat \<rightharpoonup> dbid option) \<Rightarrow> (nat \<Rightarrow> dbid option) \<Rightarrow> nat \<Rightarrow> nat \<Rightarrow> bool" where
  "pages_apart L hi p q = (high_low (hi p) (the (L q)) \<or> high_low (hi q) (the (L p)))"

definition wf_tree :: "(nat \<rightharpoonup> dbid option) \<Rightarrow> (nat \<Rightarrow> nat) \<Rightarrow> btree \<Rightarrow> bool" where
  "wf_tree L lv T =
     (finite (dom L) \<and> 0 \<notin> dom L
      \<and> L (bt_root T) = Some None \<and> high_of (bt_pages T) (bt_root T) = None \<and> (\<forall>p \<in> dom L. lv p \<le> lv (bt_root T))
      \<and> (\<forall>p low. L p = Some low \<longrightarrow> (\<exists>pg. bt_pages T p = Some pg \<and> page_ok L lv (high_of (bt_pages T)) (lv p) low pg))
      \<and> (\<forall>p \<in> dom L. \<forall>q \<in> dom L. p \<noteq> q \<longrightarrow> lv p = lv q \<longrightarrow> pages_apart L (high_of (bt_pages T)) p q))"

lemma routes_append:
  "routes L lv hi n low (xs @ ys) \<longleftrightarrow> routes L lv hi n low xs \<and> routes L lv hi n (if xs = [] then low else Some (fst (last xs))) ys"
  by (induction xs arbitrary: low) (auto split: if_splits)

lemma routes_child: "routes L lv hi n low es \<Longrightarrow> (k, v) \<in> set es \<Longrightarrow> \<exists>c low'. v = Inner c \<and> L c = Some low' \<and> Suc (lv c) = n \<and> low_less low k"
proof (induction es arbitrary: low)
  case (Cons e es)
  obtain k' v' where e: "e = (k', v')" by (cases e)
  show ?case
  proof (cases "(k, v) = e")
    case False
    then have "(k, v) \<in> set es" using Cons.prems by simp
    from Cons.IH [OF _ this, of "Some k'"] Cons.prems show ?thesis
      by (auto simp: e low_less_def split: option.splits intro: ids.less_trans)
  qed (use Cons.prems e in auto)
qed simp

lemma routes_sorted: "routes L lv hi n low es \<Longrightarrow> sorted_wrt (\<lambda>a b. id_less (fst a) (fst b)) es"
proof (induction es arbitrary: low)
  case (Cons e es)
  obtain k v where e: "e = (k, v)" by (cases e)
  have "id_less k (fst x)" if "x \<in> set es" for x
    using routes_child [of L lv hi n "Some k" es "fst x" "snd x"] Cons.prems that by (auto simp: e low_less_def)
  then show ?case using Cons by (auto simp: e)
qed simp

text \<open>Pages may be linked in, and high keys come down.\<close>

lemma routes_mono:
  assumes "routes L lv hi n low es" "L \<subseteq>\<^sub>m L'" "\<And>c. c \<in> dom L \<Longrightarrow> Suc (lv c) = n \<Longrightarrow> lv' c = lv c"
    and "\<And>c k. c \<in> dom L \<Longrightarrow> high_le (hi c) k \<Longrightarrow> high_le (hi' c) k"
  shows "routes L' lv' hi' n low es"
  using assms(1)
proof (induction es arbitrary: low)
  case (Cons e es)
  obtain k c where e: "e = (k, Inner c)" "L c = Some low" "Suc (lv c) = n" "high_le (hi c) k" using Cons.prems by (cases e) auto
  have "c \<in> dom L" using e(2) by blast
  then have "L' c = Some low" "Suc (lv' c) = n" "high_le (hi' c) k"
    using e assms(2-4) by (auto simp: map_le_def)
  then show ?case using Cons by (simp add: e)
qed simp

lemma page_ok_mono:
  assumes "page_ok L lv hi n low pg" "L \<subseteq>\<^sub>m L'" "\<And>c. c \<in> dom L \<Longrightarrow> lv c \<le> n \<Longrightarrow> lv' c = lv c"
    and "\<And>c k. c \<in> dom L \<Longrightarrow> high_le (hi c) k \<Longrightarrow> high_le (hi' c) k"
  shows "page_ok L' lv' hi' n low pg"
proof -
  have "link_ok L' lv' n low pg"
    using assms(1-3) by (auto simp: page_ok_def link_ok_def map_le_def dom_def split: option.splits)
  then show ?thesis using assms routes_mono [of L lv hi n low "ip_entries pg" L' lv' hi']
    by (auto simp: page_ok_def inner_ok_def)
qed

section \<open>Routing\<close>

lemma successor_Cons: "successor_or_last i (e # es) = (if id_le (fst e) i \<and> es \<noteq> [] then successor_or_last i es else Some e)"
  by (cases es) (auto simp: successor_or_last_def Let_def min_def)

lemma routes_successor:
  assumes "routes L lv hi n low es" "es \<noteq> []" "from_low low i"
  shows "\<exists>xs k c ys low'. es = xs @ (k, Inner c) # ys \<and> successor_or_last i es = Some (k, Inner c)
    \<and> low' = (if xs = [] then low else Some (fst (last xs))) \<and> L c = Some low' \<and> from_low low' i \<and> Suc (lv c) = n"
  using assms
proof (induction es arbitrary: low)
  case (Cons e es)
  obtain k c where e: "e = (k, Inner c)" "L c = Some low" "Suc (lv c) = n" "routes L lv hi n (Some k) es" using Cons.prems(1) by (cases e) auto
  show ?case
  proof (cases "id_le k i \<and> es \<noteq> []")
    case True
    then have "from_low (Some k) i" by (simp add: from_low_def)
    from Cons.IH [OF e(4) _ this] True
    obtain xs k' c' ys low' where s: "es = xs @ (k', Inner c') # ys" "successor_or_last i es = Some (k', Inner c')"
        "low' = (if xs = [] then Some k else Some (fst (last xs)))" "L c' = Some low'" "from_low low' i" "Suc (lv c') = n" by blast
    show ?thesis
      by (rule exI [of _ "e # xs"]) (use s True in \<open>auto simp: e successor_Cons\<close>)
  next
    case False
    then show ?thesis using Cons.prems e by (intro exI [of _ "[]"]) (auto simp: successor_Cons)
  qed
qed simp

lemma wf_page:
  assumes "wf_tree L lv T" "L p = Some low"
  obtains pg where "bt_pages T p = Some pg" "page_ok L lv (high_of (bt_pages T)) (lv p) low pg"
proof -
  have "\<forall>p low. L p = Some low \<longrightarrow> (\<exists>pg. bt_pages T p = Some pg \<and> page_ok L lv (high_of (bt_pages T)) (lv p) low pg)"
    using assms(1) by (simp add: wf_tree_def)
  then show thesis using assms(2) that by meson
qed

lemma route_step_ok:
  assumes "wf_tree L lv T" "L p = Some low" "bt_pages T p = Some pg" "from_low low i"
  shows "(route_step i pg = Arrived \<and> ip_leaf pg \<and> \<not> ip_inner pg \<and> lv p = 0 \<and> leaf_ok low pg \<and> to_high (ip_high pg) i)
    \<or> (\<exists>q h. route_step i pg = Go q \<and> L q = Some (Some h) \<and> lv q = lv p \<and> from_low (Some h) i \<and> low_less low h)
    \<or> (\<exists>q low'. route_step i pg = Go q \<and> L q = Some low' \<and> Suc (lv q) = lv p \<and> from_low low' i)"
proof -
  have ok: "page_ok L lv (high_of (bt_pages T)) (lv p) low pg" using wf_page [OF assms(1,2)] assms(3) by auto
  have zero: "L 0 = None" using assms(1) by (auto simp: wf_tree_def)
  show ?thesis
  proof (cases "\<exists>h. ip_high pg = Some h \<and> id_le h i")
    case True
    then obtain h where h: "ip_high pg = Some h" "id_le h i" by blast
    then have "L (ip_next pg) = Some (Some h)" "lv (ip_next pg) = lv p" "low_less low h" using ok by (auto simp: page_ok_def link_ok_def)
    moreover have "ip_next pg \<noteq> 0"
    proof
      assume "ip_next pg = 0"
      then show False using zero calculation(1) by simp
    qed
    ultimately show ?thesis using h by (auto simp: route_step_def from_low_def)
  next
    case False
    then have hi: "to_high (ip_high pg) i" using ids.greater_iff by (cases "ip_high pg") (auto simp: to_high_def)
    have stay: "\<not> (case ip_high pg of Some h \<Rightarrow> id_le h i \<and> ip_next pg \<noteq> 0 | None \<Rightarrow> False)" using False by (cases "ip_high pg") auto
    show ?thesis
    proof (cases "ip_inner pg")
      case True
      then have "routes L lv (high_of (bt_pages T)) (lv p) low (ip_entries pg)" "ip_entries pg \<noteq> []" using ok by (auto simp: page_ok_def inner_ok_def)
      from routes_successor [OF this assms(4)] show ?thesis using stay True by (auto simp: route_step_def)
    next
      case False
      then show ?thesis using ok hi stay by (auto simp: route_step_def page_ok_def)
    qed
  qed
qed

text \<open>Routing ends: each step goes down a level, or right on its level.\<close>

lemma route_total:
  assumes "wf_tree L lv T" "L p = Some low" "from_low low i"
  shows "\<exists>q low' pg. route_to_leaf_id T i p = Some (Inr (q, pg)) \<and> L q = Some low' \<and> from_low low' i
    \<and> bt_pages T q = Some pg \<and> ip_leaf pg \<and> \<not> ip_inner pg \<and> lv q = 0 \<and> leaf_ok low' pg \<and> to_high (ip_high pg) i"
proof -
  define right where "right = (\<lambda>(p, low). {q \<in> dom L. lv q = lv p \<and> (\<exists>l. L q = Some (Some l) \<and> low_less low l)})"
  have fin: "finite (right x)" for x using assms(1) by (auto simp: right_def wf_tree_def split: prod.split)
  show ?thesis using assms(2,3)
  proof (induction "(p, low)" arbitrary: p low rule: wf_induct_rule [OF wf_measures, of "[\<lambda>(p, low). lv p, \<lambda>x. card (right x)]"])
    case 1
    obtain pg where pg: "bt_pages T p = Some pg" using wf_page [OF assms(1) 1(2)] by blast
    then have get: "get_page T p = Inr pg" by (simp add: get_page_def)
    from route_step_ok [OF assms(1) 1(2) pg 1(3)] consider
        (here) "route_step i pg = Arrived" "ip_leaf pg" "\<not> ip_inner pg" "lv p = 0" "leaf_ok low pg" "to_high (ip_high pg) i"
      | (next_page) q h where "route_step i pg = Go q" "L q = Some (Some h)" "lv q = lv p" "from_low (Some h) i" "low_less low h"
      | (down) q low' where "route_step i pg = Go q" "L q = Some low'" "Suc (lv q) = lv p" "from_low low' i" by metis
    then show ?case
    proof cases
      case here
      then show ?thesis using 1(2,3) pg by (subst route_to_leaf_id.simps) (simp add: get)
    next
      case next_page
      have "right (q, Some h) \<subseteq> right (p, low)"
        using next_page by (auto simp: right_def low_less_def split: option.splits intro: ids.less_trans)
      moreover have "q \<in> right (p, low)" "q \<notin> right (q, Some h)" using next_page by (auto simp: right_def low_less_def ids.refl)
      ultimately have "right (q, Some h) \<subset> right (p, low)" by blast
      then have "card (right (q, Some h)) < card (right (p, low))" by (intro psubset_card_mono fin)
      then have "((q, Some h), (p, low)) \<in> measures [\<lambda>(p, low). lv p, \<lambda>x. card (right x)]" using next_page(3) by simp
      from 1(1) [OF this next_page(2,4)] show ?thesis
        by (subst route_to_leaf_id.simps) (simp add: get next_page(1))
    next
      case down
      then have "((q, low'), (p, low)) \<in> measures [\<lambda>(p, low). lv p, \<lambda>x. card (right x)]" by simp
      from 1(1) [OF this down(2,4)] show ?thesis
        by (subst route_to_leaf_id.simps) (simp add: get down(1))
    qed
  qed
qed

lemma leaf_unique:
  assumes "wf_tree L lv T" "L p = Some lp" "L q = Some lq" "lv p = lv q" "bt_pages T p = Some pp" "bt_pages T q = Some pq"
    and "from_low lp i" "to_high (ip_high pp) i" "from_low lq i" "to_high (ip_high pq) i"
  shows "p = q"
proof (rule ccontr)
  assume "p \<noteq> q"
  then have "pages_apart L (high_of (bt_pages T)) p q" using assms(1-4) unfolding wf_tree_def by blast
  moreover have "\<not> high_low (Some h) (Some l)" if "id_le l i" "id_less i h" for h l
    using that ids.le_less_trans [of l i h] ids.not_both [of l h] ids.not_less [of h l] ids.greater_iff by (auto simp: high_low_def)
  ultimately show False using assms
    by (auto simp: pages_apart_def high_of_def from_low_def to_high_def high_low_def split: option.splits)
qed

lemma tree_find_leaf:
  assumes "wf_tree L lv T" "L p = Some low" "bt_pages T p = Some pg" "lv p = 0" "from_low low i" "to_high (ip_high pg) i"
  shows "tree_find T i = Some (Inr (row_at i pg))"
proof -
  have "L (bt_root T) = Some None" "from_low None i" using assms(1) by (auto simp: wf_tree_def from_low_def)
  from route_total [OF assms(1) this] obtain q low' pq where q: "route_to_leaf_id T i (bt_root T) = Some (Inr (q, pq))"
      "L q = Some low'" "from_low low' i" "bt_pages T q = Some pq" "lv q = 0" "to_high (ip_high pq) i" by blast
  then have "p = q" using leaf_unique [OF assms(1,2) q(2)] assms by simp
  then show ?thesis using q assms(3) by (simp add: tree_find_def)
qed

lemma leaf_of:
  assumes "wf_tree L lv T"
  obtains p low pg where "L p = Some low" "bt_pages T p = Some pg" "lv p = 0" "\<not> ip_inner pg" "leaf_ok low pg" "from_low low i"
    "to_high (ip_high pg) i" "tree_find T i = Some (Inr (row_at i pg))"
proof -
  have "L (bt_root T) = Some None" "from_low None i" using assms by (auto simp: wf_tree_def from_low_def)
  from route_total [OF assms this] obtain q low' pq where q: "L q = Some low'" "from_low low' i" "bt_pages T q = Some pq" "lv q = 0"
      "\<not> ip_inner pq" "leaf_ok low' pq" "to_high (ip_high pq) i" by blast
  from that [OF q(1,3,4,5,6,2,7) tree_find_leaf [OF assms q(1,3,4,2,7)]] show thesis .
qed

section \<open>Writing a page\<close>

lemma wf_treeI:
  assumes "finite (dom L)" "0 \<notin> dom L" "L (bt_root T) = Some None" "high_of (bt_pages T) (bt_root T) = None"
    and "\<And>p. p \<in> dom L \<Longrightarrow> lv p \<le> lv (bt_root T)"
    and "\<And>p low. L p = Some low \<Longrightarrow> \<exists>pg. bt_pages T p = Some pg \<and> page_ok L lv (high_of (bt_pages T)) (lv p) low pg"
    and "\<And>p q. p \<in> dom L \<Longrightarrow> q \<in> dom L \<Longrightarrow> p \<noteq> q \<Longrightarrow> lv p = lv q \<Longrightarrow> pages_apart L (high_of (bt_pages T)) p q"
  shows "wf_tree L lv T"
  unfolding wf_tree_def using assms by blast

lemma wf_treeD:
  assumes "wf_tree L lv T"
  shows "finite (dom L)" "0 \<notin> dom L" "L (bt_root T) = Some None" "high_of (bt_pages T) (bt_root T) = None"
    "p \<in> dom L \<Longrightarrow> lv p \<le> lv (bt_root T)"
    "p \<in> dom L \<Longrightarrow> q \<in> dom L \<Longrightarrow> p \<noteq> q \<Longrightarrow> lv p = lv q \<Longrightarrow> pages_apart L (high_of (bt_pages T)) p q"
  using assms by (simp_all add: wf_tree_def)

lemma high_of_upd [simp]: "high_of (m(p \<mapsto> pg)) = (high_of m)(p := ip_high pg)"
  by (auto simp: high_of_def)

lemma write_page_simps [simp]: "bt_root (write_page p pg T) = bt_root T" "bt_pages (write_page p pg T) = (bt_pages T)(p \<mapsto> pg)"
  by (simp_all add: write_page_def)

text \<open>A page that keeps its range and its links: of an unlinked page, or with new entries.\<close>

lemma wf_rewrite:
  assumes wf: "wf_tree L lv T" and pg: "\<And>low. L p = Some low \<Longrightarrow> page_ok L lv (high_of (bt_pages T)) (lv p) low pg"
    and hi: "\<And>low. L p = Some low \<Longrightarrow> ip_high pg = high_of (bt_pages T) p"
  shows "wf_tree L lv (write_page p pg T)"
proof -
  let ?hi = "high_of (bt_pages T)" and ?hi' = "high_of (bt_pages (write_page p pg T))"
  have same: "?hi' c = ?hi c" if "c \<in> dom L" for c using that hi by (cases "c = p") auto
  show ?thesis
  proof (rule wf_treeI)
    show "high_of (bt_pages (write_page p pg T)) (bt_root (write_page p pg T)) = None"
      using wf_treeD(3,4) [OF wf] same [of "bt_root T"] by (auto simp: dom_def)
    fix q low assume q: "L q = Some low"
    obtain pg' where pg': "bt_pages T q = Some pg'" "page_ok L lv ?hi (lv q) low pg'" by (rule wf_page [OF wf q])
    have "page_ok L lv ?hi' (lv q) low x" if "page_ok L lv ?hi (lv q) low x" for x
      by (rule page_ok_mono [OF that]) (use same in auto)
    then show "\<exists>x. bt_pages (write_page p pg T) q = Some x \<and> page_ok L lv ?hi' (lv q) low x"
      using pg' pg q by (cases "q = p") auto
  next
    fix q r assume qr: "q \<in> dom L" "r \<in> dom L" "q \<noteq> r" "lv q = lv r"
    then have "pages_apart L ?hi q r" by (rule wf_treeD(6) [OF wf])
    then show "pages_apart L ?hi' q r" using same qr by (simp add: pages_apart_def)
  qed (use wf_treeD [OF wf] in auto)
qed

lemma find_rewrite:
  assumes "wf_tree L lv T" "wf_tree L lv (write_page p pg T)" "\<And>low. L p = Some low \<Longrightarrow> lv p = 0 \<Longrightarrow> bt_pages T p = Some old
      \<Longrightarrow> ip_high pg = ip_high old \<and> (from_low low i \<longrightarrow> to_high (ip_high old) i \<longrightarrow> row_at i pg = row_at i old)"
    and "\<And>low. L p = Some low \<Longrightarrow> bt_pages T p = Some old"
  shows "tree_find (write_page p pg T) i = tree_find T i"
proof -
  obtain q low pq where q: "L q = Some low" "bt_pages T q = Some pq" "lv q = 0" "from_low low i" "to_high (ip_high pq) i"
      "tree_find T i = Some (Inr (row_at i pq))" by (rule leaf_of [OF assms(1)])
  show ?thesis
  proof (cases "q = p")
    case True
    then show ?thesis using q assms(3,4) tree_find_leaf [OF assms(2), of p low pg i] by auto
  next
    case False
    then show ?thesis using q tree_find_leaf [OF assms(2) q(1), of pq i] by simp
  qed
qed

section \<open>Splitting a page\<close>

lemma last_take_nth_conv: "1 \<le> m \<Longrightarrow> m \<le> length xs \<Longrightarrow> last (take m xs) = xs ! (m - 1)"
  by (subst last_conv_nth) (auto simp: min_def)

lemma copy_records_spec: "copy_records C es p = Inr q \<Longrightarrow> q = p\<lparr>ip_entries := ip_entries p @ es\<rparr>"
  by (induction C es p rule: copy_records.induct) (auto split: if_splits)

lemma split_point_bounds: "split_point_of sizes b i f = Some m \<Longrightarrow> 2 \<le> length sizes \<Longrightarrow> 1 \<le> m \<and> m < length sizes"
  by (auto simp: split_point_of_def Let_def split: if_splits option.splits)

lemma split_entries_parts:
  assumes "split_entries C i pg = Inr (sep, xs, ys)" "2 \<le> length (ip_entries pg)"
  shows "ip_entries pg = xs @ ys" "xs \<noteq> []" "ys \<noteq> []" "sep = (if ip_inner pg then fst (last xs) else fst (hd ys))"
proof -
  let ?es = "ip_entries pg"
  obtain m where m: "split_point_of (map (bc_size C) ?es) (ip_inner pg) i (\<lambda>i. fst (?es ! i)) = Some m"
      "xs = take m ?es" "ys = drop m ?es" "sep = fst (?es ! (if ip_inner pg then m - 1 else m))"
    using assms(1) by (auto simp: split_entries_def Let_def split: option.splits if_splits)
  have "1 \<le> m \<and> m < length ?es" using split_point_bounds [OF m(1)] assms(2) by simp
  then show "?es = xs @ ys" "xs \<noteq> []" "ys \<noteq> []" "sep = (if ip_inner pg then fst (last xs) else fst (hd ys))"
    by (auto simp: m last_take_nth_conv hd_drop_conv_nth)
qed

text \<open>The two halves of a page in order.\<close>

lemma below_max: "id_le i MAX_ID"
proof (cases i)
  case (IntId n)
  have "n \<le> 0xFFFFFFFFFFFFFFFF" using word_le_nat_alt [of n "0xFFFFFFFFFFFFFFFF"] unat_u64_less [of n] by simp
  then show ?thesis by (simp add: IntId not_less)
qed simp

lemma halves_ok:
  assumes ok: "page_ok L lv hi n low pg" and sp: "split_entries C i pg = Inr (sep, xs, ys)" and len: "2 \<le> length (ip_entries pg)"
  shows "low_less low sep" "to_high (ip_high pg) sep"
    "ip_inner pg \<Longrightarrow> routes L lv hi n low xs \<and> routes L lv hi n (Some sep) ys \<and> fst (last xs) = sep \<and> fst (last ys) = fst (last (ip_entries pg))"
    "\<not> ip_inner pg \<Longrightarrow> leaf_ok low (pg\<lparr>ip_high := Some sep, ip_entries := xs\<rparr>) \<and> leaf_ok (Some sep) (pg\<lparr>ip_entries := ys\<rparr>)"
proof -
  note p = split_entries_parts [OF sp len]
  obtain x xs' where x: "xs = x # xs'" using p(2) by (cases xs) auto
  obtain y ys' where y: "ys = y # ys'" using p(3) by (cases ys) auto
  have "low_less low sep \<and> to_high (ip_high pg) sep
    \<and> (ip_inner pg \<longrightarrow> routes L lv hi n low xs \<and> routes L lv hi n (Some sep) ys \<and> fst (last xs) = sep \<and> fst (last ys) = fst (last (ip_entries pg)))
    \<and> (\<not> ip_inner pg \<longrightarrow> leaf_ok low (pg\<lparr>ip_high := Some sep, ip_entries := xs\<rparr>) \<and> leaf_ok (Some sep) (pg\<lparr>ip_entries := ys\<rparr>))"
  proof (cases "ip_inner pg")
    case True
    have sep: "sep = fst (last xs)" using p(4) True by simp
    have r: "routes L lv hi n low xs" "routes L lv hi n (Some sep) ys"
      using ok True p(1,2) by (auto simp: page_ok_def inner_ok_def routes_append sep)
    have "low_less low sep" using routes_child [OF r(1), of sep "snd (last xs)"] last_in_set [OF p(2)] by (auto simp: sep)
    moreover have "id_less sep (fst (last ys))"
      using routes_child [OF r(2), of "fst (last ys)" "snd (last ys)"] last_in_set [OF p(3)] by (auto simp: low_less_def)
    moreover have "fst (last ys) = (case ip_high pg of None \<Rightarrow> MAX_ID | Some h \<Rightarrow> h)" using ok True p(1,3) by (simp add: page_ok_def inner_ok_def)
    ultimately show ?thesis using r True p(1,3) by (auto simp: sep to_high_def split: option.splits)
  next
    case False
    have sep: "sep = fst y" using p(4) False by (simp add: y)
    have leaf: "leaf_ok low pg" using ok False by (simp add: page_ok_def)
    then have srt: "sorted_wrt (\<lambda>a b. id_less (fst a) (fst b)) xs" "sorted_wrt (\<lambda>a b. id_less (fst a) (fst b)) ys"
      "\<And>a b. a \<in> set xs \<Longrightarrow> b \<in> set ys \<Longrightarrow> id_less (fst a) (fst b)"
      by (auto simp: leaf_ok_def p(1) sorted_wrt_append)
    have ent: "from_low low (fst e)" "to_high (ip_high pg) (fst e)" "\<exists>t. snd e = Leaf t" if "e \<in> set xs \<union> set ys" for e
      using leaf that by (auto simp: leaf_ok_def p(1))
    have "low_less low sep" using ent(1) [of x] srt(3) [of x y] by (auto simp: sep x y low_less_def from_low_def split: option.splits intro: ids.le_less_trans)
    moreover have "id_le sep (fst e)" if "e \<in> set ys" for e using srt(2) that by (auto simp: y sep ids.refl)
    ultimately show ?thesis using False ent srt
      by (auto simp: leaf_ok_def sep y to_high_def from_low_def)
  qed
  then show "low_less low sep" "to_high (ip_high pg) sep"
    "ip_inner pg \<Longrightarrow> routes L lv hi n low xs \<and> routes L lv hi n (Some sep) ys \<and> fst (last xs) = sep \<and> fst (last ys) = fst (last (ip_entries pg))"
    "\<not> ip_inner pg \<Longrightarrow> leaf_ok low (pg\<lparr>ip_high := Some sep, ip_entries := xs\<rparr>) \<and> leaf_ok (Some sep) (pg\<lparr>ip_entries := ys\<rparr>)"
    by blast+
qed

lemma half_ok:
  assumes ok: "page_ok L lv hi n low pg" and sp: "split_entries C i pg = Inr (sep, xs, ys)" and len: "2 \<le> length (ip_entries pg)"
    and r: "\<And>l es. routes L lv hi n l es \<Longrightarrow> routes L' lv' hi' n l es"
  shows "ip_entries x = xs \<Longrightarrow> ip_high x = Some sep \<and> ip_inner x = ip_inner pg \<and> ip_leaf x = (\<not> ip_inner pg) \<Longrightarrow> link_ok L' lv' n low x
      \<Longrightarrow> page_ok L' lv' hi' n low x"
    "ip_entries x = ys \<Longrightarrow> ip_high x = ip_high pg \<and> ip_inner x = ip_inner pg \<and> ip_leaf x = (\<not> ip_inner pg) \<Longrightarrow> link_ok L' lv' n (Some sep) x
      \<Longrightarrow> page_ok L' lv' hi' n (Some sep) x"
proof -
  note h = halves_ok(3,4) [OF ok sp len] and e = split_entries_parts [OF sp len]
  have last: "ip_inner pg \<Longrightarrow> fst (last (ip_entries pg)) = (case ip_high pg of None \<Rightarrow> MAX_ID | Some h \<Rightarrow> h)" "\<not> ip_inner pg \<Longrightarrow> n = 0"
    using ok by (simp_all add: page_ok_def inner_ok_def)
  show "page_ok L' lv' hi' n low x"
    if "ip_entries x = xs" "ip_high x = Some sep \<and> ip_inner x = ip_inner pg \<and> ip_leaf x = (\<not> ip_inner pg)" "link_ok L' lv' n low x"
    using that h r e(2) last by (cases "ip_inner pg") (simp_all add: page_ok_def inner_ok_def leaf_ok_def)
  show "page_ok L' lv' hi' n (Some sep) x"
    if "ip_entries x = ys" "ip_high x = ip_high pg \<and> ip_inner x = ip_inner pg \<and> ip_leaf x = (\<not> ip_inner pg)" "link_ok L' lv' n (Some sep) x"
    using that h r e(3) last by (cases "ip_inner pg") (simp_all add: page_ok_def inner_ok_def leaf_ok_def)
qed

lemma split_off_parts:
  assumes "split_off C i n pg = Inr (sep, cur, new)"
  obtains xs ys where "split_entries C i pg = Inr (sep, xs, ys)"
    "cur = pg\<lparr>ip_next := n, ip_high := Some sep, ip_entries := xs\<rparr>"
    "new = (sibling_page pg)\<lparr>ip_next := ip_next pg, ip_high := ip_high pg, ip_entries := ys\<rparr>"
proof -
  obtain xs ys where xy: "split_entries C i pg = Inr (sep, xs, ys)" "cur = pg\<lparr>ip_next := n, ip_high := Some sep, ip_entries := xs\<rparr>"
      "copy_records C ys ((sibling_page pg)\<lparr>ip_next := ip_next pg, ip_high := ip_high pg\<rparr>) = Inr new"
    using assms by (auto simp: split_off_def r_bind_eq_Inr)
  from copy_records_spec [OF xy(3)] that [OF xy(1,2)] show thesis by (simp add: sibling_page_def)
qed

lemma high_le_trans: "high_le h k \<Longrightarrow> to_high h s \<Longrightarrow> id_le s k"
  using below_max by (auto simp: high_le_def to_high_def split: option.splits dest: ids.less_le_trans)

lemma wf_split:
  assumes wf: "wf_tree L lv T" and p: "L p = Some low" "bt_pages T p = Some pg" "p \<noteq> bt_root T"
    and n: "n \<notin> dom L" "n \<noteq> 0" "bt_pages T n = Some new" and len: "2 \<le> length (ip_entries pg)"
    and so: "split_off C i n pg = Inr (sep, cur, new)"
  shows "wf_tree (L(n \<mapsto> Some sep)) (lv(n := lv p)) (write_page p cur T)"
proof -
  let ?L = "L(n \<mapsto> Some sep)" and ?lv = "lv(n := lv p)" and ?hi = "high_of (bt_pages T)" and ?hi' = "high_of (bt_pages (write_page p cur T))"
  obtain xs ys where parts: "split_entries C i pg = Inr (sep, xs, ys)" "cur = pg\<lparr>ip_next := n, ip_high := Some sep, ip_entries := xs\<rparr>"
      "new = (sibling_page pg)\<lparr>ip_next := ip_next pg, ip_high := ip_high pg, ip_entries := ys\<rparr>" by (rule split_off_parts [OF so])
  have ok: "page_ok L lv ?hi (lv p) low pg" using wf_page [OF wf p(1)] p(2) by auto
  note h = halves_ok [OF ok parts(1) len] and e = split_entries_parts [OF parts(1) len]
  have np: "n \<noteq> p" "n \<noteq> bt_root T" using n(1) p(1) wf_treeD(3) [OF wf] by auto
  have hin: "?hi n = ?hi p" using n(3) p(2) by (simp add: high_of_def parts(3))
  have hip: "?hi p = ip_high pg" using p(2) by (simp add: high_of_def)
  have le: "L \<subseteq>\<^sub>m ?L" using n(1) by (auto simp: map_le_def)
  have mono: "page_ok ?L ?lv ?hi' m l x" if "page_ok L lv ?hi m l x" for m l x
  proof (rule page_ok_mono [OF that le])
    fix c k assume "c \<in> dom L" "high_le (?hi c) k"
    then show "high_le (?hi' c) k" using h(2) high_le_trans [of "ip_high pg" k sep] by (auto simp: parts(2) hip high_le_def)
  qed (use n(1) in auto)
  have link: "link_ok ?L ?lv (lv p) low cur" using h(1) by (simp add: link_ok_def parts(2))
  have link': "link_ok ?L ?lv (lv p) (Some sep) new"
  proof -
    have l: "link_ok L lv (lv p) low pg" using ok by (simp add: page_ok_def)
    show ?thesis
    proof (cases "ip_high pg")
      case None
      then show ?thesis using l by (simp add: link_ok_def parts(3) sibling_page_def)
    next
      case (Some x)
      then have "L (ip_next pg) = Some (Some x)" "lv (ip_next pg) = lv p" using l by (simp_all add: link_ok_def)
      moreover have "ip_next pg \<noteq> n" using calculation(1) n(1) by auto
      ultimately show ?thesis using h(2) by (simp add: link_ok_def parts(3) sibling_page_def Some to_high_def low_less_def)
    qed
  qed
  have cur: "page_ok ?L ?lv ?hi' (lv p) low cur" and new: "page_ok ?L ?lv ?hi' (lv p) (Some sep) new"
  proof -
    have r: "routes ?L ?lv ?hi' (lv p) l es" if "routes L lv ?hi (lv p) l es" for l es
      by (rule routes_mono [OF that le]) (use n(1) h(2) high_le_trans [of "ip_high pg" _ sep] in \<open>auto simp: parts(2) hip high_le_def\<close>)
    show "page_ok ?L ?lv ?hi' (lv p) low cur" 
      by (rule half_ok(1) [OF ok parts(1) len]) (rule r, assumption, use link ok in \<open>simp_all add: parts(2) page_ok_def\<close>)
    show "page_ok ?L ?lv ?hi' (lv p) (Some sep) new" 
      by (rule half_ok(2) [OF ok parts(1) len]) (rule r, assumption, use link' in \<open>simp_all add: parts(3) sibling_page_def\<close>)
  qed
  show ?thesis
  proof (rule wf_treeI)
    show "?L (bt_root (write_page p cur T)) = Some None" "?hi' (bt_root (write_page p cur T)) = None"
      using wf_treeD(3,4) [OF wf] np p(3) by simp_all
    show "?lv q \<le> ?lv (bt_root (write_page p cur T))" if "q \<in> dom ?L" for q
      using wf_treeD(5) [OF wf, of q] wf_treeD(5) [OF wf, of p] that np p(1) by (auto split: if_splits)
    fix q l assume q: "?L q = Some l"
    show "\<exists>x. bt_pages (write_page p cur T) q = Some x \<and> page_ok ?L ?lv ?hi' (?lv q) l x"
    proof (cases "q = n \<or> q = p")
      case True
      then show ?thesis using q cur new n(3) np p(1) by auto
    next
      case False
      then have "L q = Some l" using q by simp
      then obtain x where "bt_pages T q = Some x" "page_ok L lv ?hi (lv q) l x" by (rule wf_page [OF wf])
      then show ?thesis using False mono by simp
    qed
  next
    have sep: "pages_apart ?L ?hi' p n" by (simp add: pages_apart_def parts(2) high_low_def ids.refl)
    have keep: "pages_apart ?L ?hi' q p \<and> pages_apart ?L ?hi' q n" if "q \<in> dom L" "q \<noteq> p" "lv q = lv p" for q
    proof -
      have a: "pages_apart L ?hi q p" by (rule wf_treeD(6) [OF wf]) (use that p(1) in auto)
      have qn: "q \<noteq> n" using that(1) n(1) by blast
      from a consider "high_low (?hi q) low" | "high_low (ip_high pg) (the (L q))" using p(1) by (auto simp: pages_apart_def hip)
      then show ?thesis
      proof cases
        case 1
        then obtain hq l where "?hi q = Some hq" "low = Some l" "id_le hq l" by (auto simp: high_low_def split: option.splits)
        moreover have "id_less l sep" using h(1) calculation(2) by (simp add: low_less_def)
        ultimately show ?thesis using that qn np p(1) ids.le_less_trans [of hq l sep]
          by (auto simp: pages_apart_def parts(2) high_low_def)
      next
        case 2
        then obtain hp l where "ip_high pg = Some hp" "the (L q) = Some l" "id_le hp l" by (auto simp: high_low_def split: option.splits)
        moreover have "id_less sep hp" using h(2) calculation(1) by (simp add: to_high_def)
        ultimately show ?thesis using that qn np hin hip ids.less_le_trans [of sep hp l]
          by (auto simp: pages_apart_def parts(2) high_low_def)
      qed
    qed
    have sym: "pages_apart L' hi' a b = pages_apart L' hi' b a" for L' hi' a b by (auto simp: pages_apart_def)
    fix q r assume "q \<in> dom ?L" "r \<in> dom ?L" "q \<noteq> r" "?lv q = ?lv r"
    then consider "q = n" "r = p" | "q = p" "r = n" | "q = n \<or> q = p" "r \<in> dom L" "r \<noteq> p" "r \<noteq> n" "lv r = lv p"
      | "r = n \<or> r = p" "q \<in> dom L" "q \<noteq> p" "q \<noteq> n" "lv q = lv p"
      | "q \<in> dom L" "r \<in> dom L" "q \<noteq> r" "lv q = lv r" "q \<notin> {n, p}" "r \<notin> {n, p}"
      by (cases "q = n"; cases "q = p"; cases "r = n"; cases "r = p") auto
    then show "pages_apart ?L ?hi' q r"
    proof cases
      case 1
      then show ?thesis using sep by (simp only: sym [of _ _ n p])
    next
      case 2
      then show ?thesis using sep by (simp only:)
    next
      case 3
      then have "pages_apart ?L ?hi' r q" using keep [OF 3(2,3,5)] by metis
      then show ?thesis by (simp only: sym [of _ _ q r])
    next
      case 4
      then show ?thesis using keep [OF 4(2,3,5)] by metis
    next
      case 5
      then have "pages_apart L ?hi q r" by (intro wf_treeD(6) [OF wf])
      then show ?thesis using 5 by (simp add: pages_apart_def parts(2))
    qed
  qed (use wf_treeD(1,2) [OF wf] n in auto)
qed

end
