(* ===== verification/Btree_Steps.thy ===== *)
theory Btree_Steps
  imports Btree_Inv
begin

text \<open>
  Every page a writer publishes, as a step of its own, and what readers meanwhile see.
\<close>

section \<open>The rows of a page\<close>

lemma find_entry_append: "find_entry i (xs @ ys) = (case find_entry i xs of None \<Rightarrow> find_entry i ys | r \<Rightarrow> r)"
  by (induction xs) (auto simp: find_entry_def)

lemma find_entry_None: "find_entry i es = None \<longleftrightarrow> (\<forall>e \<in> set es. dbid_cmp (fst e) i \<noteq> Equal)"
  by (auto simp: find_entry_def find_None_iff)

lemma row_lower:
  assumes "ip_entries a = xs @ ys" "ip_entries b = xs" "\<And>e. e \<in> set ys \<Longrightarrow> id_le sep (fst e)" "id_less j sep"
  shows "row_at j b = row_at j a"
proof -
  have "id_less j (fst e)" if "e \<in> set ys" for e using ids.less_le_trans assms(3) [OF that] assms(4) by blast
  then have "find_entry j ys = None" by (simp add: find_entry_None) (metis ids.greater_iff ordering.distinct(5))
  then show ?thesis using assms(1,2) by (simp add: row_at_def find_entry_append split: option.splits)
qed

lemma row_upper:
  assumes "ip_entries a = xs @ ys" "ip_entries b = ys" "\<And>e. e \<in> set xs \<Longrightarrow> id_less (fst e) sep" "id_le sep j"
  shows "row_at j b = row_at j a"
proof -
  have "id_less (fst e) j" if "e \<in> set xs" for e using ids.less_le_trans assms(3) [OF that] assms(4) by blast
  then have "find_entry j xs = None" by (simp add: find_entry_None)
  then show ?thesis using assms(1,2) by (simp add: row_at_def find_entry_append)
qed

text \<open>The rows of a leaf in order, in its two halves.\<close>

lemma row_halves:
  assumes ok: "page_ok L lv hi n low pg" "\<not> ip_inner pg" and sp: "split_entries C i pg = Inr (sep, xs, ys)" and len: "2 \<le> length (ip_entries pg)"
  shows "ip_entries b = xs \<Longrightarrow> id_less j sep \<Longrightarrow> row_at j b = row_at j pg"
    "ip_entries b = ys \<Longrightarrow> id_le sep j \<Longrightarrow> row_at j b = row_at j pg"
proof -
  note p = split_entries_parts [OF sp len] and h = halves_ok(4) [OF ok(1) sp len ok(2)]
  show "row_at j b = row_at j pg" if "ip_entries b = xs" "id_less j sep"
    by (rule row_lower [OF p(1) that(1) _ that(2)]) (use h in \<open>auto simp: leaf_ok_def from_low_def\<close>)
  show "row_at j b = row_at j pg" if "ip_entries b = ys" "id_le sep j"
    by (rule row_upper [OF p(1) that(1) _ that(2)]) (use h in \<open>auto simp: leaf_ok_def to_high_def\<close>)
qed

lemma find_split:
  assumes wf: "wf_tree L lv T" and p: "L p = Some low" "bt_pages T p = Some pg" "p \<noteq> bt_root T"
    and n: "n \<notin> dom L" "n \<noteq> 0" "bt_pages T n = Some new" and len: "2 \<le> length (ip_entries pg)"
    and so: "split_off C i n pg = Inr (sep, cur, new)"
  shows "tree_find (write_page p cur T) j = tree_find T j"
proof -
  note wf' = wf_split [OF assms]
  obtain xs ys where parts: "split_entries C i pg = Inr (sep, xs, ys)" "cur = pg\<lparr>ip_next := n, ip_high := Some sep, ip_entries := xs\<rparr>"
      "new = (sibling_page pg)\<lparr>ip_next := ip_next pg, ip_high := ip_high pg, ip_entries := ys\<rparr>" by (rule split_off_parts [OF so])
  have ok: "page_ok L lv (high_of (bt_pages T)) (lv p) low pg" using wf_page [OF wf p(1)] p(2) by auto
  obtain q lq pq where q: "L q = Some lq" "bt_pages T q = Some pq" "lv q = 0" "\<not> ip_inner pq" "from_low lq j" "to_high (ip_high pq) j"
      "tree_find T j = Some (Inr (row_at j pq))" by (rule leaf_of [OF wf])
  have qn: "q \<noteq> n" "n \<noteq> p" using q(1) p(1) n(1) by auto
  show ?thesis
  proof (cases "q = p")
    case False
    then show ?thesis using q qn tree_find_leaf [OF wf', of q lq pq j] by simp
  next
    case True
    then have pq: "pq = pg" "lq = low" using q p by simp_all
    note row = row_halves [OF ok _ parts(1) len]
    show ?thesis
    proof (cases "id_less j sep")
      case True
      then show ?thesis using q qn \<open>q = p\<close> row(1) [of cur j] tree_find_leaf [OF wf', of p low cur j] p
        by (simp add: pq parts(2) to_high_def)
    next
      case False
      then have "id_le sep j" using ids.not_less by blast
      then show ?thesis using q qn \<open>q = p\<close> row(2) [of new j] tree_find_leaf [OF wf', of n "Some sep" new j] n(3)
        by (simp add: pq parts(3) sibling_page_def from_low_def)
    qed
  qed
qed

section \<open>Telling the parent\<close>

lemma successor_in: "successor_or_last i es = Some e \<Longrightarrow> \<exists>xs ys. es = xs @ e # ys"
  by (auto simp: successor_or_last_def Let_def split: if_splits intro: split_list nth_mem)

lemma ends_before:
  assumes wf: "wf_tree L lv T" and s: "L s = Some (Some sep)" and c: "L c = Some (Some k)" "lv s = lv c" and less: "id_less sep k"
  shows "high_le (high_of (bt_pages T) s) k"
proof -
  have "s \<noteq> c"
  proof
    assume "s = c"
    then show False using s c(1) less by (simp add: ids.refl)
  qed
  then have "pages_apart L (high_of (bt_pages T)) s c" using wf_treeD(6) [OF wf] s c by blast
  moreover have "\<not> high_low (high_of (bt_pages T) c) (Some sep)"
  proof -
    obtain pg where "bt_pages T c = Some pg" "link_ok L lv (lv c) (Some k) pg" using wf_page [OF wf c(1)] by (auto simp: page_ok_def)
    then have "low_less (Some k) h" if "high_of (bt_pages T) c = Some h" for h using that by (auto simp: high_of_def link_ok_def)
    then show ?thesis using ids.less_le_trans less ids.not_both [of k sep]
      by (auto simp: high_low_def low_less_def split: option.splits)
  qed
  ultimately show ?thesis using s c by (auto simp: pages_apart_def high_low_def high_le_def split: option.splits)
qed

text \<open>Where an entry of an inner page ends another page begins, unless it is the last of all.\<close>

lemma next_child:
  assumes wf: "wf_tree L lv T" and p: "L p = Some low" "bt_pages T p = Some pg" "ip_inner pg" "ip_entries pg = xs @ (k, Inner c) # ys"
  shows "k = MAX_ID \<or> (\<exists>d. L d = Some (Some k) \<and> lv d = lv c)"
proof -
  have ok: "page_ok L lv (high_of (bt_pages T)) (lv p) low pg" using wf_page [OF wf p(1)] p(2) by auto
  then have r: "routes L lv (high_of (bt_pages T)) (lv p) low (xs @ (k, Inner c) # ys)" and link: "link_ok L lv (lv p) low pg"
    and last: "fst (last (ip_entries pg)) = (case ip_high pg of None \<Rightarrow> MAX_ID | Some h \<Rightarrow> h)"
    using p(3,4) by (auto simp: page_ok_def inner_ok_def)
  have c: "Suc (lv c) = lv p" using r by (auto simp: routes_append)
  show ?thesis
  proof (cases ys)
    case (Cons e zs)
    then show ?thesis using r c by (cases e) (auto simp: routes_append)
  next
    case Nil
    show ?thesis
    proof (cases "ip_high pg")
      case None
      then show ?thesis using last p(4) Nil by simp
    next
      case (Some h)
      then have k: "k = h" using last p(4) Nil by simp
      have nx: "L (ip_next pg) = Some (Some h)" "lv (ip_next pg) = lv p" using link Some by (auto simp: link_ok_def)
      obtain npg where "page_ok L lv (high_of (bt_pages T)) (lv p) (Some h) npg" using wf_page [OF wf nx(1)] nx(2) by auto
      then have "inner_ok L lv (high_of (bt_pages T)) (lv p) (Some h) npg" using c by (auto simp: page_ok_def split: if_splits)
      then obtain d where "L d = Some (Some h)" "Suc (lv d) = lv p" by (cases "ip_entries npg") (auto simp: inner_ok_def)
      then show ?thesis using c k by auto
    qed
  qed
qed

lemma wf_route:
  assumes wf: "wf_tree L lv T" and p: "L p = Some low" "bt_pages T p = Some pg" "ip_inner pg" "ip_entries pg = xs @ (k, Inner c) # ys"
    and c: "bt_pages T c = Some cpg" "ip_high cpg = Some sep" and less: "id_less sep k"
  shows "wf_tree L lv (write_page p (pg\<lparr>ip_entries := xs @ (sep, Inner c) # (k, Inner (ip_next cpg)) # ys\<rparr>) T)"
proof -
  let ?hi = "high_of (bt_pages T)"
  have ok: "page_ok L lv ?hi (lv p) low pg" using wf_page [OF wf p(1)] p(2) by auto
  then have r: "routes L lv ?hi (lv p) low (xs @ (k, Inner c) # ys)" using p(3,4) by (auto simp: page_ok_def inner_ok_def)
  define low' where "low' = (if xs = [] then low else Some (fst (last xs)))"
  have lc: "L c = Some low'" "Suc (lv c) = lv p" using r by (auto simp: routes_append low'_def)
  have "link_ok L lv (lv c) low' cpg" using wf_page [OF wf lc(1)] c(1) by (auto simp: page_ok_def)
  then have nx: "low_less low' sep" "L (ip_next cpg) = Some (Some sep)" "lv (ip_next cpg) = lv c" using c(2) by (auto simp: link_ok_def)
  have "high_le (?hi (ip_next cpg)) k"
  proof (cases "k = MAX_ID")
    case True
    then show ?thesis using below_max by (auto simp: high_le_def split: option.splits)
  next
    case False
    then obtain d where d: "L d = Some (Some k)" "lv d = lv c" using next_child [OF wf p] by blast
    show ?thesis by (rule ends_before [OF wf nx(2) d(1) _ less]) (simp add: nx(3) d(2))
  qed
  then have "routes L lv ?hi (lv p) low (xs @ (sep, Inner c) # (k, Inner (ip_next cpg)) # ys)"
    using r lc nx less c by (auto simp: routes_append low'_def low_less_def high_le_def high_of_def ids.refl)
  then have new: "page_ok L lv ?hi (lv p) low (pg\<lparr>ip_entries := xs @ (sep, Inner c) # (k, Inner (ip_next cpg)) # ys\<rparr>)"
    using ok p(3,4) by (auto simp: page_ok_def inner_ok_def link_ok_def split: option.splits)
  show ?thesis by (rule wf_rewrite [OF wf]) (use new p(1,2) in \<open>auto simp: high_of_def\<close>)
qed

lemma find_inner_rewrite:
  assumes "wf_tree L lv T" "wf_tree L lv (write_page p pg T)" "bt_pages T p = Some old" "ip_inner old"
  shows "tree_find (write_page p pg T) i = tree_find T i"
proof (rule find_rewrite [OF assms(1,2)])
  fix low assume l: "L p = Some low" "lv p = 0"
  then have "inner_ok L lv (high_of (bt_pages T)) 0 low old" using wf_page [OF assms(1) l(1)] assms(3,4) by (auto simp: page_ok_def)
  then have False by (cases "ip_entries old") (auto simp: inner_ok_def)
  then show "ip_high pg = ip_high old \<and> (from_low low i \<longrightarrow> to_high (ip_high old) i \<longrightarrow> row_at i pg = row_at i old)" ..
qed (rule assms(3))

lemma replaced_entry:
  fixes x :: node
  assumes "sorted_wrt (\<lambda>a b. id_less (fst a) (fst b)) (xs @ (k, v) # ys)"
  shows "map (\<lambda>e. if dbid_cmp (fst e) k = Equal then (k, x) else e) (xs @ (k, v) # ys) = xs @ (k, x) # ys"
proof -
  have "id_less (fst e) k" if "e \<in> set xs" for e using assms that by (auto simp: sorted_wrt_append)
  then have "map (\<lambda>e. if dbid_cmp (fst e) k = Equal then (k, x) else e) xs = xs" by (auto intro: map_idI)
  moreover have "id_less k (fst e)" if "e \<in> set ys" for e using assms that by (auto simp: sorted_wrt_append)
  then have "map (\<lambda>e. if dbid_cmp (fst e) k = Equal then (k, x) else e) ys = ys"
    by (intro map_idI) (metis ids.equal_sym ordering.distinct(1))
  ultimately show ?thesis by (simp add: ids.refl)
qed

lemma route_split_spec:
  assumes r: "route_split C i sep c s pg = Inr q" and es: "successor_or_last i (ip_entries pg) = Some (k, v)"
    and srt: "sorted_wrt (\<lambda>a b. id_less (fst a) (fst b)) (ip_entries pg)" and le: "id_le sep k"
    and below: "\<And>xs ys e. ip_entries pg = xs @ (k, v) # ys \<Longrightarrow> e \<in> set xs \<Longrightarrow> id_less (fst e) sep"
  obtains xs ys where "ip_entries pg = xs @ (k, v) # ys" "id_less sep k" "q = pg\<lparr>ip_entries := xs @ (sep, Inner c) # (k, Inner s) # ys\<rparr>"
proof -
  obtain xs ys where xy: "ip_entries pg = xs @ (k, v) # ys" using successor_in [OF es] by blast
  have m: "map (\<lambda>e. if dbid_cmp (fst e) k = Equal then (k, Inner s) else e) (ip_entries pg) = xs @ (k, Inner s) # ys"
    unfolding xy by (rule replaced_entry) (use srt xy in simp)
  have a: "add_tuple C (sep, Inner c) (pg\<lparr>ip_entries := xs @ (k, Inner s) # ys\<rparr>) = Inr q"
    using r by (auto simp: route_split_def es r_bind_eq_Inr replace_tuple_def m split: if_splits option.splits)
  then have "find_entry sep (xs @ (k, Inner s) # ys) = None" by (auto simp: add_tuple_def split: if_splits)
  then have "dbid_cmp k sep \<noteq> Equal" by (simp add: find_entry_None)
  then have less: "id_less sep k" using le ids.equal_sym [of k sep] by (cases "dbid_cmp sep k") auto
  have "put_entry (sep, Inner c) (xs @ (k, Inner s) # ys) = xs @ (sep, Inner c) # (k, Inner s) # ys"
    using below [OF xy] ids.not_both [OF less] by (simp add: put_entry_def)
  then have "q = pg\<lparr>ip_entries := xs @ (sep, Inner c) # (k, Inner s) # ys\<rparr>" using a by (auto simp: add_tuple_def split: if_splits)
  then show thesis using that xy less by blast
qed

lemma wf_route_split:
  assumes wf: "wf_tree L lv T" and p: "L p = Some low" "bt_pages T p = Some pg" "ip_inner pg"
    and es: "successor_or_last i (ip_entries pg) = Some (k, Inner c)" and c: "bt_pages T c = Some cpg" "ip_high cpg = Some sep"
    and r: "route_split C i sep c (ip_next cpg) pg = Inr q"
  shows "wf_tree L lv (write_page p q T)" "tree_find (write_page p q T) j = tree_find T j"
    "\<exists>xs ys. ip_entries pg = xs @ (k, Inner c) # ys \<and> id_less sep k \<and> q = pg\<lparr>ip_entries := xs @ (sep, Inner c) # (k, Inner (ip_next cpg)) # ys\<rparr>"
proof -
  have ok: "page_ok L lv (high_of (bt_pages T)) (lv p) low pg" using wf_page [OF wf p(1)] p(2) by auto
  then have rt: "routes L lv (high_of (bt_pages T)) (lv p) low (ip_entries pg)" using p(3) by (auto simp: page_ok_def inner_ok_def)
  note srt = routes_sorted [OF rt]
  have le: "id_le sep k"
  proof -
    obtain xs ys where "ip_entries pg = xs @ (k, Inner c) # ys" using successor_in [OF es] by blast
    then show ?thesis using rt c by (auto simp: routes_append high_of_def high_le_def)
  qed
  have below: "id_less (fst e) sep" if xy: "ip_entries pg = xs @ (k, Inner c) # ys" and e: "e \<in> set xs" for xs ys e
  proof -
    have "xs \<noteq> []" using e by auto
    then obtain zs kz vz where xs: "xs = zs @ [(kz, vz)]" by (metis rev_exhaust surj_pair)
    then have lc: "L c = Some (Some kz)" using rt xy by (auto simp: routes_append)
    have "link_ok L lv (lv c) (Some kz) cpg" using wf_page [OF wf lc] c(1) by (auto simp: page_ok_def)
    then have "id_less kz sep" using c(2) by (auto simp: link_ok_def low_less_def)
    moreover have "id_le (fst e) kz" using srt e by (auto simp: xy xs sorted_wrt_append ids.refl)
    ultimately show ?thesis using ids.le_less_trans by blast
  qed
  obtain xs ys where xy: "ip_entries pg = xs @ (k, Inner c) # ys" "id_less sep k" "q = pg\<lparr>ip_entries := xs @ (sep, Inner c) # (k, Inner (ip_next cpg)) # ys\<rparr>"
    by (rule route_split_spec [OF r es srt le below])
  then show "\<exists>xs ys. ip_entries pg = xs @ (k, Inner c) # ys \<and> id_less sep k \<and> q = pg\<lparr>ip_entries := xs @ (sep, Inner c) # (k, Inner (ip_next cpg)) # ys\<rparr>" by blast
  show wf': "wf_tree L lv (write_page p q T)" unfolding xy(3) by (rule wf_route [OF wf p xy(1) c xy(2)])
  show "tree_find (write_page p q T) j = tree_find T j" by (rule find_inner_rewrite [OF wf wf' p(2,3)])
qed

section \<open>Splitting the root\<close>

lemma split_halves_parts:
  assumes "split_halves C i n pg = Inr (sep, left, right)"
  obtains xs ys where "split_entries C i pg = Inr (sep, xs, ys)"
    "left = (sibling_page pg)\<lparr>ip_next := n, ip_high := Some sep, ip_entries := xs\<rparr>"
    "right = (sibling_page pg)\<lparr>ip_next := ip_next pg, ip_high := ip_high pg, ip_entries := ys\<rparr>"
proof -
  obtain xs ys where xy: "split_entries C i pg = Inr (sep, xs, ys)"
      "copy_records C xs ((sibling_page pg)\<lparr>ip_next := n, ip_high := Some sep\<rparr>) = Inr left"
      "copy_records C ys ((sibling_page pg)\<lparr>ip_next := ip_next pg, ip_high := ip_high pg\<rparr>) = Inr right"
    using assms by (auto simp: split_halves_def r_bind_eq_Inr)
  from copy_records_spec [OF xy(2)] copy_records_spec [OF xy(3)] that [OF xy(1)] show thesis by (simp add: sibling_page_def)
qed

lemma new_root_spec:
  assumes "new_root C sep l r pg = Inr q"
  shows "id_less sep MAX_ID"
    "q = pg\<lparr>ip_leaf := False, ip_inner := True, ip_entries := [(sep, Inner l), (MAX_ID, Inner r)], ip_record_size := Some (bc_inner_budget C)\<rparr>"
proof -
  define p where "p = pg\<lparr>ip_leaf := False, ip_inner := True, ip_entries := [], ip_record_size := Some (bc_inner_budget C)\<rparr>"
  have add: "x = p'\<lparr>ip_entries := put_entry e (ip_entries p')\<rparr>" if "add_tuple C e p' = Inr x" for e p' x
    using that by (auto simp: add_tuple_def split: if_splits)
  obtain x where x: "add_tuple C (sep, Inner l) p = Inr x" "add_tuple C (MAX_ID, Inner r) x = Inr q"
    using assms by (auto simp: new_root_def r_bind_eq_Inr p_def)
  have "x = p\<lparr>ip_entries := [(sep, Inner l)]\<rparr>" using add [OF x(1)] by (simp add: p_def put_entry_def)
  then have a: "add_tuple C (MAX_ID, Inner r) (p\<lparr>ip_entries := [(sep, Inner l)]\<rparr>) = Inr q" using x(2) by simp
  then have "dbid_cmp sep MAX_ID \<noteq> Equal" by (auto simp: add_tuple_def find_entry_def split: if_splits)
  then show less: "id_less sep MAX_ID" using below_max [of sep] by (cases "dbid_cmp sep MAX_ID") auto
  show "q = pg\<lparr>ip_leaf := False, ip_inner := True, ip_entries := [(sep, Inner l), (MAX_ID, Inner r)], ip_record_size := Some (bc_inner_budget C)\<rparr>"
    using add [OF a] less by (simp add: p_def put_entry_def)
qed

text \<open>The root is alone on its level.\<close>

lemma root_alone:
  assumes wf: "wf_tree L lv T" and p: "L p = Some low" "p \<noteq> bt_root T"
  shows "lv p < lv (bt_root T)"
proof (rule ccontr)
  assume "\<not> lv p < lv (bt_root T)"
  then have "lv p = lv (bt_root T)" using wf_treeD(5) [OF wf, of p] p(1) by auto
  then have "pages_apart L (high_of (bt_pages T)) p (bt_root T)" using wf_treeD(3,6) [OF wf] p by blast
  then show False using wf_treeD(3,4) [OF wf] by (auto simp: pages_apart_def high_low_def split: option.splits)
qed

lemma wf_root_split:
  assumes wf: "wf_tree L lv T" and r: "bt_root T = r" "bt_pages T r = Some pg"
    and n: "a \<notin> dom L" "b \<notin> dom L" "a \<noteq> 0" "b \<noteq> 0" "a \<noteq> b" "bt_pages T a = Some left" "bt_pages T b = Some right"
    and len: "2 \<le> length (ip_entries pg)" and sp: "split_halves C i b pg = Inr (sep, left, right)" and nr: "new_root C sep a b pg = Inr q"
  shows "wf_tree (L(a \<mapsto> None, b \<mapsto> Some sep)) (lv(a := lv r, b := lv r, r := Suc (lv r))) (write_page r q T)"
proof -
  let ?L = "L(a \<mapsto> None, b \<mapsto> Some sep)" and ?lv = "lv(a := lv r, b := lv r, r := Suc (lv r))"
    and ?hi = "high_of (bt_pages T)" and ?hi' = "high_of (bt_pages (write_page r q T))"
  obtain xs ys where parts: "split_entries C i pg = Inr (sep, xs, ys)"
    "left = (sibling_page pg)\<lparr>ip_next := b, ip_high := Some sep, ip_entries := xs\<rparr>"
    "right = (sibling_page pg)\<lparr>ip_next := ip_next pg, ip_high := ip_high pg, ip_entries := ys\<rparr>" by (rule split_halves_parts [OF sp])
  have Lr: "L r = Some None" using wf_treeD(3) [OF wf] r(1) by simp
  have ok: "page_ok L lv ?hi (lv r) None pg" using wf_page [OF wf Lr] r(2) by auto
  have hr: "ip_high pg = None" using wf_treeD(4) [OF wf] r by (simp add: high_of_def)
  have q: "q = pg\<lparr>ip_leaf := False, ip_inner := True, ip_entries := [(sep, Inner a), (MAX_ID, Inner b)], ip_record_size := Some (bc_inner_budget C)\<rparr>"
    and less: "id_less sep MAX_ID" using new_root_spec [OF nr] by simp_all
  have nn: "a \<noteq> r" "b \<noteq> r" using n(1,2) Lr by auto
  have le: "L \<subseteq>\<^sub>m ?L" using n(1,2) by (auto simp: map_le_def)
  have hi: "?hi' = ?hi" using hr r(2) by (auto simp: q high_of_def)
  have low: "lv p < lv r" if "L p = Some l" "p \<noteq> r" for p l using root_alone [OF wf that(1)] that(2) r(1) by simp
  have same: "?lv c = lv c" if "c \<in> dom L" "c \<noteq> r" for c using that n(1,2) by auto
  have rts: "routes ?L ?lv ?hi' (lv r) l es" if "routes L lv ?hi (lv r) l es" for l es
    unfolding hi by (rule routes_mono [OF that le]) (use same in auto)
  have link: "link_ok ?L ?lv (lv r) None left" "link_ok ?L ?lv (lv r) (Some sep) right"
    using ok hr nn n(5) by (auto simp: parts(2,3) link_ok_def sibling_page_def low_less_def page_ok_def)
  have left: "page_ok ?L ?lv ?hi' (lv r) None left"
    by (rule half_ok(1) [OF ok parts(1) len]) (rule rts, assumption, use link in \<open>simp_all add: parts(2) sibling_page_def\<close>)
  have right: "page_ok ?L ?lv ?hi' (lv r) (Some sep) right"
    by (rule half_ok(2) [OF ok parts(1) len]) (rule rts, assumption, use link in \<open>simp_all add: parts(3) sibling_page_def\<close>)
  have high: "?hi a = Some sep" "?hi b = None" using n(6,7) by (simp_all add: high_of_def parts(2,3) hr)
  have root: "page_ok ?L ?lv ?hi' (Suc (lv r)) None q" unfolding hi
    using ok hr n(5) nn less high by (auto simp: q page_ok_def link_ok_def inner_ok_def low_less_def high_le_def ids.refl)
  show ?thesis
  proof (rule wf_treeI)
    show "?L (bt_root (write_page r q T)) = Some None" "?hi' (bt_root (write_page r q T)) = None" using Lr nn hr r by (simp_all add: q)
    show "?lv p \<le> ?lv (bt_root (write_page r q T))" if "p \<in> dom ?L" for p
      using that wf_treeD(5) [OF wf, of p] nn r(1) by (auto split: if_splits intro: le_SucI)
    fix p l assume p: "?L p = Some l"
    show "\<exists>x. bt_pages (write_page r q T) p = Some x \<and> page_ok ?L ?lv ?hi' (?lv p) l x"
    proof (cases "p \<in> {a, b, r}")
      case True
      then show ?thesis using p left right root n(5-7) nn Lr by (auto split: if_splits)
    next
      case False
      then have "L p = Some l" using p by simp
      then obtain x where x: "bt_pages T p = Some x" "page_ok L lv ?hi (lv p) l x" by (rule wf_page [OF wf])
      have "page_ok ?L ?lv ?hi' (lv p) l x" unfolding hi
      proof (rule page_ok_mono [OF x(2) le])
        fix c assume "c \<in> dom L" "lv c \<le> lv p"
        moreover have "lv p < lv r" using low [of p] \<open>L p = Some l\<close> False by auto
        ultimately show "?lv c = lv c" using same by (cases "c = r") auto
      qed
      then show ?thesis using False x(1) by simp
    qed
  next
    fix p s assume ps: "p \<in> dom ?L" "s \<in> dom ?L" "p \<noteq> s" "?lv p = ?lv s"
    have root_level: "?lv p = Suc (lv r) \<longleftrightarrow> p = r" "?lv p = lv r \<longleftrightarrow> p \<in> {a, b}" if "p \<in> dom ?L" for p
      using that nn by (auto split: if_splits dest: low)
    have "pages_apart ?L ?hi a b" using n(5) high by (simp add: pages_apart_def high_low_def ids.refl)
    then have ab: "pages_apart ?L ?hi b a" "pages_apart ?L ?hi a b" by (auto simp: pages_apart_def)
    show "pages_apart ?L ?hi' p s"
    proof (cases "p \<in> {a, b}")
      case True
      then have "s \<in> {a, b}" using root_level(2) ps by metis
      then show ?thesis unfolding hi using ab True ps(3) by blast
    next
      case False
      then have s: "s \<notin> {a, b}" "p \<noteq> r" "s \<noteq> r" using root_level ps by metis+
      then have "pages_apart L ?hi p s" using False ps nn by (intro wf_treeD(6) [OF wf]) auto
      then show ?thesis unfolding hi using False s by (simp add: pages_apart_def)
    qed
  qed (use wf_treeD(1,2) [OF wf] n in auto)
qed

lemma find_root_split:
  assumes wf: "wf_tree L lv T" and r: "bt_root T = r" "bt_pages T r = Some pg"
    and n: "a \<notin> dom L" "b \<notin> dom L" "a \<noteq> 0" "b \<noteq> 0" "a \<noteq> b" "bt_pages T a = Some left" "bt_pages T b = Some right"
    and len: "2 \<le> length (ip_entries pg)" and sp: "split_halves C i b pg = Inr (sep, left, right)" and nr: "new_root C sep a b pg = Inr q"
  shows "tree_find (write_page r q T) j = tree_find T j"
proof -
  note wf' = wf_root_split [OF assms]
  obtain xs ys where parts: "split_entries C i pg = Inr (sep, xs, ys)"
    "left = (sibling_page pg)\<lparr>ip_next := b, ip_high := Some sep, ip_entries := xs\<rparr>"
    "right = (sibling_page pg)\<lparr>ip_next := ip_next pg, ip_high := ip_high pg, ip_entries := ys\<rparr>" by (rule split_halves_parts [OF sp])
  have Lr: "L r = Some None" using wf_treeD(3) [OF wf] r(1) by simp
  have ok: "page_ok L lv (high_of (bt_pages T)) (lv r) None pg" using wf_page [OF wf Lr] r(2) by auto
  obtain p lp pp where p: "L p = Some lp" "bt_pages T p = Some pp" "lv p = 0" "\<not> ip_inner pp" "from_low lp j" "to_high (ip_high pp) j"
      "tree_find T j = Some (Inr (row_at j pp))" by (rule leaf_of [OF wf])
  have nn: "p \<noteq> a" "p \<noteq> b" "r \<noteq> a" "r \<noteq> b" using p(1) Lr n(1,2) by auto
  show ?thesis
  proof (cases "p = r")
    case False
    then show ?thesis using p nn tree_find_leaf [OF wf', of p lp pp j] by simp
  next
    case True
    then have pp: "pp = pg" "lp = None" using p r(2) Lr by simp_all
    note row = row_halves [OF ok _ parts(1) len]
    show ?thesis
    proof (cases "id_less j sep")
      case True
      then show ?thesis using p nn n(5,6) \<open>p = r\<close> row(1) [of left j] tree_find_leaf [OF wf', of a None left j]
        by (simp add: pp parts(2) sibling_page_def to_high_def from_low_def)
    next
      case False
      then have "id_le sep j" using ids.not_less by blast
      then show ?thesis using p nn n(7) \<open>p = r\<close> row(2) [of right j] tree_find_leaf [OF wf', of b "Some sep" right j]
        by (simp add: pp parts(3) sibling_page_def from_low_def)
    qed
  qed
qed

section \<open>Writing a row\<close>

lemma dropWhile_not_less:
  "sorted_wrt (\<lambda>a b. id_less (fst a) (fst b)) es \<Longrightarrow> x \<in> set (dropWhile (\<lambda>x. id_less (fst x) k) es) \<Longrightarrow> \<not> id_less (fst x) k"
  by (induction es) (auto split: if_splits intro: ids.less_trans)

lemma sorted_wrt_between:
  assumes "sorted_wrt R xs" "sorted_wrt R ys" "\<And>x. x \<in> set xs \<Longrightarrow> R x e" "\<And>y. y \<in> set ys \<Longrightarrow> R e y"
    and "\<And>a b c. R a b \<Longrightarrow> R b c \<Longrightarrow> R a c"
  shows "sorted_wrt R (xs @ e # ys)"
  using assms unfolding sorted_wrt_append sorted_wrt.simps by (metis set_ConsD)

lemma put_entry_sorted:
  assumes "sorted_wrt (\<lambda>a b. id_less (fst a) (fst b)) es" "find_entry (fst e) es = None"
  shows "sorted_wrt (\<lambda>a b. id_less (fst a) (fst b)) (put_entry e es)"
proof -
  let ?low = "takeWhile (\<lambda>x. id_less (fst x) (fst e)) es" and ?high = "dropWhile (\<lambda>x. id_less (fst x) (fst e)) es"
  have "sorted_wrt (\<lambda>a b. id_less (fst a) (fst b)) (?low @ ?high)" using assms(1) by simp
  then have srt: "sorted_wrt (\<lambda>a b. id_less (fst a) (fst b)) ?low" "sorted_wrt (\<lambda>a b. id_less (fst a) (fst b)) ?high"
    unfolding sorted_wrt_append by simp_all
  have low: "id_less (fst x) (fst e)" if "x \<in> set ?low" for x using that by (auto dest: set_takeWhileD)
  have high: "id_less (fst e) (fst x)" if "x \<in> set ?high" for x
  proof -
    have "\<not> id_less (fst x) (fst e)" "x \<in> set es" using dropWhile_not_less [OF assms(1) that] that by (auto dest: set_dropWhileD)
    then have "dbid_cmp (fst x) (fst e) = Greater" using assms(2) by (cases "dbid_cmp (fst x) (fst e)") (auto simp: find_entry_None)
    then show ?thesis by (simp add: ids.greater_iff)
  qed
  show ?thesis unfolding put_entry_def
    by (rule sorted_wrt_between [OF srt]) (rule low, assumption, rule high, assumption, rule ids.less_trans)
qed

lemma set_put_entry: "set (put_entry e es) = insert e (set es)"
proof -
  have "set es = set (takeWhile (\<lambda>x. id_less (fst x) (fst e)) es @ dropWhile (\<lambda>x. id_less (fst x) (fst e)) es)" by simp
  then show ?thesis unfolding put_entry_def set_append by simp
qed

lemma find_put_entry:
  assumes "find_entry (fst e) es = None"
  shows "find_entry j (put_entry e es) = (if dbid_cmp (fst e) j = Equal then Some (snd e) else find_entry j es)"
proof -
  define xs ys where "xs = takeWhile (\<lambda>x. id_less (fst x) (fst e)) es" and "ys = dropWhile (\<lambda>x. id_less (fst x) (fst e)) es"
  have es: "es = xs @ ys" "put_entry e es = xs @ e # ys" by (simp_all add: xs_def ys_def put_entry_def)
  show ?thesis
  proof (cases "dbid_cmp (fst e) j = Equal")
    case True
    then have "find_entry j xs = None" using assms ids.equal_right [OF True] unfolding es(1) by (simp add: find_entry_None)
    moreover have "find_entry j (e # ys) = Some (snd e)" using True by (simp add: find_entry_def)
    ultimately show ?thesis unfolding es(2) using True by (simp add: find_entry_append)
  next
    case False
    then have "find_entry j (e # ys) = find_entry j ys" by (simp add: find_entry_def)
    then show ?thesis unfolding es(2) unfolding es(1) using False by (cases "find_entry j xs") (simp_all add: find_entry_append)
  qed
qed

lemma find_replaced:
  "find_entry j (map (\<lambda>e. if dbid_cmp (fst e) i = Equal then (i, v) else e) es)
     = (if dbid_cmp i j = Equal then map_option (\<lambda>_. v) (find_entry i es) else find_entry j es)"
proof (induction es)
  case (Cons e es)
  have "dbid_cmp (fst e) j = dbid_cmp i j" if "dbid_cmp (fst e) i = Equal" using ids.equal_left [OF that] .
  moreover have "dbid_cmp (fst e) j = dbid_cmp (fst e) i" if "dbid_cmp i j = Equal" using ids.equal_right [OF that] by simp
  ultimately show ?case using Cons by (cases e) (auto simp: find_entry_def ids.refl)
qed (simp add: find_entry_def)

lemma find_filtered:
  "find_entry j (filter (\<lambda>e. dbid_cmp (fst e) i \<noteq> Equal) es) = (if dbid_cmp i j = Equal then None else find_entry j es)"
proof (induction es)
  case (Cons e es)
  have "dbid_cmp (fst e) j = dbid_cmp i j" if "dbid_cmp (fst e) i = Equal" using ids.equal_left [OF that] .
  moreover have "dbid_cmp (fst e) j = dbid_cmp (fst e) i" if "dbid_cmp i j = Equal" using ids.equal_right [OF that] by simp
  ultimately show ?case using Cons by (cases e) (auto simp: find_entry_def ids.refl)
qed (simp add: find_entry_def)

text \<open>What a decision makes of the row it was made for, and what it returns.\<close>

definition row_after :: "decision \<Rightarrow> tuple option \<Rightarrow> tuple option" where
  "row_after d current = (case d of Insert new \<Rightarrow> Some new | Replace new \<Rightarrow> Some new | Delete \<Rightarrow> None | Skip \<Rightarrow> current)"

definition result_of :: "decision \<Rightarrow> tuple option \<Rightarrow> write_result" where
  "result_of d current =
     (case d of Insert new \<Rightarrow> WInserted | Replace new \<Rightarrow> WReplaced (the current) | Delete \<Rightarrow> WDeleted current | Skip \<Rightarrow> WSkipped)"

definition decision_for :: "dbid \<Rightarrow> decision \<Rightarrow> bool" where
  "decision_for i d = (case d of Insert new \<Rightarrow> t_id new = i | _ \<Rightarrow> True)"

lemma leaf_row:
  assumes "leaf_ok low pg" "find_entry i (ip_entries pg) = Some v"
  shows "\<exists>t. v = Leaf t \<and> row_at i pg = Some t"
proof -
  obtain e where "find (\<lambda>e. dbid_cmp (fst e) i = Equal) (ip_entries pg) = Some e" "snd e = v" using assms(2) by (auto simp: find_entry_def)
  then have "e \<in> set (ip_entries pg)" by (auto simp: find_Some_iff)
  then obtain t where "v = Leaf t" using assms(1) \<open>snd e = v\<close> by (auto simp: leaf_ok_def)
  then show ?thesis using assms(2) by (simp add: row_at_def)
qed

lemma leaf_rows: "leaf_ok low pg \<Longrightarrow> row_at i pg = None \<longleftrightarrow> find_entry i (ip_entries pg) = None"
  using leaf_row [of low pg i] by (cases "find_entry i (ip_entries pg)") (auto simp: row_at_def)

lemma leaf_put:
  assumes "leaf_ok low pg" "from_low low (fst e)" "to_high (ip_high pg) (fst e)" "snd e = Leaf t" "find_entry (fst e) (ip_entries pg) = None"
  shows "leaf_ok low (pg\<lparr>ip_entries := put_entry e (ip_entries pg)\<rparr>)"
  using assms put_entry_sorted [OF _ assms(5)] by (simp add: leaf_ok_def set_put_entry)

lemma leaf_map:
  assumes "leaf_ok low pg" "from_low low i" "to_high (ip_high pg) i"
  shows "leaf_ok low (pg\<lparr>ip_entries := map (\<lambda>e. if dbid_cmp (fst e) i = Equal then (i, Leaf t) else e) (ip_entries pg)\<rparr>)"
proof -
  let ?f = "\<lambda>e. if dbid_cmp (fst e) i = Equal then (i, Leaf t) else e"
  have key: "dbid_cmp (fst (?f a)) (fst (?f b)) = dbid_cmp (fst a) (fst b)" for a b :: entry
    using ids.equal_left [of "fst a" i] ids.equal_right [of "fst b" i] by auto
  have "sorted_wrt (\<lambda>a b. id_less (fst a) (fst b)) (map ?f (ip_entries pg))"
    unfolding sorted_wrt_map key using assms(1) by (simp add: leaf_ok_def)
  then show ?thesis using assms by (auto simp: leaf_ok_def)
qed

lemma leaf_filter: "leaf_ok low pg \<Longrightarrow> leaf_ok low (pg\<lparr>ip_entries := filter P (ip_entries pg)\<rparr>)"
  by (simp add: leaf_ok_def sorted_wrt_filter)

lemma apply_in_leaf_spec:
  assumes ok: "leaf_ok low pg" "from_low low i" "to_high (ip_high pg) i" and d: "decision_for i d"
    and app: "apply_in_leaf C i (row_at i pg \<noteq> None) d pg = Inr (w, q)"
  shows "\<exists>es. q = pg\<lparr>ip_entries := es\<rparr> \<and> leaf_ok low q" "w = result_of d (row_at i pg)"
    "row_at j q = (if dbid_cmp i j = Equal then row_after d (row_at i pg) else row_at j pg)"
proof -
  have "(\<exists>es. q = pg\<lparr>ip_entries := es\<rparr> \<and> leaf_ok low q) \<and> w = result_of d (row_at i pg)
      \<and> row_at j q = (if dbid_cmp i j = Equal then row_after d (row_at i pg) else row_at j pg)"
  proof (cases d)
    case (Insert new)
    then have absent: "row_at i pg = None" and a: "add_tuple C (i, Leaf new) pg = Inr q" and w: "w = WInserted"
      using app d by (auto simp: apply_in_leaf_def decision_for_def r_bind_eq_Inr split: if_splits)
    then have none: "find_entry i (ip_entries pg) = None" using leaf_rows [OF ok(1)] by blast
    then have q: "q = pg\<lparr>ip_entries := put_entry (i, Leaf new) (ip_entries pg)\<rparr>" using a by (auto simp: add_tuple_def split: if_splits)
    have "leaf_ok low q" unfolding q by (rule leaf_put) (use ok none in auto)
    moreover have "row_at j q = (if dbid_cmp i j = Equal then Some new else row_at j pg)"
      using find_put_entry [of "(i, Leaf new)" "ip_entries pg" j] none by (simp add: q row_at_def)
    ultimately show ?thesis using q w by (auto simp: result_of_def row_after_def Insert)
  next
    case (Replace new)
    then obtain old v where row: "row_at i pg = Some old" and a: "replace_tuple C i (Leaf new) pg = Inr (v, q)" and v: "v = Leaf old" "w = WReplaced old"
      using app leaf_row [OF ok(1), of i] by (auto simp: apply_in_leaf_def r_bind_eq_Inr replace_tuple_def split: if_splits option.splits node.splits)
    then have q: "q = pg\<lparr>ip_entries := map (\<lambda>e. if dbid_cmp (fst e) i = Equal then (i, Leaf new) else e) (ip_entries pg)\<rparr>"
      and f: "find_entry i (ip_entries pg) = Some (Leaf old)"
      by (auto simp: replace_tuple_def split: if_splits option.splits)
    have "leaf_ok low q" unfolding q by (rule leaf_map [OF ok])
    moreover have "row_at j q = (if dbid_cmp i j = Equal then Some new else row_at j pg)"
      using find_replaced [of j i "Leaf new" "ip_entries pg"] f by (simp add: q row_at_def)
    ultimately show ?thesis using q v row by (auto simp: result_of_def row_after_def Replace)
  next
    case Delete
    show ?thesis
    proof (cases "row_at i pg")
      case None
      then have same: "q = pg" "w = WDeleted None" using app by (simp_all add: apply_in_leaf_def Delete)
      have "row_at j pg = None" if "dbid_cmp i j = Equal"
        using None ids.equal_right [OF that] by (simp add: row_at_def find_entry_def)
      then show ?thesis using same ok(1) None by (auto simp: result_of_def row_after_def Delete intro!: exI [of _ "ip_entries pg"])
    next
      case (Some old)
      then obtain v where a: "remove_tuple i pg = Inr (v, q)" and v: "v = Leaf old" "w = WDeleted (Some old)"
        using app leaf_row [OF ok(1), of i] by (auto simp: apply_in_leaf_def r_bind_eq_Inr remove_tuple_def Delete split: option.splits node.splits)
      then have q: "q = pg\<lparr>ip_entries := filter (\<lambda>e. dbid_cmp (fst e) i \<noteq> Equal) (ip_entries pg)\<rparr>"
        by (auto simp: remove_tuple_def split: option.splits)
      have "row_at j q = (if dbid_cmp i j = Equal then None else row_at j pg)"
        using find_filtered [of j i "ip_entries pg"] by (simp add: q row_at_def)
      then show ?thesis using v q Some leaf_filter [OF ok(1)] by (auto simp: result_of_def row_after_def Delete)
    qed
  next
    case Skip
    have "row_at j pg = row_at i pg" if "dbid_cmp i j = Equal" using ids.equal_right [OF that] by (simp add: row_at_def find_entry_def)
    then show ?thesis using app ok(1) by (auto simp: apply_in_leaf_def result_of_def row_after_def Skip intro!: exI [of _ "ip_entries pg"])
  qed
  then show "\<exists>es. q = pg\<lparr>ip_entries := es\<rparr> \<and> leaf_ok low q" "w = result_of d (row_at i pg)"
    "row_at j q = (if dbid_cmp i j = Equal then row_after d (row_at i pg) else row_at j pg)" by blast+
qed

lemma wf_leaf_write:
  assumes wf: "wf_tree L lv T" and p: "L p = Some low" "bt_pages T p = Some pg" "lv p = 0" and i: "from_low low i" "to_high (ip_high pg) i"
    and d: "decision_for i d" and app: "apply_in_leaf C i (row_at i pg \<noteq> None) d pg = Inr (w, q)"
  shows "wf_tree L lv (write_page p q T)" "tree_find T i = Some (Inr (row_at i pg))" "w = result_of d (row_at i pg)"
    "tree_find (write_page p q T) j = (if dbid_cmp i j = Equal then Some (Inr (row_after d (row_at i pg))) else tree_find T j)"
proof -
  have ok: "page_ok L lv (high_of (bt_pages T)) 0 low pg" using wf_page [OF wf p(1)] p(2,3) by auto
  have leaf: "\<not> ip_inner pg"
  proof
    assume "ip_inner pg"
    then show False using ok by (cases "ip_entries pg") (auto simp: page_ok_def inner_ok_def)
  qed
  then have lok: "leaf_ok low pg" using ok by (simp add: page_ok_def)
  note s = apply_in_leaf_spec [OF lok i d app]
  obtain es where q: "q = pg\<lparr>ip_entries := es\<rparr>" "leaf_ok low q" using s(1) by blast
  have new: "page_ok L lv (high_of (bt_pages T)) 0 low q" using ok leaf q by (auto simp: page_ok_def link_ok_def split: option.splits)
  show wf': "wf_tree L lv (write_page p q T)" by (rule wf_rewrite [OF wf]) (use new p q in \<open>auto simp: high_of_def\<close>)
  show "tree_find T i = Some (Inr (row_at i pg))" by (rule tree_find_leaf [OF wf p i])
  show "w = result_of d (row_at i pg)" by (rule s(2))
  show "tree_find (write_page p q T) j = (if dbid_cmp i j = Equal then Some (Inr (row_after d (row_at i pg))) else tree_find T j)"
  proof (cases "dbid_cmp i j = Equal")
    case True
    have "from_low low j" "to_high (ip_high q) j"
      using i ids.equal_right [OF True] ids.equal_left [OF True] by (auto simp: q from_low_def to_high_def split: option.splits)
    from tree_find_leaf [OF wf' p(1) _ p(3) this] show ?thesis using True s(3) [of j] by simp
  next
    case False
    have "tree_find (write_page p q T) j = tree_find T j"
      by (rule find_rewrite [OF wf wf', of pg]) (use p s(3) [of j] False q in auto)
    then show ?thesis using False by simp
  qed
qed

end
