(* ===== verification/Btree_Run.thy ===== *)
theory Btree_Run
  imports Btree_Steps
begin

text \<open>
  Readers and writers of one tree at once. A reader takes no locks: it reads one page, decides where
  to go, and reads the next. A writer holds the locks of the pages it writes and publishes each as a
  whole. A step is one page read or one page published; the pages a split still prepares are known
  only to the writer that allocated them.
\<close>

section \<open>Steps\<close>

record tree_state =
  ts_tree :: btree
  ts_fresh :: "nat set"
  ts_walks :: "nat \<rightharpoonup> dbid \<times> nat"

datatype event = Silent | Found dbid "tuple option" | Wrote dbid decision write_result

text \<open>
  \<open>begin_walk\<close>, \<open>move_on\<close> and \<open>arrive\<close> are the loop of \<^verbatim>\<open>route_to_leaf_id\<close> and what \<^verbatim>\<open>find\<close> makes of its leaf;
  a walk may be abandoned (\<open>give_up\<close>).
  \<open>allocate\<close> and \<open>prepare\<close> fill a new page. \<open>split_page\<close> publishes the page a split shortens, its
  sibling being ready, \<open>tell_parent\<close> the parent's new entries, \<open>split_root\<close> the root over its two halves.
  \<open>write_row\<close> is a leaf that is locked and whose bounds have the id, with a decision applied. That is
  what \<^verbatim>\<open>leaf_for_write\<close> checks of a leaf it was routed to; \<^verbatim>\<open>descend_for_write\<close> does not look at the bounds of the
  leaf it ends in, which has the id when its parents were told of every split (\<open>Btree_Write\<close> proves it of
  the trees it writes, and \<open>Btree_Table\<close> shows one that lost a row).
  When and for which id a page splits is left open, but for a page with fewer than two entries.
\<close>

inductive tree_step :: "btree_cfg \<Rightarrow> tree_state \<Rightarrow> event \<Rightarrow> tree_state \<Rightarrow> bool" for C :: btree_cfg where
  begin_walk: "ts_walks S w = None \<Longrightarrow> tree_step C S Silent (S\<lparr>ts_walks := (ts_walks S)(w \<mapsto> (i, bt_root (ts_tree S)))\<rparr>)"
| move_on: "ts_walks S w = Some (i, p) \<Longrightarrow> get_page (ts_tree S) p = Inr pg \<Longrightarrow> route_step i pg = Go q
    \<Longrightarrow> tree_step C S Silent (S\<lparr>ts_walks := (ts_walks S)(w \<mapsto> (i, q))\<rparr>)"
| arrive: "ts_walks S w = Some (i, p) \<Longrightarrow> get_page (ts_tree S) p = Inr pg \<Longrightarrow> route_step i pg = Arrived
    \<Longrightarrow> tree_step C S (Found i (row_at i pg)) (S\<lparr>ts_walks := (ts_walks S)(w := None)\<rparr>)"
| give_up: "tree_step C S Silent (S\<lparr>ts_walks := (ts_walks S)(w := None)\<rparr>)"
| allocate: "bt_pages (ts_tree S) n = None \<Longrightarrow> n \<noteq> 0
    \<Longrightarrow> tree_step C S Silent (S\<lparr>ts_tree := write_page n pg (ts_tree S), ts_fresh := insert n (ts_fresh S)\<rparr>)"
| prepare: "n \<in> ts_fresh S \<Longrightarrow> tree_step C S Silent (S\<lparr>ts_tree := write_page n pg (ts_tree S)\<rparr>)"
| split_page: "p \<notin> ts_fresh S \<Longrightarrow> p \<noteq> bt_root (ts_tree S) \<Longrightarrow> bt_pages (ts_tree S) p = Some pg \<Longrightarrow> 2 \<le> length (ip_entries pg)
    \<Longrightarrow> n \<in> ts_fresh S \<Longrightarrow> split_off C i n pg = Inr (sep, current, new) \<Longrightarrow> bt_pages (ts_tree S) n = Some new
    \<Longrightarrow> tree_step C S Silent (S\<lparr>ts_tree := write_page p current (ts_tree S), ts_fresh := ts_fresh S - {n}\<rparr>)"
| tell_parent: "p \<notin> ts_fresh S \<Longrightarrow> bt_pages (ts_tree S) p = Some pg \<Longrightarrow> ip_inner pg
    \<Longrightarrow> successor_or_last i (ip_entries pg) = Some (k, Inner c) \<Longrightarrow> bt_pages (ts_tree S) c = Some cpg \<Longrightarrow> ip_high cpg = Some sep
    \<Longrightarrow> route_split C i sep c (ip_next cpg) pg = Inr pg'
    \<Longrightarrow> tree_step C S Silent (S\<lparr>ts_tree := write_page p pg' (ts_tree S)\<rparr>)"
| split_root: "bt_pages (ts_tree S) (bt_root (ts_tree S)) = Some pg \<Longrightarrow> 2 \<le> length (ip_entries pg)
    \<Longrightarrow> a \<in> ts_fresh S \<Longrightarrow> b \<in> ts_fresh S \<Longrightarrow> a \<noteq> b \<Longrightarrow> split_halves C i b pg = Inr (sep, left, right)
    \<Longrightarrow> bt_pages (ts_tree S) a = Some left \<Longrightarrow> bt_pages (ts_tree S) b = Some right \<Longrightarrow> new_root C sep a b pg = Inr root
    \<Longrightarrow> tree_step C S Silent (S\<lparr>ts_tree := write_page (bt_root (ts_tree S)) root (ts_tree S), ts_fresh := ts_fresh S - {a, b}\<rparr>)"
| write_row: "ts_walks S w = Some (i, p) \<Longrightarrow> get_page (ts_tree S) p = Inr pg \<Longrightarrow> route_step i pg = Arrived \<Longrightarrow> decision_for i d
    \<Longrightarrow> apply_in_leaf C i (row_at i pg \<noteq> None) d pg = Inr (r, pg')
    \<Longrightarrow> tree_step C S (Wrote i d r) (S\<lparr>ts_tree := write_page p pg' (ts_tree S), ts_walks := (ts_walks S)(w := None)\<rparr>)"

inductive tree_run :: "btree_cfg \<Rightarrow> tree_state \<Rightarrow> event list \<Rightarrow> tree_state \<Rightarrow> bool" for C :: btree_cfg where
  no_steps: "tree_run C S [] S"
| one_more: "tree_run C S es S' \<Longrightarrow> tree_step C S' e S'' \<Longrightarrow> tree_run C S (es @ [e]) S''"

definition start_state :: "btree_cfg \<Rightarrow> nat \<Rightarrow> tree_state" where
  "start_state C root = \<lparr>ts_tree = new_tree C root, ts_fresh = {}, ts_walks = Map.empty\<rparr>"

section \<open>The table a tree stands for\<close>

type_synonym rows = "dbid \<Rightarrow> tuple option"

definition contents :: "btree \<Rightarrow> rows" where
  "contents T i = (case tree_find T i of Some (Inr r) \<Rightarrow> r | _ \<Rightarrow> None)"

text \<open>One event at a time on a table; \<open>None\<close> is an event the table cannot have.\<close>

fun table_event :: "event \<Rightarrow> rows \<Rightarrow> rows option" where
  "table_event Silent m = Some m"
| "table_event (Found i r) m = (if r = m i then Some m else None)"
| "table_event (Wrote i d r) m =
     (if r = result_of d (m i)
         \<and> (case d of Insert _ \<Rightarrow> m i = None | Replace _ \<Rightarrow> m i \<noteq> None | _ \<Rightarrow> True)
      then Some (\<lambda>j. if dbid_cmp i j = Equal then row_after d (m i) else m j)
      else None)"

fun table_events :: "event list \<Rightarrow> rows \<Rightarrow> rows option" where
  "table_events [] m = Some m"
| "table_events (e # es) m = Option.bind (table_event e m) (table_events es)"

lemma table_events_append: "table_events (es @ [e]) m = Option.bind (table_events es m) (table_event e)"
  by (induction es arbitrary: m) (simp_all split: bind_split)

section \<open>What every step keeps\<close>

definition state_ok :: "(nat \<rightharpoonup> dbid option) \<Rightarrow> (nat \<Rightarrow> nat) \<Rightarrow> tree_state \<Rightarrow> bool" where
  "state_ok L lv S =
     (wf_tree L lv (ts_tree S) \<and> dom (bt_pages (ts_tree S)) = dom L \<union> ts_fresh S \<and> dom L \<inter> ts_fresh S = {} \<and> 0 \<notin> ts_fresh S
      \<and> (\<forall>w i p. ts_walks S w = Some (i, p) \<longrightarrow> (\<exists>low. L p = Some low \<and> from_low low i)))"

lemma state_okI:
  assumes "wf_tree L lv (ts_tree S)" "dom (bt_pages (ts_tree S)) = dom L \<union> ts_fresh S" "dom L \<inter> ts_fresh S = {}" "0 \<notin> ts_fresh S"
    "\<And>w i p. ts_walks S w = Some (i, p) \<Longrightarrow> \<exists>low. L p = Some low \<and> from_low low i"
  shows "state_ok L lv S"
  using assms by (simp add: state_ok_def)

lemma state_okD:
  assumes "state_ok L lv S"
  shows "wf_tree L lv (ts_tree S)" "dom (bt_pages (ts_tree S)) = dom L \<union> ts_fresh S" "dom L \<inter> ts_fresh S = {}" "0 \<notin> ts_fresh S"
    "ts_walks S w = Some (i, p) \<Longrightarrow> \<exists>low. L p = Some low \<and> from_low low i"
  using assms by (simp_all add: state_ok_def)

lemma found_contents: "wf_tree L lv T \<Longrightarrow> tree_find T i = Some (Inr (contents T i))"
  by (rule leaf_of [of L lv T i]) (simp_all add: contents_def)

lemma contents_cong: "(\<And>j. tree_find T' j = tree_find T j) \<Longrightarrow> contents T' = contents T"
  by (simp add: contents_def fun_eq_iff)

lemma get_page_Inr [simp]: "get_page T p = Inr pg \<longleftrightarrow> bt_pages T p = Some pg"
  by (auto simp: get_page_def ok_or_def split: option.splits)

lemma walk_moves:
  assumes ok: "state_ok L lv S" and w: "ts_walks S w = Some (i, p)" and pg: "bt_pages (ts_tree S) p = Some pg" "route_step i pg = Go q"
  shows "\<exists>low. L q = Some low \<and> from_low low i"
proof -
  obtain low where low: "L p = Some low" "from_low low i" using state_okD(5) [OF ok w] by blast
  from route_step_ok [OF state_okD(1) [OF ok] low(1) pg(1) low(2)] pg(2) show ?thesis by auto
qed

lemma walk_arrives:
  assumes ok: "state_ok L lv S" and w: "ts_walks S w = Some (i, p)" and pg: "bt_pages (ts_tree S) p = Some pg" "route_step i pg = Arrived"
  obtains low where "L p = Some low" "lv p = 0" "from_low low i" "to_high (ip_high pg) i" "contents (ts_tree S) i = row_at i pg"
proof -
  note wf = state_okD(1) [OF ok]
  obtain low where low: "L p = Some low" "from_low low i" using state_okD(5) [OF ok w] by blast
  from route_step_ok [OF wf low(1) pg(1) low(2)] have "lv p = 0" "to_high (ip_high pg) i" using pg(2) by auto
  then have "tree_find (ts_tree S) i = Some (Inr (row_at i pg))" using tree_find_leaf [OF wf low(1) pg(1) _ low(2)] by blast
  then show thesis using that [OF low(1) \<open>lv p = 0\<close> low(2) \<open>to_high (ip_high pg) i\<close>] by (simp add: contents_def)
qed

text \<open>A page that is not linked yet is written without anyone noticing.\<close>

lemma unlinked_write:
  assumes ok: "state_ok L lv S" and n: "n \<notin> dom L" "n \<noteq> 0"
    and S': "ts_tree S' = write_page n pg (ts_tree S)" "ts_fresh S' = insert n (ts_fresh S)" "ts_walks S' = ts_walks S"
  shows "state_ok L lv S' \<and> contents (ts_tree S') = contents (ts_tree S)"
proof -
  note wf = state_okD(1) [OF ok]
  have wf': "wf_tree L lv (write_page n pg (ts_tree S))" by (rule wf_rewrite [OF wf]) (use n(1) in auto)
  have "tree_find (write_page n pg (ts_tree S)) j = tree_find (ts_tree S) j" for j
    by (rule find_rewrite [OF wf wf']) (use n(1) in auto)
  then have "contents (write_page n pg (ts_tree S)) = contents (ts_tree S)" by (rule contents_cong)
  moreover have "state_ok L lv S'"
    by (rule state_okI) (use wf' n state_okD(2-) [OF ok] in \<open>auto simp: S'\<close>)
  ultimately show ?thesis by (simp add: S')
qed

lemma walks_grow:
  assumes "state_ok L lv S" "L \<subseteq>\<^sub>m L'" "ts_walks S w = Some (i, p)"
  shows "\<exists>low. L' p = Some low \<and> from_low low i"
  using state_okD(5) [OF assms(1,3)] assms(2) by (metis domI map_le_def)

lemma split_page_ok:
  assumes ok: "state_ok L lv S" and p: "p \<notin> ts_fresh S" "p \<noteq> bt_root (ts_tree S)" "bt_pages (ts_tree S) p = Some pg" "2 \<le> length (ip_entries pg)"
    and n: "n \<in> ts_fresh S" "split_off C i n pg = Inr (sep, current, new)" "bt_pages (ts_tree S) n = Some new"
    and S': "ts_tree S' = write_page p current (ts_tree S)" "ts_fresh S' = ts_fresh S - {n}" "ts_walks S' = ts_walks S"
  shows "state_ok (L(n \<mapsto> Some sep)) (lv(n := lv p)) S' \<and> contents (ts_tree S') = contents (ts_tree S)"
proof -
  note wf = state_okD(1) [OF ok] and dom = state_okD(2,3) [OF ok]
  obtain low where low: "L p = Some low" using dom p(1,3) by blast
  have nL: "n \<notin> dom L" "n \<noteq> 0" using dom(2) n(1) state_okD(4) [OF ok] by auto
  let ?L = "L(n \<mapsto> Some sep)"
  have "L \<subseteq>\<^sub>m ?L" using nL by (auto simp: map_le_def)
  note walks = walks_grow [OF ok this]
  have wf': "wf_tree ?L (lv(n := lv p)) (write_page p current (ts_tree S))"
    by (rule wf_split [OF wf low p(3,2) nL n(3) p(4) n(2)])
  have "state_ok ?L (lv(n := lv p)) S'"
  proof (rule state_okI)
    show "dom (bt_pages (ts_tree S')) = dom ?L \<union> ts_fresh S'" using dom(1) n(1) low by (auto simp: S')
    show "dom ?L \<inter> ts_fresh S' = {}" "0 \<notin> ts_fresh S'" using dom(2) state_okD(4) [OF ok] by (auto simp: S')
    show "\<exists>low. ?L q = Some low \<and> from_low low j" if "ts_walks S' w = Some (j, q)" for w j q using walks that by (simp only: S')
  qed (simp only: S' wf')
  moreover have "contents (ts_tree S') = contents (ts_tree S)" unfolding S'
    by (rule contents_cong) (rule find_split [OF wf low p(3,2) nL n(3) p(4) n(2)])
  ultimately show ?thesis by blast
qed

lemma split_root_ok:
  assumes ok: "state_ok L lv S" and r: "bt_pages (ts_tree S) (bt_root (ts_tree S)) = Some pg" "2 \<le> length (ip_entries pg)"
    and n: "a \<in> ts_fresh S" "b \<in> ts_fresh S" "a \<noteq> b" "split_halves C i b pg = Inr (sep, left, right)"
      "bt_pages (ts_tree S) a = Some left" "bt_pages (ts_tree S) b = Some right" "new_root C sep a b pg = Inr root"
    and S': "ts_tree S' = write_page (bt_root (ts_tree S)) root (ts_tree S)" "ts_fresh S' = ts_fresh S - {a, b}" "ts_walks S' = ts_walks S"
  shows "state_ok (L(a \<mapsto> None, b \<mapsto> Some sep)) (lv(a := lv (bt_root (ts_tree S)), b := lv (bt_root (ts_tree S)),
      bt_root (ts_tree S) := Suc (lv (bt_root (ts_tree S))))) S' \<and> contents (ts_tree S') = contents (ts_tree S)"
proof -
  note wf = state_okD(1) [OF ok] and dom = state_okD(2,3) [OF ok]
  let ?r = "bt_root (ts_tree S)" and ?L = "L(a \<mapsto> None, b \<mapsto> Some sep)"
  have nL: "a \<notin> dom L" "b \<notin> dom L" "a \<noteq> 0" "b \<noteq> 0" using dom(2) n(1,2) state_okD(4) [OF ok] by auto
  have "L \<subseteq>\<^sub>m ?L" using nL by (auto simp: map_le_def)
  note walks = walks_grow [OF ok this]
  let ?lv = "lv(a := lv ?r, b := lv ?r, ?r := Suc (lv ?r))"
  have wf': "wf_tree ?L ?lv (write_page ?r root (ts_tree S))"
    by (rule wf_root_split [OF wf refl r(1) nL n(3,5,6) r(2) n(4,7)])
  have "state_ok ?L ?lv S'"
  proof (rule state_okI)
    show "dom (bt_pages (ts_tree S')) = dom ?L \<union> ts_fresh S'" using dom(1) n(1,2) wf_treeD(3) [OF wf] by (auto simp: S')
    show "dom ?L \<inter> ts_fresh S' = {}" "0 \<notin> ts_fresh S'" using dom(2) state_okD(4) [OF ok] by (auto simp: S')
    show "\<exists>low. ?L q = Some low \<and> from_low low j" if "ts_walks S' w = Some (j, q)" for w j q using walks that by (simp only: S')
  qed (simp only: S' wf')
  moreover have "contents (ts_tree S') = contents (ts_tree S)" unfolding S'
    by (rule contents_cong) (rule find_root_split [OF wf refl r(1) nL n(3,5,6) r(2) n(4,7)])
  ultimately show ?thesis by blast
qed

lemma same_pages_ok:
  assumes ok: "state_ok L lv S" and wf': "wf_tree L lv (write_page p pg' (ts_tree S))" and p: "bt_pages (ts_tree S) p = Some pg"
    and S': "ts_tree S' = write_page p pg' (ts_tree S)" "ts_fresh S' = ts_fresh S" "ts_walks S' \<subseteq>\<^sub>m ts_walks S"
  shows "state_ok L lv S'"
proof (rule state_okI)
  show "dom (bt_pages (ts_tree S')) = dom L \<union> ts_fresh S'" using state_okD(2) [OF ok] p by (auto simp: S')
  show "\<exists>low. L q = Some low \<and> from_low low j" if "ts_walks S' w = Some (j, q)" for w j q
    using state_okD(5) [OF ok, of w j q] that S'(3) by (metis domI map_le_def)
qed (use wf' state_okD(3,4) [OF ok] S' in simp_all)

lemma write_row_ok:
  assumes ok: "state_ok L lv S" and w: "ts_walks S w = Some (i, p)" and pg: "bt_pages (ts_tree S) p = Some pg" "route_step i pg = Arrived"
    and d: "decision_for i d" and app: "apply_in_leaf C i (row_at i pg \<noteq> None) d pg = Inr (r, pg')"
    and S': "ts_tree S' = write_page p pg' (ts_tree S)" "ts_fresh S' = ts_fresh S" "ts_walks S' = (ts_walks S)(w := None)"
  shows "state_ok L lv S' \<and> table_event (Wrote i d r) (contents (ts_tree S)) = Some (contents (ts_tree S'))"
proof -
  note wf = state_okD(1) [OF ok]
  obtain low where a: "L p = Some low" "lv p = 0" "from_low low i" "to_high (ip_high pg) i" "contents (ts_tree S) i = row_at i pg"
    by (rule walk_arrives [OF ok w pg])
  note lw = wf_leaf_write [OF wf a(1) pg(1) a(2,3,4) d app]
  have "state_ok L lv S'" by (rule same_pages_ok [OF ok lw(1) pg(1)]) (auto simp: S' map_le_def)
  moreover have "contents (ts_tree S') j = (if dbid_cmp i j = Equal then row_after d (row_at i pg) else contents (ts_tree S) j)" for j
    using lw(4) [of j] by (simp add: contents_def S')
  moreover have "case d of Insert _ \<Rightarrow> contents (ts_tree S) i = None | Replace _ \<Rightarrow> contents (ts_tree S) i \<noteq> None | _ \<Rightarrow> True"
    unfolding a(5) using app by (auto simp: apply_in_leaf_def split: decision.splits if_splits)
  ultimately show ?thesis using lw(3) a(5) by (simp add: fun_eq_iff)
qed

lemma step_ok:
  assumes ok: "state_ok L lv S" and step: "tree_step C S e S'"
  shows "\<exists>L' lv'. state_ok L' lv' S' \<and> table_event e (contents (ts_tree S)) = Some (contents (ts_tree S'))"
  using step
proof cases
  case (begin_walk w i)
  have "state_ok L lv S'" using ok wf_treeD(3) [OF state_okD(1) [OF ok]] by (auto simp: begin_walk state_ok_def from_low_def split: if_splits)
  then show ?thesis using begin_walk by auto
next
  case (move_on w i p pg q)
  then have "\<exists>low. L q = Some low \<and> from_low low i" using walk_moves [OF ok] by simp
  then have "state_ok L lv S'" using ok by (auto simp: move_on state_ok_def split: if_splits)
  then show ?thesis using move_on by auto
next
  case (arrive w i p pg)
  then have "contents (ts_tree S) i = row_at i pg" using walk_arrives [OF ok, of w i p pg] by (metis get_page_Inr)
  moreover have "state_ok L lv S'" using ok by (auto simp: arrive state_ok_def split: if_splits)
  ultimately show ?thesis using arrive by auto
next
  case (give_up w)
  have "state_ok L lv S'" using ok by (auto simp: give_up state_ok_def split: if_splits)
  then show ?thesis using give_up by auto
next
  case (allocate n pg)
  then have "n \<notin> dom L" using state_okD(2) [OF ok] by auto
  then show ?thesis using unlinked_write [OF ok, of n S' pg] allocate by auto
next
  case (prepare n pg)
  then have "n \<notin> dom L" "n \<noteq> 0" using state_okD(3,4) [OF ok] by auto
  then show ?thesis using unlinked_write [OF ok, of n S' pg] prepare by (auto simp: insert_absorb)
next
  case (split_page p pg n i sep current new)
  have "state_ok (L(n \<mapsto> Some sep)) (lv(n := lv p)) S' \<and> contents (ts_tree S') = contents (ts_tree S)"
    by (rule split_page_ok [OF ok split_page(3-9)]) (simp_all add: split_page)
  then show ?thesis using split_page(1) by auto
next
  case (tell_parent p pg i k c cpg sep pg')
  note wf = state_okD(1) [OF ok]
  obtain low where low: "L p = Some low" using state_okD(2) [OF ok] tell_parent(3,4) by blast
  note wr = wf_route_split [OF wf low tell_parent(4-9)]
  have "state_ok L lv S'" by (rule same_pages_ok [OF ok wr(1) tell_parent(4)]) (auto simp: tell_parent)
  moreover have "contents (ts_tree S') = contents (ts_tree S)" using contents_cong [OF wr(2)] by (simp add: tell_parent)
  ultimately show ?thesis using tell_parent(1) by auto
next
  case (split_root pg a b i sep left right root)
  from split_root_ok [OF ok split_root(3-11), of S'] show ?thesis using split_root(1,2) by auto
next
  case (write_row w i p pg d r pg')
  then show ?thesis using write_row_ok [OF ok, of w i p pg d C r pg' S'] by auto
qed

lemma start_ok:
  assumes "r \<noteq> 0"
  shows "state_ok [r \<mapsto> None] (\<lambda>_. 0) (start_state C r)" "contents (ts_tree (start_state C r)) = (\<lambda>_. None)"
proof -
  have wf: "wf_tree [r \<mapsto> None] (\<lambda>_. 0) (new_tree C r)"
    by (rule wf_treeI) (use assms in \<open>auto simp: new_tree_def high_of_def page_ok_def link_ok_def leaf_ok_def split: if_splits\<close>)
  then show "state_ok [r \<mapsto> None] (\<lambda>_. 0) (start_state C r)" by (auto simp: state_ok_def start_state_def new_tree_def)
  have "tree_find (new_tree C r) i = Some (Inr None)" for i
    by (rule leaf_of [OF wf, of i]) (auto simp: new_tree_def row_at_def find_entry_def split: if_splits)
  then show "contents (ts_tree (start_state C r)) = (\<lambda>_. None)" by (simp add: contents_def start_state_def fun_eq_iff)
qed

lemma run_ok:
  assumes "tree_run C S es S'" "state_ok L lv S"
  shows "\<exists>L' lv'. state_ok L' lv' S' \<and> table_events es (contents (ts_tree S)) = Some (contents (ts_tree S'))"
  using assms
proof (induction rule: tree_run.induct)
  case (one_more S es S' e S'')
  then obtain L' lv' where "state_ok L' lv' S'" "table_events es (contents (ts_tree S)) = Some (contents (ts_tree S'))" by blast
  then show ?case using step_ok [of L' lv' S' C e S''] one_more.hyps(2) by (auto simp: table_events_append)
qed auto

section \<open>Linearizable lookups and writes\<close>

text \<open>
  C7. However readers and writers of a tree interleave, page by page, and however many splits are half
  done, the tree is one table: every lookup returns the row the table has at the moment its leaf is read,
  every write reports and does what it would to that row alone, splits change nothing, and a lookup from
  the root finds what the table has for every id. A reader under way never meets a page that is missing
  or an entry of the wrong kind, and where it stops is a leaf with the row of its id.
\<close>

theorem tree_is_linearizable:
  assumes "root \<noteq> 0" "tree_run C (start_state C root) es S"
  shows "table_events es (\<lambda>_. None) = Some (contents (ts_tree S))
    \<and> (\<forall>i. tree_find (ts_tree S) i = Some (Inr (contents (ts_tree S) i)))
    \<and> (\<forall>w i p. ts_walks S w = Some (i, p) \<longrightarrow> (\<exists>pg. get_page (ts_tree S) p = Inr pg \<and> route_step i pg \<noteq> Corrupt
        \<and> (route_step i pg = Arrived \<longrightarrow> ip_leaf pg \<and> row_at i pg = contents (ts_tree S) i)))"
proof -
  obtain L lv where ok: "state_ok L lv S" and ev: "table_events es (\<lambda>_. None) = Some (contents (ts_tree S))"
    using run_ok [OF assms(2) start_ok(1) [OF assms(1)]] start_ok(2) [OF assms(1), of C] by auto
  have "\<exists>pg. get_page (ts_tree S) p = Inr pg \<and> route_step i pg \<noteq> Corrupt
      \<and> (route_step i pg = Arrived \<longrightarrow> ip_leaf pg \<and> row_at i pg = contents (ts_tree S) i)" if w: "ts_walks S w = Some (i, p)" for w i p
  proof -
    obtain low where low: "L p = Some low" "from_low low i" using state_okD(5) [OF ok w] by blast
    obtain pg where pg: "bt_pages (ts_tree S) p = Some pg" using wf_page [OF state_okD(1) [OF ok] low(1)] by blast
    have "row_at i pg = contents (ts_tree S) i" if "route_step i pg = Arrived" by (rule walk_arrives [OF ok w pg that]) simp
    then show ?thesis using route_step_ok [OF state_okD(1) [OF ok] low(1) pg low(2)] pg by (intro exI [of _ pg]) auto
  qed
  then show ?thesis using ev found_contents [OF state_okD(1) [OF ok]] by blast
qed

definition demo_cfg :: btree_cfg where
  "demo_cfg = \<lparr>bc_size = (\<lambda>_. 20), bc_overhead = 8, bc_usable = 400, bc_nodes_per_page = 10, bc_count_cap = None,
     bc_leaf_budget = 40, bc_inner_budget = 40, bc_alloc = (\<lambda>m. Suc (Max (insert 0 (dom m)))), bc_takes = (\<lambda>_ _. True)\<rparr>"

definition demo_tuple :: "dbid \<Rightarrow> tuple" where
  "demo_tuple i = tuple_default\<lparr>t_id := i\<rparr>"

definition demo_leaf :: "entry list \<Rightarrow> index_page" where
  "demo_leaf es = \<lparr>ip_inner = False, ip_leaf = True, ip_next = 0, ip_high = None, ip_entries = es, ip_record_size = Some 40\<rparr>"

text \<open>A writer inserts a row while a reader looks for it.\<close>

definition demo_events :: "event list" where
  "demo_events = [Silent, Silent, Wrote (IntId 5) (Insert (demo_tuple (IntId 5))) WInserted, Found (IntId 5) (Some (demo_tuple (IntId 5)))]"

definition demo_state :: "entry list \<Rightarrow> (nat \<rightharpoonup> dbid \<times> nat) \<Rightarrow> tree_state" where
  "demo_state es ws = \<lparr>ts_tree = \<lparr>bt_pages = [1 \<mapsto> demo_leaf es], bt_root = 1\<rparr>, ts_fresh = {}, ts_walks = ws\<rparr>"

lemma demo_run: "tree_run demo_cfg (start_state demo_cfg 1) demo_events (demo_state [(IntId 5, Leaf (demo_tuple (IntId 5)))] Map.empty)"
proof -
  let ?row = "demo_tuple (IntId 5)" and ?i = "IntId 5"
  have start: "start_state demo_cfg 1 = demo_state [] Map.empty"
    by (simp add: start_state_def new_tree_def demo_state_def demo_leaf_def demo_cfg_def)
  have "tree_step demo_cfg (demo_state [] Map.empty) Silent (demo_state [] [0 \<mapsto> (?i, 1)])"
    using begin_walk [of "demo_state [] Map.empty" 0 demo_cfg ?i] by (simp add: demo_state_def)
  moreover have "tree_step demo_cfg (demo_state [] [0 \<mapsto> (?i, 1)]) Silent (demo_state [] [0 \<mapsto> (?i, 1), 7 \<mapsto> (?i, 1)])"
    using begin_walk [of "demo_state [] [0 \<mapsto> (?i, 1)]" 7 demo_cfg ?i] by (simp add: demo_state_def)
  moreover have "tree_step demo_cfg (demo_state [] [0 \<mapsto> (?i, 1), 7 \<mapsto> (?i, 1)]) (Wrote ?i (Insert ?row) WInserted) (demo_state [(?i, Leaf ?row)] [0 \<mapsto> (?i, 1)])"
  proof -
    have "apply_in_leaf demo_cfg ?i (row_at ?i (demo_leaf []) \<noteq> None) (Insert ?row) (demo_leaf []) = Inr (WInserted, demo_leaf [(?i, Leaf ?row)])"
      by (simp add: apply_in_leaf_def demo_leaf_def row_at_def find_entry_def add_tuple_def too_large_def can_store_def used_data_size_def
          put_entry_def demo_cfg_def demo_tuple_def)
    then show ?thesis
      using write_row [of "demo_state [] [0 \<mapsto> (?i, 1), 7 \<mapsto> (?i, 1)]" 7 ?i 1 "demo_leaf []" "Insert ?row" demo_cfg WInserted "demo_leaf [(?i, Leaf ?row)]"]
      by (simp add: demo_state_def route_step_def demo_leaf_def decision_for_def demo_tuple_def write_page_def fun_upd_twist)
  qed
  moreover have "tree_step demo_cfg (demo_state [(?i, Leaf ?row)] [0 \<mapsto> (?i, 1)]) (Found ?i (Some ?row)) (demo_state [(?i, Leaf ?row)] Map.empty)"
    using arrive [of "demo_state [(?i, Leaf ?row)] [0 \<mapsto> (?i, 1)]" 0 ?i 1 "demo_leaf [(?i, Leaf ?row)]" demo_cfg]
    by (simp add: demo_state_def route_step_def demo_leaf_def row_at_def find_entry_def)
  ultimately have "tree_run demo_cfg (start_state demo_cfg 1) ((([] @ [Silent]) @ [Silent]) @ [Wrote ?i (Insert ?row) WInserted] @ [Found ?i (Some ?row)]) (demo_state [(?i, Leaf ?row)] Map.empty)"
    unfolding start append_assoc [symmetric] by (blast intro: no_steps one_more)
  then show ?thesis by (simp add: demo_events_def)
qed

theorem tree_is_linearizable_witness:
  "table_events demo_events (\<lambda>_. None) = Some (contents (ts_tree (demo_state [(IntId 5, Leaf (demo_tuple (IntId 5)))] Map.empty)))
    \<and> contents (ts_tree (demo_state [(IntId 5, Leaf (demo_tuple (IntId 5)))] Map.empty)) (IntId 5) = Some (demo_tuple (IntId 5))"
proof -
  have ev: "table_events demo_events (\<lambda>_. None) = Some (contents (ts_tree (demo_state [(IntId 5, Leaf (demo_tuple (IntId 5)))] Map.empty)))"
    using tree_is_linearizable [OF _ demo_run] by simp
  moreover have "table_events demo_events (\<lambda>_. None) = Some (\<lambda>j. if dbid_cmp (IntId 5) j = Equal then Some (demo_tuple (IntId 5)) else None)"
    by (simp add: demo_events_def result_of_def) (simp add: row_after_def cong: if_cong)
  ultimately have "contents (ts_tree (demo_state [(IntId 5, Leaf (demo_tuple (IntId 5)))] Map.empty))
      = (\<lambda>j. if dbid_cmp (IntId 5) j = Equal then Some (demo_tuple (IntId 5)) else None)" by simp
  then show ?thesis using ev by simp
qed

end
