(* ===== verification/Btree_Scan.thy ===== *)
theory Btree_Scan
  imports Btree_Run
begin

text \<open>
  Reading a tree in key order: the leaf a range starts in, and from leaf to leaf over their links
  (\<^verbatim>\<open>start_leaf\<close> and \<^verbatim>\<open>next_index_entry\<close> of \<^verbatim>\<open>store/src/cursor.rs\<close>).
\<close>

definition start_leaf :: "btree \<Rightarrow> dbid bnd \<Rightarrow> (serr + index_page) option" where
  "start_leaf T start =
     map_option (\<lambda>r. r_bind r (\<lambda>(_, p). Inr p))
       (case start of
          Included k \<Rightarrow> route_to_leaf_id T k (bt_root T)
        | Excluded k \<Rightarrow> route_to_leaf_id T k (bt_root T)
        | Unbounded \<Rightarrow> first_leaf_of T (bt_root T))"

text \<open>The entries of a list in key order from a bound on.\<close>

definition from_bound :: "dbid bnd \<Rightarrow> entry list \<Rightarrow> entry list" where
  "from_bound start es =
     (case start of
        Included k \<Rightarrow> dropWhile (\<lambda>e. id_less (fst e) k) es
      | Excluded k \<Rightarrow> dropWhile (\<lambda>e. id_le (fst e) k) es
      | Unbounded \<Rightarrow> es)"

text \<open>What the leaves after a leaf hold.\<close>

partial_function (option) later_entries :: "btree \<Rightarrow> index_page \<Rightarrow> (serr + entry list) option" where
  [code]: "later_entries T p =
     (case next_leaf_page T p of
        Inl e \<Rightarrow> Some (Inl e)
      | Inr None \<Rightarrow> Some (Inr [])
      | Inr (Some q) \<Rightarrow> Option.bind (later_entries T q) (\<lambda>r. Some (r_bind r (\<lambda>es. Inr (ip_entries q @ es)))))"

definition index_entries :: "btree \<Rightarrow> dbid bnd \<Rightarrow> (serr + entry list) option" where
  "index_entries T start =
     Option.bind (start_leaf T start) (\<lambda>r.
       case r of
         Inl e \<Rightarrow> Some (Inl e)
       | Inr p \<Rightarrow> Option.bind (later_entries T p) (\<lambda>r. Some (r_bind r (\<lambda>es. Inr (from_bound start (ip_entries p) @ es)))))"

section \<open>Along the leaves\<close>

lemma chain_induct [consumes 2, case_names leaf]:
  assumes wf: "wf_tree L lv T" and p: "L p = Some low"
    and step: "\<And>p low pg. L p = Some low \<Longrightarrow> bt_pages T p = Some pg \<Longrightarrow> page_ok L lv (high_of (bt_pages T)) (lv p) low pg
      \<Longrightarrow> (\<And>h. ip_high pg = Some h \<Longrightarrow> L (ip_next pg) = Some (Some h) \<Longrightarrow> lv (ip_next pg) = lv p \<Longrightarrow> P (ip_next pg) (Some h)) \<Longrightarrow> P p low"
  shows "P p low"
  using p
proof (induction low arbitrary: p rule: measure_induct_rule [of "\<lambda>low. card {q. \<exists>l. L q = Some (Some l) \<and> low_less low l}"])
  case (less low)
  obtain pg where pg: "bt_pages T p = Some pg" "page_ok L lv (high_of (bt_pages T)) (lv p) low pg" by (rule wf_page [OF wf less.prems])
  show ?case
  proof (rule step [OF less.prems pg])
    fix h assume h: "ip_high pg = Some h" "L (ip_next pg) = Some (Some h)"
    have lh: "low_less low h" using pg(2) h(1) by (simp add: page_ok_def link_ok_def)
    have "{q. \<exists>l. L q = Some (Some l) \<and> low_less (Some h) l} \<subseteq> {q. \<exists>l. L q = Some (Some l) \<and> low_less low l}"
      using lh by (auto simp: low_less_def split: option.splits intro: ids.less_trans)
    moreover have "ip_next pg \<in> {q. \<exists>l. L q = Some (Some l) \<and> low_less low l}" "ip_next pg \<notin> {q. \<exists>l. L q = Some (Some l) \<and> low_less (Some h) l}"
      using h(2) lh by (auto simp: low_less_def ids.refl)
    moreover have "finite {q. \<exists>l. L q = Some (Some l) \<and> low_less low l}" by (rule finite_subset [OF _ wf_treeD(1) [OF wf]]) auto
    ultimately have "card {q. \<exists>l. L q = Some (Some l) \<and> low_less (Some h) l} < card {q. \<exists>l. L q = Some (Some l) \<and> low_less low l}"
      by (intro psubset_card_mono) blast+
    then show "P (ip_next pg) (Some h)" using h(2) by (rule less.IH)
  qed
qed

definition row_in :: "dbid \<Rightarrow> entry list \<Rightarrow> tuple option" where
  "row_in i es = (case find_entry i es of Some (Leaf t) \<Rightarrow> Some t | _ \<Rightarrow> None)"

lemma row_at_in: "row_at i pg = row_in i (ip_entries pg)"
  by (simp add: row_at_def row_in_def)

lemma no_next: "wf_tree L lv T \<Longrightarrow> page_ok L lv hi n low pg \<Longrightarrow> ip_high pg = None \<Longrightarrow> later_entries T pg = Some (Inr [])"
  by (subst later_entries.simps) (simp add: page_ok_def link_ok_def next_leaf_page_def)

text \<open>A leaf and those after it: in order, and the rows of every id from its least key on.\<close>

lemma later_ok:
  assumes "wf_tree L lv T" "L p = Some low"
  shows "lv p = 0 \<Longrightarrow> bt_pages T p = Some pg \<Longrightarrow> \<exists>es. later_entries T pg = Some (Inr es)
    \<and> sorted_wrt (\<lambda>a b. id_less (fst a) (fst b)) (ip_entries pg @ es)
    \<and> (\<forall>e \<in> set (ip_entries pg @ es). from_low low (fst e)) \<and> (\<forall>e \<in> set es. \<exists>h. ip_high pg = Some h \<and> id_le h (fst e))
    \<and> (\<forall>i. from_low low i \<longrightarrow> contents T i = row_in i (ip_entries pg @ es))"
  using assms
proof (induction arbitrary: pg rule: chain_induct)
  case (leaf p low pg')
  have pg: "pg' = pg" using leaf.prems(2) leaf.hyps(2) by simp
  note ok = leaf.hyps(3) [unfolded pg]
  have nl: "\<not> ip_inner pg" using ok leaf.prems(1) by (cases "ip_entries pg") (auto simp: page_ok_def inner_ok_def)
  then have lok: "leaf_ok low pg" using ok by (simp add: page_ok_def)
  have here: "contents T i = row_in i (ip_entries pg)" if "from_low low i" "to_high (ip_high pg) i" for i
    using tree_find_leaf [OF assms(1) leaf.hyps(1) leaf.prems(2,1) that] by (simp add: contents_def row_at_in)
  show ?case
  proof (cases "ip_high pg")
    case None
    then show ?thesis using no_next [OF assms(1) ok None] lok here by (intro exI [of _ "[]"]) (auto simp: leaf_ok_def to_high_def)
  next
    case (Some h)
    have nx: "L (ip_next pg) = Some (Some h)" "lv (ip_next pg) = lv p" "low_less low h" using ok Some by (auto simp: page_ok_def link_ok_def)
    obtain q where q: "bt_pages T (ip_next pg) = Some q" using wf_page [OF assms(1) nx(1)] by blast
    obtain es where es: "later_entries T q = Some (Inr es)" "sorted_wrt (\<lambda>a b. id_less (fst a) (fst b)) (ip_entries q @ es)"
        "\<forall>e \<in> set (ip_entries q @ es). from_low (Some h) (fst e)" "\<forall>i. from_low (Some h) i \<longrightarrow> contents T i = row_in i (ip_entries q @ es)"
      using leaf.IH [unfolded pg, OF Some nx(1,2), of q] nx(2) leaf.prems(1) q by auto
    have "ip_next pg \<noteq> 0" using nx(1) wf_treeD(2) [OF assms(1)] by (metis domI)
    then have l: "later_entries T pg = Some (Inr (ip_entries q @ es))"
      using q es(1) by (subst later_entries.simps) (simp add: next_leaf_page_def get_page_def ok_or_def)
    have ge: "id_le h (fst e)" if "e \<in> set (ip_entries q @ es)" for e using es(3) that by (simp add: from_low_def)
    have lt: "id_less (fst e) h" if "e \<in> set (ip_entries pg)" for e using lok that Some by (auto simp: leaf_ok_def to_high_def)
    have "sorted_wrt (\<lambda>a b. id_less (fst a) (fst b)) (ip_entries pg @ ip_entries q @ es)"
    proof -
      have "id_less (fst a) (fst b)" if "a \<in> set (ip_entries pg)" "b \<in> set (ip_entries q @ es)" for a b
        using ids.less_le_trans [OF lt [OF that(1)] ge [OF that(2)]] .
      then show ?thesis unfolding sorted_wrt_append [of _ "ip_entries pg"] using es(2) lok unfolding leaf_ok_def by blast
    qed
    moreover have "\<forall>e \<in> set (ip_entries pg @ ip_entries q @ es). from_low low (fst e)"
      using lok ge low_less_from [OF low_less_trans [OF nx(3)]] by (auto simp: leaf_ok_def)
    moreover have "contents T i = row_in i (ip_entries pg @ ip_entries q @ es)" if i: "from_low low i" for i
    proof (cases "id_less i h")
      case True
      have "id_less i (fst e)" if "e \<in> set (ip_entries q @ es)" for e using ids.less_le_trans [OF True ge [OF that]] .
      then have "find_entry i (ip_entries q @ es) = None" unfolding find_entry_None using ids.equal_sym by (metis ordering.distinct(1))
      then show ?thesis using here [OF i] True Some by (simp add: to_high_def row_in_def find_entry_append split: option.splits)
    next
      case False
      then have le: "id_le h i" using ids.not_less by blast
      have "id_less (fst e) i" if "e \<in> set (ip_entries pg)" for e using ids.less_le_trans [OF lt [OF that] le] .
      then have "find_entry i (ip_entries pg) = None" unfolding find_entry_None by (metis ordering.distinct(1))
      then show ?thesis using es(4) le by (simp add: from_low_def row_in_def find_entry_append)
    qed
    ultimately show ?thesis using l ge Some by blast
  qed
qed

lemma first_leaf_ok:
  assumes wf: "wf_tree L lv T"
  shows "L p = Some None \<Longrightarrow> lv p = n \<Longrightarrow> \<exists>q pg. first_leaf_of T p = Some (Inr (q, pg)) \<and> L q = Some None \<and> lv q = 0 \<and> bt_pages T q = Some pg"
proof (induction n arbitrary: p)
  case 0
  obtain pg where pg: "bt_pages T p = Some pg" "page_ok L lv (high_of (bt_pages T)) 0 None pg" using wf_page [OF wf 0(1)] 0(2) by auto
  then have "\<not> ip_inner pg" by (cases "ip_entries pg") (auto simp: page_ok_def inner_ok_def)
  then show ?case using 0 pg(1) by (subst first_leaf_of.simps) (simp add: get_page_def ok_or_def)
next
  case (Suc n)
  obtain pg where pg: "bt_pages T p = Some pg" "page_ok L lv (high_of (bt_pages T)) (Suc n) None pg" using wf_page [OF wf Suc(2)] Suc(3) by auto
  then have i: "ip_inner pg" by (auto simp: page_ok_def split: if_splits)
  obtain k c es where c: "ip_entries pg = (k, Inner c) # es" "L c = Some None" "Suc (lv c) = Suc n"
    using pg(2) i by (cases "ip_entries pg") (auto simp: page_ok_def inner_ok_def)
  then have "first_leaf_of T p = first_leaf_of T c" using pg(1) i by (subst first_leaf_of.simps) (simp add: get_page_def ok_or_def)
  then show ?case using Suc.IH [of c] c(2,3) by simp
qed

text \<open>A leaf among those after another.\<close>

lemma chain_to:
  assumes "wf_tree L lv T" "L f = Some low"
    and p: "L p = Some lp" "lv p = 0" "bt_pages T p = Some ppg" "from_low lp k" "to_high (ip_high ppg) k" "later_entries T ppg = Some (Inr ps)"
  shows "lv f = 0 \<Longrightarrow> bt_pages T f = Some fpg \<Longrightarrow> from_low low k \<Longrightarrow> later_entries T fpg = Some (Inr fs)
    \<Longrightarrow> \<exists>pre. ip_entries fpg @ fs = pre @ ip_entries ppg @ ps \<and> (\<forall>e \<in> set pre. id_less (fst e) k)"
  using assms(1,2)
proof (induction arbitrary: fpg fs rule: chain_induct)
  case (leaf f low pg)
  have pg: "pg = fpg" using leaf.prems(2) leaf.hyps(2) by simp
  note ok = leaf.hyps(3) [unfolded pg]
  have lok: "leaf_ok low fpg" using ok leaf.prems(1) by (cases "ip_entries fpg") (auto simp: page_ok_def inner_ok_def split: if_splits)
  show ?case
  proof (cases "to_high (ip_high fpg) k")
    case True
    have "f = p" by (rule leaf_unique [OF assms(1) leaf.hyps(1) p(1) _ leaf.prems(2) p(3) leaf.prems(3) True p(4,5)]) (simp add: leaf.prems(1) p(2))
    then have "fpg = ppg" "fs = ps" using leaf.prems(2,4) p(3,6) by simp_all
    then show ?thesis by (intro exI [of _ "[]"]) simp
  next
    case False
    then obtain h where h: "ip_high fpg = Some h" "\<not> id_less k h" by (auto simp: to_high_def split: option.splits)
    then have le: "id_le h k" using ids.not_less by blast
    have nx: "L (ip_next fpg) = Some (Some h)" "lv (ip_next fpg) = lv f" using ok h(1) by (auto simp: page_ok_def link_ok_def)
    obtain q where q: "bt_pages T (ip_next fpg) = Some q" using wf_page [OF assms(1) nx(1)] by blast
    obtain es where es: "later_entries T q = Some (Inr es)" using later_ok [OF assms(1) nx(1) _ q] nx(2) leaf.prems(1) by auto
    have "ip_next fpg \<noteq> 0" using nx(1) wf_treeD(2) [OF assms(1)] by (metis domI)
    then have fs: "fs = ip_entries q @ es"
      using q es leaf.prems(4) by (subst (asm) later_entries.simps) (simp add: next_leaf_page_def get_page_def ok_or_def)
    obtain pre where pre: "ip_entries q @ es = pre @ ip_entries ppg @ ps" "\<forall>e \<in> set pre. id_less (fst e) k"
      using leaf.IH [unfolded pg, OF h(1) nx, of q es] nx(2) leaf.prems(1) q le es by (auto simp: from_low_def)
    have "id_less (fst e) k" if "e \<in> set (ip_entries fpg)" for e
      using lok that h(1) le ids.less_le_trans by (auto simp: leaf_ok_def to_high_def)
    then show ?thesis using pre by (intro exI [of _ "ip_entries fpg @ pre"]) (auto simp: fs)
  qed
qed

lemma dropWhile_between:
  assumes "\<And>e. e \<in> set xs \<Longrightarrow> P e" "\<And>e. e \<in> set zs \<Longrightarrow> \<not> P e"
  shows "dropWhile P (xs @ ys @ zs) = dropWhile P ys @ zs"
proof -
  have "dropWhile P (ys @ zs) = dropWhile P ys @ zs"
    using assms(2) by (cases "\<forall>e \<in> set ys. P e") (auto simp: dropWhile_append1 dropWhile_append2 dropWhile_eq_self_iff hd_in_set)
  then show ?thesis using assms(1) by (simp add: dropWhile_append2)
qed

lemma scan_ok:
  assumes wf: "wf_tree L lv T"
  shows "\<exists>es. sorted_wrt (\<lambda>a b. id_less (fst a) (fst b)) es \<and> (\<forall>i. contents T i = row_in i es)
    \<and> (\<forall>start. index_entries T start = Some (Inr (from_bound start es)))"
proof -
  obtain f fpg where f: "first_leaf_of T (bt_root T) = Some (Inr (f, fpg))" "L f = Some None" "lv f = 0" "bt_pages T f = Some fpg"
    using first_leaf_ok [OF wf wf_treeD(3) [OF wf] refl] by blast
  obtain fs where fs: "later_entries T fpg = Some (Inr fs)" "sorted_wrt (\<lambda>a b. id_less (fst a) (fst b)) (ip_entries fpg @ fs)"
      "\<forall>i. contents T i = row_in i (ip_entries fpg @ fs)"
    using later_ok [OF wf f(2,3,4)] by (auto simp: from_low_def)
  have at: "\<exists>p pg ps pre. route_to_leaf_id T k (bt_root T) = Some (Inr (p, pg)) \<and> later_entries T pg = Some (Inr ps)
      \<and> ip_entries fpg @ fs = pre @ ip_entries pg @ ps \<and> (\<forall>e \<in> set pre. id_less (fst e) k) \<and> (\<forall>e \<in> set ps. id_less k (fst e))" for k
  proof -
    have "from_low None k" by (simp add: from_low_def)
    then obtain p lp pg where p: "route_to_leaf_id T k (bt_root T) = Some (Inr (p, pg))" "L p = Some lp" "from_low lp k" "bt_pages T p = Some pg" "lv p = 0" "to_high (ip_high pg) k"
      using route_total [OF wf wf_treeD(3) [OF wf]] by blast
    obtain ps where ps: "later_entries T pg = Some (Inr ps)" "\<forall>e \<in> set ps. \<exists>h. ip_high pg = Some h \<and> id_le h (fst e)"
      using later_ok [OF wf p(2,5,4)] by blast
    have "id_less k (fst e)" if "e \<in> set ps" for e using ps(2) that p(6) ids.less_le_trans by (auto simp: to_high_def)
    moreover obtain pre where "ip_entries fpg @ fs = pre @ ip_entries pg @ ps" "\<forall>e \<in> set pre. id_less (fst e) k"
      using chain_to [OF wf f(2) p(2,5,4,3,6) ps(1) f(3,4) \<open>from_low None k\<close> fs(1)] by blast
    ultimately show ?thesis using p(1) ps(1) by blast
  qed
  have "index_entries T start = Some (Inr (from_bound start (ip_entries fpg @ fs)))" for start
  proof (cases start)
    case (Included k)
    obtain p pg ps pre where a: "route_to_leaf_id T k (bt_root T) = Some (Inr (p, pg))" "later_entries T pg = Some (Inr ps)"
        "ip_entries fpg @ fs = pre @ ip_entries pg @ ps" "\<forall>e \<in> set pre. id_less (fst e) k" "\<forall>e \<in> set ps. id_less k (fst e)" using at [of k] by blast
    have "dropWhile (\<lambda>e. id_less (fst e) k) (pre @ ip_entries pg @ ps) = dropWhile (\<lambda>e. id_less (fst e) k) (ip_entries pg) @ ps"
      by (rule dropWhile_between) (use a(4,5) ids.not_both in blast)+
    then show ?thesis by (simp add: index_entries_def start_leaf_def from_bound_def Included a)
  next
    case (Excluded k)
    obtain p pg ps pre where a: "route_to_leaf_id T k (bt_root T) = Some (Inr (p, pg))" "later_entries T pg = Some (Inr ps)"
        "ip_entries fpg @ fs = pre @ ip_entries pg @ ps" "\<forall>e \<in> set pre. id_less (fst e) k" "\<forall>e \<in> set ps. id_less k (fst e)" using at [of k] by blast
    have "dropWhile (\<lambda>e. id_le (fst e) k) (pre @ ip_entries pg @ ps) = dropWhile (\<lambda>e. id_le (fst e) k) (ip_entries pg) @ ps"
      by (rule dropWhile_between) (use a(4,5) ids.greater_iff in \<open>auto simp del: dbid_cmp.simps\<close>)
    then show ?thesis by (simp add: index_entries_def start_leaf_def from_bound_def Excluded a)
  next
    case Unbounded
    then show ?thesis by (simp add: index_entries_def start_leaf_def from_bound_def f(1) fs(1))
  qed
  then show ?thesis using fs(2,3) by blast
qed

text \<open>
  C9. Scans and lookups agree. In every state a tree comes to, split or half split, there is one list
  of rows, in strictly ascending key order, that a scan reads: from its start if it has no bound, from the
  first key at or past its bound otherwise, to the end; and a lookup of any id returns the row that list
  has for it.
\<close>

theorem scan_reads_table:
  assumes "root \<noteq> 0" "tree_run C (start_state C root) es S"
  shows "\<exists>rows. sorted_wrt (\<lambda>a b. dbid_cmp (fst a) (fst b) = Less) rows
    \<and> (\<forall>i. tree_find (ts_tree S) i = Some (Inr (row_in i rows)))
    \<and> (\<forall>start. index_entries (ts_tree S) start = Some (Inr (from_bound start rows)))"
proof -
  obtain L lv where ok: "state_ok L lv S" using run_ok [OF assms(2) start_ok(1) [OF assms(1)]] by blast
  show ?thesis using scan_ok [OF state_okD(1) [OF ok]] found_contents [OF state_okD(1) [OF ok]] by auto
qed

theorem scan_reads_table_witness:
  "\<exists>rows. sorted_wrt (\<lambda>a b. dbid_cmp (fst a) (fst b) = Less) rows
    \<and> (\<forall>start. index_entries (ts_tree (demo_state [(IntId 5, Leaf (demo_tuple (IntId 5)))] Map.empty)) start = Some (Inr (from_bound start rows)))
    \<and> row_in (IntId 5) rows = Some (demo_tuple (IntId 5))"
proof -
  let ?T = "ts_tree (demo_state [(IntId 5, Leaf (demo_tuple (IntId 5)))] Map.empty)"
  obtain rows where r: "sorted_wrt (\<lambda>a b. dbid_cmp (fst a) (fst b) = Less) rows" "\<forall>i. tree_find ?T i = Some (Inr (row_in i rows))"
      "\<forall>start. index_entries ?T start = Some (Inr (from_bound start rows))"
    using scan_reads_table [OF _ demo_run] by auto
  have "tree_find ?T (IntId 5) = Some (Inr (Some (demo_tuple (IntId 5))))"
    unfolding tree_find_def
    by (subst route_to_leaf_id.simps) (simp add: demo_state_def demo_leaf_def get_page_def ok_or_def route_step_def row_at_def find_entry_def)
  then show ?thesis using r by auto
qed

end
