(* ===== verification/Btree_Write.thy ===== *)
theory Btree_Write
  imports Btree_Run
begin

text \<open>
  One write from the root to its leaf and back: the descent, the splits on its way and the row's change
  are steps of \<open>Btree_Run\<close>, a write always comes to an end, and what it makes of the tree is what the
  transactional core takes \<^verbatim>\<open>write_version\<close> to do.
\<close>

section \<open>Silent steps\<close>

definition silently :: "btree_cfg \<Rightarrow> tree_state \<Rightarrow> tree_state \<Rightarrow> bool" where
  "silently C = (\<lambda>S S'. tree_step C S Silent S')\<^sup>*\<^sup>*"

lemma silently_refl [simp]: "silently C S S"
  by (simp add: silently_def)

lemma silently_trans [trans]: "silently C S S' \<Longrightarrow> silently C S' S'' \<Longrightarrow> silently C S S''"
  unfolding silently_def by (rule rtranclp_trans)

lemma quiet_step: "tree_step C S Silent S' \<Longrightarrow> silently C S S'"
  unfolding silently_def by (rule r_into_rtranclp)

lemma quiet_run: "silently C S S' \<Longrightarrow> \<exists>n. tree_run C S (replicate n Silent) S'"
  unfolding silently_def
proof (induction rule: rtranclp_induct)
  case base
  show ?case using no_steps [of C S] by (metis replicate_0)
next
  case (step S' S'')
  then obtain n where "tree_run C S (replicate n Silent) S'" by blast
  from one_more [OF this step.hyps(2)] show ?case by (metis replicate_append_same replicate_Suc)
qed

lemma table_events_silent [simp]: "table_events (replicate n Silent) m = Some m"
  by (induction n) simp_all

lemma quiet_contents: "silently C S S' \<Longrightarrow> state_ok L lv S \<Longrightarrow> contents (ts_tree S') = contents (ts_tree S)"
  using quiet_run [of C S S'] run_ok [of C S _ S' L lv] by fastforce

lemma quiet_finite: "silently C S S' \<Longrightarrow> finite (dom (bt_pages (ts_tree S))) \<Longrightarrow> finite (dom (bt_pages (ts_tree S')))"
  unfolding silently_def
proof (induction rule: rtranclp_induct)
  case (step S' S'')
  from step.hyps(2) have "finite (dom (bt_pages (ts_tree S'))) \<Longrightarrow> finite (dom (bt_pages (ts_tree S'')))" by cases auto
  then show ?case using step by blast
qed

lemma step_root: "tree_step C S e S' \<Longrightarrow> bt_root (ts_tree S') = bt_root (ts_tree S)"
  by (cases rule: tree_step.cases) auto

lemma quiet_root: "silently C S S' \<Longrightarrow> bt_root (ts_tree S') = bt_root (ts_tree S)"
  unfolding silently_def by (induction rule: rtranclp_induct) (auto dest: step_root)

section \<open>Between writes\<close>

text \<open>The parent of every page knows where it ends.\<close>

definition tight :: "(nat \<rightharpoonup> dbid option) \<Rightarrow> btree \<Rightarrow> bool" where
  "tight L T = (\<forall>p pg k c. p \<in> dom L \<longrightarrow> bt_pages T p = Some pg \<longrightarrow> ip_inner pg \<longrightarrow> (k, Inner c) \<in> set (ip_entries pg)
     \<longrightarrow> high_of (bt_pages T) c = (if k = MAX_ID then None else Some k))"

definition sized_page :: "btree_cfg \<Rightarrow> index_page \<Rightarrow> bool" where
  "sized_page C pg = (ip_record_size pg = Some (if ip_inner pg then bc_inner_budget C else bc_leaf_budget C)
     \<and> (\<forall>e \<in> set (ip_entries pg). \<not> too_large C e pg))"

definition sized :: "btree_cfg \<Rightarrow> (nat \<rightharpoonup> dbid option) \<Rightarrow> btree \<Rightarrow> bool" where
  "sized C L T = (\<forall>p pg. p \<in> dom L \<longrightarrow> bt_pages T p = Some pg \<longrightarrow> sized_page C pg)"

text \<open>
  What is asked of a tree: pages that hold at least four entries of the leaf's budget, which \<^verbatim>\<open>create\<close> checks,
  and four of the inner pages' budget too, which it does not: \<^verbatim>\<open>create\<close> also makes trees with wider routing
  entries, whose pages \<^verbatim>\<open>count_cap\<close> then bounds by number, and those are left out here. Further, a number for a
  new page that is not in use, and page numbers whose encodings differ by no more than the slack a page
  keeps; a page with room for an entry by the count has it for replacing one.
\<close>

definition roomy :: "btree_cfg \<Rightarrow> bool" where
  "roomy C = (bc_overhead C \<le> FULL_SLACK
     \<and> 4 * (bc_leaf_budget C + FULL_SLACK) \<le> bc_usable C \<and> 4 * (bc_inner_budget C + FULL_SLACK) \<le> bc_usable C
     \<and> (case bc_count_cap C of None \<Rightarrow> True | Some cap \<Rightarrow> 3 \<le> cap))"

definition numbers_pages :: "btree_cfg \<Rightarrow> bool" where
  "numbers_pages C = (\<forall>m. finite (dom m) \<longrightarrow> bc_alloc C m \<notin> dom m \<and> bc_alloc C m \<noteq> 0)"

definition node_slack :: "btree_cfg \<Rightarrow> bool" where
  "node_slack C = ((\<forall>k p q. bc_size C (k, Inner p) \<le> bc_size C (k, Inner q) + FULL_SLACK)
     \<and> (\<forall>e pg. used_data_size C pg + bc_size C e + bc_overhead C \<le> bc_usable C \<longrightarrow> bc_takes C e pg))"

lemma used_one: "sized_page C pg \<Longrightarrow> length (ip_entries pg) < 2
    \<Longrightarrow> used_data_size C pg \<le> (if ip_inner pg then bc_inner_budget C else bc_leaf_budget C) + bc_overhead C"
  by (cases "ip_entries pg"; cases "tl (ip_entries pg)") (auto simp: sized_page_def used_data_size_def too_large_def split: if_splits)

text \<open>So a full page has entries to divide.\<close>

lemma full_two:
  assumes "roomy C" "sized_page C pg" "ip_leaf pg = (\<not> ip_inner pg)" "is_full_for C room pg"
    and "case room of Some r \<Rightarrow> r \<le> bc_leaf_budget C + FULL_SLACK | None \<Rightarrow> True"
  shows "2 \<le> length (ip_entries pg)"
proof (rule ccontr)
  assume "\<not> 2 \<le> length (ip_entries pg)"
  then have one: "length (ip_entries pg) < 2" by simp
  note used = used_one [OF assms(2) one]
  have rs: "ip_record_size pg = Some (if ip_inner pg then bc_inner_budget C else bc_leaf_budget C)" using assms(2) by (simp add: sized_page_def)
  show False
  proof (cases "ip_inner pg")
    case True
    then show False using assms(1,3,4) used rs one by (auto simp: roomy_def is_full_for_def split: option.splits)
  next
    case False
    then show False using assms(1,3,4,5) used by (auto simp: roomy_def is_full_for_def split: option.splits)
  qed
qed

section \<open>Down to a child\<close>

lemma successor_less:
  "successor_or_last i es = Some e \<Longrightarrow> \<exists>xs ys. es = xs @ e # ys \<and> (ys \<noteq> [] \<longrightarrow> id_less i (fst e))"
proof (induction es)
  case (Cons a es)
  show ?case
  proof (cases "id_le (fst a) i \<and> es \<noteq> []")
    case True
    then obtain xs ys where "es = xs @ e # ys" "ys \<noteq> [] \<longrightarrow> id_less i (fst e)" using Cons by (auto simp: successor_Cons)
    then show ?thesis by (intro exI [of _ "a # xs"] exI [of _ ys]) simp
  next
    case False
    then have "e = a" "es \<noteq> [] \<longrightarrow> id_less i (fst a)" using Cons.prems ids.greater_iff by (auto simp: successor_Cons)
    then show ?thesis by (intro exI [of _ "[]"] exI [of _ es]) simp
  qed
qed (simp add: successor_or_last_def)

lemma inner_successor:
  assumes "page_ok L lv hi n low pg" "ip_inner pg" "from_low low i"
  obtains k c low' where "successor_or_last i (ip_entries pg) = Some (k, Inner c)" "L c = Some low'" "from_low low' i" "Suc (lv c) = n"
proof -
  have "routes L lv hi n low (ip_entries pg)" "ip_entries pg \<noteq> []" using assms(1,2) by (auto simp: page_ok_def inner_ok_def)
  from routes_successor [OF this assms(3)] that show thesis by blast
qed

text \<open>The child a descent goes to covers the id, when the parent knows where the child ends.\<close>

lemma child_range:
  assumes wf: "wf_tree L lv T" and tight: "tight L T" and p: "L p = Some low" "bt_pages T p = Some pg" "ip_inner pg" "to_high (ip_high pg) i"
    and s: "successor_or_last i (ip_entries pg) = Some (k, Inner c)"
  shows "to_high (high_of (bt_pages T) c) i" "high_of (bt_pages T) c = (if k = MAX_ID then None else Some k)"
proof -
  obtain xs ys where e: "ip_entries pg = xs @ (k, Inner c) # ys" "ys \<noteq> [] \<longrightarrow> id_less i k" using successor_less [OF s] by auto
  show hc: "high_of (bt_pages T) c = (if k = MAX_ID then None else Some k)"
    using tight p(1-3) e(1) unfolding tight_def by (metis domI in_set_conv_decomp)
  have last: "fst (last (ip_entries pg)) = (case ip_high pg of None \<Rightarrow> MAX_ID | Some h \<Rightarrow> h)"
    using wf_page [OF wf p(1)] p(2,3) by (auto simp: page_ok_def inner_ok_def)
  show "to_high (high_of (bt_pages T) c) i"
  proof (cases ys)
    case Nil
    then show ?thesis using last p(4) e(1) by (auto simp: hc to_high_def split: option.splits)
  qed (use e(2) hc in \<open>simp add: to_high_def\<close>)
qed

lemma stays: "to_high (ip_high pg) i \<Longrightarrow> \<not> (case ip_high pg of Some h \<Rightarrow> id_le h i \<and> ip_next pg \<noteq> 0 | None \<Rightarrow> False)"
  using ids.greater_iff by (auto simp: to_high_def split: option.splits)

lemma route_step_down:
  assumes "to_high (ip_high pg) i" "ip_inner pg" "successor_or_last i (ip_entries pg) = Some (k, Inner c)"
  shows "route_step i pg = Go c"
  using stays [OF assms(1)] assms(2,3) by (simp add: route_step_def)

lemma route_step_leaf: "to_high (ip_high pg) i \<Longrightarrow> \<not> ip_inner pg \<Longrightarrow> route_step i pg = Arrived"
  using stays [of pg i] by (simp add: route_step_def)

section \<open>A split as steps\<close>

text \<open>A new page, allocated and filled.\<close>

lemma new_page_quiet:
  assumes ok: "state_ok L lv S" and n: "bt_pages (ts_tree S) n = None" "n \<noteq> 0"
    and S1_def: "S1 = S\<lparr>ts_tree := write_page n pg (ts_tree S), ts_fresh := insert n (ts_fresh S)\<rparr>"
  shows "silently C S S1" "state_ok L lv S1"
proof -
  show "silently C S S1" unfolding S1_def by (rule quiet_step) (rule allocate [OF n])
  have "n \<notin> dom L" using state_okD(2) [OF ok] n(1) by auto
  then show "state_ok L lv S1" using unlinked_write [OF ok _ n(2), of S1 pg] by (simp add: S1_def)
qed

lemma fill_quiet:
  assumes ok: "state_ok L lv S" and n: "n \<in> ts_fresh S"
  shows "silently C S (S\<lparr>ts_tree := write_page n pg (ts_tree S)\<rparr>)" "state_ok L lv (S\<lparr>ts_tree := write_page n pg (ts_tree S)\<rparr>)"
proof -
  show "silently C S (S\<lparr>ts_tree := write_page n pg (ts_tree S)\<rparr>)" by (rule quiet_step) (rule prepare [OF n])
  have "n \<notin> dom L" "n \<noteq> 0" using state_okD(3,4) [OF ok] n by auto
  then show "state_ok L lv (S\<lparr>ts_tree := write_page n pg (ts_tree S)\<rparr>)" using unlinked_write [OF ok, of n _ pg] n by (simp add: insert_absorb)
qed

lemma write_page_twice [simp]: "write_page n a (write_page n b T) = write_page n a T"
  by (simp add: write_page_def)

lemma alloc_fresh: "numbers_pages C \<Longrightarrow> finite (dom (bt_pages T)) \<Longrightarrow> bt_pages T (bc_alloc C (bt_pages T)) = None \<and> bc_alloc C (bt_pages T) \<noteq> 0"
  unfolding numbers_pages_def by blast

lemma split_entries_total:
  assumes "2 \<le> length (ip_entries pg)"
  obtains x where "split_entries C i pg = Inr x"
proof -
  let ?f = "split_point_of (map (bc_size C) (ip_entries pg)) (ip_inner pg) i (\<lambda>i. fst (ip_entries pg ! i))"
  have "ip_entries pg \<noteq> []" "length (ip_entries pg) \<noteq> Suc 0" using assms by auto
  then have "?f \<noteq> None" by (simp add: split_point_of_def Let_def)
  then obtain m where m: "?f = Some m" by blast
  then have "m \<noteq> 0" using split_point_bounds [OF m] assms by simp
  then show thesis using that m by (simp add: split_entries_def Let_def)
qed

text \<open>The split of a page below the root: it ends in an error and an unused page, or in two linked halves.\<close>

lemma split_quiet:
  assumes ok: "state_ok L lv S" and num: "numbers_pages C" "finite (dom (bt_pages (ts_tree S)))"
    and c: "L c = Some low" "bt_pages (ts_tree S) c = Some cpg" "c \<noteq> bt_root (ts_tree S)" "2 \<le> length (ip_entries cpg)"
  shows "(\<exists>e S1 n pg. split_non_root_page C i c cpg (ts_tree S) = (Inl e, ts_tree S1) \<and> silently C S S1 \<and> state_ok L lv S1
        \<and> n \<notin> dom L \<and> ts_tree S1 = write_page n pg (ts_tree S) \<and> ts_walks S1 = ts_walks S)
    \<or> (\<exists>sep n current new S1. split_off C i n cpg = Inr (sep, current, new) \<and> split_non_root_page C i c cpg (ts_tree S) = (Inr (sep, n), ts_tree S1)
        \<and> silently C S S1 \<and> state_ok (L(n \<mapsto> Some sep)) (lv(n := lv c)) S1 \<and> n \<notin> dom L
        \<and> ts_tree S1 = write_page c current (write_page n new (ts_tree S)) \<and> ts_walks S1 = ts_walks S)"
proof -
  obtain parts where parts: "split_entries C i cpg = Inr parts" by (rule split_entries_total [OF c(4)])
  define n where "n = bc_alloc C (bt_pages (ts_tree S))"
  have n: "bt_pages (ts_tree S) n = None" "n \<noteq> 0" unfolding n_def using alloc_fresh [OF num] by blast+
  then have nL: "n \<notin> dom L" "n \<noteq> c" using state_okD(2) [OF ok] c(2) by auto
  define S1 where "S1 = S\<lparr>ts_tree := write_page n (blank_page cpg) (ts_tree S), ts_fresh := insert n (ts_fresh S)\<rparr>"
  have S1: "silently C S S1" "state_ok L lv S1" by (rule new_page_quiet [OF ok n S1_def])+
  show ?thesis
  proof (cases "split_off C i n cpg")
    case (Inl e)
    then have "split_non_root_page C i c cpg (ts_tree S) = (Inl e, ts_tree S1)"
      by (simp add: split_non_root_page_def parts alloc_sibling_index_page_def Let_def S1_def n_def)
    then show ?thesis using S1 nL by (intro disjI1 exI [of _ e] exI [of _ S1] exI [of _ n] exI [of _ "blank_page cpg"]) (simp add: S1_def)
  next
    case (Inr x)
    then obtain sep current new where so: "split_off C i n cpg = Inr (sep, current, new)" by (cases x) auto
    define S2 where "S2 = S1\<lparr>ts_tree := write_page n new (ts_tree S1)\<rparr>"
    have "n \<in> ts_fresh S1" by (simp add: S1_def)
    then have S2: "silently C S1 S2" "state_ok L lv S2" unfolding S2_def by (rule fill_quiet [OF S1(2)])+
    define S3 where "S3 = S2\<lparr>ts_tree := write_page c current (ts_tree S2), ts_fresh := ts_fresh S2 - {n}\<rparr>"
    have g: "c \<notin> ts_fresh S2" "c \<noteq> bt_root (ts_tree S2)" "bt_pages (ts_tree S2) c = Some cpg" "n \<in> ts_fresh S2" "bt_pages (ts_tree S2) n = Some new"
      using state_okD(3) [OF S2(2)] c nL by (auto simp: S2_def S1_def)
    have "silently C S2 S3" unfolding S3_def by (rule quiet_step) (rule split_page [OF g(1,2,3) c(4) g(4) so g(5)])
    then have q: "silently C S S3" using silently_trans [OF silently_trans [OF S1(1) S2(1)]] by blast
    have "state_ok (L(n \<mapsto> Some sep)) (lv(n := lv c)) S3"
      using split_page_ok [OF S2(2) g(1,2,3) c(4) g(4) so g(5), of S3] by (simp add: S3_def)
    moreover have t: "ts_tree S3 = write_page c current (write_page n new (ts_tree S))" by (simp add: S3_def S2_def S1_def)
    moreover have "split_non_root_page C i c cpg (ts_tree S) = (Inr (sep, n), ts_tree S3)"
      using so by (simp add: split_non_root_page_def parts alloc_sibling_index_page_def Let_def t n_def)
    moreover have "ts_walks S3 = ts_walks S" by (simp add: S3_def S2_def S1_def)
    ultimately show ?thesis using so q nL(1) by blast
  qed
qed

section \<open>Parents that know their children\<close>

lemma routes_child_low:
  "routes L lv hi n low es \<Longrightarrow> (k, Inner c) \<in> set es
     \<Longrightarrow> \<exists>low'. L c = Some low' \<and> Suc (lv c) = n \<and> low_less low' k \<and> (\<forall>l. low = Some l \<longrightarrow> (\<exists>x. low' = Some x \<and> id_le l x))"
proof (induction es arbitrary: low)
  case (Cons e es)
  obtain k' v where e: "e = (k', v)" by (cases e)
  show ?case
  proof (cases "(k, Inner c) = e")
    case True
    then show ?thesis using Cons.prems(1) by (auto simp: e ids.refl)
  next
    case False
    then have "(k, Inner c) \<in> set es" "routes L lv hi n (Some k') es" "low_less low k'" using Cons.prems by (auto simp: e)
    from Cons.IH [OF this(2,1)] this(3) obtain x where x: "L c = Some (Some x)" "Suc (lv c) = n" "low_less (Some x) k" "id_le k' x" by auto
    moreover have "id_le l x" if "low = Some l" for l
      using \<open>low_less low k'\<close> x(4) that ids.less_le_trans [of l k' x] by (auto simp: low_less_def)
    ultimately show ?thesis by auto
  qed
qed simp

lemma linked_routes:
  assumes "wf_tree L lv T" "L p = Some low" "bt_pages T p = Some pg" "ip_inner pg"
  shows "routes L lv (high_of (bt_pages T)) (lv p) low (ip_entries pg)"
    "fst (last (ip_entries pg)) = (case ip_high pg of None \<Rightarrow> MAX_ID | Some h \<Rightarrow> h)"
  using wf_page [OF assms(1,2)] assms(3,4) by (auto simp: page_ok_def inner_ok_def)

lemma key_to_high:
  assumes "wf_tree L lv T" "L p = Some low" "bt_pages T p = Some pg" "ip_inner pg" "(k, v) \<in> set (ip_entries pg)" "ip_high pg = Some h"
  shows "id_le k h"
proof -
  obtain xs ys where e: "ip_entries pg = xs @ (k, v) # ys" using split_list [OF assms(5)] by blast
  show ?thesis
  proof (cases "ys = []")
    case True
    then show ?thesis using linked_routes(2) [OF assms(1-4)] assms(6) e by (simp add: ids.refl)
  next
    case False
    then have "id_less k (fst (last ys))"
      using routes_sorted [OF linked_routes(1) [OF assms(1-4)]] last_in_set [OF False] by (auto simp: e sorted_wrt_append)
    then show ?thesis using linked_routes(2) [OF assms(1-4)] assms(6) e False by simp
  qed
qed

text \<open>A page has one entry in one parent.\<close>

lemma parent_unique:
  assumes wf: "wf_tree L lv T" and p: "L p = Some lp" "bt_pages T p = Some pp" "ip_inner pp" "(k, Inner c) \<in> set (ip_entries pp)"
    and q: "L q = Some lq" "bt_pages T q = Some pq" "ip_inner pq" "(k', Inner c) \<in> set (ip_entries pq)"
  shows "p = q"
proof (rule ccontr)
  assume pq: "p \<noteq> q"
  have no: False if h: "high_low (high_of (bt_pages T) a) (the (L b))"
    and a: "L a = Some la" "bt_pages T a = Some pa" "ip_inner pa" "(ka, Inner c) \<in> set (ip_entries pa)"
    and b: "L b = Some lb" "bt_pages T b = Some pb" "ip_inner pb" "(kb, Inner c) \<in> set (ip_entries pb)" for a b la lb pa pb ka kb
  proof -
    obtain ha l where hl: "ip_high pa = Some ha" "lb = Some l" "id_le ha l" using h a(2) b(1) by (auto simp: high_low_def high_of_def split: option.splits)
    obtain x where x: "L c = Some (Some x)" "id_le l x" using routes_child_low [OF linked_routes(1) [OF wf b(1-3)] b(4)] hl(2) by auto
    have "low_less (Some x) ka" using routes_child_low [OF linked_routes(1) [OF wf a(1-3)] a(4)] x(1) by auto
    then have "id_less x ka" by (simp add: low_less_def)
    moreover have "id_le ka ha" using key_to_high [OF wf a hl(1)] .
    ultimately have "id_less x l" using ids.less_le_trans hl(3) by metis
    then show False using x(2) ids.greater_iff by metis
  qed
  have "lv p = lv q" using routes_child_low [OF linked_routes(1) [OF wf p(1-3)] p(4)] routes_child_low [OF linked_routes(1) [OF wf q(1-3)] q(4)] by auto
  then have "pages_apart L (high_of (bt_pages T)) p q" using wf_treeD(6) [OF wf] p(1) q(1) pq by blast
  then show False using no [OF _ p q] no [OF _ q p] by (auto simp: pages_apart_def)
qed

lemma entry_unique:
  assumes wf: "wf_tree L lv T" and p: "L p = Some low" "bt_pages T p = Some pg" "ip_inner pg" "ip_entries pg = xs @ (k, Inner c) # ys"
  shows "(k', Inner c) \<notin> set xs" "(k', Inner c) \<notin> set ys"
proof -
  note r = linked_routes(1) [OF wf p(1-3), unfolded p(4)]
  have no: False if "routes L lv hi n l (us @ (a, Inner c) # vs)" "(b, Inner c) \<in> set vs" for hi n l us vs a b
  proof -
    have "routes L lv hi n (Some a) vs" using that(1) by (auto simp: routes_append)
    from routes_child_low [OF this that(2)] obtain x where x: "L c = Some (Some x)" "id_le a x" by auto
    have "low_less (Some x) a" using routes_child_low [OF that(1), of a c] x(1) by auto
    then show False using x(2) ids.greater_iff by (auto simp: low_less_def)
  qed
  show "(k', Inner c) \<notin> set ys" using no [OF r] by blast
  show "(k', Inner c) \<notin> set xs"
  proof
    assume "(k', Inner c) \<in> set xs"
    then obtain us vs where "xs = us @ (k', Inner c) # vs" by (meson split_list)
    then show False using no [of _ _ _ us k' "vs @ (k, Inner c) # ys" k] r by auto
  qed
qed

lemma tight_entry:
  "tight L T \<Longrightarrow> L p = Some low \<Longrightarrow> bt_pages T p = Some pg \<Longrightarrow> ip_inner pg \<Longrightarrow> (k, Inner c) \<in> set (ip_entries pg)
     \<Longrightarrow> high_of (bt_pages T) c = (if k = MAX_ID then None else Some k)"
  unfolding tight_def by blast

lemma split_off_entries:
  assumes "split_off C i n pg = Inr (sep, current, new)"
  shows "set (ip_entries current) \<subseteq> set (ip_entries pg)" "set (ip_entries new) \<subseteq> set (ip_entries pg)"
    "ip_inner current = ip_inner pg" "ip_inner new = ip_inner pg" "ip_high current = Some sep" "ip_high new = ip_high pg" "ip_next current = n"
    "ip_record_size current = ip_record_size pg" "ip_record_size new = ip_record_size pg"
proof -
  obtain xs ys where p: "split_entries C i pg = Inr (sep, xs, ys)" "current = pg\<lparr>ip_next := n, ip_high := Some sep, ip_entries := xs\<rparr>"
    "new = (sibling_page pg)\<lparr>ip_next := ip_next pg, ip_high := ip_high pg, ip_entries := ys\<rparr>" by (rule split_off_parts [OF assms])
  have "set xs \<subseteq> set (ip_entries pg)" "set ys \<subseteq> set (ip_entries pg)"
    using p(1) by (auto simp: split_entries_def Let_def split: option.splits if_splits dest: in_set_takeD in_set_dropD)
  then show "set (ip_entries current) \<subseteq> set (ip_entries pg)" "set (ip_entries new) \<subseteq> set (ip_entries pg)"
    "ip_inner current = ip_inner pg" "ip_inner new = ip_inner pg" "ip_high current = Some sep" "ip_high new = ip_high pg" "ip_next current = n"
    "ip_record_size current = ip_record_size pg" "ip_record_size new = ip_record_size pg"
    by (simp_all add: p sibling_page_def)
qed

lemma not_max: "id_less sep k \<Longrightarrow> sep \<noteq> MAX_ID"
  using below_max ids.greater_iff by metis

lemma tight_split:
  assumes wf: "wf_tree L lv T" and tight: "tight L T"
    and p: "L p = Some low" "bt_pages T p = Some pg" "ip_inner pg" "ip_entries pg = xs @ (k, Inner c) # ys"
    and c: "bt_pages T c = Some cpg" "n \<notin> dom L" "split_off C i n cpg = Inr (sep, current, new)" "id_less sep k"
    and pg': "pg' = pg\<lparr>ip_entries := xs @ (sep, Inner c) # (k, Inner n) # ys\<rparr>"
  shows "tight (L(n \<mapsto> Some sep)) (write_page p pg' (write_page c current (write_page n new T)))" (is "tight ?L ?T")
proof -
  note so = split_off_entries [OF c(3)]
  let ?hi = "high_of (bt_pages T)" and ?hi' = "high_of (bt_pages ?T)"
  have mem: "(k, Inner c) \<in> set (ip_entries pg)" by (simp add: p(4))
  obtain lc where lc: "L c = Some lc" "Suc (lv c) = lv p" using routes_child_low [OF linked_routes(1) [OF wf p(1-3)] mem] by auto
  have ne: "n \<noteq> p" "n \<noteq> c" "c \<noteq> p" using c(2) p(1) lc by auto
  have hc: "?hi' c = Some sep" "?hi' n = ip_high cpg" "\<And>x. x \<notin> {c, n} \<Longrightarrow> ?hi' x = ?hi x"
    using ne so p(2) by (auto simp: pg' high_of_def)
  have keep: "?hi' d = (if j = MAX_ID then None else Some j)"
    if r: "L r = Some l" "bt_pages T r = Some pr" "ip_inner pr" "(j, Inner d) \<in> set (ip_entries pr)" "d \<noteq> c" for r l pr j d
  proof -
    have "d \<in> dom L" using routes_child_low [OF linked_routes(1) [OF wf r(1-3)] r(4)] by auto
    then have "d \<notin> {c, n}" using r(5) c(2) by auto
    from hc(3) [OF this] show ?thesis using tight_entry [OF tight r(1-4)] by (simp only:)
  qed
  have half: "?hi' d = (if j = MAX_ID then None else Some j)" if "ip_inner cpg" "(j, Inner d) \<in> set (ip_entries cpg)" for j d
  proof -
    have "Suc (lv d) = lv c" using routes_child_low [OF linked_routes(1) [OF wf lc(1) c(1) that(1)] that(2)] by auto
    then show ?thesis using keep [OF lc(1) c(1) that] by auto
  qed
  have parent: "?hi' d = (if j = MAX_ID then None else Some j)" if "(j, Inner d) \<in> set (ip_entries pg')" for j d
  proof -
    consider "j = sep" "d = c" | "j = k" "d = n" | "(j, Inner d) \<in> set xs \<union> set ys" using \<open>(j, Inner d) \<in> _\<close> by (auto simp: pg')
    then show ?thesis
    proof cases
      case 1
      then show ?thesis using hc(1) not_max [OF c(4)] by simp
    next
      case 2
      then show ?thesis using hc(2) tight_entry [OF tight p(1-3) mem] c(1) by (simp add: high_of_def)
    next
      case 3
      then have "d \<noteq> c" using entry_unique [OF wf p] by blast
      then show ?thesis using keep [OF p(1-3), of j d] 3 by (auto simp: p(4))
    qed
  qed
  show ?thesis unfolding tight_def
  proof (intro allI impI)
    fix r pr j d
    assume a: "r \<in> dom ?L" "bt_pages ?T r = Some pr" "ip_inner pr" "(j, Inner d) \<in> set (ip_entries pr)"
    consider "r = p" | "r = c \<or> r = n" | "r \<notin> {p, c, n}" by blast
    then show "?hi' d = (if j = MAX_ID then None else Some j)"
    proof cases
      case 1
      then show ?thesis using a parent by simp
    next
      case 2
      then have "ip_inner cpg" "(j, Inner d) \<in> set (ip_entries cpg)" using a ne so by (auto split: if_splits)
      then show ?thesis by (rule half)
    next
      case 3
      then obtain l where r: "L r = Some l" "bt_pages T r = Some pr" using a(1,2) by auto
      have "d \<noteq> c" using parent_unique [OF wf p(1-3) mem r a(3)] a(4) 3 by blast
      then show ?thesis using keep [OF r a(3,4)] by simp
    qed
  qed
qed

lemma sized_half: "sized_page C pg \<Longrightarrow> split_off C i n pg = Inr (sep, current, new) \<Longrightarrow> sized_page C current \<and> sized_page C new"
  using split_off_entries [of C i n pg sep current new] by (auto simp: sized_page_def too_large_def)

lemma sized_route:
  assumes "sized_page C pg" "route_split C i sep c s pg = Inr q" "successor_or_last i (ip_entries pg) = Some (k, v)"
  shows "sized_page C q"
proof -
  obtain old x where x: "replace_tuple C k (Inner s) pg = Inr (old, x)" "add_tuple C (sep, Inner c) x = Inr q"
    using assms(2) by (auto simp: route_split_def assms(3) r_bind_eq_Inr)
  have "sized_page C x" using x(1) assms(1) by (auto simp: replace_tuple_def sized_page_def too_large_def split: if_splits option.splits)
  then show ?thesis using x(2) by (auto simp: add_tuple_def sized_page_def too_large_def set_put_entry split: if_splits option.splits)
qed

text \<open>A parent that is not full takes a separator.\<close>

lemma route_split_room:
  assumes C: "node_slack C" and pg: "ip_inner pg" "ip_leaf pg = (\<not> ip_inner pg)" "sized_page C pg" "\<not> is_full_for C None pg"
    and srt: "sorted_wrt (\<lambda>a b. id_less (fst a) (fst b)) (ip_entries pg)"
    and s: "successor_or_last i (ip_entries pg) = Some (k, Inner c)"
  shows "route_split C i sep c' n pg \<noteq> Inl PageCapacityError"
proof
  assume full: "route_split C i sep c' n pg = Inl PageCapacityError"
  obtain xs ys where e: "ip_entries pg = xs @ (k, Inner c) # ys" using successor_in [OF s] by blast
  have m: "map (\<lambda>e. if dbid_cmp (fst e) k = Equal then (k, Inner n) else e) (ip_entries pg) = xs @ (k, Inner n) # ys"
    unfolding e by (rule replaced_entry) (use srt e in simp)
  let ?q = "pg\<lparr>ip_entries := xs @ (k, Inner n) # ys\<rparr>"
  have slack: "bc_size C (k, Inner n) \<le> bc_size C (k, Inner c) + FULL_SLACK"
    and takes: "used_data_size C pg + bc_size C (k, Inner n) + bc_overhead C \<le> bc_usable C \<Longrightarrow> bc_takes C (k, Inner n) pg"
    using C unfolding node_slack_def by blast+
  have rs: "ip_record_size pg = Some (bc_inner_budget C)" using pg by (simp add: sized_page_def)
  have room: "used_data_size C pg + bc_inner_budget C + bc_overhead C + FULL_SLACK \<le> bc_usable C"
    using pg rs by (auto simp: is_full_for_def split: option.splits)
  have "\<not> too_large C (k, Inner n) pg" using full by (auto simp: route_split_def s replace_tuple_def)
  then have "bc_takes C (k, Inner n) pg" using room takes by (simp add: too_large_def rs)
  then have a: "add_tuple C (sep, Inner c') ?q = Inl PageCapacityError"
    using full by (auto simp: route_split_def s replace_tuple_def m split: if_splits option.splits sum.splits)
  have "used_data_size C ?q \<le> used_data_size C pg + FULL_SLACK"
    using slack by (simp add: used_data_size_def e)
  moreover have "\<not> too_large C (sep, Inner c') ?q" using a by (auto simp: add_tuple_def split: if_splits)
  then have "bc_size C (sep, Inner c') \<le> bc_inner_budget C" by (simp add: too_large_def rs)
  ultimately have "can_store C (sep, Inner c') ?q" using room by (simp add: can_store_def)
  then show False using a by (auto simp: add_tuple_def split: if_splits)
qed

section \<open>The descent\<close>

definition settled :: "btree_cfg \<Rightarrow> (nat \<rightharpoonup> dbid option) \<Rightarrow> (nat \<Rightarrow> nat) \<Rightarrow> tree_state \<Rightarrow> bool" where
  "settled C L lv S = (state_ok L lv S \<and> tight L (ts_tree S) \<and> sized C L (ts_tree S) \<and> finite (dom (bt_pages (ts_tree S))))"

definition at_leaf :: "btree_cfg \<Rightarrow> tree_state \<Rightarrow> nat \<Rightarrow> dbid \<Rightarrow> nat option \<Rightarrow> nat \<Rightarrow> bool" where
  "at_leaf C S w i room leaf = (ts_walks S w = Some (i, leaf)
     \<and> (\<exists>pg. bt_pages (ts_tree S) leaf = Some pg \<and> route_step i pg = Arrived \<and> \<not> is_full_for C room pg))"

definition descended :: "btree_cfg \<Rightarrow> tree_state \<Rightarrow> nat \<Rightarrow> dbid \<Rightarrow> nat option \<Rightarrow> ((serr + nat) \<times> btree) option \<Rightarrow> bool" where
  "descended C S w i room result = (\<exists>r S'. result = Some (r, ts_tree S') \<and> silently C S S'
     \<and> (r = Inl PageCapacityError \<longrightarrow> (\<exists>L lv. settled C L lv S'))
     \<and> (\<forall>leaf. r = Inr leaf \<longrightarrow> (\<exists>L lv. settled C L lv S') \<and> at_leaf C S' w i room leaf))"

lemma descended_from: "silently C S S1 \<Longrightarrow> descended C S1 w i room r \<Longrightarrow> descended C S w i room r"
  unfolding descended_def using silently_trans by blast

lemma settledD:
  assumes "settled C L lv S"
  shows "state_ok L lv S" "tight L (ts_tree S)" "sized C L (ts_tree S)" "finite (dom (bt_pages (ts_tree S)))" "wf_tree L lv (ts_tree S)"
  using assms by (auto simp: settled_def dest: state_okD)

lemma settled_sized: "settled C L lv S \<Longrightarrow> L p = Some low \<Longrightarrow> bt_pages (ts_tree S) p = Some pg \<Longrightarrow> sized_page C pg"
  unfolding settled_def sized_def by blast

text \<open>Writing an unlinked page, or moving a walk, settles nothing anew.\<close>

lemma settled_unlinked:
  assumes "settled C L lv S" "state_ok L lv S'" "ts_tree S' = write_page n pg (ts_tree S)" "n \<notin> dom L"
  shows "settled C L lv S'"
proof -
  note wf = settledD(5) [OF assms(1)]
  have "tight L (write_page n pg (ts_tree S))" unfolding tight_def
  proof (intro allI impI)
    fix p x k c assume a: "p \<in> dom L" "bt_pages (write_page n pg (ts_tree S)) p = Some x" "ip_inner x" "(k, Inner c) \<in> set (ip_entries x)"
    then obtain low where p: "L p = Some low" "bt_pages (ts_tree S) p = Some x" using assms(4) by (auto split: if_splits)
    have "c \<in> dom L" using routes_child_low [OF linked_routes(1) [OF wf p a(3)] a(4)] by auto
    then have "c \<noteq> n" using assms(4) by blast
    then show "high_of (bt_pages (write_page n pg (ts_tree S))) c = (if k = MAX_ID then None else Some k)"
      using tight_entry [OF settledD(2) [OF assms(1)] p a(3,4)] by simp
  qed
  moreover have "sized C L (write_page n pg (ts_tree S))" using settledD(3) [OF assms(1)] assms(4) by (auto simp: sized_def)
  ultimately show ?thesis using assms settledD(4) [OF assms(1)] by (simp add: settled_def)
qed

lemma move_quiet:
  assumes set: "settled C L lv S" and w: "ts_walks S w = Some (i, p)" "bt_pages (ts_tree S) p = Some pg" "route_step i pg = Go q"
    and S': "S' = S\<lparr>ts_walks := (ts_walks S)(w \<mapsto> (i, q))\<rparr>"
  shows "silently C S S'" "settled C L lv S'"
proof -
  show "silently C S S'" unfolding S' by (rule quiet_step) (rule move_on [OF w(1) _ w(3)], simp add: w(2))
  have "\<exists>low. L q = Some low \<and> from_low low i" by (rule walk_moves [OF settledD(1) [OF set] w])
  then have "state_ok L lv S'" using settledD(1) [OF set] by (auto simp: S' state_ok_def split: if_splits)
  then show "settled C L lv S'" using set by (simp add: settled_def S')
qed

lemma tell_quiet:
  assumes set: "settled C L lv S" and p: "L p = Some low" "bt_pages (ts_tree S) p = Some pg" "ip_inner pg"
    and s: "successor_or_last i (ip_entries pg) = Some (k, Inner c)" and c: "bt_pages (ts_tree S) c = Some cpg"
    and so: "split_off C i n cpg = Inr (sep, current, new)" and n: "n \<notin> dom L"
    and S1: "state_ok (L(n \<mapsto> Some sep)) (lv(n := lv c)) S1" "ts_tree S1 = write_page c current (write_page n new (ts_tree S))"
    and r: "route_split C i sep c n pg = Inr pg'"
  defines "S2 \<equiv> S1\<lparr>ts_tree := write_page p pg' (ts_tree S1)\<rparr>"
  shows "silently C S1 S2" "settled C (L(n \<mapsto> Some sep)) (lv(n := lv c)) S2"
proof -
  let ?L = "L(n \<mapsto> Some sep)" and ?lv = "lv(n := lv c)"
  note wf = settledD(5) [OF set] and wf1 = state_okD(1) [OF S1(1)] and e = split_off_entries [OF so]
  have mem: "(k, Inner c) \<in> set (ip_entries pg)" using successor_in [OF s] by auto
  obtain lc where lc: "L c = Some lc" "Suc (lv c) = lv p" using routes_child_low [OF linked_routes(1) [OF wf p] mem] by auto
  have ne: "n \<noteq> p" "n \<noteq> c" "c \<noteq> p" using n p(1) lc by auto
  have g: "?L p = Some low" "bt_pages (ts_tree S1) p = Some pg" "bt_pages (ts_tree S1) c = Some current"
    using ne p by (simp_all add: S1(2))
  have r': "route_split C i sep c (ip_next current) pg = Inr pg'" using r e(7) by simp
  note wr = wf_route_split [OF wf1 g(1,2) p(3) s g(3) e(5) r']
  have "p \<in> dom ?L" using g(1) by blast
  then have "p \<notin> ts_fresh S1" using state_okD(3) [OF S1(1)] by blast
  then show "silently C S1 S2" unfolding S2_def by (intro quiet_step tell_parent [OF _ g(2) p(3) s g(3) e(5) r'])
  have ok: "state_ok ?L ?lv S2" by (rule same_pages_ok [OF S1(1) wr(1) g(2)]) (simp_all add: S2_def)
  obtain xs ys where xy: "ip_entries pg = xs @ (k, Inner c) # ys" "id_less sep k" "pg' = pg\<lparr>ip_entries := xs @ (sep, Inner c) # (k, Inner n) # ys\<rparr>"
    using wr(3) e(7) by auto
  have "tight ?L (ts_tree S2)" using tight_split [OF wf settledD(2) [OF set] p xy(1) c n so xy(2,3)] by (simp add: S2_def S1(2))
  moreover have "sized C ?L (ts_tree S2)"
  proof -
    have "sized_page C pg'" by (rule sized_route [OF settled_sized [OF set p(1,2)] r s])
    moreover have "sized_page C current" "sized_page C new" using sized_half [OF settled_sized [OF set lc(1) c] so] by simp_all
    ultimately show ?thesis using settledD(3) [OF set] ne by (auto simp: sized_def S2_def S1(2) split: if_splits)
  qed
  ultimately show "settled C ?L ?lv S2" using ok settledD(4) [OF set] by (simp add: settled_def S2_def S1(2))
qed

text \<open>From a page that covers the id, unless it is a leaf that is the root.\<close>

lemma descend_quiet:
  assumes C: "roomy C" "numbers_pages C" "node_slack C" and room: "case room of Some r \<Rightarrow> r \<le> bc_leaf_budget C + FULL_SLACK | None \<Rightarrow> True"
  shows "settled C L lv S \<Longrightarrow> ts_walks S w = Some (i, p) \<Longrightarrow> L p = Some low \<Longrightarrow> from_low low i \<Longrightarrow> bt_pages (ts_tree S) p = Some pg
    \<Longrightarrow> to_high (ip_high pg) i \<Longrightarrow> \<not> (ip_leaf pg \<and> p = bt_root (ts_tree S)) \<Longrightarrow> lv p = m
    \<Longrightarrow> descended C S w i room (descend_for_write C i room p (ts_tree S))"
proof (induction m arbitrary: L lv S p low pg)
  case m: 0
  then have ok: "page_ok L lv (high_of (bt_pages (ts_tree S))) 0 low pg" using wf_page [OF settledD(5) [OF m(1)] m(3)] by auto
  then have leaf: "\<not> ip_inner pg" "ip_leaf pg" by (cases "ip_entries pg"; auto simp: page_ok_def inner_ok_def)+
  have "descend_for_write C i room p (ts_tree S) = Some (if is_full_for C room pg then Inl PageCapacityError else Inr p, ts_tree S)"
    using m leaf by (subst descend_for_write.simps) (simp add: get_page_def ok_or_def)
  then show ?case using m route_step_leaf [OF m(6) leaf(1)] by (auto simp: descended_def at_leaf_def intro!: exI [of _ S])
next
  case m: (Suc m)
  let ?T = "ts_tree S"
  note set = m.prems(1) and wf = settledD(5) [OF m.prems(1)]
  have ok: "page_ok L lv (high_of (bt_pages ?T)) (Suc m) low pg" using wf_page [OF wf m.prems(3)] m.prems by auto
  then have inner: "ip_inner pg" "ip_leaf pg = (\<not> ip_inner pg)" "ip_entries pg \<noteq> []" by (auto simp: page_ok_def inner_ok_def split: if_splits)
  obtain k c lc where s: "successor_or_last i (ip_entries pg) = Some (k, Inner c)" "L c = Some lc" "from_low lc i" "Suc (lv c) = Suc m"
    using inner_successor [OF ok inner(1) m.prems(4)] by blast
  obtain cpg where c: "bt_pages ?T c = Some cpg" "page_ok L lv (high_of (bt_pages ?T)) (lv c) lc cpg" using wf_page [OF wf s(2)] by blast
  have high: "to_high (ip_high cpg) i" using child_range(1) [OF wf settledD(2) [OF set] m.prems(3,5) inner(1) m.prems(6) s(1)] c(1) by (simp add: high_of_def)
  have "p \<in> dom L" using m.prems(3) by blast
  then have croot: "c \<noteq> bt_root ?T" using wf_treeD(5) [OF wf, of p] m.prems(8) s(4) by auto
  define S0 where "S0 = S\<lparr>ts_walks := (ts_walks S)(w \<mapsto> (i, c))\<rparr>"
  have S0: "silently C S S0" "settled C L lv S0"
    using move_quiet [OF set m.prems(2,5) route_step_down [OF m.prems(6) inner(1) s(1)] S0_def] .
  have T0: "ts_tree S0 = ?T" "ts_walks S0 w = Some (i, c)" by (simp_all add: S0_def)
  note gets = m.prems(5) c(1) and [simp] = get_page_def ok_or_def
  show ?case
  proof (cases "is_full_for C None pg")
    case True
    then have "descend_for_write C i room p ?T = Some (Inl PageCapacityError, ?T)"
      using inner gets by (subst descend_for_write.simps) simp
    then show ?thesis using set by (auto simp: descended_def intro!: exI [of _ S])
  next
    case room_here: False
    show ?thesis
    proof (cases "is_full_for C room cpg")
      case False
      then have "descend_for_write C i room p ?T = descend_for_write C i room c ?T"
        using inner gets s(1) room_here by (subst descend_for_write.simps) (simp add: split_if_needed_def)
      moreover have "descended C S0 w i room (descend_for_write C i room c (ts_tree S0))"
        by (rule m.IH [OF S0(2) T0(2) s(2,3)]) (use c(1) high croot s(4) T0(1) in auto)
      ultimately show ?thesis using descended_from [OF S0(1)] T0(1) by simp
    next
      case True
      have "2 \<le> length (ip_entries cpg)"
        by (rule full_two [OF C(1) settled_sized [OF set s(2) c(1)] _ True room]) (use c(2) in \<open>simp add: page_ok_def\<close>)
      note split = split_quiet [OF settledD(1) [OF S0(2)] C(2) settledD(4) [OF S0(2)] s(2) c(1) [folded T0(1)] croot [folded T0(1)] this, of i, unfolded T0(1)]
      have desc: "descend_for_write C i room p ?T = (case split_non_root_page C i c cpg ?T of
          (Inl e, T') \<Rightarrow> Some (Inl e, T')
        | (Inr (sep, n), T') \<Rightarrow> (case route_split C i sep c n pg of Inl e \<Rightarrow> Some (Inl e, T')
            | Inr pg' \<Rightarrow> descend_for_write C i room (if id_less i sep then c else n) (write_page p pg' T')))"
        using inner gets s(1) room_here True croot by (subst descend_for_write.simps) (simp add: split_if_needed_def split: sum.splits prod.splits)
      from split show ?thesis
      proof (elim disjE exE conjE)
        fix e S1 n x assume a: "split_non_root_page C i c cpg ?T = (Inl e, ts_tree S1)" "silently C S0 S1" "state_ok L lv S1" "n \<notin> dom L" "ts_tree S1 = write_page n x ?T"
        have "settled C L lv S1" by (rule settled_unlinked [OF set a(3,5,4)])
        then show ?thesis using a(1) silently_trans [OF S0(1) a(2)] by (auto simp: desc descended_def)
      next
        fix sep n current new S1
        assume a: "split_off C i n cpg = Inr (sep, current, new)" "split_non_root_page C i c cpg ?T = (Inr (sep, n), ts_tree S1)" "silently C S0 S1"
          "state_ok (L(n \<mapsto> Some sep)) (lv(n := lv c)) S1" "n \<notin> dom L" "ts_tree S1 = write_page c current (write_page n new ?T)" "ts_walks S1 = ts_walks S0"
        show ?thesis
        proof (cases "route_split C i sep c n pg")
          case (Inl e)
          have "e \<noteq> PageCapacityError"
            using route_split_room [OF C(3) inner(1,2) settled_sized [OF set m.prems(3,5)] room_here routes_sorted [OF linked_routes(1) [OF wf m.prems(3,5) inner(1)]] s(1)] Inl by blast
          then show ?thesis using Inl a(2) silently_trans [OF S0(1) a(3)] by (auto simp: desc descended_def)
        next
          case (Inr pg')
          define S2 where "S2 = S1\<lparr>ts_tree := write_page p pg' (ts_tree S1)\<rparr>"
          have S2: "silently C S1 S2" "settled C (L(n \<mapsto> Some sep)) (lv(n := lv c)) S2" unfolding S2_def
            by (rule tell_quiet [OF set m.prems(3,5) inner(1) s(1) c(1) a(1,5,4,6) Inr])+
          have q2: "silently C S S2" using silently_trans [OF silently_trans [OF S0(1) a(3)] S2(1)] .
          note e = split_off_entries [OF a(1)]
          have ne: "n \<noteq> c" "n \<noteq> p" "c \<noteq> p" using a(5) s(2,4) m.prems(3,8) by auto
          have root: "bt_root (ts_tree S2) = bt_root ?T" by (simp add: S2_def a(6))
          have nroot: "n \<noteq> bt_root ?T" using a(5) wf_treeD(3) [OF wf] by auto
          have at: "ts_walks S2 w = Some (i, c)" "bt_pages (ts_tree S2) c = Some current" "bt_pages (ts_tree S2) n = Some new"
            using ne by (simp_all add: S2_def a(6,7) T0(2))
          show ?thesis
          proof (cases "id_less i sep")
            case True
            have "descended C S2 w i room (descend_for_write C i room c (ts_tree S2))"
              by (rule m.IH [OF S2(2) at(1) _ s(3) at(2)]) (use s(2,4) ne e(5) True croot root in \<open>auto simp: to_high_def\<close>)
            then show ?thesis using True Inr a(2) descended_from [OF q2] by (simp add: desc S2_def)
          next
            case False
            then have le: "id_le sep i" using ids.not_less by blast
            then have "route_step i current = Go n" using e(5,7) nroot state_okD(4) [OF a(4)] a(5) wf_treeD(2) [OF wf] at settledD(5) [OF S2(2)]
              by (auto simp: route_step_def wf_tree_def)
            define S3 where "S3 = S2\<lparr>ts_walks := (ts_walks S2)(w \<mapsto> (i, n))\<rparr>"
            have S3: "silently C S2 S3" "settled C (L(n \<mapsto> Some sep)) (lv(n := lv c)) S3"
              using move_quiet [OF S2(2) at(1,2) \<open>route_step i current = Go n\<close> S3_def] .
            have "descended C S3 w i room (descend_for_write C i room n (ts_tree S3))"
              by (rule m.IH [OF S3(2), of n "Some sep" new]) (use le at e(6) high nroot root s(4) in \<open>auto simp: S3_def from_low_def\<close>)
            then show ?thesis using False Inr a(2) descended_from [OF silently_trans [OF q2 S3(1)]] by (simp add: desc S3_def S2_def)
          qed
        qed
      qed
    qed
  qed
qed

section \<open>The root\<close>

lemma split_halves_entries:
  assumes "split_halves C i n pg = Inr (sep, left, right)"
  shows "set (ip_entries left) \<subseteq> set (ip_entries pg)" "set (ip_entries right) \<subseteq> set (ip_entries pg)"
    "ip_inner left = ip_inner pg" "ip_inner right = ip_inner pg" "ip_high left = Some sep" "ip_high right = ip_high pg"
    "ip_record_size left = ip_record_size pg" "ip_record_size right = ip_record_size pg"
proof -
  obtain xs ys where p: "split_entries C i pg = Inr (sep, xs, ys)" "left = (sibling_page pg)\<lparr>ip_next := n, ip_high := Some sep, ip_entries := xs\<rparr>"
    "right = (sibling_page pg)\<lparr>ip_next := ip_next pg, ip_high := ip_high pg, ip_entries := ys\<rparr>" by (rule split_halves_parts [OF assms])
  have "set xs \<subseteq> set (ip_entries pg)" "set ys \<subseteq> set (ip_entries pg)"
    using p(1) by (auto simp: split_entries_def Let_def split: option.splits if_splits dest: in_set_takeD in_set_dropD)
  then show "set (ip_entries left) \<subseteq> set (ip_entries pg)" "set (ip_entries right) \<subseteq> set (ip_entries pg)"
    "ip_inner left = ip_inner pg" "ip_inner right = ip_inner pg" "ip_high left = Some sep" "ip_high right = ip_high pg"
    "ip_record_size left = ip_record_size pg" "ip_record_size right = ip_record_size pg"
    by (simp_all add: p sibling_page_def)
qed

lemma new_root_sized:
  assumes "new_root C sep a b pg = Inr q"
  shows "sized_page C q"
proof -
  obtain x where x: "add_tuple C (sep, Inner a) (pg\<lparr>ip_leaf := False, ip_inner := True, ip_entries := [], ip_record_size := Some (bc_inner_budget C)\<rparr>) = Inr x"
      "add_tuple C (MAX_ID, Inner b) x = Inr q" using assms by (auto simp: new_root_def r_bind_eq_Inr)
  have "sized_page C x" using x(1) by (auto simp: add_tuple_def sized_page_def too_large_def set_put_entry split: if_splits)
  then show ?thesis using x(2) by (auto simp: add_tuple_def sized_page_def too_large_def set_put_entry split: if_splits)
qed

lemma settled_root:
  assumes set: "settled C L lv S" and r: "bt_root (ts_tree S) = r" "bt_pages (ts_tree S) r = Some pg" and n: "a \<notin> dom L" "b \<notin> dom L" "a \<noteq> b"
    and sp: "split_halves C i b pg = Inr (sep, left, right)" "new_root C sep a b pg = Inr q"
    and S': "state_ok (L(a \<mapsto> None, b \<mapsto> Some sep)) lv' S'" "ts_tree S' = write_page r q (write_page b right (write_page a left (ts_tree S)))"
  shows "settled C (L(a \<mapsto> None, b \<mapsto> Some sep)) lv' S'"
proof -
  let ?L = "L(a \<mapsto> None, b \<mapsto> Some sep)" and ?hi = "high_of (bt_pages (ts_tree S))" and ?hi' = "high_of (bt_pages (ts_tree S'))"
  note wf = settledD(5) [OF set] and e = split_halves_entries [OF sp(1)] and q = new_root_spec [OF sp(2)]
  have Lr: "L r = Some None" and hr: "ip_high pg = None" using wf_treeD(3,4) [OF wf] r by (simp_all add: high_of_def)
  have ne: "a \<noteq> r" "b \<noteq> r" using n Lr by auto
  have hi: "?hi' a = Some sep" "?hi' b = None" "\<And>x. x \<notin> {a, b} \<Longrightarrow> ?hi' x = ?hi x"
    using ne n(3) e hr r(2) by (auto simp: S'(2) q(2) high_of_def)
  have keep: "?hi' d = (if j = MAX_ID then None else Some j)"
    if p: "L p = Some l" "bt_pages (ts_tree S) p = Some pp" "ip_inner pp" "(j, Inner d) \<in> set (ip_entries pp)" for p l pp j d
  proof -
    have "d \<in> dom L" using routes_child_low [OF linked_routes(1) [OF wf p(1-3)] p(4)] by auto
    then have "d \<notin> {a, b}" using n by auto
    from hi(3) [OF this] show ?thesis using tight_entry [OF settledD(2) [OF set] p] by (simp only:)
  qed
  have "tight ?L (ts_tree S')" unfolding tight_def
  proof (intro allI impI)
    fix p pp j d assume x: "p \<in> dom ?L" "bt_pages (ts_tree S') p = Some pp" "ip_inner pp" "(j, Inner d) \<in> set (ip_entries pp)"
    consider "p = r" | "p = a \<or> p = b" | "p \<notin> {a, b, r}" by blast
    then show "?hi' d = (if j = MAX_ID then None else Some j)"
    proof cases
      case 1
      then have "(j = sep \<and> d = a) \<or> (j = MAX_ID \<and> d = b)" using x by (auto simp: S'(2) q(2))
      then show ?thesis using hi(1,2) not_max [OF q(1)] by auto
    next
      case 2
      then have "ip_inner pg" "(j, Inner d) \<in> set (ip_entries pg)" using x ne n(3) e by (auto simp: S'(2) split: if_splits)
      then show ?thesis by (rule keep [OF Lr r(2)])
    next
      case 3
      then obtain l where "L p = Some l" "bt_pages (ts_tree S) p = Some pp" using x(1,2) by (auto simp: S'(2))
      then show ?thesis using x(3,4) by (rule keep)
    qed
  qed
  moreover have "sized C ?L (ts_tree S')"
  proof -
    have "sized_page C pg" by (rule settled_sized [OF set Lr r(2)])
    then have "sized_page C left" "sized_page C right" "sized_page C q" using e new_root_sized [OF sp(2)] by (auto simp: sized_page_def too_large_def)
    then show ?thesis using settledD(3) [OF set] by (auto simp: sized_def S'(2) split: if_splits)
  qed
  ultimately show ?thesis using S' settledD(4) [OF set] by (simp add: settled_def)
qed

lemma split_root_quiet:
  assumes set: "settled C L lv S" and num: "numbers_pages C" and r: "bt_root (ts_tree S) = r" "bt_pages (ts_tree S) r = Some pg"
    and full: "is_full_for C room pg" "2 \<le> length (ip_entries pg)"
  shows "\<exists>x S' L' lv'. split_root_page C i room pg (ts_tree S) = (x, ts_tree S') \<and> silently C S S' \<and> settled C L' lv' S' \<and> ts_walks S' = ts_walks S
    \<and> (x = Inr () \<longrightarrow> (\<exists>q. bt_pages (ts_tree S') r = Some q \<and> ip_inner q))"
proof -
  let ?T = "ts_tree S"
  note ok = settledD(1) [OF set]
  obtain parts where parts: "split_entries C i pg = Inr parts" by (rule split_entries_total [OF full(2)])
  define a where "a = bc_alloc C (bt_pages ?T)"
  have a: "bt_pages ?T a = None" "a \<noteq> 0" unfolding a_def using alloc_fresh [OF num settledD(4) [OF set]] by blast+
  then have aL: "a \<notin> dom L" using state_okD(2) [OF ok] by auto
  define S1 where "S1 = S\<lparr>ts_tree := write_page a (blank_page pg) ?T, ts_fresh := insert a (ts_fresh S)\<rparr>"
  have S1: "silently C S S1" "state_ok L lv S1" by (rule new_page_quiet [OF ok a S1_def])+
  then have set1: "settled C L lv S1" using settled_unlinked [OF set S1(2), of a "blank_page pg"] aL by (simp add: S1_def)
  define b where "b = bc_alloc C (bt_pages (ts_tree S1))"
  have b: "bt_pages (ts_tree S1) b = None" "b \<noteq> 0" unfolding b_def using alloc_fresh [OF num settledD(4) [OF set1]] by blast+
  have "b \<notin> dom L \<union> ts_fresh S1" using state_okD(2) [OF S1(2)] b(1) by blast
  then have bL: "b \<notin> dom L" "b \<noteq> a" by (auto simp: S1_def)
  define S2 where "S2 = S1\<lparr>ts_tree := write_page b (blank_page pg) (ts_tree S1), ts_fresh := insert b (ts_fresh S1)\<rparr>"
  have S2: "silently C S1 S2" "state_ok L lv S2" by (rule new_page_quiet [OF S1(2) b S2_def])+
  then have set2: "settled C L lv S2" using settled_unlinked [OF set1 S2(2), of b "blank_page pg"] bL by (simp add: S2_def)
  have q2: "silently C S S2" using silently_trans [OF S1(1) S2(1)] .
  have alloc: "alloc_sibling_index_page C pg ?T = (a, ts_tree S1)" "alloc_sibling_index_page C pg (ts_tree S1) = (b, ts_tree S2)"
    by (simp_all add: alloc_sibling_index_page_def Let_def a_def b_def S1_def S2_def)
  show ?thesis
  proof (cases "split_halves C i b pg")
    case (Inl e)
    then have "split_root_page C i room pg ?T = (Inl e, ts_tree S2)" using full(1) by (simp add: split_root_page_def parts alloc)
    moreover have "ts_walks S2 = ts_walks S" by (simp add: S2_def S1_def)
    ultimately show ?thesis using q2 set2 by blast
  next
    case (Inr h)
    then obtain sep left right where h: "split_halves C i b pg = Inr (sep, left, right)" by (cases h) auto
    define S3 where "S3 = S2\<lparr>ts_tree := write_page a left (ts_tree S2)\<rparr>"
    have "a \<in> ts_fresh S2" by (simp add: S2_def S1_def)
    then have S3: "silently C S2 S3" "state_ok L lv S3" unfolding S3_def by (rule fill_quiet [OF S2(2)])+
    define S4 where "S4 = S3\<lparr>ts_tree := write_page b right (ts_tree S3)\<rparr>"
    have "b \<in> ts_fresh S3" by (simp add: S3_def S2_def)
    then have S4: "silently C S3 S4" "state_ok L lv S4" unfolding S4_def by (rule fill_quiet [OF S3(2)])+
    have set4: "settled C L lv S4"
      using settled_unlinked [OF settled_unlinked [OF set2 S3(2), of a left] S4(2), of b right] aL bL(1) by (simp add: S4_def S3_def)
    have q4: "silently C S S4" using silently_trans [OF silently_trans [OF q2 S3(1)] S4(1)] .
    have T4: "ts_tree S4 = write_page b right (write_page a left (ts_tree S2))" "ts_walks S4 = ts_walks S" by (simp_all add: S4_def S3_def S2_def S1_def)
    show ?thesis
    proof (cases "new_root C sep a b pg")
      case (Inl e)
      then have "split_root_page C i room pg ?T = (Inl e, ts_tree S4)" using full(1) by (simp add: split_root_page_def parts alloc h T4)
      then show ?thesis using q4 set4 T4(2) by blast
    next
      case (Inr q)
      have Lr: "L r = Some None" using wf_treeD(3) [OF settledD(5) [OF set]] r(1) by simp
      then have ne: "a \<noteq> r" "b \<noteq> r" using aL bL(1) by auto
      define S5 where "S5 = S4\<lparr>ts_tree := write_page (bt_root (ts_tree S4)) q (ts_tree S4), ts_fresh := ts_fresh S4 - {a, b}\<rparr>"
      have root: "bt_root (ts_tree S4) = r" using r(1) by (simp add: T4 S2_def S1_def)
      have g: "bt_pages (ts_tree S4) (bt_root (ts_tree S4)) = Some pg" "a \<in> ts_fresh S4" "b \<in> ts_fresh S4" "a \<noteq> b"
        "bt_pages (ts_tree S4) a = Some left" "bt_pages (ts_tree S4) b = Some right"
        using ne bL(2) r(2) root by (auto simp: S4_def S3_def S2_def S1_def)
      have "silently C S4 S5" unfolding S5_def by (rule quiet_step) (rule split_root [OF g(1) full(2) g(2,3,4) h g(5,6) Inr])
      moreover have ok5: "state_ok (L(a \<mapsto> None, b \<mapsto> Some sep)) (lv(a := lv r, b := lv r, r := Suc (lv r))) S5"
        using split_root_ok [OF S4(2) g(1) full(2) g(2,3,4) h g(5,6) Inr, of S5] by (simp add: S5_def root)
      moreover have "ts_tree S5 = write_page r q (write_page b right (write_page a left ?T))"
        using bL(2) by (simp add: S5_def T4 S2_def S1_def r(1) write_page_def fun_upd_twist)
      then have "settled C (L(a \<mapsto> None, b \<mapsto> Some sep)) (lv(a := lv r, b := lv r, r := Suc (lv r))) S5"
        by (rule settled_root [OF set r aL bL(1) g(4) h Inr ok5])
      moreover have "ts_tree S5 = write_page r q (ts_tree S4)" by (simp add: S5_def root)
      then have "split_root_page C i room pg ?T = (Inr (), ts_tree S5)"
        using full(1) by (simp add: split_root_page_def parts alloc h T4 Inr r(1))
      moreover have "bt_pages (ts_tree S5) r = Some q" "ip_inner q" "ts_walks S5 = ts_walks S"
        using new_root_spec(2) [OF Inr] root T4(2) by (simp_all add: S5_def)
      ultimately show ?thesis using silently_trans [OF q4] by blast
    qed
  qed
qed

lemma restart_quiet:
  assumes set: "settled C L lv S"
  shows "\<exists>S'. silently C S S' \<and> settled C L lv S' \<and> ts_tree S' = ts_tree S \<and> ts_walks S' w = Some (i, bt_root (ts_tree S))"
proof -
  define S1 where "S1 = S\<lparr>ts_walks := (ts_walks S)(w := None)\<rparr>"
  define S2 where "S2 = S1\<lparr>ts_walks := (ts_walks S1)(w \<mapsto> (i, bt_root (ts_tree S1)))\<rparr>"
  have "silently C S S1" unfolding S1_def by (rule quiet_step) (rule give_up)
  moreover have "ts_walks S1 w = None" by (simp add: S1_def)
  then have "silently C S1 S2" unfolding S2_def by (intro quiet_step begin_walk)
  moreover have "state_ok L lv S2"
    using settledD(1) [OF set] wf_treeD(3) [OF settledD(5) [OF set]] by (auto simp: S2_def S1_def state_ok_def from_low_def split: if_splits)
  then have "settled C L lv S2" using set by (simp add: settled_def S2_def S1_def)
  ultimately show ?thesis using silently_trans by (intro exI [of _ S2]) (auto simp: S2_def S1_def)
qed

lemma root_page:
  assumes "settled C L lv S"
  obtains pg where "bt_pages (ts_tree S) (bt_root (ts_tree S)) = Some pg" "L (bt_root (ts_tree S)) = Some None"
    "page_ok L lv (high_of (bt_pages (ts_tree S))) (lv (bt_root (ts_tree S))) None pg" "ip_high pg = None" "sized_page C pg"
proof -
  note wf = settledD(5) [OF assms]
  obtain pg where "bt_pages (ts_tree S) (bt_root (ts_tree S)) = Some pg" "page_ok L lv (high_of (bt_pages (ts_tree S))) (lv (bt_root (ts_tree S))) None pg"
    by (rule wf_page [OF wf wf_treeD(3) [OF wf]])
  then show thesis using that wf_treeD(3,4) [OF wf] settled_sized [OF assms wf_treeD(3) [OF wf]] by (auto simp: high_of_def)
qed

lemma descend_root:
  assumes C: "roomy C" "numbers_pages C" "node_slack C" and room: "case room of Some r \<Rightarrow> r \<le> bc_leaf_budget C + FULL_SLACK | None \<Rightarrow> True"
    and set: "settled C L lv S" and w: "ts_walks S w = Some (i, bt_root (ts_tree S))"
  shows "descended C S w i room (descend_for_write C i room (bt_root (ts_tree S)) (ts_tree S))"
proof -
  let ?T = "ts_tree S" and ?r = "bt_root (ts_tree S)"
  obtain pg where pg: "bt_pages ?T ?r = Some pg" "L ?r = Some None" "page_ok L lv (high_of (bt_pages ?T)) (lv ?r) None pg" "ip_high pg = None" "sized_page C pg"
    by (rule root_page [OF set])
  show ?thesis
  proof (cases "ip_leaf pg")
    case False
    then show ?thesis by (intro descend_quiet [OF C room set w pg(2) _ pg(1) _ _ refl]) (simp_all add: pg(4) from_low_def to_high_def)
  next
    case leaf: True
    then have inner: "\<not> ip_inner pg" "ip_leaf pg = (\<not> ip_inner pg)" using pg(3) by (auto simp: page_ok_def)
    show ?thesis
    proof (cases "is_full_for C room pg")
      case False
      then have "descend_for_write C i room ?r ?T = Some (Inr ?r, ?T)"
        using leaf pg(1) by (subst descend_for_write.simps) (simp add: get_page_def ok_or_def)
      moreover have "route_step i pg = Arrived" by (rule route_step_leaf) (use pg(4) inner in \<open>simp_all add: to_high_def\<close>)
      ultimately show ?thesis using set w pg(1) False by (auto simp: descended_def at_leaf_def intro!: exI [of _ S])
    next
      case True
      have two: "2 \<le> length (ip_entries pg)" by (rule full_two [OF C(1) pg(5) inner(2) True room])
      obtain x S1 L1 lv1 where s: "split_root_page C i room pg ?T = (x, ts_tree S1)" "silently C S S1" "settled C L1 lv1 S1" "ts_walks S1 = ts_walks S"
          "x = Inr () \<longrightarrow> (\<exists>q. bt_pages (ts_tree S1) ?r = Some q \<and> ip_inner q)"
        using split_root_quiet [OF set C(2) refl pg(1) True two] by metis
      have desc: "descend_for_write C i room ?r ?T = (case x of Inl e \<Rightarrow> Some (Inl e, ts_tree S1) | Inr _ \<Rightarrow> descend_for_write C i room ?r (ts_tree S1))"
        using leaf pg(1) True by (subst descend_for_write.simps) (simp add: get_page_def ok_or_def s(1))
      show ?thesis
      proof (cases x)
        case (Inl e)
        then show ?thesis using s(2,3) by (auto simp: desc descended_def)
      next
        case (Inr u)
        then obtain q where q: "bt_pages (ts_tree S1) ?r = Some q" "ip_inner q" using s(5) by auto
        have r1: "bt_root (ts_tree S1) = ?r" by (rule quiet_root [OF s(2)])
        obtain q' where q': "bt_pages (ts_tree S1) ?r = Some q'" "L1 ?r = Some None" "page_ok L1 lv1 (high_of (bt_pages (ts_tree S1))) (lv1 ?r) None q'" "ip_high q' = None"
          by (rule root_page [OF s(3), unfolded r1])
        have nl: "\<not> (ip_leaf q \<and> ?r = bt_root (ts_tree S1))" using q q' by (auto simp: page_ok_def)
        have "descended C S1 w i room (descend_for_write C i room ?r (ts_tree S1))"
          by (rule descend_quiet [OF C room s(3) _ q'(2) _ q(1) _ nl refl]) (use w s(4) q q' in \<open>simp_all add: from_low_def to_high_def\<close>)
        then show ?thesis using descended_from [OF s(2)] Inr by (simp add: desc)
      qed
    qed
  qed
qed

declare descend_retrying.simps [simp del]

lemma retrying_quiet:
  assumes C: "roomy C" "numbers_pages C" "node_slack C" and room: "case room of Some r \<Rightarrow> r \<le> bc_leaf_budget C + FULL_SLACK | None \<Rightarrow> True"
  shows "settled C L lv S \<Longrightarrow> descended C S w i room (descend_retrying n C i room (ts_tree S))"
proof (induction n arbitrary: S L lv rule: nat_less_induct)
  case (1 n)
  let ?T = "ts_tree S" and ?r = "bt_root (ts_tree S)"
  obtain pg where pg: "bt_pages ?T ?r = Some pg" "page_ok L lv (high_of (bt_pages ?T)) (lv ?r) None pg" "sized_page C pg"
    by (rule root_page [OF 1(2)])
  have leaf: "ip_leaf pg = (\<not> ip_inner pg)" using pg(2) by (simp add: page_ok_def)
  obtain x S1 L1 lv1 where s: "(if is_full_for C room pg then split_root_page C i room pg ?T else (Inr (), ?T)) = (x, ts_tree S1)" "silently C S S1" "settled C L1 lv1 S1"
  proof (cases "is_full_for C room pg")
    case True
    have "2 \<le> length (ip_entries pg)" by (rule full_two [OF C(1) pg(3) leaf True room])
    then show thesis using split_root_quiet [OF 1(2) C(2) refl pg(1) True] True that by metis
  next
    case False
    then show thesis using that [of "Inr ()" S] 1(2) by simp
  qed
  obtain S2 where S2: "silently C S1 S2" "settled C L1 lv1 S2" "ts_tree S2 = ts_tree S1" "ts_walks S2 w = Some (i, bt_root (ts_tree S2))"
    using restart_quiet [OF s(3)] by metis
  obtain r S3 where d: "descend_for_write C i room (bt_root (ts_tree S2)) (ts_tree S2) = Some (r, ts_tree S3)" "silently C S2 S3"
      "r = Inl PageCapacityError \<longrightarrow> (\<exists>L lv. settled C L lv S3)" "\<forall>leaf. r = Inr leaf \<longrightarrow> (\<exists>L lv. settled C L lv S3) \<and> at_leaf C S3 w i room leaf"
    using descend_root [OF C room S2(2,4)] unfolding descended_def by blast
  have q3: "silently C S S3" using silently_trans [OF silently_trans [OF s(2) S2(1)] d(2)] .
  have eq: "descend_retrying n C i room ?T = (case x of Inl e \<Rightarrow> Some (Inl e, ts_tree S1)
      | Inr _ \<Rightarrow> (case (r, n) of (Inl PageCapacityError, Suc n) \<Rightarrow> descend_retrying n C i room (ts_tree S3) | _ \<Rightarrow> Some (r, ts_tree S3)))"
    using pg(1) d(1) by (subst descend_retrying.simps) (simp add: get_page_def ok_or_def s(1) S2(3) split: sum.split)
  show ?case
  proof (cases x)
    case (Inl e)
    then show ?thesis using s(2,3) by (auto simp: eq descended_def)
  next
    case (Inr u)
    show ?thesis
    proof (cases "r = Inl PageCapacityError \<and> n \<noteq> 0")
      case True
      then obtain k L3 lv3 where k: "n = Suc k" "settled C L3 lv3 S3" using d(3) by (metis not0_implies_Suc)
      have "descended C S3 w i room (descend_retrying k C i room (ts_tree S3))" using 1(1) [rule_format, of k L3 lv3 S3] k by simp
      then show ?thesis unfolding eq using descended_from [OF q3] True Inr k(1) by simp
    next
      case False
      then have "descend_retrying n C i room ?T = Some (r, ts_tree S3)" using Inr by (auto simp: eq split: sum.splits store_error.splits nat.splits)
      then show ?thesis unfolding descended_def using q3 d(3,4) by blast
    qed
  qed
qed

section \<open>The optimistic path\<close>

lemma route_walk:
  assumes "route_to_leaf_id T i p = Some x"
  shows "\<forall>q pg S. x = Inr (q, pg) \<longrightarrow> settled C L lv S \<longrightarrow> ts_tree S = T \<longrightarrow> ts_walks S w = Some (i, p)
    \<longrightarrow> (\<exists>S'. silently C S S' \<and> settled C L lv S' \<and> ts_tree S' = T \<and> ts_walks S' w = Some (i, q)
        \<and> bt_pages T q = Some pg \<and> (route_step i pg = Arrived))"
proof (rule route_to_leaf_id.raw_induct [OF _ assms])
  fix f :: "btree \<Rightarrow> dbid \<Rightarrow> nat \<Rightarrow> (serr + nat \<times> index_page) option" and T i p x
  assume IH: "\<And>T i p x. f T i p = Some x \<Longrightarrow> \<forall>q pg S. x = Inr (q, pg) \<longrightarrow> settled C L lv S \<longrightarrow> ts_tree S = T \<longrightarrow> ts_walks S w = Some (i, p)
    \<longrightarrow> (\<exists>S'. silently C S S' \<and> settled C L lv S' \<and> ts_tree S' = T \<and> ts_walks S' w = Some (i, q) \<and> bt_pages T q = Some pg \<and> (route_step i pg = Arrived))"
    and eq: "(case get_page T p of Inl e \<Rightarrow> Some (Inl e) | Inr pg \<Rightarrow> (case route_step i pg of Arrived \<Rightarrow> Some (Inr (p, pg)) | Go next \<Rightarrow> f T i next
        | Corrupt \<Rightarrow> Some (Inl (Corruption ''expected an inner routing entry'')))) = Some x"
  show "\<forall>q pg S. x = Inr (q, pg) \<longrightarrow> settled C L lv S \<longrightarrow> ts_tree S = T \<longrightarrow> ts_walks S w = Some (i, p)
    \<longrightarrow> (\<exists>S'. silently C S S' \<and> settled C L lv S' \<and> ts_tree S' = T \<and> ts_walks S' w = Some (i, q) \<and> bt_pages T q = Some pg \<and> (route_step i pg = Arrived))"
  proof (intro allI impI)
    fix q pg S assume a: "x = Inr (q, pg)" "settled C L lv S" "ts_tree S = T" "ts_walks S w = Some (i, p)"
    obtain pp where pp: "bt_pages T p = Some pp" using eq a(1) by (auto simp: get_page_def ok_or_def split: option.splits)
    show "\<exists>S'. silently C S S' \<and> settled C L lv S' \<and> ts_tree S' = T \<and> ts_walks S' w = Some (i, q) \<and> bt_pages T q = Some pg \<and> (route_step i pg = Arrived)"
    proof (cases "route_step i pp")
      case Arrived
      then show ?thesis using eq a pp by (auto simp: get_page_def ok_or_def intro!: exI [of _ S])
    next
      case (Go c)
      define S1 where "S1 = S\<lparr>ts_walks := (ts_walks S)(w \<mapsto> (i, c))\<rparr>"
      have S1: "silently C S S1" "settled C L lv S1" by (rule move_quiet [OF a(2,4) _ Go S1_def], simp add: a(3) pp)+
      have "f T i c = Some x" using eq pp Go by (simp add: get_page_def ok_or_def)
      from IH [OF this] a(1,3) S1(2) obtain S' where "silently C S1 S'" "settled C L lv S' \<and> ts_tree S' = T \<and> ts_walks S' w = Some (i, q) \<and> bt_pages T q = Some pg \<and> route_step i pg = Arrived"
        by (auto simp: S1_def)
      then show ?thesis using silently_trans [OF S1(1)] by blast
    next
      case Corrupt
      then show ?thesis using eq a pp by (simp add: get_page_def ok_or_def)
    qed
  qed
qed

lemma optimistic_quiet:
  assumes set: "settled C L lv S"
  shows "optimistic (Suc n) C (i, x) room (ts_tree S) = Some (Inr None)
    \<or> (\<exists>leaf S'. optimistic (Suc n) C (i, x) room (ts_tree S) = Some (Inr (Some leaf)) \<and> silently C S S' \<and> settled C L lv S' \<and> ts_tree S' = ts_tree S \<and> at_leaf C S' w i room leaf)"
proof -
  let ?T = "ts_tree S"
  obtain S1 where S1: "silently C S S1" "settled C L lv S1" "ts_tree S1 = ?T" "ts_walks S1 w = Some (i, bt_root ?T)" using restart_quiet [OF set] by blast
  have root: "L (bt_root ?T) = Some None" "from_low None i" using wf_treeD(3) [OF settledD(5) [OF set]] by (simp_all add: from_low_def)
  obtain q low pg where q: "route_to_leaf_id ?T i (bt_root ?T) = Some (Inr (q, pg))" "bt_pages ?T q = Some pg" "ip_leaf pg" "to_high (ip_high pg) i"
    using route_total [OF settledD(5) [OF set] root] by metis
  obtain S2 where S2: "silently C S1 S2" "settled C L lv S2" "ts_tree S2 = ?T" "ts_walks S2 w = Some (i, q)" "route_step i pg = Arrived"
    using route_walk [OF q(1), of C L lv w] S1(2,3,4) by blast
  have re: "revalidate ?T i q = Some (Inr (Some (q, pg)))"
    using q(2,3) stays [OF q(4)] by (subst revalidate.simps) (simp add: get_page_def ok_or_def)
  show ?thesis
  proof (cases "\<not> is_full_for C room pg \<and> can_store C (i, x) pg")
    case True
    then have "optimistic (Suc n) C (i, x) room ?T = Some (Inr (Some q))" by (simp add: q(1) re)
    then show ?thesis using silently_trans [OF S1(1) S2(1)] S2 q(2) True by (auto simp: at_leaf_def)
  next
    case False
    then have "optimistic (Suc n) C (i, x) room ?T = Some (Inr None)" by (auto simp: q(1) re)
    then show ?thesis by blast
  qed
qed

lemma leaf_for_write_quiet:
  assumes C: "roomy C" "numbers_pages C" "node_slack C" and room: "case room of Some r \<Rightarrow> r \<le> bc_leaf_budget C + FULL_SLACK | None \<Rightarrow> True"
    and set: "settled C L lv S"
  shows "descended C S w i room (leaf_for_write C (i, x) room (ts_tree S))"
proof -
  have four: "(4 :: nat) = Suc 3" by simp
  from optimistic_quiet [OF set, of 3 i x room w, folded four] show ?thesis
  proof (elim disjE exE conjE)
    assume "optimistic 4 C (i, x) room (ts_tree S) = Some (Inr None)"
    then show ?thesis using retrying_quiet [OF C room set] by (simp add: leaf_for_write_def)
  next
    fix leaf S' assume "optimistic 4 C (i, x) room (ts_tree S) = Some (Inr (Some leaf))" "silently C S S'" "settled C L lv S'" "ts_tree S' = ts_tree S" "at_leaf C S' w i room leaf"
    then show ?thesis by (auto simp: leaf_for_write_def descended_def intro!: exI [of _ S'])
  qed
qed

section \<open>A leaf with room\<close>

definition row_sizes :: "btree_cfg \<Rightarrow> bool" where
  "row_sizes C = (\<forall>k t. bc_size C (k, Leaf t) = bc_size C (t_id t, Leaf t))"

definition found_leaf :: "btree_cfg \<Rightarrow> tree_state \<Rightarrow> nat \<Rightarrow> dbid \<Rightarrow> ((serr + (nat \<times> index_page)) \<times> btree) option \<Rightarrow> bool" where
  "found_leaf C S w i result = (\<exists>r S'. result = Some (r, ts_tree S') \<and> silently C S S'
     \<and> (\<forall>leaf pg. r = Inr (leaf, pg) \<longrightarrow> (\<exists>L lv. settled C L lv S') \<and> ts_walks S' w = Some (i, leaf)
         \<and> bt_pages (ts_tree S') leaf = Some pg \<and> route_step i pg = Arrived))"

lemma found_leaf_from: "silently C S S1 \<Longrightarrow> found_leaf C S1 w i r \<Longrightarrow> found_leaf C S w i r"
  unfolding found_leaf_def using silently_trans by blast

lemma leaf_row_size:
  assumes "settled C L lv S" "row_sizes C" "ts_walks S w = Some (i, p)" "bt_pages (ts_tree S) p = Some pg" "route_step i pg = Arrived"
  shows "contents (ts_tree S) i = row_at i pg" "row_at i pg = Some cur \<Longrightarrow> bc_size C (t_id cur, Leaf cur) \<le> bc_leaf_budget C"
proof -
  obtain low where a: "L p = Some low" "lv p = 0" "contents (ts_tree S) i = row_at i pg" by (rule walk_arrives [OF settledD(1) [OF assms(1)] assms(3-5)])
  then show "contents (ts_tree S) i = row_at i pg" by blast
  assume "row_at i pg = Some cur"
  then obtain e where "find (\<lambda>e. dbid_cmp (fst e) i = Equal) (ip_entries pg) = Some e" "snd e = Leaf cur"
    by (auto simp: row_at_def find_entry_def split: option.splits node.splits)
  then have "e \<in> set (ip_entries pg)" "snd e = Leaf cur" by (auto simp: find_Some_iff)
  then obtain k where k: "(k, Leaf cur) \<in> set (ip_entries pg)" by (metis prod.collapse)
  have "\<not> ip_inner pg"
  proof
    assume "ip_inner pg"
    from linked_routes(1) [OF settledD(5) [OF assms(1)] a(1) assms(4) this] show False using k a(2) routes_child [of L lv _ 0] by fastforce
  qed
  then have "bc_size C (k, Leaf cur) \<le> bc_leaf_budget C" using settled_sized [OF assms(1) a(1) assms(4)] k by (auto simp: sized_page_def too_large_def)
  then show "bc_size C (t_id cur, Leaf cur) \<le> bc_leaf_budget C" using assms(2) unfolding row_sizes_def by metis
qed

lemma leaf_with_room_step:
  assumes C: "roomy C" "numbers_pages C" "node_slack C" "row_sizes C" and asked: "asked \<le> bc_leaf_budget C + FULL_SLACK" and set: "settled C L lv S"
  shows "found_leaf C S w i (leaf_with_room C (i, x) room asked (ts_tree S))
    \<or> (\<exists>S1 cur L1 lv1. silently C S S1 \<and> settled C L1 lv1 S1 \<and> room = None \<and> contents (ts_tree S) i = Some cur \<and> asked < bc_size C (t_id cur, Leaf cur) + 10 + 4
        \<and> bc_size C (t_id cur, Leaf cur) \<le> bc_leaf_budget C
        \<and> leaf_with_room C (i, x) room asked (ts_tree S) = leaf_with_room C (i, x) room (bc_size C (t_id cur, Leaf cur) + 10 + 4) (ts_tree S1))"
proof -
  have "descended C S w i (Some asked) (leaf_for_write C (i, x) (Some asked) (ts_tree S))"
    by (rule leaf_for_write_quiet [OF C(1-3) _ set]) (use asked in simp)
  then obtain r S1 where d: "leaf_for_write C (i, x) (Some asked) (ts_tree S) = Some (r, ts_tree S1)" "silently C S S1"
      "\<forall>leaf. r = Inr leaf \<longrightarrow> (\<exists>L lv. settled C L lv S1) \<and> at_leaf C S1 w i (Some asked) leaf" unfolding descended_def by blast
  show ?thesis
  proof (cases r)
    case (Inl e)
    then have "leaf_with_room C (i, x) room asked (ts_tree S) = Some (Inl e, ts_tree S1)" by (subst leaf_with_room.simps) (simp add: d(1))
    then show ?thesis using d(2) by (auto simp: found_leaf_def)
  next
    case (Inr leaf)
    then obtain L1 lv1 pg where l: "settled C L1 lv1 S1" "ts_walks S1 w = Some (i, leaf)" "bt_pages (ts_tree S1) leaf = Some pg" "route_step i pg = Arrived"
      using d(3) by (auto simp: at_leaf_def)
    note row = leaf_row_size [OF l(1) C(4) l(2-4)]
    have same: "contents (ts_tree S1) = contents (ts_tree S)" by (rule quiet_contents [OF d(2) settledD(1) [OF set]])
    let ?need = "\<lambda>cur. bc_size C (t_id cur, Leaf cur) + 10 + 4"
    have eq: "leaf_with_room C (i, x) room asked (ts_tree S) = (case (room, row_at i pg) of
        (None, Some cur) \<Rightarrow> if asked < ?need cur \<and> is_full_for C (Some (?need cur)) pg then leaf_with_room C (i, x) room (?need cur) (ts_tree S1)
          else Some (Inr (leaf, pg), ts_tree S1)
      | _ \<Rightarrow> Some (Inr (leaf, pg), ts_tree S1))"
      using l(3) by (subst leaf_with_room.simps) (simp add: d(1) Inr get_page_def ok_or_def Let_def split: option.split)
    have found: "found_leaf C S w i (Some (Inr (leaf, pg), ts_tree S1))" using d(2) l by (auto simp: found_leaf_def)
    show ?thesis
    proof (cases "\<exists>cur. room = None \<and> row_at i pg = Some cur \<and> asked < ?need cur \<and> is_full_for C (Some (?need cur)) pg")
      case True
      then obtain cur where c: "room = None" "row_at i pg = Some cur" "asked < ?need cur" "is_full_for C (Some (?need cur)) pg" by blast
      then have "leaf_with_room C (i, x) room asked (ts_tree S) = leaf_with_room C (i, x) room (?need cur) (ts_tree S1)" unfolding eq by simp
      then show ?thesis using d(2) l(1) c row same by metis
    next
      case False
      then have "leaf_with_room C (i, x) room asked (ts_tree S) = Some (Inr (leaf, pg), ts_tree S1)" unfolding eq by (auto split: option.split)
      then show ?thesis using found by simp
    qed
  qed
qed

lemma leaf_with_room_quiet:
  assumes C: "roomy C" "numbers_pages C" "node_slack C" "row_sizes C" and asked: "asked \<le> bc_leaf_budget C + FULL_SLACK" and set: "settled C L lv S"
  shows "found_leaf C S w i (leaf_with_room C (i, x) room asked (ts_tree S))"
  using leaf_with_room_step [OF C asked set, of w i x room]
proof (elim disjE exE conjE)
  fix S1 cur L1 lv1
  assume a: "silently C S S1" "settled C L1 lv1 S1" "room = None" "contents (ts_tree S) i = Some cur" "bc_size C (t_id cur, Leaf cur) \<le> bc_leaf_budget C"
    "leaf_with_room C (i, x) room asked (ts_tree S) = leaf_with_room C (i, x) room (bc_size C (t_id cur, Leaf cur) + 10 + 4) (ts_tree S1)"
  have "contents (ts_tree S1) i = Some cur" using quiet_contents [OF a(1) settledD(1) [OF set]] a(4) by simp
  then have "found_leaf C S1 w i (leaf_with_room C (i, x) room (bc_size C (t_id cur, Leaf cur) + 10 + 4) (ts_tree S1))"
    using leaf_with_room_step [OF C _ a(2), of "bc_size C (t_id cur, Leaf cur) + 10 + 4" w i x room] a(5) by auto
  then show ?thesis using found_leaf_from [OF a(1)] a(6) by simp
qed

section \<open>A write\<close>

lemma apply_sized:
  assumes "sized_page C pg" "apply_in_leaf C i present d pg = Inr (res, q)"
  shows "sized_page C q"
  using assms by (auto simp: apply_in_leaf_def r_bind_eq_Inr add_tuple_def replace_tuple_def remove_tuple_def sized_page_def too_large_def set_put_entry
      split: decision.splits if_splits option.splits node.splits)

lemma write_settled:
  assumes set: "settled C L lv S" and w: "ts_walks S w = Some (i, p)" "bt_pages (ts_tree S) p = Some pg" "route_step i pg = Arrived"
    and d: "decision_for i d" and app: "apply_in_leaf C i (row_at i pg \<noteq> None) d pg = Inr (res, q)"
    and S': "S' = S\<lparr>ts_tree := write_page p q (ts_tree S), ts_walks := (ts_walks S)(w := None)\<rparr>"
  shows "settled C L lv S'" "table_event (Wrote i d res) (contents (ts_tree S)) = Some (contents (ts_tree S'))"
proof -
  note ok = settledD(1) [OF set] and wf = settledD(5) [OF set]
  have "state_ok L lv S' \<and> table_event (Wrote i d res) (contents (ts_tree S)) = Some (contents (ts_tree S'))"
    by (rule write_row_ok [OF ok w d app]) (simp_all add: S')
  then have ok': "state_ok L lv S'" and "table_event (Wrote i d res) (contents (ts_tree S)) = Some (contents (ts_tree S'))" by blast+
  then show "table_event (Wrote i d res) (contents (ts_tree S)) = Some (contents (ts_tree S'))" by blast
  obtain low where a: "L p = Some low" "lv p = 0" "from_low low i" "to_high (ip_high pg) i" by (rule walk_arrives [OF ok w])
  have pok: "page_ok L lv (high_of (bt_pages (ts_tree S))) 0 low pg" using wf_page [OF wf a(1)] w(2) a(2) by auto
  then have leaf: "\<not> ip_inner pg" "leaf_ok low pg" by (cases "ip_entries pg"; auto simp: page_ok_def inner_ok_def)+
  obtain es where q: "q = pg\<lparr>ip_entries := es\<rparr>" using apply_in_leaf_spec(1) [OF leaf(2) a(3,4) d app] by blast
  have hi: "high_of (bt_pages (ts_tree S')) c = high_of (bt_pages (ts_tree S)) c" for c using w(2) by (auto simp: S' q high_of_def)
  have "tight L (ts_tree S')" unfolding tight_def hi
    using settledD(2) [OF set] leaf(1) by (auto simp: tight_def S' q split: if_splits)
  moreover have "sized C L (ts_tree S')"
    using settledD(3) [OF set] apply_sized [OF settled_sized [OF set a(1) w(2)] app] by (auto simp: sized_def S')
  ultimately show "settled C L lv S'" using ok' settledD(4) [OF set] by (simp add: settled_def S')
qed

definition room_ok :: "btree_cfg \<Rightarrow> nat option \<Rightarrow> bool" where
  "room_ok C room = (case room of Some r \<Rightarrow> r \<le> bc_leaf_budget C + FULL_SLACK | None \<Rightarrow> True)"

definition decides_for :: "dbid \<Rightarrow> (tuple option \<Rightarrow> serr + decision) \<Rightarrow> bool" where
  "decides_for i decide = (\<forall>cur d. decide cur = Inr d \<longrightarrow> decision_for i d)"

definition first_asked :: "nat option \<Rightarrow> nat" where
  "first_asked room = (case room of Some r \<Rightarrow> r | None \<Rightarrow> 0)"

text \<open>
  A write, given the leaf it found: the decision is made for the row the table has, and either nothing
  changes but for splits, or the row does.
\<close>

lemma write_in_leaf_settled:
  assumes C: "roomy C" "numbers_pages C" "node_slack C" "row_sizes C" and room: "room_ok C room" and set: "settled C L lv S"
    and d: "decides_for i decide"
  shows "\<exists>r S'. write_in_leaf C (i, x) room decide (ts_tree S) = Some (r, ts_tree S')
    \<and> (case leaf_with_room C (i, x) room (first_asked room) (ts_tree S) of
         None \<Rightarrow> False
       | Some (Inl e, T1) \<Rightarrow> r = Inl e \<and> contents (ts_tree S') = contents (ts_tree S)
       | Some (Inr (leaf, pg), T1) \<Rightarrow> (\<exists>L lv. settled C L lv S')
           \<and> (case r_bind (decide (contents (ts_tree S) i)) (\<lambda>d. r_bind (apply_in_leaf C i (contents (ts_tree S) i \<noteq> None) d pg) (\<lambda>_. Inr d)) of
                Inl e \<Rightarrow> r = Inl e \<and> contents (ts_tree S') = contents (ts_tree S)
              | Inr d \<Rightarrow> (\<exists>res. r = Inr res \<and> table_event (Wrote i d res) (contents (ts_tree S)) = Some (contents (ts_tree S')))))"
proof -
  have "first_asked room \<le> bc_leaf_budget C + FULL_SLACK" using room by (auto simp: first_asked_def room_ok_def split: option.splits)
  from leaf_with_room_quiet [OF C this set, of 0 i x room] obtain r1 S1 where
      l: "leaf_with_room C (i, x) room (first_asked room) (ts_tree S) = Some (r1, ts_tree S1)" "silently C S S1"
      "\<forall>leaf pg. r1 = Inr (leaf, pg) \<longrightarrow> (\<exists>L lv. settled C L lv S1) \<and> ts_walks S1 0 = Some (i, leaf)
         \<and> bt_pages (ts_tree S1) leaf = Some pg \<and> route_step i pg = Arrived" unfolding found_leaf_def by blast
  have same: "contents (ts_tree S1) = contents (ts_tree S)" by (rule quiet_contents [OF l(2) settledD(1) [OF set]])
  note wl = write_in_leaf_def [of C "(i, x)" room decide "ts_tree S", folded first_asked_def]
  show ?thesis
  proof (cases r1)
    case (Inl e)
    then have "write_in_leaf C (i, x) room decide (ts_tree S) = Some (Inl e, ts_tree S1)" by (simp add: wl l(1))
    then show ?thesis using Inl l(1) same by auto
  next
    case (Inr lp)
    then obtain leaf pg L1 lv1 where r1: "r1 = Inr (leaf, pg)" and s: "settled C L1 lv1 S1" "ts_walks S1 0 = Some (i, leaf)" "bt_pages (ts_tree S1) leaf = Some pg" "route_step i pg = Arrived"
      using l(3) by (cases lp) auto
    have cur: "row_at i pg = contents (ts_tree S) i" using leaf_row_size(1) [OF s(1) C(4) s(2-4)] same by simp
    let ?cur = "contents (ts_tree S) i"
    have eq: "write_in_leaf C (i, x) room decide (ts_tree S) = (case r_bind (decide ?cur) (\<lambda>d. apply_in_leaf C i (?cur \<noteq> None) d pg) of
        Inl e \<Rightarrow> Some (Inl e, ts_tree S1) | Inr (WSkipped, _) \<Rightarrow> Some (Inr WSkipped, ts_tree S1) | Inr (res, q) \<Rightarrow> Some (Inr res, write_page leaf q (ts_tree S1)))"
      by (simp add: wl l(1) r1 cur Let_def)
    show ?thesis
    proof (cases "r_bind (decide ?cur) (\<lambda>d. apply_in_leaf C i (?cur \<noteq> None) d pg)")
      case (Inl e)
      then have "write_in_leaf C (i, x) room decide (ts_tree S) = Some (Inl e, ts_tree S1)" by (simp add: eq)
      then show ?thesis using Inl s(1) same by (auto simp: l(1) r1 r_bind_eq_Inl intro!: exI [of _ S1])
    next
      case (Inr rq)
      then obtain dec res q where a: "decide ?cur = Inr dec" "apply_in_leaf C i (?cur \<noteq> None) dec pg = Inr (res, q)" by (cases rq) (auto simp: r_bind_eq_Inr)
      define S2 where "S2 = S1\<lparr>ts_tree := write_page leaf q (ts_tree S1), ts_walks := (ts_walks S1)(0 := None)\<rparr>"
      have a': "apply_in_leaf C i (row_at i pg \<noteq> None) dec pg = Inr (res, q)" using a(2) by (simp add: cur)
      have "decision_for i dec" using d a(1) by (simp add: decides_for_def)
      note ws = write_settled [OF s this a' S2_def]
      show ?thesis
      proof (cases "res = WSkipped")
        case True
        then have "dec = Skip" using a(2) by (auto simp: apply_in_leaf_def r_bind_eq_Inr split: decision.splits if_splits node.splits) (metis node.exhaust)+
        then have q: "q = pg" using a(2) by (simp add: apply_in_leaf_def)
        have "bt_pages (write_page leaf pg (ts_tree S1)) = bt_pages (ts_tree S1)" using s(3) by auto
        then have "write_page leaf pg (ts_tree S1) = ts_tree S1" by (cases "ts_tree S1") (simp add: write_page_def)
        then have "write_in_leaf C (i, x) room decide (ts_tree S) = Some (Inr res, ts_tree S2)" using a True by (simp add: eq S2_def q)
        then show ?thesis using ws same a by (auto simp: l(1) r1 intro!: exI [of _ S2])
      next
        case False
        then have "write_in_leaf C (i, x) room decide (ts_tree S) = Some (Inr res, ts_tree S2)" using a by (cases res) (simp_all add: eq S2_def)
        then show ?thesis using ws same a by (auto simp: l(1) r1 intro!: exI [of _ S2])
      qed
    qed
  qed
qed

end
