(* ===== verification/Btree_Table.thy ===== *)
theory Btree_Table
  imports Btree_Write
begin

text \<open>
  A table as its tree: what is reached by writes from an empty tree, and that one write of it is the
  \<open>write_version\<close> of the transactional core.
\<close>

section \<open>Trees reached by writes\<close>

text \<open>A write that found no leaf ends the history: a parent may then not know of a split below it.\<close>

inductive table_written :: "btree_cfg \<Rightarrow> btree \<Rightarrow> bool" for C :: btree_cfg where
  created: "root \<noteq> 0 \<Longrightarrow> table_written C (new_tree C root)"
| written: "table_written C T \<Longrightarrow> room_ok C room \<Longrightarrow> decides_for i decide
    \<Longrightarrow> leaf_with_room C (i, x) room (first_asked room) T = Some (Inr lp, T1)
    \<Longrightarrow> write_in_leaf C (i, x) room decide T = Some (r, T') \<Longrightarrow> table_written C T'"

lemma new_settled: "root \<noteq> 0 \<Longrightarrow> settled C [root \<mapsto> None] (\<lambda>_. 0) (start_state C root)"
  using start_ok(1) [of root C]
  by (auto simp: settled_def tight_def sized_def sized_page_def start_state_def new_tree_def split: if_splits)

lemma written_settled:
  assumes C: "roomy C" "numbers_pages C" "node_slack C" "row_sizes C" and "table_written C T"
  shows "\<exists>S L lv. settled C L lv S \<and> ts_tree S = T"
  using assms(5)
proof (induction rule: table_written.induct)
  case (created root)
  then show ?case using new_settled [of root C] by (metis start_state_def tree_state.select_convs(1))
next
  case (written T room decide i x lp T1 r T')
  then obtain S L lv where S: "settled C L lv S" "ts_tree S = T" by blast
  from write_in_leaf_settled [where x = x, OF C written.hyps(2) S(1) written.hyps(3)] show ?case
    using written.hyps(4,5) by (cases lp) (auto simp: S(2))
qed

lemma row_key_eq: "row_key tid i = row_key tid j \<longleftrightarrow> dbid_cmp i j = Equal"
  using key_bytes_cmp [of i j] by (simp add: row_key_def encode_bytes slice_cmp_eq_iff [symmetric] del: slice_cmp_eq_iff)

lemma same_row: "(\<And>j. db_rows d (row_key tid j) = m j) \<Longrightarrow> dbid_cmp i j = Equal \<Longrightarrow> m j = m i"
  by (metis row_key_eq)

text \<open>The two ways a write ends, at the row store of the transactional core.\<close>

lemma write_outcome:
  assumes dec: "decide (m i) d = (rr, dd)" "db_rows dd = db_rows d" and rows: "\<And>j. db_rows d (row_key tid j) = m j"
  shows "r_bind rr (\<lambda>x. r_bind (apply_in_leaf C i (m i \<noteq> None) x pg) (\<lambda>_. Inr x)) = Inl e
      \<Longrightarrow> fst (write_version tid i (Some e) decide d) = Inl e \<and> db_rows (snd (write_version tid i (Some e) decide d)) = db_rows d"
    and "rr = Inr x \<Longrightarrow> table_event (Wrote i x res) m = Some m'
      \<Longrightarrow> fst (write_version tid i None decide d) = Inr res \<and> (\<forall>j. db_rows (snd (write_version tid i None decide d)) (row_key tid j) = m' j)"
proof -
  have w: "write_version tid i tree_err decide d = (case rr of
      Inl e \<Rightarrow> (Inl e, dd)
    | Inr Skip \<Rightarrow> (Inr WSkipped, dd)
    | Inr (Insert new) \<Rightarrow> if m i \<noteq> None then (Inl (DuplicateKey i), dd)
        else (case tree_err of Some e \<Rightarrow> (Inl e, dd) | None \<Rightarrow> (Inr WInserted, dd\<lparr>db_rows := (db_rows dd)(row_key tid i \<mapsto> new)\<rparr>))
    | Inr (Replace new) \<Rightarrow> (case m i of None \<Rightarrow> (Inl (KeyNotFound i), dd)
        | Some c \<Rightarrow> (case tree_err of Some e \<Rightarrow> (Inl e, dd) | None \<Rightarrow> (Inr (WReplaced c), dd\<lparr>db_rows := (db_rows dd)(row_key tid i \<mapsto> new)\<rparr>)))
    | Inr Delete \<Rightarrow> (case tree_err of Some e \<Rightarrow> (Inl e, dd) | None \<Rightarrow> (Inr (WDeleted (m i)), dd\<lparr>db_rows := (db_rows dd)(row_key tid i := None)\<rparr>)))" for tree_err
    by (simp add: write_version_def Let_def rows dec(1) split: sum.split decision.split option.split)
  have key: "row_key tid j = row_key tid i \<longleftrightarrow> dbid_cmp i j = Equal" for j by (metis row_key_eq)
  show "fst (write_version tid i (Some e) decide d) = Inl e \<and> db_rows (snd (write_version tid i (Some e) decide d)) = db_rows d"
    if "r_bind rr (\<lambda>x. r_bind (apply_in_leaf C i (m i \<noteq> None) x pg) (\<lambda>_. Inr x)) = Inl e"
  proof (cases rr)
    case (Inl e')
    then show ?thesis
      using that dec(2) by (simp add: w)
  next
    case (Inr x)
    then have "apply_in_leaf C i (m i \<noteq> None) x pg = Inl e" using that by (auto simp: r_bind_eq_Inl)
    then show ?thesis
      using dec(2) by (cases x; cases "m i") (simp_all add: w Inr apply_in_leaf_def)
  qed
  assume x: "rr = Inr x" and e: "table_event (Wrote i x res) m = Some m'"
  show "fst (write_version tid i None decide d) = Inr res \<and> (\<forall>j. db_rows (snd (write_version tid i None decide d)) (row_key tid j) = m' j)"
  proof (cases x)
    case Skip
    then show ?thesis using e same_row [OF rows] by (auto simp: w x result_of_def row_after_def rows dec(2) key split: if_splits)
  qed (use e in \<open>auto simp: w x result_of_def row_after_def rows dec(2) key split: if_splits\<close>)
qed

lemma write_at_leaf:
  assumes rows: "\<And>j. db_rows d (row_key tid j) = m j" and keeps: "\<And>cur. db_rows (snd (decide cur d)) = db_rows d"
    and c: "case r_bind (fst (decide (m i) d)) (\<lambda>dec. r_bind (apply_in_leaf C i (m i \<noteq> None) dec pg) (\<lambda>_. Inr dec)) of
        Inl e \<Rightarrow> r = Inl e \<and> m' = m
      | Inr dec \<Rightarrow> (\<exists>res. r = Inr res \<and> table_event (Wrote i dec res) m = Some m')"
  shows "\<exists>tree_err. r = fst (write_version tid i tree_err decide d)
    \<and> (\<forall>j. db_rows (snd (write_version tid i tree_err decide d)) (row_key tid j) = m' j)
    \<and> (\<forall>e. tree_err = Some e
         \<longrightarrow> r_bind (fst (decide (m i) d)) (\<lambda>dec. r_bind (apply_in_leaf C i (m i \<noteq> None) dec pg) (\<lambda>_. Inr dec)) = Inl e)"
proof -
  obtain dd rr where dec: "decide (m i) d = (rr, dd)" "db_rows dd = db_rows d" using keeps [of "m i"] by (cases "decide (m i) d") auto
  note c = c [unfolded dec(1) fst_conv]
  show ?thesis
  proof (cases "r_bind rr (\<lambda>dec. r_bind (apply_in_leaf C i (m i \<noteq> None) dec pg) (\<lambda>_. Inr dec))")
    case (Inl e)
    from write_outcome(1) [where m = m and decide = decide and i = i, OF dec rows, of C pg e] Inl
    have "fst (write_version tid i (Some e) decide d) = Inl e" "db_rows (snd (write_version tid i (Some e) decide d)) = db_rows d" by blast+
    moreover have "r = Inl e" "m' = m" using c Inl by auto
    ultimately show ?thesis using Inl by (auto simp: rows dec intro!: exI [of _ "Some e"])
  next
    case (Inr x)
    then have "rr = Inr x" by (auto simp: r_bind_eq_Inr)
    with Inr c obtain res where "r = Inr res" "table_event (Wrote i x res) m = Some m'" by auto
    from write_outcome(2) [where m = m and decide = decide and i = i, OF dec rows \<open>rr = Inr x\<close> this(2)] this(1) show ?thesis by (auto intro!: exI [of _ None])
  qed
qed

text \<open>
  C8. A write to a table's tree, from the search for its leaf to the change of its row, always comes to
  an end. When no leaf with room could be made, the error it returns leaves every row as it was, whatever
  was split on the way. Otherwise \<open>decide\<close> was asked with the row the table has, and the write returns and
  changes exactly what \<open>write_version\<close> of the transactional core does, for every row of the table; it
  fails on the tree's side only when the leaf does not take what was decided.
\<close>

theorem write_in_leaf_is_write_version:
  assumes C: "roomy C" "numbers_pages C" "node_slack C" "row_sizes C" and T: "table_written C T" and room: "room_ok C room"
    and rows: "\<And>j. db_rows d (row_key tid j) = contents T j" and keeps: "\<And>cur. db_rows (snd (decide cur d)) = db_rows d"
    and fits: "decides_for i (\<lambda>cur. fst (decide cur d))"
  shows "\<exists>r T'. write_in_leaf C (i, x) room (\<lambda>cur. fst (decide cur d)) T = Some (r, T')
    \<and> (case leaf_with_room C (i, x) room (first_asked room) T of
         None \<Rightarrow> False
       | Some (Inl e, _) \<Rightarrow> r = Inl e \<and> contents T' = contents T
       | Some (Inr (_, pg), _) \<Rightarrow> (\<exists>tree_err. r = fst (write_version tid i tree_err decide d)
           \<and> (\<forall>j. db_rows (snd (write_version tid i tree_err decide d)) (row_key tid j) = contents T' j)
           \<and> (\<forall>e. tree_err = Some e
                \<longrightarrow> r_bind (fst (decide (contents T i) d)) (\<lambda>dec. r_bind (apply_in_leaf C i (contents T i \<noteq> None) dec pg) (\<lambda>_. Inr dec)) = Inl e)))"
proof -
  obtain S L lv where S: "settled C L lv S" "ts_tree S = T" using written_settled [OF C T] by blast
  let ?cur = "contents T i" and ?key = "row_key tid i"
  obtain r S' where w: "write_in_leaf C (i, x) room (\<lambda>cur. fst (decide cur d)) T = Some (r, ts_tree S')"
    and c: "case leaf_with_room C (i, x) room (first_asked room) T of
         None \<Rightarrow> False
       | Some (Inl e, T1) \<Rightarrow> r = Inl e \<and> contents (ts_tree S') = contents T
       | Some (Inr (leaf, pg), T1) \<Rightarrow> (\<exists>L lv. settled C L lv S')
           \<and> (case r_bind (fst (decide ?cur d)) (\<lambda>dec. r_bind (apply_in_leaf C i (?cur \<noteq> None) dec pg) (\<lambda>_. Inr dec)) of
                Inl e \<Rightarrow> r = Inl e \<and> contents (ts_tree S') = contents T
              | Inr dec \<Rightarrow> (\<exists>res. r = Inr res \<and> table_event (Wrote i dec res) (contents T) = Some (contents (ts_tree S'))))"
    using write_in_leaf_settled [where x = x, OF C room S(1) fits] unfolding S(2) by blast
  have "case leaf_with_room C (i, x) room (first_asked room) T of None \<Rightarrow> False | Some (Inl e, _) \<Rightarrow> r = Inl e \<and> contents (ts_tree S') = contents T
       | Some (Inr (_, pg), _) \<Rightarrow> (\<exists>tree_err. r = fst (write_version tid i tree_err decide d)
           \<and> (\<forall>j. db_rows (snd (write_version tid i tree_err decide d)) (row_key tid j) = contents (ts_tree S') j)
           \<and> (\<forall>e. tree_err = Some e
                \<longrightarrow> r_bind (fst (decide ?cur d)) (\<lambda>dec. r_bind (apply_in_leaf C i (?cur \<noteq> None) dec pg) (\<lambda>_. Inr dec)) = Inl e))"
  proof (cases "leaf_with_room C (i, x) room (first_asked room) T")
    case (Some lr)
    then consider e T1 where "lr = (Inl e, T1)" | leaf pg T1 where "lr = (Inr (leaf, pg), T1)" by (metis prod.exhaust sum.exhaust)
    then show ?thesis
    proof cases
      case 2
      with c Some show ?thesis by (auto simp del: not_None_eq intro!: write_at_leaf [where m = "contents T" and decide = decide and i = i, OF rows keeps])
    qed (use c Some in auto)
  qed (use c in auto)
  with w show ?thesis by blast
qed

lemma demo_cfg_sound: "roomy demo_cfg" "numbers_pages demo_cfg" "node_slack demo_cfg" "row_sizes demo_cfg"
proof -
  have "Suc (Max (insert 0 (dom m))) \<notin> dom m" if "finite (dom m)" for m :: "nat \<rightharpoonup> index_page"
  proof
    assume "Suc (Max (insert 0 (dom m))) \<in> dom m"
    then have "Suc (Max (insert 0 (dom m))) \<le> Max (insert 0 (dom m))" using that by (intro Max_ge) auto
    then show False by simp
  qed
  then show "numbers_pages demo_cfg" by (simp add: numbers_pages_def demo_cfg_def)
qed (simp_all add: roomy_def node_slack_def row_sizes_def demo_cfg_def)

text \<open>An insert into an empty table, through an optimistic descent.\<close>

definition demo_db :: db where
  "demo_db = \<lparr>db_tm = tm_new clock_default, db_vs = vs_new, db_rows = Map.empty, db_tables = [1 \<mapsto> None], db_log = [], db_degraded = None,
     db_forced = Map.empty, db_attempts = Map.empty\<rparr>"

definition demo_insert :: "tuple option \<Rightarrow> db \<Rightarrow> (serr + decision) \<times> db" where
  "demo_insert cur d = (case cur of None \<Rightarrow> Inr (Insert (demo_tuple (IntId 7))) | Some _ \<Rightarrow> Inl (DuplicateKey (IntId 7)), d)"

lemma demo_leaf_found:
  "leaf_with_room demo_cfg (IntId 7, Leaf (demo_tuple (IntId 7))) (Some 30) (first_asked (Some 30)) (new_tree demo_cfg 2)
     = Some (Inr (2, demo_leaf []), new_tree demo_cfg 2)"
proof -
  have p: "get_page (new_tree demo_cfg 2) 2 = Inr (demo_leaf [])" "bt_root (new_tree demo_cfg 2) = 2"
    by (simp_all add: new_tree_def demo_leaf_def demo_cfg_def)
  have "route_to_leaf_id (new_tree demo_cfg 2) (IntId 7) 2 = Some (Inr (2, demo_leaf []))"
    by (subst route_to_leaf_id.simps) (simp add: p del: get_page_Inr, simp add: route_step_def demo_leaf_def)
  moreover have "revalidate (new_tree demo_cfg 2) (IntId 7) 2 = Some (Inr (Some (2, demo_leaf [])))"
    by (subst revalidate.simps) (simp add: p del: get_page_Inr, simp add: demo_leaf_def)
  moreover have "\<not> is_full_for demo_cfg (Some 30) (demo_leaf []) \<and> can_store demo_cfg (IntId 7, Leaf (demo_tuple (IntId 7))) (demo_leaf [])"
    by (simp add: is_full_for_def can_store_def used_data_size_def demo_leaf_def demo_cfg_def)
  ultimately have "optimistic (Suc 3) demo_cfg (IntId 7, Leaf (demo_tuple (IntId 7))) (Some 30) (new_tree demo_cfg 2) = Some (Inr (Some 2))"
    by (simp only: optimistic.simps fst_conv p(2)) simp
  then have "leaf_for_write demo_cfg (IntId 7, Leaf (demo_tuple (IntId 7))) (Some 30) (new_tree demo_cfg 2) = Some (Inr 2, new_tree demo_cfg 2)"
    by (simp add: leaf_for_write_def)
  then show ?thesis by (subst leaf_with_room.simps) (simp add: first_asked_def p del: get_page_Inr)
qed

theorem write_in_leaf_is_write_version_witness:
  "\<exists>T'. write_in_leaf demo_cfg (IntId 7, Leaf (demo_tuple (IntId 7))) (Some 30) (\<lambda>cur. fst (demo_insert cur demo_db)) (new_tree demo_cfg 2)
      = Some (Inr WInserted, T') \<and> contents T' (IntId 7) = Some (demo_tuple (IntId 7))"
proof -
  let ?d = "demo_db" and ?T = "new_tree demo_cfg 2"
  have none: "contents ?T j = None" for j using start_ok(2) [of 2 demo_cfg] by (simp add: start_state_def fun_eq_iff)
  have dec: "fst (demo_insert None ?d) = Inr (Insert (demo_tuple (IntId 7)))"
    by (simp add: demo_insert_def)
  have rows: "db_rows (snd (demo_insert cur ?d)) = db_rows ?d" for cur
    by (simp add: demo_insert_def)
  have fits: "decides_for (IntId 7) (\<lambda>cur. fst (demo_insert cur ?d))"
    by (auto simp: decides_for_def demo_insert_def decision_for_def demo_tuple_def split: option.splits)
  have room: "room_ok demo_cfg (Some 30)" by (simp add: room_ok_def demo_cfg_def)
  have empty: "db_rows ?d (row_key 1 j) = contents ?T j" for j using none by (simp add: demo_db_def)
  obtain r T' where w: "write_in_leaf demo_cfg (IntId 7, Leaf (demo_tuple (IntId 7))) (Some 30) (\<lambda>cur. fst (demo_insert cur ?d)) ?T = Some (r, T')"
    and c: "\<exists>tree_err. r = fst (write_version 1 (IntId 7) tree_err demo_insert ?d)
        \<and> (\<forall>j. db_rows (snd (write_version 1 (IntId 7) tree_err demo_insert ?d)) (row_key 1 j) = contents T' j)
        \<and> (\<forall>e. tree_err = Some e \<longrightarrow> r_bind (fst (demo_insert (contents ?T (IntId 7)) ?d))
             (\<lambda>dec. r_bind (apply_in_leaf demo_cfg (IntId 7) (contents ?T (IntId 7) \<noteq> None) dec (demo_leaf [])) (\<lambda>_. Inr dec)) = Inl e)"
    using write_in_leaf_is_write_version [where x = "Leaf (demo_tuple (IntId 7))" and decide = demo_insert and d = demo_db and tid = 1,
        OF demo_cfg_sound created room empty rows fits] unfolding demo_leaf_found by auto
  have "apply_in_leaf demo_cfg (IntId 7) False (Insert (demo_tuple (IntId 7))) (demo_leaf []) = Inr (WInserted, demo_leaf [(IntId 7, Leaf (demo_tuple (IntId 7)))])"
    by (simp add: apply_in_leaf_def demo_leaf_def find_entry_def add_tuple_def too_large_def can_store_def used_data_size_def put_entry_def demo_cfg_def
        demo_tuple_def)
  with c have "r = fst (write_version 1 (IntId 7) None demo_insert ?d)" "contents T' (IntId 7) = db_rows (snd (write_version 1 (IntId 7) None demo_insert ?d)) (row_key 1 (IntId 7))"
    by (auto simp: none dec)
  then have "r = Inr WInserted" "contents T' (IntId 7) = Some (demo_tuple (IntId 7))"
    using dec by (auto simp: write_version_def Let_def demo_db_def split: prod.splits)
  then show ?thesis using w by blast
qed

section \<open>A split its parent cannot be told of\<close>

text \<open>Inserts one after the other, each asking for 90 bytes of room.\<close>

fun insert_rows :: "btree_cfg \<Rightarrow> dbid list \<Rightarrow> btree \<Rightarrow> ((serr + write_result) list \<times> btree) option" where
  "insert_rows C [] T = Some ([], T)"
| "insert_rows C (i # is) T =
     Option.bind (write_in_leaf C (i, Leaf (demo_tuple i)) (Some 90)
         (\<lambda>cur. case cur of None \<Rightarrow> Inr (Insert (demo_tuple i)) | Some _ \<Rightarrow> Inl (DuplicateKey i)) T) (\<lambda>(r, T1).
       map_option (\<lambda>(rs, T2). (r # rs, T2)) (insert_rows C is T1))"

text \<open>
  A tree made for rows of up to 100 bytes and routing entries of up to 48, on pages with 464 usable
  bytes. Rows take 90 bytes and routing entries 20; the id 50 has a long key, which takes 60 bytes in a
  routing entry and, with little data beside it, 85 in its row. \<^verbatim>\<open>create\<close> takes such a tree (four rows fit a
  page), and the row is within its budget.
\<close>

definition long_key_cfg :: btree_cfg where
  "long_key_cfg = \<lparr>bc_size = (\<lambda>(k, v). case v of Inner _ \<Rightarrow> if k = IntId 50 then 60 else 20 | Leaf _ \<Rightarrow> if k = IntId 50 then 85 else 90),
     bc_overhead = 8, bc_usable = 464, bc_nodes_per_page = 11, bc_count_cap = None, bc_leaf_budget = 100, bc_inner_budget = 48,
     bc_alloc = (\<lambda>m. hd (filter (\<lambda>n. m n = None) [1..<9])), bc_takes = (\<lambda>_ _. True)\<rparr>"

lemma long_key_cfg_created: "roomy long_key_cfg"
  by (simp add: roomy_def long_key_cfg_def)

definition long_key_run :: "((serr + write_result) list \<times> btree) option" where
  "long_key_run = insert_rows long_key_cfg (map IntId [1, 2, 3, 4, 10, 50, 60, 30, 70, 80, 55]) (new_tree long_key_cfg 1)"

text \<open>
  A key too long for a routing entry is not refused where it is inserted, and once a leaf splits at
  it the tree is damaged: the leaf and its new sibling are published before the parent turns the separator
  down, so the insert of another row (30) fails with \<open>TupleTooLarge\<close>; later inserts find the sibling over
  its link, until it is full; then the descent, which goes by the parent's entries alone and looks at no
  high key, ends in the old leaf, and the insert (55) reports success for a row no lookup ever finds.
\<close>

lemma untold_split_loses_row:
  "map_option (\<lambda>(results, T). (results, tree_find T (IntId 55), tree_find T (IntId 80))) long_key_run =
     Some (replicate 7 (Inr WInserted) @ [Inl (TupleTooLarge 60 48)] @ replicate 3 (Inr WInserted),
       Some (Inr None), Some (Inr (Some (demo_tuple (IntId 80)))))"
  by code_simp

end
