(* ===== verification/Spec2Isabelle.thy ===== *)
theory Spec2Isabelle
  imports Slotted_Spec Wal_Log Crash_Recovery Sql_Like Sarg_Seek Btree_Scan Btree_Table
begin

text \<open>
  \<^bold>\<open>A verification of squeal-db's storage engine and of its SQL expressions.\<close>

  squeal-db is a relational and document database in Rust. Its engine, the crate \<open>store\<close>, keeps
  tuples under ordered keys in slotted pages of B+-trees, makes them transactional by multi-version
  concurrency control with snapshot isolation, and makes them durable by a write-ahead log. The SQL
  layer (\<open>squeal-sql\<close>, \<open>sql-parser\<close>) and the document layer (\<open>sq-json\<close>) are clients of it.

  \<^bold>\<open>Theories.\<close> Each models the file named, function by function, and proves what makes it correct.

  \<^item> \<open>Store_Prelude\<close>: what the components share - Rust's orderings and slices, big- and little-endian
    words, errors as values of a sum (\<open>error.rs\<close>), generic list lemmas.
  \<^item> \<open>Value_Item\<close> (\<open>valueitem.rs\<close>): typed values, their self-describing bytes and their bounds.
  \<^item> \<open>Key_Code\<close> (\<open>keycode.rs\<close>): the key encoding. Comparing key bytes is comparing ids; keys round-trip;
    byte prefixes are field prefixes; the 16-byte prefixes kept per slot are sound.
  \<^item> \<open>Tuple_Wire\<close> (\<open>tuple.rs\<close>, \<open>wire.rs\<close>): tuples, their encoding, and the reader that lends ids and data
    from bytes. Postcard, a third-party serializer, is a parameter (\<open>serializer\<close>) with the documented
    layout as its hypothesis, and an instance for the witnesses.
  \<^item> \<open>Slotted_Page\<close>, \<open>Slotted_Spec\<close> (\<open>pages/slotted.rs\<close>): the page as its byte buffer, and the refinement
    to a sorted list of tuples: adding, replacing (atomically), removing, searching, truncating, and
    reading back from bytes.
  \<^item> \<open>Kv_Map\<close> (\<open>utils/shardedmap.rs\<close>): the interface locale \<open>kv_map\<close>, and that a B-tree map and a sharded
    map implement it.
  \<^item> \<open>Txn_Manager\<close> (\<open>txn.rs\<close>, the clock of \<open>logger.rs\<close>): transaction states, snapshots, visibility,
    conflicts, the retention horizon, and the one counter ids and timestamps are drawn from.
  \<^item> \<open>Version_Store\<close> (\<open>version.rs\<close>): pre-images and undo, marking, vacuuming.
  \<^item> \<open>Mvcc_Db\<close> (\<open>db.rs\<close>, the write primitive of \<open>tables/bplustree.rs\<close>): reading, writing, committing,
    aborting and the maintenance pass, over one map of rows in place of the trees' pages.
  \<^item> \<open>Mvcc_Inv\<close>, \<open>Mvcc_Steps\<close>, \<open>Mvcc_Writes\<close>, \<open>Mvcc_Revert\<close>: the steps other threads can come between,
    the invariant every interleaving of them keeps, and that no step changes what a running reader
    finds. A version's chain of pre-images leads each running reader to what it must see.
  \<^item> \<open>Mvcc_Isolation\<close>: what clients are promised - snapshot isolation, reads that succeed, writes that
    build only on what is seen, aborts that leave no trace, beginning at the last commit.
  \<^item> \<open>Wal_Log\<close> (\<open>logger.rs\<close>): the bytes of the log's segments - headers, framed records, the scan. A log
    cut anywhere scans to its whole records; the scan ends on any bytes; a record damaged inside the
    log is an error, unless its length is what was damaged.
  \<^item> \<open>Generator\<close> (\<open>generator.rs\<close>): named sequences, with the parts of every call that others may come
    between; a sequence hands no value out twice, crashes included, from one making of it to the
    next; and what two callers that make one at the same time do to it.
  \<^item> \<open>Recovery\<close> (\<open>process_log\<close> of \<open>db.rs\<close>, the primitives of \<open>tables/bplustree.rs\<close> it calls): analysis,
    redo and undo over the log's records, and what they make of any rows the log accounts for.
  \<^item> \<open>Crash_Recovery\<close>: the log every run of \<open>Mvcc_Steps\<close> writes is one that recovery is right about,
    so that a crash at any moment loses exactly the transactions without a Commit on disk.
  \<^item> \<open>Key_Range\<close> (\<open>cursor.rs\<close>): ranges of keys and their scan, which finds exactly the keys in them.
  \<^item> \<open>Btree\<close> (\<open>tables/bplustree.rs\<close>, the entry operations of \<open>page.rs\<close>): the B-link tree of a table that keeps
    its rows in its leaves - routing, splits of pages and of the root, the descent of a writer, the
    write of a row.
  \<^item> \<open>Btree_Inv\<close>, \<open>Btree_Steps\<close>: the order every page is in, that routing ends, and that each page a split
    publishes keeps both the order and what every lookup finds.
  \<^item> \<open>Btree_Run\<close>: readers and writers of one tree, one page read or published at a time; lookups and
    writes are linearizable in every interleaving. \<open>Btree_Scan\<close>: scans over the leaves' links agree.
  \<^item> \<open>Btree_Write\<close>, \<open>Btree_Table\<close>: a write's descent and splits are such steps, it always ends, and it
    is the \<open>write_version\<close> \<open>Mvcc_Db\<close> rests on; and what a key too long for a parent does to a tree.
  \<^item> \<open>Float64\<close>: Rust's \<open>f64\<close> as its 64 bits, each finite one an exact multiple of the least positive
    one; comparing, truncating, converting and rounding defined on those numbers.
  \<^item> \<open>Sql_Eval\<close> (\<open>numeric.rs\<close>, \<open>plan/eval.rs\<close>, \<open>funcs.rs\<close>, \<open>subquery.rs\<close>, \<open>params.rs\<close> of \<open>squeal-sql\<close>):
    evaluating expressions with NULL and errors. Numbers of both types compare exactly; the plan's
    rewritings keep every value.
  \<^item> \<open>Sql_Like\<close>: the loop of LIKE ends and decides what the pattern says.
  \<^item> \<open>Sarg\<close>, \<open>Sarg_Exact\<close>, \<open>Sarg_Seek\<close> (\<open>plan/sarg.rs\<close>): from the conditions of a WHERE clause to ranges of an
    index's keys. A condition's set of values is exact, sets intersect as conditions do, and scanning
    the ranges (\<open>Key_Range\<close>) is filtering by the conditions, NaNs apart.

  \<^bold>\<open>How code is modelled.\<close> Structs are records, enums datatypes with the source's constructors,
  machine integers words of their width, \<open>Result\<close> a sum with the engine's error type on the left,
  \<open>Option\<close> an option; a function that mutates takes and returns its state. A loop is a recursive
  function with a termination proof; the two loops that wait for another thread (\<open>is_visible\<close>,
  \<open>wait_until_durable\<close>), the walk along a chain of versions and the backtracking of LIKE are partial
  functions with value \<open>None\<close> if they do not return, and it is proved when they do; so are the walks
  over the pages of a tree. The only counters are the code's own: four optimistic descents, sixteen retries. Errors of I/O
  (a log that refuses a record, a tree that fails) are arguments of the operation they strike.
  Counters are 64-bit words; the theorems on runs carry the hypothesis (\<open>room\<close>) that the number
  drawn next does not wrap around.

  \<^bold>\<open>Granularity of the steps.\<close> One step is what the code does under one lock, or between two draws
  from the counter: drawing a number, the decision and write of one row under its leaf's lock, each
  half of a commit, the marking of its versions, the flip to aborting, each stage of the
  maintenance pass. The check that a transaction is active, which the code makes before a write and
  not under the leaf's lock, is taken to hold at the write; \<open>late_write_survives_abort\<close> shows what
  happens when it does not. A commit whose record cannot be queued makes its transaction run again;
  the set \<open>F\<close> of a run (\<open>unlogged\<close> in \<open>Txn_Manager\<close>) is of the transactions this happens to, and what is
  promised to a reader leaves them out: \<open>failed_commit_forgets_snapshot\<close> shows why. Reverting an aborted transaction is one step and meets no error of the
  tree. Tables are neither created nor dropped during a run.

  \<^bold>\<open>Trees.\<close> A page's content is the list of its entries in key order, as \<open>Slotted_Spec\<close> has it; the sizes
  of entries, the budgets of a table and the numbering of new pages are parameters (\<open>btree_cfg\<close>) with
  hypotheses: \<open>roomy\<close> is what \<open>create\<close> checks of the leaf's budget and, beyond that, the same of the inner
  pages' (trees with wider routing entries, whose pages are bounded by a count, are left out);
  \<open>numbers_pages\<close>, \<open>node_slack\<close> and \<open>row_sizes\<close> say what the buffer pool and the encodings give. That the pages a
  writer publishes are locked by it is not modelled but is what makes each of its steps one step. A
  tree's least keys and levels (\<open>L\<close>, \<open>lv\<close>) exist only in proofs. After a write that finds no leaf because a
  separator did not fit its parent, \<open>table_written\<close> promises nothing more; \<open>untold_split_loses_row\<close> shows why.

  \<^bold>\<open>Crashes.\<close> What is left is a first part of the log, and under each key no row or one that stood there
  while the log was within that part: the buffer pool writes a page only once the records of its
  changes are on disk. The log is whole from its start; cutting it at a checkpoint's floor
  (\<open>replayed\<close>, \<open>retention_floor\<close>) is defined and not yet part of the theorem.

  \<^bold>\<open>Not modelled.\<close> Trees with separate data pages (relocation, the chain of data pages), batches of
  writes and bulk loads of trees; latches, the buffer pool, files and checkpoints; the logger's thread
  and its segment files; the catalog; of the SQL layer the parser, the planner, the optimizer, the
  executors with their aggregates, and the statements; the JSON layer, bindings and tools. They
  are listed with their reasons in the manifest's components.
\<close>

end
